(* ===== verification/C_Prelude.thy ===== *)
theory C_Prelude
  imports "HOL-Library.Word"
begin

unbundle bit_operations_syntax

text \<open>
  What the C programs of the repository share: machine words, the result type
  of code that may fault, arrays with their bounds, and byte-level memory with
  little-endian loads and stores.  A value \<open>Inl e\<close> is a run that ends in the
  fault \<open>e\<close>: an access outside an array, a dereference of a null or freed
  pointer, a failed assertion, a call of \<open>exit\<close>, a division by zero, the
  overflow of a signed product, a lock that is never released, a store to a
  read-only page.
\<close>

named_theorems fault_simps \<open>equations of the fault-or-value operations\<close>
named_theorems inv_intros \<open>preservation lemmas of state invariants\<close>

type_synonym u8 = "8 word"
type_synonym u16 = "16 word"
type_synonym u32 = "32 word"
type_synonym u64 = "64 word"

section \<open>Faults and sequencing\<close>

datatype fault =
    Out_Of_Bounds
  | Null_Deref
  | Use_After_Free
  | Assert_Failed
  | Exit_Failure
  | Div_By_Zero
  | Out_Of_Fuel
  | Deadlock
  | Signed_Overflow
  | Write_Protected
  | Exit_With int

type_synonym 'a res = "fault + 'a"

definition bindE :: "'a res \<Rightarrow> ('a \<Rightarrow> 'b res) \<Rightarrow> 'b res" where
  "bindE m f = (case m of Inl e \<Rightarrow> Inl e | Inr x \<Rightarrow> f x)"

definition guardE :: "fault \<Rightarrow> bool \<Rightarrow> unit res" where
  "guardE e b = (if b then Inr () else Inl e)"

lemma bindE_Inr [simp]: "bindE (Inr x) f = f x"
  by (simp add: bindE_def)

lemma bindE_Inl [simp]: "bindE (Inl e) f = Inl e"
  by (simp add: bindE_def)

lemma guardE_True [simp]: "b \<Longrightarrow> guardE e b = Inr ()"
  by (simp add: guardE_def)

lemma guardE_False [simp]: "\<not> b \<Longrightarrow> guardE e b = Inl e"
  by (simp add: guardE_def)

lemma guardE_Inr_iff: "guardE e b = Inr u \<longleftrightarrow> b"
  by (simp add: guardE_def)

lemma bindE_Inr_iff: "bindE m f = Inr y \<longleftrightarrow> (\<exists>x. m = Inr x \<and> f x = Inr y)"
  by (cases m) auto

lemma bindE_Inl_iff: "bindE m f = Inl e \<longleftrightarrow> m = Inl e \<or> (\<exists>x. m = Inr x \<and> f x = Inl e)"
  by (cases m) auto

lemma bindE_assoc: "bindE (bindE m f) g = bindE m (\<lambda>x. bindE (f x) g)"
  by (cases m) auto

lemma bindE_cong [fundef_cong]:
  "m = m' \<Longrightarrow> (\<And>x. m' = Inr x \<Longrightarrow> f x = g x) \<Longrightarrow> bindE m f = bindE m' g"
  by (cases m') auto

lemmas resE = bindE_Inr_iff guardE_Inr_iff

section \<open>Arrays\<close>

definition rd :: "'a list \<Rightarrow> nat \<Rightarrow> 'a res" where
  "rd xs i = (if i < length xs then Inr (xs ! i) else Inl Out_Of_Bounds)"

definition wr :: "'a list \<Rightarrow> nat \<Rightarrow> 'a \<Rightarrow> 'a list res" where
  "wr xs i x = (if i < length xs then Inr (xs[i := x]) else Inl Out_Of_Bounds)"

lemma rd_in [simp]: "i < length xs \<Longrightarrow> rd xs i = Inr (xs ! i)"
  by (simp add: rd_def)

lemma rd_out [simp]: "\<not> i < length xs \<Longrightarrow> rd xs i = Inl Out_Of_Bounds"
  by (simp add: rd_def)

lemma wr_in [simp]: "i < length xs \<Longrightarrow> wr xs i x = Inr (xs[i := x])"
  by (simp add: wr_def)

lemma wr_out [simp]: "\<not> i < length xs \<Longrightarrow> wr xs i x = Inl Out_Of_Bounds"
  by (simp add: wr_def)

lemma rd_Inr_iff: "rd xs i = Inr x \<longleftrightarrow> i < length xs \<and> xs ! i = x"
  by (simp add: rd_def)

lemma wr_Inr_iff: "wr xs i x = Inr ys \<longleftrightarrow> i < length xs \<and> ys = xs[i := x]"
  by (auto simp: wr_def)

lemma nth_update_if: "xs[i := x] ! j = (if i = j \<and> i < length xs then x else xs ! j)"
  by (cases "i < length xs") (auto simp: nth_list_update list_update_beyond)

lemmas arrE = rd_Inr_iff wr_Inr_iff

section \<open>Byte memory\<close>

text \<open>A region of a byte array, and the array with a region overwritten.\<close>

definition region :: "nat \<Rightarrow> nat \<Rightarrow> 'a list \<Rightarrow> 'a list" where
  "region off n xs = take n (drop off xs)"

definition blit :: "nat \<Rightarrow> 'a list \<Rightarrow> 'a list \<Rightarrow> 'a list" where
  "blit off ys xs = take off xs @ ys @ drop (off + length ys) xs"

lemma length_region: "off + n \<le> length xs \<Longrightarrow> length (region off n xs) = n"
  by (simp add: region_def)

lemma length_blit: "off + length ys \<le> length xs \<Longrightarrow> length (blit off ys xs) = length xs"
  by (simp add: blit_def)

lemma nth_region: "off + n \<le> length xs \<Longrightarrow> i < n \<Longrightarrow> region off n xs ! i = xs ! (off + i)"
  by (simp add: region_def)

lemma nth_blit:
  assumes "off + length ys \<le> length xs" and "i < length xs"
  shows "blit off ys xs ! i =
    (if off \<le> i \<and> i < off + length ys then ys ! (i - off) else xs ! i)"
  using assms by (auto simp: blit_def nth_append min_def)

lemma region_blit_same:
  "off + length ys \<le> length xs \<Longrightarrow> n = length ys \<Longrightarrow> region off n (blit off ys xs) = ys"
  by (simp add: region_def blit_def)

lemma region_blit_disjoint:
  assumes "off + length ys \<le> length xs" and "o2 + n \<le> length xs"
    and "o2 + n \<le> off \<or> off + length ys \<le> o2"
  shows "region o2 n (blit off ys xs) = region o2 n xs"
proof (rule nth_equalityI)
  show "length (region o2 n (blit off ys xs)) = length (region o2 n xs)"
    using assms by (simp add: length_region length_blit)
next
  fix i assume "i < length (region o2 n (blit off ys xs))"
  then have "i < n" using assms by (simp add: length_region length_blit)
  then show "region o2 n (blit off ys xs) ! i = region o2 n xs ! i"
    using assms by (auto simp: nth_region length_blit nth_blit)
qed

lemma region_region:
  "a + k \<le> n \<Longrightarrow> region a k (region off n xs) = region (off + a) k xs"
  by (simp add: region_def take_drop min_def add.commute add.left_commute)

text \<open>Little-endian encoding of a word in \<open>n\<close> bytes.\<close>

primrec store_le :: "nat \<Rightarrow> 'a::len word \<Rightarrow> u8 list" where
  "store_le 0 w = []"
| "store_le (Suc n) w = ucast w # store_le n (drop_bit 8 w)"

primrec load_le :: "u8 list \<Rightarrow> 'a::len word" where
  "load_le [] = 0"
| "load_le (b # bs) = ucast b OR push_bit 8 (load_le bs)"

lemma length_store_le [simp]: "length (store_le n w) = n"
  by (induction n arbitrary: w) auto

lemma load_store_le_bits: "load_le (store_le n w) = take_bit (8 * n) w"
proof (induction n arbitrary: w)
  case 0
  then show ?case by simp
next
  case (Suc n)
  show ?case
    by (rule bit_word_eqI)
      (auto simp: Suc.IH bit_simps ac_simps)
qed

lemma load_store_le:
  "LENGTH('a) \<le> 8 * n \<Longrightarrow> load_le (store_le n (w :: 'a::len word)) = w"
  by (simp add: load_store_le_bits take_bit_word_eq_self)

text \<open>White space, in the C locale.\<close>

definition isspace :: "char \<Rightarrow> bool" where
  "isspace c \<longleftrightarrow> c = CHR '' '' \<or> c = CHR 0x09 \<or> c = CHR 0x0A \<or> c = CHR 0x0B \<or> c = CHR 0x0C \<or> c = CHR 0x0D"

end
