(* ===== verification/Mem_Bitmap.thy ===== *)
theory Mem_Bitmap
  imports C_Prelude
begin

text \<open>
  The bitmap of swap.c (lines 18-142): an array of 32-bit words, one bit per
  swap slot, the bits past \<open>nbits\<close> in the last word kept set.  \<open>used\<close> is the
  set of slots the bitmap says are taken; the locale \<open>slot_allocator\<close> is the
  contract the swap code relies on.
\<close>

section \<open>Data and operations\<close>

definition BITS_PER_WORD :: u32 where "BITS_PER_WORD = 32"
definition WORD_ALLBITS :: u32 where "WORD_ALLBITS = 0xffffffff"

definition DIVROUNDUP :: "u32 \<Rightarrow> u32 \<Rightarrow> u32" where
  "DIVROUNDUP a b = (a + b - 1) div b"

record bitmap =
  nbits :: u32
  v :: "u32 list"

text \<open>
  \<open>bitmap_create\<close> gets the outcome of its two \<open>malloc\<close> calls; \<open>None\<close> is the
  NULL it returns when one of them failed.
\<close>

definition bitmap_create :: "bool \<times> bool \<Rightarrow> u32 \<Rightarrow> bitmap option res" where
  "bitmap_create mallocs nb =
    (let words = DIVROUNDUP nb BITS_PER_WORD in
     if \<not> fst mallocs then Inr None
     else if \<not> snd mallocs then Inr None
     else
       let v0 = replicate (unat words) (0 :: u32) in
       if nb div BITS_PER_WORD < words then
         let ix = words - 1; overbits = nb - ix * BITS_PER_WORD in
         bindE (guardE Assert_Failed (nb div BITS_PER_WORD = words - 1)) (\<lambda>_.
         bindE (guardE Assert_Failed (0 < overbits \<and> overbits < BITS_PER_WORD)) (\<lambda>_.
         bindE (rd v0 (unat ix)) (\<lambda>w.
         bindE (wr v0 (unat ix)
                 (fold (\<lambda>j w. w OR push_bit j 1) [unat overbits ..< unat BITS_PER_WORD] w)) (\<lambda>v1.
         Inr (Some \<lparr>nbits = nb, v = v1\<rparr>)))))
       else Inr (Some \<lparr>nbits = nb, v = v0\<rparr>))"

text \<open>
  The outer loop of \<open>bitmap_alloc\<close> over the word indices, with the inner loop
  over the bit offsets; \<open>None\<close> is its return value 1, \<open>Some (b, index)\<close> its
  return value 0 with \<open>*index\<close> assigned.
\<close>

fun bitmap_alloc_scan :: "bitmap \<Rightarrow> nat list \<Rightarrow> (bitmap \<times> u32) option res" where
  "bitmap_alloc_scan b [] = Inr None"
| "bitmap_alloc_scan b (ix # ixs) =
    bindE (rd (v b) ix) (\<lambda>w.
      if w \<noteq> WORD_ALLBITS then
        (case find (\<lambda>offset. w AND push_bit offset 1 = 0) [0 ..< unat BITS_PER_WORD] of
          None \<Rightarrow> Inl Assert_Failed
        | Some offset \<Rightarrow>
            let index = of_nat ix * BITS_PER_WORD + of_nat offset in
            bindE (wr (v b) ix (w OR push_bit offset 1)) (\<lambda>v'.
            bindE (guardE Assert_Failed (index < nbits b)) (\<lambda>_.
            Inr (Some (b\<lparr>v := v'\<rparr>, index)))))
      else bitmap_alloc_scan b ixs)"

definition bitmap_alloc :: "bitmap \<Rightarrow> (bitmap \<times> u32) option res" where
  "bitmap_alloc b = bitmap_alloc_scan b [0 ..< unat (DIVROUNDUP (nbits b) BITS_PER_WORD)]"

definition bitmap_translate :: "u32 \<Rightarrow> u32 \<times> u32" where
  "bitmap_translate bitno =
    (bitno div BITS_PER_WORD, push_bit (unat (bitno mod BITS_PER_WORD)) 1)"

definition bitmap_mark :: "bitmap \<Rightarrow> u32 \<Rightarrow> bitmap res" where
  "bitmap_mark b index =
    bindE (guardE Assert_Failed (index < nbits b)) (\<lambda>_.
    case bitmap_translate index of (ix, msk) \<Rightarrow>
    bindE (rd (v b) (unat ix)) (\<lambda>w.
    bindE (guardE Assert_Failed (w AND msk = 0)) (\<lambda>_.
    bindE (wr (v b) (unat ix) (w OR msk)) (\<lambda>v'. Inr (b\<lparr>v := v'\<rparr>)))))"

definition bitmap_unmark :: "bitmap \<Rightarrow> u32 \<Rightarrow> bitmap res" where
  "bitmap_unmark b index =
    bindE (guardE Assert_Failed (index < nbits b)) (\<lambda>_.
    case bitmap_translate index of (ix, msk) \<Rightarrow>
    bindE (rd (v b) (unat ix)) (\<lambda>w.
    bindE (guardE Assert_Failed (w AND msk \<noteq> 0)) (\<lambda>_.
    bindE (wr (v b) (unat ix) (w AND NOT msk)) (\<lambda>v'. Inr (b\<lparr>v := v'\<rparr>)))))"

definition bitmap_isset :: "bitmap \<Rightarrow> u32 \<Rightarrow> u32 res" where
  "bitmap_isset b index =
    (case bitmap_translate index of (ix, msk) \<Rightarrow>
      bindE (rd (v b) (unat ix)) (\<lambda>w. Inr (w AND msk)))"

section \<open>Abstraction and invariant\<close>

definition bit_at :: "bitmap \<Rightarrow> nat \<Rightarrow> bool" where
  "bit_at b i = bit (v b ! (i div 32)) (i mod 32)"

definition used :: "bitmap \<Rightarrow> nat set" where
  "used b = {i. i < unat (nbits b) \<and> bit_at b i}"

definition bm_wf :: "bitmap \<Rightarrow> bool" where
  "bm_wf b \<longleftrightarrow> unat (nbits b) + 31 < 2 ^ 32 \<and>
     length (v b) = (unat (nbits b) + 31) div 32 \<and>
     (\<forall>i. unat (nbits b) \<le> i \<and> i < 32 * length (v b) \<longrightarrow> bit_at b i)"

lemma split32:
  obtains q r where "(x :: nat) = 32 * q + r" "r < 32" "x div 32 = q" "x mod 32 = r"
  by (metis div_mult_mod_eq mod_less_divisor mult.commute zero_less_numeral)

lemma roundup32: "((x :: nat) + 31) div 32 = (if x mod 32 = 0 then x div 32 else Suc (x div 32))"
proof -
  obtain q r where "x = 32 * q + r" "r < 32" "x div 32 = q" "x mod 32 = r" by (rule split32)
  then show ?thesis by (auto intro!: div_nat_eqI)
qed

lemma unat_DIVROUNDUP:
  "unat nb + 31 < 2 ^ 32 \<Longrightarrow> unat (DIVROUNDUP nb BITS_PER_WORD) = (unat nb + 31) div 32"
proof -
  assume a: "unat nb + 31 < 2 ^ 32"
  have "unat (31 + nb) = unat nb + 31"
    using a by (subst unat_add_lem [THEN iffD1]) auto
  moreover have "unat (32 :: u32) = 32" by simp
  ultimately show ?thesis by (simp add: DIVROUNDUP_def BITS_PER_WORD_def unat_div del: unat_numeral)
qed

lemma and_mask_zero_iff: "(w :: u32) AND 2 ^ offset = 0 \<longleftrightarrow> \<not> bit w offset"
  by (simp add: and_exp_eq_0_iff_not_bit)

lemma bit_or_mask: "offset < 32 \<Longrightarrow> bit ((w :: u32) OR 2 ^ offset) i \<longleftrightarrow> bit w i \<or> i = offset"
  by (auto simp: bit_simps)

lemma bit_and_not_mask:
  "offset < 32 \<Longrightarrow> bit ((w :: u32) AND NOT (2 ^ offset)) i \<longleftrightarrow> bit w i \<and> i \<noteq> offset"
  by (auto simp: bit_simps dest: bit_imp_le_length)

lemma bit_fold_or:
  "bit (fold (\<lambda>j w. w OR push_bit j 1) js (w :: u32)) i \<longleftrightarrow> bit w i \<or> (i \<in> set js \<and> i < 32)"
  by (induction js arbitrary: w) (auto simp: bit_simps)

lemma allbits_iff: "(w :: u32) = WORD_ALLBITS \<longleftrightarrow> (\<forall>i < 32. bit w i)"
proof -
  have "WORD_ALLBITS = (- 1 :: u32)" by (simp add: WORD_ALLBITS_def)
  then show ?thesis by (auto simp: bit_eq_iff dest: bit_imp_le_length)
qed


lemma bit_at_upd:
  "ix < length (v b) \<Longrightarrow>
    bit_at (b\<lparr>v := (v b)[ix := w]\<rparr>) i = (if i div 32 = ix then bit w (i mod 32) else bit_at b i)"
  by (simp add: bit_at_def)

text \<open>\<open>set_slot b i\<close> is the bitmap with bit \<open>i\<close> set, \<open>clear_slot b i\<close> with it cleared.\<close>

definition set_slot :: "bitmap \<Rightarrow> nat \<Rightarrow> bitmap" where
  "set_slot b i = b\<lparr>v := (v b)[i div 32 := v b ! (i div 32) OR push_bit (i mod 32) 1]\<rparr>"

definition clear_slot :: "bitmap \<Rightarrow> nat \<Rightarrow> bitmap" where
  "clear_slot b i = b\<lparr>v := (v b)[i div 32 := v b ! (i div 32) AND NOT (push_bit (i mod 32) 1)]\<rparr>"

lemma slot_div: "i < 32 * n \<Longrightarrow> i div 32 < (n :: nat)"
  by auto

lemma bm_wf_capacity: "bm_wf b \<Longrightarrow> unat (nbits b) \<le> 32 * length (v b)"
  unfolding bm_wf_def by (elim conjE) (erule ssubst, presburger)

lemma nbits_set_slot [simp]: "nbits (set_slot b i) = nbits b"
  by (simp add: set_slot_def)

lemma nbits_clear_slot [simp]: "nbits (clear_slot b i) = nbits b"
  by (simp add: clear_slot_def)

lemma length_set_slot [simp]: "length (v (set_slot b i)) = length (v b)"
  by (simp add: set_slot_def)

lemma length_clear_slot [simp]: "length (v (clear_slot b i)) = length (v b)"
  by (simp add: clear_slot_def)

lemma bit_at_set_slot:
  assumes "i < 32 * length (v b)"
  shows "bit_at (set_slot b i) j \<longleftrightarrow> bit_at b j \<or> j = i"
proof (cases "j div 32 = i div 32")
  case True
  have "j = i \<longleftrightarrow> j mod 32 = i mod 32" using True by (metis div_mult_mod_eq)
  then show ?thesis using True slot_div [OF assms]
    by (simp add: set_slot_def bit_at_upd bit_or_mask) (simp add: bit_at_def)
next
  case False
  then show ?thesis using slot_div [OF assms] by (auto simp: set_slot_def bit_at_upd)
qed

lemma bit_at_clear_slot:
  assumes "i < 32 * length (v b)"
  shows "bit_at (clear_slot b i) j \<longleftrightarrow> bit_at b j \<and> j \<noteq> i"
proof (cases "j div 32 = i div 32")
  case True
  have "j = i \<longleftrightarrow> j mod 32 = i mod 32" using True by (metis div_mult_mod_eq)
  then show ?thesis using True slot_div [OF assms]
    by (simp add: clear_slot_def bit_at_upd bit_and_not_mask) (simp add: bit_at_def)
next
  case False
  then show ?thesis using slot_div [OF assms] by (auto simp: clear_slot_def bit_at_upd)
qed

lemma bm_wf_set_slot: "bm_wf b \<Longrightarrow> i < unat (nbits b) \<Longrightarrow> bm_wf (set_slot b i)"
  using bm_wf_capacity [of b] by (auto simp: bm_wf_def bit_at_set_slot)

lemma bm_wf_clear_slot: "bm_wf b \<Longrightarrow> i < unat (nbits b) \<Longrightarrow> bm_wf (clear_slot b i)"
  using bm_wf_capacity [of b] by (auto simp: bm_wf_def bit_at_clear_slot)

lemma used_set_slot:
  "bm_wf b \<Longrightarrow> i < unat (nbits b) \<Longrightarrow> used (set_slot b i) = insert i (used b)"
  using bm_wf_capacity [of b] by (auto simp: used_def bit_at_set_slot)

lemma used_clear_slot:
  "bm_wf b \<Longrightarrow> i < unat (nbits b) \<Longrightarrow> used (clear_slot b i) = used b - {i}"
  using bm_wf_capacity [of b] by (auto simp: used_def bit_at_clear_slot)

section \<open>What the operations do\<close>

lemma find_free_offset:
  assumes "(w :: u32) \<noteq> WORD_ALLBITS"
  obtains k where "find (\<lambda>offset. w AND push_bit offset 1 = 0) [0 ..< 32] = Some k"
    and "k < 32" and "\<not> bit w k" and "\<And>j. j < k \<Longrightarrow> bit w j"
proof -
  from assms obtain i where i: "i < 32" "\<not> bit w i" by (auto simp: allbits_iff)
  have "find (\<lambda>offset. w AND push_bit offset 1 = 0) [0 ..< 32] \<noteq> None"
    using i by (auto simp: find_None_iff and_mask_zero_iff intro: bexI [of _ i])
  then obtain k where k: "find (\<lambda>offset. w AND push_bit offset 1 = 0) [0 ..< 32] = Some k"
    by blast
  then obtain n where "n < 32" "w AND push_bit n 1 = 0" "k = n"
      "\<And>j. j < n \<Longrightarrow> w AND push_bit j 1 \<noteq> 0"
    by (auto simp: find_Some_iff)
  then show thesis using k by (intro that) (auto simp: and_mask_zero_iff)
qed

lemma bitmap_alloc_scan_correct:
  assumes "bm_wf b" and "n = length (v b) - k" and "k \<le> length (v b)"
    and "\<And>i. i < 32 * k \<Longrightarrow> bit_at b i"
  shows "(bitmap_alloc_scan b [k ..< length (v b)] = Inr None \<and>
            (\<forall>i < 32 * length (v b). bit_at b i)) \<or>
         (\<exists>x. bitmap_alloc_scan b [k ..< length (v b)] = Inr (Some (set_slot b (unat x), x)) \<and>
            unat x < unat (nbits b) \<and> \<not> bit_at b (unat x) \<and> (\<forall>j < unat x. bit_at b j))"
  using assms
proof (induction n arbitrary: k)
  case 0
  then show ?case by simp
next
  case (Suc n)
  then have k: "k < length (v b)" by simp
  have upt: "[k ..< length (v b)] = k # [Suc k ..< length (v b)]"
    using k by (rule upt_conv_Cons)
  show ?case
  proof (cases "v b ! k = WORD_ALLBITS")
    case True
    have "bit_at b i" if "i < 32 * Suc k" for i
    proof (cases "i < 32 * k")
      case False
      then have "i div 32 = k" using that by auto
      then show ?thesis using True by (simp add: bit_at_def allbits_iff)
    qed (rule Suc.prems(4))
    then have "(bitmap_alloc_scan b [Suc k ..< length (v b)] = Inr None \<and>
          (\<forall>i < 32 * length (v b). bit_at b i)) \<or>
        (\<exists>x. bitmap_alloc_scan b [Suc k ..< length (v b)] = Inr (Some (set_slot b (unat x), x)) \<and>
          unat x < unat (nbits b) \<and> \<not> bit_at b (unat x) \<and> (\<forall>j < unat x. bit_at b j))"
      using Suc.prems k by (intro Suc.IH) auto
    then show ?thesis using True k by (simp add: upt)
  next
    case False
    then obtain q where q: "find (\<lambda>offset. v b ! k AND push_bit offset 1 = 0) [0 ..< 32] = Some q"
      and q32: "q < 32" and free: "\<not> bit (v b ! k) q" and before: "\<And>j. j < q \<Longrightarrow> bit (v b ! k) j"
      using find_free_offset [OF False] by metis
    define x :: u32 where "x = of_nat k * BITS_PER_WORD + of_nat q"
    have bound: "32 * length (v b) < 2 ^ 32"
    proof -
      have "32 * length (v b) \<le> unat (nbits b) + 31" using Suc.prems(1) by (auto simp: bm_wf_def)
      then show ?thesis using Suc.prems(1) by (auto simp: bm_wf_def)
    qed
    have small: "32 * k + q < 2 ^ 32" using bound k q32 by simp
    have x: "unat x = 32 * k + q"
    proof -
      have "x = of_nat (32 * k + q)" by (simp add: x_def BITS_PER_WORD_def)
      then show ?thesis using small by (simp add: unat_of_nat del: of_nat_add)
    qed
    have dm: "(32 * k + q) div 32 = k" "(32 * k + q) mod 32 = q" using q32 by auto
    have nfree: "\<not> bit_at b (unat x)" using free q32 by (simp add: bit_at_def x dm)
    have lt: "unat x < unat (nbits b)"
    proof (rule ccontr)
      assume "\<not> unat x < unat (nbits b)"
      moreover have "unat x < 32 * length (v b)" using k q32 by (simp add: x)
      ultimately show False using Suc.prems(1) nfree by (auto simp: bm_wf_def)
    qed
    have "bit_at b j" if "j < unat x" for j
    proof (cases "j < 32 * k")
      case False
      then obtain r where r: "j = 32 * k + r" by (metis le_Suc_ex not_less)
      then have "r < q" using that by (simp add: x)
      then have "j div 32 = k" "j mod 32 = r" using q32 by (auto simp: r)
      then show ?thesis using before \<open>r < q\<close> by (simp add: bit_at_def)
    qed (rule Suc.prems(4))
    moreover have "bitmap_alloc_scan b [k ..< length (v b)] = Inr (Some (set_slot b (unat x), x))"
      using \<open>v b ! k \<noteq> WORD_ALLBITS\<close> k q lt
      by (simp add: upt BITS_PER_WORD_def x_def [unfolded BITS_PER_WORD_def, symmetric]
          word_less_nat_alt set_slot_def x dm Let_def mod_less [OF q32])
    ultimately show ?thesis using nfree lt by blast
  qed
qed

lemma bitmap_alloc_cases:
  assumes "bm_wf b"
  shows "(bitmap_alloc b = Inr None \<and> used b = {..< unat (nbits b)}) \<or>
    (\<exists>x. bitmap_alloc b = Inr (Some (set_slot b (unat x), x)) \<and>
      unat x < unat (nbits b) \<and> unat x \<notin> used b \<and> {..< unat x} \<subseteq> used b)"
proof -
  have len: "unat (DIVROUNDUP (nbits b) BITS_PER_WORD) = length (v b)"
    using assms by (simp add: bm_wf_def unat_DIVROUNDUP)
  show ?thesis
    using bitmap_alloc_scan_correct [OF assms refl, of 0] bm_wf_capacity [OF assms]
    by (auto simp: bitmap_alloc_def len used_def)
qed

lemma bitmap_translate_slot:
  "bitmap_translate index = (ix, msk) \<Longrightarrow>
    unat ix = unat index div 32 \<and> msk = 2 ^ (unat index mod 32)"
  by (auto simp: bitmap_translate_def BITS_PER_WORD_def unat_div unat_mod)

lemma bitmap_mark_eq:
  assumes "bm_wf b"
  shows "bitmap_mark b index =
    (if unat index < unat (nbits b) \<and> unat index \<notin> used b
     then Inr (set_slot b (unat index)) else Inl Assert_Failed)"
proof -
  obtain ix msk where t: "bitmap_translate index = (ix, msk)" by fastforce
  note [simp] = bitmap_translate_slot [OF t, THEN conjunct1] bitmap_translate_slot [OF t, THEN conjunct2]
  show ?thesis
  proof (cases "unat index < unat (nbits b)")
    case True
    then have "unat index div 32 < length (v b)"
      using bm_wf_capacity [OF assms] by (intro slot_div) simp
    then show ?thesis using True
      by (auto simp: bitmap_mark_def t word_less_nat_alt used_def bit_at_def set_slot_def
          and_mask_zero_iff guardE_def)
  next
    case False
    then show ?thesis by (simp add: bitmap_mark_def word_less_nat_alt)
  qed
qed

lemma bitmap_unmark_eq:
  assumes "bm_wf b"
  shows "bitmap_unmark b index =
    (if unat index \<in> used b then Inr (clear_slot b (unat index)) else Inl Assert_Failed)"
proof -
  obtain ix msk where t: "bitmap_translate index = (ix, msk)" by fastforce
  note [simp] = bitmap_translate_slot [OF t, THEN conjunct1] bitmap_translate_slot [OF t, THEN conjunct2]
  show ?thesis
  proof (cases "unat index < unat (nbits b)")
    case True
    then have "unat index div 32 < length (v b)"
      using bm_wf_capacity [OF assms] by (intro slot_div) simp
    then show ?thesis using True
      by (auto simp: bitmap_unmark_def t word_less_nat_alt used_def bit_at_def clear_slot_def
          and_mask_zero_iff guardE_def)
  next
    case False
    then show ?thesis by (simp add: bitmap_unmark_def word_less_nat_alt used_def)
  qed
qed

lemma bitmap_isset_iff:
  assumes "bm_wf b" and "unat index < unat (nbits b)"
  obtains w where "bitmap_isset b index = Inr w" and "w \<noteq> 0 \<longleftrightarrow> unat index \<in> used b"
proof -
  obtain ix msk where t: "bitmap_translate index = (ix, msk)" by fastforce
  note [simp] = bitmap_translate_slot [OF t, THEN conjunct1] bitmap_translate_slot [OF t, THEN conjunct2]
  have "unat index div 32 < length (v b)"
    using assms bm_wf_capacity [OF assms(1)] by (intro slot_div) simp
  then show thesis using assms(2)
    by (intro that [of "v b ! unat ix AND msk"])
      (auto simp: bitmap_isset_def t used_def bit_at_def and_mask_zero_iff)
qed

lemma bitmap_create_ok:
  assumes small: "unat nb + 31 < 2 ^ 32"
  obtains b where "bitmap_create (True, True) nb = Inr (Some b)"
    and "bm_wf b" and "nbits b = nb" and "used b = {}"
proof -
  obtain q r where nb: "unat nb = 32 * q + r" and r: "r < 32" "unat nb div 32 = q" "unat nb mod 32 = r"
    by (rule split32)
  define words where "words = DIVROUNDUP nb BITS_PER_WORD"
  have words: "unat words = (if r = 0 then q else Suc q)"
    using small r by (simp add: words_def unat_DIVROUNDUP roundup32)
  have BPW: "unat BITS_PER_WORD = 32" by (simp add: BITS_PER_WORD_def)
  have lt: "nb div BITS_PER_WORD < words \<longleftrightarrow> r \<noteq> 0"
    unfolding word_less_nat_alt words unat_div BPW r by simp
  have len: "(unat nb + 31) div 32 = (if r = 0 then q else Suc q)"
    using r by (simp add: roundup32)
  show thesis
  proof (cases "r = 0")
    case True
    let ?b = "\<lparr>nbits = nb, v = replicate q 0\<rparr>"
    have "bitmap_create (True, True) nb = Inr (Some ?b)"
      using True lt by (simp add: bitmap_create_def words_def [symmetric] words Let_def)
    moreover have "bm_wf ?b" using small True len nb by (auto simp: bm_wf_def)
    moreover have "used ?b = {}" using True nb
      by (auto simp: used_def bit_at_def)
    ultimately show thesis by (intro that [of ?b]) auto
  next
    case False
    define ov where "ov = nb - (words - 1) * BITS_PER_WORD"
    have w1: "unat (words - 1) = q"
      using False words by (subst unat_sub) (auto simp: word_le_nat_alt)
    have "unat ((words - 1) * BITS_PER_WORD) = q * 32"
      using small nb unfolding unat_word_ariths w1 BPW by (subst mod_less) auto
    then have ov: "unat ov = r"
      unfolding ov_def by (subst unat_sub) (auto simp: word_le_nat_alt nb)
    let ?w = "fold (\<lambda>j w. w OR push_bit j 1) [r ..< 32] (0 :: u32)"
    let ?b = "\<lparr>nbits = nb, v = (replicate (Suc q) 0)[q := ?w]\<rparr>"
    have "nb div BITS_PER_WORD = words - 1"
      by (simp add: word_unat_eq_iff w1 unat_div BPW r)
    moreover have "0 < ov \<and> ov < BITS_PER_WORD"
      using False r by (simp add: word_less_nat_alt ov BPW)
    ultimately have "bitmap_create (True, True) nb = Inr (Some ?b)"
      using lt False by (simp add: bitmap_create_def words_def [symmetric] ov_def [symmetric]
          words w1 BPW ov Let_def nth_replicate del: replicate_Suc)
    moreover have bits: "bit_at ?b i \<longleftrightarrow> unat nb \<le> i" if i: "i < 32 * Suc q" for i
    proof (cases "i div 32 = q")
      case True
      obtain i' where "i = 32 * q + i'" "i' < 32" "i mod 32 = i'" using True by (metis split32)
      then show ?thesis using True nb
        by (auto simp: bit_at_def bit_fold_or push_bit_of_1 [symmetric] simp del: push_bit_of_1 replicate_Suc)
    next
      case ne: False
      have "i div 32 < Suc q" using i by auto
      then have lt: "i div 32 < q" using ne by simp
      then have "i < 32 * q" by auto
      then show ?thesis using nb lt ne by (auto simp: bit_at_def simp del: replicate_Suc)
    qed
    moreover have "unat nb \<le> 32 * Suc q" using nb r by simp
    ultimately show thesis
      using small len False nb
      by (intro that [of ?b]) (auto simp: bm_wf_def used_def simp del: replicate_Suc)
  qed
qed

section \<open>The contract of a slot allocator\<close>

text \<open>
  What swap.c uses of the bitmap: a request is answered with a slot that was
  free, and refused only when all are taken.  Two allocations in a row never
  give the same slot.
\<close>

locale slot_allocator =
  fixes alloc :: "'b \<Rightarrow> ('b \<times> u32) option res"
    and taken :: "'b \<Rightarrow> nat set"
    and capacity :: "'b \<Rightarrow> nat"
    and ok :: "'b \<Rightarrow> bool"
  assumes alloc_full: "ok b \<Longrightarrow> taken b = {..< capacity b} \<Longrightarrow> alloc b = Inr None"
    and alloc_free: "ok b \<Longrightarrow> taken b \<noteq> {..< capacity b} \<Longrightarrow>
      \<exists>b' x. alloc b = Inr (Some (b', x)) \<and> ok b' \<and> capacity b' = capacity b \<and>
        unat x < capacity b \<and> unat x \<notin> taken b \<and> taken b' = insert (unat x) (taken b)"
begin

lemma alloc_no_fault: "ok b \<Longrightarrow> \<exists>r. alloc b = Inr r"
  using alloc_full alloc_free by blast

lemma alloc_SomeD:
  "ok b \<Longrightarrow> alloc b = Inr (Some (b', x)) \<Longrightarrow>
    ok b' \<and> capacity b' = capacity b \<and> unat x < capacity b \<and> unat x \<notin> taken b \<and>
    taken b' = insert (unat x) (taken b)"
  using alloc_full [of b] alloc_free [of b] by (cases "taken b = {..< capacity b}") auto

lemma alloc_NoneD: "ok b \<Longrightarrow> alloc b = Inr None \<Longrightarrow> taken b = {..< capacity b}"
  using alloc_free by fastforce

lemma alloc_distinct:
  "ok b \<Longrightarrow> alloc b = Inr (Some (b1, x)) \<Longrightarrow> alloc b1 = Inr (Some (b2, y)) \<Longrightarrow> x \<noteq> y"
  using alloc_SomeD by blast

end

interpretation bm: slot_allocator bitmap_alloc used "\<lambda>b. unat (nbits b)" bm_wf
proof
  fix b assume wf: "bm_wf b"
  show "used b = {..< unat (nbits b)} \<Longrightarrow> bitmap_alloc b = Inr None"
    using bitmap_alloc_cases [OF wf] by auto
  have "used b \<subseteq> {..< unat (nbits b)}" by (auto simp: used_def)
  then show "used b \<noteq> {..< unat (nbits b)} \<Longrightarrow>
      \<exists>b' x. bitmap_alloc b = Inr (Some (b', x)) \<and> bm_wf b' \<and> unat (nbits b') = unat (nbits b) \<and>
        unat x < unat (nbits b) \<and> unat x \<notin> used b \<and> used b' = insert (unat x) (used b)"
    using bitmap_alloc_cases [OF wf] wf by (auto simp: bm_wf_set_slot used_set_slot)
qed

end
