(* ===== verification/Mem_State.thy ===== *)
theory Mem_State
  imports Mem_Bitmap
begin

text \<open>
  The data of the memory simulator: pagetable.h, sim.h and the globals of
  pagetable.c, sim.c, swap.c and of the replacement algorithms, in one record
  \<open>sim\<close>.  A pointer to a page table entry is the base address of its
  second-level table and an index; the second-level tables are the heap
  \<open>pgtbls\<close>.  A pointer into \<open>coremap\<close> is the index of the frame, a null pointer
  is \<open>None\<close>.  \<open>memsize\<close> is the length of \<open>coremap\<close>, which sim.c allocates with
  that many elements.  The event counters are natural numbers: the C counters
  are signed and their overflow is undefined.  \<open>randoms\<close> is the sequence of values
  that the calls of \<open>random()\<close> to come return.
\<close>

section \<open>Constants and index macros (pagetable.h, sim.h)\<close>

definition PAGE_SHIFT :: nat where "PAGE_SHIFT = 12"
definition PAGE_MASK :: u64 where "PAGE_MASK = NOT 0xFFF"
definition PG_VALID :: u32 where "PG_VALID = 0x1"
definition PG_DIRTY :: u32 where "PG_DIRTY = 0x2"
definition PG_REF :: u32 where "PG_REF = 0x4"
definition PG_ONSWAP :: u32 where "PG_ONSWAP = 0x8"
definition INVALID_SWAP :: int where "INVALID_SWAP = -1"
definition PGDIR_SHIFT :: nat where "PGDIR_SHIFT = 24"
definition PTRS_PER_PGDIR :: nat where "PTRS_PER_PGDIR = 4096"
definition PTRS_PER_PGTBL :: nat where "PTRS_PER_PGTBL = 4096"
definition PGTBL_MASK :: u64 where "PGTBL_MASK = 0xFFF"
definition SIMPAGESIZE :: nat where "SIMPAGESIZE = 16"

definition PGDIR_INDEX :: "u64 \<Rightarrow> u32" where
  "PGDIR_INDEX x = ucast (drop_bit PGDIR_SHIFT x)"

definition PGTBL_INDEX :: "u64 \<Rightarrow> u32" where
  "PGTBL_INDEX x = ucast (drop_bit PAGE_SHIFT x AND PGTBL_MASK)"

section \<open>Structures\<close>

type_synonym pteptr = "u64 \<times> nat"

declare split_paired_All [simp del] split_paired_Ex [simp del]

record pgtbl_entry_t =
  pt_frame :: u32
  swap_off :: int

record frame =
  in_use :: bool
  fpte :: "pteptr option"
  fnext :: "nat option"
  fprev :: "nat option"

text \<open>The structures of opt.c; pointers are indices into \<open>vnodes\<close> and \<open>onodes\<close>.\<close>

record vaddr_node =
  virtual_addr :: u64
  vnext :: "nat option"
  next_in_frame :: "nat option"
  frame_number :: int
  occurance_head :: "nat option"
  occurance_tail :: "nat option"

record occ_node =
  occurance :: int
  onext :: "nat option"
  freed :: bool

record sim =
  coremap :: "frame list"
  physmem :: "u8 list"
  pgdir :: "u64 list"
  pgtbls :: "pteptr \<rightharpoonup> pgtbl_entry_t"
  hit_count :: nat
  miss_count :: nat
  ref_count :: nat
  evict_clean_count :: nat
  evict_dirty_count :: nat
  swapfile :: "u8 list"
  swapmap :: bitmap
  fifo_evict_g :: int
  oldest_page :: int
  lru_head :: "nat option"
  lru_tail :: "nat option"
  hashmap :: "nat option list"
  coremap_head :: "nat option"
  reference_string :: "nat option list"
  position :: nat
  vnodes :: "vaddr_node list"
  onodes :: "occ_node list"
  check_errors :: nat
  randoms :: "nat \<Rightarrow> nat"

definition memsize :: "sim \<Rightarrow> nat" where
  "memsize s = length (coremap s)"

text \<open>
  What the simulator gets from the system: where \<open>posix_memalign\<close> places a
  table (\<open>None\<close>: it fails), how large the swap file may grow, whether a read
  through a pointer to a freed block still finds the old contents, and how many
  nodes opt.c can allocate before \<open>malloc\<close> returns NULL.
\<close>

record os_env =
  posix_memalign :: "(pteptr \<rightharpoonup> pgtbl_entry_t) \<Rightarrow> u64 option"
  file_limit :: nat
  freed_readable :: bool
  heap_limit :: nat

definition memalign_ok :: "os_env \<Rightarrow> bool" where
  "memalign_ok E \<longleftrightarrow> (\<forall>h b. posix_memalign E h = Some b \<longrightarrow>
     b AND 0xFFF = 0 \<and> (\<forall>i < PTRS_PER_PGTBL. h (b, i) = None))"

section \<open>Page table entries\<close>

definition pte_valid :: "pgtbl_entry_t \<Rightarrow> bool" where
  "pte_valid e \<longleftrightarrow> pt_frame e AND PG_VALID \<noteq> 0"

definition pte_dirty :: "pgtbl_entry_t \<Rightarrow> bool" where
  "pte_dirty e \<longleftrightarrow> pt_frame e AND PG_DIRTY \<noteq> 0"

definition pte_ref :: "pgtbl_entry_t \<Rightarrow> bool" where
  "pte_ref e \<longleftrightarrow> pt_frame e AND PG_REF \<noteq> 0"

definition pte_onswap :: "pgtbl_entry_t \<Rightarrow> bool" where
  "pte_onswap e \<longleftrightarrow> pt_frame e AND PG_ONSWAP \<noteq> 0"

definition pte_frame_no :: "pgtbl_entry_t \<Rightarrow> nat" where
  "pte_frame_no e = unat (drop_bit PAGE_SHIFT (pt_frame e))"

definition deref :: "'a option \<Rightarrow> 'a res" where
  "deref q = (case q of None \<Rightarrow> Inl Null_Deref | Some x \<Rightarrow> Inr x)"

definition pte_read :: "sim \<Rightarrow> pteptr \<Rightarrow> pgtbl_entry_t res" where
  "pte_read s p = deref (pgtbls s p)"

definition pte_write :: "sim \<Rightarrow> pteptr \<Rightarrow> pgtbl_entry_t \<Rightarrow> sim" where
  "pte_write s p e = s\<lparr>pgtbls := (pgtbls s)(p \<mapsto> e)\<rparr>"

text \<open>\<open>p->frame = f (p->frame)\<close>\<close>

definition pte_frame_upd :: "(u32 \<Rightarrow> u32) \<Rightarrow> pteptr \<Rightarrow> sim \<Rightarrow> sim res" where
  "pte_frame_upd f p s =
    bindE (pte_read s p) (\<lambda>e. Inr (pte_write s p (e\<lparr>pt_frame := f (pt_frame e)\<rparr>)))"

lemma deref_simps [simp]: "deref None = Inl Null_Deref" "deref (Some x) = Inr x"
  by (simp_all add: deref_def)

lemma deref_Inr_iff: "deref q = Inr x \<longleftrightarrow> q = Some x"
  by (cases q) auto

text \<open>The flags as bits of the frame word; the frame number above them.\<close>

lemma flag_words: "(1 :: u32) = 2 ^ 0" "(2 :: u32) = 2 ^ 1" "(4 :: u32) = 2 ^ 2" "(8 :: u32) = 2 ^ 3"
  by simp_all

lemma pte_valid_bit: "pte_valid e \<longleftrightarrow> bit (pt_frame e) 0"
  unfolding pte_valid_def PG_VALID_def by (metis and_mask_zero_iff flag_words(1))

lemma pte_dirty_bit: "pte_dirty e \<longleftrightarrow> bit (pt_frame e) 1"
  unfolding pte_dirty_def PG_DIRTY_def by (metis and_mask_zero_iff flag_words(2))

lemma pte_ref_bit: "pte_ref e \<longleftrightarrow> bit (pt_frame e) 2"
  unfolding pte_ref_def PG_REF_def by (metis and_mask_zero_iff flag_words(3))

lemma pte_onswap_bit: "pte_onswap e \<longleftrightarrow> bit (pt_frame e) 3"
  unfolding pte_onswap_def PG_ONSWAP_def by (metis and_mask_zero_iff flag_words(4))

lemmas pte_bits = pte_valid_bit pte_dirty_bit pte_ref_bit pte_onswap_bit

lemma bit_flags:
  "bit PG_VALID n \<longleftrightarrow> n = 0" "bit PG_DIRTY n \<longleftrightarrow> n = 1"
  "bit PG_REF n \<longleftrightarrow> n = 2" "bit PG_ONSWAP n \<longleftrightarrow> n = 3"
  by (auto simp: PG_VALID_def PG_DIRTY_def PG_REF_def PG_ONSWAP_def bit_exp_iff
      flag_words(3,4) bit_1_iff bit_2_iff simp del: power_numeral)

declare drop_bit_and [simp del] drop_bit_or [simp del]

named_theorems flag_simps \<open>flags and frame number after an update of the frame word\<close>

lemma bit_or_flag [flag_simps]:
  "bit (w OR PG_VALID) n \<longleftrightarrow> bit w n \<or> n = 0"
  "bit (w OR PG_DIRTY) n \<longleftrightarrow> bit w n \<or> n = 1"
  "bit (w OR PG_REF) n \<longleftrightarrow> bit w n \<or> n = 2"
  "bit (w OR PG_ONSWAP) n \<longleftrightarrow> bit w n \<or> n = 3"
  by (simp_all add: bit_or_iff bit_flags)

lemma bit_clear_flag [flag_simps]:
  "bit (w AND NOT PG_VALID) n \<longleftrightarrow> bit w n \<and> n \<noteq> 0"
  "bit (w AND NOT PG_DIRTY) n \<longleftrightarrow> bit w n \<and> n \<noteq> 1"
  "bit (w AND NOT PG_REF) n \<longleftrightarrow> bit w n \<and> n \<noteq> 2"
  by (auto simp: bit_and_iff bit_not_iff bit_flags dest: bit_imp_le_length)

lemma drop_bit_cong:
  "(\<And>n. bit x (PAGE_SHIFT + n) \<longleftrightarrow> bit (y :: u32) (PAGE_SHIFT + n)) \<Longrightarrow>
    drop_bit PAGE_SHIFT x = drop_bit PAGE_SHIFT y"
  by (rule bit_word_eqI) (simp add: bit_drop_bit_eq)

lemma frame_no_or [flag_simps]:
  "drop_bit PAGE_SHIFT (w OR PG_VALID) = drop_bit PAGE_SHIFT w"
  "drop_bit PAGE_SHIFT (w OR PG_DIRTY) = drop_bit PAGE_SHIFT w"
  "drop_bit PAGE_SHIFT (w OR PG_REF) = drop_bit PAGE_SHIFT w"
  "drop_bit PAGE_SHIFT (w OR PG_ONSWAP) = drop_bit PAGE_SHIFT w"
  by (rule drop_bit_cong, simp add: bit_or_flag PAGE_SHIFT_def)+

lemma frame_no_clear [flag_simps]:
  "drop_bit PAGE_SHIFT (w AND NOT PG_VALID) = drop_bit PAGE_SHIFT w"
  "drop_bit PAGE_SHIFT (w AND NOT PG_DIRTY) = drop_bit PAGE_SHIFT w"
  "drop_bit PAGE_SHIFT (w AND NOT PG_REF) = drop_bit PAGE_SHIFT w"
  by (rule drop_bit_cong, simp add: bit_clear_flag PAGE_SHIFT_def)+

lemma new_frame_word [flag_simps]:
  "n < 2 ^ 20 \<Longrightarrow> unat (drop_bit PAGE_SHIFT (push_bit PAGE_SHIFT (of_nat n :: u32))) = n"
  "n < 12 \<Longrightarrow> \<not> bit (push_bit PAGE_SHIFT (w :: u32)) n"
proof -
  show "\<not> bit (push_bit PAGE_SHIFT (w :: u32)) n" if "n < 12"
    using that by (simp add: bit_push_bit_iff PAGE_SHIFT_def)
  assume n: "n < 2 ^ 20"
  have "drop_bit PAGE_SHIFT (push_bit PAGE_SHIFT (of_nat n :: u32)) = (of_nat n :: u32)"
  proof (rule bit_word_eqI)
    fix i assume "i < LENGTH(32)"
    have "\<not> bit n i" if "20 \<le> i"
    proof -
      have "n < 2 ^ i" using n that by (meson le_less_trans less_le_trans one_le_numeral power_increasing order.strict_trans2)
      then show ?thesis by (simp add: bit_iff_odd)
    qed
    then show "bit (drop_bit PAGE_SHIFT (push_bit PAGE_SHIFT (of_nat n :: u32))) i = bit (of_nat n :: u32) i"
      by (auto simp: bit_simps PAGE_SHIFT_def) (meson not_le)
  qed
  moreover have "unat (of_nat n :: u32) = n"
    using n by (simp add: unat_of_nat)
  ultimately show "unat (drop_bit PAGE_SHIFT (push_bit PAGE_SHIFT (of_nat n :: u32))) = n"
    by simp
qed

end
