(* ===== verification/Mem_Swap.thy ===== *)
theory Mem_Swap
  imports Mem_State
begin

text \<open>
  swap.c, lines 144-256: the swap file as a POSIX file (a byte list; a read at
  the end of the file is short, a write past the end pads with zero bytes and
  is cut off at the size limit of the file) and the two transfers between it
  and the frames of \<open>physmem\<close>.
\<close>

section \<open>File operations used\<close>

definition EINVAL_errno :: int where "EINVAL_errno = 22"

definition lseek_set :: "int \<Rightarrow> int" where
  "lseek_set off = (if 0 \<le> off then off else -1)"

definition file_read :: "nat \<Rightarrow> nat \<Rightarrow> u8 list \<Rightarrow> u8 list" where
  "file_read pos n f = take n (drop pos f)"

definition file_write :: "nat \<Rightarrow> nat \<Rightarrow> u8 list \<Rightarrow> u8 list \<Rightarrow> int \<times> u8 list" where
  "file_write limit pos data f =
    (let m = min (length data) (limit - pos) in
     if m = 0 then (-1, f)
     else (int m,
       take pos f @ replicate (pos - length f) 0 @ take m data @ drop (pos + m) f))"

section \<open>Operations\<close>

definition int_of_off :: "int \<Rightarrow> int" where
  "int_of_off x = sint (word_of_int x :: u32)"

definition swap_init :: "bool \<Rightarrow> bool \<times> bool \<Rightarrow> u32 \<Rightarrow> sim \<Rightarrow> (int \<times> sim) res" where
  "swap_init mkstemp_ok mallocs swapsize s =
    bindE (guardE Exit_Failure mkstemp_ok) (\<lambda>_.
    bindE (bitmap_create mallocs swapsize) (\<lambda>r.
      case r of
        None \<Rightarrow> Inl Exit_Failure
      | Some b \<Rightarrow> Inr (0, s\<lparr>swapfile := [], swapmap := b\<rparr>)))"

text \<open>The index of the first byte of a frame in \<open>physmem\<close>, as \<open>unsigned\<close> arithmetic.\<close>

definition frame_byte :: "u32 \<Rightarrow> nat" where
  "frame_byte fr = unat (fr * of_nat SIMPAGESIZE)"

definition swap_pagein :: "u32 \<Rightarrow> int \<Rightarrow> sim \<Rightarrow> (int \<times> sim) res" where
  "swap_pagein fr swap_offset s =
    bindE (guardE Assert_Failed (swap_offset \<noteq> INVALID_SWAP)) (\<lambda>_.
    let frame_ptr = frame_byte fr; pos = lseek_set swap_offset in
    if pos \<noteq> swap_offset then
      bindE (guardE Assert_Failed (pos = -1)) (\<lambda>_. Inr (- EINVAL_errno, s))
    else
      bindE (guardE Out_Of_Bounds (frame_ptr + SIMPAGESIZE \<le> length (physmem s))) (\<lambda>_.
      let bytes = file_read (nat pos) SIMPAGESIZE (swapfile s);
          s1 = s\<lparr>physmem := blit frame_ptr bytes (physmem s)\<rparr> in
      if length bytes \<noteq> SIMPAGESIZE then Inr (int (length bytes), s1)
      else Inr (0, s1)))"

text \<open>
  The two halves of \<open>swap_pageout\<close>: the offset to write to (lines 228-235,
  \<open>None\<close> where the function returns because the bitmap is full) and the write
  itself (lines 236-255).
\<close>

definition swap_slot :: "int \<Rightarrow> sim \<Rightarrow> (int \<times> sim) option res" where
  "swap_slot swap_offset s =
    (if swap_offset = INVALID_SWAP then
       bindE (bitmap_alloc (swapmap s)) (\<lambda>r. case r of
         None \<Rightarrow> Inr None
       | Some (b, idx) \<Rightarrow> Inr (Some (sint (idx * of_nat SIMPAGESIZE), s\<lparr>swapmap := b\<rparr>)))
     else Inr (Some (swap_offset, s)))"

definition swap_store :: "os_env \<Rightarrow> u32 \<Rightarrow> int \<Rightarrow> sim \<Rightarrow> (int \<times> sim) res" where
  "swap_store E fr swap_offset s =
    bindE (guardE Assert_Failed (swap_offset \<noteq> INVALID_SWAP)) (\<lambda>_.
    let frame_ptr = frame_byte fr; pos = lseek_set swap_offset in
    if pos \<noteq> swap_offset then
      bindE (guardE Assert_Failed (pos = -1)) (\<lambda>_. Inr (INVALID_SWAP, s))
    else
      bindE (guardE Out_Of_Bounds (frame_ptr + SIMPAGESIZE \<le> length (physmem s))) (\<lambda>_.
      case file_write (file_limit E) (nat pos)
             (region frame_ptr SIMPAGESIZE (physmem s)) (swapfile s) of
        (bytes_written, f) \<Rightarrow>
          if bytes_written \<noteq> int SIMPAGESIZE then Inr (INVALID_SWAP, s\<lparr>swapfile := f\<rparr>)
          else Inr (swap_offset, s\<lparr>swapfile := f\<rparr>)))"

definition swap_pageout :: "os_env \<Rightarrow> u32 \<Rightarrow> int \<Rightarrow> sim \<Rightarrow> (int \<times> sim) res" where
  "swap_pageout E fr swap_offset s =
    bindE (swap_slot swap_offset s) (\<lambda>r. case r of
      None \<Rightarrow> Inr (INVALID_SWAP, s)
    | Some (off, s1) \<Rightarrow> swap_store E fr off s1)"

section \<open>Reading back what was written\<close>

lemma file_write_full:
  assumes "pos + length data \<le> limit" and "data \<noteq> []"
  shows "file_write limit pos data f =
    (int (length data), take pos f @ replicate (pos - length f) 0 @ data @ drop (pos + length data) f)"
  using assms by (simp add: file_write_def Let_def min_def)

lemma file_read_after_write:
  assumes "file_write limit pos data f = (int (length data), f')" and "data \<noteq> []"
  shows "file_read pos (length data) f' = data"
proof -
  let ?m = "min (length data) (limit - pos)"
  have m: "?m = length data" using assms by (auto simp: file_write_def Let_def split: if_splits)
  have "f' = take pos f @ replicate (pos - length f) 0 @ data @ drop (pos + length data) f"
    using assms m by (auto simp: file_write_def Let_def split: if_splits)
  moreover have "length (take pos f @ replicate (pos - length f) (0 :: u8)) = pos" by simp
  ultimately show ?thesis
    by (simp add: file_read_def append_assoc [symmetric] del: append_assoc)
qed

lemma file_read_other:
  assumes "file_write limit pos data f = (int (length data), f')"
    and "o2 + n \<le> pos \<or> pos + length data \<le> o2" and "o2 + n \<le> length f"
  shows "file_read o2 n f' = file_read o2 n f"
proof (cases "data = []")
  case True
  then show ?thesis using assms by (auto simp: file_write_def)
next
  case False
  let ?m = "min (length data) (limit - pos)"
  have m: "?m = length data"
    using assms False by (auto simp: file_write_def Let_def split: if_splits)
  have f': "f' = take pos f @ replicate (pos - length f) 0 @ data @ drop (pos + length data) f"
    using assms m False by (auto simp: file_write_def Let_def split: if_splits)
  from assms(2) show ?thesis
  proof
    assume "o2 + n \<le> pos"
    then show ?thesis using assms(3) by (simp add: f' file_read_def min_def drop_take)
  next
    assume le: "pos + length data \<le> o2"
    define k where "k = o2 - (pos + length data)"
    have o2: "o2 = pos + length data + k" using le by (simp add: k_def)
    have "pos \<le> length f" using assms(3) le by simp
    then show ?thesis by (simp add: f' file_read_def o2 ac_simps)
  qed
qed

lemma length_file_write:
  "file_write limit pos data f = (r, f') \<Longrightarrow> length f \<le> length f'"
  by (auto simp: file_write_def Let_def split: if_splits)

text \<open>The transfers touch nothing but the bitmap and the file, or the frame read into.\<close>

lemma swap_slot_frame:
  "swap_slot off s = Inr (Some (r, s')) \<Longrightarrow> s' = s\<lparr>swapmap := swapmap s'\<rparr>"
  by (auto simp: swap_slot_def bindE_def split: sum.splits option.splits if_splits)

lemma swap_store_frame:
  "swap_store E fr off s = Inr (r, s') \<Longrightarrow> s' = s\<lparr>swapfile := swapfile s'\<rparr>"
  by (auto simp: swap_store_def bindE_def guardE_def Let_def split: if_splits prod.splits)

lemma swap_pageout_frame:
  assumes "swap_pageout E fr off s = Inr (r, s')"
  shows "s' = s\<lparr>swapmap := swapmap s', swapfile := swapfile s'\<rparr>"
proof -
  from assms obtain q where q: "swap_slot off s = Inr q"
    and rest: "(case q of None \<Rightarrow> Inr (INVALID_SWAP, s)
      | Some (off, s1) \<Rightarrow> swap_store E fr off s1) = Inr (r, s')"
    by (auto simp: swap_pageout_def bindE_Inr_iff)
  show ?thesis
  proof (cases q)
    case None
    then show ?thesis using rest by simp
  next
    case (Some q')
    obtain o1 s1 where q': "q' = (o1, s1)" by (cases q')
    have 1: "s1 = s\<lparr>swapmap := swapmap s1\<rparr>" using q Some q' by (auto dest: swap_slot_frame)
    have "s' = s1\<lparr>swapfile := swapfile s'\<rparr>" using rest Some q' by (auto dest: swap_store_frame)
    then show ?thesis using 1
      by (metis (no_types, lifting) sim.select_convs(11) sim.surjective sim.update_convs(10,11))
  qed
qed

text \<open>The slot a page gets: a multiple of the page size below the capacity of the bitmap.\<close>

definition slot_off :: "nat \<Rightarrow> int" where
  "slot_off k = int k * int SIMPAGESIZE"

lemma slot_off_simps [simp]:
  "0 \<le> slot_off k" "slot_off k \<noteq> INVALID_SWAP" "slot_off j = slot_off k \<longleftrightarrow> j = k"
  "nat (slot_off k) = SIMPAGESIZE * k"
  by (auto simp: slot_off_def SIMPAGESIZE_def INVALID_SWAP_def nat_mult_distrib mult.commute)

lemma sint_slot:
  assumes "unat (x :: u32) < 2 ^ 27"
  shows "sint (x * of_nat SIMPAGESIZE) = slot_off (unat x)"
proof -
  have "unat (x * of_nat SIMPAGESIZE) = unat x * 16"
    using assms by (simp add: SIMPAGESIZE_def unat_word_ariths)
  then have u: "uint (x * of_nat SIMPAGESIZE) = int (unat x * 16)"
    by (metis uint_nat)
  have "sint (x * of_nat SIMPAGESIZE) = signed_take_bit 31 (int (unat x * 16))"
    unfolding sint_uint u by simp
  also have "signed_take_bit 31 (int (n * 16)) = int (n * 16)" if "n < 2 ^ 27" for n
    using that by (intro signed_take_bit_int_eq_self) auto
  from this [OF assms] have "signed_take_bit 31 (int (unat x * 16)) = int (unat x * 16)" .
  finally show ?thesis by (simp add: slot_off_def SIMPAGESIZE_def)
qed

end
