(* ===== verification/Mem_PageTable.thy ===== *)
theory Mem_PageTable
  imports Mem_Swap
begin

text \<open>
  pagetable.c: frame allocation, the two-level lookup and the page-fault path.
  The replacement algorithm enters as the two functions sim.c stores in
  \<open>ref_fcn\<close> and \<open>evict_fcn\<close>.
\<close>

type_synonym ref_fun = "pteptr \<Rightarrow> sim \<Rightarrow> sim res"
type_synonym evict_fun = "sim \<Rightarrow> (int \<times> sim) res"

section \<open>allocate_frame\<close>

text \<open>The scan for a free frame (lines 30-35).\<close>

definition find_free_frame :: "sim \<Rightarrow> nat option" where
  "find_free_frame s = find (\<lambda>i. \<not> in_use (coremap s ! i)) [0 ..< memsize s]"

text \<open>Writing the victim to swap if needed, and its bookkeeping (lines 44-61).\<close>

definition write_victim :: "os_env \<Rightarrow> u32 \<Rightarrow> pteptr \<Rightarrow> sim \<Rightarrow> sim res" where
  "write_victim E fr victim s =
    bindE (pte_read s victim) (\<lambda>e.
    if pte_onswap e \<and> \<not> pte_dirty e then
      Inr (s\<lparr>evict_clean_count := Suc (evict_clean_count s)\<rparr>)
    else
      bindE (if pte_dirty e then pte_frame_upd (\<lambda>w. w AND NOT PG_DIRTY) victim s else Inr s) (\<lambda>s1.
      bindE (swap_pageout E fr (int_of_off (swap_off e)) s1) (\<lambda>(success, s2).
      let s3 = s2\<lparr>evict_dirty_count := Suc (evict_dirty_count s2)\<rparr> in
      if success = INVALID_SWAP then Inl Exit_Failure
      else bindE (pte_read s3 victim) (\<lambda>e3.
        Inr (pte_write s3 victim (e3\<lparr>swap_off := success\<rparr>))))))"

text \<open>The branch that takes a frame away from a page (lines 36-63).\<close>

definition evict_frame :: "os_env \<Rightarrow> evict_fun \<Rightarrow> sim \<Rightarrow> (nat \<times> sim) res" where
  "evict_frame E evict_fcn s =
    bindE (evict_fcn s) (\<lambda>(fr, s1).
    bindE (guardE Out_Of_Bounds (0 \<le> fr)) (\<lambda>_.
    bindE (rd (coremap s1) (nat fr)) (\<lambda>c.
    bindE (deref (fpte c)) (\<lambda>victim.
    bindE (write_victim E (of_int fr) victim s1) (\<lambda>s2.
    bindE (pte_frame_upd (\<lambda>w. w AND NOT PG_VALID) victim s2) (\<lambda>s3.
    Inr (nat fr, s3)))))))"

definition claim_frame :: "nat \<Rightarrow> pteptr \<Rightarrow> sim \<Rightarrow> sim res" where
  "claim_frame fr p s =
    bindE (rd (coremap s) fr) (\<lambda>c.
    Inr (s\<lparr>coremap := (coremap s)[fr := c\<lparr>in_use := True, fpte := Some p\<rparr>]\<rparr>))"

definition allocate_frame :: "os_env \<Rightarrow> evict_fun \<Rightarrow> pteptr \<Rightarrow> sim \<Rightarrow> (nat \<times> sim) res" where
  "allocate_frame E evict_fcn p s =
    bindE (case find_free_frame s of
        Some i \<Rightarrow> Inr (i, s)
      | None \<Rightarrow> evict_frame E evict_fcn s) (\<lambda>(fr, s1).
    bindE (claim_frame fr p s1) (\<lambda>s2. Inr (fr, s2)))"

section \<open>Tables and frames\<close>

definition init_pagetable :: "sim \<Rightarrow> sim" where
  "init_pagetable s = s\<lparr>pgdir := replicate PTRS_PER_PGDIR 0\<rparr>"

definition fresh_pte :: pgtbl_entry_t where
  "fresh_pte = \<lparr>pt_frame = 0, swap_off = INVALID_SWAP\<rparr>"

definition init_second_level :: "os_env \<Rightarrow> sim \<Rightarrow> (u64 \<times> sim) res" where
  "init_second_level E s =
    (case posix_memalign E (pgtbls s) of
      None \<Rightarrow> Inl Exit_Failure
    | Some base \<Rightarrow>
        Inr (base OR 1,
          s\<lparr>pgtbls := (\<lambda>(b, i). if b = base \<and> i < PTRS_PER_PGTBL then Some fresh_pte
                                else pgtbls s (b, i))\<rparr>))"

definition init_frame :: "nat \<Rightarrow> u64 \<Rightarrow> sim \<Rightarrow> sim res" where
  "init_frame fr vaddr s =
    (let mem_ptr = fr * SIMPAGESIZE; vaddr_ptr = mem_ptr + 4 in
     bindE (guardE Out_Of_Bounds (mem_ptr + SIMPAGESIZE \<le> length (physmem s))) (\<lambda>_.
     Inr (s\<lparr>physmem := blit vaddr_ptr (store_le 8 vaddr)
              (blit mem_ptr (replicate SIMPAGESIZE 0) (physmem s))\<rparr>)))"

section \<open>find_physpage\<close>

text \<open>Lines 155-166: the table entry of \<open>vaddr\<close>, with its table created on first use.\<close>

definition lookup_pte :: "os_env \<Rightarrow> u64 \<Rightarrow> sim \<Rightarrow> (pteptr \<times> sim) res" where
  "lookup_pte E vaddr s =
    (let idx = unat (PGDIR_INDEX vaddr) in
     bindE (rd (pgdir s) idx) (\<lambda>pgdir_entry.
     bindE (if pgdir_entry AND 1 = 0 then
              bindE (init_second_level E s) (\<lambda>(pde, s1).
              Inr (pde, s1\<lparr>pgdir := (pgdir s1)[idx := pde]\<rparr>))
            else Inr (pgdir_entry, s)) (\<lambda>(pde, s1).
     Inr ((pde AND PAGE_MASK, unat (PGTBL_INDEX vaddr)), s1))))"

text \<open>Lines 168-195: the three cases of the entry.\<close>

definition count_miss :: "sim \<Rightarrow> sim" where
  "count_miss s = s\<lparr>miss_count := Suc (miss_count s), ref_count := Suc (ref_count s)\<rparr>"

definition count_hit :: "sim \<Rightarrow> sim" where
  "count_hit s = s\<lparr>hit_count := Suc (hit_count s), ref_count := Suc (ref_count s)\<rparr>"

definition fault_new :: "os_env \<Rightarrow> evict_fun \<Rightarrow> u64 \<Rightarrow> pteptr \<Rightarrow> sim \<Rightarrow> sim res" where
  "fault_new E evict_fcn vaddr p s =
    bindE (allocate_frame E evict_fcn p s) (\<lambda>(fr, s1).
    bindE (init_frame fr vaddr s1) (\<lambda>s2.
    bindE (pte_frame_upd (\<lambda>_. push_bit PAGE_SHIFT (of_nat fr)) p s2) (\<lambda>s3.
    bindE (pte_frame_upd (\<lambda>w. w OR PG_DIRTY) p s3) (\<lambda>s4.
    Inr (count_miss s4)))))"

definition fault_swapped :: "os_env \<Rightarrow> evict_fun \<Rightarrow> pteptr \<Rightarrow> sim \<Rightarrow> sim res" where
  "fault_swapped E evict_fcn p s =
    bindE (allocate_frame E evict_fcn p s) (\<lambda>(fr, s1).
    bindE (pte_read s1 p) (\<lambda>e.
    bindE (swap_pagein (drop_bit PAGE_SHIFT (pt_frame e)) (int_of_off (swap_off e)) s1) (\<lambda>(success, s2).
    if success = -1 then Inl Exit_Failure
    else
      bindE (pte_read s2 p) (\<lambda>e2.
      let s3 = pte_write s2 p (e2\<lparr>swap_off := success\<rparr>) in
      bindE (pte_frame_upd (\<lambda>_. push_bit PAGE_SHIFT (of_nat fr)) p s3) (\<lambda>s4.
      bindE (pte_frame_upd (\<lambda>w. w OR PG_ONSWAP) p s4) (\<lambda>s5.
      Inr (count_miss s5)))))))"

definition resolve_fault :: "os_env \<Rightarrow> evict_fun \<Rightarrow> u64 \<Rightarrow> pteptr \<Rightarrow> sim \<Rightarrow> sim res" where
  "resolve_fault E evict_fcn vaddr p s =
    bindE (pte_read s p) (\<lambda>e.
    if \<not> pte_valid e \<and> \<not> pte_onswap e then fault_new E evict_fcn vaddr p s
    else if \<not> pte_valid e \<and> pte_onswap e then fault_swapped E evict_fcn p s
    else Inr (count_hit s))"

definition is_write :: "char \<Rightarrow> bool" where
  "is_write ty \<longleftrightarrow> ty = CHR ''S'' \<or> ty = CHR ''M''"

text \<open>Lines 197-203: valid, referenced, and dirty on a write.\<close>

definition mark_access :: "char \<Rightarrow> pteptr \<Rightarrow> sim \<Rightarrow> sim res" where
  "mark_access ty p s =
    bindE (pte_frame_upd (\<lambda>w. w OR PG_VALID) p s) (\<lambda>s1.
    bindE (pte_frame_upd (\<lambda>w. w OR PG_REF) p s1) (\<lambda>s2.
    if is_write ty then pte_frame_upd (\<lambda>w. w OR PG_DIRTY) p s2 else Inr s2))"

text \<open>The result is the index in \<open>physmem\<close> of the pointer the C function returns.\<close>

definition find_physpage ::
  "os_env \<Rightarrow> ref_fun \<Rightarrow> evict_fun \<Rightarrow> u64 \<Rightarrow> char \<Rightarrow> sim \<Rightarrow> (nat \<times> sim) res" where
  "find_physpage E ref_fcn evict_fcn vaddr ty s =
    bindE (lookup_pte E vaddr s) (\<lambda>(p, s1).
    bindE (resolve_fault E evict_fcn vaddr p s1) (\<lambda>s2.
    bindE (mark_access ty p s2) (\<lambda>s3.
    bindE (ref_fcn p s3) (\<lambda>s4.
    bindE (pte_read s4 p) (\<lambda>e.
    Inr (frame_byte (drop_bit PAGE_SHIFT (pt_frame e)), s4))))))"

end
