(* ===== verification/Mem_Inv.thy ===== *)
theory Mem_Inv
  imports Mem_PageTable
begin

text \<open>
  The invariants of the simulated memory.  \<open>maps s p f\<close>: the entry \<open>p\<close> is valid
  and names frame \<open>f\<close>.  \<open>holds s f p\<close>: frame \<open>f\<close> is in use and points back to
  \<open>p\<close>.  \<open>vm_inv\<close> says that the two agree; \<open>dir_inv\<close> that every valid directory
  entry points to a table of its own; \<open>swap_inv\<close> that no two pages share a slot
  of the swap file.  \<open>core\<close> forgets what only the replacement algorithms read,
  \<open>pol_view\<close> keeps what only they write.
\<close>

section \<open>Definitions\<close>

definition maps :: "sim \<Rightarrow> pteptr \<Rightarrow> nat \<Rightarrow> bool" where
  "maps s p f \<longleftrightarrow> (\<exists>e. pgtbls s p = Some e \<and> pte_valid e \<and> pte_frame_no e = f)"

definition holds :: "sim \<Rightarrow> nat \<Rightarrow> pteptr \<Rightarrow> bool" where
  "holds s f p \<longleftrightarrow> f < memsize s \<and> in_use (coremap s ! f) \<and> fpte (coremap s ! f) = Some p"

definition used_frames :: "sim \<Rightarrow> nat set" where
  "used_frames s = {f. f < memsize s \<and> in_use (coremap s ! f)}"

definition sizes_ok :: "sim \<Rightarrow> bool" where
  "sizes_ok s \<longleftrightarrow> 0 < memsize s \<and> memsize s \<le> 2 ^ 19 \<and>
     length (physmem s) = memsize s * SIMPAGESIZE \<and> length (pgdir s) = PTRS_PER_PGDIR"

definition frames_ok :: "sim \<Rightarrow> bool" where
  "frames_ok s \<longleftrightarrow> (\<forall>f \<in> used_frames s. \<exists>p. holds s f p)"

definition entry_ok :: "pgtbl_entry_t \<Rightarrow> bool" where
  "entry_ok e \<longleftrightarrow> \<not> pte_onswap e \<and> (pte_valid e \<longrightarrow> pte_dirty e)"

definition entries_ok :: "sim \<Rightarrow> bool" where
  "entries_ok s \<longleftrightarrow> (\<forall>p e. pgtbls s p = Some e \<longrightarrow> entry_ok e)"

definition vm_inv :: "sim \<Rightarrow> bool" where
  "vm_inv s \<longleftrightarrow> sizes_ok s \<and> frames_ok s \<and> entries_ok s \<and> (\<forall>p f. maps s p f \<longleftrightarrow> holds s f p)"

text \<open>The same with frame \<open>g\<close> promised to the entry \<open>p\<close>, which is not valid yet.\<close>

definition vm_pending :: "nat \<Rightarrow> pteptr \<Rightarrow> sim \<Rightarrow> bool" where
  "vm_pending g p s \<longleftrightarrow> sizes_ok s \<and> frames_ok s \<and> entries_ok s \<and> holds s g p \<and>
     (\<forall>f. \<not> maps s p f) \<and> (\<forall>q. \<not> maps s q g) \<and>
     (\<forall>q f. f \<noteq> g \<longrightarrow> (maps s q f \<longleftrightarrow> holds s f q))"

definition dir_inv :: "sim \<Rightarrow> bool" where
  "dir_inv s \<longleftrightarrow>
     (\<forall>i < PTRS_PER_PGDIR. pgdir s ! i AND 1 \<noteq> 0 \<longrightarrow>
        (\<forall>j < PTRS_PER_PGTBL. pgtbls s (pgdir s ! i AND PAGE_MASK, j) \<noteq> None)) \<and>
     (\<forall>i < PTRS_PER_PGDIR. \<forall>j < PTRS_PER_PGDIR.
        pgdir s ! i AND 1 \<noteq> 0 \<longrightarrow> pgdir s ! j AND 1 \<noteq> 0 \<longrightarrow>
        pgdir s ! i AND PAGE_MASK = pgdir s ! j AND PAGE_MASK \<longrightarrow> i = j)"

definition slot_of :: "sim \<Rightarrow> pteptr \<Rightarrow> int option" where
  "slot_of s p = (case pgtbls s p of None \<Rightarrow> None
     | Some e \<Rightarrow> if swap_off e = INVALID_SWAP then None else Some (swap_off e))"

definition swap_inv :: "sim \<Rightarrow> bool" where
  "swap_inv s \<longleftrightarrow> bm_wf (swapmap s) \<and> unat (nbits (swapmap s)) \<le> 2 ^ 27 \<and>
     (\<forall>p x. slot_of s p = Some x \<longrightarrow> (\<exists>k \<in> used (swapmap s). x = slot_off k)) \<and>
     (\<forall>p q x. slot_of s p = Some x \<longrightarrow> slot_of s q = Some x \<longrightarrow> p = q)"

text \<open>Everything of an entry but its reference bit.\<close>

definition pview :: "pgtbl_entry_t \<Rightarrow> bool \<times> bool \<times> bool \<times> nat \<times> int" where
  "pview e = (pte_valid e, pte_dirty e, pte_onswap e, pte_frame_no e, swap_off e)"

type_synonym core_view =
  "(bool \<times> pteptr option) list \<times> u8 list \<times> u64 list \<times>
   (pteptr \<Rightarrow> (bool \<times> bool \<times> bool \<times> nat \<times> int) option) \<times>
   nat \<times> nat \<times> nat \<times> nat \<times> nat \<times> u8 list \<times> bitmap \<times> nat"

definition core :: "sim \<Rightarrow> core_view" where
  "core s = (map (\<lambda>c. (in_use c, fpte c)) (coremap s), physmem s, pgdir s,
     (\<lambda>p. map_option pview (pgtbls s p)),
     hit_count s, miss_count s, ref_count s, evict_clean_count s, evict_dirty_count s,
     swapfile s, swapmap s, check_errors s)"

type_synonym policy_view =
  "(nat option \<times> nat option) list \<times> int \<times> int \<times> nat option \<times> nat option \<times>
   nat option list \<times> nat option \<times> nat option list \<times> nat \<times>
   vaddr_node list \<times> occ_node list"

definition pol_view :: "sim \<Rightarrow> policy_view" where
  "pol_view s = (map (\<lambda>c. (fnext c, fprev c)) (coremap s), fifo_evict_g s, oldest_page s,
     lru_head s, lru_tail s, hashmap s, coremap_head s, reference_string s, position s,
     vnodes s, onodes s)"

section \<open>What the core determines\<close>

lemma core_fields:
  assumes "core s = core t"
  shows "physmem s = physmem t" "pgdir s = pgdir t" "hit_count s = hit_count t"
    "miss_count s = miss_count t" "ref_count s = ref_count t"
    "evict_clean_count s = evict_clean_count t" "evict_dirty_count s = evict_dirty_count t"
    "swapfile s = swapfile t" "swapmap s = swapmap t" "check_errors s = check_errors t"
  using assms by (simp_all add: core_def)

lemma core_memsize: "core s = core t \<Longrightarrow> memsize s = memsize t"
  by (auto simp: core_def memsize_def dest: map_eq_imp_length_eq)

lemma core_coremap:
  assumes "core s = core t" and "f < memsize s"
  shows "in_use (coremap s ! f) = in_use (coremap t ! f)" "fpte (coremap s ! f) = fpte (coremap t ! f)"
proof -
  have "map (\<lambda>c. (in_use c, fpte c)) (coremap s) = map (\<lambda>c. (in_use c, fpte c)) (coremap t)"
    using assms(1) by (simp add: core_def)
  then have "(in_use (coremap s ! f), fpte (coremap s ! f)) = (in_use (coremap t ! f), fpte (coremap t ! f))"
    using assms core_memsize [OF assms(1)] by (metis (mono_tags, lifting) memsize_def nth_map)
  then show "in_use (coremap s ! f) = in_use (coremap t ! f)" "fpte (coremap s ! f) = fpte (coremap t ! f)"
    by simp_all
qed

lemma pview_ref [simp]:
  "pview (e\<lparr>pt_frame := pt_frame e AND NOT PG_REF\<rparr>) = pview e"
  "pview (e\<lparr>pt_frame := pt_frame e OR PG_REF\<rparr>) = pview e"
  by (simp_all add: pview_def pte_bits pte_frame_no_def flag_simps)

lemma core_pgtbls: "core s = core t \<Longrightarrow> map_option pview (pgtbls s p) = map_option pview (pgtbls t p)"
  by (simp add: core_def fun_eq_iff)

lemma core_entry:
  assumes "core s = core t" and "pgtbls s p = Some e"
  obtains e' where "pgtbls t p = Some e'" and "pview e' = pview e"
  using core_pgtbls [OF assms(1), of p] assms(2) by (cases "pgtbls t p") auto

lemma core_None: "core s = core t \<Longrightarrow> pgtbls s p = None \<longleftrightarrow> pgtbls t p = None"
  using core_pgtbls [of s t p] by (cases "pgtbls s p"; cases "pgtbls t p") auto

lemma maps_alt: "maps s p f \<longleftrightarrow> (case map_option pview (pgtbls s p) of None \<Rightarrow> False
    | Some (vd, _, _, n, _) \<Rightarrow> vd \<and> n = f)"
  by (auto simp: maps_def pview_def split: option.split)

lemma slot_of_alt: "slot_of s p = (case map_option pview (pgtbls s p) of None \<Rightarrow> None
    | Some (_, _, _, _, x) \<Rightarrow> if x = INVALID_SWAP then None else Some x)"
  by (auto simp: slot_of_def pview_def split: option.split)

lemma maps_core: "core s = core t \<Longrightarrow> maps s p f \<longleftrightarrow> maps t p f"
  unfolding maps_alt by (drule core_pgtbls [of _ _ p]) simp

lemma holds_core:
  assumes "core s = core t"
  shows "holds s f p \<longleftrightarrow> holds t f p"
  using core_memsize [OF assms] core_coremap [OF assms, of f] unfolding holds_def by auto

lemma used_frames_core:
  assumes "core s = core t"
  shows "used_frames s = used_frames t"
  using core_memsize [OF assms] core_coremap [OF assms] unfolding used_frames_def by auto

lemma sizes_ok_core:
  assumes "core s = core t"
  shows "sizes_ok s \<longleftrightarrow> sizes_ok t"
  by (simp add: sizes_ok_def core_memsize [OF assms] core_fields(1,2) [OF assms])

lemma entry_ok_pview: "pview e = pview e' \<Longrightarrow> entry_ok e \<longleftrightarrow> entry_ok e'"
  by (simp add: entry_ok_def pview_def)

lemma entries_ok_core: "core s = core t \<Longrightarrow> entries_ok s \<Longrightarrow> entries_ok t"
  unfolding entries_ok_def
proof (intro allI impI)
  fix p e
  assume st: "core s = core t" and ok: "\<forall>p e. pgtbls s p = Some e \<longrightarrow> entry_ok e"
    and t: "pgtbls t p = Some e"
  obtain e' where "pgtbls s p = Some e'" "pview e' = pview e"
    using core_entry [OF st [symmetric] t] by blast
  then show "entry_ok e" using ok entry_ok_pview by blast
qed

lemma vm_inv_core:
  assumes "core s = core t" and "vm_inv s"
  shows "vm_inv t"
  using assms entries_ok_core [OF assms(1)]
  by (simp add: vm_inv_def frames_ok_def holds_core [OF assms(1)] maps_core [OF assms(1)]
      sizes_ok_core [OF assms(1)] used_frames_core [OF assms(1)])

lemma slot_of_core: "core s = core t \<Longrightarrow> slot_of s p = slot_of t p"
  unfolding slot_of_alt by (drule core_pgtbls [of _ _ p]) simp

lemma swap_inv_core:
  assumes "core s = core t" and "swap_inv s"
  shows "swap_inv t"
  using assms(2) by (simp add: swap_inv_def core_fields(9) [OF assms(1)] slot_of_core [OF assms(1)])

lemma dir_inv_core:
  assumes "core s = core t" and "dir_inv s"
  shows "dir_inv t"
  using assms(2)
  by (simp add: dir_inv_def core_fields(2) [OF assms(1)] core_None [OF assms(1)] del: not_None_eq)

lemmas core_preserves = vm_inv_core swap_inv_core dir_inv_core

end
