(* ===== verification/Mem_Evict.thy ===== *)
theory Mem_Evict
  imports Mem_Inv
begin

text \<open>
  Effects of the single updates of pagetable.c on the invariants, and the
  contract of \<open>swap_pageout\<close> on a state that satisfies them.
\<close>

section \<open>Updates and observations\<close>

lemma pte_read_Inr: "pte_read s p = Inr e \<longleftrightarrow> pgtbls s p = Some e"
  by (simp add: pte_read_def deref_Inr_iff)

lemma pte_frame_upd_Some:
  "pgtbls s p = Some e \<Longrightarrow>
    pte_frame_upd f p s = Inr (pte_write s p (e\<lparr>pt_frame := f (pt_frame e)\<rparr>))"
  by (simp add: pte_frame_upd_def pte_read_def)

lemma pte_write_fields [simp]:
  "coremap (pte_write s p e) = coremap s" "physmem (pte_write s p e) = physmem s"
  "pgdir (pte_write s p e) = pgdir s" "pgtbls (pte_write s p e) = (pgtbls s)(p \<mapsto> e)"
  "swapmap (pte_write s p e) = swapmap s" "swapfile (pte_write s p e) = swapfile s"
  "hit_count (pte_write s p e) = hit_count s" "miss_count (pte_write s p e) = miss_count s"
  "ref_count (pte_write s p e) = ref_count s" "check_errors (pte_write s p e) = check_errors s"
  "evict_clean_count (pte_write s p e) = evict_clean_count s"
  "evict_dirty_count (pte_write s p e) = evict_dirty_count s"
  "pol_view (pte_write s p e) = pol_view s" "memsize (pte_write s p e) = memsize s"
  by (simp_all add: pte_write_def pol_view_def memsize_def)

lemma pte_write_twice [simp]: "pte_write (pte_write s p e) p e' = pte_write s p e'"
  by (simp add: pte_write_def)

lemma maps_pte_write [simp]:
  "maps (pte_write s p e) q f \<longleftrightarrow>
    (if q = p then pte_valid e \<and> pte_frame_no e = f else maps s q f)"
  by (simp add: maps_def)

lemma holds_pte_write [simp]: "holds (pte_write s p e) f q \<longleftrightarrow> holds s f q"
  by (simp add: holds_def)

lemma used_frames_pte_write [simp]: "used_frames (pte_write s p e) = used_frames s"
  by (simp add: used_frames_def)

lemma sizes_ok_pte_write [simp]: "sizes_ok (pte_write s p e) \<longleftrightarrow> sizes_ok s"
  by (simp add: sizes_ok_def)

lemma frames_ok_pte_write [simp]: "frames_ok (pte_write s p e) \<longleftrightarrow> frames_ok s"
  by (simp add: frames_ok_def)

lemma entries_ok_pte_write: "entries_ok s \<Longrightarrow> entry_ok e \<Longrightarrow> entries_ok (pte_write s p e)"
  by (simp add: entries_ok_def)

lemma slot_of_pte_write [simp]:
  "slot_of (pte_write s p e) q =
    (if q = p then (if swap_off e = INVALID_SWAP then None else Some (swap_off e)) else slot_of s q)"
  by (simp add: slot_of_def)

text \<open>States that differ in components the invariants do not read.\<close>

definition same_vm :: "sim \<Rightarrow> sim \<Rightarrow> bool" where
  "same_vm s t \<longleftrightarrow> coremap t = coremap s \<and> length (physmem t) = length (physmem s) \<and>
     length (pgdir t) = length (pgdir s) \<and> pgtbls t = pgtbls s"

lemma same_vm_obs:
  assumes "same_vm s t"
  shows "maps t p f \<longleftrightarrow> maps s p f" "holds t f p \<longleftrightarrow> holds s f p"
    "used_frames t = used_frames s" "sizes_ok t \<longleftrightarrow> sizes_ok s" "frames_ok t \<longleftrightarrow> frames_ok s"
    "entries_ok t \<longleftrightarrow> entries_ok s" "slot_of t p = slot_of s p" "memsize t = memsize s"
proof -
  have h: "holds t g q \<longleftrightarrow> holds s g q" for g q
    using assms by (simp add: same_vm_def holds_def memsize_def)
  have u: "used_frames t = used_frames s"
    using assms by (simp add: same_vm_def used_frames_def memsize_def)
  show "holds t f p \<longleftrightarrow> holds s f p" by (rule h)
  show "used_frames t = used_frames s" by (rule u)
  show "frames_ok t \<longleftrightarrow> frames_ok s" by (simp add: frames_ok_def h u)
  show "maps t p f \<longleftrightarrow> maps s p f" "sizes_ok t \<longleftrightarrow> sizes_ok s"
    "entries_ok t \<longleftrightarrow> entries_ok s" "slot_of t p = slot_of s p" "memsize t = memsize s"
    using assms by (simp_all add: same_vm_def maps_def sizes_ok_def entries_ok_def slot_of_def memsize_def)
qed

lemma vm_inv_same: "same_vm s t \<Longrightarrow> vm_inv t \<longleftrightarrow> vm_inv s"
  by (simp add: vm_inv_def same_vm_obs)

lemma vm_pending_same: "same_vm s t \<Longrightarrow> vm_pending g p t \<longleftrightarrow> vm_pending g p s"
  by (simp add: vm_pending_def same_vm_obs)

lemma holds_fun: "holds s f p \<Longrightarrow> holds s f q \<Longrightarrow> p = q"
  by (simp add: holds_def)

lemma maps_fun: "maps s p f \<Longrightarrow> maps s p g \<Longrightarrow> f = g"
  by (auto simp: maps_def)

lemma holds_used: "holds s f p \<Longrightarrow> f \<in> used_frames s"
  by (simp add: holds_def used_frames_def)

lemma vm_inv_maps_inj: "vm_inv s \<Longrightarrow> maps s p f \<Longrightarrow> maps s q f \<Longrightarrow> p = q"
  unfolding vm_inv_def using holds_fun by blast

lemma finite_used_frames [simp]: "finite (used_frames s)"
  by (simp add: used_frames_def)

section \<open>Entry flags\<close>

lemma entry_flags:
  "pte_valid (e\<lparr>pt_frame := pt_frame e AND NOT PG_VALID\<rparr>) = False"
  "pte_onswap (e\<lparr>pt_frame := pt_frame e AND NOT PG_VALID\<rparr>) = pte_onswap e"
  "pte_valid (e\<lparr>pt_frame := pt_frame e AND NOT PG_DIRTY\<rparr>) = pte_valid e"
  "pte_onswap (e\<lparr>pt_frame := pt_frame e AND NOT PG_DIRTY\<rparr>) = pte_onswap e"
  by (simp_all add: pte_bits flag_simps)

section \<open>swap_pageout\<close>

lemma frame_byte_of_nat: "f < 2 ^ 19 \<Longrightarrow> frame_byte (of_nat f) = f * SIMPAGESIZE"
  by (simp add: frame_byte_def SIMPAGESIZE_def unat_word_ariths unat_of_nat)

lemma int_of_off_id: "- (2 ^ 31) \<le> x \<Longrightarrow> x < 2 ^ 31 \<Longrightarrow> int_of_off x = x"
  by (simp add: int_of_off_def signed_of_int signed_take_bit_int_eq_self)

lemma int_of_off_slot: "k < 2 ^ 27 \<Longrightarrow> int_of_off (slot_off k) = slot_off k"
  by (rule int_of_off_id) (auto simp: slot_off_def SIMPAGESIZE_def)

lemma int_of_off_invalid: "int_of_off INVALID_SWAP = INVALID_SWAP"
  by (rule int_of_off_id) (auto simp: INVALID_SWAP_def)

text \<open>The page now in slot \<open>k\<close> of the swap file.\<close>

definition slot_page :: "sim \<Rightarrow> nat \<Rightarrow> u8 list" where
  "slot_page s k = file_read (SIMPAGESIZE * k) SIMPAGESIZE (swapfile s)"

definition frame_page :: "sim \<Rightarrow> nat \<Rightarrow> u8 list" where
  "frame_page s f = region (f * SIMPAGESIZE) SIMPAGESIZE (physmem s)"

lemma length_frame_page:
  "sizes_ok s \<Longrightarrow> f < memsize s \<Longrightarrow> length (frame_page s f) = SIMPAGESIZE"
  unfolding frame_page_def sizes_ok_def
  by (rule length_region) (metis Suc_leI add.commute mult_Suc mult_le_mono1)

lemma frame_in_physmem:
  "sizes_ok s \<Longrightarrow> f < memsize s \<Longrightarrow> f * SIMPAGESIZE + SIMPAGESIZE \<le> length (physmem s)"
  unfolding sizes_ok_def by (metis Suc_leI add.commute mult_Suc mult_le_mono1)

lemma SIMPAGESIZE_pos [simp]: "0 < SIMPAGESIZE"
  by (simp add: SIMPAGESIZE_def)

lemma swap_store_slot:
  assumes ok: "sizes_ok s" and f: "f < memsize s" and st: "swap_store E (of_nat f) (slot_off k) s = r"
  obtains (full) s' where "r = Inr (INVALID_SWAP, s')"
  | (stored) fl where "r = Inr (slot_off k, s\<lparr>swapfile := fl\<rparr>)"
      and "file_write (file_limit E) (SIMPAGESIZE * k) (frame_page s f) (swapfile s) = (int SIMPAGESIZE, fl)"
proof -
  have f19: "f < 2 ^ 19" using ok f by (simp add: sizes_ok_def)
  obtain n fl where w: "file_write (file_limit E) (SIMPAGESIZE * k) (frame_page s f) (swapfile s) = (n, fl)"
    by fastforce
  have "r = (if n \<noteq> int SIMPAGESIZE then Inr (INVALID_SWAP, s\<lparr>swapfile := fl\<rparr>)
      else Inr (slot_off k, s\<lparr>swapfile := fl\<rparr>))"
    using st w frame_in_physmem [OF ok f]
    by (simp add: swap_store_def lseek_set_def frame_byte_of_nat [OF f19] frame_page_def Let_def)
  then show thesis using w full stored by (cases "n = int SIMPAGESIZE") auto
qed

lemma swap_pageout_contract:
  assumes ok: "sizes_ok s" and f: "f < memsize s" and wf: "bm_wf (swapmap s)"
    and cap: "unat (nbits (swapmap s)) \<le> 2 ^ 27"
    and off: "off = INVALID_SWAP \<or> (\<exists>k \<in> used (swapmap s). off = slot_off k)"
  obtains (full) s' where "swap_pageout E (of_nat f) off s = Inr (INVALID_SWAP, s')"
  | (stored) k b fl where
      "swap_pageout E (of_nat f) off s = Inr (slot_off k, s\<lparr>swapmap := b, swapfile := fl\<rparr>)"
      and "bm_wf b" and "nbits b = nbits (swapmap s)" and "k \<in> used b"
      and "off = INVALID_SWAP \<longrightarrow> k \<notin> used (swapmap s) \<and> used b = insert k (used (swapmap s))"
      and "off \<noteq> INVALID_SWAP \<longrightarrow> off = slot_off k \<and> b = swapmap s"
      and "file_write (file_limit E) (SIMPAGESIZE * k) (frame_page s f) (swapfile s) = (int SIMPAGESIZE, fl)"
proof (cases "off = INVALID_SWAP")
  case True
  show thesis
  proof (cases "bitmap_alloc (swapmap s) = Inr None")
    case None: True
    then show thesis using True by (intro full) (simp add: swap_pageout_def swap_slot_def)
  next
    case False
    then obtain b x where alloc: "bitmap_alloc (swapmap s) = Inr (Some (b, x))"
      using bm.alloc_no_fault [OF wf] by (metis not_None_eq surj_pair)
    note b = bm.alloc_SomeD [OF wf alloc]
    have x: "unat x < 2 ^ 27" using b cap by simp
    let ?s = "s\<lparr>swapmap := b\<rparr>"
    have eq: "swap_pageout E (of_nat f) off s = swap_store E (of_nat f) (slot_off (unat x)) ?s"
      using True alloc by (simp add: swap_pageout_def swap_slot_def sint_slot [OF x])
    have "sizes_ok ?s" "f < memsize ?s" using ok f by (simp_all add: sizes_ok_def memsize_def)
    then consider (none) s' where "swap_store E (of_nat f) (slot_off (unat x)) ?s = Inr (INVALID_SWAP, s')"
      | (stored) fl where "swap_store E (of_nat f) (slot_off (unat x)) ?s =
            Inr (slot_off (unat x), ?s\<lparr>swapfile := fl\<rparr>)"
          and "file_write (file_limit E) (SIMPAGESIZE * unat x) (frame_page ?s f) (swapfile ?s) =
            (int SIMPAGESIZE, fl)"
      by (rule swap_store_slot [OF _ _ refl])
    then show thesis
    proof cases
      case (none s')
      then show thesis using eq that(1) by simp
    next
      case (stored fl)
      have "frame_page ?s f = frame_page s f" by (simp add: frame_page_def)
      then show thesis
        using stored eq b True by (intro that(2) [of "unat x" fl b]) (auto simp: word_unat_eq_iff)
    qed
  qed
next
  case False
  then obtain k where k: "k \<in> used (swapmap s)" "off = slot_off k" using off by blast
  have eq: "swap_pageout E (of_nat f) off s = swap_store E (of_nat f) (slot_off k) s"
    using False k by (simp add: swap_pageout_def swap_slot_def)
  consider (none) s' where "swap_store E (of_nat f) (slot_off k) s = Inr (INVALID_SWAP, s')"
    | (stored) fl where "swap_store E (of_nat f) (slot_off k) s = Inr (slot_off k, s\<lparr>swapfile := fl\<rparr>)"
        and "file_write (file_limit E) (SIMPAGESIZE * k) (frame_page s f) (swapfile s) = (int SIMPAGESIZE, fl)"
    by (rule swap_store_slot [OF ok f refl])
  then show thesis
  proof cases
    case (none s')
    then show thesis using eq that(1) by simp
  next
    case (stored fl)
    then show thesis using eq k False wf by (intro that(2) [of k fl "swapmap s"]) auto
  qed
qed

end
