(* ===== verification/Mem_Replace.thy ===== *)
theory Mem_Replace
  imports Mem_Evict
begin

text \<open>
  The interface between pagetable.c and a replacement algorithm, as a locale:
  \<open>tracks s F\<close> says that the algorithm's own data is consistent and stands for
  the set \<open>F\<close> of frames.  With every frame tracked, \<open>evict\<close> returns one and
  stops tracking it; \<open>ref\<close> on the entry of a frame tracks that frame; neither
  changes what the page table code owns (\<open>core\<close>), and the page table code does
  not touch what the algorithm owns (\<open>pol_view\<close>).  The lemmas of the locale are
  the correctness of the fault path for every such algorithm.
\<close>

text \<open>One frame allocation: \<open>f\<close> was free, or its page went to the swap file.\<close>

definition took_free :: "sim \<Rightarrow> nat \<Rightarrow> sim \<Rightarrow> bool" where
  "took_free s f s' \<longleftrightarrow> f \<notin> used_frames s \<and> used_frames s' = insert f (used_frames s) \<and>
     evict_dirty_count s' = evict_dirty_count s \<and> pgtbls s' = pgtbls s \<and>
     swapfile s' = swapfile s \<and> swapmap s' = swapmap s"

text \<open>The page \<open>vic\<close> of frame \<open>f\<close> has been written to its slot of the swap file.\<close>

definition saved_to_swap :: "os_env \<Rightarrow> sim \<Rightarrow> nat \<Rightarrow> pteptr \<Rightarrow> sim \<Rightarrow> bool" where
  "saved_to_swap E s f vic s' \<longleftrightarrow>
     (\<exists>k. slot_of s' vic = Some (slot_off k) \<and> k \<in> used (swapmap s') \<and>
        slot_page s' k = frame_page s f \<and>
        file_write (file_limit E) (SIMPAGESIZE * k) (frame_page s f) (swapfile s) =
          (int SIMPAGESIZE, swapfile s'))"

definition took_victim :: "os_env \<Rightarrow> sim \<Rightarrow> nat \<Rightarrow> pteptr \<Rightarrow> sim \<Rightarrow> bool" where
  "took_victim E s f vic s' \<longleftrightarrow> used_frames s = {..< memsize s} \<and> used_frames s' = used_frames s \<and>
     maps s vic f \<and> evict_dirty_count s' = Suc (evict_dirty_count s) \<and>
     saved_to_swap E s f vic s' \<and> (\<forall>q g. maps s' q g \<longleftrightarrow> q \<noteq> vic \<and> maps s q g) \<and>
     (\<forall>q. q \<noteq> vic \<longrightarrow> map_option pview (pgtbls s' q) = map_option pview (pgtbls s q))"

text \<open>The state between taking the frame away and giving it to the new page.\<close>

definition evicted :: "os_env \<Rightarrow> sim \<Rightarrow> nat \<Rightarrow> pteptr \<Rightarrow> sim \<Rightarrow> bool" where
  "evicted E s f vic s' \<longleftrightarrow> f < memsize s \<and> maps s vic f \<and> saved_to_swap E s f vic s' \<and>
     (\<forall>g q. holds s' g q \<longleftrightarrow> holds s g q) \<and> used_frames s' = used_frames s \<and>
     memsize s' = memsize s \<and> physmem s' = physmem s \<and> pgdir s' = pgdir s \<and>
     entries_ok s' \<and> swap_inv s' \<and>
     (\<forall>q g. maps s' q g \<longleftrightarrow> q \<noteq> vic \<and> maps s q g) \<and> pgtbls s' vic \<noteq> None \<and>
     (\<forall>q. q \<noteq> vic \<longrightarrow> map_option pview (pgtbls s' q) = map_option pview (pgtbls s q)) \<and>
     evict_dirty_count s' = Suc (evict_dirty_count s) \<and>
     hit_count s' = hit_count s \<and> miss_count s' = miss_count s \<and> ref_count s' = ref_count s \<and>
     evict_clean_count s' = evict_clean_count s \<and> check_errors s' = check_errors s"

definition alloc_frame_ok :: "sim \<Rightarrow> nat \<Rightarrow> pteptr \<Rightarrow> sim \<Rightarrow> bool" where
  "alloc_frame_ok s f p s' \<longleftrightarrow> vm_pending f p s' \<and> swap_inv s' \<and> physmem s' = physmem s \<and>
     pgdir s' = pgdir s \<and> memsize s' = memsize s \<and>
     (\<forall>q. pgtbls s' q = None \<longleftrightarrow> pgtbls s q = None) \<and>
     map_option pview (pgtbls s' p) = map_option pview (pgtbls s p) \<and>
     hit_count s' = hit_count s \<and> miss_count s' = miss_count s \<and> ref_count s' = ref_count s \<and>
     evict_clean_count s' = evict_clean_count s \<and> check_errors s' = check_errors s"

lemma find_free_frame_Some:
  "find_free_frame s = Some f \<Longrightarrow> f < memsize s \<and> f \<notin> used_frames s"
  by (auto simp: find_free_frame_def find_Some_iff used_frames_def)

lemma find_free_frame_None: "find_free_frame s = None \<Longrightarrow> used_frames s = {..< memsize s}"
  by (auto simp: find_free_frame_def find_None_iff used_frames_def)

lemma claim_frame_obs:
  assumes "f < memsize s"
  obtains s' c where "claim_frame f p s = Inr s'" and "pol_view s' = pol_view s"
    and "memsize s' = memsize s"
    and "\<forall>g q. holds s' g q \<longleftrightarrow> (if g = f then q = p else holds s g q)"
    and "used_frames s' = insert f (used_frames s)"
    and "s' = s\<lparr>coremap := c\<rparr>"
proof -
  have f: "f < length (coremap s)" using assms by (simp add: memsize_def)
  let ?s' = "s\<lparr>coremap := (coremap s)[f := (coremap s ! f)\<lparr>in_use := True, fpte := Some p\<rparr>]\<rparr>"
  have "map (\<lambda>c. (fnext c, fprev c)) (coremap ?s') = map (\<lambda>c. (fnext c, fprev c)) (coremap s)"
    using f by (simp add: map_update list_update_same_conv)
  then have "pol_view ?s' = pol_view s" by (simp add: pol_view_def)
  moreover have "holds ?s' g q \<longleftrightarrow> (if g = f then q = p else holds s g q)" for g q
    using f by (auto simp: holds_def memsize_def)
  moreover have "used_frames ?s' = insert f (used_frames s)"
    using f by (auto simp: used_frames_def memsize_def nth_list_update)
  ultimately show thesis using f
    by (intro that [of ?s' "coremap ?s'"]) (simp_all add: claim_frame_def memsize_def)
qed

lemma claim_pending:
  assumes "claim_frame f p s = Inr s'" and f: "f < memsize s" and sz: "sizes_ok s" and fr: "frames_ok s"
    and en: "entries_ok s" and inv: "\<And>f. \<not> maps s p f" "\<And>q. \<not> maps s q f"
    and bij: "\<And>q g. g \<noteq> f \<Longrightarrow> maps s q g \<longleftrightarrow> holds s g q"
  shows "vm_pending f p s'"
proof -
  obtain s'' c where s'': "claim_frame f p s = Inr s''" "pol_view s'' = pol_view s" "memsize s'' = memsize s"
    and h: "\<forall>g q. holds s'' g q \<longleftrightarrow> (if g = f then q = p else holds s g q)"
    and u: "used_frames s'' = insert f (used_frames s)" and same: "s'' = s\<lparr>coremap := c\<rparr>"
    by (rule claim_frame_obs [OF f, of p])
  have eq: "s'' = s'" using s'' assms(1) by simp
  have m: "pgtbls s'' = pgtbls s" "physmem s'' = physmem s" "pgdir s'' = pgdir s"
    by (simp_all add: same)
  have "maps s'' q g \<longleftrightarrow> maps s q g" for q g by (simp add: maps_def m)
  moreover have "sizes_ok s''" using sz by (simp add: sizes_ok_def s'' m)
  moreover have "entries_ok s''" using en by (simp add: entries_ok_def m)
  moreover have "frames_ok s''" using fr by (auto simp: frames_ok_def u h)
  ultimately show ?thesis using inv bij by (auto simp: vm_pending_def h eq [symmetric])
qed

lemma frame_page_core: "core s' = core s \<Longrightarrow> frame_page s' f = frame_page s f"
  unfolding frame_page_def by (drule core_fields(1)) simp

text \<open>
  Writing the victim of an inner state \<open>s1\<close> that has the same core as \<open>s\<close>: the
  swap slot invariant and the saved page.
\<close>

lemma saved_swap_inv:
  assumes inv: "swap_inv s" and b: "bm_wf b" "nbits b = nbits (swapmap s)" "k \<in> used b"
    and new: "swap_off e = INVALID_SWAP \<longrightarrow> k \<notin> used (swapmap s) \<and> used b = insert k (used (swapmap s))"
    and old: "swap_off e \<noteq> INVALID_SWAP \<longrightarrow> swap_off e = slot_off k \<and> b = swapmap s"
    and e: "pgtbls s vic = Some e" and t: "swapmap t = b"
    and sl: "\<And>q. slot_of t q = (if q = vic then Some (slot_off k) else slot_of s q)"
  shows "swap_inv t"
proof -
  have se: "slot_of s vic = (if swap_off e = INVALID_SWAP then None else Some (swap_off e))"
    using e by (simp add: slot_of_def)
  have known: "\<exists>j \<in> used (swapmap s). x = slot_off j" if "slot_of s q = Some x" for q x
    using inv that by (simp add: swap_inv_def)
  have uniq: "p = q" if "slot_of s p = Some x" "slot_of s q = Some x" for p q x
    using inv that by (auto simp: swap_inv_def)
  have sub: "used (swapmap s) \<subseteq> used b"
    using new old by (cases "swap_off e = INVALID_SWAP") auto
  have other: "slot_of s q \<noteq> Some (slot_off k)" if "q \<noteq> vic" for q
  proof
    assume q: "slot_of s q = Some (slot_off k)"
    then have "k \<in> used (swapmap s)" using known [OF q] by auto
    then have "slot_of s vic = Some (slot_off k)" using new old se by auto
    then show False using uniq [OF q] that by simp
  qed
  show ?thesis unfolding swap_inv_def
  proof (intro conjI allI impI)
    show "bm_wf (swapmap t)" using b t by simp
    show "unat (nbits (swapmap t)) \<le> 2 ^ 27" using inv b t by (simp add: swap_inv_def)
    show "\<exists>k\<in>used (swapmap t). x = slot_off k" if "slot_of t p = Some x" for p x
      using that known [of p x] sub b t by (cases "p = vic") (auto simp: sl)
    show "p = q" if "slot_of t p = Some x" "slot_of t q = Some x" for p q x
      using that other uniq by (auto simp: sl split: if_splits)
  qed
qed

lemma write_victim_ok:
  assumes inv: "vm_inv s" and swap: "swap_inv s" and m: "maps s vic f"
  obtains (exit) "write_victim E (of_nat f) vic s = Inl Exit_Failure"
  | (ok) e k b fl s' where "pgtbls s vic = Some e"
      and "write_victim E (of_nat f) vic s = Inr s'"
      and "s' = pte_write (s\<lparr>swapmap := b, swapfile := fl, evict_dirty_count := Suc (evict_dirty_count s)\<rparr>)
        vic (e\<lparr>pt_frame := pt_frame e AND NOT PG_DIRTY, swap_off := slot_off k\<rparr>)"
      and "bm_wf b" and "nbits b = nbits (swapmap s)" and "k \<in> used b"
      and "swap_off e = INVALID_SWAP \<longrightarrow> k \<notin> used (swapmap s) \<and> used b = insert k (used (swapmap s))"
      and "swap_off e \<noteq> INVALID_SWAP \<longrightarrow> swap_off e = slot_off k \<and> b = swapmap s"
      and "file_write (file_limit E) (SIMPAGESIZE * k) (frame_page s f) (swapfile s) = (int SIMPAGESIZE, fl)"
proof -
  have sz: "sizes_ok s" and en: "entries_ok s" and fm: "f < memsize s"
    using inv m by (auto simp: vm_inv_def holds_def)
  obtain e where e: "pgtbls s vic = Some e" "pte_valid e" using m by (auto simp: maps_def)
  have fl: "pte_dirty e" "\<not> pte_onswap e" using en e by (auto simp: entries_ok_def entry_ok_def)
  let ?e1 = "e\<lparr>pt_frame := pt_frame e AND NOT PG_DIRTY\<rparr>"
  let ?s1 = "pte_write s vic ?e1"
  have so: "swap_off e = INVALID_SWAP \<or> (\<exists>k \<in> used (swapmap s). swap_off e = slot_off k)"
  proof (cases "swap_off e = INVALID_SWAP")
    case False
    then have "slot_of s vic = Some (swap_off e)" using e by (simp add: slot_of_def)
    then show ?thesis using swap by (auto simp: swap_inv_def)
  qed simp
  have cap: "unat (nbits (swapmap s)) \<le> 2 ^ 27" and wf: "bm_wf (swapmap s)"
    using swap by (auto simp: swap_inv_def)
  have off: "int_of_off (swap_off e) = swap_off e"
    using so cap by (auto simp: int_of_off_invalid used_def intro!: int_of_off_slot)
  have run: "write_victim E (of_nat f) vic s =
      bindE (swap_pageout E (of_nat f) (swap_off e) ?s1) (\<lambda>(success, s2).
      let s3 = s2\<lparr>evict_dirty_count := Suc (evict_dirty_count s2)\<rparr> in
      if success = INVALID_SWAP then Inl Exit_Failure
      else bindE (pte_read s3 vic) (\<lambda>e3. Inr (pte_write s3 vic (e3\<lparr>swap_off := success\<rparr>))))"
    using e fl off by (simp add: write_victim_def pte_read_def pte_frame_upd_Some)
  have pg: "frame_page ?s1 f = frame_page s f" by (simp add: frame_page_def)
  have c1: "sizes_ok ?s1" "f < memsize ?s1" "bm_wf (swapmap ?s1)" "unat (nbits (swapmap ?s1)) \<le> 2 ^ 27"
      "swap_off e = INVALID_SWAP \<or> (\<exists>k \<in> used (swapmap ?s1). swap_off e = slot_off k)"
    using sz fm so cap wf by simp_all
  consider (full) s' where "swap_pageout E (of_nat f) (swap_off e) ?s1 = Inr (INVALID_SWAP, s')"
    | (stored) k b fl where
      "swap_pageout E (of_nat f) (swap_off e) ?s1 = Inr (slot_off k, ?s1\<lparr>swapmap := b, swapfile := fl\<rparr>)"
      "bm_wf b" "nbits b = nbits (swapmap s)" "k \<in> used b"
      "swap_off e = INVALID_SWAP \<longrightarrow> k \<notin> used (swapmap s) \<and> used b = insert k (used (swapmap s))"
      "swap_off e \<noteq> INVALID_SWAP \<longrightarrow> swap_off e = slot_off k \<and> b = swapmap s"
      "file_write (file_limit E) (SIMPAGESIZE * k) (frame_page s f) (swapfile s) = (int SIMPAGESIZE, fl)"
    by (rule swap_pageout_contract [OF c1, unfolded pg pte_write_fields])
  then show thesis
  proof cases
    case full
    then show thesis by (intro exit) (simp add: run)
  next
    case (stored k b fl)
    then show thesis
      by (intro ok [OF e(1) _ refl])
        (auto simp: run pte_read_def pte_write_def Let_def)
  qed
qed

locale replacement =
  fixes ref_fcn :: ref_fun and evict_fcn :: evict_fun and tracks :: "sim \<Rightarrow> nat set \<Rightarrow> bool"
  assumes evict_law: "vm_inv s \<Longrightarrow> used_frames s = {..< memsize s} \<Longrightarrow> tracks s {..< memsize s} \<Longrightarrow>
      \<exists>f s'. evict_fcn s = Inr (int f, s') \<and> f < memsize s \<and> core s' = core s \<and>
        tracks s' ({..< memsize s} - {f})"
    and ref_law: "vm_inv s \<Longrightarrow> maps s p f \<Longrightarrow> tracks s F \<Longrightarrow>
      F = used_frames s \<or> F = used_frames s - {f} \<Longrightarrow>
      \<exists>s'. ref_fcn p s = Inr s' \<and> core s' = core s \<and> tracks s' (insert f F)"
    and tracks_view: "pol_view s = pol_view t \<Longrightarrow> tracks s F \<Longrightarrow> tracks t F"
begin


text \<open>Evicting a page: it ends in the swap file, or the run ends for want of swap space.\<close>

lemma evict_frame_ok:
  assumes inv: "vm_inv s" and swap: "swap_inv s" and full: "used_frames s = {..< memsize s}"
    and tr: "tracks s (used_frames s)"
  shows "evict_frame E evict_fcn s = Inl Exit_Failure \<or>
    (\<exists>f vic s'. evict_frame E evict_fcn s = Inr (f, s') \<and> evicted E s f vic s' \<and>
       tracks s' (used_frames s - {f}))"
proof -
  obtain f s1 where ev: "evict_fcn s = Inr (int f, s1)" and f: "f < memsize s"
    and c: "core s1 = core s" and tr1: "tracks s1 (used_frames s - {f})"
    using evict_law [OF inv full] tr full by auto
  note c' = c [symmetric]
  have inv1: "vm_inv s1" and swap1: "swap_inv s1"
    using inv swap vm_inv_core [OF c'] swap_inv_core [OF c'] by auto
  have m1: "memsize s1 = memsize s" and u1: "used_frames s1 = used_frames s"
    using core_memsize [OF c] used_frames_core [OF c] by auto
  have "f \<in> used_frames s1" using f full u1 by auto
  then obtain vic where vic: "holds s1 f vic" using inv1 by (auto simp: vm_inv_def frames_ok_def)
  then have mv: "maps s1 vic f" using inv1 by (simp add: vm_inv_def)
  have run: "evict_frame E evict_fcn s =
      bindE (write_victim E (of_nat f) vic s1) (\<lambda>s2.
      bindE (pte_frame_upd (\<lambda>w. w AND NOT PG_VALID) vic s2) (\<lambda>s3. Inr (f, s3)))"
    using ev vic f by (simp add: evict_frame_def holds_def memsize_def)
  show ?thesis
  proof (rule write_victim_ok [OF inv1 swap1 mv, of E])
    assume "write_victim E (of_nat f) vic s1 = Inl Exit_Failure"
    then show ?thesis by (simp add: run)
  next
    fix e k b fl s2
    assume ok: "pgtbls s1 vic = Some e" "write_victim E (of_nat f) vic s1 = Inr s2"
      "s2 = pte_write (s1\<lparr>swapmap := b, swapfile := fl, evict_dirty_count := Suc (evict_dirty_count s1)\<rparr>)
        vic (e\<lparr>pt_frame := pt_frame e AND NOT PG_DIRTY, swap_off := slot_off k\<rparr>)"
      "bm_wf b" "nbits b = nbits (swapmap s1)" "k \<in> used b"
      "swap_off e = INVALID_SWAP \<longrightarrow> k \<notin> used (swapmap s1) \<and> used b = insert k (used (swapmap s1))"
      "swap_off e \<noteq> INVALID_SWAP \<longrightarrow> swap_off e = slot_off k \<and> b = swapmap s1"
      "file_write (file_limit E) (SIMPAGESIZE * k) (frame_page s1 f) (swapfile s1) = (int SIMPAGESIZE, fl)"
    let ?e2 = "e\<lparr>swap_off := slot_off k, pt_frame := (pt_frame e AND NOT PG_DIRTY) AND NOT PG_VALID\<rparr>"
    let ?t = "s1\<lparr>swapmap := b, swapfile := fl, evict_dirty_count := Suc (evict_dirty_count s1)\<rparr>"
    let ?s' = "pte_write ?t vic ?e2"
    have run': "evict_frame E evict_fcn s = Inr (f, ?s')"
      using ok(2) by (simp add: run ok(3) pte_frame_upd_Some)
    have same: "same_vm s1 ?t" by (simp add: same_vm_def)
    note obs = same_vm_obs [OF same]
    have vfalse: "\<not> pte_valid ?e2" by (simp add: pte_bits flag_simps)
    have eok: "entry_ok ?e2" using inv1 ok(1)
      by (simp add: entry_ok_def pte_bits flag_simps vm_inv_def entries_ok_def)
    have sl: "slot_of ?s' q = (if q = vic then Some (slot_off k) else slot_of s1 q)" for q
      by (simp add: obs)
    have swap': "swap_inv ?s'"
      by (rule saved_swap_inv [OF swap1 ok(4,5,6) _ _ ok(1)]) (use ok(7,8) sl in auto)
    have pol: "tracks ?s' (used_frames s - {f})"
      by (rule tracks_view [OF _ tr1]) (simp add: pol_view_def pte_write_def)
    have pgf: "frame_page s1 f = frame_page s f" by (rule frame_page_core [OF c])
    have "saved_to_swap E s f vic ?s'" unfolding saved_to_swap_def
    proof (intro exI conjI)
      show "slot_of ?s' vic = Some (slot_off k)" by (simp add: sl)
      show "k \<in> used (swapmap ?s')" using ok(6) by simp
      have len: "length (frame_page s f) = SIMPAGESIZE"
        using inv f by (intro length_frame_page) (auto simp: vm_inv_def)
      show fw: "file_write (file_limit E) (SIMPAGESIZE * k) (frame_page s f) (swapfile s) =
          (int SIMPAGESIZE, swapfile ?s')"
        using ok(9) pgf core_fields(8) [OF c] by simp
      show "slot_page ?s' k = frame_page s f"
        using file_read_after_write [of "file_limit E" "SIMPAGESIZE * k" "frame_page s f"] fw len
        by (simp add: slot_page_def) (metis SIMPAGESIZE_pos list.size(3) less_irrefl)
    qed
    moreover have "maps ?s' q g \<longleftrightarrow> q \<noteq> vic \<and> maps s q g" for q g
      using vfalse by (simp add: obs maps_core [OF c])
    moreover have "entries_ok ?s'"
      using inv1 eok by (intro entries_ok_pte_write) (simp_all add: obs vm_inv_def)
    moreover have "map_option pview (pgtbls ?s' q) = map_option pview (pgtbls s q)" if "q \<noteq> vic" for q
      using that core_pgtbls [OF c] by simp
    moreover have "maps s vic f" using mv maps_core [OF c] by simp
    moreover have "holds ?s' g q \<longleftrightarrow> holds s g q" for g q
      by (simp add: obs holds_core [OF c])
    moreover have "used_frames ?s' = used_frames s" "memsize ?s' = memsize s"
      using u1 m1 by (simp_all add: obs)
    ultimately have "evicted E s f vic ?s'"
      unfolding evicted_def using f swap' core_fields [OF c]
      by (intro conjI allI impI) simp_all
    then show ?thesis using run' pol by blast
  qed
qed

text \<open>
  \<open>allocate_frame\<close>: the frame is a free one, or the victim's; the entry of the
  new page is untouched.
\<close>

lemma allocate_frame_ok:
  assumes inv: "vm_inv s" and swap: "swap_inv s" and tr: "tracks s (used_frames s)"
    and p: "pgtbls s p = Some e" "\<not> pte_valid e"
  shows "allocate_frame E evict_fcn p s = Inl Exit_Failure \<or>
    (\<exists>f s'. allocate_frame E evict_fcn p s = Inr (f, s') \<and> f < memsize s \<and>
       alloc_frame_ok s f p s' \<and> tracks s' (used_frames s' - {f}) \<and>
       (took_free s f s' \<or> (\<exists>vic. took_victim E s f vic s')))"
proof (cases "find_free_frame s")
  case (Some f)
  note f = find_free_frame_Some [OF Some]
  obtain s' c where cl: "claim_frame f p s = Inr s'" "pol_view s' = pol_view s" "memsize s' = memsize s"
    and h: "\<forall>g q. holds s' g q \<longleftrightarrow> (if g = f then q = p else holds s g q)"
    and u: "used_frames s' = insert f (used_frames s)" and same: "s' = s\<lparr>coremap := c\<rparr>"
    by (rule claim_frame_obs [of f s p]) (use f in auto)
  have np: "\<not> maps s p g" for g using p by (auto simp: maps_def)
  have nf: "\<not> maps s q f" for q using f inv holds_used [of s f q] by (auto simp: vm_inv_def)
  have pend: "vm_pending f p s'"
    by (rule claim_pending [OF cl(1)]) (use f inv np nf in \<open>auto simp: vm_inv_def\<close>)
  have "swap_inv s'" using swap by (simp add: same swap_inv_def slot_of_def)
  then have "alloc_frame_ok s f p s'" using pend cl(3) by (simp add: alloc_frame_ok_def same)
  moreover have "took_free s f s'" using f u by (simp add: took_free_def) (simp add: same)
  moreover have "used_frames s' - {f} = used_frames s" using f u by auto
  moreover have "tracks s' (used_frames s)" using tracks_view [OF cl(2) [symmetric] tr] .
  moreover have "allocate_frame E evict_fcn p s = Inr (f, s')" using Some cl(1)
    by (simp add: allocate_frame_def)
  ultimately show ?thesis using f by metis
next
  case None
  note full = find_free_frame_None [OF None]
  consider (exit) "evict_frame E evict_fcn s = Inl Exit_Failure"
    | (ok) f vic s1 where "evict_frame E evict_fcn s = Inr (f, s1)" "evicted E s f vic s1"
        "tracks s1 (used_frames s - {f})"
    using evict_frame_ok [OF inv swap full tr] by metis
  then show ?thesis
  proof cases
    case exit
    then show ?thesis using None by (simp add: allocate_frame_def)
  next
    case (ok f vic s1)
    note ev = ok(2) [unfolded evicted_def]
    have evm: "maps s1 q g \<longleftrightarrow> q \<noteq> vic \<and> maps s q g" for q g using ev by blast
    have evh: "holds s1 g q \<longleftrightarrow> holds s g q" for q g using ev by blast
    have evv: "maps s vic f" using ev by blast
    have ef: "used_frames s1 = used_frames s" "memsize s1 = memsize s" "physmem s1 = physmem s"
      "pgdir s1 = pgdir s" "entries_ok s1" "swap_inv s1" "pgtbls s1 vic \<noteq> None"
      "evict_dirty_count s1 = Suc (evict_dirty_count s)" "hit_count s1 = hit_count s"
      "miss_count s1 = miss_count s" "ref_count s1 = ref_count s"
      "evict_clean_count s1 = evict_clean_count s" "check_errors s1 = check_errors s"
      "saved_to_swap E s f vic s1" "f < memsize s"
      using ev by blast+
    have evo: "map_option pview (pgtbls s1 q) = map_option pview (pgtbls s q)" if "q \<noteq> vic" for q
      using ev that by blast
    have f: "f < memsize s1" using ef by simp
    have np: "p \<noteq> vic" using p evv by (auto simp: maps_def)
    obtain s' c where cl: "claim_frame f p s1 = Inr s'" "pol_view s' = pol_view s1" "memsize s' = memsize s1"
      and h: "\<forall>g q. holds s' g q \<longleftrightarrow> (if g = f then q = p else holds s1 g q)"
      and u: "used_frames s' = insert f (used_frames s1)" and same: "s' = s1\<lparr>coremap := c\<rparr>"
      by (rule claim_frame_obs [OF f, of p])
    have nmp: "\<not> maps s1 p g" for g using p evm by (auto simp: maps_def)
    have nmf: "\<not> maps s1 q f" for q using evm evv vm_inv_maps_inj [OF inv] by blast
    have bij: "maps s1 q g \<longleftrightarrow> holds s1 g q" if "g \<noteq> f" for q g
      using evm evh evv inv that maps_fun [of s vic f g] by (auto simp: vm_inv_def)
    have sz: "sizes_ok s1" using inv ef by (simp add: vm_inv_def sizes_ok_def)
    have fr: "frames_ok s1" using inv ef evh by (simp add: vm_inv_def frames_ok_def)
    have pend: "vm_pending f p s'"
      by (rule claim_pending [OF cl(1) f sz fr]) (use ef(5) nmp nmf bij in blast)+
    have u': "used_frames s' = used_frames s" using u ef full f by auto
    have sl: "slot_of s' q = slot_of s1 q" for q by (simp add: same slot_of_def)
    have pt: "pgtbls s' = pgtbls s1" by (simp add: same)
    have "swap_inv s'" using ef(6) by (simp add: swap_inv_def sl) (simp add: same)
    moreover have "pgtbls s' q = None \<longleftrightarrow> pgtbls s q = None" for q
    proof (cases "q = vic")
      case True
      then show ?thesis using ef evv by (auto simp: pt maps_def)
    next
      case False
      then show ?thesis unfolding pt by (metis evo option.map_disc_iff)
    qed
    ultimately have al: "alloc_frame_ok s f p s'"
      using pend cl(3) ef evo [OF np] by (simp add: alloc_frame_ok_def) (simp add: same)
    have "saved_to_swap E s f vic s'" using ef(14)
      by (simp add: saved_to_swap_def sl) (simp add: same slot_page_def)
    moreover have "maps s' q g \<longleftrightarrow> q \<noteq> vic \<and> maps s q g" for q g
      using evm by (simp add: maps_def pt)
    ultimately have "took_victim E s f vic s'" using full u' ef evv evo
      by (simp add: took_victim_def) (simp add: same)
    note al this
    moreover have "tracks s' (used_frames s' - {f})"
      using tracks_view [OF cl(2) [symmetric] ok(3)] u' by simp
    moreover have "allocate_frame E evict_fcn p s = Inr (f, s')" using None cl(1) ok(1)
      by (simp add: allocate_frame_def)
    ultimately show ?thesis using ef(15) al by metis
  qed
qed

end

end
