(* ===== verification/Mem_Access.thy ===== *)
theory Mem_Access
  imports Mem_Replace
begin

text \<open>
  One memory reference: the table walk, the fault path and the marking of the
  entry, for every replacement algorithm that meets the contract.  \<open>walk\<close> is the
  page directory lookup as a specification, \<open>translate\<close> the address translation
  the tables stand for.
\<close>

section \<open>Specification\<close>

definition walk :: "sim \<Rightarrow> u64 \<Rightarrow> pteptr option" where
  "walk s vaddr =
    (let pde = pgdir s ! unat (PGDIR_INDEX vaddr) in
     if pde AND 1 = 0 then None else Some (pde AND PAGE_MASK, unat (PGTBL_INDEX vaddr)))"

definition translate :: "sim \<Rightarrow> u64 \<Rightarrow> nat option" where
  "translate s vaddr = (case walk s vaddr of None \<Rightarrow> None
     | Some p \<Rightarrow> (case pgtbls s p of None \<Rightarrow> None
         | Some e \<Rightarrow> if pte_valid e then Some (pte_frame_no e) else None))"

text \<open>The contents of a frame that \<open>init_frame\<close> has prepared.\<close>

definition fresh_page :: "u64 \<Rightarrow> u8 list" where
  "fresh_page vaddr = replicate 4 0 @ store_le 8 vaddr @ replicate 4 0"

text \<open>The counters agree: a miss fills a frame, and each fill beyond the first frees one.\<close>

definition stats_inv :: "sim \<Rightarrow> bool" where
  "stats_inv s \<longleftrightarrow> ref_count s = hit_count s + miss_count s \<and>
     miss_count s = card (used_frames s) + evict_dirty_count s \<and> evict_clean_count s = 0"

definition hit_result :: "sim \<Rightarrow> pteptr \<Rightarrow> nat \<Rightarrow> sim \<Rightarrow> bool" where
  "hit_result s p f s' \<longleftrightarrow> maps s p f \<and> (\<forall>q g. maps s' q g \<longleftrightarrow> maps s q g) \<and>
     physmem s' = physmem s \<and> hit_count s' = Suc (hit_count s) \<and> miss_count s' = miss_count s \<and>
     evict_dirty_count s' = evict_dirty_count s \<and> used_frames s' = used_frames s \<and>
     memsize s' = memsize s \<and> check_errors s' = check_errors s"

definition miss_result :: "os_env \<Rightarrow> sim \<Rightarrow> u64 \<Rightarrow> pteptr \<Rightarrow> nat \<Rightarrow> sim \<Rightarrow> bool" where
  "miss_result E s vaddr p f s' \<longleftrightarrow> (\<forall>g. \<not> maps s p g) \<and>
     hit_count s' = hit_count s \<and> miss_count s' = Suc (miss_count s) \<and>
     memsize s' = memsize s \<and> check_errors s' = check_errors s \<and>
     frame_page s' f = fresh_page vaddr \<and>
     (\<forall>g < memsize s. g \<noteq> f \<longrightarrow> frame_page s' g = frame_page s g) \<and>
     ((f \<notin> used_frames s \<and> used_frames s' = insert f (used_frames s) \<and>
       evict_dirty_count s' = evict_dirty_count s \<and>
       (\<forall>q g. maps s' q g \<longleftrightarrow> (q = p \<and> g = f) \<or> maps s q g)) \<or>
      (used_frames s = {..< memsize s} \<and> used_frames s' = used_frames s \<and>
       evict_dirty_count s' = Suc (evict_dirty_count s) \<and>
       (\<exists>vic. maps s vic f \<and> saved_to_swap E s f vic s' \<and>
         (\<forall>q g. maps s' q g \<longleftrightarrow> (q = p \<and> g = f) \<or> (q \<noteq> vic \<and> maps s q g)))))"

text \<open>The invariant of the simulator between two references.\<close>

definition sim_inv :: "(sim \<Rightarrow> nat set \<Rightarrow> bool) \<Rightarrow> sim \<Rightarrow> bool" where
  "sim_inv tracks s \<longleftrightarrow> vm_inv s \<and> dir_inv s \<and> swap_inv s \<and> stats_inv s \<and>
     tracks s (used_frames s)"

section \<open>Address arithmetic\<close>

lemma PGDIR_INDEX_bound: "unat vaddr < 2 ^ 36 \<Longrightarrow> unat (PGDIR_INDEX vaddr) < PTRS_PER_PGDIR"
proof -
  assume a: "unat vaddr < 2 ^ 36"
  have d: "unat (drop_bit 24 vaddr) = unat vaddr div 2 ^ 24"
    by (simp only: unat_drop_bit_eq) (simp add: drop_bit_eq_div)
  then have "unat (drop_bit 24 vaddr) < 2 ^ 12" using a by simp
  moreover have "unat (ucast (drop_bit 24 vaddr) :: u32) = unat (drop_bit 24 vaddr) mod 2 ^ 32"
    by (simp add: unsigned_ucast_eq take_bit_eq_mod)
  ultimately show ?thesis by (simp add: PGDIR_INDEX_def PGDIR_SHIFT_def PTRS_PER_PGDIR_def)
qed

lemma PGTBL_INDEX_bound: "unat (PGTBL_INDEX vaddr) < PTRS_PER_PGTBL"
proof -
  have "drop_bit 12 vaddr AND 0xFFF \<le> 0xFFF" by (rule word_and_le1)
  then have le: "unat (drop_bit 12 vaddr AND 0xFFF) \<le> 4095" by (simp add: word_le_nat_alt)
  have "unat (ucast (drop_bit 12 vaddr AND 0xFFF) :: u32) \<le> 4095"
    using le by (simp add: unsigned_ucast_eq) (metis le_trans take_bit_nat_less_eq_self)
  then show ?thesis by (simp add: PGTBL_INDEX_def PGTBL_MASK_def PAGE_SHIFT_def PTRS_PER_PGTBL_def)
qed

lemma fff_mask: "(0xFFF :: u64) = mask 12"
  by (simp add: mask_eq_exp_minus_1)

lemma bit_1_word: "bit (1 :: 'a::len word) n \<longleftrightarrow> n = 0"
  by (auto simp: bit_1_iff)

lemma tagged_pointer:
  assumes "base AND 0xFFF = 0"
  shows "(base OR 1) AND PAGE_MASK = base" and "(base OR 1) AND 1 \<noteq> 0"
proof -
  have low: "\<not> bit base n" if "n < 12" for n
    using arg_cong [OF assms, of "\<lambda>w. bit w n"] that
    by (simp add: fff_mask bit_simps)
  show "(base OR 1) AND PAGE_MASK = base"
    by (rule bit_word_eqI)
      (auto simp: PAGE_MASK_def fff_mask bit_simps bit_1_word dest: low)
  have "bit ((base OR 1) AND 1) 0" by (simp add: bit_simps bit_1_word)
  then show "(base OR 1) AND 1 \<noteq> 0" by auto
qed

section \<open>The steps\<close>

text \<open>The table of a directory entry is created on first use; nothing else changes.\<close>

definition grown :: "sim \<Rightarrow> sim \<Rightarrow> bool" where
  "grown s s' \<longleftrightarrow> s' = s\<lparr>pgdir := pgdir s', pgtbls := pgtbls s'\<rparr> \<and>
     length (pgdir s') = length (pgdir s) \<and>
     (\<forall>q e. pgtbls s q = Some e \<longrightarrow> pgtbls s' q = Some e) \<and>
     (\<forall>q e. pgtbls s q = None \<longrightarrow> pgtbls s' q = Some e \<longrightarrow> e = fresh_pte)"

text \<open>The walks that succeeded still do; a page that was mapped is found by no new walk.\<close>

definition walk_grows :: "sim \<Rightarrow> sim \<Rightarrow> bool" where
  "walk_grows s s' \<longleftrightarrow>
     (\<forall>x q. unat x < 2 ^ 36 \<longrightarrow> walk s x = Some q \<longrightarrow> walk s' x = Some q) \<and>
     (\<forall>x q g. unat x < 2 ^ 36 \<longrightarrow> walk s' x = Some q \<longrightarrow> maps s q g \<longrightarrow> walk s x = Some q)"

lemma walk_grows_refl [simp]: "walk_grows s s"
  by (simp add: walk_grows_def)

lemma fresh_pte_flags: "\<not> pte_valid fresh_pte" "\<not> pte_onswap fresh_pte" "swap_off fresh_pte = INVALID_SWAP"
  by (simp_all add: fresh_pte_def pte_bits)

lemma grown_maps: "grown s s' \<Longrightarrow> maps s' p f \<longleftrightarrow> maps s p f"
  unfolding grown_def maps_def using fresh_pte_flags(1)
  by (cases "pgtbls s p") fastforce+

lemma grown_slot_of: "grown s s' \<Longrightarrow> slot_of s' p = slot_of s p"
  unfolding grown_def slot_of_def using fresh_pte_flags(3)
  by (cases "pgtbls s p"; cases "pgtbls s' p") auto

lemma pgdir_bit0: "(pde :: u64) AND 1 = 0 \<longleftrightarrow> \<not> bit pde 0"
  by (metis and_exp_eq_0_iff_not_bit power_0)

lemma init_second_level_ok:
  assumes "memalign_ok E"
  shows "init_second_level E s = Inl Exit_Failure \<or>
    (\<exists>base s'. init_second_level E s = Inr (base OR 1, s') \<and> base AND 0xFFF = 0 \<and>
       (\<forall>i < PTRS_PER_PGTBL. pgtbls s (base, i) = None) \<and>
       s' = s\<lparr>pgtbls := (\<lambda>(b, i). if b = base \<and> i < PTRS_PER_PGTBL then Some fresh_pte
                                  else pgtbls s (b, i))\<rparr>)"
  using assms by (cases "posix_memalign E (pgtbls s)")
    (auto simp: init_second_level_def memalign_ok_def)

lemma lookup_pte_ok:
  assumes E: "memalign_ok E" and va: "unat vaddr < 2 ^ 36" and sz: "sizes_ok s" and dir: "dir_inv s"
  shows "lookup_pte E vaddr s = Inl Exit_Failure \<or>
    (\<exists>p s' e. lookup_pte E vaddr s = Inr (p, s') \<and> grown s s' \<and> walk_grows s s' \<and> dir_inv s' \<and>
       walk s' vaddr = Some p \<and> pgtbls s' p = Some e)"
proof -
  define i where "i = unat (PGDIR_INDEX vaddr)"
  define j where "j = unat (PGTBL_INDEX vaddr)"
  have i: "i < PTRS_PER_PGDIR" using PGDIR_INDEX_bound [OF va] by (simp add: i_def)
  have j: "j < PTRS_PER_PGTBL" using PGTBL_INDEX_bound by (simp add: j_def)
  have len: "length (pgdir s) = PTRS_PER_PGDIR" using sz by (simp add: sizes_ok_def)
  show ?thesis
  proof (cases "pgdir s ! i AND 1 = 0")
    case False
    then have "pgtbls s (pgdir s ! i AND PAGE_MASK, j) \<noteq> None"
      using dir i j by (simp add: dir_inv_def)
    then show ?thesis using False i len dir
      by (auto simp: lookup_pte_def i_def [symmetric] j_def [symmetric] grown_def walk_def Let_def)
  next
    case True
    from init_second_level_ok [OF E, of s] show ?thesis
    proof (elim disjE exE conjE)
      assume "init_second_level E s = Inl Exit_Failure"
      then show ?thesis using True i len by (simp add: lookup_pte_def i_def [symmetric])
    next
      fix base s1
      assume run: "init_second_level E s = Inr (base OR 1, s1)" and base: "base AND 0xFFF = 0"
        and fresh: "\<forall>i < PTRS_PER_PGTBL. pgtbls s (base, i) = None"
        and s1: "s1 = s\<lparr>pgtbls := (\<lambda>(b, i). if b = base \<and> i < PTRS_PER_PGTBL then Some fresh_pte
                                  else pgtbls s (b, i))\<rparr>"
      let ?s' = "s1\<lparr>pgdir := (pgdir s1)[i := base OR 1]\<rparr>"
      note tag = tagged_pointer [OF base]
      have "lookup_pte E vaddr s = Inr ((base, j), ?s')"
        using True i len run by (simp add: lookup_pte_def i_def [symmetric] j_def [symmetric] tag)
      moreover have "grown s ?s'" using fresh by (auto simp: grown_def s1 split: if_splits)
      moreover have "walk_grows s ?s'"
      proof -
        have same: "walk ?s' x = walk s x" if "unat (PGDIR_INDEX x) \<noteq> i" for x
          using that by (simp add: walk_def s1)
        have old: "walk s x = None" if "unat (PGDIR_INDEX x) = i" for x
          using that True by (simp add: walk_def)
        have new: "walk ?s' x = Some (base, unat (PGTBL_INDEX x))" if "unat (PGDIR_INDEX x) = i" for x
          using that i len tag by (simp add: walk_def s1)
        have none: "\<not> maps s (base, unat (PGTBL_INDEX x)) g" for x g
          using fresh PGTBL_INDEX_bound by (simp add: maps_def)
        show ?thesis unfolding walk_grows_def
          using same old new none by (metis option.distinct(1) option.inject)
      qed
      moreover have "walk ?s' vaddr = Some (base, j)"
        using i len by (simp add: walk_def i_def [symmetric] j_def [symmetric] tag s1)
      moreover have "pgtbls ?s' (base, j) = Some fresh_pte" using j by (simp add: s1)
      moreover have "dir_inv ?s'"
      proof -
        have ne: "pgdir s ! k AND PAGE_MASK \<noteq> base" if "k < PTRS_PER_PGDIR" "pgdir s ! k AND 1 \<noteq> 0" for k
        proof
          assume "pgdir s ! k AND PAGE_MASK = base"
          then have "pgtbls s (base, j) \<noteq> None" using dir that j unfolding dir_inv_def by metis
          then show False using fresh j by simp
        qed
        show ?thesis using dir i len ne ne [symmetric] tag unfolding dir_inv_def
          by (auto simp: s1 nth_list_update)
      qed
      ultimately show ?thesis by blast
    qed
  qed
qed

lemma grown_inv:
  assumes g: "grown s s'" and inv: "vm_inv s" and swap: "swap_inv s" and st: "stats_inv s"
  shows "vm_inv s'" "swap_inv s'" "stats_inv s'" "used_frames s' = used_frames s"
    "memsize s' = memsize s" "frame_page s' f = frame_page s f" "pol_view s' = pol_view s"
    "holds s' f p \<longleftrightarrow> holds s f p" "physmem s' = physmem s" "swapfile s' = swapfile s"
    "hit_count s' = hit_count s" "miss_count s' = miss_count s"
    "evict_dirty_count s' = evict_dirty_count s" "swapmap s' = swapmap s"
    "check_errors s' = check_errors s"
proof -
  obtain d t where s': "s' = s\<lparr>pgdir := d, pgtbls := t\<rparr>" using g by (auto simp: grown_def)
  have len: "length d = length (pgdir s)" using g by (simp add: grown_def s')
  show u: "used_frames s' = used_frames s" and m: "memsize s' = memsize s"
    by (simp_all add: s' used_frames_def memsize_def)
  show "frame_page s' f = frame_page s f" "pol_view s' = pol_view s" "physmem s' = physmem s"
    "swapfile s' = swapfile s" "hit_count s' = hit_count s" "miss_count s' = miss_count s"
    "evict_dirty_count s' = evict_dirty_count s" "swapmap s' = swapmap s"
    "check_errors s' = check_errors s"
    by (simp_all add: s' frame_page_def pol_view_def)
  have h: "holds s' f p \<longleftrightarrow> holds s f p" for f p by (simp add: s' holds_def memsize_def)
  show "holds s' f p \<longleftrightarrow> holds s f p" by (rule h)
  have "entry_ok e" if "pgtbls s' q = Some e" for q e
  proof (cases "pgtbls s q")
    case None
    then have "e = fresh_pte" using g that by (auto simp: grown_def)
    then show ?thesis by (simp add: entry_ok_def fresh_pte_flags)
  next
    case (Some e')
    then have "e = e'" using g that by (auto simp: grown_def)
    then show ?thesis using Some inv by (simp add: vm_inv_def entries_ok_def)
  qed
  then have "entries_ok s'" by (simp add: entries_ok_def)
  moreover have "sizes_ok s'" using inv by (simp add: vm_inv_def sizes_ok_def m) (simp add: s' len)
  moreover have "frames_ok s'" using inv by (simp add: vm_inv_def frames_ok_def u h)
  ultimately show "vm_inv s'" using inv by (simp add: vm_inv_def grown_maps [OF g] h)
  show "swap_inv s'" using swap by (simp add: swap_inv_def grown_slot_of [OF g]) (simp add: s')
  show "stats_inv s'" using st by (simp add: stats_inv_def u) (simp add: s')
qed

definition access_word :: "char \<Rightarrow> u32 \<Rightarrow> u32" where
  "access_word ty w = (if is_write ty then ((w OR PG_VALID) OR PG_REF) OR PG_DIRTY
     else (w OR PG_VALID) OR PG_REF)"

lemma mark_access_eq:
  "pgtbls s p = Some e \<Longrightarrow>
    mark_access ty p s = Inr (pte_write s p (e\<lparr>pt_frame := access_word ty (pt_frame e)\<rparr>))"
  by (simp add: mark_access_def pte_frame_upd_Some access_word_def)

text \<open>The entry of a page just brought into frame \<open>f\<close>, and of a page hit.\<close>

lemma new_entry_flags:
  assumes "f < 2 ^ 20"
  shows "pte_valid (e\<lparr>pt_frame := access_word ty (push_bit PAGE_SHIFT (of_nat f) OR PG_DIRTY)\<rparr>)"
    and "pte_frame_no (e\<lparr>pt_frame := access_word ty (push_bit PAGE_SHIFT (of_nat f) OR PG_DIRTY)\<rparr>) = f"
    and "entry_ok (e\<lparr>pt_frame := access_word ty (push_bit PAGE_SHIFT (of_nat f) OR PG_DIRTY)\<rparr>)"
  using assms
  by (simp_all add: pte_bits pte_frame_no_def entry_ok_def access_word_def flag_simps)

lemma hit_entry_pview:
  assumes "pte_valid e" and "pte_dirty e"
  shows "pview (e\<lparr>pt_frame := access_word ty (pt_frame e)\<rparr>) = pview e"
  using assms by (simp add: pview_def pte_bits pte_frame_no_def access_word_def flag_simps)

lemma core_pte_write:
  "pgtbls s p = Some e \<Longrightarrow> pview e' = pview e \<Longrightarrow> core (pte_write s p e') = core s"
  by (auto simp: core_def fun_eq_iff)

lemma pending_done:
  assumes pend: "vm_pending f p s" and e: "pte_valid e" "pte_frame_no e = f" "entry_ok e"
  shows "vm_inv (pte_write s p e)"
proof -
  have bij: "\<And>q g. g \<noteq> f \<Longrightarrow> maps s q g \<longleftrightarrow> holds s g q"
    and np: "\<And>g. \<not> maps s p g" and nf: "\<And>q. \<not> maps s q f" and h: "holds s f p"
    and sz: "sizes_ok s" and fr: "frames_ok s" and en: "entries_ok s"
    using pend unfolding vm_pending_def by blast+
  have "maps (pte_write s p e) q g \<longleftrightarrow> holds (pte_write s p e) g q" for q g
  proof (cases "g = f")
    case True
    have "q = p \<or> \<not> holds s f q" using holds_fun [OF h, of q] by blast
    then show ?thesis unfolding True maps_pte_write holds_pte_write using e(1,2) nf [of q] h by metis
  next
    case False
    then show ?thesis unfolding maps_pte_write holds_pte_write using e(2) np bij by metis
  qed
  then show ?thesis unfolding vm_inv_def using sz fr entries_ok_pte_write [OF en e(3)] by simp
qed

text \<open>\<open>init_frame\<close> prepares one frame and no other.\<close>

lemma length_fresh_page: "length (fresh_page vaddr) = SIMPAGESIZE"
  by (simp add: fresh_page_def SIMPAGESIZE_def)

lemma init_frame_eq:
  assumes sz: "sizes_ok s" and f: "f < memsize s"
  shows "init_frame f vaddr s = Inr (s\<lparr>physmem := blit (f * SIMPAGESIZE) (fresh_page vaddr) (physmem s)\<rparr>)"
proof -
  let ?o = "f * SIMPAGESIZE"
  have b: "?o + SIMPAGESIZE \<le> length (physmem s)" by (rule frame_in_physmem [OF sz f])
  have "blit (?o + 4) (store_le 8 vaddr) (blit ?o (replicate SIMPAGESIZE 0) (physmem s)) =
      blit ?o (fresh_page vaddr) (physmem s)"
    using b by (simp add: blit_def fresh_page_def SIMPAGESIZE_def min_def numeral_eq_Suc)
  then show ?thesis using b by (simp add: init_frame_def Let_def)
qed

lemma fresh_frame_pages:
  assumes sz: "sizes_ok s" and f: "f < memsize s"
    and s': "physmem s' = blit (f * SIMPAGESIZE) (fresh_page vaddr) (physmem s)"
  shows "frame_page s' f = fresh_page vaddr" and "length (physmem s') = length (physmem s)"
    and "g < memsize s \<Longrightarrow> g \<noteq> f \<Longrightarrow> frame_page s' g = frame_page s g"
proof -
  have b: "f * SIMPAGESIZE + length (fresh_page vaddr) \<le> length (physmem s)"
    using frame_in_physmem [OF sz f] by (simp add: length_fresh_page)
  show "frame_page s' f = fresh_page vaddr"
    by (simp add: frame_page_def s' region_blit_same [OF b] length_fresh_page)
  show "length (physmem s') = length (physmem s)" by (simp add: s' length_blit [OF b])
  assume g: "g < memsize s" "g \<noteq> f"
  have "g * SIMPAGESIZE + SIMPAGESIZE \<le> f * SIMPAGESIZE \<or>
      f * SIMPAGESIZE + length (fresh_page vaddr) \<le> g * SIMPAGESIZE"
  proof (cases "g < f")
    case True
    then have "Suc g * SIMPAGESIZE \<le> f * SIMPAGESIZE" by (intro mult_le_mono1) simp
    then show ?thesis by simp
  next
    case False
    then have "Suc f * SIMPAGESIZE \<le> g * SIMPAGESIZE" using g by (intro mult_le_mono1) simp
    then show ?thesis by (simp add: length_fresh_page)
  qed
  then show "frame_page s' g = frame_page s g"
    using frame_in_physmem [OF sz g(1)] by (simp add: frame_page_def s' region_blit_disjoint [OF b])
qed

end
