(* ===== verification/Mem_Fault.thy ===== *)
theory Mem_Fault
  imports Mem_Access
begin

text \<open>
  \<open>find_physpage\<close> as a whole, in the locale \<open>replacement\<close>: for every algorithm
  that keeps the contract, a reference either ends the run because the system
  gave no memory or no swap space, or it returns the frame the page is mapped
  to, with every invariant kept.
\<close>

definition loaded :: "os_env \<Rightarrow> sim \<Rightarrow> u64 \<Rightarrow> pteptr \<Rightarrow> nat \<Rightarrow> sim \<Rightarrow> bool" where
  "loaded E s vaddr p f s' \<longleftrightarrow> vm_inv s' \<and> dir_inv s' \<and> swap_inv s' \<and> stats_inv s' \<and>
     maps s' p f \<and> miss_result E s vaddr p f s' \<and> pgdir s' = pgdir s"

lemma saved_to_swap_cong:
  "slot_of t vic = slot_of t' vic \<Longrightarrow> swapmap t = swapmap t' \<Longrightarrow> swapfile t = swapfile t' \<Longrightarrow>
    saved_to_swap E s f vic t \<longleftrightarrow> saved_to_swap E s f vic t'"
  by (simp add: saved_to_swap_def slot_page_def)

lemma miss_result_core:
  assumes c: "core t = core t'"
  shows "miss_result E s vaddr p f t \<longleftrightarrow> miss_result E s vaddr p f t'"
proof -
  have "saved_to_swap E s f vic t \<longleftrightarrow> saved_to_swap E s f vic t'" for vic
    by (rule saved_to_swap_cong [OF slot_of_core [OF c] core_fields(9) [OF c] core_fields(8) [OF c]])
  then show ?thesis
    by (simp only: miss_result_def core_memsize [OF c] core_fields [OF c] used_frames_core [OF c] maps_core [OF c]
        frame_page_core [OF c])
qed

lemma hit_result_core:
  assumes c: "core t = core t'"
  shows "hit_result s p f t \<longleftrightarrow> hit_result s p f t'"
  by (simp only: hit_result_def core_memsize [OF c] core_fields [OF c] used_frames_core [OF c] maps_core [OF c])

lemma stats_inv_core:
  assumes c: "core t = core t'"
  shows "stats_inv t \<longleftrightarrow> stats_inv t'"
  by (simp only: stats_inv_def core_fields [OF c] used_frames_core [OF c])

text \<open>Filling the frame and the entry, once the frame is allocated.\<close>

lemma fill_frame_ok:
  assumes al: "alloc_frame_ok s f p s1" and fm: "f < memsize s" and e1: "pgtbls s1 p = Some e1"
    and inv: "vm_inv s" "dir_inv s" "stats_inv s" and new: "\<And>g. \<not> maps s p g"
    and tk: "took_free s f s1 \<or> (\<exists>vic. took_victim E s f vic s1)"
    and t: "t = count_miss (s1\<lparr>physmem := blit (f * SIMPAGESIZE) (fresh_page vaddr) (physmem s1)\<rparr>)"
    and e': "pte_valid e'" "pte_frame_no e' = f" "entry_ok e'" "swap_off e' = swap_off e1"
  shows "loaded E s vaddr p f (pte_write t p e')"
proof -
  let ?s' = "pte_write t p e'"
  note a = al [unfolded alloc_frame_ok_def]
  have pend1: "vm_pending f p s1" and sw1: "swap_inv s1" and ms: "memsize s1 = memsize s"
    and pm: "physmem s1 = physmem s" and pd: "pgdir s1 = pgdir s"
    and no: "\<And>q. pgtbls s1 q = None \<longleftrightarrow> pgtbls s q = None"
    and cnt: "hit_count s1 = hit_count s" "miss_count s1 = miss_count s" "ref_count s1 = ref_count s"
      "evict_clean_count s1 = evict_clean_count s" "check_errors s1 = check_errors s"
    using a by blast+
  have sz: "sizes_ok s1" using pend1 by (simp add: vm_pending_def)
  have fm1: "f < memsize s1" using fm ms by simp
  have pt: "physmem t = blit (f * SIMPAGESIZE) (fresh_page vaddr) (physmem s1)"
    by (simp add: t count_miss_def)
  note pages = fresh_frame_pages [OF sz fm1 pt]
  have same: "same_vm s1 t" unfolding same_vm_def using pages(2) by (simp add: t count_miss_def)
  have vm: "vm_inv ?s'"
    by (rule pending_done [OF _ e'(1-3)]) (use pend1 vm_pending_same [OF same] in blast)
  have fld: "coremap t = coremap s1" "pgdir t = pgdir s1" "pgtbls t = pgtbls s1" "swapmap t = swapmap s1"
    "swapfile t = swapfile s1" "hit_count t = hit_count s1" "miss_count t = Suc (miss_count s1)"
    "ref_count t = Suc (ref_count s1)" "evict_clean_count t = evict_clean_count s1"
    "evict_dirty_count t = evict_dirty_count s1" "check_errors t = check_errors s1"
    by (simp_all add: t count_miss_def)
  have sl: "slot_of ?s' q = slot_of s1 q" for q
    using e1 e'(4) by (simp add: slot_of_def fld)
  have sw: "swap_inv ?s'" using sw1 unfolding swap_inv_def sl by (simp add: fld)
  have dir: "dir_inv ?s'" using inv(2) no unfolding dir_inv_def
    by (simp add: fld pd del: not_None_eq)
  have mp: "maps ?s' q g \<longleftrightarrow> (if q = p then g = f else maps s1 q g)" for q g
    using e'(1,2) by (auto simp: maps_def fld)
  have ut: "used_frames t = used_frames s1" by (simp add: same_vm_obs [OF same])
  have uf: "used_frames ?s' = used_frames s1" by (simp add: ut)
  have fp: "frame_page ?s' g = frame_page t g" for g by (simp add: frame_page_def)
  have fp1: "frame_page s1 g = frame_page s g" for g by (simp add: frame_page_def pm)
  have miss: "miss_result E s vaddr p f ?s'" and st: "stats_inv ?s'"
  proof -
    have basic: "hit_count ?s' = hit_count s" "miss_count ?s' = Suc (miss_count s)"
      "memsize ?s' = memsize s" "check_errors ?s' = check_errors s"
      "frame_page ?s' f = fresh_page vaddr"
      "\<forall>g < memsize s. g \<noteq> f \<longrightarrow> frame_page ?s' g = frame_page s g"
      using cnt pages(1,3) ms same_vm_obs(8) [OF same] by (simp_all add: fld fp fp1 memsize_def)
    from tk show "miss_result E s vaddr p f ?s'"
    proof (elim disjE exE)
      assume "took_free s f s1"
      note k = this [unfolded took_free_def]
      have km: "maps s1 q g \<longleftrightarrow> maps s q g" for q g using k by (simp add: maps_def)
      then have m: "maps ?s' q g \<longleftrightarrow> (q = p \<and> g = f) \<or> maps s q g" for q g
        unfolding mp km using new by auto
      have "f \<notin> used_frames s \<and> used_frames ?s' = insert f (used_frames s) \<and>
        evict_dirty_count ?s' = evict_dirty_count s" using k uf by (simp add: fld)
      then show ?thesis unfolding miss_result_def using new basic m by blast
    next
      fix vic assume "took_victim E s f vic s1"
      note k = this [unfolded took_victim_def]
      have km: "maps s1 q g \<longleftrightarrow> q \<noteq> vic \<and> maps s q g" for q g using k by blast
      have vm: "maps s vic f" using k by blast
      have m: "maps ?s' q g \<longleftrightarrow> (q = p \<and> g = f) \<or> (q \<noteq> vic \<and> maps s q g)" for q g
        unfolding mp km using new by auto
      have "saved_to_swap E s f vic s1" using k by blast
      then have "saved_to_swap E s f vic ?s'"
        using saved_to_swap_cong [of ?s' vic s1 E s f] sl by (simp add: fld)
      moreover have "used_frames s = {..< memsize s} \<and> used_frames ?s' = used_frames s \<and>
        evict_dirty_count ?s' = Suc (evict_dirty_count s)" using k uf by (simp add: fld)
      ultimately show ?thesis unfolding miss_result_def using new basic m vm by blast
    qed
    from tk show "stats_inv ?s'"
    proof (elim disjE exE)
      assume "took_free s f s1"
      then show ?thesis using inv(3) cnt by (simp add: stats_inv_def took_free_def ut fld)
    next
      fix vic assume "took_victim E s f vic s1"
      then show ?thesis using inv(3) cnt by (simp add: stats_inv_def took_victim_def ut fld)
    qed
  qed
  show ?thesis unfolding loaded_def using vm dir sw st miss e'(1,2) pd by (simp add: fld)
qed


text \<open>The entry that the two updates of the fault path and the marking leave.\<close>

definition filled_pte :: "char \<Rightarrow> nat \<Rightarrow> pgtbl_entry_t \<Rightarrow> pgtbl_entry_t" where
  "filled_pte ty f e = e\<lparr>pt_frame := access_word ty (push_bit PAGE_SHIFT (of_nat f) OR PG_DIRTY)\<rparr>"

lemma filled_pte_props:
  "f < 2 ^ 20 \<Longrightarrow> pte_valid (filled_pte ty f e)" "f < 2 ^ 20 \<Longrightarrow> pte_frame_no (filled_pte ty f e) = f"
  "f < 2 ^ 20 \<Longrightarrow> entry_ok (filled_pte ty f e)" "swap_off (filled_pte ty f e) = swap_off e"
  unfolding filled_pte_def by (simp_all only: new_entry_flags) simp

lemma count_miss_write: "count_miss (pte_write s p e) = pte_write (count_miss s) p e"
  by (simp add: count_miss_def pte_write_def)

lemma pol_view_write: "pol_view (pte_write s p e) = pol_view s"
  by (simp add: pol_view_def pte_write_def)

lemma pol_view_filled:
  "pol_view (pte_write (count_miss (s\<lparr>physmem := m\<rparr>)) p e) = pol_view s"
  by (simp add: pol_view_write) (simp add: pol_view_def count_miss_def)

lemma find_physpage_runs:
  assumes "lookup_pte E vaddr s = Inr (p, s1)" and "resolve_fault E evict_fcn vaddr p s1 = Inr s2"
    and "mark_access ty p s2 = Inr s3" and "ref_fcn p s3 = Inr s4" and "maps s4 p f"
    and "f < 2 ^ 19"
  shows "find_physpage E ref_fcn evict_fcn vaddr ty s = Inr (f * SIMPAGESIZE, s4)"
proof -
  obtain e where e: "pgtbls s4 p = Some e" "pte_frame_no e = f" using assms(5) by (auto simp: maps_def)
  have "drop_bit PAGE_SHIFT (pt_frame e) = of_nat f" using e(2) by (auto simp: pte_frame_no_def)
  then show ?thesis using assms e(1) by (simp add: find_physpage_def pte_read_def frame_byte_of_nat)
qed

context replacement
begin

lemma fault_new_ok:
  assumes inv: "vm_inv s" "dir_inv s" "swap_inv s" "stats_inv s" "tracks s (used_frames s)"
    and e: "pgtbls s p = Some e" "\<not> pte_valid e"
  shows "fault_new E evict_fcn vaddr p s = Inl Exit_Failure \<or>
    (\<exists>f s2 s3. fault_new E evict_fcn vaddr p s = Inr s2 \<and> mark_access ty p s2 = Inr s3 \<and>
       f < memsize s \<and> loaded E s vaddr p f s3 \<and> tracks s3 (used_frames s3 - {f}))"
proof -
  consider (exit) "allocate_frame E evict_fcn p s = Inl Exit_Failure"
    | (ok) f s1 where "allocate_frame E evict_fcn p s = Inr (f, s1)" "f < memsize s"
        "alloc_frame_ok s f p s1" "tracks s1 (used_frames s1 - {f})"
        "took_free s f s1 \<or> (\<exists>vic. took_victim E s f vic s1)"
    using allocate_frame_ok [OF inv(1,3,5) e, of E] by metis
  then show ?thesis
  proof cases
    case exit
    then show ?thesis by (simp add: fault_new_def)
  next
    case (ok f s1)
    note run = ok(1) and f = ok(2) and al = ok(3) and tr = ok(4) and tk = ok(5)
    have sz: "sizes_ok s1" and f1: "f < memsize s1"
      using al f by (auto simp: alloc_frame_ok_def vm_pending_def)
    have f20: "f < 2 ^ 20" using sz f1 by (simp add: sizes_ok_def)
    obtain e1 where e1: "pgtbls s1 p = Some e1"
      using al e(1) by (cases "pgtbls s1 p") (auto simp: alloc_frame_ok_def)
    let ?t = "count_miss (s1\<lparr>physmem := blit (f * SIMPAGESIZE) (fresh_page vaddr) (physmem s1)\<rparr>)"
    let ?e2 = "e1\<lparr>pt_frame := push_bit PAGE_SHIFT (of_nat f) OR PG_DIRTY\<rparr>"
    let ?s3 = "pte_write ?t p (filled_pte ty f e1)"
    have "fault_new E evict_fcn vaddr p s = Inr (pte_write ?t p ?e2)"
      using run e1 by (simp add: fault_new_def init_frame_eq [OF sz f1] pte_frame_upd_Some count_miss_write)
    moreover have "mark_access ty p (pte_write ?t p ?e2) = Inr ?s3"
      using mark_access_eq [of "pte_write ?t p ?e2" p ?e2] by (simp add: filled_pte_def)
    moreover have ld: "loaded E s vaddr p f ?s3"
      by (rule fill_frame_ok [OF al f e1 inv(1,2,4) _ tk refl filled_pte_props(1-3) [OF f20]
            filled_pte_props(4)]) (use e in \<open>auto simp: maps_def\<close>)
    moreover have "tracks ?s3 (used_frames s1 - {f})"
      by (rule tracks_view [OF pol_view_filled [symmetric] tr])
    moreover have "used_frames ?s3 = used_frames s1"
      by (simp add: used_frames_def memsize_def count_miss_def)
    ultimately show ?thesis using f by metis
  qed
qed

lemma resolve_hit_ok:
  assumes inv: "vm_inv s" "dir_inv s" "swap_inv s" "stats_inv s" "tracks s (used_frames s)"
    and e: "pgtbls s p = Some e" "pte_valid e"
  shows "\<exists>f s2 s3. resolve_fault E evict_fcn vaddr p s = Inr s2 \<and> mark_access ty p s2 = Inr s3 \<and>
    core s3 = core (count_hit s) \<and> maps s p f \<and> tracks s3 (used_frames s3)"
proof -
  let ?s3 = "pte_write (count_hit s) p (e\<lparr>pt_frame := access_word ty (pt_frame e)\<rparr>)"
  have eh: "pgtbls (count_hit s) p = Some e" using e by (simp add: count_hit_def)
  have "pte_dirty e" using inv(1) e by (auto simp: vm_inv_def entries_ok_def entry_ok_def)
  then have "core ?s3 = core (count_hit s)"
    by (intro core_pte_write [OF eh] hit_entry_pview e(2))
  moreover have "tracks ?s3 (used_frames s)"
    by (rule tracks_view [OF _ inv(5)]) (simp add: pol_view_def count_hit_def pte_write_def)
  moreover have "used_frames ?s3 = used_frames s"
    by (simp add: used_frames_def memsize_def count_hit_def)
  moreover have "resolve_fault E evict_fcn vaddr p s = Inr (count_hit s)"
    using e by (simp add: resolve_fault_def pte_read_def)
  moreover have "maps s p (pte_frame_no e)" using e by (simp add: maps_def)
  ultimately show ?thesis using mark_access_eq [OF eh] by metis
qed

text \<open>
  The correctness of a memory reference: a hit changes no page and no mapping; a
  miss maps the page to a frame with fresh contents and, when no frame was free,
  saves the page that had it to the swap file.
\<close>

lemma find_physpage_ok:
  assumes inv: "sim_inv tracks s" and E: "memalign_ok E" and va: "unat vaddr < 2 ^ 36"
  shows "find_physpage E ref_fcn evict_fcn vaddr ty s = Inl Exit_Failure \<or>
    (\<exists>p f s'. find_physpage E ref_fcn evict_fcn vaddr ty s = Inr (f * SIMPAGESIZE, s') \<and>
       sim_inv tracks s' \<and> walk_grows s s' \<and> walk s' vaddr = Some p \<and> maps s' p f \<and>
       (hit_result s p f s' \<or> miss_result E s vaddr p f s'))"
proof -
  have i0: "vm_inv s" "dir_inv s" "swap_inv s" "stats_inv s" "tracks s (used_frames s)"
    using inv by (auto simp: sim_inv_def)
  have sz: "sizes_ok s" using i0(1) by (simp add: vm_inv_def)
  consider (exit) "lookup_pte E vaddr s = Inl Exit_Failure"
    | (ok) p s1 e where "lookup_pte E vaddr s = Inr (p, s1)" "grown s s1" "dir_inv s1"
        "walk_grows s s1" "walk s1 vaddr = Some p" "pgtbls s1 p = Some e"
    using lookup_pte_ok [OF E va sz i0(2)]
    by blast
  then show ?thesis
  proof cases
    case exit
    then show ?thesis by (simp add: find_physpage_def)
  next
    case (ok p s1 e)
    note g = grown_inv [OF ok(2) i0(1,3,4)]
    have tr1: "tracks s1 (used_frames s1)" using tracks_view [OF g(7) [symmetric] i0(5)] g(4) by simp
    note i1 = g(1) ok(3) g(2,3) tr1
    have wk: "walk_grows s t \<and> walk t vaddr = Some p" if "pgdir t = pgdir s1" for t
    proof -
      have w: "walk t = walk s1" using that by (simp add: walk_def fun_eq_iff)
      have "walk_grows s t" using ok(4) unfolding walk_grows_def w .
      then show ?thesis using ok(5) unfolding w by blast
    qed
    show ?thesis
    proof (cases "pte_valid e")
      case True
      obtain f s2 s3 where st: "resolve_fault E evict_fcn vaddr p s1 = Inr s2"
        "mark_access ty p s2 = Inr s3" and c3: "core s3 = core (count_hit s1)" and m: "maps s1 p f"
        and tr3: "tracks s3 (used_frames s3)"
        using resolve_hit_ok [OF i1 ok(6) True] by blast
      have same: "same_vm s1 (count_hit s1)" by (simp add: same_vm_def count_hit_def)
      have hv: "vm_inv (count_hit s1)" using g(1) vm_inv_same [OF same] by simp
      have m3: "maps s3 p f" using m maps_core [OF c3] same_vm_obs(1) [OF same] by blast
      obtain s4 where s4: "ref_fcn p s3 = Inr s4" "core s4 = core s3" "tracks s4 (insert f (used_frames s3))"
        using ref_law [OF vm_inv_core [OF c3 [symmetric] hv] m3 tr3] by auto
      have c4: "core s4 = core (count_hit s1)" using s4(2) c3 by simp
      have f: "f \<in> used_frames s1" "f < 2 ^ 19"
        using m g(1) holds_used [of s1 f p] by (auto simp: vm_inv_def holds_def sizes_ok_def)
      have u4: "used_frames s4 = used_frames s1" "used_frames s3 = used_frames s1"
        using used_frames_core [OF c4] used_frames_core [OF c3] same_vm_obs(3) [OF same] by simp_all
      have m4: "maps s4 p f" using m3 maps_core [OF s4(2)] by blast
      have "find_physpage E ref_fcn evict_fcn vaddr ty s = Inr (f * SIMPAGESIZE, s4)"
        using find_physpage_runs [OF ok(1) st, of ref_fcn s4 f] s4(1) m4 f(2) by blast
      moreover have "hit_result s p f s4"
      proof -
        have "hit_result s p f (count_hit s1)"
          using m g grown_maps [OF ok(2)] same_vm_obs(1,3,8) [OF same]
          by (simp add: hit_result_def) (simp add: count_hit_def)
        then show ?thesis using hit_result_core [OF c4] by blast
      qed
      moreover have "sim_inv tracks s4"
      proof -
        have "stats_inv (count_hit s1)" using g(3) same_vm_obs(3) [OF same]
          by (simp add: stats_inv_def) (simp add: count_hit_def)
        moreover have "swap_inv (count_hit s1)" "dir_inv (count_hit s1)"
          using g(2) ok(3) by (simp_all add: swap_inv_def dir_inv_def slot_of_def count_hit_def)
        moreover have "tracks s4 (used_frames s4)" using s4(3) u4 f(1) by (simp add: insert_absorb)
        ultimately show ?thesis unfolding sim_inv_def
          using core_preserves [OF c4 [symmetric]] hv stats_inv_core [OF c4] by blast
      qed
      moreover have "walk_grows s s4 \<and> walk s4 vaddr = Some p"
        using wk [of s4] core_fields(2) [OF c4] by (simp add: count_hit_def)
      ultimately show ?thesis using m4 by blast
    next
      case False
      have "\<not> pte_onswap e" using g(1) ok(6) by (auto simp: vm_inv_def entries_ok_def entry_ok_def)
      then have res: "resolve_fault E evict_fcn vaddr p s1 = fault_new E evict_fcn vaddr p s1"
        using ok(6) False by (simp add: resolve_fault_def pte_read_def)
      consider (exit) "fault_new E evict_fcn vaddr p s1 = Inl Exit_Failure"
        | (new) f s2 s3 where "fault_new E evict_fcn vaddr p s1 = Inr s2" "mark_access ty p s2 = Inr s3"
            "f < memsize s1" "loaded E s1 vaddr p f s3" "tracks s3 (used_frames s3 - {f})"
        using fault_new_ok [OF i1 ok(6) False, of E vaddr ty] by metis
      then show ?thesis
      proof cases
        case exit
        then show ?thesis using ok(1) res by (simp add: find_physpage_def)
      next
        case (new f s2 s3)
        note ld = new(4) [unfolded loaded_def]
        obtain s4 where s4: "ref_fcn p s3 = Inr s4" "core s4 = core s3"
          "tracks s4 (insert f (used_frames s3 - {f}))"
          using ref_law [of s3 p f "used_frames s3 - {f}"] ld new(5) by auto
        have f: "f \<in> used_frames s3" using ld holds_used [of s3 f p] by (auto simp: vm_inv_def)
        have f19: "f < 2 ^ 19" using new(3) g(1) by (simp add: vm_inv_def sizes_ok_def)
        have m4: "maps s4 p f" using ld maps_core [OF s4(2)] by blast
        have "find_physpage E ref_fcn evict_fcn vaddr ty s = Inr (f * SIMPAGESIZE, s4)"
          using find_physpage_runs [OF ok(1) _ new(2), of evict_fcn ref_fcn s4 f] res new(1) s4(1) m4 f19
          by simp
        moreover have "miss_result E s vaddr p f s4"
        proof -
          have mr: "miss_result E s1 vaddr p f s4" using ld miss_result_core [OF s4(2)] by blast
          have sv: "saved_to_swap E s1 f vic s4 \<longleftrightarrow> saved_to_swap E s f vic s4" for vic
            by (simp add: saved_to_swap_def g)
          show ?thesis using mr unfolding miss_result_def grown_maps [OF ok(2)] g sv .
        qed
        moreover have "sim_inv tracks s4"
        proof -
          have "tracks s4 (used_frames s4)" using s4(3) f used_frames_core [OF s4(2)]
            by (simp add: insert_absorb)
          then show ?thesis unfolding sim_inv_def
            using core_preserves [OF s4(2) [symmetric]] ld stats_inv_core [OF s4(2)] by blast
        qed
        moreover have "walk_grows s s4 \<and> walk s4 vaddr = Some p"
          using wk [of s4] core_fields(2) [OF s4(2)] ld by simp
        ultimately show ?thesis using m4 by blast
      qed
    qed
  qed
qed

end

end
