(* ===== verification/Mem_Fifo.thy ===== *)
theory Mem_Fifo
  imports Mem_Fault
begin

text \<open>
  fifo.c and rand.c.  The variable \<open>evict\<close> of fifo.c is \<open>fifo_evict_g\<close>; a call of
  \<open>random()\<close> takes the next value of \<open>randoms\<close>.  Both are instances of the
  locale \<open>replacement\<close>, which gives the correctness of a memory reference.
\<close>

section \<open>fifo.c\<close>

definition fifo_evict :: evict_fun where
  "fifo_evict s =
    bindE (guardE Div_By_Zero (memsize s \<noteq> 0)) (\<lambda>_.
    let e = (fifo_evict_g s + 1) mod int (memsize s) in Inr (e, s\<lparr>fifo_evict_g := e\<rparr>))"

definition fifo_ref :: ref_fun where
  "fifo_ref p s = Inr s"

definition fifo_init :: "sim \<Rightarrow> sim" where
  "fifo_init s = s\<lparr>fifo_evict_g := -1\<rparr>"

definition fifo_tracks :: "sim \<Rightarrow> nat set \<Rightarrow> bool" where
  "fifo_tracks s F \<longleftrightarrow> -1 \<le> fifo_evict_g s \<and> fifo_evict_g s < int (memsize s)"

lemma pol_view_memsize: "pol_view s = pol_view t \<Longrightarrow> memsize s = memsize t"
  by (auto simp: pol_view_def memsize_def dest: map_eq_imp_length_eq)

lemma fifo_evict_eq:
  "0 < memsize s \<Longrightarrow> fifo_evict s =
    Inr ((fifo_evict_g s + 1) mod int (memsize s),
      s\<lparr>fifo_evict_g := (fifo_evict_g s + 1) mod int (memsize s)\<rparr>)"
  by (simp add: fifo_evict_def Let_def)

lemma memsize_pos: "vm_inv s \<Longrightarrow> 0 < memsize s"
  by (simp add: vm_inv_def sizes_ok_def)

lemma core_fifo_g [simp]: "core (s\<lparr>fifo_evict_g := x\<rparr>) = core s"
  by (simp add: core_def)

interpretation fifo: replacement fifo_ref fifo_evict fifo_tracks
proof unfold_locales
  fix s assume inv: "vm_inv s"
  define e where "e = (fifo_evict_g s + 1) mod int (memsize s)"
  have pos: "0 < memsize s" by (rule memsize_pos [OF inv])
  have e: "0 \<le> e" "e < int (memsize s)" using pos by (simp_all add: e_def)
  have "fifo_evict s = Inr (int (nat e), s\<lparr>fifo_evict_g := e\<rparr>)"
    using fifo_evict_eq [OF pos] e by (simp add: e_def)
  moreover have "nat e < memsize s" using e by simp
  moreover have "fifo_tracks (s\<lparr>fifo_evict_g := e\<rparr>) F" for F
    using e by (simp add: fifo_tracks_def memsize_def)
  ultimately show "\<exists>f s'. fifo_evict s = Inr (int f, s') \<and> f < memsize s \<and> core s' = core s \<and>
        fifo_tracks s' ({..< memsize s} - {f})"
    by (intro exI [of _ "nat e"] exI [of _ "s\<lparr>fifo_evict_g := e\<rparr>"]) simp
next
  fix s p f F assume "fifo_tracks s F"
  then show "\<exists>s'. fifo_ref p s = Inr s' \<and> core s' = core s \<and> fifo_tracks s' (insert f F)"
    by (simp add: fifo_ref_def fifo_tracks_def)
next
  fix s t F assume "pol_view s = pol_view t" "fifo_tracks s F"
  then show "fifo_tracks t F"
    using pol_view_memsize [of s t] by (simp add: fifo_tracks_def) (simp add: pol_view_def)
qed

text \<open>A run of \<open>n\<close> evictions: the frames chosen, in order.\<close>

primrec evictions :: "evict_fun \<Rightarrow> nat \<Rightarrow> sim \<Rightarrow> (int list \<times> sim) res" where
  "evictions ev 0 s = Inr ([], s)"
| "evictions ev (Suc n) s = bindE (ev s) (\<lambda>(f, s1).
     bindE (evictions ev n s1) (\<lambda>(fs, s2). Inr (f # fs, s2)))"

lemma fifo_evictions_from:
  assumes "0 < memsize s"
  shows "\<exists>s'. evictions fifo_evict n s =
    Inr (map (\<lambda>k. (fifo_evict_g s + 1 + int k) mod int (memsize s)) [0 ..< n], s')"
  using assms
proof (induction n arbitrary: s)
  case 0
  then show ?case by simp
next
  case (Suc n)
  let ?e = "(fifo_evict_g s + 1) mod int (memsize s)"
  let ?s1 = "s\<lparr>fifo_evict_g := ?e\<rparr>"
  have m: "memsize ?s1 = memsize s" by (simp add: memsize_def)
  have eq: "(?e + 1 + int k) mod int (memsize s) = (fifo_evict_g s + 1 + int (Suc k)) mod int (memsize s)" for k
    by (metis (no_types, opaque_lifting) add.assoc mod_add_left_eq of_nat_Suc)
  obtain s' where "evictions fifo_evict n ?s1 =
      Inr (map (\<lambda>k. (?e + 1 + int k) mod int (memsize s)) [0 ..< n], s')"
    using Suc.IH [of ?s1] Suc.prems m by auto
  then have "evictions fifo_evict (Suc n) s =
      Inr (?e # map (\<lambda>k. (fifo_evict_g s + 1 + int (Suc k)) mod int (memsize s)) [0 ..< n], s')"
    using Suc.prems by (simp only: evictions.simps fifo_evict_eq eq) simp
  moreover have "map (\<lambda>k. (fifo_evict_g s + 1 + int k) mod int (memsize s)) [0 ..< Suc n] =
      ?e # map (\<lambda>k. (fifo_evict_g s + 1 + int (Suc k)) mod int (memsize s)) [0 ..< n]"
    by (subst upt_conv_Cons) (simp_all add: map_Suc_upt [symmetric] del: upt_Suc)
  ultimately show ?case by metis
qed

section \<open>rand.c\<close>

definition rand_evict :: evict_fun where
  "rand_evict s =
    bindE (guardE Div_By_Zero (memsize s \<noteq> 0)) (\<lambda>_.
    Inr (int (randoms s 0 mod memsize s), s\<lparr>randoms := (\<lambda>i. randoms s (Suc i))\<rparr>))"

definition rand_ref :: ref_fun where
  "rand_ref p s = Inr s"

definition rand_init :: "sim \<Rightarrow> sim" where
  "rand_init s = s"

definition rand_tracks :: "sim \<Rightarrow> nat set \<Rightarrow> bool" where
  "rand_tracks s F \<longleftrightarrow> True"

lemma core_randoms [simp]: "core (s\<lparr>randoms := x\<rparr>) = core s"
  by (simp add: core_def)

interpretation rand: replacement rand_ref rand_evict rand_tracks
  by unfold_locales (auto simp: rand_ref_def rand_evict_def rand_tracks_def dest: memsize_pos)

end
