(* ===== verification/Mem_Clock.thy ===== *)
theory Mem_Clock
  imports Mem_Fifo
begin

text \<open>
  clock.c.  The loop of \<open>clock_evict\<close> runs on fuel; \<open>memsize + 1\<close> rounds are
  enough, because after one turn around the ring every reference bit is clear.
  The specification is second chance: the victim is the first frame after the
  hand whose page is not referenced, and the frames passed over lose their bit;
  when all are referenced, it is the frame right after the hand.
\<close>

fun clock_scan :: "nat \<Rightarrow> evict_fun" where
  "clock_scan 0 s = Inl Out_Of_Fuel"
| "clock_scan (Suc n) s =
    bindE (guardE Div_By_Zero (memsize s \<noteq> 0)) (\<lambda>_.
    let pg = (oldest_page s + 1) mod int (memsize s);
        s1 = s\<lparr>oldest_page := pg\<rparr> in
    bindE (rd (coremap s1) (nat pg)) (\<lambda>c.
    bindE (deref (fpte c)) (\<lambda>protential_victim.
    bindE (pte_read s1 protential_victim) (\<lambda>e.
    if pt_frame e AND PG_REF = 0 then Inr (pg, s1)
    else bindE (pte_frame_upd (\<lambda>w. w AND NOT PG_REF) protential_victim s1) (clock_scan n)))))"

definition clock_evict :: evict_fun where
  "clock_evict s = clock_scan (Suc (memsize s)) s"

definition clock_ref :: ref_fun where
  "clock_ref p s = pte_frame_upd (\<lambda>w. w OR PG_REF) p s"

definition clock_init :: "sim \<Rightarrow> sim" where
  "clock_init s = s\<lparr>oldest_page := -1\<rparr>"

definition clock_tracks :: "sim \<Rightarrow> nat set \<Rightarrow> bool" where
  "clock_tracks s F \<longleftrightarrow> -1 \<le> oldest_page s \<and> oldest_page s < int (memsize s)"

section \<open>The ring of frames\<close>

text \<open>The frame \<open>d\<close> places after the hand's next one, and whether its page is referenced.\<close>

definition ring :: "sim \<Rightarrow> nat \<Rightarrow> nat" where
  "ring s d = nat ((oldest_page s + 1 + int d) mod int (memsize s))"

definition frame_ref :: "sim \<Rightarrow> nat \<Rightarrow> bool" where
  "frame_ref s f = (case fpte (coremap s ! f) of None \<Rightarrow> False
     | Some p \<Rightarrow> (case pgtbls s p of None \<Rightarrow> False | Some e \<Rightarrow> pte_ref e))"

lemma ring_less: "0 < memsize s \<Longrightarrow> ring s d < memsize s"
  by (simp add: ring_def nat_less_iff)

lemma ring_around: "0 < memsize s \<Longrightarrow> ring s (memsize s) = ring s 0"
  by (simp add: ring_def)

lemma ring_inj:
  assumes "0 < memsize s" "j < k" "k < memsize s"
  shows "ring s j \<noteq> ring s k"
proof
  let ?m = "int (memsize s)" let ?a = "oldest_page s + 1"
  assume "ring s j = ring s k"
  then have "(?a + int j) mod ?m = (?a + int k) mod ?m"
    using assms(1) by (simp add: ring_def nat_eq_iff2)
  then have "?m dvd (?a + int k) - (?a + int j)" by (metis mod_eq_dvd_iff)
  then have "?m dvd int (k - j)" using assms(2) by (simp add: of_nat_diff)
  then have "memsize s dvd k - j" by (simp only: of_nat_dvd_iff)
  then show False using assms by (auto dest: dvd_imp_le)
qed

lemma frame_ref_oldest [simp]: "frame_ref (s\<lparr>oldest_page := x\<rparr>) g = frame_ref s g"
  by (simp add: frame_ref_def split: option.split)

definition hand_ok :: "sim \<Rightarrow> bool" where
  "hand_ok s \<longleftrightarrow> vm_inv s \<and> used_frames s = {..< memsize s}"

lemma hand_at:
  assumes "hand_ok s"
  obtains p e where "holds s (ring s d) p" "pgtbls s p = Some e"
    "frame_ref s (ring s d) \<longleftrightarrow> pte_ref e"
proof -
  have "ring s d \<in> used_frames s"
    using assms memsize_pos [of s] ring_less [of s d] by (auto simp: hand_ok_def)
  then obtain p where p: "holds s (ring s d) p"
    using assms unfolding hand_ok_def vm_inv_def frames_ok_def by blast
  then have "maps s p (ring s d)" using assms unfolding hand_ok_def vm_inv_def by blast
  then obtain e where "pgtbls s p = Some e" unfolding maps_def by blast
  then show thesis using p by (intro that [of p e]) (auto simp: frame_ref_def holds_def)
qed

lemma core_oldest [simp]: "core (s\<lparr>oldest_page := x\<rparr>) = core s"
  by (simp add: core_def)

lemma hand_ok_core: "core s = core t \<Longrightarrow> hand_ok s \<Longrightarrow> hand_ok t"
  unfolding hand_ok_def using vm_inv_core [of s t] used_frames_core [of s t] core_memsize [of s t] by simp

lemma clock_scan_found:
  assumes ok: "hand_ok s" and nr: "\<not> frame_ref s (ring s 0)"
  shows "clock_scan (Suc n) s = Inr (int (ring s 0), s\<lparr>oldest_page := int (ring s 0)\<rparr>)"
proof -
  have pos: "0 < memsize s" using ok memsize_pos by (simp add: hand_ok_def)
  obtain p e where pe: "holds s (ring s 0) p" "pgtbls s p = Some e" "frame_ref s (ring s 0) \<longleftrightarrow> pte_ref e"
    by (rule hand_at [OF ok])
  then have z: "pt_frame e AND PG_REF = 0" using nr by (simp add: pte_ref_def)
  have i: "int (ring s 0) = (oldest_page s + 1) mod int (memsize s)" using pos by (simp add: ring_def)
  show ?thesis using pe(1,2) z ring_less [OF pos, of 0] pos
    by (simp add: Let_def i [symmetric] holds_def pte_read_def)
      (simp add: memsize_def)
qed

lemma clock_scan_pass:
  assumes ok: "hand_ok s" and r: "frame_ref s (ring s 0)"
  shows "\<exists>s1. clock_scan (Suc n) s = clock_scan n s1 \<and> core s1 = core s \<and>
    oldest_page s1 = int (ring s 0) \<and>
    (\<forall>g < memsize s. frame_ref s1 g \<longleftrightarrow> frame_ref s g \<and> g \<noteq> ring s 0)"
proof -
  have pos: "0 < memsize s" using ok memsize_pos by (simp add: hand_ok_def)
  obtain p e where pe: "holds s (ring s 0) p" "pgtbls s p = Some e" "frame_ref s (ring s 0) \<longleftrightarrow> pte_ref e"
    by (rule hand_at [OF ok])
  then have z: "pt_frame e AND PG_REF \<noteq> 0" using r by (simp add: pte_ref_def)
  have i: "int (ring s 0) = (oldest_page s + 1) mod int (memsize s)" using pos by (simp add: ring_def)
  let ?e = "e\<lparr>pt_frame := pt_frame e AND NOT PG_REF\<rparr>"
  let ?s0 = "s\<lparr>oldest_page := int (ring s 0)\<rparr>"
  let ?s1 = "pte_write ?s0 p ?e"
  have e0: "pgtbls ?s0 p = Some e" using pe by simp
  have "clock_scan (Suc n) s = clock_scan n ?s1"
    using pe(1,2) z ring_less [OF pos, of 0] pos
    by (simp add: Let_def i [symmetric] holds_def pte_read_def pte_frame_upd_Some [OF e0])
      (simp add: memsize_def pte_frame_upd_Some [OF e0])
  moreover have "core ?s1 = core s" using core_pte_write [OF e0, of ?e] by simp
  moreover have "oldest_page ?s1 = int (ring s 0)" by (simp add: pte_write_def)
  moreover have "frame_ref ?s1 g \<longleftrightarrow> frame_ref s g \<and> g \<noteq> ring s 0" if g: "g < memsize s" for g
  proof -
    have "g \<in> used_frames s" using g ok by (auto simp: hand_ok_def)
    then obtain q where q: "holds s g q"
      using ok unfolding hand_ok_def vm_inv_def frames_ok_def by blast
    have inj: "q = p \<longleftrightarrow> g = ring s 0"
    proof
      assume "q = p"
      then have "maps s p g" "maps s p (ring s 0)" using q pe(1) ok unfolding hand_ok_def vm_inv_def by blast+
      then show "g = ring s 0" by (rule maps_fun)
    next
      assume "g = ring s 0"
      then show "q = p" using q pe(1) holds_fun by blast
    qed
    have "\<not> pte_ref ?e" by (simp add: pte_bits flag_simps)
    then show ?thesis using q inj by (auto simp: frame_ref_def holds_def)
  qed
  ultimately show ?thesis by blast
qed

lemma clock_scan_ok:
  assumes "hand_ok s" and "d < n" and "d \<le> memsize s" and "\<forall>j < d. frame_ref s (ring s j)"
    and "d = memsize s \<or> \<not> frame_ref s (ring s d)"
  shows "\<exists>s'. clock_scan n s = Inr (int (ring s d), s') \<and> core s' = core s \<and>
    oldest_page s' = int (ring s d) \<and>
    (\<forall>g < memsize s. frame_ref s' g \<longleftrightarrow> frame_ref s g \<and> g \<notin> ring s ` {..< d})"
  using assms
proof (induction d arbitrary: n s)
  case 0
  have "memsize s \<noteq> 0" using memsize_pos 0(1) by (simp add: hand_ok_def)
  then have "\<not> frame_ref s (ring s 0)" using 0 by simp
  moreover obtain k where "n = Suc k" using 0 by (cases n) auto
  ultimately have "clock_scan n s = Inr (int (ring s 0), s\<lparr>oldest_page := int (ring s 0)\<rparr>)"
    using clock_scan_found [OF 0(1)] by simp
  then show ?case by simp
next
  case (Suc d)
  have pos: "0 < memsize s" using memsize_pos Suc.prems(1) by (simp add: hand_ok_def)
  obtain k where n: "n = Suc k" "d < k" using Suc.prems(2) by (cases n) auto
  obtain s1 where s1: "clock_scan n s = clock_scan k s1" "core s1 = core s"
    "oldest_page s1 = int (ring s 0)"
    "\<forall>g < memsize s. frame_ref s1 g \<longleftrightarrow> frame_ref s g \<and> g \<noteq> ring s 0"
    using clock_scan_pass [OF Suc.prems(1), of k] Suc.prems(4) n by auto
  have m: "memsize s1 = memsize s" by (rule core_memsize [OF s1(2)])
  have shift: "ring s1 j = ring s (Suc j)" for j
  proof -
    have "int (ring s 0) = (oldest_page s + 1) mod int (memsize s)" using pos by (simp add: ring_def)
    then have "(int (ring s 0) + 1 + int j) mod int (memsize s) = (oldest_page s + 1 + int (Suc j)) mod int (memsize s)"
      by (metis (no_types, opaque_lifting) add.assoc mod_add_left_eq of_nat_Suc)
    then show ?thesis by (simp add: ring_def s1(3) m)
  qed
  have "\<forall>j < d. frame_ref s1 (ring s1 j)"
    using Suc.prems(3,4) s1(4) ring_less [OF pos] ring_inj [OF pos, of 0] unfolding shift
    by (metis Suc_less_eq less_le_trans zero_less_Suc)
  moreover have "\<not> frame_ref s1 (ring s1 d)"
    using Suc.prems(5) s1(4) ring_less [OF pos] ring_around [OF pos] unfolding shift by metis
  ultimately obtain s' where s': "clock_scan k s1 = Inr (int (ring s1 d), s')" "core s' = core s1"
    "oldest_page s' = int (ring s1 d)"
    "\<forall>g < memsize s1. frame_ref s' g \<longleftrightarrow> frame_ref s1 g \<and> g \<notin> ring s1 ` {..< d}"
    using Suc.IH [of s1 k] hand_ok_core [OF s1(2) [symmetric] Suc.prems(1)] n(2) Suc.prems(3) m
    by (metis Suc_leD)
  have "ring s ` {..< Suc d} = insert (ring s 0) (ring s1 ` {..< d})"
    by (simp add: shift lessThan_Suc_eq_insert_0 image_image)
  then have "\<forall>g < memsize s. frame_ref s' g \<longleftrightarrow> frame_ref s g \<and> g \<notin> ring s ` {..< Suc d}"
    using s'(4) s1(4) m by auto
  then show ?case using s1 s' shift by metis
qed

text \<open>The number of frames the hand passes over.\<close>

lemma clock_victim_exists:
  obtains d where "d \<le> memsize s" "\<forall>j < d. frame_ref s (ring s j)"
    "d = memsize s \<or> \<not> frame_ref s (ring s d)"
proof (cases "\<exists>j < memsize s. \<not> frame_ref s (ring s j)")
  case True
  define d where "d = (LEAST j. j < memsize s \<and> \<not> frame_ref s (ring s j))"
  have "d < memsize s \<and> \<not> frame_ref s (ring s d)" unfolding d_def by (rule LeastI_ex [OF True])
  moreover have "\<forall>j < d. frame_ref s (ring s j)"
    unfolding d_def by (metis calculation d_def less_trans not_less_Least)
  ultimately show thesis by (intro that [of d]) auto
next
  case False
  then show thesis by (intro that [of "memsize s"]) auto
qed

interpretation clock: replacement clock_ref clock_evict clock_tracks
proof unfold_locales
  fix s assume inv: "vm_inv s" "used_frames s = {..< memsize s}"
  then have ok: "hand_ok s" by (simp add: hand_ok_def)
  obtain d where d: "d \<le> memsize s" "\<forall>j < d. frame_ref s (ring s j)"
    "d = memsize s \<or> \<not> frame_ref s (ring s d)" by (rule clock_victim_exists)
  obtain s' where s': "clock_evict s = Inr (int (ring s d), s')" "core s' = core s"
      "oldest_page s' = int (ring s d)"
    using clock_scan_ok [OF ok _ d, of "Suc (memsize s)"] d(1) by (auto simp: clock_evict_def)
  have l: "ring s d < memsize s" by (rule ring_less [OF memsize_pos [OF inv(1)]])
  have "clock_tracks s' F" for F
    using s'(3) l core_memsize [OF s'(2)] by (simp add: clock_tracks_def)
  then show "\<exists>f s'. clock_evict s = Inr (int f, s') \<and> f < memsize s \<and> core s' = core s \<and>
        clock_tracks s' ({..< memsize s} - {f})" using s' l by blast
next
  fix s p f F assume "maps s p f" and tr: "clock_tracks s F"
  then obtain e where e: "pgtbls s p = Some e" by (auto simp: maps_def)
  let ?s' = "pte_write s p (e\<lparr>pt_frame := pt_frame e OR PG_REF\<rparr>)"
  have "clock_ref p s = Inr ?s'" by (simp add: clock_ref_def pte_frame_upd_Some [OF e])
  moreover have "core ?s' = core s" by (rule core_pte_write [OF e]) simp
  moreover have "clock_tracks ?s' G" for G
    using tr by (simp add: clock_tracks_def memsize_def) (simp add: pte_write_def)
  ultimately show "\<exists>s'. clock_ref p s = Inr s' \<and> core s' = core s \<and> clock_tracks s' (insert f F)" by blast
next
  fix s t F assume "pol_view s = pol_view t" "clock_tracks s F"
  then show "clock_tracks t F"
    using pol_view_memsize [of s t] by (simp add: clock_tracks_def) (simp add: pol_view_def)
qed

end
