(* ===== verification/Mem_Lru.thy ===== *)
theory Mem_Lru
  imports Mem_Clock
begin

text \<open>
  lru.c.  The frames in memory form a doubly linked list from \<open>head\<close> (least
  recently used) to \<open>tail\<close>, through the \<open>next\<close> and \<open>previous\<close> fields of
  \<open>coremap\<close>.  The specification is a list of frames: a reference moves the frame
  to the end, an eviction takes the first.  \<open>lru_rep\<close> relates the two; the
  \<open>previous\<close> pointer of the head may point to the head itself, because the
  test for a new page also holds for the only frame of a list of one.
\<close>

section \<open>Pointer updates\<close>

definition set_next :: "nat \<Rightarrow> nat option \<Rightarrow> sim \<Rightarrow> sim res" where
  "set_next f x s = bindE (rd (coremap s) f) (\<lambda>c.
    Inr (s\<lparr>coremap := (coremap s)[f := c\<lparr>fnext := x\<rparr>]\<rparr>))"

definition set_prev :: "nat \<Rightarrow> nat option \<Rightarrow> sim \<Rightarrow> sim res" where
  "set_prev f x s = bindE (rd (coremap s) f) (\<lambda>c.
    Inr (s\<lparr>coremap := (coremap s)[f := c\<lparr>fprev := x\<rparr>]\<rparr>))"

section \<open>The operations\<close>

definition lru_evict :: evict_fun where
  "lru_evict s =
    bindE (deref (lru_head s)) (\<lambda>h.
    bindE (rd (coremap s) h) (\<lambda>c.
    bindE (deref (fpte c)) (\<lambda>p.
    bindE (pte_read s p) (\<lambda>e.
    let evict = unat (drop_bit PAGE_SHIFT (pt_frame e)) in
    bindE (if lru_head s \<noteq> lru_tail s then
             bindE (deref (fnext c)) (\<lambda>nx. set_prev nx None (s\<lparr>lru_head := Some nx\<rparr>))
           else Inr (s\<lparr>lru_head := None, lru_tail := None\<rparr>)) (\<lambda>s1.
    bindE (set_next evict None s1) (\<lambda>s2.
    bindE (set_prev evict None s2) (\<lambda>s3.
    Inr (int evict, s3))))))))"

text \<open>The four assignments that make frame \<open>n\<close> the new tail.\<close>

definition lru_append :: "nat \<Rightarrow> sim \<Rightarrow> sim res" where
  "lru_append n s =
    bindE (deref (lru_tail s)) (\<lambda>t.
    bindE (set_next t (Some n) s) (\<lambda>s1.
    bindE (set_prev n (lru_tail s1) s1) (\<lambda>s2.
    bindE (set_next n None s2) (\<lambda>s3.
    Inr (s3\<lparr>lru_tail := Some n\<rparr>)))))"

definition lru_unlink :: "nat \<Rightarrow> sim \<Rightarrow> sim res" where
  "lru_unlink n s =
    bindE (rd (coremap s) n) (\<lambda>c.
    bindE (deref (fnext c)) (\<lambda>nx.
    bindE (set_prev nx (fprev c) s) (\<lambda>s1.
    bindE (rd (coremap s1) n) (\<lambda>c1.
    bindE (deref (fprev c1)) (\<lambda>pv. set_next pv (fnext c1) s1)))))"

definition lru_ref :: ref_fun where
  "lru_ref p s =
    bindE (pte_read s p) (\<lambda>e.
    let frame_number = unat (drop_bit PAGE_SHIFT (pt_frame e)) in
    bindE (rd (coremap s) frame_number) (\<lambda>c.
    if fnext c = None \<and> fprev c = None then
      (if lru_head s = None then Inr (s\<lparr>lru_head := Some frame_number, lru_tail := Some frame_number\<rparr>)
       else lru_append frame_number s)
    else if lru_head s = lru_tail s then Inr s
    else if lru_head s = Some frame_number then
      bindE (deref (fnext c)) (\<lambda>nx.
      bindE (set_prev nx None (s\<lparr>lru_head := Some nx\<rparr>)) (lru_append frame_number))
    else if lru_tail s = Some frame_number then Inr s
    else bindE (lru_unlink frame_number s) (lru_append frame_number)))"

definition lru_init :: "sim \<Rightarrow> sim" where
  "lru_init s = s\<lparr>lru_head := None, lru_tail := None,
     coremap := map (\<lambda>c. c\<lparr>fnext := None, fprev := None\<rparr>) (coremap s)\<rparr>"

section \<open>Linked lists\<close>

definition nxt :: "sim \<Rightarrow> nat \<Rightarrow> nat option" where "nxt s f = fnext (coremap s ! f)"
definition prv :: "sim \<Rightarrow> nat \<Rightarrow> nat option" where "prv s f = fprev (coremap s ! f)"

fun chain :: "(nat \<Rightarrow> nat option) \<Rightarrow> (nat \<Rightarrow> nat option) \<Rightarrow> nat list \<Rightarrow> bool" where
  "chain nx pv (a # b # zs) \<longleftrightarrow> nx a = Some b \<and> pv b = Some a \<and> chain nx pv (b # zs)"
| "chain nx pv _ \<longleftrightarrow> True"

lemma chain_append:
  "chain nx pv (xs @ ys) \<longleftrightarrow> chain nx pv xs \<and> chain nx pv ys \<and>
    (xs \<noteq> [] \<and> ys \<noteq> [] \<longrightarrow> nx (last xs) = Some (hd ys) \<and> pv (hd ys) = Some (last xs))"
proof (cases ys)
  case (Cons b zs)
  show ?thesis unfolding Cons by (induction nx pv xs rule: chain.induct) auto
qed simp

lemma chain_cong:
  "(\<forall>a \<in> set (butlast xs). nx a = nx' a) \<Longrightarrow> (\<forall>a \<in> set (tl xs). pv a = pv' a) \<Longrightarrow>
    chain nx pv xs \<longleftrightarrow> chain nx' pv' xs"
  by (induction nx pv xs rule: chain.induct) (auto split: if_splits)

lemma set_tl_subset: "set (tl xs) \<subseteq> set xs"
  by (cases xs) auto

lemma chain_upd_next: "x \<notin> set (butlast xs) \<Longrightarrow> chain (nx(x := y)) pv xs \<longleftrightarrow> chain nx pv xs"
  by (rule chain_cong) auto

lemma chain_upd_prev: "x \<notin> set (tl xs) \<Longrightarrow> chain nx (pv(x := y)) xs \<longleftrightarrow> chain nx pv xs"
  by (rule chain_cong) auto

text \<open>The list from head to tail, and the frames outside it without links.\<close>

definition lru_list :: "sim \<Rightarrow> nat list \<Rightarrow> bool" where
  "lru_list s xs \<longleftrightarrow> distinct xs \<and> set xs \<subseteq> {..< memsize s} \<and> chain (nxt s) (prv s) xs \<and>
     (xs \<noteq> [] \<longrightarrow> nxt s (last xs) = None \<and> (prv s (hd xs) = None \<or> prv s (hd xs) = Some (hd xs))) \<and>
     lru_head s = (if xs = [] then None else Some (hd xs)) \<and>
     lru_tail s = (if xs = [] then None else Some (last xs))"

definition detached :: "sim \<Rightarrow> nat \<Rightarrow> bool" where
  "detached s f \<longleftrightarrow> nxt s f = None \<and> prv s f = None"

definition lru_rep :: "sim \<Rightarrow> nat list \<Rightarrow> bool" where
  "lru_rep s xs \<longleftrightarrow> lru_list s xs \<and> (\<forall>f < memsize s. f \<notin> set xs \<longrightarrow> detached s f)"

definition touch :: "'a \<Rightarrow> 'a list \<Rightarrow> 'a list" where
  "touch f xs = filter (\<lambda>g. g \<noteq> f) xs @ [f]"

definition lru_tracks :: "sim \<Rightarrow> nat set \<Rightarrow> bool" where
  "lru_tracks s F \<longleftrightarrow> (\<exists>xs. lru_rep s xs \<and> set xs = F)"

lemma set_next_run:
  assumes "f < memsize s"
  obtains s' where "set_next f x s = Inr s'" "nxt s' = (nxt s)(f := x)" "prv s' = prv s"
    "core s' = core s" "lru_head s' = lru_head s" "lru_tail s' = lru_tail s" "memsize s' = memsize s"
proof (rule that)
  let ?s' = "s\<lparr>coremap := (coremap s)[f := (coremap s ! f)\<lparr>fnext := x\<rparr>]\<rparr>"
  have f: "f < length (coremap s)" using assms by (simp add: memsize_def)
  then show "set_next f x s = Inr ?s'" by (simp add: set_next_def)
  show "nxt ?s' = (nxt s)(f := x)" "prv ?s' = prv s"
    using f by (auto simp: nxt_def prv_def fun_eq_iff nth_list_update)
  have "map (\<lambda>c. (in_use c, fpte c)) (coremap ?s') = map (\<lambda>c. (in_use c, fpte c)) (coremap s)"
    using f by (simp add: map_update) (metis (no_types, lifting) length_map list_update_id nth_map)
  then show "core ?s' = core s" by (simp add: core_def)
qed (simp_all add: memsize_def)

lemma set_prev_run:
  assumes "f < memsize s"
  obtains s' where "set_prev f x s = Inr s'" "prv s' = (prv s)(f := x)" "nxt s' = nxt s"
    "core s' = core s" "lru_head s' = lru_head s" "lru_tail s' = lru_tail s" "memsize s' = memsize s"
proof (rule that)
  let ?s' = "s\<lparr>coremap := (coremap s)[f := (coremap s ! f)\<lparr>fprev := x\<rparr>]\<rparr>"
  have f: "f < length (coremap s)" using assms by (simp add: memsize_def)
  then show "set_prev f x s = Inr ?s'" by (simp add: set_prev_def)
  show "prv ?s' = (prv s)(f := x)" "nxt ?s' = nxt s"
    using f by (auto simp: nxt_def prv_def fun_eq_iff nth_list_update)
  have "map (\<lambda>c. (in_use c, fpte c)) (coremap ?s') = map (\<lambda>c. (in_use c, fpte c)) (coremap s)"
    using f by (simp add: map_update) (metis (no_types, lifting) length_map list_update_id nth_map)
  then show "core ?s' = core s" by (simp add: core_def)
qed (simp_all add: memsize_def)

lemma lru_ptr_fields [simp]:
  "nxt (s\<lparr>lru_head := x\<rparr>) = nxt s" "prv (s\<lparr>lru_head := x\<rparr>) = prv s" "core (s\<lparr>lru_head := x\<rparr>) = core s"
  "nxt (s\<lparr>lru_tail := x\<rparr>) = nxt s" "prv (s\<lparr>lru_tail := x\<rparr>) = prv s" "core (s\<lparr>lru_tail := x\<rparr>) = core s"
  "memsize (s\<lparr>lru_head := x\<rparr>) = memsize s" "memsize (s\<lparr>lru_tail := x\<rparr>) = memsize s"
  by (auto simp: nxt_def prv_def core_def memsize_def)

text \<open>Appending a frame at the tail.\<close>

lemma lru_append_ok:
  assumes l: "lru_list s xs" "xs \<noteq> []" and n: "n \<notin> set xs" "n < memsize s"
  shows "\<exists>s'. lru_append n s = Inr s' \<and> lru_list s' (xs @ [n]) \<and> core s' = core s \<and>
    (\<forall>f. f \<notin> set xs \<longrightarrow> f \<noteq> n \<longrightarrow> detached s' f = detached s f)"
proof -
  let ?t = "last xs"
  have t: "?t \<in> set xs" "?t < memsize s" "lru_tail s = Some ?t"
    using l last_in_set [OF l(2)] unfolding lru_list_def by (blast, blast, simp)
  obtain s1 where s1: "set_next ?t (Some n) s = Inr s1" "nxt s1 = (nxt s)(?t := Some n)" "prv s1 = prv s"
    "core s1 = core s" "lru_head s1 = lru_head s" "lru_tail s1 = lru_tail s" "memsize s1 = memsize s"
    by (rule set_next_run [OF t(2)])
  obtain s2 where s2: "set_prev n (lru_tail s1) s1 = Inr s2" "prv s2 = (prv s1)(n := lru_tail s1)" "nxt s2 = nxt s1"
    "core s2 = core s1" "lru_head s2 = lru_head s1" "lru_tail s2 = lru_tail s1" "memsize s2 = memsize s1"
    by (rule set_prev_run [of n s1]) (use n s1 in auto)
  obtain s3 where s3: "set_next n None s2 = Inr s3" "nxt s3 = (nxt s2)(n := None)" "prv s3 = prv s2"
    "core s3 = core s2" "lru_head s3 = lru_head s2" "lru_tail s3 = lru_tail s2" "memsize s3 = memsize s2"
    by (rule set_next_run [of n s2]) (use n s1 s2 in auto)
  let ?s' = "s3\<lparr>lru_tail := Some n\<rparr>"
  have nx: "nxt ?s' = (nxt s)(?t := Some n, n := None)" and pv: "prv ?s' = (prv s)(n := Some ?t)"
    using s1 s2 s3 t by simp_all
  have tb: "?t \<notin> set (butlast xs)" using l
    by (metis append_butlast_last_id distinct_append disjoint_iff list.set_intros(1) lru_list_def)
  have nb: "n \<notin> set (butlast xs)" "n \<notin> set (tl xs)" using n set_tl_subset [of xs] by (auto dest: in_set_butlastD)
  have nt: "n \<noteq> ?t" "n \<noteq> hd xs" using n t l(2) by auto
  have "lru_append n s = Inr ?s'" using s1 s2 s3 t by (simp add: lru_append_def)
  moreover have "chain (nxt ?s') (prv ?s') (xs @ [n])"
    unfolding nx pv chain_append using l tb nb nt
    by (simp add: chain_upd_next chain_upd_prev lru_list_def)
  then have "lru_list ?s' (xs @ [n])"
    using l n nt s1(5,7) s2(5,7) s3(5,7) unfolding lru_list_def nx pv by (auto simp: hd_append)
  moreover have "detached ?s' f = detached s f" if "f \<notin> set xs" "f \<noteq> n" for f
    using that t(1) unfolding detached_def nx pv by auto
  moreover have "core ?s' = core s" using s1 s2 s3 by simp
  ultimately show ?thesis by blast
qed

text \<open>Dropping the head, and unlinking a frame from the middle.\<close>

lemma drop_head_ok:
  assumes l: "lru_list s (n # m # xs)"
  shows "\<exists>s'. set_prev m None (s\<lparr>lru_head := Some m\<rparr>) = Inr s' \<and> lru_list s' (m # xs) \<and>
    core s' = core s \<and> nxt s' = nxt s \<and> prv s' = (prv s)(m := None) \<and> memsize s' = memsize s"
proof -
  let ?s0 = "s\<lparr>lru_head := Some m\<rparr>"
  have m: "m < memsize ?s0" using l by (simp add: lru_list_def)
  obtain s1 where s1: "set_prev m None ?s0 = Inr s1" "prv s1 = (prv ?s0)(m := None)" "nxt s1 = nxt ?s0"
    "core s1 = core ?s0" "lru_head s1 = lru_head ?s0" "lru_tail s1 = lru_tail ?s0" "memsize s1 = memsize ?s0"
    by (rule set_prev_run [OF m])
  have d: "m \<notin> set (tl (m # xs))" using l by (simp add: lru_list_def)
  have "lru_list s1 (m # xs)" using l s1 chain_upd_prev [OF d] by (simp add: lru_list_def)
  then show ?thesis using s1 by simp
qed

lemma lru_unlink_ok:
  assumes l: "lru_list s (ys @ n # zs)" "ys \<noteq> []" "zs \<noteq> []"
  shows "\<exists>s'. lru_unlink n s = Inr s' \<and> lru_list s' (ys @ zs) \<and> core s' = core s \<and>
    memsize s' = memsize s \<and>
    (\<forall>f. f \<notin> set (ys @ n # zs) \<longrightarrow> detached s' f = detached s f)"
proof -
  let ?a = "last ys" and ?b = "hd zs"
  have len: "n < memsize s" "?b < memsize s" "?a < memsize s"
  proof -
    have le: "x < memsize s" if "x \<in> set (ys @ n # zs)" for x
      using l(1) that subsetD [of "set (ys @ n # zs)" "{..< memsize s}" x] unfolding lru_list_def lessThan_iff by metis
    show "n < memsize s" "?b < memsize s" "?a < memsize s" by (rule le, simp add: l)+
  qed
  have ch: "nxt s n = Some ?b" "prv s n = Some ?a" "nxt s ?a = Some n"
    using l by (simp_all add: lru_list_def chain_append split: list.splits) (cases zs; simp)+
  have ne: "n \<noteq> ?b" "n \<noteq> ?a"
    using l last_in_set [OF l(2)] hd_in_set [OF l(3)] unfolding lru_list_def by auto
  obtain s1 where s1: "set_prev ?b (Some ?a) s = Inr s1" "prv s1 = (prv s)(?b := Some ?a)" "nxt s1 = nxt s"
    "core s1 = core s" "lru_head s1 = lru_head s" "lru_tail s1 = lru_tail s" "memsize s1 = memsize s"
    by (rule set_prev_run [OF len(2)])
  obtain s2 where s2: "set_next ?a (Some ?b) s1 = Inr s2" "nxt s2 = (nxt s1)(?a := Some ?b)" "prv s2 = prv s1"
    "core s2 = core s1" "lru_head s2 = lru_head s1" "lru_tail s2 = lru_tail s1" "memsize s2 = memsize s1"
    by (rule set_next_run [of ?a s1]) (use len s1 in auto)
  have c: "fnext (coremap s ! n) = Some ?b" "fprev (coremap s ! n) = Some ?a"
    "fnext (coremap s1 ! n) = Some ?b" "fprev (coremap s1 ! n) = Some ?a"
    using ch s1(2,3) ne by (auto simp: nxt_def prv_def fun_eq_iff)
  have run: "lru_unlink n s = Inr s2"
    using s1 s2(1) len c by (simp add: lru_unlink_def memsize_def [symmetric])
  have d: "distinct (ys @ n # zs)" using l by (simp add: lru_list_def)
  have ab: "?a \<in> set ys" "?b \<in> set zs" using l by simp_all
  have nb: "?a \<notin> set (butlast ys)" "?a \<notin> set (butlast zs)" "?b \<notin> set (tl ys)" "?b \<notin> set (tl zs)"
  proof -
    show "?a \<notin> set (butlast ys)" using d l(2)
      by (metis append_butlast_last_id distinct_append disjoint_iff list.set_intros(1))
    show "?a \<notin> set (butlast zs)" using d ab by (auto dest: in_set_butlastD)
    show "?b \<notin> set (tl ys)" using d ab set_tl_subset [of ys] by auto
    show "?b \<notin> set (tl zs)" using d l(3) by (cases zs) auto
  qed
  have "chain (nxt s2) (prv s2) (ys @ zs)"
    using l(1) nb l(2,3) unfolding s1(2,3) s2(2,3) lru_list_def
    by (simp add: chain_append chain_upd_next chain_upd_prev) (cases zs; simp)
  moreover have "set ys \<inter> set zs = {}" using d by auto
  then have "hd ys \<noteq> ?b" "last zs \<noteq> ?a"
    using ab hd_in_set [OF l(2)] last_in_set [OF l(3)] by (metis disjoint_iff)+
  ultimately have "lru_list s2 (ys @ zs)"
    using l s1(5-7) s2(5-7) unfolding lru_list_def s1(2,3) s2(2,3) by (auto simp: hd_append last_append)
  moreover have "detached s2 f = detached s f" if "f \<notin> set (ys @ n # zs)" for f
    using that ab unfolding detached_def s1(2,3) s2(2,3) by auto
  ultimately show ?thesis using run s1(4,7) s2(4,7) by auto
qed

text \<open>A reference moves its frame to the end of the list.\<close>

lemma filter_other: "n \<notin> set ys \<Longrightarrow> filter (\<lambda>g. g \<noteq> n) ys = ys"
  by (auto simp: filter_id_conv)

lemma touch_split: "n \<notin> set ys \<Longrightarrow> n \<notin> set zs \<Longrightarrow> touch n (ys @ n # zs) = ys @ zs @ [n]"
  by (simp add: touch_def filter_other)

lemma touch_new: "n \<notin> set xs \<Longrightarrow> touch n xs = xs @ [n]"
  by (simp add: touch_def filter_other)

lemma lru_repI:
  assumes "lru_list s' ys" and "set xs \<subseteq> set ys" and "lru_rep s xs" and "memsize s' = memsize s"
    and "\<forall>f. f \<notin> set ys \<longrightarrow> detached s' f = detached s f"
  shows "lru_rep s' ys"
  using assms unfolding lru_rep_def by auto

lemma append_new_ok:
  assumes rep: "lru_rep s xs" and n: "n \<notin> set xs" "n < memsize s" and xs: "xs \<noteq> []"
  shows "\<exists>s'. lru_append n s = Inr s' \<and> core s' = core s \<and> lru_rep s' (touch n xs)"
proof -
  obtain s' where s': "lru_append n s = Inr s'" "lru_list s' (xs @ [n])" "core s' = core s"
    "\<forall>f. f \<notin> set xs \<longrightarrow> f \<noteq> n \<longrightarrow> detached s' f = detached s f"
    using lru_append_ok [OF _ xs n] rep unfolding lru_rep_def by blast
  have "lru_rep s' (xs @ [n])"
    by (rule lru_repI [OF s'(2) _ rep core_memsize [OF s'(3)]]) (use s'(4) in auto)
  then show ?thesis using s' by (simp add: touch_new [OF n(1)])
qed

text \<open>The only frame of the list is appended to itself: its back pointer becomes a loop.\<close>

lemma append_self_ok:
  assumes rep: "lru_rep s [n]"
  shows "\<exists>s'. lru_append n s = Inr s' \<and> core s' = core s \<and> lru_rep s' [n]"
proof -
  have n: "n < memsize s" "lru_tail s = Some n" "lru_head s = Some n"
    using rep by (simp_all add: lru_rep_def lru_list_def)
  obtain s1 where s1: "set_next n (Some n) s = Inr s1" "nxt s1 = (nxt s)(n := Some n)" "prv s1 = prv s"
    "core s1 = core s" "lru_head s1 = lru_head s" "lru_tail s1 = lru_tail s" "memsize s1 = memsize s"
    by (rule set_next_run [OF n(1)])
  obtain s2 where s2: "set_prev n (lru_tail s1) s1 = Inr s2" "prv s2 = (prv s1)(n := lru_tail s1)" "nxt s2 = nxt s1"
    "core s2 = core s1" "lru_head s2 = lru_head s1" "lru_tail s2 = lru_tail s1" "memsize s2 = memsize s1"
    by (rule set_prev_run [of n s1]) (use n s1 in auto)
  obtain s3 where s3: "set_next n None s2 = Inr s3" "nxt s3 = (nxt s2)(n := None)" "prv s3 = prv s2"
    "core s3 = core s2" "lru_head s3 = lru_head s2" "lru_tail s3 = lru_tail s2" "memsize s3 = memsize s2"
    by (rule set_next_run [of n s2]) (use n s1 s2 in auto)
  let ?s' = "s3\<lparr>lru_tail := Some n\<rparr>"
  have "lru_append n s = Inr ?s'" using n s1 s2 s3 by (simp add: lru_append_def)
  moreover have "lru_rep ?s' [n]"
    using rep n s1(5,7) s2(5,7) s3(5,7)
    unfolding lru_rep_def lru_list_def detached_def
    by (simp add: s1(2,3,6) s2(2,3) s3(2,3))
  moreover have "core ?s' = core s" using s1 s2 s3 by simp
  ultimately show ?thesis by blast
qed

lemma lru_ref_ok:
  assumes rep: "lru_rep s xs" and e: "pgtbls s p = Some e" and n: "pte_frame_no e = n" "n < memsize s"
  shows "\<exists>s'. lru_ref p s = Inr s' \<and> core s' = core s \<and> lru_rep s' (touch n xs)"
proof -
  have l: "lru_list s xs" using rep by (simp add: lru_rep_def)
  define c where "c = coremap s ! n"
  have run: "lru_ref p s =
    (if fnext c = None \<and> fprev c = None then
      (if lru_head s = None then Inr (s\<lparr>lru_head := Some n, lru_tail := Some n\<rparr>) else lru_append n s)
    else if lru_head s = lru_tail s then Inr s
    else if lru_head s = Some n then
      bindE (deref (fnext c)) (\<lambda>nx. bindE (set_prev nx None (s\<lparr>lru_head := Some nx\<rparr>)) (lru_append n))
    else if lru_tail s = Some n then Inr s
    else bindE (lru_unlink n s) (lru_append n))"
    using e n by (simp add: lru_ref_def pte_read_def pte_frame_no_def Let_def c_def memsize_def)
  have cc: "fnext c = nxt s n" "fprev c = prv s n" by (simp_all add: nxt_def prv_def c_def)
  show ?thesis
  proof (cases "n \<in> set xs")
    case False
    then have dt: "detached s n" using rep n by (simp add: lru_rep_def)
    show ?thesis
    proof (cases "xs = []")
      case True
      then have "lru_ref p s = Inr (s\<lparr>lru_head := Some n, lru_tail := Some n\<rparr>)"
        using l dt by (simp add: run cc detached_def lru_list_def)
      moreover have "lru_rep (s\<lparr>lru_head := Some n, lru_tail := Some n\<rparr>) [n]"
        using rep True n dt by (simp add: lru_rep_def lru_list_def detached_def)
      ultimately show ?thesis using True by (simp add: touch_def)
    next
      case xs: False
      then have "lru_ref p s = lru_append n s" using l dt by (simp add: run cc detached_def lru_list_def)
      then show ?thesis using append_new_ok [OF rep False n(2) xs] by simp
    qed
  next
    case True
    then obtain ys zs where split: "xs = ys @ n # zs" by (auto dest: split_list)
    have d: "n \<notin> set ys" "n \<notin> set zs" "distinct (ys @ zs)" "set ys \<inter> set zs = {}"
      using l split by (auto simp: lru_list_def)
    note tc = touch_split [OF d(1,2)]
    consider (single) "ys = []" "zs = []" | (first) m ws where "ys = []" "zs = m # ws"
      | (final) "ys \<noteq> []" "zs = []" | (mid) "ys \<noteq> []" "zs \<noteq> []"
      by (cases ys; cases zs) auto
    then show ?thesis
    proof cases
      case single
      then have rep1: "lru_rep s [n]" and tc1: "touch n xs = [n]" using rep split by (simp_all add: touch_def)
      have "lru_ref p s = Inr s \<or> lru_ref p s = lru_append n s"
        using rep1 by (simp add: run cc lru_rep_def lru_list_def)
      then show ?thesis using append_self_ok [OF rep1] rep1 tc1 by auto
    next
      case (first m ws)
      have l1: "lru_list s (n # m # ws)" using l split first by simp
      obtain s1 where s1: "set_prev m None (s\<lparr>lru_head := Some m\<rparr>) = Inr s1" "lru_list s1 (m # ws)"
        "core s1 = core s" "nxt s1 = nxt s" "prv s1 = (prv s)(m := None)" "memsize s1 = memsize s"
        using drop_head_ok [OF l1] by blast
      have nm: "n \<notin> set (m # ws)" "n < memsize s1" using l1 s1(6) by (auto simp: lru_list_def)
      obtain s2 where s2: "lru_append n s1 = Inr s2" "lru_list s2 ((m # ws) @ [n])" "core s2 = core s1"
        "\<forall>f. f \<notin> set (m # ws) \<longrightarrow> f \<noteq> n \<longrightarrow> detached s2 f = detached s1 f"
        using lru_append_ok [OF s1(2) _ _ nm(2)] nm(1) by blast
      have "nxt s n = Some m" "n \<noteq> last (m # ws)" "lru_head s = Some n"
        "lru_tail s = Some (last (m # ws))"
        using l1 last_in_set [of "m # ws"] last_ConsR [of "m # ws" n]
        by (auto simp: lru_list_def simp del: last.simps)
      then have "lru_ref p s = Inr s2" using s1(1) s2(1) by (simp add: run cc)
      moreover have "lru_rep s2 ((m # ws) @ [n])"
      proof (rule lru_repI [OF s2(2) _ rep])
        show "set xs \<subseteq> set ((m # ws) @ [n])" using split first by auto
        show "memsize s2 = memsize s" using core_memsize [OF s2(3)] s1(6) by simp
        show "\<forall>f. f \<notin> set ((m # ws) @ [n]) \<longrightarrow> detached s2 f = detached s f"
          using s2(4) s1(4,5) by (auto simp: detached_def)
      qed
      moreover have "touch n xs = (m # ws) @ [n]" using tc split first by simp
      ultimately show ?thesis using s1(3) s2(3) by auto
    next
      case final
      have l1: "lru_list s (ys @ [n])" using l split final by simp
      have "hd ys \<noteq> n" using d(1) hd_in_set [OF final(1)] by auto
      then have "lru_head s \<noteq> lru_tail s" "lru_head s \<noteq> Some n" "lru_tail s = Some n" "prv s n \<noteq> None"
        using l1 final by (auto simp: lru_list_def chain_append)
      then have "lru_ref p s = Inr s" by (auto simp: run cc)
      moreover have "touch n xs = xs" using tc split final by simp
      ultimately show ?thesis using rep by auto
    next
      case mid
      have l1: "lru_list s (ys @ n # zs)" using l split by simp
      have "hd ys \<noteq> n" "last zs \<noteq> n" "hd ys \<noteq> last zs"
        using d hd_in_set [OF mid(1)] last_in_set [OF mid(2)] by (auto simp: disjoint_iff)
      then have "lru_head s \<noteq> lru_tail s" "lru_head s \<noteq> Some n" "lru_tail s \<noteq> Some n" "prv s n \<noteq> None"
        using l1 mid by (auto simp: lru_list_def chain_append)
      then have go: "lru_ref p s = bindE (lru_unlink n s) (lru_append n)" by (auto simp: run cc)
      obtain s1 where s1: "lru_unlink n s = Inr s1" "lru_list s1 (ys @ zs)" "core s1 = core s"
        "memsize s1 = memsize s" "\<forall>f. f \<notin> set (ys @ n # zs) \<longrightarrow> detached s1 f = detached s f"
        using lru_unlink_ok [OF l1 mid] by blast
      obtain s2 where s2: "lru_append n s1 = Inr s2" "lru_list s2 ((ys @ zs) @ [n])" "core s2 = core s1"
        "\<forall>f. f \<notin> set (ys @ zs) \<longrightarrow> f \<noteq> n \<longrightarrow> detached s2 f = detached s1 f"
        using lru_append_ok [OF s1(2), of n] mid d s1(4) n(2) by auto
      have "lru_rep s2 ((ys @ zs) @ [n])"
      proof (rule lru_repI [OF s2(2) _ rep])
        show "set xs \<subseteq> set ((ys @ zs) @ [n])" using split by auto
        show "memsize s2 = memsize s" using core_memsize [OF s2(3)] s1(4) by simp
        show "\<forall>f. f \<notin> set ((ys @ zs) @ [n]) \<longrightarrow> detached s2 f = detached s f"
          using s2(4) s1(5) by auto
      qed
      then show ?thesis using go s1 s2 tc split by auto
    qed
  qed
qed

text \<open>An eviction takes the first frame.\<close>

lemma lru_evict_ok:
  assumes rep: "lru_rep s (h # xs)" and h: "holds s h p" and m: "maps s p h"
  shows "\<exists>s'. lru_evict s = Inr (int h, s') \<and> core s' = core s \<and> lru_rep s' xs"
proof -
  have l: "lru_list s (h # xs)" using rep by (simp add: lru_rep_def)
  obtain e where e: "pgtbls s p = Some e" "unat (drop_bit PAGE_SHIFT (pt_frame e)) = h"
    using m by (auto simp: maps_def pte_frame_no_def)
  have hm: "h < memsize s" "lru_head s = Some h" using l by (simp_all add: lru_list_def)
  define c where "c = coremap s ! h"
  have cc: "fnext c = nxt s h" by (simp add: nxt_def c_def)
  have ei: "uint (drop_bit PAGE_SHIFT (pt_frame e)) = int h" using e(2) by (metis of_nat_unat)
  have run: "lru_evict s =
    bindE (if lru_head s \<noteq> lru_tail s then
             bindE (deref (fnext c)) (\<lambda>nx. set_prev nx None (s\<lparr>lru_head := Some nx\<rparr>))
           else Inr (s\<lparr>lru_head := None, lru_tail := None\<rparr>)) (\<lambda>s1.
    bindE (set_next h None s1) (\<lambda>s2. bindE (set_prev h None s2) (\<lambda>s3. Inr (int h, s3))))"
    using h hm e ei by (simp add: lru_evict_def pte_read_def Let_def c_def holds_def memsize_def)
  have "\<exists>s1. (if lru_head s \<noteq> lru_tail s then
             bindE (deref (fnext c)) (\<lambda>nx. set_prev nx None (s\<lparr>lru_head := Some nx\<rparr>))
           else Inr (s\<lparr>lru_head := None, lru_tail := None\<rparr>)) = Inr s1 \<and>
      lru_list s1 xs \<and> core s1 = core s \<and> nxt s1 = nxt s \<and> memsize s1 = memsize s \<and>
      (\<forall>f. f \<notin> set xs \<longrightarrow> prv s1 f = prv s f)"
  proof (cases xs)
    case Nil
    then show ?thesis using l by (auto simp: lru_list_def)
  next
    case (Cons a ws)
    have "h \<noteq> last (a # ws)" using l Cons last_in_set [of "a # ws"] by (auto simp: lru_list_def simp del: last.simps)
    then have "lru_head s \<noteq> lru_tail s" "fnext c = Some a" using l Cons cc by (auto simp: lru_list_def)
    then show ?thesis using drop_head_ok [of s h a ws] l Cons by auto
  qed
  then obtain s1 where s1: "(if lru_head s \<noteq> lru_tail s then
             bindE (deref (fnext c)) (\<lambda>nx. set_prev nx None (s\<lparr>lru_head := Some nx\<rparr>))
           else Inr (s\<lparr>lru_head := None, lru_tail := None\<rparr>)) = Inr s1"
      "lru_list s1 xs" "core s1 = core s" "nxt s1 = nxt s" "memsize s1 = memsize s"
      "\<forall>f. f \<notin> set xs \<longrightarrow> prv s1 f = prv s f" by blast
  obtain s2 where s2: "set_next h None s1 = Inr s2" "nxt s2 = (nxt s1)(h := None)" "prv s2 = prv s1"
    "core s2 = core s1" "lru_head s2 = lru_head s1" "lru_tail s2 = lru_tail s1" "memsize s2 = memsize s1"
    by (rule set_next_run [of h s1]) (use hm s1 in auto)
  obtain s3 where s3: "set_prev h None s2 = Inr s3" "prv s3 = (prv s2)(h := None)" "nxt s3 = nxt s2"
    "core s3 = core s2" "lru_head s3 = lru_head s2" "lru_tail s3 = lru_tail s2" "memsize s3 = memsize s2"
    by (rule set_prev_run [of h s2]) (use hm s1 s2 in auto)
  have hx: "h \<notin> set xs" using l by (simp add: lru_list_def)
  have nx: "nxt s3 = (nxt s1)(h := None)" and pv: "prv s3 = (prv s1)(h := None)" using s2 s3 by simp_all
  have "chain (nxt s3) (prv s3) xs"
    unfolding nx pv using s1(2) hx set_tl_subset [of xs]
    by (subst chain_upd_next, blast dest: in_set_butlastD, subst chain_upd_prev)
      (auto simp: lru_list_def)
  then have "lru_list s3 xs"
    using s1(2) hx s2(5-7) s3(5-7) hd_in_set [of xs] last_in_set [of xs] unfolding lru_list_def nx pv by auto
  moreover have "detached s3 f" if "f < memsize s" "f \<notin> set xs" for f
    using rep that s1(4,6) unfolding lru_rep_def detached_def nx pv by (cases "f = h") auto
  ultimately have "lru_rep s3 xs" using s1(5) s2(7) s3(7) by (simp add: lru_rep_def)
  then show ?thesis using run s1(1,3) s2(1,4) s3(1,4) by simp
qed

text \<open>The list is read from the links, \<open>head\<close> and \<open>tail\<close> alone.\<close>

lemma lru_rep_view:
  assumes pv: "pol_view s = pol_view t" and xs: "lru_rep s xs"
  shows "lru_rep t xs"
proof -
  have m: "map (\<lambda>c. (fnext c, fprev c)) (coremap s) = map (\<lambda>c. (fnext c, fprev c)) (coremap t)"
    and hd: "lru_head t = lru_head s" "lru_tail t = lru_tail s"
    using pv by (simp_all add: pol_view_def)
  have ms: "memsize t = memsize s" by (rule pol_view_memsize [OF pv, symmetric])
  have lk: "nxt t f = nxt s f \<and> prv t f = prv s f" if "f < memsize s" for f
    using arg_cong [OF m, of "\<lambda>l. l ! f"] that ms by (simp add: memsize_def nxt_def prv_def)
  have sub: "x < memsize s" if "x \<in> set xs" for x using xs that by (auto simp: lru_rep_def lru_list_def)
  have "chain (nxt t) (prv t) xs = chain (nxt s) (prv s) xs"
    using sub lk set_tl_subset [of xs] by (intro chain_cong) (auto dest!: in_set_butlastD)
  moreover have "xs \<noteq> [] \<longrightarrow> nxt t (last xs) = nxt s (last xs) \<and> prv t (hd xs) = prv s (hd xs)"
    using lk sub hd_in_set [of xs] last_in_set [of xs] by blast
  ultimately have "lru_list t xs" using xs hd ms unfolding lru_rep_def lru_list_def by simp
  then show ?thesis using xs lk ms by (simp add: lru_rep_def detached_def)
qed

interpretation lru: replacement lru_ref lru_evict lru_tracks
proof unfold_locales
  fix s assume inv: "vm_inv s" and tr: "lru_tracks s {..< memsize s}"
    and full: "used_frames s = {..< memsize s}"
  obtain ys where ys: "lru_rep s ys" "set ys = {..< memsize s}"
    using tr unfolding lru_tracks_def by blast
  have "0 \<in> set ys" using memsize_pos [OF inv] unfolding ys(2) by simp
  then have "ys \<noteq> []" by auto
  then obtain h xs where hx: "ys = h # xs" by (cases ys) auto
  have h: "h < memsize s" using ys(2) hx by (metis lessThan_iff list.set_intros(1))
  obtain p where p: "holds s h p" using inv full h unfolding vm_inv_def frames_ok_def by blast
  then have m: "maps s p h" using inv unfolding vm_inv_def by blast
  obtain s' where s': "lru_evict s = Inr (int h, s')" "core s' = core s" "lru_rep s' xs"
    using lru_evict_ok [OF _ p m] ys hx by blast
  have "h \<notin> set xs" using ys(1) hx by (simp add: lru_rep_def lru_list_def)
  then have "set xs = {..< memsize s} - {h}" unfolding ys(2) [symmetric] hx by auto
  then show "\<exists>f s'. lru_evict s = Inr (int f, s') \<and> f < memsize s \<and> core s' = core s \<and>
        lru_tracks s' ({..< memsize s} - {f})" using s' h unfolding lru_tracks_def by blast
next
  fix s p f F assume inv: "vm_inv s" and m: "maps s p f" and tr: "lru_tracks s F"
  obtain xs where xs: "lru_rep s xs" "set xs = F" using tr by (auto simp: lru_tracks_def)
  obtain e where e: "pgtbls s p = Some e" "pte_frame_no e = f" using m by (auto simp: maps_def)
  have "f < memsize s" using inv m by (auto simp: vm_inv_def holds_def)
  then obtain s' where "lru_ref p s = Inr s'" "core s' = core s" "lru_rep s' (touch f xs)"
    using lru_ref_ok [OF xs(1) e] by blast
  moreover have "set (touch f xs) = insert f F" using xs by (auto simp: touch_def)
  ultimately show "\<exists>s'. lru_ref p s = Inr s' \<and> core s' = core s \<and> lru_tracks s' (insert f F)"
    unfolding lru_tracks_def by blast
next
  fix s t F assume "pol_view s = pol_view t" and "lru_tracks s F"
  then show "lru_tracks t F" using lru_rep_view unfolding lru_tracks_def by blast
qed

end
