(* ===== verification/Mem_Sim.thy ===== *)
theory Mem_Sim
  imports Mem_Lru
begin

text \<open>
  \<open>access_mem\<close> of sim.c, and what a reference does to the simulated memory as
  the program sees it: \<open>mem_view\<close> gives for a page-aligned address the frame its
  page is in and the version counter stored there.  A reference places the page
  in a frame; the page that had the frame, if any, is no longer in memory.
\<close>

definition access_mem :: "os_env \<Rightarrow> ref_fun \<Rightarrow> evict_fun \<Rightarrow> char \<Rightarrow> u64 \<Rightarrow> sim \<Rightarrow> sim res" where
  "access_mem E ref_fcn evict_fcn ty vaddr s =
    bindE (find_physpage E ref_fcn evict_fcn vaddr ty s) (\<lambda>(memptr, s1).
    let versionptr = memptr; checkaddr = memptr + 4 in
    bindE (guardE Out_Of_Bounds (checkaddr + 8 \<le> length (physmem s1))) (\<lambda>_.
    let s2 = (if load_le (region checkaddr 8 (physmem s1)) \<noteq> vaddr
              then s1\<lparr>check_errors := Suc (check_errors s1)\<rparr> else s1) in
    Inr (if is_write ty
         then s2\<lparr>physmem := blit versionptr
                (store_le 4 (load_le (region versionptr 4 (physmem s2)) + 1 :: u32)) (physmem s2)\<rparr>
         else s2)))"

section \<open>The memory as the program sees it\<close>

definition page_addr :: "u64 \<Rightarrow> bool" where
  "page_addr x \<longleftrightarrow> x AND 0xFFF = 0 \<and> unat x < 2 ^ 36"

definition version :: "sim \<Rightarrow> nat \<Rightarrow> u32" where
  "version s f = load_le (region 0 4 (frame_page s f))"

definition mem_view :: "sim \<Rightarrow> u64 \<Rightarrow> (nat \<times> u32) option" where
  "mem_view s x = (if page_addr x then map_option (\<lambda>f. (f, version s f)) (translate s x) else None)"

definition place :: "u64 \<Rightarrow> nat \<Rightarrow> u32 \<Rightarrow> (u64 \<Rightarrow> (nat \<times> u32) option) \<Rightarrow> u64 \<Rightarrow> (nat \<times> u32) option" where
  "place x f k M = (\<lambda>y. if y = x then Some (f, k)
     else case M y of None \<Rightarrow> None | Some (g, j) \<Rightarrow> if g = f then None else Some (g, j))"

text \<open>Each page in memory carries its own address, as \<open>init_frame\<close> put it there.\<close>

definition content_inv :: "sim \<Rightarrow> bool" where
  "content_inv s \<longleftrightarrow> (\<forall>x f. page_addr x \<longrightarrow> translate s x = Some f \<longrightarrow>
     region 4 8 (frame_page s f) = store_le 8 x)"

lemma translate_iff: "translate s x = Some g \<longleftrightarrow> (\<exists>q. walk s x = Some q \<and> maps s q g)"
  by (auto simp: translate_def maps_def split: option.splits)

lemma translate_None: "translate s x = None \<longleftrightarrow> (\<forall>q g. walk s x = Some q \<longrightarrow> \<not> maps s q g)"
  using translate_iff [of s x] by (metis not_None_eq)

lemma bit_large: "unat (w :: u64) < 2 ^ k \<Longrightarrow> k \<le> n \<Longrightarrow> \<not> bit w n"
proof -
  assume a: "unat w < 2 ^ k" "k \<le> n"
  have "(2 :: nat) ^ k \<le> 2 ^ n" using a(2) by (rule power_increasing) simp
  then have "unat w < 2 ^ n" using a(1) by linarith
  then have "\<not> bit (unat w) n" by (simp add: bit_iff_odd)
  then show ?thesis by (simp add: bit_unsigned_iff)
qed

lemma page_addr_indices:
  assumes "page_addr x" "page_addr y" "PGDIR_INDEX x = PGDIR_INDEX y" "PGTBL_INDEX x = PGTBL_INDEX y"
  shows "x = y"
proof (rule bit_word_eqI)
  fix n assume n: "n < LENGTH(64)"
  have low: "\<not> bit z n" if "page_addr z" "n < 12" for z
  proof -
    have e: "z AND mask 12 = 0" using that by (simp add: page_addr_def fff_mask)
    have "\<not> bit (z AND mask 12) n" unfolding e by simp
    then show ?thesis using that n by (simp add: bit_and_iff bit_mask_iff)
  qed
  have mid: "bit x n \<longleftrightarrow> bit y n" if "12 \<le> n" "n < 24"
  proof -
    have "n - 12 < 12" using that by linarith
    then show ?thesis using arg_cong [OF assms(4), of "\<lambda>w. bit w (n - 12)"] that n
      by (simp add: PGTBL_INDEX_def PGTBL_MASK_def fff_mask bit_simps PAGE_SHIFT_def)
  qed
  have high: "bit x n \<longleftrightarrow> bit y n" if "24 \<le> n" "n < 36"
  proof -
    have "n - 24 < 32" using that by linarith
    then show ?thesis using arg_cong [OF assms(3), of "\<lambda>w. bit w (n - 24)"] that n
      by (simp add: PGDIR_INDEX_def bit_simps PGDIR_SHIFT_def)
  qed
  have top: "\<not> bit z n" if "page_addr z" "36 \<le> n" for z
    using bit_large [of z 36 n] that by (simp add: page_addr_def)
  consider "n < 12" | "12 \<le> n" "n < 24" | "24 \<le> n" "n < 36" | "36 \<le> n" by linarith
  then show "bit x n \<longleftrightarrow> bit y n" using low mid high top assms(1,2) by cases blast+
qed

lemma walk_inj:
  assumes dir: "dir_inv s" and a: "page_addr x" "page_addr y"
    and w: "walk s x = Some q" "walk s y = Some q"
  shows "x = y"
proof -
  let ?i = "unat (PGDIR_INDEX x)" and ?j = "unat (PGDIR_INDEX y)"
  have b: "?i < PTRS_PER_PGDIR" "?j < PTRS_PER_PGDIR"
    using PGDIR_INDEX_bound a by (auto simp: page_addr_def)
  have "pgdir s ! ?i AND 1 \<noteq> 0" "pgdir s ! ?j AND 1 \<noteq> 0"
    and eq: "pgdir s ! ?i AND PAGE_MASK = pgdir s ! ?j AND PAGE_MASK"
    and tb: "unat (PGTBL_INDEX x) = unat (PGTBL_INDEX y)"
    using w by (auto simp: walk_def Let_def split: if_splits)
  then have "?i = ?j" using dir b unfolding dir_inv_def by blast
  then show ?thesis using page_addr_indices [OF a] tb by (metis word_unat_eq_iff)
qed

section \<open>The effect of a reference on what the program sees\<close>

lemma region_fresh: "region 4 8 (fresh_page x) = store_le 8 x" "region 0 4 (fresh_page x) = replicate 4 0"
  by (simp_all add: region_def fresh_page_def)

lemma load_le_zeros: "load_le (replicate n 0) = 0"
  by (induction n) auto

lemma version_fresh: "frame_page s f = fresh_page x \<Longrightarrow> version s f = 0"
  by (simp add: version_def region_fresh load_le_zeros)

lemma map_view_cong:
  assumes "\<And>g. translate s' x = Some g \<longleftrightarrow> translate s x = Some g \<and> g \<noteq> f"
    and "\<And>g. translate s x = Some g \<Longrightarrow> g \<noteq> f \<Longrightarrow> frame_page s' g = frame_page s g"
  shows "mem_view s' x = (case mem_view s x of None \<Rightarrow> None
    | Some (g, j) \<Rightarrow> if g = f then None else Some (g, j))"
proof (cases "translate s x")
  case None
  then have "translate s' x = None" using assms(1) by (metis not_None_eq)
  then show ?thesis using None by (simp add: mem_view_def)
next
  case (Some g)
  show ?thesis
  proof (cases "g = f")
    case True
    then have "translate s' x = None" using assms(1) Some by (metis not_None_eq option.inject)
    then show ?thesis using True Some by (simp add: mem_view_def)
  next
    case False
    then have "translate s' x = Some g" "frame_page s' g = frame_page s g" using assms Some by auto
    then show ?thesis using False Some by (simp add: mem_view_def version_def)
  qed
qed

lemma maps_bound: "vm_inv s \<Longrightarrow> maps s q g \<Longrightarrow> g < memsize s"
  by (auto simp: vm_inv_def holds_def)

lemma translate_grows:
  assumes g: "walk_grows s s'" and x: "unat x < 2 ^ 36"
    and m: "\<And>q. walk s x = Some q \<or> walk s' x = Some q \<Longrightarrow> maps s' q h \<longleftrightarrow> maps s q h \<and> P"
  shows "translate s' x = Some h \<longleftrightarrow> translate s x = Some h \<and> P"
  using g x m unfolding translate_iff walk_grows_def by metis

text \<open>A hit leaves the view as it was.\<close>

lemma hit_view:
  assumes g: "walk_grows s s'" and w: "walk s' x = Some p" and a: "page_addr x"
    and h: "hit_result s p f s'" and c: "content_inv s"
  shows "mem_view s' = mem_view s" and "translate s x = Some f" and "content_inv s'"
proof -
  have t: "translate s' y = translate s y" if "page_addr y" for y
  proof -
    have "translate s' y = Some k \<longleftrightarrow> translate s y = Some k \<and> True" for k
      by (rule translate_grows [OF g]) (use that h in \<open>auto simp: page_addr_def hit_result_def\<close>)
    then show ?thesis by (cases "translate s y"; cases "translate s' y") auto
  qed
  have fp: "frame_page s' k = frame_page s k" for k using h by (simp add: frame_page_def hit_result_def)
  show "mem_view s' = mem_view s" by (simp add: fun_eq_iff mem_view_def t version_def fp)
  show "content_inv s'" using c by (simp add: content_inv_def t fp)
  have m: "maps s p f" using h by (simp add: hit_result_def)
  have "walk s x = Some p" using g w m a unfolding walk_grows_def page_addr_def by blast
  then show "translate s x = Some f" using m translate_iff by blast
qed

text \<open>A miss places the page in the frame, with version 0.\<close>

lemma miss_view:
  assumes g: "walk_grows s s'" and w: "walk s' x = Some p" and a: "page_addr x"
    and h: "miss_result E s x p f s'" and m: "maps s' p f"
    and inv: "vm_inv s" "vm_inv s'" "dir_inv s'" and c: "content_inv s"
  shows "mem_view s' = place x f 0 (mem_view s)" and "translate s x = None" and "content_inv s'"
proof -
  have no: "\<not> maps s p k" for k using h unfolding miss_result_def by blast
  have fresh: "frame_page s' f = fresh_page x" using h unfolding miss_result_def by blast
  have keep: "frame_page s' k = frame_page s k" if "k < memsize s" "k \<noteq> f" for k
    using h that unfolding miss_result_def by blast
  have step: "maps s' q k \<longleftrightarrow> maps s q k \<and> k \<noteq> f" if "q \<noteq> p" for q k
  proof -
    have "maps s' q k \<Longrightarrow> k \<noteq> f" using vm_inv_maps_inj [OF inv(2) m] that by blast
    moreover have "maps s' q k \<Longrightarrow> maps s q k" using h that unfolding miss_result_def by blast
    moreover have "maps s q k \<Longrightarrow> k \<noteq> f \<Longrightarrow> maps s' q k"
      using h that maps_fun [of s q k f] unfolding miss_result_def by metis
    ultimately show ?thesis by blast
  qed
  have other: "translate s' y = Some k \<longleftrightarrow> translate s y = Some k \<and> k \<noteq> f" if y: "page_addr y" "y \<noteq> x" for y k
  proof (rule translate_grows [OF g])
    show "unat y < 2 ^ 36" using y by (simp add: page_addr_def)
    fix q assume "walk s y = Some q \<or> walk s' y = Some q"
    then have "walk s' y = Some q" using g y unfolding walk_grows_def page_addr_def by blast
    then have "q \<noteq> p" using walk_inj [OF inv(3) y(1) a] w y(2) by blast
    then show "maps s' q k \<longleftrightarrow> maps s q k \<and> k \<noteq> f" by (rule step)
  qed
  have self: "translate s' x = Some f" using w m translate_iff by blast
  have bd: "k < memsize s" if "translate s y = Some k" for y k
    using that maps_bound [OF inv(1)] unfolding translate_iff by blast
  show "translate s x = None"
    using g w a no unfolding translate_None walk_grows_def page_addr_def by (metis option.inject)
  show "content_inv s'" unfolding content_inv_def
  proof (intro allI impI)
    fix y k assume y: "page_addr y" "translate s' y = Some k"
    show "region 4 8 (frame_page s' k) = store_le 8 y"
    proof (cases "y = x")
      case True
      then show ?thesis using y self fresh by (simp add: region_fresh)
    next
      case False
      then have "translate s y = Some k" "k \<noteq> f" using other y by auto
      then show ?thesis using c y bd keep by (simp add: content_inv_def)
    qed
  qed
  show "mem_view s' = place x f 0 (mem_view s)"
  proof
    fix y show "mem_view s' y = place x f 0 (mem_view s) y"
    proof (cases "y = x")
      case True
      then show ?thesis using a self version_fresh [OF fresh] by (simp add: place_def mem_view_def)
    next
      case False
      show ?thesis
      proof (cases "page_addr y")
        case True
        then show ?thesis using map_view_cong [of s' y s f] other [OF True False] bd keep False
          by (simp add: place_def)
      qed (use False in \<open>simp add: place_def mem_view_def\<close>)
    qed
  qed
qed


section \<open>The check and the version counter\<close>

text \<open>Writing the version of frame \<open>f\<close>: nothing else of the memory changes.\<close>

definition bump :: "nat \<Rightarrow> sim \<Rightarrow> sim" where
  "bump f s = s\<lparr>physmem := blit (f * SIMPAGESIZE) (store_le 4 (version s f + 1)) (physmem s)\<rparr>"

lemma version_at:
  "sizes_ok s \<Longrightarrow> f < memsize s \<Longrightarrow> load_le (region (f * SIMPAGESIZE) 4 (physmem s)) = version s f"
  by (simp add: version_def frame_page_def region_region SIMPAGESIZE_def)

lemma content_at:
  "region (f * SIMPAGESIZE + 4) 8 (physmem s) = region 4 8 (frame_page s f)"
  by (simp add: frame_page_def region_region SIMPAGESIZE_def)

lemma bump_ok:
  assumes sz: "sizes_ok s" and f: "f < memsize s"
  shows "version (bump f s) f = version s f + 1" "g < memsize s \<Longrightarrow> g \<noteq> f \<Longrightarrow> frame_page (bump f s) g = frame_page s g"
    "region 4 8 (frame_page (bump f s) f) = region 4 8 (frame_page s f)"
    "same_vm s (bump f s)"
proof -
  have b: "f * SIMPAGESIZE + length (store_le 4 (version s f + 1)) \<le> length (physmem s)"
    using frame_in_physmem [OF sz f] by (simp add: SIMPAGESIZE_def)
  have pm: "physmem (bump f s) = blit (f * SIMPAGESIZE) (store_le 4 (version s f + 1)) (physmem s)"
    by (simp add: bump_def)
  have fb: "f * 16 + 16 \<le> length (physmem s)" using frame_in_physmem [OF sz f] by (simp add: SIMPAGESIZE_def)
  have "region 0 4 (frame_page (bump f s) f) = store_le 4 (version s f + 1)"
    using region_blit_same [OF b, of 4] by (simp add: frame_page_def bump_def region_region SIMPAGESIZE_def)
  then show "version (bump f s) f = version s f + 1" by (simp add: version_def load_store_le)
  show "region 4 8 (frame_page (bump f s) f) = region 4 8 (frame_page s f)"
    unfolding content_at [symmetric] pm
    by (rule region_blit_disjoint [OF b]) (use fb in \<open>simp_all add: SIMPAGESIZE_def\<close>)
  show "same_vm s (bump f s)" by (simp add: same_vm_def bump_def length_blit [OF b])
  assume g: "g < memsize s" "g \<noteq> f"
  have gb: "g * 16 + 16 \<le> length (physmem s)" using frame_in_physmem [OF sz g(1)] by (simp add: SIMPAGESIZE_def)
  have "g * 16 + 16 \<le> f * 16 \<or> f * 16 + 4 \<le> g * 16" using g by (cases "g < f") auto
  then show "frame_page (bump f s) g = frame_page s g"
    unfolding frame_page_def bump_def
    using region_blit_disjoint [OF b, of "g * SIMPAGESIZE" SIMPAGESIZE] gb by (simp add: SIMPAGESIZE_def)
qed

lemma access_mem_eq:
  assumes "find_physpage E ref_fcn evict_fcn x ty s = Inr (f * SIMPAGESIZE, s1)"
    and "sizes_ok s1" "f < memsize s1" and "region 4 8 (frame_page s1 f) = store_le 8 x"
  shows "access_mem E ref_fcn evict_fcn ty x s = Inr (if is_write ty then bump f s1 else s1)"
proof -
  have b: "f * 16 + 12 \<le> length (physmem s1)"
    using frame_in_physmem [OF assms(2,3)] by (simp add: SIMPAGESIZE_def)
  have "load_le (region (f * SIMPAGESIZE + 4) 8 (physmem s1)) = x"
    unfolding content_at assms(4) by (simp add: load_store_le)
  then show ?thesis using assms(1) b version_at [OF assms(2,3)]
    by (simp add: access_mem_def bump_def SIMPAGESIZE_def Let_def)
qed

lemma bump_view:
  assumes inv: "vm_inv s" "dir_inv s" and t: "translate s x = Some f" and a: "page_addr x"
    and c: "content_inv s"
  shows "mem_view (bump f s) = (mem_view s)(x \<mapsto> (f, version s f + 1))" and "content_inv (bump f s)"
proof -
  obtain p where p: "walk s x = Some p" "maps s p f" using t unfolding translate_iff by blast
  have f: "f < memsize s" by (rule maps_bound [OF inv(1) p(2)])
  have sz: "sizes_ok s" using inv by (simp add: vm_inv_def)
  note b = bump_ok [OF sz f]
  have tr: "translate (bump f s) y = translate s y" for y
    by (simp add: translate_def walk_def bump_def Let_def)
  have uniq: "y = x" if "page_addr y" "translate s y = Some f" for y
    using that p vm_inv_maps_inj [OF inv(1)] walk_inj [OF inv(2) _ a] unfolding translate_iff by metis
  have bd: "k < memsize s" if "translate s y = Some k" for y k
    using that maps_bound [OF inv(1)] unfolding translate_iff by blast
  show "mem_view (bump f s) = (mem_view s)(x \<mapsto> (f, version s f + 1))"
  proof
    fix y show "mem_view (bump f s) y = ((mem_view s)(x \<mapsto> (f, version s f + 1))) y"
    proof (cases "page_addr y \<and> translate s y \<noteq> None")
      case True
      then obtain k where k: "translate s y = Some k" by auto
      show ?thesis
      proof (cases "y = x")
        case True
        then show ?thesis using t b(1) a by (simp add: mem_view_def tr)
      next
        case False
        then have "k \<noteq> f" using uniq k True by blast
        then have "frame_page (bump f s) k = frame_page s k" using b(2) bd [OF k] by blast
        then show ?thesis using False k by (simp add: mem_view_def tr version_def)
      qed
    next
      case False
      then show ?thesis using t a by (auto simp: mem_view_def tr)
    qed
  qed
  show "content_inv (bump f s)" unfolding content_inv_def tr
  proof (intro allI impI)
    fix y k assume y: "page_addr y" "translate s y = Some k"
    show "region 4 8 (frame_page (bump f s) k) = store_le 8 y"
      using b(2,3) bd [OF y(2)] c y by (cases "k = f") (auto simp: content_inv_def)
  qed
qed

text \<open>The invariants of the page tables do not see a change of a page's contents.\<close>

lemma tracks_bump: "pol_view (bump f s) = pol_view s"
  by (simp add: pol_view_def bump_def)

lemma sim_inv_bump:
  assumes inv: "sim_inv tracks s" and f: "f < memsize s"
    and tv: "\<And>F t. pol_view s = pol_view t \<Longrightarrow> tracks s F \<Longrightarrow> tracks t F"
  shows "sim_inv tracks (bump f s)"
proof -
  have i: "vm_inv s" "dir_inv s" "swap_inv s" "stats_inv s" "tracks s (used_frames s)"
    using inv by (simp_all add: sim_inv_def)
  have sz: "sizes_ok s" using i(1) by (simp add: vm_inv_def)
  note sv = bump_ok(4) [OF sz f]
  have "vm_inv (bump f s)" using i(1) vm_inv_same [OF sv] by blast
  moreover have "dir_inv (bump f s)" using i(2) by (simp add: dir_inv_def bump_def)
  moreover have "swap_inv (bump f s)" using i(3) unfolding swap_inv_def same_vm_obs(7) [OF sv] by (simp add: bump_def)
  moreover have "stats_inv (bump f s)" using i(4) unfolding stats_inv_def same_vm_obs(3) [OF sv] by (simp add: bump_def)
  moreover have "tracks (bump f s) (used_frames (bump f s))"
    using tv [of "bump f s" "used_frames s"] i(5) tracks_bump [of f s] same_vm_obs(3) [OF sv] by simp
  ultimately show ?thesis by (simp add: sim_inv_def)
qed

end
