(* ===== verification/Mem_Replay.thy ===== *)
theory Mem_Replay
  imports Mem_Sim
begin

text \<open>
  The trace: \<open>fgets\<close> and \<open>sscanf\<close> on its bytes, the loop of \<open>replay_trace\<close>, and
  the contract of \<open>access_mem\<close> for every replacement algorithm.  A run of the
  loop over a well-formed trace keeps every invariant, counts each reference
  once and never reports a wrong page.
\<close>

section \<open>Reading the trace\<close>

definition MAXLINE :: nat where "MAXLINE = 256"

text \<open>\<open>fgets (buf, n, f)\<close>: at most \<open>n - 1\<close> characters, up to and with a newline.\<close>

fun fgets :: "nat \<Rightarrow> string \<Rightarrow> string \<times> string" where
  "fgets (Suc (Suc n)) (c # cs) =
    (if c = CHR 0x0A then ([c], cs)
     else let (l, rest) = fgets (Suc n) cs in (c # l, rest))"
| "fgets _ cs = ([], cs)"

lemma fgets_split: "fgets n cs = (l, rest) \<Longrightarrow> cs = l @ rest"
  by (induction n cs arbitrary: l rest rule: fgets.induct) (auto split: if_splits prod.splits)

lemma fgets_progress:
  assumes "2 \<le> n" "cs \<noteq> []"
  shows "fst (fgets n cs) \<noteq> []"
proof -
  obtain m c ds where "n = Suc (Suc m)" "cs = c # ds"
    using assms by (cases cs; cases n; cases "n - 1") auto
  then show ?thesis by (auto split: prod.splits)
qed

lemma fgets_shorter: "2 \<le> n \<Longrightarrow> cs \<noteq> [] \<Longrightarrow> length (snd (fgets n cs)) < length cs"
  using fgets_progress [of n cs] fgets_split [of n cs "fst (fgets n cs)" "snd (fgets n cs)"]
  by (metis length_append length_greater_0_conv less_add_same_cancel2 prod.collapse)

lemma fgets_line: "(l, rest) = fgets MAXLINE (c # cs) \<Longrightarrow> length rest < Suc (length cs)"
  using fgets_shorter [of MAXLINE "c # cs"] by (simp add: MAXLINE_def) (metis snd_conv)

definition hex_digit :: "char \<Rightarrow> nat option" where
  "hex_digit c =
    (let n = of_char c :: nat in
     if 48 \<le> n \<and> n \<le> 57 then Some (n - 48)
     else if 97 \<le> n \<and> n \<le> 102 then Some (n - 87)
     else if 65 \<le> n \<and> n \<le> 70 then Some (n - 55) else None)"

fun hex_value :: "nat \<Rightarrow> string \<Rightarrow> nat" where
  "hex_value acc [] = acc"
| "hex_value acc (c # cs) = (case hex_digit c of None \<Rightarrow> acc | Some d \<Rightarrow> hex_value (16 * acc + d) cs)"

definition strip_0x :: "string \<Rightarrow> string" where
  "strip_0x cs = (case cs of c0 # c1 # rest \<Rightarrow>
      if c0 = CHR ''0'' \<and> (c1 = CHR ''x'' \<or> c1 = CHR ''X'') then rest else cs
    | _ \<Rightarrow> cs)"

text \<open>The conversion \<open>%lx\<close>: \<open>strtoul\<close> in base 16, \<open>None\<close> when no digit is there.\<close>

definition scan_lx :: "string \<Rightarrow> u64 option" where
  "scan_lx cs0 =
    (let cs = dropWhile isspace cs0;
         neg = (cs \<noteq> [] \<and> hd cs = CHR ''-'');
         signed = (cs \<noteq> [] \<and> (hd cs = CHR ''-'' \<or> hd cs = CHR ''+''));
         ds = strip_0x (if signed then tl cs else cs) in
     case ds of [] \<Rightarrow> None
     | d # _ \<Rightarrow>
         if hex_digit d = None then None
         else let val = hex_value 0 ds in
           Some (if 2 ^ 64 \<le> val then - 1 else if neg then - of_nat val else of_nat val))"

text \<open>
  \<open>sscanf (buf, "%c %lx", &type, &vaddr)\<close> on a string: what a conversion that
  fails does not assign keeps its value from the line before.
\<close>

definition c_string :: "string \<Rightarrow> string" where
  "c_string cs = takeWhile (\<lambda>c. c \<noteq> CHR 0x00) cs"

definition sscanf_ref :: "string \<Rightarrow> char \<times> u64 \<Rightarrow> char \<times> u64" where
  "sscanf_ref buf old =
    (case c_string buf of [] \<Rightarrow> old
     | c # cs \<Rightarrow> (case scan_lx cs of None \<Rightarrow> (c, snd old) | Some a \<Rightarrow> (c, a)))"

text \<open>The references of a trace, from the values the two variables have before it.\<close>

function trace_refs :: "char \<times> u64 \<Rightarrow> string \<Rightarrow> (char \<times> u64) list" where
  "trace_refs old [] = []"
| "trace_refs old (c # cs) =
    (let (buf, rest) = fgets MAXLINE (c # cs) in
     if hd buf \<noteq> CHR ''='' then let r = sscanf_ref buf old in r # trace_refs r rest
     else trace_refs old rest)"
  by pat_completeness auto

termination
  by (relation "measure (\<lambda>(_, cs). length cs)") (auto dest: fgets_line)

section \<open>The loop\<close>

function replay_trace :: "os_env \<Rightarrow> ref_fun \<Rightarrow> evict_fun \<Rightarrow> char \<times> u64 \<Rightarrow> string \<Rightarrow> sim \<Rightarrow> sim res" where
  "replay_trace E ref_fcn evict_fcn old [] s = Inr s"
| "replay_trace E ref_fcn evict_fcn old (c # cs) s =
    (let (buf, rest) = fgets MAXLINE (c # cs) in
     if hd buf \<noteq> CHR ''='' then
       let (ty, vaddr) = sscanf_ref buf old in
       bindE (access_mem E ref_fcn evict_fcn ty vaddr s) (replay_trace E ref_fcn evict_fcn (ty, vaddr) rest)
     else replay_trace E ref_fcn evict_fcn old rest s)"
  by pat_completeness auto

termination
  by (relation "measure (\<lambda>(_, _, _, _, cs, _). length cs)") (auto dest: fgets_line)

text \<open>The loop is \<open>access_mem\<close> on each reference of the trace in turn.\<close>

primrec access_all :: "os_env \<Rightarrow> ref_fun \<Rightarrow> evict_fun \<Rightarrow> (char \<times> u64) list \<Rightarrow> sim \<Rightarrow> sim res" where
  "access_all E ref_fcn evict_fcn [] s = Inr s"
| "access_all E ref_fcn evict_fcn (r # rs) s =
    bindE (access_mem E ref_fcn evict_fcn (fst r) (snd r) s) (access_all E ref_fcn evict_fcn rs)"

lemma replay_trace_refs:
  "replay_trace E ref_fcn evict_fcn old cs s = access_all E ref_fcn evict_fcn (trace_refs old cs) s"
proof (induction old cs arbitrary: s rule: trace_refs.induct)
  case (1 old)
  then show ?case by simp
next
  case (2 old c cs)
  obtain buf rest where f: "fgets MAXLINE (c # cs) = (buf, rest)" by (cases "fgets MAXLINE (c # cs)")
  obtain ty va where r: "sscanf_ref buf old = (ty, va)" by (cases "sscanf_ref buf old")
  show ?case
  proof (cases "hd buf \<noteq> CHR ''=''")
    case True
    have "replay_trace E ref_fcn evict_fcn (ty, va) rest =
        access_all E ref_fcn evict_fcn (trace_refs (ty, va) rest)"
      using 2(1) [OF f [symmetric] refl True r [symmetric]] by (simp add: fun_eq_iff)
    then show ?thesis using True by (simp add: f r Let_def)
  next
    case False
    then show ?thesis using 2(2) [OF f [symmetric] refl] by (simp add: f)
  qed
qed

section \<open>The contract of a reference\<close>

definition old_version :: "(u64 \<Rightarrow> (nat \<times> u32) option) \<Rightarrow> u64 \<Rightarrow> u32" where
  "old_version M x = (case M x of None \<Rightarrow> 0 | Some (_, k) \<Rightarrow> k)"

definition new_version :: "(u64 \<Rightarrow> (nat \<times> u32) option) \<Rightarrow> char \<Rightarrow> u64 \<Rightarrow> u32" where
  "new_version M ty x = (if is_write ty then old_version M x + 1 else old_version M x)"

text \<open>The frame of a page in memory stays its frame; another page gets one that is free or full.\<close>

definition frame_choice :: "sim \<Rightarrow> u64 \<Rightarrow> nat \<Rightarrow> sim \<Rightarrow> bool" where
  "frame_choice s x f s' \<longleftrightarrow>
    (case mem_view s x of
       Some (g, _) \<Rightarrow> f = g \<and> hit_count s' = Suc (hit_count s) \<and> miss_count s' = miss_count s
     | None \<Rightarrow> f < memsize s \<and> (f \<notin> used_frames s \<or> used_frames s = {..< memsize s}) \<and>
         hit_count s' = hit_count s \<and> miss_count s' = Suc (miss_count s))"

definition accessed :: "sim \<Rightarrow> char \<Rightarrow> u64 \<Rightarrow> sim \<Rightarrow> bool" where
  "accessed s ty x s' \<longleftrightarrow> content_inv s' \<and> memsize s' = memsize s \<and> check_errors s' = check_errors s \<and>
     ref_count s' = Suc (ref_count s) \<and>
     (\<exists>f. frame_choice s x f s' \<and> mem_view s' = place x f (new_version (mem_view s) ty x) (mem_view s))"

lemma mem_view_frame: "mem_view s y = Some (f, k) \<Longrightarrow> page_addr y \<and> translate s y = Some f"
  by (auto simp: mem_view_def split: if_splits)

lemma place_here:
  assumes inv: "vm_inv s" "dir_inv s" and t: "translate s x = Some f" and a: "page_addr x"
  shows "place x f k (mem_view s) = (mem_view s)(x \<mapsto> (f, k))"
proof
  fix y
  have "y = x" if "mem_view s y = Some (f, j)" for j
    using mem_view_frame [OF that] t vm_inv_maps_inj [OF inv(1)] walk_inj [OF inv(2) _ a]
    unfolding translate_iff by metis
  then show "place x f k (mem_view s) y = ((mem_view s)(x \<mapsto> (f, k))) y"
    by (auto simp: place_def split: option.split)
qed

lemma place_twice: "(place x f j M)(x \<mapsto> (f, k)) = place x f k M"
  by (auto simp: place_def fun_eq_iff)

lemma ref_count_stats:
  "stats_inv s \<Longrightarrow> stats_inv s' \<Longrightarrow> hit_count s' + miss_count s' = Suc (hit_count s + miss_count s) \<Longrightarrow>
    ref_count s' = Suc (ref_count s)"
  by (simp add: stats_inv_def)

lemma accessed_finish:
  assumes inv: "vm_inv s1" "dir_inv s1" "content_inv s1" and t: "translate s1 x = Some f" and a: "page_addr x"
    and v: "mem_view s1 = place x f (old_version (mem_view s) x) (mem_view s)"
    and fc: "frame_choice s x f s1" and same: "memsize s1 = memsize s" "check_errors s1 = check_errors s"
      "ref_count s1 = Suc (ref_count s)"
  shows "accessed s ty x (if is_write ty then bump f s1 else s1)"
proof (cases "is_write ty")
  case False
  then show ?thesis using inv(3) v fc same by (auto simp: accessed_def new_version_def)
next
  case True
  have "version s1 f = old_version (mem_view s) x"
    using fun_cong [OF v, of x] t a by (simp add: mem_view_def place_def)
  then have mv: "mem_view (bump f s1) = place x f (new_version (mem_view s) ty x) (mem_view s)"
    using bump_view(1) [OF inv(1,2) t a inv(3)] True by (simp add: v place_twice new_version_def)
  have fc': "frame_choice s x f (bump f s1)"
    using fc by (simp add: frame_choice_def bump_def split: option.splits)
  have "memsize (bump f s1) = memsize s1" "check_errors (bump f s1) = check_errors s1"
    "ref_count (bump f s1) = ref_count s1" by (simp_all add: bump_def memsize_def)
  then show ?thesis unfolding accessed_def
    using bump_view(2) [OF inv(1,2) t a inv(3)] mv fc' same True by auto
qed

context replacement
begin

lemma access_mem_ok:
  assumes inv: "sim_inv tracks s" "content_inv s" and E: "memalign_ok E" and a: "page_addr x"
  shows "access_mem E ref_fcn evict_fcn ty x s = Inl Exit_Failure \<or>
    (\<exists>s'. access_mem E ref_fcn evict_fcn ty x s = Inr s' \<and> sim_inv tracks s' \<and> accessed s ty x s')"
proof -
  have va: "unat x < 2 ^ 36" using a by (simp add: page_addr_def)
  consider (exit) "find_physpage E ref_fcn evict_fcn x ty s = Inl Exit_Failure"
    | (ok) p f s1 where "find_physpage E ref_fcn evict_fcn x ty s = Inr (f * SIMPAGESIZE, s1)"
       "sim_inv tracks s1" "walk_grows s s1" "walk s1 x = Some p" "maps s1 p f"
       "hit_result s p f s1 \<or> miss_result E s x p f s1"
    using find_physpage_ok [OF inv(1) E va, of ty] by blast
  then show ?thesis
  proof cases
    case exit
    then show ?thesis by (simp add: access_mem_def)
  next
    case (ok p f s1)
    have i0: "vm_inv s" "dir_inv s" "stats_inv s" using inv(1) by (simp_all add: sim_inv_def)
    have i1: "vm_inv s1" "dir_inv s1" "stats_inv s1" using ok(2) by (simp_all add: sim_inv_def)
    have t1: "translate s1 x = Some f" using ok(4,5) translate_iff by blast
    have fm1: "f < memsize s1" by (rule maps_bound [OF i1(1) ok(5)])
    have "content_inv s1 \<and> mem_view s1 = place x f (old_version (mem_view s) x) (mem_view s) \<and>
        frame_choice s x f s1 \<and> memsize s1 = memsize s \<and> check_errors s1 = check_errors s \<and>
        ref_count s1 = Suc (ref_count s)"
      using ok(6)
    proof
      assume h: "hit_result s p f s1"
      note hv = hit_view [OF ok(3,4) a h inv(2)]
      have m: "mem_view s x = Some (f, version s f)" using hv(2) a by (simp add: mem_view_def)
      then have "mem_view s1 = place x f (old_version (mem_view s) x) (mem_view s)"
        using place_here [OF i0(1,2) hv(2) a] hv(1) by (simp add: old_version_def fun_upd_idem)
      moreover have "frame_choice s x f s1" using m h by (simp add: frame_choice_def hit_result_def)
      ultimately show ?thesis using hv(3) h ref_count_stats [OF i0(3) i1(3)] by (simp add: hit_result_def)
    next
      assume h: "miss_result E s x p f s1"
      note mv = miss_view [OF ok(3,4) a h ok(5) i0(1) i1(1,2) inv(2)]
      have m: "mem_view s x = None" using mv(2) by (simp add: mem_view_def)
      have same: "memsize s1 = memsize s" "check_errors s1 = check_errors s"
        "hit_count s1 = hit_count s" "miss_count s1 = Suc (miss_count s)"
        using h unfolding miss_result_def by blast+
      have "f \<notin> used_frames s \<or> used_frames s = {..< memsize s}"
        using h unfolding miss_result_def by blast
      then have "frame_choice s x f s1" using m fm1 same by (simp add: frame_choice_def)
      then show ?thesis using mv m same ref_count_stats [OF i0(3) i1(3)] by (simp add: old_version_def)
    qed
    note r = this
    have con: "region 4 8 (frame_page s1 f) = store_le 8 x" using r t1 a by (simp add: content_inv_def)
    have sz1: "sizes_ok s1" using i1(1) by (simp add: vm_inv_def)
    have "access_mem E ref_fcn evict_fcn ty x s = Inr (if is_write ty then bump f s1 else s1)"
      by (rule access_mem_eq [OF ok(1) sz1 fm1 con])
    moreover have "accessed s ty x (if is_write ty then bump f s1 else s1)"
      using r by (intro accessed_finish [OF i1(1,2) _ t1 a]) blast+
    moreover have "sim_inv tracks (bump f s1)"
      by (rule sim_inv_bump [OF ok(2) fm1]) (rule tracks_view)
    then have "sim_inv tracks (if is_write ty then bump f s1 else s1)" using ok(2) by simp
    ultimately show ?thesis by blast
  qed
qed

lemma access_all_ok:
  assumes "sim_inv tracks s" "content_inv s" and E: "memalign_ok E"
    and "\<forall>r \<in> set rs. page_addr (snd r)"
  shows "access_all E ref_fcn evict_fcn rs s = Inl Exit_Failure \<or>
    (\<exists>s'. access_all E ref_fcn evict_fcn rs s = Inr s' \<and> sim_inv tracks s' \<and> content_inv s' \<and>
       memsize s' = memsize s \<and> check_errors s' = check_errors s \<and>
       ref_count s' = ref_count s + length rs)"
  using assms(1,2,4)
proof (induction rs arbitrary: s)
  case Nil
  then show ?case by simp
next
  case (Cons r rs)
  consider (exit) "access_mem E ref_fcn evict_fcn (fst r) (snd r) s = Inl Exit_Failure"
    | (ok) s1 where "access_mem E ref_fcn evict_fcn (fst r) (snd r) s = Inr s1" "sim_inv tracks s1"
        "accessed s (fst r) (snd r) s1"
    using access_mem_ok [OF Cons.prems(1,2) E, of "snd r" "fst r"] Cons.prems(3) by auto
  then show ?case
  proof cases
    case exit
    then show ?thesis by simp
  next
    case (ok s1)
    have c: "content_inv s1" using ok(3) by (simp add: accessed_def)
    show ?thesis using Cons.IH [OF ok(2) c] Cons.prems(3) ok(1,3) by (auto simp: accessed_def)
  qed
qed

end

end
