(* ===== verification/Mem_Opt.thy ===== *)
theory Mem_Opt
  imports Mem_Replay
begin

text \<open>
  opt.c.  The nodes of type \<open>struct vaddr\<close> are the elements of \<open>vnodes\<close>, those of
  type \<open>struct occurance_sequence\<close> the elements of \<open>onodes\<close>; a pointer is an
  index.  \<open>free\<close> marks a node, and what a read through a pointer to a marked node
  does is \<open>freed_readable\<close> of the environment.  \<open>hashmap_ptr\<close> is \<open>hashmap\<close>, and
  \<open>hashmap_size\<close> its length.  The walks along \<open>next\<close> pointers run on fuel, the
  number of nodes; a walk that needs more is on a cyclic list.
\<close>

section \<open>Nodes\<close>

definition vnode :: "nat \<Rightarrow> sim \<Rightarrow> vaddr_node res" where
  "vnode i s = rd (vnodes s) i"

definition set_vnode :: "nat \<Rightarrow> vaddr_node \<Rightarrow> sim \<Rightarrow> sim" where
  "set_vnode i n s = s\<lparr>vnodes := (vnodes s)[i := n]\<rparr>"

definition onode :: "os_env \<Rightarrow> nat \<Rightarrow> sim \<Rightarrow> occ_node res" where
  "onode E i s = bindE (rd (onodes s) i) (\<lambda>n.
    if freed n \<and> \<not> freed_readable E then Inl Use_After_Free else Inr n)"

definition free_onode :: "nat \<Rightarrow> sim \<Rightarrow> sim res" where
  "free_onode i s = bindE (rd (onodes s) i) (\<lambda>n. Inr (s\<lparr>onodes := (onodes s)[i := n\<lparr>freed := True\<rparr>]\<rparr>))"

text \<open>\<open>p->occurance_head->occurance\<close> of the node \<open>n\<close>.\<close>

definition next_use :: "os_env \<Rightarrow> vaddr_node \<Rightarrow> sim \<Rightarrow> int res" where
  "next_use E n s = bindE (deref (occurance_head n)) (\<lambda>i. bindE (onode E i s) (\<lambda>m. Inr (occurance m)))"

definition opt_hash :: "nat \<Rightarrow> u64 \<Rightarrow> nat res" where
  "opt_hash hashmap_size virtual_address =
    bindE (guardE Div_By_Zero (hashmap_size \<noteq> 0)) (\<lambda>_. Inr (unat virtual_address mod hashmap_size))"

section \<open>Eviction and references\<close>

definition opt_evict :: evict_fun where
  "opt_evict s =
    bindE (deref (coremap_head s)) (\<lambda>h.
    bindE (vnode h s) (\<lambda>n.
    Inr (frame_number n, (set_vnode h (n\<lparr>frame_number := -1\<rparr>) s)\<lparr>coremap_head := next_in_frame n\<rparr>)))"

text \<open>The loop of \<open>add_to_coremap\<close>: the node after which the new one goes.\<close>

fun seek_place :: "os_env \<Rightarrow> nat \<Rightarrow> int \<Rightarrow> nat \<Rightarrow> sim \<Rightarrow> nat res" where
  "seek_place E 0 use current s = Inl Out_Of_Fuel"
| "seek_place E (Suc k) use current s =
    bindE (vnode current s) (\<lambda>c.
    case next_in_frame c of
      None \<Rightarrow> Inr current
    | Some nx \<Rightarrow>
        bindE (vnode nx s) (\<lambda>n.
        if occurance_head n = None then seek_place E k use nx s
        else bindE (next_use E n s) (\<lambda>u.
          if use < u then seek_place E k use nx s else Inr current)))"

definition push_front :: "nat \<Rightarrow> vaddr_node \<Rightarrow> sim \<Rightarrow> sim" where
  "push_front i n s = (set_vnode i (n\<lparr>next_in_frame := coremap_head s\<rparr>) s)\<lparr>coremap_head := Some i\<rparr>"

definition add_to_coremap :: "os_env \<Rightarrow> nat \<Rightarrow> sim \<Rightarrow> sim res" where
  "add_to_coremap E i s =
    bindE (vnode i s) (\<lambda>n.
    case coremap_head s of
      None \<Rightarrow> Inr (push_front i n s)
    | Some h \<Rightarrow>
        if occurance_head n = None then Inr (push_front i n s)
        else
          bindE (next_use E n s) (\<lambda>use.
          bindE (vnode h s) (\<lambda>hn.
          bindE (if occurance_head hn = None then Inr False
                 else bindE (next_use E hn s) (\<lambda>u. Inr (u < use))) (\<lambda>farther.
          if farther then Inr (push_front i n s)
          else
            bindE (seek_place E (length (vnodes s)) use h s) (\<lambda>current.
            bindE (vnode current s) (\<lambda>c.
            let s1 = set_vnode i (n\<lparr>next_in_frame := next_in_frame c\<rparr>) s in
            bindE (vnode current s1) (\<lambda>c1.
            Inr (set_vnode current (c1\<lparr>next_in_frame := Some i\<rparr>) s1))))))))"

fun seek_before :: "nat \<Rightarrow> u64 \<Rightarrow> nat \<Rightarrow> sim \<Rightarrow> nat res" where
  "seek_before 0 va current s = Inl Out_Of_Fuel"
| "seek_before (Suc k) va current s =
    bindE (vnode current s) (\<lambda>c.
    bindE (deref (next_in_frame c)) (\<lambda>nx.
    bindE (vnode nx s) (\<lambda>n.
    if virtual_addr n \<noteq> va then seek_before k va nx s else Inr current)))"

definition remove_from_coremap :: "nat \<Rightarrow> sim \<Rightarrow> sim res" where
  "remove_from_coremap i s =
    bindE (vnode i s) (\<lambda>n.
    bindE (deref (coremap_head s)) (\<lambda>h.
    bindE (vnode h s) (\<lambda>hn.
    if virtual_addr hn = virtual_addr n then Inr (s\<lparr>coremap_head := next_in_frame hn\<rparr>)
    else
      bindE (seek_before (length (vnodes s)) (virtual_addr n) h s) (\<lambda>current.
      bindE (vnode current s) (\<lambda>c.
      bindE (deref (next_in_frame c)) (\<lambda>nx.
      bindE (vnode nx s) (\<lambda>nn.
      let s1 = set_vnode current (c\<lparr>next_in_frame := next_in_frame nn\<rparr>) s in
      bindE (vnode i s1) (\<lambda>n1.
      Inr (set_vnode i (n1\<lparr>next_in_frame := None\<rparr>) s1)))))))))"

text \<open>Advancing to the next occurrence: the old head is freed and then read (lines 103-104).\<close>

definition drop_occurance :: "os_env \<Rightarrow> nat \<Rightarrow> sim \<Rightarrow> sim res" where
  "drop_occurance E i s =
    bindE (vnode i s) (\<lambda>n.
    case occurance_head n of
      None \<Rightarrow> Inr s
    | Some o1 \<Rightarrow>
        bindE (free_onode o1 s) (\<lambda>s1.
        bindE (onode E o1 s1) (\<lambda>m.
        Inr (set_vnode i (n\<lparr>occurance_head := onext m\<rparr>) s1))))"

definition opt_ref :: "os_env \<Rightarrow> ref_fun" where
  "opt_ref E p s =
    bindE (rd (reference_string s) (position s)) (\<lambda>r.
    let s0 = s\<lparr>position := Suc (position s)\<rparr> in
    bindE (deref r) (\<lambda>i.
    bindE (drop_occurance E i s0) (\<lambda>s1.
    bindE (vnode i s1) (\<lambda>n.
    if frame_number n = -1 then
      bindE (pte_read s1 p) (\<lambda>e.
      add_to_coremap E i (set_vnode i (n\<lparr>frame_number := int (unat (drop_bit PAGE_SHIFT (pt_frame e)))\<rparr>) s1))
    else bindE (remove_from_coremap i s1) (add_to_coremap E i)))))"

section \<open>Reading the trace in advance\<close>

definition new_onode :: "os_env \<Rightarrow> int \<Rightarrow> sim \<Rightarrow> (nat \<times> sim) res" where
  "new_onode E pos s =
    bindE (guardE Null_Deref (length (onodes s) < heap_limit E)) (\<lambda>_.
    Inr (length (onodes s), s\<lparr>onodes := onodes s @ [\<lparr>occurance = pos, onext = None, freed = False\<rparr>]\<rparr>))"

definition add_occurance_sequence :: "os_env \<Rightarrow> nat \<Rightarrow> int \<Rightarrow> sim \<Rightarrow> sim res" where
  "add_occurance_sequence E add_to pos s =
    bindE (vnode add_to s) (\<lambda>n.
    bindE (new_onode E pos s) (\<lambda>(k, s1).
    if occurance_head n = None then
      Inr (set_vnode add_to (n\<lparr>occurance_tail := Some k, occurance_head := Some k\<rparr>) s1)
    else
      bindE (deref (occurance_tail n)) (\<lambda>t.
      bindE (onode E t s1) (\<lambda>m.
      Inr (set_vnode add_to (n\<lparr>occurance_tail := Some k\<rparr>)
             (s1\<lparr>onodes := (onodes s1)[t := m\<lparr>onext := Some k\<rparr>]\<rparr>))))))"

definition new_vaddr :: "os_env \<Rightarrow> u64 \<Rightarrow> sim \<Rightarrow> (nat \<times> sim) res" where
  "new_vaddr E vaddr_number s =
    bindE (guardE Null_Deref (length (vnodes s) < heap_limit E)) (\<lambda>_.
    Inr (length (vnodes s), s\<lparr>vnodes := vnodes s @
      [\<lparr>virtual_addr = vaddr_number, vnext = None, next_in_frame = None, frame_number = -1,
        occurance_head = None, occurance_tail = None\<rparr>]\<rparr>))"

text \<open>The walk along a bucket: the matching node, or the last one.\<close>

fun seek_bucket :: "nat \<Rightarrow> u64 \<Rightarrow> nat \<Rightarrow> sim \<Rightarrow> nat res" where
  "seek_bucket 0 va current s = Inl Out_Of_Fuel"
| "seek_bucket (Suc k) va current s =
    bindE (vnode current s) (\<lambda>c.
    case vnext c of
      None \<Rightarrow> Inr current
    | Some nx \<Rightarrow> if virtual_addr c = va then Inr current else seek_bucket k va nx s)"

definition vaddr_record :: "os_env \<Rightarrow> int \<Rightarrow> u64 \<Rightarrow> nat \<Rightarrow> sim \<Rightarrow> (nat \<times> sim) res" where
  "vaddr_record E pos vaddr_number index s =
    bindE (rd (hashmap s) index) (\<lambda>b.
    case b of
      None \<Rightarrow>
        bindE (new_vaddr E vaddr_number s) (\<lambda>(i, s1).
        bindE (add_occurance_sequence E i pos s1) (\<lambda>s2.
        Inr (i, s2\<lparr>hashmap := (hashmap s2)[index := Some i]\<rparr>)))
    | Some h \<Rightarrow>
        bindE (seek_bucket (length (vnodes s)) vaddr_number h s) (\<lambda>current.
        bindE (vnode current s) (\<lambda>c.
        if virtual_addr c = vaddr_number then
          bindE (add_occurance_sequence E current pos s) (\<lambda>s1. Inr (current, s1))
        else
          bindE (new_vaddr E vaddr_number s) (\<lambda>(i, s1).
          bindE (add_occurance_sequence E i pos s1) (\<lambda>s2.
          bindE (vnode current s2) (\<lambda>c2.
          Inr (i, set_vnode current (c2\<lparr>vnext := Some i\<rparr>) s2)))))))"

definition OPT_BUFFER :: nat where "OPT_BUFFER = 20"

text \<open>\<open>replace_newline_char\<close> and \<open>sscanf\<close> on one buffer.\<close>

definition replace_newline_char :: "string \<Rightarrow> string" where
  "replace_newline_char buffer = takeWhile (\<lambda>c. c \<noteq> CHR 0x0A) buffer"

lemma fgets_buffer: "(l, rest) = fgets OPT_BUFFER (c # cs) \<Longrightarrow> length rest < Suc (length cs)"
  using fgets_shorter [of OPT_BUFFER "c # cs"] by (simp add: OPT_BUFFER_def) (metis snd_conv)

function count_lines :: "string \<Rightarrow> nat" where
  "count_lines [] = 0"
| "count_lines (c # cs) = (let (buffer, rest) = fgets OPT_BUFFER (c # cs) in Suc (count_lines rest))"
  by pat_completeness auto
termination by (relation "measure length") (auto dest: fgets_buffer)

function opt_scan :: "os_env \<Rightarrow> char \<times> u64 \<Rightarrow> string \<Rightarrow> sim \<Rightarrow> sim res" where
  "opt_scan E old [] s = Inr s"
| "opt_scan E old (c # cs) s =
    (let (buffer, rest) = fgets OPT_BUFFER (c # cs);
         (ty, virtual_addr) = sscanf_ref (replace_newline_char buffer) old in
     bindE (opt_hash (length (hashmap s)) virtual_addr) (\<lambda>index.
     bindE (vaddr_record E (int (position s)) virtual_addr index s) (\<lambda>(i, s1).
     bindE (wr (reference_string s1) (position s1) (Some i)) (\<lambda>rs.
     opt_scan E (ty, virtual_addr) rest
       (s1\<lparr>reference_string := rs, position := Suc (position s1)\<rparr>)))))"
  by pat_completeness auto
termination by (relation "measure (\<lambda>(_, _, cs, _). length cs)") (auto dest: fgets_buffer)

text \<open>\<open>opt_init\<close>; \<open>trace\<close> is the contents of the trace file, \<open>None\<close> if it cannot be opened.\<close>

definition opt_init :: "os_env \<Rightarrow> char \<times> u64 \<Rightarrow> string option \<Rightarrow> sim \<Rightarrow> sim res" where
  "opt_init E uninit trace s =
    (let s1 = s\<lparr>coremap_head := None, position := 0, hashmap := replicate (memsize s) None\<rparr> in
     bindE (case trace of None \<Rightarrow> Inl Exit_Failure | Some cs \<Rightarrow> Inr cs) (\<lambda>cs.
     bindE (opt_scan E uninit cs (s1\<lparr>reference_string := replicate (count_lines cs) None\<rparr>)) (\<lambda>s2.
     Inr (s2\<lparr>position := 0\<rparr>))))"

end
