(* ===== verification/Mem_Belady.thy ===== *)
theory Mem_Belady
  imports Mem_Opt
begin

text \<open>
  What opt.c promises of the list at \<open>coremap_head\<close>: it is sorted by next use,
  the page used latest (or never again) first.  \<open>add_to_coremap\<close> is insertion
  into a sorted list, \<open>opt_evict\<close> takes its head, which is Belady's choice.
\<close>

definition nuse :: "sim \<Rightarrow> nat \<Rightarrow> int option" where
  "nuse s i = (case occurance_head (vnodes s ! i) of None \<Rightarrow> None | Some k \<Rightarrow> Some (occurance (onodes s ! k)))"

text \<open>The next use \<open>a\<close> is not before the next use \<open>b\<close>; \<open>None\<close> is never.\<close>

fun later_use :: "int option \<Rightarrow> int option \<Rightarrow> bool" where
  "later_use None _ \<longleftrightarrow> True"
| "later_use (Some _) None \<longleftrightarrow> False"
| "later_use (Some u) (Some w) \<longleftrightarrow> w \<le> u"

lemma later_use_trans: "later_use a b \<Longrightarrow> later_use b c \<Longrightarrow> later_use a c"
  by (cases a; cases b; cases c) auto

lemma later_use_total: "later_use a b \<or> later_use b a"
  by (cases a; cases b) auto

definition readable :: "os_env \<Rightarrow> sim \<Rightarrow> nat \<Rightarrow> bool" where
  "readable E s i \<longleftrightarrow> i < length (vnodes s) \<and>
     (\<forall>k. occurance_head (vnodes s ! i) = Some k \<longrightarrow>
        k < length (onodes s) \<and> (\<not> freed (onodes s ! k) \<or> freed_readable E))"

primrec linked :: "vaddr_node list \<Rightarrow> nat option \<Rightarrow> nat list \<Rightarrow> bool" where
  "linked ns p [] \<longleftrightarrow> p = None"
| "linked ns p (i # is) \<longleftrightarrow> p = Some i \<and> linked ns (next_in_frame (ns ! i)) is"

text \<open>The list of nodes at \<open>coremap_head\<close>, sorted by next use.\<close>

definition opt_list :: "os_env \<Rightarrow> sim \<Rightarrow> nat list \<Rightarrow> bool" where
  "opt_list E s xs \<longleftrightarrow> linked (vnodes s) (coremap_head s) xs \<and> distinct xs \<and>
     (\<forall>i \<in> set xs. readable E s i) \<and> sorted_wrt (\<lambda>i j. later_use (nuse s i) (nuse s j)) xs"

section \<open>Lists of nodes\<close>

lemma linked_cong:
  "\<forall>i \<in> set xs. next_in_frame (ns ! i) = next_in_frame (ms ! i) \<Longrightarrow> linked ns p xs \<longleftrightarrow> linked ms p xs"
  by (induction xs arbitrary: p) auto

lemma linked_insert:
  assumes "linked ns p (ys @ zs)" "ys \<noteq> []" "distinct (ys @ zs)" "i \<notin> set (ys @ zs)"
    and "i < length ns" "last ys < length ns"
    and "next_in_frame n = next_in_frame (ns ! last ys)" "next_in_frame m = Some i"
  shows "linked (ns[i := n, last ys := m]) p (ys @ i # zs)"
  using assms
proof (induction ys arbitrary: p)
  case Nil
  then show ?case by simp
next
  case (Cons a ys)
  let ?ns = "ns[i := n, last (a # ys) := m]"
  have ai: "a \<noteq> i" using Cons.prems(4) by auto
  show ?case
  proof (cases "ys = []")
    case True
    have "linked ?ns (next_in_frame (ns ! a)) zs = linked ns (next_in_frame (ns ! a)) zs"
      by (rule linked_cong) (use True Cons.prems(3,4) in \<open>auto simp: nth_update_if\<close>)
    then show ?thesis using True Cons.prems ai by (simp add: nth_update_if)
  next
    case False
    have "last ys \<in> set ys" by (rule last_in_set [OF False])
    then have "a \<noteq> last ys" using Cons.prems(3) by auto
    then have "next_in_frame (?ns ! a) = next_in_frame (ns ! a)" using ai False by (simp add: nth_update_if)
    then show ?thesis using Cons.IH [of "next_in_frame (ns ! a)"] Cons.prems False by simp
  qed
qed

lemma nuse_next [simp]:
  "nuse (s\<lparr>coremap_head := h\<rparr>) j = nuse s j"
  by (simp add: nuse_def split: option.split)

lemma next_use_eq:
  assumes "readable E s j" "occurance_head (vnodes s ! j) \<noteq> None"
  shows "\<exists>u. next_use E (vnodes s ! j) s = Inr u \<and> nuse s j = Some u"
  using assms by (auto simp: readable_def next_use_def onode_def nuse_def)

text \<open>The nodes the loop of \<open>add_to_coremap\<close> passes over.\<close>

definition passed :: "sim \<Rightarrow> int \<Rightarrow> nat \<Rightarrow> bool" where
  "passed s use j \<longleftrightarrow> (case nuse s j of None \<Rightarrow> True | Some u \<Rightarrow> use < u)"

lemma seek_place_ok:
  assumes "linked (vnodes s) (next_in_frame (vnodes s ! c)) js" and "c < length (vnodes s)"
    and "\<forall>j \<in> set js. readable E s j" and "length js < k"
  shows "seek_place E k use c s = Inr (last (c # takeWhile (passed s use) js))"
  using assms
proof (induction js arbitrary: c k)
  case Nil
  then show ?case by (cases k) (simp_all add: vnode_def)
next
  case (Cons j js)
  obtain k' where k: "k = Suc k'" using Cons.prems(4) by (cases k) auto
  have nx: "next_in_frame (vnodes s ! c) = Some j" using Cons.prems(1) by simp
  have rj: "readable E s j" "j < length (vnodes s)" using Cons.prems(3) by (auto simp: readable_def)
  have IH: "seek_place E k' use j s = Inr (last (j # takeWhile (passed s use) js))"
    by (rule Cons.IH) (use Cons.prems rj k in auto)
  show ?case
  proof (cases "occurance_head (vnodes s ! j)")
    case None
    then have "passed s use j" by (simp add: passed_def nuse_def)
    then show ?thesis using None nx rj Cons.prems(2) IH by (simp add: k vnode_def)
  next
    case (Some o1)
    then obtain u where u: "next_use E (vnodes s ! j) s = Inr u" "nuse s j = Some u"
      using next_use_eq [OF rj(1)] by auto
    then have "passed s use j \<longleftrightarrow> use < u" by (simp add: passed_def)
    then show ?thesis using u Some nx rj Cons.prems(2) IH by (simp add: k vnode_def)
  qed
qed

lemma set_vnode_fields [simp]:
  "vnodes (set_vnode i n s) = (vnodes s)[i := n]" "onodes (set_vnode i n s) = onodes s"
  "coremap_head (set_vnode i n s) = coremap_head s"
  by (simp_all add: set_vnode_def)

text \<open>States that differ in the list pointers only.\<close>

definition same_uses :: "sim \<Rightarrow> sim \<Rightarrow> bool" where
  "same_uses s s' \<longleftrightarrow> onodes s' = onodes s \<and> length (vnodes s') = length (vnodes s) \<and>
     (\<forall>j. j < length (vnodes s) \<longrightarrow> occurance_head (vnodes s' ! j) = occurance_head (vnodes s ! j))"

lemma same_uses_obs:
  assumes "same_uses s s'"
  shows "readable E s' j \<longleftrightarrow> readable E s j" "j < length (vnodes s) \<Longrightarrow> nuse s' j = nuse s j"
  using assms by (auto simp: same_uses_def readable_def nuse_def split: option.split)

lemma sorted_uses_cong:
  assumes "same_uses s s'" "\<forall>i \<in> set xs. i < length (vnodes s)"
  shows "sorted_wrt (\<lambda>i j. later_use (nuse s' i) (nuse s' j)) xs \<longleftrightarrow>
    sorted_wrt (\<lambda>i j. later_use (nuse s i) (nuse s j)) xs"
  using assms(2) same_uses_obs(2) [OF assms(1)] by (induction xs) auto

lemma passed_later: "nuse s i = Some use \<Longrightarrow> passed s use j \<Longrightarrow> later_use (nuse s j) (nuse s i)"
  by (auto simp: passed_def split: option.splits)

lemma not_passed_later: "nuse s i = Some use \<Longrightarrow> \<not> passed s use j \<Longrightarrow> later_use (nuse s i) (nuse s j)"
  by (auto simp: passed_def split: option.splits)

text \<open>The front case, and the case after a node of the list.\<close>

lemma opt_list_front:
  assumes l: "opt_list E s xs" and i: "i \<notin> set xs" "readable E s i" "n = vnodes s ! i"
    and first: "\<forall>j \<in> set xs. later_use (nuse s i) (nuse s j)"
  shows "opt_list E (push_front i n s) (i # xs) \<and> same_uses s (push_front i n s)"
proof -
  let ?s' = "push_front i n s"
  have il: "i < length (vnodes s)" using i(2) by (simp add: readable_def)
  have su: "same_uses s ?s'" using i(3) by (auto simp: same_uses_def push_front_def nth_update_if)
  have rd: "\<forall>j \<in> set (i # xs). readable E s j" using l i(2) by (simp add: opt_list_def)
  then have lt: "\<forall>j \<in> set (i # xs). j < length (vnodes s)" by (simp add: readable_def)
  have "linked (vnodes ?s') (coremap_head s) xs = linked (vnodes s) (coremap_head s) xs"
    by (rule linked_cong) (use i(1) in \<open>auto simp: push_front_def nth_update_if\<close>)
  then have "linked (vnodes ?s') (coremap_head ?s') (i # xs)"
    using l il by (simp add: opt_list_def push_front_def)
  moreover have "sorted_wrt (\<lambda>i j. later_use (nuse ?s' i) (nuse ?s' j)) (i # xs)"
    unfolding sorted_uses_cong [OF su lt] using l first by (simp add: opt_list_def)
  ultimately show ?thesis using su rd i(1) l same_uses_obs(1) [OF su] by (simp add: opt_list_def)
qed

lemma sorted_split_insert:
  assumes "sorted_wrt R (ys @ zs)" "\<forall>y \<in> set ys. R y i" "\<forall>z \<in> set zs. R i z"
  shows "sorted_wrt R (ys @ i # zs)"
  using assms by (auto simp: sorted_wrt_append)

lemma opt_list_after:
  assumes l: "opt_list E s (ys @ zs)" and ys: "ys \<noteq> []" and i: "i \<notin> set (ys @ zs)" "readable E s i"
    and n: "n = (vnodes s ! i)\<lparr>next_in_frame := next_in_frame (vnodes s ! last ys)\<rparr>"
    and m: "m = (vnodes s ! last ys)\<lparr>next_in_frame := Some i\<rparr>"
    and ord: "\<forall>j \<in> set ys. later_use (nuse s j) (nuse s i)" "\<forall>j \<in> set zs. later_use (nuse s i) (nuse s j)"
  shows "opt_list E (set_vnode (last ys) m (set_vnode i n s)) (ys @ i # zs) \<and>
    same_uses s (set_vnode (last ys) m (set_vnode i n s))"
proof -
  let ?s' = "set_vnode (last ys) m (set_vnode i n s)"
  have rd: "\<forall>j \<in> set (ys @ i # zs). readable E s j" using l i(2) by (auto simp: opt_list_def)
  then have lt: "\<forall>j \<in> set (ys @ i # zs). j < length (vnodes s)" by (simp add: readable_def)
  have il: "i < length (vnodes s)" "last ys < length (vnodes s)" using lt last_in_set [OF ys] by auto
  have su: "same_uses s ?s'" using il by (auto simp: same_uses_def nth_update_if n m)
  have "linked (vnodes ?s') (coremap_head ?s') (ys @ i # zs)"
    using linked_insert [OF _ ys _ i(1) il, of "coremap_head s" n m] l by (simp add: opt_list_def n m)
  moreover have "sorted_wrt (\<lambda>i j. later_use (nuse ?s' i) (nuse ?s' j)) (ys @ i # zs)"
    unfolding sorted_uses_cong [OF su lt] using l ord by (intro sorted_split_insert) (auto simp: opt_list_def)
  ultimately show ?thesis using su rd i(1) l same_uses_obs(1) [OF su] by (auto simp: opt_list_def)
qed

text \<open>\<open>add_to_coremap\<close> inserts the node where its next use belongs.\<close>

lemma opt_list_length:
  assumes "opt_list E s xs"
  shows "length xs \<le> length (vnodes s)"
proof -
  have "set xs \<subseteq> {..< length (vnodes s)}" "distinct xs" using assms by (auto simp: opt_list_def readable_def)
  then show ?thesis using card_mono [of "{..< length (vnodes s)}" "set xs"] by (simp add: distinct_card)
qed

lemma add_to_coremap_sorted:
  assumes l: "opt_list E s xs" and i: "i \<notin> set xs" "readable E s i"
  shows "\<exists>s' ys zs. add_to_coremap E i s = Inr s' \<and> xs = ys @ zs \<and> opt_list E s' (ys @ i # zs) \<and>
    same_uses s s'"
proof -
  have il: "i < length (vnodes s)" using i(2) by (simp add: readable_def)
  let ?n = "vnodes s ! i"
  have front: ?thesis if "add_to_coremap E i s = Inr (push_front i ?n s)"
      "\<forall>j \<in> set xs. later_use (nuse s i) (nuse s j)"
    using opt_list_front [OF l i refl that(2)] that(1) by (intro exI [of _ "push_front i ?n s"] exI [of _ "[]"] exI [of _ xs]) auto
  show ?thesis
  proof (cases xs)
    case Nil
    then show ?thesis using front l il by (simp add: opt_list_def add_to_coremap_def vnode_def)
  next
    case (Cons h js)
    have hd: "coremap_head s = Some h" "linked (vnodes s) (next_in_frame (vnodes s ! h)) js"
      and rh: "readable E s h" and rj: "\<forall>j \<in> set js. readable E s j"
      using l Cons by (auto simp: opt_list_def)
    have hl: "h < length (vnodes s)" using rh by (simp add: readable_def)
    have so: "\<forall>j \<in> set js. later_use (nuse s h) (nuse s j)" using l Cons by (simp add: opt_list_def)
    show ?thesis
    proof (cases "occurance_head ?n")
      case None
      then have "nuse s i = None" by (simp add: nuse_def)
      then show ?thesis using front None hd(1) il by (simp add: add_to_coremap_def vnode_def)
    next
      case (Some oi)
      then obtain use where use: "next_use E ?n s = Inr use" "nuse s i = Some use"
        using next_use_eq [OF i(2)] by auto
      define farther where "farther = (case nuse s h of None \<Rightarrow> False | Some u \<Rightarrow> u < use)"
      have far: "(if occurance_head (vnodes s ! h) = None then Inr False
          else bindE (next_use E (vnodes s ! h) s) (\<lambda>u. Inr (u < use))) = (Inr farther :: bool res)"
      proof (cases "occurance_head (vnodes s ! h)")
        case None
        then show ?thesis by (simp add: farther_def nuse_def)
      next
        case (Some k)
        then show ?thesis using next_use_eq [OF rh] by (auto simp: farther_def)
      qed
      let ?tw = "takeWhile (passed s use) js" let ?dw = "dropWhile (passed s use) js"
      let ?c = "last (h # ?tw)"
      have seek: "seek_place E (length (vnodes s)) use h s = Inr ?c"
        using opt_list_length [OF l] Cons by (intro seek_place_ok [OF hd(2) hl rj]) simp
      show ?thesis
      proof (cases farther)
        case True
        then have hi: "later_use (nuse s i) (nuse s h)" using use(2) by (auto simp: farther_def split: option.splits)
        have "add_to_coremap E i s = Inr (push_front i ?n s)"
          using Some hd(1) hl il use(1) far True by (simp add: add_to_coremap_def vnode_def)
        then show ?thesis using front Cons hi so later_use_trans by auto
      next
        case False
        then have hi: "later_use (nuse s h) (nuse s i)" using use(2)
          by (cases "nuse s h") (auto simp: farther_def)
        have cin: "?c \<in> set (h # js)" using last_in_set [of "h # ?tw"] set_takeWhileD by fastforce
        then have cl: "?c < length (vnodes s)" "?c \<noteq> i"
          using l i(1) Cons by (auto simp: opt_list_def readable_def)
        let ?i' = "?n\<lparr>next_in_frame := next_in_frame (vnodes s ! ?c)\<rparr>"
        let ?c' = "(vnodes s ! ?c)\<lparr>next_in_frame := Some i\<rparr>"
        let ?s' = "set_vnode ?c ?c' (set_vnode i ?i' s)"
        have run: "add_to_coremap E i s = Inr ?s'"
          using Some hd(1) hl il use(1) far False seek cl
          by (simp add: add_to_coremap_def vnode_def Let_def del: last.simps)
        have xs: "xs = (h # ?tw) @ ?dw" using Cons by simp
        have dw: "later_use (nuse s i) (nuse s j)" if "j \<in> set ?dw" for j
        proof -
          obtain d ds where dd: "?dw = d # ds" using \<open>j \<in> set ?dw\<close> by (cases ?dw) auto
          then have "\<not> passed s use d" using hd_dropWhile [of "passed s use" js] by auto
          then have "later_use (nuse s i) (nuse s d)" using not_passed_later use(2) by blast
          moreover have "j = d \<or> later_use (nuse s d) (nuse s j)"
            using l that dd unfolding xs opt_list_def by (auto simp: sorted_wrt_append)
          ultimately show ?thesis using later_use_trans by blast
        qed
        have tw: "\<forall>j \<in> set (h # ?tw). later_use (nuse s j) (nuse s i)"
          using hi passed_later [OF use(2)] by (auto dest: set_takeWhileD)
        have "opt_list E ?s' ((h # ?tw) @ i # ?dw) \<and> same_uses s ?s'"
          by (rule opt_list_after [OF _ _ _ i(2) refl refl tw]) (use l i(1) xs dw in auto)
        then show ?thesis using run xs by blast
      qed
    qed
  qed
qed

text \<open>The victim is the page of the list that is used last of all, or never again.\<close>

lemma opt_evict_belady:
  assumes l: "opt_list E s (h # xs)"
  shows "\<exists>s'. opt_evict s = Inr (frame_number (vnodes s ! h), s') \<and> opt_list E s' xs \<and>
    (\<forall>j \<in> set xs. later_use (nuse s h) (nuse s j))"
proof -
  let ?s' = "(set_vnode h ((vnodes s ! h)\<lparr>frame_number := -1\<rparr>) s)
    \<lparr>coremap_head := next_in_frame (vnodes s ! h)\<rparr>"
  have hl: "h < length (vnodes s)" using l by (simp add: opt_list_def readable_def)
  have run: "opt_evict s = Inr (frame_number (vnodes s ! h), ?s')"
    using l hl by (simp add: opt_evict_def opt_list_def vnode_def)
  have su: "same_uses s ?s'" using hl by (simp add: same_uses_def nth_update_if)
  have "linked (vnodes ?s') (coremap_head ?s') xs = linked (vnodes s) (next_in_frame (vnodes s ! h)) xs"
    by (simp, rule linked_cong) (use l in \<open>auto simp: opt_list_def nth_update_if\<close>)
  moreover have rx: "\<forall>i \<in> set xs. readable E s i" using l by (simp add: opt_list_def)
  then have "\<forall>i \<in> set xs. i < length (vnodes s)" by (simp add: readable_def)
  ultimately have "opt_list E ?s' xs"
    using l rx sorted_uses_cong [OF su, of xs] unfolding opt_list_def same_uses_obs(1) [OF su] by simp
  then show ?thesis using l run by (auto simp: opt_list_def)
qed

text \<open>The read after \<open>free\<close> on line 104: without luck the run ends there.\<close>

lemma drop_occurance_freed:
  assumes "readable E s i" "occurance_head (vnodes s ! i) = Some k" "\<not> freed_readable E"
  shows "drop_occurance E i s = Inl Use_After_Free"
  using assms by (simp add: readable_def drop_occurance_def vnode_def free_onode_def onode_def)

end
