(* ===== verification/Mem_Supply.thy ===== *)
theory Mem_Supply
  imports Mem_Replay
begin

text \<open>
  When the simulator does not run out of memory: it calls \<open>exit(1)\<close> for a table
  of entries it cannot allocate or a page it cannot write to the swap file.  With
  an allocator that serves one table per directory entry and a swap file with a
  slot for each page of the trace, neither happens and the run completes.
\<close>

section \<open>Definitions\<close>

text \<open>As long as fewer tables exist than the directory has entries, another is allocated.\<close>

definition memalign_serves :: "os_env \<Rightarrow> bool" where
  "memalign_serves E \<longleftrightarrow> (\<forall>t. card (fst ` dom t) < PTRS_PER_PGDIR \<longrightarrow> posix_memalign E t \<noteq> None)"

definition tables_inv :: "sim \<Rightarrow> bool" where
  "tables_inv s \<longleftrightarrow> fst ` dom (pgtbls s) \<subseteq>
     (\<lambda>i. pgdir s ! i AND PAGE_MASK) ` {i. i < PTRS_PER_PGDIR \<and> pgdir s ! i AND 1 \<noteq> 0}"

definition slots_full :: "sim \<Rightarrow> bool" where
  "slots_full s \<longleftrightarrow> used (swapmap s) = {..< unat (nbits (swapmap s))}"

text \<open>Every page in memory has a slot or can get one, and the file may be long enough.\<close>

definition can_store :: "os_env \<Rightarrow> sim \<Rightarrow> bool" where
  "can_store E s \<longleftrightarrow> unat (nbits (swapmap s)) * SIMPAGESIZE \<le> file_limit E \<and>
     (\<forall>p f. maps s p f \<longrightarrow> slot_of s p \<noteq> None \<or> \<not> slots_full s)"

definition supplied :: "os_env \<Rightarrow> sim \<Rightarrow> bool" where
  "supplied E s \<longleftrightarrow> memalign_serves E \<and> tables_inv s \<and> can_store E s"

text \<open>What a step does to the slots: a page keeps the one it has, a page that was in
  memory may get a new one.\<close>

definition slots_step :: "sim \<Rightarrow> sim \<Rightarrow> bool" where
  "slots_step s s' \<longleftrightarrow> nbits (swapmap s') = nbits (swapmap s) \<and>
     (\<forall>k \<in> used (swapmap s'). k \<in> used (swapmap s) \<or> (\<exists>p. slot_of s' p = Some (slot_off k))) \<and>
     (\<forall>p x. slot_of s p = Some x \<longrightarrow> slot_of s' p = Some x) \<and>
     (\<forall>p. slot_of s' p \<noteq> None \<longrightarrow> slot_of s p \<noteq> None \<or> (\<exists>f. maps s p f))"

section \<open>Writing a page to the swap file\<close>

lemma file_write_fits:
  "pos + length data \<le> limit \<Longrightarrow> data \<noteq> [] \<Longrightarrow>
    file_write limit pos data f = (n, fl) \<Longrightarrow> n = int (length data)"
  by (auto simp: file_write_full)

lemma swap_store_fits:
  assumes ok: "sizes_ok s" and f: "f < memsize s" and k: "k < n" and n: "n * SIMPAGESIZE \<le> file_limit E"
  shows "swap_store E (of_nat f) (slot_off k) s \<noteq> Inr (INVALID_SWAP, s')"
proof
  assume st: "swap_store E (of_nat f) (slot_off k) s = Inr (INVALID_SWAP, s')"
  have f19: "f < 2 ^ 19" using ok f by (simp add: sizes_ok_def)
  obtain r fl where w: "file_write (file_limit E) (SIMPAGESIZE * k) (frame_page s f) (swapfile s) = (r, fl)"
    by fastforce
  have len: "length (frame_page s f) = SIMPAGESIZE" by (rule length_frame_page [OF ok f])
  then have ne: "frame_page s f \<noteq> []" by (auto simp: SIMPAGESIZE_def)
  have "Suc k * SIMPAGESIZE \<le> n * SIMPAGESIZE" using k by (intro mult_le_mono1) simp
  then have "SIMPAGESIZE * k + length (frame_page s f) \<le> file_limit E"
    using n len by (simp add: mult.commute)
  then have "r = int SIMPAGESIZE" using file_write_fits [OF _ ne w] len by simp
  then show False using st w frame_in_physmem [OF ok f]
    by (simp add: swap_store_def lseek_set_def frame_byte_of_nat [OF f19] frame_page_def Let_def)
qed

lemma swap_pageout_fits:
  assumes ok: "sizes_ok s" "f < memsize s" "bm_wf (swapmap s)" "unat (nbits (swapmap s)) \<le> 2 ^ 27"
    and off: "off = INVALID_SWAP \<and> \<not> slots_full s \<or> (\<exists>k \<in> used (swapmap s). off = slot_off k)"
    and lim: "unat (nbits (swapmap s)) * SIMPAGESIZE \<le> file_limit E"
  shows "swap_pageout E (of_nat f) off s \<noteq> Inr (INVALID_SWAP, s')"
proof (cases "off = INVALID_SWAP")
  case True
  then have "\<not> slots_full s" using off slot_off_simps(2) by metis
  then obtain b x where alloc: "bitmap_alloc (swapmap s) = Inr (Some (b, x))"
    using bm.alloc_no_fault [OF ok(3)] bm.alloc_NoneD [OF ok(3)]
    unfolding slots_full_def by (metis not_None_eq surj_pair)
  note b = bm.alloc_SomeD [OF ok(3) alloc]
  have x: "unat x < 2 ^ 27" using b ok(4) by simp
  have "sizes_ok (s\<lparr>swapmap := b\<rparr>)" "f < memsize (s\<lparr>swapmap := b\<rparr>)"
    using ok(1,2) by (simp_all add: sizes_ok_def memsize_def)
  note swap_store_fits [OF this, of "unat x" "unat (nbits (swapmap s))" E s']
  then show ?thesis using True alloc b lim by (simp add: swap_pageout_def swap_slot_def sint_slot [OF x])
next
  case False
  then obtain k where k: "k \<in> used (swapmap s)" "off = slot_off k" using off by blast
  then have "k < unat (nbits (swapmap s))" by (simp add: used_def)
  from swap_store_fits [OF ok(1,2) this lim, of s'] show ?thesis
    using False k by (simp add: swap_pageout_def swap_slot_def)
qed

lemma write_victim_fits:
  assumes inv: "vm_inv s" "swap_inv s" and m: "maps s vic f" and st: "can_store E s"
  shows "write_victim E (of_nat f) vic s \<noteq> Inl Exit_Failure"
proof
  assume ex: "write_victim E (of_nat f) vic s = Inl Exit_Failure"
  have sz: "sizes_ok s" and en: "entries_ok s" and fm: "f < memsize s"
    using inv m by (auto simp: vm_inv_def holds_def)
  obtain e where e: "pgtbls s vic = Some e" using m by (auto simp: maps_def)
  have fl: "pte_dirty e" "\<not> pte_onswap e" using en e m by (auto simp: entries_ok_def entry_ok_def maps_def)
  let ?s1 = "pte_write s vic (e\<lparr>pt_frame := pt_frame e AND NOT PG_DIRTY\<rparr>)"
  have so: "slot_of s vic = (if swap_off e = INVALID_SWAP then None else Some (swap_off e))"
    using e by (simp add: slot_of_def)
  have cap: "unat (nbits (swapmap s)) \<le> 2 ^ 27" and wf: "bm_wf (swapmap s)"
    and known: "\<And>x. slot_of s vic = Some x \<Longrightarrow> \<exists>k \<in> used (swapmap s). x = slot_off k"
    using inv(2) by (auto simp: swap_inv_def)
  have off: "int_of_off (swap_off e) = swap_off e"
  proof (cases "swap_off e = INVALID_SWAP")
    case False
    then obtain k where k: "k \<in> used (swapmap s)" "swap_off e = slot_off k" using known so by auto
    then have "k < 2 ^ 27" using cap by (auto simp: used_def)
    then show ?thesis using k by (simp add: int_of_off_slot)
  qed (simp add: int_of_off_invalid)
  have "swap_off e = INVALID_SWAP \<and> \<not> slots_full ?s1 \<or> (\<exists>k \<in> used (swapmap ?s1). swap_off e = slot_off k)"
    using st m so known by (cases "swap_off e = INVALID_SWAP") (auto simp: can_store_def slots_full_def)
  then have fit: "swap_pageout E (of_nat f) (swap_off e) ?s1 \<noteq> Inr (INVALID_SWAP, t)" for t
    using sz fm wf cap st by (intro swap_pageout_fits) (auto simp: can_store_def)
  obtain r t where run: "swap_pageout E (of_nat f) (swap_off e) ?s1 = Inr (r, t)" and r: "r \<noteq> INVALID_SWAP"
    and t: "r = INVALID_SWAP \<or> t = ?s1\<lparr>swapmap := swapmap t, swapfile := swapfile t\<rparr>"
  proof -
    have so': "swap_off e = INVALID_SWAP \<or> (\<exists>k \<in> used (swapmap ?s1). swap_off e = slot_off k)"
    proof (cases "swap_off e = INVALID_SWAP")
      case False
      then show ?thesis using known [of "swap_off e"] so by simp
    qed simp
    show thesis
      by (rule swap_pageout_contract [of ?s1 f "swap_off e" E]) (use sz fm wf cap so' fit that in auto)
  qed
  have "pgtbls t vic = pgtbls ?s1 vic" using t r by (metis sim.select_convs(4) sim.surjective sim.update_convs(10,11))
  then show False using ex e fl off run r
    by (auto simp: write_victim_def pte_read_def pte_frame_upd_Some Let_def)
qed

section \<open>The slots after each step\<close>

lemma slots_step_refl: "slots_step s s"
  by (simp add: slots_step_def)

lemma slots_step_same:
  assumes "slots_step s t" and "\<And>p. slot_of t' p = slot_of t p" and "swapmap t' = swapmap t"
  shows "slots_step s t'"
  using assms by (simp add: slots_step_def)

lemma slots_step_core:
  assumes "core s' = core s"
  shows "slots_step s s' \<longleftrightarrow> True" "slots_step t s' \<longleftrightarrow> slots_step t s"
    "slots_step s' t \<longleftrightarrow> slots_step s t"
  using slot_of_core [OF assms] core_fields(9) [OF assms] maps_core [OF assms]
  by (simp_all add: slots_step_def)

lemma can_store_core:
  assumes "core s' = core s"
  shows "can_store E s' \<longleftrightarrow> can_store E s"
  using slot_of_core [OF assms] core_fields(9) [OF assms] maps_core [OF assms]
  by (simp add: can_store_def slots_full_def)

lemma slots_grown:
  assumes g: "grown s s'"
  shows "slots_step s' t \<longleftrightarrow> slots_step s t" "can_store E s' \<longleftrightarrow> can_store E s"
proof -
  have b: "swapmap s' = swapmap s" using g unfolding grown_def by (metis (no_types) sim.ext_inject sim.surjective sim.update_convs(3,4))
  show "slots_step s' t \<longleftrightarrow> slots_step s t" "can_store E s' \<longleftrightarrow> can_store E s"
    by (simp_all add: slots_step_def can_store_def slots_full_def b grown_slot_of [OF g] grown_maps [OF g])
qed

text \<open>Updates of the frame word and of \<open>physmem\<close> leave the slots alone.\<close>

lemma slots_frame_upd:
  "pte_frame_upd f p s = Inr t \<Longrightarrow> slot_of t q = slot_of s q"
  "pte_frame_upd f p s = Inr t \<Longrightarrow> swapmap t = swapmap s"
  by (auto simp: pte_frame_upd_def bindE_Inr_iff pte_read_Inr slot_of_def)

lemma slots_init_frame:
  "init_frame fr x s = Inr t \<Longrightarrow> slot_of t q = slot_of s q"
  "init_frame fr x s = Inr t \<Longrightarrow> swapmap t = swapmap s"
  by (auto simp: init_frame_def Let_def bindE_Inr_iff slot_of_def)

lemma slots_claim:
  "claim_frame fr p s = Inr t \<Longrightarrow> slot_of t q = slot_of s q"
  "claim_frame fr p s = Inr t \<Longrightarrow> swapmap t = swapmap s"
  by (auto simp: claim_frame_def bindE_Inr_iff slot_of_def)

lemma slots_counts:
  "slot_of (count_miss s) q = slot_of s q" "swapmap (count_miss s) = swapmap s"
  "slot_of (count_hit s) q = slot_of s q" "swapmap (count_hit s) = swapmap s"
  by (simp_all add: count_miss_def count_hit_def slot_of_def)

lemmas slots_same = slots_frame_upd slots_init_frame slots_claim slots_counts

lemma slots_mark_access:
  assumes "mark_access ty p s = Inr t"
  shows "slot_of t q = slot_of s q" "swapmap t = swapmap s"
  using assms by (auto simp: mark_access_def bindE_Inr_iff slots_same split: if_splits)

lemma write_victim_slots:
  assumes inv: "vm_inv s" "swap_inv s" and m: "maps s vic f" and run: "write_victim E (of_nat f) vic s = Inr s'"
  shows "slots_step s s'"
proof (rule write_victim_ok [OF inv m, of E])
  assume "write_victim E (of_nat f) vic s = Inl Exit_Failure"
  then show ?thesis using run by simp
next
  fix e k b fl s2
  assume ok: "pgtbls s vic = Some e" "write_victim E (of_nat f) vic s = Inr s2"
    "s2 = pte_write (s\<lparr>swapmap := b, swapfile := fl, evict_dirty_count := Suc (evict_dirty_count s)\<rparr>)
      vic (e\<lparr>pt_frame := pt_frame e AND NOT PG_DIRTY, swap_off := slot_off k\<rparr>)"
    "nbits b = nbits (swapmap s)"
    "swap_off e = INVALID_SWAP \<longrightarrow> k \<notin> used (swapmap s) \<and> used b = insert k (used (swapmap s))"
    "swap_off e \<noteq> INVALID_SWAP \<longrightarrow> swap_off e = slot_off k \<and> b = swapmap s"
  have s': "s' = s2" using ok(2) run by simp
  have sl: "slot_of s' q = (if q = vic then Some (slot_off k) else slot_of s q)" for q
    by (simp add: s' ok(3)) (simp add: slot_of_def)
  have sm: "swapmap s' = b" by (simp add: s' ok(3))
  have old: "slot_of s vic = (if swap_off e = INVALID_SWAP then None else Some (swap_off e))"
    using ok(1) by (simp add: slot_of_def)
  show ?thesis unfolding slots_step_def sm
  proof (intro conjI ballI allI impI)
    show "nbits b = nbits (swapmap s)" by (rule ok(4))
    show "j \<in> used (swapmap s) \<or> (\<exists>p. slot_of s' p = Some (slot_off j))" if "j \<in> used b" for j
      using that ok(5,6) sl [of vic] by (cases "swap_off e = INVALID_SWAP") auto
    show "slot_of s' p = Some x" if "slot_of s p = Some x" for p x
      using that old ok(6) by (auto simp: sl split: if_splits)
    show "slot_of s p \<noteq> None \<or> (\<exists>f. maps s p f)" if "slot_of s' p \<noteq> None" for p
      using that m by (cases "p = vic") (auto simp: sl)
  qed
qed

context replacement
begin

lemma evict_frame_supply:
  assumes inv: "vm_inv s" "swap_inv s" "used_frames s = {..< memsize s}" "tracks s (used_frames s)"
  shows "can_store E s \<Longrightarrow> evict_frame E evict_fcn s \<noteq> Inl Exit_Failure"
    and "evict_frame E evict_fcn s = Inr (f, s') \<Longrightarrow> slots_step s s'"
proof -
  obtain g s1 where ev: "evict_fcn s = Inr (int g, s1)" and g: "g < memsize s" and c: "core s1 = core s"
    using evict_law [OF inv(1,3)] inv(3,4) by auto
  have i1: "vm_inv s1" "swap_inv s1"
    using inv vm_inv_core [OF c [symmetric]] swap_inv_core [OF c [symmetric]] by auto
  have "g \<in> used_frames s1" using g inv(3) used_frames_core [OF c] by simp
  then obtain vic where vic: "holds s1 g vic" using i1(1) by (auto simp: vm_inv_def frames_ok_def)
  then have mv: "maps s1 vic g" using i1(1) by (simp add: vm_inv_def)
  have run: "evict_frame E evict_fcn s =
      bindE (write_victim E (of_nat g) vic s1) (\<lambda>s2.
      bindE (pte_frame_upd (\<lambda>w. w AND NOT PG_VALID) vic s2) (\<lambda>s3. Inr (g, s3)))"
    using ev vic g by (simp add: evict_frame_def holds_def memsize_def)
  show "evict_frame E evict_fcn s \<noteq> Inl Exit_Failure" if "can_store E s"
    using write_victim_fits [OF i1 mv, of E] that can_store_core [OF c, of E]
    by (auto simp: run bindE_Inl_iff pte_frame_upd_def pte_read_def deref_def split: option.splits)
  show "slots_step s s'" if fin: "evict_frame E evict_fcn s = Inr (f, s')"
  proof -
    obtain s2 where s2: "write_victim E (of_nat g) vic s1 = Inr s2"
      and u: "pte_frame_upd (\<lambda>w. w AND NOT PG_VALID) vic s2 = Inr s'"
      using fin by (auto simp: run bindE_Inr_iff)
    have "slots_step s s2" using write_victim_slots [OF i1 mv s2] slots_step_core(3) [OF c] by simp
    then show ?thesis by (rule slots_step_same) (simp_all add: slots_frame_upd [OF u])
  qed
qed

lemma allocate_frame_supply:
  assumes inv: "vm_inv s" "swap_inv s" "tracks s (used_frames s)"
  shows "can_store E s \<Longrightarrow> allocate_frame E evict_fcn p s \<noteq> Inl Exit_Failure"
    and "allocate_frame E evict_fcn p s = Inr (f, s') \<Longrightarrow> slots_step s s'"
proof -
  note ev = evict_frame_supply [OF inv(1,2) find_free_frame_None inv(3), of E]
  show "allocate_frame E evict_fcn p s \<noteq> Inl Exit_Failure" if "can_store E s"
    using ev(1) that
    by (cases "find_free_frame s") (auto simp: allocate_frame_def bindE_Inl_iff claim_frame_def rd_def split: if_splits)
  assume "allocate_frame E evict_fcn p s = Inr (f, s')"
  then obtain s1 where s1: "(case find_free_frame s of Some i \<Rightarrow> Inr (i, s) | None \<Rightarrow> evict_frame E evict_fcn s) = Inr (f, s1)"
    and cl: "claim_frame f p s1 = Inr s'"
    by (auto simp: allocate_frame_def bindE_Inr_iff)
  have "slots_step s s1" using s1 ev(2) slots_step_refl by (cases "find_free_frame s") auto
  then show "slots_step s s'" by (rule slots_step_same) (simp_all add: slots_claim [OF cl])
qed

lemma fault_new_supply:
  assumes inv: "vm_inv s" "swap_inv s" "tracks s (used_frames s)"
  shows "can_store E s \<Longrightarrow> fault_new E evict_fcn x p s \<noteq> Inl Exit_Failure"
    and "fault_new E evict_fcn x p s = Inr s' \<Longrightarrow> slots_step s s'"
proof -
  note al = allocate_frame_supply [OF inv, of E p]
  show "fault_new E evict_fcn x p s \<noteq> Inl Exit_Failure" if "can_store E s"
    using al(1) that
    by (auto simp: fault_new_def bindE_Inl_iff init_frame_def Let_def pte_frame_upd_def pte_read_def deref_def guardE_def
        split: if_splits option.splits prod.splits)
  assume "fault_new E evict_fcn x p s = Inr s'"
  then obtain f s1 s2 s3 s4 where r: "allocate_frame E evict_fcn p s = Inr (f, s1)" "init_frame f x s1 = Inr s2"
    "pte_frame_upd (\<lambda>_. push_bit PAGE_SHIFT (of_nat f)) p s2 = Inr s3"
    "pte_frame_upd (\<lambda>w. w OR PG_DIRTY) p s3 = Inr s4" "s' = count_miss s4"
    by (auto simp: fault_new_def bindE_Inr_iff)
  from al(2) [OF r(1)] show "slots_step s s'"
    by (rule slots_step_same) (simp_all add: r(5) slots_same slots_init_frame [OF r(2)] slots_frame_upd [OF r(3)]
        slots_frame_upd [OF r(4)])
qed

end

section \<open>The tables\<close>

lemma tables_room:
  assumes "tables_inv s" and "i < PTRS_PER_PGDIR" and "pgdir s ! i AND 1 = 0"
  shows "card (fst ` dom (pgtbls s)) < PTRS_PER_PGDIR"
proof -
  let ?I = "{i. i < PTRS_PER_PGDIR \<and> pgdir s ! i AND 1 \<noteq> 0}"
  have "card (fst ` dom (pgtbls s)) \<le> card ((\<lambda>i. pgdir s ! i AND PAGE_MASK) ` ?I)"
    using assms(1) unfolding tables_inv_def by (intro card_mono) auto
  also have "\<dots> \<le> card ?I" by (rule card_image_le) simp
  also have "\<dots> < card {..< PTRS_PER_PGDIR}"
    using assms(2,3) by (intro psubset_card_mono) auto
  finally show ?thesis by simp
qed

lemma tables_inv_same:
  "tables_inv s \<Longrightarrow> dom (pgtbls t) = dom (pgtbls s) \<Longrightarrow> pgdir t = pgdir s \<Longrightarrow> tables_inv t"
  by (simp add: tables_inv_def)

lemma lookup_supply:
  assumes E: "memalign_serves E" and t: "tables_inv s" and sz: "sizes_ok s" and x: "unat x < 2 ^ 36"
  shows "lookup_pte E x s \<noteq> Inl Exit_Failure"
proof -
  have i: "unat (PGDIR_INDEX x) < PTRS_PER_PGDIR" by (rule PGDIR_INDEX_bound [OF x])
  have "posix_memalign E (pgtbls s) \<noteq> None" if "pgdir s ! unat (PGDIR_INDEX x) AND 1 = 0"
    using tables_room [OF t i that] E by (simp add: memalign_serves_def)
  then show ?thesis using i sz
    by (auto simp: lookup_pte_def sizes_ok_def init_second_level_def bindE_Inl_iff Let_def split: option.splits if_splits)
qed

lemma lookup_tables:
  assumes E: "memalign_ok E" and t: "tables_inv s" and sz: "sizes_ok s" and x: "unat x < 2 ^ 36"
    and run: "lookup_pte E x s = Inr (p, s1)"
  shows "tables_inv s1"
proof -
  define i where "i = unat (PGDIR_INDEX x)"
  have i: "i < PTRS_PER_PGDIR" using PGDIR_INDEX_bound [OF x] by (simp add: i_def)
  have len: "length (pgdir s) = PTRS_PER_PGDIR" using sz by (simp add: sizes_ok_def)
  show ?thesis
  proof (cases "pgdir s ! i AND 1 = 0")
    case False
    then show ?thesis using run i len t by (simp add: lookup_pte_def i_def [symmetric])
  next
    case True
    from init_second_level_ok [OF E, of s] show ?thesis
    proof (elim disjE exE conjE)
      assume "init_second_level E s = Inl Exit_Failure"
      then show ?thesis using run True i len by (simp add: lookup_pte_def i_def [symmetric])
    next
      fix base s2
      assume r: "init_second_level E s = Inr (base OR 1, s2)" and base: "base AND 0xFFF = 0"
        and s2: "s2 = s\<lparr>pgtbls := (\<lambda>(b, i). if b = base \<and> i < PTRS_PER_PGTBL then Some fresh_pte
                                  else pgtbls s (b, i))\<rparr>"
      let ?d = "(pgdir s)[i := base OR 1]"
      have s1: "pgdir s1 = ?d" "pgtbls s1 = pgtbls s2"
        using run r True i len by (auto simp: lookup_pte_def i_def [symmetric] s2)
      note tag = tagged_pointer [OF base]
      have here: "base \<in> (\<lambda>i. ?d ! i AND PAGE_MASK) ` {i. i < PTRS_PER_PGDIR \<and> ?d ! i AND 1 \<noteq> 0}"
        by (rule image_eqI [of _ _ i]) (use i len tag in simp_all)
      have old: "b \<in> (\<lambda>i. ?d ! i AND PAGE_MASK) ` {i. i < PTRS_PER_PGDIR \<and> ?d ! i AND 1 \<noteq> 0}"
        if "b \<in> fst ` dom (pgtbls s)" for b
      proof -
        have "b \<in> (\<lambda>i. pgdir s ! i AND PAGE_MASK) ` {i. i < PTRS_PER_PGDIR \<and> pgdir s ! i AND 1 \<noteq> 0}"
          by (rule subsetD [OF t [unfolded tables_inv_def] that])
        then obtain j where j: "j < PTRS_PER_PGDIR" "pgdir s ! j AND 1 \<noteq> 0" "b = pgdir s ! j AND PAGE_MASK"
          by (elim imageE CollectE conjE)
        then have "j \<noteq> i" using True by auto
        then have "?d ! j = pgdir s ! j" by simp
        then show ?thesis using j(1,2) unfolding j(3) by (intro image_eqI [of _ _ j]) simp_all
      qed
      show ?thesis unfolding tables_inv_def s1
      proof (rule subsetI)
        fix b assume "b \<in> fst ` dom (pgtbls s2)"
        then obtain j y where "pgtbls s2 (b, j) = Some y" by force
        then have "b = base \<or> pgtbls s (b, j) = Some y" by (auto simp: s2 split: if_splits)
        then have "b = base \<or> b \<in> fst ` dom (pgtbls s)" by force
        then show "b \<in> (\<lambda>i. ?d ! i AND PAGE_MASK) ` {i. i < PTRS_PER_PGDIR \<and> ?d ! i AND 1 \<noteq> 0}"
          using here old by blast
      qed
    qed
  qed
qed

lemma dom_pte_write: "pgtbls s p = Some e \<Longrightarrow> dom (pgtbls (pte_write s p e')) = dom (pgtbls s)"
  by (simp add: insert_absorb domI)

lemma frame_upd_tables:
  assumes "pte_frame_upd f p s = Inr t"
  shows "dom (pgtbls t) = dom (pgtbls s)" "pgdir t = pgdir s"
proof -
  obtain e where e: "pgtbls s p = Some e" and t: "t = pte_write s p (e\<lparr>pt_frame := f (pt_frame e)\<rparr>)"
    using assms by (auto simp: pte_frame_upd_def bindE_Inr_iff pte_read_Inr)
  show "dom (pgtbls t) = dom (pgtbls s)" unfolding t by (rule dom_pte_write [OF e])
  show "pgdir t = pgdir s" by (simp add: t)
qed

lemma mark_access_tables:
  assumes "mark_access ty p s = Inr t"
  shows "dom (pgtbls t) = dom (pgtbls s)" "pgdir t = pgdir s" "pgtbls t p \<noteq> None"
proof -
  obtain e where e: "pgtbls s p = Some e"
    using assms by (auto simp: mark_access_def bindE_Inr_iff pte_frame_upd_def pte_read_Inr)
  have t: "t = pte_write s p (e\<lparr>pt_frame := access_word ty (pt_frame e)\<rparr>)"
    using assms by (simp add: mark_access_eq [OF e])
  show "dom (pgtbls t) = dom (pgtbls s)" unfolding t by (rule dom_pte_write [OF e])
  show "pgdir t = pgdir s" "pgtbls t p \<noteq> None" by (simp_all add: t)
qed

lemma core_tables:
  assumes "core t = core s"
  shows "dom (pgtbls t) = dom (pgtbls s)" "pgdir t = pgdir s"
  using core_None [OF assms] core_fields(2) [OF assms] by (auto simp: dom_def)

context replacement
begin

lemma fault_new_tables:
  assumes inv: "vm_inv s" "swap_inv s" "tracks s (used_frames s)" and e: "pgtbls s p = Some e" "\<not> pte_valid e"
    and run: "fault_new E evict_fcn x p s = Inr s'"
  shows "dom (pgtbls s') = dom (pgtbls s)" "pgdir s' = pgdir s"
proof -
  obtain f s1 s2 s3 s4 where r: "allocate_frame E evict_fcn p s = Inr (f, s1)" "init_frame f x s1 = Inr s2"
    "pte_frame_upd (\<lambda>_. push_bit PAGE_SHIFT (of_nat f)) p s2 = Inr s3"
    "pte_frame_upd (\<lambda>w. w OR PG_DIRTY) p s3 = Inr s4" "s' = count_miss s4"
    using run by (auto simp: fault_new_def bindE_Inr_iff)
  have al: "alloc_frame_ok s f p s1" using allocate_frame_ok [OF inv e, of E] r(1) by auto
  have "dom (pgtbls s1) = dom (pgtbls s)" "pgdir s1 = pgdir s" using al by (auto simp: alloc_frame_ok_def dom_def)
  moreover have "pgtbls s2 = pgtbls s1" "pgdir s2 = pgdir s1"
    using r(2) by (auto simp: init_frame_def Let_def bindE_Inr_iff)
  moreover note frame_upd_tables [OF r(3)] frame_upd_tables [OF r(4)]
  ultimately show "dom (pgtbls s') = dom (pgtbls s)" "pgdir s' = pgdir s" by (simp_all add: r(5) count_miss_def)
qed

text \<open>After the fault is resolved nothing can fail.\<close>

lemma resolved_runs:
  assumes inv: "vm_inv s" "dir_inv s" "swap_inv s" "stats_inv s" "tracks s (used_frames s)"
    and e: "pgtbls s p = Some e" and run: "resolve_fault E evict_fcn x p s = Inr s2"
  shows "\<exists>s3 s4. mark_access ty p s2 = Inr s3 \<and> ref_fcn p s3 = Inr s4 \<and> core s4 = core s3"
proof (cases "pte_valid e")
  case True
  obtain f s3 where r: "mark_access ty p s2 = Inr s3" "core s3 = core (count_hit s)" "maps s p f"
    "tracks s3 (used_frames s3)"
    using resolve_hit_ok [OF inv e True, of E x ty] run by auto
  have same: "same_vm s (count_hit s)" by (simp add: same_vm_def count_hit_def)
  have "vm_inv s3" "maps s3 p f"
    using vm_inv_core [OF r(2) [symmetric]] vm_inv_same [OF same] inv(1) r(3) maps_core [OF r(2)]
      same_vm_obs(1) [OF same] by auto
  then show ?thesis using ref_law [of s3 p f, OF _ _ r(4)] r(1) by blast
next
  case False
  have "\<not> pte_onswap e" using inv(1) e by (auto simp: vm_inv_def entries_ok_def entry_ok_def)
  then have "fault_new E evict_fcn x p s = Inr s2"
    using run e False by (simp add: resolve_fault_def pte_read_def)
  then obtain f s3 where r: "mark_access ty p s2 = Inr s3" "loaded E s x p f s3" "tracks s3 (used_frames s3 - {f})"
    using fault_new_ok [OF inv e False, of E x ty] by auto
  then show ?thesis using ref_law [of s3 p f, OF _ _ r(3)] by (auto simp: loaded_def)
qed

lemma resolve_fault_supply:
  assumes inv: "vm_inv s" "swap_inv s" "tracks s (used_frames s)" and e: "pgtbls s p = Some e"
  shows "can_store E s \<Longrightarrow> resolve_fault E evict_fcn x p s \<noteq> Inl Exit_Failure"
    and "resolve_fault E evict_fcn x p s = Inr s2 \<Longrightarrow> slots_step s s2"
    and "resolve_fault E evict_fcn x p s = Inr s2 \<Longrightarrow> dom (pgtbls s2) = dom (pgtbls s) \<and> pgdir s2 = pgdir s"
proof -
  have "\<not> pte_onswap e" using inv(1) e by (auto simp: vm_inv_def entries_ok_def entry_ok_def)
  then have r: "resolve_fault E evict_fcn x p s =
      (if pte_valid e then Inr (count_hit s) else fault_new E evict_fcn x p s)"
    using e by (simp add: resolve_fault_def pte_read_def)
  note fn = fault_new_supply [OF inv, of E x p]
  show "resolve_fault E evict_fcn x p s \<noteq> Inl Exit_Failure" if "can_store E s"
    using fn(1) that by (simp add: r)
  have hit: "slots_step s (count_hit s)" "dom (pgtbls (count_hit s)) = dom (pgtbls s)" "pgdir (count_hit s) = pgdir s"
    by (rule slots_step_same [OF slots_step_refl]) (simp_all add: slots_counts, simp_all add: count_hit_def)
  show "slots_step s s2" if "resolve_fault E evict_fcn x p s = Inr s2"
    using fn(2) [of s2] that hit(1) by (simp add: r split: if_splits)
  show "dom (pgtbls s2) = dom (pgtbls s) \<and> pgdir s2 = pgdir s" if "resolve_fault E evict_fcn x p s = Inr s2"
    using fault_new_tables [OF inv e, of E x s2] that hit(2,3) by (auto simp: r split: if_splits)
qed

lemma find_physpage_supply:
  assumes inv: "sim_inv tracks s" and E: "memalign_ok E" and x: "unat x < 2 ^ 36" and t: "tables_inv s"
  shows "memalign_serves E \<Longrightarrow> can_store E s \<Longrightarrow> find_physpage E ref_fcn evict_fcn x ty s \<noteq> Inl Exit_Failure"
    and "find_physpage E ref_fcn evict_fcn x ty s = Inr (a, s') \<Longrightarrow> slots_step s s' \<and> tables_inv s'"
proof -
  have i0: "vm_inv s" "dir_inv s" "swap_inv s" "stats_inv s" "tracks s (used_frames s)"
    using inv by (auto simp: sim_inv_def)
  have sz: "sizes_ok s" using i0(1) by (simp add: vm_inv_def)
  have step: "grown s s1 \<and> vm_inv s1 \<and> dir_inv s1 \<and> swap_inv s1 \<and> stats_inv s1 \<and> tracks s1 (used_frames s1) \<and>
      (\<exists>e. pgtbls s1 p = Some e)" if "lookup_pte E x s = Inr (p, s1)" for p s1
  proof -
    obtain e where g: "grown s s1" "dir_inv s1" "pgtbls s1 p = Some e"
      using lookup_pte_ok [OF E x sz i0(2)] \<open>lookup_pte E x s = Inr (p, s1)\<close> by auto
    note gi = grown_inv [OF g(1) i0(1,3,4)]
    have "tracks s1 (used_frames s1)" using tracks_view [OF gi(7) [symmetric] i0(5)] gi(4) by simp
    then show ?thesis using g gi(1-3) by blast
  qed
  show "find_physpage E ref_fcn evict_fcn x ty s \<noteq> Inl Exit_Failure" if s: "memalign_serves E" "can_store E s"
  proof (cases "lookup_pte E x s")
    case (Inl er)
    then show ?thesis using lookup_supply [OF s(1) t sz x] by (simp add: find_physpage_def)
  next
    case (Inr ps)
    obtain p s1 where ps: "ps = (p, s1)" by (cases ps)
    note look = Inr [unfolded ps]
    from step [OF look] obtain e where i1: "grown s s1" "vm_inv s1" "dir_inv s1" "swap_inv s1" "stats_inv s1"
      "tracks s1 (used_frames s1)" "pgtbls s1 p = Some e" by blast
    have cs: "can_store E s1" using slots_grown(2) [OF i1(1)] s(2) by simp
    note ne = resolve_fault_supply(1) [OF i1(2,4,6,7) cs, of x]
    show ?thesis
    proof (cases "resolve_fault E evict_fcn x p s1")
      case Inl
      then show ?thesis using ne look by (simp add: find_physpage_def)
    next
      case (Inr s2)
      obtain s3 s4 where r: "mark_access ty p s2 = Inr s3" "ref_fcn p s3 = Inr s4" "core s4 = core s3"
        using resolved_runs [OF i1(2-7) Inr] by blast
      have "pgtbls s4 p \<noteq> None" using mark_access_tables(3) [OF r(1)] core_None [OF r(3)] by simp
      then show ?thesis using look Inr r by (auto simp: find_physpage_def pte_read_def)
    qed
  qed
  assume run: "find_physpage E ref_fcn evict_fcn x ty s = Inr (a, s')"
  then obtain p s1 s2 s3 where r: "lookup_pte E x s = Inr (p, s1)" "resolve_fault E evict_fcn x p s1 = Inr s2"
    "mark_access ty p s2 = Inr s3" "ref_fcn p s3 = Inr s'"
    by (auto simp: find_physpage_def bindE_Inr_iff)
  from step [OF r(1)] obtain e where i1: "grown s s1" "vm_inv s1" "dir_inv s1" "swap_inv s1" "stats_inv s1"
    "tracks s1 (used_frames s1)" "pgtbls s1 p = Some e" by blast
  have c: "core s' = core s3" using resolved_runs [OF i1(2-7) r(2), of ty] r(3,4) by auto
  note rf = resolve_fault_supply(2,3) [OF i1(2,4,6,7) r(2)]
  have "slots_step s s2" using rf(1) slots_grown(1) [OF i1(1)] by simp
  then have "slots_step s s3" by (rule slots_step_same) (simp_all add: slots_mark_access [OF r(3)])
  then have "slots_step s s'" using slots_step_core(2) [OF c] by simp
  moreover have "tables_inv s'"
    by (rule tables_inv_same [OF lookup_tables [OF E t sz x r(1)]])
      (simp_all add: core_tables [OF c] mark_access_tables [OF r(3)] rf(2))
  ultimately show "slots_step s s' \<and> tables_inv s'" ..
qed

end

section \<open>A whole run\<close>

text \<open>The pages in memory or in the swap file are those of the addresses \<open>A\<close>.\<close>

definition page_of :: "u64 set \<Rightarrow> sim \<Rightarrow> pteptr \<Rightarrow> bool" where
  "page_of A s p \<longleftrightarrow> (\<exists>x \<in> A. unat x < 2 ^ 36 \<and> walk s x = Some p)"

definition pages_inv :: "u64 set \<Rightarrow> sim \<Rightarrow> bool" where
  "pages_inv A s \<longleftrightarrow> tables_inv s \<and>
     (\<forall>p. slot_of s p \<noteq> None \<or> (\<exists>f. maps s p f) \<longrightarrow> page_of A s p) \<and>
     (\<forall>k \<in> used (swapmap s). \<exists>p. slot_of s p = Some (slot_off k))"

text \<open>With no more addresses than slots, a page that has none finds one free.\<close>

lemma pages_inv_can_store:
  assumes inv: "pages_inv A s" and A: "finite A" "card A \<le> unat (nbits (swapmap s))"
    and lim: "unat (nbits (swapmap s)) * SIMPAGESIZE \<le> file_limit E"
  shows "can_store E s"
proof -
  let ?n = "unat (nbits (swapmap s))" and ?W = "(\<lambda>x. the (walk s x)) ` A"
  have W: "p \<in> ?W" if "page_of A s p" for p using that by (force simp: page_of_def)
  have "\<not> slots_full s" if m: "maps s p f" and none: "slot_of s p = None" for p f
  proof
    assume full: "slots_full s"
    have "\<forall>k \<in> {..< ?n}. \<exists>q. slot_of s q = Some (slot_off k)"
      using inv full by (simp add: pages_inv_def slots_full_def)
    then obtain g where g: "\<forall>k \<in> {..< ?n}. slot_of s (g k) = Some (slot_off k)" by metis
    have inj: "inj_on g {..< ?n}"
    proof (rule inj_onI)
      fix j k assume jk: "j \<in> {..< ?n}" "k \<in> {..< ?n}" "g j = g k"
      have "Some (slot_off j) = Some (slot_off k)" using g jk by metis
      then show "j = k" by simp
    qed
    have pW: "p \<in> ?W" using inv m by (intro W) (auto simp: pages_inv_def)
    have "g k \<in> ?W - {p}" if "k \<in> {..< ?n}" for k
    proof -
      have "slot_of s (g k) \<noteq> None" using g that by simp
      then have "page_of A s (g k)" using inv by (simp add: pages_inv_def)
      moreover have "g k \<noteq> p" using g that none by auto
      ultimately show ?thesis using W by simp
    qed
    then have "g ` {..< ?n} \<subseteq> ?W - {p}" by (rule image_subsetI)
    then have "card (g ` {..< ?n}) \<le> card (?W - {p})" using A(1) by (intro card_mono) simp_all
    then have "?n \<le> card (?W - {p})" using card_image [OF inj] by simp
    also have "\<dots> < card ?W" using pW A(1) by (intro psubset_card_mono) auto
    also have "\<dots> \<le> card A" by (rule card_image_le [OF A(1)])
    finally show False using A(2) by simp
  qed
  then show ?thesis using lim by (auto simp: can_store_def)
qed

text \<open>\<open>access_mem\<close> leaves tables, entries and swap file as \<open>find_physpage\<close> returned them.\<close>

lemma access_mem_tables:
  assumes "access_mem E ref_fcn evict_fcn ty x s = Inr s'"
  obtains a s1 where "find_physpage E ref_fcn evict_fcn x ty s = Inr (a, s1)" and "pgtbls s' = pgtbls s1"
    and "pgdir s' = pgdir s1" and "swapmap s' = swapmap s1"
proof -
  obtain a s1 where f: "find_physpage E ref_fcn evict_fcn x ty s = Inr (a, s1)"
    using assms by (auto simp: access_mem_def bindE_Inr_iff)
  show thesis
    by (rule that [OF f]) (use assms f in \<open>auto simp: access_mem_def bindE_Inr_iff Let_def split: if_splits\<close>)
qed

context replacement
begin

lemma access_mem_supply:
  assumes inv: "sim_inv tracks s" and E: "memalign_ok E" and x: "page_addr x" and sup: "supplied E s"
  shows "access_mem E ref_fcn evict_fcn ty x s \<noteq> Inl Exit_Failure"
proof -
  have va: "unat x < 2 ^ 36" using x by (simp add: page_addr_def)
  have "find_physpage E ref_fcn evict_fcn x ty s \<noteq> Inl Exit_Failure"
    using find_physpage_supply(1) [OF inv E va] sup by (simp add: supplied_def)
  then show ?thesis by (auto simp: access_mem_def bindE_Inl_iff Let_def guardE_def split: if_splits)
qed

lemma access_mem_pages:
  assumes inv: "sim_inv tracks s" and E: "memalign_ok E" and x: "page_addr x" "x \<in> A" and pg: "pages_inv A s"
    and run: "access_mem E ref_fcn evict_fcn ty x s = Inr s'"
  shows "pages_inv A s'" and "nbits (swapmap s') = nbits (swapmap s)"
proof -
  have va: "unat x < 2 ^ 36" using x by (simp add: page_addr_def)
  have tb: "tables_inv s" using pg by (simp add: pages_inv_def)
  obtain a s1 where f: "find_physpage E ref_fcn evict_fcn x ty s = Inr (a, s1)"
    and same: "pgtbls s' = pgtbls s1" "pgdir s' = pgdir s1" "swapmap s' = swapmap s1"
    by (rule access_mem_tables [OF run])
  have sl: "slot_of s' q = slot_of s1 q" "walk s' y = walk s1 y" "maps s' q g \<longleftrightarrow> maps s1 q g" for q y g
    by (simp_all add: slot_of_def walk_def maps_def same)
  have st: "slots_step s s1" and t1: "tables_inv s1" using find_physpage_supply(2) [OF inv E va tb f] by auto
  obtain p g where r: "walk_grows s s1" "walk s1 x = Some p" "hit_result s p g s1 \<or> miss_result E s x p g s1"
    using find_physpage_ok [OF inv E va, of ty] f by auto
  have grow: "page_of A s1 q" if "page_of A s q" for q
    using that r(1) unfolding page_of_def walk_grows_def by blast
  have maps: "q = p \<or> maps s q h" if "maps s1 q h" for q h
    using r(3) that unfolding hit_result_def miss_result_def by blast
  have here: "page_of A s1 p" using r(2) x va by (auto simp: page_of_def)
  have "page_of A s1 q" if "slot_of s1 q \<noteq> None \<or> (\<exists>h. maps s1 q h)" for q
  proof -
    have "q = p \<or> slot_of s q \<noteq> None \<or> (\<exists>h. maps s q h)" using that maps st unfolding slots_step_def by blast
    then show ?thesis using here grow pg unfolding pages_inv_def by blast
  qed
  moreover have "\<exists>q. slot_of s1 q = Some (slot_off k)" if "k \<in> used (swapmap s1)" for k
    using that st pg unfolding slots_step_def pages_inv_def by blast
  moreover have "page_of A s' q \<longleftrightarrow> page_of A s1 q" for q by (simp add: page_of_def sl)
  moreover have "tables_inv s'" using t1 by (simp add: tables_inv_def same)
  ultimately show "pages_inv A s'" by (simp add: pages_inv_def sl same)
  show "nbits (swapmap s') = nbits (swapmap s)" using st by (simp add: same slots_step_def)
qed

lemma access_all_supply:
  assumes E: "memalign_ok E" "memalign_serves E" and A: "finite A" "card A \<le> n" "n * SIMPAGESIZE \<le> file_limit E"
  shows "sim_inv tracks s \<Longrightarrow> content_inv s \<Longrightarrow> pages_inv A s \<Longrightarrow> unat (nbits (swapmap s)) = n \<Longrightarrow>
    \<forall>r \<in> set rs. page_addr (snd r) \<and> snd r \<in> A \<Longrightarrow> access_all E ref_fcn evict_fcn rs s \<noteq> Inl Exit_Failure"
proof (induction rs arbitrary: s)
  case Nil
  then show ?case by simp
next
  case (Cons r rs)
  have r: "page_addr (snd r)" "snd r \<in> A" using Cons.prems(5) by auto
  have "supplied E s"
    using pages_inv_can_store [OF Cons.prems(3) A(1)] A(2,3) E(2) Cons.prems(3,4)
    by (simp add: supplied_def pages_inv_def)
  note ne = access_mem_supply [OF Cons.prems(1) E(1) r(1) this, of "fst r"]
  then obtain s1 where s1: "access_mem E ref_fcn evict_fcn (fst r) (snd r) s = Inr s1" "sim_inv tracks s1"
    "accessed s (fst r) (snd r) s1"
    using access_mem_ok [OF Cons.prems(1,2) E(1) r(1), of "fst r"] by blast
  have "content_inv s1" using s1(3) by (simp add: accessed_def)
  moreover note access_mem_pages [OF Cons.prems(1) E(1) r Cons.prems(3) s1(1)]
  ultimately show ?case using Cons.IH [OF s1(2)] Cons.prems(4,5) s1(1) by simp
qed

end

end
