(* ===== verification/Mem_Main.thy ===== *)
theory Mem_Main
  imports Mem_Belady Mem_Supply
begin

text \<open>
  \<open>main\<close> of sim.c after the command line is parsed: the table of algorithms, the
  set-up of the data structures and the replay, with the statistics it prints.
  The record \<open>config\<close> holds the options and what the run finds outside: the bytes
  of the trace, the contents \<open>malloc\<close> leaves in \<open>physmem\<close>, the values of
  \<open>random()\<close>, the value of the uninitialised variable \<open>type\<close>.
\<close>

record alg_functions =
  alg_name :: string
  alg_init :: "sim \<Rightarrow> sim res"
  alg_ref :: ref_fun
  alg_evict :: evict_fun

record config =
  c_memsize :: u32
  c_swapsize :: u32
  c_alg :: "string option"
  c_input :: "string option"
  c_tracefile :: "string option"
  c_mkstemp_ok :: bool
  c_mallocs :: "bool \<times> bool"
  c_physmem :: "u8 list"
  c_randoms :: "nat \<Rightarrow> nat"
  c_type :: char

definition algs :: "os_env \<Rightarrow> config \<Rightarrow> alg_functions list" where
  "algs E cfg =
    [\<lparr>alg_name = ''rand'', alg_init = (\<lambda>s. Inr (rand_init s)), alg_ref = rand_ref, alg_evict = rand_evict\<rparr>,
     \<lparr>alg_name = ''lru'', alg_init = (\<lambda>s. Inr (lru_init s)), alg_ref = lru_ref, alg_evict = lru_evict\<rparr>,
     \<lparr>alg_name = ''fifo'', alg_init = (\<lambda>s. Inr (fifo_init s)), alg_ref = fifo_ref, alg_evict = fifo_evict\<rparr>,
     \<lparr>alg_name = ''clock'', alg_init = (\<lambda>s. Inr (clock_init s)), alg_ref = clock_ref, alg_evict = clock_evict\<rparr>,
     \<lparr>alg_name = ''opt'', alg_init = opt_init E (c_type cfg, 0) (c_tracefile cfg),
       alg_ref = opt_ref E, alg_evict = opt_evict\<rparr>]"

definition zero_frame :: frame where
  "zero_frame = \<lparr>in_use = False, fpte = None, fnext = None, fprev = None\<rparr>"

text \<open>The globals after \<open>calloc\<close> and \<open>malloc\<close>.\<close>

definition alloc_globals :: "config \<Rightarrow> sim" where
  "alloc_globals cfg = \<lparr>coremap = replicate (unat (c_memsize cfg)) zero_frame,
     physmem = c_physmem cfg, pgdir = replicate PTRS_PER_PGDIR 0, pgtbls = Map.empty,
     hit_count = 0, miss_count = 0, ref_count = 0, evict_clean_count = 0, evict_dirty_count = 0,
     swapfile = [], swapmap = \<lparr>nbits = 0, v = []\<rparr>, fifo_evict_g = 0, oldest_page = 0,
     lru_head = None, lru_tail = None, hashmap = [], coremap_head = None, reference_string = [],
     position = 0, vnodes = [], onodes = [], check_errors = 0, randoms = c_randoms cfg\<rparr>"

definition sim_main :: "os_env \<Rightarrow> config \<Rightarrow> sim res" where
  "sim_main E cfg =
    bindE (case c_input cfg of None \<Rightarrow> Inl Exit_Failure | Some bytes \<Rightarrow> Inr bytes) (\<lambda>bytes.
    bindE (swap_init (c_mkstemp_ok cfg) (c_mallocs cfg) (c_swapsize cfg) (alloc_globals cfg)) (\<lambda>(_, s1).
    let s2 = init_pagetable s1 in
    bindE (case c_alg cfg of None \<Rightarrow> Inl Exit_Failure | Some a \<Rightarrow> Inr a) (\<lambda>replacement_alg.
    bindE (case find (\<lambda>a. alg_name a = replacement_alg) (algs E cfg) of
        None \<Rightarrow> Inl Exit_Failure | Some a \<Rightarrow> Inr a) (\<lambda>a.
    bindE (alg_init a s2) (replay_trace E (alg_ref a) (alg_evict a) (c_type cfg, 0) bytes)))))"

section \<open>The initial state\<close>

definition fresh_state :: "sim \<Rightarrow> bool" where
  "fresh_state s \<longleftrightarrow> sizes_ok s \<and> (\<forall>c \<in> set (coremap s). \<not> in_use c) \<and>
     pgdir s = replicate PTRS_PER_PGDIR 0 \<and> pgtbls s = Map.empty \<and> ref_count s = 0 \<and>
     hit_count s = 0 \<and> miss_count s = 0 \<and> evict_clean_count s = 0 \<and> evict_dirty_count s = 0 \<and>
     check_errors s = 0 \<and> bm_wf (swapmap s) \<and> used (swapmap s) = {} \<and>
     unat (nbits (swapmap s)) \<le> 2 ^ 27"

lemma fresh_sim_inv:
  assumes "fresh_state s" and "tracks s {}"
  shows "sim_inv tracks s" and "content_inv s"
proof -
  note f = assms(1) [unfolded fresh_state_def]
  have u: "used_frames s = {}" using f by (auto simp: used_frames_def memsize_def)
  have m: "\<not> maps s p g" for p g using f by (simp add: maps_def)
  have h: "\<not> holds s g p" for p g using f by (auto simp: holds_def memsize_def)
  have "vm_inv s" using f m h u by (simp add: vm_inv_def frames_ok_def entries_ok_def)
  moreover have "dir_inv s" using f by (simp add: dir_inv_def)
  moreover have "swap_inv s" using f by (simp add: swap_inv_def slot_of_def)
  moreover have "stats_inv s" using f u by (simp add: stats_inv_def)
  ultimately show "sim_inv tracks s" using assms(2) u by (simp add: sim_inv_def)
  show "content_inv s" using m by (simp add: content_inv_def translate_iff)
qed

lemma fresh_pages_inv: "fresh_state s \<Longrightarrow> pages_inv A s"
  by (simp add: fresh_state_def pages_inv_def tables_inv_def slot_of_def maps_def)

text \<open>
  Enough memory for the system tables, and a slot of the swap file for each page
  of the trace.
\<close>

definition enough :: "os_env \<Rightarrow> config \<Rightarrow> (char \<times> u64) list \<Rightarrow> bool" where
  "enough E cfg refs \<longleftrightarrow> memalign_serves E \<and> card (snd ` set refs) \<le> unat (c_swapsize cfg) \<and>
     unat (c_swapsize cfg) * SIMPAGESIZE \<le> file_limit E"

definition config_ok :: "config \<Rightarrow> bool" where
  "config_ok cfg \<longleftrightarrow> 0 < unat (c_memsize cfg) \<and> unat (c_memsize cfg) \<le> 2 ^ 19 \<and>
     unat (c_swapsize cfg) \<le> 2 ^ 27 \<and> c_mkstemp_ok cfg \<and> c_mallocs cfg = (True, True) \<and>
     length (c_physmem cfg) = unat (c_memsize cfg) * SIMPAGESIZE"

lemma setup_fresh:
  assumes "config_ok cfg"
  obtains s1 where "swap_init (c_mkstemp_ok cfg) (c_mallocs cfg) (c_swapsize cfg) (alloc_globals cfg) = Inr (0, s1)"
    and "fresh_state (init_pagetable s1)" and "memsize s1 = unat (c_memsize cfg)"
    and "\<forall>c \<in> set (coremap s1). c = zero_frame" and "nbits (swapmap s1) = c_swapsize cfg"
proof -
  note c = assms [unfolded config_ok_def]
  have small: "unat (c_swapsize cfg) + 31 < 2 ^ 32" using c by simp
  obtain b where b: "bitmap_create (True, True) (c_swapsize cfg) = Inr (Some b)" "bm_wf b"
    "nbits b = c_swapsize cfg" "used b = {}" by (rule bitmap_create_ok [OF small])
  let ?s1 = "(alloc_globals cfg)\<lparr>swapfile := [], swapmap := b\<rparr>"
  have "swap_init (c_mkstemp_ok cfg) (c_mallocs cfg) (c_swapsize cfg) (alloc_globals cfg) = Inr (0, ?s1)"
    using c b(1) by (simp add: swap_init_def)
  moreover have "fresh_state (init_pagetable ?s1)"
    using c b(2-4)
    by (auto simp: fresh_state_def init_pagetable_def alloc_globals_def sizes_ok_def memsize_def zero_frame_def)
  moreover have "memsize ?s1 = unat (c_memsize cfg)" by (simp add: alloc_globals_def memsize_def)
  moreover have "\<forall>c \<in> set (coremap ?s1). c = zero_frame" by (auto simp: alloc_globals_def)
  moreover have "nbits (swapmap ?s1) = c_swapsize cfg" using b(3) by simp
  ultimately show thesis using that by blast
qed

text \<open>What the statistics of a complete run say.\<close>

definition run_ok :: "os_env \<Rightarrow> config \<Rightarrow> (char \<times> u64) list \<Rightarrow> sim \<Rightarrow> bool" where
  "run_ok E cfg refs s \<longleftrightarrow> check_errors s = 0 \<and> ref_count s = length refs \<and>
     hit_count s + miss_count s = length refs \<and> evict_clean_count s = 0 \<and>
     miss_count s = card (used_frames s) + evict_dirty_count s \<and>
     card (used_frames s) \<le> unat (c_memsize cfg)"

context replacement
begin

lemma replay_ok:
  assumes fr: "fresh_state s" and tr: "tracks s {}" and E: "memalign_ok E"
    and ms: "memsize s = unat (c_memsize cfg)" "nbits (swapmap s) = c_swapsize cfg"
    and refs: "\<forall>r \<in> set (trace_refs old bytes). page_addr (snd r)"
  shows "(replay_trace E ref_fcn evict_fcn old bytes s = Inl Exit_Failure \<and>
      \<not> enough E cfg (trace_refs old bytes)) \<or>
    (\<exists>s'. replay_trace E ref_fcn evict_fcn old bytes s = Inr s' \<and> sim_inv tracks s' \<and>
       run_ok E cfg (trace_refs old bytes) s')"
proof -
  note i = fresh_sim_inv [of s tracks, OF fr tr]
  have z: "check_errors s = 0" "ref_count s = 0" using fr by (simp_all add: fresh_state_def)
  consider "access_all E ref_fcn evict_fcn (trace_refs old bytes) s = Inl Exit_Failure"
    | s' where "access_all E ref_fcn evict_fcn (trace_refs old bytes) s = Inr s'" "sim_inv tracks s'"
        "memsize s' = memsize s" "check_errors s' = 0" "ref_count s' = length (trace_refs old bytes)"
    using access_all_ok [OF i E refs] z by auto
  then show ?thesis
  proof cases
    case 1
    have "\<not> enough E cfg (trace_refs old bytes)"
      using access_all_supply [OF E _ _ _ _ i fresh_pages_inv [OF fr] _, of "snd ` set (trace_refs old bytes)"
          "unat (c_swapsize cfg)" "trace_refs old bytes"] 1 ms(2) refs
      by (auto simp: enough_def)
    then show ?thesis using 1 by (simp add: replay_trace_refs)
  next
    case (2 s')
    have "card (used_frames s') \<le> memsize s'"
      using card_mono [of "{..< memsize s'}" "used_frames s'"] by (auto simp: used_frames_def)
    then have "run_ok E cfg (trace_refs old bytes) s'"
      using 2 ms by (auto simp: run_ok_def sim_inv_def stats_inv_def)
    then show ?thesis using 2 by (simp add: replay_trace_refs)
  qed
qed

end

section \<open>The algorithms that keep the contract start correctly\<close>

lemma fresh_state_policy:
  assumes "fresh_state s"
  shows "fresh_state (s\<lparr>fifo_evict_g := x\<rparr>)" "fresh_state (s\<lparr>oldest_page := x\<rparr>)"
    "fresh_state (lru_init s)"
  using assms by (auto simp: fresh_state_def sizes_ok_def memsize_def lru_init_def)

lemma lru_init_rep: "lru_rep (lru_init s) []"
  by (simp add: lru_rep_def lru_list_def lru_init_def detached_def nxt_def prv_def memsize_def)

lemma fresh_tracks:
  assumes "fresh_state s"
  shows "fifo_tracks (fifo_init s) {}" "clock_tracks (clock_init s) {}" "rand_tracks (rand_init s) {}"
    "lru_tracks (lru_init s) {}"
proof -
  have "0 < memsize s" using assms by (simp add: fresh_state_def sizes_ok_def)
  then show "fifo_tracks (fifo_init s) {}" "clock_tracks (clock_init s) {}"
    by (simp_all add: fifo_tracks_def fifo_init_def clock_tracks_def clock_init_def memsize_def)
  show "rand_tracks (rand_init s) {}" by (simp add: rand_tracks_def)
  show "lru_tracks (lru_init s) {}" using lru_init_rep unfolding lru_tracks_def by fastforce
qed

text \<open>The outcome of a run with one of the four algorithms.\<close>

lemma sim_main_found:
  assumes "config_ok cfg" and "c_input cfg = Some bytes" and "c_alg cfg = Some nm"
    and "find (\<lambda>a. alg_name a = nm) (algs E cfg) = Some a"
  obtains s2 where "fresh_state s2" and "memsize s2 = unat (c_memsize cfg)" and "nbits (swapmap s2) = c_swapsize cfg"
    and "sim_main E cfg = bindE (alg_init a s2) (replay_trace E (alg_ref a) (alg_evict a) (c_type cfg, 0) bytes)"
proof -
  obtain s1 where s1: "swap_init (c_mkstemp_ok cfg) (c_mallocs cfg) (c_swapsize cfg) (alloc_globals cfg) = Inr (0, s1)"
    "fresh_state (init_pagetable s1)" "memsize s1 = unat (c_memsize cfg)" "nbits (swapmap s1) = c_swapsize cfg"
    by (rule setup_fresh [OF assms(1)])
  show thesis
  proof (rule that [OF s1(2)])
    show "memsize (init_pagetable s1) = unat (c_memsize cfg)"
      using s1(3) by (simp add: init_pagetable_def memsize_def)
    show "nbits (swapmap (init_pagetable s1)) = c_swapsize cfg" using s1(4) by (simp add: init_pagetable_def)
    show "sim_main E cfg = bindE (alg_init a (init_pagetable s1))
        (replay_trace E (alg_ref a) (alg_evict a) (c_type cfg, 0) bytes)"
      using s1(1) assms by (simp add: sim_main_def)
  qed
qed

lemma sim_main_run:
  assumes cfg: "config_ok cfg" "c_input cfg = Some bytes" "c_alg cfg = Some nm" and E: "memalign_ok E"
    and nm: "nm \<in> {''rand'', ''lru'', ''fifo'', ''clock''}"
    and refs: "\<forall>r \<in> set (trace_refs (c_type cfg, 0) bytes). page_addr (snd r)"
  shows "(sim_main E cfg = Inl Exit_Failure \<and> \<not> enough E cfg (trace_refs (c_type cfg, 0) bytes)) \<or>
    (\<exists>s. sim_main E cfg = Inr s \<and> run_ok E cfg (trace_refs (c_type cfg, 0) bytes) s \<and>
       vm_inv s \<and> dir_inv s \<and> swap_inv s)"
proof -
  have f: "memsize (fifo_init s) = memsize s" "memsize (clock_init s) = memsize s"
    "memsize (lru_init s) = memsize s" "memsize (rand_init s) = memsize s"
    "swapmap (fifo_init s) = swapmap s" "swapmap (clock_init s) = swapmap s"
    "swapmap (lru_init s) = swapmap s" "swapmap (rand_init s) = swapmap s" for s
    by (simp_all add: memsize_def fifo_init_def clock_init_def lru_init_def rand_init_def)
  obtain a where a: "find (\<lambda>a. alg_name a = nm) (algs E cfg) = Some a"
    using nm by (auto simp: algs_def)
  obtain s2 where s2: "fresh_state s2" "memsize s2 = unat (c_memsize cfg)" "nbits (swapmap s2) = c_swapsize cfg"
    "sim_main E cfg = bindE (alg_init a s2) (replay_trace E (alg_ref a) (alg_evict a) (c_type cfg, 0) bytes)"
    by (rule sim_main_found [OF cfg a])
  note tr = fresh_tracks [OF s2(1)]
  from nm consider "nm = ''rand''" | "nm = ''lru''" | "nm = ''fifo''" | "nm = ''clock''" by auto
  then show ?thesis
  proof cases
    case 1
    have "fresh_state (rand_init s2)" using s2(1) by (simp add: rand_init_def)
    from rand.replay_ok [OF this tr(3) E _ _ refs, of cfg] show ?thesis
      using a 1 s2(2-4) by (auto simp: algs_def f sim_inv_def)
  next
    case 2
    have "fresh_state (lru_init s2)" by (rule fresh_state_policy [OF s2(1)])
    from lru.replay_ok [OF this tr(4) E _ _ refs, of cfg] show ?thesis
      using a 2 s2(2-4) by (auto simp: algs_def f sim_inv_def)
  next
    case 3
    have "fresh_state (fifo_init s2)" unfolding fifo_init_def by (rule fresh_state_policy [OF s2(1)])
    from fifo.replay_ok [OF this tr(1) E _ _ refs, of cfg] show ?thesis
      using a 3 s2(2-4) by (auto simp: algs_def f sim_inv_def)
  next
    case 4
    have "fresh_state (clock_init s2)" unfolding clock_init_def by (rule fresh_state_policy [OF s2(1)])
    from clock.replay_ok [OF this tr(2) E _ _ refs, of cfg] show ?thesis
      using a 4 s2(2-4) by (auto simp: algs_def f sim_inv_def)
  qed
qed

end
