(* ===== verification/Mem_Order.thy ===== *)
theory Mem_Order
  imports Mem_Main
begin

text \<open>
  Replacement algorithms that keep the frames in a queue: \<open>lru\<close> moves a frame
  that is referenced to the end, \<open>fifo\<close> leaves it where it is, and both evict
  the first.  \<open>cache_step\<close> is such a queue on pages, with no page table and no
  frame: the reference the program is compared with in \<open>Mem_Cache\<close>.  The locale
  \<open>queue_replacement\<close> extends the contract of \<open>Mem_Replace\<close> by the queue of frames.
\<close>

section \<open>The queue\<close>

definition use_page :: "bool \<Rightarrow> 'a \<Rightarrow> 'a list \<Rightarrow> 'a list" where
  "use_page moves x xs = (if x \<in> set xs \<and> \<not> moves then xs else touch x xs)"

definition cache_step :: "bool \<Rightarrow> nat \<Rightarrow> 'a list \<Rightarrow> 'a \<Rightarrow> 'a list" where
  "cache_step moves m xs x =
    (if x \<in> set xs \<or> length xs < m then use_page moves x xs else tl xs @ [x])"

primrec cache_misses :: "bool \<Rightarrow> nat \<Rightarrow> 'a list \<Rightarrow> 'a list \<Rightarrow> nat" where
  "cache_misses moves m xs [] = 0"
| "cache_misses moves m xs (x # rs) =
    (if x \<in> set xs then 0 else 1) + cache_misses moves m (cache_step moves m xs x) rs"

lemma set_touch [simp]: "set (touch x xs) = insert x (set xs)"
  by (auto simp: touch_def)

lemma set_use_page [simp]: "set (use_page moves x xs) = insert x (set xs)"
  by (auto simp: use_page_def)

lemma distinct_touch: "distinct xs \<Longrightarrow> distinct (touch x xs)"
  by (simp add: touch_def)

lemma use_page_new: "x \<notin> set xs \<Longrightarrow> use_page moves x xs = xs @ [x]"
  by (auto simp: use_page_def touch_def filter_id_conv)

section \<open>Which frame the fault path takes\<close>

text \<open>
  Nothing but the algorithm writes what the algorithm reads: the state in which
  \<open>ref\<close> is called differs, for the algorithm, at most by an eviction.
\<close>

definition frame_source :: "evict_fun \<Rightarrow> sim \<Rightarrow> nat \<Rightarrow> sim \<Rightarrow> bool" where
  "frame_source ev s f s' \<longleftrightarrow>
     (find_free_frame s = Some f \<and> pol_view s' = pol_view s) \<or>
     (find_free_frame s = None \<and> (\<exists>u. ev s = Inr (int f, u) \<and> pol_view s' = pol_view u))"

lemma pol_view_upd [simp]:
  "pol_view (s\<lparr>pgtbls := a\<rparr>) = pol_view s" "pol_view (s\<lparr>pgdir := b\<rparr>) = pol_view s"
  "pol_view (s\<lparr>physmem := c\<rparr>) = pol_view s" "pol_view (s\<lparr>swapmap := d\<rparr>) = pol_view s"
  "pol_view (s\<lparr>swapfile := e\<rparr>) = pol_view s" "pol_view (s\<lparr>check_errors := h\<rparr>) = pol_view s"
  "pol_view (s\<lparr>evict_clean_count := k\<rparr>) = pol_view s" "pol_view (s\<lparr>evict_dirty_count := k\<rparr>) = pol_view s"
  "pol_view (count_hit s) = pol_view s" "pol_view (count_miss s) = pol_view s"
  "pol_view (pte_write s p x) = pol_view s"
  by (simp_all add: pol_view_def count_hit_def count_miss_def pte_write_def)

lemma pte_frame_upd_pol: "pte_frame_upd g p s = Inr s' \<Longrightarrow> pol_view s' = pol_view s"
  by (auto simp: pte_frame_upd_def resE)

lemma swap_slot_pol: "swap_slot off s = Inr (Some (r, s')) \<Longrightarrow> pol_view s' = pol_view s"
  by (auto simp: swap_slot_def resE split: option.splits if_splits)

lemma swap_store_pol: "swap_store E fr off s = Inr (r, s') \<Longrightarrow> pol_view s' = pol_view s"
  by (cases "file_write (file_limit E) (nat (lseek_set off)) (region (frame_byte fr) SIMPAGESIZE (physmem s)) (swapfile s)")
    (auto simp: swap_store_def resE Let_def split: if_splits)

lemma swap_pageout_pol: "swap_pageout E fr off s = Inr (r, s') \<Longrightarrow> pol_view s' = pol_view s"
  by (auto simp: swap_pageout_def resE split: option.splits dest!: swap_slot_pol swap_store_pol)

lemma write_victim_pol: "write_victim E fr q s = Inr s' \<Longrightarrow> pol_view s' = pol_view s"
  by (auto simp: write_victim_def resE Let_def split: if_splits
      dest!: pte_frame_upd_pol swap_pageout_pol)

lemma evict_frame_source:
  "evict_frame E ev s = Inr (f, s') \<Longrightarrow> \<exists>u. ev s = Inr (int f, u) \<and> pol_view s' = pol_view u"
  by (auto simp: evict_frame_def resE dest!: pte_frame_upd_pol write_victim_pol)

lemma claim_frame_pol:
  assumes "claim_frame f p s = Inr s'"
  shows "pol_view s' = pol_view s"
proof -
  have f: "f < memsize s" using assms by (auto simp: claim_frame_def resE arrE memsize_def)
  show ?thesis by (rule claim_frame_obs [OF f, of p]) (use assms in simp)
qed

lemma allocate_frame_source:
  assumes "allocate_frame E ev p s = Inr (f, s')"
  shows "frame_source ev s f s'"
  using assms
  by (auto simp: allocate_frame_def frame_source_def resE split: option.splits
      dest!: claim_frame_pol evict_frame_source)

definition filled :: "nat \<Rightarrow> pteptr \<Rightarrow> sim \<Rightarrow> bool" where
  "filled f p s \<longleftrightarrow>
     (\<exists>e. pgtbls s p = Some e \<and> pt_frame e = push_bit PAGE_SHIFT (of_nat f) OR PG_DIRTY)"

lemma init_frame_fields:
  "init_frame f x s = Inr s' \<Longrightarrow> pol_view s' = pol_view s"
  by (auto simp: init_frame_def resE Let_def)

lemma fault_new_source:
  assumes "fault_new E ev x p s = Inr s'"
  shows "\<exists>f. frame_source ev s f s' \<and> filled f p s'"
proof -
  obtain f s1 s2 s3 s4 where r: "allocate_frame E ev p s = Inr (f, s1)" "init_frame f x s1 = Inr s2"
    "pte_frame_upd (\<lambda>_. push_bit PAGE_SHIFT (of_nat f)) p s2 = Inr s3"
    "pte_frame_upd (\<lambda>w. w OR PG_DIRTY) p s3 = Inr s4" "s' = count_miss s4"
    using assms by (auto simp: fault_new_def resE)
  have "pol_view s' = pol_view s1"
    using init_frame_fields [OF r(2)] pte_frame_upd_pol [OF r(3)] pte_frame_upd_pol [OF r(4)] r(5) by simp
  then have "frame_source ev s f s'"
    using allocate_frame_source [OF r(1)] by (simp add: frame_source_def)
  moreover have "filled f p s'"
    using r(3-5) by (auto simp: pte_frame_upd_def resE pte_read_def deref_Inr_iff pte_write_def filled_def count_miss_def)
  ultimately show ?thesis by blast
qed

lemma filled_frame_no: "filled f p s \<Longrightarrow> f < 2 ^ 20 \<Longrightarrow> \<exists>e. pgtbls s p = Some e \<and> pte_frame_no e = f"
  by (auto simp: filled_def pte_frame_no_def flag_simps)

lemma mark_access_frame:
  assumes "mark_access ty p s = Inr s'" and "pgtbls s p = Some e"
  shows "pol_view s' = pol_view s" and "\<exists>e'. pgtbls s' p = Some e' \<and> pte_frame_no e' = pte_frame_no e"
proof -
  have "s' = pte_write s p (e\<lparr>pt_frame := access_word ty (pt_frame e)\<rparr>)"
    using assms mark_access_eq [OF assms(2)] by simp
  then show "pol_view s' = pol_view s" "\<exists>e'. pgtbls s' p = Some e' \<and> pte_frame_no e' = pte_frame_no e"
    by (simp_all add: pte_frame_no_def access_word_def flag_simps pte_write_def)
qed

lemma find_physpage_steps:
  assumes "find_physpage E ref_fcn ev x ty s = Inr (a, s')"
  obtains p s1 s2 s3 e where "lookup_pte E x s = Inr (p, s1)" and "resolve_fault E ev x p s1 = Inr s2"
    and "mark_access ty p s2 = Inr s3" and "ref_fcn p s3 = Inr s'" and "pgtbls s' p = Some e"
    and "a = frame_byte (drop_bit PAGE_SHIFT (pt_frame e))"
  using assms by (auto simp: find_physpage_def resE pte_read_def deref_Inr_iff)

lemma access_mem_pol:
  assumes "access_mem E ref_fcn ev ty x s = Inr s'"
  obtains a s1 where "find_physpage E ref_fcn ev x ty s = Inr (a, s1)" and "pol_view s' = pol_view s1"
    and "pgdir s' = pgdir s1" and "pgtbls s' = pgtbls s1" and "coremap s' = coremap s1"
proof -
  obtain a s1 where r: "find_physpage E ref_fcn ev x ty s = Inr (a, s1)"
    using assms by (auto simp: access_mem_def resE)
  show thesis by (rule that [OF r]) (use assms r in \<open>auto simp: access_mem_def resE Let_def split: if_splits\<close>)
qed

lemma resolve_fault_source:
  assumes "resolve_fault E ev x p s = Inr s'" and e: "pgtbls s p = Some e" "\<not> pte_onswap e"
  shows "(pte_valid e \<and> pol_view s' = pol_view s \<and> pgtbls s' p = Some e) \<or>
    (\<not> pte_valid e \<and> (\<exists>f. frame_source ev s f s' \<and> filled f p s'))"
proof (cases "pte_valid e")
  case True
  then have "s' = count_hit s" using assms by (simp add: resolve_fault_def pte_read_def)
  then show ?thesis using True e by simp (simp add: count_hit_def)
next
  case False
  then have "fault_new E ev x p s = Inr s'" using assms by (simp add: resolve_fault_def pte_read_def)
  then show ?thesis using fault_new_source False by blast
qed

lemma find_free_frame_least: "find_free_frame s = Some f \<Longrightarrow> g < f \<Longrightarrow> g \<in> used_frames s"
  by (auto simp: find_free_frame_def find_Some_iff used_frames_def)

section \<open>The frame a reference ends with\<close>

context replacement
begin

lemma access_mem_frame:
  assumes inv: "sim_inv tracks s" and E: "memalign_ok E" and pa: "page_addr x"
    and run: "access_mem E ref_fcn evict_fcn ty x s = Inr s'"
  shows "\<exists>f s1. find_physpage E ref_fcn evict_fcn x ty s = Inr (f * SIMPAGESIZE, s1) \<and> pol_view s' = pol_view s1 \<and>
    translate s' x = Some f \<and> used_frames s' = insert f (used_frames s)"
proof -
  have va: "unat x < 2 ^ 36" using pa by (simp add: page_addr_def)
  obtain a s1 where r: "find_physpage E ref_fcn evict_fcn x ty s = Inr (a, s1)" and v: "pol_view s' = pol_view s1"
    and same: "pgdir s' = pgdir s1" "pgtbls s' = pgtbls s1" "coremap s' = coremap s1"
    by (rule access_mem_pol [OF run])
  obtain p f where p: "a = f * SIMPAGESIZE" "walk s1 x = Some p" "maps s1 p f"
    "hit_result s p f s1 \<or> miss_result E s x p f s1"
    using find_physpage_ok [OF inv E va, of ty] r by auto
  have "translate s1 x = Some f" using p(2,3) translate_iff by blast
  moreover have "walk s' x = walk s1 x" by (simp only: walk_def same(1))
  then have "translate s' x = translate s1 x" by (simp only: translate_def same(2))
  ultimately have "translate s' x = Some f" by simp
  moreover have "used_frames s1 = insert f (used_frames s)"
    using p(4)
  proof
    assume h: "hit_result s p f s1"
    have "vm_inv s" "maps s p f" using inv h by (simp_all add: sim_inv_def hit_result_def)
    then have "f \<in> used_frames s" using holds_used [of s f p] by (simp add: vm_inv_def)
    then show ?thesis using h by (auto simp: hit_result_def)
  next
    assume h: "miss_result E s x p f s1"
    then consider "used_frames s1 = insert f (used_frames s)"
      | vic where "used_frames s = {..< memsize s}" "used_frames s1 = used_frames s" "maps s vic f"
      unfolding miss_result_def by blast
    then show ?thesis
    proof cases
      case 2
      then have "f < memsize s" using maps_bound [of s vic f] inv by (simp add: sim_inv_def)
      then show ?thesis using 2 by auto
    qed
  qed
  then have "used_frames s' = insert f (used_frames s)"
    using same by (simp add: used_frames_def memsize_def)
  ultimately show ?thesis using r p(1) v by blast
qed

end

section \<open>The contract of a queue\<close>

text \<open>
  What a reference to the page \<open>x\<close> does to the queue \<open>fs\<close>, with \<open>f\<close> the frame the
  page is in afterwards: the page had it, or it was free, or it was the first.
\<close>

definition turn :: "bool \<Rightarrow> sim \<Rightarrow> u64 \<Rightarrow> nat list \<Rightarrow> nat \<Rightarrow> nat list \<Rightarrow> bool" where
  "turn moves s x fs f fs' \<longleftrightarrow>
     (translate s x = Some f \<and> f \<in> set fs \<and> fs' = use_page moves f fs) \<or>
     (translate s x = None \<and> length fs < memsize s \<and> f \<notin> set fs \<and> fs' = fs @ [f]) \<or>
     (translate s x = None \<and> length fs = memsize s \<and> (\<exists>gs. fs = f # gs \<and> fs' = gs @ [f]))"

locale queue_replacement = replacement +
  fixes order :: "sim \<Rightarrow> nat list \<Rightarrow> bool" and moves :: bool
  assumes order_distinct: "order s fs \<Longrightarrow> distinct fs"
    and order_view: "pol_view s = pol_view t \<Longrightarrow> order s fs \<Longrightarrow> order t fs"
    and evict_order: "vm_inv s \<Longrightarrow> used_frames s = {..< memsize s} \<Longrightarrow> order s (f # fs) \<Longrightarrow>
      set (f # fs) = {..< memsize s} \<Longrightarrow> \<exists>s'. evict_fcn s = Inr (int f, s') \<and> core s' = core s \<and> order s' fs"
    and ref_order: "order s fs \<Longrightarrow> pgtbls s p = Some e \<Longrightarrow> pte_frame_no e = f \<Longrightarrow> f < memsize s \<Longrightarrow>
      f \<in> set fs \<or> (\<forall>g < f. g \<in> set fs) \<Longrightarrow>
      \<exists>s'. ref_fcn p s = Inr s' \<and> core s' = core s \<and> order s' (use_page moves f fs)"
begin

text \<open>The frame taken by a fault, and the queue \<open>ref\<close> then finds.\<close>

lemma source_order:
  assumes src: "frame_source evict_fcn s f s'" and inv: "vm_inv s"
    and ord: "order s fs" "set fs = used_frames s"
  shows "f < memsize s \<and> memsize s' = memsize s \<and>
    ((length fs < memsize s \<and> f \<notin> set fs \<and> (\<forall>g < f. g \<in> set fs) \<and> order s' fs) \<or>
     (length fs = memsize s \<and> (\<exists>gs. fs = f # gs \<and> f \<notin> set gs \<and> (\<forall>g < f. g \<in> set gs) \<and> order s' gs)))"
  using src unfolding frame_source_def
proof (elim disjE conjE exE)
  assume f: "find_free_frame s = Some f" and v: "pol_view s' = pol_view s"
  note fr = find_free_frame_Some [OF f]
  have "set fs \<subset> {..< memsize s}" using fr ord(2) by (auto simp: used_frames_def)
  then have "card (set fs) < memsize s" using psubset_card_mono [of "{..< memsize s}" "set fs"] by simp
  then have "length fs < memsize s" using distinct_card [OF order_distinct [OF ord(1)]] by simp
  moreover have "g \<in> set fs" if "g < f" for g using find_free_frame_least [OF f that] ord(2) by blast
  moreover have "order s' fs" by (rule order_view [OF v [symmetric] ord(1)])
  ultimately show ?thesis using fr ord(2) pol_view_memsize [OF v] by blast
next
  fix u assume f: "find_free_frame s = None" and u: "evict_fcn s = Inr (int f, u)"
    and v: "pol_view s' = pol_view u"
  have full: "used_frames s = {..< memsize s}" by (rule find_free_frame_None [OF f])
  have len: "length fs = memsize s"
    using distinct_card [OF order_distinct [OF ord(1)]] ord(2) full by simp
  then have "fs \<noteq> []" using memsize_pos [OF inv] by auto
  then obtain h gs where fs: "fs = h # gs" by (cases fs) auto
  obtain u' where u': "evict_fcn s = Inr (int h, u')" "core u' = core s" "order u' gs"
    using evict_order [OF inv full, of h gs] ord full fs by auto
  have same: "h = f" "u' = u" using u u'(1) by simp_all
  have ms: "memsize s' = memsize s" using pol_view_memsize [OF v] core_memsize [OF u'(2)] same by simp
  have os: "order s' gs" using order_view [OF v [symmetric]] u'(3) same by blast
  have eq: "set (f # gs) = {..< memsize s}" using ord(2) full fs same by simp
  have new: "f \<notin> set gs" using order_distinct [OF ord(1)] fs same by simp
  have fm: "f < memsize s" using eq by auto
  have "g \<in> set gs" if "g < f" for g
  proof -
    have "g \<in> set (f # gs)" unfolding eq using that fm by simp
    then show ?thesis using that by simp
  qed
  then show ?thesis using ms os new fm len fs same by blast
qed

lemma marked_order:
  assumes mk: "mark_access ty p s = Inr s1" and rf: "ref_fcn p s1 = Inr s'"
    and e: "pgtbls s p = Some e" "pte_frame_no e = f" and e': "pgtbls s' p = Some e'"
    and f: "f < memsize s" "f < 2 ^ 19"
    and ord: "order s fs" "f \<in> set fs \<or> (\<forall>g < f. g \<in> set fs)"
  shows "order s' (use_page moves f fs) \<and> frame_byte (drop_bit PAGE_SHIFT (pt_frame e')) = f * SIMPAGESIZE"
proof -
  note pv = mark_access_frame [OF mk e(1)]
  obtain e1 where e1: "pgtbls s1 p = Some e1" "pte_frame_no e1 = f" using pv(2) e(2) by auto
  have o1: "order s1 fs" by (rule order_view [OF pv(1) [symmetric] ord(1)])
  have m1: "f < memsize s1" using f(1) pol_view_memsize [OF pv(1)] by simp
  obtain t where t: "ref_fcn p s1 = Inr t" "core t = core s1" "order t (use_page moves f fs)"
    using ref_order [OF o1 e1 m1 ord(2)] by blast
  have ts: "t = s'" using t(1) rf by simp
  obtain e2 where e2: "pgtbls s1 p = Some e2" "pview e2 = pview e'"
    using core_entry [OF t(2) [unfolded ts] e'] by blast
  then have "pte_frame_no e' = f" using e1 by (simp add: pview_def)
  then have "drop_bit PAGE_SHIFT (pt_frame e') = of_nat f" by (auto simp: pte_frame_no_def)
  then show ?thesis using t(3) ts frame_byte_of_nat [OF f(2)] by simp
qed

lemma find_physpage_turn:
  assumes inv: "sim_inv tracks s" and E: "memalign_ok E" and va: "unat x < 2 ^ 36"
    and ord: "order s fs" "set fs = used_frames s"
    and run: "find_physpage E ref_fcn evict_fcn x ty s = Inr (a, s')"
  shows "\<exists>f fs'. a = f * SIMPAGESIZE \<and> turn moves s x fs f fs' \<and> order s' fs'"
proof -
  have i0: "vm_inv s" "dir_inv s" "swap_inv s" "stats_inv s" using inv by (simp_all add: sim_inv_def)
  have sz: "sizes_ok s" using i0(1) by (simp add: vm_inv_def)
  obtain p s1 s2 s3 e' where st: "lookup_pte E x s = Inr (p, s1)" "resolve_fault E evict_fcn x p s1 = Inr s2"
    "mark_access ty p s2 = Inr s3" "ref_fcn p s3 = Inr s'" "pgtbls s' p = Some e'"
    and a: "a = frame_byte (drop_bit PAGE_SHIFT (pt_frame e'))"
    by (rule find_physpage_steps [OF run])
  obtain e where ok: "grown s s1" "walk_grows s s1" "walk s1 x = Some p" "pgtbls s1 p = Some e"
    using lookup_pte_ok [OF E va sz i0(2)] st(1) by auto
  note g = grown_inv [OF ok(1) i0(1,3,4)]
  have o1: "order s1 fs" "set fs = used_frames s1"
    using order_view [OF g(7) [symmetric] ord(1)] ord(2) g(4) by simp_all
  have sm: "k < 2 ^ 19" if "k < memsize s" for k using sz that by (simp add: sizes_ok_def)
  have tr: "translate s x = translate s1 x"
  proof -
    have "translate s1 x = Some k \<longleftrightarrow> translate s x = Some k \<and> True" for k
      by (rule translate_grows [OF ok(2) va]) (simp add: grown_maps [OF ok(1)])
    then show ?thesis by (cases "translate s x"; cases "translate s1 x") auto
  qed
  have t1: "translate s1 x = (if pte_valid e then Some (pte_frame_no e) else None)"
    using ok(3,4) by (simp add: translate_def)
  have sw: "\<not> pte_onswap e" using g(1) ok(4) by (auto simp: vm_inv_def entries_ok_def entry_ok_def)
  from resolve_fault_source [OF st(2) ok(4) sw] show ?thesis
  proof (elim disjE conjE exE)
    assume v: "pte_valid e" and s2: "pol_view s2 = pol_view s1" "pgtbls s2 p = Some e"
    let ?f = "pte_frame_no e"
    have m: "maps s1 p ?f" using v ok(4) by (simp add: maps_def)
    have f: "?f \<in> set fs" "?f < memsize s"
      using m g(1) o1(2) holds_used [of s1 ?f p] maps_bound [OF g(1) m] g(5) by (auto simp: vm_inv_def)
    have o2: "order s2 fs" by (rule order_view [OF s2(1) [symmetric] o1(1)])
    have m2: "?f < memsize s2" using f(2) g(5) pol_view_memsize [OF s2(1)] by simp
    have "order s' (use_page moves ?f fs) \<and> a = ?f * SIMPAGESIZE"
      unfolding a by (rule marked_order [OF st(3,4) s2(2) refl st(5) m2 sm [OF f(2)] o2]) (use f in blast)
    moreover have "turn moves s x fs ?f (use_page moves ?f fs)" using tr t1 v f by (simp add: turn_def)
    ultimately show ?thesis by blast
  next
    fix f assume v: "\<not> pte_valid e" and src: "frame_source evict_fcn s1 f s2" and fl: "filled f p s2"
    note so = source_order [OF src g(1) o1]
    have f: "f < memsize s" "f < memsize s2" using so g(5) by simp_all
    have f20: "f < 2 ^ 20" using sm [OF f(1)] by simp
    obtain e2 where e2: "pgtbls s2 p = Some e2" "pte_frame_no e2 = f"
      using filled_frame_no [OF fl f20] by blast
    have fin: "order s' (gs @ [f]) \<and> a = f * SIMPAGESIZE"
      if "order s2 gs" "f \<notin> set gs" "\<forall>g < f. g \<in> set gs" for gs
      using marked_order [OF st(3,4) e2 st(5) f(2) sm [OF f(1)] that(1)] that(2,3) use_page_new [OF that(2)]
      unfolding a by simp
    from so show ?thesis
      using fin tr t1 v g(5) unfolding turn_def by (elim conjE disjE exE) auto
  qed
qed

lemma access_mem_turn:
  assumes inv: "sim_inv tracks s" and E: "memalign_ok E" and pa: "page_addr x"
    and ord: "order s fs" "set fs = used_frames s"
    and run: "access_mem E ref_fcn evict_fcn ty x s = Inr s'"
  shows "\<exists>f fs'. translate s' x = Some f \<and> turn moves s x fs f fs' \<and> order s' fs' \<and>
    used_frames s' = insert f (used_frames s)"
proof -
  have va: "unat x < 2 ^ 36" using pa by (simp add: page_addr_def)
  obtain g s1 where r: "find_physpage E ref_fcn evict_fcn x ty s = Inr (g * SIMPAGESIZE, s1)" "pol_view s' = pol_view s1"
    "translate s' x = Some g" "used_frames s' = insert g (used_frames s)"
    using access_mem_frame [OF inv E pa run] by blast
  obtain f fs' where f: "g * SIMPAGESIZE = f * SIMPAGESIZE" "turn moves s x fs f fs'" "order s1 fs'"
    using find_physpage_turn [OF inv E va ord r(1)] by blast
  have "g = f" using f(1) by (simp add: SIMPAGESIZE_def)
  then show ?thesis using r(3,4) f(2) order_view [OF r(2) [symmetric] f(3)] by blast
qed

end

end
