(* ===== verification/Mem_Cache.thy ===== *)
theory Mem_Cache
  imports Mem_Order
begin

text \<open>
  The simulator against the reference \<open>cache_step\<close>: with \<open>lru\<close> and \<open>fifo\<close> the
  pages in memory and the number of misses are those of a queue of pages that
  knows no frame, no table and no swap file.  For \<open>lru\<close> the queue is the end of
  the list of all pages by recency, so that a larger memory never misses more.
\<close>

section \<open>The queues of fifo.c and lru.c\<close>

definition fifo_next :: "sim \<Rightarrow> nat" where
  "fifo_next s = nat ((fifo_evict_g s + 1) mod int (memsize s))"

definition ring_from :: "nat \<Rightarrow> nat \<Rightarrow> nat \<Rightarrow> nat list" where
  "ring_from m h n = map (\<lambda>i. (h + i) mod m) [0 ..< n]"

text \<open>The frames in the order they were filled: from the hand on, all but at most one.\<close>

definition fifo_order :: "sim \<Rightarrow> nat list \<Rightarrow> bool" where
  "fifo_order s fs \<longleftrightarrow> 0 < memsize s \<and> length fs \<le> memsize s \<and>
     (fifo_next s = 0 \<or> memsize s \<le> Suc (length fs)) \<and>
     fs = ring_from (memsize s) (fifo_next s) (length fs)"

lemma ring_step_inj:
  assumes "i < m" "j < m" "(h + i) mod m = (h + j) mod m"
  shows "i = (j :: nat)"
proof -
  have "(h + i - (h + j)) mod m = 0 \<and> (h + j - (h + i)) mod m = 0"
    using assms(3) by (metis mod_eq_dvd_iff_nat nat_le_linear dvd_imp_mod_0 diff_is_0_eq' mod_0)
  then have "(i - j) mod m = 0" "(j - i) mod m = 0" by simp_all
  then show ?thesis using assms(1,2) by simp
qed

lemma distinct_ring: "n \<le> m \<Longrightarrow> distinct (ring_from m h n)"
  unfolding ring_from_def distinct_map by (auto intro!: inj_onI intro: ring_step_inj [of _ m _ h])

lemma ring_from_Suc: "ring_from m h (Suc n) = h mod m # ring_from m ((h + 1) mod m) n"
  unfolding ring_from_def by (subst upt_conv_Cons) (simp_all add: map_Suc_upt [symmetric] mod_add_left_eq del: upt_Suc)

lemma ring_from_snoc: "ring_from m h (Suc n) = ring_from m h n @ [(h + n) mod m]"
  by (simp add: ring_from_def)

lemma fifo_next_evict:
  assumes "0 < memsize s"
  shows "fifo_evict s = Inr (int (fifo_next s), s\<lparr>fifo_evict_g := int (fifo_next s)\<rparr>)"
    and "fifo_next (s\<lparr>fifo_evict_g := int (fifo_next s)\<rparr>) = (fifo_next s + 1) mod memsize s"
    and "memsize (s\<lparr>fifo_evict_g := int (fifo_next s)\<rparr>) = memsize s"
    and "fifo_next s < memsize s"
proof -
  show m: "memsize (s\<lparr>fifo_evict_g := int (fifo_next s)\<rparr>) = memsize s" by (simp add: memsize_def)
  show "fifo_evict s = Inr (int (fifo_next s), s\<lparr>fifo_evict_g := int (fifo_next s)\<rparr>)"
    using fifo_evict_eq [OF assms] assms by (simp add: fifo_next_def)
  show "fifo_next s < memsize s" using assms by (simp add: fifo_next_def nat_less_iff)
  have "fifo_next (s\<lparr>fifo_evict_g := int (fifo_next s)\<rparr>) = nat ((int (fifo_next s) + 1) mod int (memsize s))"
    unfolding fifo_next_def [of "s\<lparr>fifo_evict_g := int (fifo_next s)\<rparr>"] m by simp
  also have "\<dots> = (fifo_next s + 1) mod memsize s"
    by (metis nat_int of_nat_1 of_nat_add zmod_int)
  finally show "fifo_next (s\<lparr>fifo_evict_g := int (fifo_next s)\<rparr>) = (fifo_next s + 1) mod memsize s" .
qed

text \<open>A frame that is free while all below it are taken is the next of the ring.\<close>

lemma ring_next_free:
  assumes f: "f < m" "f \<notin> set (ring_from m h n)" and low: "\<forall>g < f. g \<in> set (ring_from m h n)"
    and h: "h = 0 \<or> m \<le> Suc n" "h < m"
  shows "n < m" and "f = (h + n) mod m"
proof -
  define i where "i = (f + (m - h)) mod m"
  have i: "i < m" using f by (simp add: i_def)
  have "(h + i) mod m = (h + (f + (m - h))) mod m" by (simp add: i_def mod_add_right_eq)
  also have "\<dots> = (f + m) mod m" using h by (intro arg_cong [of _ _ "\<lambda>x. x mod m"]) simp
  finally have fi: "(h + i) mod m = f" using f by simp
  have ni: "n \<le> i"
  proof (rule ccontr)
    assume "\<not> n \<le> i"
    then have "f \<in> set (ring_from m h n)" using fi by (auto simp: ring_from_def)
    then show False using f by blast
  qed
  then show "n < m" using i by simp
  show "f = (h + n) mod m"
  proof (cases "h = 0")
    case True
    have "f \<le> n"
    proof (rule ccontr)
      assume "\<not> f \<le> n"
      then have "n \<in> set (ring_from m h n)" using low by simp
      then obtain k where "k < n" "k mod m = n" using True by (auto simp: ring_from_def)
      then show False by (metis mod_less_eq_dividend not_le)
    qed
    then show ?thesis using True f(1) fi i ni by simp
  next
    case False
    then show ?thesis using h ni i fi by (metis Suc_leI le_antisym less_Suc_eq_le order_trans)
  qed
qed

interpretation fifo_queue: queue_replacement fifo_ref fifo_evict fifo_tracks fifo_order False
proof unfold_locales
  fix s fs assume "fifo_order s fs"
  then show "distinct fs" using distinct_ring [of "length fs" "memsize s" "fifo_next s"] by (simp add: fifo_order_def)
next
  fix s t fs assume v: "pol_view s = pol_view t" and o: "fifo_order s fs"
  have "fifo_next t = fifo_next s" using v pol_view_memsize [OF v] by (simp add: fifo_next_def) (simp add: pol_view_def)
  then show "fifo_order t fs" using o pol_view_memsize [OF v] by (simp add: fifo_order_def)
next
  fix s f fs assume o: "fifo_order s (f # fs)" and eq: "set (f # fs) = {..< memsize s}"
  have m: "0 < memsize s" and len: "length (f # fs) \<le> memsize s" using o unfolding fifo_order_def by blast+
  note e = fifo_next_evict [OF m]
  have "f # fs = ring_from (memsize s) (fifo_next s) (Suc (length fs))" using o by (simp add: fifo_order_def)
  then have ring: "f = fifo_next s" "fs = ring_from (memsize s) ((fifo_next s + 1) mod memsize s) (length fs)"
    unfolding ring_from_Suc using e(4) by simp_all
  have "distinct (f # fs)"
    using distinct_ring [OF len, of "fifo_next s"] o unfolding fifo_order_def by metis
  from distinct_card [OF this] have "length (f # fs) = memsize s" unfolding eq by simp
  then have "fifo_order (s\<lparr>fifo_evict_g := int (fifo_next s)\<rparr>) fs"
    using m ring(2) unfolding fifo_order_def e(2,3) by simp
  then show "\<exists>s'. fifo_evict s = Inr (int f, s') \<and> core s' = core s \<and> fifo_order s' fs"
    using e(1) ring(1) by simp
next
  fix s fs p e f assume o: "fifo_order s fs" and f: "f < memsize s" "f \<in> set fs \<or> (\<forall>g < f. g \<in> set fs)"
  have "fifo_order s (use_page False f fs)"
  proof (cases "f \<in> set fs")
    case True
    then show ?thesis using o by (simp add: use_page_def)
  next
    case False
    note oo = o [unfolded fifo_order_def]
    have ring: "ring_from (memsize s) (fifo_next s) (length fs) = fs" using oo by simp
    have "length fs < memsize s" "f = (fifo_next s + length fs) mod memsize s"
      using ring_next_free [of f "memsize s" "fifo_next s" "length fs"] f False oo fifo_next_evict(4) [of s]
      unfolding ring by blast+
    then have "fifo_order s (fs @ [f])" using oo ring_from_snoc [of "memsize s" "fifo_next s" "length fs"]
      unfolding fifo_order_def by fastforce
    then show ?thesis by (simp add: use_page_new [OF False])
  qed
  then show "\<exists>s'. fifo_ref p s = Inr s' \<and> core s' = core s \<and> fifo_order s' (use_page False f fs)"
    by (simp add: fifo_ref_def)
qed

interpretation lru_queue: queue_replacement lru_ref lru_evict lru_tracks lru_rep True
proof unfold_locales
  fix s fs assume "lru_rep s fs"
  then show "distinct fs" by (simp add: lru_rep_def lru_list_def)
next
  fix s t fs assume "pol_view s = pol_view t" "lru_rep s fs"
  then show "lru_rep t fs" by (rule lru_rep_view)
next
  fix s f fs assume inv: "vm_inv s" "used_frames s = {..< memsize s}" and o: "lru_rep s (f # fs)"
    and eq: "set (f # fs) = {..< memsize s}"
  have "f \<in> used_frames s" unfolding inv(2) eq [symmetric] by simp
  then obtain p where "holds s f p" using inv(1) unfolding vm_inv_def frames_ok_def by blast
  then show "\<exists>s'. lru_evict s = Inr (int f, s') \<and> core s' = core s \<and> lru_rep s' fs"
    using lru_evict_ok [OF o] inv(1) unfolding vm_inv_def by blast
next
  fix s fs p e f
  assume "lru_rep s fs" "pgtbls s p = Some e" "pte_frame_no e = f" "f < memsize s"
  from lru_ref_ok [OF this]
  show "\<exists>s'. lru_ref p s = Inr s' \<and> core s' = core s \<and> lru_rep s' (use_page True f fs)"
    by (simp add: use_page_def)
qed

lemma fifo_order_init: "0 < memsize s \<Longrightarrow> fifo_order (fifo_init s) []"
  by (simp add: fifo_order_def fifo_next_def fifo_init_def memsize_def ring_from_def)

section \<open>Pages and frames in step\<close>

text \<open>The page at each place of the one queue is in the frame at that place of the other.\<close>

definition resident :: "sim \<Rightarrow> u64 list \<Rightarrow> nat list \<Rightarrow> bool" where
  "resident s xs fs \<longleftrightarrow> distinct fs \<and> set fs = used_frames s \<and>
     list_all2 (\<lambda>x f. page_addr x \<and> translate s x = Some f) xs fs"

lemma translate_inj:
  assumes "vm_inv s" "dir_inv s" and "page_addr x" "page_addr y"
    and "translate s x = Some f" "translate s y = Some f"
  shows "x = y"
  using assms vm_inv_maps_inj [OF assms(1)] walk_inj [OF assms(2-4)] unfolding translate_iff by metis

lemma resident_mem:
  assumes r: "resident s xs fs" and inv: "vm_inv s" "dir_inv s" and pa: "page_addr x"
  shows "x \<in> set xs \<longleftrightarrow> translate s x \<noteq> None"
proof
  assume "x \<in> set xs"
  then show "translate s x \<noteq> None"
    using r unfolding resident_def list_all2_conv_all_nth by (auto simp: in_set_conv_nth)
next
  assume "translate s x \<noteq> None"
  then obtain f where f: "translate s x = Some f" by blast
  obtain p where "maps s p f" using f unfolding translate_iff by blast
  then have "f \<in> set fs" using r inv(1) holds_used [of s f p] by (simp add: resident_def vm_inv_def)
  then obtain i where i: "i < length fs" "fs ! i = f" by (auto simp: in_set_conv_nth)
  then have "page_addr (xs ! i)" "translate s (xs ! i) = Some f" "i < length xs"
    using r unfolding resident_def list_all2_conv_all_nth by auto
  then show "x \<in> set xs" using translate_inj [OF inv pa _ f] nth_mem by metis
qed

lemma list_all2_touch:
  assumes "list_all2 R xs fs" and "\<And>a b. R a b \<Longrightarrow> a = x \<longleftrightarrow> b = f" and "R x f"
  shows "list_all2 R (touch x xs) (touch f fs)"
proof -
  have "list_all2 R (filter (\<lambda>a. a \<noteq> x) xs) (filter (\<lambda>b. b \<noteq> f) fs)"
    using assms(1) by (induction rule: list_all2_induct) (auto simp: assms(2))
  then show ?thesis using assms(3) by (simp add: touch_def list_all2_appendI)
qed

lemma length_resident: "resident s xs fs \<Longrightarrow> length xs = length fs"
  by (auto simp: resident_def dest: list_all2_lengthD)

text \<open>What stays in memory over a reference.\<close>

lemma accessed_translate:
  assumes ac: "accessed s ty x s'" and x: "page_addr x" "translate s' x = Some f"
    and y: "page_addr y" "y \<noteq> x" "translate s y = Some g" "g \<noteq> f"
  shows "translate s' y = Some g"
proof -
  obtain h k where v: "mem_view s' = place x h k (mem_view s)" using ac by (auto simp: accessed_def)
  have "h = f" using fun_cong [OF v, of x] x by (simp add: mem_view_def place_def)
  then have "mem_view s' y = Some (g, version s g)" using y unfolding v by (simp add: place_def mem_view_def)
  then show ?thesis using mem_view_frame by blast
qed

lemma accessed_misses:
  assumes "accessed s ty x s'" and "page_addr x"
  shows "miss_count s' = miss_count s + (if translate s x = None then 1 else 0)"
  using assms unfolding accessed_def frame_choice_def
  by (auto simp: mem_view_def split: option.splits)

lemma resident_step:
  assumes r: "resident s xs fs" and tn: "turn moves s x fs f fs'" and ac: "accessed s ty x s'"
    and x: "page_addr x" "translate s' x = Some f" and u: "used_frames s' = insert f (used_frames s)"
    and inv: "vm_inv s" "dir_inv s"
  shows "resident s' (cache_step moves (memsize s) xs x) fs'"
proof -
  let ?R = "\<lambda>t y g. page_addr y \<and> translate t y = Some g"
  note mem = resident_mem [OF r inv x(1)] and len = length_resident [OF r]
  have ra: "list_all2 (?R s) xs fs" and d: "distinct fs" and sf: "set fs = used_frames s"
    using r by (simp_all add: resident_def)
  have keep: "?R s' y g" if "?R s y g" "y \<noteq> x" "g \<noteq> f" for y g
    using accessed_translate [OF ac x] that by blast
  from tn show ?thesis unfolding turn_def
  proof (elim disjE conjE exE)
    assume h: "translate s x = Some f" "f \<in> set fs" "fs' = use_page moves f fs"
    have one: "?R s y g \<Longrightarrow> y = x \<longleftrightarrow> g = f" for y g
      using translate_inj [OF inv _ x(1) _ h(1), of y] h(1) by auto
    have xin: "x \<in> set xs" using mem h(1) by simp
    have "list_all2 (?R s) (use_page moves x xs) fs'"
      using ra xin h list_all2_touch [of "?R s" xs fs x f] one x(1) by (simp add: use_page_def)
    then have "list_all2 (?R s') (use_page moves x xs) fs'"
      by (rule list_all2_mono) (use keep one x in blast)
    moreover have "distinct fs'" using d h(3) by (simp add: use_page_def distinct_touch)
    ultimately show ?thesis using xin h sf u by (simp add: resident_def cache_step_def)
  next
    assume h: "translate s x = None" "length fs < memsize s" "f \<notin> set fs" "fs' = fs @ [f]"
    have xn: "x \<notin> set xs" using mem h(1) by simp
    have "list_all2 (?R s') xs fs"
      by (rule list.rel_mono_strong [OF ra]) (use keep xn h(3) in blast)
    then have "list_all2 (?R s') (xs @ [x]) (fs @ [f])" using x by (simp add: list_all2_appendI)
    then show ?thesis using h d sf u len by (simp add: resident_def cache_step_def use_page_new [OF xn])
  next
    fix gs assume h: "translate s x = None" "length fs = memsize s" "fs = f # gs" "fs' = gs @ [f]"
    have xn: "x \<notin> set xs" using mem h(1) by simp
    obtain y ys where ys: "xs = y # ys" "list_all2 (?R s) ys gs" using ra h(3) by (auto simp: list_all2_Cons2)
    have fg: "f \<notin> set gs" using d h(3) by simp
    have "list_all2 (?R s') ys gs"
      by (rule list.rel_mono_strong [OF ys(2)]) (use keep xn ys(1) fg in \<open>auto\<close>)
    then have "list_all2 (?R s') (ys @ [x]) (gs @ [f])" using x by (simp add: list_all2_appendI)
    moreover have "used_frames s' = set (gs @ [f])" using u sf h(3) by auto
    ultimately show ?thesis using h d len xn ys(1) fg by (simp add: resident_def cache_step_def)
  qed
qed

section \<open>A run\<close>

context queue_replacement
begin

lemma access_all_cache:
  assumes "sim_inv tracks s" "content_inv s" and E: "memalign_ok E"
    and "resident s xs fs" "order s fs" and "\<forall>r \<in> set rs. page_addr (snd r)"
    and "access_all E ref_fcn evict_fcn rs s = Inr s'"
  shows "\<exists>fs'. resident s' (foldl (cache_step moves (memsize s)) xs (map snd rs)) fs' \<and>
    miss_count s' = miss_count s + cache_misses moves (memsize s) xs (map snd rs) \<and> vm_inv s' \<and> dir_inv s'"
  using assms(1,2,4-)
proof (induction rs arbitrary: s xs fs)
  case Nil
  then show ?case by (auto simp: sim_inv_def)
next
  case (Cons r rs)
  let ?x = "snd r"
  have x: "page_addr ?x" using Cons.prems(5) by simp
  obtain s1 where s1: "access_mem E ref_fcn evict_fcn (fst r) ?x s = Inr s1"
    "access_all E ref_fcn evict_fcn rs s1 = Inr s'"
    using Cons.prems(6) by (auto simp: resE)
  have ac: "sim_inv tracks s1" "accessed s (fst r) ?x s1"
    using access_mem_ok [OF Cons.prems(1,2) E x, of "fst r"] s1(1) by auto
  have inv: "vm_inv s" "dir_inv s" using Cons.prems(1) by (simp_all add: sim_inv_def)
  have sf: "set fs = used_frames s" using Cons.prems(3) by (simp add: resident_def)
  obtain f fs1 where tn: "translate s1 ?x = Some f" "turn moves s ?x fs f fs1" "order s1 fs1"
    "used_frames s1 = insert f (used_frames s)"
    using access_mem_turn [OF Cons.prems(1) E x Cons.prems(4) sf s1(1)] by blast
  let ?xs = "cache_step moves (memsize s) xs ?x"
  have res: "resident s1 ?xs fs1"
    by (rule resident_step [OF Cons.prems(3) tn(2) ac(2) x tn(1,4) inv])
  have m: "memsize s1 = memsize s" "content_inv s1" using ac(2) by (simp_all add: accessed_def)
  have mc: "miss_count s1 = miss_count s + (if ?x \<in> set xs then 0 else 1)"
    using accessed_misses [OF ac(2) x] resident_mem [OF Cons.prems(3) inv x] by simp
  show ?case
    using Cons.IH [OF ac(1) m(2) res tn(3) _ s1(2)] Cons.prems(5) m(1) mc by (simp add: add.assoc)
qed

lemma fresh_run_cache:
  assumes fr: "fresh_state s" and tr: "tracks s {}" "order s []" and E: "memalign_ok E"
    and refs: "\<forall>r \<in> set rs. page_addr (snd r)" and run: "access_all E ref_fcn evict_fcn rs s = Inr s'"
  shows "miss_count s' = cache_misses moves (memsize s) [] (map snd rs) \<and>
    (\<forall>x. page_addr x \<longrightarrow> translate s' x \<noteq> None \<longleftrightarrow> x \<in> set (foldl (cache_step moves (memsize s)) [] (map snd rs)))"
proof -
  have "used_frames s = {}" using fr by (auto simp: fresh_state_def used_frames_def memsize_def)
  then have "resident s [] []" by (simp add: resident_def)
  from access_all_cache [OF fresh_sim_inv [where tracks = tracks, OF fr tr(1)] E this tr(2) refs run]
  obtain fs' where "resident s' (foldl (cache_step moves (memsize s)) [] (map snd rs)) fs'"
    "miss_count s' = miss_count s + cache_misses moves (memsize s) [] (map snd rs)" "vm_inv s'" "dir_inv s'"
    by blast
  then show ?thesis using resident_mem fr by (auto simp: fresh_state_def)
qed

end

definition run_refs :: "config \<Rightarrow> string \<Rightarrow> u64 list" where
  "run_refs cfg bytes = map snd (trace_refs (c_type cfg, 0) bytes)"

lemma sim_main_cache:
  assumes cfg: "config_ok cfg" "c_input cfg = Some bytes" "c_alg cfg = Some nm" and E: "memalign_ok E"
    and nm: "nm \<in> {''lru'', ''fifo''}" and refs: "\<forall>x \<in> set (run_refs cfg bytes). page_addr x"
    and run: "sim_main E cfg = Inr s"
  shows "miss_count s = cache_misses (nm = ''lru'') (unat (c_memsize cfg)) [] (run_refs cfg bytes) \<and>
    (\<forall>x. page_addr x \<longrightarrow> translate s x \<noteq> None \<longleftrightarrow>
       x \<in> set (foldl (cache_step (nm = ''lru'') (unat (c_memsize cfg))) [] (run_refs cfg bytes)))"
proof -
  let ?rs = "trace_refs (c_type cfg, 0) bytes"
  have rp: "\<forall>r \<in> set ?rs. page_addr (snd r)" using refs by (simp add: run_refs_def)
  have f: "memsize (fifo_init t) = memsize t" "memsize (lru_init t) = memsize t" for t
    by (simp_all add: memsize_def fifo_init_def lru_init_def)
  obtain a where a: "find (\<lambda>a. alg_name a = nm) (algs E cfg) = Some a" using nm by (auto simp: algs_def)
  obtain s2 where s2: "fresh_state s2" "memsize s2 = unat (c_memsize cfg)"
    "sim_main E cfg = bindE (alg_init a s2) (replay_trace E (alg_ref a) (alg_evict a) (c_type cfg, 0) bytes)"
    by (rule sim_main_found [OF cfg a])
  note tr = fresh_tracks [OF s2(1)]
  from nm consider "nm = ''lru''" | "nm = ''fifo''" by auto
  then show ?thesis
  proof cases
    case 1
    have fr: "fresh_state (lru_init s2)" by (rule fresh_state_policy [OF s2(1)])
    have acc: "access_all E lru_ref lru_evict ?rs (lru_init s2) = Inr s"
      using a 1 s2(3) run by (auto simp: algs_def replay_trace_refs)
    from lru_queue.fresh_run_cache [OF fr tr(4) lru_init_rep E rp acc] show ?thesis
      using 1 s2(2) by (simp add: f run_refs_def)
  next
    case 2
    have fr: "fresh_state (fifo_init s2)" unfolding fifo_init_def by (rule fresh_state_policy [OF s2(1)])
    have pos: "0 < memsize s2" using s2(1) by (simp add: fresh_state_def sizes_ok_def)
    have acc: "access_all E fifo_ref fifo_evict ?rs (fifo_init s2) = Inr s"
      using a 2 s2(3) run by (auto simp: algs_def replay_trace_refs)
    from fifo_queue.fresh_run_cache [OF fr tr(1) fifo_order_init [OF pos] E rp acc] show ?thesis
      using 2 s2(2) by (simp add: f run_refs_def)
  qed
qed

section \<open>More memory\<close>

text \<open>With \<open>lru\<close> the pages in memory are the \<open>m\<close> used last.\<close>

definition latest :: "nat \<Rightarrow> 'a list \<Rightarrow> 'a list" where
  "latest m xs = drop (length xs - m) xs"

lemma latest_append: "latest m (xs @ [x]) = (if m = 0 then [] else latest (m - 1) xs @ [x])"
  by (auto simp: latest_def)

lemma set_latest_mono: "m \<le> n \<Longrightarrow> set (latest m xs) \<subseteq> set (latest n xs)"
  unfolding latest_def by (rule set_drop_subset_set_drop) simp

lemma cache_step_latest:
  assumes d: "distinct xs" and m: "0 < m"
  shows "cache_step True m (latest m xs) x = latest m (touch x xs)"
proof (cases "x \<in> set xs")
  case False
  have t: "touch x xs = xs @ [x]" "touch x (latest m xs) = latest m xs @ [x]"
    and no: "x \<notin> set (latest m xs)"
    using False by (auto simp: touch_def filter_id_conv latest_def dest: in_set_dropD)
  show ?thesis
  proof (cases "length xs < m")
    case True
    then show ?thesis using t no by (simp add: cache_step_def use_page_def latest_def)
  next
    case False
    then have "length xs - (m - 1) = Suc (length xs - m)" using m by simp
    then have "tl (latest m xs) = latest (m - 1) xs" by (simp add: latest_def tl_drop drop_Suc)
    then show ?thesis using t no m False by (simp add: cache_step_def latest_append) (simp add: latest_def)
  qed
next
  case True
  then obtain ys zs where s: "xs = ys @ x # zs" by (auto dest: split_list)
  have no: "x \<notin> set ys" "x \<notin> set zs" using d s by auto
  have t: "touch x xs = ys @ zs @ [x]" using touch_split [OF no] s by simp
  show ?thesis
  proof (cases "length zs < m")
    case True
    let ?k = "length ys + 1 + length zs - m"
    have k: "?k \<le> length ys" using True by simp
    have l: "latest m xs = drop ?k ys @ x # zs" "latest m (touch x xs) = drop ?k ys @ zs @ [x]"
      unfolding t using k s by (simp_all add: latest_def)
    have "x \<notin> set (drop ?k ys)" using no(1) by (auto dest: in_set_dropD)
    then show ?thesis using touch_split [of x "drop ?k ys" zs] no(2) unfolding l
      by (simp add: cache_step_def use_page_def)
  next
    case False
    have l: "latest m xs = drop (length zs - m) zs" using False s by (simp add: latest_def Suc_diff_le)
    have no': "x \<notin> set (latest m xs)" unfolding l using no(2) by (auto dest: in_set_dropD)
    have len: "\<not> length (latest m xs) < m" unfolding l using False by simp
    have "length zs - (m - 1) = Suc (length zs - m)" using m False by simp
    then have "tl (latest m xs) = drop (length zs - (m - 1)) zs" unfolding l by (simp add: tl_drop drop_Suc)
    moreover have "latest m (touch x xs) = drop (length zs - (m - 1)) zs @ [x]"
      unfolding t using m False by (simp add: latest_def)
    ultimately show ?thesis using no' len by (simp add: cache_step_def)
  qed
qed

lemma lru_misses_mono:
  assumes "distinct xs" "0 < m" "m \<le> n"
  shows "cache_misses True n (latest n xs) rs \<le> cache_misses True m (latest m xs) rs"
  using assms(1)
proof (induction rs arbitrary: xs)
  case (Cons x rs)
  have n: "0 < n" using assms by simp
  show ?case
    using Cons.IH [OF distinct_touch [OF Cons.prems], of x] set_latest_mono [OF assms(3), of xs]
    unfolding cache_misses.simps cache_step_latest [OF Cons.prems assms(2)] cache_step_latest [OF Cons.prems n]
    by auto
qed simp

lemma lru_pages_latest:
  assumes "distinct xs" "0 < m"
  shows "foldl (cache_step True m) (latest m xs) rs = latest m (foldl (\<lambda>xs x. touch x xs) xs rs)"
  using assms(1)
  by (induction rs arbitrary: xs) (simp_all add: cache_step_latest [OF _ assms(2)] distinct_touch)

lemma latest_Nil [simp]: "latest m [] = []"
  by (simp add: latest_def)

text \<open>Two runs that differ in the size of the memory.\<close>

definition more_memory :: "config \<Rightarrow> config \<Rightarrow> bool" where
  "more_memory cfg cfg' \<longleftrightarrow> c_memsize cfg \<le> c_memsize cfg' \<and>
     cfg' = cfg\<lparr>c_memsize := c_memsize cfg', c_physmem := c_physmem cfg'\<rparr>"

lemma lru_more_memory:
  assumes cfg: "config_ok cfg" "config_ok cfg'" "more_memory cfg cfg'" and E: "memalign_ok E"
    and io: "c_input cfg = Some bytes" "c_alg cfg = Some ''lru''"
    and refs: "\<forall>x \<in> set (run_refs cfg bytes). page_addr x"
    and run: "sim_main E cfg = Inr s" "sim_main E cfg' = Inr s'"
  shows "miss_count s' \<le> miss_count s \<and> hit_count s \<le> hit_count s' \<and>
    (\<forall>x. page_addr x \<longrightarrow> translate s x \<noteq> None \<longrightarrow> translate s' x \<noteq> None)"
proof -
  let ?m = "unat (c_memsize cfg)" and ?n = "unat (c_memsize cfg')" and ?rs = "run_refs cfg bytes"
  have same: "c_input cfg' = c_input cfg" "c_alg cfg' = c_alg cfg" "c_type cfg' = c_type cfg" and mn: "?m \<le> ?n"
    using cfg(3) unfolding more_memory_def by (metis config.select_convs config.surjective config.update_convs word_le_nat_alt)+
  have io': "c_input cfg' = Some bytes" "c_alg cfg' = Some ''lru''" "run_refs cfg' bytes = ?rs"
    using io same by (simp_all add: run_refs_def)
  have pos: "0 < ?m" "0 < ?n" using cfg by (simp_all add: config_ok_def)
  note a = sim_main_cache [OF cfg(1) io E _ refs run(1)]
    and b = sim_main_cache [OF cfg(2) io'(1,2) E _ _ run(2), unfolded io'(3)]
  have mono: "cache_misses True ?n [] ?rs \<le> cache_misses True ?m [] ?rs"
    using lru_misses_mono [OF _ pos(1) mn, of "[]" ?rs] by simp
  have res: "set (foldl (cache_step True ?m) [] ?rs) \<subseteq> set (foldl (cache_step True ?n) [] ?rs)"
    using lru_pages_latest [OF _ pos(1), of "[]" ?rs] lru_pages_latest [OF _ pos(2), of "[]" ?rs]
      set_latest_mono [OF mn] by simp
  have rp: "\<forall>r \<in> set (trace_refs (c_type cfg, 0) bytes). page_addr (snd r)" using refs by (simp add: run_refs_def)
  have "hit_count s + miss_count s = hit_count s' + miss_count s'"
    using sim_main_run [OF cfg(1) io E _ rp] sim_main_run [OF cfg(2) io'(1,2) E _ rp [folded same(3)]] run same(3)
    by (auto simp: run_ok_def)
  then show ?thesis using a b mono res refs by auto
qed

end
