(* ===== verification/Mem_Scan.thy ===== *)
theory Mem_Scan
  imports Mem_Main
begin

text \<open>
  What \<open>opt_init\<close> leaves behind: one node for each address of the trace, found through
  the hash map, with the positions at which the address occurs, in order; and for each line
  of the trace the node of its address.
\<close>

section \<open>The first index from a place on\<close>

definition nxt_idx :: "(nat \<Rightarrow> bool) \<Rightarrow> nat \<Rightarrow> nat \<Rightarrow> nat option" where
  "nxt_idx P lo n = find P [lo ..< n]"

definition last_idx :: "(nat \<Rightarrow> bool) \<Rightarrow> nat \<Rightarrow> nat option" where
  "last_idx P n = find P (rev [0 ..< n])"

lemma find_snoc: "find P (xs @ [y]) = (case find P xs of Some x \<Rightarrow> Some x | None \<Rightarrow> if P y then Some y else None)"
  by (induction xs) auto

lemma nxt_idx_Suc:
  "nxt_idx P lo (Suc n) = (case nxt_idx P lo n of Some j \<Rightarrow> Some j | None \<Rightarrow> if lo \<le> n \<and> P n then Some n else None)"
  by (simp add: nxt_idx_def find_snoc split: option.split)

lemma last_idx_Suc: "last_idx P (Suc n) = (if P n then Some n else last_idx P n)"
  by (simp add: last_idx_def)

lemma nxt_idx_cong: "(\<And>j. lo \<le> j \<Longrightarrow> j < n \<Longrightarrow> P j = Q j) \<Longrightarrow> nxt_idx P lo n = nxt_idx Q lo n"
  unfolding nxt_idx_def by (rule find_cong) auto

lemma last_idx_cong: "(\<And>j. j < n \<Longrightarrow> P j = Q j) \<Longrightarrow> last_idx P n = last_idx Q n"
  unfolding last_idx_def by (rule find_cong) auto

lemma nxt_idx_None: "nxt_idx P lo n = None \<longleftrightarrow> (\<forall>j. lo \<le> j \<longrightarrow> j < n \<longrightarrow> \<not> P j)"
  by (auto simp: nxt_idx_def find_None_iff)

lemma nxt_idx_Some:
  assumes "nxt_idx P lo n = Some j"
  shows "lo \<le> j" "j < n" "P j" "\<And>i. lo \<le> i \<Longrightarrow> i < j \<Longrightarrow> \<not> P i"
proof -
  obtain k where k: "k < length [lo ..< n]" "P ([lo ..< n] ! k)" "j = [lo ..< n] ! k" "\<forall>i < k. \<not> P ([lo ..< n] ! i)"
    using assms unfolding nxt_idx_def find_Some_iff by blast
  then have j: "j = lo + k" "k < n - lo" by simp_all
  show "lo \<le> j" "j < n" "P j" using j k(2,3) by auto
  show "\<not> P i" if "lo \<le> i" "i < j" for i
  proof -
    have "i - lo < k" using that j(1) by simp
    then have "\<not> P ([lo ..< n] ! (i - lo))" using k(4) by blast
    then show ?thesis using that j by simp
  qed
qed

lemma nxt_idxI:
  assumes "lo \<le> j" "j < n" "P j" "\<And>i. lo \<le> i \<Longrightarrow> i < j \<Longrightarrow> \<not> P i"
  shows "nxt_idx P lo n = Some j"
proof (cases "nxt_idx P lo n")
  case None
  then show ?thesis using assms by (simp add: nxt_idx_None)
next
  case (Some k)
  note S = nxt_idx_Some [OF Some]
  have "\<not> k < j" using assms(4) S(1,3) by blast
  moreover have "\<not> j < k" using S(4) assms(1,3) by blast
  ultimately show ?thesis using Some by simp
qed

lemma last_idx_Some:
  "last_idx P n = Some j \<Longrightarrow> j < n \<and> P j \<and> (\<forall>i. j < i \<longrightarrow> i < n \<longrightarrow> \<not> P i)"
  by (induction n) (auto simp: last_idx_Suc last_idx_def [of P 0] less_Suc_eq split: if_splits)

lemma last_idx_None: "last_idx P n = None \<longleftrightarrow> (\<forall>j < n. \<not> P j)"
  by (auto simp: last_idx_def find_None_iff)

section \<open>The state after some lines\<close>

text \<open>The addresses of the lines, as \<open>opt_init\<close> reads them.\<close>

function opt_addrs :: "char \<times> u64 \<Rightarrow> string \<Rightarrow> u64 list" where
  "opt_addrs old [] = []"
| "opt_addrs old (c # cs) =
    (let (buffer, rest) = fgets OPT_BUFFER (c # cs); r = sscanf_ref (replace_newline_char buffer) old in
     snd r # opt_addrs r rest)"
  by pat_completeness auto
termination by (relation "measure (\<lambda>(_, cs). length cs)") (auto dest: fgets_buffer)

lemma opt_addrs_some: "cs \<noteq> [] \<Longrightarrow> opt_addrs old cs \<noteq> []"
  by (cases cs) (simp_all add: split_def Let_def del: fgets.simps)

lemma length_opt_addrs: "length (opt_addrs old cs) = count_lines cs"
proof (induction old cs rule: opt_addrs.induct)
  case (2 old c cs)
  obtain l rest where f: "fgets OPT_BUFFER (c # cs) = (l, rest)" by (cases "fgets OPT_BUFFER (c # cs)")
  show ?case using 2 [OF f [symmetric] refl refl] by (simp add: f Let_def)
qed simp

text \<open>One line.\<close>

definition record_line :: "os_env \<Rightarrow> u64 \<Rightarrow> sim \<Rightarrow> sim res" where
  "record_line E va s =
    bindE (opt_hash (length (hashmap s)) va) (\<lambda>index.
    bindE (vaddr_record E (int (position s)) va index s) (\<lambda>(i, s1).
    bindE (wr (reference_string s1) (position s1) (Some i)) (\<lambda>rs.
    Inr (s1\<lparr>reference_string := rs, position := Suc (position s1)\<rparr>))))"

primrec record_all :: "os_env \<Rightarrow> u64 list \<Rightarrow> sim \<Rightarrow> sim res" where
  "record_all E [] s = Inr s"
| "record_all E (x # xs) s = bindE (record_line E x s) (record_all E xs)"

lemma opt_scan_all: "opt_scan E old cs s = record_all E (opt_addrs old cs) s"
proof (induction old cs arbitrary: s rule: opt_addrs.induct)
  case (2 old c cs)
  obtain l rest where f: "fgets OPT_BUFFER (c # cs) = (l, rest)" by (cases "fgets OPT_BUFFER (c # cs)")
  obtain ty va where r: "sscanf_ref (replace_newline_char l) old = (ty, va)" by (cases "sscanf_ref (replace_newline_char l) old")
  have IH: "opt_scan E (ty, va) rest = record_all E (opt_addrs (ty, va) rest)"
    using 2 [OF f [symmetric] refl refl] r by (simp add: fun_eq_iff)
  show ?case by (simp add: f r Let_def record_line_def bindE_assoc IH split_def)
qed simp

text \<open>
  \<open>as\<close> are the addresses of the lines read, \<open>vs\<close> those of the nodes; \<open>hs\<close> is the size of the
  hash map. Node \<open>k\<close> of \<open>onodes\<close> is for line \<open>k\<close>.
\<close>

definition va_node :: "nat \<Rightarrow> u64 list \<Rightarrow> u64 list \<Rightarrow> nat \<Rightarrow> vaddr_node" where
  "va_node hs as vs i = \<lparr>virtual_addr = vs ! i,
     vnext = nxt_idx (\<lambda>j. unat (vs ! j) mod hs = unat (vs ! i) mod hs) (Suc i) (length vs),
     next_in_frame = None, frame_number = -1,
     occurance_head = nxt_idx (\<lambda>k. as ! k = vs ! i) 0 (length as),
     occurance_tail = last_idx (\<lambda>k. as ! k = vs ! i) (length as)\<rparr>"

definition use_node :: "u64 list \<Rightarrow> nat \<Rightarrow> occ_node" where
  "use_node as k = \<lparr>occurance = int k, onext = nxt_idx (\<lambda>j. as ! j = as ! k) (Suc k) (length as), freed = False\<rparr>"

definition scanned :: "nat \<Rightarrow> u64 list \<Rightarrow> u64 list \<Rightarrow> sim \<Rightarrow> bool" where
  "scanned hs as vs s \<longleftrightarrow> 0 < hs \<and> distinct vs \<and> set vs = set as \<and>
     vnodes s = map (va_node hs as vs) [0 ..< length vs] \<and>
     onodes s = map (use_node as) [0 ..< length as] \<and>
     hashmap s = map (\<lambda>b. nxt_idx (\<lambda>j. unat (vs ! j) mod hs = b) 0 (length vs)) [0 ..< hs] \<and>
     position s = length as \<and> length as \<le> length (reference_string s) \<and>
     (\<forall>p < length as. \<exists>i < length vs. reference_string s ! p = Some i \<and> vs ! i = as ! p)"

section \<open>One line\<close>

text \<open>The walk along a bucket finds the node of the address, or the last one of the bucket.\<close>

lemma seek_bucket_run:
  assumes v: "vnodes s = map (va_node hs as vs) [0 ..< length vs]"
  shows "c < length vs \<Longrightarrow> length vs - c \<le> k \<Longrightarrow> \<exists>r. seek_bucket k va c s = Inr r \<and> c \<le> r \<and> r < length vs \<and>
    unat (vs ! r) mod hs = unat (vs ! c) mod hs \<and>
    (vs ! r = va \<or> vnext (va_node hs as vs r) = None \<and>
      (\<forall>j. c \<le> j \<longrightarrow> j < length vs \<longrightarrow> unat (vs ! j) mod hs = unat (vs ! c) mod hs \<longrightarrow> vs ! j \<noteq> va))"
proof (induction k arbitrary: c)
  case 0
  then show ?case by simp
next
  case (Suc k)
  have n: "vnode c s = Inr (va_node hs as vs c)" using Suc.prems(1) by (simp add: vnode_def v)
  show ?case
  proof (cases "vnext (va_node hs as vs c)")
    case None
    then have "vs ! j \<noteq> va \<or> vs ! c = va"
      if "c \<le> j" "j < length vs" "unat (vs ! j) mod hs = unat (vs ! c) mod hs" for j
      using that by (cases "j = c") (auto simp: va_node_def nxt_idx_None)
    then show ?thesis using None n Suc.prems(1) by (intro exI [of _ c]) auto
  next
    case (Some x)
    note S = nxt_idx_Some [OF Some [unfolded va_node_def vaddr_node.simps]]
    show ?thesis
    proof (cases "vs ! c = va")
      case True
      then show ?thesis using Some n Suc.prems(1) by (intro exI [of _ c]) (auto simp: va_node_def)
    next
      case False
      have "x < length vs" "length vs - x \<le> k" using S(1,2) Suc.prems by auto
      from Suc.IH [OF this] obtain r where r: "seek_bucket k va x s = Inr r" "x \<le> r" "r < length vs"
        "unat (vs ! r) mod hs = unat (vs ! x) mod hs"
        "vs ! r = va \<or> vnext (va_node hs as vs r) = None \<and>
          (\<forall>j. x \<le> j \<longrightarrow> j < length vs \<longrightarrow> unat (vs ! j) mod hs = unat (vs ! x) mod hs \<longrightarrow> vs ! j \<noteq> va)"
        by blast
      have "vs ! j \<noteq> va" if "c \<le> j" "j < length vs" "unat (vs ! j) mod hs = unat (vs ! c) mod hs" "vs ! r \<noteq> va" for j
      proof (cases "x \<le> j")
        case True
        then show ?thesis using r(5) that S(3) by auto
      next
        case f: False
        then have "j = c" using S(4) [of j] that(1,3) by (cases "j = c") auto
        then show ?thesis using False by simp
      qed
      moreover have "seek_bucket (Suc k) va c s = Inr r" using n Some False r(1) by (simp add: va_node_def)
      ultimately show ?thesis using r(2-5) S(1,3) by (intro exI [of _ r]) auto
    qed
  qed
qed

text \<open>What one more line, and one more node, change in the nodes.\<close>

definition or_else :: "nat option \<Rightarrow> nat option \<Rightarrow> nat option" where
  "or_else a b = (case a of Some j \<Rightarrow> Some j | None \<Rightarrow> b)"

lemma or_else_simps [simp]: "or_else (Some j) b = Some j" "or_else None b = b" "or_else a None = a"
  by (simp_all add: or_else_def split: option.split)

lemma nxt_idx_snoc:
  assumes "lo \<le> n" and "\<And>j. j < n \<Longrightarrow> P j = Q j"
  shows "nxt_idx P lo (Suc n) = or_else (nxt_idx Q lo n) (if P n then Some n else None)"
proof -
  have "nxt_idx P lo n = nxt_idx Q lo n" by (rule nxt_idx_cong) (rule assms(2))
  then show ?thesis using assms(1) by (simp add: nxt_idx_Suc or_else_def split: option.split)
qed

lemma last_idx_snoc:
  assumes "\<And>j. j < n \<Longrightarrow> P j = Q j"
  shows "last_idx P (Suc n) = (if P n then Some n else last_idx Q n)"
  using last_idx_cong [of n P Q] assms by (simp add: last_idx_Suc)

lemma use_node_snoc:
  assumes k: "k < length as"
  shows "use_node (as @ [va]) k =
    (use_node as k)\<lparr>onext := or_else (onext (use_node as k)) (if va = as ! k then Some (length as) else None)\<rparr>"
proof -
  have "nxt_idx (\<lambda>j. (as @ [va]) ! j = (as @ [va]) ! k) (Suc k) (Suc (length as)) =
      or_else (nxt_idx (\<lambda>j. as ! j = as ! k) (Suc k) (length as)) (if (as @ [va]) ! length as = (as @ [va]) ! k then Some (length as) else None)"
    by (rule nxt_idx_snoc) (use k in \<open>auto simp: nth_append\<close>)
  then show ?thesis using k by (simp add: use_node_def nth_append)
qed

lemma use_node_last: "use_node (as @ [va]) (length as) = \<lparr>occurance = int (length as), onext = None, freed = False\<rparr>"
  by (simp add: use_node_def nxt_idx_def)

lemma va_node_line:
  "va_node hs (as @ [va]) vs i = (va_node hs as vs i)
    \<lparr>occurance_head := or_else (occurance_head (va_node hs as vs i)) (if va = vs ! i then Some (length as) else None),
     occurance_tail := if va = vs ! i then Some (length as) else occurance_tail (va_node hs as vs i)\<rparr>"
proof -
  have "nxt_idx (\<lambda>k. (as @ [va]) ! k = vs ! i) 0 (Suc (length as)) =
      or_else (nxt_idx (\<lambda>k. as ! k = vs ! i) 0 (length as)) (if (as @ [va]) ! length as = vs ! i then Some (length as) else None)"
    by (rule nxt_idx_snoc) (auto simp: nth_append)
  moreover have "last_idx (\<lambda>k. (as @ [va]) ! k = vs ! i) (Suc (length as)) =
      (if (as @ [va]) ! length as = vs ! i then Some (length as) else last_idx (\<lambda>k. as ! k = vs ! i) (length as))"
    by (rule last_idx_snoc) (auto simp: nth_append)
  ultimately show ?thesis by (simp add: va_node_def)
qed

lemma va_node_more:
  assumes i: "i < length vs"
  shows "va_node hs as (vs @ [va]) i = (va_node hs as vs i)
    \<lparr>vnext := or_else (vnext (va_node hs as vs i)) (if unat va mod hs = unat (vs ! i) mod hs then Some (length vs) else None)\<rparr>"
proof -
  have "nxt_idx (\<lambda>j. unat ((vs @ [va]) ! j) mod hs = unat ((vs @ [va]) ! i) mod hs) (Suc i) (Suc (length vs)) =
      or_else (nxt_idx (\<lambda>j. unat (vs ! j) mod hs = unat (vs ! i) mod hs) (Suc i) (length vs))
        (if unat ((vs @ [va]) ! length vs) mod hs = unat ((vs @ [va]) ! i) mod hs then Some (length vs) else None)"
    by (rule nxt_idx_snoc) (use i in \<open>auto simp: nth_append\<close>)
  then show ?thesis using i by (simp add: va_node_def nth_append)
qed

lemma va_node_last:
  "va_node hs as (vs @ [va]) (length vs) = \<lparr>virtual_addr = va, vnext = None, next_in_frame = None, frame_number = -1,
     occurance_head = nxt_idx (\<lambda>k. as ! k = va) 0 (length as), occurance_tail = last_idx (\<lambda>k. as ! k = va) (length as)\<rparr>"
  by (simp add: va_node_def nxt_idx_def)

lemma bucket_more:
  "nxt_idx (\<lambda>j. unat ((vs @ [va]) ! j) mod hs = b) 0 (Suc (length vs)) =
    or_else (nxt_idx (\<lambda>j. unat (vs ! j) mod hs = b) 0 (length vs)) (if unat va mod hs = b then Some (length vs) else None)"
proof -
  have "nxt_idx (\<lambda>j. unat ((vs @ [va]) ! j) mod hs = b) 0 (Suc (length vs)) =
      or_else (nxt_idx (\<lambda>j. unat (vs ! j) mod hs = b) 0 (length vs)) (if unat ((vs @ [va]) ! length vs) mod hs = b then Some (length vs) else None)"
    by (rule nxt_idx_snoc) (auto simp: nth_append)
  then show ?thesis by simp
qed

section \<open>One line\<close>

lemma scanned_nodes:
  assumes "scanned hs as vs s"
  shows "i < length vs \<Longrightarrow> vnode i s = Inr (va_node hs as vs i)" "length (vnodes s) = length vs" "length (onodes s) = length as"
    "length (hashmap s) = hs" "0 < hs" "i < length vs \<Longrightarrow> vnodes s ! i = va_node hs as vs i"
    "b < hs \<Longrightarrow> hashmap s ! b = nxt_idx (\<lambda>j. unat (vs ! j) mod hs = b) 0 (length vs)"
  using assms by (simp_all add: scanned_def vnode_def)

text \<open>The rest of the invariant: the line gets the node of its address.\<close>

lemma scanned_finish:
  assumes s: "scanned hs as vs s" and room: "length as < length (reference_string s)"
    and t: "reference_string t = reference_string s" "position t = position s"
    and vs': "vs' = vs \<or> vs' = vs @ [va]" "distinct vs'" "set vs' = set (as @ [va])" and i: "i < length vs'" "vs' ! i = va"
    and v: "vnodes t = map (va_node hs (as @ [va]) vs') [0 ..< length vs']" and o: "onodes t = map (use_node (as @ [va])) [0 ..< Suc (length as)]"
    and h: "hashmap t = map (\<lambda>b. nxt_idx (\<lambda>j. unat (vs' ! j) mod hs = b) 0 (length vs')) [0 ..< hs]"
  shows "scanned hs (as @ [va]) vs'
    (t\<lparr>reference_string := (reference_string t)[position t := Some i], position := Suc (position t)\<rparr>)"
proof -
  have p: "position s = length as" using s by (simp add: scanned_def)
  have "\<exists>j < length vs'. (reference_string s)[length as := Some i] ! q = Some j \<and> vs' ! j = (as @ [va]) ! q"
    if q: "q < Suc (length as)" for q
  proof (cases "q = length as")
    case True
    then show ?thesis using i room by auto
  next
    case False
    then have "q < length as" using q by simp
    then obtain j where "j < length vs" "reference_string s ! q = Some j" "vs ! j = as ! q" using s unfolding scanned_def by blast
    then show ?thesis using vs'(1) False \<open>q < length as\<close> by (intro exI [of _ j]) (auto simp: nth_append)
  qed
  then show ?thesis using assms p unfolding scanned_def by simp
qed

lemma new_line_nodes:
  assumes s: "scanned hs as vs s" and new: "va \<notin> set vs"
  shows "map (use_node (as @ [va])) [0 ..< Suc (length as)] = onodes s @ [\<lparr>occurance = int (length as), onext = None, freed = False\<rparr>]"
    "va_node hs (as @ [va]) (vs @ [va]) (length vs) = \<lparr>virtual_addr = va, vnext = None, next_in_frame = None, frame_number = -1,
       occurance_head = Some (length as), occurance_tail = Some (length as)\<rparr>"
    "i < length vs \<Longrightarrow> va_node hs (as @ [va]) (vs @ [va]) i = (va_node hs as vs i)
      \<lparr>vnext := or_else (vnext (va_node hs as vs i)) (if unat va mod hs = unat (vs ! i) mod hs then Some (length vs) else None)\<rparr>"
proof -
  have a: "as ! k \<noteq> va" if "k < length as" for k using s new that by (auto simp: scanned_def)
  have "use_node (as @ [va]) k = use_node as k" if "k < length as" for k
    using use_node_snoc [OF that, of va] a [OF that] by (simp add: use_node_def)
  then show "map (use_node (as @ [va])) [0 ..< Suc (length as)] = onodes s @ [\<lparr>occurance = int (length as), onext = None, freed = False\<rparr>]"
    using s by (simp add: scanned_def use_node_last)
  have n: "nxt_idx (\<lambda>k. as ! k = va) 0 (length as) = None" using a by (auto simp: nxt_idx_None)
  show "va_node hs (as @ [va]) (vs @ [va]) (length vs) = \<lparr>virtual_addr = va, vnext = None, next_in_frame = None, frame_number = -1,
      occurance_head = Some (length as), occurance_tail = Some (length as)\<rparr>"
    unfolding va_node_line [of hs as va] va_node_last [of hs as] n by simp
  show "i < length vs \<Longrightarrow> va_node hs (as @ [va]) (vs @ [va]) i = (va_node hs as vs i)
      \<lparr>vnext := or_else (vnext (va_node hs as vs i)) (if unat va mod hs = unat (vs ! i) mod hs then Some (length vs) else None)\<rparr>"
  proof -
    assume i: "i < length vs"
    then have "va \<noteq> vs ! i" using new by auto
    then show ?thesis using i unfolding va_node_line [of hs as va] va_node_more [OF i] by (simp add: nth_append va_node_def)
  qed
qed

lemma record_line_by:
  assumes s: "scanned hs as vs s" and room: "length as < length (reference_string s)"
    and run: "vaddr_record E (int (position s)) va (unat va mod hs) s = Inr (i, t)"
    and t: "reference_string t = reference_string s" "position t = position s" "core t = core s"
    and sc: "scanned hs as' vs' (t\<lparr>reference_string := (reference_string t)[position t := Some i], position := Suc (position t)\<rparr>)"
  shows "\<exists>s'. record_line E va s = Inr s' \<and> scanned hs as' vs' s' \<and> core s' = core s \<and>
    length (reference_string s') = length (reference_string s)"
proof -
  let ?s' = "t\<lparr>reference_string := (reference_string t)[position t := Some i], position := Suc (position t)\<rparr>"
  have "position s = length as" using s by (simp add: scanned_def)
  then have "record_line E va s = Inr ?s'"
    using scanned_nodes(4,5) [OF s] run room t(1,2) by (simp add: record_line_def opt_hash_def)
  moreover have "core ?s' = core s" using t(3) by (simp add: core_def)
  moreover have "length (reference_string ?s') = length (reference_string s)" using t(1) by simp
  ultimately show ?thesis using sc by blast
qed

lemma vnext_same: "unat va mod hs \<noteq> h \<Longrightarrow> n\<lparr>vnext := or_else (vnext n) (if unat va mod hs = h then x else None)\<rparr> = n"
  by (cases n) simp

lemma record_new_bucket:
  assumes s: "scanned hs as vs s" and room: "length as < length (reference_string s)"
    and heap: "length as < heap_limit E" "length vs < heap_limit E" and b: "hashmap s ! (unat va mod hs) = None"
  shows "\<exists>s'. record_line E va s = Inr s' \<and> scanned hs (as @ [va]) (vs @ [va]) s' \<and> core s' = core s \<and>
    length (reference_string s') = length (reference_string s)"
proof -
  note N = scanned_nodes [OF s]
  have none: "unat va mod hs \<noteq> unat (vs ! j) mod hs" if "j < length vs" for j
    using b N(5) N(7) [of "unat va mod hs"] that by (auto simp: nxt_idx_None)
  then have new: "va \<notin> set vs" by (auto simp: in_set_conv_nth)
  note L = new_line_nodes [OF s new]
  let ?n = "\<lparr>virtual_addr = va, vnext = None, next_in_frame = None, frame_number = -1,
    occurance_head = Some (length as), occurance_tail = Some (length as)\<rparr>"
  let ?o = "\<lparr>occurance = int (length as), onext = None, freed = False\<rparr>"
  let ?t = "s\<lparr>onodes := onodes s @ [?o], vnodes := vnodes s @ [?n], hashmap := (hashmap s)[unat va mod hs := Some (length vs)]\<rparr>"
  have p: "position s = length as" using s by (simp add: scanned_def)
  have u: "(vnodes s @ [x])[length vs := y] = vnodes s @ [y]" for x y using N(2) by (metis list_update_length)
  have run: "vaddr_record E (int (position s)) va (unat va mod hs) s = Inr (length vs, ?t)"
    using b heap N(2-5) p u
    by (simp add: vaddr_record_def new_vaddr_def add_occurance_sequence_def new_onode_def vnode_def set_vnode_def nth_append)
  have "scanned hs (as @ [va]) (vs @ [va]) (?t\<lparr>reference_string := (reference_string ?t)[position ?t := Some (length vs)], position := Suc (position ?t)\<rparr>)"
  proof (rule scanned_finish [OF s room])
    show "vnodes ?t = map (va_node hs (as @ [va]) (vs @ [va])) [0 ..< length (vs @ [va])]"
    proof -
      have "map (va_node hs (as @ [va]) (vs @ [va])) [0 ..< length vs] = map (va_node hs as vs) [0 ..< length vs]"
        by (rule map_cong [OF refl]) (use none in \<open>simp add: L(3) vnext_same\<close>)
      then show ?thesis using s L(2) by (simp add: scanned_def)
    qed
    show "hashmap ?t = map (\<lambda>b. nxt_idx (\<lambda>j. unat ((vs @ [va]) ! j) mod hs = b) 0 (length (vs @ [va]))) [0 ..< hs]"
      by (rule nth_equalityI) (use N(4,7) b in \<open>auto simp: nth_update_if bucket_more\<close>)
  qed (use s new L(1) in \<open>auto simp: scanned_def\<close>)
  then show ?thesis by (intro record_line_by [OF s room run]) (simp_all add: core_def)
qed

text \<open>The address has a node already.\<close>

lemma old_line_nodes:
  assumes s: "scanned hs as vs s" and r: "r < length vs" "vs ! r = va" and t: "last_idx (\<lambda>k. as ! k = va) (length as) = Some t"
  shows "map (use_node (as @ [va])) [0 ..< Suc (length as)] =
      (onodes s @ [\<lparr>occurance = int (length as), onext = None, freed = False\<rparr>])[t := (use_node as t)\<lparr>onext := Some (length as)\<rparr>]"
    "map (va_node hs (as @ [va]) vs) [0 ..< length vs] = (vnodes s)[r := (va_node hs as vs r)\<lparr>occurance_tail := Some (length as)\<rparr>]"
proof -
  have T: "t < length as" "as ! t = va" "\<And>k. t < k \<Longrightarrow> k < length as \<Longrightarrow> as ! k \<noteq> va" using last_idx_Some [OF t] by auto
  have o: "onodes s = map (use_node as) [0 ..< length as]" and v: "vnodes s = map (va_node hs as vs) [0 ..< length vs]"
    and d: "distinct vs" using s by (simp_all add: scanned_def)
  have end_: "onext (use_node as t) = None" using T by (auto simp: use_node_def nxt_idx_None)
  have mid: "or_else (onext (use_node as k)) (if va = as ! k then Some (length as) else None) = onext (use_node as k)"
    if k: "k < length as" "k \<noteq> t" for k
  proof (cases "va = as ! k")
    case True
    have "\<not> t < k" using T(3) k True by auto
    then have "k < t" using k(2) by simp
    then have "onext (use_node as k) \<noteq> None" using T True by (auto simp: use_node_def nxt_idx_None intro!: exI [of _ t])
    then show ?thesis by auto
  qed simp
  show "map (use_node (as @ [va])) [0 ..< Suc (length as)] =
      (onodes s @ [\<lparr>occurance = int (length as), onext = None, freed = False\<rparr>])[t := (use_node as t)\<lparr>onext := Some (length as)\<rparr>]"
  proof (rule nth_equalityI)
    fix k assume "k < length (map (use_node (as @ [va])) [0 ..< Suc (length as)])"
    then consider "k = length as" | "k < length as" "k = t" | "k < length as" "k \<noteq> t" by fastforce
    then show "map (use_node (as @ [va])) [0 ..< Suc (length as)] ! k =
        (onodes s @ [\<lparr>occurance = int (length as), onext = None, freed = False\<rparr>])[t := (use_node as t)\<lparr>onext := Some (length as)\<rparr>] ! k"
    proof cases
      case 1
      then show ?thesis using T(1) o by (simp add: use_node_last nth_append nth_update_if)
    next
      case 2
      have "map (use_node (as @ [va])) [0 ..< Suc (length as)] ! t = use_node (as @ [va]) t" using T(1) by (simp del: upt_Suc)
      then show ?thesis using 2 T(1,2) o end_ by (simp add: use_node_snoc)
    next
      case 3
      have "map (use_node (as @ [va])) [0 ..< Suc (length as)] ! k = use_node (as @ [va]) k" using 3 by (simp del: upt_Suc)
      also have "\<dots> = use_node as k" unfolding use_node_snoc [OF 3(1)] mid [OF 3] by simp
      finally show ?thesis using 3 o by (simp add: nth_append)
    qed
  qed (simp add: o)
  have head: "nxt_idx (\<lambda>k. as ! k = va) 0 (length as) \<noteq> None" using T by (auto simp: nxt_idx_None)
  have same: "n\<lparr>occurance_head := or_else (occurance_head n) None, occurance_tail := occurance_tail n\<rparr> = n" for n :: vaddr_node
    by (cases n) simp
  show "map (va_node hs (as @ [va]) vs) [0 ..< length vs] = (vnodes s)[r := (va_node hs as vs r)\<lparr>occurance_tail := Some (length as)\<rparr>]"
  proof (rule nth_equalityI)
    fix i assume "i < length (map (va_node hs (as @ [va]) vs) [0 ..< length vs])"
    then have i: "i < length vs" by simp
    show "map (va_node hs (as @ [va]) vs) [0 ..< length vs] ! i = (vnodes s)[r := (va_node hs as vs r)\<lparr>occurance_tail := Some (length as)\<rparr>] ! i"
    proof (cases "i = r")
      case True
      have "or_else (occurance_head (va_node hs as vs r)) (Some (length as)) = occurance_head (va_node hs as vs r)"
        using head r by (auto simp: va_node_def)
      then show ?thesis using True r v by (simp add: va_node_line)
    next
      case False
      then have "va \<noteq> vs ! i" using d i r by (auto simp: nth_eq_iff_index_eq)
      then show ?thesis using False i v same [of "va_node hs as vs i"] by (simp add: va_node_line)
    qed
  qed (simp add: v)
qed

lemma record_known:
  assumes s: "scanned hs as vs s" and room: "length as < length (reference_string s)"
    and heap: "length as < heap_limit E" and b: "hashmap s ! (unat va mod hs) = Some c"
    and r: "seek_bucket (length (vnodes s)) va c s = Inr r" "r < length vs" "vs ! r = va"
  shows "\<exists>s'. record_line E va s = Inr s' \<and> scanned hs (as @ [va]) vs s' \<and> core s' = core s \<and>
    length (reference_string s') = length (reference_string s)"
proof -
  note N = scanned_nodes [OF s]
  have mem: "va \<in> set as" using s r(2,3) nth_mem by (force simp: scanned_def)
  then obtain q where q: "q < length as" "as ! q = va" by (auto simp: in_set_conv_nth)
  obtain h where h: "nxt_idx (\<lambda>k. as ! k = va) 0 (length as) = Some h" using q by (cases "nxt_idx (\<lambda>k. as ! k = va) 0 (length as)") (auto simp: nxt_idx_None)
  obtain t where t: "last_idx (\<lambda>k. as ! k = va) (length as) = Some t" using q by (cases "last_idx (\<lambda>k. as ! k = va) (length as)") (auto simp: last_idx_None)
  have tl: "t < length as" using last_idx_Some [OF t] by simp
  note L = old_line_nodes [OF s r(2,3) t]
  have p: "position s = length as" and o: "onodes s = map (use_node as) [0 ..< length as]" using s by (simp_all add: scanned_def)
  have nd: "virtual_addr (va_node hs as vs r) = va" "occurance_head (va_node hs as vs r) = Some h" "occurance_tail (va_node hs as vs r) = Some t"
    using r(3) h t by (simp_all add: va_node_def)
  let ?o = "\<lparr>occurance = int (length as), onext = None, freed = False\<rparr>"
  let ?t = "s\<lparr>onodes := (onodes s @ [?o])[t := (use_node as t)\<lparr>onext := Some (length as)\<rparr>],
    vnodes := (vnodes s)[r := (va_node hs as vs r)\<lparr>occurance_tail := Some (length as)\<rparr>]\<rparr>"
  have ot: "(onodes s @ [x]) ! t = use_node as t" for x using tl o by (simp add: nth_append)
  have run: "vaddr_record E (int (position s)) va (unat va mod hs) s = Inr (r, ?t)"
    using b r(1) heap N(1) [OF r(2)] N(2-5) p nd tl ot
    by (simp add: vaddr_record_def add_occurance_sequence_def new_onode_def onode_def set_vnode_def) (simp add: use_node_def)
  have "scanned hs (as @ [va]) vs (?t\<lparr>reference_string := (reference_string ?t)[position ?t := Some r], position := Suc (position ?t)\<rparr>)"
    by (rule scanned_finish [OF s room _ _ _ _ _ r(2,3)]) (use s mem L in \<open>auto simp: scanned_def\<close>)
  then show ?thesis by (intro record_line_by [OF s room run]) (simp_all add: core_def)
qed

text \<open>The bucket is not empty, but has no node of the address.\<close>

lemma record_in_bucket:
  assumes s: "scanned hs as vs s" and room: "length as < length (reference_string s)"
    and heap: "length as < heap_limit E" "length vs < heap_limit E" and b: "hashmap s ! (unat va mod hs) = Some c"
    and r: "seek_bucket (length (vnodes s)) va c s = Inr r" "r < length vs" "vs ! r \<noteq> va" "vnext (va_node hs as vs r) = None"
      "unat (vs ! r) mod hs = unat va mod hs" and new: "va \<notin> set vs"
  shows "\<exists>s'. record_line E va s = Inr s' \<and> scanned hs (as @ [va]) (vs @ [va]) s' \<and> core s' = core s \<and>
    length (reference_string s') = length (reference_string s)"
proof -
  note N = scanned_nodes [OF s]
  note L = new_line_nodes [OF s new]
  have p: "position s = length as" and v: "vnodes s = map (va_node hs as vs) [0 ..< length vs]" using s by (simp_all add: scanned_def)
  let ?n = "\<lparr>virtual_addr = va, vnext = None, next_in_frame = None, frame_number = -1,
    occurance_head = Some (length as), occurance_tail = Some (length as)\<rparr>"
  let ?o = "\<lparr>occurance = int (length as), onext = None, freed = False\<rparr>"
  let ?r = "(va_node hs as vs r)\<lparr>vnext := Some (length vs)\<rparr>"
  let ?t = "s\<lparr>onodes := onodes s @ [?o], vnodes := (vnodes s @ [?n])[r := ?r]\<rparr>"
  have u: "(vnodes s @ [x])[length vs := y] = vnodes s @ [y]" for x y using N(2) by (metis list_update_length)
  have nr: "(vnodes s @ [x]) ! r = va_node hs as vs r" for x using r(2) v by (simp add: nth_append)
  have vr: "virtual_addr (va_node hs as vs r) \<noteq> va" using r(3) by (simp add: va_node_def)
  have run: "vaddr_record E (int (position s)) va (unat va mod hs) s = Inr (length vs, ?t)"
    using b r(1,2) heap N(1) [OF r(2)] N(2-5) p u nr vr
    by (simp add: vaddr_record_def new_vaddr_def add_occurance_sequence_def new_onode_def vnode_def set_vnode_def nth_append)
  have up: "or_else (vnext (va_node hs as vs i)) (Some (length vs)) = vnext (va_node hs as vs i)"
    if i: "i < length vs" "i \<noteq> r" "unat va mod hs = unat (vs ! i) mod hs" for i
  proof -
    have "\<not> r < i" using r(4,5) i by (auto simp: va_node_def nxt_idx_None Suc_le_eq)
    then have "vnext (va_node hs as vs i) \<noteq> None" using i r(2,5) by (auto simp: va_node_def nxt_idx_None Suc_le_eq intro!: exI [of _ r])
    then show ?thesis by auto
  qed
  have "scanned hs (as @ [va]) (vs @ [va]) (?t\<lparr>reference_string := (reference_string ?t)[position ?t := Some (length vs)], position := Suc (position ?t)\<rparr>)"
  proof (rule scanned_finish [OF s room])
    show "vnodes ?t = map (va_node hs (as @ [va]) (vs @ [va])) [0 ..< length (vs @ [va])]"
    proof (rule nth_equalityI)
      fix i assume "i < length (vnodes ?t)"
      then consider "i = length vs" | "i < length vs" "i = r" | "i < length vs" "i \<noteq> r" using N(2) by fastforce
      then show "vnodes ?t ! i = map (va_node hs (as @ [va]) (vs @ [va])) [0 ..< length (vs @ [va])] ! i"
      proof cases
        case 1
        have "map (va_node hs (as @ [va]) (vs @ [va])) [0 ..< length (vs @ [va])] ! length vs = ?n"
          using L(2) by (simp add: nth_append)
        then show ?thesis using 1 r(2) N(2) by (simp add: nth_append)
      next
        case 2
        have "map (va_node hs (as @ [va]) (vs @ [va])) [0 ..< length (vs @ [va])] ! i = va_node hs (as @ [va]) (vs @ [va]) i"
          using 2 by (simp del: upt_Suc)
        then show ?thesis using 2 L(3) [OF 2(1)] r(4,5) N(2) by simp
      next
        case 3
        have a: "map (va_node hs (as @ [va]) (vs @ [va])) [0 ..< length (vs @ [va])] ! i = va_node hs (as @ [va]) (vs @ [va]) i"
          using 3 by (simp del: upt_Suc)
        have "vnodes ?t ! i = va_node hs as vs i" using 3 v by (simp add: nth_append)
        moreover have "va_node hs (as @ [va]) (vs @ [va]) i = va_node hs as vs i"
        proof (cases "unat va mod hs = unat (vs ! i) mod hs")
          case True
          then show ?thesis using L(3) [OF 3(1)] up [OF 3] by simp
        next
          case False
          then show ?thesis using L(3) [OF 3(1)] by (simp add: vnext_same)
        qed
        ultimately show ?thesis using a by simp
      qed
    qed (simp add: N(2))
    show "hashmap ?t = map (\<lambda>b. nxt_idx (\<lambda>j. unat ((vs @ [va]) ! j) mod hs = b) 0 (length (vs @ [va]))) [0 ..< hs]"
      by (rule nth_equalityI) (use N(4,5,7) b in \<open>auto simp: bucket_more\<close>)
  qed (use s new L(1) in \<open>auto simp: scanned_def\<close>)
  then show ?thesis by (intro record_line_by [OF s room run]) (simp_all add: core_def)
qed

lemma record_line_run:
  assumes s: "scanned hs as vs s" and room: "length as < length (reference_string s)"
    and heap: "length as < heap_limit E" "length vs \<le> length as"
  shows "\<exists>s' vs'. record_line E va s = Inr s' \<and> scanned hs (as @ [va]) vs' s' \<and> length vs' \<le> Suc (length as) \<and> core s' = core s \<and>
    length (reference_string s') = length (reference_string s)"
proof -
  note N = scanned_nodes [OF s]
  have v: "vnodes s = map (va_node hs as vs) [0 ..< length vs]" using s by (simp add: scanned_def)
  have h2: "length vs < heap_limit E" using heap by simp
  have hb: "hashmap s ! (unat va mod hs) = nxt_idx (\<lambda>j. unat (vs ! j) mod hs = unat va mod hs) 0 (length vs)" using N(5,7) by simp
  show ?thesis
  proof (cases "hashmap s ! (unat va mod hs)")
    case None
    from record_new_bucket [OF s room heap(1) h2 this] show ?thesis using heap(2) by (metis Suc_le_mono length_append_singleton)
  next
    case (Some c)
    note C = nxt_idx_Some [OF Some [unfolded hb]]
    obtain r where r: "seek_bucket (length (vnodes s)) va c s = Inr r" "c \<le> r" "r < length vs" "unat (vs ! r) mod hs = unat (vs ! c) mod hs"
      "vs ! r = va \<or> vnext (va_node hs as vs r) = None \<and>
        (\<forall>j. c \<le> j \<longrightarrow> j < length vs \<longrightarrow> unat (vs ! j) mod hs = unat (vs ! c) mod hs \<longrightarrow> vs ! j \<noteq> va)"
      using seek_bucket_run [OF v C(2), of "length (vnodes s)" va] N(2) by auto
    show ?thesis
    proof (cases "vs ! r = va")
      case True
      from record_known [OF s room heap(1) Some r(1,3) True] show ?thesis using heap(2) by (meson le_SucI)
    next
      case False
      have "va \<noteq> vs ! j" if "j < length vs" for j
        using that False r(5) C(3) C(4) [of j] by (cases "c \<le> j") auto
      then have "va \<notin> set vs" by (auto simp: in_set_conv_nth)
      from record_in_bucket [OF s room heap(1) h2 Some r(1,3) False _ _ this] show ?thesis
        using False r(4,5) C(3) heap(2) by (metis Suc_le_mono length_append_singleton)
    qed
  qed
qed

lemma record_all_run:
  "\<lbrakk>scanned hs as vs s; length as + length xs \<le> length (reference_string s); length as + length xs \<le> heap_limit E; length vs \<le> length as\<rbrakk> \<Longrightarrow>
    \<exists>s' vs'. record_all E xs s = Inr s' \<and> scanned hs (as @ xs) vs' s' \<and> core s' = core s \<and> length (reference_string s') = length (reference_string s)"
proof (induction xs arbitrary: as vs s)
  case Nil
  then show ?case by auto
next
  case (Cons x xs)
  obtain s1 vs1 where 1: "record_line E x s = Inr s1" "scanned hs (as @ [x]) vs1 s1" "length vs1 \<le> Suc (length as)" "core s1 = core s"
    "length (reference_string s1) = length (reference_string s)"
    using record_line_run [OF Cons.prems(1), of E x] Cons.prems(2-4) by auto
  show ?case using Cons.IH [OF 1(2)] Cons.prems(2,3) 1 by auto
qed

text \<open>The scan starts from an empty hash map.\<close>

lemma opt_init_run:
  assumes "0 < memsize s" "vnodes s = []" "onodes s = []" and "count_lines cs \<le> heap_limit E"
  shows "\<exists>s' vs t. opt_init E old (Some cs) s = Inr s' \<and> s' = t\<lparr>position := 0\<rparr> \<and> scanned (memsize s) (opt_addrs old cs) vs t \<and>
    core s' = core s \<and> length (reference_string s') = length (opt_addrs old cs)"
proof -
  let ?s = "s\<lparr>coremap_head := None, position := 0, hashmap := replicate (memsize s) None, reference_string := replicate (count_lines cs) None\<rparr>"
  have "scanned (memsize s) [] [] ?s"
    using assms(1-3) by (simp add: scanned_def nxt_idx_def map_replicate_const)
  from record_all_run [OF this, of "opt_addrs old cs" E] obtain t vs where
    "record_all E (opt_addrs old cs) ?s = Inr t" "scanned (memsize s) (opt_addrs old cs) vs t" "core t = core ?s"
    "length (reference_string t) = length (opt_addrs old cs)"
    using assms(4) by (auto simp: length_opt_addrs)
  then show ?thesis
    by (intro exI [of _ "t\<lparr>position := 0\<rparr>"] exI [of _ vs] exI [of _ t]) (simp add: opt_init_def opt_scan_all core_def)
qed

section \<open>The uses of a page\<close>

text \<open>The list of nodes at \<open>p\<close> carries the positions \<open>qs\<close>.\<close>

primrec use_list :: "occ_node list \<Rightarrow> nat option \<Rightarrow> int list \<Rightarrow> bool" where
  "use_list ns p [] \<longleftrightarrow> p = None"
| "use_list ns p (q # qs) \<longleftrightarrow> (\<exists>k. p = Some k \<and> k < length ns \<and> \<not> freed (ns ! k) \<and> occurance (ns ! k) = q \<and> use_list ns (onext (ns ! k)) qs)"

lemma nxt_idx_step: "lo < n \<Longrightarrow> nxt_idx P lo n = (if P lo then Some lo else nxt_idx P (Suc lo) n)"
  by (simp add: nxt_idx_def upt_conv_Cons)

lemma use_list_scanned:
  "use_list (map (use_node as) [0 ..< length as]) (nxt_idx (\<lambda>k. as ! k = x) lo (length as)) (map int (filter (\<lambda>k. as ! k = x) [lo ..< length as]))"
proof (induction "length as - lo" arbitrary: lo)
  case 0
  then show ?case by (simp add: nxt_idx_def)
next
  case (Suc m)
  then have lo: "lo < length as" by simp
  have IH: "use_list (map (use_node as) [0 ..< length as]) (nxt_idx (\<lambda>k. as ! k = x) (Suc lo) (length as))
      (map int (filter (\<lambda>k. as ! k = x) [Suc lo ..< length as]))"
    by (rule Suc.hyps) (use Suc.hyps(2) in simp)
  have "[lo ..< length as] = lo # [Suc lo ..< length as]" by (rule upt_conv_Cons [OF lo])
  then show ?case using lo IH by (simp add: nxt_idx_step [OF lo] use_node_def)
qed

definition recorded :: "u64 list \<Rightarrow> sim \<Rightarrow> bool" where
  "recorded as s \<longleftrightarrow> position s = 0 \<and> length (reference_string s) = length as \<and>
     (\<forall>p < length as. \<exists>i < length (vnodes s). reference_string s ! p = Some i \<and> virtual_addr (vnodes s ! i) = as ! p \<and>
        frame_number (vnodes s ! i) = -1 \<and>
        use_list (onodes s) (occurance_head (vnodes s ! i)) (map int (filter (\<lambda>q. as ! q = as ! p) [0 ..< length as]))) \<and>
     (\<forall>p < length as. \<forall>q < length as. reference_string s ! p = reference_string s ! q \<longleftrightarrow> as ! p = as ! q)"

lemma opt_init_records:
  assumes "0 < memsize s" "vnodes s = []" "onodes s = []" and "count_lines cs \<le> heap_limit E"
  shows "\<exists>s'. opt_init E old (Some cs) s = Inr s' \<and> recorded (opt_addrs old cs) s' \<and> core s' = core s"
proof -
  let ?as = "opt_addrs old cs"
  obtain s' vs t where r: "opt_init E old (Some cs) s = Inr s'" "s' = t\<lparr>position := 0\<rparr>" "scanned (memsize s) ?as vs t"
    "core s' = core s" "length (reference_string s') = length ?as"
    using opt_init_run [OF assms] by blast
  have v: "vnodes t = map (va_node (memsize s) ?as vs) [0 ..< length vs]" and o: "onodes t = map (use_node ?as) [0 ..< length ?as]"
    and d: "distinct vs" and ref: "\<forall>p < length ?as. \<exists>i < length vs. reference_string t ! p = Some i \<and> vs ! i = ?as ! p"
    using r(3) by (simp_all add: scanned_def)
  have 1: "\<exists>i < length (vnodes s'). reference_string s' ! p = Some i \<and> virtual_addr (vnodes s' ! i) = ?as ! p \<and> frame_number (vnodes s' ! i) = -1 \<and>
      use_list (onodes s') (occurance_head (vnodes s' ! i)) (map int (filter (\<lambda>q. ?as ! q = ?as ! p) [0 ..< length ?as]))"
    if p: "p < length ?as" for p
  proof -
    obtain i where i: "i < length vs" "reference_string t ! p = Some i" "vs ! i = ?as ! p" using ref p by blast
    then show ?thesis using v o r(2) use_list_scanned [of ?as "?as ! p" 0] by (intro exI [of _ i]) (simp add: va_node_def)
  qed
  have 2: "reference_string s' ! p = reference_string s' ! q \<longleftrightarrow> ?as ! p = ?as ! q" if pq: "p < length ?as" "q < length ?as" for p q
  proof -
    obtain i where "i < length vs" "reference_string t ! p = Some i" "vs ! i = ?as ! p" using ref pq(1) by blast
    moreover obtain j where "j < length vs" "reference_string t ! q = Some j" "vs ! j = ?as ! q" using ref pq(2) by blast
    ultimately show ?thesis using nth_eq_iff_index_eq [OF d, of i j] r(2) by auto
  qed
  show ?thesis using r(1,2,4,5) 1 2 by (intro exI [of _ s']) (auto simp: recorded_def)
qed

section \<open>The first reference of a run\<close>

text \<open>With a free frame at hand no algorithm is asked for a victim.\<close>

lemma find_free_first: "fresh_state s \<Longrightarrow> find_free_frame s = Some 0"
  by (auto simp: fresh_state_def find_free_frame_def sizes_ok_def memsize_def upt_conv_Cons)

lemma fresh_state_core:
  assumes "fresh_state s" and c: "core s' = core s"
  shows "fresh_state s'"
proof -
  have u: "map in_use (coremap s') = map in_use (coremap s)"
  proof -
    have "map fst (map (\<lambda>c. (in_use c, fpte c)) (coremap s')) = map fst (map (\<lambda>c. (in_use c, fpte c)) (coremap s))"
      using c by (simp add: core_def del: map_map)
    then show ?thesis by (simp add: comp_def)
  qed
  have "\<not> in_use c" if "c \<in> set (coremap s')" for c
  proof -
    have "in_use c \<in> set (map in_use (coremap s))" using that unfolding u [symmetric] by auto
    then show ?thesis using assms(1) by (auto simp: fresh_state_def)
  qed
  moreover have "pgtbls s' = Map.empty"
  proof
    fix p
    have "(\<lambda>p. map_option pview (pgtbls s' p)) = (\<lambda>p. map_option pview (pgtbls s p))" using c by (simp add: core_def)
    then have "map_option pview (pgtbls s' p) = map_option pview (pgtbls s p)" by meson
    then show "pgtbls s' p = None" using assms(1) by (simp add: fresh_state_def)
  qed
  ultimately show ?thesis
    using assms(1) core_fields [OF c] core_memsize [OF c] by (auto simp: fresh_state_def sizes_ok_def)
qed

text \<open>Up to the call of the algorithm, the first reference succeeds and leaves the data of opt.c alone.\<close>

lemma first_reference:
  assumes s: "fresh_state s" and E: "memalign_ok E" "memalign_serves E" and va: "unat vaddr < 2 ^ 36"
  shows "\<exists>p s3. (\<forall>ref_fcn evict_fcn. find_physpage E ref_fcn evict_fcn vaddr ty s =
      bindE (ref_fcn p s3) (\<lambda>s4. bindE (pte_read s4 p) (\<lambda>e. Inr (frame_byte (drop_bit PAGE_SHIFT (pt_frame e)), s4)))) \<and>
    reference_string s3 = reference_string s \<and> position s3 = position s \<and> vnodes s3 = vnodes s \<and> onodes s3 = onodes s"
proof -
  note f = s [unfolded fresh_state_def]
  have sz: "sizes_ok s" and dir: "dir_inv s" using f by (simp_all add: dir_inv_def)
  have "posix_memalign E Map.empty \<noteq> None"
    using E(2) unfolding memalign_serves_def by (rule allE [of _ Map.empty]) (simp add: PTRS_PER_PGDIR_def)
  then obtain base where b: "posix_memalign E Map.empty = Some base" by blast
  have i: "unat (PGDIR_INDEX vaddr) < PTRS_PER_PGDIR" by (rule PGDIR_INDEX_bound [OF va])
  have "lookup_pte E vaddr s \<noteq> Inl Exit_Failure"
    using f b i by (simp add: lookup_pte_def init_second_level_def sizes_ok_def Let_def)
  then obtain p s1 e where l: "lookup_pte E vaddr s = Inr (p, s1)" "grown s s1" "pgtbls s1 p = Some e"
    using lookup_pte_ok [OF E(1) va sz dir] by blast
  have e: "e = fresh_pte" using l(2,3) f by (auto simp: grown_def)
  have s1: "s1 = s\<lparr>pgdir := pgdir s1, pgtbls := pgtbls s1\<rparr>" "length (pgdir s1) = length (pgdir s)" using l(2) by (simp_all add: grown_def)
  have g: "coremap s1 = coremap s" "physmem s1 = physmem s" "reference_string s1 = reference_string s" "position s1 = position s"
    "vnodes s1 = vnodes s" "onodes s1 = onodes s" "memsize s1 = memsize s"
    by (subst s1(1), simp add: memsize_def)+
  have ff: "find_free_frame s1 = Some 0" using find_free_first [OF s] g by (simp add: find_free_frame_def)
  have m: "0 < memsize s" using sz by (simp add: sizes_ok_def)
  let ?s1 = "s1\<lparr>coremap := (coremap s1)[0 := (coremap s1 ! 0)\<lparr>in_use := True, fpte := Some p\<rparr>]\<rparr>"
  have sz1: "sizes_ok ?s1" and m1: "0 < memsize ?s1" using sz g s1(2) by (simp_all add: sizes_ok_def memsize_def)
  let ?t = "count_miss (?s1\<lparr>physmem := blit (0 * SIMPAGESIZE) (fresh_page vaddr) (physmem ?s1)\<rparr>)"
  let ?e2 = "e\<lparr>pt_frame := push_bit PAGE_SHIFT (of_nat 0) OR PG_DIRTY\<rparr>"
  have al: "allocate_frame E ev p s1 = Inr (0, ?s1)" for ev
    using ff m g by (simp add: allocate_frame_def claim_frame_def memsize_def)
  have e1: "pgtbls ?s1 p = Some e" using l(3) by simp
  have "fault_new E ev vaddr p s1 = Inr (pte_write ?t p ?e2)" for ev
    using e1 by (simp add: fault_new_def al init_frame_eq [OF sz1 m1] pte_frame_upd_Some count_miss_write)
  then have rs: "resolve_fault E ev vaddr p s1 = Inr (pte_write ?t p ?e2)" for ev
    using l(3) e by (simp add: resolve_fault_def pte_read_def fresh_pte_def pte_valid_def pte_onswap_def)
  obtain s3 where mk: "mark_access ty p (pte_write ?t p ?e2) = Inr s3" and s3: "\<exists>e3. s3 = pte_write ?t p e3"
    using mark_access_eq [of "pte_write ?t p ?e2" p ?e2] by auto
  have "find_physpage E ref_fcn evict_fcn vaddr ty s =
      bindE (ref_fcn p s3) (\<lambda>s4. bindE (pte_read s4 p) (\<lambda>e. Inr (frame_byte (drop_bit PAGE_SHIFT (pt_frame e)), s4)))" for ref_fcn evict_fcn
    by (simp only: find_physpage_def l(1) rs mk bindE_Inr prod.case)
  moreover have "reference_string s3 = reference_string s \<and> position s3 = position s \<and> vnodes s3 = vnodes s \<and> onodes s3 = onodes s"
    using s3 g by (auto simp: pte_write_def count_miss_def)
  ultimately show ?thesis by blast
qed

lemma opt_first_ref:
  assumes r: "recorded as s" and as: "as \<noteq> []" and E: "\<not> freed_readable E"
    and t: "reference_string t = reference_string s" "position t = position s" "vnodes t = vnodes s" "onodes t = onodes s"
  shows "opt_ref E p t = Inl Use_After_Free"
proof -
  have 0: "0 < length as" using as by simp
  obtain i where i: "i < length (vnodes s)" "reference_string s ! 0 = Some i"
    "use_list (onodes s) (occurance_head (vnodes s ! i)) (map int (filter (\<lambda>q. as ! q = as ! 0) [0 ..< length as]))"
    using r 0 unfolding recorded_def by blast
  have "filter (\<lambda>q. as ! q = as ! 0) [0 ..< length as] = 0 # filter (\<lambda>q. as ! q = as ! 0) [Suc 0 ..< length as]"
    using upt_conv_Cons [OF 0] by simp
  then obtain k where k: "occurance_head (vnodes s ! i) = Some k" "k < length (onodes s)" "\<not> freed (onodes s ! k)"
    using i(3) by auto
  have "drop_occurance E i (t\<lparr>position := Suc 0\<rparr>) = Inl Use_After_Free"
    by (rule drop_occurance_freed [of E _ i k]) (use k i(1) t E in \<open>auto simp: readable_def\<close>)
  then show ?thesis using r 0 i(2) t by (simp add: opt_ref_def recorded_def Let_def)
qed

lemma swap_init_nodes: "swap_init ok mallocs n s = Inr (x, t) \<Longrightarrow> vnodes t = vnodes s \<and> onodes t = onodes s"
  unfolding swap_init_def by (auto simp: bindE_Inr_iff split: if_split_asm option.split_asm)

lemma opt_run_freed:
  assumes cfg: "config_ok cfg" "c_input cfg = Some bytes" "c_tracefile cfg = Some bytes" "c_alg cfg = Some ''opt''"
    and E: "memalign_ok E" "memalign_serves E" "\<not> freed_readable E" "count_lines bytes \<le> heap_limit E"
    and refs: "trace_refs (c_type cfg, 0) bytes = r # rs" "page_addr (snd r)"
  shows "sim_main E cfg = Inl Use_After_Free"
proof -
  obtain s1 where s1: "swap_init (c_mkstemp_ok cfg) (c_mallocs cfg) (c_swapsize cfg) (alloc_globals cfg) = Inr (0, s1)"
    "fresh_state (init_pagetable s1)"
    using setup_fresh [OF cfg(1)] by metis
  have "vnodes s1 = [] \<and> onodes s1 = []" using swap_init_nodes [OF s1(1)] by (simp add: alloc_globals_def)
  then have n: "vnodes (init_pagetable s1) = []" "onodes (init_pagetable s1) = []" by (simp_all add: init_pagetable_def)
  have m: "0 < memsize (init_pagetable s1)" using s1(2) by (simp add: fresh_state_def sizes_ok_def)
  obtain s where s: "opt_init E (c_type cfg, 0) (Some bytes) (init_pagetable s1) = Inr s" "recorded (opt_addrs (c_type cfg, 0) bytes) s"
    "core s = core (init_pagetable s1)"
    using opt_init_records [OF m n E(4), of "(c_type cfg, 0)"] by blast
  have fr: "fresh_state s" by (rule fresh_state_core [OF s1(2) s(3)])
  have "bytes \<noteq> []" using refs(1) by auto
  then have "opt_addrs (c_type cfg, 0) bytes \<noteq> []" by (rule opt_addrs_some)
  note first = opt_first_ref [OF s(2) this E(3)]
  have va: "unat (snd r) < 2 ^ 36" using refs(2) by (simp add: page_addr_def)
  obtain p s3 where p: "find_physpage E (opt_ref E) opt_evict (snd r) (fst r) s =
      bindE (opt_ref E p s3) (\<lambda>s4. bindE (pte_read s4 p) (\<lambda>e. Inr (frame_byte (drop_bit PAGE_SHIFT (pt_frame e)), s4)))"
    "reference_string s3 = reference_string s" "position s3 = position s" "vnodes s3 = vnodes s" "onodes s3 = onodes s"
    using first_reference [OF fr E(1,2) va, of "fst r"] by blast
  have "access_mem E (opt_ref E) opt_evict (fst r) (snd r) s = Inl Use_After_Free"
    using p(1) first [OF p(2-5)] by (simp add: access_mem_def)
  then have "replay_trace E (opt_ref E) opt_evict (c_type cfg, 0) bytes s = Inl Use_After_Free"
    by (simp add: replay_trace_refs refs(1))
  then show ?thesis using s1(1) cfg s(1) by (simp add: sim_main_def algs_def)
qed

end
