(* ===== verification/Mem_Opt_Step.thy ===== *)
theory Mem_Opt_Step
  imports Mem_Cache Mem_Scan
begin

text \<open>
  The functions of opt.c on the nodes that \<open>opt_init\<close> builds, at a place \<open>k\<close> of the
  trace: each node has its next use from \<open>k\<close> on, the nodes of the pages in memory are
  chained at \<open>coremap_head\<close> with the page used latest first. \<open>opt_ref\<close> and \<open>opt_evict\<close>
  keep this when blocks that were freed can still be read.
\<close>

section \<open>Changes of the chain\<close>

definition unlink :: "vaddr_node \<Rightarrow> vaddr_node" where
  "unlink n = n\<lparr>next_in_frame := None\<rparr>"

text \<open>The states differ at most in how the nodes are chained.\<close>

definition relinked :: "sim \<Rightarrow> sim \<Rightarrow> bool" where
  "relinked s s' \<longleftrightarrow> map unlink (vnodes s') = map unlink (vnodes s) \<and>
     s' = s\<lparr>vnodes := vnodes s', coremap_head := coremap_head s'\<rparr>"

lemma unlink_next [simp]: "unlink (n\<lparr>next_in_frame := q\<rparr>) = unlink n"
  by (simp add: unlink_def)

lemma relinked_refl [simp]: "relinked s s"
  by (simp add: relinked_def)

lemma relinked_trans: "relinked s t \<Longrightarrow> relinked t u \<Longrightarrow> relinked s u"
  unfolding relinked_def by (cases s; cases t; cases u) simp

lemma relinked_set:
  assumes "relinked s t" "vnode i t = Inr n"
  shows "relinked s (set_vnode i (n\<lparr>next_in_frame := q\<rparr>) t)"
proof -
  have "(map unlink (vnodes t))[i := unlink n] = map unlink (vnodes t)"
    using assms(2) by (auto simp: vnode_def arrE list_update_same_conv)
  then have "map unlink (vnodes (set_vnode i (n\<lparr>next_in_frame := q\<rparr>) t)) = map unlink (vnodes t)"
    by (simp add: map_update)
  then have "relinked t (set_vnode i (n\<lparr>next_in_frame := q\<rparr>) t)"
    by (simp add: relinked_def) (simp add: set_vnode_def)
  then show ?thesis using relinked_trans assms(1) by blast
qed

lemma relinked_head: "relinked s t \<Longrightarrow> relinked s (t\<lparr>coremap_head := h\<rparr>)"
  unfolding relinked_def by (cases s; cases t) simp

lemma relinked_obs:
  assumes "relinked s s'"
  shows "length (vnodes s') = length (vnodes s)" "onodes s' = onodes s" "position s' = position s"
    "reference_string s' = reference_string s" "core s' = core s" "pgtbls s' = pgtbls s" "memsize s' = memsize s"
proof -
  have "length (map unlink (vnodes s')) = length (map unlink (vnodes s))"
    using assms unfolding relinked_def by (simp only:)
  then show "length (vnodes s') = length (vnodes s)" by simp
  obtain ns h where e: "s' = s\<lparr>vnodes := ns, coremap_head := h\<rparr>" using assms unfolding relinked_def by blast
  show "onodes s' = onodes s" "position s' = position s" "reference_string s' = reference_string s"
    "core s' = core s" "pgtbls s' = pgtbls s" "memsize s' = memsize s"
    by (simp_all add: e core_def memsize_def)
qed

lemma relinked_node:
  assumes "relinked s s'" "i < length (vnodes s)"
  shows "virtual_addr (vnodes s' ! i) = virtual_addr (vnodes s ! i)"
    "frame_number (vnodes s' ! i) = frame_number (vnodes s ! i)"
    "occurance_head (vnodes s' ! i) = occurance_head (vnodes s ! i)"
proof -
  have "map unlink (vnodes s') ! i = map unlink (vnodes s) ! i" using assms(1) unfolding relinked_def by simp
  then have "unlink (vnodes s' ! i) = unlink (vnodes s ! i)" using assms(2) relinked_obs(1) [OF assms(1)] by simp
  then show "virtual_addr (vnodes s' ! i) = virtual_addr (vnodes s ! i)"
    "frame_number (vnodes s' ! i) = frame_number (vnodes s ! i)"
    "occurance_head (vnodes s' ! i) = occurance_head (vnodes s ! i)"
    by (simp_all add: unlink_def) (metis vaddr_node.select_convs vaddr_node.surjective vaddr_node.update_convs)+
qed

lemma add_to_coremap_relinked:
  assumes "add_to_coremap E i s = Inr s'"
  shows "relinked s s'"
proof -
  obtain n where n: "vnode i s = Inr n" using assms by (auto simp: add_to_coremap_def resE)
  have front: "relinked s (push_front i n s)"
    unfolding push_front_def by (rule relinked_head [OF relinked_set [OF relinked_refl n]])
  have after: "relinked s (set_vnode c (c1\<lparr>next_in_frame := q\<rparr>) (set_vnode i (n\<lparr>next_in_frame := r\<rparr>) s))"
    if "vnode c (set_vnode i (n\<lparr>next_in_frame := r\<rparr>) s) = Inr c1" for c c1 q r
    by (rule relinked_set [OF relinked_set [OF relinked_refl n] that])
  show ?thesis using assms n front after
    by (auto simp: add_to_coremap_def Let_def resE split: option.splits if_splits)
qed

section \<open>Taking a node out of the chain\<close>

lemma linked_next:
  "linked ns p (ys @ i # zs) \<Longrightarrow> linked ns (next_in_frame (ns ! i)) zs \<and> (if ys = [] then p else next_in_frame (ns ! last ys)) = Some i"
  by (induction ys arbitrary: p) auto

lemma linked_delete:
  assumes "linked ns p (ys @ i # zs)" "ys \<noteq> []" "distinct (ys @ i # zs)" "set (ys @ i # zs) \<subseteq> {..< length ns}"
    and "next_in_frame m = next_in_frame (ns ! i)"
  shows "linked (ns[last ys := m, i := n]) p (ys @ zs)"
  using assms
proof (induction ys arbitrary: p)
  case Nil
  then show ?case by simp
next
  case (Cons a ys)
  let ?ns = "ns[last (a # ys) := m, i := n]"
  have ai: "a \<noteq> i" using Cons.prems(3) by auto
  show ?case
  proof (cases "ys = []")
    case True
    have "linked ?ns (next_in_frame (ns ! i)) zs = linked ns (next_in_frame (ns ! i)) zs"
      by (rule linked_cong) (use True Cons.prems(3) in \<open>auto simp: nth_update_if\<close>)
    then show ?thesis using True Cons.prems ai by (simp add: nth_update_if)
  next
    case False
    have "last ys \<in> set ys" by (rule last_in_set [OF False])
    then have "a \<noteq> last ys" using Cons.prems(3) by auto
    then have "next_in_frame (?ns ! a) = next_in_frame (ns ! a)" using ai False by (simp add: nth_update_if)
    then show ?thesis using Cons.IH [of "next_in_frame (ns ! a)"] Cons.prems False by simp
  qed
qed

text \<open>The walk finds the node before the one of the address.\<close>

lemma seek_before_ok:
  assumes "linked (vnodes s) (next_in_frame (vnodes s ! c)) (ys @ i # zs)" and "c < length (vnodes s)"
    and "set (ys @ i # zs) \<subseteq> {..< length (vnodes s)}" and "virtual_addr (vnodes s ! i) = va"
    and "\<forall>j \<in> set ys. virtual_addr (vnodes s ! j) \<noteq> va" and "length ys < k"
  shows "seek_before k va c s = Inr (last (c # ys))"
  using assms
proof (induction ys arbitrary: c k)
  case Nil
  then show ?case by (cases k) (simp_all add: vnode_def)
next
  case (Cons j ys)
  obtain k' where k: "k = Suc k'" using Cons.prems(6) by (cases k) auto
  have "seek_before k' va j s = Inr (last (j # ys))" by (rule Cons.IH) (use Cons.prems k in auto)
  then show ?case using Cons.prems(1-5) by (simp add: k vnode_def)
qed

lemma remove_from_coremap_ok:
  assumes l: "linked (vnodes s) (coremap_head s) xs" and d: "distinct xs" and i: "i \<in> set xs"
    and b: "set xs \<subseteq> {..< length (vnodes s)}"
    and u: "\<forall>j \<in> set xs. virtual_addr (vnodes s ! j) = virtual_addr (vnodes s ! i) \<longrightarrow> j = i"
  shows "\<exists>s'. remove_from_coremap i s = Inr s' \<and> linked (vnodes s') (coremap_head s') (remove1 i xs) \<and> relinked s s'"
proof -
  obtain ys zs where xs: "xs = ys @ i # zs" using i by (auto dest: split_list)
  have rm: "remove1 i xs = ys @ zs" using d by (simp add: xs remove1_append)
  have il: "i < length (vnodes s)" using i b by auto
  have nx: "linked (vnodes s) (next_in_frame (vnodes s ! i)) zs"
    "(if ys = [] then coremap_head s else next_in_frame (vnodes s ! last ys)) = Some i"
    using linked_next l unfolding xs by blast+
  show ?thesis
  proof (cases ys)
    case Nil
    have "remove_from_coremap i s = Inr (s\<lparr>coremap_head := next_in_frame (vnodes s ! i)\<rparr>)"
      using nx(2) il Nil by (simp add: remove_from_coremap_def vnode_def)
    then show ?thesis using nx(1) Nil by (simp add: rm relinked_head)
  next
    case (Cons h ys')
    let ?c = "last ys"
    have cin: "?c \<in> set ys" using Cons by (intro last_in_set) simp
    have c: "?c < length (vnodes s)" "?c \<noteq> i" using cin b d by (auto simp: xs)
    have hd: "coremap_head s = Some h" "h < length (vnodes s)" "h \<noteq> i" using l b d by (auto simp: xs Cons)
    have len: "length xs \<le> length (vnodes s)" using card_mono [OF _ b] distinct_card [OF d] by simp
    have sk: "seek_before (length (vnodes s)) (virtual_addr (vnodes s ! i)) h s = Inr ?c"
      unfolding Cons by (rule seek_before_ok [of _ _ _ i zs]) (use l b u d hd len in \<open>auto simp: xs Cons\<close>)
    have vh: "virtual_addr (vnodes s ! h) \<noteq> virtual_addr (vnodes s ! i)" using u hd(3) by (auto simp: xs Cons)
    have nc: "next_in_frame (vnodes s ! ?c) = Some i" using nx(2) Cons by simp
    let ?s1 = "set_vnode ?c ((vnodes s ! ?c)\<lparr>next_in_frame := next_in_frame (vnodes s ! i)\<rparr>) s"
    let ?s' = "set_vnode i ((vnodes s ! i)\<lparr>next_in_frame := None\<rparr>) ?s1"
    have v1: "vnode i ?s1 = Inr (vnodes s ! i)" using il c(2) by (simp add: vnode_def nth_update_if)
    have "remove_from_coremap i s = Inr ?s'"
      using hd vh sk il c nc v1 by (simp add: remove_from_coremap_def vnode_def Let_def nth_update_if)
    moreover have "relinked s ?s'"
      by (rule relinked_set [OF relinked_set [OF relinked_refl] v1]) (use c in \<open>simp add: vnode_def\<close>)
    moreover have "linked (vnodes ?s') (coremap_head ?s') (ys @ zs)"
      using linked_delete [OF l [unfolded xs] _ d [unfolded xs] b [unfolded xs]] Cons by simp
    ultimately show ?thesis by (auto simp: rm)
  qed
qed

section \<open>The nodes at a place of the trace\<close>

text \<open>\<open>as\<close> are the addresses of the trace, \<open>vs\<close> those of the nodes, as in \<open>scanned\<close>.\<close>

definition uses_at :: "u64 list \<Rightarrow> u64 list \<Rightarrow> nat \<Rightarrow> sim \<Rightarrow> bool" where
  "uses_at as vs k s \<longleftrightarrow> length (vnodes s) = length vs \<and> length (onodes s) = length as \<and>
     (\<forall>i < length vs. virtual_addr (vnodes s ! i) = vs ! i \<and>
        occurance_head (vnodes s ! i) = nxt_idx (\<lambda>q. as ! q = vs ! i) k (length as)) \<and>
     (\<forall>p < length as. occurance (onodes s ! p) = int p \<and>
        onext (onodes s ! p) = nxt_idx (\<lambda>q. as ! q = as ! p) (Suc p) (length as))"

definition refs_at :: "u64 list \<Rightarrow> u64 list \<Rightarrow> sim \<Rightarrow> bool" where
  "refs_at as vs s \<longleftrightarrow> length as \<le> length (reference_string s) \<and>
     (\<forall>p < length as. \<exists>i < length vs. reference_string s ! p = Some i \<and> vs ! i = as ! p)"

definition opt_frame :: "sim \<Rightarrow> nat \<Rightarrow> nat" where
  "opt_frame s i = nat (frame_number (vnodes s ! i))"

definition nodes_at :: "os_env \<Rightarrow> u64 list \<Rightarrow> u64 list \<Rightarrow> nat \<Rightarrow> sim \<Rightarrow> nat set \<Rightarrow> bool" where
  "nodes_at E as vs k s X \<longleftrightarrow> freed_readable E \<and> distinct vs \<and> position s = k \<and> uses_at as vs k s \<and> refs_at as vs s \<and>
     X \<subseteq> {..< length vs} \<and> inj_on (opt_frame s) X \<and>
     (\<forall>i < length vs. if i \<in> X then 0 \<le> frame_number (vnodes s ! i) else frame_number (vnodes s ! i) = -1)"

definition opt_at :: "os_env \<Rightarrow> u64 list \<Rightarrow> u64 list \<Rightarrow> nat \<Rightarrow> sim \<Rightarrow> nat list \<Rightarrow> bool" where
  "opt_at E as vs k s xs \<longleftrightarrow> nodes_at E as vs k s (set xs) \<and> opt_list E s xs"

lemma nodes_at_readable:
  assumes "nodes_at E as vs k s X" "i < length vs"
  shows "readable E s i" "nuse s i = map_option int (nxt_idx (\<lambda>q. as ! q = vs ! i) k (length as))"
proof -
  have u: "length (vnodes s) = length vs" "length (onodes s) = length as" "freed_readable E"
    "occurance_head (vnodes s ! i) = nxt_idx (\<lambda>q. as ! q = vs ! i) k (length as)"
    "\<forall>p < length as. occurance (onodes s ! p) = int p"
    using assms by (simp_all add: nodes_at_def uses_at_def)
  have "j < length as" if "occurance_head (vnodes s ! i) = Some j" for j
    using nxt_idx_Some(2) that u(4) by metis
  then show "readable E s i" "nuse s i = map_option int (nxt_idx (\<lambda>q. as ! q = vs ! i) k (length as))"
    using u assms(2) by (auto simp: readable_def nuse_def split: option.splits)
qed

lemma nodes_at_relinked:
  assumes r: "relinked s s'" and o: "nodes_at E as vs k s X"
  shows "nodes_at E as vs k s' X" "i < length vs \<Longrightarrow> opt_frame s' i = opt_frame s i"
proof -
  note b = relinked_obs [OF r]
  have len: "length (vnodes s) = length vs" using o by (simp add: nodes_at_def uses_at_def)
  note n = relinked_node [OF r, unfolded len]
  show f: "i < length vs \<Longrightarrow> opt_frame s' i = opt_frame s i" for i using n(2) by (simp add: opt_frame_def)
  have "inj_on (opt_frame s') X \<longleftrightarrow> inj_on (opt_frame s) X"
    by (rule inj_on_cong) (use f o in \<open>auto simp: nodes_at_def\<close>)
  then show "nodes_at E as vs k s' X"
    using o b n by (auto simp: nodes_at_def uses_at_def refs_at_def)
qed

lemma opt_at_view:
  assumes v: "pol_view s = pol_view t" and o: "opt_at E as vs k s xs"
  shows "opt_at E as vs k t xs" "opt_frame t i = opt_frame s i"
proof -
  have f: "vnodes t = vnodes s" "onodes t = onodes s" "position t = position s" "coremap_head t = coremap_head s"
    "reference_string t = reference_string s" using v by (simp_all add: pol_view_def)
  have "opt_frame t = opt_frame s" by (simp add: opt_frame_def fun_eq_iff f)
  moreover have "nuse t = nuse s" "readable E t = readable E s" by (simp_all add: fun_eq_iff nuse_def readable_def f split: option.split)
  ultimately show "opt_at E as vs k t xs" "opt_frame t i = opt_frame s i"
    using o by (simp_all add: opt_at_def nodes_at_def opt_list_def uses_at_def refs_at_def f)
qed

text \<open>The chain is a function of the state.\<close>

lemma linked_unique: "linked ns p xs \<Longrightarrow> linked ns p ys \<Longrightarrow> xs = ys"
  by (induction xs arbitrary: p ys) (case_tac ys; auto)+

lemma opt_at_unique: "opt_at E as vs k s xs \<Longrightarrow> opt_at E as vs j s ys \<Longrightarrow> xs = ys \<and> k = j"
  using linked_unique by (auto simp: opt_at_def opt_list_def nodes_at_def)

section \<open>Eviction\<close>

lemma opt_evict_step:
  assumes o: "opt_at E as vs k s (h # xs)"
  shows "\<exists>s'. opt_evict s = Inr (int (opt_frame s h), s') \<and> core s' = core s \<and> opt_at E as vs k s' xs \<and>
    (\<forall>j. j \<noteq> h \<longrightarrow> opt_frame s' j = opt_frame s j) \<and> (\<forall>j \<in> set xs. later_use (nuse s h) (nuse s j))"
proof -
  have l: "opt_list E s (h # xs)" and n: "nodes_at E as vs k s (insert h (set xs))" using o by (simp_all add: opt_at_def)
  have hl: "h < length vs" "length (vnodes s) = length vs" using n by (auto simp: nodes_at_def uses_at_def)
  let ?s' = "(set_vnode h ((vnodes s ! h)\<lparr>frame_number := -1\<rparr>) s)\<lparr>coremap_head := next_in_frame (vnodes s ! h)\<rparr>"
  have run: "opt_evict s = Inr (frame_number (vnodes s ! h), ?s')"
    using l hl by (simp add: opt_evict_def opt_list_def vnode_def)
  have b: "opt_list E ?s' xs" "\<forall>j \<in> set xs. later_use (nuse s h) (nuse s j)"
    using opt_evict_belady [OF l] run by auto
  have hx: "h \<notin> set xs" using l by (simp add: opt_list_def)
  have fr: "opt_frame ?s' j = opt_frame s j" if "j \<noteq> h" for j using that by (simp add: opt_frame_def)
  have "inj_on (opt_frame ?s') (set xs) \<longleftrightarrow> inj_on (opt_frame s) (set xs)"
    by (rule inj_on_cong, rule fr) (use hx in auto)
  then have "nodes_at E as vs k ?s' (set xs)"
    using n hx hl by (auto simp: nodes_at_def uses_at_def refs_at_def nth_update_if set_vnode_def split: if_splits)
  moreover have "0 \<le> frame_number (vnodes s ! h)" using n hl by (auto simp: nodes_at_def)
  moreover have "core ?s' = core s" by (simp add: core_def set_vnode_def)
  ultimately show ?thesis using run b fr by (intro exI [of _ ?s']) (simp add: opt_at_def opt_frame_def)
qed

section \<open>A reference\<close>

lemma drop_occurance_step:
  assumes n: "nodes_at E as vs k s X" and k: "k < length as" and i: "i < length vs" "vs ! i = as ! k"
  shows "\<exists>s1. drop_occurance E i (s\<lparr>position := Suc (position s)\<rparr>) = Inr s1 \<and> nodes_at E as vs (Suc k) s1 X \<and> core s1 = core s \<and>
    pgtbls s1 = pgtbls s \<and> coremap_head s1 = coremap_head s \<and> opt_frame s1 = opt_frame s \<and>
    (\<forall>j. next_in_frame (vnodes s1 ! j) = next_in_frame (vnodes s ! j)) \<and> (\<forall>j < length vs. j \<noteq> i \<longrightarrow> nuse s1 j = nuse s j)"
proof -
  have u: "length (vnodes s) = length vs" "length (onodes s) = length as" "freed_readable E" "distinct vs" "position s = k"
    "occurance_head (vnodes s ! i) = nxt_idx (\<lambda>q. as ! q = vs ! i) k (length as)"
    "onext (onodes s ! k) = nxt_idx (\<lambda>q. as ! q = as ! k) (Suc k) (length as)"
    using n i(1) k by (simp_all add: nodes_at_def uses_at_def)
  have hd: "occurance_head (vnodes s ! i) = Some k" using u(6) i(2) k by (simp add: nxt_idx_step)
  let ?n = "(vnodes s ! i)\<lparr>occurance_head := nxt_idx (\<lambda>q. as ! q = as ! k) (Suc k) (length as)\<rparr>"
  let ?s1 = "s\<lparr>position := Suc k, onodes := (onodes s)[k := (onodes s ! k)\<lparr>freed := True\<rparr>], vnodes := (vnodes s)[i := ?n]\<rparr>"
  have run: "drop_occurance E i (s\<lparr>position := Suc (position s)\<rparr>) = Inr ?s1"
    using u(1-3,5,7) i(1) k hd by (simp add: drop_occurance_def vnode_def free_onode_def onode_def set_vnode_def)
  have later: "nxt_idx (\<lambda>q. as ! q = vs ! j) k (length as) = nxt_idx (\<lambda>q. as ! q = vs ! j) (Suc k) (length as)"
    if "j < length vs" "j \<noteq> i" for j
  proof -
    have "as ! k \<noteq> vs ! j" using nth_eq_iff_index_eq [OF u(4) i(1) that(1)] that(2) i(2) by auto
    then show ?thesis using k by (simp add: nxt_idx_step)
  qed
  have fr: "opt_frame ?s1 = opt_frame s" by (simp add: fun_eq_iff opt_frame_def nth_update_if)
  have nx: "\<forall>j. next_in_frame (vnodes ?s1 ! j) = next_in_frame (vnodes s ! j)" by (simp add: nth_update_if)
  have n1: "nodes_at E as vs (Suc k) ?s1 X" unfolding nodes_at_def fr
    using n i later u(1) k by (auto simp: nodes_at_def uses_at_def refs_at_def nth_update_if split: if_splits)
  have "\<forall>j < length vs. j \<noteq> i \<longrightarrow> nuse ?s1 j = nuse s j"
    using nodes_at_readable(2) [OF n1] nodes_at_readable(2) [OF n] later by simp
  then show ?thesis using run n1 fr nx by (intro exI [of _ ?s1]) (simp add: core_def)
qed

text \<open>The node goes back to its place in the chain.\<close>

lemma opt_insert_step:
  assumes n: "nodes_at E as vs k s (insert i X)" and l: "opt_list E s xs" "set xs = X - {i}"
  shows "\<exists>s' ys. add_to_coremap E i s = Inr s' \<and> opt_at E as vs k s' ys \<and> set ys = insert i X \<and> core s' = core s \<and>
    (\<forall>j \<in> insert i X. opt_frame s' j = opt_frame s j)"
proof -
  have b: "insert i X \<subseteq> {..< length vs}" using n by (simp add: nodes_at_def)
  then have "readable E s i" using nodes_at_readable(1) [OF n] by simp
  then obtain s' ys zs where r: "add_to_coremap E i s = Inr s'" "xs = ys @ zs" "opt_list E s' (ys @ i # zs)"
    using add_to_coremap_sorted [OF l(1), of i] l(2) by auto
  have set: "set (ys @ i # zs) = insert i X" using r(2) l(2) by auto
  note rl = add_to_coremap_relinked [OF r(1)]
  note m = nodes_at_relinked [OF rl n]
  have "opt_at E as vs k s' (ys @ i # zs)" using m(1) r(3) unfolding opt_at_def set by blast
  then show ?thesis using r(1) set relinked_obs(5) [OF rl] m(2) b by blast
qed

lemma opt_list_cong:
  assumes l: "linked (vnodes s) (coremap_head s) xs" "distinct xs" "\<forall>i \<in> set xs. readable E s i"
    and u: "\<forall>j \<in> set xs. nuse s j = nuse t j" and t: "sorted_wrt (\<lambda>i j. later_use (nuse t i) (nuse t j)) xs"
  shows "opt_list E s xs"
proof -
  have "sorted_wrt (\<lambda>i j. later_use (nuse s i) (nuse s j)) xs"
    using sorted_wrt_mono_rel [OF _ t, of "\<lambda>i j. later_use (nuse s i) (nuse s j)"] u by simp
  then show ?thesis using l by (simp add: opt_list_def)
qed

lemma opt_ref_step:
  assumes o: "opt_at E as vs k s xs" and k: "k < length as" and i: "reference_string s ! k = Some i"
    and e: "pgtbls s p = Some e" "pte_frame_no e = f"
    and fits: "i \<in> set xs \<longrightarrow> opt_frame s i = f" "i \<notin> set xs \<longrightarrow> f \<notin> opt_frame s ` set xs"
  shows "\<exists>s' ys. opt_ref E p s = Inr s' \<and> core s' = core s \<and> opt_at E as vs (Suc k) s' ys \<and> set ys = insert i (set xs) \<and>
    opt_frame s' i = f \<and> (\<forall>j \<in> set xs. opt_frame s' j = opt_frame s j)"
proof -
  have n: "nodes_at E as vs k s (set xs)" and l: "opt_list E s xs" using o by (simp_all add: opt_at_def)
  have il: "i < length vs" "vs ! i = as ! k" using n k i by (auto simp: nodes_at_def refs_at_def)
  have rs: "k < length (reference_string s)" "position s = k" using n k by (auto simp: nodes_at_def refs_at_def)
  obtain s1 where s1: "drop_occurance E i (s\<lparr>position := Suc (position s)\<rparr>) = Inr s1" "nodes_at E as vs (Suc k) s1 (set xs)"
    "core s1 = core s" "pgtbls s1 = pgtbls s" "coremap_head s1 = coremap_head s" "opt_frame s1 = opt_frame s"
    "\<forall>j. next_in_frame (vnodes s1 ! j) = next_in_frame (vnodes s ! j)" "\<forall>j < length vs. j \<noteq> i \<longrightarrow> nuse s1 j = nuse s j"
    using drop_occurance_step [OF n k il] by blast
  have len: "length (vnodes s1) = length vs" using s1(2) by (simp add: nodes_at_def uses_at_def)
  have v1: "vnode i s1 = Inr (vnodes s1 ! i)" using len il(1) by (simp add: vnode_def)
  have bd: "set xs \<subseteq> {..< length vs}" using n by (simp add: nodes_at_def)
  then have bl: "\<forall>j \<in> set xs. j < length vs" by auto
  have lk: "linked (vnodes s1) (coremap_head s1) xs" "distinct xs"
    using l s1(5,7) linked_cong [of xs "vnodes s1" "vnodes s"] by (simp_all add: opt_list_def)
  have so: "sorted_wrt (\<lambda>i j. later_use (nuse s i) (nuse s j)) xs" using l by (simp add: opt_list_def)
  have fi: "uint (drop_bit PAGE_SHIFT (pt_frame e)) = int f" using e(2) by (auto simp: pte_frame_no_def)
  have run: "opt_ref E p s = (if frame_number (vnodes s1 ! i) = -1 then
      add_to_coremap E i (set_vnode i ((vnodes s1 ! i)\<lparr>frame_number := int f\<rparr>) s1)
    else bindE (remove_from_coremap i s1) (add_to_coremap E i))"
    using rs i s1(1,4) v1 e(1) by (simp add: opt_ref_def Let_def pte_read_def fi)
  show ?thesis
  proof (cases "i \<in> set xs")
    case True
    have "\<forall>j \<in> set xs. virtual_addr (vnodes s1 ! j) = virtual_addr (vnodes s1 ! i) \<longrightarrow> j = i"
    proof (intro ballI impI)
      fix j assume j: "j \<in> set xs" and eq: "virtual_addr (vnodes s1 ! j) = virtual_addr (vnodes s1 ! i)"
      have jl: "j < length vs" using j bd by auto
      have "vs ! j = vs ! i" using s1(2) eq jl il(1) by (simp add: nodes_at_def uses_at_def)
      moreover have "distinct vs" using n by (simp add: nodes_at_def)
      ultimately show "j = i" using nth_eq_iff_index_eq jl il(1) by blast
    qed
    from remove_from_coremap_ok [OF lk True bd [folded len] this]
    obtain s2 where s2: "remove_from_coremap i s1 = Inr s2" "linked (vnodes s2) (coremap_head s2) (remove1 i xs)" "relinked s1 s2"
      by blast
    note m = nodes_at_relinked [OF s2(3) s1(2)]
    have r1: "set (remove1 i xs) = set xs - {i}" "distinct (remove1 i xs)" using lk(2) by simp_all
    have so1: "sorted_wrt (\<lambda>i j. later_use (nuse s i) (nuse s j)) (remove1 i xs)"
      using so lk(2) by (simp add: distinct_remove1_removeAll removeAll_filter_not_eq sorted_wrt_filter)
    have nu: "\<forall>j \<in> set (remove1 i xs). nuse s2 j = nuse s j"
      using nodes_at_readable(2) [OF m(1)] nodes_at_readable(2) [OF s1(2)] s1(8) r1(1) bl by simp
    have "opt_list E s2 (remove1 i xs)"
      by (rule opt_list_cong [OF s2(2) r1(2) _ nu so1])
        (use nodes_at_readable(1) [OF m(1)] r1(1) bl in auto)
    moreover have "nodes_at E as vs (Suc k) s2 (insert i (set xs))" using m(1) True by (simp add: insert_absorb)
    ultimately obtain s' ys where r: "add_to_coremap E i s2 = Inr s'" "opt_at E as vs (Suc k) s' ys" "set ys = insert i (set xs)"
      "core s' = core s2" "\<forall>j \<in> insert i (set xs). opt_frame s' j = opt_frame s2 j"
      using opt_insert_step [of E as vs "Suc k" s2 i "set xs" "remove1 i xs"] r1(1) by blast
    have "frame_number (vnodes s1 ! i) \<noteq> -1" using s1(2) True il(1) by (fastforce simp: nodes_at_def)
    moreover have "opt_frame s2 j = opt_frame s j" if "j \<in> set xs" for j
      using m(2) that bl s1(6) by simp
    ultimately show ?thesis using run s2(1) r fits(1) True relinked_obs(5) [OF s2(3)] s1(3) by auto
  next
    case False
    let ?s2 = "set_vnode i ((vnodes s1 ! i)\<lparr>frame_number := int f\<rparr>) s1"
    have fr: "opt_frame ?s2 j = (if j = i then f else opt_frame s j)" for j
      using s1(6) len il(1) by (auto simp: opt_frame_def fun_eq_iff)
    have "inj_on (opt_frame ?s2) (set xs) \<longleftrightarrow> inj_on (opt_frame s) (set xs)"
      by (rule inj_on_cong) (use fr False in auto)
    then have "inj_on (opt_frame ?s2) (insert i (set xs))"
      using n False fits(2) by (auto simp: nodes_at_def fr)
    then have n2: "nodes_at E as vs (Suc k) ?s2 (insert i (set xs))"
      using s1(2) il(1) by (auto simp: nodes_at_def uses_at_def refs_at_def nth_update_if set_vnode_def split: if_splits)
    have nu: "\<forall>j \<in> set xs. nuse ?s2 j = nuse s j"
      using nodes_at_readable(2) [OF n2] nodes_at_readable(2) [OF s1(2)] s1(8) bl False by auto
    have "linked (vnodes ?s2) (coremap_head ?s2) xs = linked (vnodes s1) (coremap_head s1) xs"
      by (simp, rule linked_cong) (use False in \<open>auto simp: nth_update_if\<close>)
    then have "opt_list E ?s2 xs"
      by (intro opt_list_cong [OF _ lk(2) _ nu so]) (use lk(1) nodes_at_readable(1) [OF n2] bl in auto)
    moreover have "set xs = set xs - {i}" using False by simp
    ultimately obtain s' ys where r: "add_to_coremap E i ?s2 = Inr s'" "opt_at E as vs (Suc k) s' ys" "set ys = insert i (set xs)"
      "core s' = core ?s2" "\<forall>j \<in> insert i (set xs). opt_frame s' j = opt_frame ?s2 j"
      using opt_insert_step [OF n2] by blast
    have "frame_number (vnodes s1 ! i) = -1" using s1(2) False il(1) by (auto simp: nodes_at_def split: if_splits)
    moreover have "core ?s2 = core s1" by (simp add: core_def set_vnode_def)
    ultimately show ?thesis using run r s1(3) fr False by auto
  qed
qed

end
