(* ===== verification/Mem_Paging.thy ===== *)
theory Mem_Paging
  imports C_Prelude
begin

text \<open>
  Demand paging on sets of pages, with no page table and no algorithm: what any program that
  replaces pages may do on a trace, and what Belady's rule asks of it, to take a page whose next
  use is latest.  No run of demand paging has fewer misses than one that follows the rule.
\<close>

section \<open>Runs\<close>

text \<open>The place of the next use of a page in the rest of the trace; \<open>None\<close> is never.\<close>

primrec next_pos :: "'a \<Rightarrow> 'a list \<Rightarrow> nat option" where
  "next_pos x [] = None"
| "next_pos x (y # ys) = (if x = y then Some 0 else map_option Suc (next_pos x ys))"

fun not_before :: "nat option \<Rightarrow> nat option \<Rightarrow> bool" where
  "not_before None _ \<longleftrightarrow> True"
| "not_before (Some i) None \<longleftrightarrow> False"
| "not_before (Some i) (Some j) \<longleftrightarrow> j \<le> i"

text \<open>
  \<open>paging far m rs M n M'\<close>: on the trace \<open>rs\<close> and with room for \<open>m\<close> pages, a run that has the
  pages \<open>M\<close> in memory at its start may have \<open>n\<close> misses and end with the pages \<open>M'\<close>. A page is
  evicted only for want of room; with \<open>far\<close> it is one whose next use is latest.
\<close>

inductive paging :: "bool \<Rightarrow> nat \<Rightarrow> 'a list \<Rightarrow> 'a set \<Rightarrow> nat \<Rightarrow> 'a set \<Rightarrow> bool" for far m where
  stop: "paging far m [] M 0 M"
| hit: "x \<in> M \<Longrightarrow> paging far m rs M n M' \<Longrightarrow> paging far m (x # rs) M n M'"
| fill: "x \<notin> M \<Longrightarrow> card M < m \<Longrightarrow> paging far m rs (insert x M) n M' \<Longrightarrow> paging far m (x # rs) M (Suc n) M'"
| replace: "x \<notin> M \<Longrightarrow> card M = m \<Longrightarrow> y \<in> M \<Longrightarrow> far \<longrightarrow> (\<forall>z \<in> M. not_before (next_pos y rs) (next_pos z rs)) \<Longrightarrow>
    paging far m rs (insert x (M - {y})) n M' \<Longrightarrow> paging far m (x # rs) M (Suc n) M'"

inductive_cases paging_NilE: "paging far m [] M n M'"
inductive_cases paging_ConsE: "paging far m (x # rs) M n M'"

text \<open>At most one of the rules applies to a reference.\<close>

lemma paging_hitD: "paging far m (x # rs) M n M' \<Longrightarrow> x \<in> M \<Longrightarrow> paging far m rs M n M'"
  by (erule paging_ConsE) auto

lemma paging_fillD:
  "paging far m (x # rs) M n M' \<Longrightarrow> x \<notin> M \<Longrightarrow> card M < m \<Longrightarrow> \<exists>k. n = Suc k \<and> paging far m rs (insert x M) k M'"
  by (erule paging_ConsE) auto

lemma paging_replaceD:
  "paging far m (x # rs) M n M' \<Longrightarrow> x \<notin> M \<Longrightarrow> card M = m \<Longrightarrow>
    \<exists>k y. n = Suc k \<and> y \<in> M \<and> (far \<longrightarrow> (\<forall>z \<in> M. not_before (next_pos y rs) (next_pos z rs))) \<and>
      paging far m rs (insert x (M - {y})) k M'"
  by (erule paging_ConsE) auto

section \<open>The exchange of one page\<close>

lemma card_swap:
  assumes "finite S" "y \<in> S" "x \<notin> S"
  shows "card (insert x (S - {y})) = card S"
  using assms card_Suc_Diff1 [OF assms(1,2)] by (simp del: card_Diff_insert)

lemma not_before_Suc: "not_before (map_option Suc a) (map_option Suc b) \<longleftrightarrow> not_before a b"
  by (cases a; cases b) auto

text \<open>
  Two full memories that differ in one page, \<open>b\<close> and \<open>a\<close>: what a run can do from the one costs at
  most one miss more from the other, and no miss more when \<open>b\<close> is not used before \<open>a\<close>.
\<close>

lemma exchange:
  assumes "paging False m rs (insert b S) k M'" and "finite S" "Suc (card S) = m" "a \<notin> S" "b \<notin> S" "a \<noteq> b"
  shows "\<exists>k' M''. paging False m rs (insert a S) k' M'' \<and> k' \<le> Suc k \<and>
    (not_before (next_pos b rs) (next_pos a rs) \<longrightarrow> k' \<le> k)"
  using assms
proof (induction rs arbitrary: S a b k)
  case Nil
  then show ?case by (auto elim: paging_NilE intro: paging.stop)
next
  case (Cons x rs)
  note ab = Cons.prems(2-6)
  have card: "card (insert a S) = m" "card (insert b S) = m" using ab by simp_all
  consider (both) "x \<in> S" | (a) "x = a" | (b) "x = b" | (neither) "x \<notin> S" "x \<noteq> a" "x \<noteq> b" by blast
  then show ?case
  proof cases
    case both
    then have "x \<noteq> a" "x \<noteq> b" using ab by auto
    moreover obtain k' M'' where "paging False m rs (insert a S) k' M''" "k' \<le> Suc k"
      "not_before (next_pos b rs) (next_pos a rs) \<longrightarrow> k' \<le> k"
      using Cons.IH [OF _ ab] paging_hitD [OF Cons.prems(1)] both by blast
    ultimately show ?thesis using both by (intro exI [of _ k'] exI [of _ M'']) (auto intro: paging.hit simp: not_before_Suc)
  next
    case a
    then have "x \<notin> insert b S" using ab by auto
    from paging_replaceD [OF Cons.prems(1) this card(2)] obtain k1 y where r: "k = Suc k1" "y \<in> insert b S"
      "paging False m rs (insert x (insert b S - {y})) k1 M'" by auto
    show ?thesis
    proof (cases "y = b")
      case True
      then have "insert x (insert b S - {y}) = insert a S" using a ab by auto
      then show ?thesis using r a by (intro exI [of _ k1] exI [of _ M']) (auto intro: paging.hit)
    next
      case False
      then have y: "y \<in> S" using r(2) by simp
      have e: "insert x (insert b S - {y}) = insert b (insert a (S - {y}))" "insert y (insert a (S - {y})) = insert a S"
        using a y ab False by auto
      have "card (insert a (S - {y})) = card S" using card_swap [OF ab(1) y ab(3)] .
      then have "\<exists>k' M''. paging False m rs (insert y (insert a (S - {y}))) k' M'' \<and> k' \<le> Suc k1 \<and>
          (not_before (next_pos b rs) (next_pos y rs) \<longrightarrow> k' \<le> k1)"
        using r(3) ab y False unfolding e(1) by (intro Cons.IH) auto
      then obtain k' M'' where i: "paging False m rs (insert a S) k' M''" "k' \<le> k"
        unfolding e(2) using r(1) by blast
      have "paging False m (x # rs) (insert a S) k' M''" by (rule paging.hit) (use a i(1) in simp_all)
      then show ?thesis using i(2) by (intro exI [of _ k'] exI [of _ M'']) simp
    qed
  next
    case b
    have e: "insert x (insert a S - {a}) = insert b S" using b ab by auto
    have "paging False m rs (insert b S) k M'" by (rule paging_hitD [OF Cons.prems(1)]) (simp add: b)
    then have "paging False m (x # rs) (insert a S) (Suc k) M'"
      using b ab card(1) by (intro paging.replace [of _ _ _ a]) (auto simp: e)
    moreover have "\<not> not_before (next_pos b (x # rs)) (next_pos a (x # rs))"
      using b ab by (cases "next_pos a rs") auto
    ultimately show ?thesis by blast
  next
    case neither
    then have "x \<notin> insert b S" "x \<notin> insert a S" by auto
    from paging_replaceD [OF Cons.prems(1) this(1) card(2)] obtain k1 y where r: "k = Suc k1" "y \<in> insert b S"
      "paging False m rs (insert x (insert b S - {y})) k1 M'" by auto
    show ?thesis
    proof (cases "y = b")
      case True
      then have "insert x (insert b S - {y}) = insert x (insert a S - {a})" using ab by auto
      then have "paging False m (x # rs) (insert a S) (Suc k1) M'"
        using r \<open>x \<notin> insert a S\<close> card(1) by (intro paging.replace [of _ _ _ a]) auto
      then show ?thesis using r(1) by auto
    next
      case False
      then have y: "y \<in> S" "y \<noteq> a" using r(2) ab by auto
      have e: "insert x (insert b S - {y}) = insert b (insert x (S - {y}))" "insert x (insert a S - {y}) = insert a (insert x (S - {y}))"
        using y False by auto
      have "card (insert x (S - {y})) = card S" using card_swap [OF ab(1) y(1) neither(1)] .
      then obtain k' M'' where i: "paging False m rs (insert a (insert x (S - {y}))) k' M''" "k' \<le> Suc k1"
        "not_before (next_pos b rs) (next_pos a rs) \<longrightarrow> k' \<le> k1"
        using Cons.IH [of b "insert x (S - {y})" k1 a] r(3) ab neither unfolding e(1) by auto
      have "paging False m (x # rs) (insert a S) (Suc k') M''"
        using i(1) y \<open>x \<notin> insert a S\<close> card(1) by (intro paging.replace [of _ _ _ y]) (auto simp: e(2))
      then show ?thesis using i(2,3) r(1) neither by (intro exI [of _ "Suc k'"] exI [of _ M'']) (auto simp: not_before_Suc)
    qed
  qed
qed

section \<open>Belady's rule\<close>

lemma farthest_is_optimal:
  assumes "paging True m rs M n M'" and "paging False m rs M k M''" and "finite M"
  shows "n \<le> k"
  using assms
proof (induction arbitrary: k M'' rule: paging.induct)
  case (hit x M rs n M')
  show ?case by (rule hit.IH [OF paging_hitD [OF hit.prems(1) hit.hyps(1)] hit.prems(2)])
next
  case (fill x M rs n M')
  obtain k1 where k1: "k = Suc k1" "paging False m rs (insert x M) k1 M''"
    using paging_fillD [OF fill.prems(1) fill.hyps(1,2)] by blast
  have "finite (insert x M)" using fill.prems(2) by simp
  then show ?case using fill.IH [OF k1(2)] k1(1) by simp
next
  case (replace x M y rs n M')
  obtain k1 z where r: "k = Suc k1" "z \<in> M" "paging False m rs (insert x (M - {z})) k1 M''"
    using paging_replaceD [OF replace.prems(1) replace.hyps(1,2)] by blast
  have fin: "finite (insert x (M - {y}))" using replace.prems(2) by simp
  show ?case
  proof (cases "z = y")
    case True
    then show ?thesis using replace.IH r fin by simp
  next
    case False
    let ?S = "insert x (M - {y, z})"
    have e: "insert x (M - {z}) = insert y ?S" "insert x (M - {y}) = insert z ?S"
      using False r(2) replace.hyps(3) by auto
    have S: "finite ?S" "z \<notin> ?S" "y \<notin> ?S" "z \<noteq> y" using replace.hyps(1,3) replace.prems(2) r(2) False by auto
    have "card (insert x (M - {y})) = m"
      using card_swap [OF replace.prems(2) replace.hyps(3,1)] replace.hyps(2) by simp
    then have "Suc (card ?S) = m" using S unfolding e(2) by simp
    moreover have "not_before (next_pos y rs) (next_pos z rs)" using replace.hyps(4) r(2) by blast
    ultimately obtain k' M3 where "paging False m rs (insert x (M - {y})) k' M3" "k' \<le> k1"
      using exchange [of m rs y ?S k1 M'' z] r(3) S unfolding e by blast
    then show ?thesis using replace.IH [of k' M3] fin r(1) by simp
  qed
qed simp

lemma paging_finite: "paging far m rs M n M' \<Longrightarrow> finite M \<Longrightarrow> finite M'"
  by (induction rule: paging.induct) auto

end
