(* ===== verification/Mem_Opt_Run.thy ===== *)
theory Mem_Opt_Run
  imports Mem_Opt_Step Mem_Paging
begin

text \<open>
  Runs with opt.c when blocks that were freed can still be read. \<open>opt_ref\<close> and \<open>opt_evict\<close>
  meet the contract of \<open>Mem_Replace\<close> on the calls that a run makes, so that the lemmas about
  the fault path hold for them; the pages in memory after each reference are those of demand
  paging by Belady's rule on the addresses of the trace.
\<close>

declare split_paired_All [simp del] split_paired_Ex [simp del]

section \<open>The contract, on the calls of a run\<close>

text \<open>
  \<open>opt_ref\<close> does not look at the entry for the address: it takes the address at its own place
  of the trace. It is called as expected when the entry is that of this address.
\<close>

definition opt_called :: "os_env \<Rightarrow> u64 list \<Rightarrow> u64 list \<Rightarrow> sim \<Rightarrow> pteptr \<Rightarrow> bool" where
  "opt_called E as vs s p \<longleftrightarrow> position s < length as \<and>
     (\<exists>xs e i. opt_at E as vs (position s) s xs \<and> pgtbls s p = Some e \<and> reference_string s ! position s = Some i \<and>
        (if i \<in> set xs then opt_frame s i = pte_frame_no e else pte_frame_no e \<notin> opt_frame s ` set xs))"

text \<open>The same functions, but for another call of \<open>ref\<close> the place moves out of the trace.\<close>

definition opt_ref_in :: "os_env \<Rightarrow> u64 list \<Rightarrow> u64 list \<Rightarrow> ref_fun" where
  "opt_ref_in E as vs p s = (if opt_called E as vs s p then opt_ref E p s else Inr (s\<lparr>position := Suc (length as)\<rparr>))"

definition opt_evict_in :: "u64 list \<Rightarrow> evict_fun" where
  "opt_evict_in as s = (if position s = Suc (length as) then Inr (0, s) else opt_evict s)"

definition opt_tracks :: "os_env \<Rightarrow> u64 list \<Rightarrow> u64 list \<Rightarrow> sim \<Rightarrow> nat set \<Rightarrow> bool" where
  "opt_tracks E as vs s F \<longleftrightarrow> position s = Suc (length as) \<or>
     (\<exists>xs. opt_at E as vs (position s) s xs \<and> opt_frame s ` set xs = F)"

lemma opt_at_position: "opt_at E as vs k s xs \<Longrightarrow> position s = k"
  by (simp add: opt_at_def nodes_at_def)

interpretation opt: replacement "opt_ref_in E as vs" "opt_evict_in as" "opt_tracks E as vs" for E as vs
proof unfold_locales
  fix s assume inv: "vm_inv s" and tr: "opt_tracks E as vs s {..< memsize s}"
  show "\<exists>f s'. opt_evict_in as s = Inr (int f, s') \<and> f < memsize s \<and> core s' = core s \<and>
      opt_tracks E as vs s' ({..< memsize s} - {f})"
  proof (cases "position s = Suc (length as)")
    case True
    then show ?thesis using memsize_pos [OF inv] by (intro exI [of _ 0] exI [of _ s]) (simp add: opt_evict_in_def opt_tracks_def)
  next
    case False
    then obtain xs where xs: "opt_at E as vs (position s) s xs" "opt_frame s ` set xs = {..< memsize s}"
      using tr by (auto simp: opt_tracks_def)
    then obtain h zs where z: "xs = h # zs" using memsize_pos [OF inv] by (cases xs) auto
    obtain s' where s': "opt_evict s = Inr (int (opt_frame s h), s')" "core s' = core s" "opt_at E as vs (position s) s' zs"
      "\<forall>j. j \<noteq> h \<longrightarrow> opt_frame s' j = opt_frame s j"
      using opt_evict_step [OF xs(1) [unfolded z]] by blast
    have d: "h \<notin> set zs" "inj_on (opt_frame s) (insert h (set zs))"
      using xs(1) by (auto simp: z opt_at_def opt_list_def nodes_at_def)
    have "opt_frame s' ` set zs = opt_frame s ` set zs" by (rule image_cong [OF refl]) (use s'(4) d(1) in auto)
    moreover have "opt_frame s ` set zs = {..< memsize s} - {opt_frame s h}"
      using d unfolding xs(2) [symmetric] z by (auto simp: inj_on_def)
    moreover have "opt_frame s h < memsize s" using xs(2) z by auto
    ultimately show ?thesis using s' False opt_at_position [OF s'(3)]
      by (intro exI [of _ "opt_frame s h"] exI [of _ s']) (auto simp: opt_evict_in_def opt_tracks_def)
  qed
next
  fix s p f F assume m: "maps s p f" and tr: "opt_tracks E as vs s F"
  obtain e where e: "pgtbls s p = Some e" "pte_frame_no e = f" using m by (auto simp: maps_def)
  show "\<exists>s'. opt_ref_in E as vs p s = Inr s' \<and> core s' = core s \<and> opt_tracks E as vs s' (insert f F)"
  proof (cases "opt_called E as vs s p")
    case False
    then show ?thesis by (simp add: opt_ref_in_def opt_tracks_def core_def)
  next
    case True
    then obtain xs i where c: "position s < length as" "opt_at E as vs (position s) s xs" "reference_string s ! position s = Some i"
      "if i \<in> set xs then opt_frame s i = f else f \<notin> opt_frame s ` set xs"
      using e by (auto simp: opt_called_def)
    have F: "opt_frame s ` set xs = F" using tr c(1) opt_at_unique [OF c(2)] by (auto simp: opt_tracks_def)
    obtain s' ys where r: "opt_ref E p s = Inr s'" "core s' = core s" "opt_at E as vs (Suc (position s)) s' ys"
      "set ys = insert i (set xs)" "opt_frame s' i = f" "\<forall>j \<in> set xs. opt_frame s' j = opt_frame s j"
      using opt_ref_step [OF c(2,1,3) e] c(4) by (auto split: if_splits)
    have "opt_frame s' ` set ys = insert f F" using r(4-6) F by auto
    then have "opt_tracks E as vs s' (insert f F)"
      using r(3) unfolding opt_tracks_def opt_at_position [OF r(3)] by (intro disjI2 exI [of _ ys] conjI)
    then show ?thesis using r(1,2) True by (simp add: opt_ref_in_def)
  qed
next
  fix s t F assume v: "pol_view s = pol_view t" and tr: "opt_tracks E as vs s F"
  have "position t = position s" using v by (simp add: pol_view_def)
  moreover have "opt_frame t = opt_frame s" if "opt_at E as vs k s xs" for k xs
    using opt_at_view(2) [OF v that] by (simp add: fun_eq_iff)
  ultimately show "opt_tracks E as vs t F" using tr opt_at_view(1) [OF v] unfolding opt_tracks_def by metis
qed

section \<open>The calls of a reference\<close>

lemma find_physpage_cong:
  assumes "\<And>p s1. lookup_pte E x s = Inr (p, s1) \<Longrightarrow> ev s1 = ev' s1"
    and "\<And>p s1 s2 s3. lookup_pte E x s = Inr (p, s1) \<Longrightarrow> resolve_fault E ev x p s1 = Inr s2 \<Longrightarrow>
      mark_access ty p s2 = Inr s3 \<Longrightarrow> ref p s3 = ref' p s3"
  shows "find_physpage E ref ev x ty s = find_physpage E ref' ev' x ty s"
proof -
  have rf: "resolve_fault E ev x p s1 = resolve_fault E ev' x p s1" if "ev s1 = ev' s1" for p s1
    using that by (simp add: resolve_fault_def fault_new_def fault_swapped_def allocate_frame_def evict_frame_def cong: if_cong option.case_cong)
  show ?thesis unfolding find_physpage_def
  proof (rule bindE_cong [OF refl], clarify)
    fix p s1 assume l: "lookup_pte E x s = Inr (p, s1)"
    note e = rf [OF assms(1) [OF l]]
    show "bindE (resolve_fault E ev x p s1) (\<lambda>s2. bindE (mark_access ty p s2) (\<lambda>s3. bindE (ref p s3) (\<lambda>s4.
        bindE (pte_read s4 p) (\<lambda>e. Inr (frame_byte (drop_bit PAGE_SHIFT (pt_frame e)), s4))))) =
      bindE (resolve_fault E ev' x p s1) (\<lambda>s2. bindE (mark_access ty p s2) (\<lambda>s3. bindE (ref' p s3) (\<lambda>s4.
        bindE (pte_read s4 p) (\<lambda>e. Inr (frame_byte (drop_bit PAGE_SHIFT (pt_frame e)), s4)))))"
      unfolding e [symmetric]
      by (intro bindE_cong refl) (use assms(2) [OF l] in auto)
  qed
qed

text \<open>Between two references: the nodes of the list are those of the pages in memory.\<close>

definition opt_inv :: "os_env \<Rightarrow> u64 list \<Rightarrow> u64 list \<Rightarrow> nat \<Rightarrow> sim \<Rightarrow> nat list \<Rightarrow> bool" where
  "opt_inv E as vs k s xs \<longleftrightarrow> opt_at E as vs k s xs \<and> opt_frame s ` set xs = used_frames s \<and>
     (\<forall>i \<in> set xs. page_addr (vs ! i) \<and> translate s (vs ! i) = Some (opt_frame s i))"

text \<open>
  The frame \<open>f\<close> a reference to the node \<open>i\<close> is about to use, and the nodes \<open>zs\<close> whose pages
  stay: the page had the frame, or it was free, or it was that of the first node.
\<close>

definition opt_turn :: "sim \<Rightarrow> u64 \<Rightarrow> nat \<Rightarrow> nat list \<Rightarrow> nat \<Rightarrow> nat list \<Rightarrow> bool" where
  "opt_turn s x i xs f zs \<longleftrightarrow>
     (translate s x = Some f \<and> i \<in> set xs \<and> opt_frame s i = f \<and> zs = xs) \<or>
     (translate s x = None \<and> i \<notin> set xs \<and> length xs < memsize s \<and> f \<notin> opt_frame s ` set xs \<and> zs = xs) \<or>
     (translate s x = None \<and> i \<notin> set xs \<and> length xs = memsize s \<and> (\<exists>h. xs = h # zs \<and> opt_frame s h = f))"

lemma opt_inv_mem:
  assumes o: "opt_inv E as vs k s xs" and inv: "vm_inv s" "dir_inv s" and pa: "page_addr x"
  shows "translate s x = Some f \<longleftrightarrow> (\<exists>i \<in> set xs. vs ! i = x \<and> opt_frame s i = f)"
proof
  assume t: "translate s x = Some f"
  obtain p where "maps s p f" using t unfolding translate_iff by blast
  then have "f \<in> used_frames s" using inv(1) holds_used [of s f p] by (simp add: vm_inv_def)
  then have "f \<in> opt_frame s ` set xs" using o by (simp add: opt_inv_def)
  then obtain i where "i \<in> set xs" "opt_frame s i = f" by blast
  then show "\<exists>i \<in> set xs. vs ! i = x \<and> opt_frame s i = f"
    using o translate_inj [OF inv _ pa _ t] by (auto simp: opt_inv_def)
qed (use o in \<open>auto simp: opt_inv_def\<close>)

lemma opt_inv_length:
  assumes o: "opt_inv E as vs k s xs"
  shows "length xs = card (used_frames s)"
proof -
  have "distinct xs" "inj_on (opt_frame s) (set xs)"
    using o by (simp_all add: opt_inv_def opt_at_def opt_list_def nodes_at_def)
  then show ?thesis using o card_image distinct_card by (fastforce simp: opt_inv_def)
qed

lemma opt_node_of:
  assumes "opt_at E as vs k s xs" "k < length as" "i < length vs" "vs ! i = as ! k"
  shows "reference_string s ! k = Some i"
proof -
  have d: "distinct vs" and r: "\<exists>j < length vs. reference_string s ! k = Some j \<and> vs ! j = as ! k"
    using assms(1,2) by (auto simp: opt_at_def nodes_at_def refs_at_def)
  then show ?thesis using nth_eq_iff_index_eq [OF d _ assms(3)] assms(4) by auto
qed

lemma opt_at_length:
  assumes "opt_at E as vs k s xs"
  shows "length xs = card (opt_frame s ` set xs)"
proof -
  have "distinct xs" "inj_on (opt_frame s) (set xs)" using assms by (simp_all add: opt_at_def opt_list_def nodes_at_def)
  then show ?thesis using card_image distinct_card by metis
qed

lemma opt_source:
  assumes src: "frame_source ev s f s'" and ev: "ev s = opt_evict s" and inv: "vm_inv s"
    and o: "opt_at E as vs k s xs" "opt_frame s ` set xs = used_frames s"
  shows "f < memsize s \<and> (\<exists>zs. opt_at E as vs k s' zs \<and> (\<forall>j \<in> set zs. opt_frame s' j = opt_frame s j) \<and> f \<notin> opt_frame s ` set zs \<and>
    (length xs < memsize s \<and> zs = xs \<or> length xs = memsize s \<and> (\<exists>h. xs = h # zs \<and> opt_frame s h = f)))"
  using src unfolding frame_source_def ev
proof (elim disjE conjE exE)
  assume f: "find_free_frame s = Some f" and v: "pol_view s' = pol_view s"
  note fr = find_free_frame_Some [OF f]
  have "used_frames s \<subset> {..< memsize s}" using fr by (auto simp: used_frames_def)
  then have "length xs < memsize s" using psubset_card_mono [of "{..< memsize s}" "used_frames s"] opt_at_length [OF o(1)] o(2) by simp
  then show ?thesis using fr o(2) opt_at_view [OF v [symmetric] o(1)] by blast
next
  fix u assume f: "find_free_frame s = None" and u: "opt_evict s = Inr (int f, u)" and v: "pol_view s' = pol_view u"
  have full: "opt_frame s ` set xs = {..< memsize s}" using find_free_frame_None [OF f] o(2) by simp
  have len: "length xs = memsize s" using opt_at_length [OF o(1)] full by simp
  then obtain h zs where xs: "xs = h # zs" using memsize_pos [OF inv] by (cases xs) auto
  obtain u' where u': "opt_evict s = Inr (int (opt_frame s h), u')" "opt_at E as vs k u' zs"
    "\<forall>j. j \<noteq> h \<longrightarrow> opt_frame u' j = opt_frame s j"
    using opt_evict_step [OF o(1) [unfolded xs]] by blast
  have same: "f = opt_frame s h" "u' = u" using u u'(1) by simp_all
  have d: "h \<notin> set zs" "inj_on (opt_frame s) (insert h (set zs))"
    using o(1) by (auto simp: xs opt_at_def opt_list_def nodes_at_def)
  have nf: "f \<notin> opt_frame s ` set zs" using d by (auto simp: same(1) inj_on_def)
  have "opt_at E as vs k s' zs" "\<forall>j \<in> set zs. opt_frame s' j = opt_frame s j"
    using opt_at_view [OF v [symmetric] u'(2) [unfolded same(2)]] u'(3) d(1) same(2) by simp_all metis
  moreover have "f < memsize s" using full by (auto simp: xs same(1))
  ultimately show ?thesis using nf len xs same(1) by blast
qed

text \<open>The state in which a reference calls \<open>ref\<close>.\<close>

lemma opt_before_ref:
  assumes o: "opt_inv E as vs k s xs" and inv: "vm_inv s" "dir_inv s" "swap_inv s" "stats_inv s" and E: "memalign_ok E"
    and i: "i < length vs" "vs ! i = x" and pa: "page_addr x"
    and lk: "lookup_pte E x s = Inr (p, s1)" and ev: "ev s1 = opt_evict s1"
    and rf: "resolve_fault E ev x p s1 = Inr s2" and mk: "mark_access ty p s2 = Inr s3"
  shows "\<exists>f zs e. f < memsize s \<and> opt_turn s x i xs f zs \<and> opt_at E as vs k s3 zs \<and> pgtbls s3 p = Some e \<and> pte_frame_no e = f \<and>
    (\<forall>j \<in> set zs. opt_frame s3 j = opt_frame s j) \<and> (i \<notin> set zs \<longrightarrow> f \<notin> opt_frame s ` set zs)"
proof -
  have va: "unat x < 2 ^ 36" using pa by (simp add: page_addr_def)
  have sz: "sizes_ok s" using inv(1) by (simp add: vm_inv_def)
  have oa: "opt_at E as vs k s xs" "opt_frame s ` set xs = used_frames s" using o by (simp_all add: opt_inv_def)
  obtain e where ok: "grown s s1" "walk_grows s s1" "walk s1 x = Some p" "pgtbls s1 p = Some e"
    using lookup_pte_ok [OF E va sz inv(2)] lk by auto
  note g = grown_inv [OF ok(1) inv(1,3,4)]
  note o1 = opt_at_view [OF g(7) [symmetric] oa(1)]
  have im1: "opt_frame s1 = opt_frame s" by (simp add: fun_eq_iff o1(2))
  have tr: "translate s x = translate s1 x"
  proof -
    have "translate s1 x = Some k \<longleftrightarrow> translate s x = Some k \<and> True" for k
      by (rule translate_grows [OF ok(2) va]) (simp add: grown_maps [OF ok(1)])
    then show ?thesis by (cases "translate s x"; cases "translate s1 x") auto
  qed
  have t1: "translate s x = (if pte_valid e then Some (pte_frame_no e) else None)"
    unfolding tr using ok(3,4) by (simp add: translate_def)
  have sw: "\<not> pte_onswap e" using g(1) ok(4) by (auto simp: vm_inv_def entries_ok_def entry_ok_def)
  have d: "distinct vs" using oa(1) by (simp add: opt_at_def nodes_at_def)
  have node: "j = i" if "j \<in> set xs" "vs ! j = x" for j
  proof -
    have "j < length vs" using that(1) oa(1) by (auto simp: opt_at_def nodes_at_def)
    then show ?thesis using nth_eq_iff_index_eq [OF d _ i(1)] that(2) i(2) by simp
  qed
  note mem = opt_inv_mem [OF o inv(1,2) pa]
  from resolve_fault_source [OF rf ok(4) sw] show ?thesis
  proof (elim disjE conjE exE)
    assume v: "pte_valid e" and s2: "pol_view s2 = pol_view s1" "pgtbls s2 p = Some e"
    let ?f = "pte_frame_no e"
    have t: "translate s x = Some ?f" using t1 v by simp
    then have it: "i \<in> set xs" "opt_frame s i = ?f" using mem node by auto
    note pv = mark_access_frame [OF mk s2(2)]
    have v3: "pol_view s1 = pol_view s3" using pv(1) s2(1) by simp
    have "?f < memsize s" using t maps_bound [OF inv(1)] unfolding translate_iff by blast
    moreover have "opt_turn s x i xs ?f xs" using t it by (simp add: opt_turn_def)
    ultimately show ?thesis using opt_at_view [OF v3 o1(1)] pv(2) it(1) im1 by auto
  next
    fix f assume v: "\<not> pte_valid e" and src: "frame_source ev s1 f s2" and fl: "filled f p s2"
    have t: "translate s x = None" using t1 v by simp
    then have ni: "i \<notin> set xs" using o i(2) by (auto simp: opt_inv_def)
    have "opt_frame s1 ` set xs = used_frames s1" using oa(2) g(4) im1 by simp
    from opt_source [OF src ev g(1) o1(1) this, unfolded im1 g(5)] obtain zs where z: "f < memsize s" "opt_at E as vs k s2 zs"
      "\<forall>j \<in> set zs. opt_frame s2 j = opt_frame s j" "f \<notin> opt_frame s ` set zs"
      "length xs < memsize s \<and> zs = xs \<or> length xs = memsize s \<and> (\<exists>h. xs = h # zs \<and> opt_frame s h = f)" by blast
    have f20: "f < 2 ^ 20" using sz z(1) by (simp add: sizes_ok_def)
    obtain e2 where e2: "pgtbls s2 p = Some e2" "pte_frame_no e2 = f" using filled_frame_no [OF fl f20] by blast
    note pv = mark_access_frame [OF mk e2(1)]
    obtain e3 where e3: "pgtbls s3 p = Some e3" "pte_frame_no e3 = f" using pv(2) e2(2) by auto
    have "opt_turn s x i xs f zs" using t ni z(4,5) by (auto simp: opt_turn_def)
    moreover have "\<forall>j \<in> set zs. opt_frame s3 j = opt_frame s j" using opt_at_view(2) [OF pv(1) [symmetric] z(2)] z(3) by simp
    ultimately show ?thesis using z(1,4) e3 opt_at_view(1) [OF pv(1) [symmetric] z(2)] by blast
  qed
qed

lemma opt_turn_fits:
  assumes "opt_turn s x i xs f zs" "i \<notin> set zs \<longrightarrow> f \<notin> opt_frame s ` set zs" "\<forall>j \<in> set zs. opt_frame t j = opt_frame s j"
  shows "i \<in> set zs \<longrightarrow> opt_frame t i = f" "i \<notin> set zs \<longrightarrow> f \<notin> opt_frame t ` set zs"
  using assms by (auto simp: opt_turn_def image_iff)

lemma opt_find_eq:
  assumes o: "opt_inv E as vs k s xs" and inv: "vm_inv s" "dir_inv s" "swap_inv s" "stats_inv s" and E: "memalign_ok E"
    and k: "k < length as" and pa: "page_addr (as ! k)"
  shows "find_physpage E (opt_ref E) opt_evict (as ! k) ty s = find_physpage E (opt_ref_in E as vs) (opt_evict_in as) (as ! k) ty s"
proof (rule find_physpage_cong)
  have oa: "opt_at E as vs k s xs" using o by (simp add: opt_inv_def)
  then obtain i where i: "i < length vs" "vs ! i = as ! k" using k by (auto simp: opt_at_def nodes_at_def refs_at_def)
  have va: "unat (as ! k) < 2 ^ 36" using pa by (simp add: page_addr_def)
  have sz: "sizes_ok s" using inv(1) by (simp add: vm_inv_def)
  show "opt_evict s1 = opt_evict_in as s1" if "lookup_pte E (as ! k) s = Inr (p, s1)" for p s1
  proof -
    have g: "grown s s1" using lookup_pte_ok [OF E va sz inv(2)] that by auto
    have "position s1 = k"
      using opt_at_position [OF opt_at_view(1) [OF grown_inv(7) [OF g inv(1,3,4), symmetric] oa]] .
    then show ?thesis using k by (simp add: opt_evict_in_def)
  qed
  show "opt_ref E p s3 = opt_ref_in E as vs p s3"
    if h: "lookup_pte E (as ! k) s = Inr (p, s1)" "resolve_fault E opt_evict (as ! k) p s1 = Inr s2" "mark_access ty p s2 = Inr s3"
    for p s1 s2 s3
  proof -
    obtain f zs e where b: "opt_turn s (as ! k) i xs f zs" "opt_at E as vs k s3 zs" "pgtbls s3 p = Some e" "pte_frame_no e = f"
      "\<forall>j \<in> set zs. opt_frame s3 j = opt_frame s j" "i \<notin> set zs \<longrightarrow> f \<notin> opt_frame s ` set zs"
      using opt_before_ref [OF o inv E i pa h(1) refl h(2,3)] by blast
    note fits = opt_turn_fits [OF b(1,6,5)]
    have "reference_string s3 ! k = Some i" by (rule opt_node_of [OF b(2) k i])
    then have "opt_called E as vs s3 p" unfolding opt_called_def opt_at_position [OF b(2)]
      using k b(2-4) fits by (intro conjI exI [of _ zs] exI [of _ e] exI [of _ i]) auto
    then show ?thesis by (simp add: opt_ref_in_def)
  qed
qed

lemma opt_find_turn:
  assumes o: "opt_inv E as vs k s xs" and inv: "vm_inv s" "dir_inv s" "swap_inv s" "stats_inv s" and E: "memalign_ok E"
    and k: "k < length as" and pa: "page_addr (as ! k)" and i: "i < length vs" "vs ! i = as ! k"
    and run: "find_physpage E (opt_ref E) opt_evict (as ! k) ty s = Inr (a, s')"
  shows "\<exists>f zs ys. a = f * SIMPAGESIZE \<and> opt_turn s (as ! k) i xs f zs \<and> opt_at E as vs (Suc k) s' ys \<and> set ys = insert i (set zs) \<and>
    opt_frame s' i = f \<and> (\<forall>j \<in> set zs. opt_frame s' j = opt_frame s j)"
proof -
  obtain p s1 s2 s3 e' where st: "lookup_pte E (as ! k) s = Inr (p, s1)" "resolve_fault E opt_evict (as ! k) p s1 = Inr s2"
    "mark_access ty p s2 = Inr s3" "opt_ref E p s3 = Inr s'" "pgtbls s' p = Some e'"
    and a: "a = frame_byte (drop_bit PAGE_SHIFT (pt_frame e'))"
    by (rule find_physpage_steps [OF run])
  obtain f zs e where b: "f < memsize s" "opt_turn s (as ! k) i xs f zs" "opt_at E as vs k s3 zs" "pgtbls s3 p = Some e" "pte_frame_no e = f"
    "\<forall>j \<in> set zs. opt_frame s3 j = opt_frame s j" "i \<notin> set zs \<longrightarrow> f \<notin> opt_frame s ` set zs"
    using opt_before_ref [OF o inv E i pa st(1) refl st(2,3)] by blast
  note fits = opt_turn_fits [OF b(2,7,6)]
  have "reference_string s3 ! k = Some i" by (rule opt_node_of [OF b(3) k i])
  from opt_ref_step [OF b(3) k this b(4,5) fits] obtain t ys where t: "opt_ref E p s3 = Inr t" "core t = core s3"
    "opt_at E as vs (Suc k) t ys" "set ys = insert i (set zs)" "opt_frame t i = f" "\<forall>j \<in> set zs. opt_frame t j = opt_frame s3 j"
    by blast
  have ts: "t = s'" using t(1) st(4) by simp
  obtain e2 where e2: "pgtbls s3 p = Some e2" "pview e2 = pview e'"
    using core_entry [OF t(2) [unfolded ts] st(5)] by blast
  then have "pte_frame_no e' = f" using b(4,5) by (simp add: pview_def)
  then have "drop_bit PAGE_SHIFT (pt_frame e') = of_nat f" by (auto simp: pte_frame_no_def)
  moreover have "f < 2 ^ 19" using b(1) inv(1) by (simp add: vm_inv_def sizes_ok_def)
  ultimately have "a = f * SIMPAGESIZE" by (simp add: a frame_byte_of_nat)
  then show ?thesis using b(2,6) t(3-6) unfolding ts by (intro exI [of _ f] exI [of _ zs] exI [of _ ys]) simp
qed

section \<open>One reference\<close>

lemma opt_turn_frames:
  "opt_turn s x i xs f zs \<Longrightarrow> insert f (opt_frame s ` set zs) = insert f (opt_frame s ` set xs) \<and> set zs \<subseteq> set xs"
  by (auto simp: opt_turn_def)

lemma opt_access_step:
  assumes o: "opt_inv E as vs k s xs" and inv: "sim_inv (opt_tracks E as vs) s" "content_inv s" and E: "memalign_ok E"
    and k: "k < length as" and pa: "page_addr (as ! k)" and i: "i < length vs" "vs ! i = as ! k"
    and run: "access_mem E (opt_ref E) opt_evict ty (as ! k) s = Inr s'"
  shows "\<exists>f zs ys. sim_inv (opt_tracks E as vs) s' \<and> content_inv s' \<and> opt_inv E as vs (Suc k) s' ys \<and>
    opt_turn s (as ! k) i xs f zs \<and> set ys = insert i (set zs) \<and> memsize s' = memsize s \<and>
    miss_count s' = miss_count s + (if translate s (as ! k) = None then 1 else 0)"
proof -
  have i0: "vm_inv s" "dir_inv s" "swap_inv s" "stats_inv s" using inv by (simp_all add: sim_inv_def)
  have eq: "access_mem E (opt_ref_in E as vs) (opt_evict_in as) ty (as ! k) s = Inr s'"
    using run opt_find_eq [OF o i0 E k pa, of ty] by (simp add: access_mem_def)
  have ac: "sim_inv (opt_tracks E as vs) s'" "accessed s ty (as ! k) s'"
    using opt.access_mem_ok [OF inv E pa, of ty] eq by auto
  obtain f s1 where s1: "find_physpage E (opt_ref E) opt_evict (as ! k) ty s = Inr (f * SIMPAGESIZE, s1)" "pol_view s' = pol_view s1"
    "translate s' (as ! k) = Some f" "used_frames s' = insert f (used_frames s)"
    using opt.access_mem_frame [OF inv(1) E pa eq] opt_find_eq [OF o i0 E k pa, of ty] by auto
  obtain g zs ys where t: "f * SIMPAGESIZE = g * SIMPAGESIZE" "opt_turn s (as ! k) i xs g zs" "opt_at E as vs (Suc k) s1 ys"
    "set ys = insert i (set zs)" "opt_frame s1 i = g" "\<forall>j \<in> set zs. opt_frame s1 j = opt_frame s j"
    using opt_find_turn [OF o i0 E k pa i s1(1)] by blast
  have gf: "g = f" using t(1) by (simp add: SIMPAGESIZE_def)
  note v = opt_at_view [OF s1(2) [symmetric] t(3)]
  have fr: "opt_frame s' i = f" "\<forall>j \<in> set zs. opt_frame s' j = opt_frame s j" using v(2) t(5,6) gf by simp_all
  note sub = opt_turn_frames [OF t(2), unfolded gf]
  have us: "opt_frame s ` set xs = used_frames s" using o by (simp add: opt_inv_def)
  have "opt_frame s' ` set ys = insert f (opt_frame s ` set zs)" using fr by (auto simp: t(4))
  then have "opt_frame s' ` set ys = used_frames s'" using sub us s1(4) by simp
  moreover have "page_addr (vs ! j) \<and> translate s' (vs ! j) = Some (opt_frame s' j)" if j: "j \<in> set ys" for j
  proof (cases "j = i")
    case True
    then show ?thesis using i(2) pa s1(3) fr(1) by simp
  next
    case False
    then have jz: "j \<in> set zs" using j t(4) by simp
    have d: "distinct vs" "set ys \<subseteq> {..< length vs}" "inj_on (opt_frame s') (set ys)"
      using v(1) by (simp_all add: opt_at_def nodes_at_def)
    have "j < length vs" using j d(2) by auto
    then have ne: "vs ! j \<noteq> as ! k" using nth_eq_iff_index_eq [OF d(1) _ i(1)] i(2) False by metis
    have "opt_frame s' j \<noteq> opt_frame s' i" using inj_onD [OF d(3)] j False t(4) by blast
    then have "opt_frame s j \<noteq> f" using fr jz by simp
    moreover have "page_addr (vs ! j)" "translate s (vs ! j) = Some (opt_frame s j)"
      using o jz sub by (auto simp: opt_inv_def)
    ultimately show ?thesis using accessed_translate [OF ac(2) pa s1(3)] ne fr(2) jz by simp
  qed
  ultimately have "opt_inv E as vs (Suc k) s' ys" using v(1) by (simp add: opt_inv_def)
  moreover have "content_inv s'" "memsize s' = memsize s" using ac(2) by (simp_all add: accessed_def)
  ultimately show ?thesis using ac(1) t(2,4) accessed_misses [OF ac(2) pa] by blast
qed

section \<open>A run\<close>

lemma nxt_idx_drop:
  "lo \<le> length as \<Longrightarrow> nxt_idx (\<lambda>q. as ! q = y) lo (length as) = map_option ((+) lo) (next_pos y (drop lo as))"
proof (induction "length as - lo" arbitrary: lo)
  case 0
  then show ?case by (simp add: nxt_idx_def)
next
  case (Suc m)
  then have lo: "lo < length as" by simp
  have "nxt_idx (\<lambda>q. as ! q = y) (Suc lo) (length as) = map_option ((+) (Suc lo)) (next_pos y (drop (Suc lo) as))"
    by (rule Suc.hyps) (use Suc.hyps(2) in simp_all)
  then show ?case using Cons_nth_drop_Suc [OF lo, symmetric]
    by (auto simp: nxt_idx_step [OF lo] option.map_comp comp_def intro: option.map_cong)
qed

lemma later_use_shift: "later_use (map_option int (map_option ((+) k) a)) (map_option int (map_option ((+) k) b)) \<longleftrightarrow> not_before a b"
  by (cases a; cases b) auto

text \<open>The first node of a list is that of a page used latest, after the reference at hand too.\<close>

lemma opt_head_latest:
  assumes o: "opt_at E as vs k s (h # zs)" and k: "k < length as" and no: "as ! k \<notin> (!) vs ` set (h # zs)" and j: "j \<in> set (h # zs)"
  shows "not_before (next_pos (vs ! h) (drop (Suc k) as)) (next_pos (vs ! j) (drop (Suc k) as))"
proof -
  have n: "nodes_at E as vs k s (set (h # zs))" using o by (simp add: opt_at_def)
  have "later_use (nuse s h) (nuse s j)"
    using opt_evict_step [OF o] j later_use_total [of "nuse s h" "nuse s h"] by auto
  moreover have "nuse s i = map_option int (map_option ((+) (Suc k)) (next_pos (vs ! i) (drop (Suc k) as)))" if "i \<in> set (h # zs)" for i
  proof -
    have "i < length vs" using n that by (auto simp: nodes_at_def)
    moreover have "vs ! i \<noteq> as ! k" using no that by (metis image_eqI)
    ultimately show ?thesis using nodes_at_readable(2) [OF n] k nxt_idx_drop [of "Suc k" as "vs ! i"] by (simp add: nxt_idx_step)
  qed
  ultimately show ?thesis using j by (simp only: later_use_shift list.set_intros)
qed

lemma opt_paging_step:
  assumes o: "opt_inv E as vs k s xs" and k: "k < length as" and i: "i < length vs" "vs ! i = as ! k"
    and t: "opt_turn s (as ! k) i xs f zs" and p: "paging True (memsize s) (drop (Suc k) as) ((!) vs ` insert i (set zs)) n M"
  shows "paging True (memsize s) (drop k as) ((!) vs ` set xs) (n + (if translate s (as ! k) = None then 1 else 0)) M"
proof -
  have oa: "opt_at E as vs k s xs" using o by (simp add: opt_inv_def)
  then have d: "distinct vs" "distinct xs" "set xs \<subseteq> {..< length vs}" by (simp_all add: opt_at_def nodes_at_def opt_list_def)
  have inj: "inj_on ((!) vs) {..< length vs}" using d(1) by (simp add: inj_on_def nth_eq_iff_index_eq)
  have sub: "insert i (set xs) \<subseteq> {..< length vs}" using d(3) i(1) by simp
  have mem: "as ! k \<in> (!) vs ` set xs \<longleftrightarrow> i \<in> set xs"
    using inj_on_image_mem_iff [OF inj _ d(3), of i] i by simp
  have "card ((!) vs ` set xs) = card (set xs)" by (rule card_image) (rule inj_on_subset [OF inj d(3)])
  then have card: "card ((!) vs ` set xs) = length xs" using distinct_card [OF d(2)] by simp
  note dk = Cons_nth_drop_Suc [OF k, symmetric]
  from t show ?thesis unfolding opt_turn_def
  proof (elim disjE conjE exE)
    assume h: "translate s (as ! k) = Some f" "i \<in> set xs" "zs = xs"
    then have "paging True (memsize s) (drop (Suc k) as) ((!) vs ` set xs) n M" using p by (simp add: insert_absorb)
    then show ?thesis using h mem unfolding dk by (simp add: paging.hit)
  next
    assume h: "translate s (as ! k) = None" "i \<notin> set xs" "length xs < memsize s" "zs = xs"
    then show ?thesis using p mem card i(2) unfolding dk by (simp add: paging.fill)
  next
    fix h assume h: "translate s (as ! k) = None" "i \<notin> set xs" "length xs = memsize s" "xs = h # zs"
    have no: "as ! k \<notin> (!) vs ` set xs" using mem h(2) by blast
    have "(!) vs ` set zs = (!) vs ` set xs - {vs ! h}"
      using inj_on_image_set_diff [OF inj, of "set xs" "{h}"] d h(4) by auto
    then have "paging True (memsize s) (drop (Suc k) as) (insert (as ! k) ((!) vs ` set xs - {vs ! h})) n M" using p i(2) by simp
    moreover have "\<forall>z \<in> (!) vs ` set xs. not_before (next_pos (vs ! h) (drop (Suc k) as)) (next_pos z (drop (Suc k) as))"
      using opt_head_latest [OF oa [unfolded h(4)] k no [unfolded h(4)]] unfolding h(4) by blast
    ultimately show ?thesis using no card h unfolding dk by (simp add: paging.replace [where y = "vs ! h"])
  qed
qed

lemma opt_access_eq:
  assumes o: "opt_inv E as vs k s xs" and inv: "sim_inv (opt_tracks E as vs) s" and E: "memalign_ok E"
    and k: "k < length as" and pa: "page_addr (as ! k)"
  shows "access_mem E (opt_ref E) opt_evict ty (as ! k) s = access_mem E (opt_ref_in E as vs) (opt_evict_in as) ty (as ! k) s"
proof -
  have i0: "vm_inv s" "dir_inv s" "swap_inv s" "stats_inv s" using inv by (simp_all add: sim_inv_def)
  show ?thesis using opt_find_eq [OF o i0 E k pa, of ty] by (simp add: access_mem_def)
qed

lemma opt_run:
  assumes "map snd rs = drop k as" "k \<le> length as" and "opt_inv E as vs k s xs" and "sim_inv (opt_tracks E as vs) s" "content_inv s"
    and E: "memalign_ok E" and pa: "\<forall>x \<in> set as. page_addr x"
  shows "access_all E (opt_ref E) opt_evict rs s = access_all E (opt_ref_in E as vs) (opt_evict_in as) rs s \<and>
    (\<forall>s'. access_all E (opt_ref E) opt_evict rs s = Inr s' \<longrightarrow>
      (\<exists>n ys. paging True (memsize s) (drop k as) ((!) vs ` set xs) n ((!) vs ` set ys) \<and> miss_count s' = miss_count s + n \<and>
        opt_inv E as vs (length as) s' ys \<and> vm_inv s' \<and> dir_inv s'))"
  using assms(1-5)
proof (induction rs arbitrary: k s xs)
  case Nil
  have "k = length as" using Nil.prems(1,2) by simp
  then show ?case using Nil.prems(3,4) by (auto simp: sim_inv_def intro: paging.stop)
next
  case (Cons r rs)
  have k: "k < length as" using Cons.prems(1) by (cases "k < length as") auto
  have r: "snd r = as ! k" "map snd rs = drop (Suc k) as" using Cons.prems(1) Cons_nth_drop_Suc [OF k, symmetric] by simp_all
  have x: "page_addr (as ! k)" using pa k by simp
  note eq = opt_access_eq [OF Cons.prems(3,4) E k x, of "fst r"]
  show ?case
  proof (cases "access_mem E (opt_ref E) opt_evict (fst r) (as ! k) s")
    case (Inl e)
    then show ?thesis using eq r(1) by simp
  next
    case (Inr s1)
    have oa: "opt_at E as vs k s xs" using Cons.prems(3) by (simp add: opt_inv_def)
    obtain i where i: "i < length vs" "vs ! i = as ! k" using oa k by (auto simp: opt_at_def nodes_at_def refs_at_def)
    obtain f zs ys where st: "sim_inv (opt_tracks E as vs) s1" "content_inv s1" "opt_inv E as vs (Suc k) s1 ys"
      "opt_turn s (as ! k) i xs f zs" "set ys = insert i (set zs)" "memsize s1 = memsize s"
      "miss_count s1 = miss_count s + (if translate s (as ! k) = None then 1 else 0)"
      using opt_access_step [OF Cons.prems(3-5) E k x i Inr] by blast
    have le: "Suc k \<le> length as" using k by simp
    note IH = Cons.IH [OF r(2) le st(3,1,2)]
    have acc: "access_all E (opt_ref E) opt_evict (r # rs) s = access_all E (opt_ref E) opt_evict rs s1"
      "access_all E (opt_ref_in E as vs) (opt_evict_in as) (r # rs) s = access_all E (opt_ref_in E as vs) (opt_evict_in as) rs s1"
      using Inr eq r(1) by simp_all
    show ?thesis unfolding acc
    proof (intro conjI allI impI)
      show "access_all E (opt_ref E) opt_evict rs s1 = access_all E (opt_ref_in E as vs) (opt_evict_in as) rs s1"
        using IH by (rule conjunct1)
      fix s' assume run: "access_all E (opt_ref E) opt_evict rs s1 = Inr s'"
      obtain n zs' where n: "paging True (memsize s) (drop (Suc k) as) ((!) vs ` set ys) n ((!) vs ` set zs')"
        "miss_count s' = miss_count s1 + n" "opt_inv E as vs (length as) s' zs'" "vm_inv s'" "dir_inv s'"
        using IH run st(6) by auto
      show "\<exists>n ys. paging True (memsize s) (drop k as) ((!) vs ` set xs) n ((!) vs ` set ys) \<and> miss_count s' = miss_count s + n \<and>
          opt_inv E as vs (length as) s' ys \<and> vm_inv s' \<and> dir_inv s'"
        using opt_paging_step [OF Cons.prems(3) k i st(4) n(1) [unfolded st(5)]] n(2-5) st(7)
        by (intro exI [of _ "n + (if translate s (as ! k) = None then 1 else 0)"] exI [of _ zs']) simp
    qed
  qed
qed

section \<open>The start\<close>

lemma record_all_head: "record_all E xs s = Inr s' \<Longrightarrow> coremap_head s' = coremap_head s"
proof (induction xs arbitrary: s)
  case (Cons x xs)
  have occ: "coremap_head t' = coremap_head t" if "add_occurance_sequence E i p t = Inr t'" for i p t t'
    using that by (auto simp: add_occurance_sequence_def new_onode_def resE split: if_splits)
  have new: "coremap_head t' = coremap_head t" if "new_vaddr E x t = Inr (i, t')" for i t t'
    using that by (auto simp: new_vaddr_def resE)
  have rec: "coremap_head t' = coremap_head t" if "vaddr_record E p x j t = Inr (i, t')" for p j i t t'
    using that by (auto simp: vaddr_record_def resE dest!: occ new split: option.splits if_splits)
  obtain s1 where "record_line E x s = Inr s1" "record_all E xs s1 = Inr s'" using Cons.prems by (auto simp: resE)
  then show ?case using Cons.IH by (auto simp: record_line_def resE dest!: rec)
qed simp

lemma opt_init_head: "opt_init E old (Some cs) s = Inr s' \<Longrightarrow> coremap_head s' = None"
  by (auto simp: opt_init_def resE opt_scan_all dest!: record_all_head)

lemma opt_start:
  assumes s: "fresh_state s" "vnodes s = []" "onodes s = []" and E: "freed_readable E" "count_lines cs \<le> heap_limit E"
  shows "\<exists>s' vs. opt_init E old (Some cs) s = Inr s' \<and> fresh_state s' \<and> opt_inv E (opt_addrs old cs) vs 0 s' [] \<and>
    memsize s' = memsize s \<and> swapmap s' = swapmap s"
proof -
  let ?as = "opt_addrs old cs"
  have m: "0 < memsize s" using s(1) by (simp add: fresh_state_def sizes_ok_def)
  obtain s' vs t where r: "opt_init E old (Some cs) s = Inr s'" "s' = t\<lparr>position := 0\<rparr>" "scanned (memsize s) ?as vs t"
    "core s' = core s" using opt_init_run [OF m s(2,3) E(2)] by blast
  have fr: "fresh_state s'" by (rule fresh_state_core [OF s(1) r(4)])
  have "nodes_at E ?as vs 0 s' {}"
    using r(3) E(1) by (auto simp: r(2) nodes_at_def uses_at_def refs_at_def scanned_def va_node_def use_node_def)
  moreover have "opt_list E s' []" using opt_init_head [OF r(1)] by (simp add: opt_list_def)
  moreover have "used_frames s' = {}" using fr by (auto simp: fresh_state_def used_frames_def memsize_def)
  ultimately have "opt_inv E ?as vs 0 s' []" by (simp add: opt_inv_def opt_at_def)
  then show ?thesis using r(1,4) fr core_memsize [OF r(4)] core_fields [OF r(4)] by blast
qed

lemma sim_main_opt:
  assumes cfg: "config_ok cfg" "c_input cfg = Some bytes" "c_tracefile cfg = Some bytes" "c_alg cfg = Some ''opt''"
    and E: "memalign_ok E" "freed_readable E" "count_lines bytes \<le> heap_limit E"
    and refs: "opt_addrs (c_type cfg, 0) bytes = run_refs cfg bytes" "\<forall>x \<in> set (run_refs cfg bytes). page_addr x"
  shows "(sim_main E cfg = Inl Exit_Failure \<and> \<not> enough E cfg (trace_refs (c_type cfg, 0) bytes)) \<or>
    (\<exists>s M. sim_main E cfg = Inr s \<and> run_ok E cfg (trace_refs (c_type cfg, 0) bytes) s \<and>
      paging True (unat (c_memsize cfg)) (run_refs cfg bytes) {} (miss_count s) M \<and>
      (\<forall>x. page_addr x \<longrightarrow> translate s x \<noteq> None \<longleftrightarrow> x \<in> M))"
proof -
  let ?as = "run_refs cfg bytes" and ?rs = "trace_refs (c_type cfg, 0) bytes"
  obtain s1 where s1: "swap_init (c_mkstemp_ok cfg) (c_mallocs cfg) (c_swapsize cfg) (alloc_globals cfg) = Inr (0, s1)"
    "fresh_state (init_pagetable s1)" "memsize s1 = unat (c_memsize cfg)" "nbits (swapmap s1) = c_swapsize cfg"
    using setup_fresh [OF cfg(1)] by metis
  have "vnodes s1 = [] \<and> onodes s1 = []" using swap_init_nodes [OF s1(1)] by (simp add: alloc_globals_def)
  then have n: "vnodes (init_pagetable s1) = []" "onodes (init_pagetable s1) = []" by (simp_all add: init_pagetable_def)
  obtain s0 vs where s0: "opt_init E (c_type cfg, 0) (Some bytes) (init_pagetable s1) = Inr s0" "fresh_state s0"
    "opt_inv E ?as vs 0 s0 []" "memsize s0 = memsize (init_pagetable s1)" "swapmap s0 = swapmap (init_pagetable s1)"
    using opt_start [OF s1(2) n E(2,3), of "(c_type cfg, 0)"] unfolding refs(1) by blast
  have ms: "memsize s0 = unat (c_memsize cfg)" "nbits (swapmap s0) = c_swapsize cfg"
    using s0(4,5) s1(3,4) by (simp_all add: init_pagetable_def memsize_def)
  have main: "sim_main E cfg = replay_trace E (opt_ref E) opt_evict (c_type cfg, 0) bytes s0"
    using s1(1) cfg s0(1) by (simp add: sim_main_def algs_def)
  have oa: "opt_at E ?as vs 0 s0 []" using s0(3) by (simp add: opt_inv_def)
  have tr: "opt_tracks E ?as vs s0 {}" using oa opt_at_position [OF oa] unfolding opt_tracks_def by fastforce
  note inv = fresh_sim_inv [where tracks = "opt_tracks E ?as vs", OF s0(2) tr]
  have rp: "\<forall>r \<in> set ?rs. page_addr (snd r)" using refs(2) by (simp add: run_refs_def)
  have d0: "map snd ?rs = drop 0 ?as" by (simp add: run_refs_def)
  note run = opt_run [OF d0 _ s0(3) inv E(1) refs(2), simplified]
  have "replay_trace E (opt_ref_in E ?as vs) (opt_evict_in ?as) (c_type cfg, 0) bytes s0 = sim_main E cfg"
    unfolding main replay_trace_refs using conjunct1 [OF run] by simp
  from opt.replay_ok [OF s0(2) tr E(1) ms rp, unfolded this] show ?thesis
  proof (elim disjE conjE exE)
    fix s assume s: "sim_main E cfg = Inr s" and ok: "run_ok E cfg ?rs s"
    then have "access_all E (opt_ref E) opt_evict ?rs s0 = Inr s" using main by (simp add: replay_trace_refs)
    then obtain k ys where k: "paging True (memsize s0) ?as {} k ((!) vs ` set ys)" "miss_count s = miss_count s0 + k"
      "opt_inv E ?as vs (length ?as) s ys" "vm_inv s" "dir_inv s" using run by blast
    have "miss_count s0 = 0" using s0(2) by (simp add: fresh_state_def)
    moreover have "translate s x \<noteq> None \<longleftrightarrow> x \<in> (!) vs ` set ys" if "page_addr x" for x
      using opt_inv_mem [OF k(3-5) that] by auto
    ultimately show ?thesis using s ok k(1,2) ms(1) by auto
  qed simp
qed

end
