(* ===== verification/C_Loops.thy ===== *)
theory C_Loops
  imports C_Prelude
begin

text \<open>
  Counting loops: \<open>forE body is s\<close> runs the body for the indices \<open>is\<close> in order and
  stops at the first fault.  An invariant rule, the flattening of two nested
  loops into one, and loops that fill an array position by position.
\<close>

primrec forE :: "(nat \<Rightarrow> 's \<Rightarrow> 's res) \<Rightarrow> nat list \<Rightarrow> 's \<Rightarrow> 's res" where
  "forE f [] s = Inr s"
| "forE f (i # is) s = bindE (f i s) (forE f is)"

lemma forE_append: "forE f (is @ js) s = bindE (forE f is s) (forE f js)"
  by (induction "is" arbitrary: s) (simp_all add: bindE_def split: sum.splits)

lemma forE_Suc: "forE f [0 ..< Suc n] s = bindE (forE f [0 ..< n] s) (f n)"
  by (cases "forE f [0 ..< n] s"; cases "f n (projr (forE f [0 ..< n] s))") (simp_all add: forE_append)

lemma forE_map: "forE f (map g is) s = forE (\<lambda>i. f (g i)) is s"
  by (induction "is" arbitrary: s) (simp_all add: bindE_def split: sum.splits)

lemma forE_cong: "(\<And>i s. i \<in> set is \<Longrightarrow> f i s = g i s) \<Longrightarrow> forE f is s = forE g is s"
  by (induction "is" arbitrary: s) (simp_all add: bindE_def split: sum.splits)

lemma forE_invariant:
  assumes "\<And>i s. i < n \<Longrightarrow> P i s \<Longrightarrow> \<exists>s'. f i s = Inr s' \<and> P (Suc i) s'" and "P 0 s"
  shows "\<exists>s'. forE f [0 ..< n] s = Inr s' \<and> P n s'"
  using assms
proof (induction n)
  case (Suc n)
  have "\<exists>s'. forE f [0 ..< n] s = Inr s' \<and> P n s'"
    by (rule Suc.IH) (use Suc.prems in auto)
  then obtain s1 where s1: "forE f [0 ..< n] s = Inr s1" "P n s1" by blast
  then obtain s2 where "f n s1 = Inr s2" "P (Suc n) s2" using Suc.prems(1) [of n s1] by auto
  then show ?case unfolding forE_Suc using s1 by simp
qed auto

text \<open>The value of the state after each round, when it is a function of the round.\<close>

lemma forE_trace:
  assumes "\<And>i. i < n \<Longrightarrow> f i (g i) = Inr (g (Suc i))"
  shows "forE f [0 ..< n] (g 0) = Inr (g n)"
  using forE_invariant [of n "\<lambda>i s. s = g i" f "g 0"] assms by auto

text \<open>Two nested loops are one loop over the product.\<close>

lemma forE_nested:
  "forE (\<lambda>i. forE (f i) [0 ..< b]) [0 ..< m] s = forE (\<lambda>q. f (q div b) (q mod b)) [0 ..< m * b] s"
proof (induction m)
  case 0
  then show ?case by simp
next
  case (Suc m)
  have idx: "[0 ..< Suc m * b] = [0 ..< m * b] @ map (\<lambda>j. m * b + j) [0 ..< b]"
  proof -
    have "map (\<lambda>j. m * b + j) [0 ..< b] = [m * b ..< m * b + b]"
      by (simp add: map_add_upt [symmetric] add.commute)
    then show ?thesis using upt_add_eq_append [of 0 "m * b" b] by (simp add: add.commute)
  qed
  have row: "forE (\<lambda>j. f ((m * b + j) div b) ((m * b + j) mod b)) [0 ..< b] = forE (f m) [0 ..< b]"
    by (rule ext, rule forE_cong) simp
  have step: "forE (\<lambda>q. f (q div b) (q mod b)) [0 ..< Suc m * b] s =
      bindE (forE (\<lambda>q. f (q div b) (q mod b)) [0 ..< m * b] s) (forE (f m) [0 ..< b])"
    unfolding idx forE_append forE_map row ..
  show ?case unfolding step forE_Suc using Suc.IH by simp
qed

lemma div_mod_less: "q < m * b \<Longrightarrow> q div b < m \<and> q mod b < b" for q :: nat
  by (metis less_mult_imp_div_less mod_less_divisor mult_0_right neq0_conv not_less_zero)

lemma index_less: "i < m \<Longrightarrow> j < b \<Longrightarrow> i * b + j < m * b" for i :: nat
proof -
  assume "i < m" and "j < b"
  then have "i * b + j < Suc i * b" by simp
  also have "\<dots> \<le> m * b" using \<open>i < m\<close> by (intro mult_right_mono) auto
  finally show ?thesis .
qed

text \<open>An array whose first \<open>q\<close> positions are filled.\<close>

definition filled :: "(nat \<Rightarrow> 'a) \<Rightarrow> nat \<Rightarrow> 'a list \<Rightarrow> 'a list" where
  "filled h q xs = map h [0 ..< q] @ drop q xs"

lemma filled_0: "filled h 0 xs = xs"
  by (simp add: filled_def)

lemma filled_all: "length xs = q \<Longrightarrow> filled h q xs = map h [0 ..< q]"
  by (simp add: filled_def)

lemma length_filled: "q \<le> length xs \<Longrightarrow> length (filled h q xs) = length xs"
  by (simp add: filled_def)

lemma filled_Suc:
  assumes "q < length xs"
  shows "(filled h q xs)[q := h q] = filled h (Suc q) xs"
proof -
  have "drop q xs = xs ! q # drop (Suc q) xs" by (rule Cons_nth_drop_Suc [OF assms, symmetric])
  then show ?thesis by (simp add: filled_def list_update_append)
qed

lemma forE_fill:
  assumes "\<And>q C. q < n \<Longrightarrow> length C = n \<Longrightarrow> f q C = Inr (C[q := h q])" and "length xs = n"
  shows "forE f [0 ..< n] xs = Inr (map h [0 ..< n])"
proof -
  have "forE f [0 ..< n] (filled h 0 xs) = Inr (filled h n xs)"
    by (rule forE_trace) (use assms in \<open>simp add: length_filled filled_Suc\<close>)
  then show ?thesis using assms(2) by (simp add: filled_0 filled_all)
qed

text \<open>A loop that appends to a text.\<close>

lemma forE_concat:
  assumes "\<And>i out. i < n \<Longrightarrow> f i out = Inr (out @ g i)"
  shows "forE f [0 ..< n] t = Inr (t @ concat (map g [0 ..< n]))"
proof -
  let ?h = "\<lambda>i. t @ concat (map g [0 ..< i])"
  have "f i (?h i) = Inr (?h (Suc i))" if "i < n" for i using assms [OF that] by simp
  from forE_trace [of n f ?h, OF this] show ?thesis by simp
qed

end
