(* ===== verification/C_Text.thy ===== *)
theory C_Text
  imports C_Prelude
begin

text \<open>
  The conversions of \<open>printf\<close> that the programs use, as functions into strings:
  \<open>%d\<close>, \<open>%u\<close>, \<open>%hu\<close> and \<open>%lu\<close> in decimal, \<open>%p\<close> in hexadecimal the way glibc
  writes it, \<open>%c\<close> and \<open>%s\<close>.  And reading numbers from text: \<open>strtoul\<close> and \<open>strtol\<close>
  with base 10, the conversion of a \<open>long\<close> to an \<open>int\<close>.  A number that is printed is read back.
\<close>

abbreviation nl :: string where "nl \<equiv> [CHR 0x0A]"
abbreviation tab :: string where "tab \<equiv> [CHR 0x09]"

section \<open>Numbers\<close>

definition digit_char :: "nat \<Rightarrow> char" where
  "digit_char d = char_of (if d < 10 then 48 + d else 87 + d)"

function show_base :: "nat \<Rightarrow> nat \<Rightarrow> string" where
  "show_base b n = (if n < b \<or> b < 2 then [digit_char n]
     else show_base b (n div b) @ [digit_char (n mod b)])"
  by auto

termination
  by (relation "measure snd") auto

declare show_base.simps [simp del]

definition show_nat :: "nat \<Rightarrow> string" where
  "show_nat n = show_base 10 n"

definition show_int :: "int \<Rightarrow> string" where
  "show_int x = (if x < 0 then CHR ''-'' # show_nat (nat (- x)) else show_nat (nat x))"

definition show_ptr :: "u64 \<Rightarrow> string" where
  "show_ptr p = (if p = 0 then ''(nil)'' else ''0x'' @ show_base 16 (unat p))"

text \<open>\<open>%d\<close> and \<open>%u\<close> of a word.\<close>

definition show_d :: "'a::len word \<Rightarrow> string" where
  "show_d w = show_int (sint w)"

definition show_u :: "'a::len word \<Rightarrow> string" where
  "show_u w = show_nat (unat w)"

section \<open>Reading back\<close>

definition char_digit :: "char \<Rightarrow> nat" where
  "char_digit c = (let n = of_char c in if n < 58 then n - 48 else n - 87)"

definition read_base :: "nat \<Rightarrow> string \<Rightarrow> nat" where
  "read_base b = foldl (\<lambda>acc c. b * acc + char_digit c) 0"

lemma char_digit_digit: "d < 16 \<Longrightarrow> char_digit (digit_char d) = d"
  by (auto simp: char_digit_def digit_char_def)

lemma read_show_base:
  assumes "2 \<le> b" and "b \<le> 16"
  shows "read_base b (show_base b n) = n"
proof (induction n rule: less_induct)
  case (less n)
  show ?case
  proof (cases "n < b")
    case True
    then show ?thesis using assms by (simp add: show_base.simps [of b n] read_base_def char_digit_digit)
  next
    case False
    then have "n div b < n" using assms by simp
    note IH = less [OF this]
    have "n mod b < b" using assms by simp
    then have "n mod b < 16" using assms(2) by (rule less_le_trans)
    then show ?thesis using False assms IH
      by (subst show_base.simps) (simp add: read_base_def char_digit_digit)
  qed
qed

lemma show_base_digits: "2 \<le> b \<Longrightarrow> set (show_base b n) \<subseteq> digit_char ` {..< b}"
proof (induction n rule: less_induct)
  case (less n)
  show ?case
  proof (cases "n < b")
    case False
    then have "n div b < n" using less.prems by simp
    then show ?thesis using less.IH [of "n div b"] less.prems False
      by (subst show_base.simps) auto
  qed (use less.prems in \<open>simp add: show_base.simps [of b n]\<close>)
qed

lemma read_show_nat: "read_base 10 (show_nat n) = n"
  unfolding show_nat_def by (rule read_show_base) simp_all

lemma show_nat_inj: "show_nat m = show_nat n \<longleftrightarrow> m = n"
  by (metis read_show_nat)

text \<open>A word below the sign bit is its unsigned value.\<close>

lemma sint_small:
  assumes "unat (w :: u32) < 2 ^ 31"
  shows "sint w = int (unat w)"
proof -
  have small: "signed_take_bit 31 (int n) = int n" if "n < 2 ^ 31" for n
    using that by (intro signed_take_bit_int_eq_self) auto
  have "sint w = signed_take_bit 31 (int (unat w))" unfolding sint_uint uint_nat by simp
  then show ?thesis using small [OF assms] by simp
qed

lemma show_digit: "d < 10 \<Longrightarrow> show_nat d = [digit_char d]"
  by (simp add: show_nat_def show_base.simps)

lemma digit_chars: "digit_char 0 = CHR ''0''" "digit_char 1 = CHR ''1''"
  by code_simp+

lemma concat_in: "x \<in> set xs \<Longrightarrow> \<exists>pre post. concat (map g xs) = pre @ g x @ post"
  by (metis concat_append concat.simps(2) list.map(2) map_append split_list)

section \<open>Reading numbers\<close>

text \<open>\<open>(unsigned) strtoul (cs, NULL, 10)\<close>.\<close>

definition dec_digit :: "char \<Rightarrow> nat option" where
  "dec_digit c = (let n = of_char c :: nat in if 48 \<le> n \<and> n \<le> 57 then Some (n - 48) else None)"

fun dec_value :: "nat \<Rightarrow> string \<Rightarrow> nat" where
  "dec_value acc [] = acc"
| "dec_value acc (c # cs) = (case dec_digit c of None \<Rightarrow> acc | Some d \<Rightarrow> dec_value (10 * acc + d) cs)"

definition strtoul10 :: "string \<Rightarrow> u64" where
  "strtoul10 cs0 =
    (let cs = dropWhile isspace cs0;
         neg = (cs \<noteq> [] \<and> hd cs = CHR ''-'');
         signed = (cs \<noteq> [] \<and> (hd cs = CHR ''-'' \<or> hd cs = CHR ''+''));
         val = dec_value 0 (if signed then tl cs else cs) in
     if 2 ^ 64 \<le> val then - 1 else if neg then - of_nat val else of_nat val)"

text \<open>\<open>strtol (cs, NULL, 10)\<close>, and what an \<open>int\<close> keeps of it.\<close>

definition strtol10 :: "string \<Rightarrow> int" where
  "strtol10 cs0 =
    (let cs = dropWhile isspace cs0;
         neg = (cs \<noteq> [] \<and> hd cs = CHR ''-'');
         signed = (cs \<noteq> [] \<and> (hd cs = CHR ''-'' \<or> hd cs = CHR ''+''));
         val = int (dec_value 0 (if signed then tl cs else cs)) in
     if neg then max (- (2 ^ 63)) (- val) else min (2 ^ 63 - 1) val)"

definition to_int :: "int \<Rightarrow> int" where
  "to_int x = sint (word_of_int x :: u32)"

text \<open>\<open>strtoul\<close> reads the number that \<open>show_nat\<close> prints.\<close>

lemma dec_digit_char: "d < 10 \<Longrightarrow> dec_digit (digit_char d) = Some d"
  by (auto simp: dec_digit_def digit_char_def Let_def)

lemma dec_value_snoc: "\<forall>c \<in> set cs. dec_digit c \<noteq> None \<Longrightarrow> d < 10 \<Longrightarrow>
    dec_value acc (cs @ [digit_char d]) = 10 * dec_value acc cs + d"
  by (induction cs arbitrary: acc) (auto simp: dec_digit_char)

lemma show_nat_decimal: "\<forall>c \<in> set (show_nat n). dec_digit c \<noteq> None"
  unfolding show_nat_def using show_base_digits [of 10 n] dec_digit_char by fastforce

lemma dec_value_show: "dec_value 0 (show_nat n) = n"
proof (induction n rule: less_induct)
  case (less n)
  show ?case
  proof (cases "n < 10")
    case True
    then show ?thesis by (simp add: show_nat_def show_base.simps [of 10 n] dec_digit_char)
  next
    case False
    then have e: "show_nat n = show_nat (n div 10) @ [digit_char (n mod 10)]"
      by (simp add: show_nat_def show_base.simps [of 10 n])
    show ?thesis unfolding e using False less [of "n div 10"]
      by (subst dec_value_snoc) (simp_all add: show_nat_decimal)
  qed
qed

lemma show_nat_Cons: "\<exists>c cs. show_nat n = c # cs"
  unfolding show_nat_def by (cases "show_base 10 n") (auto simp: show_base.simps [of 10 n] split: if_splits)

lemma strtoul10_show: "strtoul10 (show_nat n) = (if 2 ^ 64 \<le> n then - 1 else of_nat n)"
proof -
  obtain c cs where e: "show_nat n = c # cs" using show_nat_Cons by blast
  have c: "dec_digit c \<noteq> None" using show_nat_decimal [of n] e by simp
  then have "\<not> isspace c" "c \<noteq> CHR ''-''" "c \<noteq> CHR ''+''" by (auto simp: isspace_def dec_digit_def)
  then show ?thesis using dec_value_show [of n] by (simp add: strtoul10_def e Let_def)
qed

lemma strtol10_show: "strtol10 (show_nat n) = min (2 ^ 63 - 1) (int n)"
proof -
  obtain c cs where e: "show_nat n = c # cs" using show_nat_Cons by blast
  have c: "dec_digit c \<noteq> None" using show_nat_decimal [of n] e by simp
  then have "\<not> isspace c" "c \<noteq> CHR ''-''" "c \<noteq> CHR ''+''" by (auto simp: isspace_def dec_digit_def)
  then show ?thesis using dec_value_show [of n] by (simp add: strtol10_def e Let_def)
qed

lemma to_int_small: "- (2 ^ 31) \<le> x \<Longrightarrow> x < 2 ^ 31 \<Longrightarrow> to_int x = x"
  unfolding to_int_def by (simp add: signed_of_int signed_take_bit_int_eq_self)

lemma to_int_strtol_show: "n < 2 ^ 31 \<Longrightarrow> to_int (strtol10 (show_nat n)) = int n"
  using of_nat_less_iff [of n "2 ^ 31", where 'a = int] by (simp add: strtol10_show to_int_small min_def)

end
