(* ===== verification/Mem_Print.thy ===== *)
theory Mem_Print
  imports Mem_Main C_Loops C_Text
begin

text \<open>
  What sim.c prints: \<open>print_pagetbl\<close> and \<open>print_pagedirectory\<close> of pagetable.c, the
  options and the statistics of \<open>main\<close>.  The two dumps group the invalid entries in
  runs with a pair of variables; the lemmas say which text each entry stands for.
\<close>

section \<open>print_pagetbl and print_pagedirectory\<close>

text \<open>\<open>first_invalid\<close>, \<open>last_invalid\<close> and the text printed so far.\<close>

type_synonym dump_state = "int \<times> int \<times> string"

definition invalid_line :: "int \<Rightarrow> int \<Rightarrow> string" where
  "invalid_line a b = tab @ ''['' @ show_int a @ ''] - ['' @ show_int b @ '']: INVALID'' @ nl"

definition print_pte :: "sim \<Rightarrow> u64 \<Rightarrow> nat \<Rightarrow> dump_state \<Rightarrow> dump_state res" where
  "print_pte s pgtbl i = (\<lambda>(first_invalid, last_invalid, out).
    bindE (pte_read s (pgtbl, i)) (\<lambda>e.
    if \<not> pte_valid e \<and> \<not> pte_onswap e then
      Inr (if first_invalid = -1 then int i else first_invalid, int i, out)
    else
      let (first_invalid, last_invalid, out) =
            (if first_invalid \<noteq> -1 then (-1, -1, out @ invalid_line first_invalid last_invalid)
             else (first_invalid, last_invalid, out));
          out = out @ tab @ ''['' @ show_int (int i) @ '']: '' in
      if pte_valid e then
        Inr (first_invalid, last_invalid,
          out @ ''VALID, '' @ (if pte_dirty e then ''DIRTY, '' else '''') @
          ''in frame '' @ show_d (drop_bit PAGE_SHIFT (pt_frame e)) @ nl)
      else
        bindE (guardE Assert_Failed (pte_onswap e)) (\<lambda>_.
        Inr (first_invalid, last_invalid,
          out @ ''ONSWAP, at offset '' @ show_u (word_of_int (swap_off e) :: u64) @ nl))))"

definition print_pagetbl :: "sim \<Rightarrow> u64 \<Rightarrow> string res" where
  "print_pagetbl s pgtbl =
    bindE (forE (print_pte s pgtbl) [0 ..< PTRS_PER_PGTBL] (-1, -1, '''')) (\<lambda>(first_invalid, last_invalid, out).
    Inr (if first_invalid \<noteq> -1 then out @ invalid_line first_invalid last_invalid else out))"

definition invalid_range :: "int \<Rightarrow> int \<Rightarrow> string" where
  "invalid_range a b = ''['' @ show_int a @ '']: INVALID'' @ nl @ ''  to'' @ nl @ ''['' @ show_int b @ '']: INVALID'' @ nl"

definition print_pde :: "sim \<Rightarrow> nat \<Rightarrow> dump_state \<Rightarrow> dump_state res" where
  "print_pde s i = (\<lambda>(first_invalid, last_invalid, out).
    bindE (rd (pgdir s) i) (\<lambda>pde.
    if pde AND 1 = 0 then
      Inr (if first_invalid = -1 then int i else first_invalid, int i, out)
    else
      let (first_invalid, last_invalid, out) =
            (if first_invalid \<noteq> -1 then (-1, -1, out @ invalid_range first_invalid last_invalid)
             else (first_invalid, last_invalid, out));
          pgtbl = pde AND PAGE_MASK in
      bindE (print_pagetbl s pgtbl) (\<lambda>t.
      Inr (first_invalid, last_invalid, out @ ''['' @ show_int (int i) @ '']: '' @ show_ptr pgtbl @ nl @ t))))"

definition print_pagedirectory :: "sim \<Rightarrow> string res" where
  "print_pagedirectory s =
    bindE (forE (print_pde s) [0 ..< PTRS_PER_PGDIR] (-1, -1, '''')) (\<lambda>(_, _, out). Inr out)"

section \<open>main\<close>

text \<open>
  What \<open>main\<close> prints after the run: text, and the two rates, \<open>Rate a b\<close> for
  \<open>printf ("%.4f", (double) a / b * 100)\<close>.
\<close>

datatype piece = Text string | Rate nat nat

definition statistics :: "sim \<Rightarrow> piece list" where
  "statistics s =
    [Text (nl @ ''Hit count: '' @ show_nat (hit_count s) @ nl @
       ''Miss count: '' @ show_nat (miss_count s) @ nl @
       ''Clean evictions: '' @ show_nat (evict_clean_count s) @ nl @
       ''Dirty evictions: '' @ show_nat (evict_dirty_count s) @ nl @
       ''Total references : '' @ show_nat (ref_count s) @ nl @ ''Hit rate: ''),
     Rate (hit_count s) (ref_count s), Text (nl @ ''Miss rate: ''),
     Rate (miss_count s) (ref_count s), Text nl]"

text \<open>
  The loop over the options: \<open>opts\<close> is the sequence of results of \<open>getopt\<close> with the
  value of \<open>optarg\<close>, which is a parameter; a result other than the four letters is
  an option not known or without its argument.
\<close>

record options =
  o_tracefile :: "string option"
  o_memsize :: u32
  o_alg :: "string option"
  o_swapsize :: u32

fun read_options :: "(char \<times> string) list \<Rightarrow> options \<Rightarrow> options res" where
  "read_options [] opt = Inr opt"
| "read_options ((c, optarg) # opts) opt =
    (if c = CHR ''f'' then read_options opts (opt\<lparr>o_tracefile := Some optarg\<rparr>)
     else if c = CHR ''m'' then read_options opts (opt\<lparr>o_memsize := ucast (strtoul10 optarg)\<rparr>)
     else if c = CHR ''a'' then read_options opts (opt\<lparr>o_alg := Some optarg\<rparr>)
     else if c = CHR ''s'' then read_options opts (opt\<lparr>o_swapsize := ucast (strtoul10 optarg)\<rparr>)
     else Inl Exit_Failure)"

definition default_options :: options where
  "default_options = \<lparr>o_tracefile = None, o_memsize = 0, o_alg = None, o_swapsize = 4096\<rparr>"

text \<open>What a run finds outside: the standard input, the files, and what \<open>config\<close> holds besides.\<close>

record host =
  h_stdin :: string
  h_files :: "string \<Rightarrow> string option"
  h_mkstemp_ok :: bool
  h_mallocs :: "bool \<times> bool"
  h_physmem :: "u32 \<Rightarrow> u8 list"
  h_randoms :: "nat \<Rightarrow> nat"
  h_type :: char

definition config_of :: "host \<Rightarrow> options \<Rightarrow> config" where
  "config_of H opt = \<lparr>c_memsize = o_memsize opt, c_swapsize = o_swapsize opt, c_alg = o_alg opt,
     c_input = (case o_tracefile opt of None \<Rightarrow> Some (h_stdin H) | Some f \<Rightarrow> h_files H f),
     c_tracefile = (case o_tracefile opt of None \<Rightarrow> None | Some f \<Rightarrow> h_files H f),
     c_mkstemp_ok = h_mkstemp_ok H, c_mallocs = h_mallocs H, c_physmem = h_physmem H (o_memsize opt),
     c_randoms = h_randoms H, c_type = h_type H\<rparr>"

text \<open>\<open>swap_destroy\<close> closes and removes the swap file and frees the bitmap.\<close>

definition bitmap_destroy :: "bitmap \<Rightarrow> bitmap" where
  "bitmap_destroy b = b\<lparr>v := []\<rparr>"

definition swap_destroy :: "sim \<Rightarrow> sim" where
  "swap_destroy s = s\<lparr>swapfile := [], swapmap := bitmap_destroy (swapmap s)\<rparr>"

definition sim_program :: "os_env \<Rightarrow> host \<Rightarrow> (char \<times> string) list \<Rightarrow> (piece list \<times> sim) res" where
  "sim_program E H opts =
    bindE (read_options opts default_options) (\<lambda>opt.
    bindE (sim_main E (config_of H opt)) (\<lambda>s.
    bindE (print_pagedirectory s) (\<lambda>t.
    let s1 = swap_destroy s in
    Inr (Text t # statistics s1, s1))))"

section \<open>Runs of invalid entries\<close>

text \<open>The first index of the run of invalid entries that ends in \<open>i\<close>.\<close>

primrec gap_start :: "(nat \<Rightarrow> bool) \<Rightarrow> nat \<Rightarrow> nat" where
  "gap_start bad 0 = 0"
| "gap_start bad (Suc i) = (if bad i then gap_start bad i else Suc i)"

lemma gap_start_run:
  "gap_start bad i \<le> i" "gap_start bad i \<le> j \<Longrightarrow> j < i \<Longrightarrow> bad j"
  "gap_start bad i = 0 \<or> \<not> bad (gap_start bad i - 1)"
  by (induction i) (auto simp: less_Suc_eq split: if_splits)

text \<open>What entry \<open>i\<close> adds to the output: its line, or the run that ends in it.\<close>

definition item_text :: "(int \<Rightarrow> int \<Rightarrow> string) \<Rightarrow> (nat \<Rightarrow> bool) \<Rightarrow> (nat \<Rightarrow> string) \<Rightarrow> nat \<Rightarrow> string" where
  "item_text flush bad line i =
    (if \<not> bad i then line i
     else if \<not> bad (Suc i) then flush (int (gap_start bad i)) (int i) else '''')"

definition run_step :: "(int \<Rightarrow> int \<Rightarrow> string) \<Rightarrow> (nat \<Rightarrow> bool) \<Rightarrow> (nat \<Rightarrow> string) \<Rightarrow> nat \<Rightarrow> dump_state \<Rightarrow> dump_state" where
  "run_step flush bad line i = (\<lambda>(a, b, out).
    if bad i then (if a = -1 then int i else a, int i, out)
    else (-1, -1, (if a \<noteq> -1 then out @ flush a b else out) @ line i))"

definition run_state :: "(int \<Rightarrow> int \<Rightarrow> string) \<Rightarrow> (nat \<Rightarrow> bool) \<Rightarrow> (nat \<Rightarrow> string) \<Rightarrow> nat \<Rightarrow> dump_state" where
  "run_state flush bad line k =
    (if k = 0 \<or> \<not> bad (k - 1) then (-1, -1, concat (map (item_text flush bad line) [0 ..< k]))
     else (int (gap_start bad (k - 1)), int (k - 1), concat (map (item_text flush bad line) [0 ..< k - 1])))"

lemma run_step_state:
  "run_step flush bad line k (run_state flush bad line k) = run_state flush bad line (Suc k)"
  by (cases k) (auto simp: run_step_def run_state_def item_text_def)

lemma run_loop:
  assumes "\<And>i a b out. i < n \<Longrightarrow> (a = -1 \<longrightarrow> b = -1) \<Longrightarrow> f i (a, b, out) = Inr (run_step flush bad line i (a, b, out))"
  shows "forE f [0 ..< n] (-1, -1, '''') = Inr (run_state flush bad line n)"
proof -
  have "run_state flush bad line 0 = (-1, -1, '''')" by (simp add: run_state_def)
  moreover have "f i (run_state flush bad line i) = Inr (run_state flush bad line (Suc i))" if "i < n" for i
    using assms [OF that] by (auto simp: run_step_state [symmetric]) (simp add: run_state_def)
  ultimately show ?thesis using forE_trace [of n f "run_state flush bad line"] by simp
qed

section \<open>What is printed\<close>

definition entry_unused :: "sim \<Rightarrow> u64 \<Rightarrow> nat \<Rightarrow> bool" where
  "entry_unused s pgtbl i \<longleftrightarrow> i < PTRS_PER_PGTBL \<and>
     (case pgtbls s (pgtbl, i) of None \<Rightarrow> True | Some e \<Rightarrow> \<not> pte_valid e \<and> \<not> pte_onswap e)"

definition entry_line :: "nat \<Rightarrow> pgtbl_entry_t \<Rightarrow> string" where
  "entry_line i e = tab @ ''['' @ show_int (int i) @ '']: '' @
    (if pte_valid e then ''VALID, '' @ (if pte_dirty e then ''DIRTY, '' else '''') @
       ''in frame '' @ show_d (drop_bit PAGE_SHIFT (pt_frame e)) @ nl
     else ''ONSWAP, at offset '' @ show_u (word_of_int (swap_off e) :: u64) @ nl)"

definition table_text :: "sim \<Rightarrow> u64 \<Rightarrow> string" where
  "table_text s pgtbl = concat (map (item_text invalid_line (entry_unused s pgtbl)
     (\<lambda>i. entry_line i (the (pgtbls s (pgtbl, i))))) [0 ..< PTRS_PER_PGTBL])"

text \<open>The last run of the directory is not printed: index \<open>PTRS_PER_PGDIR\<close> counts as invalid.\<close>

definition dir_unused :: "sim \<Rightarrow> nat \<Rightarrow> bool" where
  "dir_unused s i \<longleftrightarrow> PTRS_PER_PGDIR \<le> i \<or> pgdir s ! i AND 1 = 0"

definition dir_line :: "sim \<Rightarrow> nat \<Rightarrow> string" where
  "dir_line s i = ''['' @ show_int (int i) @ '']: '' @ show_ptr (pgdir s ! i AND PAGE_MASK) @ nl @
     table_text s (pgdir s ! i AND PAGE_MASK)"

definition dir_text :: "sim \<Rightarrow> string" where
  "dir_text s = concat (map (item_text invalid_range (dir_unused s) (dir_line s)) [0 ..< PTRS_PER_PGDIR])"

lemma print_pte_step:
  assumes "pgtbls s (pgtbl, i) = Some e" and "i < PTRS_PER_PGTBL" and "a = -1 \<longrightarrow> b = -1"
  shows "print_pte s pgtbl i (a, b, out) = Inr (run_step invalid_line (entry_unused s pgtbl)
    (\<lambda>i. entry_line i (the (pgtbls s (pgtbl, i)))) i (a, b, out))"
  using assms by (auto simp: print_pte_def run_step_def pte_read_def entry_unused_def entry_line_def)

lemma print_pagetbl_text:
  assumes "\<forall>i < PTRS_PER_PGTBL. pgtbls s (pgtbl, i) \<noteq> None"
  shows "print_pagetbl s pgtbl = Inr (table_text s pgtbl)"
proof -
  let ?inv = "entry_unused s pgtbl" and ?line = "\<lambda>i. entry_line i (the (pgtbls s (pgtbl, i)))"
  let ?n = PTRS_PER_PGTBL
  have run: "forE (print_pte s pgtbl) [0 ..< ?n] (-1, -1, '''') = Inr (run_state invalid_line ?inv ?line ?n)"
    by (rule run_loop) (use assms print_pte_step in blast)
  have last: "\<not> ?inv ?n" by (simp add: entry_unused_def)
  have n: "?n = Suc (?n - 1)" by (simp add: PTRS_PER_PGTBL_def)
  have all: "[0 ..< ?n] = [0 ..< ?n - 1] @ [?n - 1]" by (subst n) simp
  show ?thesis
  proof (cases "?inv (?n - 1)")
    case True
    have "item_text invalid_line ?inv ?line (?n - 1) =
        invalid_line (int (gap_start ?inv (?n - 1))) (int (?n - 1))"
      using True last n by (simp add: item_text_def)
    moreover have "run_state invalid_line ?inv ?line ?n = (int (gap_start ?inv (?n - 1)), int (?n - 1),
        concat (map (item_text invalid_line ?inv ?line) [0 ..< ?n - 1]))"
      using True by (simp add: run_state_def PTRS_PER_PGTBL_def)
    moreover have "table_text s pgtbl = concat (map (item_text invalid_line ?inv ?line) [0 ..< ?n - 1]) @
        item_text invalid_line ?inv ?line (?n - 1)"
      unfolding table_text_def by (subst all) simp
    ultimately show ?thesis by (simp add: print_pagetbl_def run)
  next
    case False
    then have "run_state invalid_line ?inv ?line ?n = (-1, -1, table_text s pgtbl)"
      by (simp add: run_state_def table_text_def)
    then show ?thesis by (simp add: print_pagetbl_def run)
  qed
qed

lemma print_pagedirectory_text:
  assumes sz: "sizes_ok s" and dir: "dir_inv s"
  shows "print_pagedirectory s = Inr (dir_text s)"
proof -
  let ?n = PTRS_PER_PGDIR
  have step: "print_pde s i (a, b, out) = Inr (run_step invalid_range (dir_unused s) (dir_line s) i (a, b, out))"
    if "i < ?n" "a = -1 \<longrightarrow> b = -1" for i a b out
  proof (cases "pgdir s ! i AND 1 = 0")
    case False
    then have "\<forall>j < PTRS_PER_PGTBL. pgtbls s (pgdir s ! i AND PAGE_MASK, j) \<noteq> None"
      using dir that(1) by (simp add: dir_inv_def)
    then show ?thesis using False that sz print_pagetbl_text
      by (simp add: print_pde_def run_step_def dir_unused_def dir_line_def sizes_ok_def Let_def)
  qed (use that sz in \<open>simp add: print_pde_def run_step_def dir_unused_def sizes_ok_def\<close>)
  have run: "forE (print_pde s) [0 ..< ?n] (-1, -1, '''') = Inr (run_state invalid_range (dir_unused s) (dir_line s) ?n)"
    by (rule run_loop) (use step in blast)
  have n: "?n = Suc (?n - 1)" by (simp add: PTRS_PER_PGDIR_def)
  have all: "[0 ..< ?n] = [0 ..< ?n - 1] @ [?n - 1]" by (subst n) simp
  have "dir_unused s ?n" by (simp add: dir_unused_def)
  then have "snd (snd (run_state invalid_range (dir_unused s) (dir_line s) ?n)) = dir_text s"
    using n by (auto simp: run_state_def dir_text_def all item_text_def)
  then show ?thesis by (auto simp: print_pagedirectory_def run split: prod.splits)
qed

text \<open>The line of a page in memory.\<close>

definition page_line :: "nat \<Rightarrow> nat \<Rightarrow> string" where
  "page_line j f = tab @ ''['' @ show_int (int j) @ '']: VALID, DIRTY, in frame '' @ show_nat f @ nl"

lemma concat_part: "i < n \<Longrightarrow> \<exists>pre post. concat (map g [0 ..< n]) = pre @ g i @ post"
  by (rule concat_in) simp

lemma entry_line_page:
  assumes "pte_valid e" and "pte_dirty e" and "f < 2 ^ 19" and "pte_frame_no e = f"
  shows "entry_line j e = page_line j f"
proof -
  let ?w = "drop_bit PAGE_SHIFT (pt_frame e)"
  have u: "unat ?w = f" using assms(4) by (simp add: pte_frame_no_def)
  have "unat ?w < 2 ^ 31" using u assms(3) by simp
  then have "sint ?w = int f" using sint_small [of ?w] u by simp
  then have "show_d ?w = show_nat f" by (simp add: show_d_def show_int_def)
  then show ?thesis using assms(1,2) by (simp add: entry_line_def page_line_def)
qed

lemma page_listed:
  assumes inv: "vm_inv s" "dir_inv s" and x: "unat x < 2 ^ 36" and t: "translate s x = Some f"
  shows "\<exists>pre post. dir_text s = pre @ page_line (unat (PGTBL_INDEX x)) f @ post"
proof -
  define i j where "i = unat (PGDIR_INDEX x)" and "j = unat (PGTBL_INDEX x)"
  have i: "i < PTRS_PER_PGDIR" and j: "j < PTRS_PER_PGTBL"
    using PGDIR_INDEX_bound [OF x] PGTBL_INDEX_bound by (simp_all add: i_def j_def)
  let ?b = "pgdir s ! i AND PAGE_MASK"
  obtain q where q: "walk s x = Some q" "maps s q f" using t translate_iff by blast
  then have used: "pgdir s ! i AND 1 \<noteq> 0" and qe: "q = (?b, j)"
    by (auto simp: walk_def i_def j_def Let_def split: if_splits)
  obtain e where e: "pgtbls s (?b, j) = Some e" "pte_valid e" "pte_frame_no e = f"
    using q(2) qe by (auto simp: maps_def)
  have "f < memsize s" by (rule maps_bound [OF inv(1) q(2)])
  then have f: "f < 2 ^ 19" using inv(1) by (simp add: vm_inv_def sizes_ok_def)
  have d: "pte_dirty e" using inv(1) e by (simp add: vm_inv_def entries_ok_def entry_ok_def)
  let ?g = "item_text invalid_line (entry_unused s ?b) (\<lambda>i. entry_line i (the (pgtbls s (?b, i))))"
  have "?g j = page_line j f"
    using e entry_line_page [OF e(2) d f e(3), of j] by (simp add: item_text_def entry_unused_def)
  then obtain p1 q1 where 1: "table_text s ?b = p1 @ page_line j f @ q1"
    using concat_part [OF j, of ?g] unfolding table_text_def by metis
  have "item_text invalid_range (dir_unused s) (dir_line s) i = dir_line s i"
    using used i by (simp add: item_text_def dir_unused_def)
  then obtain p2 q2 where "dir_text s = p2 @ dir_line s i @ q2"
    using concat_part [OF i, of "item_text invalid_range (dir_unused s) (dir_line s)"] unfolding dir_text_def by metis
  then have "dir_text s = (p2 @ ''['' @ show_int (int i) @ '']: '' @ show_ptr ?b @ nl @ p1) @ page_line j f @ (q1 @ q2)"
    by (simp add: dir_line_def 1)
  then show ?thesis unfolding j_def by blast
qed

section \<open>The whole program\<close>

lemma swap_destroy_fields [simp]:
  "hit_count (swap_destroy s) = hit_count s" "miss_count (swap_destroy s) = miss_count s"
  "ref_count (swap_destroy s) = ref_count s" "evict_clean_count (swap_destroy s) = evict_clean_count s"
  "evict_dirty_count (swap_destroy s) = evict_dirty_count s"
  by (simp_all add: swap_destroy_def)

lemma statistics_destroy: "statistics (swap_destroy s) = statistics s"
  by (simp add: statistics_def)

lemma sim_program_run:
  assumes "read_options opts default_options = Inr opt" and "config_of H opt = cfg"
    and "config_ok cfg" "c_input cfg = Some bytes" "c_alg cfg = Some nm" and "memalign_ok E"
    and "nm \<in> {''rand'', ''lru'', ''fifo'', ''clock''}"
    and "\<forall>r \<in> set (trace_refs (c_type cfg, 0) bytes). page_addr (snd r)"
  shows "(sim_program E H opts = Inl Exit_Failure \<and> \<not> enough E cfg (trace_refs (c_type cfg, 0) bytes)) \<or>
    (\<exists>s. sim_program E H opts = Inr (Text (dir_text s) # statistics s, swap_destroy s) \<and>
       run_ok E cfg (trace_refs (c_type cfg, 0) bytes) s \<and>
       (\<forall>x f. unat x < 2 ^ 36 \<longrightarrow> translate s x = Some f \<longrightarrow>
          (\<exists>pre post. dir_text s = pre @ page_line (unat (PGTBL_INDEX x)) f @ post)))"
  using sim_main_run [OF assms(3-8)]
proof (elim disjE exE conjE)
  assume "sim_main E cfg = Inl Exit_Failure" "\<not> enough E cfg (trace_refs (c_type cfg, 0) bytes)"
  then show ?thesis using assms(1,2) by (simp add: sim_program_def)
next
  fix s
  assume s: "sim_main E cfg = Inr s" "run_ok E cfg (trace_refs (c_type cfg, 0) bytes) s"
    "vm_inv s" "dir_inv s" "swap_inv s"
  have "sizes_ok s" using s(3) by (simp add: vm_inv_def)
  then have "sim_program E H opts = Inr (Text (dir_text s) # statistics s, swap_destroy s)"
    using assms(1,2) s(1) print_pagedirectory_text [OF _ s(4)]
    by (simp add: sim_program_def statistics_destroy Let_def)
  then show ?thesis using s(2) page_listed [OF s(3,4)] by blast
qed

end
