(* ===== verification/Mem_Samples.thy ===== *)
theory Mem_Samples
  imports Mem_Opt_Run Mem_Print
begin

text \<open>
  Concrete states on which the properties of the memory simulator are tried: a
  configuration of one frame with a trace of one reference (\<open>sample_config\<close>), a
  memory of one frame that is full (\<open>one_page\<close>), a free frame with a page in the
  swap file (\<open>swapped_page\<close>), a trace of twelve references to five pages, after
  Belady (\<open>belady_trace\<close>), and two frames on the list of lru.c (\<open>two_frames\<close>).
\<close>

section \<open>Sample data\<close>

text \<open>The allocator places the tables at the multiples of the page size, lowest first.\<close>

definition table_base :: "nat \<Rightarrow> u64" where
  "table_base k = of_nat (4096 * Suc k)"

definition table_free :: "(pteptr \<rightharpoonup> pgtbl_entry_t) \<Rightarrow> nat \<Rightarrow> bool" where
  "table_free h k \<longleftrightarrow> list_all (\<lambda>i. h (table_base k, i) = None) [0 ..< PTRS_PER_PGTBL]"

definition sample_env :: os_env where
  "sample_env = \<lparr>posix_memalign = (\<lambda>h. map_option table_base (find (table_free h) [0 ..< PTRS_PER_PGDIR])),
     file_limit = 2 ^ 20, freed_readable = True, heap_limit = 100\<rparr>"

lemma table_base_aligned: "table_base k AND 0xFFF = 0"
proof -
  have "table_base k = push_bit 12 (of_nat (Suc k))" by (simp add: table_base_def push_bit_eq_mult algebra_simps)
  then show ?thesis by (simp add: fff_mask) (rule bit_word_eqI, simp add: bit_simps)
qed

lemma unat_table_base: "k < PTRS_PER_PGDIR \<Longrightarrow> unat (table_base k) = 4096 * Suc k"
  unfolding table_base_def unat_of_nat by (simp add: PTRS_PER_PGDIR_def)

lemma sample_env_ok: "memalign_ok sample_env"
  by (auto simp: memalign_ok_def sample_env_def list_all_iff table_free_def find_Some_iff table_base_aligned)

lemma sample_env_serves: "memalign_serves sample_env"
  unfolding memalign_serves_def
proof (intro allI impI)
  fix h :: "pteptr \<rightharpoonup> pgtbl_entry_t"
  assume few: "card (fst ` dom h) < PTRS_PER_PGDIR"
  have inj: "inj_on table_base {..< PTRS_PER_PGDIR}"
    by (rule inj_onI) (metis Suc_inject mult_cancel1 lessThan_iff unat_table_base zero_neq_numeral)
  have fin: "finite (fst ` dom h)" by simp
  obtain k where k: "k < PTRS_PER_PGDIR" "table_base k \<notin> fst ` dom h"
  proof (rule ccontr)
    assume "\<not> thesis"
    then have "table_base ` {..< PTRS_PER_PGDIR} \<subseteq> fst ` dom h" using that by auto
    from card_mono [OF fin this] show False using few card_image [OF inj] by simp
  qed
  have "h (table_base k, i) = None" for i
    using k(2) by (metis domI fst_conv image_eqI not_None_eq)
  then have "table_free h k" by (simp add: table_free_def list_all_iff)
  then have "find (table_free h) [0 ..< PTRS_PER_PGDIR] \<noteq> None" using k(1) by (auto simp: find_None_iff)
  then show "posix_memalign sample_env h \<noteq> None" by (auto simp: sample_env_def)
qed

definition sample_config :: config where
  "sample_config = \<lparr>c_memsize = 1, c_swapsize = 8, c_alg = Some ''fifo'',
     c_input = Some ''S 1000'', c_tracefile = Some ''S 1000'', c_mkstemp_ok = True,
     c_mallocs = (True, True), c_physmem = replicate 16 0, c_randoms = (\<lambda>_. 0), c_type = CHR ''L''\<rparr>"

lemma sample_config_ok: "config_ok sample_config"
  by (simp add: config_ok_def sample_config_def SIMPAGESIZE_def)

lemma fgets_last_line: "length cs < n \<Longrightarrow> CHR 0x0A \<notin> set cs \<Longrightarrow> fgets n cs = (cs, [])"
proof (induction n cs rule: fgets.induct)
  case (1 n c cs)
  then show ?case by auto
qed (auto simp: neq_Nil_conv)

lemma sample_scan: "sscanf_ref ''S 1000'' (CHR ''L'', 0) = (CHR ''S'', 0x1000)"
  by (simp add: sscanf_ref_def c_string_def scan_lx_def isspace_def strip_0x_def hex_digit_def Let_def)

lemma sample_refs: "trace_refs (CHR ''L'', 0) ''S 1000'' = [(CHR ''S'', 0x1000)]"
  using fgets_last_line [of "''S 1000''" MAXLINE] sample_scan by (simp add: MAXLINE_def Let_def)

lemma sample_config_fields:
  "c_input sample_config = Some ''S 1000''" "c_alg sample_config = Some ''fifo''" "c_type sample_config = CHR ''L''"
  by (simp_all add: sample_config_def)

lemma sample_config_refs: "trace_refs (c_type sample_config, 0) ''S 1000'' = [(CHR ''S'', 0x1000)]"
  unfolding sample_config_fields by (rule sample_refs)

lemma sample_run_enough: "enough sample_env sample_config [(CHR ''S'', 0x1000)]"
  by (simp add: enough_def sample_env_serves) (simp add: sample_env_def sample_config_def SIMPAGESIZE_def)

text \<open>The same run with opt.\<close>

definition opt_config :: config where
  "opt_config = sample_config\<lparr>c_alg := Some ''opt''\<rparr>"

lemma opt_config_fields:
  "config_ok opt_config" "c_input opt_config = Some ''S 1000''" "c_tracefile opt_config = Some ''S 1000''"
  "c_alg opt_config = Some ''opt''" "c_type opt_config = CHR ''L''"
proof -
  show "config_ok opt_config" using sample_config_ok unfolding config_ok_def opt_config_def by simp
qed (simp_all add: opt_config_def sample_config_def)

lemma sample_opt_lines: "count_lines ''S 1000'' = 1" "opt_addrs (CHR ''L'', 0) ''S 1000'' = [0x1000]"
proof -
  have f: "fgets OPT_BUFFER ''S 1000'' = (''S 1000'', [])" by (rule fgets_last_line) (simp_all add: OPT_BUFFER_def)
  show "count_lines ''S 1000'' = 1" "opt_addrs (CHR ''L'', 0) ''S 1000'' = [0x1000]"
    using f sample_scan by (simp_all add: replace_newline_char_def Let_def)
qed

text \<open>A trace with a page that is used twice.\<close>

abbreviation two_uses :: string where
  "two_uses \<equiv> ''S 1000'' @ CHR 0x0A # ''L 2000'' @ CHR 0x0A # ''L 1000''"

lemma fgets_to_newline: "length l + 1 < n \<Longrightarrow> CHR 0x0A \<notin> set l \<Longrightarrow> fgets n (l @ CHR 0x0A # cs) = (l @ [CHR 0x0A], cs)"
proof (induction l arbitrary: n)
  case Nil
  then obtain m where "n = Suc (Suc m)" by (cases n; cases "n - 1") auto
  then show ?case by simp
next
  case (Cons c l)
  then obtain m where "n = Suc (Suc m)" by (cases n; cases "n - 1") auto
  then show ?case using Cons by auto
qed

lemma two_uses_addrs: "opt_addrs (CHR ''L'', 0) two_uses = [0x1000, 0x2000, 0x1000]"
proof -
  have 1: "fgets OPT_BUFFER two_uses = (''S 1000'' @ [CHR 0x0A], ''L 2000'' @ CHR 0x0A # ''L 1000'')"
    by (rule fgets_to_newline) (simp_all add: OPT_BUFFER_def)
  have 2: "fgets OPT_BUFFER (''L 2000'' @ CHR 0x0A # ''L 1000'') = (''L 2000'' @ [CHR 0x0A], ''L 1000'')"
    by (rule fgets_to_newline) (simp_all add: OPT_BUFFER_def)
  have 3: "fgets OPT_BUFFER ''L 1000'' = (''L 1000'', [])" by (rule fgets_last_line) (simp_all add: OPT_BUFFER_def)
  have s: "sscanf_ref ''S 1000'' (CHR ''L'', 0) = (CHR ''S'', 0x1000)" "sscanf_ref ''L 2000'' (CHR ''S'', 0x1000) = (CHR ''L'', 0x2000)"
    "sscanf_ref ''L 1000'' (CHR ''L'', 0x2000) = (CHR ''L'', 0x1000)"
    by (simp_all add: sscanf_ref_def c_string_def scan_lx_def isspace_def strip_0x_def hex_digit_def Let_def)
  show ?thesis using 1 2 3 s by (simp add: replace_newline_char_def Let_def)
qed

definition page_entry :: pgtbl_entry_t where
  "page_entry = \<lparr>pt_frame = 7, swap_off = INVALID_SWAP\<rparr>"

definition one_page :: sim where
  "one_page = (alloc_globals sample_config)\<lparr>
     coremap := [\<lparr>in_use = True, fpte = Some (0x10000, 1), fnext = None, fprev = None\<rparr>],
     pgtbls := [(0x10000, 1) \<mapsto> page_entry], miss_count := 1, ref_count := 1,
     lru_head := Some 0, lru_tail := Some 0, swapmap := \<lparr>nbits = 0, v = []\<rparr>\<rparr>"

lemma page_entry_bits: "pte_valid page_entry" "pte_dirty page_entry" "pte_ref page_entry"
  "\<not> pte_onswap page_entry" "pte_frame_no page_entry = 0"
  by (simp_all add: page_entry_def pte_valid_def pte_dirty_def pte_ref_def pte_onswap_def PG_VALID_def
      PG_DIRTY_def PG_REF_def PG_ONSWAP_def pte_frame_no_def PAGE_SHIFT_def)

lemma one_page_fields:
  "memsize one_page = 1" "used_frames one_page = {0}" "pgtbls one_page = [(0x10000, 1) \<mapsto> page_entry]"
  "physmem one_page = replicate 16 0" "pgdir one_page = replicate PTRS_PER_PGDIR 0"
  "swapmap one_page = \<lparr>nbits = 0, v = []\<rparr>"
  by (auto simp: one_page_def memsize_def used_frames_def alloc_globals_def sample_config_def)

lemma one_page_maps: "maps one_page p f \<longleftrightarrow> p = (0x10000, 1) \<and> f = 0"
  using page_entry_bits by (auto simp: maps_def one_page_fields)

lemma one_page_holds: "holds one_page f p \<longleftrightarrow> p = (0x10000, 1) \<and> f = 0"
  by (auto simp: holds_def one_page_fields) (simp_all add: one_page_def)

lemma one_page_inv: "vm_inv one_page" "dir_inv one_page" "swap_inv one_page" "stats_inv one_page"
proof -
  show "vm_inv one_page" using page_entry_bits
    by (auto simp: vm_inv_def one_page_maps one_page_holds frames_ok_def one_page_fields entries_ok_def
        entry_ok_def sizes_ok_def SIMPAGESIZE_def)
  show "dir_inv one_page" by (simp add: dir_inv_def one_page_fields)
  show "swap_inv one_page"
    by (auto simp: swap_inv_def one_page_fields slot_of_def page_entry_def bm_wf_def split: if_splits)
  show "stats_inv one_page" unfolding stats_inv_def one_page_fields by (simp add: one_page_def alloc_globals_def)
qed

lemma one_page_content: "content_inv one_page"
  by (simp add: content_inv_def translate_def walk_def one_page_fields Let_def PGDIR_INDEX_bound page_addr_def)

lemma one_page_tracks:
  "rand_tracks one_page {0}" "fifo_tracks one_page {0}" "clock_tracks one_page {0}" "lru_tracks one_page {0}"
proof -
  show "rand_tracks one_page {0}" "fifo_tracks one_page {0}" "clock_tracks one_page {0}"
    by (simp_all add: rand_tracks_def fifo_tracks_def clock_tracks_def one_page_fields)
      (simp_all add: one_page_def alloc_globals_def)
  have "lru_rep one_page [0]"
    by (simp add: lru_rep_def lru_list_def one_page_fields nxt_def prv_def) (simp add: one_page_def)
  then show "lru_tracks one_page {0}" unfolding lru_tracks_def by fastforce
qed

lemma sample_page_addr: "page_addr 0x1000" "page_addr 0x2000"
  by (simp_all add: page_addr_def)

text \<open>One free frame, and the page 0x1000 with a copy of version 1 in slot 0 of the swap file.\<close>

definition saved_entry :: pgtbl_entry_t where
  "saved_entry = \<lparr>pt_frame = 0, swap_off = 0\<rparr>"

definition swapped_page :: sim where
  "swapped_page = (alloc_globals sample_config)\<lparr>
     pgdir := (replicate PTRS_PER_PGDIR 0)[0 := 0x10001],
     pgtbls := (\<lambda>(b, i). if b = 0x10000 \<and> i < PTRS_PER_PGTBL
                 then Some (if i = 1 then saved_entry else fresh_pte) else None),
     swapmap := \<lparr>nbits = 32, v = [1]\<rparr>,
     swapfile := store_le 4 (1 :: u32) @ store_le 8 (0x1000 :: u64) @ replicate 4 0\<rparr>"

lemma swapped_page_fields:
  "memsize swapped_page = 1" "used_frames swapped_page = {}" "swapmap swapped_page = \<lparr>nbits = 32, v = [1]\<rparr>"
  "pgdir swapped_page = (replicate PTRS_PER_PGDIR 0)[0 := 0x10001]"
  "coremap swapped_page = [zero_frame]" "physmem swapped_page = replicate 16 0"
  by (auto simp: swapped_page_def memsize_def used_frames_def alloc_globals_def sample_config_def zero_frame_def)

lemma swapped_page_entry: "pgtbls swapped_page (b, i) =
    (if b = 0x10000 \<and> i < PTRS_PER_PGTBL then Some (if i = 1 then saved_entry else fresh_pte) else None)"
  by (simp add: swapped_page_def)

lemma swapped_page_dir: "i < PTRS_PER_PGDIR \<Longrightarrow> pgdir swapped_page ! i = (if i = 0 then 0x10001 else 0)"
  by (simp add: swapped_page_fields nth_list_update)

lemma swapped_page_mask: "0x10001 AND PAGE_MASK = 0x10000" "(0x10001 :: u64) AND 1 = 1"
  by (simp_all add: PAGE_MASK_def)

lemma saved_entry_bits: "\<not> pte_valid saved_entry" "\<not> pte_onswap saved_entry" "swap_off saved_entry = 0"
  by (simp_all add: saved_entry_def pte_valid_def pte_onswap_def)

lemma swapped_page_slot: "slot_of swapped_page p = (if p = (0x10000, 1) then Some 0 else None)"
  by (cases p) (auto simp: slot_of_def swapped_page_entry saved_entry_bits fresh_pte_flags INVALID_SWAP_def PTRS_PER_PGTBL_def)

lemma swapped_page_maps: "\<not> maps swapped_page p f"
  by (cases p) (auto simp: maps_def swapped_page_entry saved_entry_bits fresh_pte_flags split: if_splits)

lemma sample_bitmap: "bm_wf \<lparr>nbits = 32, v = [1]\<rparr>" "used \<lparr>nbits = 32, v = [1]\<rparr> = {0}"
  by (auto simp: bm_wf_def used_def bit_at_def bit_1_word)

lemma swapped_page_inv: "sim_inv fifo_tracks swapped_page" "content_inv swapped_page"
proof -
  have "vm_inv swapped_page" using swapped_page_maps
    by (auto simp: vm_inv_def holds_def frames_ok_def entries_ok_def entry_ok_def sizes_ok_def SIMPAGESIZE_def
        swapped_page_fields zero_frame_def swapped_page_entry saved_entry_bits fresh_pte_flags split: if_splits)
  moreover have "dir_inv swapped_page"
  proof -
    have z: "i = 0" if "i < PTRS_PER_PGDIR" "pgdir swapped_page ! i AND 1 \<noteq> 0" for i
      using swapped_page_dir [OF that(1)] that(2) by (cases "i = 0") simp_all
    have e: "pgtbls swapped_page (pgdir swapped_page ! 0 AND PAGE_MASK, j) \<noteq> None" if "j < PTRS_PER_PGTBL" for j
      using that swapped_page_dir [of 0] unfolding swapped_page_entry
      by (simp add: swapped_page_mask PTRS_PER_PGDIR_def)
    show ?thesis unfolding dir_inv_def
    proof (intro conjI allI impI)
      fix i j assume "i < PTRS_PER_PGDIR" "pgdir swapped_page ! i AND 1 \<noteq> 0" "j < PTRS_PER_PGTBL"
      then show "pgtbls swapped_page (pgdir swapped_page ! i AND PAGE_MASK, j) \<noteq> None" using z e by blast
    next
      fix i j assume "i < PTRS_PER_PGDIR" "j < PTRS_PER_PGDIR" "pgdir swapped_page ! i AND 1 \<noteq> 0"
        "pgdir swapped_page ! j AND 1 \<noteq> 0"
      then have "i = 0" "j = 0" using z by blast+
      then show "i = j" by simp
    qed
  qed
  moreover have "swap_inv swapped_page"
    unfolding swap_inv_def swapped_page_fields swapped_page_slot sample_bitmap(2)
    using sample_bitmap(1) by (simp add: slot_off_def)
  moreover have "stats_inv swapped_page" unfolding stats_inv_def swapped_page_fields
    by (simp add: swapped_page_def alloc_globals_def)
  moreover have "fifo_tracks swapped_page (used_frames swapped_page)"
    unfolding fifo_tracks_def swapped_page_fields by (simp add: swapped_page_def alloc_globals_def)
  ultimately show "sim_inv fifo_tracks swapped_page" by (simp add: sim_inv_def)
  show "content_inv swapped_page" using swapped_page_maps by (simp add: content_inv_def translate_iff)
qed

lemma swapped_page_supplied: "supplied sample_env swapped_page"
proof -
  have "tables_inv swapped_page" unfolding tables_inv_def
  proof (rule subsetI)
    fix b assume "b \<in> fst ` dom (pgtbls swapped_page)"
    then have "b = 0x10000" by (auto simp: swapped_page_entry split: if_splits)
    moreover have "pgdir swapped_page ! 0 = 0x10001" by (simp add: swapped_page_dir PTRS_PER_PGDIR_def)
    ultimately show "b \<in> (\<lambda>i. pgdir swapped_page ! i AND PAGE_MASK) `
        {i. i < PTRS_PER_PGDIR \<and> pgdir swapped_page ! i AND 1 \<noteq> 0}"
      by (intro image_eqI [of _ _ 0]) (simp_all add: swapped_page_mask PTRS_PER_PGDIR_def)
  qed
  moreover have "can_store sample_env swapped_page"
    by (simp add: can_store_def swapped_page_maps swapped_page_fields sample_env_def SIMPAGESIZE_def)
  ultimately show ?thesis by (simp add: supplied_def sample_env_serves)
qed

text \<open>The reference of that page runs to its end.\<close>

lemma swapped_page_runs:
  "\<exists>s'. access_mem sample_env fifo_ref fifo_evict CHR ''L'' 0x1000 swapped_page = Inr s'"
  using fifo.access_mem_ok [OF swapped_page_inv sample_env_ok sample_page_addr(1)]
    fifo.access_mem_supply [OF swapped_page_inv(1) sample_env_ok sample_page_addr(1) swapped_page_supplied]
  by blast

text \<open>The four algorithms that keep the contract, with their invariants.\<close>

definition contract_algs :: "(ref_fun \<times> evict_fun \<times> (sim \<Rightarrow> nat set \<Rightarrow> bool)) set" where
  "contract_algs = {(rand_ref, rand_evict, rand_tracks), (lru_ref, lru_evict, lru_tracks),
     (fifo_ref, fifo_evict, fifo_tracks), (clock_ref, clock_evict, clock_tracks)}"

lemma contract_algs_replacement: "(r, e, tr) \<in> contract_algs \<Longrightarrow> replacement r e tr"
  using rand.replacement_axioms lru.replacement_axioms fifo.replacement_axioms clock.replacement_axioms
  by (auto simp: contract_algs_def)

text \<open>Two frames on the list of lru.c.\<close>

definition two_frames :: sim where
  "two_frames = one_page\<lparr>coremap :=
     [\<lparr>in_use = True, fpte = Some (0x10000, 1), fnext = Some 1, fprev = None\<rparr>,
      \<lparr>in_use = True, fpte = Some (0x10000, 2), fnext = None, fprev = Some 0\<rparr>],
     lru_head := Some 0, lru_tail := Some 1\<rparr>"

lemma two_frames_ok: "lru_rep two_frames [0, 1]" "pgtbls two_frames (0x10000, 1) = Some page_entry"
  "memsize two_frames = 2" "holds two_frames 0 (0x10000, 1)" "maps two_frames (0x10000, 1) 0"
proof -
  have m: "memsize two_frames = 2" by (simp add: two_frames_def memsize_def)
  show "memsize two_frames = 2" by (rule m)
  show "lru_rep two_frames [0, 1]" unfolding lru_rep_def lru_list_def m nxt_def prv_def
    by (simp add: two_frames_def) auto
  show e: "pgtbls two_frames (0x10000, 1) = Some page_entry" by (simp add: two_frames_def one_page_fields)
  show "holds two_frames 0 (0x10000, 1)" unfolding holds_def m by (simp add: two_frames_def)
  show "maps two_frames (0x10000, 1) 0" using e page_entry_bits by (simp add: maps_def)
qed

text \<open>A call of the program with the options of \<open>sample_config\<close>.\<close>

definition sample_host :: host where
  "sample_host = \<lparr>h_stdin = '''', h_files = [''tr'' \<mapsto> ''S 1000''], h_mkstemp_ok = True, h_mallocs = (True, True),
     h_physmem = (\<lambda>_. replicate 16 0), h_randoms = (\<lambda>_. 0), h_type = CHR ''L''\<rparr>"

definition sample_opts :: "(char \<times> string) list" where
  "sample_opts = [(CHR ''f'', ''tr''), (CHR ''m'', ''1''), (CHR ''s'', ''8''), (CHR ''a'', ''fifo'')]"

lemma sample_options: "read_options sample_opts default_options =
    Inr \<lparr>o_tracefile = Some ''tr'', o_memsize = 1, o_alg = Some ''fifo'', o_swapsize = 8\<rparr>"
  by (simp add: sample_opts_def default_options_def strtoul10_def isspace_def dec_digit_def Let_def)

lemma sample_config_of:
  "config_of sample_host \<lparr>o_tracefile = Some ''tr'', o_memsize = 1, o_alg = Some ''fifo'', o_swapsize = 8\<rparr> = sample_config"
  by (simp add: config_of_def sample_host_def sample_config_def)

text \<open>Twelve references to five pages, a line each.\<close>

definition page_line_of :: "char \<Rightarrow> string" where
  "page_line_of c = ''L '' @ c # ''000'' @ [CHR 0x0A]"

definition page_of :: "char \<Rightarrow> u64" where
  "page_of c = of_nat (4096 * (of_char c - 48))"

definition belady_trace :: string where
  "belady_trace = concat (map page_line_of ''123412512345'')"

definition belady_config :: "string \<Rightarrow> nat \<Rightarrow> config" where
  "belady_config alg m = sample_config\<lparr>c_memsize := of_nat m, c_alg := Some alg,
     c_input := Some belady_trace, c_tracefile := Some belady_trace, c_physmem := replicate (16 * m) 0\<rparr>"

lemma page_line_scan:
  assumes "c \<in> set ''12345''"
  shows "sscanf_ref (page_line_of c) old = (CHR ''L'', page_of c)"
proof -
  have "scan_lx ('' '' @ c # ''000'' @ [CHR 0x0A]) = Some (page_of c)"
  proof -
    consider "c = CHR ''1''" | "c = CHR ''2''" | "c = CHR ''3''" | "c = CHR ''4''" | "c = CHR ''5''" using assms by auto
    then show ?thesis
      by cases (simp_all add: page_of_def scan_lx_def isspace_def strip_0x_def hex_digit_def Let_def)
  qed
  moreover have "c_string (page_line_of c) = CHR ''L'' # '' '' @ c # ''000'' @ [CHR 0x0A]"
    using assms by (auto simp: c_string_def page_line_of_def)
  ultimately show ?thesis by (simp add: sscanf_ref_def)
qed

text \<open>The same line as \<open>opt_init\<close> reads it.\<close>

lemma page_line_addr:
  assumes "c \<in> set ''12345''"
  shows "opt_addrs old (page_line_of c @ rest) = page_of c # opt_addrs (CHR ''L'', page_of c) rest"
proof -
  have f: "fgets OPT_BUFFER (page_line_of c @ rest) = (page_line_of c, rest)"
  proof -
    have "fgets OPT_BUFFER ((''L '' @ c # ''000'') @ CHR 0x0A # rest) = ((''L '' @ c # ''000'') @ [CHR 0x0A], rest)"
      by (rule fgets_to_newline) (use assms in \<open>auto simp: OPT_BUFFER_def\<close>)
    then show ?thesis by (simp add: page_line_of_def del: fgets.simps)
  qed
  have sc: "sscanf_ref (replace_newline_char (page_line_of c)) old = (CHR ''L'', page_of c)"
  proof -
    consider "c = CHR ''1''" | "c = CHR ''2''" | "c = CHR ''3''" | "c = CHR ''4''" | "c = CHR ''5''" using assms by auto
    then show ?thesis
      by cases (simp_all add: page_of_def page_line_of_def replace_newline_char_def sscanf_ref_def c_string_def scan_lx_def
          isspace_def strip_0x_def hex_digit_def Let_def)
  qed
  obtain cs where cs: "page_line_of c = CHR ''L'' # cs" by (simp add: page_line_of_def)
  show ?thesis using f sc unfolding cs by (simp add: Let_def del: fgets.simps)
qed

lemma page_lines_addrs:
  "set cs \<subseteq> set ''12345'' \<Longrightarrow> opt_addrs old (concat (map page_line_of cs)) = map page_of cs"
  by (induction cs arbitrary: old) (simp_all add: page_line_addr del: opt_addrs.simps(2))

lemma page_line_refs:
  assumes "c \<in> set ''12345''"
  shows "trace_refs old (page_line_of c @ rest) = (CHR ''L'', page_of c) # trace_refs (CHR ''L'', page_of c) rest"
proof -
  have f: "fgets MAXLINE (page_line_of c @ rest) = (page_line_of c, rest)"
  proof -
    have "fgets MAXLINE ((''L '' @ c # ''000'') @ CHR 0x0A # rest) = ((''L '' @ c # ''000'') @ [CHR 0x0A], rest)"
      by (rule fgets_to_newline) (use assms in \<open>auto simp: MAXLINE_def\<close>)
    then show ?thesis by (simp add: page_line_of_def del: fgets.simps)
  qed
  obtain cs where cs: "page_line_of c = CHR ''L'' # cs" by (simp add: page_line_of_def)
  show ?thesis using f page_line_scan [OF assms, of old] unfolding cs by (simp add: Let_def del: fgets.simps)
qed

lemma page_lines_refs:
  "set cs \<subseteq> set ''12345'' \<Longrightarrow>
    trace_refs old (concat (map page_line_of cs)) = map (\<lambda>c. (CHR ''L'', page_of c)) cs"
  by (induction cs arbitrary: old) (simp_all add: page_line_refs del: trace_refs.simps(2))

lemma belady_refs:
  "trace_refs old belady_trace = map (\<lambda>c. (CHR ''L'', page_of c)) ''123412512345''"
  "run_refs (belady_config alg m) belady_trace =
    [0x1000, 0x2000, 0x3000, 0x4000, 0x1000, 0x2000, 0x5000, 0x1000, 0x2000, 0x3000, 0x4000, 0x5000]"
proof -
  show r: "trace_refs old belady_trace = map (\<lambda>c. (CHR ''L'', page_of c)) ''123412512345''" for old
    unfolding belady_trace_def by (rule page_lines_refs) simp
  show "run_refs (belady_config alg m) belady_trace =
    [0x1000, 0x2000, 0x3000, 0x4000, 0x1000, 0x2000, 0x5000, 0x1000, 0x2000, 0x3000, 0x4000, 0x5000]"
    unfolding run_refs_def r by (simp add: page_of_def)
qed

lemma belady_addrs: "opt_addrs old belady_trace = run_refs (belady_config alg m) belady_trace" "count_lines belady_trace = 12"
proof -
  have a: "opt_addrs old belady_trace = map page_of ''123412512345''" for old
    unfolding belady_trace_def by (rule page_lines_addrs) simp
  show "opt_addrs old belady_trace = run_refs (belady_config alg m) belady_trace"
    unfolding a run_refs_def belady_refs(1) by simp
  show "count_lines belady_trace = 12" using length_opt_addrs [of "(CHR ''L'', 0)" belady_trace] unfolding a by simp
qed

lemma belady_pages: "\<forall>x \<in> set (run_refs (belady_config alg m) belady_trace). page_addr x"
  unfolding belady_refs by (simp add: page_addr_def)

lemma belady_config_fields:
  "c_input (belady_config alg m) = Some belady_trace" "c_alg (belady_config alg m) = Some alg"
  "m \<in> {1 .. 100} \<Longrightarrow> config_ok (belady_config alg m)" "m \<in> {1 .. 100} \<Longrightarrow> unat (c_memsize (belady_config alg m)) = m"
proof -
  show "m \<in> {1 .. 100} \<Longrightarrow> unat (c_memsize (belady_config alg m)) = m"
    by (simp add: belady_config_def unat_of_nat)
  then show "m \<in> {1 .. 100} \<Longrightarrow> config_ok (belady_config alg m)"
    by (simp add: config_ok_def) (simp add: belady_config_def sample_config_def SIMPAGESIZE_def)
qed (simp_all add: belady_config_def)

lemma belady_enough:
  assumes "m \<in> {1 .. 100}"
  shows "enough sample_env (belady_config alg m) (trace_refs (c_type (belady_config alg m), 0) belady_trace)"
proof -
  let ?rs = "trace_refs (c_type (belady_config alg m), 0) belady_trace"
  have p: "snd ` set ?rs = set (run_refs (belady_config alg m) belady_trace)" by (simp add: run_refs_def)
  have c: "set (run_refs (belady_config alg m) belady_trace) = {0x1000, 0x2000, 0x3000, 0x4000, 0x5000}"
    unfolding belady_refs(2) by auto
  show ?thesis unfolding enough_def p c
    by (simp add: sample_env_serves) (simp add: sample_env_def belady_config_def sample_config_def SIMPAGESIZE_def)
qed

text \<open>With three frames seven misses are enough.\<close>

lemma belady_paging: "\<exists>M. paging False 3 (run_refs (belady_config alg 3) belady_trace) {} 7 M"
proof -
  have n: "Suc (Suc (Suc (Suc (Suc (Suc (Suc 0)))))) = 7" by simp
  have 4: "insert (0x4000 :: u64) ({0x3000, 0x2000, 0x1000} - {0x3000}) = {0x4000, 0x2000, 0x1000}" by auto
  have 5: "insert (0x5000 :: u64) ({0x4000, 0x2000, 0x1000} - {0x4000}) = {0x5000, 0x2000, 0x1000}" by auto
  have 3: "insert (0x3000 :: u64) ({0x5000, 0x2000, 0x1000} - {0x1000}) = {0x3000, 0x5000, 0x2000}" by auto
  have 6: "insert (0x4000 :: u64) ({0x3000, 0x5000, 0x2000} - {0x2000}) = {0x4000, 0x3000, 0x5000}" by auto
  note rep = paging.replace [where far = False and m = 3]
  let ?p = "paging False 3" and ?M = "{0x4000, 0x3000, 0x5000} :: u64 set"
  have "?p [0x4000, 0x5000] {0x3000, 0x5000, 0x2000} (Suc 0) ?M"
    by (rule rep [where y = "0x2000"]) (simp_all add: 6 paging.hit paging.stop)
  then have "?p [0x3000, 0x4000, 0x5000] {0x5000, 0x2000, 0x1000} (Suc (Suc 0)) ?M"
    by - (rule rep [where y = "0x1000"], simp_all add: 3)
  then have "?p [0x5000, 0x1000, 0x2000, 0x3000, 0x4000, 0x5000] {0x4000, 0x2000, 0x1000} (Suc (Suc (Suc 0))) ?M"
    by - (rule rep [where y = "0x4000"], simp_all add: 5 paging.hit)
  then have "?p [0x4000, 0x1000, 0x2000, 0x5000, 0x1000, 0x2000, 0x3000, 0x4000, 0x5000] {0x3000, 0x2000, 0x1000}
      (Suc (Suc (Suc (Suc 0)))) ?M"
    by - (rule rep [where y = "0x3000"], simp_all add: 4 paging.hit)
  then have "?p [0x1000, 0x2000, 0x3000, 0x4000, 0x1000, 0x2000, 0x5000, 0x1000, 0x2000, 0x3000, 0x4000, 0x5000] {}
      (Suc (Suc (Suc (Suc (Suc (Suc (Suc 0))))))) ?M"
    by (simp add: paging.fill)
  then show ?thesis unfolding belady_refs(2) n by blast
qed

lemma belady_runs:
  assumes "m \<in> {1 .. 100}" and "alg \<in> {''lru'', ''fifo''}"
  obtains s where "sim_main sample_env (belady_config alg m) = Inr s"
proof -
  let ?rs = "trace_refs (c_type (belady_config alg m), 0) belady_trace"
  have "enough sample_env (belady_config alg m) ?rs" by (rule belady_enough [OF assms(1)])
  moreover have "\<forall>r \<in> set ?rs. page_addr (snd r)" using belady_pages [of alg m] by (simp add: run_refs_def)
  ultimately show thesis
    using sim_main_run [OF belady_config_fields(3) [OF assms(1)] belady_config_fields(1,2) sample_env_ok, of alg] assms(2) that
    by blast
qed

end
