(* ===== verification/Mem_Props.thy ===== *)
theory Mem_Props
  imports Mem_Samples
begin

text \<open>
  The properties of the memory simulator, each with an instance on a state of
  \<open>Mem_Samples\<close>.
\<close>

lemma neq_lessThanI: "x < n \<Longrightarrow> x \<notin> A \<Longrightarrow> A \<noteq> {..< n}" for n :: nat
  by blast

section \<open>Properties of the whole simulator\<close>

text \<open>C1: A run of the simulator with one of the algorithms rand, lru, fifo or clock on a
  trace of page-aligned addresses below 2^36 completes with consistent statistics, unless
  the system has no memory for a page table, the trace has more pages than the swap file has
  slots or the file cannot grow to hold them, and the run then may end in \<open>exit(1)\<close>: no page was found
  with wrong contents, every reference was counted once, as a hit or as a miss, no
  eviction was clean, the misses are the frames in use plus the evictions, and page tables,
  frames, directory and swap slots agree.\<close>

theorem sim_main_statistics:
  assumes "config_ok cfg" and "c_input cfg = Some bytes" and "c_alg cfg = Some nm" and "memalign_ok E"
    and "nm \<in> {''rand'', ''lru'', ''fifo'', ''clock''}"
    and "\<forall>r \<in> set (trace_refs (c_type cfg, 0) bytes). page_addr (snd r)"
  shows "(sim_main E cfg = Inl Exit_Failure \<and> \<not> enough E cfg (trace_refs (c_type cfg, 0) bytes)) \<or>
    (\<exists>s. sim_main E cfg = Inr s \<and> run_ok E cfg (trace_refs (c_type cfg, 0) bytes) s \<and>
       vm_inv s \<and> dir_inv s \<and> swap_inv s)"
  using assms by (rule sim_main_run)

theorem sim_main_statistics_witness:
  "\<exists>s. sim_main sample_env sample_config = Inr s \<and>
     run_ok sample_env sample_config [(CHR ''S'', 0x1000)] s \<and> vm_inv s \<and> dir_inv s \<and> swap_inv s"
  using sim_main_statistics [of sample_config "''S 1000''" "''fifo''" sample_env,
      OF sample_config_ok sample_config_fields(1,2) sample_env_ok] sample_run_enough
  unfolding sample_config_refs by (simp add: sample_page_addr)

text \<open>C3: A run with \<open>lru\<close> or \<open>fifo\<close> is a run of a queue of pages. The reference \<open>cache_step\<close> is a list of
  at most \<open>memsize\<close> pages, in which a page that is used is moved to the end (\<open>lru\<close>) or left (\<open>fifo\<close>), and a
  page that is not there is put at the end, in place of the first when the list is full. The simulator, with
  its page tables, frames, linked list or frame counter, and swap file, counts as many misses as the
  reference on the addresses of the trace, and has the same pages in memory at the end.\<close>

theorem sim_main_simulates_cache:
  assumes "config_ok cfg" and "c_input cfg = Some bytes" and "c_alg cfg = Some nm" and "memalign_ok E"
    and "nm \<in> {''lru'', ''fifo''}" and "\<forall>x \<in> set (run_refs cfg bytes). page_addr x"
    and "sim_main E cfg = Inr s"
  shows "miss_count s = cache_misses (nm = ''lru'') (unat (c_memsize cfg)) [] (run_refs cfg bytes) \<and>
    (\<forall>x. page_addr x \<longrightarrow> translate s x \<noteq> None \<longleftrightarrow>
       x \<in> set (foldl (cache_step (nm = ''lru'') (unat (c_memsize cfg))) [] (run_refs cfg bytes)))"
  using assms by (rule sim_main_cache)

text \<open>The instance is Belady's anomaly: with \<open>fifo\<close>, four frames miss once more than three.\<close>

theorem sim_main_simulates_cache_witness:
  "\<exists>s t. sim_main sample_env (belady_config ''fifo'' 3) = Inr s \<and> miss_count s = 9 \<and>
    sim_main sample_env (belady_config ''fifo'' 4) = Inr t \<and> miss_count t = 10"
proof -
  have m: "miss_count s = cache_misses False m [] (run_refs (belady_config ''fifo'' m) belady_trace)"
    if "sim_main sample_env (belady_config ''fifo'' m) = Inr s" "m \<in> {1 .. 100}" for m s
    using sim_main_simulates_cache [OF belady_config_fields(3) belady_config_fields(1,2) sample_env_ok _ belady_pages that(1)]
      that(2) belady_config_fields(4) by simp
  obtain s where s: "sim_main sample_env (belady_config ''fifo'' 3) = Inr s" by (rule belady_runs [of 3 "''fifo''"]) simp_all
  obtain t where t: "sim_main sample_env (belady_config ''fifo'' 4) = Inr t" by (rule belady_runs [of 4 "''fifo''"]) simp_all
  have "miss_count s = 9" using m [OF s] unfolding belady_refs(2) by (simp add: cache_step_def use_page_def touch_def)
  moreover have "miss_count t = 10" using m [OF t] unfolding belady_refs(2) by (simp add: cache_step_def use_page_def touch_def)
  ultimately show ?thesis using s t by blast
qed

text \<open>C16: With \<open>lru\<close> more memory never hurts: on the same trace, the run with more frames has at most as many
  misses and at least as many hits, and every page that is in memory at the end of the run with fewer frames
  is in memory at the end of the run with more.\<close>

theorem lru_more_memory_fewer_misses:
  assumes "config_ok cfg" and "config_ok cfg'" and "more_memory cfg cfg'" and "memalign_ok E"
    and "c_input cfg = Some bytes" and "c_alg cfg = Some ''lru''"
    and "\<forall>x \<in> set (run_refs cfg bytes). page_addr x"
    and "sim_main E cfg = Inr s" and "sim_main E cfg' = Inr s'"
  shows "miss_count s' \<le> miss_count s \<and> hit_count s \<le> hit_count s' \<and>
    (\<forall>x. page_addr x \<longrightarrow> translate s x \<noteq> None \<longrightarrow> translate s' x \<noteq> None)"
  using assms by (rule lru_more_memory)

theorem lru_more_memory_fewer_misses_witness:
  "\<exists>s t. sim_main sample_env (belady_config ''lru'' 3) = Inr s \<and>
    sim_main sample_env (belady_config ''lru'' 4) = Inr t \<and> miss_count t \<le> miss_count s"
proof -
  obtain s where s: "sim_main sample_env (belady_config ''lru'' 3) = Inr s" by (rule belady_runs [of 3 "''lru''"]) simp_all
  obtain t where t: "sim_main sample_env (belady_config ''lru'' 4) = Inr t" by (rule belady_runs [of 4 "''lru''"]) simp_all
  have "more_memory (belady_config ''lru'' 3) (belady_config ''lru'' 4)"
    by (simp add: more_memory_def belady_config_def)
  then show ?thesis
    using lru_more_memory_fewer_misses [OF belady_config_fields(3) belady_config_fields(3) _ sample_env_ok
        belady_config_fields(1,2) belady_pages s t] s t by auto
qed

text \<open>C14: The program as a whole, from the options to what it prints: with one of the four algorithms
  and a trace of page-aligned addresses it prints the page directory and the statistics of a
  consistent run, and the text has the line of every page in memory with its frame; it ends in
  \<open>exit(1)\<close> only when the system has no memory for it or the swap file is too small.\<close>

theorem sim_program_prints:
  assumes "read_options opts default_options = Inr opt" and "config_of H opt = cfg"
    and "config_ok cfg" and "c_input cfg = Some bytes" and "c_alg cfg = Some nm" and "memalign_ok E"
    and "nm \<in> {''rand'', ''lru'', ''fifo'', ''clock''}"
    and "\<forall>r \<in> set (trace_refs (c_type cfg, 0) bytes). page_addr (snd r)"
  shows "(sim_program E H opts = Inl Exit_Failure \<and> \<not> enough E cfg (trace_refs (c_type cfg, 0) bytes)) \<or>
    (\<exists>s. sim_program E H opts = Inr (Text (dir_text s) # statistics s, swap_destroy s) \<and>
       run_ok E cfg (trace_refs (c_type cfg, 0) bytes) s \<and>
       (\<forall>x f. unat x < 2 ^ 36 \<longrightarrow> translate s x = Some f \<longrightarrow>
          (\<exists>pre post. dir_text s = pre @ page_line (unat (PGTBL_INDEX x)) f @ post)))"
  using assms by (rule sim_program_run)

theorem sim_program_prints_witness:
  "\<exists>s. sim_program sample_env sample_host sample_opts = Inr (Text (dir_text s) # statistics s, swap_destroy s) \<and>
     run_ok sample_env sample_config [(CHR ''S'', 0x1000)] s"
  using sim_program_prints [OF sample_options sample_config_of sample_config_ok sample_config_fields(1,2) sample_env_ok]
    sample_run_enough
  unfolding sample_config_refs by (auto simp: sample_page_addr)

text \<open>\<open>print_pagetbl\<close> on a table: an entry in use prints its line, the last entry of a maximal run of
  unused ones prints the run, with the index it started at, and the others print nothing; it
  does not fail. The pair of variables of the loop computes just that.\<close>

theorem print_pagetbl_groups:
  assumes "\<forall>i < PTRS_PER_PGTBL. pgtbls s (b, i) \<noteq> None"
  shows "print_pagetbl s b = Inr (concat (map (\<lambda>i.
      if \<not> entry_unused s b i then entry_line i (the (pgtbls s (b, i)))
      else if \<not> entry_unused s b (Suc i) then invalid_line (int (gap_start (entry_unused s b) i)) (int i)
      else '''') [0 ..< PTRS_PER_PGTBL])) \<and>
    (\<forall>i. entry_unused s b i \<longrightarrow> gap_start (entry_unused s b) i \<le> i \<and>
      (\<forall>j. gap_start (entry_unused s b) i \<le> j \<and> j \<le> i \<longrightarrow> entry_unused s b j) \<and>
      (gap_start (entry_unused s b) i = 0 \<or> \<not> entry_unused s b (gap_start (entry_unused s b) i - 1)))"
proof
  show "print_pagetbl s b = Inr (concat (map (\<lambda>i.
      if \<not> entry_unused s b i then entry_line i (the (pgtbls s (b, i)))
      else if \<not> entry_unused s b (Suc i) then invalid_line (int (gap_start (entry_unused s b) i)) (int i)
      else '''') [0 ..< PTRS_PER_PGTBL]))"
    using print_pagetbl_text [OF assms] by (simp add: table_text_def item_text_def [abs_def])
qed (use gap_start_run [of "entry_unused s b"] in \<open>auto simp: le_less\<close>)

theorem print_pagetbl_groups_witness:
  "\<exists>t. print_pagetbl swapped_page 0x10000 = Inr t"
  using print_pagetbl_groups [of swapped_page "0x10000"] by (auto simp: swapped_page_entry)

text \<open>C4: \<open>access_mem\<close> with any of the four algorithms, seen from the program: the page
  referenced is in memory afterwards, in the frame it was in or in one that was free
  (or any, when all were used), the page that had that frame is gone, the version
  counter is the old one, 0 for a page that was not in memory, plus 1 for a write, no
  other page changes, and the content check does not fire.\<close>

theorem access_mem_contract:
  assumes "(ref_fcn, evict_fcn, tracks) \<in> contract_algs" and "sim_inv tracks s" and "content_inv s"
    and "memalign_ok E" and "page_addr x"
  shows "(access_mem E ref_fcn evict_fcn ty x s = Inl Exit_Failure \<and> \<not> supplied E s) \<or>
    (\<exists>s'. access_mem E ref_fcn evict_fcn ty x s = Inr s' \<and> sim_inv tracks s' \<and> accessed s ty x s')"
  using assms(1) replacement.access_mem_ok [OF contract_algs_replacement assms(2-5)]
    replacement.access_mem_supply [OF contract_algs_replacement assms(2,4,5)] by blast

theorem access_mem_contract_witness:
  "\<exists>s'. access_mem sample_env fifo_ref fifo_evict CHR ''S'' 0x1000 swapped_page = Inr s' \<and>
     sim_inv fifo_tracks s' \<and> accessed swapped_page CHR ''S'' 0x1000 s'"
  using access_mem_contract [OF _ swapped_page_inv sample_env_ok sample_page_addr(1), of fifo_ref fifo_evict]
    swapped_page_supplied by (simp add: contract_algs_def)

text \<open>C5: \<open>find_physpage\<close> with any of the four algorithms and any address below 2^36: it ends
  in \<open>exit(1)\<close>, only when memory for a table or a slot of the swap file is wanting, or returns the frame the page is mapped to, keeps every invariant of the
  page tables, frames, swap file and statistics, and is a hit that changes no page and no
  mapping, or a miss that fills one frame and, when no frame was free, first writes the
  page that had it to its slot of the swap file.\<close>

theorem find_physpage_contract:
  assumes "(ref_fcn, evict_fcn, tracks) \<in> contract_algs" and "sim_inv tracks s" and "memalign_ok E"
    and "unat vaddr < 2 ^ 36"
  shows "(find_physpage E ref_fcn evict_fcn vaddr ty s = Inl Exit_Failure \<and> \<not> supplied E s) \<or>
    (\<exists>p f s'. find_physpage E ref_fcn evict_fcn vaddr ty s = Inr (f * SIMPAGESIZE, s') \<and>
       sim_inv tracks s' \<and> walk_grows s s' \<and> walk s' vaddr = Some p \<and> maps s' p f \<and>
       (hit_result s p f s' \<or> miss_result E s vaddr p f s'))"
  using replacement.find_physpage_ok [OF contract_algs_replacement [OF assms(1)] assms(2-4), of ty]
    replacement.find_physpage_supply(1) [OF contract_algs_replacement [OF assms(1)] assms(2-4)]
  unfolding supplied_def by blast

theorem find_physpage_contract_witness:
  "\<exists>p f s'. find_physpage sample_env fifo_ref fifo_evict 0x1000 CHR ''L'' swapped_page =
       Inr (f * SIMPAGESIZE, s') \<and> sim_inv fifo_tracks s' \<and> walk_grows swapped_page s' \<and>
     walk s' 0x1000 = Some p \<and> maps s' p f \<and>
     (hit_result swapped_page p f s' \<or> miss_result sample_env swapped_page 0x1000 p f s')"
  using find_physpage_contract [OF _ swapped_page_inv(1) sample_env_ok, of fifo_ref fifo_evict "0x1000" "CHR ''L''"]
    swapped_page_supplied by (simp add: contract_algs_def)

text \<open>The loop of \<open>replay_trace\<close> is \<open>access_mem\<close> on the references of the trace in order, for
  every input, algorithm and state; in particular it ends on every input.\<close>

theorem replay_trace_is_fold:
  "replay_trace E ref_fcn evict_fcn old cs s = access_all E ref_fcn evict_fcn (trace_refs old cs) s"
  by (rule replay_trace_refs)

text \<open>C35: A page that is not in memory starts again with version 0, even when it was written
  before and its contents are in a slot of the swap file: no page is ever read back.
  (The code never sets PG_ONSWAP on a page that is evicted.)\<close>

theorem evicted_page_is_lost:
  assumes "(ref_fcn, evict_fcn, tracks) \<in> contract_algs" and "sim_inv tracks s" and "content_inv s"
    and "memalign_ok E" and "page_addr x" and "mem_view s x = None"
    and "access_mem E ref_fcn evict_fcn CHR ''L'' x s = Inr s'"
  shows "\<exists>f. mem_view s' x = Some (f, 0)"
proof -
  have "accessed s CHR ''L'' x s'"
    using replacement.access_mem_ok [OF contract_algs_replacement [OF assms(1)] assms(2-5), of "CHR ''L''"] assms(7)
    by auto
  then show ?thesis using assms(6) by (auto simp: accessed_def place_def new_version_def old_version_def is_write_def)
qed

theorem evicted_page_is_lost_witness:
  "slot_of swapped_page (0x10000, 1) = Some 0 \<and>
   (\<exists>s' f. access_mem sample_env fifo_ref fifo_evict CHR ''L'' 0x1000 swapped_page = Inr s' \<and>
      mem_view s' 0x1000 = Some (f, 0))"
proof -
  obtain s' where run: "access_mem sample_env fifo_ref fifo_evict CHR ''L'' 0x1000 swapped_page = Inr s'"
    using swapped_page_runs by blast
  have "mem_view swapped_page 0x1000 = None"
    using swapped_page_maps by (simp add: mem_view_def translate_None)
  moreover have "(fifo_ref, fifo_evict, fifo_tracks) \<in> contract_algs" by (simp add: contract_algs_def)
  ultimately have "\<exists>f. mem_view s' 0x1000 = Some (f, 0)"
    by (intro evicted_page_is_lost [OF _ swapped_page_inv sample_env_ok sample_page_addr(1) _ run])
  with run show ?thesis by (auto simp: swapped_page_slot)
qed

section \<open>Properties of the replacement algorithms\<close>

text \<open>\<open>lru_ref\<close> moves the frame of the page referenced to the end of the recency list, in
  each of its cases: new page, only page, head, middle, tail.\<close>

theorem lru_ref_moves_to_end:
  assumes "lru_rep s xs" and "pgtbls s p = Some e" and "pte_frame_no e = n" "n < memsize s"
  shows "\<exists>s'. lru_ref p s = Inr s' \<and> core s' = core s \<and> lru_rep s' (touch n xs)"
  using assms by (rule lru_ref_ok)

theorem lru_ref_moves_to_end_witness:
  "\<exists>s'. lru_ref (0x10000, 1) two_frames = Inr s' \<and> core s' = core two_frames \<and> lru_rep s' [1, 0]"
  using lru_ref_moves_to_end [OF two_frames_ok(1,2) page_entry_bits(5)] two_frames_ok(3) by (simp add: touch_def)

text \<open>\<open>lru_evict\<close> returns the least recently used frame, the first of the recency list, and
  removes it from the list.\<close>

theorem lru_evict_takes_oldest:
  assumes "lru_rep s (h # xs)" and "holds s h p" and "maps s p h"
  shows "\<exists>s'. lru_evict s = Inr (int h, s') \<and> core s' = core s \<and> lru_rep s' xs"
  using assms by (rule lru_evict_ok)

theorem lru_evict_takes_oldest_witness:
  "\<exists>s'. lru_evict two_frames = Inr (0, s') \<and> core s' = core two_frames \<and> lru_rep s' [1]"
  using lru_evict_takes_oldest [OF two_frames_ok(1,4,5)] by simp

text \<open>C15: \<open>clock_evict\<close> with every frame in use ends within memsize + 1 rounds and is second
  chance: with \<open>d\<close> referenced frames after the hand and then one that is not (or with all
  referenced), it returns the frame \<open>d\<close> places on, and the frames passed over, and no
  others, have lost their reference bit.\<close>

theorem clock_second_chance:
  assumes "vm_inv s" and "used_frames s = {..< memsize s}" and "d \<le> memsize s"
    and "\<forall>j < d. frame_ref s (ring s j)" and "d = memsize s \<or> \<not> frame_ref s (ring s d)"
  shows "\<exists>s'. clock_evict s = Inr (int (ring s d), s') \<and> core s' = core s \<and>
    oldest_page s' = int (ring s d) \<and>
    (\<forall>g < memsize s. frame_ref s' g \<longleftrightarrow> frame_ref s g \<and> g \<notin> ring s ` {..< d})"
  unfolding clock_evict_def by (rule clock_scan_ok) (use assms in \<open>auto simp: hand_ok_def\<close>)

theorem clock_second_chance_witness:
  "\<exists>s'. clock_evict one_page = Inr (0, s') \<and> \<not> frame_ref s' 0"
proof -
  have "frame_ref one_page (ring one_page 0)"
    using page_entry_bits by (simp add: ring_def one_page_fields frame_ref_def) (simp add: one_page_def)
  then show ?thesis
    using clock_second_chance [of one_page 1, OF one_page_inv(1)] by (auto simp: one_page_fields ring_def)
qed

text \<open>After \<open>fifo_init\<close> the frames are evicted in the order 0, 1, ..., memsize - 1, 0, 1, ...\<close>

theorem fifo_cycles:
  assumes "0 < memsize s"
  shows "\<exists>s'. evictions fifo_evict n (fifo_init s) = Inr (map (\<lambda>k. int (k mod memsize s)) [0 ..< n], s')"
proof -
  have m: "memsize (fifo_init s) = memsize s" "fifo_evict_g (fifo_init s) = -1"
    by (simp_all add: fifo_init_def memsize_def)
  obtain s' where "evictions fifo_evict n (fifo_init s) =
      Inr (map (\<lambda>k. (fifo_evict_g (fifo_init s) + 1 + int k) mod int (memsize (fifo_init s))) [0 ..< n], s')"
    using fifo_evictions_from [of "fifo_init s" n] assms m by auto
  then show ?thesis by (simp add: m zmod_int)
qed

theorem fifo_cycles_witness:
  "\<exists>s'. evictions fifo_evict 3 (fifo_init one_page) = Inr ([0, 0, 0], s')"
  using fifo_cycles [of one_page 3] by (simp add: one_page_fields upt_conv_Cons)

text \<open>C17: A run with opt makes Belady's choices. The trace is read twice with buffers of different
  length; both must see the same addresses, and blocks that were freed must still be readable (C38).
  Then a run ends in \<open>exit(1)\<close> only for want of tables or slots, and otherwise it is demand paging
  on the trace in which every page evicted is, of all pages then in memory, one whose next use is latest:
  same misses, same pages in memory at the end. No demand paging of the trace with as many frames,
  whatever it evicts, has fewer misses.\<close>

theorem opt_run_is_belady:
  assumes "config_ok cfg" "c_input cfg = Some bytes" "c_tracefile cfg = Some bytes" "c_alg cfg = Some ''opt''"
    and "memalign_ok E" "freed_readable E" "count_lines bytes \<le> heap_limit E"
    and "opt_addrs (c_type cfg, 0) bytes = run_refs cfg bytes" "\<forall>x \<in> set (run_refs cfg bytes). page_addr x"
  shows "(sim_main E cfg = Inl Exit_Failure \<and> \<not> enough E cfg (trace_refs (c_type cfg, 0) bytes)) \<or>
    (\<exists>s M. sim_main E cfg = Inr s \<and> run_ok E cfg (trace_refs (c_type cfg, 0) bytes) s \<and>
      paging True (unat (c_memsize cfg)) (run_refs cfg bytes) {} (miss_count s) M \<and>
      (\<forall>x. page_addr x \<longrightarrow> translate s x \<noteq> None \<longleftrightarrow> x \<in> M) \<and>
      (\<forall>k M'. paging False (unat (c_memsize cfg)) (run_refs cfg bytes) {} k M' \<longrightarrow> miss_count s \<le> k))"
  using sim_main_opt [OF assms] farthest_is_optimal [OF _ _ finite.emptyI] by blast

theorem opt_run_is_belady_witness:
  "\<exists>s. sim_main sample_env (belady_config ''opt'' 3) = Inr s \<and> hit_count s + miss_count s = 12 \<and> miss_count s \<le> 7"
proof -
  let ?c = "belady_config ''opt'' 3"
  have c: "config_ok ?c" "unat (c_memsize ?c) = 3" "c_tracefile ?c = Some belady_trace"
    using belady_config_fields(3,4) [of 3 "''opt''"] by simp_all (simp add: belady_config_def)
  have e: "freed_readable sample_env" "count_lines belady_trace \<le> heap_limit sample_env"
    by (simp_all add: belady_addrs(2) sample_env_def)
  obtain s where s: "sim_main sample_env ?c = Inr s" "run_ok sample_env ?c (trace_refs (c_type ?c, 0) belady_trace) s"
    "\<forall>k M'. paging False 3 (run_refs ?c belady_trace) {} k M' \<longrightarrow> miss_count s \<le> k"
    using opt_run_is_belady [OF c(1) belady_config_fields(1) c(3) belady_config_fields(2) sample_env_ok e belady_addrs(1) belady_pages]
      belady_enough [of 3 "''opt''"] unfolding c(2) by auto
  have "hit_count s + miss_count s = 12" using s(2) by (simp add: run_ok_def belady_refs(1))
  then show ?thesis using s(1,3) belady_paging by blast
qed

text \<open>C18: \<open>opt_init\<close> reads the trace in advance. Afterwards the reference string has for each
  line the node of its address, the same node for the same address however the addresses
  collide in the hash map, and the node carries the positions of all lines with this address, in
  order.\<close>

theorem opt_init_records_uses:
  assumes "0 < memsize s" "vnodes s = []" "onodes s = []" and "count_lines cs \<le> heap_limit E"
  shows "\<exists>s'. opt_init E old (Some cs) s = Inr s' \<and> recorded (opt_addrs old cs) s' \<and> core s' = core s"
  by (rule opt_init_records [OF assms])

theorem opt_init_records_uses_witness:
  "\<exists>s' i. opt_init sample_env (CHR ''L'', 0) (Some two_uses) (alloc_globals sample_config) = Inr s' \<and>
    reference_string s' ! 0 = Some i \<and> reference_string s' ! 2 = Some i \<and> use_list (onodes s') (occurance_head (vnodes s' ! i)) [0, 2]"
proof -
  have "count_lines two_uses = 3" using length_opt_addrs [of "(CHR ''L'', 0)" two_uses] unfolding two_uses_addrs by simp
  then obtain s' where s': "opt_init sample_env (CHR ''L'', 0) (Some two_uses) (alloc_globals sample_config) = Inr s'"
    "recorded [0x1000, 0x2000, 0x1000] s'"
    using opt_init_records_uses [of "alloc_globals sample_config" two_uses sample_env "(CHR ''L'', 0)"]
    unfolding two_uses_addrs by (auto simp: alloc_globals_def memsize_def sample_config_def sample_env_def)
  let ?as = "[0x1000, 0x2000, 0x1000] :: u64 list"
  have "\<forall>p < length ?as. \<forall>q < length ?as. reference_string s' ! p = reference_string s' ! q \<longleftrightarrow> ?as ! p = ?as ! q"
    using s'(2) unfolding recorded_def by blast
  then have r: "reference_string s' ! 0 = reference_string s' ! 2" by simp
  have "\<forall>p < length ?as. \<exists>i < length (vnodes s'). reference_string s' ! p = Some i \<and> virtual_addr (vnodes s' ! i) = ?as ! p \<and>
      frame_number (vnodes s' ! i) = -1 \<and>
      use_list (onodes s') (occurance_head (vnodes s' ! i)) (map int (filter (\<lambda>q. ?as ! q = ?as ! p) [0 ..< length ?as]))"
    using s'(2) unfolding recorded_def by blast
  then obtain i where i: "reference_string s' ! 0 = Some i"
    "use_list (onodes s') (occurance_head (vnodes s' ! i)) (map int (filter (\<lambda>q. ?as ! q = ?as ! 0) [0 ..< length ?as]))"
    by (metis length_greater_0_conv list.distinct(1))
  have "[0 ..< length ?as] = [0, 1, 2]" by (simp add: upt_rec)
  then have u: "map int (filter (\<lambda>q. ?as ! q = ?as ! 0) [0 ..< length ?as]) = [0, 2]" by (simp only:) simp
  show ?thesis using s'(1) r i(1) i(2) [unfolded u] by metis
qed

text \<open>C38: The program with opt on a trace with at least one reference: \<open>opt_init\<close> succeeds, the page
  gets a frame, and then \<open>opt_ref\<close> reads the list node it has just freed. On a system where freed
  memory is not readable every run ends there.\<close>

theorem opt_run_use_after_free:
  assumes "config_ok cfg" "c_input cfg = Some bytes" "c_tracefile cfg = Some bytes" "c_alg cfg = Some ''opt''"
    and "memalign_ok E" "memalign_serves E" "\<not> freed_readable E" "count_lines bytes \<le> heap_limit E"
    and "trace_refs (c_type cfg, 0) bytes = r # rs" "page_addr (snd r)"
  shows "sim_main E cfg = Inl Use_After_Free"
  by (rule opt_run_freed [OF assms])

theorem opt_run_use_after_free_witness:
  "sim_main (sample_env\<lparr>freed_readable := False\<rparr>) opt_config = Inl Use_After_Free"
proof (rule opt_run_use_after_free [OF opt_config_fields(1-4)])
  show "memalign_ok (sample_env\<lparr>freed_readable := False\<rparr>)" "memalign_serves (sample_env\<lparr>freed_readable := False\<rparr>)"
    using sample_env_ok sample_env_serves by (simp_all add: memalign_ok_def memalign_serves_def)
  show "trace_refs (c_type opt_config, 0) ''S 1000'' = [(CHR ''S'', 0x1000)]" unfolding opt_config_fields by (rule sample_refs)
  show "page_addr (snd (CHR ''S'', 0x1000))" using sample_page_addr by simp
  show "count_lines ''S 1000'' \<le> heap_limit (sample_env\<lparr>freed_readable := False\<rparr>)"
    unfolding sample_opt_lines by (simp add: sample_env_def)
qed simp

section \<open>Properties of the swap file\<close>

text \<open>C34: \<open>bitmap_alloc\<close> on a well-formed bitmap never fails an assertion: it returns a slot that
  was free and marks that slot and no other, or reports that all are taken, which is then
  so.\<close>

theorem bitmap_alloc_contract:
  assumes "bm_wf b"
  shows "(used b = {..< unat (nbits b)} \<and> bitmap_alloc b = Inr None) \<or>
    (\<exists>b' x. bitmap_alloc b = Inr (Some (b', x)) \<and> bm_wf b' \<and> unat (nbits b') = unat (nbits b) \<and>
       unat x < unat (nbits b) \<and> unat x \<notin> used b \<and> used b' = insert (unat x) (used b))"
  using bm.alloc_full [OF assms] bm.alloc_free [OF assms] by blast

theorem bitmap_alloc_contract_witness:
  "\<exists>b' x. bitmap_alloc \<lparr>nbits = 32, v = [1]\<rparr> = Inr (Some (b', x)) \<and> unat x \<noteq> 0 \<and> used b' = {0, unat x}"
proof -
  have full: "{0} \<noteq> {..< unat (nbits \<lparr>nbits = 32, v = [1]\<rparr>)}"
    by (rule neq_lessThanI [of 1]) simp_all
  obtain b' x where "bitmap_alloc \<lparr>nbits = 32, v = [1]\<rparr> = Inr (Some (b', x))"
    "unat x \<notin> {0}" "used b' = insert (unat x) {0}"
    using bitmap_alloc_contract [OF sample_bitmap(1)] full unfolding sample_bitmap(2) by blast
  then show ?thesis by (metis insert_commute insertI1)
qed

text \<open>C39: \<open>bitmap_create\<close> gives a well-formed bitmap of the size asked for in which no slot is
  taken, for any size whose rounding up to whole words does not overflow.\<close>

theorem bitmap_create_contract:
  assumes "unat nb + 31 < 2 ^ 32"
  shows "\<exists>b. bitmap_create (True, True) nb = Inr (Some b) \<and> bm_wf b \<and> nbits b = nb \<and> used b = {}"
  using bitmap_create_ok [OF assms] by blast

theorem bitmap_create_contract_witness:
  "\<exists>b. bitmap_create (True, True) 4096 = Inr (Some b) \<and> bm_wf b \<and> nbits b = 4096 \<and> used b = {}"
  by (rule bitmap_create_contract) simp

text \<open>C23: What \<open>swap_pageout\<close> writes, \<open>swap_pagein\<close> reads back: a page written out from one frame
  and read into another arrives unchanged, whatever happened to the memory in between.\<close>

theorem swap_round_trip:
  assumes "sizes_ok s" and "f < memsize s" and "g < memsize s" and "bm_wf (swapmap s)"
    and "unat (nbits (swapmap s)) \<le> 2 ^ 27"
    and "off = INVALID_SWAP \<or> (\<exists>k \<in> used (swapmap s). off = slot_off k)"
    and "swap_pageout E (of_nat f) off s = Inr (r, s1)" and "r \<noteq> INVALID_SWAP"
    and "length m = length (physmem s)"
  shows "\<exists>s2. swap_pagein (of_nat g) r (s1\<lparr>physmem := m\<rparr>) = Inr (0, s2) \<and>
    frame_page s2 g = frame_page s f \<and>
    s2 = s1\<lparr>physmem := blit (g * SIMPAGESIZE) (frame_page s f) m\<rparr>"
proof (rule swap_pageout_contract [OF assms(1,2,4,5,6), of E])
  fix s' assume "swap_pageout E (of_nat f) off s = Inr (INVALID_SWAP, s')"
  then show ?thesis using assms(7,8) by simp
next
  fix k b fl
  assume out: "swap_pageout E (of_nat f) off s = Inr (slot_off k, s\<lparr>swapmap := b, swapfile := fl\<rparr>)"
    and w: "file_write (file_limit E) (SIMPAGESIZE * k) (frame_page s f) (swapfile s) = (int SIMPAGESIZE, fl)"
  have r: "r = slot_off k" and s1: "s1 = s\<lparr>swapmap := b, swapfile := fl\<rparr>" using out assms(7) by simp_all
  have len: "length (frame_page s f) = SIMPAGESIZE" by (rule length_frame_page [OF assms(1,2)])
  then have rd: "file_read (SIMPAGESIZE * k) SIMPAGESIZE fl = frame_page s f"
    using file_read_after_write [of "file_limit E" "SIMPAGESIZE * k" "frame_page s f" "swapfile s" fl] w
    by (metis SIMPAGESIZE_pos list.size(3) less_irrefl)
  have g19: "g < 2 ^ 19" using assms(1,3) by (simp add: sizes_ok_def)
  have b: "g * SIMPAGESIZE + length (frame_page s f) \<le> length m"
    using frame_in_physmem [OF assms(1,3)] assms(9) len by simp
  let ?s2 = "s1\<lparr>physmem := blit (g * SIMPAGESIZE) (frame_page s f) m\<rparr>"
  have "swap_pagein (of_nat g) r (s1\<lparr>physmem := m\<rparr>) = Inr (0, ?s2)"
    using rd b len by (simp add: swap_pagein_def r s1 lseek_set_def frame_byte_of_nat [OF g19] Let_def)
  moreover have "frame_page ?s2 g = frame_page s f"
    using region_blit_same [OF b] len by (simp add: frame_page_def)
  ultimately show ?thesis by blast
qed

theorem swap_round_trip_witness:
  "\<exists>s1 s2. swap_pageout sample_env (of_nat 0) (slot_off 0) swapped_page = Inr (slot_off 0, s1) \<and>
    swap_pagein (of_nat 0) (slot_off 0) (s1\<lparr>physmem := replicate 16 9\<rparr>) = Inr (0, s2) \<and>
    frame_page s2 0 = frame_page swapped_page 0"
proof -
  have sz: "sizes_ok swapped_page" using swapped_page_inv by (simp add: sim_inv_def vm_inv_def)
  have m: "0 < memsize swapped_page" by (simp add: swapped_page_fields)
  have b: "bm_wf (swapmap swapped_page)" "unat (nbits (swapmap swapped_page)) \<le> 2 ^ 27"
    "slot_off 0 = INVALID_SWAP \<or> (\<exists>k \<in> used (swapmap swapped_page). slot_off 0 = slot_off k)"
    using sample_bitmap by (simp_all add: swapped_page_fields)
  have "swap_pageout sample_env (of_nat 0) (slot_off 0) swapped_page =
      Inr (slot_off 0, swapped_page\<lparr>swapfile := replicate 16 0\<rparr>)"
    by (simp add: swap_pageout_def swap_slot_def swap_store_def slot_off_def lseek_set_def frame_byte_def
        INVALID_SWAP_def SIMPAGESIZE_def swapped_page_fields file_write_def sample_env_def region_def Let_def)
      (simp add: swapped_page_def)
  then show ?thesis
    using swap_round_trip [OF sz m m b, of sample_env "slot_off 0" _ "replicate 16 9"]
    by (auto simp: swapped_page_fields)
qed

end
