(* ===== verification/Int_Model.thy ===== *)
theory Int_Model
  imports C_Prelude
begin

text \<open>
  The system call interceptor (interceptor.c): its tables, the operations on the
  pid lists, the four commands of \<open>my_syscall\<close>, the interceptor itself and the
  module's entry and exit.  A function pointer is a value of \<open>kfun\<close>; a spin lock
  is a flag, and taking a lock that is held ends the run; the system call table
  can be written only while the RW bit of its page table entry is set.  The
  number of system calls is the length of \<open>sys_call_table\<close>, which \<open>table\<close>
  exceeds by one.  What the kernel provides for a call (the current process,
  the tasks by pid, the outcome of \<open>kmalloc\<close>) is the record \<open>kenv\<close>.
\<close>

section \<open>Data (interceptor.h, lines 54-83)\<close>

datatype kfun = Orig nat | My_syscall | Interceptor | My_exit_group | Null_fn

definition REQUEST_SYSCALL_INTERCEPT :: int where "REQUEST_SYSCALL_INTERCEPT = 1"
definition REQUEST_SYSCALL_RELEASE :: int where "REQUEST_SYSCALL_RELEASE = 2"
definition REQUEST_START_MONITORING :: int where "REQUEST_START_MONITORING = 3"
definition REQUEST_STOP_MONITORING :: int where "REQUEST_STOP_MONITORING = 4"
definition MY_CUSTOM_SYSCALL :: nat where "MY_CUSTOM_SYSCALL = 0"

definition EPERM :: int where "EPERM = 1"
definition ENOMEM :: int where "ENOMEM = 12"
definition EBUSY :: int where "EBUSY = 16"
definition EINVAL :: int where "EINVAL = 22"

definition PAGE_RW_BIT :: u64 where "PAGE_RW_BIT = 2"

text \<open>\<open>my_list\<close> is \<open>None\<close> until \<open>INIT_LIST_HEAD\<close>; its first element is the one added last.\<close>

record mytable =
  orig_f :: kfun
  intercepted :: int
  monitored :: int
  listcount :: int
  my_list :: "int list option"

record regs =
  ax :: u32
  bx :: u32
  cx :: u32
  dx :: u32
  si :: u32
  di :: u32
  bp :: u32

record kstate =
  table :: "mytable list"
  sys_call_table :: "kfun list"
  orig_exit_group :: kfun
  orig_custom_syscall :: kfun
  pidlist_lock :: bool
  calltable_lock :: bool
  sct_pte :: u64
  klog :: "(int \<times> regs) list"

record kenv =
  current_pid :: int
  current_uid :: nat
  task_uid :: "int \<Rightarrow> nat option"
  kmalloc_ok :: bool

definition NR_syscalls :: "kstate \<Rightarrow> nat" where
  "NR_syscalls s = length (table s) - 1"

section \<open>The system call table (lines 20-43)\<close>

definition set_addr_rw :: "kstate \<Rightarrow> kstate" where
  "set_addr_rw s = (if sct_pte s AND NOT PAGE_RW_BIT \<noteq> 0
     then s\<lparr>sct_pte := sct_pte s OR PAGE_RW_BIT\<rparr> else s)"

definition set_addr_ro :: "kstate \<Rightarrow> kstate" where
  "set_addr_ro s = s\<lparr>sct_pte := sct_pte s AND NOT PAGE_RW_BIT\<rparr>"

definition write_sct :: "nat \<Rightarrow> kfun \<Rightarrow> kstate \<Rightarrow> kstate res" where
  "write_sct n g s =
    bindE (guardE Write_Protected (sct_pte s AND PAGE_RW_BIT \<noteq> 0)) (\<lambda>_.
    bindE (wr (sys_call_table s) n g) (\<lambda>t. Inr (s\<lparr>sys_call_table := t\<rparr>)))"

section \<open>Locks\<close>

definition lock_pidlist :: "kstate \<Rightarrow> kstate res" where
  "lock_pidlist s = bindE (guardE Deadlock (\<not> pidlist_lock s)) (\<lambda>_. Inr (s\<lparr>pidlist_lock := True\<rparr>))"

definition unlock_pidlist :: "kstate \<Rightarrow> kstate res" where
  "unlock_pidlist s = bindE (guardE Assert_Failed (pidlist_lock s)) (\<lambda>_. Inr (s\<lparr>pidlist_lock := False\<rparr>))"

definition lock_calltable :: "kstate \<Rightarrow> kstate res" where
  "lock_calltable s = bindE (guardE Deadlock (\<not> calltable_lock s)) (\<lambda>_. Inr (s\<lparr>calltable_lock := True\<rparr>))"

definition unlock_calltable :: "kstate \<Rightarrow> kstate res" where
  "unlock_calltable s =
    bindE (guardE Assert_Failed (calltable_lock s)) (\<lambda>_. Inr (s\<lparr>calltable_lock := False\<rparr>))"

text \<open>A critical section; its value is \<open>Some r\<close> when the function returns \<open>r\<close> there.\<close>

type_synonym section_body = "kstate \<Rightarrow> (int option \<times> kstate) res"

definition with_pidlist :: "section_body \<Rightarrow> section_body" where
  "with_pidlist body s =
    bindE (lock_pidlist s) (\<lambda>s1. bindE (body s1) (\<lambda>(r, s2).
    bindE (unlock_pidlist s2) (\<lambda>s3. Inr (r, s3))))"

definition with_calltable :: "section_body \<Rightarrow> section_body" where
  "with_calltable body s =
    bindE (lock_calltable s) (\<lambda>s1. bindE (body s1) (\<lambda>(r, s2).
    bindE (unlock_calltable s2) (\<lambda>s3. Inr (r, s3))))"

text \<open>One section after the other, unless the first returned.\<close>

definition then_do :: "section_body \<Rightarrow> section_body \<Rightarrow> section_body" where
  "then_do a b s = bindE (a s) (\<lambda>(r, s1). if r = None then b s1 else Inr (r, s1))"

definition upd_entry :: "nat \<Rightarrow> (mytable \<Rightarrow> mytable) \<Rightarrow> section_body" where
  "upd_entry n g s = bindE (rd (table s) n) (\<lambda>t. Inr (None, s\<lparr>table := (table s)[n := g t]\<rparr>))"

text \<open>\<open>return r\<close> if the entry satisfies the condition, else go on.\<close>

definition return_if :: "nat \<Rightarrow> (mytable \<Rightarrow> bool) \<Rightarrow> int \<Rightarrow> section_body" where
  "return_if n c r s = bindE (rd (table s) n) (\<lambda>t. Inr (if c t then Some r else None, s))"

section \<open>List operations (lines 97-230)\<close>

definition add_pid_sysc :: "kenv \<Rightarrow> int \<Rightarrow> nat \<Rightarrow> kstate \<Rightarrow> (int \<times> kstate) res" where
  "add_pid_sysc env pid sysc s =
    (if \<not> kmalloc_ok env then Inr (- ENOMEM, s)
     else bindE (rd (table s) sysc) (\<lambda>t.
       case my_list t of None \<Rightarrow> Inl Null_Deref
       | Some l \<Rightarrow> Inr (0, s\<lparr>table := (table s)[sysc :=
           t\<lparr>my_list := Some (pid # l), listcount := listcount t + 1\<rparr>]\<rparr>)))"

text \<open>Unlinking the first node with \<open>pid\<close>, and the bookkeeping after it.\<close>

definition del_node :: "int \<Rightarrow> mytable \<Rightarrow> mytable" where
  "del_node pid t =
    (let t1 = t\<lparr>my_list := map_option (remove1 pid) (my_list t), listcount := listcount t - 1\<rparr> in
     if listcount t1 = 0 \<and> monitored t1 = 1 then t1\<lparr>monitored := 0\<rparr> else t1)"

definition del_pid_sysc :: "int \<Rightarrow> nat \<Rightarrow> kstate \<Rightarrow> (int \<times> kstate) res" where
  "del_pid_sysc pid sysc s =
    bindE (rd (table s) sysc) (\<lambda>t.
    case my_list t of None \<Rightarrow> Inl Null_Deref
    | Some l \<Rightarrow> if pid \<in> set l then Inr (0, s\<lparr>table := (table s)[sysc := del_node pid t]\<rparr>)
        else Inr (- EINVAL, s))"

text \<open>The inner loop of \<open>del_pid\<close> on one entry, and the outer loop from \<open>i\<close> on.\<close>

definition del_pid_entry :: "int \<Rightarrow> mytable \<Rightarrow> (bool \<times> mytable) res" where
  "del_pid_entry pid t =
    (case my_list t of None \<Rightarrow> Inl Null_Deref
     | Some l \<Rightarrow> Inr (pid \<in> set l, foldl (\<lambda>u x. if x = pid then del_node pid u else u) t l))"

primrec del_pid_loop :: "int \<Rightarrow> nat list \<Rightarrow> bool \<times> kstate \<Rightarrow> (bool \<times> kstate) res" where
  "del_pid_loop pid [] st = Inr st"
| "del_pid_loop pid (i # is) st =
    bindE (rd (table (snd st)) i) (\<lambda>t.
    bindE (del_pid_entry pid t) (\<lambda>(found, u).
    del_pid_loop pid is (fst st \<or> found, (snd st)\<lparr>table := (table (snd st))[i := u]\<rparr>)))"

definition del_pid :: "int \<Rightarrow> kstate \<Rightarrow> (int \<times> kstate) res" where
  "del_pid pid s =
    bindE (del_pid_loop pid [1 ..< NR_syscalls s] (False, s)) (\<lambda>(ispid, s1).
    Inr (if ispid then 0 else -1, s1))"

definition destroy_list :: "nat \<Rightarrow> section_body" where
  "destroy_list sysc s =
    bindE (rd (table s) sysc) (\<lambda>t.
    case my_list t of None \<Rightarrow> Inl Null_Deref
    | Some l \<Rightarrow> Inr (None, s\<lparr>table := (table s)[sysc :=
        t\<lparr>my_list := Some [], listcount := 0, monitored := 0\<rparr>]\<rparr>))"

definition check_pid_from_list :: "kenv \<Rightarrow> int \<Rightarrow> int \<Rightarrow> int res" where
  "check_pid_from_list env pid1 pid2 =
    (case (task_uid env pid1, task_uid env pid2) of
       (Some u1, Some u2) \<Rightarrow> Inr (if u1 \<noteq> u2 then - EPERM else 0)
     | _ \<Rightarrow> Inl Null_Deref)"

definition check_pid_monitored :: "nat \<Rightarrow> int \<Rightarrow> kstate \<Rightarrow> bool res" where
  "check_pid_monitored sysc pid s =
    bindE (rd (table s) sysc) (\<lambda>t.
    case my_list t of None \<Rightarrow> Inl Null_Deref | Some l \<Rightarrow> Inr (pid \<in> set l))"

section \<open>The commands (lines 343-591)\<close>

definition intercept_check :: "nat \<Rightarrow> section_body" where
  "intercept_check n = with_pidlist (return_if n (\<lambda>t. intercepted t = 1) (- EBUSY))"

definition intercept_install :: "nat \<Rightarrow> section_body" where
  "intercept_install n = with_calltable (\<lambda>s.
    bindE (rd (sys_call_table s) n) (\<lambda>g.
    bindE (upd_entry n (\<lambda>t. t\<lparr>orig_f := g\<rparr>) s) (\<lambda>(_, s1).
    bindE (write_sct n Interceptor (set_addr_rw s1)) (\<lambda>s2.
    Inr (None, set_addr_ro s2)))))"

definition intercept_mark :: "nat \<Rightarrow> section_body" where
  "intercept_mark n = with_pidlist (upd_entry n (\<lambda>t. t\<lparr>intercepted := 1\<rparr>))"

definition cmd_intercept :: "nat \<Rightarrow> section_body" where
  "cmd_intercept n = then_do (intercept_check n) (then_do (intercept_install n) (intercept_mark n))"

definition release_restore :: "nat \<Rightarrow> section_body" where
  "release_restore n = with_calltable (\<lambda>s.
    bindE (rd (table s) n) (\<lambda>t.
    bindE (write_sct n (orig_f t) (set_addr_rw s)) (\<lambda>s1.
    upd_entry n (\<lambda>t. t\<lparr>monitored := 0\<rparr>) (set_addr_ro s1))))"

definition cmd_release :: "nat \<Rightarrow> section_body" where
  "cmd_release n =
    then_do (with_pidlist (return_if n (\<lambda>t. intercepted t = 0) (- EINVAL)))
    (then_do (release_restore n)
      (with_pidlist (then_do (destroy_list n) (upd_entry n (\<lambda>t. t\<lparr>intercepted := 0\<rparr>)))))"

definition start_all :: "kenv \<Rightarrow> nat \<Rightarrow> section_body" where
  "start_all env n s =
    (if current_uid env \<noteq> 0 then Inr (Some (- EPERM), s)
     else
       then_do (with_calltable (return_if n (\<lambda>t. monitored t = 2) (- EBUSY)))
       (then_do (with_pidlist (destroy_list n))
         (with_calltable (upd_entry n (\<lambda>t. t\<lparr>monitored := 2\<rparr>)))) s)"

text \<open>Adding a pid with the second count of lines 479, 491 and 579.\<close>

definition add_counted :: "kenv \<Rightarrow> int \<Rightarrow> nat \<Rightarrow> section_body" where
  "add_counted env pid n s =
    bindE (add_pid_sysc env pid n s) (\<lambda>(r, s1).
    if r \<noteq> 0 then Inr (Some (- ENOMEM), s1)
    else upd_entry n (\<lambda>t. t\<lparr>listcount := listcount t + 1\<rparr>) s1)"

definition del_counted :: "int \<Rightarrow> nat \<Rightarrow> section_body" where
  "del_counted pid n s =
    bindE (del_pid_sysc pid n s) (\<lambda>(_, s1).
    upd_entry n (\<lambda>t. t\<lparr>listcount := listcount t - 1\<rparr>) s1)"

text \<open>In a critical section: return \<open>r\<close> when the membership test has the given outcome.\<close>

definition unless_member :: "bool \<Rightarrow> nat \<Rightarrow> int \<Rightarrow> int \<Rightarrow> section_body \<Rightarrow> section_body" where
  "unless_member b n pid r body s =
    bindE (check_pid_monitored n pid s) (\<lambda>m. if m = b then Inr (Some r, s) else body s)"

definition start_pid :: "kenv \<Rightarrow> nat \<Rightarrow> int \<Rightarrow> section_body" where
  "start_pid env n pid s =
    bindE (lock_calltable s) (\<lambda>s0.
    bindE (rd (table s0) n) (\<lambda>t.
    bindE (unlock_calltable s0) (\<lambda>s1.
    if monitored t = 2 then with_pidlist (unless_member False n pid (- EBUSY) (del_counted pid n)) s1
    else if monitored t = 1 then with_pidlist (unless_member True n pid (- EBUSY) (add_counted env pid n)) s1
    else then_do (with_pidlist (add_counted env pid n))
           (with_calltable (upd_entry n (\<lambda>t. t\<lparr>monitored := 1\<rparr>))) s1)))"

definition stop_all :: "kenv \<Rightarrow> nat \<Rightarrow> section_body" where
  "stop_all env n s =
    (if current_uid env \<noteq> 0 then Inr (Some (- EPERM), s)
     else then_do (with_calltable (return_if n (\<lambda>t. monitored t = 0) (- EINVAL)))
            (with_pidlist (destroy_list n)) s)"

definition stop_pid :: "kenv \<Rightarrow> nat \<Rightarrow> int \<Rightarrow> section_body" where
  "stop_pid env n pid s =
    bindE (lock_calltable s) (\<lambda>s0.
    bindE (rd (table s0) n) (\<lambda>t.
    bindE (unlock_calltable s0) (\<lambda>s1.
    if monitored t = 0 then Inr (Some (- EINVAL), s1)
    else if monitored t = 1 then with_pidlist (unless_member False n pid (- EINVAL) (del_counted pid n)) s1
    else with_pidlist (unless_member True n pid (- EINVAL) (add_counted env pid n)) s1)))"

text \<open>The argument checks the two monitoring commands share.\<close>

definition check_pid_arg :: "kenv \<Rightarrow> int \<Rightarrow> section_body" where
  "check_pid_arg env pid s =
    (if pid < 0 \<or> task_uid env pid = None then Inr (Some (- EINVAL), s)
     else if current_uid env \<noteq> 0 then
       bindE (check_pid_from_list env pid (current_pid env)) (\<lambda>r.
       Inr (if r \<noteq> 0 then Some (- EPERM) else None, s))
     else Inr (None, s))"

definition cmd_monitor :: "kenv \<Rightarrow> bool \<Rightarrow> nat \<Rightarrow> int \<Rightarrow> section_body" where
  "cmd_monitor env start n pid =
    then_do (with_pidlist (return_if n (\<lambda>t. intercepted t = 0) (- EINVAL)))
    (if pid = 0 then (if start then start_all env n else stop_all env n)
     else then_do (check_pid_arg env pid) (if start then start_pid env n pid else stop_pid env n pid))"

definition my_syscall :: "kenv \<Rightarrow> int \<Rightarrow> int \<Rightarrow> int \<Rightarrow> kstate \<Rightarrow> (int \<times> kstate) res" where
  "my_syscall env cmd sysc pid s =
    (if sysc < 0 \<or> int (NR_syscalls s) < sysc \<or> sysc = int MY_CUSTOM_SYSCALL then Inr (- EINVAL, s)
     else
       bindE (if cmd = REQUEST_SYSCALL_INTERCEPT then
                (if current_uid env \<noteq> 0 then Inr (Some (- EPERM), s) else cmd_intercept (nat sysc) s)
              else if cmd = REQUEST_SYSCALL_RELEASE then
                (if current_uid env \<noteq> 0 then Inr (Some (- EPERM), s) else cmd_release (nat sysc) s)
              else if cmd = REQUEST_START_MONITORING then cmd_monitor env True (nat sysc) pid s
              else if cmd = REQUEST_STOP_MONITORING then cmd_monitor env False (nat sysc) pid s
              else Inr (Some (- EINVAL), s)) (\<lambda>(r, s1).
       Inr (case r of None \<Rightarrow> 0 | Some e \<Rightarrow> e, s1)))"

end
