(* ===== verification/Int_Module.thy ===== *)
theory Int_Module
  imports Int_Model
begin

text \<open>
  The functions the module puts into the system call table, a system call as the
  kernel dispatches it, and the module's entry and exit.  \<open>dispatch\<close> gives the
  result of the module's own system call, or the original function that runs in
  the end with its argument registers.  \<open>invoke\<close> follows the calls through
  function pointers on fuel: the interceptor calls the saved function, which is
  the interceptor again only after the race shown in \<open>Int_Race\<close>.
\<close>

datatype outcome = Returned int | Ran nat regs

text \<open>\<open>interceptor\<close> (lines 279-292) up to the call through \<open>table[syscall].f\<close>.\<close>

definition interceptor_log :: "kenv \<Rightarrow> regs \<Rightarrow> kstate \<Rightarrow> (kfun \<times> kstate) res" where
  "interceptor_log env reg s =
    (let sysc = sint (ax reg) in
     bindE (guardE Out_Of_Bounds (0 \<le> sysc)) (\<lambda>_.
     bindE (lock_calltable s) (\<lambda>s1.
     bindE (lock_pidlist s1) (\<lambda>s2.
     bindE (rd (table s2) (nat sysc)) (\<lambda>t.
     bindE (if monitored t = 2 \<or> monitored t = 1
            then check_pid_monitored (nat sysc) (current_pid env) s2 else Inr False) (\<lambda>m.
     let s3 = (if (monitored t = 2 \<and> \<not> m) \<or> (monitored t = 1 \<and> m)
               then s2\<lparr>klog := klog s2 @ [(current_pid env, reg)]\<rparr> else s2) in
     bindE (unlock_pidlist s3) (\<lambda>s4.
     bindE (unlock_calltable s4) (\<lambda>s5.
     bindE (rd (table s5) (nat sysc)) (\<lambda>t5. Inr (orig_f t5, s5))))))))))"

text \<open>\<open>my_exit_group\<close> (lines 253-258) up to the call of \<open>orig_exit_group\<close>.\<close>

definition my_exit_group :: "kenv \<Rightarrow> kstate \<Rightarrow> (kfun \<times> kstate) res" where
  "my_exit_group env s =
    bindE (with_pidlist (\<lambda>s1. bindE (del_pid (current_pid env) s1) (\<lambda>(_, s2). Inr (None, s2))) s) (\<lambda>(_, s3).
    Inr (orig_exit_group s3, s3))"

fun invoke :: "nat \<Rightarrow> kenv \<Rightarrow> kfun \<Rightarrow> regs \<Rightarrow> kstate \<Rightarrow> (outcome \<times> kstate) res" where
  "invoke k env (Orig n) reg s = Inr (Ran n reg, s)"
| "invoke k env Null_fn reg s = Inl Null_Deref"
| "invoke k env My_syscall reg s =
    bindE (my_syscall env (sint (bx reg)) (sint (cx reg)) (sint (dx reg)) s) (\<lambda>(r, s1).
    Inr (Returned r, s1))"
| "invoke 0 env Interceptor reg s = Inl Out_Of_Fuel"
| "invoke 0 env My_exit_group reg s = Inl Out_Of_Fuel"
| "invoke (Suc k) env Interceptor reg s =
    bindE (interceptor_log env reg s) (\<lambda>(g, s1). invoke k env g reg s1)"
| "invoke (Suc k) env My_exit_group reg s =
    bindE (my_exit_group env s) (\<lambda>(g, s1). invoke k env g reg s1)"

definition dispatch :: "nat \<Rightarrow> kenv \<Rightarrow> regs \<Rightarrow> kstate \<Rightarrow> (outcome \<times> kstate) res" where
  "dispatch k env reg s = bindE (rd (sys_call_table s) (unat (ax reg))) (\<lambda>g. invoke k env g reg s)"

section \<open>Module entry and exit (lines 614-683)\<close>

definition init_entry :: "nat \<Rightarrow> kstate \<Rightarrow> kstate res" where
  "init_entry i s =
    bindE (lock_calltable s) (\<lambda>s1.
    bindE (upd_entry i (\<lambda>t. t\<lparr>orig_f := Null_fn, monitored := 0\<rparr>) s1) (\<lambda>(_, s2).
    bindE (unlock_calltable s2) (\<lambda>s3.
    bindE (lock_pidlist s3) (\<lambda>s4.
    bindE (upd_entry i (\<lambda>t. t\<lparr>intercepted := 0, listcount := 0, my_list := Some []\<rparr>) s4) (\<lambda>(_, s5).
    unlock_pidlist s5)))))"

primrec for_entries :: "(nat \<Rightarrow> kstate \<Rightarrow> kstate res) \<Rightarrow> nat list \<Rightarrow> kstate \<Rightarrow> kstate res" where
  "for_entries g [] s = Inr s"
| "for_entries g (i # is) s = bindE (g i s) (for_entries g is)"

definition hijack :: "nat \<Rightarrow> kstate \<Rightarrow> kstate res" where
  "hijack nr_exit_group s =
    bindE (lock_calltable s) (\<lambda>s1.
    bindE (write_sct MY_CUSTOM_SYSCALL My_syscall (set_addr_rw s1)) (\<lambda>s2.
    bindE (write_sct nr_exit_group My_exit_group s2) (\<lambda>s3.
    unlock_calltable (set_addr_ro s3))))"

definition init_function :: "nat \<Rightarrow> kstate \<Rightarrow> kstate res" where
  "init_function nr_exit_group s =
    bindE (rd (sys_call_table s) MY_CUSTOM_SYSCALL) (\<lambda>g.
    let s1 = s\<lparr>orig_custom_syscall := g\<rparr> in
    bindE (rd (sys_call_table s1) MY_CUSTOM_SYSCALL) (\<lambda>g2.
    bindE (hijack nr_exit_group (s1\<lparr>orig_exit_group := g2\<rparr>)) (\<lambda>s2.
    for_entries init_entry [1 ..< Suc (NR_syscalls s2)] s2)))"

definition exit_entry :: "nat \<Rightarrow> kstate \<Rightarrow> kstate res" where
  "exit_entry i s =
    bindE (lock_pidlist s) (\<lambda>s1.
    bindE (rd (table s1) i) (\<lambda>t.
    bindE (if intercepted t = 1 then
             bindE (write_sct i (orig_f t) (set_addr_rw s1)) (\<lambda>s2. Inr (set_addr_ro s2))
           else Inr s1) (\<lambda>s3.
    bindE (destroy_list i s3) (\<lambda>(_, s4). unlock_pidlist s4))))"

definition exit_function :: "nat \<Rightarrow> kstate \<Rightarrow> kstate res" where
  "exit_function nr_exit_group s =
    bindE (lock_calltable s) (\<lambda>s1.
    bindE (write_sct MY_CUSTOM_SYSCALL (orig_custom_syscall s1) (set_addr_rw s1)) (\<lambda>s2.
    bindE (write_sct nr_exit_group (orig_exit_group s2) s2) (\<lambda>s3.
    bindE (unlock_calltable (set_addr_ro s3)) (\<lambda>s4.
    for_entries exit_entry [1 ..< Suc (NR_syscalls s4)] s4))))"

section \<open>The kernel before the module is loaded\<close>

definition unused_entry :: mytable where
  "unused_entry = \<lparr>orig_f = Null_fn, intercepted = 0, monitored = 0, listcount = 0, my_list = None\<rparr>"

text \<open>A table page entry with the present bit and without the RW bit.\<close>

definition boot :: "nat \<Rightarrow> kstate" where
  "boot nr = \<lparr>table = replicate (Suc nr) unused_entry, sys_call_table = map Orig [0 ..< nr],
     orig_exit_group = Null_fn, orig_custom_syscall = Null_fn, pidlist_lock = False,
     calltable_lock = False, sct_pte = 1, klog = []\<rparr>"

end
