(* ===== verification/Int_Inv.thy ===== *)
theory Int_Inv
  imports Int_Module
begin

text \<open>
  The invariant of the interceptor between two system calls, and its abstract
  view: per system call, \<open>None\<close> when it is not intercepted, else the set of pids
  monitored, as the pids listed or as all but the pids listed.
\<close>

datatype monitor = Only "int set" | Except "int set"

fun watches :: "monitor \<Rightarrow> int \<Rightarrow> bool" where
  "watches (Only S) p \<longleftrightarrow> p \<in> S"
| "watches (Except S) p \<longleftrightarrow> p \<notin> S"

definition pids :: "mytable \<Rightarrow> int list" where
  "pids t = (case my_list t of None \<Rightarrow> [] | Some l \<Rightarrow> l)"

definition mon_of :: "mytable \<Rightarrow> monitor" where
  "mon_of t = (if monitored t = 2 then Except (set (pids t)) else Only (set (pids t)))"

definition entry_view :: "mytable \<Rightarrow> monitor option" where
  "entry_view t = (if intercepted t = 1 then Some (mon_of t) else None)"

text \<open>\<open>listcount\<close> is counted twice per pid: it never falls below twice the length.\<close>

definition mytable_ok :: "mytable \<Rightarrow> bool" where
  "mytable_ok t \<longleftrightarrow> my_list t \<noteq> None \<and> distinct (pids t) \<and>
     intercepted t \<in> {0, 1} \<and> monitored t \<in> {0, 1, 2} \<and>
     2 * int (length (pids t)) \<le> listcount t \<and>
     (monitored t = 0 \<longrightarrow> pids t = []) \<and> (intercepted t = 0 \<longrightarrow> monitored t = 0)"

text \<open>The table the module set up at its entry, without any interception.\<close>

definition base_call :: "nat \<Rightarrow> nat \<Rightarrow> kfun" where
  "base_call nr_exit_group n =
    (if n = nr_exit_group then My_exit_group else if n = MY_CUSTOM_SYSCALL then My_syscall else Orig n)"

definition call_ok :: "nat \<Rightarrow> nat \<Rightarrow> mytable \<Rightarrow> kfun \<Rightarrow> bool" where
  "call_ok eg n t g \<longleftrightarrow> (if intercepted t = 1 then g = Interceptor \<and> orig_f t = base_call eg n
     else g = base_call eg n)"

definition int_inv :: "nat \<Rightarrow> kstate \<Rightarrow> bool" where
  "int_inv eg s \<longleftrightarrow> 0 < NR_syscalls s \<and> length (table s) = Suc (NR_syscalls s) \<and>
     length (sys_call_table s) = NR_syscalls s \<and> 0 < eg \<and> eg < NR_syscalls s \<and>
     \<not> pidlist_lock s \<and> \<not> calltable_lock s \<and>
     sct_pte s AND PAGE_RW_BIT = 0 \<and> sct_pte s \<noteq> 0 \<and>
     orig_custom_syscall s = Orig MY_CUSTOM_SYSCALL \<and> orig_exit_group s = Orig MY_CUSTOM_SYSCALL \<and>
     (\<forall>n. 1 \<le> n \<longrightarrow> n \<le> NR_syscalls s \<longrightarrow> mytable_ok (table s ! n)) \<and>
     intercepted (table s ! NR_syscalls s) = 0 \<and> sys_call_table s ! 0 = My_syscall \<and>
     (\<forall>n. 1 \<le> n \<longrightarrow> n < NR_syscalls s \<longrightarrow>
        call_ok eg n (table s ! n) (sys_call_table s ! n))"

definition view :: "kstate \<Rightarrow> nat \<Rightarrow> monitor option" where
  "view s n = (if 1 \<le> n \<and> n < NR_syscalls s then entry_view (table s ! n) else None)"

section \<open>Entries\<close>

lemma pids_simps [simp]:
  "pids (t\<lparr>orig_f := g\<rparr>) = pids t" "pids (t\<lparr>intercepted := i\<rparr>) = pids t"
  "pids (t\<lparr>monitored := m\<rparr>) = pids t" "pids (t\<lparr>listcount := c\<rparr>) = pids t"
  "pids (t\<lparr>my_list := Some l\<rparr>) = l"
  by (simp_all add: pids_def)

lemma my_list_pids: "my_list t \<noteq> None \<Longrightarrow> my_list t = Some (pids t)"
  by (auto simp: pids_def)

text \<open>Removing one pid never brings the count to 0, so \<open>monitored\<close> stays as it was.\<close>

lemma del_node_ok:
  assumes ok: "mytable_ok t" and p: "pid \<in> set (pids t)"
  shows "del_node pid t = t\<lparr>my_list := Some (remove1 pid (pids t)), listcount := listcount t - 1\<rparr>"
proof -
  have l: "my_list t = Some (pids t)" using ok by (intro my_list_pids) (simp add: mytable_ok_def)
  have "0 < length (pids t)" using p by (cases "pids t") auto
  moreover have "2 * int (length (pids t)) \<le> listcount t" using ok by (simp add: mytable_ok_def)
  ultimately have "listcount t - 1 \<noteq> 0" by linarith
  then show ?thesis by (simp add: del_node_def l Let_def)
qed

lemma length_remove1_int: "x \<in> set xs \<Longrightarrow> int (length (remove1 x xs)) = int (length xs) - 1"
  by (induction xs) (auto simp: length_remove1)

lemma mytable_ok_add:
  assumes "mytable_ok t" "p \<notin> set (pids t)" "monitored t \<noteq> 0" "2 + listcount t \<le> c"
  shows "mytable_ok (t\<lparr>my_list := Some (p # pids t), listcount := c\<rparr>)"
  using assms by (auto simp: mytable_ok_def)

lemma mytable_ok_del:
  assumes "mytable_ok t" "p \<in> set (pids t)" "listcount t - 2 \<le> c"
  shows "mytable_ok (t\<lparr>my_list := Some (remove1 p (pids t)), listcount := c\<rparr>)"
  using assms by (auto simp: mytable_ok_def length_remove1_int)

section \<open>The system call table\<close>

lemma rw_word: "(2 :: u64) = 2 ^ 1"
  by simp

lemma set_addr_rw_write:
  assumes "sct_pte s AND PAGE_RW_BIT = 0" "sct_pte s \<noteq> 0"
  shows "write_sct n g (set_addr_rw s) = bindE (wr (sys_call_table s) n g)
    (\<lambda>t. Inr (s\<lparr>sct_pte := sct_pte s OR PAGE_RW_BIT, sys_call_table := t\<rparr>))"
proof -
  have nb: "\<not> bit (sct_pte s) 1"
    using assms(1) unfolding PAGE_RW_BIT_def by (metis and_exp_eq_0_iff_not_bit power_one_right)
  have "sct_pte s AND NOT PAGE_RW_BIT = sct_pte s"
    by (rule bit_word_eqI) (use nb in \<open>auto simp: PAGE_RW_BIT_def bit_simps\<close>)
  moreover have "bit ((sct_pte s OR PAGE_RW_BIT) AND PAGE_RW_BIT) 1"
    by (simp add: PAGE_RW_BIT_def bit_simps)
  then have "(sct_pte s OR PAGE_RW_BIT) AND PAGE_RW_BIT \<noteq> 0" by auto
  ultimately show ?thesis using assms(2) by (simp add: write_sct_def set_addr_rw_def)
qed

lemma pte_back:
  assumes "w AND PAGE_RW_BIT = (0 :: u64)"
  shows "(w OR PAGE_RW_BIT) AND NOT PAGE_RW_BIT = w"
proof -
  have nb: "\<not> bit w 1"
    using assms unfolding PAGE_RW_BIT_def by (metis and_exp_eq_0_iff_not_bit power_one_right)
  show ?thesis
    by (rule bit_word_eqI) (use nb in \<open>auto simp: PAGE_RW_BIT_def bit_simps\<close>)
qed

section \<open>What a command does to the entry of its system call\<close>

text \<open>The checks of the pid argument (lines 435-444 and 529-538).\<close>

definition pid_error :: "kenv \<Rightarrow> int \<Rightarrow> int option" where
  "pid_error env pid =
    (if pid < 0 \<or> task_uid env pid = None then Some (- EINVAL)
     else if current_uid env \<noteq> 0 \<and> task_uid env pid \<noteq> task_uid env (current_pid env) then Some (- EPERM)
     else None)"

definition cleared :: "mytable \<Rightarrow> mytable" where
  "cleared t = t\<lparr>my_list := Some [], listcount := 0, monitored := 0\<rparr>"

definition with_pid :: "int \<Rightarrow> mytable \<Rightarrow> mytable" where
  "with_pid pid t = t\<lparr>my_list := Some (pid # pids t), listcount := 2 + listcount t\<rparr>"

definition without_pid :: "int \<Rightarrow> mytable \<Rightarrow> mytable" where
  "without_pid pid t = t\<lparr>my_list := Some (remove1 pid (pids t)), listcount := listcount t - 2\<rparr>"

definition add_result :: "kenv \<Rightarrow> int \<Rightarrow> mytable \<Rightarrow> int option \<times> mytable" where
  "add_result env pid t = (if kmalloc_ok env then (None, with_pid pid t) else (Some (- ENOMEM), t))"

definition start_entry :: "kenv \<Rightarrow> int \<Rightarrow> mytable \<Rightarrow> int option \<times> mytable" where
  "start_entry env pid t =
    (if monitored t = 2 then
       (if pid \<notin> set (pids t) then (Some (- EBUSY), t) else (None, without_pid pid t))
     else if monitored t = 1 then
       (if pid \<in> set (pids t) then (Some (- EBUSY), t) else add_result env pid t)
     else if kmalloc_ok env then (None, (with_pid pid t)\<lparr>monitored := 1\<rparr>) else (Some (- ENOMEM), t))"

definition stop_entry :: "kenv \<Rightarrow> int \<Rightarrow> mytable \<Rightarrow> int option \<times> mytable" where
  "stop_entry env pid t =
    (if monitored t = 0 then (Some (- EINVAL), t)
     else if monitored t = 1 then
       (if pid \<notin> set (pids t) then (Some (- EINVAL), t) else (None, without_pid pid t))
     else if pid \<in> set (pids t) then (Some (- EINVAL), t) else add_result env pid t)"

definition all_entry :: "kenv \<Rightarrow> bool \<Rightarrow> mytable \<Rightarrow> int option \<times> mytable" where
  "all_entry env start t =
    (if current_uid env \<noteq> 0 then (Some (- EPERM), t)
     else if start then
       (if monitored t = 2 then (Some (- EBUSY), t) else (None, (cleared t)\<lparr>monitored := 2\<rparr>))
     else (if monitored t = 0 then (Some (- EINVAL), t) else (None, cleared t)))"

definition monitor_entry :: "kenv \<Rightarrow> bool \<Rightarrow> int \<Rightarrow> mytable \<Rightarrow> int option \<times> mytable" where
  "monitor_entry env start pid t =
    (if intercepted t = 0 then (Some (- EINVAL), t)
     else if pid = 0 then all_entry env start t
     else case pid_error env pid of Some e \<Rightarrow> (Some e, t)
       | None \<Rightarrow> if start then start_entry env pid t else stop_entry env pid t)"

definition put_entry :: "nat \<Rightarrow> kstate \<Rightarrow> int option \<times> mytable \<Rightarrow> int option \<times> kstate" where
  "put_entry n s x = (fst x, s\<lparr>table := (table s)[n := snd x]\<rparr>)"

text \<open>Symbolic runs: the state has free locks, the entry is initialised.\<close>

definition free_at :: "kstate \<Rightarrow> nat \<Rightarrow> mytable \<Rightarrow> bool" where
  "free_at s n t \<longleftrightarrow> \<not> pidlist_lock s \<and> \<not> calltable_lock s \<and> n < length (table s) \<and>
     table s ! n = t \<and> my_list t \<noteq> None"

lemmas section_defs = with_pidlist_def with_calltable_def lock_pidlist_def unlock_pidlist_def
  lock_calltable_def unlock_calltable_def then_do_def upd_entry_def return_if_def destroy_list_def
  add_pid_sysc_def del_pid_sysc_def check_pid_monitored_def unless_member_def add_counted_def
  del_counted_def put_entry_def

lemma same_entry: "free_at s n t \<Longrightarrow> s\<lparr>table := (table s)[n := t]\<rparr> = s"
  by (cases s) (auto simp: free_at_def)

lemma table_same: "n < length xs \<Longrightarrow> xs[n := xs ! n] = xs"
  by simp

lemma all_run:
  assumes "free_at s n t"
  shows "start_all env n s = Inr (put_entry n s (all_entry env True t))"
    and "stop_all env n s = Inr (put_entry n s (all_entry env False t))"
  using assms same_entry [OF assms]
  by (cases s; cases "my_list t"; auto simp: free_at_def start_all_def stop_all_def all_entry_def
      section_defs cleared_def)+

lemma start_pid_run:
  assumes f: "free_at s n t" and ok: "mytable_ok t"
  shows "start_pid env n pid s = Inr (put_entry n s (start_entry env pid t))"
  using f same_entry [OF f] del_node_ok [OF ok]
  by (cases s; cases "my_list t"; cases "monitored t = 2"; cases "monitored t = 1";
      auto simp: free_at_def start_pid_def start_entry_def add_result_def with_pid_def without_pid_def
        section_defs ENOMEM_def pids_def)

lemma stop_pid_run:
  assumes f: "free_at s n t" and ok: "mytable_ok t"
  shows "stop_pid env n pid s = Inr (put_entry n s (stop_entry env pid t))"
  using f same_entry [OF f] del_node_ok [OF ok]
  by (cases s; cases "my_list t"; cases "monitored t = 0"; cases "monitored t = 1";
      auto simp: free_at_def stop_pid_def stop_entry_def add_result_def with_pid_def without_pid_def
        section_defs ENOMEM_def pids_def)

definition env_ok :: "kenv \<Rightarrow> bool" where
  "env_ok env \<longleftrightarrow> task_uid env (current_pid env) \<noteq> None"

lemma check_pid_arg_run:
  "env_ok env \<Longrightarrow> check_pid_arg env pid s = Inr (pid_error env pid, s)"
  by (auto simp: env_ok_def check_pid_arg_def pid_error_def check_pid_from_list_def EPERM_def)

lemma cmd_monitor_run:
  assumes f: "free_at s n t" and ok: "mytable_ok t" and env: "env_ok env"
  shows "cmd_monitor env start n pid s = Inr (put_entry n s (monitor_entry env start pid t))"
proof -
  have chk: "with_pidlist (return_if n (\<lambda>t. intercepted t = 0) (- EINVAL)) s =
      Inr (if intercepted t = 0 then Some (- EINVAL) else None, s)"
    using f by (cases s) (auto simp: free_at_def section_defs)
  have self: "put_entry n s (r, t) = (r, s)" for r using same_entry [OF f] by (simp add: put_entry_def)
  show ?thesis
  proof (cases "intercepted t = 0")
    case True
    then show ?thesis using chk self by (simp add: cmd_monitor_def then_do_def monitor_entry_def)
  next
    case False
    then show ?thesis
      using chk self all_run [OF f, of env] start_pid_run [OF f ok, of env pid] stop_pid_run [OF f ok, of env pid]
      by (cases "pid_error env pid"; cases start)
        (auto simp: cmd_monitor_def then_do_def monitor_entry_def check_pid_arg_run [OF env])
  qed
qed

end
