(* ===== verification/Int_Spec.thy ===== *)
theory Int_Spec
  imports Int_Inv
begin

text \<open>
  The specification of the module's system call on the abstract view, and the
  proof that \<open>my_syscall\<close> implements it and keeps the invariant.  A command
  changes the view of its own system call only.
\<close>

section \<open>Specification\<close>

text \<open>The documented effect of a command: the results it may have, and the new view.\<close>

definition watch :: "int \<Rightarrow> monitor \<Rightarrow> monitor" where
  "watch pid m = (case m of Only S \<Rightarrow> Only (insert pid S) | Except S \<Rightarrow> Except (S - {pid}))"

definition unwatch :: "int \<Rightarrow> monitor \<Rightarrow> monitor" where
  "unwatch pid m = (case m of Only S \<Rightarrow> Only (S - {pid}) | Except S \<Rightarrow> Except (insert pid S))"

definition is_only :: "monitor \<Rightarrow> bool" where
  "is_only m = (case m of Only _ \<Rightarrow> True | Except _ \<Rightarrow> False)"

text \<open>Memory is needed only when the pid goes onto a list.\<close>

definition spec_start :: "kenv \<Rightarrow> int \<Rightarrow> monitor \<Rightarrow> int set \<times> monitor" where
  "spec_start env pid m =
    (if watches m pid then ({- EBUSY}, m)
     else if is_only m \<and> \<not> kmalloc_ok env then ({- ENOMEM}, m)
     else ({0}, watch pid m))"

definition spec_stop :: "kenv \<Rightarrow> int \<Rightarrow> monitor \<Rightarrow> int set \<times> monitor" where
  "spec_stop env pid m =
    (if \<not> watches m pid then ({- EINVAL}, m)
     else if \<not> is_only m \<and> \<not> kmalloc_ok env then ({- ENOMEM}, m)
     else ({0}, unwatch pid m))"

text \<open>
  Stopping for all pids when none is watched: documented as \<open>-EINVAL\<close>; the code
  returns 0 when pids were watched and stopped one by one before.
\<close>

definition spec_all :: "kenv \<Rightarrow> bool \<Rightarrow> monitor \<Rightarrow> int set \<times> monitor" where
  "spec_all env start m =
    (if current_uid env \<noteq> 0 then ({- EPERM}, m)
     else if start then (if is_only m then ({0}, Except {}) else ({- EBUSY}, m))
     else if m = Only {} then ({0, - EINVAL}, m) else ({0}, Only {}))"

definition spec_monitor :: "kenv \<Rightarrow> bool \<Rightarrow> int \<Rightarrow> monitor option \<Rightarrow> int set \<times> monitor option" where
  "spec_monitor env start pid vw =
    (case vw of None \<Rightarrow> ({- EINVAL}, None)
     | Some m \<Rightarrow>
         (case (if pid = 0 then spec_all env start m
                else case pid_error env pid of Some e \<Rightarrow> ({e}, m)
                  | None \<Rightarrow> if start then spec_start env pid m else spec_stop env pid m) of
            (rs, m') \<Rightarrow> (rs, Some m')))"

definition spec_syscall :: "kenv \<Rightarrow> int \<Rightarrow> int \<Rightarrow> monitor option \<Rightarrow> int set \<times> monitor option" where
  "spec_syscall env cmd pid vw =
    (if cmd = REQUEST_SYSCALL_INTERCEPT then
       (if current_uid env \<noteq> 0 then ({- EPERM}, vw)
        else if vw \<noteq> None then ({- EBUSY}, vw) else ({0}, Some (Only {})))
     else if cmd = REQUEST_SYSCALL_RELEASE then
       (if current_uid env \<noteq> 0 then ({- EPERM}, vw)
        else if vw = None then ({- EINVAL}, vw) else ({0}, None))
     else if cmd = REQUEST_START_MONITORING then spec_monitor env True pid vw
     else if cmd = REQUEST_STOP_MONITORING then spec_monitor env False pid vw
     else ({- EINVAL}, vw))"

section \<open>Entries implement the specification\<close>

definition result :: "int option \<Rightarrow> int" where
  "result r = (case r of None \<Rightarrow> 0 | Some e \<Rightarrow> e)"

lemma error_codes: "EPERM \<noteq> 0" "EBUSY \<noteq> 0" "EINVAL \<noteq> 0" "ENOMEM \<noteq> 0"
  by (simp_all add: EPERM_def EBUSY_def EINVAL_def ENOMEM_def)

lemma mytable_ok_cases:
  assumes "mytable_ok t"
  obtains "monitored t = 0" "pids t = []" | "monitored t = 1" | "monitored t = 2"
  using assms by (auto simp: mytable_ok_def)

lemma mytable_ok_first:
  "mytable_ok t \<Longrightarrow> intercepted t = 1 \<Longrightarrow> pids t = [] \<Longrightarrow>
    mytable_ok (t\<lparr>my_list := Some [p], listcount := 2 + listcount t, monitored := 1\<rparr>)"
  by (simp add: mytable_ok_def)

lemma set_remove1_distinct: "distinct xs \<Longrightarrow> set (remove1 x xs) = set xs - {x}"
  by (rule set_remove1_eq)

lemma start_entry_spec:
  assumes ok: "mytable_ok t" and i: "intercepted t = 1"
  shows "result (fst (start_entry env pid t)) \<in> fst (spec_start env pid (mon_of t))"
    and "mon_of (snd (start_entry env pid t)) = snd (spec_start env pid (mon_of t))"
    and "mytable_ok (snd (start_entry env pid t))"
proof -
  have d: "distinct (pids t)" using ok by (simp add: mytable_ok_def)
  show "result (fst (start_entry env pid t)) \<in> fst (spec_start env pid (mon_of t))"
    by (cases rule: mytable_ok_cases [OF ok])
      (auto simp: start_entry_def add_result_def result_def spec_start_def mon_of_def is_only_def)
  show "mon_of (snd (start_entry env pid t)) = snd (spec_start env pid (mon_of t))"
    by (cases rule: mytable_ok_cases [OF ok])
      (auto simp: start_entry_def add_result_def spec_start_def mon_of_def is_only_def watch_def
        with_pid_def without_pid_def set_remove1_distinct [OF d])
  show "mytable_ok (snd (start_entry env pid t))"
    using ok mytable_ok_add [OF ok, of pid] mytable_ok_del [OF ok, of pid] mytable_ok_first [OF ok i]
    by (cases rule: mytable_ok_cases [OF ok])
      (auto simp: start_entry_def add_result_def with_pid_def without_pid_def)
qed

lemma stop_entry_spec:
  assumes ok: "mytable_ok t" and i: "intercepted t = 1"
  shows "result (fst (stop_entry env pid t)) \<in> fst (spec_stop env pid (mon_of t))"
    and "mon_of (snd (stop_entry env pid t)) = snd (spec_stop env pid (mon_of t))"
    and "mytable_ok (snd (stop_entry env pid t))"
proof -
  have d: "distinct (pids t)" using ok by (simp add: mytable_ok_def)
  show "result (fst (stop_entry env pid t)) \<in> fst (spec_stop env pid (mon_of t))"
    by (cases rule: mytable_ok_cases [OF ok])
      (auto simp: stop_entry_def add_result_def result_def spec_stop_def mon_of_def is_only_def)
  show "mon_of (snd (stop_entry env pid t)) = snd (spec_stop env pid (mon_of t))"
    by (cases rule: mytable_ok_cases [OF ok])
      (auto simp: stop_entry_def add_result_def spec_stop_def mon_of_def is_only_def unwatch_def
        with_pid_def without_pid_def set_remove1_distinct [OF d])
  show "mytable_ok (snd (stop_entry env pid t))"
    using ok mytable_ok_add [OF ok, of pid] mytable_ok_del [OF ok, of pid]
    by (cases rule: mytable_ok_cases [OF ok])
      (auto simp: stop_entry_def add_result_def with_pid_def without_pid_def)
qed

lemma all_entry_spec:
  assumes ok: "mytable_ok t" and i: "intercepted t = 1"
  shows "result (fst (all_entry env start t)) \<in> fst (spec_all env start (mon_of t))"
    and "mon_of (snd (all_entry env start t)) = snd (spec_all env start (mon_of t))"
    and "mytable_ok (snd (all_entry env start t))"
proof -
  show "result (fst (all_entry env start t)) \<in> fst (spec_all env start (mon_of t))"
    by (cases rule: mytable_ok_cases [OF ok])
      (auto simp: all_entry_def result_def spec_all_def mon_of_def is_only_def)
  show "mon_of (snd (all_entry env start t)) = snd (spec_all env start (mon_of t))"
    by (cases rule: mytable_ok_cases [OF ok])
      (auto simp: all_entry_def spec_all_def mon_of_def is_only_def cleared_def)
  show "mytable_ok (snd (all_entry env start t))"
    using ok i by (auto simp: all_entry_def cleared_def mytable_ok_def)
qed

text \<open>The two fields no monitoring command touches.\<close>

lemma monitor_entry_frame:
  "intercepted (snd (monitor_entry env start pid t)) = intercepted t"
  "orig_f (snd (monitor_entry env start pid t)) = orig_f t"
  by (auto simp: monitor_entry_def all_entry_def start_entry_def stop_entry_def add_result_def
      with_pid_def without_pid_def cleared_def split: option.split)

lemma monitor_entry_spec:
  assumes ok: "mytable_ok t"
  shows "result (fst (monitor_entry env start pid t)) \<in> fst (spec_monitor env start pid (entry_view t))"
    and "entry_view (snd (monitor_entry env start pid t)) = snd (spec_monitor env start pid (entry_view t))"
    and "mytable_ok (snd (monitor_entry env start pid t))"
proof -
  let ?x = "monitor_entry env start pid t"
  have "result (fst ?x) \<in> fst (spec_monitor env start pid (entry_view t)) \<and>
    entry_view (snd ?x) = snd (spec_monitor env start pid (entry_view t)) \<and> mytable_ok (snd ?x)"
  proof (cases "intercepted t = 0")
    case True
    then show ?thesis using ok by (simp add: monitor_entry_def result_def spec_monitor_def entry_view_def)
  next
    case False
    then have i: "intercepted t = 1" using ok by (auto simp: mytable_ok_def)
    note fr = monitor_entry_frame(1) [of env start pid t]
    note a = all_entry_spec [OF ok i, of env start] and b = start_entry_spec [OF ok i, of env pid]
      and c = stop_entry_spec [OF ok i, of env pid]
    show ?thesis
    proof (cases "pid = 0")
      case True
      then show ?thesis using a i fr
        by (simp add: monitor_entry_def spec_monitor_def entry_view_def case_prod_beta)
    next
      case nz: False
      show ?thesis
      proof (cases "pid_error env pid")
        case (Some e)
        then show ?thesis using nz i ok
          by (simp add: monitor_entry_def spec_monitor_def entry_view_def result_def)
      next
        case None
        then show ?thesis using nz i b c fr
          by (cases start) (simp_all add: monitor_entry_def spec_monitor_def entry_view_def case_prod_beta)
      qed
    qed
  qed
  then show "result (fst ?x) \<in> fst (spec_monitor env start pid (entry_view t))"
    "entry_view (snd ?x) = snd (spec_monitor env start pid (entry_view t))" "mytable_ok (snd ?x)" by blast+
qed

section \<open>Interception\<close>

lemma int_inv_free:
  "int_inv eg s \<Longrightarrow> 1 \<le> n \<Longrightarrow> n \<le> NR_syscalls s \<Longrightarrow> free_at s n (table s ! n)"
  by (auto simp: int_inv_def free_at_def mytable_ok_def)

lemma int_inv_entry:
  "int_inv eg s \<Longrightarrow> 1 \<le> n \<Longrightarrow> n \<le> NR_syscalls s \<Longrightarrow> mytable_ok (table s ! n)"
  by (simp add: int_inv_def)

lemma int_inv_call:
  "int_inv eg s \<Longrightarrow> 1 \<le> n \<Longrightarrow> n < NR_syscalls s \<Longrightarrow> call_ok eg n (table s ! n) (sys_call_table s ! n)"
  by (simp add: int_inv_def)

lemma NR_upd [simp]: "NR_syscalls (s\<lparr>table := (table s)[n := t]\<rparr>) = NR_syscalls s"
  by (simp add: NR_syscalls_def)

definition set_call :: "nat \<Rightarrow> mytable \<Rightarrow> kfun \<Rightarrow> kstate \<Rightarrow> kstate" where
  "set_call n t g s = s\<lparr>table := (table s)[n := t], sys_call_table := (sys_call_table s)[n := g]\<rparr>"

lemma write_sct_out:
  "\<not> n < length (sys_call_table s) \<Longrightarrow> write_sct n g s = Inl Write_Protected \<or> write_sct n g s = Inl Out_Of_Bounds"
  by (simp add: write_sct_def guardE_def)

lemma cmd_intercept_run:
  assumes f: "free_at s n t" and n: "n < length (sys_call_table s)"
    and pte: "sct_pte s AND PAGE_RW_BIT = 0" "sct_pte s \<noteq> 0"
  shows "cmd_intercept n s = (if intercepted t = 1 then Inr (Some (- EBUSY), s)
    else Inr (None, set_call n (t\<lparr>orig_f := sys_call_table s ! n, intercepted := 1\<rparr>) Interceptor s))"
proof -
  let ?s1 = "s\<lparr>calltable_lock := True, table := (table s)[n := t\<lparr>orig_f := sys_call_table s ! n\<rparr>]\<rparr>"
  have w: "write_sct n Interceptor (set_addr_rw ?s1) =
      Inr (?s1\<lparr>sct_pte := sct_pte s OR PAGE_RW_BIT, sys_call_table := (sys_call_table s)[n := Interceptor]\<rparr>)"
    using set_addr_rw_write [of ?s1 n Interceptor] pte n by simp
  have chk: "intercept_check n s = Inr (if intercepted t = 1 then Some (- EBUSY) else None, s)"
    using f by (cases s) (auto simp: free_at_def intercept_check_def section_defs)
  have inst: "intercept_install n s =
      Inr (None, s\<lparr>table := (table s)[n := t\<lparr>orig_f := sys_call_table s ! n\<rparr>],
        sys_call_table := (sys_call_table s)[n := Interceptor]\<rparr>)"
    using f n w pte by (cases s) (auto simp: free_at_def intercept_install_def section_defs set_addr_ro_def pte_back)
  show ?thesis using f chk inst
    by (cases s) (auto simp: cmd_intercept_def then_do_def intercept_mark_def free_at_def section_defs set_call_def)
qed

lemma cmd_release_run:
  assumes f: "free_at s n t" and n: "n < length (sys_call_table s)"
    and pte: "sct_pte s AND PAGE_RW_BIT = 0" "sct_pte s \<noteq> 0"
  shows "cmd_release n s = (if intercepted t = 0 then Inr (Some (- EINVAL), s)
    else Inr (None, set_call n ((cleared t)\<lparr>intercepted := 0\<rparr>) (orig_f t) s))"
proof -
  let ?s1 = "s\<lparr>calltable_lock := True\<rparr>"
  have w: "write_sct n (orig_f t) (set_addr_rw ?s1) =
      Inr (?s1\<lparr>sct_pte := sct_pte s OR PAGE_RW_BIT, sys_call_table := (sys_call_table s)[n := orig_f t]\<rparr>)"
    using set_addr_rw_write [of ?s1 n "orig_f t"] pte n by simp
  have rest: "release_restore n s =
      Inr (None, s\<lparr>table := (table s)[n := t\<lparr>monitored := 0\<rparr>],
        sys_call_table := (sys_call_table s)[n := orig_f t]\<rparr>)"
    using f n w pte by (cases s) (auto simp: free_at_def release_restore_def section_defs set_addr_ro_def pte_back)
  show ?thesis using f rest
    by (cases s) (auto simp: cmd_release_def free_at_def section_defs set_call_def cleared_def)
qed

section \<open>The invariant and the view\<close>

lemma view_other: "n \<noteq> m \<Longrightarrow> view (s\<lparr>table := (table s)[n := t]\<rparr>) m = view s m"
  by (simp add: view_def)

lemma view_set_call_other: "n \<noteq> m \<Longrightarrow> view (set_call n t g s) m = view s m"
  by (simp add: view_def set_call_def NR_syscalls_def)

lemma view_upd:
  assumes "1 \<le> n" "n < NR_syscalls s" "length (table s) = Suc (NR_syscalls s)"
  shows "view (s\<lparr>table := (table s)[n := t]\<rparr>) = (view s)(n := entry_view t)"
    and "view (set_call n t g s) = (view s)(n := entry_view t)"
proof -
  have "view (s\<lparr>table := (table s)[n := t]\<rparr>) m = ((view s)(n := entry_view t)) m" for m
    using assms by (cases "m = n") (simp_all add: view_def)
  then show 1: "view (s\<lparr>table := (table s)[n := t]\<rparr>) = (view s)(n := entry_view t)" by blast
  have "view (set_call n t g s) = view (s\<lparr>table := (table s)[n := t]\<rparr>)"
    by (simp add: view_def fun_eq_iff set_call_def NR_syscalls_def)
  then show "view (set_call n t g s) = (view s)(n := entry_view t)" using 1 by simp
qed

lemma int_inv_change:
  assumes inv: "int_inv eg s" and n: "1 \<le> n" "n \<le> NR_syscalls s" and t: "mytable_ok t"
    and g: "n < NR_syscalls s \<longrightarrow> call_ok eg n t g" and top: "n = NR_syscalls s \<longrightarrow> intercepted t = 0"
  shows "int_inv eg (set_call n t g s)"
proof -
  let ?s = "set_call n t g s"
  have N: "NR_syscalls ?s = NR_syscalls s" by (simp add: NR_syscalls_def set_call_def)
  have len: "n < length (table s)" "length (sys_call_table s) = NR_syscalls s" using inv n by (auto simp: int_inv_def)
  have tab: "table ?s ! m = (if m = n then t else table s ! m)" for m
    using len by (simp add: set_call_def nth_list_update)
  have sct: "sys_call_table ?s ! m = (if m = n \<and> n < NR_syscalls s then g else sys_call_table s ! m)" for m
    using len by (simp add: set_call_def nth_update_if)
  have "mytable_ok (table ?s ! m)" if "1 \<le> m" "m \<le> NR_syscalls s" for m
    unfolding tab using int_inv_entry [OF inv that] t by simp
  moreover have "call_ok eg m (table ?s ! m) (sys_call_table ?s ! m)" if "1 \<le> m" "m < NR_syscalls s" for m
    unfolding tab sct using int_inv_call [OF inv that] that g by simp
  moreover have "intercepted (table ?s ! NR_syscalls s) = 0" using inv top unfolding tab by (simp add: int_inv_def)
  moreover have "sys_call_table ?s ! 0 = My_syscall" using inv n unfolding sct by (simp add: int_inv_def)
  ultimately show ?thesis using inv unfolding int_inv_def N by (simp add: set_call_def)
qed

lemma set_call_same: "set_call n t (sys_call_table s ! n) s = s\<lparr>table := (table s)[n := t]\<rparr>"
  by (cases s) (simp add: set_call_def)

lemma int_inv_upd:
  assumes inv: "int_inv eg s" and n: "1 \<le> n" "n \<le> NR_syscalls s"
    and t: "mytable_ok t" "intercepted t = intercepted (table s ! n)" "orig_f t = orig_f (table s ! n)"
  shows "int_inv eg (s\<lparr>table := (table s)[n := t]\<rparr>)"
proof -
  have "int_inv eg (set_call n t (sys_call_table s ! n) s)"
    by (rule int_inv_change [OF inv n t(1)]) (use inv n t(2,3) in \<open>auto simp: int_inv_def call_ok_def\<close>)
  then show ?thesis by (simp add: set_call_same)
qed

lemma int_inv_set_call:
  assumes "int_inv eg s" and "1 \<le> n" "n < NR_syscalls s" and "mytable_ok t" and "call_ok eg n t g"
  shows "int_inv eg (set_call n t g s)"
  by (rule int_inv_change) (use assms in auto)

text \<open>The module's system call implements the specification.\<close>

lemma section_result:
  "result r = (case r of None \<Rightarrow> 0 | Some e \<Rightarrow> e)"
  by (simp add: result_def)

lemma my_syscall_impl:
  assumes inv: "int_inv eg s" and n: "1 \<le> n" "n < NR_syscalls s" and env: "env_ok env"
  shows "\<exists>r s'. my_syscall env cmd (int n) pid s = Inr (r, s') \<and> int_inv eg s' \<and>
    NR_syscalls s' = NR_syscalls s \<and>
    r \<in> fst (spec_syscall env cmd pid (view s n)) \<and>
    view s' = (view s)(n := snd (spec_syscall env cmd pid (view s n)))"
proof -
  define t where "t = table s ! n"
  have f: "free_at s n t" using int_inv_free [OF inv] n by (simp add: t_def)
  have ok: "mytable_ok t" using int_inv_entry [OF inv] n by (simp add: t_def)
  have nl: "n < length (sys_call_table s)" and pte: "sct_pte s AND PAGE_RW_BIT = 0" "sct_pte s \<noteq> 0"
    and tl: "length (table s) = Suc (NR_syscalls s)" using inv n by (auto simp: int_inv_def)
  have vn: "view s n = entry_view t" using n by (simp add: view_def t_def)
  have bit: "intercepted t = 0 \<or> intercepted t = 1" using ok by (auto simp: mytable_ok_def)
  have sct: "call_ok eg n t (sys_call_table s ! n)"
    using inv n by (simp add: int_inv_def t_def)
  have same: "(view s)(n := entry_view t) = view s" by (simp add: fun_upd_idem vn)
  have go: "my_syscall env cmd (int n) pid s =
      bindE (if cmd = REQUEST_SYSCALL_INTERCEPT then
                (if current_uid env \<noteq> 0 then Inr (Some (- EPERM), s) else cmd_intercept n s)
              else if cmd = REQUEST_SYSCALL_RELEASE then
                (if current_uid env \<noteq> 0 then Inr (Some (- EPERM), s) else cmd_release n s)
              else if cmd = REQUEST_START_MONITORING then cmd_monitor env True n pid s
              else if cmd = REQUEST_STOP_MONITORING then cmd_monitor env False n pid s
              else Inr (Some (- EINVAL), s)) (\<lambda>(r, s1). Inr (result r, s1))"
    using n by (simp add: my_syscall_def MY_CUSTOM_SYSCALL_def section_result)
  have mon: "\<exists>r s'. bindE (cmd_monitor env start n pid s) (\<lambda>(r, s1). Inr (result r, s1)) = Inr (r, s') \<and>
      int_inv eg s' \<and> NR_syscalls s' = NR_syscalls s \<and>
      r \<in> fst (spec_monitor env start pid (entry_view t)) \<and>
      view s' = (view s)(n := snd (spec_monitor env start pid (entry_view t)))" for start
  proof -
    let ?x = "monitor_entry env start pid t"
    let ?s' = "s\<lparr>table := (table s)[n := snd ?x]\<rparr>"
    have "bindE (cmd_monitor env start n pid s) (\<lambda>(r, s1). Inr (result r, s1)) = Inr (result (fst ?x), ?s')"
      by (simp add: cmd_monitor_run [OF f ok env] put_entry_def)
    moreover have "int_inv eg ?s'"
      using monitor_entry_spec(3) [OF ok] monitor_entry_frame n
      by (intro int_inv_upd [OF inv]) (simp_all add: t_def)
    moreover have "view ?s' = (view s)(n := entry_view (snd ?x))"
      by (rule view_upd(1) [OF n tl])
    ultimately show ?thesis using monitor_entry_spec(1,2) [OF ok, of env start pid] by auto
  qed
  have runi: "\<exists>r s'. bindE (cmd_intercept n s) (\<lambda>(r, s1). Inr (result r, s1)) = Inr (r, s') \<and>
      int_inv eg s' \<and> NR_syscalls s' = NR_syscalls s \<and>
      (if entry_view t \<noteq> None then r = - EBUSY \<and> s' = s
       else r = 0 \<and> view s' = (view s)(n := Some (Only {})))"
  proof (cases "intercepted t = 1")
    case True
    then show ?thesis using cmd_intercept_run [OF f nl pte] inv by (simp add: entry_view_def result_def)
  next
    case False
    let ?t = "t\<lparr>orig_f := sys_call_table s ! n, intercepted := 1\<rparr>"
    have i0: "intercepted t = 0" using False bit by simp
    have z: "monitored t = 0" "pids t = []" using ok i0 by (auto simp: mytable_ok_def)
    have "mytable_ok ?t" using ok z by (simp add: mytable_ok_def)
    then have "int_inv eg (set_call n ?t Interceptor s)"
      using sct False by (intro int_inv_set_call [OF inv n]) (simp_all add: call_ok_def cleared_def)
    moreover have "view (set_call n ?t Interceptor s) = (view s)(n := Some (Only {}))"
      using z by (simp add: view_upd(2) [OF n tl] entry_view_def mon_of_def)
    ultimately show ?thesis using cmd_intercept_run [OF f nl pte] False
      by (simp add: entry_view_def result_def) (simp add: set_call_def NR_syscalls_def)
  qed
  have runr: "\<exists>r s'. bindE (cmd_release n s) (\<lambda>(r, s1). Inr (result r, s1)) = Inr (r, s') \<and>
      int_inv eg s' \<and> NR_syscalls s' = NR_syscalls s \<and>
      (if entry_view t = None then r = - EINVAL \<and> s' = s
       else r = 0 \<and> view s' = (view s)(n := None))"
  proof (cases "intercepted t = 0")
    case True
    then show ?thesis using cmd_release_run [OF f nl pte] inv by (simp add: entry_view_def result_def)
  next
    case False
    let ?t = "(cleared t)\<lparr>intercepted := 0\<rparr>"
    have i1: "intercepted t = 1" using False bit by simp
    have "mytable_ok ?t" by (simp add: cleared_def mytable_ok_def)
    then have "int_inv eg (set_call n ?t (orig_f t) s)"
      using sct i1 by (intro int_inv_set_call [OF inv n]) (simp_all add: call_ok_def cleared_def)
    moreover have "view (set_call n ?t (orig_f t) s) = (view s)(n := None)"
      by (simp add: view_upd(2) [OF n tl] entry_view_def)
    ultimately show ?thesis using cmd_release_run [OF f nl pte] i1
      by (simp add: entry_view_def result_def) (simp add: set_call_def NR_syscalls_def)
  qed
  have keep: "\<exists>r s'. bindE (Inr (Some e, s)) (\<lambda>(r, s1). Inr (result r, s1)) = (Inr (r, s') :: (int \<times> kstate) res) \<and>
      int_inv eg s' \<and> NR_syscalls s' = NR_syscalls s \<and> r = e \<and> view s' = (view s)(n := entry_view t)" for e
    using inv same by (simp add: result_def)
  note cmds = REQUEST_SYSCALL_INTERCEPT_def REQUEST_SYSCALL_RELEASE_def REQUEST_START_MONITORING_def
    REQUEST_STOP_MONITORING_def
  consider (icpt) "cmd = 1" | (rel) "cmd = 2" | (start) "cmd = 3" | (stop) "cmd = 4"
    | (other) "cmd \<notin> {1, 2, 3, 4}" by blast
  then show ?thesis
  proof cases
    case icpt
    then show ?thesis
    proof (cases "current_uid env = 0")
      case True
      obtain r s' where e: "bindE (cmd_intercept n s) (\<lambda>(r, s1). Inr (result r, s1)) = Inr (r, s')"
        "int_inv eg s'" "NR_syscalls s' = NR_syscalls s"
        "if entry_view t \<noteq> None then r = - EBUSY \<and> s' = s
         else r = 0 \<and> view s' = (view s)(n := Some (Only {}))" using runi by blast
      moreover have "my_syscall env cmd (int n) pid s = Inr (r, s')" unfolding go using icpt True e by (simp add: cmds)
      ultimately show ?thesis using icpt True same vn
        by (cases "entry_view t") (simp_all add: cmds spec_syscall_def)
    next
      case False
      then show ?thesis unfolding go using icpt keep [of "- EPERM"]
        by (simp add: cmds spec_syscall_def vn same)
    qed
  next
    case rel
    then show ?thesis
    proof (cases "current_uid env = 0")
      case True
      obtain r s' where e: "bindE (cmd_release n s) (\<lambda>(r, s1). Inr (result r, s1)) = Inr (r, s')"
        "int_inv eg s'" "NR_syscalls s' = NR_syscalls s"
        "if entry_view t = None then r = - EINVAL \<and> s' = s
         else r = 0 \<and> view s' = (view s)(n := None)" using runr by blast
      moreover have "my_syscall env cmd (int n) pid s = Inr (r, s')" unfolding go using rel True e by (simp add: cmds)
      ultimately show ?thesis using rel True same vn
        by (cases "entry_view t") (simp_all add: cmds spec_syscall_def)
    next
      case False
      then show ?thesis unfolding go using rel keep [of "- EPERM"]
        by (simp add: cmds spec_syscall_def vn same)
    qed
  next
    case start
    then show ?thesis unfolding go using mon [of True] by (simp add: cmds spec_syscall_def vn)
  next
    case stop
    then show ?thesis unfolding go using mon [of False] by (simp add: cmds spec_syscall_def vn)
  next
    case other
    then show ?thesis unfolding go using keep [of "- EINVAL"] by (simp add: cmds spec_syscall_def vn same)
  qed
qed

end
