(* ===== verification/Int_Run.thy ===== *)
theory Int_Run
  imports Int_Spec
begin

text \<open>
  Runs of the module: its entry from the state after boot, sequences of system
  calls, intercepted calls and process exits, and the module's exit.
\<close>

section \<open>Loops over the table\<close>

lemma for_entries_table:
  assumes step: "\<And>i s. P s \<Longrightarrow> i \<in> set is \<Longrightarrow>
      \<exists>s'. g i s = Inr s' \<and> P s' \<and> Q s s' \<and> (\<forall>j. table s' ! j = (if j = i then h (table s ! j) else table s ! j)) \<and>
        (\<forall>j. sys_call_table s' ! j = (if j = i then c (table s ! j) (sys_call_table s ! j) else sys_call_table s ! j))"
    and refl: "\<And>s. Q s s" and trans: "\<And>s t u. Q s t \<Longrightarrow> Q t u \<Longrightarrow> Q s u"
    and P: "P s" and d: "distinct is"
  shows "\<exists>s'. for_entries g is s = Inr s' \<and> P s' \<and> Q s s' \<and>
    (\<forall>j. table s' ! j = (if j \<in> set is then h (table s ! j) else table s ! j)) \<and>
    (\<forall>j. sys_call_table s' ! j =
       (if j \<in> set is then c (table s ! j) (sys_call_table s ! j) else sys_call_table s ! j))"
  using step P d
proof (induction "is" arbitrary: s)
  case Nil
  then show ?case using refl by simp
next
  case (Cons i "is")
  obtain s1 where s1: "g i s = Inr s1" "P s1" "Q s s1"
    "\<forall>j. table s1 ! j = (if j = i then h (table s ! j) else table s ! j)"
    "\<forall>j. sys_call_table s1 ! j = (if j = i then c (table s ! j) (sys_call_table s ! j) else sys_call_table s ! j)"
    using Cons.prems(1) [of s i] Cons.prems(2) by auto
  obtain s' where s': "for_entries g is s1 = Inr s'" "P s'" "Q s1 s'"
    "\<forall>j. table s' ! j = (if j \<in> set is then h (table s1 ! j) else table s1 ! j)"
    "\<forall>j. sys_call_table s' ! j =
       (if j \<in> set is then c (table s1 ! j) (sys_call_table s1 ! j) else sys_call_table s1 ! j)"
    using Cons.IH [OF _ s1(2)] Cons.prems(1,3) by auto
  have "Q s s'" using trans [OF s1(3) s'(3)] .
  then show ?case using s1 s' Cons.prems(3) by auto
qed

text \<open>What the loops keep: the sizes, the locks, the saved functions, the protection.\<close>

definition same_frame :: "kstate \<Rightarrow> kstate \<Rightarrow> bool" where
  "same_frame s s' \<longleftrightarrow> length (table s') = length (table s) \<and>
     length (sys_call_table s') = length (sys_call_table s) \<and>
     orig_exit_group s' = orig_exit_group s \<and> orig_custom_syscall s' = orig_custom_syscall s \<and>
     pidlist_lock s' = pidlist_lock s \<and> calltable_lock s' = calltable_lock s \<and>
     sct_pte s' = sct_pte s \<and> klog s' = klog s"

lemma same_frame_refl: "same_frame s s"
  by (simp add: same_frame_def)

lemma same_frame_trans: "same_frame s t \<Longrightarrow> same_frame t u \<Longrightarrow> same_frame s u"
  by (simp add: same_frame_def)

section \<open>Module entry\<close>

definition ready_entry :: mytable where
  "ready_entry = \<lparr>orig_f = Null_fn, intercepted = 0, monitored = 0, listcount = 0, my_list = Some []\<rparr>"

lemma ready_entry_upd:
  "t\<lparr>orig_f := Null_fn, monitored := 0, intercepted := 0, listcount := 0, my_list := Some []\<rparr> = ready_entry"
  by (cases t) (simp add: ready_entry_def)

lemma init_entry_run:
  assumes "\<not> pidlist_lock s" "\<not> calltable_lock s" "i < length (table s)"
  shows "init_entry i s = Inr (s\<lparr>table := (table s)[i := ready_entry]\<rparr>)"
  using assms by (cases s) (simp add: init_entry_def section_defs ready_entry_upd)

lemma init_loop:
  assumes "\<not> pidlist_lock s" "\<not> calltable_lock s"
  shows "\<exists>s'. for_entries init_entry [1 ..< length (table s)] s = Inr s' \<and> same_frame s s' \<and>
    (\<forall>j. table s' ! j = (if 1 \<le> j \<and> j < length (table s) then ready_entry else table s ! j)) \<and>
    (\<forall>j. sys_call_table s' ! j = sys_call_table s ! j)"
proof -
  let ?P = "\<lambda>u. same_frame s u"
  have "\<exists>s'. for_entries init_entry [1 ..< length (table s)] s = Inr s' \<and> ?P s' \<and> same_frame s s' \<and>
    (\<forall>j. table s' ! j = (if j \<in> set [1 ..< length (table s)] then (\<lambda>_. ready_entry) (table s ! j) else table s ! j)) \<and>
    (\<forall>j. sys_call_table s' ! j =
       (if j \<in> set [1 ..< length (table s)] then (\<lambda>_ g. g) (table s ! j) (sys_call_table s ! j) else sys_call_table s ! j))"
  proof (rule for_entries_table [of ?P _ init_entry same_frame])
    fix i u assume u: "same_frame s u" and i: "i \<in> set [1 ..< length (table s)]"
    have "init_entry i u = Inr (u\<lparr>table := (table u)[i := ready_entry]\<rparr>)"
      using u i assms by (intro init_entry_run) (auto simp: same_frame_def)
    then show "\<exists>s'. init_entry i u = Inr s' \<and> same_frame s s' \<and> same_frame u s' \<and>
        (\<forall>j. table s' ! j = (if j = i then (\<lambda>_. ready_entry) (table u ! j) else table u ! j)) \<and>
        (\<forall>j. sys_call_table s' ! j = (if j = i then (\<lambda>_ g. g) (table u ! j) (sys_call_table u ! j) else sys_call_table u ! j))"
      using u i by (auto simp: same_frame_def nth_list_update)
  qed (auto simp: same_frame_refl intro: same_frame_trans)
  then show ?thesis by auto
qed

lemma rw_on:
  assumes "sct_pte s AND PAGE_RW_BIT \<noteq> 0"
  shows "write_sct n g s = bindE (wr (sys_call_table s) n g) (\<lambda>t. Inr (s\<lparr>sys_call_table := t\<rparr>))"
  using assms by (simp add: write_sct_def)

lemma rw_bit_set: "(w OR PAGE_RW_BIT) AND PAGE_RW_BIT \<noteq> (0 :: u64)"
proof -
  have "bit ((w OR PAGE_RW_BIT) AND PAGE_RW_BIT) 1" by (simp add: PAGE_RW_BIT_def bit_simps)
  then show ?thesis by auto
qed

lemma hijack_run:
  assumes "\<not> pidlist_lock s" "\<not> calltable_lock s" "sct_pte s AND PAGE_RW_BIT = 0" "sct_pte s \<noteq> 0"
    and "eg < length (sys_call_table s)" "0 < length (sys_call_table s)"
  shows "hijack eg s = Inr (s\<lparr>sys_call_table := (sys_call_table s)[0 := My_syscall, eg := My_exit_group]\<rparr>)"
proof -
  let ?s1 = "s\<lparr>calltable_lock := True\<rparr>"
  let ?s2 = "?s1\<lparr>sct_pte := sct_pte s OR PAGE_RW_BIT, sys_call_table := (sys_call_table s)[0 := My_syscall]\<rparr>"
  have "write_sct MY_CUSTOM_SYSCALL My_syscall (set_addr_rw ?s1) = Inr ?s2"
    using set_addr_rw_write [of ?s1 0 My_syscall] assms by (simp add: MY_CUSTOM_SYSCALL_def)
  moreover have "write_sct eg My_exit_group ?s2 =
      Inr (?s2\<lparr>sys_call_table := (sys_call_table s)[0 := My_syscall, eg := My_exit_group]\<rparr>)"
    using rw_on [of ?s2 eg My_exit_group] rw_bit_set assms(5) by simp
  ultimately show ?thesis using assms
    by (cases s) (simp add: hijack_def lock_calltable_def unlock_calltable_def set_addr_ro_def pte_back)
qed

lemma init_function_ok:
  assumes "0 < eg" "eg < nr"
  shows "\<exists>s. init_function eg (boot nr) = Inr s \<and> int_inv eg s \<and> NR_syscalls s = nr \<and>
    view s = (\<lambda>_. None) \<and> klog s = []"
proof -
  let ?b = "(boot nr)\<lparr>orig_custom_syscall := Orig 0, orig_exit_group := Orig 0\<rparr>"
  let ?h = "?b\<lparr>sys_call_table := (map Orig [0 ..< nr])[0 := My_syscall, eg := My_exit_group]\<rparr>"
  have h: "hijack eg ?b = Inr ?h"
    using hijack_run [of ?b eg] assms by (simp add: boot_def PAGE_RW_BIT_def)
  have hl: "length (table ?h) = Suc nr" by (simp add: boot_def)
  obtain s where s: "for_entries init_entry [1 ..< length (table ?h)] ?h = Inr s" "same_frame ?h s"
    "\<forall>j. table s ! j = (if 1 \<le> j \<and> j < length (table ?h) then ready_entry else table ?h ! j)"
    "\<forall>j. sys_call_table s ! j = sys_call_table ?h ! j"
    using init_loop [of ?h] by (auto simp: boot_def)
  have run: "init_function eg (boot nr) = Inr s"
    using h s(1) assms hl by (simp add: init_function_def boot_def MY_CUSTOM_SYSCALL_def NR_syscalls_def)
  have N: "NR_syscalls s = nr" using s(2) hl by (simp add: NR_syscalls_def same_frame_def)
  have tab: "table s ! j = ready_entry" if "1 \<le> j" "j \<le> nr" for j using s(3) that hl by simp
  have sct: "sys_call_table s ! j = base_call eg j" if "j < nr" for j
    using s(4) that by (simp add: base_call_def MY_CUSTOM_SYSCALL_def nth_list_update)
  have "int_inv eg s" unfolding int_inv_def N
    using s(2) hl assms tab sct sct [of 0]
    by (auto simp: same_frame_def boot_def PAGE_RW_BIT_def MY_CUSTOM_SYSCALL_def ready_entry_def
        mytable_ok_def pids_def call_ok_def base_call_def)
  moreover have "view s = (\<lambda>_. None)" using tab by (auto simp: fun_eq_iff view_def N entry_view_def ready_entry_def)
  moreover have "klog s = []" using s(2) by (simp add: same_frame_def boot_def)
  ultimately show ?thesis using run N by blast
qed

section \<open>Sequences of system calls\<close>

record request =
  q_env :: kenv
  q_cmd :: int
  q_syscall :: int
  q_pid :: int

primrec run_requests :: "request list \<Rightarrow> kstate \<Rightarrow> (int list \<times> kstate) res" where
  "run_requests [] s = Inr ([], s)"
| "run_requests (q # qs) s =
    bindE (my_syscall (q_env q) (q_cmd q) (q_syscall q) (q_pid q) s) (\<lambda>(r, s1).
    bindE (run_requests qs s1) (\<lambda>(rs, s2). Inr (r # rs, s2)))"

text \<open>The requests the argument check lets through, except the one past the table.\<close>

definition spec_request :: "nat \<Rightarrow> request \<Rightarrow> (nat \<Rightarrow> monitor option) \<Rightarrow> int set \<times> (nat \<Rightarrow> monitor option)" where
  "spec_request nr q V =
    (if q_syscall q \<le> 0 \<or> int nr < q_syscall q then ({- EINVAL}, V)
     else let n = nat (q_syscall q); (rs, m) = spec_syscall (q_env q) (q_cmd q) (q_pid q) (V n) in
       (rs, V(n := m)))"

lemma request_impl:
  assumes inv: "int_inv eg s" and q: "env_ok (q_env q)" "q_syscall q \<noteq> int (NR_syscalls s)"
  shows "\<exists>r s'. my_syscall (q_env q) (q_cmd q) (q_syscall q) (q_pid q) s = Inr (r, s') \<and> int_inv eg s' \<and>
    NR_syscalls s' = NR_syscalls s \<and> r \<in> fst (spec_request (NR_syscalls s) q (view s)) \<and>
    view s' = snd (spec_request (NR_syscalls s) q (view s))"
proof (cases "q_syscall q \<le> 0 \<or> int (NR_syscalls s) < q_syscall q")
  case True
  then have "my_syscall (q_env q) (q_cmd q) (q_syscall q) (q_pid q) s = Inr (- EINVAL, s)"
    by (auto simp: my_syscall_def MY_CUSTOM_SYSCALL_def)
  then show ?thesis using True inv by (simp add: spec_request_def)
next
  case False
  obtain n where n: "q_syscall q = int n" "1 \<le> n" "n < NR_syscalls s"
    using False q(2) by (metis One_nat_def Suc_leI int_eq_iff linorder_not_le nat_int of_nat_0_less_iff of_nat_less_iff order_le_imp_less_or_eq zero_le_imp_eq_int nle_le)
  then show ?thesis using my_syscall_impl [OF inv n(2,3) q(1), of "q_cmd q" "q_pid q"]
    by (auto simp: spec_request_def case_prod_beta)
qed

end
