(* ===== verification/Int_Calls.thy ===== *)
theory Int_Calls
  imports Int_Run
begin

text \<open>
  What processes see while the module is loaded: an intercepted system call is
  logged exactly for the watched pids and then runs the original function with
  the same registers; a process that exits is dropped from every list.  At the
  end the module's exit, and the race between two requests to intercept.
\<close>

section \<open>An intercepted call\<close>

definition call_no :: "regs \<Rightarrow> nat" where
  "call_no reg = unat (ax reg)"

lemma sint_call_no: "call_no reg < 2 ^ 31 \<Longrightarrow> sint (ax reg) = int (call_no reg)"
proof -
  assume a: "call_no reg < 2 ^ 31"
  then have "int (unat (ax reg)) < int (2 ^ 31)" unfolding call_no_def by (rule iffD2 [OF of_nat_less_iff])
  then have "uint (ax reg) < 2 ^ 31" by simp
  then have "signed_take_bit 31 (uint (ax reg)) = uint (ax reg)"
    by (intro signed_take_bit_int_eq_self) (auto intro: order_trans [of _ 0])
  then show ?thesis by (simp add: call_no_def sint_uint)
qed

lemma watches_mon_of:
  assumes "mytable_ok t"
  shows "watches (mon_of t) p \<longleftrightarrow> (monitored t = 2 \<and> p \<notin> set (pids t)) \<or> (monitored t = 1 \<and> p \<in> set (pids t))"
  by (cases rule: mytable_ok_cases [OF assms]) (simp_all add: mon_of_def)

definition log_call :: "kenv \<Rightarrow> monitor \<Rightarrow> regs \<Rightarrow> kstate \<Rightarrow> kstate" where
  "log_call env m reg s =
    (if watches m (current_pid env) then s\<lparr>klog := klog s @ [(current_pid env, reg)]\<rparr> else s)"

lemma interceptor_log_run:
  assumes f: "free_at s n t" and ok: "mytable_ok t" and n: "sint (ax reg) = int n"
  shows "interceptor_log env reg s = Inr (orig_f t, log_call env (mon_of t) reg s)"
  using f my_list_pids [of t] n unfolding watches_mon_of [OF ok] log_call_def
  by (cases s) (auto simp: free_at_def interceptor_log_def section_defs Let_def)

lemma dispatch_intercepted:
  assumes inv: "int_inv eg s" and n: "1 \<le> call_no reg" "call_no reg < NR_syscalls s" "call_no reg \<noteq> eg"
    and small: "NR_syscalls s \<le> 2 ^ 31" and m: "view s (call_no reg) = Some m"
  shows "dispatch (Suc k) env reg s = Inr (Ran (call_no reg) reg, log_call env m reg s)"
proof -
  let ?n = "call_no reg" let ?t = "table s ! call_no reg"
  have ok: "mytable_ok ?t" and f: "free_at s ?n ?t"
    using int_inv_entry [OF inv] int_inv_free [OF inv] n by auto
  have c: "call_ok eg ?n ?t (sys_call_table s ! ?n)" by (rule int_inv_call [OF inv n(1,2)])
  have i: "intercepted ?t = 1" "m = mon_of ?t" using m n by (auto simp: view_def entry_view_def split: if_splits)
  have g: "sys_call_table s ! ?n = Interceptor" "orig_f ?t = Orig ?n"
    using c i n by (auto simp: call_ok_def base_call_def MY_CUSTOM_SYSCALL_def)
  have "dispatch (Suc k) env reg s = invoke (Suc k) env Interceptor reg s"
    using inv n g by (simp add: dispatch_def call_no_def [symmetric] int_inv_def)
  also have "\<dots> = Inr (Ran ?n reg, log_call env m reg s)"
    using interceptor_log_run [OF f ok sint_call_no] n small g i by simp
  finally show ?thesis .
qed

lemma dispatch_untouched:
  assumes inv: "int_inv eg s" and n: "1 \<le> call_no reg" "call_no reg < NR_syscalls s" "call_no reg \<noteq> eg"
    and m: "view s (call_no reg) = None"
  shows "dispatch k env reg s = Inr (Ran (call_no reg) reg, s)"
proof -
  have c: "call_ok eg (call_no reg) (table s ! call_no reg) (sys_call_table s ! call_no reg)"
    by (rule int_inv_call [OF inv n(1,2)])
  then have "sys_call_table s ! call_no reg = Orig (call_no reg)"
    using m n by (auto simp: view_def entry_view_def call_ok_def base_call_def MY_CUSTOM_SYSCALL_def split: if_splits)
  then show ?thesis using inv n by (simp add: dispatch_def call_no_def [symmetric] int_inv_def)
qed

section \<open>Process exit\<close>

lemma foldl_once:
  "distinct l \<Longrightarrow> foldl (\<lambda>u x. if x = p then g u else u) t l = (if p \<in> set l then g t else t)"
proof (induction l arbitrary: t)
  case (Cons x l)
  then show ?case by (cases "x = p") auto
qed simp

definition drop_pid :: "int \<Rightarrow> mytable \<Rightarrow> mytable" where
  "drop_pid p t = (if p \<in> set (pids t)
     then t\<lparr>my_list := Some (remove1 p (pids t)), listcount := listcount t - 1\<rparr> else t)"

lemma del_pid_entry_run:
  assumes ok: "mytable_ok t"
  shows "del_pid_entry p t = Inr (p \<in> set (pids t), drop_pid p t)"
  using my_list_pids [of t] foldl_once [of "pids t" p "del_node p" t] del_node_ok [OF ok] ok
  by (auto simp: del_pid_entry_def drop_pid_def mytable_ok_def)

lemma drop_pid_ok: "mytable_ok t \<Longrightarrow> mytable_ok (drop_pid p t)"
  using mytable_ok_del [of t p "listcount t - 1"] by (simp add: drop_pid_def)

fun forget :: "int \<Rightarrow> monitor \<Rightarrow> monitor" where
  "forget p (Only S) = Only (S - {p})"
| "forget p (Except S) = Except (S - {p})"

lemma entry_view_drop:
  assumes ok: "mytable_ok t"
  shows "entry_view (drop_pid p t) = map_option (forget p) (entry_view t)"
proof -
  have "set (remove1 p (pids t)) = set (pids t) - {p}"
    using ok by (intro set_remove1_distinct) (simp add: mytable_ok_def)
  then show ?thesis by (auto simp: drop_pid_def entry_view_def mon_of_def)
qed

lemma drop_pid_frame: "intercepted (drop_pid p t) = intercepted t" "orig_f (drop_pid p t) = orig_f t"
  by (simp_all add: drop_pid_def)

lemma del_pid_loop_run:
  assumes "distinct is" and "\<forall>i \<in> set is. i < length (table s) \<and> mytable_ok (table s ! i)"
  shows "\<exists>b. del_pid_loop p is (a, s) = Inr (b, s\<lparr>table := map (\<lambda>i. if i \<in> set is then drop_pid p (table s ! i)
    else table s ! i) [0 ..< length (table s)]\<rparr>)"
  using assms
proof (induction "is" arbitrary: a s)
  case Nil
  have "map (\<lambda>i. table s ! i) [0 ..< length (table s)] = table s" by (rule map_nth)
  then show ?case by simp
next
  case (Cons i "is")
  let ?s1 = "s\<lparr>table := (table s)[i := drop_pid p (table s ! i)]\<rparr>"
  have step: "del_pid_loop p (i # is) (a, s) = del_pid_loop p is (a \<or> p \<in> set (pids (table s ! i)), ?s1)"
    using Cons.prems by (simp add: del_pid_entry_run)
  have "\<forall>j \<in> set is. j < length (table ?s1) \<and> mytable_ok (table ?s1 ! j)"
    using Cons.prems by (auto simp: nth_list_update)
  then obtain b where b: "del_pid_loop p is (a \<or> p \<in> set (pids (table s ! i)), ?s1) =
      Inr (b, ?s1\<lparr>table := map (\<lambda>j. if j \<in> set is then drop_pid p (table ?s1 ! j) else table ?s1 ! j)
        [0 ..< length (table ?s1)]\<rparr>)"
    using Cons.IH Cons.prems(1) by (meson distinct.simps(2))
  have "map (\<lambda>j. if j \<in> set is then drop_pid p (table ?s1 ! j) else table ?s1 ! j) [0 ..< length (table ?s1)] =
      map (\<lambda>j. if j \<in> set (i # is) then drop_pid p (table s ! j) else table s ! j) [0 ..< length (table s)]"
    using Cons.prems by (intro map_cong) (auto simp: nth_list_update)
  then show ?case unfolding step b by (intro exI [of _ b]) simp
qed

text \<open>The exit hook runs the function saved in \<open>orig_exit_group\<close>, after dropping the pid.\<close>

lemma exit_group_hook:
  assumes inv: "int_inv eg s"
  shows "\<exists>s'. my_exit_group env s = Inr (Orig MY_CUSTOM_SYSCALL, s') \<and> int_inv eg s' \<and>
    NR_syscalls s' = NR_syscalls s \<and> klog s' = klog s \<and>
    view s' = (\<lambda>n. map_option (forget (current_pid env)) (view s n))"
proof -
  let ?N = "NR_syscalls s" and ?p = "current_pid env"
  have len: "length (table s) = Suc ?N" "\<not> pidlist_lock s" "orig_exit_group s = Orig MY_CUSTOM_SYSCALL"
    using inv by (simp_all add: int_inv_def)
  let ?tab = "map (\<lambda>i. if i \<in> set [1 ..< ?N] then drop_pid ?p (table s ! i) else table s ! i) [0 ..< length (table s)]"
  define s' where "s' = s\<lparr>table := ?tab\<rparr>"
  let ?l = "s\<lparr>pidlist_lock := True\<rparr>"
  have "\<forall>i \<in> set [1 ..< ?N]. i < length (table ?l) \<and> mytable_ok (table ?l ! i)"
    using len int_inv_entry [OF inv] by auto
  then obtain b where b: "del_pid_loop ?p [1 ..< ?N] (False, ?l) = Inr (b, ?l\<lparr>table := ?tab\<rparr>)"
    using del_pid_loop_run [of "[1 ..< ?N]" ?l ?p False] by auto
  have NL: "NR_syscalls ?l = ?N" by (simp add: NR_syscalls_def)
  have "my_exit_group env s = Inr (Orig MY_CUSTOM_SYSCALL, s')"
    using len b unfolding s'_def by (cases s) (simp add: my_exit_group_def del_pid_def NL section_defs NR_syscalls_def)
  moreover have N': "NR_syscalls s' = ?N" by (simp add: NR_syscalls_def s'_def)
  have other: "sys_call_table s' = sys_call_table s" "length (table s') = length (table s)"
    "pidlist_lock s' = pidlist_lock s" "calltable_lock s' = calltable_lock s" "sct_pte s' = sct_pte s"
    "orig_custom_syscall s' = orig_custom_syscall s" "orig_exit_group s' = orig_exit_group s" "klog s' = klog s"
    by (simp_all add: s'_def)
  have tab: "table s' ! n = (if 1 \<le> n \<and> n < ?N then drop_pid ?p (table s ! n) else table s ! n)" if "n \<le> ?N" for n
    using that len by (simp add: s'_def del: upt_Suc)
  have "int_inv eg s'" unfolding int_inv_def N'
    using inv int_inv_entry [OF inv] int_inv_call [OF inv]
    by (auto simp: int_inv_def tab other drop_pid_ok drop_pid_frame call_ok_def)
  moreover have "view s' n = map_option (forget ?p) (view s n)" for n
    using tab [of n] int_inv_entry [OF inv, of n] by (simp add: view_def N' entry_view_drop)
  ultimately show ?thesis using N' other(8) by blast
qed

text \<open>
  An intercepted \<open>exit_group\<close>: the saved function is \<open>my_exit_group\<close>, so the call is logged
  and then handled as a process exit.
\<close>

lemma log_call_frame:
  "int_inv eg (log_call env m reg s) \<longleftrightarrow> int_inv eg s" "view (log_call env m reg s) = view s"
  "NR_syscalls (log_call env m reg s) = NR_syscalls s"
  by (auto simp: log_call_def int_inv_def view_def NR_syscalls_def fun_eq_iff)

lemma dispatch_intercepted_exit:
  assumes inv: "int_inv eg s" and n: "call_no reg = eg" and small: "NR_syscalls s \<le> 2 ^ 31" and m: "view s eg = Some m"
  shows "\<exists>s'. dispatch (Suc (Suc k)) env reg s = Inr (Ran MY_CUSTOM_SYSCALL reg, s') \<and>
    klog s' = klog (log_call env m reg s) \<and> int_inv eg s' \<and>
    view s' = (\<lambda>n. map_option (forget (current_pid env)) (view s n))"
proof -
  let ?t = "table s ! eg" and ?s1 = "log_call env m reg s"
  have eg: "1 \<le> eg" "eg < NR_syscalls s" using inv by (auto simp: int_inv_def)
  have ok: "mytable_ok ?t" and f: "free_at s eg ?t"
    using int_inv_entry [OF inv] int_inv_free [OF inv] eg by auto
  have c: "call_ok eg eg ?t (sys_call_table s ! eg)" by (rule int_inv_call [OF inv eg])
  have i: "intercepted ?t = 1" "m = mon_of ?t" using m eg by (auto simp: view_def entry_view_def split: if_splits)
  have g: "sys_call_table s ! eg = Interceptor" "orig_f ?t = My_exit_group"
    using c i by (auto simp: call_ok_def base_call_def)
  have log: "interceptor_log env reg s = Inr (My_exit_group, ?s1)"
    using interceptor_log_run [OF f ok] sint_call_no [of reg] n eg small g i by simp
  have "int_inv eg ?s1" using inv by (simp add: log_call_frame)
  from exit_group_hook [OF this, of env] obtain s' where s': "my_exit_group env ?s1 = Inr (Orig MY_CUSTOM_SYSCALL, s')"
    "int_inv eg s'" "klog s' = klog ?s1" "view s' = (\<lambda>n. map_option (forget (current_pid env)) (view s n))"
    by (auto simp: log_call_frame)
  have "dispatch (Suc (Suc k)) env reg s = invoke (Suc (Suc k)) env Interceptor reg s"
    using inv n g eg by (simp add: dispatch_def call_no_def [symmetric] int_inv_def)
  then show ?thesis using log s' by auto
qed

end
