(* ===== verification/Int_Race.thy ===== *)
theory Int_Race
  imports Int_Calls
begin

text \<open>
  The module's exit, and the runs that end badly: the request for the number
  one past the table, the saved function lost in a race, the monitoring flag
  that outlives the last pid.
\<close>

section \<open>Module exit\<close>

lemma exit_entry_run:
  assumes f: "free_at s i t" and i: "intercepted t = 1 \<longrightarrow> i < length (sys_call_table s)"
    and pte: "sct_pte s AND PAGE_RW_BIT = 0" "sct_pte s \<noteq> 0"
  shows "exit_entry i s = Inr (s\<lparr>table := (table s)[i := cleared t],
    sys_call_table := (if intercepted t = 1 then (sys_call_table s)[i := orig_f t] else sys_call_table s)\<rparr>)"
proof -
  let ?s1 = "s\<lparr>pidlist_lock := True\<rparr>"
  have w: "write_sct i (orig_f t) (set_addr_rw ?s1) =
      bindE (wr (sys_call_table s) i (orig_f t)) (\<lambda>u. Inr (?s1\<lparr>sct_pte := sct_pte s OR PAGE_RW_BIT, sys_call_table := u\<rparr>))"
    using set_addr_rw_write [of ?s1 i "orig_f t"] pte by simp
  show ?thesis using f i w pte
    by (cases s) (auto simp: exit_entry_def free_at_def section_defs set_addr_ro_def pte_back cleared_def)
qed

lemma exit_loop:
  assumes fr: "\<not> pidlist_lock s" "\<not> calltable_lock s" "sct_pte s AND PAGE_RW_BIT = 0" "sct_pte s \<noteq> 0"
    and len: "length (table s) = Suc N" "length (sys_call_table s) = N"
    and tab: "\<forall>i. 1 \<le> i \<longrightarrow> i \<le> N \<longrightarrow> my_list (table s ! i) \<noteq> None" and top: "intercepted (table s ! N) = 0"
  shows "\<exists>s'. for_entries exit_entry [1 ..< Suc N] s = Inr s' \<and> same_frame s s' \<and>
    (\<forall>j. sys_call_table s' ! j = (if 1 \<le> j \<and> j \<le> N \<and> intercepted (table s ! j) = 1
       then orig_f (table s ! j) else sys_call_table s ! j))"
proof -
  let ?P = "\<lambda>u. same_frame s u \<and> (\<forall>i. 1 \<le> i \<longrightarrow> i \<le> N \<longrightarrow> my_list (table u ! i) \<noteq> None) \<and>
    intercepted (table u ! N) = 0"
  let ?c = "\<lambda>t g. if intercepted t = 1 then orig_f t else g"
  have "\<exists>s'. for_entries exit_entry [1 ..< Suc N] s = Inr s' \<and> ?P s' \<and> same_frame s s' \<and>
    (\<forall>j. table s' ! j = (if j \<in> set [1 ..< Suc N] then cleared (table s ! j) else table s ! j)) \<and>
    (\<forall>j. sys_call_table s' ! j =
       (if j \<in> set [1 ..< Suc N] then ?c (table s ! j) (sys_call_table s ! j) else sys_call_table s ! j))"
  proof (rule for_entries_table [of ?P _ exit_entry same_frame])
    fix i u assume u: "?P u" and i: "i \<in> set [1 ..< Suc N]"
    have sf: "same_frame s u" using u by blast
    have il: "i < length (table u)" "1 \<le> i" "i \<le> N" using sf i len by (auto simp: same_frame_def)
    have ml: "my_list (table u ! i) \<noteq> None" using u il by blast
    have f: "free_at u i (table u ! i)" using sf fr il ml by (simp add: free_at_def same_frame_def)
    have ib: "intercepted (table u ! i) = 1 \<longrightarrow> i < length (sys_call_table u)"
      using u il sf len by (cases "i = N") (auto simp: same_frame_def)
    have pte: "sct_pte u AND PAGE_RW_BIT = 0" "sct_pte u \<noteq> 0" using sf fr by (simp_all add: same_frame_def)
    define u' where "u' = u\<lparr>table := (table u)[i := cleared (table u ! i)],
      sys_call_table := (if intercepted (table u ! i) = 1 then (sys_call_table u)[i := orig_f (table u ! i)] else sys_call_table u)\<rparr>"
    have run: "exit_entry i u = Inr u'" unfolding u'_def by (rule exit_entry_run [OF f ib pte])
    have t': "table u' ! j = (if j = i then cleared (table u ! j) else table u ! j)" for j
      using il by (simp add: u'_def nth_list_update)
    have "sys_call_table u' ! j = (if j = i then ?c (table u ! j) (sys_call_table u ! j) else sys_call_table u ! j)" for j
      using ib by (simp add: u'_def nth_list_update)
    moreover have uu: "same_frame u u'" by (simp add: u'_def same_frame_def)
    moreover have "?P u'"
    proof (intro conjI allI impI)
      show "same_frame s u'" by (rule same_frame_trans [OF sf uu])
      show "my_list (table u' ! j) \<noteq> None" if "1 \<le> j" "j \<le> N" for j
        using t' [of j] u that by (simp add: cleared_def)
      show "intercepted (table u' ! N) = 0" using t' [of N] u by (cases "N = i") (simp_all add: cleared_def)
    qed
    ultimately show "\<exists>s'. exit_entry i u = Inr s' \<and> ?P s' \<and> same_frame u s' \<and>
        (\<forall>j. table s' ! j = (if j = i then cleared (table u ! j) else table u ! j)) \<and>
        (\<forall>j. sys_call_table s' ! j = (if j = i then ?c (table u ! j) (sys_call_table u ! j) else sys_call_table u ! j))"
      using run t' by (intro exI [of _ u']) simp
  next
    show "?P s" using tab top same_frame_refl by blast
  qed (auto simp: same_frame_refl intro: same_frame_trans)
  then obtain s' where s': "for_entries exit_entry [1 ..< Suc N] s = Inr s'" "same_frame s s'"
    and tb: "\<forall>j. sys_call_table s' ! j =
       (if j \<in> set [1 ..< Suc N] then ?c (table s ! j) (sys_call_table s ! j) else sys_call_table s ! j)"
    by blast
  have "sys_call_table s' ! j = (if 1 \<le> j \<and> j \<le> N \<and> intercepted (table s ! j) = 1
       then orig_f (table s ! j) else sys_call_table s ! j)" for j
    using tb [rule_format, of j] by (simp add: less_Suc_eq_le del: upt_Suc)
  then show ?thesis using s' by blast
qed

text \<open>What the module leaves in the system call table.\<close>

definition left_behind :: "nat \<Rightarrow> kstate \<Rightarrow> nat \<Rightarrow> kfun" where
  "left_behind eg s n =
    (if n \<noteq> eg then Orig n else if view s eg = None then Orig MY_CUSTOM_SYSCALL else My_exit_group)"

lemma exit_function_leaves:
  assumes inv: "int_inv eg s"
  shows "\<exists>s'. exit_function eg s = Inr s' \<and> length (sys_call_table s') = NR_syscalls s \<and>
    (\<forall>n < NR_syscalls s. sys_call_table s' ! n = left_behind eg s n)"
proof -
  let ?N = "NR_syscalls s"
  have len: "length (table s) = Suc ?N" "length (sys_call_table s) = ?N" "0 < eg" "eg < ?N"
    and fr: "\<not> pidlist_lock s" "\<not> calltable_lock s" and pte: "sct_pte s AND PAGE_RW_BIT = 0" "sct_pte s \<noteq> 0"
    and og: "orig_custom_syscall s = Orig 0" "orig_exit_group s = Orig 0"
    and top: "intercepted (table s ! ?N) = 0"
    using inv by (auto simp: int_inv_def MY_CUSTOM_SYSCALL_def)
  let ?l = "s\<lparr>calltable_lock := True\<rparr>"
  let ?s2 = "?l\<lparr>sct_pte := sct_pte s OR PAGE_RW_BIT, sys_call_table := (sys_call_table s)[0 := Orig 0]\<rparr>"
  define s3 where "s3 = s\<lparr>sys_call_table := (sys_call_table s)[0 := Orig 0, eg := Orig 0]\<rparr>"
  have w1: "write_sct MY_CUSTOM_SYSCALL (orig_custom_syscall ?l) (set_addr_rw ?l) = Inr ?s2"
    using set_addr_rw_write [of ?l 0 "Orig 0"] pte len og by (simp add: MY_CUSTOM_SYSCALL_def)
  have w2: "write_sct eg (orig_exit_group ?s2) ?s2 =
      Inr (?s2\<lparr>sys_call_table := (sys_call_table s)[0 := Orig 0, eg := Orig 0]\<rparr>)"
    using rw_on [of ?s2 eg "Orig 0"] rw_bit_set len og by simp
  have start: "exit_function eg s = for_entries exit_entry [1 ..< Suc (NR_syscalls s3)] s3"
    using fr w1 w2 pte unfolding s3_def
    by (cases s) (simp add: exit_function_def lock_calltable_def unlock_calltable_def set_addr_ro_def pte_back NR_syscalls_def
        del: upt_Suc)
  have N3: "NR_syscalls s3 = ?N" by (simp add: s3_def NR_syscalls_def)
  have tab3: "table s3 = table s" by (simp add: s3_def)
  have ml: "my_list (table s ! i) \<noteq> None" if "1 \<le> i" "i \<le> ?N" for i
    using int_inv_entry [OF inv that] by (simp add: mytable_ok_def)
  obtain s' where s': "for_entries exit_entry [1 ..< Suc ?N] s3 = Inr s'" "same_frame s3 s'"
    "\<forall>j. sys_call_table s' ! j = (if 1 \<le> j \<and> j \<le> ?N \<and> intercepted (table s3 ! j) = 1
       then orig_f (table s3 ! j) else sys_call_table s3 ! j)"
    using exit_loop [of s3 ?N] fr pte len ml top by (auto simp: s3_def simp del: upt_Suc)
  have "sys_call_table s' ! n = left_behind eg s n" if n: "n < ?N" for n
  proof (cases "n = 0")
    case True
    then show ?thesis using s'(3) len n by (simp add: s3_def left_behind_def)
  next
    case False
    have c: "call_ok eg n (table s ! n) (sys_call_table s ! n)" using int_inv_call [OF inv _ n] False by simp
    have bit: "intercepted (table s ! n) = 0 \<or> intercepted (table s ! n) = 1"
      using int_inv_entry [OF inv, of n] False n by (auto simp: mytable_ok_def)
    have "sys_call_table s3 ! n = (if n = eg then Orig 0 else sys_call_table s ! n)"
      using len False n by (simp add: s3_def nth_list_update)
    then show ?thesis using s'(3) False n bit c len
      by (auto simp: left_behind_def call_ok_def base_call_def MY_CUSTOM_SYSCALL_def tab3 view_def entry_view_def)
  qed
  moreover have "length (sys_call_table s') = ?N" using s'(2) len by (simp add: same_frame_def s3_def)
  ultimately show ?thesis using start s'(1) N3 by auto
qed

section \<open>One past the table\<close>

lemma intercept_past_table:
  assumes inv: "int_inv eg s" and root: "current_uid env = 0"
  shows "my_syscall env REQUEST_SYSCALL_INTERCEPT (int (NR_syscalls s)) pid s = Inl Out_Of_Bounds"
proof -
  let ?N = "NR_syscalls s"
  have N: "0 < ?N" "length (sys_call_table s) = ?N" "intercepted (table s ! ?N) = 0"
    using inv by (auto simp: int_inv_def)
  have f: "free_at s ?N (table s ! ?N)" using N by (intro int_inv_free [OF inv]) auto
  have chk: "intercept_check ?N s = Inr (None, s)"
    using f N by (cases s) (auto simp: free_at_def intercept_check_def section_defs)
  have inst: "intercept_install ?N s = Inl Out_Of_Bounds"
    using f N by (cases s) (auto simp: free_at_def intercept_install_def section_defs)
  show ?thesis using root N
    by (simp add: my_syscall_def MY_CUSTOM_SYSCALL_def cmd_intercept_def then_do_def chk inst)
qed

text \<open>The requests that do so; every other request for that number is refused.\<close>

definition past_table :: "nat \<Rightarrow> request \<Rightarrow> bool" where
  "past_table nr q \<longleftrightarrow> q_syscall q = int nr \<and> q_cmd q = REQUEST_SYSCALL_INTERCEPT \<and> current_uid (q_env q) = 0"

lemma not_intercepted_run:
  assumes f: "free_at s n t" and i: "intercepted t = 0"
  shows "cmd_release n s = Inr (Some (- EINVAL), s)" "cmd_monitor env start n pid s = Inr (Some (- EINVAL), s)"
  using f i by (cases s; auto simp: free_at_def cmd_release_def cmd_monitor_def section_defs)+

lemma request_past_table:
  assumes inv: "int_inv eg s" and q: "q_syscall q = int (NR_syscalls s)" "\<not> past_table (NR_syscalls s) q"
  shows "\<exists>r. my_syscall (q_env q) (q_cmd q) (q_syscall q) (q_pid q) s = Inr (r, s) \<and> r \<in> {- EPERM, - EINVAL}"
proof -
  let ?N = "NR_syscalls s"
  have N: "0 < ?N" "intercepted (table s ! ?N) = 0" using inv by (auto simp: int_inv_def)
  have f: "free_at s ?N (table s ! ?N)" using N by (intro int_inv_free [OF inv]) auto
  show ?thesis using q N(1) not_intercepted_run [OF f N(2)]
    by (auto simp: my_syscall_def MY_CUSTOM_SYSCALL_def past_table_def)
qed

text \<open>Any request: answered, with the tables consistent, or the access past the table.\<close>

lemma request_outcome:
  assumes inv: "int_inv eg s" and env: "env_ok (q_env q)"
  shows "if past_table (NR_syscalls s) q then my_syscall (q_env q) (q_cmd q) (q_syscall q) (q_pid q) s = Inl Out_Of_Bounds
    else \<exists>r s'. my_syscall (q_env q) (q_cmd q) (q_syscall q) (q_pid q) s = Inr (r, s') \<and> int_inv eg s' \<and>
      NR_syscalls s' = NR_syscalls s"
proof (cases "past_table (NR_syscalls s) q")
  case True
  then show ?thesis using intercept_past_table [OF inv] by (simp add: past_table_def)
next
  case False
  show ?thesis
  proof (cases "q_syscall q = int (NR_syscalls s)")
    case True
    then show ?thesis using request_past_table [OF inv True False] False inv by auto
  next
    case other: False
    then show ?thesis using request_impl [OF inv env other] False by auto
  qed
qed

lemma run_requests_outcome:
  assumes "int_inv eg s" and "\<forall>q \<in> set qs. env_ok (q_env q)"
  shows "if \<exists>q \<in> set qs. past_table (NR_syscalls s) q then run_requests qs s = Inl Out_Of_Bounds
    else \<exists>rs s'. run_requests qs s = Inr (rs, s') \<and> length rs = length qs \<and> int_inv eg s'"
  using assms
proof (induction qs arbitrary: s)
  case Nil
  then show ?case by simp
next
  case (Cons q qs)
  note o = request_outcome [OF Cons.prems(1), of q]
  show ?case
  proof (cases "past_table (NR_syscalls s) q")
    case True
    then show ?thesis using o Cons.prems(2) by simp
  next
    case False
    then obtain r s1 where s1: "my_syscall (q_env q) (q_cmd q) (q_syscall q) (q_pid q) s = Inr (r, s1)"
      "int_inv eg s1" "NR_syscalls s1 = NR_syscalls s"
      using o Cons.prems(2) by auto
    show ?thesis using Cons.IH [OF s1(2)] Cons.prems(2) s1 False by (auto split: if_splits)
  qed
qed

section \<open>Two requests to intercept at once\<close>

text \<open>
  Both requests pass the check of \<open>intercepted\<close> (lines 358-364) before either
  installs the interceptor (lines 366-371): the steps of the two processors in
  one of the orders the locks allow.
\<close>

definition racing_intercepts :: "nat \<Rightarrow> section_body" where
  "racing_intercepts n =
    then_do (intercept_check n) (then_do (intercept_check n)
      (then_do (then_do (intercept_install n) (intercept_mark n))
               (then_do (intercept_install n) (intercept_mark n))))"

lemma install_mark_run:
  assumes f: "free_at s n t" and n: "n < length (sys_call_table s)"
    and pte: "sct_pte s AND PAGE_RW_BIT = 0" "sct_pte s \<noteq> 0"
  shows "then_do (intercept_install n) (intercept_mark n) s =
    Inr (None, set_call n (t\<lparr>orig_f := sys_call_table s ! n, intercepted := 1\<rparr>) Interceptor s)"
proof -
  let ?s1 = "s\<lparr>calltable_lock := True, table := (table s)[n := t\<lparr>orig_f := sys_call_table s ! n\<rparr>]\<rparr>"
  have w: "write_sct n Interceptor (set_addr_rw ?s1) =
      Inr (?s1\<lparr>sct_pte := sct_pte s OR PAGE_RW_BIT, sys_call_table := (sys_call_table s)[n := Interceptor]\<rparr>)"
    using set_addr_rw_write [of ?s1 n Interceptor] pte n by simp
  have inst: "intercept_install n s =
      Inr (None, s\<lparr>table := (table s)[n := t\<lparr>orig_f := sys_call_table s ! n\<rparr>],
        sys_call_table := (sys_call_table s)[n := Interceptor]\<rparr>)"
    using f n w pte by (cases s) (auto simp: free_at_def intercept_install_def section_defs set_addr_ro_def pte_back)
  show ?thesis using f inst
    by (cases s) (auto simp: then_do_def intercept_mark_def free_at_def section_defs set_call_def)
qed

lemma invoke_forever:
  assumes f: "free_at s n t" and t: "mytable_ok t" "mon_of t = Only {}" "orig_f t = Interceptor"
    and n: "sint (ax reg) = int n"
  shows "invoke k env Interceptor reg s = Inl Out_Of_Fuel"
proof (induction k)
  case (Suc k)
  have "interceptor_log env reg s = Inr (Interceptor, s)"
    using interceptor_log_run [OF f t(1) n, of env] t by (simp add: log_call_def)
  then show ?case using Suc by simp
qed simp

lemma racing_intercepts_loop:
  assumes inv: "int_inv eg s" and n: "1 \<le> call_no reg" "call_no reg < NR_syscalls s" "NR_syscalls s \<le> 2 ^ 31"
    and v0: "view s (call_no reg) = None"
  shows "\<exists>s'. racing_intercepts (call_no reg) s = Inr (None, s') \<and>
    (\<forall>k env. dispatch k env reg s' = Inl Out_Of_Fuel)"
proof -
  let ?n = "call_no reg" let ?t = "table s ! call_no reg"
  have f: "free_at s ?n ?t" and ok: "mytable_ok ?t" using int_inv_free [OF inv] int_inv_entry [OF inv] n by auto
  have nl: "?n < length (sys_call_table s)" and pte: "sct_pte s AND PAGE_RW_BIT = 0" "sct_pte s \<noteq> 0"
    using inv n by (auto simp: int_inv_def)
  have i0: "intercepted ?t = 0" using v0 n ok by (auto simp: view_def entry_view_def mytable_ok_def split: if_splits)
  have z: "monitored ?t = 0" "pids ?t = []" using ok i0 by (auto simp: mytable_ok_def)
  have chk: "intercept_check ?n s = Inr (None, s)"
    using f i0 by (cases s) (auto simp: free_at_def intercept_check_def section_defs)
  let ?t1 = "?t\<lparr>orig_f := sys_call_table s ! ?n, intercepted := 1\<rparr>"
  let ?s1 = "set_call ?n ?t1 Interceptor s"
  have f1: "free_at ?s1 ?n ?t1" using f by (simp add: free_at_def set_call_def)
  have pte1: "sct_pte ?s1 AND PAGE_RW_BIT = 0" "sct_pte ?s1 \<noteq> 0" and nl1: "?n < length (sys_call_table ?s1)"
    and g1: "sys_call_table ?s1 ! ?n = Interceptor"
    using pte nl by (simp_all add: set_call_def)
  let ?t2 = "?t1\<lparr>orig_f := Interceptor, intercepted := 1\<rparr>"
  let ?s2 = "set_call ?n ?t2 Interceptor ?s1"
  have run: "racing_intercepts ?n s = Inr (None, ?s2)"
    using chk install_mark_run [OF f nl pte] install_mark_run [OF f1 nl1 pte1]
    unfolding racing_intercepts_def g1 by (simp add: then_do_def)
  have f2: "free_at ?s2 ?n ?t2" and g2: "sys_call_table ?s2 ! ?n = Interceptor" "?n < length (sys_call_table ?s2)"
    using f1 nl1 by (simp_all add: free_at_def set_call_def)
  have t2: "mytable_ok ?t2" "mon_of ?t2 = Only {}" "orig_f ?t2 = Interceptor"
    using ok z by (simp_all add: mytable_ok_def mon_of_def)
  have "dispatch k env reg ?s2 = Inl Out_Of_Fuel" for k env
    using invoke_forever [OF f2 t2 sint_call_no] n g2 by (simp add: dispatch_def call_no_def [symmetric])
  then show ?thesis using run by blast
qed

section \<open>The flag that outlives the last pid\<close>

lemma stop_all_leftover:
  assumes f: "free_at s n t" and ok: "mytable_ok t" and v0: "entry_view t = Some (Only {})" "monitored t = 0"
    and env: "env_ok env" "current_uid env = 0" "kmalloc_ok env"
    and pid: "0 < pid" "task_uid env pid \<noteq> None"
  shows "cmd_monitor env False n 0 s = Inr (Some (- EINVAL), s)"
    and "\<exists>s'. then_do (cmd_monitor env True n pid) (cmd_monitor env False n pid) s = Inr (None, s') \<and>
      entry_view (table s' ! n) = Some (Only {}) \<and>
      (\<exists>s''. cmd_monitor env False n 0 s' = Inr (None, s''))"
proof -
  have i: "intercepted t = 1" using v0 by (auto simp: entry_view_def split: if_splits)
  have p: "pids t = []" using ok v0 by (simp add: mytable_ok_def)
  have pe: "pid_error env pid = None" using pid env by (simp add: pid_error_def)
  have nl: "n < length (table s)" using f by (simp add: free_at_def)
  show "cmd_monitor env False n 0 s = Inr (Some (- EINVAL), s)"
    using cmd_monitor_run [OF f ok env(1), of False 0] i v0 env same_entry [OF f]
    by (simp add: monitor_entry_def all_entry_def put_entry_def)
  let ?t1 = "t\<lparr>my_list := Some [pid], listcount := 2 + listcount t, monitored := 1\<rparr>"
  let ?t2 = "?t1\<lparr>my_list := Some [], listcount := listcount t\<rparr>"
  let ?s1 = "s\<lparr>table := (table s)[n := ?t1]\<rparr>" let ?s2 = "?s1\<lparr>table := (table ?s1)[n := ?t2]\<rparr>"
  have ok1: "mytable_ok ?t1" using ok i p by (rule mytable_ok_first)
  have f1: "free_at ?s1 n ?t1" using f by (simp add: free_at_def)
  have ok2: "mytable_ok ?t2" using ok i p by (simp add: mytable_ok_def)
  have f2: "free_at ?s2 n ?t2" using f by (simp add: free_at_def)
  have r1: "cmd_monitor env True n pid s = Inr (None, ?s1)"
    using cmd_monitor_run [OF f ok env(1), of True pid] i v0 pe pid env p
    by (simp add: monitor_entry_def start_entry_def put_entry_def with_pid_def)
  have r2: "cmd_monitor env False n pid ?s1 = Inr (None, ?s2)"
    using cmd_monitor_run [OF f1 ok1 env(1), of False pid] i pe pid
    by (simp add: monitor_entry_def stop_entry_def put_entry_def without_pid_def)
  have r3: "\<exists>s''. cmd_monitor env False n 0 ?s2 = Inr (None, s'')"
    using cmd_monitor_run [OF f2 ok2 env(1), of False 0] i env
    by (simp add: monitor_entry_def all_entry_def put_entry_def)
  have "entry_view (table ?s2 ! n) = Some (Only {})"
    using nl i by (simp add: entry_view_def mon_of_def)
  then show "\<exists>s'. then_do (cmd_monitor env True n pid) (cmd_monitor env False n pid) s = Inr (None, s') \<and>
      entry_view (table s' ! n) = Some (Only {}) \<and> (\<exists>s''. cmd_monitor env False n 0 s' = Inr (None, s''))"
    using r1 r2 r3 unfolding then_do_def by (intro exI [of _ ?s2]) simp
qed

end
