(* ===== verification/Int_Threads.thy ===== *)
theory Int_Threads
  imports Int_Race
begin

text \<open>
  Requests that run at the same time.  A request goes through the critical sections
  of \<open>my_syscall\<close> one by one, and other requests may run between two of them: a
  step of the machine is one critical section of one request.  A section holds
  its lock from the first to the last instruction.  Two sections under different locks
  may overlap on the machine; they share the flag \<open>monitored\<close> only.
\<close>

section \<open>A request section by section\<close>

text \<open>
  The next section of a request: those of the interception (lines 358-375) and the release
  (384-402), the check of lines 406-411 and 503-508, those for all pids (420-432, 517-527),
  and those for one pid: the look at \<open>monitored\<close>, the change of the list for the value
  seen, and lines 493-495.
\<close>

datatype stage = Begin | Int_Check | Int_Install | Int_Mark | Rel_Check | Rel_Restore | Rel_Clear
  | Mon_Check | All_Check | All_Clear | All_Mark | Pid_Look | Pid_List int | Pid_Mark | Done int

definition goto :: "stage \<Rightarrow> (int option \<times> kstate) res \<Rightarrow> (stage \<times> kstate) res" where
  "goto st x = bindE x (\<lambda>(r, s). Inr (case r of None \<Rightarrow> st | Some e \<Rightarrow> Done e, s))"

text \<open>Lines 345-356 and the like, before the first lock is taken.\<close>

definition begin_stage :: "nat \<Rightarrow> request \<Rightarrow> stage" where
  "begin_stage nr q =
    (if q_syscall q < 0 \<or> int nr < q_syscall q \<or> q_syscall q = int MY_CUSTOM_SYSCALL then Done (- EINVAL)
     else if q_cmd q = REQUEST_SYSCALL_INTERCEPT then (if current_uid (q_env q) \<noteq> 0 then Done (- EPERM) else Int_Check)
     else if q_cmd q = REQUEST_SYSCALL_RELEASE then (if current_uid (q_env q) \<noteq> 0 then Done (- EPERM) else Rel_Check)
     else if q_cmd q = REQUEST_START_MONITORING \<or> q_cmd q = REQUEST_STOP_MONITORING then Mon_Check
     else Done (- EINVAL))"

text \<open>Lines 413-444 and 510-538, between two sections.\<close>

definition pid_stage :: "request \<Rightarrow> kstate \<Rightarrow> (stage \<times> kstate) res" where
  "pid_stage q s =
    (if q_pid q = 0 then Inr (if current_uid (q_env q) \<noteq> 0 then Done (- EPERM) else All_Check, s)
     else goto Pid_Look (check_pid_arg (q_env q) (q_pid q) s))"

definition look_stage :: "bool \<Rightarrow> mytable \<Rightarrow> stage" where
  "look_stage start t = (if \<not> start \<and> monitored t = 0 then Done (- EINVAL) else Pid_List (monitored t))"

definition is_start :: "request \<Rightarrow> bool" where
  "is_start q \<longleftrightarrow> q_cmd q = REQUEST_START_MONITORING"

definition list_step :: "request \<Rightarrow> int \<Rightarrow> kstate \<Rightarrow> (stage \<times> kstate) res" where
  "list_step q m s =
    (let n = nat (q_syscall q); pid = q_pid q; env = q_env q in
     if is_start q then
       (if m = 2 then goto (Done 0) (with_pidlist (unless_member False n pid (- EBUSY) (del_counted pid n)) s)
        else if m = 1 then goto (Done 0) (with_pidlist (unless_member True n pid (- EBUSY) (add_counted env pid n)) s)
        else goto Pid_Mark (with_pidlist (add_counted env pid n) s))
     else
       (if m = 1 then goto (Done 0) (with_pidlist (unless_member False n pid (- EINVAL) (del_counted pid n)) s)
        else goto (Done 0) (with_pidlist (unless_member True n pid (- EINVAL) (add_counted env pid n)) s)))"

definition thread_step :: "request \<Rightarrow> stage \<Rightarrow> kstate \<Rightarrow> (stage \<times> kstate) res" where
  "thread_step q st s =
    (let n = nat (q_syscall q) in
     case st of
       Begin \<Rightarrow> Inr (begin_stage (NR_syscalls s) q, s)
     | Int_Check \<Rightarrow> goto Int_Install (intercept_check n s)
     | Int_Install \<Rightarrow> goto Int_Mark (intercept_install n s)
     | Int_Mark \<Rightarrow> goto (Done 0) (intercept_mark n s)
     | Rel_Check \<Rightarrow> goto Rel_Restore (with_pidlist (return_if n (\<lambda>t. intercepted t = 0) (- EINVAL)) s)
     | Rel_Restore \<Rightarrow> goto Rel_Clear (release_restore n s)
     | Rel_Clear \<Rightarrow> goto (Done 0) (with_pidlist (then_do (destroy_list n) (upd_entry n (\<lambda>t. t\<lparr>intercepted := 0\<rparr>))) s)
     | Mon_Check \<Rightarrow> bindE (with_pidlist (return_if n (\<lambda>t. intercepted t = 0) (- EINVAL)) s) (\<lambda>(r, s).
         case r of None \<Rightarrow> pid_stage q s | Some e \<Rightarrow> Inr (Done e, s))
     | All_Check \<Rightarrow> goto All_Clear (with_calltable
         (if is_start q then return_if n (\<lambda>t. monitored t = 2) (- EBUSY) else return_if n (\<lambda>t. monitored t = 0) (- EINVAL)) s)
     | All_Clear \<Rightarrow> goto (if is_start q then All_Mark else Done 0) (with_pidlist (destroy_list n) s)
     | All_Mark \<Rightarrow> goto (Done 0) (with_calltable (upd_entry n (\<lambda>t. t\<lparr>monitored := 2\<rparr>)) s)
     | Pid_Look \<Rightarrow> bindE (lock_calltable s) (\<lambda>s0. bindE (rd (table s0) n) (\<lambda>t. bindE (unlock_calltable s0) (\<lambda>s1.
         Inr (look_stage (is_start q) t, s1))))
     | Pid_List m \<Rightarrow> list_step q m s
     | Pid_Mark \<Rightarrow> goto (Done 0) (with_calltable (upd_entry n (\<lambda>t. t\<lparr>monitored := 1\<rparr>)) s)
     | Done r \<Rightarrow> Inr (Done r, s))"

text \<open>A request by itself, with a bound on the number of sections.\<close>

fun run_thread :: "nat \<Rightarrow> request \<Rightarrow> stage \<Rightarrow> kstate \<Rightarrow> (int \<times> kstate) res" where
  "run_thread k q (Done r) s = Inr (r, s)"
| "run_thread 0 q st s = Inl Out_Of_Fuel"
| "run_thread (Suc k) q st s = bindE (thread_step q st s) (\<lambda>(st', s'). run_thread k q st' s')"

text \<open>The result of a function that ends in a critical section.\<close>

definition finish :: "(int option \<times> kstate) res \<Rightarrow> (int \<times> kstate) res" where
  "finish x = bindE x (\<lambda>(r, s). Inr (case r of None \<Rightarrow> 0 | Some e \<Rightarrow> e, s))"

lemma run_goto:
  "bindE (goto st x) (\<lambda>(st', s'). run_thread k q st' s') =
    bindE x (\<lambda>(r, s). case r of None \<Rightarrow> run_thread k q st s | Some e \<Rightarrow> Inr (e, s))"
  by (cases x) (auto simp: goto_def split: option.split)

lemma finish_cases: "bindE x (\<lambda>(r, s). case r of None \<Rightarrow> Inr (0, s) | Some e \<Rightarrow> Inr (e, s)) = finish x"
  by (cases x) (auto simp: finish_def split: option.split)

lemma run_goto_done: "bindE (goto (Done 0) x) (\<lambda>(st', s'). run_thread k q st' s') = finish x"
  by (cases x) (auto simp: goto_def finish_def split: option.split)

lemma finish_then_do:
  "finish (then_do a b s) = bindE (a s) (\<lambda>(r, s). case r of None \<Rightarrow> finish (b s) | Some e \<Rightarrow> Inr (e, s))"
  by (cases "a s") (auto simp: finish_def then_do_def split: option.split)

section \<open>One request after the other\<close>

text \<open>The sections of a request, run without others between them, are \<open>my_syscall\<close>.\<close>

lemma my_syscall_finish:
  "my_syscall env cmd sysc pid s =
    (if sysc < 0 \<or> int (NR_syscalls s) < sysc \<or> sysc = int MY_CUSTOM_SYSCALL then Inr (- EINVAL, s)
     else finish (if cmd = REQUEST_SYSCALL_INTERCEPT then
                (if current_uid env \<noteq> 0 then Inr (Some (- EPERM), s) else cmd_intercept (nat sysc) s)
              else if cmd = REQUEST_SYSCALL_RELEASE then
                (if current_uid env \<noteq> 0 then Inr (Some (- EPERM), s) else cmd_release (nat sysc) s)
              else if cmd = REQUEST_START_MONITORING then cmd_monitor env True (nat sysc) pid s
              else if cmd = REQUEST_STOP_MONITORING then cmd_monitor env False (nat sysc) pid s
              else Inr (Some (- EINVAL), s)))"
  by (simp add: my_syscall_def finish_def)

lemma finish_Inr: "finish (Inr (r, s)) = Inr (case r of None \<Rightarrow> 0 | Some e \<Rightarrow> e, s)"
  by (simp add: finish_def)

lemma run_thread_Suc:
  "run_thread (Suc k) q st s = (case st of Done r \<Rightarrow> Inr (r, s) | _ \<Rightarrow>
    bindE (thread_step q st s) (\<lambda>(st', s'). run_thread k q st' s'))"
  by (cases st) simp_all

declare run_thread.simps [simp del]

lemma run_thread_done [simp]: "run_thread k q (Done r) s = Inr (r, s)"
  by (simp add: run_thread.simps)

lemma run_list:
  "run_thread (Suc (Suc k)) q (Pid_List m) s = finish
    (if is_start q then
       (if m = 2 then with_pidlist (unless_member False (nat (q_syscall q)) (q_pid q) (- EBUSY) (del_counted (q_pid q) (nat (q_syscall q)))) s
        else if m = 1 then with_pidlist (unless_member True (nat (q_syscall q)) (q_pid q) (- EBUSY) (add_counted (q_env q) (q_pid q) (nat (q_syscall q)))) s
        else then_do (with_pidlist (add_counted (q_env q) (q_pid q) (nat (q_syscall q))))
           (with_calltable (upd_entry (nat (q_syscall q)) (\<lambda>t. t\<lparr>monitored := 1\<rparr>))) s)
     else if m = 1 then with_pidlist (unless_member False (nat (q_syscall q)) (q_pid q) (- EINVAL) (del_counted (q_pid q) (nat (q_syscall q)))) s
     else with_pidlist (unless_member True (nat (q_syscall q)) (q_pid q) (- EINVAL) (add_counted (q_env q) (q_pid q) (nat (q_syscall q)))) s)"
  by (simp add: run_thread_Suc [of "Suc k"] thread_step_def list_step_def Let_def run_goto finish_cases finish_then_do
      run_thread_Suc [of k] cong: option.case_cong)

lemma run_pid:
  "run_thread (Suc (Suc (Suc k))) q Pid_Look s = finish
    (if is_start q then start_pid (q_env q) (nat (q_syscall q)) (q_pid q) s
     else stop_pid (q_env q) (nat (q_syscall q)) (q_pid q) s)"
proof -
  let ?n = "nat (q_syscall q)"
  have fin: "finish (bindE x f) = bindE x (\<lambda>y. finish (f y))" for x and f :: "'b \<Rightarrow> (int option \<times> kstate) res"
    by (cases x) (simp_all add: finish_def)
  have last: "run_thread (Suc (Suc k)) q (look_stage (is_start q) t) u = finish
      (if is_start q then
         (if monitored t = 2 then with_pidlist (unless_member False ?n (q_pid q) (- EBUSY) (del_counted (q_pid q) ?n)) u
          else if monitored t = 1 then with_pidlist (unless_member True ?n (q_pid q) (- EBUSY) (add_counted (q_env q) (q_pid q) ?n)) u
          else then_do (with_pidlist (add_counted (q_env q) (q_pid q) ?n))
             (with_calltable (upd_entry ?n (\<lambda>t. t\<lparr>monitored := 1\<rparr>))) u)
       else if monitored t = 0 then Inr (Some (- EINVAL), u)
       else if monitored t = 1 then with_pidlist (unless_member False ?n (q_pid q) (- EINVAL) (del_counted (q_pid q) ?n)) u
       else with_pidlist (unless_member True ?n (q_pid q) (- EINVAL) (add_counted (q_env q) (q_pid q) ?n)) u)" for t u
    by (auto simp: look_stage_def run_list finish_Inr)
  show ?thesis
    by (simp add: run_thread_Suc [of "Suc (Suc k)"] thread_step_def start_pid_def stop_pid_def fin last bindE_assoc
        Let_def)
qed

lemma run_all:
  "run_thread (Suc (Suc (Suc k))) q All_Check s = finish
    (if is_start q then
       then_do (with_calltable (return_if (nat (q_syscall q)) (\<lambda>t. monitored t = 2) (- EBUSY)))
       (then_do (with_pidlist (destroy_list (nat (q_syscall q))))
         (with_calltable (upd_entry (nat (q_syscall q)) (\<lambda>t. t\<lparr>monitored := 2\<rparr>)))) s
     else then_do (with_calltable (return_if (nat (q_syscall q)) (\<lambda>t. monitored t = 0) (- EINVAL)))
            (with_pidlist (destroy_list (nat (q_syscall q)))) s)"
  by (simp add: run_thread_Suc thread_step_def Let_def run_goto finish_cases finish_then_do
      cong: option.case_cong)

lemma run_monitor:
  assumes "is_start q \<or> q_cmd q = REQUEST_STOP_MONITORING"
  shows "run_thread (Suc (Suc (Suc (Suc k)))) q Mon_Check s = finish (cmd_monitor (q_env q) (is_start q) (nat (q_syscall q)) (q_pid q) s)"
proof -
  have args: "bindE (pid_stage q u) (\<lambda>(st', s'). run_thread (Suc (Suc (Suc k))) q st' s') = finish
      ((if q_pid q = 0 then (if is_start q then start_all (q_env q) (nat (q_syscall q)) else stop_all (q_env q) (nat (q_syscall q)))
       else then_do (check_pid_arg (q_env q) (q_pid q)) (if is_start q then start_pid (q_env q) (nat (q_syscall q)) (q_pid q)
         else stop_pid (q_env q) (nat (q_syscall q)) (q_pid q))) u)" for u
    by (auto simp: pid_stage_def run_goto run_pid run_all finish_then_do start_all_def stop_all_def finish_Inr
        cong: option.case_cong)
  show ?thesis
    by (cases "with_pidlist (return_if (nat (q_syscall q)) (\<lambda>t. intercepted t = 0) (- EINVAL)) s")
      (auto simp: run_thread_Suc [of "Suc (Suc (Suc k))"] thread_step_def Let_def cmd_monitor_def finish_then_do
        args split: option.split)
qed

text \<open>At most five sections: the check of the arguments and four more.\<close>

lemma run_thread_my_syscall:
  "run_thread 5 q Begin s = my_syscall (q_env q) (q_cmd q) (q_syscall q) (q_pid q) s"
proof -
  let ?n = "nat (q_syscall q)"
  have five: "5 = Suc (Suc (Suc (Suc (Suc 0))))" by simp
  have icpt: "run_thread (Suc (Suc (Suc (Suc 0)))) q Int_Check s = finish (cmd_intercept ?n s)"
    by (simp add: run_thread_Suc thread_step_def Let_def run_goto finish_cases finish_then_do cmd_intercept_def
        cong: option.case_cong)
  have rel: "run_thread (Suc (Suc (Suc (Suc 0)))) q Rel_Check s = finish (cmd_release ?n s)"
    by (simp add: run_thread_Suc thread_step_def Let_def run_goto finish_cases finish_then_do [of _ "then_do x y" for x y]
        finish_then_do [of "release_restore ?n"] cmd_release_def cong: option.case_cong)
  have mon: "run_thread (Suc (Suc (Suc (Suc 0)))) q Mon_Check s = finish (cmd_monitor (q_env q) (is_start q) ?n (q_pid q) s)"
    if "q_cmd q = REQUEST_START_MONITORING \<or> q_cmd q = REQUEST_STOP_MONITORING"
    using that by (intro run_monitor) (auto simp: is_start_def)
  show ?thesis unfolding five
    by (auto simp: run_thread_Suc [of "Suc (Suc (Suc (Suc 0)))"] thread_step_def begin_stage_def my_syscall_finish
        finish_Inr icpt rel mon is_start_def REQUEST_START_MONITORING_def REQUEST_STOP_MONITORING_def Let_def)
qed

end
