(* ===== verification/Int_Sched.thy ===== *)
theory Int_Sched
  imports Int_Threads
begin

text \<open>
  Interleavings of requests.  A critical section reads and writes the entries of its own
  system call only, so a step of a request is a step on that pair of entries.  No
  interleaving faults, locks up or takes more than five steps per request, and requests for
  different system calls have the results they have one after the other.
\<close>

section \<open>A step on the entries of one system call\<close>

type_synonym local_state = "stage \<times> mytable \<times> kfun"

definition args_stage :: "request \<Rightarrow> stage" where
  "args_stage q =
    (if q_pid q = 0 then (if current_uid (q_env q) \<noteq> 0 then Done (- EPERM) else All_Check)
     else case pid_error (q_env q) (q_pid q) of None \<Rightarrow> Pid_Look | Some e \<Rightarrow> Done e)"

definition add_entry :: "request \<Rightarrow> stage \<Rightarrow> mytable \<Rightarrow> stage \<times> mytable" where
  "add_entry q st t = (if kmalloc_ok (q_env q) then (st, with_pid (q_pid q) t) else (Done (- ENOMEM), t))"

definition del_entry :: "request \<Rightarrow> mytable \<Rightarrow> stage \<times> mytable" where
  "del_entry q t = (Done 0, (del_node (q_pid q) t)\<lparr>listcount := listcount (del_node (q_pid q) t) - 1\<rparr>)"

definition pid_list_entry :: "request \<Rightarrow> int \<Rightarrow> mytable \<Rightarrow> stage \<times> mytable" where
  "pid_list_entry q m t =
    (let i = q_pid q \<in> set (pids t) in
     if is_start q then
       (if m = 2 then (if \<not> i then (Done (- EBUSY), t) else del_entry q t)
        else if m = 1 then (if i then (Done (- EBUSY), t) else add_entry q (Done 0) t)
        else add_entry q Pid_Mark t)
     else
       (if m = 1 then (if \<not> i then (Done (- EINVAL), t) else del_entry q t)
        else (if i then (Done (- EINVAL), t) else add_entry q (Done 0) t)))"

definition local_step :: "nat \<Rightarrow> request \<Rightarrow> local_state \<Rightarrow> local_state" where
  "local_step nr q x = (case x of (st, t, g) \<Rightarrow>
    (case st of
       Begin \<Rightarrow> (begin_stage nr q, t, g)
     | Int_Check \<Rightarrow> (if intercepted t = 1 then Done (- EBUSY) else Int_Install, t, g)
     | Int_Install \<Rightarrow> (Int_Mark, t\<lparr>orig_f := g\<rparr>, Interceptor)
     | Int_Mark \<Rightarrow> (Done 0, t\<lparr>intercepted := 1\<rparr>, g)
     | Rel_Check \<Rightarrow> (if intercepted t = 0 then Done (- EINVAL) else Rel_Restore, t, g)
     | Rel_Restore \<Rightarrow> (Rel_Clear, t\<lparr>monitored := 0\<rparr>, orig_f t)
     | Rel_Clear \<Rightarrow> (Done 0, (cleared t)\<lparr>intercepted := 0\<rparr>, g)
     | Mon_Check \<Rightarrow> (if intercepted t = 0 then Done (- EINVAL) else args_stage q, t, g)
     | All_Check \<Rightarrow> (if is_start q \<and> monitored t = 2 then Done (- EBUSY)
         else if \<not> is_start q \<and> monitored t = 0 then Done (- EINVAL) else All_Clear, t, g)
     | All_Clear \<Rightarrow> (if is_start q then All_Mark else Done 0, cleared t, g)
     | All_Mark \<Rightarrow> (Done 0, t\<lparr>monitored := 2\<rparr>, g)
     | Pid_Look \<Rightarrow> (look_stage (is_start q) t, t, g)
     | Pid_List m \<Rightarrow> (case pid_list_entry q m t of (st', t') \<Rightarrow> (st', t', g))
     | Pid_Mark \<Rightarrow> (Done 0, t\<lparr>monitored := 1\<rparr>, g)
     | Done r \<Rightarrow> (Done r, t, g)))"

definition put_local :: "nat \<Rightarrow> kstate \<Rightarrow> local_state \<Rightarrow> stage \<times> kstate" where
  "put_local n s x = (fst x, set_call n (fst (snd x)) (snd (snd x)) s)"

lemma put_local_same:
  "free_at s n t \<Longrightarrow> put_local n s (st, t, sys_call_table s ! n) = (st, s)"
  using same_entry [of s n t] by (simp add: put_local_def set_call_same)

lemma put_local_table:
  "put_local n s (st, t, sys_call_table s ! n) = (st, s\<lparr>table := (table s)[n := t]\<rparr>)"
  by (simp add: put_local_def set_call_same)

lemma goto_section:
  assumes "free_at s n t" and "\<And>s. table s ! n = t \<Longrightarrow> n < length (table s) \<Longrightarrow>
    body s = Inr (r, s\<lparr>table := (table s)[n := t']\<rparr>)"
  shows "goto st (with_pidlist body s) = Inr (case r of None \<Rightarrow> st | Some e \<Rightarrow> Done e, s\<lparr>table := (table s)[n := t']\<rparr>)"
    and "goto st (with_calltable body s) = Inr (case r of None \<Rightarrow> st | Some e \<Rightarrow> Done e, s\<lparr>table := (table s)[n := t']\<rparr>)"
  using assms(1) assms(2) [of "s\<lparr>pidlist_lock := True\<rparr>"] assms(2) [of "s\<lparr>calltable_lock := True\<rparr>"]
  by (cases s; simp add: goto_def free_at_def section_defs)+

lemma list_step_local:
  assumes f: "free_at s n t" and n: "nat (q_syscall q) = n"
  shows "list_step q m s = Inr (put_local n s (case pid_list_entry q m t of (st', t') \<Rightarrow> (st', t', sys_call_table s ! n)))"
proof -
  have l: "my_list t = Some (pids t)" using f by (intro my_list_pids) (simp add: free_at_def)
  have test: "goto st (with_pidlist (unless_member b n p e body) s) =
      (if (p \<in> set (pids t)) = b then Inr (Done e, s) else goto st (with_pidlist body s))" for st b p e body
    using f l by (cases s) (auto simp: goto_def free_at_def section_defs)
  have del: "goto st (with_pidlist (del_counted p n) s) = Inr (st, s\<lparr>table := (table s)[n :=
      (del_node p t)\<lparr>listcount := listcount (del_node p t) - 1\<rparr>]\<rparr>)" if "p \<in> set (pids t)" for p st
    using f l that by (subst goto_section(1) [OF f, where r = None and t' = "(del_node p t)\<lparr>listcount := listcount (del_node p t) - 1\<rparr>"])
      (auto simp: section_defs)
  have add: "goto st (with_pidlist (add_counted env p n) s) = Inr (if kmalloc_ok env
      then (st, s\<lparr>table := (table s)[n := with_pid p t]\<rparr>) else (Done (- ENOMEM), s))" for env p st
    using f l same_entry [OF f] by (cases s) (auto simp: goto_def free_at_def section_defs with_pid_def ENOMEM_def)
  have self: "put_local n s (st, t, sys_call_table s ! n) = (st, s)" for st by (rule put_local_same [OF f])
  show ?thesis unfolding list_step_def Let_def n test add
    by (auto simp: pid_list_entry_def del_entry_def add_entry_def Let_def del self put_local_table same_entry [OF f])
qed

lemma thread_step_local:
  assumes f: "free_at s n t" and n: "nat (q_syscall q) = n" "n < length (sys_call_table s)"
    and pte: "sct_pte s AND PAGE_RW_BIT = 0" "sct_pte s \<noteq> 0" and env: "env_ok (q_env q)"
  shows "thread_step q st s = Inr (put_local n s (local_step (NR_syscalls s) q (st, t, sys_call_table s ! n)))"
proof -
  have l: "my_list t = Some (pids t)" using f by (intro my_list_pids) (simp add: free_at_def)
  have self: "put_local n s (st, t, sys_call_table s ! n) = (st, s)" for st by (rule put_local_same [OF f])
  have check: "goto st (with_pidlist (return_if n c e) s) = Inr (if c t then Done e else st, s)"
    "goto st (with_calltable (return_if n c e) s) = Inr (if c t then Done e else st, s)"
    "with_pidlist (return_if n c e) s = Inr (if c t then Some e else None, s)" for st c e
    using f by (cases s; auto simp: goto_def free_at_def section_defs)+
  have upd: "goto st (with_pidlist (upd_entry n h) s) = Inr (st, s\<lparr>table := (table s)[n := h t]\<rparr>)"
    "goto st (with_calltable (upd_entry n h) s) = Inr (st, s\<lparr>table := (table s)[n := h t]\<rparr>)" for st h
    using f by (cases s; auto simp: goto_def free_at_def section_defs)+
  show ?thesis
  proof (cases st)
    case Int_Check
    then show ?thesis using f n by (simp add: thread_step_def Let_def local_step_def intercept_check_def goto_def check self)
  next
    case Int_Install
    let ?s1 = "s\<lparr>calltable_lock := True, table := (table s)[n := t\<lparr>orig_f := sys_call_table s ! n\<rparr>]\<rparr>"
    have w: "write_sct n Interceptor (set_addr_rw ?s1) =
        Inr (?s1\<lparr>sct_pte := sct_pte s OR PAGE_RW_BIT, sys_call_table := (sys_call_table s)[n := Interceptor]\<rparr>)"
      using set_addr_rw_write [of ?s1 n Interceptor] pte n by simp
    show ?thesis using f n w pte Int_Install
      by (cases s) (auto simp: free_at_def thread_step_def local_step_def put_local_def set_call_def goto_def
          intercept_install_def section_defs set_addr_ro_def pte_back)
  next
    case Int_Mark
    then show ?thesis using n by (simp add: thread_step_def Let_def local_step_def intercept_mark_def upd put_local_table)
  next
    case Rel_Check
    then show ?thesis using n by (simp add: thread_step_def Let_def local_step_def goto_def check self)
  next
    case Rel_Restore
    let ?s1 = "s\<lparr>calltable_lock := True\<rparr>"
    have w: "write_sct n (orig_f t) (set_addr_rw ?s1) =
        Inr (?s1\<lparr>sct_pte := sct_pte s OR PAGE_RW_BIT, sys_call_table := (sys_call_table s)[n := orig_f t]\<rparr>)"
      using set_addr_rw_write [of ?s1 n "orig_f t"] pte n by simp
    show ?thesis using f n w pte Rel_Restore
      by (cases s) (auto simp: free_at_def thread_step_def local_step_def put_local_def set_call_def goto_def
          release_restore_def section_defs set_addr_ro_def pte_back)
  next
    case Rel_Clear
    then show ?thesis using f n l
      by (cases s) (auto simp: free_at_def thread_step_def local_step_def put_local_def set_call_def goto_def section_defs
          cleared_def)
  next
    case Mon_Check
    then show ?thesis using n
      by (auto simp: thread_step_def Let_def local_step_def check pid_stage_def args_stage_def goto_def
          check_pid_arg_run [OF env] self split: option.split)
  next
    case All_Check
    then show ?thesis using n by (cases "is_start q") (simp_all add: thread_step_def Let_def local_step_def check self)
  next
    case All_Clear
    then show ?thesis using f n l
      by (cases s) (auto simp: free_at_def thread_step_def local_step_def put_local_def set_call_def goto_def section_defs
          cleared_def)
  next
    case Pid_Look
    then show ?thesis using f n self
      by (cases s) (auto simp: free_at_def thread_step_def Let_def local_step_def lock_calltable_def unlock_calltable_def)
  next
    case (Pid_List m)
    then show ?thesis using list_step_local [OF f n(1)] by (simp add: thread_step_def local_step_def)
  qed (use n in \<open>simp_all add: thread_step_def Let_def local_step_def upd put_local_table same_entry [OF f]\<close>)
qed

section \<open>Schedules\<close>

type_synonym machine = "kstate \<times> (request \<times> stage) list"

text \<open>Any request that is not answered yet may take the next step.\<close>

inductive tick :: "machine \<Rightarrow> machine \<Rightarrow> bool" where
  tick: "j < length ts \<Longrightarrow> ts ! j = (q, st) \<Longrightarrow> \<forall>r. st \<noteq> Done r \<Longrightarrow> thread_step q st s = Inr (st', s') \<Longrightarrow>
    tick (s, ts) (s', ts[j := (q, st')])"

definition arrive :: "request list \<Rightarrow> (request \<times> stage) list" where
  "arrive qs = map (\<lambda>q. (q, Begin)) qs"

fun answer :: "request \<times> stage \<Rightarrow> int" where
  "answer (q, Done r) = r"
| "answer (q, st) = 0"

definition answered :: "(request \<times> stage) list \<Rightarrow> bool" where
  "answered ts \<longleftrightarrow> (\<forall>x \<in> set ts. \<exists>r. snd x = Done r)"

text \<open>The number of sections still to come, at most.\<close>

fun rank :: "stage \<Rightarrow> nat" where
  "rank Begin = 5" | "rank Mon_Check = 4"
| "rank Int_Check = 3" | "rank Rel_Check = 3" | "rank All_Check = 3" | "rank Pid_Look = 3"
| "rank Int_Install = 2" | "rank Rel_Restore = 2" | "rank All_Clear = 2" | "rank (Pid_List m) = 2"
| "rank Int_Mark = 1" | "rank Rel_Clear = 1" | "rank All_Mark = 1" | "rank Pid_Mark = 1"
| "rank (Done r) = 0"

lemma rank_0: "rank st = 0 \<longleftrightarrow> (\<exists>r. st = Done r)"
  by (cases st) simp_all

lemma local_step_rank:
  "\<forall>r. st \<noteq> Done r \<Longrightarrow> rank (fst (local_step nr q (st, t, g))) < rank st"
  by (cases st) (auto simp: local_step_def begin_stage_def args_stage_def look_stage_def pid_list_entry_def del_entry_def
      add_entry_def Let_def split: option.split)

text \<open>What every step keeps: free locks, the write protection, and the lists of the entries.\<close>

definition targets :: "nat \<Rightarrow> request \<Rightarrow> bool" where
  "targets nr q \<longleftrightarrow> 1 \<le> nat (q_syscall q) \<and> nat (q_syscall q) < nr"

definition cell :: "kstate \<Rightarrow> nat \<Rightarrow> mytable \<times> kfun" where
  "cell s n = (table s ! n, sys_call_table s ! n)"

text \<open>
  Where a request may stand. One for the number past the table is refused, after the check of its
  entry, unless it is one that goes past the system call table.
\<close>

definition thread_ok :: "nat \<Rightarrow> request \<Rightarrow> stage \<Rightarrow> bool" where
  "thread_ok nr q st \<longleftrightarrow> env_ok (q_env q) \<and>
     (targets nr q \<or> st = Begin \<or> st = Done (- EINVAL) \<or>
      q_syscall q = int nr \<and> ((\<exists>r. st = Done r) \<or> st = Rel_Check \<or> st = Mon_Check \<or>
        past_table nr q \<and> (st = Int_Check \<or> st = Int_Install)))"

definition past_end :: "nat \<Rightarrow> request \<Rightarrow> stage \<Rightarrow> bool" where
  "past_end nr q st \<longleftrightarrow> past_table nr q \<and> st = Int_Install"

definition machine_ok :: "nat \<Rightarrow> machine \<Rightarrow> bool" where
  "machine_ok nr c \<longleftrightarrow> length (table (fst c)) = Suc nr \<and> length (sys_call_table (fst c)) = nr \<and>
     \<not> pidlist_lock (fst c) \<and> \<not> calltable_lock (fst c) \<and>
     sct_pte (fst c) AND PAGE_RW_BIT = 0 \<and> sct_pte (fst c) \<noteq> 0 \<and>
     (\<forall>n. 1 \<le> n \<longrightarrow> n < nr \<longrightarrow> my_list (fst (cell (fst c) n)) \<noteq> None) \<and>
     my_list (fst (cell (fst c) nr)) \<noteq> None \<and> intercepted (fst (cell (fst c) nr)) = 0 \<and>
     (\<forall>(q, st) \<in> set (snd c). thread_ok nr q st)"

lemma local_step_list: "my_list t \<noteq> None \<Longrightarrow> my_list (fst (snd (local_step nr q (st, t, g)))) \<noteq> None"
  by (cases st) (auto simp: local_step_def cleared_def pid_list_entry_def del_entry_def add_entry_def with_pid_def
      del_node_def Let_def)

text \<open>A step of a request without entries in the two tables.\<close>

definition idle_stage :: "nat \<Rightarrow> request \<Rightarrow> stage \<Rightarrow> stage" where
  "idle_stage nr q st = (case st of Begin \<Rightarrow> begin_stage nr q | Int_Check \<Rightarrow> Int_Install | _ \<Rightarrow> Done (- EINVAL))"

definition step_of :: "nat \<Rightarrow> request \<Rightarrow> stage \<Rightarrow> kstate \<Rightarrow> stage \<times> kstate" where
  "step_of nr q st s =
    (if targets nr q then put_local (nat (q_syscall q)) s (local_step nr q (st, cell s (nat (q_syscall q))))
     else (idle_stage nr q st, s))"

lemma idle_step:
  assumes f: "free_at s nr t" and i: "intercepted t = 0" and nr: "NR_syscalls s = nr" and q: "q_syscall q = int nr"
    and st: "st = Begin \<or> st = Rel_Check \<or> st = Mon_Check \<or> st = Int_Check"
  shows "thread_step q st s = Inr (idle_stage nr q st, s)"
  using st f i nr q
  by (cases s) (auto simp: thread_step_def idle_stage_def free_at_def goto_def intercept_check_def section_defs Let_def)

lemma past_end_faults:
  assumes ok: "machine_ok nr (s, ts)" and p: "past_end nr q st"
  shows "thread_step q st s = Inl Out_Of_Bounds"
proof -
  have "\<not> pidlist_lock s" "\<not> calltable_lock s" "length (sys_call_table s) = nr" using ok by (simp_all add: machine_ok_def)
  then have "intercept_install nr s = Inl Out_Of_Bounds" by (simp add: intercept_install_def section_defs)
  then show ?thesis using p by (simp add: past_end_def past_table_def thread_step_def goto_def Let_def)
qed

lemma machine_ok_run:
  assumes ok: "machine_ok nr (s, ts)" and x: "(q, st) \<in> set ts" and st: "\<forall>r. st \<noteq> Done r"
    and np: "\<not> past_end nr q st"
  shows "thread_step q st s = Inr (step_of nr q st s)"
proof (cases "targets nr q")
  case True
  let ?n = "nat (q_syscall q)"
  have f: "free_at s ?n (table s ! ?n)" using ok True by (auto simp: machine_ok_def targets_def free_at_def cell_def)
  have "NR_syscalls s = nr" using ok by (simp add: machine_ok_def NR_syscalls_def)
  moreover have "env_ok (q_env q)" using ok x by (auto simp: machine_ok_def thread_ok_def)
  ultimately show ?thesis using thread_step_local [OF f refl, of st] ok True
    by (auto simp: machine_ok_def step_of_def cell_def targets_def)
next
  case False
  have t: "thread_ok nr q st" using ok x by (auto simp: machine_ok_def)
  have nr: "NR_syscalls s = nr" using ok by (simp add: machine_ok_def NR_syscalls_def)
  show ?thesis
  proof (cases "q_syscall q = int nr")
    case True
    have f: "free_at s nr (table s ! nr)" "intercepted (table s ! nr) = 0" using ok by (simp_all add: machine_ok_def free_at_def cell_def)
    have "st = Begin \<or> st = Rel_Check \<or> st = Mon_Check \<or> st = Int_Check"
      using t False st np by (auto simp: thread_ok_def past_end_def)
    then show ?thesis using idle_step [OF f nr True] False by (simp add: step_of_def)
  next
    case other: False
    then have "st = Begin" using t False st by (auto simp: thread_ok_def)
    moreover have "q_syscall q < 0 \<or> int nr < q_syscall q \<or> q_syscall q = 0"
      using False other unfolding targets_def by linarith
    ultimately show ?thesis using False nr
      by (auto simp: thread_step_def begin_stage_def step_of_def idle_stage_def MY_CUSTOM_SYSCALL_def)
  qed
qed

lemma thread_ok_idle:
  assumes "thread_ok nr q st" "\<not> targets nr q"
  shows "thread_ok nr q (idle_stage nr q st)"
proof (cases "q_syscall q = int nr")
  case True
  have "thread_ok nr q (begin_stage nr q)" using True assms(1) by (simp add: thread_ok_def begin_stage_def past_table_def)
  then show ?thesis using True assms by (cases st) (simp_all add: thread_ok_def idle_stage_def)
next
  case False
  then have "q_syscall q < 0 \<or> int nr < q_syscall q \<or> q_syscall q = 0"
    using assms(2) unfolding targets_def by linarith
  then show ?thesis using False assms by (auto simp: thread_ok_def idle_stage_def begin_stage_def MY_CUSTOM_SYSCALL_def)
qed

lemma cell_set_call:
  assumes "n < length (table s)" "n < length (sys_call_table s)"
  shows "cell (set_call n t g s) m = (if m = n then (t, g) else cell s m)"
  using assms by (simp add: cell_def set_call_def)

lemma step_of_keeps:
  assumes ok: "machine_ok nr (s, ts)" and x: "(q, st) \<in> set ts" and j: "j < length ts" and st: "step_of nr q st s = (st', s')"
  shows "machine_ok nr (s', ts[j := (q, st')])"
    and "targets nr q \<Longrightarrow> (st', cell s' (nat (q_syscall q))) = local_step nr q (st, cell s (nat (q_syscall q)))"
    and "\<not> targets nr q \<or> m \<noteq> nat (q_syscall q) \<Longrightarrow> cell s' m = cell s m"
    and "\<exists>tab sct. s' = s\<lparr>table := tab, sys_call_table := sct\<rparr>"
proof -
  let ?n = "nat (q_syscall q)"
  define y where "y = local_step nr q (st, cell s ?n)"
  have s': "if targets nr q then st' = fst y \<and> s' = set_call ?n (fst (snd y)) (snd (snd y)) s else st' = idle_stage nr q st \<and> s' = s"
    using st by (auto simp: step_of_def put_local_def y_def split: if_split_asm)
  have len: "length (table s) = Suc nr" "length (sys_call_table s) = nr" using ok by (simp_all add: machine_ok_def)
  have c: "cell s' m = (if targets nr q \<and> m = ?n then snd y else cell s m)" for m
    using s' len cell_set_call [of ?n s] by (auto simp: targets_def split: if_split_asm)
  have l: "my_list (fst (snd y)) \<noteq> None" if "targets nr q"
    using ok that local_step_list [of "fst (cell s ?n)" nr q st "snd (cell s ?n)"]
    by (auto simp: y_def machine_ok_def targets_def)
  have "thread_ok nr q st" using ok x by (auto simp: machine_ok_def)
  then have "thread_ok nr q st'" using s' thread_ok_idle by (cases "targets nr q") (auto simp: thread_ok_def)
  moreover have "cell s' nr = cell s nr" using c [of nr] by (auto simp: targets_def)
  moreover have "\<forall>n. 1 \<le> n \<longrightarrow> n < nr \<longrightarrow> my_list (fst (cell s' n)) \<noteq> None" using c l ok by (auto simp: machine_ok_def)
  moreover have "pidlist_lock s' = pidlist_lock s" "calltable_lock s' = calltable_lock s" "sct_pte s' = sct_pte s"
    "length (table s') = length (table s)" "length (sys_call_table s') = length (sys_call_table s)"
    using s' by (auto simp: set_call_def split: if_split_asm)
  ultimately show "machine_ok nr (s', ts[j := (q, st')])"
    using ok by (auto simp: machine_ok_def dest!: subsetD [OF set_update_subset_insert])
  show "(st', cell s' ?n) = local_step nr q (st, cell s ?n)" if "targets nr q"
    using s' c [of ?n] that by (simp add: y_def)
  show "cell s' m = cell s m" if "\<not> targets nr q \<or> m \<noteq> ?n" using c [of m] that by auto
  show "\<exists>tab sct. s' = s\<lparr>table := tab, sys_call_table := sct\<rparr>"
    using s' by (cases s) (auto simp: set_call_def split: if_split_asm)
qed

text \<open>The same step with the index of the request that takes it, and the schedules made of them.\<close>

inductive tick_by :: "nat \<Rightarrow> machine \<Rightarrow> machine \<Rightarrow> bool" where
  tick_by: "j < length ts \<Longrightarrow> ts ! j = (q, st) \<Longrightarrow> \<forall>r. st \<noteq> Done r \<Longrightarrow> thread_step q st s = Inr (st', s') \<Longrightarrow>
    tick_by j (s, ts) (s', ts[j := (q, st')])"

inductive schedule :: "machine \<Rightarrow> nat list \<Rightarrow> machine \<Rightarrow> bool" where
  schedule_nil: "schedule c [] c"
| schedule_step: "schedule c js c1 \<Longrightarrow> tick_by j c1 c2 \<Longrightarrow> schedule c (js @ [j]) c2"

lemma tick_iff: "tick c c' \<longleftrightarrow> (\<exists>j. tick_by j c c')"
  by (auto simp: tick.simps tick_by.simps)

lemma schedule_iff: "(tick ^^ k) c c' \<longleftrightarrow> (\<exists>js. length js = k \<and> schedule c js c')"
proof (induction k arbitrary: c')
  case 0
  have "schedule c [] c' \<longleftrightarrow> c = c'" by (subst schedule.simps) auto
  then show ?case by simp
next
  case (Suc k)
  have "(tick ^^ Suc k) c c' \<longleftrightarrow> (\<exists>c1. (tick ^^ k) c c1 \<and> tick c1 c')" by (simp add: relcompp_apply del: split_paired_Ex)
  also have "\<dots> \<longleftrightarrow> (\<exists>c1 js j. length js = k \<and> schedule c js c1 \<and> tick_by j c1 c')"
    unfolding Suc tick_iff by blast
  also have "\<dots> \<longleftrightarrow> (\<exists>js. length js = Suc k \<and> schedule c js c')"
    by (subst schedule.simps) (auto simp: length_Suc_conv_rev simp del: split_paired_Ex)
  finally show ?case .
qed

lemma tick_by_step:
  assumes "tick_by j c c'" and "machine_ok nr c"
  obtains q st where "j < length (snd c)" "snd c ! j = (q, st)" "\<forall>r. st \<noteq> Done r"
    "c' = (snd (step_of nr q st (fst c)), (snd c)[j := (q, fst (step_of nr q st (fst c)))])"
  using assms
proof (cases rule: tick_by.cases)
  case (tick_by ts q st s st' s')
  then have x: "(q, st) \<in> set ts" by (metis nth_mem)
  have ok: "machine_ok nr (s, ts)" using assms(2) tick_by by simp
  have "\<not> past_end nr q st" using past_end_faults [OF ok] tick_by by auto
  then have "step_of nr q st s = (st', s')" using machine_ok_run [OF ok x] tick_by by auto
  then show ?thesis using tick_by that [of q st] by simp
qed

lemma tick_step:
  assumes "tick c c'" and "machine_ok nr c"
  obtains j q st where "j < length (snd c)" "snd c ! j = (q, st)" "\<forall>r. st \<noteq> Done r"
    "c' = (snd (step_of nr q st (fst c)), (snd c)[j := (q, fst (step_of nr q st (fst c)))])"
  using assms tick_by_step unfolding tick_iff by metis

lemma tick_ok: "tick c c' \<Longrightarrow> machine_ok nr c \<Longrightarrow> machine_ok nr c'"
proof (erule (1) tick_step)
  fix j q st assume ok: "machine_ok nr c" and j: "j < length (snd c)" "snd c ! j = (q, st)"
    and c': "c' = (snd (step_of nr q st (fst c)), (snd c)[j := (q, fst (step_of nr q st (fst c)))])"
  have "machine_ok nr (fst c, snd c)" "(q, st) \<in> set (snd c)" using ok j by (auto simp: in_set_conv_nth)
  then show "machine_ok nr c'" unfolding c' using j(1) by (rule step_of_keeps(1)) simp
qed

definition work :: "machine \<Rightarrow> nat" where
  "work c = sum_list (map (rank \<circ> snd) (snd c))"

lemma step_of_rank:
  assumes "\<forall>r. st \<noteq> Done r"
  shows "rank (fst (step_of nr q st s)) < rank st"
proof -
  have "0 < rank st" using assms rank_0 by (metis gr0I)
  then show ?thesis using local_step_rank [OF assms, of nr q "fst (cell s (nat (q_syscall q)))" "snd (cell s (nat (q_syscall q)))"]
    by (cases st) (auto simp: step_of_def put_local_def idle_stage_def begin_stage_def)
qed

lemma sum_list_update_less:
  "j < length xs \<Longrightarrow> y < xs ! j \<Longrightarrow> sum_list (xs[j := y]) < sum_list (xs :: nat list)"
proof (induction xs arbitrary: j)
  case (Cons x xs)
  then show ?case by (cases j) simp_all
qed simp

lemma tick_work: "tick c c' \<Longrightarrow> machine_ok nr c \<Longrightarrow> work c' < work c"
  by (erule (1) tick_step) (auto simp: work_def map_update step_of_rank intro!: sum_list_update_less)

text \<open>Every step of a request brings it nearer to its end, and no step of another takes it back.\<close>

lemma tick_by_rank:
  assumes "tick_by j c c'" and "machine_ok nr c"
  shows "length (snd c') = length (snd c)" "j < length (snd c)"
    and "i < length (snd c) \<Longrightarrow> (if i = j then 1 else 0) + rank (snd (snd c' ! i)) \<le> rank (snd (snd c ! i))"
proof -
  obtain q st where t: "j < length (snd c)" "snd c ! j = (q, st)" "\<forall>r. st \<noteq> Done r"
    "c' = (snd (step_of nr q st (fst c)), (snd c)[j := (q, fst (step_of nr q st (fst c)))])"
    by (rule tick_by_step [OF assms])
  show "length (snd c') = length (snd c)" "j < length (snd c)" using t by simp_all
  show "(if i = j then 1 else 0) + rank (snd (snd c' ! i)) \<le> rank (snd (snd c ! i))" if "i < length (snd c)"
    using t that step_of_rank [OF t(3), of nr q "fst c"] by (cases "i = j") simp_all
qed

lemma schedule_sections:
  assumes "schedule c js c'" and "machine_ok nr c"
  shows "machine_ok nr c' \<and> length (snd c') = length (snd c) \<and> set js \<subseteq> {..< length (snd c)} \<and>
    (\<forall>i < length (snd c). count_list js i + rank (snd (snd c' ! i)) \<le> rank (snd (snd c ! i)))"
  using assms
proof induction
  case (schedule_step c js c1 j c2)
  have i: "machine_ok nr c1" "length (snd c1) = length (snd c)" "set js \<subseteq> {..< length (snd c)}"
    "\<forall>i < length (snd c). count_list js i + rank (snd (snd c1 ! i)) \<le> rank (snd (snd c ! i))"
    using schedule_step.IH [OF schedule_step.prems] by blast+
  note t = tick_by_rank [OF schedule_step.hyps(2) i(1)]
  have "machine_ok nr c2" using tick_ok schedule_step.hyps(2) i(1) tick_iff by blast
  moreover have "count_list (js @ [j]) n + rank (snd (snd c2 ! n)) \<le> rank (snd (snd c ! n))" if "n < length (snd c)" for n
    using t(3) [of n] i(2,4) that by (fastforce split: if_split_asm)
  ultimately show ?case using t(1,2) i(2,3) by auto
qed simp

section \<open>Safety\<close>

text \<open>The functions a system call may have in the table, and those that may be saved.\<close>

definition known :: "nat \<Rightarrow> nat \<Rightarrow> kfun \<Rightarrow> bool" where
  "known eg n g \<longleftrightarrow> g = base_call eg n \<or> g = Interceptor"

definition cell_safe :: "nat \<Rightarrow> nat \<Rightarrow> mytable \<times> kfun \<Rightarrow> bool" where
  "cell_safe eg n x \<longleftrightarrow> intercepted (fst x) \<in> {0, 1} \<and> known eg n (snd x) \<and>
     (intercepted (fst x) = 1 \<longrightarrow> known eg n (orig_f (fst x)))"

definition saved_stage :: "stage \<Rightarrow> bool" where
  "saved_stage st \<longleftrightarrow> st = Int_Mark \<or> st = Rel_Restore"

lemma pid_list_entry_frame:
  "intercepted (snd (pid_list_entry q m t)) = intercepted t" "orig_f (snd (pid_list_entry q m t)) = orig_f t"
  "\<not> saved_stage (fst (pid_list_entry q m t))"
  by (simp_all add: pid_list_entry_def del_entry_def add_entry_def with_pid_def del_node_def saved_stage_def Let_def)

lemma begin_not_saved: "\<not> saved_stage (begin_stage nr q)"
  by (simp add: begin_stage_def saved_stage_def)

lemma args_not_saved: "\<not> saved_stage (args_stage q)"
  by (simp add: args_stage_def saved_stage_def split: option.split)

lemma look_not_saved: "\<not> saved_stage (look_stage b t)"
  by (simp add: look_stage_def saved_stage_def)

lemma saved_stage_simps [simp]:
  "\<not> saved_stage (Done r)" "\<not> saved_stage Int_Install" "\<not> saved_stage Rel_Clear" "\<not> saved_stage All_Clear"
  "\<not> saved_stage All_Mark" "saved_stage Int_Mark" "saved_stage Rel_Restore"
  by (simp_all add: saved_stage_def)

lemma local_step_frame:
  "saved_stage (fst (local_step nr q (st, t, g))) \<Longrightarrow> st = Int_Install \<or> st = Rel_Check \<and> intercepted t \<noteq> 0"
  "snd (snd (local_step nr q (st, t, g))) =
     (if st = Int_Install then Interceptor else if st = Rel_Restore then orig_f t else g)"
  "orig_f (fst (snd (local_step nr q (st, t, g)))) = (if st = Int_Install then g else orig_f t)"
  "intercepted (fst (snd (local_step nr q (st, t, g)))) =
     (if st = Int_Mark then 1 else if st = Rel_Clear then 0 else intercepted t)"
  by (cases st; simp add: local_step_def begin_not_saved args_not_saved look_not_saved pid_list_entry_frame cleared_def
      case_prod_beta split: if_split_asm)+

lemma local_step_safe:
  assumes c: "cell_safe eg n (t, g)" and st: "saved_stage st \<Longrightarrow> known eg n (orig_f t)"
    and y: "local_step nr q (st, t, g) = (st', t', g')"
  shows "cell_safe eg n (t', g')" and "saved_stage st' \<Longrightarrow> known eg n (orig_f t')"
    and "known eg n (orig_f t) \<Longrightarrow> known eg n (orig_f t')"
proof -
  note e = local_step_frame [of nr q st t g, unfolded y, simplified]
  have k: "known eg n g" "intercepted t = 1 \<Longrightarrow> known eg n (orig_f t)" "intercepted t = 0 \<or> intercepted t = 1"
    using c by (auto simp: cell_safe_def)
  show "known eg n (orig_f t) \<Longrightarrow> known eg n (orig_f t')" using e(3) k(1) by simp
  show "saved_stage st' \<Longrightarrow> known eg n (orig_f t')" using e(1,3) k by (auto split: if_split_asm)
  have "known eg n g'" using e(2) k(1) st by (simp add: known_def split: if_split_asm)
  moreover have "known eg n (orig_f t')" if "intercepted t' = 1" using e(3,4) k st that by (simp split: if_split_asm)
  ultimately show "cell_safe eg n (t', g')" using e(4) k(3) by (simp add: cell_safe_def split: if_split_asm)
qed

definition table_safe :: "nat \<Rightarrow> nat \<Rightarrow> machine \<Rightarrow> bool" where
  "table_safe nr eg c \<longleftrightarrow> (\<forall>n. 1 \<le> n \<longrightarrow> n < nr \<longrightarrow> cell_safe eg n (cell (fst c) n)) \<and>
     (\<forall>(q, st) \<in> set (snd c). saved_stage st \<longrightarrow>
        known eg (nat (q_syscall q)) (orig_f (table (fst c) ! nat (q_syscall q))))"

lemma tick_safe:
  assumes "tick c c'" and ok: "machine_ok nr c" and safe: "table_safe nr eg c"
  shows "table_safe nr eg c'"
  using assms(1) ok
proof (rule tick_step)
  fix j q st assume j: "j < length (snd c)" "snd c ! j = (q, st)"
    and c': "c' = (snd (step_of nr q st (fst c)), (snd c)[j := (q, fst (step_of nr q st (fst c)))])"
  let ?n = "nat (q_syscall q)"
  obtain st' s' where e: "step_of nr q st (fst c) = (st', s')" by fastforce
  have x: "(q, st) \<in> set (snd c)" and ok': "machine_ok nr (fst c, snd c)" using ok j by (auto simp: in_set_conv_nth)
  note k = step_of_keeps [OF ok' x j(1) e]
  show "table_safe nr eg c'"
  proof (cases "targets nr q")
    case False
    then have "s' = fst c" "st' = idle_stage nr q st" using e by (simp_all add: step_of_def)
    moreover have "\<not> saved_stage (idle_stage nr q st)" by (cases st) (simp_all add: idle_stage_def begin_not_saved)
    ultimately show ?thesis using safe c' e by (auto simp: table_safe_def dest!: subsetD [OF set_update_subset_insert])
  next
    case True
    obtain t g where tg: "cell (fst c) ?n = (t, g)" by fastforce
    obtain t' g' where tg': "cell s' ?n = (t', g')" by fastforce
    have loc: "local_step nr q (st, t, g) = (st', t', g')" using k(2) True tg tg' by simp
    have "cell_safe eg ?n (t, g)" using safe True tg by (auto simp: table_safe_def targets_def)
    moreover have "known eg ?n (orig_f t)" if "saved_stage st" using safe x that tg by (auto simp: table_safe_def cell_def)
    ultimately have l: "cell_safe eg ?n (t', g')" "saved_stage st' \<Longrightarrow> known eg ?n (orig_f t')"
      "known eg ?n (orig_f t) \<Longrightarrow> known eg ?n (orig_f t')"
      using local_step_safe [OF _ _ loc] by blast+
    have "known eg m (orig_f (table s' ! m))" if "known eg m (orig_f (table (fst c) ! m))" for m
      using that k(3) [of m] l(3) tg tg' by (cases "m = ?n") (auto simp: cell_def)
    moreover have "cell_safe eg m (cell s' m)" if "1 \<le> m" "m < nr" for m
      using that k(3) [of m] l(1) tg' safe by (cases "m = ?n") (auto simp: table_safe_def)
    moreover have "saved_stage st' \<Longrightarrow> known eg ?n (orig_f (table s' ! ?n))" using l(2) tg' by (simp add: cell_def)
    ultimately show ?thesis using safe c' e
      by (auto simp: table_safe_def dest!: subsetD [OF set_update_subset_insert])
  qed
qed

lemma arrive_ok:
  assumes inv: "int_inv eg s" and qs: "\<forall>q \<in> set qs. env_ok (q_env q)"
  shows "machine_ok (NR_syscalls s) (s, arrive qs)" and "table_safe (NR_syscalls s) eg (s, arrive qs)"
    and "work (s, arrive qs) = 5 * length qs"
proof -
  show "machine_ok (NR_syscalls s) (s, arrive qs)"
  proof -
    have "my_list (table s ! n) \<noteq> None" if "1 \<le> n" "n \<le> NR_syscalls s" for n
      using int_inv_entry [OF inv, of n] that by (simp add: mytable_ok_def)
    moreover have "0 < NR_syscalls s" "intercepted (table s ! NR_syscalls s) = 0" using inv by (simp_all add: int_inv_def)
    moreover have "length (table s) = Suc (NR_syscalls s)" "length (sys_call_table s) = NR_syscalls s"
      "\<not> pidlist_lock s" "\<not> calltable_lock s" "sct_pte s AND PAGE_RW_BIT = 0" "sct_pte s \<noteq> 0"
      using inv by (simp_all add: int_inv_def)
    ultimately show ?thesis using qs by (auto simp: machine_ok_def arrive_def cell_def thread_ok_def)
  qed
  have "cell_safe eg n (cell s n)" if n: "1 \<le> n" "n < NR_syscalls s" for n
  proof -
    have "intercepted (table s ! n) \<in> {0, 1}" using int_inv_entry [OF inv, of n] n by (simp add: mytable_ok_def)
    moreover have "call_ok eg n (table s ! n) (sys_call_table s ! n)" by (rule int_inv_call [OF inv n])
    ultimately show ?thesis by (auto simp: cell_safe_def cell_def known_def call_ok_def)
  qed
  then show "table_safe (NR_syscalls s) eg (s, arrive qs)"
    by (auto simp: table_safe_def arrive_def saved_stage_def)
  show "work (s, arrive qs) = 5 * length qs" by (simp add: work_def arrive_def o_def sum_list_triv)
qed

lemma ticks_ok:
  assumes "(tick ^^ k) c c'" and "machine_ok nr c" "table_safe nr eg c"
  shows "machine_ok nr c' \<and> table_safe nr eg c' \<and> work c' + k \<le> work c"
  using assms(1)
proof (induction k arbitrary: c')
  case (Suc k)
  then obtain c1 where c1: "(tick ^^ k) c c1" "tick c1 c'" by auto
  note i = Suc.IH [OF c1(1)]
  then have "machine_ok nr c'" "table_safe nr eg c'" "work c' < work c1"
    using tick_ok [OF c1(2)] tick_safe [OF c1(2)] tick_work [OF c1(2)] by blast+
  then show ?case using i by simp
qed (use assms in simp)

lemma unanswered_ticks:
  assumes ok: "machine_ok nr c" and x: "(q, st) \<in> set (snd c)" "\<forall>r. st \<noteq> Done r" "\<not> past_end nr q st"
  shows "\<exists>c'. tick c c'"
proof -
  obtain j where j: "j < length (snd c)" "snd c ! j = (q, st)" using x(1) by (auto simp: in_set_conv_nth)
  obtain s ts where c: "c = (s, ts)" by fastforce
  have "thread_step q st s = Inr (step_of nr q st s)" using ok x c by (intro machine_ok_run [of _ _ ts]) auto
  then show ?thesis using j x c tick.intros [of j ts q st s] by (cases "step_of nr q st s") auto
qed

lemma tick_requests: "tick c c' \<Longrightarrow> map fst (snd c') = map fst (snd c)"
  by (auto simp: tick.simps map_update list_update_same_conv)

lemma run_completes:
  "machine_ok nr c \<Longrightarrow> \<forall>q \<in> set (map fst (snd c)). \<not> past_table nr q \<Longrightarrow> \<exists>c'. tick\<^sup>*\<^sup>* c c' \<and> answered (snd c')"
proof (induction "work c" arbitrary: c rule: less_induct)
  case less
  show ?case
  proof (cases "answered (snd c)")
    case False
    then obtain q st where x: "(q, st) \<in> set (snd c)" "\<forall>r. st \<noteq> Done r" by (auto simp: answered_def)
    then have "\<not> past_end nr q st" using less.prems(2) by (force simp: past_end_def)
    then obtain c1 where c1: "tick c c1" using unanswered_ticks [OF less.prems(1) x] by blast
    have "\<forall>q \<in> set (map fst (snd c1)). \<not> past_table nr q" using less.prems(2) tick_requests [OF c1] by simp
    then obtain c' where "tick\<^sup>*\<^sup>* c1 c'" "answered (snd c')"
      using less.hyps [OF tick_work [OF c1 less.prems(1)] tick_ok [OF c1 less.prems(1)]] by blast
    then show ?thesis using c1 by (meson converse_rtranclp_into_rtranclp)
  qed blast
qed

lemma interleaving_safe:
  assumes inv: "int_inv eg s" and qs: "\<forall>q \<in> set qs. env_ok (q_env q)"
    and run: "schedule (s, arrive qs) js (s', ts)"
  shows "set js \<subseteq> {..< length qs}" "count_list js j \<le> 5"
    and "\<not> pidlist_lock s'" "\<not> calltable_lock s'" "sct_pte s' AND PAGE_RW_BIT = 0"
    and "1 \<le> n \<Longrightarrow> n < NR_syscalls s \<Longrightarrow> sys_call_table s' ! n \<in> {base_call eg n, Interceptor}"
    and "(q, st) \<in> set ts \<Longrightarrow> if past_end (NR_syscalls s) q st then thread_step q st s' = Inl Out_Of_Bounds
      else \<exists>x. thread_step q st s' = Inr x"
proof -
  note a = arrive_ok [OF inv qs]
  have ticks: "(tick ^^ length js) (s, arrive qs) (s', ts)" using run schedule_iff by blast
  have t: "machine_ok (NR_syscalls s) (s', ts)" "table_safe (NR_syscalls s) eg (s', ts)"
    using ticks_ok [OF ticks a(1,2)] by auto
  then show "\<not> pidlist_lock s'" "\<not> calltable_lock s'" "sct_pte s' AND PAGE_RW_BIT = 0"
    by (simp_all add: machine_ok_def)
  have sec: "set js \<subseteq> {..< length qs}" "\<And>i. i < length qs \<Longrightarrow> count_list js i \<le> 5"
    using schedule_sections [OF run a(1)] by (auto simp: arrive_def)
  then show "set js \<subseteq> {..< length qs}" by blast
  show "count_list js j \<le> 5"
  proof (cases "j < length qs")
    case False
    then have "j \<notin> set js" using sec(1) by auto
    then show ?thesis by (simp add: count_notin)
  qed (rule sec(2))
  show "sys_call_table s' ! n \<in> {base_call eg n, Interceptor}" if "1 \<le> n" "n < NR_syscalls s"
    using t(2) that by (auto simp: table_safe_def cell_safe_def known_def cell_def)
  show "if past_end (NR_syscalls s) q st then thread_step q st s' = Inl Out_Of_Bounds
      else \<exists>x. thread_step q st s' = Inr x" if "(q, st) \<in> set ts"
    using machine_ok_run [OF t(1) that] past_end_faults [OF t(1)]
    by (cases "\<forall>r. st \<noteq> Done r") (auto simp: thread_step_def Let_def past_end_def)
qed

end
