(* ===== verification/Int_Serial.thy ===== *)
theory Int_Serial
  imports Int_Sched
begin

text \<open>
  Requests for different system calls do not disturb one another: whatever the interleaving,
  their results and the state they leave are those of the requests one after the other.
\<close>

section \<open>A request on its entries, to the end\<close>

definition local_run :: "nat \<Rightarrow> request \<Rightarrow> mytable \<times> kfun \<Rightarrow> local_state" where
  "local_run nr q x = (local_step nr q ^^ 5) (Begin, x)"

lemma local_step_done [simp]: "local_step nr q (Done r, x) = (Done r, x)"
  by (cases x) (simp add: local_step_def)

lemma local_steps_done: "(local_step nr q ^^ k) (Done r, x) = (Done r, x)"
  by (induction k) simp_all

lemma local_steps_rank: "rank (fst ((local_step nr q ^^ k) (st, x))) \<le> rank st - k"
proof (induction k)
  case (Suc k)
  obtain st' t g where e: "(local_step nr q ^^ k) (st, x) = (st', t, g)" by (metis prod_cases3)
  then show ?case using Suc local_step_rank [of st' nr q t g] by (cases "\<forall>r. st' \<noteq> Done r") auto
qed simp

lemma local_run_done: "\<exists>r. fst (local_run nr q x) = Done r"
  using local_steps_rank [where k = 5 and st = Begin and nr = nr and q = q and x = x] by (simp add: local_run_def rank_0)

lemma local_run_unique:
  assumes y: "(local_step nr q ^^ k) (Begin, x) = (Done r, y)"
  shows "local_run nr q x = (Done r, y)"
proof (cases "k \<le> 5")
  case True
  then have "local_run nr q x = (local_step nr q ^^ (5 - k)) ((local_step nr q ^^ k) (Begin, x))"
    by (metis comp_apply funpow_add le_add_diff_inverse2 local_run_def)
  then show ?thesis using y local_steps_done by simp
next
  case False
  then have "k = (k - 5) + 5" by simp
  then have "(local_step nr q ^^ k) (Begin, x) = (local_step nr q ^^ (k - 5)) (local_run nr q x)"
    by (metis comp_apply funpow_add local_run_def)
  moreover obtain r' y' where "local_run nr q x = (Done r', y')" using local_run_done by (metis prod.collapse)
  ultimately show ?thesis using y local_steps_done by simp
qed

lemma put_local_again:
  "put_local n (snd (put_local n s y)) z = put_local n s z"
  by (simp add: put_local_def set_call_def)

lemma cell_put_local:
  "n < length (table s) \<Longrightarrow> n < length (sys_call_table s) \<Longrightarrow> cell (snd (put_local n s y)) n = snd y"
  by (simp add: put_local_def cell_set_call)

lemma run_thread_step:
  "\<forall>r. st \<noteq> Done r \<Longrightarrow> run_thread (Suc k) q st s = bindE (thread_step q st s) (\<lambda>(st', s'). run_thread k q st' s')"
  by (cases st; simp add: run_thread_Suc)

lemma run_thread_local:
  assumes ok: "machine_ok nr (s, [(q, st)])" and n: "targets nr q"
    and y: "(local_step nr q ^^ k) (st, cell s (nat (q_syscall q))) = (Done r, y)"
  shows "run_thread k q st s = Inr (r, snd (put_local (nat (q_syscall q)) s (Done r, y)))"
  using ok y
proof (induction k arbitrary: st s)
  case 0
  let ?n = "nat (q_syscall q)"
  have "free_at s ?n (table s ! ?n)" using 0(1) n by (auto simp: machine_ok_def targets_def free_at_def cell_def)
  then show ?case using 0(2) put_local_same [of s ?n "table s ! ?n"] by (auto simp: cell_def)
next
  case (Suc k)
  let ?n = "nat (q_syscall q)"
  show ?case
  proof (cases "\<exists>r. st = Done r")
    case True
    have "free_at s ?n (table s ! ?n)" using Suc(2) n by (auto simp: machine_ok_def targets_def free_at_def cell_def)
    then show ?thesis using True Suc.prems(2) put_local_same [of s ?n "table s ! ?n"]
      by (auto simp: cell_def funpow_swap1 local_steps_done)
  next
    case False
    obtain st' s' where e: "step_of nr q st s = (st', s')" by fastforce
    have "\<not> past_end nr q st" using n by (auto simp: past_end_def past_table_def targets_def)
    then have run: "thread_step q st s = Inr (st', s')" using machine_ok_run [OF Suc.prems(1)] False e by auto
    note k = step_of_keeps [OF Suc.prems(1) _ _ e, of 0]
    have ok': "machine_ok nr (s', [(q, st')])" using k(1) by simp
    have loc: "(st', cell s' ?n) = local_step nr q (st, cell s ?n)" using k(2) n by simp
    have "(local_step nr q ^^ k) (st', cell s' ?n) = (Done r, y)"
      using Suc.prems(2) unfolding loc by (simp add: funpow_swap1)
    then have "run_thread k q st' s' = Inr (r, snd (put_local ?n s' (Done r, y)))" by (rule Suc.IH [OF ok'])
    moreover have "s' = snd (put_local ?n s (local_step nr q (st, cell s ?n)))" using e n by (simp add: step_of_def)
    ultimately show ?thesis using run False put_local_again by (simp add: run_thread_step)
  qed
qed

section \<open>What the requests leave, whatever their order\<close>

definition result_of :: "nat \<Rightarrow> request \<Rightarrow> kstate \<Rightarrow> int" where
  "result_of nr q s = (if targets nr q then answer (q, fst (local_run nr q (cell s (nat (q_syscall q))))) else - EINVAL)"

definition same_shape :: "kstate \<Rightarrow> kstate \<Rightarrow> bool" where
  "same_shape s s' \<longleftrightarrow> s' = s\<lparr>table := table s', sys_call_table := sys_call_table s'\<rparr> \<and>
     length (table s') = length (table s) \<and> length (sys_call_table s') = length (sys_call_table s)"

definition settled :: "nat \<Rightarrow> request set \<Rightarrow> kstate \<Rightarrow> kstate \<Rightarrow> bool" where
  "settled nr Q s s' \<longleftrightarrow> same_shape s s' \<and>
     (\<forall>q \<in> Q. targets nr q \<longrightarrow>
        cell s' (nat (q_syscall q)) = snd (local_run nr q (cell s (nat (q_syscall q))))) \<and>
     (\<forall>m. (\<forall>q \<in> Q. targets nr q \<longrightarrow> m \<noteq> nat (q_syscall q)) \<longrightarrow> cell s' m = cell s m)"

lemma settled_unique:
  assumes "settled nr Q s a" "settled nr Q s b"
  shows "a = b"
proof -
  have c: "cell a m = cell b m" for m
  proof (cases "\<exists>q \<in> Q. targets nr q \<and> m = nat (q_syscall q)")
    case True
    then show ?thesis using assms by (auto simp: settled_def)
  next
    case False
    then have "cell a m = cell s m" "cell b m = cell s m" using assms by (auto simp: settled_def)
    then show ?thesis by simp
  qed
  then have "table a = table b" "sys_call_table a = sys_call_table b"
    using assms by (auto simp: settled_def same_shape_def cell_def intro!: nth_equalityI)
  moreover have "a = s\<lparr>table := table a, sys_call_table := sys_call_table a\<rparr>"
    "b = s\<lparr>table := table b, sys_call_table := sys_call_table b\<rparr>"
    using assms by (simp_all add: settled_def same_shape_def)
  ultimately show ?thesis by metis
qed

lemma same_shape_step:
  assumes "machine_ok nr (s, ts)" "(q, st) \<in> set ts" "j < length ts" "step_of nr q st s = (st', s')"
  shows "same_shape s s'"
proof -
  have "machine_ok nr (s', ts[j := (q, st')])" by (rule step_of_keeps(1) [OF assms])
  moreover obtain tab sct where "s' = s\<lparr>table := tab, sys_call_table := sct\<rparr>" using step_of_keeps(4) [OF assms] by blast
  ultimately show ?thesis using assms(1) by (simp add: same_shape_def machine_ok_def)
qed

lemma same_shape_trans: "same_shape a b \<Longrightarrow> same_shape b c \<Longrightarrow> same_shape a c"
  by (cases a; cases b; cases c) (simp add: same_shape_def)

lemma same_shape_refl [simp]: "same_shape s s"
  by (simp add: same_shape_def)

lemma machine_ok_shape:
  assumes "machine_ok nr (s, ts)" "same_shape s s'" and "\<forall>n. 1 \<le> n \<longrightarrow> n < nr \<longrightarrow> my_list (fst (cell s' n)) \<noteq> None"
    and "cell s' nr = cell s nr"
  shows "machine_ok nr (s', ts)"
  using assms by (cases s; cases s') (simp add: machine_ok_def same_shape_def)

lemma local_steps_list:
  "my_list (fst x) \<noteq> None \<Longrightarrow> my_list (fst (snd ((local_step nr q ^^ k) (st, x)))) \<noteq> None"
proof (induction k)
  case (Suc k)
  obtain st' t g where e: "(local_step nr q ^^ k) (st, x) = (st', t, g)" by (metis prod_cases3)
  then show ?case using Suc local_step_list [of t nr q st' g] by simp
qed simp

text \<open>One request by itself.\<close>

lemma my_syscall_settled:
  assumes ok: "machine_ok nr (s, [])" and q: "env_ok (q_env q)" "q_syscall q \<noteq> int nr"
  obtains s' where "my_syscall (q_env q) (q_cmd q) (q_syscall q) (q_pid q) s = Inr (result_of nr q s, s')"
    "settled nr {q} s s'" "machine_ok nr (s', [])"
proof (cases "targets nr q")
  case True
  let ?n = "nat (q_syscall q)"
  obtain r y where y: "local_run nr q (cell s ?n) = (Done r, y)" using local_run_done by (metis prod.collapse)
  let ?s' = "snd (put_local ?n s (Done r, y))"
  have one: "machine_ok nr (s, [(q, Begin)])" using ok q by (simp add: machine_ok_def thread_ok_def)
  have len: "?n < length (table s)" "?n < length (sys_call_table s)" using ok True by (auto simp: machine_ok_def targets_def)
  have "my_syscall (q_env q) (q_cmd q) (q_syscall q) (q_pid q) s = Inr (result_of nr q s, ?s')"
    using run_thread_local [OF one True y [unfolded local_run_def]] y True run_thread_my_syscall [of q s] by (simp add: result_of_def)
  moreover have "same_shape s ?s'" by (simp add: same_shape_def put_local_def set_call_def)
  moreover have "cell ?s' m = (if m = ?n then y else cell s m)" for m
    using cell_set_call [OF len] by (simp add: put_local_def)
  moreover have "my_list (fst y) \<noteq> None"
    using local_steps_list [of "cell s ?n" 5 nr q Begin] y ok True by (auto simp: local_run_def machine_ok_def targets_def)
  ultimately have s': "my_syscall (q_env q) (q_cmd q) (q_syscall q) (q_pid q) s = Inr (result_of nr q s, ?s')"
    "same_shape s ?s'" "\<And>m. cell ?s' m = (if m = ?n then y else cell s m)" "my_list (fst y) \<noteq> None" by blast+
  moreover have "machine_ok nr (?s', [])" using machine_ok_shape [OF ok s'(2)] s'(3,4) ok True by (simp add: machine_ok_def targets_def)
  ultimately show ?thesis using that [of ?s'] y True by (simp add: settled_def)
next
  case False
  have "NR_syscalls s = nr" using ok by (simp add: machine_ok_def NR_syscalls_def)
  moreover have "q_syscall q < 0 \<or> int nr < q_syscall q \<or> q_syscall q = 0"
    using False q(2) unfolding targets_def by linarith
  ultimately have "my_syscall (q_env q) (q_cmd q) (q_syscall q) (q_pid q) s = Inr (result_of nr q s, s)"
    using False by (auto simp: my_syscall_def result_of_def MY_CUSTOM_SYSCALL_def)
  then show ?thesis using that [of s] False ok by (simp add: settled_def)
qed

text \<open>One after the other, for different system calls.\<close>

lemma targets_inj: "targets nr q \<Longrightarrow> targets nr q' \<Longrightarrow> q_syscall q \<noteq> q_syscall q' \<Longrightarrow> nat (q_syscall q) \<noteq> nat (q_syscall q')"
  by (auto simp: targets_def)

lemma settled_then:
  assumes "settled nr {q} s s1" "settled nr Q s1 s2" and "\<forall>q' \<in> Q. q_syscall q' \<noteq> q_syscall q"
  shows "settled nr (insert q Q) s s2"
proof -
  have other: "cell s1 (nat (q_syscall q')) = cell s (nat (q_syscall q'))" if "q' \<in> Q" "targets nr q'" for q'
    using assms(1) targets_inj [OF that(2)] assms(3) that by (auto simp: settled_def)
  have "cell s2 (nat (q_syscall q)) = cell s1 (nat (q_syscall q))" if "targets nr q"
    using assms(2,3) targets_inj [OF _ that] unfolding settled_def by metis
  then show ?thesis
    using assms(1,2) other same_shape_trans [of s s1 s2] unfolding settled_def by fastforce
qed

lemma run_requests_settled:
  assumes "machine_ok nr (s, [])" and "\<forall>q \<in> set qs. env_ok (q_env q) \<and> q_syscall q \<noteq> int nr"
    and "distinct (map q_syscall qs)"
  shows "\<exists>s'. run_requests qs s = Inr (map (\<lambda>q. result_of nr q s) qs, s') \<and> settled nr (set qs) s s'"
  using assms
proof (induction qs arbitrary: s)
  case Nil
  then show ?case by (simp add: settled_def)
next
  case (Cons q qs)
  obtain s1 where s1: "my_syscall (q_env q) (q_cmd q) (q_syscall q) (q_pid q) s = Inr (result_of nr q s, s1)"
    "settled nr {q} s s1" "machine_ok nr (s1, [])"
    using my_syscall_settled [OF Cons.prems(1), of q] Cons.prems(2) by auto
  obtain s2 where s2: "run_requests qs s1 = Inr (map (\<lambda>q. result_of nr q s1) qs, s2)" "settled nr (set qs) s1 s2"
    using Cons.IH [OF s1(3)] Cons.prems(2,3) by auto
  have d: "\<forall>q' \<in> set qs. q_syscall q' \<noteq> q_syscall q" using Cons.prems(3) by (auto simp: rev_image_eqI)
  have "result_of nr q' s1 = result_of nr q' s" if "q' \<in> set qs" for q'
    using s1(2) d that targets_inj [of nr q' q] by (auto simp: result_of_def settled_def)
  then have "map (\<lambda>q. result_of nr q s1) qs = map (\<lambda>q. result_of nr q s) qs" by simp
  then show ?case using s1(1) s2 settled_then [OF s1(2) s2(2) d] by simp
qed

section \<open>Interleavings\<close>

text \<open>Where each request stands: some steps on its own entries have been taken.\<close>

definition on_the_way :: "nat \<Rightarrow> kstate \<Rightarrow> machine \<Rightarrow> bool" where
  "on_the_way nr s c \<longleftrightarrow> same_shape s (fst c) \<and>
     (\<forall>(q, st) \<in> set (snd c). targets nr q \<longrightarrow>
        (\<exists>k. (st, cell (fst c) (nat (q_syscall q))) = (local_step nr q ^^ k) (Begin, cell s (nat (q_syscall q))))) \<and>
     (\<forall>m. (\<forall>q \<in> fst ` set (snd c). targets nr q \<longrightarrow> m \<noteq> nat (q_syscall q)) \<longrightarrow> cell (fst c) m = cell s m)"

lemma tick_on_the_way:
  assumes "tick c c'" and ok: "machine_ok nr c" and way: "on_the_way nr s c" and d: "distinct (map (q_syscall \<circ> fst) (snd c))"
  shows "on_the_way nr s c' \<and> map fst (snd c') = map fst (snd c)"
  using assms(1) ok
proof (rule tick_step)
  fix j q st assume j: "j < length (snd c)" "snd c ! j = (q, st)"
    and c': "c' = (snd (step_of nr q st (fst c)), (snd c)[j := (q, fst (step_of nr q st (fst c)))])"
  let ?n = "nat (q_syscall q)"
  obtain st' s' where e: "step_of nr q st (fst c) = (st', s')" by fastforce
  have x: "(q, st) \<in> set (snd c)" and ok': "machine_ok nr (fst c, snd c)" using ok j by (auto simp: in_set_conv_nth)
  note k = step_of_keeps [OF ok' x j(1) e]
  have same: "map fst (snd c') = map fst (snd c)" using j by (simp add: c' map_update list_update_same_conv)
  have other: "cell s' (nat (q_syscall p)) = cell (fst c) (nat (q_syscall p))" if "i < length (snd c)" "i \<noteq> j" "snd c ! i = (p, u)" "targets nr p" for i p u
  proof -
    have "q_syscall p \<noteq> q_syscall q" using d that(1-3) j unfolding distinct_conv_nth by (metis comp_apply fst_conv length_map nth_map)
    then have "\<not> targets nr q \<or> nat (q_syscall p) \<noteq> ?n" using targets_inj that(4) by blast
    then show ?thesis by (rule k(3))
  qed
  have here: "\<exists>k. (st', cell s' ?n) = (local_step nr q ^^ k) (Begin, cell s ?n)" if t: "targets nr q"
  proof -
    obtain i where "(st, cell (fst c) ?n) = (local_step nr q ^^ i) (Begin, cell s ?n)" using way x t by (auto simp: on_the_way_def)
    then have "(st', cell s' ?n) = (local_step nr q ^^ Suc i) (Begin, cell s ?n)" using k(2) [OF t] by simp
    then show ?thesis by blast
  qed
  have "\<exists>k. (u, cell s' (nat (q_syscall p))) = (local_step nr p ^^ k) (Begin, cell s (nat (q_syscall p)))"
    if pu: "(p, u) \<in> set ((snd c)[j := (q, st')])" and t: "targets nr p" for p u
  proof -
    obtain i where i: "i < length (snd c)" "(snd c)[j := (q, st')] ! i = (p, u)" using pu by (auto simp: in_set_conv_nth)
    show ?thesis
    proof (cases "i = j")
      case True
      then show ?thesis using i here t by simp
    next
      case False
      then have "snd c ! i = (p, u)" using i by simp
      moreover from this have "(p, u) \<in> set (snd c)" using i by (metis nth_mem)
      ultimately show ?thesis using way t other [OF i(1) False] by (auto simp: on_the_way_def)
    qed
  qed
  moreover have "cell s' m = cell s m" if "\<forall>q \<in> fst ` set (snd c). targets nr q \<longrightarrow> m \<noteq> nat (q_syscall q)" for m
    using k(3) [of m] way that x by (auto simp: on_the_way_def rev_image_eqI)
  moreover have "same_shape s s'" using way same_shape_step [OF ok' x j(1) e] same_shape_trans by (auto simp: on_the_way_def)
  moreover have "fst ` set (snd c') = fst ` set (snd c)" using same by (metis list.set_map)
  ultimately show "on_the_way nr s c' \<and> map fst (snd c') = map fst (snd c)"
    using same c' e unfolding on_the_way_def by auto
qed

lemma ticks_on_the_way:
  assumes "tick\<^sup>*\<^sup>* c c'" and "machine_ok nr c" "on_the_way nr s c" "distinct (map (q_syscall \<circ> fst) (snd c))"
  shows "machine_ok nr c' \<and> on_the_way nr s c' \<and> map fst (snd c') = map fst (snd c)"
  using assms(1)
proof (induction rule: rtranclp_induct)
  case (step c1 c2)
  then have "map (q_syscall \<circ> fst) (snd c1) = map (q_syscall \<circ> fst) (snd c)" by (metis map_map)
  then have "distinct (map (q_syscall \<circ> fst) (snd c1))" using assms(4) by metis
  then show ?case using step.IH tick_ok [OF step.hyps(2)] tick_on_the_way [OF step.hyps(2)] by metis
qed (use assms in simp)

lemma interleaving_serial:
  assumes inv: "int_inv eg s" and qs: "\<forall>q \<in> set qs. env_ok (q_env q) \<and> q_syscall q \<noteq> int (NR_syscalls s)"
    and d: "distinct (map q_syscall qs)" and run: "tick\<^sup>*\<^sup>* (s, arrive qs) (s', ts)" and fin: "answered ts"
  shows "run_requests qs s = Inr (map answer ts, s')"
proof -
  let ?nr = "NR_syscalls s"
  have ok: "machine_ok ?nr (s, arrive qs)" by (rule arrive_ok(1) [OF inv]) (use qs in simp)
  have start: "on_the_way ?nr s (s, arrive qs)"
    by (auto simp: on_the_way_def arrive_def intro: exI [of _ 0])
  have fsts: "map fst (arrive qs) = qs" by (simp add: arrive_def o_def)
  have "machine_ok ?nr (s', ts) \<and> on_the_way ?nr s (s', ts) \<and> map fst ts = qs"
    using ticks_on_the_way [OF run ok start] d fsts by (simp add: arrive_def o_def)
  then have ok': "machine_ok ?nr (s', ts)" and way: "on_the_way ?nr s (s', ts)" and ts: "map fst ts = qs" by blast+
  have each: "\<exists>r. st = Done r \<and> r = result_of ?nr q s \<and>
      (targets ?nr q \<longrightarrow> cell s' (nat (q_syscall q)) = snd (local_run ?nr q (cell s (nat (q_syscall q)))))"
    if x: "(q, st) \<in> set ts" for q st
  proof -
    obtain r where r: "st = Done r" using fin x by (force simp: answered_def)
    show ?thesis
    proof (cases "targets ?nr q")
      case True
      then obtain k where "(local_step ?nr q ^^ k) (Begin, cell s (nat (q_syscall q))) = (Done r, cell s' (nat (q_syscall q)))"
        using way x r by (auto simp: on_the_way_def)
      then show ?thesis using local_run_unique r True by (simp add: result_of_def)
    next
      case False
      have "q \<in> set qs" using x ts by (metis fst_conv image_eqI set_map)
      then show ?thesis using False ok' x r qs by (auto simp: machine_ok_def thread_ok_def result_of_def)
    qed
  qed
  have "map answer ts = map (\<lambda>x. result_of ?nr (fst x) s) ts" using each by fastforce
  then have "map answer ts = map (\<lambda>q. result_of ?nr q s) qs" unfolding ts [symmetric] by simp
  moreover have "settled ?nr (set qs) s s'"
    using way each unfolding settled_def on_the_way_def ts [symmetric] by auto
  moreover obtain s'' where "run_requests qs s = Inr (map (\<lambda>q. result_of ?nr q s) qs, s'')" "settled ?nr (set qs) s s''"
    using run_requests_settled [OF _ qs d] arrive_ok(1) [OF inv, of "[]"] by (auto simp: arrive_def)
  ultimately show ?thesis using settled_unique by metis
qed

end
