(* ===== verification/Int_Props.thy ===== *)
theory Int_Props
  imports Int_Race Int_Serial
begin

text \<open>
  The properties of the system call interceptor, each with an instance on the
  state the module's entry leaves on a kernel with 8 system calls, of which
  number 3 is \<open>exit_group\<close>.
\<close>

section \<open>A kernel to try the properties on\<close>

text \<open>Process 1 is root's, process 2 a user's; the caller is process 1.\<close>

definition root_env :: kenv where
  "root_env = \<lparr>current_pid = 1, current_uid = 0,
     task_uid = (\<lambda>p. if p = 1 then Some 0 else if p = 2 then Some 1000 else None), kmalloc_ok = True\<rparr>"

definition call_regs :: "u32 \<Rightarrow> regs" where
  "call_regs n = \<lparr>ax = n, bx = 0, cx = 0, dx = 0, si = 0, di = 0, bp = 0\<rparr>"

lemma root_env_ok: "env_ok root_env" "current_uid root_env = 0" "kmalloc_ok root_env"
  "task_uid root_env 2 \<noteq> None" "current_pid root_env = 1"
  by (simp_all add: env_ok_def root_env_def)

lemma loaded:
  obtains s where "init_function 3 (boot 8) = Inr s" "int_inv 3 s" "NR_syscalls s = 8" "view s = (\<lambda>_. None)"
  using init_function_ok [of 3 8] by auto

text \<open>The same kernel after system call 5 has been intercepted.\<close>

lemma loaded_5:
  obtains s where "int_inv 3 s" "NR_syscalls s = 8" "view s = (\<lambda>_. None)(5 := Some (Only {}))"
proof -
  obtain s0 where s0: "int_inv 3 s0" "NR_syscalls s0 = 8" "view s0 = (\<lambda>_. None)" using loaded by blast
  then show ?thesis
    using my_syscall_impl [OF s0(1) _ _ root_env_ok(1), of 5 REQUEST_SYSCALL_INTERCEPT 0] that root_env_ok(2)
    by (auto simp: spec_syscall_def)
qed

text \<open>And after all processes are monitored for a system call, which may be \<open>exit_group\<close>.\<close>

lemma loaded_all:
  assumes n: "1 \<le> n" "n < 8"
  obtains s where "int_inv 3 s" "NR_syscalls s = 8" "view s = (\<lambda>_. None)(n := Some (Except {}))"
proof -
  obtain s where s: "int_inv 3 s" "NR_syscalls s = 8" "view s = (\<lambda>_. None)" using loaded by blast
  obtain s0 where s0: "int_inv 3 s0" "NR_syscalls s0 = 8" "view s0 = (\<lambda>_. None)(n := Some (Only {}))"
    using my_syscall_impl [OF s(1) n(1) _ root_env_ok(1), of REQUEST_SYSCALL_INTERCEPT 0] s n root_env_ok(2)
    by (auto simp: spec_syscall_def)
  then show ?thesis
    using my_syscall_impl [OF s0(1) n(1) _ root_env_ok(1), of REQUEST_START_MONITORING 0] that n root_env_ok(2)
    by (auto simp: spec_syscall_def REQUEST_START_MONITORING_def REQUEST_SYSCALL_INTERCEPT_def
        REQUEST_SYSCALL_RELEASE_def spec_monitor_def spec_all_def is_only_def)
qed

lemma call_no_regs: "call_no (call_regs 5) = 5" "call_no (call_regs 6) = 6" "call_no (call_regs 3) = 3"
  by (simp_all add: call_no_def call_regs_def)

section \<open>The module's system call\<close>

text \<open>C2: \<open>my_syscall\<close> refines its specification on the abstract view (which system calls are
  intercepted, and for each the set of pids watched or not watched): for every command,
  pid and caller it returns a result the specification allows and changes the view of its
  own system call as specified and of no other; tables, locks and protection stay
  consistent.\<close>

theorem my_syscall_refines_spec:
  assumes "int_inv eg s" and "1 \<le> n" "n < NR_syscalls s" and "env_ok env"
  shows "\<exists>r s'. my_syscall env cmd (int n) pid s = Inr (r, s') \<and> int_inv eg s' \<and>
    NR_syscalls s' = NR_syscalls s \<and> r \<in> fst (spec_syscall env cmd pid (view s n)) \<and>
    view s' = (view s)(n := snd (spec_syscall env cmd pid (view s n)))"
  using assms by (rule my_syscall_impl)

theorem my_syscall_refines_spec_witness:
  "\<exists>s s'. int_inv 3 s \<and> my_syscall root_env REQUEST_START_MONITORING 5 2 s = Inr (0, s') \<and>
    view s' 5 = Some (Only {2})"
proof -
  obtain s where s: "int_inv 3 s" "NR_syscalls s = 8" "view s = (\<lambda>_. None)(5 := Some (Only {}))"
    using loaded_5 by blast
  have "spec_syscall root_env REQUEST_START_MONITORING 2 (Some (Only {})) = ({0}, Some (Only {2}))"
    using root_env_ok
    by (simp add: spec_syscall_def REQUEST_START_MONITORING_def REQUEST_SYSCALL_INTERCEPT_def
        REQUEST_SYSCALL_RELEASE_def spec_monitor_def pid_error_def spec_start_def watch_def)
  then show ?thesis
    using my_syscall_refines_spec [OF s(1) _ _ root_env_ok(1), of 5 REQUEST_START_MONITORING 2] s by auto
qed

text \<open>C12: From the loading of the module on, a sequence of requests, with any commands, system call
  numbers, pids and callers, ends in one of two ways.  If one of them is root's request to
  intercept the number \<open>NR_syscalls\<close>, one past the system call table, which the argument check
  lets through, the run ends with the access out of bounds.  If none is, each request returns and
  the tables stay consistent: no lock is left held, the system call table is read-only, every
  entry is the interceptor exactly where a call is intercepted, and the original function is
  saved.\<close>

theorem requests_keep_invariant:
  assumes "0 < eg" and "eg < nr" and "\<forall>q \<in> set qs. env_ok (q_env q)"
  shows "\<exists>s0. init_function eg (boot nr) = Inr s0 \<and>
    (if \<exists>q \<in> set qs. q_syscall q = int nr \<and> q_cmd q = REQUEST_SYSCALL_INTERCEPT \<and> current_uid (q_env q) = 0
     then run_requests qs s0 = Inl Out_Of_Bounds
     else \<exists>rs s. run_requests qs s0 = Inr (rs, s) \<and> length rs = length qs \<and> int_inv eg s)"
proof -
  obtain s0 where s0: "init_function eg (boot nr) = Inr s0" "int_inv eg s0" "NR_syscalls s0 = nr"
    using init_function_ok [OF assms(1,2)] by blast
  then show ?thesis using run_requests_outcome [OF s0(2) assms(3)] unfolding past_table_def by (intro exI [of _ s0]) simp
qed

definition some_requests :: "int \<Rightarrow> request list" where
  "some_requests cmd = map (\<lambda>(c, n). \<lparr>q_env = root_env, q_cmd = c, q_syscall = n, q_pid = 0\<rparr>)
     [(REQUEST_SYSCALL_INTERCEPT, 5), (cmd, 8), (REQUEST_START_MONITORING, 5)]"

theorem requests_keep_invariant_witness:
  "\<exists>s0 rs s. init_function 3 (boot 8) = Inr s0 \<and>
    run_requests (some_requests REQUEST_SYSCALL_RELEASE) s0 = Inr (rs, s) \<and> length rs = 3 \<and> int_inv 3 s \<and>
    run_requests (some_requests REQUEST_SYSCALL_INTERCEPT) s0 = Inl Out_Of_Bounds"
proof -
  have q: "\<forall>q \<in> set (some_requests c). env_ok (q_env q)" for c by (simp add: some_requests_def root_env_ok)
  have no: "\<not> (\<exists>q \<in> set (some_requests REQUEST_SYSCALL_RELEASE). q_syscall q = int 8 \<and>
      q_cmd q = REQUEST_SYSCALL_INTERCEPT \<and> current_uid (q_env q) = 0)"
    by (simp add: some_requests_def REQUEST_SYSCALL_RELEASE_def REQUEST_SYSCALL_INTERCEPT_def)
  have yes: "\<exists>q \<in> set (some_requests REQUEST_SYSCALL_INTERCEPT). q_syscall q = int 8 \<and>
      q_cmd q = REQUEST_SYSCALL_INTERCEPT \<and> current_uid (q_env q) = 0"
    by (simp add: some_requests_def root_env_ok)
  have len: "length (some_requests c) = 3" for c by (simp add: some_requests_def)
  have eg: "(0::nat) < 3" "(3::nat) < 8" by simp_all
  obtain s0 rs s where r: "init_function 3 (boot 8) = Inr s0" "length rs = 3" "int_inv 3 s"
    "run_requests (some_requests REQUEST_SYSCALL_RELEASE) s0 = Inr (rs, s)"
    using requests_keep_invariant [OF eg q [of REQUEST_SYSCALL_RELEASE], unfolded if_not_P [OF no]] len by auto
  moreover have "run_requests (some_requests REQUEST_SYSCALL_INTERCEPT) s0 = Inl Out_Of_Bounds"
    using requests_keep_invariant [OF eg q [of REQUEST_SYSCALL_INTERCEPT], unfolded if_P [OF yes]] r(1) by auto
  ultimately show ?thesis by blast
qed

text \<open>Loading the module hijacks system call 0 and \<open>exit_group\<close> and intercepts nothing.\<close>

theorem init_function_contract:
  assumes "0 < eg" and "eg < nr"
  shows "\<exists>s. init_function eg (boot nr) = Inr s \<and> int_inv eg s \<and> NR_syscalls s = nr \<and>
    view s = (\<lambda>_. None) \<and> klog s = []"
  using assms by (rule init_function_ok)

theorem init_function_contract_witness:
  "\<exists>s. init_function 3 (boot 8) = Inr s \<and> int_inv 3 s \<and> NR_syscalls s = 8 \<and> view s = (\<lambda>_. None) \<and> klog s = []"
  by (rule init_function_contract) simp_all

section \<open>What processes see\<close>

text \<open>C13: An intercepted system call is logged if and only if the process is watched for it, and then
  the function saved at the interception runs with the registers of the caller.  For every
  system call but \<open>exit_group\<close> that is the original function, and nothing else changes.  For
  \<open>exit_group\<close> it is the module's \<open>my_exit_group\<close>: the process is dropped from the lists of all
  system calls, and the original function of system call 0 runs.\<close>

theorem intercepted_call_is_logged:
  assumes "int_inv eg s" and "1 \<le> call_no reg" "call_no reg < NR_syscalls s"
    and "NR_syscalls s \<le> 2 ^ 31" and "view s (call_no reg) = Some m"
  shows "let s1 = (if watches m (current_pid env) then s\<lparr>klog := klog s @ [(current_pid env, reg)]\<rparr> else s) in
    if call_no reg \<noteq> eg then dispatch (Suc k) env reg s = Inr (Ran (call_no reg) reg, s1)
    else \<exists>s'. dispatch (Suc (Suc k)) env reg s = Inr (Ran MY_CUSTOM_SYSCALL reg, s') \<and> klog s' = klog s1 \<and>
      int_inv eg s' \<and> view s' = (\<lambda>n. map_option (forget (current_pid env)) (view s n))"
proof (cases "call_no reg = eg")
  case True
  then show ?thesis using dispatch_intercepted_exit [OF assms(1) True assms(4), of m k env] assms(5)
    by (simp add: log_call_def Let_def split del: if_split)
next
  case False
  then show ?thesis using dispatch_intercepted [OF assms(1-3) False assms(4,5)] by (simp add: log_call_def Let_def)
qed

theorem intercepted_call_is_logged_witness:
  "(\<exists>s. int_inv 3 s \<and> dispatch 1 root_env (call_regs 5) s =
    Inr (Ran 5 (call_regs 5), s\<lparr>klog := klog s @ [(1, call_regs 5)]\<rparr>)) \<and>
   (\<exists>s s'. int_inv 3 s \<and> dispatch 2 root_env (call_regs 3) s = Inr (Ran 0 (call_regs 3), s') \<and>
    klog s' = klog s @ [(1, call_regs 3)] \<and> view s' 3 = Some (Except {}))"
proof
  obtain s where s: "int_inv 3 s" "NR_syscalls s = 8" "view s = (\<lambda>_. None)(5 := Some (Except {}))"
    using loaded_all [of 5] by auto
  then show "\<exists>s. int_inv 3 s \<and> dispatch 1 root_env (call_regs 5) s =
      Inr (Ran 5 (call_regs 5), s\<lparr>klog := klog s @ [(1, call_regs 5)]\<rparr>)"
    using intercepted_call_is_logged [OF s(1), of "call_regs 5" "Except {}" root_env 0] call_no_regs(1) root_env_ok(5)
    by auto
  obtain s where s: "int_inv 3 s" "NR_syscalls s = 8" "view s = (\<lambda>_. None)(3 := Some (Except {}))"
    using loaded_all [of 3] by auto
  then obtain s' where "dispatch (Suc (Suc 0)) root_env (call_regs 3) s = Inr (Ran MY_CUSTOM_SYSCALL (call_regs 3), s')"
    "klog s' = klog (s\<lparr>klog := klog s @ [(1, call_regs 3)]\<rparr>)"
    "view s' = (\<lambda>n. map_option (forget 1) (view s n))"
    using intercepted_call_is_logged [OF s(1), of "call_regs 3" "Except {}" root_env 0] call_no_regs(3) root_env_ok(5)
    by auto
  then show "\<exists>s s'. int_inv 3 s \<and> dispatch 2 root_env (call_regs 3) s = Inr (Ran 0 (call_regs 3), s') \<and>
      klog s' = klog s @ [(1, call_regs 3)] \<and> view s' 3 = Some (Except {})"
    using s by (intro exI [of _ s] exI [of _ s']) (simp add: numeral_2_eq_2 MY_CUSTOM_SYSCALL_def)
qed

text \<open>A system call that is not intercepted runs as before, and nothing is logged.\<close>

theorem other_call_is_untouched:
  assumes "int_inv eg s" and "1 \<le> call_no reg" "call_no reg < NR_syscalls s" "call_no reg \<noteq> eg"
    and "view s (call_no reg) = None"
  shows "dispatch k env reg s = Inr (Ran (call_no reg) reg, s)"
  using assms by (rule dispatch_untouched)

theorem other_call_is_untouched_witness:
  "\<exists>s. int_inv 3 s \<and> dispatch 0 root_env (call_regs 6) s = Inr (Ran 6 (call_regs 6), s)"
proof -
  obtain s where s: "int_inv 3 s" "NR_syscalls s = 8" "view s = (\<lambda>_. None)(5 := Some (Only {}))"
    using loaded_5 by blast
  then show ?thesis
    using other_call_is_untouched [OF s(1), of "call_regs 6" 0 root_env] call_no_regs(2) by auto
qed

text \<open>C36: A process that exits is dropped from the pid lists of all system calls; then the
  function saved in \<open>orig_exit_group\<close> runs, which is the system call of number 0 and not
  the one of \<open>exit_group\<close>.\<close>

theorem exit_group_forgets_pid:
  assumes "int_inv eg s"
  shows "\<exists>s'. my_exit_group env s = Inr (Orig MY_CUSTOM_SYSCALL, s') \<and> int_inv eg s' \<and>
    NR_syscalls s' = NR_syscalls s \<and> view s' = (\<lambda>n. map_option (forget (current_pid env)) (view s n))"
  using exit_group_hook [OF assms] by blast

theorem exit_group_forgets_pid_witness:
  "\<exists>s s'. int_inv 3 s \<and> my_exit_group root_env s = Inr (Orig 0, s') \<and> view s' 5 = Some (Only {})"
proof -
  obtain s where s: "int_inv 3 s" "NR_syscalls s = 8" "view s = (\<lambda>_. None)(5 := Some (Only {}))"
    using loaded_5 by blast
  then show ?thesis using exit_group_forgets_pid [OF s(1), of root_env]
    by (auto simp: MY_CUSTOM_SYSCALL_def)
qed

section \<open>Requests at the same time\<close>

text \<open>C21: Requests, with any commands, numbers, pids and callers, may be interleaved between their
  critical sections in any way (\<open>js\<close> is the order in which they take their steps).  Each takes at
  most five steps.  Whenever a request is to take its next step, no lock is held, so that it does
  not wait, and its section does not fault, with one exception: root's interception of the number
  \<open>NR_syscalls\<close>, whose second section goes past the system call table.  After every step the table
  is write protected and each system call has its own function or the interceptor.\<close>

theorem interleavings_are_safe:
  assumes "int_inv eg s" and "\<forall>q \<in> set qs. env_ok (q_env q)"
    and "schedule (s, arrive qs) js (s', ts)"
  shows "set js \<subseteq> {..< length qs} \<and> (\<forall>j. count_list js j \<le> 5) \<and>
    \<not> pidlist_lock s' \<and> \<not> calltable_lock s' \<and> sct_pte s' AND PAGE_RW_BIT = 0 \<and>
    (\<forall>n. 1 \<le> n \<longrightarrow> n < NR_syscalls s \<longrightarrow> sys_call_table s' ! n \<in> {base_call eg n, Interceptor}) \<and>
    (\<forall>(q, st) \<in> set ts.
      if q_syscall q = int (NR_syscalls s) \<and> q_cmd q = REQUEST_SYSCALL_INTERCEPT \<and> current_uid (q_env q) = 0 \<and>
        st = Int_Install
      then thread_step q st s' = Inl Out_Of_Bounds else \<exists>x. thread_step q st s' = Inr x)"
proof -
  note i = interleaving_safe [OF assms]
  have "\<forall>(q, st) \<in> set ts. if past_end (NR_syscalls s) q st then thread_step q st s' = Inl Out_Of_Bounds
      else \<exists>x. thread_step q st s' = Inr x"
    using i(7) by blast
  then show ?thesis using i(1-6) unfolding past_end_def past_table_def conj_assoc by blast
qed

definition both_intercept :: "request list" where
  "both_intercept = map (\<lambda>n. \<lparr>q_env = root_env, q_cmd = REQUEST_SYSCALL_INTERCEPT, q_syscall = n, q_pid = 0\<rparr>) [6, 6]"

lemma both_intercept_env: "\<forall>q \<in> set both_intercept. env_ok (q_env q)"
  by (simp add: both_intercept_def root_env_ok)

theorem interleavings_are_safe_witness:
  "\<exists>s. int_inv 3 s \<and> (\<forall>js s' ts. schedule (s, arrive both_intercept) js (s', ts) \<longrightarrow>
    count_list js 0 \<le> 5 \<and> count_list js 1 \<le> 5 \<and> sys_call_table s' ! 6 \<in> {Orig 6, Interceptor})"
proof -
  obtain s where s: "int_inv 3 s" "NR_syscalls s = 8" "view s = (\<lambda>_. None)" using loaded by blast
  have "count_list js 0 \<le> 5 \<and> count_list js 1 \<le> 5 \<and> sys_call_table s' ! 6 \<in> {Orig 6, Interceptor}"
    if run: "schedule (s, arrive both_intercept) js (s', ts)" for js s' ts
  proof -
    note p = interleavings_are_safe [OF s(1) both_intercept_env run]
    have "sys_call_table s' ! 6 \<in> {base_call 3 6, Interceptor}" using p s(2) by simp
    then show ?thesis using p by (simp add: base_call_def MY_CUSTOM_SYSCALL_def)
  qed
  then show ?thesis using s(1) by blast
qed

text \<open>C22: Requests for different system calls, interleaved in any way, give the same results and
  leave the same tables as one after the other.\<close>

theorem interleaving_is_serial:
  assumes "int_inv eg s" and "\<forall>q \<in> set qs. env_ok (q_env q) \<and> q_syscall q \<noteq> int (NR_syscalls s)"
    and "distinct (map q_syscall qs)" and "tick\<^sup>*\<^sup>* (s, arrive qs) (s', ts)" "answered ts"
  shows "run_requests qs s = Inr (map answer ts, s')"
  using assms by (rule interleaving_serial)

definition two_intercept :: "request list" where
  "two_intercept = map (\<lambda>n. \<lparr>q_env = root_env, q_cmd = REQUEST_SYSCALL_INTERCEPT, q_syscall = n, q_pid = 0\<rparr>) [5, 6]"

theorem interleaving_is_serial_witness:
  "\<exists>s s' ts. int_inv 3 s \<and> tick\<^sup>*\<^sup>* (s, arrive two_intercept) (s', ts) \<and> answered ts \<and>
    run_requests two_intercept s = Inr (map answer ts, s')"
proof -
  obtain s where s: "int_inv 3 s" "NR_syscalls s = 8" "view s = (\<lambda>_. None)" using loaded by blast
  have q: "\<forall>q \<in> set two_intercept. env_ok (q_env q) \<and> q_syscall q \<noteq> int (NR_syscalls s)"
    using s(2) by (simp add: two_intercept_def root_env_ok)
  have d: "distinct (map q_syscall two_intercept)" by (simp add: two_intercept_def)
  obtain s' ts where t: "tick\<^sup>*\<^sup>* (s, arrive two_intercept) (s', ts)" "answered ts"
    using run_completes [OF arrive_ok(1) [OF s(1)]] q by (force simp: arrive_def past_table_def)
  show ?thesis using interleaving_is_serial [OF s(1) q d t] s(1) t by blast
qed

section \<open>Unloading, and the limits of the module\<close>

text \<open>C19: Unloading the module restores the original function of every system call but
  \<open>exit_group\<close>, which is left with the function of system call 0, or, when it was
  intercepted, with the function of the module that is gone.\<close>

theorem exit_function_restores:
  assumes "int_inv eg s"
  shows "\<exists>s'. exit_function eg s = Inr s' \<and> length (sys_call_table s') = NR_syscalls s \<and>
    (\<forall>n < NR_syscalls s. sys_call_table s' ! n =
       (if n \<noteq> eg then Orig n else if view s eg = None then Orig MY_CUSTOM_SYSCALL else My_exit_group))"
  using exit_function_leaves [OF assms] by (simp add: left_behind_def)

theorem exit_function_restores_witness:
  "\<exists>s s'. int_inv 3 s \<and> exit_function 3 s = Inr s' \<and> sys_call_table s' ! 5 = Orig 5 \<and>
    sys_call_table s' ! 3 = Orig 0"
proof -
  obtain s where s: "int_inv 3 s" "NR_syscalls s = 8" "view s = (\<lambda>_. None)(5 := Some (Only {}))"
    using loaded_5 by blast
  then obtain s' where "exit_function 3 s = Inr s'" and t: "\<forall>n < NR_syscalls s. sys_call_table s' ! n =
       (if n \<noteq> 3 then Orig n else if view s 3 = None then Orig MY_CUSTOM_SYSCALL else My_exit_group)"
    using exit_function_restores [OF s(1)] by blast
  moreover have "sys_call_table s' ! 5 = Orig 5" "sys_call_table s' ! 3 = Orig 0"
    using t [rule_format, of 5] t [rule_format, of 3] s by (simp_all add: MY_CUSTOM_SYSCALL_def)
  ultimately show ?thesis using s(1) by blast
qed

text \<open>C20: Two requests to intercept the same system call that run at the same time can both
  succeed: the check and the installation are in different critical sections. From then on
  every call of it, by any process, calls the interceptor without end.\<close>

theorem racing_intercepts_never_return:
  assumes "int_inv eg s" and "1 \<le> call_no reg" "call_no reg < NR_syscalls s" "NR_syscalls s \<le> 2 ^ 31"
    and "view s (call_no reg) = None"
  shows "\<exists>s'. racing_intercepts (call_no reg) s = Inr (None, s') \<and>
    (\<forall>k env. dispatch k env reg s' = Inl Out_Of_Fuel)"
  using assms by (rule racing_intercepts_loop)

theorem racing_intercepts_never_return_witness:
  "\<exists>s s'. int_inv 3 s \<and> racing_intercepts 6 s = Inr (None, s') \<and>
    (\<forall>k. dispatch k root_env (call_regs 6) s' = Inl Out_Of_Fuel)"
proof -
  obtain s where s: "int_inv 3 s" "NR_syscalls s = 8" "view s = (\<lambda>_. None)" using loaded by blast
  then show ?thesis
    using racing_intercepts_never_return [OF s(1), of "call_regs 6"] call_no_regs(2) by auto
qed

text \<open>C37: The argument check lets the number \<open>NR_syscalls\<close> through: the interception of it by root
  goes past the end of the system call table.\<close>

theorem intercept_of_NR_syscalls:
  assumes "int_inv eg s" and "current_uid env = 0"
  shows "my_syscall env REQUEST_SYSCALL_INTERCEPT (int (NR_syscalls s)) pid s = Inl Out_Of_Bounds"
  using assms by (rule intercept_past_table)

theorem intercept_of_NR_syscalls_witness:
  "\<exists>s. int_inv 3 s \<and> my_syscall root_env REQUEST_SYSCALL_INTERCEPT 8 0 s = Inl Out_Of_Bounds"
proof -
  obtain s where s: "int_inv 3 s" "NR_syscalls s = 8" "view s = (\<lambda>_. None)" using loaded by blast
  then show ?thesis using intercept_of_NR_syscalls [OF s(1) root_env_ok(2), of 0] by auto
qed

text \<open>Stopping all monitoring of a system call for which no pid is watched is answered by
  \<open>-EINVAL\<close>, but once a pid has been watched and stopped again the same request is answered by
  0: \<open>listcount\<close> is incremented twice for a pid, so \<open>monitored\<close> is not reset.\<close>

theorem stop_all_after_stop_pid:
  assumes "free_at s n t" and "mytable_ok t" and "entry_view t = Some (Only {})" "monitored t = 0"
    and "env_ok env" "current_uid env = 0" "kmalloc_ok env" and "0 < pid" "task_uid env pid \<noteq> None"
  shows "cmd_monitor env False n 0 s = Inr (Some (- EINVAL), s) \<and>
    (\<exists>s'. then_do (cmd_monitor env True n pid) (cmd_monitor env False n pid) s = Inr (None, s') \<and>
      entry_view (table s' ! n) = Some (Only {}) \<and> (\<exists>s''. cmd_monitor env False n 0 s' = Inr (None, s'')))"
  using stop_all_leftover [OF assms] by blast

definition watched_entry :: mytable where
  "watched_entry = \<lparr>orig_f = Orig 0, intercepted = 1, monitored = 0, listcount = 0, my_list = Some []\<rparr>"

theorem stop_all_after_stop_pid_witness:
  "\<exists>s. cmd_monitor root_env False 0 0 s = Inr (Some (- EINVAL), s) \<and>
    (\<exists>s'. then_do (cmd_monitor root_env True 0 2) (cmd_monitor root_env False 0 2) s = Inr (None, s') \<and>
      (\<exists>s''. cmd_monitor root_env False 0 0 s' = Inr (None, s'')))"
proof -
  let ?s = "(boot 0)\<lparr>table := [watched_entry]\<rparr>"
  have f: "free_at ?s 0 watched_entry" by (simp add: free_at_def boot_def watched_entry_def)
  have e: "mytable_ok watched_entry" "entry_view watched_entry = Some (Only {})" "monitored watched_entry = 0"
    by (simp_all add: mytable_ok_def entry_view_def mon_of_def pids_def watched_entry_def)
  show ?thesis
    using stop_all_after_stop_pid [OF f e(1,2,3) root_env_ok(1,2,3) _ root_env_ok(4)] by auto
qed

end
