(* ===== verification/Trace_Matmul.thy ===== *)
theory Trace_Matmul
  imports C_Loops
begin

text \<open>
  The matrix programs that produce traces (traceprogs/matmul.c, blocked.c): the
  standard and the blocked multiplication and the two changes of storage.  A
  matrix is the array of the \<open>value\<close> fields, a pointer into it an index.  Addition,
  multiplication and zero of \<open>double\<close> are a parameter: nothing is assumed of them, so
  two products are equal only when they are computed in the same order.
\<close>

record 'a arith =
  plus_d :: "'a \<Rightarrow> 'a \<Rightarrow> 'a"
  times_d :: "'a \<Rightarrow> 'a \<Rightarrow> 'a"
  zero_d :: 'a

section \<open>matmul.c\<close>

definition Mat_mult :: "'a arith \<Rightarrow> nat \<Rightarrow> 'a list \<Rightarrow> 'a list \<Rightarrow> 'a list \<Rightarrow> 'a list res" where
  "Mat_mult ar n A B C0 =
    forE (\<lambda>i. forE (\<lambda>j C.
      bindE (wr C (i * n + j) (zero_d ar))
        (forE (\<lambda>k C. bindE (rd C (i * n + j)) (\<lambda>c. bindE (rd A (i * n + k)) (\<lambda>x. bindE (rd B (k * n + j)) (\<lambda>y.
           wr C (i * n + j) (plus_d ar c (times_d ar x y)))))) [0 ..< n])) [0 ..< n]) [0 ..< n] C0"

section \<open>blocked.c\<close>

text \<open>\<open>Zero_C\<close> gives the index \<open>C_p\<close> and the array with the block set to zero.\<close>

definition Zero_C :: "'a arith \<Rightarrow> nat \<Rightarrow> nat \<Rightarrow> nat \<Rightarrow> nat \<Rightarrow> 'a list \<Rightarrow> (nat \<times> 'a list) res" where
  "Zero_C ar n_bar b_sqr i_bar j_bar C =
    (let C_p = (i_bar * n_bar + j_bar) * b_sqr in
     bindE (guardE Out_Of_Bounds (C_p + b_sqr \<le> length C)) (\<lambda>_.
     Inr (C_p, blit C_p (replicate b_sqr (zero_d ar)) C)))"

definition Mult_add ::
  "'a arith \<Rightarrow> nat \<Rightarrow> nat \<Rightarrow> 'a list \<Rightarrow> 'a list \<Rightarrow> nat \<Rightarrow> nat \<Rightarrow> nat \<Rightarrow> nat \<Rightarrow> 'a list \<Rightarrow> 'a list res" where
  "Mult_add ar n_bar b A B C_p i_bar j_bar k_bar C0 =
    (let a_p = (i_bar * n_bar + k_bar) * (b * b); b_p = (k_bar * n_bar + j_bar) * (b * b) in
     forE (\<lambda>i. forE (\<lambda>j. forE (\<lambda>k C.
       bindE (rd C (C_p + i * b + j)) (\<lambda>c. bindE (rd A (a_p + i * b + k)) (\<lambda>x. bindE (rd B (b_p + k * b + j)) (\<lambda>y.
       wr C (C_p + i * b + j) (plus_d ar c (times_d ar x y)))))) [0 ..< b]) [0 ..< b]) [0 ..< b] C0)"

definition Blocked_mat_mult :: "'a arith \<Rightarrow> nat \<Rightarrow> nat \<Rightarrow> 'a list \<Rightarrow> 'a list \<Rightarrow> 'a list \<Rightarrow> 'a list res" where
  "Blocked_mat_mult ar n_bar b A B C0 =
    forE (\<lambda>i_bar. forE (\<lambda>j_bar C.
      bindE (Zero_C ar n_bar (b * b) i_bar j_bar C) (\<lambda>(C_p, C).
      forE (Mult_add ar n_bar b A B C_p i_bar j_bar) [0 ..< n_bar] C)) [0 ..< n_bar]) [0 ..< n_bar] C0"

text \<open>The first argument is what \<open>malloc\<close> returns for \<open>T\<close>, with its unknown contents.\<close>

definition To_blocked :: "'a list option \<Rightarrow> 'a list \<Rightarrow> nat \<Rightarrow> nat \<Rightarrow> 'a list res" where
  "To_blocked T0 A n b =
    bindE (guardE Div_By_Zero (b \<noteq> 0)) (\<lambda>_.
    bindE (case T0 of None \<Rightarrow> Inl (Exit_With (-1)) | Some T \<Rightarrow> Inr T) (\<lambda>T.
    bindE (forE (\<lambda>i_bar. forE (\<lambda>j_bar (t_p, T).
        bindE (forE (\<lambda>i (t_p, a_p, T).
            bindE (forE (\<lambda>j (t_p, a_p, T).
                bindE (rd A a_p) (\<lambda>x. bindE (wr T t_p x) (\<lambda>T. Inr (Suc t_p, Suc a_p, T))))
              [0 ..< b] (t_p, a_p, T)) (\<lambda>(t_p, a_p, T). Inr (t_p, a_p + (n - b), T)))
          [0 ..< b] (t_p, i_bar * b * n + j_bar * b, T)) (\<lambda>(t_p, _, T). Inr (t_p, T)))
      [0 ..< n div b]) [0 ..< n div b] (0, T)) (\<lambda>(_, T). Inr T)))"

definition From_blocked :: "'a list option \<Rightarrow> 'a list \<Rightarrow> nat \<Rightarrow> nat \<Rightarrow> 'a list res" where
  "From_blocked T0 C n b =
    bindE (guardE Div_By_Zero (b \<noteq> 0)) (\<lambda>_.
    bindE (case T0 of None \<Rightarrow> Inl (Exit_With (-1)) | Some T \<Rightarrow> Inr T) (\<lambda>T.
    bindE (forE (\<lambda>i_bar. forE (\<lambda>j_bar (c_p, T).
        bindE (forE (\<lambda>i (c_p, t_p, T).
            bindE (forE (\<lambda>j (c_p, t_p, T).
                bindE (rd C c_p) (\<lambda>x. bindE (wr T t_p x) (\<lambda>T. Inr (Suc c_p, Suc t_p, T))))
              [0 ..< b] (c_p, t_p, T)) (\<lambda>(c_p, t_p, T). Inr (c_p, t_p + (n - b), T)))
          [0 ..< b] (c_p, i_bar * b * n + j_bar * b, T)) (\<lambda>(c_p, _, T). Inr (c_p, T)))
      [0 ..< n div b]) [0 ..< n div b] (0, T)) (\<lambda>(_, T). Inr T)))"

text \<open>
  \<open>Get_matrices\<close> with the stream of random values, and the two programs: \<open>None\<close> is
  the usage message.  \<open>mallocs\<close> are the arrays \<open>malloc\<close> returns for \<open>C\<close> and the
  temporaries, \<open>debug\<close> whether DEBUG is defined.
\<close>

definition Get_matrices :: "(nat \<Rightarrow> 'a) \<Rightarrow> nat \<Rightarrow> 'a list \<times> 'a list" where
  "Get_matrices random n = (map (\<lambda>i. random (2 * i)) [0 ..< n * n], map (\<lambda>i. random (2 * i + 1)) [0 ..< n * n])"

definition matmul_main :: "'a arith \<Rightarrow> (nat \<Rightarrow> 'a) \<Rightarrow> nat \<Rightarrow> 'a list option \<Rightarrow> 'a list res" where
  "matmul_main ar random n C0 =
    bindE (case C0 of None \<Rightarrow> Inl (Exit_With (-1)) | Some C \<Rightarrow> Inr C) (\<lambda>C.
    case Get_matrices random n of (A, B) \<Rightarrow> Mat_mult ar n A B C)"

definition blocked_main ::
  "'a arith \<Rightarrow> bool \<Rightarrow> (nat \<Rightarrow> 'a) \<Rightarrow> nat \<Rightarrow> nat \<Rightarrow> 'a list option \<Rightarrow> (nat \<Rightarrow> 'a list option) \<Rightarrow> 'a list res" where
  "blocked_main ar debug random n b C0 mallocs =
    bindE (guardE Div_By_Zero (b \<noteq> 0)) (\<lambda>_.
    bindE (guardE (Exit_With 0) (n mod b = 0)) (\<lambda>_.
    bindE (case C0 of None \<Rightarrow> Inl (Exit_With (-1)) | Some C \<Rightarrow> Inr C) (\<lambda>C.
    case Get_matrices random n of (A, B) \<Rightarrow>
    if debug then
      bindE (To_blocked (mallocs 0) A n b) (\<lambda>A1. bindE (To_blocked (mallocs 1) B n b) (\<lambda>B1.
      bindE (Blocked_mat_mult ar (n div b) b A1 B1 C) (\<lambda>C1. From_blocked (mallocs 2) C1 n b)))
    else Blocked_mat_mult ar (n div b) b A B C)))"

section \<open>The standard product\<close>

text \<open>The first \<open>K\<close> terms of an entry of the product, added from the left.\<close>

definition dot :: "'a arith \<Rightarrow> (nat \<Rightarrow> 'a) \<Rightarrow> (nat \<Rightarrow> 'a) \<Rightarrow> 'a \<Rightarrow> nat \<Rightarrow> 'a" where
  "dot ar x y c K = foldl (\<lambda>c k. plus_d ar c (times_d ar (x k) (y k))) c [0 ..< K]"

lemma dot_0 [simp]: "dot ar x y c 0 = c"
  by (simp add: dot_def)

lemma dot_Suc [simp]: "dot ar x y c (Suc K) = plus_d ar (dot ar x y c K) (times_d ar (x K) (y K))"
  by (simp add: dot_def)

lemma dot_add: "dot ar x y c (K + L) = dot ar (\<lambda>k. x (K + k)) (\<lambda>k. y (K + k)) (dot ar x y c K) L"
  by (induction L) simp_all

lemma dot_cong: "(\<And>k. k < K \<Longrightarrow> x k = x' k \<and> y k = y' k) \<Longrightarrow> dot ar x y c K = dot ar x' y' c K"
  by (induction K) simp_all

text \<open>The innermost loop of both programs adds the terms to one entry of \<open>C\<close>.\<close>

lemma dot_loop:
  assumes "q < length C" and "\<And>k. k < K \<Longrightarrow> ap k < length A \<and> bp k < length B"
  shows "forE (\<lambda>k C. bindE (rd C q) (\<lambda>c. bindE (rd A (ap k)) (\<lambda>x. bindE (rd B (bp k)) (\<lambda>y.
      wr C q (plus_d ar c (times_d ar x y)))))) [0 ..< K] C =
    Inr (C[q := dot ar (\<lambda>k. A ! ap k) (\<lambda>k. B ! bp k) (C ! q) K])"
proof -
  let ?g = "\<lambda>K. C[q := dot ar (\<lambda>k. A ! ap k) (\<lambda>k. B ! bp k) (C ! q) K]"
  have "forE (\<lambda>k C. bindE (rd C q) (\<lambda>c. bindE (rd A (ap k)) (\<lambda>x. bindE (rd B (bp k)) (\<lambda>y.
      wr C q (plus_d ar c (times_d ar x y)))))) [0 ..< K] (?g 0) = Inr (?g K)"
    by (rule forE_trace) (use assms in simp)
  then show ?thesis by simp
qed

definition product_entry :: "'a arith \<Rightarrow> nat \<Rightarrow> 'a list \<Rightarrow> 'a list \<Rightarrow> nat \<Rightarrow> 'a" where
  "product_entry ar n A B q =
    dot ar (\<lambda>k. A ! (q div n * n + k)) (\<lambda>k. B ! (k * n + q mod n)) (zero_d ar) n"

lemma Mat_mult_run:
  assumes "length A = n * n" "length B = n * n" "length C = n * n"
  shows "Mat_mult ar n A B C = Inr (map (product_entry ar n A B) [0 ..< n * n])"
proof -
  have "Mat_mult ar n A B C = forE (\<lambda>q C. bindE (wr C (q div n * n + q mod n) (zero_d ar))
        (forE (\<lambda>k C. bindE (rd C (q div n * n + q mod n)) (\<lambda>c. bindE (rd A (q div n * n + k)) (\<lambda>x.
           bindE (rd B (k * n + q mod n)) (\<lambda>y.
           wr C (q div n * n + q mod n) (plus_d ar c (times_d ar x y)))))) [0 ..< n])) [0 ..< n * n] C"
    unfolding Mat_mult_def by (rule forE_nested)
  also have "\<dots> = Inr (map (product_entry ar n A B) [0 ..< n * n])"
  proof (rule forE_fill)
    fix q and C :: "'a list" assume q: "q < n * n" and C: "length C = n * n"
    have b: "q div n * n + k < length A \<and> k * n + q mod n < length B" if "k < n" for k
      using div_mod_less [OF q] that assms by (simp add: index_less)
    have "forE (\<lambda>k C. bindE (rd C q) (\<lambda>c. bindE (rd A (q div n * n + k)) (\<lambda>x. bindE (rd B (k * n + q mod n)) (\<lambda>y.
           wr C q (plus_d ar c (times_d ar x y)))))) [0 ..< n] (C[q := zero_d ar]) =
        Inr ((C[q := zero_d ar])[q := product_entry ar n A B q])"
      using dot_loop [of q "C[q := zero_d ar]" n "\<lambda>k. q div n * n + k" A "\<lambda>k. k * n + q mod n" B ar] b q C
      by (simp add: product_entry_def)
    then show "bindE (wr C (q div n * n + q mod n) (zero_d ar))
        (forE (\<lambda>k C. bindE (rd C (q div n * n + q mod n)) (\<lambda>c. bindE (rd A (q div n * n + k)) (\<lambda>x.
           bindE (rd B (k * n + q mod n)) (\<lambda>y.
           wr C (q div n * n + q mod n) (plus_d ar c (times_d ar x y)))))) [0 ..< n]) =
        Inr (C[q := product_entry ar n A B q])"
      using q C by simp
  qed (use assms in simp)
  finally show ?thesis .
qed

end
