(* ===== verification/Trace_Blocked.thy ===== *)
theory Trace_Blocked
  imports Trace_Matmul
begin

text \<open>
  Blocked storage: position \<open>p\<close> of the blocked array holds the entry at position
  \<open>unblk m b p\<close> of the row-major array, for \<open>m\<close> by \<open>m\<close> blocks of order \<open>b\<close>.
  \<open>To_blocked\<close> and \<open>From_blocked\<close> are the two permutations, and the blocked product
  of blocked matrices is the standard product, entry for entry.
\<close>

section \<open>The permutation\<close>

definition unblk :: "nat \<Rightarrow> nat \<Rightarrow> nat \<Rightarrow> nat" where
  "unblk m b p = (let k = p div b div b in (k div m * b + p div b mod b) * (m * b) + (k mod m * b + p mod b))"

definition blk :: "nat \<Rightarrow> nat \<Rightarrow> nat \<Rightarrow> nat" where
  "blk m b q = (let r = q div (m * b); c = q mod (m * b) in
     ((r div b * m + c div b) * b + r mod b) * b + c mod b)"

lemma position_cases:
  fixes m b p :: nat
  assumes "p < m * b * (m * b)" and "0 < b"
  obtains k i j where "p = (k * b + i) * b + j" "k < m * m" "i < b" "j < b"
proof (rule that)
  show "p = (p div b div b * b + p div b mod b) * b + p mod b" by (simp add: div_mult_mod_eq)
  have "p < m * m * b * b" using assms(1) by (simp add: ac_simps)
  then show "p div b div b < m * m" by (intro less_mult_imp_div_less)
qed (use assms in simp_all)

lemma unblk_position:
  assumes "i < b" "j < b"
  shows "unblk m b ((k * b + i) * b + j) = (k div m * b + i) * (m * b) + (k mod m * b + j)"
  using assms by (simp add: unblk_def Let_def)

lemma blk_position:
  assumes "i < b" "j < b" "k < m * m"
  shows "blk m b ((k div m * b + i) * (m * b) + (k mod m * b + j)) = (k * b + i) * b + j"
proof -
  let ?n = "m * b" and ?r = "k div m * b + i" and ?c = "k mod m * b + j"
  have "?c < ?n" using div_mod_less [OF assms(3)] assms(2) by (simp add: index_less)
  then have "(?r * ?n + ?c) div ?n = ?r" "(?r * ?n + ?c) mod ?n = ?c"
    by (metis div_less div_mult_self3 add.right_neutral gr_implies_not0) (metis mod_less mod_mult_self3 \<open>?c < ?n\<close>)
  then show ?thesis using assms(1,2) unfolding blk_def by (simp add: Let_def div_mult_mod_eq)
qed

lemma blk_unblk:
  assumes "p < m * b * (m * b)" and "0 < b"
  shows "blk m b (unblk m b p) = p"
  by (rule position_cases [OF assms]) (simp add: unblk_position blk_position)

lemma unblk_less:
  assumes "p < m * b * (m * b)" and "0 < b"
  shows "unblk m b p < m * b * (m * b)"
proof (rule position_cases [OF assms])
  fix k i j assume p: "p = (k * b + i) * b + j" "k < m * m" "i < b" "j < b"
  have "k div m * b + i < m * b" "k mod m * b + j < m * b"
    using div_mod_less [OF p(2)] p by (simp_all add: index_less)
  then show ?thesis using p by (simp add: unblk_position index_less)
qed

text \<open>An entry by its block, and the entry in the block.\<close>

lemma entry_cases:
  fixes m b q :: nat
  assumes "q < m * b * (m * b)" and "0 < b"
  obtains k i j where "q = (k div m * b + i) * (m * b) + (k mod m * b + j)" "k < m * m" "i < b" "j < b"
proof -
  let ?r = "q div (m * b)" and ?c = "q mod (m * b)"
  let ?k = "?r div b * m + ?c div b"
  have rc: "?r < m * b" "?c < m * b" using div_mod_less [OF assms(1)] by auto
  then have d: "?r div b < m" "?c div b < m" by (simp_all add: less_mult_imp_div_less)
  then have k: "?k div m = ?r div b" "?k mod m = ?c div b" by simp_all
  show ?thesis
  proof (rule that [of ?k "?r mod b" "?c mod b"])
    show "q = (?k div m * b + ?r mod b) * (m * b) + (?k mod m * b + ?c mod b)"
      unfolding k by (simp add: div_mult_mod_eq)
    show "?k < m * m" using d by (simp add: index_less)
  qed (use assms in simp_all)
qed

lemma unblk_blk:
  assumes "q < m * b * (m * b)" and "0 < b"
  shows "unblk m b (blk m b q) = q" and "blk m b q < m * b * (m * b)"
proof -
  obtain k i j where q: "q = (k div m * b + i) * (m * b) + (k mod m * b + j)" "k < m * m" "i < b" "j < b"
    using entry_cases [OF assms] .
  then show "unblk m b (blk m b q) = q" by (simp add: unblk_position blk_position)
  have "(k * b + i) * b + j < m * m * b * b" using q by (intro index_less)
  also have "m * m * b * b = m * b * (m * b)" by (simp add: ac_simps)
  finally show "blk m b q < m * b * (m * b)" using q by (simp add: blk_position)
qed

section \<open>The changes of storage\<close>

lemma to_row:
  assumes "t + b \<le> length T0" "a + b \<le> length A" "\<And>j. j < b \<Longrightarrow> h (t + j) = A ! (a + j)"
  shows "forE (\<lambda>j (t_p, a_p, T). bindE (rd A a_p) (\<lambda>x. bindE (wr T t_p x) (\<lambda>T. Inr (Suc t_p, Suc a_p, T))))
    [0 ..< b] (t, a, filled h t T0) = Inr (t + b, a + b, filled h (t + b) T0)"
proof -
  let ?g = "\<lambda>j. (t + j, a + j, filled h (t + j) T0)"
  let ?f = "\<lambda>j (t_p, a_p, T). bindE (rd A a_p) (\<lambda>x. bindE (wr T t_p x) (\<lambda>T. Inr (Suc t_p, Suc a_p, T)))"
  have "forE ?f [0 ..< b] (?g 0) = Inr (?g b)"
    by (rule forE_trace) (use assms in \<open>simp add: length_filled assms(3) [symmetric] filled_Suc\<close>)
  then show ?thesis by simp
qed

text \<open>What the loops over a block copy: \<open>b\<close> rows.\<close>

lemma to_block:
  assumes "t + b * b \<le> length T0" and "b \<le> n" and "a + (b - 1) * n + b \<le> length A" and "0 < b"
    and "\<And>i j. i < b \<Longrightarrow> j < b \<Longrightarrow> h (t + i * b + j) = A ! (a + i * n + j)"
  shows "forE (\<lambda>i (t_p, a_p, T).
      bindE (forE (\<lambda>j (t_p, a_p, T). bindE (rd A a_p) (\<lambda>x. bindE (wr T t_p x) (\<lambda>T. Inr (Suc t_p, Suc a_p, T))))
        [0 ..< b] (t_p, a_p, T)) (\<lambda>(t_p, a_p, T). Inr (t_p, a_p + (n - b), T)))
    [0 ..< b] (t, a, filled h t T0) = Inr (t + b * b, a + b * n, filled h (t + b * b) T0)"
proof -
  let ?g = "\<lambda>i. (t + i * b, a + i * n, filled h (t + i * b) T0)"
  let ?row = "\<lambda>j (t_p, a_p, T). bindE (rd A a_p) (\<lambda>x. bindE (wr T t_p x) (\<lambda>T. Inr (Suc t_p, Suc a_p, T)))"
  let ?f = "\<lambda>i (t_p, a_p, T). bindE (forE ?row [0 ..< b] (t_p, a_p, T)) (\<lambda>(t_p, a_p, T). Inr (t_p, a_p + (n - b), T))"
  have "forE ?f [0 ..< b] (?g 0) = Inr (?g b)"
  proof (rule forE_trace)
    fix i assume i: "i < b"
    have "i * b + b \<le> b * b" using mult_le_mono1 [of "Suc i" b b] i by simp
    moreover have "i * n \<le> (b - 1) * n" using i by (intro mult_le_mono1) simp
    ultimately have bnd: "t + i * b + b \<le> length T0" "a + i * n + b \<le> length A" using assms(1,3) by linarith+
    have "forE ?row [0 ..< b] (t + i * b, a + i * n, filled h (t + i * b) T0) =
        Inr (t + i * b + b, a + i * n + b, filled h (t + i * b + b) T0)"
      by (rule to_row [OF bnd]) (use assms(5) i in blast)
    then show "?f i (?g i) = Inr (?g (Suc i))" using assms(2) by (simp add: algebra_simps)
  qed
  then show ?thesis by simp
qed

definition placed :: "nat \<Rightarrow> nat \<Rightarrow> 'a list \<Rightarrow> nat \<Rightarrow> 'a list \<Rightarrow> bool" where
  "placed m b C q T \<longleftrightarrow> length T = m * b * (m * b) \<and> (\<forall>p < q. T ! unblk m b p = C ! p)"

lemma placed_Suc:
  assumes "placed m b C q T" and "q < m * b * (m * b)" and "0 < b" and "t = unblk m b q"
  shows "placed m b C (Suc q) (T[t := C ! q])"
proof -
  have ne: "unblk m b p \<noteq> t" if "p < q" for p
    using that assms blk_unblk [of p m b] blk_unblk [of q m b] by auto
  have T: "length T = m * b * (m * b)" "t < length T" "\<And>p. p < q \<Longrightarrow> T ! unblk m b p = C ! p"
    using assms unblk_less [OF assms(2,3)] by (simp_all add: placed_def)
  have "T[t := C ! q] ! unblk m b p = C ! p" if "p < Suc q" for p
    using that ne [of p] T assms(4) by (cases "p = q") (simp_all add: less_Suc_eq)
  then show ?thesis using T by (simp add: placed_def)
qed

lemma from_row:
  assumes "placed m b C c T" "c + b \<le> m * b * (m * b)" "length C = m * b * (m * b)" "0 < b"
    and "\<And>j. j < b \<Longrightarrow> unblk m b (c + j) = t + j"
  shows "\<exists>T'. forE (\<lambda>j (c_p, t_p, T). bindE (rd C c_p) (\<lambda>x. bindE (wr T t_p x) (\<lambda>T. Inr (Suc c_p, Suc t_p, T))))
    [0 ..< b] (c, t, T) = Inr (c + b, t + b, T') \<and> placed m b C (c + b) T'"
proof -
  let ?f = "\<lambda>j (c_p, t_p, T). bindE (rd C c_p) (\<lambda>x. bindE (wr T t_p x) (\<lambda>T. Inr (Suc c_p, Suc t_p, T)))"
  have "\<exists>s. forE ?f [0 ..< b] (c, t, T) = Inr s \<and> (\<exists>T'. s = (c + b, t + b, T') \<and> placed m b C (c + b) T')"
  proof (rule forE_invariant [where P = "\<lambda>j s. \<exists>T'. s = (c + j, t + j, T') \<and> placed m b C (c + j) T'"])
    fix j s assume j: "j < b" and "\<exists>T'. s = (c + j, t + j, T') \<and> placed m b C (c + j) T'"
    then obtain T' where s: "s = (c + j, t + j, T')" and T': "placed m b C (c + j) T'" by blast
    have u: "t + j = unblk m b (c + j)" and l: "c + j < m * b * (m * b)" using assms(2,5) j by auto
    have "t + j < length T'" using unblk_less [OF l assms(4)] T' u by (simp add: placed_def)
    then have "?f j s = Inr (c + Suc j, t + Suc j, T'[t + j := C ! (c + j)])" using s l assms(3) by simp
    moreover have "placed m b C (c + Suc j) (T'[t + j := C ! (c + j)])"
      using placed_Suc [OF T' l assms(4) u] by simp
    ultimately show "\<exists>s'. ?f j s = Inr s' \<and> (\<exists>T'. s' = (c + Suc j, t + Suc j, T') \<and> placed m b C (c + Suc j) T')"
      by blast
  qed (use assms in simp)
  then show ?thesis by auto
qed

lemma from_block:
  assumes "placed m b C c T" "c + b * b \<le> m * b * (m * b)" "length C = m * b * (m * b)" "0 < b" "b \<le> n"
    and "\<And>i j. i < b \<Longrightarrow> j < b \<Longrightarrow> unblk m b (c + i * b + j) = t + i * n + j"
  shows "\<exists>T'. forE (\<lambda>i (c_p, t_p, T).
      bindE (forE (\<lambda>j (c_p, t_p, T). bindE (rd C c_p) (\<lambda>x. bindE (wr T t_p x) (\<lambda>T. Inr (Suc c_p, Suc t_p, T))))
        [0 ..< b] (c_p, t_p, T)) (\<lambda>(c_p, t_p, T). Inr (c_p, t_p + (n - b), T)))
    [0 ..< b] (c, t, T) = Inr (c + b * b, t + b * n, T') \<and> placed m b C (c + b * b) T'"
proof -
  let ?row = "\<lambda>j (c_p, t_p, T). bindE (rd C c_p) (\<lambda>x. bindE (wr T t_p x) (\<lambda>T. Inr (Suc c_p, Suc t_p, T)))"
  let ?f = "\<lambda>i (c_p, t_p, T). bindE (forE ?row [0 ..< b] (c_p, t_p, T)) (\<lambda>(c_p, t_p, T). Inr (c_p, t_p + (n - b), T))"
  let ?I = "\<lambda>i s. \<exists>T'. s = (c + i * b, t + i * n, T') \<and> placed m b C (c + i * b) T'"
  have "\<exists>s. forE ?f [0 ..< b] (c, t, T) = Inr s \<and> ?I b s"
  proof (rule forE_invariant [where P = ?I])
    fix i s assume i: "i < b" and "?I i s"
    then obtain T1 where s: "s = (c + i * b, t + i * n, T1)" and T1: "placed m b C (c + i * b) T1" by blast
    have "i * b + b \<le> b * b" using mult_le_mono1 [of "Suc i" b b] i by simp
    then obtain T2 where "forE ?row [0 ..< b] s = Inr (c + i * b + b, t + i * n + b, T2)"
      and "placed m b C (c + i * b + b) T2"
      using from_row [OF T1 _ assms(3,4), of "t + i * n"] assms(2,6) i s by (auto simp: add.assoc)
    then have "?f i s = Inr (c + Suc i * b, t + Suc i * n, T2) \<and> placed m b C (c + Suc i * b) T2"
      using s assms(5) by (simp add: algebra_simps)
    then show "\<exists>s'. ?f i s = Inr s' \<and> ?I (Suc i) s'" by blast
  qed (use assms in simp)
  then show ?thesis by auto
qed

text \<open>The two functions on whole matrices.\<close>

lemma block_bounds:
  fixes m b k :: nat
  assumes "k < m * m" and "0 < b"
  shows "k * (b * b) + b * b \<le> m * b * (m * b)"
    and "(k div m * b) * (m * b) + k mod m * b + (b - 1) * (m * b) + b \<le> m * b * (m * b)"
proof -
  have "Suc k * (b * b) \<le> m * m * (b * b)" using assms(1) by (intro mult_le_mono1) simp
  also have "m * m * (b * b) = m * b * (m * b)" by (simp only: ac_simps)
  finally show "k * (b * b) + b * b \<le> m * b * (m * b)" by (simp only: mult_Suc add.commute)
  have d: "k div m < m" "k mod m < m" using div_mod_less [OF assms(1)] by auto
  have "k div m * b + (b - 1) < m * b" by (rule index_less [OF d(1)]) (use assms(2) in simp)
  then have r: "Suc (k div m * b + (b - 1)) * (m * b) \<le> m * b * (m * b)" by (intro mult_le_mono1) simp
  have "k mod m * b + b \<le> m * b" using mult_le_mono1 [of "Suc (k mod m)" m b] d(2) by (simp add: add.commute)
  with r show "(k div m * b) * (m * b) + k mod m * b + (b - 1) * (m * b) + b \<le> m * b * (m * b)"
    by (simp add: add_mult_distrib)
qed

lemma To_blocked_run:
  assumes "0 < b" and "length T0 = m * b * (m * b)" and "length A = m * b * (m * b)"
  shows "To_blocked (Some T0) A (m * b) b = Inr (map (\<lambda>p. A ! unblk m b p) [0 ..< m * b * (m * b)])"
proof (cases "m = 0")
  case True
  then show ?thesis using assms by (simp add: To_blocked_def)
next
  case False
  then have n: "b \<le> m * b" "m * b div b = m" using assms(1) by simp_all
  let ?h = "\<lambda>p. A ! unblk m b p" and ?n = "m * b"
  let ?block = "\<lambda>i_bar j_bar (t_p, T).
        bindE (forE (\<lambda>i (t_p, a_p, T).
            bindE (forE (\<lambda>j (t_p, a_p, T).
                bindE (rd A a_p) (\<lambda>x. bindE (wr T t_p x) (\<lambda>T. Inr (Suc t_p, Suc a_p, T))))
              [0 ..< b] (t_p, a_p, T)) (\<lambda>(t_p, a_p, T). Inr (t_p, a_p + (?n - b), T)))
          [0 ..< b] (t_p, i_bar * b * ?n + j_bar * b, T)) (\<lambda>(t_p, _, T). Inr (t_p, T))"
  let ?g = "\<lambda>k. (k * (b * b), filled ?h (k * (b * b)) T0)"
  have "forE (\<lambda>k. ?block (k div m) (k mod m)) [0 ..< m * m] (?g 0) = Inr (?g (m * m))"
  proof (rule forE_trace)
    fix k assume k: "k < m * m"
    have pos: "?h (k * (b * b) + i * b + j) = A ! (k div m * b * ?n + k mod m * b + i * ?n + j)"
      if "i < b" "j < b" for i j
      using unblk_position [OF that, of m k] by (simp add: algebra_simps)
    show "?block (k div m) (k mod m) (?g k) = Inr (?g (Suc k))"
      using to_block [of "k * (b * b)" b T0 ?n "k div m * b * ?n + k mod m * b" A ?h]
        block_bounds [OF k assms(1)] pos n assms by (simp add: algebra_simps)
  qed
  then have "forE (\<lambda>i_bar. forE (?block i_bar) [0 ..< m]) [0 ..< m] (0, T0) =
      Inr (m * m * (b * b), map ?h [0 ..< m * m * (b * b)])"
    using assms(2) by (simp add: forE_nested filled_0 filled_all ac_simps)
  then show ?thesis using assms(1) n by (simp add: To_blocked_def ac_simps)
qed

lemma From_blocked_run:
  assumes "0 < b" and "length T0 = m * b * (m * b)" and "length C = m * b * (m * b)"
  shows "From_blocked (Some T0) C (m * b) b = Inr (map (\<lambda>q. C ! blk m b q) [0 ..< m * b * (m * b)])"
proof (cases "m = 0")
  case True
  then show ?thesis using assms by (simp add: From_blocked_def)
next
  case False
  then have n: "b \<le> m * b" "m * b div b = m" using assms(1) by simp_all
  let ?n = "m * b"
  let ?block = "\<lambda>i_bar j_bar (c_p, T).
        bindE (forE (\<lambda>i (c_p, t_p, T).
            bindE (forE (\<lambda>j (c_p, t_p, T).
                bindE (rd C c_p) (\<lambda>x. bindE (wr T t_p x) (\<lambda>T. Inr (Suc c_p, Suc t_p, T))))
              [0 ..< b] (c_p, t_p, T)) (\<lambda>(c_p, t_p, T). Inr (c_p, t_p + (?n - b), T)))
          [0 ..< b] (c_p, i_bar * b * ?n + j_bar * b, T)) (\<lambda>(c_p, _, T). Inr (c_p, T))"
  let ?I = "\<lambda>k s. \<exists>T. s = (k * (b * b), T) \<and> placed m b C (k * (b * b)) T"
  have "\<exists>s. forE (\<lambda>k. ?block (k div m) (k mod m)) [0 ..< m * m] (0, T0) = Inr s \<and> ?I (m * m) s"
  proof (rule forE_invariant [where P = ?I])
    fix k s assume k: "k < m * m" and "?I k s"
    then obtain T where s: "s = (k * (b * b), T)" and T: "placed m b C (k * (b * b)) T" by blast
    have pos: "unblk m b (k * (b * b) + i * b + j) = k div m * b * ?n + k mod m * b + i * ?n + j"
      if "i < b" "j < b" for i j
      using unblk_position [OF that, of m k] by (simp add: algebra_simps)
    obtain T' where "forE (\<lambda>i (c_p, t_p, T).
            bindE (forE (\<lambda>j (c_p, t_p, T).
                bindE (rd C c_p) (\<lambda>x. bindE (wr T t_p x) (\<lambda>T. Inr (Suc c_p, Suc t_p, T))))
              [0 ..< b] (c_p, t_p, T)) (\<lambda>(c_p, t_p, T). Inr (c_p, t_p + (?n - b), T)))
          [0 ..< b] (k * (b * b), k div m * b * ?n + k mod m * b, T) =
        Inr (k * (b * b) + b * b, k div m * b * ?n + k mod m * b + b * ?n, T')"
      and T': "placed m b C (k * (b * b) + b * b) T'"
      using from_block [OF T block_bounds(1) [OF k assms(1)] assms(3,1) n(1) pos] by blast
    then have "?block (k div m) (k mod m) s = Inr (Suc k * (b * b), T')" using s by (simp add: add.commute)
    moreover have "placed m b C (Suc k * (b * b)) T'" using T' by (simp add: add.commute)
    ultimately show "\<exists>s'. ?block (k div m) (k mod m) s = Inr s' \<and> ?I (Suc k) s'" by blast
  qed (use assms in \<open>simp add: placed_def\<close>)
  then obtain T where run: "forE (\<lambda>i_bar. forE (?block i_bar) [0 ..< m]) [0 ..< m] (0, T0) = Inr (m * m * (b * b), T)"
    and T: "placed m b C (m * m * (b * b)) T"
    unfolding forE_nested by blast
  have "T = map (\<lambda>q. C ! blk m b q) [0 ..< m * b * (m * b)]"
  proof (rule nth_equalityI)
    show "length T = length (map (\<lambda>q. C ! blk m b q) [0 ..< m * b * (m * b)])" using T by (simp add: placed_def)
    fix q assume "q < length T"
    then have q: "q < m * b * (m * b)" using T by (simp add: placed_def)
    have "blk m b q < m * m * (b * b)" using unblk_blk(2) [OF q assms(1)] by (simp add: ac_simps)
    then have "T ! unblk m b (blk m b q) = C ! blk m b q" using T by (simp add: placed_def)
    then show "T ! q = map (\<lambda>q. C ! blk m b q) [0 ..< m * b * (m * b)] ! q"
      using q unblk_blk(1) [OF q assms(1)] by simp
  qed
  then show ?thesis using run assms(1) n by (simp add: From_blocked_def)
qed

section \<open>The blocked product\<close>

text \<open>
  \<open>Mult_add\<close> on the block at \<open>C_p\<close>: every entry of the block gets \<open>b\<close> more terms, the
  rest of \<open>C\<close> is unchanged.
\<close>

lemma Mult_add_run:
  assumes "c + b * b \<le> length C" and "(i_bar * m + k_bar) * (b * b) + b * b \<le> length A"
    and "(k_bar * m + j_bar) * (b * b) + b * b \<le> length B"
  shows "\<exists>C'. Mult_add ar m b A B c i_bar j_bar k_bar C = Inr C' \<and> length C' = length C \<and>
    (\<forall>p. C' ! p = (if c \<le> p \<and> p < c + b * b
       then dot ar (\<lambda>k. A ! ((i_bar * m + k_bar) * (b * b) + (p - c) div b * b + k))
         (\<lambda>k. B ! ((k_bar * m + j_bar) * (b * b) + k * b + (p - c) mod b)) (C ! p) b
       else C ! p))"
proof -
  let ?a = "(i_bar * m + k_bar) * (b * b)" and ?b = "(k_bar * m + j_bar) * (b * b)"
  let ?e = "\<lambda>p x. dot ar (\<lambda>k. A ! (?a + (p - c) div b * b + k)) (\<lambda>k. B ! (?b + k * b + (p - c) mod b)) x b"
  let ?I = "\<lambda>q C'. length C' = length C \<and>
    (\<forall>p. C' ! p = (if c \<le> p \<and> p < c + q then ?e p (C ! p) else C ! p))"
  let ?body = "\<lambda>i j. forE (\<lambda>k C. bindE (rd C (c + i * b + j)) (\<lambda>x. bindE (rd A (?a + i * b + k)) (\<lambda>y.
    bindE (rd B (?b + k * b + j)) (\<lambda>z. wr C (c + i * b + j) (plus_d ar x (times_d ar y z)))))) [0 ..< b]"
  have "\<exists>C'. forE (\<lambda>q. ?body (q div b) (q mod b)) [0 ..< b * b] C = Inr C' \<and> ?I (b * b) C'"
  proof (rule forE_invariant [where P = ?I])
    fix q C1 assume q: "q < b * b" and C1: "?I q C1"
    have l: "c + q < length C1" using q C1 assms(1) by linarith
    have idx: "c + q div b * b + q mod b = c + q" by simp
    have bd: "?a + q div b * b + k < length A \<and> ?b + k * b + q mod b < length B" if "k < b" for k
      using div_mod_less [OF q] that assms(2,3) index_less [of "q div b" b k b] index_less [of k b "q mod b" b]
      by linarith
    have "?body (q div b) (q mod b) C1 = Inr (C1[c + q := ?e (c + q) (C1 ! (c + q))])"
      using dot_loop [OF l, of b "\<lambda>k. ?a + q div b * b + k" A "\<lambda>k. ?b + k * b + q mod b" B ar] bd
      unfolding idx by simp
    moreover have "?I (Suc q) (C1[c + q := ?e (c + q) (C1 ! (c + q))])"
      using C1 l by (auto simp: nth_update_if)
    ultimately show "\<exists>C'. ?body (q div b) (q mod b) C1 = Inr C' \<and> ?I (Suc q) C'" by blast
  qed auto
  then show ?thesis unfolding Mult_add_def Let_def forE_nested .
qed

text \<open>The first \<open>K\<close> terms of the entry at row-major position \<open>q\<close>.\<close>

definition partial_entry :: "'a arith \<Rightarrow> nat \<Rightarrow> 'a list \<Rightarrow> 'a list \<Rightarrow> nat \<Rightarrow> nat \<Rightarrow> 'a" where
  "partial_entry ar n A B q K = dot ar (\<lambda>k. A ! (q div n * n + k)) (\<lambda>k. B ! (k * n + q mod n)) (zero_d ar) K"

text \<open>The rows and columns of the factors that \<open>Mult_add\<close> reads are those of the entry.\<close>

lemma partial_entry_step:
  assumes k: "k < m * m" and kb: "kb < m" and ij: "i < b" "j < b"
    and A1: "\<And>p. p < m * b * (m * b) \<Longrightarrow> A1 ! p = A ! unblk m b p"
    and B1: "\<And>p. p < m * b * (m * b) \<Longrightarrow> B1 ! p = B ! unblk m b p"
    and q: "q = unblk m b ((k * b + i) * b + j)"
  shows "dot ar (\<lambda>t. A1 ! ((k div m * m + kb) * (b * b) + i * b + t)) (\<lambda>t. B1 ! ((kb * m + k mod m) * (b * b) + t * b + j))
      (partial_entry ar (m * b) A B q (kb * b)) b = partial_entry ar (m * b) A B q (Suc kb * b)"
proof -
  let ?n = "m * b" and ?r = "k div m * b + i" and ?c = "k mod m * b + j"
  have d: "k div m < m" "k mod m < m" using div_mod_less [OF k] by auto
  then have c: "?c < ?n" using ij by (simp add: index_less)
  have qd: "q div ?n = ?r" "q mod ?n = ?c" using c ij unfolding q unblk_position [OF ij]
    by (metis div_less div_mult_self3 add.right_neutral gr_implies_not0) (metis mod_less mod_mult_self3 c)
  have "A1 ! ((k div m * m + kb) * (b * b) + i * b + t) = A ! (?r * ?n + (kb * b + t)) \<and>
      B1 ! ((kb * m + k mod m) * (b * b) + t * b + j) = B ! ((kb * b + t) * ?n + ?c)" if t: "t < b" for t
  proof -
    have kk: "k div m * m + kb < m * m" "kb * m + k mod m < m * m" using d kb by (simp_all add: index_less)
    have "((k div m * m + kb) * b + i) * b + t < m * m * b * b" "((kb * m + k mod m) * b + t) * b + j < m * m * b * b"
      using index_less [OF index_less [OF kk(1) ij(1)] t] index_less [OF index_less [OF kk(2) t] ij(2)] .
    then have "((k div m * m + kb) * b + i) * b + t < ?n * ?n" "((kb * m + k mod m) * b + t) * b + j < ?n * ?n"
      by (simp_all add: ac_simps)
    then have "A1 ! (((k div m * m + kb) * b + i) * b + t) = A ! (?r * ?n + (kb * b + t))"
      "B1 ! (((kb * m + k mod m) * b + t) * b + j) = B ! ((kb * b + t) * ?n + ?c)"
      using A1 B1 unblk_position [OF ij(1) t] unblk_position [OF t ij(2)] kb d by simp_all
    then show ?thesis by (simp add: algebra_simps)
  qed
  then show ?thesis
    unfolding partial_entry_def qd mult_Suc add.commute [of b] dot_add by (intro dot_cong)
qed

lemma block_position:
  fixes b p k :: nat
  assumes "k * (b * b) \<le> p" "p < k * (b * b) + b * b"
  obtains i j where "p = (k * b + i) * b + j" "i < b" "j < b"
    "(p - k * (b * b)) div b = i" "(p - k * (b * b)) mod b = j"
proof -
  obtain q where q: "p = k * (b * b) + q" "q < b * b" using assms by (metis le_Suc_ex add_less_cancel_left)
  show ?thesis
    by (rule that [of "q div b" "q mod b"]) (use q div_mod_less [OF q(2)] in \<open>simp_all add: algebra_simps\<close>)
qed

text \<open>One block of the product.\<close>

lemma product_block:
  assumes k: "k < m * m" and N: "N = m * b * (m * b)" and b: "0 < b"
    and A1: "A1 = map (\<lambda>p. A ! unblk m b p) [0 ..< N]" and B1: "B1 = map (\<lambda>p. B ! unblk m b p) [0 ..< N]"
    and C: "length C = N"
  shows "\<exists>C'. bindE (Zero_C ar m (b * b) (k div m) (k mod m) C) (\<lambda>(C_p, C).
      forE (Mult_add ar m b A1 B1 C_p (k div m) (k mod m)) [0 ..< m] C) = Inr C' \<and> length C' = N \<and>
    (\<forall>p. C' ! p = (if k * (b * b) \<le> p \<and> p < k * (b * b) + b * b
       then product_entry ar (m * b) A B (unblk m b p) else C ! p))"
proof -
  let ?c = "k * (b * b)" and ?e = "\<lambda>p. partial_entry ar (m * b) A B (unblk m b p)"
  let ?I = "\<lambda>kb C'. length C' = N \<and> (\<forall>p. C' ! p = (if ?c \<le> p \<and> p < ?c + b * b then ?e p (kb * b) else C ! p))"
  let ?C0 = "blit ?c (replicate (b * b) (zero_d ar)) C"
  have bd: "?c + b * b \<le> N" using block_bounds(1) [OF k b] N by simp
  have z: "Zero_C ar m (b * b) (k div m) (k mod m) C = Inr (?c, ?C0)"
    using bd C by (simp add: Zero_C_def Let_def)
  have C0: "?I 0 ?C0"
  proof -
    have "?C0 ! p = (if ?c \<le> p \<and> p < ?c + b * b then zero_d ar else C ! p)" for p
    proof (cases "p < N")
      case True
      then show ?thesis using bd C by (simp add: nth_blit) (auto simp: not_le)
    next
      case False
      moreover have "?c \<le> N" "\<not> p - ?c < b * b" using bd False by linarith+
      ultimately show ?thesis using bd C by (simp add: blit_def nth_append)
    qed
    then show ?thesis using bd C by (simp add: length_blit partial_entry_def)
  qed
  have "\<exists>C'. forE (Mult_add ar m b A1 B1 ?c (k div m) (k mod m)) [0 ..< m] ?C0 = Inr C' \<and> ?I m C'"
  proof (rule forE_invariant [where P = ?I])
    fix kb C1 assume kb: "kb < m" and C1: "?I kb C1"
    have d: "k div m < m" "k mod m < m" using div_mod_less [OF k] by auto
    have la: "(k div m * m + kb) * (b * b) + b * b \<le> length A1" "(kb * m + k mod m) * (b * b) + b * b \<le> length B1"
      using block_bounds(1) [OF index_less [OF d(1) kb] b] block_bounds(1) [OF index_less [OF kb d(2)] b] A1 B1 N
      by simp_all
    have lc: "?c + b * b \<le> length C1" using C1 bd by simp
    obtain C2 where run: "Mult_add ar m b A1 B1 ?c (k div m) (k mod m) kb C1 = Inr C2" and l2: "length C2 = length C1"
      and C2: "\<forall>p. C2 ! p = (if ?c \<le> p \<and> p < ?c + b * b
       then dot ar (\<lambda>t. A1 ! ((k div m * m + kb) * (b * b) + (p - ?c) div b * b + t))
         (\<lambda>t. B1 ! ((kb * m + k mod m) * (b * b) + t * b + (p - ?c) mod b)) (C1 ! p) b
       else C1 ! p)"
      using Mult_add_run [OF lc la, of ar] by blast
    have "C2 ! p = ?e p (Suc kb * b)" if p: "?c \<le> p" "p < ?c + b * b" for p
    proof -
      obtain i j where ij: "p = (k * b + i) * b + j" "i < b" "j < b" "(p - ?c) div b = i" "(p - ?c) mod b = j"
        using block_position [OF p] .
      have "C1 ! p = ?e p (kb * b)" using C1 p by simp
      then have "C2 ! p = dot ar (\<lambda>t. A1 ! ((k div m * m + kb) * (b * b) + i * b + t))
         (\<lambda>t. B1 ! ((kb * m + k mod m) * (b * b) + t * b + j)) (?e p (kb * b)) b"
        using C2 p ij(4,5) by simp
      also have "\<dots> = ?e p (Suc kb * b)"
        by (rule partial_entry_step [OF k kb ij(2,3)]) (simp_all add: A1 B1 N ij(1))
      finally show ?thesis .
    qed
    then have "?I (Suc kb) C2" using C2 C1 l2 by auto
    then show "\<exists>C'. Mult_add ar m b A1 B1 ?c (k div m) (k mod m) kb C1 = Inr C' \<and> ?I (Suc kb) C'"
      using run by blast
  qed (rule C0)
  then obtain C' where "forE (Mult_add ar m b A1 B1 ?c (k div m) (k mod m)) [0 ..< m] ?C0 = Inr C'" "?I m C'"
    by blast
  moreover have "partial_entry ar (m * b) A B q (m * b) = product_entry ar (m * b) A B q" for q
    by (simp add: partial_entry_def product_entry_def)
  ultimately show ?thesis unfolding z by (intro exI [of _ C']) simp
qed

lemma Blocked_mat_mult_run:
  assumes N: "N = m * b * (m * b)" and b: "0 < b" and C: "length C = N"
  shows "Blocked_mat_mult ar m b (map (\<lambda>p. A ! unblk m b p) [0 ..< N]) (map (\<lambda>p. B ! unblk m b p) [0 ..< N]) C =
    Inr (map (\<lambda>p. product_entry ar (m * b) A B (unblk m b p)) [0 ..< N])"
proof -
  let ?A = "map (\<lambda>p. A ! unblk m b p) [0 ..< N]" and ?B = "map (\<lambda>p. B ! unblk m b p) [0 ..< N]"
  let ?e = "\<lambda>p. product_entry ar (m * b) A B (unblk m b p)"
  let ?block = "\<lambda>i_bar j_bar C. bindE (Zero_C ar m (b * b) i_bar j_bar C) (\<lambda>(C_p, C).
      forE (Mult_add ar m b ?A ?B C_p i_bar j_bar) [0 ..< m] C)"
  let ?I = "\<lambda>k C. length C = N \<and> (\<forall>p < k * (b * b). C ! p = ?e p)"
  have "\<exists>C'. forE (\<lambda>k. ?block (k div m) (k mod m)) [0 ..< m * m] C = Inr C' \<and> ?I (m * m) C'"
  proof (rule forE_invariant [where P = ?I])
    fix k C1 assume k: "k < m * m" and C1: "?I k C1"
    then obtain C2 where C2: "?block (k div m) (k mod m) C1 = Inr C2" "length C2 = N"
      "\<forall>p. C2 ! p = (if k * (b * b) \<le> p \<and> p < k * (b * b) + b * b then ?e p else C1 ! p)"
      using product_block [OF k N b refl refl, where C = C1 and A = A and B = B and ar = ar] by blast
    have "C2 ! p = ?e p" if "p < Suc k * (b * b)" for p
      using C2(3) C1 that by (cases "k * (b * b) \<le> p") (simp_all add: add.commute)
    then show "\<exists>C'. ?block (k div m) (k mod m) C1 = Inr C' \<and> ?I (Suc k) C'" using C2 by blast
  qed (use C in simp)
  then obtain C' where run: "forE (\<lambda>k. ?block (k div m) (k mod m)) [0 ..< m * m] C = Inr C'" and C': "?I (m * m) C'"
    by blast
  have "N = m * m * (b * b)" using N by (simp add: ac_simps)
  then have "C' = map ?e [0 ..< N]" using C' by (intro nth_equalityI) simp_all
  then show ?thesis unfolding Blocked_mat_mult_def forE_nested using run by simp
qed

text \<open>Both programs compute the same matrix, whatever addition and multiplication are.\<close>

lemma blocked_is_standard:
  assumes N: "N = m * b * (m * b)" and b: "0 < b" and len: "length A = N" "length B = N" "length C = N" "length C1 = N"
    "length T0 = N" "length T1 = N" "length T2 = N"
  shows "bindE (To_blocked (Some T0) A (m * b) b) (\<lambda>A1. bindE (To_blocked (Some T1) B (m * b) b) (\<lambda>B1.
      bindE (Blocked_mat_mult ar m b A1 B1 C) (\<lambda>C2. From_blocked (Some T2) C2 (m * b) b))) =
    Mat_mult ar (m * b) A B C1"
proof -
  let ?e = "product_entry ar (m * b) A B"
  have "map (\<lambda>q. map (\<lambda>p. ?e (unblk m b p)) [0 ..< N] ! blk m b q) [0 ..< N] = map ?e [0 ..< N]"
    using unblk_blk [OF _ b, of _ m] N by (intro map_cong) auto
  then have f: "From_blocked (Some T2) (map (\<lambda>p. ?e (unblk m b p)) [0 ..< N]) (m * b) b = Inr (map ?e [0 ..< N])"
    using From_blocked_run [OF b, of T2 m "map (\<lambda>p. ?e (unblk m b p)) [0 ..< N]"] N len(7) by simp
  have t: "To_blocked (Some T0) A (m * b) b = Inr (map (\<lambda>p. A ! unblk m b p) [0 ..< N])"
    "To_blocked (Some T1) B (m * b) b = Inr (map (\<lambda>p. B ! unblk m b p) [0 ..< N])"
    using To_blocked_run [OF b, of T0 m A] To_blocked_run [OF b, of T1 m B] N len by simp_all
  have "Mat_mult ar (m * b) A B C1 = Inr (map ?e [0 ..< N])" using Mat_mult_run [of A "m * b" B C1 ar] N len by simp
  then show ?thesis using f by (simp add: t Blocked_mat_mult_run [OF N b len(3)])
qed

end
