(* ===== verification/Trace_Simple.thy ===== *)
theory Trace_Simple
  imports C_Loops
begin

text \<open>
  The two small programs that produce traces (traceprogs/simpleloop.c, overflow.c).
  An array of \<open>struct krec\<close> is the list of the elements \<open>d[0]\<close>; \<open>malloc\<close> gives the
  array with its unknown contents or \<open>None\<close>, which \<open>heap_loop\<close> does not check.
\<close>

definition heap_loop :: "(nat \<Rightarrow> 'a) \<Rightarrow> 'a list option \<Rightarrow> nat \<Rightarrow> 'a list option res" where
  "heap_loop double ptr iters =
    forE (\<lambda>i ptr. case ptr of None \<Rightarrow> Inl Null_Deref
      | Some a \<Rightarrow> bindE (wr a i (double i)) (\<lambda>a. Inr (Some a))) [0 ..< iters] ptr"

definition stack_loop :: "(nat \<Rightarrow> 'a) \<Rightarrow> 'a list \<Rightarrow> nat \<Rightarrow> 'a list res" where
  "stack_loop double a iters = forE (\<lambda>i a. wr a i (double i)) [0 ..< iters] a"

definition OVERFLOW :: nat where "OVERFLOW = 5"

text \<open>The loop of overflow.c on the array \<open>a\<close>.\<close>

definition overflow_loop :: "int list \<Rightarrow> int list res" where
  "overflow_loop a = forE (\<lambda>i a. wr a i (int i * 10)) [0 ..< OVERFLOW] a"

lemma stack_loop_run: "length a = iters \<Longrightarrow> stack_loop double a iters = Inr (map double [0 ..< iters])"
  unfolding stack_loop_def by (rule forE_fill) simp_all

lemma heap_loop_run: "length a = iters \<Longrightarrow> heap_loop double (Some a) iters = Inr (Some (map double [0 ..< iters]))"
proof -
  assume l: "length a = iters"
  let ?g = "\<lambda>q. Some (filled double q a)"
  have "heap_loop double (?g 0) iters = Inr (?g iters)"
    unfolding heap_loop_def by (rule forE_trace) (use l in \<open>simp add: length_filled filled_Suc\<close>)
  then show ?thesis using l by (simp add: filled_0 filled_all)
qed

lemma heap_loop_null: "0 < iters \<Longrightarrow> heap_loop double None iters = Inl Null_Deref"
  by (simp add: heap_loop_def upt_conv_Cons)

lemma overflow_loop_writes_past: "length a = 4 \<Longrightarrow> overflow_loop a = Inl Out_Of_Bounds"
  by (simp add: overflow_loop_def OVERFLOW_def upt_conv_Cons)

end
