(* ===== verification/Trace_Main.thy ===== *)
theory Trace_Main
  imports Trace_Blocked Trace_Simple C_Text
begin

text \<open>
  The programs that produce traces, from their arguments to what they print: the file
  with the addresses of the two markers that bound the trace, the arguments, the
  allocation of the matrices, the product, the printed matrix.
\<close>

section \<open>Around the programs\<close>

text \<open>
  What a program finds outside: whether the marker file can be opened, the addresses of the
  two markers, the contents of what the \<open>k\<close>-th call of \<open>malloc\<close> returns (\<open>None\<close> when it
  fails), the values \<open>random()/DRAND_MAX\<close>, the arithmetic of \<open>double\<close> and its printing with
  \<open>%.2e\<close>, and the elapsed time as printed.
\<close>

record 'a trace_env =
  e_fopen :: bool
  e_start :: u64
  e_end :: u64
  e_malloc :: "nat \<Rightarrow> (nat \<Rightarrow> 'a) option"
  e_random :: "nat \<Rightarrow> 'a"
  e_arith :: "'a arith"
  e_show :: "'a \<Rightarrow> string"
  e_elapsed :: string

definition marker_text :: "'a trace_env \<Rightarrow> string res" where
  "marker_text env =
    bindE (guardE (Exit_With 1) (e_fopen env)) (\<lambda>_.
    Inr (show_ptr (e_start env) @ '' '' @ show_ptr (e_end env)))"

definition malloc_array :: "'a trace_env \<Rightarrow> nat \<Rightarrow> nat \<Rightarrow> 'a list option" where
  "malloc_array env k N = map_option (\<lambda>g. map g [0 ..< N]) (e_malloc env k)"

text \<open>\<open>n*n\<close> of two signed integers.\<close>

definition square :: "int \<Rightarrow> nat res" where
  "square n = bindE (guardE Signed_Overflow (n * n < 2 ^ 31)) (\<lambda>_. Inr (nat (n * n)))"

definition Print_matrix :: "('a \<Rightarrow> string) \<Rightarrow> 'a list \<Rightarrow> nat \<Rightarrow> string res" where
  "Print_matrix show C n =
    forE (\<lambda>i out.
      bindE (forE (\<lambda>j out. bindE (rd C (i * n + j)) (\<lambda>x. Inr (out @ show x @ '' ''))) [0 ..< n] out) (\<lambda>out.
      Inr (out @ nl))) [0 ..< n] []"

section \<open>matmul.c\<close>

text \<open>
  The result is the text of the marker file and what is printed; \<open>args\<close> is \<open>argv\<close>.  With a
  negative order \<open>n*n\<close> entries are allocated and filled, and no loop over rows is entered.
\<close>

definition matmul_program :: "'a trace_env \<Rightarrow> bool \<Rightarrow> string list \<Rightarrow> (string \<times> string) res" where
  "matmul_program env debug args =
    bindE (marker_text env) (\<lambda>marker.
    bindE (guardE (Exit_With 0) (length args = 2)) (\<lambda>_.
    let n = to_int (strtol10 (args ! 1)) in
    bindE (square n) (\<lambda>N.
    case (malloc_array env 0 N, malloc_array env 1 N, malloc_array env 2 N) of
      (Some A0, Some B0, Some C0) \<Rightarrow>
        (case Get_matrices (e_random env) (nat \<bar>n\<bar>) of (A, B) \<Rightarrow>
        bindE (Mat_mult (e_arith env) (nat n) A B C0) (\<lambda>C.
        bindE (if debug then bindE (Print_matrix (e_show env) C (nat n)) (\<lambda>out.
            Inr (''Standard algorithm'' @ nl @ out)) else Inr []) (\<lambda>out.
        Inr (marker, out @ ''Elapsed time for standard algorithm = '' @ e_elapsed env @ '' seconds'' @ nl))))
    | _ \<Rightarrow> Inl (Exit_With (-1)))))"

section \<open>blocked.c\<close>

text \<open>
  The two changes of storage and the product with orders that may be negative.  Then no loop over
  the rows of a block is entered: the changes of storage copy the contents of \<open>T\<close>, and the
  product sets the matrix to zero, block by block, when both orders are negative.
\<close>

definition To_blocked_int :: "'a list option \<Rightarrow> 'a list \<Rightarrow> int \<Rightarrow> int \<Rightarrow> 'a list res" where
  "To_blocked_int T0 A n b =
    (if 0 \<le> n \<and> 0 < b then To_blocked T0 A (nat n) (nat b)
     else case T0 of None \<Rightarrow> Inl (Exit_With (-1)) | Some T \<Rightarrow> Inr T)"

definition From_blocked_int :: "'a list option \<Rightarrow> 'a list \<Rightarrow> int \<Rightarrow> int \<Rightarrow> 'a list res" where
  "From_blocked_int T0 C n b =
    (if 0 \<le> n \<and> 0 < b then From_blocked T0 C (nat n) (nat b)
     else case T0 of None \<Rightarrow> Inl (Exit_With (-1)) | Some T \<Rightarrow> Inr T)"

definition Blocked_mat_mult_int :: "'a arith \<Rightarrow> int \<Rightarrow> int \<Rightarrow> 'a list \<Rightarrow> 'a list \<Rightarrow> 'a list \<Rightarrow> 'a list res" where
  "Blocked_mat_mult_int ar n b A B C =
    (if 0 \<le> n \<and> 0 < b then Blocked_mat_mult ar (nat n div nat b) (nat b) A B C
     else if n < 0 \<and> b < 0 then Inr (replicate (length C) (zero_d ar)) else Inr C)"

definition blocked_program :: "'a trace_env \<Rightarrow> bool \<Rightarrow> string list \<Rightarrow> (string \<times> string) res" where
  "blocked_program env debug args =
    bindE (marker_text env) (\<lambda>marker.
    bindE (guardE (Exit_With 0) (length args = 3 \<or> length args = 4)) (\<lambda>_.
    let n = to_int (strtol10 (args ! 1)); b = to_int (strtol10 (args ! 2)) in
    bindE (guardE Div_By_Zero (b \<noteq> 0)) (\<lambda>_.
    bindE (guardE (Exit_With 0) (b dvd n)) (\<lambda>_.
    bindE (square n) (\<lambda>N.
    case (malloc_array env 0 N, malloc_array env 1 N, malloc_array env 2 N) of
      (Some A0, Some B0, Some C0) \<Rightarrow>
        bindE (square b) (\<lambda>_.
        case Get_matrices (e_random env) (nat \<bar>n\<bar>) of (A, B) \<Rightarrow>
        bindE (if debug then bindE (To_blocked_int (malloc_array env 3 N) A n b) (\<lambda>A.
            bindE (To_blocked_int (malloc_array env 4 N) B n b) (\<lambda>B. Inr (A, B))) else Inr (A, B)) (\<lambda>(A, B).
        bindE (Blocked_mat_mult_int (e_arith env) n b A B C0) (\<lambda>C.
        bindE (if debug then bindE (From_blocked_int (malloc_array env 5 N) C n b) (\<lambda>C.
            bindE (Print_matrix (e_show env) C (nat n)) (\<lambda>out. Inr (''Blocked algorithm'' @ nl @ out))) else Inr []) (\<lambda>out.
        Inr (marker, out @ ''Elapsed time for blocked algorithm = '' @ e_elapsed env @ '' seconds'' @ nl)))))
    | _ \<Rightarrow> Inl (Exit_With (-1)))))))"

section \<open>simpleloop.c\<close>

definition simpleloop_program :: "'a trace_env \<Rightarrow> (nat \<Rightarrow> 'a) \<Rightarrow> string res" where
  "simpleloop_program env double =
    bindE (marker_text env) (\<lambda>marker.
    bindE (heap_loop double (malloc_array env 0 10000) 10000) (\<lambda>_. Inr marker))"

section \<open>overflow.c\<close>

text \<open>
  The variables of \<open>main\<close> in memory: a cell per integer, the position of each variable is the
  compiler's choice.  The store behind the array \<open>a\<close> is what the program is about.
\<close>

record layout =
  at_index :: nat
  at_i :: nat
  at_before :: nat
  at_a :: nat
  at_after :: nat
  cell_address :: "nat \<Rightarrow> u64"

type_synonym cells = "nat \<Rightarrow> int"

definition show_four :: "string \<Rightarrow> nat \<Rightarrow> cells \<Rightarrow> string" where
  "show_four name p m = name @ '' = {'' @ show_int (m p) @ '', '' @ show_int (m (p + 1)) @ '', '' @
     show_int (m (p + 2)) @ '', '' @ show_int (m (p + 3)) @ ''}'' @ nl"

definition show_values :: "layout \<Rightarrow> cells \<Rightarrow> string" where
  "show_values L m = ''i = '' @ show_int (m (at_i L)) @ nl @ show_four ''before'' (at_before L) m @
     show_four ''a'' (at_a L) m @ show_four ''after'' (at_after L) m"

text \<open>\<open>%lx\<close>.\<close>

definition show_lx :: "u64 \<Rightarrow> string" where
  "show_lx w = show_base 16 (unat w)"

definition show_address :: "layout \<Rightarrow> string \<Rightarrow> nat \<Rightarrow> nat \<Rightarrow> string" where
  "show_address L name p k = show_lx (cell_address L (p + k)) @ '' -> &'' @ name @ ''['' @ show_nat k @ '']'' @ nl"

definition show_addresses :: "layout \<Rightarrow> string" where
  "show_addresses L = ''Address of the variables:'' @ nl @
     concat (map (show_address L ''after'' (at_after L)) [0 ..< 4]) @
     concat (map (show_address L ''a'' (at_a L)) [0 ..< 4]) @
     concat (map (show_address L ''before'' (at_before L)) [0 ..< 4]) @
     show_lx (cell_address L (at_i L)) @ '' -> &i'' @ nl @
     show_lx (cell_address L (at_index L)) @ '' -> &index'' @ nl @ nl"

definition set_four :: "nat \<Rightarrow> int \<Rightarrow> cells \<Rightarrow> cells" where
  "set_four p x m = m(p := x, p + 1 := x, p + 2 := x, p + 3 := x)"

text \<open>The loop of lines 36-42: \<open>i\<close> is read from its cell each time.\<close>

fun overflow_rounds :: "nat \<Rightarrow> layout \<Rightarrow> cells \<Rightarrow> string \<Rightarrow> (string \<times> cells) res" where
  "overflow_rounds 0 L m out = Inl Out_Of_Fuel"
| "overflow_rounds (Suc k) L m out =
    (if m (at_i L) < int OVERFLOW then
       let m1 = m(at_a L + nat (m (at_i L)) := m (at_i L) * 10) in
       overflow_rounds k L (m1(at_i L := m1 (at_i L) + 1)) (out @ show_values L m1)
     else Inr (out, m))"

definition overflow_main :: "nat \<Rightarrow> layout \<Rightarrow> cells \<Rightarrow> string res" where
  "overflow_main fuel L m =
    (let m = set_four (at_after L) 10 (set_four (at_a L) 0 (set_four (at_before L) 10 (m(at_index L := 0))));
         m = m(at_index L := 4) in
     bindE (overflow_rounds fuel L (m(at_i L := 0))
       (show_addresses L @ ''Initial values:'' @ nl @ show_values L m @ nl)) (\<lambda>(out, _). Inr out))"

end
