(* ===== verification/Trace_Output.thy ===== *)
theory Trace_Output
  imports Trace_Main
begin

text \<open>
  What the programs that produce traces print: the matrix programs the product, row by row;
  overflow.c the values of its variables, with the one behind the array overwritten.
\<close>

section \<open>The matrix programs\<close>

definition matrix_text :: "('a \<Rightarrow> string) \<Rightarrow> (nat \<Rightarrow> 'a) \<Rightarrow> nat \<Rightarrow> string" where
  "matrix_text show P n =
    concat (map (\<lambda>i. concat (map (\<lambda>j. show (P (i * n + j)) @ '' '') [0 ..< n]) @ nl) [0 ..< n])"

lemma Print_matrix_run:
  assumes "length C = n * n"
  shows "Print_matrix show C n = Inr (matrix_text show ((!) C) n)"
proof -
  have "bindE (forE (\<lambda>j out. bindE (rd C (i * n + j)) (\<lambda>x. Inr (out @ show x @ '' ''))) [0 ..< n] out)
      (\<lambda>out. Inr (out @ nl)) = Inr (out @ concat (map (\<lambda>j. show (C ! (i * n + j)) @ '' '') [0 ..< n]) @ nl)"
    if "i < n" for i out
    using that assms by (subst forE_concat) (auto simp: index_less)
  then show ?thesis unfolding Print_matrix_def matrix_text_def by (subst forE_concat) auto
qed

lemma matrix_text_cong: "(\<And>q. q < n * n \<Longrightarrow> P q = P' q) \<Longrightarrow> matrix_text show P n = matrix_text show P' n"
  unfolding matrix_text_def by (auto simp: index_less intro!: arg_cong [where f = concat])

text \<open>Programs that can open the marker file, and the calls of \<open>malloc\<close> that succeed.\<close>

definition served :: "'a trace_env \<Rightarrow> nat \<Rightarrow> bool" where
  "served env K \<longleftrightarrow> e_fopen env \<and> (\<forall>k < K. e_malloc env k \<noteq> None)"

lemma served_malloc:
  "served env K \<Longrightarrow> k < K \<Longrightarrow> \<exists>xs. malloc_array env k N = Some xs \<and> length xs = N"
  by (auto simp: served_def malloc_array_def)

lemma marker_text_run: "served env K \<Longrightarrow> marker_text env = Inr (show_ptr (e_start env) @ '' '' @ show_ptr (e_end env))"
  by (simp add: marker_text_def served_def)

definition elapsed_text :: "string \<Rightarrow> 'a trace_env \<Rightarrow> string" where
  "elapsed_text name env = ''Elapsed time for '' @ name @ '' algorithm = '' @ e_elapsed env @ '' seconds'' @ nl"

lemma square_run: "n * n < 2 ^ 31 \<Longrightarrow> square (int n) = Inr (n * n)"
proof -
  assume "n * n < 2 ^ 31"
  then have "int (n * n) < int (2 ^ 31)" by (rule iffD2 [OF of_nat_less_iff])
  then show ?thesis by (simp add: square_def flip: of_nat_mult)
qed

lemma matmul_program_run:
  assumes env: "served env 3" and n: "to_int (strtol10 a1) = int n" "n * n < 2 ^ 31"
    and AB: "Get_matrices (e_random env) n = (A, B)"
  shows "matmul_program env True [a0, a1] = Inr (show_ptr (e_start env) @ '' '' @ show_ptr (e_end env),
    ''Standard algorithm'' @ nl @ matrix_text (e_show env) (product_entry (e_arith env) n A B) n @ elapsed_text ''standard'' env)"
proof -
  obtain A0 B0 C0 where M: "malloc_array env 0 (n * n) = Some A0" "malloc_array env 1 (n * n) = Some B0"
    "malloc_array env 2 (n * n) = Some C0" "length C0 = n * n"
    using served_malloc [OF env, of 0 "n * n"] served_malloc [OF env, of 1 "n * n"] served_malloc [OF env, of 2 "n * n"] by auto
  have len: "length A = n * n" "length B = n * n" using AB by (auto simp: Get_matrices_def)
  let ?P = "map (product_entry (e_arith env) n A B) [0 ..< n * n]"
  have "Print_matrix (e_show env) ?P n = Inr (matrix_text (e_show env) ((!) ?P) n)" by (rule Print_matrix_run) simp
  also have "matrix_text (e_show env) ((!) ?P) n = matrix_text (e_show env) (product_entry (e_arith env) n A B) n"
    by (rule matrix_text_cong) simp
  finally show ?thesis
    using Mat_mult_run [OF len M(4)] M AB square_run [OF n(2)]
    by (simp add: matmul_program_def marker_text_run [OF env] n(1) elapsed_text_def Let_def)
qed

lemma blocked_program_run:
  assumes env: "served env 6" and n: "to_int (strtol10 a1) = int n" "0 < n" "n * n < 2 ^ 31"
    and b: "to_int (strtol10 a2) = int b" "0 < b" "b dvd n" and AB: "Get_matrices (e_random env) n = (A, B)"
  shows "blocked_program env True [a0, a1, a2] = Inr (show_ptr (e_start env) @ '' '' @ show_ptr (e_end env),
    ''Blocked algorithm'' @ nl @ matrix_text (e_show env) (product_entry (e_arith env) n A B) n @ elapsed_text ''blocked'' env)"
proof -
  let ?N = "n * n"
  obtain A0 B0 C0 where M: "malloc_array env 0 ?N = Some A0" "malloc_array env 1 ?N = Some B0"
    "malloc_array env 2 ?N = Some C0" "length C0 = ?N"
    using served_malloc [OF env, of 0 "n * n"] served_malloc [OF env, of 1 "n * n"] served_malloc [OF env, of 2 "n * n"] by auto
  obtain T0 T1 T2 where T: "malloc_array env 3 ?N = Some T0" "malloc_array env 4 ?N = Some T1"
    "malloc_array env 5 ?N = Some T2" "length T0 = ?N" "length T1 = ?N" "length T2 = ?N"
    using served_malloc [OF env, of 3 "n * n"] served_malloc [OF env, of 4 "n * n"] served_malloc [OF env, of 5 "n * n"] by auto
  have len: "length A = ?N" "length B = ?N" using AB by (auto simp: Get_matrices_def)
  define m where "m = n div b"
  have nm: "n = m * b" "n div b = m" using b(2,3) by (auto simp: m_def)
  have "b \<le> n" using b(3) n(2) by (rule dvd_imp_le)
  then have "b * b \<le> n * n" by (intro mult_le_mono)
  then have bb: "b * b < 2 ^ 31" using n(3) by simp
  let ?P = "map (product_entry (e_arith env) n A B) [0 ..< ?N]"
  have prod: "bindE (To_blocked (Some T0) A n b) (\<lambda>A1. bindE (To_blocked (Some T1) B n b) (\<lambda>B1.
      bindE (Blocked_mat_mult (e_arith env) m b A1 B1 C0) (\<lambda>C2. From_blocked (Some T2) C2 n b))) = Inr ?P"
    using blocked_is_standard [OF refl b(2), of A m B C0 C0 T0 T1 T2 "e_arith env"] Mat_mult_run [OF len M(4)] len M(4) T nm(1)
    by simp
  obtain A1 where A1: "To_blocked (Some T0) A n b = Inr A1" using prod by (auto simp: bindE_Inr_iff)
  obtain B1 where B1: "To_blocked (Some T1) B n b = Inr B1" using prod A1 by (auto simp: bindE_Inr_iff)
  obtain C2 where C2: "Blocked_mat_mult (e_arith env) m b A1 B1 C0 = Inr C2" "From_blocked (Some T2) C2 n b = Inr ?P"
    using prod A1 B1 by (auto simp: bindE_Inr_iff)
  have "Print_matrix (e_show env) ?P n = Inr (matrix_text (e_show env) ((!) ?P) n)" by (rule Print_matrix_run) simp
  also have "matrix_text (e_show env) ((!) ?P) n = matrix_text (e_show env) (product_entry (e_arith env) n A B) n"
    by (rule matrix_text_cong) simp
  finally show ?thesis
    using M T AB A1 B1 C2 square_run [OF n(3)] square_run [OF bb] n(2) b nm(2)
    by (simp add: blocked_program_def marker_text_run [OF env] n(1) b(1) elapsed_text_def Let_def To_blocked_int_def
        From_blocked_int_def Blocked_mat_mult_int_def)
qed

section \<open>overflow.c\<close>

text \<open>A compiler that gives each variable cells of its own, \<open>before\<close> directly behind \<open>a\<close>.\<close>

definition before_behind_a :: "layout \<Rightarrow> bool" where
  "before_behind_a L \<longleftrightarrow> at_before L = at_a L + 4 \<and>
     distinct (at_index L # at_i L # [at_a L ..< at_a L + 8] @ [at_after L ..< at_after L + 4])"

text \<open>The cells of \<open>a\<close> and \<open>before\<close>, and those of \<open>after\<close>.\<close>

definition cells_are :: "layout \<Rightarrow> cells \<Rightarrow> int \<Rightarrow> int list \<Rightarrow> int list \<Rightarrow> bool" where
  "cells_are L m i as cs \<longleftrightarrow> m (at_i L) = i \<and> as = map (\<lambda>k. m (at_a L + k)) [0 ..< 8] \<and>
     cs = map (\<lambda>k. m (at_after L + k)) [0 ..< 4]"

definition four_text :: "string \<Rightarrow> int list \<Rightarrow> string" where
  "four_text name xs = name @ '' = {'' @ show_int (xs ! 0) @ '', '' @ show_int (xs ! 1) @ '', '' @
     show_int (xs ! 2) @ '', '' @ show_int (xs ! 3) @ ''}'' @ nl"

definition values_text :: "int \<Rightarrow> int list \<Rightarrow> int list \<Rightarrow> string" where
  "values_text i as cs = ''i = '' @ show_int i @ nl @ four_text ''before'' (drop 4 as) @ four_text ''a'' as @
     four_text ''after'' cs"

lemma cells_apart:
  assumes "before_behind_a L" "k < 8" "j < 4"
  shows "at_a L + k \<noteq> at_i L" "at_a L + k \<noteq> at_after L + j" "at_after L + j \<noteq> at_a L + k" "at_after L + j \<noteq> at_i L"
    "at_index L \<noteq> at_i L" "at_i L \<noteq> at_index L" "at_a L + k \<noteq> at_index L" "at_after L + j \<noteq> at_index L"
  using assms by (auto simp: before_behind_a_def)

lemma show_values_text:
  assumes "before_behind_a L" "cells_are L m i as cs"
  shows "show_values L m = values_text i as cs"
proof -
  have b: "drop 4 as ! k = m (at_before L + k)" if "k < 4" for k
    using assms that by (simp add: cells_are_def before_behind_a_def add.assoc)
  have a: "as ! k = m (at_a L + k)" if "k < 4" for k using assms(2) that by (simp add: cells_are_def)
  have c: "cs ! k = m (at_after L + k)" if "k < 4" for k using assms(2) that by (simp add: cells_are_def)
  show ?thesis using assms(2) a [of 0] a [of 1] a [of 2] a [of 3] b [of 0] b [of 1] b [of 2] b [of 3]
      c [of 0] c [of 1] c [of 2] c [of 3]
    by (simp add: cells_are_def show_values_def show_four_def values_text_def four_text_def)
qed

lemma set_four_apply: "set_four p x m q = (if p \<le> q \<and> q < p + 4 then x else m q)"
  by (auto simp: set_four_def)

lemma overflow_round:
  assumes L: "before_behind_a L" and m: "cells_are L m (int i) as cs" and i: "i < 5"
  shows "\<exists>m'. overflow_rounds (Suc k) L m out =
      overflow_rounds k L m' (out @ values_text (int i) (as[i := int i * 10]) cs) \<and>
    cells_are L m' (int (Suc i)) (as[i := int i * 10]) cs"
proof -
  let ?m1 = "m(at_a L + i := int i * 10)"
  let ?m2 = "?m1(at_i L := int (Suc i))"
  have mi: "m (at_i L) = int i" using m by (simp add: cells_are_def)
  have as: "as[i := int i * 10] = map (\<lambda>k. ?m1 (at_a L + k)) [0 ..< 8]"
    using m i by (intro nth_equalityI) (auto simp: cells_are_def nth_list_update)
  have "at_after L + j \<noteq> at_a L + i" if "j < 4" for j using cells_apart(3) [OF L _ that, of i] i by simp
  then have cs: "cs = map (\<lambda>k. ?m1 (at_after L + k)) [0 ..< 4]" using m by (simp add: cells_are_def)
  have i1: "?m1 (at_i L) = int i" using cells_apart(1) [OF L, of i 0] i mi by simp
  have one: "cells_are L ?m1 (int i) (as[i := int i * 10]) cs" using as cs i1 by (simp only: cells_are_def)
  have "map (\<lambda>k. ?m2 (at_a L + k)) [0 ..< 8] = map (\<lambda>k. ?m1 (at_a L + k)) [0 ..< 8]"
    by (rule map_cong [OF refl]) (use cells_apart(1) [OF L, of _ 0] in auto)
  moreover have "map (\<lambda>k. ?m2 (at_after L + k)) [0 ..< 4] = map (\<lambda>k. ?m1 (at_after L + k)) [0 ..< 4]"
    by (rule map_cong [OF refl]) (use cells_apart(4) [OF L, of 0] in auto)
  ultimately have "cells_are L ?m2 (int (Suc i)) (as[i := int i * 10]) cs" unfolding cells_are_def as cs by simp
  moreover have "overflow_rounds (Suc k) L m out = overflow_rounds k L ?m2 (out @ values_text (int i) (as[i := int i * 10]) cs)"
    using show_values_text [OF L one] i1 mi i by (simp add: OVERFLOW_def Let_def add.commute)
  ultimately show ?thesis by blast
qed

declare overflow_rounds.simps(2) [simp del]

lemma overflow_reaches_before:
  assumes L: "before_behind_a L"
  shows "\<exists>out. overflow_main 7 L m = Inr (out @ values_text 4 [0, 10, 20, 30, 40, 10, 10, 10] [10, 10, 10, 10])"
proof -
  have b: "at_before L = at_a L + 4" using L by (simp add: before_behind_a_def)
  define m0 where "m0 = (set_four (at_after L) 10 (set_four (at_a L) 0 (set_four (at_before L) 10 (m(at_index L := 0)))))
    (at_index L := 4, at_i L := 0)"
  define cs where "cs = [10, 10, 10, 10 :: int]"
  have apart: "at_after L + 4 \<le> at_a L \<or> at_a L + 8 \<le> at_after L" using L by (simp add: before_behind_a_def) linarith
  have a: "m0 (at_a L + k) = (if k < 4 then 0 else 10)" if "k < 8" for k
    using that cells_apart [OF L that, of 0] apart by (auto simp: m0_def set_four_apply b)
  have c: "m0 (at_after L + k) = 10" if "k < 4" for k
    using that cells_apart [OF L _ that, of 0] apart by (auto simp: m0_def set_four_apply b)
  have c0: "cells_are L m0 (int 0) [0, 0, 0, 0, 10, 10, 10, 10] cs"
  proof -
    have "map (\<lambda>k. m0 (at_a L + k)) [0 ..< 8] = map (\<lambda>k. if k < 4 then 0 else 10) [0 ..< 8]"
      by (rule map_cong [OF refl]) (simp add: a)
    moreover have "map (\<lambda>k. m0 (at_after L + k)) [0 ..< 4] = map (\<lambda>_. 10) [0 ..< 4]"
      by (rule map_cong [OF refl]) (simp add: c)
    ultimately show ?thesis by (simp add: cells_are_def cs_def m0_def upt_conv_Cons)
  qed
  obtain out0 where start: "overflow_main 7 L m = bindE (overflow_rounds 7 L m0 out0) (\<lambda>(out, _). Inr out)"
    by (simp add: overflow_main_def Let_def m0_def)
  obtain m1 out1 where 1: "overflow_rounds 7 L m0 out0 = overflow_rounds 6 L m1 out1"
    and c1: "cells_are L m1 (int 1) [0, 0, 0, 0, 10, 10, 10, 10] cs"
    using overflow_round [OF L c0, of 6 out0] by auto
  obtain m2 out2 where 2: "overflow_rounds 6 L m1 out1 = overflow_rounds 5 L m2 out2"
    and c2: "cells_are L m2 (int 2) [0, 10, 0, 0, 10, 10, 10, 10] cs"
    using overflow_round [OF L c1, of 5 out1] by auto
  obtain m3 out3 where 3: "overflow_rounds 5 L m2 out2 = overflow_rounds 4 L m3 out3"
    and c3: "cells_are L m3 (int 3) [0, 10, 20, 0, 10, 10, 10, 10] cs"
    using overflow_round [OF L c2, of 4 out2] by auto
  obtain m4 out4 where 4: "overflow_rounds 4 L m3 out3 = overflow_rounds 3 L m4 out4"
    and c4: "cells_are L m4 (int 4) [0, 10, 20, 30, 10, 10, 10, 10] cs"
    using overflow_round [OF L c3, of 3 out3] by auto
  obtain m5 where 5: "overflow_rounds 3 L m4 out4 =
      overflow_rounds 2 L m5 (out4 @ values_text 4 [0, 10, 20, 30, 40, 10, 10, 10] cs)"
    and c5: "cells_are L m5 (int 5) [0, 10, 20, 30, 40, 10, 10, 10] cs"
    using overflow_round [OF L c4, of 2 out4] by auto
  have "overflow_rounds 2 L m5 out = Inr (out, m5)" for out
    using c5 overflow_rounds.simps(2) [of 1 L m5 out] by (simp add: cells_are_def OVERFLOW_def numeral_2_eq_2)
  then show ?thesis unfolding start 1 2 3 4 5 by (auto simp: cs_def)
qed

end
