(* ===== verification/Trace_Props.thy ===== *)
theory Trace_Props
  imports Trace_Output
begin

text \<open>The properties of the programs that produce traces, with instances.\<close>

text \<open>The blocked program with its two changes of storage computes exactly the matrix of the
  standard program, for every order of the matrices, every block order that divides it and
  every addition and multiplication: the terms of an entry are added in the same order.\<close>

theorem blocked_equals_standard:
  assumes "b \<noteq> 0" and "n mod b = 0" and "length C = n * n" and "length C1 = n * n"
    and "\<And>i. i < 3 \<Longrightarrow> \<exists>T. mallocs i = Some T \<and> length T = n * n"
  shows "blocked_main ar True random n b (Some C) mallocs = matmul_main ar random n (Some C1) \<and>
    (\<exists>P. matmul_main ar random n (Some C1) = Inr P \<and> length P = n * n)"
proof -
  define m where "m = n div b"
  have n: "n = m * b" "n div b = m" using assms(2) by (auto simp: m_def)
  obtain T0 T1 T2 where T: "mallocs 0 = Some T0" "mallocs 1 = Some T1" "mallocs 2 = Some T2"
    "length T0 = n * n" "length T1 = n * n" "length T2 = n * n"
    using assms(5) [of 0] assms(5) [of 1] assms(5) [of 2] by auto
  obtain A B where AB: "Get_matrices random n = (A, B)" "length A = n * n" "length B = n * n"
    by (simp add: Get_matrices_def)
  have "bindE (To_blocked (Some T0) A n b) (\<lambda>A1. bindE (To_blocked (Some T1) B n b) (\<lambda>B1.
      bindE (Blocked_mat_mult ar m b A1 B1 C) (\<lambda>C2. From_blocked (Some T2) C2 n b))) = Mat_mult ar n A B C1"
    unfolding n(1) by (rule blocked_is_standard [OF refl]) (use assms T AB n in simp_all)
  moreover have "\<exists>P. Mat_mult ar n A B C1 = Inr P \<and> length P = n * n"
    using Mat_mult_run [OF AB(2,3) assms(4)] by simp
  ultimately show ?thesis using assms(1,2) T AB n(2)
    by (simp add: blocked_main_def matmul_main_def)
qed

theorem blocked_equals_standard_witness:
  "blocked_main \<lparr>plus_d = (+), times_d = (*), zero_d = 0\<rparr> True int 4 2 (Some (replicate 16 7)) (\<lambda>_. Some (replicate 16 5)) =
    matmul_main \<lparr>plus_d = (+), times_d = (*), zero_d = 0\<rparr> int 4 (Some (replicate 16 0))"
  using blocked_equals_standard [of 2 4 "replicate 16 (7 :: int)" "replicate 16 0" "\<lambda>_. Some (replicate 16 5)"
      "\<lparr>plus_d = (+), times_d = (*), zero_d = 0\<rparr>" int] by simp

text \<open>\<open>Mat_mult\<close> computes the matrix product: over the integers (or any ring) the entry in row
  \<open>i\<close> and column \<open>j\<close> is the sum of the products of row \<open>i\<close> of \<open>A\<close> with column \<open>j\<close> of \<open>B\<close>.\<close>

theorem Mat_mult_is_product:
  fixes A B C :: "'a::semiring_0 list"
  assumes "length A = n * n" "length B = n * n" "length C = n * n" and "i < n" "j < n"
  shows "\<exists>P. Mat_mult \<lparr>plus_d = (+), times_d = (*), zero_d = 0\<rparr> n A B C = Inr P \<and> length P = n * n \<and>
    P ! (i * n + j) = (\<Sum>k < n. A ! (i * n + k) * B ! (k * n + j))"
proof -
  let ?ar = "\<lparr>plus_d = (+), times_d = (*), zero_d = 0 :: 'a\<rparr>"
  have d: "dot ?ar x y 0 K = (\<Sum>k < K. x k * y k)" for x y K
    by (induction K) simp_all
  have q: "i * n + j < n * n" "(i * n + j) div n = i" "(i * n + j) mod n = j"
    using assms(4,5) by (simp_all add: index_less)
  have "map (product_entry ?ar n A B) [0 ..< n * n] ! (i * n + j) = (\<Sum>k < n. A ! (i * n + k) * B ! (k * n + j))"
    using q d by (simp add: product_entry_def)
  then show ?thesis using Mat_mult_run [OF assms(1,2,3), of ?ar] by simp
qed

theorem Mat_mult_is_product_witness:
  "\<exists>P. Mat_mult \<lparr>plus_d = (+), times_d = (*), zero_d = 0\<rparr> 2 [1, 2, 3, 4] [5, 6, 7, 8] [0, 0, 0, (0 :: int)] = Inr P \<and>
    P ! 3 = 50"
  using Mat_mult_is_product [of "[1, 2, 3, 4 :: int]" 2 "[5, 6, 7, 8]" "[0, 0, 0, 0]" 1 1]
  by (auto simp: lessThan_nat_numeral lessThan_Suc)

text \<open>C40: Started with the order \<open>n\<close> of the matrices and a block order that divides it, with memory
  for the matrices and the same random values, the two programs print the same matrix, the
  product of the two random matrices, row by row; the marker file holds the addresses of the
  two markers.\<close>

theorem matrix_programs_agree:
  assumes "served env 3" "served env' 6"
    and "e_random env' = e_random env" "e_arith env' = e_arith env" "e_show env' = e_show env"
    and "to_int (strtol10 a1) = int n" "0 < n" "n * n < 2 ^ 31"
    and "to_int (strtol10 a2) = int b" "0 < b" "b dvd n"
    and "Get_matrices (e_random env) n = (A, B)" and "M = matrix_text (e_show env) (product_entry (e_arith env) n A B) n"
  shows "matmul_program env True [a0, a1] = Inr (show_ptr (e_start env) @ '' '' @ show_ptr (e_end env),
      ''Standard algorithm'' @ nl @ M @ elapsed_text ''standard'' env) \<and>
    blocked_program env' True [a0', a1, a2] = Inr (show_ptr (e_start env') @ '' '' @ show_ptr (e_end env'),
      ''Blocked algorithm'' @ nl @ M @ elapsed_text ''blocked'' env')"
  using matmul_program_run [OF assms(1,6,8,12), of a0] blocked_program_run [OF assms(2,6,7,8,9,10,11), of A B a0'] assms
  by simp

definition int_env :: "int trace_env" where
  "int_env = \<lparr>e_fopen = True, e_start = 33, e_end = 34, e_malloc = (\<lambda>k. Some (\<lambda>i. 7)), e_random = int,
     e_arith = \<lparr>plus_d = (+), times_d = (*), zero_d = 0\<rparr>, e_show = show_int, e_elapsed = ''0''\<rparr>"

theorem matrix_programs_agree_witness:
  "\<exists>M. matmul_program int_env True [''matmul'', ''4''] = Inr (''0x21 0x22'',
      ''Standard algorithm'' @ nl @ M @ elapsed_text ''standard'' int_env) \<and>
    blocked_program int_env True [''blocked'', ''4'', ''2''] = Inr (''0x21 0x22'',
      ''Blocked algorithm'' @ nl @ M @ elapsed_text ''blocked'' int_env)"
proof -
  have env: "served int_env 3" "served int_env 6" by (simp_all add: served_def int_env_def)
  have args: "to_int (strtol10 ''4'') = int 4" "to_int (strtol10 ''2'') = int 2"
    by (simp_all add: strtol10_def isspace_def dec_digit_def to_int_small)
  have mark: "show_ptr (e_start int_env) @ '' '' @ show_ptr (e_end int_env) = ''0x21 0x22''"
    by (simp add: int_env_def show_ptr_def show_base.simps digit_char_def char_of_def bit_0)
  obtain A B where "Get_matrices (e_random int_env) 4 = (A, B)" by fastforce
  from matrix_programs_agree [OF env refl refl refl args(1) _ _ args(2) _ _ this refl, of "''matmul''" "''blocked''"]
  show ?thesis unfolding mark by auto
qed

text \<open>\<open>From_blocked\<close> undoes \<open>To_blocked\<close>.\<close>

theorem storage_round_trip:
  assumes "0 < b" and "n = m * b" and "length A = n * n" and "length T0 = n * n" and "length T1 = n * n"
  shows "bindE (To_blocked (Some T0) A n b) (\<lambda>A1. From_blocked (Some T1) A1 n b) = Inr A"
proof -
  define N where "N = m * b * (m * b)"
  let ?A1 = "map (\<lambda>p. A ! unblk m b p) [0 ..< N]"
  have N: "length A = N" "length T0 = N" "length T1 = N" using assms unfolding N_def by simp_all
  have "To_blocked (Some T0) A n b = Inr ?A1"
    unfolding assms(2) N_def by (rule To_blocked_run [OF assms(1)]) (use N in \<open>simp_all only: N_def\<close>)
  moreover have "From_blocked (Some T1) ?A1 n b = Inr (map (\<lambda>q. ?A1 ! blk m b q) [0 ..< N])"
    unfolding assms(2) N_def
    by (rule From_blocked_run [OF assms(1)]) (use N in \<open>simp_all only: N_def length_map length_upt diff_zero\<close>)
  moreover have "map (\<lambda>q. ?A1 ! blk m b q) [0 ..< N] = A"
    by (rule nth_equalityI) (use unblk_blk [OF _ assms(1), of _ m] N in \<open>simp_all add: N_def\<close>)
  ultimately show ?thesis by simp
qed

theorem storage_round_trip_witness:
  "bindE (To_blocked (Some (replicate 16 0)) [0 ..< 16] 4 2) (\<lambda>A. From_blocked (Some (replicate 16 0)) A 4 2) = Inr [0 ..< 16]"
  by (rule storage_round_trip [of _ _ 2]) simp_all

text \<open>\<open>heap_loop\<close> writes its array and nothing past it; when \<open>malloc\<close> fails it dereferences the
  null pointer; the loop of overflow.c writes past its array.\<close>

theorem simple_loops:
  assumes "length a = iters" and "0 < iters" and "length c = 4"
  shows "heap_loop double (Some a) iters = Inr (Some (map double [0 ..< iters])) \<and>
    stack_loop double a iters = Inr (map double [0 ..< iters]) \<and>
    heap_loop double None iters = Inl Null_Deref \<and> overflow_loop c = Inl Out_Of_Bounds"
  using heap_loop_run [OF assms(1)] stack_loop_run [OF assms(1)] heap_loop_null [OF assms(2)]
    overflow_loop_writes_past [OF assms(3)] by (intro conjI)

theorem simple_loops_witness:
  "heap_loop int (Some [7, 7]) 2 = Inr (Some [0, 1]) \<and> overflow_loop [0, 0, 0, 0] = Inl Out_Of_Bounds"
  using simple_loops [of "[7, 7]" 2 "[0, 0, 0, 0]" int] by (simp add: upt_conv_Cons)

end
