(* ===== verification/Ext2_Disk.thy ===== *)
theory Ext2_Disk
  imports C_Loops
begin

text \<open>
  The virtual disk of the file system tools (ext2.h, ext2general.c 13-42): bytes by
  address, with every access checked against the size of the mapping.  A pointer
  to a structure is the address of its first byte, and the field \<open>f\<close> of the
  structure at \<open>p\<close> is at the address \<open>f p\<close>.
\<close>

section \<open>Access to the disk\<close>

type_synonym disk = "nat \<Rightarrow> u8"

definition EXT2_BLOCK_SIZE :: nat where "EXT2_BLOCK_SIZE = 1024"
definition EXT2_NUM_BLOCKS :: nat where "EXT2_NUM_BLOCKS = 128"

definition DISK_SIZE :: nat where
  "DISK_SIZE = EXT2_NUM_BLOCKS * EXT2_BLOCK_SIZE"

definition get :: "nat \<Rightarrow> nat \<Rightarrow> disk \<Rightarrow> 'a::len word" where
  "get n a d = load_le (map (\<lambda>i. d (a + i)) [0 ..< n])"

definition put :: "nat \<Rightarrow> u8 list \<Rightarrow> disk \<Rightarrow> disk" where
  "put a bs d = (\<lambda>x. if a \<le> x \<and> x < a + length bs then bs ! (x - a) else d x)"

definition load :: "nat \<Rightarrow> nat \<Rightarrow> disk \<Rightarrow> 'a::len word res" where
  "load n a d = (if a + n \<le> DISK_SIZE then Inr (get n a d) else Inl Out_Of_Bounds)"

definition store :: "nat \<Rightarrow> nat \<Rightarrow> 'a::len word \<Rightarrow> disk \<Rightarrow> disk res" where
  "store n a w d = (if a + n \<le> DISK_SIZE then Inr (put a (store_le n w) d) else Inl Out_Of_Bounds)"

abbreviation ld8 :: "nat \<Rightarrow> disk \<Rightarrow> u8 res" where "ld8 \<equiv> load 1"
abbreviation ld16 :: "nat \<Rightarrow> disk \<Rightarrow> u16 res" where "ld16 \<equiv> load 2"
abbreviation ld32 :: "nat \<Rightarrow> disk \<Rightarrow> u32 res" where "ld32 \<equiv> load 4"
abbreviation st8 :: "nat \<Rightarrow> u8 \<Rightarrow> disk \<Rightarrow> disk res" where "st8 \<equiv> store 1"
abbreviation st16 :: "nat \<Rightarrow> u16 \<Rightarrow> disk \<Rightarrow> disk res" where "st16 \<equiv> store 2"
abbreviation st32 :: "nat \<Rightarrow> u32 \<Rightarrow> disk \<Rightarrow> disk res" where "st32 \<equiv> store 4"

text \<open>\<open>memcpy\<close> to and from the disk.\<close>

definition bytes :: "nat \<Rightarrow> nat \<Rightarrow> disk \<Rightarrow> u8 list" where
  "bytes n a d = map (\<lambda>i. d (a + i)) [0 ..< n]"

definition load_bytes :: "nat \<Rightarrow> nat \<Rightarrow> disk \<Rightarrow> u8 list res" where
  "load_bytes n a d = (if a + n \<le> DISK_SIZE then Inr (bytes n a d) else Inl Out_Of_Bounds)"

definition store_bytes :: "nat \<Rightarrow> u8 list \<Rightarrow> disk \<Rightarrow> disk res" where
  "store_bytes a bs d = (if a + length bs \<le> DISK_SIZE then Inr (put a bs d) else Inl Out_Of_Bounds)"

text \<open>\<open>x->f += w\<close>\<close>

definition add32 :: "nat \<Rightarrow> u32 \<Rightarrow> disk \<Rightarrow> disk res" where
  "add32 a w d = bindE (ld32 a d) (\<lambda>x. st32 a (x + w) d)"

definition add16 :: "nat \<Rightarrow> u16 \<Rightarrow> disk \<Rightarrow> disk res" where
  "add16 a w d = bindE (ld16 a d) (\<lambda>x. st16 a (x + w) d)"

section \<open>Structures\<close>

definition s_inodes_count :: "nat \<Rightarrow> nat" where "s_inodes_count sb = sb"
definition s_blocks_count :: "nat \<Rightarrow> nat" where "s_blocks_count sb = sb + 4"
definition s_free_blocks_count :: "nat \<Rightarrow> nat" where "s_free_blocks_count sb = sb + 12"
definition s_free_inodes_count :: "nat \<Rightarrow> nat" where "s_free_inodes_count sb = sb + 16"

definition bg_block_bitmap :: "nat \<Rightarrow> nat" where "bg_block_bitmap gd = gd"
definition bg_inode_bitmap :: "nat \<Rightarrow> nat" where "bg_inode_bitmap gd = gd + 4"
definition bg_inode_table :: "nat \<Rightarrow> nat" where "bg_inode_table gd = gd + 8"
definition bg_free_blocks_count :: "nat \<Rightarrow> nat" where "bg_free_blocks_count gd = gd + 12"
definition bg_free_inodes_count :: "nat \<Rightarrow> nat" where "bg_free_inodes_count gd = gd + 14"

definition INODE_SIZE :: nat where "INODE_SIZE = 128"
definition i_mode :: "nat \<Rightarrow> nat" where "i_mode p = p"
definition i_uid :: "nat \<Rightarrow> nat" where "i_uid p = p + 2"
definition i_size :: "nat \<Rightarrow> nat" where "i_size p = p + 4"
definition i_ctime :: "nat \<Rightarrow> nat" where "i_ctime p = p + 12"
definition i_dtime :: "nat \<Rightarrow> nat" where "i_dtime p = p + 20"
definition i_gid :: "nat \<Rightarrow> nat" where "i_gid p = p + 24"
definition i_links_count :: "nat \<Rightarrow> nat" where "i_links_count p = p + 26"
definition i_blocks :: "nat \<Rightarrow> nat" where "i_blocks p = p + 28"
definition i_osd1 :: "nat \<Rightarrow> nat" where "i_osd1 p = p + 36"
definition i_block :: "nat \<Rightarrow> nat \<Rightarrow> nat" where "i_block p i = p + 40 + 4 * i"
definition i_generation :: "nat \<Rightarrow> nat" where "i_generation p = p + 100"
definition i_file_acl :: "nat \<Rightarrow> nat" where "i_file_acl p = p + 104"
definition i_dir_acl :: "nat \<Rightarrow> nat" where "i_dir_acl p = p + 108"
definition i_faddr :: "nat \<Rightarrow> nat" where "i_faddr p = p + 112"

definition de_inode :: "nat \<Rightarrow> nat" where "de_inode p = p"
definition de_rec_len :: "nat \<Rightarrow> nat" where "de_rec_len p = p + 4"
definition de_name_len :: "nat \<Rightarrow> nat" where "de_name_len p = p + 6"
definition de_file_type :: "nat \<Rightarrow> nat" where "de_file_type p = p + 7"
definition de_name :: "nat \<Rightarrow> nat" where "de_name p = p + 8"

definition TOTAL_BLOCK_COUNT :: nat where "TOTAL_BLOCK_COUNT = 15"
definition DIRECT_BLOCK_COUNT :: nat where "DIRECT_BLOCK_COUNT = 12"
definition INDIRECT_BLOCK :: nat where "INDIRECT_BLOCK = 12"
definition DBLE_INDIRECT_BLOCK :: nat where "DBLE_INDIRECT_BLOCK = 13"
definition TPLE_INDIRECT_BLOCK :: nat where "TPLE_INDIRECT_BLOCK = 14"
definition NUM_OF_PTRS_IN_BLOCK :: nat where "NUM_OF_PTRS_IN_BLOCK = EXT2_BLOCK_SIZE div 4"
definition ROOT_INODE_NUMBER :: u32 where "ROOT_INODE_NUMBER = 2"
definition EXT2_GOOD_OLD_FIRST_INO :: nat where "EXT2_GOOD_OLD_FIRST_INO = 11"
definition PATH_MAX :: nat where "PATH_MAX = 1024"
definition EXT2_S_IFLNK :: u16 where "EXT2_S_IFLNK = 0xA000"
definition EXT2_S_IFREG :: u16 where "EXT2_S_IFREG = 0x8000"
definition EXT2_S_IFDIR :: u16 where "EXT2_S_IFDIR = 0x4000"
definition EXT2_FT_REG_FILE :: u8 where "EXT2_FT_REG_FILE = 1"
definition EXT2_FT_DIR :: u8 where "EXT2_FT_DIR = 2"
definition EXT2_FT_SYMLINK :: u8 where "EXT2_FT_SYMLINK = 7"

lemmas field_defs = s_inodes_count_def s_blocks_count_def s_free_blocks_count_def s_free_inodes_count_def
  bg_block_bitmap_def bg_inode_bitmap_def bg_inode_table_def bg_free_blocks_count_def bg_free_inodes_count_def
  i_mode_def i_uid_def i_size_def i_ctime_def i_dtime_def i_gid_def i_links_count_def i_blocks_def i_osd1_def
  i_block_def i_generation_def i_file_acl_def i_dir_acl_def i_faddr_def
  de_inode_def de_rec_len_def de_name_len_def de_file_type_def de_name_def

lemmas disk_size = DISK_SIZE_def EXT2_NUM_BLOCKS_def EXT2_BLOCK_SIZE_def

text \<open>
  Pointers to the structures.  \<open>block_ptr\<close> is \<open>disk + EXT2_BLOCK_SIZE * n\<close> for an
  unsigned \<open>n\<close>: the product wraps at 32 bits.
\<close>

definition get_super_block :: nat where "get_super_block = 1 * EXT2_BLOCK_SIZE"
definition get_group_descriptor :: nat where "get_group_descriptor = 2 * EXT2_BLOCK_SIZE"

definition block_ptr :: "u32 \<Rightarrow> nat" where
  "block_ptr n = unat (of_nat EXT2_BLOCK_SIZE * n)"

definition get_inode_table :: "disk \<Rightarrow> nat res" where
  "get_inode_table d = bindE (ld32 (bg_inode_table get_group_descriptor) d) (\<lambda>b. Inr (block_ptr b))"

text \<open>\<open>get_inode_table(disk) + TO_INDEX(n)\<close>\<close>

definition TO_INDEX :: "u32 \<Rightarrow> u32" where "TO_INDEX n = n - 1"
definition TO_NUMBER :: "nat \<Rightarrow> u32" where "TO_NUMBER i = of_nat (i + 1)"

definition inode_ptr :: "u32 \<Rightarrow> disk \<Rightarrow> nat res" where
  "inode_ptr n d = bindE (get_inode_table d) (\<lambda>t. Inr (t + unat (TO_INDEX n) * INODE_SIZE))"

definition get_root_inode :: "disk \<Rightarrow> nat res" where
  "get_root_inode d = inode_ptr ROOT_INODE_NUMBER d"

section \<open>Laws\<close>

lemma put_outside: "x < a \<or> a + length bs \<le> x \<Longrightarrow> put a bs d x = d x"
  by (auto simp: put_def)

lemma put_inside: "i < length bs \<Longrightarrow> put a bs d (a + i) = bs ! i"
  by (simp add: put_def)

lemma put_single: "put a [w] d x = (if x = a then w else d x)"
  by (auto simp: put_def)

lemma get_put_same: "LENGTH('a) \<le> 8 * n \<Longrightarrow> get n a (put a (store_le n w) d) = (w :: 'a::len word)"
proof -
  assume l: "LENGTH('a) \<le> 8 * n"
  have "map (\<lambda>i. put a (store_le n w) d (a + i)) [0 ..< n] = store_le n w"
    by (rule nth_equalityI) (simp_all add: put_inside)
  then show ?thesis using load_store_le [OF l, of w] by (simp add: get_def)
qed

lemma get_cong: "(\<And>i. i < n \<Longrightarrow> d (a + i) = d' (a + i)) \<Longrightarrow> get n a d = get n a d'"
  unfolding get_def by (rule arg_cong [where f = load_le]) simp

lemma bytes_cong: "(\<And>i. i < n \<Longrightarrow> d (a + i) = d' (a + i)) \<Longrightarrow> bytes n a d = bytes n a d'"
  by (simp add: bytes_def)

lemma get_put_other: "a + n \<le> b \<or> b + length bs \<le> a \<Longrightarrow> get n a (put b bs d) = get n a d"
  by (rule get_cong) (auto intro: put_outside)

lemma bytes_put_other: "a + n \<le> b \<or> b + length bs \<le> a \<Longrightarrow> bytes n a (put b bs d) = bytes n a d"
  by (rule bytes_cong) (auto intro: put_outside)

lemma bytes_put_same: "n = length bs \<Longrightarrow> bytes n a (put a bs d) = bs"
  by (rule nth_equalityI) (simp_all add: bytes_def put_inside)

lemma length_bytes [simp]: "length (bytes n a d) = n"
  by (simp add: bytes_def)

lemma get_1: "get 1 a d = (d a :: u8)"
  by (simp add: get_def)

lemma load_in [simp]: "a + n \<le> DISK_SIZE \<Longrightarrow> load n a d = Inr (get n a d)"
  by (simp add: load_def)

lemma store_in [simp]: "a + n \<le> DISK_SIZE \<Longrightarrow> store n a w d = Inr (put a (store_le n w) d)"
  by (simp add: store_def)

lemma load_bytes_in [simp]: "a + n \<le> DISK_SIZE \<Longrightarrow> load_bytes n a d = Inr (bytes n a d)"
  by (simp add: load_bytes_def)

lemma store_bytes_in [simp]: "a + length bs \<le> DISK_SIZE \<Longrightarrow> store_bytes a bs d = Inr (put a bs d)"
  by (simp add: store_bytes_def)

text \<open>What is stored can be loaded, anywhere on the disk.\<close>

lemma load_after_store:
  "store n a w d = Inr d' \<Longrightarrow> LENGTH('a) \<le> 8 * n \<Longrightarrow> load n a d' = Inr (w :: 'a::len word)"
  by (auto simp: store_def get_put_same split: if_splits)

lemma load_bytes_after_store: "store_bytes a bs d = Inr d' \<Longrightarrow> load_bytes (length bs) a d' = Inr bs"
  by (auto simp: store_bytes_def bytes_put_same split: if_splits)

end
