(* ===== verification/Ext2_General.thy ===== *)
theory Ext2_General
  imports Ext2_Disk
begin

text \<open>
  The library of the file system tools (ext2general.c).  A C string is the list of
  its bytes without the terminating zero.  A loop over the entries of a directory
  block is recursion on fuel: an entry of length 0 makes the code's loop run for
  ever, and that is the only way to run out of it.  \<open>fs_env\<close> holds the value of
  \<open>time(NULL)\<close> and whether the byte after a local array may be written:
  \<open>char buf[strlen(path)]\<close> is one byte too short for the \<open>strcpy\<close> that follows it.
  Small blocks of memory for names are taken to be available.
\<close>

record fs_env =
  now :: u32
  slack :: bool

type_synonym cstring = "u8 list"

definition SLASH :: u8 where "SLASH = 47"
definition DOT :: u8 where "DOT = 46"

text \<open>\<open>char buf[strlen(path)]; strcpy(buf, path);\<close>\<close>

definition copy_path :: "fs_env \<Rightarrow> cstring \<Rightarrow> cstring res" where
  "copy_path E path = bindE (guardE Out_Of_Bounds (slack E)) (\<lambda>_. Inr path)"

section \<open>Looking up a name (lines 44-95)\<close>

text \<open>\<open>name\<close> is \<open>None\<close> for the null pointer, which \<open>strlen\<close> dereferences.\<close>

definition entry_is :: "cstring option \<Rightarrow> nat \<Rightarrow> disk \<Rightarrow> bool res" where
  "entry_is name dir d =
    bindE (ld8 (de_name_len dir) d) (\<lambda>l.
    case name of None \<Rightarrow> Inl Null_Deref
    | Some s \<Rightarrow>
        if unat l = length s then
          bindE (ld32 (de_inode dir) d) (\<lambda>i.
          if i \<noteq> 0 then bindE (load_bytes (unat l) (de_name dir) d) (\<lambda>nm. Inr (nm = s)) else Inr False)
        else Inr False)"

fun locate_in_block :: "nat \<Rightarrow> cstring option \<Rightarrow> nat \<Rightarrow> nat \<Rightarrow> disk \<Rightarrow> nat option res" where
  "locate_in_block 0 name pos dir d = Inl Out_Of_Fuel"
| "locate_in_block (Suc k) name pos dir d =
    (if pos < EXT2_BLOCK_SIZE then
       bindE (entry_is name dir d) (\<lambda>hit.
       if hit then Inr (Some dir)
       else bindE (ld16 (de_rec_len dir) d) (\<lambda>r. locate_in_block k name (pos + unat r) (dir + unat r) d))
     else Inr None)"

text \<open>A loop over \<open>inode->i_block[i]\<close> that stops at the first result.\<close>

primrec find_block :: "(u32 \<Rightarrow> disk \<Rightarrow> 'a option res) \<Rightarrow> nat \<Rightarrow> nat list \<Rightarrow> disk \<Rightarrow> 'a option res" where
  "find_block f inode [] d = Inr None"
| "find_block f inode (i # is) d =
    bindE (ld32 (i_block inode i) d) (\<lambda>b.
    bindE (if b \<noteq> 0 then f b d else Inr None) (\<lambda>r.
    case r of Some x \<Rightarrow> Inr (Some x) | None \<Rightarrow> find_block f inode is d))"

definition locate_file_by_name :: "nat \<Rightarrow> cstring option \<Rightarrow> disk \<Rightarrow> nat option res" where
  "locate_file_by_name inode file_name d =
    find_block (\<lambda>b. locate_in_block (Suc EXT2_BLOCK_SIZE) file_name 0 (EXT2_BLOCK_SIZE * unat b))
      inode [0 ..< TOTAL_BLOCK_COUNT] d"

text \<open>\<open>strtok_r(path, "/", &path)\<close>: the next component and the rest of the path.\<close>

definition strtok_r :: "cstring \<Rightarrow> cstring option \<times> cstring" where
  "strtok_r path =
    (case dropWhile (\<lambda>c. c = SLASH) path of [] \<Rightarrow> (None, [])
     | p \<Rightarrow> (Some (takeWhile (\<lambda>c. c \<noteq> SLASH) p), drop 1 (dropWhile (\<lambda>c. c \<noteq> SLASH) p)))"

lemma strtok_r_shorter: "strtok_r path = (Some t, rest) \<Longrightarrow> length rest < length path"
proof -
  assume a: "strtok_r path = (Some t, rest)"
  let ?p = "dropWhile (\<lambda>c. c = SLASH) path"
  have "?p \<noteq> []" and r: "rest = drop 1 (dropWhile (\<lambda>c. c \<noteq> SLASH) ?p)"
    using a unfolding strtok_r_def by (cases ?p; simp)+
  then have "0 < length ?p" by (simp only: length_greater_0_conv not_False_eq_True)
  moreover have "length rest = length (dropWhile (\<lambda>c. c \<noteq> SLASH) ?p) - 1" using r by simp
  moreover have "length (dropWhile (\<lambda>c. c \<noteq> SLASH) ?p) \<le> length ?p" "length ?p \<le> length path"
    by (rule length_dropWhile_le)+
  ultimately show ?thesis by linarith
qed

text \<open>The loop of \<open>find_dir_entry\<close>: \<open>cur\<close> is the entry found for the components so far.\<close>

function walk_path :: "nat \<Rightarrow> cstring \<Rightarrow> nat \<Rightarrow> disk \<Rightarrow> nat option res" where
  "walk_path inode path cur d =
    (case strtok_r path of (None, _) \<Rightarrow> Inr (Some cur)
     | (Some token, rest) \<Rightarrow>
         bindE (locate_file_by_name inode (Some token) d) (\<lambda>r.
         case r of None \<Rightarrow> Inr None
         | Some e \<Rightarrow> bindE (ld32 (de_inode e) d) (\<lambda>n. bindE (inode_ptr n d) (\<lambda>i. walk_path i rest e d))))"
  by pat_completeness auto
termination
  by (relation "measure (\<lambda>(_, path, _, _). length path)") (simp_all add: strtok_r_shorter [OF sym])

declare walk_path.simps [simp del] locate_in_block.simps [simp del]

definition find_dir_entry :: "cstring \<Rightarrow> disk \<Rightarrow> nat option res" where
  "find_dir_entry path d =
    bindE (get_root_inode d) (\<lambda>root.
    case strtok_r (drop 1 path) of (token, rest) \<Rightarrow>
    bindE (locate_file_by_name root token d) (\<lambda>r.
    case r of None \<Rightarrow> Inr None
    | Some e \<Rightarrow> bindE (ld32 (de_inode e) d) (\<lambda>n. bindE (inode_ptr n d) (\<lambda>i. walk_path i rest e d))))"

section \<open>The bitmaps (lines 97-131, 246-274)\<close>

definition bitmap_ptr :: "char \<Rightarrow> disk \<Rightarrow> nat res" where
  "bitmap_ptr bitmap_type d =
    bindE (ld32 (if bitmap_type = CHR ''b'' then bg_block_bitmap get_group_descriptor
                 else bg_inode_bitmap get_group_descriptor) d) (\<lambda>n. Inr (block_ptr n))"

text \<open>The two free counts, in the super block and in the group descriptor.\<close>

definition add_free_counts :: "char \<Rightarrow> int \<Rightarrow> disk \<Rightarrow> disk res" where
  "add_free_counts bitmap_type x d =
    (if bitmap_type = CHR ''b'' then
       bindE (add32 (s_free_blocks_count get_super_block) (of_int x) d)
         (add16 (bg_free_blocks_count get_group_descriptor) (of_int x))
     else
       bindE (add32 (s_free_inodes_count get_super_block) (of_int x) d)
         (add16 (bg_free_inodes_count get_group_descriptor) (of_int x)))"

definition update_bitmap :: "char \<Rightarrow> u32 \<Rightarrow> bool \<Rightarrow> disk \<Rightarrow> disk res" where
  "update_bitmap bitmap_type num val d =
    (if num \<noteq> 0 then
       bindE (bitmap_ptr bitmap_type d) (\<lambda>bitmap.
       let byte = bitmap + unat (TO_INDEX num) div 8; k = unat (TO_INDEX num) mod 8 in
       bindE (ld8 byte d) (\<lambda>w.
       if val then
         bindE (if drop_bit k w AND 1 = 0 then add_free_counts bitmap_type (-1) d else Inr d) (\<lambda>d1.
         bindE (ld8 byte d1) (\<lambda>w1. st8 byte (w1 OR push_bit k 1) d1))
       else
         bindE (if drop_bit k w AND 1 \<noteq> 0 then add_free_counts bitmap_type 1 d else Inr d) (\<lambda>d1.
         bindE (ld8 byte d1) (\<lambda>w1. st8 byte (w1 AND NOT (push_bit k 1)) d1))))
     else Inr d)"

primrec scan_bits :: "nat \<Rightarrow> nat list \<Rightarrow> disk \<Rightarrow> u32 res" where
  "scan_bits bitmap [] d = Inr 0"
| "scan_bits bitmap (i # is) d =
    bindE (ld8 (bitmap + i div 8) d) (\<lambda>w.
    if drop_bit (i mod 8) w AND 1 = 0 then Inr (TO_NUMBER i) else scan_bits bitmap is d)"

definition find_free_inode :: "disk \<Rightarrow> u32 res" where
  "find_free_inode d =
    bindE (bitmap_ptr CHR ''i'' d) (\<lambda>bitmap.
    bindE (ld32 (s_inodes_count get_super_block) d) (\<lambda>n.
    scan_bits bitmap [EXT2_GOOD_OLD_FIRST_INO ..< unat n] d))"

definition find_free_block :: "disk \<Rightarrow> u32 res" where
  "find_free_block d =
    bindE (bitmap_ptr CHR ''b'' d) (\<lambda>bitmap.
    bindE (ld32 (s_blocks_count get_super_block) d) (\<lambda>n.
    scan_bits bitmap [0 ..< unat n] d))"

section \<open>Paths (lines 133-165, 296-300)\<close>

text \<open>The largest index below \<open>n\<close> where there is a slash, or -1.\<close>

fun slash_below :: "cstring \<Rightarrow> nat \<Rightarrow> int" where
  "slash_below path 0 = -1"
| "slash_below path (Suc i) = (if path ! i = SLASH then int i else slash_below path i)"

definition last_slash_in_path :: "cstring \<Rightarrow> u32 res" where
  "last_slash_in_path path =
    bindE (guardE Out_Of_Bounds (path \<noteq> [])) (\<lambda>_.
    Inr (of_int (if last path = SLASH then slash_below path (length path - 1)
                 else slash_below path (length path))))"

definition find_parent_inode :: "fs_env \<Rightarrow> cstring \<Rightarrow> disk \<Rightarrow> u32 res" where
  "find_parent_inode E path d =
    bindE (copy_path E path) (\<lambda>buffer.
    bindE (last_slash_in_path path) (\<lambda>i.
    bindE (guardE Out_Of_Bounds (unat i < length buffer)) (\<lambda>_.
    let parent_path = take (unat i) buffer in
    if parent_path = [] then Inr ROOT_INODE_NUMBER
    else
      bindE (find_dir_entry parent_path d) (\<lambda>r.
      case r of None \<Rightarrow> Inr 0 | Some e \<Rightarrow> ld32 (de_inode e) d))))"

definition find_file_name_by_path :: "cstring \<Rightarrow> cstring res" where
  "find_file_name_by_path path =
    bindE (last_slash_in_path path) (\<lambda>i. Inr (drop (unat (i + 1)) path))"

section \<open>Directory entries (lines 168-244)\<close>

definition check_if_external_entry :: "nat \<Rightarrow> disk \<Rightarrow> bool res" where
  "check_if_external_entry dir d =
    bindE (ld8 (de_name_len dir) d) (\<lambda>l.
    bindE (load_bytes (unat l) (de_name dir) d) (\<lambda>nm.
    let print_name = takeWhile (\<lambda>c. c \<noteq> 0) nm in
    Inr (\<not> (print_name = [DOT] \<or> print_name = [DOT, DOT]))))"

text \<open>\<open>n\<close> bytes rounded up to a multiple of four; \<open>sizeof(struct ext2_dir_entry_2 *)\<close> is 8.\<close>

definition round4 :: "nat \<Rightarrow> nat" where
  "round4 n = (n div 4 + (if n mod 4 \<noteq> 0 then 1 else 0)) * 4"

definition entry_size :: "u8 \<Rightarrow> nat" where
  "entry_size l = round4 (8 + unat l)"

text \<open>The stores that fill in an entry, without its length.\<close>

definition fill_entry :: "nat \<Rightarrow> u8 \<Rightarrow> u32 \<Rightarrow> cstring \<Rightarrow> u8 \<Rightarrow> disk \<Rightarrow> disk res" where
  "fill_entry dir len inode_num file_name file_type d =
    bindE (st8 (de_name_len dir) len d) (\<lambda>d.
    bindE (st32 (de_inode dir) inode_num d) (\<lambda>d.
    bindE (guardE Out_Of_Bounds (unat len \<le> length file_name)) (\<lambda>_.
    bindE (store_bytes (de_name dir) (take (unat len) file_name) d) (\<lambda>d.
    st8 (de_file_type dir) file_type d))))"

text \<open>An entry that is not in use and long enough for the name that was in it.\<close>

definition reusable :: "nat \<Rightarrow> disk \<Rightarrow> bool res" where
  "reusable dir d =
    bindE (ld8 (de_name_len dir) d) (\<lambda>l.
    bindE (ld32 (de_inode dir) d) (\<lambda>i.
    bindE (ld16 (de_rec_len dir) d) (\<lambda>r. Inr (i = 0 \<and> entry_size l \<le> unat r))))"

text \<open>The loop of lines 204-221: \<open>Inl dir\<close> is an entry to reuse, \<open>Inr prev\<close> the last one.\<close>

fun seek_entry :: "nat \<Rightarrow> u16 \<Rightarrow> nat \<Rightarrow> nat \<Rightarrow> disk \<Rightarrow> (nat + nat) res" where
  "seek_entry 0 pos dir prev d = Inl Out_Of_Fuel"
| "seek_entry (Suc k) pos dir prev d =
    (if unat pos < EXT2_BLOCK_SIZE then
       bindE (reusable dir d) (\<lambda>b.
       if b then Inr (Inl dir)
       else bindE (ld16 (de_rec_len dir) d) (\<lambda>r. bindE (ld16 (de_rec_len prev) d) (\<lambda>rp.
         seek_entry k (pos + r) (dir + unat r) (prev + unat rp) d)))
     else Inr (Inr prev))"

text \<open>Lines 222-243: a new entry in the space behind the last one.\<close>

definition split_entry :: "nat \<Rightarrow> u8 \<Rightarrow> u32 \<Rightarrow> cstring \<Rightarrow> u8 \<Rightarrow> disk \<Rightarrow> (bool \<times> disk) res" where
  "split_entry prev len inode_num file_name file_type d =
    bindE (ld8 (de_name_len prev) d) (\<lambda>pl.
    bindE (ld16 (de_rec_len prev) d) (\<lambda>pr.
    if round4 (16 + unat len + unat pl) \<le> unat pr then
      bindE (st16 (de_rec_len prev) (of_nat (entry_size pl)) d) (\<lambda>d.
      let dir = prev + entry_size pl in
      bindE (st16 (de_rec_len dir) (pr - of_nat (entry_size pl)) d) (\<lambda>d.
      bindE (fill_entry dir len inode_num file_name file_type d) (\<lambda>d. Inr (True, d))))
    else Inr (False, d)))"

definition allocate_space_in_block ::
  "u8 \<Rightarrow> u32 \<Rightarrow> u32 \<Rightarrow> cstring \<Rightarrow> u8 \<Rightarrow> disk \<Rightarrow> (bool \<times> disk) res" where
  "allocate_space_in_block len block_num inode_num file_name file_type d =
    (let prev = block_ptr block_num in
     bindE (ld16 (de_rec_len prev) d) (\<lambda>r.
     bindE (reusable prev d) (\<lambda>b.
     if b then bindE (fill_entry prev len inode_num file_name file_type d) (\<lambda>d. Inr (True, d))
     else
       bindE (seek_entry (Suc DISK_SIZE) r (prev + unat r) prev d) (\<lambda>x.
       case x of
         Inl dir \<Rightarrow> bindE (fill_entry dir len inode_num file_name file_type d) (\<lambda>d. Inr (True, d))
       | Inr last_dir \<Rightarrow> split_entry last_dir len inode_num file_name file_type d))))"

declare seek_entry.simps [simp del]

section \<open>Inodes (lines 276-294, 302-365)\<close>

text \<open>One store after the other.\<close>

primrec seqE :: "('s \<Rightarrow> 's res) list \<Rightarrow> 's \<Rightarrow> 's res" where
  "seqE [] s = Inr s"
| "seqE (f # fs) s = bindE (f s) (seqE fs)"

definition init_inode :: "fs_env \<Rightarrow> nat \<Rightarrow> u16 \<Rightarrow> u32 \<Rightarrow> disk \<Rightarrow> disk res" where
  "init_inode E inode mode sz d =
    bindE (seqE
      [st16 (i_mode inode) mode, st16 (i_uid inode) 0, st32 (i_size inode) sz, st32 (i_ctime inode) (now E),
       st32 (i_dtime inode) 0, st16 (i_gid inode) 0, st16 (i_links_count inode) 1, st32 (i_blocks inode) 0,
       st32 (i_osd1 inode) 0, st32 (i_generation inode) 0, st32 (i_file_acl inode) 0, st32 (i_dir_acl inode) 0,
       st32 (i_faddr inode) 0] d)
    (forE (\<lambda>i. st32 (i_block inode i) 0) [0 ..< TOTAL_BLOCK_COUNT])"

text \<open>\<open>update_bitmap(disk, 'b', *p, 0)\<close>, and the loops over the pointers in a block.\<close>

definition free_block_at :: "nat \<Rightarrow> disk \<Rightarrow> disk res" where
  "free_block_at p d = bindE (ld32 p d) (\<lambda>b. update_bitmap CHR ''b'' b False d)"

definition free_direct :: "nat \<Rightarrow> disk \<Rightarrow> disk res" where
  "free_direct p = forE (\<lambda>i. free_block_at (p + 4 * i)) [0 ..< NUM_OF_PTRS_IN_BLOCK]"

definition free_indirect :: "nat \<Rightarrow> disk \<Rightarrow> disk res" where
  "free_indirect p = forE (\<lambda>i d.
    bindE (ld32 (p + 4 * i) d) (\<lambda>b. bindE (free_direct (block_ptr b) d) (free_block_at (p + 4 * i))))
    [0 ..< NUM_OF_PTRS_IN_BLOCK]"

text \<open>Line 335 indexes the pointers of the second level with \<open>i\<close>, not with \<open>j\<close>.\<close>

definition free_triple :: "nat \<Rightarrow> disk \<Rightarrow> disk res" where
  "free_triple p = forE (\<lambda>i d.
    bindE (ld32 (p + 4 * i) d) (\<lambda>b.
    bindE (forE (\<lambda>j d. bindE (ld32 (block_ptr b + 4 * i) d) (\<lambda>b2.
        bindE (free_direct (block_ptr b2) d) (free_block_at (block_ptr b + 4 * j))))
      [0 ..< NUM_OF_PTRS_IN_BLOCK] d)
    (free_block_at (p + 4 * i)))) [0 ..< NUM_OF_PTRS_IN_BLOCK]"

definition free_tree :: "(nat \<Rightarrow> disk \<Rightarrow> disk res) \<Rightarrow> nat \<Rightarrow> disk \<Rightarrow> disk res" where
  "free_tree f p d =
    bindE (ld32 p d) (\<lambda>b. if b \<noteq> 0 then bindE (f (block_ptr b) d) (free_block_at p) else Inr d)"

definition free_all_blocks_of_inode :: "nat \<Rightarrow> disk \<Rightarrow> disk res" where
  "free_all_blocks_of_inode inode d =
    bindE (forE (\<lambda>i. free_block_at (i_block inode i)) [0 ..< DIRECT_BLOCK_COUNT] d)
    (seqE [free_tree free_direct (i_block inode INDIRECT_BLOCK),
           free_tree free_indirect (i_block inode DBLE_INDIRECT_BLOCK),
           free_tree free_triple (i_block inode TPLE_INDIRECT_BLOCK)])"

text \<open>Links that point at each other make the recursion run for ever.\<close>

fun read_symbolic_link :: "nat \<Rightarrow> fs_env \<Rightarrow> cstring \<Rightarrow> disk \<Rightarrow> nat option res" where
  "read_symbolic_link 0 E path d = Inl Out_Of_Fuel"
| "read_symbolic_link (Suc k) E path d =
    bindE (copy_path E path) (\<lambda>buf.
    bindE (find_dir_entry buf d) (\<lambda>target.
    case target of None \<Rightarrow> Inr None
    | Some e \<Rightarrow>
        bindE (ld32 (de_inode e) d) (\<lambda>n.
        bindE (inode_ptr n d) (\<lambda>inode.
        bindE (ld16 (i_mode inode) d) (\<lambda>mode.
        if mode = EXT2_S_IFLNK then
          bindE (ld32 (i_block inode 0) d) (\<lambda>b.
          bindE (ld32 (i_size inode) d) (\<lambda>sz.
          bindE (guardE Out_Of_Bounds (unat sz < PATH_MAX)) (\<lambda>_.
          bindE (load_bytes (unat sz) (block_ptr b) d) (\<lambda>new_path.
          read_symbolic_link k E (takeWhile (\<lambda>c. c \<noteq> 0) new_path) d))))
        else Inr (Some inode))))))"

end
