(* ===== verification/Ext2_Dir.thy ===== *)
theory Ext2_Dir
  imports Ext2_General
begin

text \<open>
  The entries of a directory block: \<open>dir_block d b es\<close> says that the entries at the
  addresses \<open>es\<close> follow one another from the start of the block at \<open>b\<close> to its end.
  The search of \<open>locate_file_by_name\<close> is the search of that list, and
  \<open>allocate_space_in_block\<close> adds one entry to the names of the block.
\<close>

section \<open>Entries\<close>

definition e_inode :: "disk \<Rightarrow> nat \<Rightarrow> u32" where "e_inode d a = get 4 (de_inode a) d"
definition e_rec_len :: "disk \<Rightarrow> nat \<Rightarrow> nat" where "e_rec_len d a = unat (get 2 (de_rec_len a) d :: u16)"
definition e_name_len :: "disk \<Rightarrow> nat \<Rightarrow> u8" where "e_name_len d a = d (de_name_len a)"
definition e_file_type :: "disk \<Rightarrow> nat \<Rightarrow> u8" where "e_file_type d a = d (de_file_type a)"
definition e_name :: "disk \<Rightarrow> nat \<Rightarrow> cstring" where "e_name d a = bytes (unat (e_name_len d a)) (de_name a) d"

text \<open>The name of an entry fits into the entry.\<close>

definition entry_fits :: "disk \<Rightarrow> nat \<Rightarrow> bool" where
  "entry_fits d a \<longleftrightarrow> entry_size (e_name_len d a) \<le> e_rec_len d a"

fun chain_to :: "disk \<Rightarrow> nat \<Rightarrow> nat list \<Rightarrow> nat \<Rightarrow> bool" where
  "chain_to d p [] q \<longleftrightarrow> p = q"
| "chain_to d p (a # as) q \<longleftrightarrow> a = p \<and> entry_fits d a \<and> chain_to d (p + e_rec_len d a) as q"

definition dir_block :: "disk \<Rightarrow> nat \<Rightarrow> nat list \<Rightarrow> bool" where
  "dir_block d b es \<longleftrightarrow> chain_to d b es (b + EXT2_BLOCK_SIZE) \<and> b + EXT2_BLOCK_SIZE \<le> DISK_SIZE"

lemma round4_bounds: "n \<le> round4 n" "round4 n < n + 4" "round4 n mod 4 = 0"
proof -
  define q r where "q = n div 4" and "r = n mod 4"
  have "n = q * 4 + r" "r < 4" by (simp_all add: q_def r_def)
  then show "n \<le> round4 n" "round4 n < n + 4"
    unfolding round4_def q_def [symmetric] r_def [symmetric] by simp_all
qed (simp add: round4_def)

lemma entry_size_bounds: "8 + unat l \<le> entry_size l" "entry_size l < 12 + unat l" "8 \<le> entry_size l"
  using round4_bounds [of "8 + unat l"] by (simp_all add: entry_size_def)

lemma unat_u8: "unat (l :: u8) < 256"
  using unsigned_less [of l] by simp

lemma entry_size_less: "entry_size l < 268"
  using entry_size_bounds(2) [of l] unat_u8 [of l] by linarith

text \<open>Addresses grow by at least the size of an entry without a name.\<close>

lemma chain_mono: "chain_to d p as q \<Longrightarrow> p + 8 * length as \<le> q"
proof (induction as arbitrary: p)
  case (Cons a as)
  then have "p + e_rec_len d p + 8 * length as \<le> q" "8 \<le> e_rec_len d p"
    using entry_size_bounds(3) [of "e_name_len d p"] by (auto simp: entry_fits_def)
  then show ?case by simp
qed simp

lemma entries_append:
  "chain_to d p (as @ bs) q \<longleftrightarrow> (\<exists>r. chain_to d p as r \<and> chain_to d r bs q)"
  by (induction as arbitrary: p) auto

lemma chain_in:
  assumes "chain_to d p as q" and "a \<in> set as"
  shows "p \<le> a" "a + e_rec_len d a \<le> q" "entry_fits d a"
proof -
  obtain xs ys where "as = xs @ a # ys" using assms(2) by (meson split_list)
  then obtain r where r: "chain_to d p xs r" "chain_to d r (a # ys) q" using assms(1) by (auto simp: entries_append)
  then show "p \<le> a" "a + e_rec_len d a \<le> q" "entry_fits d a"
    using chain_mono [OF r(1)] chain_mono [of d "r + e_rec_len d a" ys q] by auto
qed

lemma dir_block_nonempty: "dir_block d b es \<Longrightarrow> es \<noteq> []"
  by (auto simp: dir_block_def EXT2_BLOCK_SIZE_def)

lemma dir_block_length: "dir_block d b es \<Longrightarrow> length es \<le> 128"
  using chain_mono by (fastforce simp: dir_block_def EXT2_BLOCK_SIZE_def)

text \<open>The loads from an entry of a block.\<close>

lemma entry_loads:
  assumes "entry_fits d a" and "a + e_rec_len d a \<le> DISK_SIZE"
  shows "ld8 (de_name_len a) d = Inr (e_name_len d a)" "ld32 (de_inode a) d = Inr (e_inode d a)"
    "ld16 (de_rec_len a) d = Inr (get 2 (de_rec_len a) d)"
    "load_bytes (unat (e_name_len d a)) (de_name a) d = Inr (e_name d a)"
    "ld8 (de_file_type a) d = Inr (e_file_type d a)"
  using assms entry_size_bounds [of "e_name_len d a"] get_1 [of "de_name_len a" d] get_1 [of "de_file_type a" d]
  by (simp_all add: entry_fits_def e_name_len_def e_inode_def e_name_def e_file_type_def field_defs del: One_nat_def)

section \<open>Searching a block\<close>

definition names :: "disk \<Rightarrow> cstring \<Rightarrow> nat \<Rightarrow> bool" where
  "names d s a \<longleftrightarrow> e_inode d a \<noteq> 0 \<and> e_name d a = s"

lemma length_e_name [simp]: "length (e_name d a) = unat (e_name_len d a)"
  by (simp add: e_name_def)

lemma entry_is_run:
  assumes "entry_fits d a" and "a + e_rec_len d a \<le> DISK_SIZE"
  shows "entry_is (Some s) a d = Inr (names d s a)"
  using entry_loads [OF assms] by (auto simp: entry_is_def names_def)

lemma locate_chain:
  assumes "chain_to d a es q" and "q = b + EXT2_BLOCK_SIZE" and "q \<le> DISK_SIZE" and "b \<le> a" and "length es < k"
  shows "locate_in_block k (Some s) (a - b) a d = Inr (find (names d s) es)"
  using assms
proof (induction es arbitrary: a k)
  case Nil
  then obtain k' where "k = Suc k'" by (cases k) auto
  then show ?case using Nil by (simp add: locate_in_block.simps)
next
  case (Cons e es)
  then obtain k' where k: "k = Suc k'" by (cases k) auto
  have e: "e = a" "entry_fits d a" and rest: "chain_to d (a + e_rec_len d a) es q" using Cons.prems(1) by auto
  have l: "8 \<le> e_rec_len d a" "a + e_rec_len d a \<le> q"
    using e entry_size_bounds(3) [of "e_name_len d a"] chain_mono [OF rest] by (auto simp: entry_fits_def)
  have lt: "a - b < EXT2_BLOCK_SIZE" using l Cons.prems by linarith
  have dl: "a + e_rec_len d a \<le> DISK_SIZE" using l Cons.prems by linarith
  have IH: "locate_in_block k' (Some s) (a + e_rec_len d a - b) (a + e_rec_len d a) d = Inr (find (names d s) es)"
    by (rule Cons.IH [OF rest]) (use Cons.prems l k in auto)
  have "a + e_rec_len d a - b = a - b + e_rec_len d a" using Cons.prems by simp
  then show ?case
    using lt IH entry_loads(3) [OF e(2) dl] entry_is_run [OF e(2) dl, of s] e(1) k
    by (simp add: locate_in_block.simps e_rec_len_def [symmetric])
qed

lemma locate_in_block_run:
  assumes "dir_block d b es"
  shows "locate_in_block (Suc EXT2_BLOCK_SIZE) (Some s) 0 b d = Inr (find (names d s) es)"
  using locate_chain [of d b es "b + EXT2_BLOCK_SIZE" b "Suc EXT2_BLOCK_SIZE" s] assms dir_block_length [OF assms]
  by (simp add: dir_block_def EXT2_BLOCK_SIZE_def)

section \<open>A directory\<close>

definition inode_block :: "disk \<Rightarrow> nat \<Rightarrow> nat \<Rightarrow> u32" where
  "inode_block d inode i = get 4 (i_block inode i) d"

text \<open>The blocks of a directory, without the unused pointers.\<close>

definition dir_blocks :: "disk \<Rightarrow> nat \<Rightarrow> u32 list" where
  "dir_blocks d inode = filter (\<lambda>b. b \<noteq> 0) (map (inode_block d inode) [0 ..< TOTAL_BLOCK_COUNT])"

text \<open>\<open>dir_ok d inode ess\<close>: block \<open>i\<close> of the directory has the entries \<open>ess ! i\<close>.\<close>

definition dir_ok :: "disk \<Rightarrow> nat \<Rightarrow> nat list list \<Rightarrow> bool" where
  "dir_ok d inode ess \<longleftrightarrow> inode + INODE_SIZE \<le> DISK_SIZE \<and>
     list_all2 (\<lambda>b es. dir_block d (EXT2_BLOCK_SIZE * unat b) es) (dir_blocks d inode) ess"

lemma find_append: "find P (xs @ ys) = (case find P xs of None \<Rightarrow> find P ys | Some x \<Rightarrow> Some x)"
  by (induction xs) auto

lemma find_block_run:
  assumes "\<forall>i \<in> set is. i_block inode i + 4 \<le> DISK_SIZE"
    and "list_all2 (\<lambda>b es. dir_block d (EXT2_BLOCK_SIZE * unat b) es)
      (filter (\<lambda>b. b \<noteq> 0) (map (inode_block d inode) is)) ess"
  shows "find_block (\<lambda>b. locate_in_block (Suc EXT2_BLOCK_SIZE) (Some s) 0 (EXT2_BLOCK_SIZE * unat b)) inode is d =
    Inr (find (names d s) (concat ess))"
  using assms
proof (induction "is" arbitrary: ess)
  case (Cons i "is")
  have ld: "ld32 (i_block inode i) d = Inr (inode_block d inode i)"
    using Cons.prems(1) by (simp add: inode_block_def)
  show ?case
  proof (cases "inode_block d inode i = 0")
    case True
    then show ?thesis using Cons ld by simp
  next
    case False
    then obtain es ess' where ess: "ess = es # ess'" and es: "dir_block d (EXT2_BLOCK_SIZE * unat (inode_block d inode i)) es"
      and rest: "list_all2 (\<lambda>b es. dir_block d (EXT2_BLOCK_SIZE * unat b) es)
        (filter (\<lambda>b. b \<noteq> 0) (map (inode_block d inode) is)) ess'"
      using Cons.prems(2) by (auto simp: list_all2_Cons1)
    have IH: "find_block (\<lambda>b. locate_in_block (Suc EXT2_BLOCK_SIZE) (Some s) 0 (EXT2_BLOCK_SIZE * unat b)) inode is d =
        Inr (find (names d s) (concat ess'))"
      by (rule Cons.IH [OF _ rest]) (use Cons.prems(1) in simp)
    show ?thesis
      using False ld IH locate_in_block_run [OF es, of s] ess by (simp add: find_append split: option.splits)
  qed
qed simp

lemma locate_file_by_name_run:
  assumes "dir_ok d inode ess"
  shows "locate_file_by_name inode (Some s) d = Inr (find (names d s) (concat ess))"
  unfolding locate_file_by_name_def
  by (rule find_block_run)
    (use assms in \<open>auto simp: dir_ok_def dir_blocks_def i_block_def INODE_SIZE_def TOTAL_BLOCK_COUNT_def\<close>)

end
