(* ===== verification/Ext2_Alloc.thy ===== *)
theory Ext2_Alloc
  imports Ext2_Dir
begin

text \<open>
  What \<open>allocate_space_in_block\<close> does to a directory block: it reuses the first entry
  that is not in use, or else splits the last one, or else reports that the block is
  full; the names in the block are those before and the new one.  Both cases have a
  gap: an unused entry is reused whenever it fits its old name, and the test for the
  room behind the last entry rounds the two sizes together.
\<close>

section \<open>Filling in an entry\<close>

definition new_entry :: "nat \<Rightarrow> u32 \<Rightarrow> cstring \<Rightarrow> u8 \<Rightarrow> disk \<Rightarrow> disk" where
  "new_entry a ino nm ft d =
    put (a + 7) [ft] (put (a + 8) nm (put a (store_le 4 ino) (put (a + 6) [of_nat (length nm)] d)))"

lemma fill_entry_run:
  assumes "a + 8 + length nm \<le> DISK_SIZE" and "length nm < 256"
  shows "fill_entry a (of_nat (length nm)) ino nm ft d = Inr (new_entry a ino nm ft d)"
proof -
  have l: "unat (of_nat (length nm) :: u8) = length nm" using assms(2) by (simp add: unat_of_nat)
  have s: "store_le (Suc 0) w = [w]" for w :: u8 by simp
  show ?thesis using assms(1) by (simp add: fill_entry_def field_defs l s new_entry_def)
qed

lemma new_entry_outside:
  assumes "x < a \<or> a + 8 + length nm \<le> x \<or> x = a + 4 \<or> x = a + 5"
  shows "new_entry a ino nm ft d x = d x"
  using assms by (auto simp: new_entry_def put_def)

lemma new_entry_fields:
  assumes "length nm < 256"
  shows "e_inode (new_entry a ino nm ft d) a = ino" "e_rec_len (new_entry a ino nm ft d) a = e_rec_len d a"
    "e_name_len (new_entry a ino nm ft d) a = of_nat (length nm)" "e_name (new_entry a ino nm ft d) a = nm"
    "e_file_type (new_entry a ino nm ft d) a = ft"
proof -
  have l: "unat (of_nat (length nm) :: u8) = length nm" using assms by (simp add: unat_of_nat)
  show n: "e_name_len (new_entry a ino nm ft d) a = of_nat (length nm)"
    by (simp add: e_name_len_def de_name_len_def new_entry_def put_def)
  show "e_inode (new_entry a ino nm ft d) a = ino"
    by (simp add: e_inode_def de_inode_def new_entry_def get_put_other get_put_same)
  show "e_rec_len (new_entry a ino nm ft d) a = e_rec_len d a"
    by (simp add: e_rec_len_def de_rec_len_def new_entry_def get_put_other)
  show "e_name (new_entry a ino nm ft d) a = nm"
    unfolding e_name_def n l by (simp add: de_name_def new_entry_def bytes_put_other bytes_put_same)
  show "e_file_type (new_entry a ino nm ft d) a = ft"
    by (simp add: e_file_type_def de_file_type_def new_entry_def put_def)
qed

lemma e_rec_len_put: "e_rec_len (put (a + 4) (store_le 2 w) d) a = unat (w :: u16)"
  by (simp add: e_rec_len_def de_rec_len_def get_put_same)

section \<open>Entries that are not touched\<close>

lemma entry_cong:
  assumes "\<And>x. a \<le> x \<Longrightarrow> x < a + 8 + unat (e_name_len d a) \<Longrightarrow> d' x = d x"
  shows "e_inode d' a = e_inode d a" "e_rec_len d' a = e_rec_len d a" "e_name_len d' a = e_name_len d a"
    "e_name d' a = e_name d a" "e_file_type d' a = e_file_type d a"
proof -
  show n: "e_name_len d' a = e_name_len d a" using assms by (simp add: e_name_len_def de_name_len_def)
  show "e_inode d' a = e_inode d a" unfolding e_inode_def de_inode_def by (intro get_cong assms) auto
  show "e_rec_len d' a = e_rec_len d a"
    unfolding e_rec_len_def de_rec_len_def by (intro arg_cong [where f = unat] get_cong assms) auto
  show "e_name d' a = e_name d a"
    unfolding e_name_def n de_name_def by (intro bytes_cong assms) auto
  show "e_file_type d' a = e_file_type d a" using assms by (simp add: e_file_type_def de_file_type_def)
qed

definition entry_view :: "disk \<Rightarrow> nat \<Rightarrow> cstring \<times> u32 \<times> u8" where
  "entry_view d a = (e_name d a, e_inode d a, e_file_type d a)"

definition unused :: "disk \<Rightarrow> nat \<Rightarrow> bool" where
  "unused d a \<longleftrightarrow> e_inode d a = 0"

text \<open>The entries in use, in order.\<close>

definition listing :: "disk \<Rightarrow> nat list \<Rightarrow> (cstring \<times> u32 \<times> u8) list" where
  "listing d es = map (entry_view d) (filter (\<lambda>a. \<not> unused d a) es)"

lemma listing_append [simp]: "listing d (xs @ ys) = listing d xs @ listing d ys"
  by (simp add: listing_def)

lemma listing_Cons: "listing d (a # as) = (if unused d a then [] else [entry_view d a]) @ listing d as"
  by (simp add: listing_def)

lemma listing_Nil [simp]: "listing d [] = []"
  by (simp add: listing_def)

lemma entries_cong:
  assumes "chain_to d p as q" and "\<And>x. p \<le> x \<Longrightarrow> x < q \<Longrightarrow> d' x = d x"
  shows "chain_to d' p as q \<and> listing d' as = listing d as"
  using assms
proof (induction as arbitrary: p)
  case (Cons a as)
  have a: "a = p" "entry_fits d p" and rest: "chain_to d (p + e_rec_len d p) as q" using Cons.prems(1) by auto
  have sz: "8 + unat (e_name_len d p) \<le> e_rec_len d p" "p + e_rec_len d p \<le> q"
    using a(2) entry_size_bounds(1) [of "e_name_len d p"] chain_mono [OF rest] by (auto simp: entry_fits_def)
  have e: "e_inode d' p = e_inode d p" "e_rec_len d' p = e_rec_len d p" "e_name_len d' p = e_name_len d p"
    "e_name d' p = e_name d p" "e_file_type d' p = e_file_type d p"
    using sz Cons.prems(2) by (intro entry_cong; simp)+
  have "chain_to d' (p + e_rec_len d p) as q \<and> listing d' as = listing d as"
    by (rule Cons.IH [OF rest]) (use Cons.prems(2) in simp)
  then show ?case using a e by (simp add: listing_Cons unused_def entry_view_def entry_fits_def)
qed simp

section \<open>The search for an unused entry\<close>

lemma reusable_run:
  assumes "entry_fits d a" and "a + e_rec_len d a \<le> DISK_SIZE"
  shows "reusable a d = Inr (unused d a)"
  using entry_loads [OF assms] assms(1) by (simp add: reusable_def unused_def entry_fits_def e_rec_len_def)

lemma unat_pos: "n \<le> EXT2_BLOCK_SIZE \<Longrightarrow> unat (of_nat n :: u16) = n"
  by (simp add: EXT2_BLOCK_SIZE_def unat_of_nat)

lemma of_nat_rec_len: "get 2 (de_rec_len a) d = (of_nat (e_rec_len d a) :: u16)"
  by (simp add: e_rec_len_def)

lemma seek_chain:
  assumes "chain_to d a es q" and "q = b + EXT2_BLOCK_SIZE" "q \<le> DISK_SIZE" "b \<le> a" "length es < k"
    and "entry_fits d p" "a = p + e_rec_len d p" "a \<le> DISK_SIZE"
  shows "seek_entry k (of_nat (a - b)) a p d =
    Inr (case find (unused d) es of Some x \<Rightarrow> Inl x | None \<Rightarrow> Inr (last (p # es)))"
  using assms
proof (induction es arbitrary: a k p)
  case Nil
  then obtain k' where "k = Suc k'" by (cases k) auto
  then show ?case using Nil unat_pos [of EXT2_BLOCK_SIZE] by (simp add: seek_entry.simps)
next
  case (Cons e es)
  then obtain k' where k: "k = Suc k'" by (cases k) auto
  have e: "e = a" "entry_fits d a" and rest: "chain_to d (a + e_rec_len d a) es q" using Cons.prems(1) by auto
  have l: "8 \<le> e_rec_len d a" "a + e_rec_len d a \<le> q"
    using e entry_size_bounds(3) [of "e_name_len d a"] chain_mono [OF rest] by (auto simp: entry_fits_def)
  have lt: "a - b < EXT2_BLOCK_SIZE" using l Cons.prems by linarith
  then have pos: "unat (of_nat (a - b) :: u16) = a - b" "a - b < EXT2_BLOCK_SIZE"
    by (auto intro: unat_pos [OF less_imp_le])
  have dl: "a + e_rec_len d a \<le> DISK_SIZE" using l Cons.prems by linarith
  have lp: "ld16 (de_rec_len p) d = Inr (get 2 (de_rec_len p) d)"
    using entry_loads(3) [OF Cons.prems(6)] Cons.prems(7,8) by simp
  have step: "of_nat (a - b) + get 2 (de_rec_len a) d = (of_nat (a + e_rec_len d a - b) :: u16)"
    using Cons.prems(4) unfolding of_nat_rec_len by (simp add: of_nat_diff)
  have IH: "seek_entry k' (of_nat (a + e_rec_len d a - b)) (a + e_rec_len d a) a d =
      Inr (case find (unused d) es of Some x \<Rightarrow> Inl x | None \<Rightarrow> Inr (last (a # es)))"
    by (rule Cons.IH [OF rest]) (use Cons.prems e dl k in auto)
  have r: "unat (get 2 (de_rec_len a) d :: u16) = e_rec_len d a" "p + unat (get 2 (de_rec_len p) d :: u16) = a"
    using Cons.prems(7) by (simp_all add: e_rec_len_def)
  show ?case
    unfolding k e(1) seek_entry.simps pos(1) reusable_run [OF e(2) dl] bindE_Inr entry_loads(3) [OF e(2) dl] lp step r IH
    using pos(2) by (simp split: option.splits)
qed

section \<open>The contract\<close>

lemma entry_fits_new:
  assumes "length nm < 256" and "entry_size (of_nat (length nm)) \<le> e_rec_len d a"
  shows "entry_fits (new_entry a ino nm ft d) a"
  using assms by (simp add: entry_fits_def new_entry_fields)

text \<open>Reusing the entry at \<open>a\<close> for a name that fits.\<close>

lemma reuse_entry:
  assumes blk: "dir_block d b (xs @ a # ys)" and u: "unused d a" and len: "length nm < 256" and ino: "ino \<noteq> 0"
    and room: "entry_size (of_nat (length nm)) \<le> e_rec_len d a"
  shows "fill_entry a (of_nat (length nm)) ino nm ft d = Inr (new_entry a ino nm ft d)"
    and "dir_block (new_entry a ino nm ft d) b (xs @ a # ys)"
    and "listing (new_entry a ino nm ft d) (xs @ a # ys) = listing d xs @ (nm, ino, ft) # listing d ys"
    and "listing d (xs @ a # ys) = listing d xs @ listing d ys"
    and "\<And>x. x < b \<or> b + EXT2_BLOCK_SIZE \<le> x \<Longrightarrow> new_entry a ino nm ft d x = d x"
proof -
  let ?d = "new_entry a ino nm ft d"
  obtain r where c: "chain_to d b xs r" "r = a" "entry_fits d a"
    "chain_to d (a + e_rec_len d a) ys (b + EXT2_BLOCK_SIZE)" and dl: "b + EXT2_BLOCK_SIZE \<le> DISK_SIZE"
    using blk by (auto simp: dir_block_def entries_append)
  have l: "unat (of_nat (length nm) :: u8) = length nm" using len by (simp add: unat_of_nat)
  have sz: "8 + length nm \<le> e_rec_len d a" using room entry_size_bounds(1) [of "of_nat (length nm)"] l by simp
  show "fill_entry a (of_nat (length nm)) ino nm ft d = Inr ?d"
    by (rule fill_entry_run [OF _ len]) (use sz chain_mono [OF c(4)] dl in linarith)
  have x: "chain_to ?d b xs a \<and> listing ?d xs = listing d xs"
    by (rule entries_cong) (use c new_entry_outside in auto)
  have y: "chain_to ?d (a + e_rec_len d a) ys (b + EXT2_BLOCK_SIZE) \<and> listing ?d ys = listing d ys"
    by (rule entries_cong [OF c(4)]) (use sz in \<open>simp add: new_entry_outside\<close>)
  show "dir_block ?d b (xs @ a # ys)"
    using x y dl entry_fits_new [OF len room] by (auto simp: dir_block_def entries_append new_entry_fields [OF len])
  show "listing ?d (xs @ a # ys) = listing d xs @ (nm, ino, ft) # listing d ys"
    using x y ino by (simp add: listing_Cons unused_def entry_view_def new_entry_fields [OF len])
  show "listing d (xs @ a # ys) = listing d xs @ listing d ys" using u by (simp add: listing_Cons)
  show "?d x = d x" if "x < b \<or> b + EXT2_BLOCK_SIZE \<le> x" for x
    by (rule new_entry_outside) (use that c(2) sz chain_mono [OF c(1)] chain_mono [OF c(4)] in linarith)
qed

text \<open>The exact condition for room behind the last entry, and the test of the code.\<close>

definition room_behind :: "disk \<Rightarrow> nat \<Rightarrow> nat \<Rightarrow> bool" where
  "room_behind d p len \<longleftrightarrow> entry_size (e_name_len d p) + entry_size (of_nat len) \<le> e_rec_len d p"

definition room_test :: "disk \<Rightarrow> nat \<Rightarrow> nat \<Rightarrow> bool" where
  "room_test d p len \<longleftrightarrow> round4 (16 + len + unat (e_name_len d p)) \<le> e_rec_len d p"

definition split_disk :: "nat \<Rightarrow> u32 \<Rightarrow> cstring \<Rightarrow> u8 \<Rightarrow> disk \<Rightarrow> disk" where
  "split_disk p ino nm ft d =
    (let n = p + entry_size (e_name_len d p);
         d1 = put (p + 4) (store_le 2 (of_nat (entry_size (e_name_len d p)) :: u16)) d;
         d2 = put (n + 4) (store_le 2 (of_nat (e_rec_len d p - entry_size (e_name_len d p)) :: u16)) d1
     in new_entry n ino nm ft d2)"

lemma split_last:
  assumes blk: "dir_block d b (xs @ [p])" and u: "\<not> unused d p" and len: "length nm < 256" and ino: "ino \<noteq> 0"
    and room: "room_behind d p (length nm)" "room_test d p (length nm)"
  defines "n \<equiv> p + entry_size (e_name_len d p)"
  shows "split_entry p (of_nat (length nm)) ino nm ft d = Inr (True, split_disk p ino nm ft d)"
    and "dir_block (split_disk p ino nm ft d) b (xs @ [p, n])"
    and "listing (split_disk p ino nm ft d) (xs @ [p, n]) = listing d (xs @ [p]) @ [(nm, ino, ft)]"
    and "\<And>x. x < b \<or> b + EXT2_BLOCK_SIZE \<le> x \<Longrightarrow> split_disk p ino nm ft d x = d x"
proof -
  let ?s = "entry_size (e_name_len d p)" and ?r = "e_rec_len d p"
  define d1 where "d1 = put (p + 4) (store_le 2 (of_nat ?s :: u16)) d"
  define d2 where "d2 = put (n + 4) (store_le 2 (of_nat (?r - ?s) :: u16)) d1"
  let ?d = "new_entry n ino nm ft d2"
  have sd: "split_disk p ino nm ft d = ?d" by (simp add: split_disk_def d1_def d2_def n_def Let_def)
  have c: "chain_to d b xs p" "entry_fits d p" "p + ?r = b + EXT2_BLOCK_SIZE" and dl: "b + EXT2_BLOCK_SIZE \<le> DISK_SIZE"
    using blk by (auto simp: dir_block_def entries_append)
  have bp: "b \<le> p" using chain_mono [OF c(1)] by simp
  have l: "unat (of_nat (length nm) :: u8) = length nm" using len by (simp add: unat_of_nat)
  have s: "8 + unat (e_name_len d p) \<le> ?s" "8 + length nm \<le> entry_size (of_nat (length nm))"
    using entry_size_bounds(1) [of "e_name_len d p"] entry_size_bounds(1) [of "of_nat (length nm)"] l by simp_all
  have rs: "?s + entry_size (of_nat (length nm)) \<le> ?r" using room(1) by (simp add: room_behind_def)
  have rB: "?r \<le> EXT2_BLOCK_SIZE" using c(3) bp by linarith
  have small: "unat (of_nat ?s :: u16) = ?s" "unat (of_nat (?r - ?s) :: u16) = ?r - ?s"
    using rs rB by (intro unat_pos; linarith)+
  have diff: "get 2 (de_rec_len p) d - of_nat ?s = (of_nat (?r - ?s) :: u16)"
    using rs unfolding of_nat_rec_len by (simp add: of_nat_diff)
  have out: "?d x = d x" if "x < p + 4 \<or> p + 6 \<le> x" "x < n \<or> n + 8 + length nm \<le> x" for x
    using that by (auto simp: new_entry_outside d1_def d2_def put_outside)
  show "split_entry p (of_nat (length nm)) ino nm ft d = Inr (True, split_disk p ino nm ft d)"
  proof -
    have pd: "p + ?r \<le> DISK_SIZE" using c(3) dl by simp
    have st: "st16 (de_rec_len p) (of_nat ?s) d = Inr d1" "st16 (de_rec_len n) (of_nat (?r - ?s)) d1 = Inr d2"
      using s rs pd by (simp_all add: d1_def d2_def de_rec_len_def n_def)
    have fill: "fill_entry n (of_nat (length nm)) ino nm ft d2 = Inr ?d"
      by (rule fill_entry_run [OF _ len]) (use s rs pd in \<open>simp add: n_def\<close>)
    have t: "round4 (16 + length nm + unat (e_name_len d p)) \<le> unat (get 2 (de_rec_len p) d :: u16)"
      using room(2) by (simp add: room_test_def e_rec_len_def)
    show ?thesis
      unfolding split_entry_def entry_loads(1,3) [OF c(2) pd] bindE_Inr l Let_def n_def [symmetric] diff st fill sd
      using t by simp
  qed
  have x: "chain_to ?d b xs p \<and> listing ?d xs = listing d xs"
    by (rule entries_cong [OF c(1)], rule out) (simp_all add: n_def)
  have pe: "e_inode ?d p = e_inode d p" "e_name_len ?d p = e_name_len d p" "e_name ?d p = e_name d p"
    "e_file_type ?d p = e_file_type d p" "e_rec_len ?d p = ?s"
  proof -
    have keep: "?d x = d x" if "p \<le> x" "x < p + 4 \<or> p + 6 \<le> x" "x < p + 8 + unat (e_name_len d p)" for x
      using that s by (intro out) (auto simp: n_def)
    show nl: "e_name_len ?d p = e_name_len d p" using keep [of "p + 6"] by (simp add: e_name_len_def de_name_len_def)
    show "e_inode ?d p = e_inode d p" unfolding e_inode_def de_inode_def by (intro get_cong keep) auto
    show "e_name ?d p = e_name d p" unfolding e_name_def nl de_name_def by (intro bytes_cong keep) auto
    show "e_file_type ?d p = e_file_type d p" using keep [of "p + 7"] by (simp add: e_file_type_def de_file_type_def)
    have "(get 2 (p + 4) ?d :: u16) = get 2 (p + 4) d1"
      by (rule get_cong) (use s in \<open>simp add: new_entry_outside d2_def put_outside n_def\<close>)
    then show "e_rec_len ?d p = ?s" using small(1) by (simp add: e_rec_len_def de_rec_len_def d1_def get_put_same)
  qed
  have nr: "e_rec_len ?d n = ?r - ?s"
  proof -
    have "e_rec_len ?d n = e_rec_len d2 n" by (rule new_entry_fields(2) [OF len])
    also have "\<dots> = unat (of_nat (?r - ?s) :: u16)"
      unfolding d2_def by (rule e_rec_len_put)
    finally show ?thesis using small(2) by simp
  qed
  have pf: "entry_fits ?d p" "entry_fits ?d n"
    using rs nr by (simp_all add: entry_fits_def pe new_entry_fields(3) [OF len])
  have "n + (?r - ?s) = b + EXT2_BLOCK_SIZE" using rs c(3) by (simp add: n_def)
  then show "dir_block (split_disk p ino nm ft d) b (xs @ [p, n])"
    unfolding sd using x pf pe(5) nr dl by (auto simp: dir_block_def entries_append n_def)
  show "listing (split_disk p ino nm ft d) (xs @ [p, n]) = listing d (xs @ [p]) @ [(nm, ino, ft)]"
    unfolding sd using x u ino by (simp add: listing_Cons unused_def entry_view_def pe new_entry_fields [OF len])
  show "split_disk p ino nm ft d x = d x" if "x < b \<or> b + EXT2_BLOCK_SIZE \<le> x" for x
    unfolding sd by (rule out) (use that c(3) bp s rs in \<open>auto simp: n_def\<close>)
qed

text \<open>
  The hypotheses under which the code keeps the block well-formed: every unused entry
  has room for the new name, and the test of the last entry is exact.
\<close>

definition roomy :: "disk \<Rightarrow> nat list \<Rightarrow> nat \<Rightarrow> bool" where
  "roomy d es len \<longleftrightarrow> (\<forall>a \<in> set es. unused d a \<longrightarrow> entry_size (of_nat len) \<le> e_rec_len d a) \<and>
     (room_test d (last es) len \<longrightarrow> room_behind d (last es) len)"

lemma allocate_cases:
  assumes blk: "dir_block d (block_ptr bn) es" and len: "length nm < 256"
  shows "allocate_space_in_block (of_nat (length nm)) bn ino nm ft d =
    (case find (unused d) es of
       Some a \<Rightarrow> bindE (fill_entry a (of_nat (length nm)) ino nm ft d) (\<lambda>d. Inr (True, d))
     | None \<Rightarrow> split_entry (last es) (of_nat (length nm)) ino nm ft d)"
proof -
  let ?b = "block_ptr bn"
  obtain a es' where es: "es = a # es'" using dir_block_nonempty [OF blk] by (cases es) auto
  have a: "a = ?b" "entry_fits d ?b" and rest: "chain_to d (?b + e_rec_len d ?b) es' (?b + EXT2_BLOCK_SIZE)"
    and dl: "?b + EXT2_BLOCK_SIZE \<le> DISK_SIZE"
    using blk es by (auto simp: dir_block_def)
  have rd: "?b + e_rec_len d ?b \<le> DISK_SIZE" using chain_mono [OF rest] dl by linarith
  have k: "length es' < Suc DISK_SIZE" using dir_block_length [OF blk] es by (simp add: disk_size)
  have "of_nat (?b + e_rec_len d ?b - ?b) = (get 2 (de_rec_len ?b) d :: u16)" by (simp add: of_nat_rec_len)
  then have sk: "seek_entry (Suc DISK_SIZE) (get 2 (de_rec_len ?b) d) (?b + e_rec_len d ?b) ?b d =
      Inr (case find (unused d) es' of Some x \<Rightarrow> Inl x | None \<Rightarrow> Inr (last (?b # es')))"
    using seek_chain [OF rest refl dl _ k a(2) refl rd] by simp
  have r: "unat (get 2 (de_rec_len ?b) d :: u16) = e_rec_len d ?b" by (simp add: e_rec_len_def)
  show ?thesis
    unfolding allocate_space_in_block_def Let_def entry_loads(3) [OF a(2) rd] bindE_Inr reusable_run [OF a(2) rd] r sk
    using es a(1) by (simp split: option.splits)
qed

lemma find_split:
  "find P xs = Some a \<Longrightarrow> \<exists>ys zs. xs = ys @ a # zs \<and> P a \<and> (\<forall>y \<in> set ys. \<not> P y)"
proof (induction xs)
  case (Cons x xs)
  show ?case
  proof (cases "P x")
    case True
    then show ?thesis using Cons.prems by (intro exI [of _ "[]"] exI [of _ xs]) auto
  next
    case False
    then obtain ys zs where "xs = ys @ a # zs" "P a" "\<forall>y \<in> set ys. \<not> P y" using Cons by auto
    then show ?thesis using False by (intro exI [of _ "x # ys"] exI [of _ zs]) auto
  qed
qed simp

lemma allocate_contract:
  assumes blk: "dir_block d (block_ptr bn) es" and len: "length nm < 256" and ino: "ino \<noteq> 0"
    and roomy: "roomy d es (length nm)"
  shows "(allocate_space_in_block (of_nat (length nm)) bn ino nm ft d = Inr (False, d) \<and>
      filter (unused d) es = [] \<and> \<not> room_test d (last es) (length nm)) \<or>
    (\<exists>d' es' l1 l2. allocate_space_in_block (of_nat (length nm)) bn ino nm ft d = Inr (True, d') \<and>
      dir_block d' (block_ptr bn) es' \<and> listing d es = l1 @ l2 \<and> listing d' es' = l1 @ (nm, ino, ft) # l2 \<and>
      (\<forall>x. x < block_ptr bn \<or> block_ptr bn + EXT2_BLOCK_SIZE \<le> x \<longrightarrow> d' x = d x))"
proof (cases "find (unused d) es")
  case (Some a)
  then obtain xs ys where es: "es = xs @ a # ys" and u: "unused d a" using find_split by metis
  have r: "entry_size (of_nat (length nm)) \<le> e_rec_len d a" using roomy u es by (simp add: roomy_def)
  note R = reuse_entry(1,2,3) [OF blk [unfolded es] u len ino r, of ft] reuse_entry(4) [OF blk [unfolded es] u len ino r]
    reuse_entry(5) [OF blk [unfolded es] u len ino r, where ft = ft]
  show ?thesis unfolding allocate_cases [OF blk len] using Some R(1) R(2) [folded es] R(3) [folded es] R(4) [folded es] R(5)
    by (intro disjI2 exI [of _ "new_entry a ino nm ft d"] exI [of _ es] exI [of _ "listing d xs"] exI [of _ "listing d ys"]) simp
next
  case None
  then have nu: "\<forall>a \<in> set es. \<not> unused d a" by (simp add: find_None_iff)
  obtain xs p where es: "es = xs @ [p]" using dir_block_nonempty [OF blk] by (cases es rule: rev_cases) auto
  have p: "entry_fits d p" "p + e_rec_len d p \<le> DISK_SIZE"
    using blk es by (auto simp: dir_block_def entries_append)
  have alloc: "allocate_space_in_block (of_nat (length nm)) bn ino nm ft d = split_entry p (of_nat (length nm)) ino nm ft d"
    unfolding allocate_cases [OF blk len] using None es by simp
  show ?thesis
  proof (cases "room_test d p (length nm)")
    case True
    then have "room_behind d p (length nm)" using roomy es by (simp add: roomy_def)
    then show ?thesis
      using split_last [OF blk [unfolded es] _ len ino _ True, where ft = ft] nu es alloc
      by (intro disjI2 exI [of _ "split_disk p ino nm ft d"] exI [of _ "xs @ [p, p + entry_size (e_name_len d p)]"]
          exI [of _ "listing d es"] exI [of _ "[]"]) simp
  next
    case False
    have l: "unat (of_nat (length nm) :: u8) = length nm" using len by (simp add: unat_of_nat)
    have "split_entry p (of_nat (length nm)) ino nm ft d = Inr (False, d)"
      using False entry_loads(1,3) [OF p] by (simp add: split_entry_def room_test_def l e_rec_len_def)
    then show ?thesis using alloc nu False es by (simp add: filter_empty_conv)
  qed
qed

end
