(* ===== verification/Ext2_Mkdir.thy ===== *)
theory Ext2_Mkdir
  imports Ext2_General
begin

text \<open>
  The commands that create and list directories (ext2_mkdir.c, ext2_ls.c).  A command
  is a function of its arguments \<open>argv\<close>, the first being the program's name, and of
  the image: \<open>None\<close> when it cannot be mapped.  It gives the exit code and the image,
  which is shared with the file; \<open>ext2_ls\<close> gives the lines it prints.
\<close>

definition ENOENT :: int where "ENOENT = 2"
definition EEXIST :: int where "EEXIST = 17"
definition EISDIR :: int where "EISDIR = 21"
definition EINVAL :: int where "EINVAL = 22"
definition ENOSPC :: int where "ENOSPC = 28"
definition ENAMETOOLONG :: int where "ENAMETOOLONG = 36"

type_synonym command = "disk \<Rightarrow> (int \<times> disk) res"

definition on_image :: "command \<Rightarrow> int \<Rightarrow> disk option \<Rightarrow> (int \<times> disk option) res" where
  "on_image cmd err img =
    (case img of None \<Rightarrow> Inr (err, None)
     | Some d \<Rightarrow> bindE (cmd d) (\<lambda>(r, d1). Inr (r, Some d1)))"

definition is_absolute :: "cstring \<Rightarrow> bool" where
  "is_absolute path \<longleftrightarrow> path \<noteq> [] \<and> hd path = SLASH"

section \<open>Adding an entry to a directory\<close>

text \<open>The loop over the blocks of a directory that stops when the entry was added.\<close>

primrec try_blocks :: "(u32 \<Rightarrow> disk \<Rightarrow> (bool \<times> disk) res) \<Rightarrow> nat \<Rightarrow> nat list \<Rightarrow> disk \<Rightarrow> (bool \<times> disk) res" where
  "try_blocks f inode [] d = Inr (False, d)"
| "try_blocks f inode (i # is) d =
    bindE (ld32 (i_block inode i) d) (\<lambda>b.
    if b \<noteq> 0 then bindE (f b d) (\<lambda>(ok, d1). if ok then Inr (True, d1) else try_blocks f inode is d1)
    else try_blocks f inode is d)"

definition add_to_blocks :: "nat \<Rightarrow> u32 \<Rightarrow> cstring \<Rightarrow> u8 \<Rightarrow> disk \<Rightarrow> (bool \<times> disk) res" where
  "add_to_blocks dir_inode ino filename ft =
    try_blocks (\<lambda>b. allocate_space_in_block (of_nat (length filename)) b ino filename ft) dir_inode
      [0 ..< TOTAL_BLOCK_COUNT]"

text \<open>The first block pointer that is not used.\<close>

primrec free_slot :: "nat \<Rightarrow> nat list \<Rightarrow> disk \<Rightarrow> nat option res" where
  "free_slot inode [] d = Inr None"
| "free_slot inode (i # is) d =
    bindE (ld32 (i_block inode i) d) (\<lambda>b. if b = 0 then Inr (Some i) else free_slot inode is d)"

text \<open>A new block for a directory, with the stores that make its only entry.\<close>

definition add_block :: "nat \<Rightarrow> nat \<Rightarrow> u32 \<Rightarrow> (disk \<Rightarrow> disk res) list \<Rightarrow> disk \<Rightarrow> disk res" where
  "add_block dir_inode i block_num stores =
    seqE ([st32 (i_block dir_inode i) block_num, add32 (i_blocks dir_inode) 1] @ stores)"

section \<open>ext2_mkdir\<close>

definition make_dot_entry :: "u32 \<Rightarrow> u32 \<Rightarrow> disk \<Rightarrow> disk res" where
  "make_dot_entry new_inodeNum new_blockNum =
    (let p = block_ptr new_blockNum in
     seqE [st32 (de_inode p) new_inodeNum, st8 (de_name_len p) 1, st16 (de_rec_len p) (of_nat EXT2_BLOCK_SIZE),
           st8 (de_name p) DOT, st8 (de_file_type p) EXT2_FT_DIR])"

text \<open>Lines 92-128: the entry in the parent, or the roll back.\<close>

definition link_into_parent :: "nat \<Rightarrow> u32 \<Rightarrow> cstring \<Rightarrow> command" where
  "link_into_parent parent_inode new_inodeNum filename d =
    bindE (add_to_blocks parent_inode new_inodeNum filename EXT2_FT_DIR d) (\<lambda>(found, d).
    bindE (if found then Inr (True, d)
           else
             bindE (find_free_block d) (\<lambda>n.
             bindE (update_bitmap CHR ''b'' n True d) (\<lambda>d.
             bindE (free_slot parent_inode [0 ..< TOTAL_BLOCK_COUNT] d) (\<lambda>slot.
             case slot of None \<Rightarrow> Inr (False, d)
             | Some i \<Rightarrow>
                 let p = block_ptr n in
                 bindE (add_block parent_inode i n
                   [st32 (de_inode p) new_inodeNum, st8 (de_name_len p) (of_nat (length filename)),
                    st16 (de_rec_len p) (of_nat EXT2_BLOCK_SIZE), store_bytes (de_name p) filename,
                    st8 (de_file_type p) EXT2_FT_DIR] d) (\<lambda>d. Inr (True, d)))))) (\<lambda>(found, d).
    if found then Inr (0, d)
    else
      bindE (update_bitmap CHR ''b'' new_inodeNum False d) (\<lambda>d.
      bindE (update_bitmap CHR ''i'' new_inodeNum False d) (\<lambda>d. Inr (ENOSPC, d)))))"

text \<open>Lines 51-128: the new inode and its block.\<close>

definition make_directory :: "fs_env \<Rightarrow> u32 \<Rightarrow> cstring \<Rightarrow> command" where
  "make_directory E parent_inodeNum filename d =
    bindE (inode_ptr parent_inodeNum d) (\<lambda>parent_inode.
    bindE (find_free_inode d) (\<lambda>new_inodeNum.
    if new_inodeNum = 0 then Inr (ENOSPC, d)
    else
      bindE (update_bitmap CHR ''i'' new_inodeNum True d) (\<lambda>d.
      bindE (inode_ptr new_inodeNum d) (\<lambda>new_inode.
      bindE (init_inode E new_inode EXT2_S_IFDIR (of_nat EXT2_BLOCK_SIZE) d) (\<lambda>d.
      bindE (st16 (i_links_count new_inode) 2 d) (\<lambda>d.
      bindE (find_free_block d) (\<lambda>new_blockNum.
      if new_blockNum = 0 then bindE (update_bitmap CHR ''i'' new_inodeNum False d) (\<lambda>d. Inr (ENOENT, d))
      else
        bindE (update_bitmap CHR ''b'' new_blockNum True d) (\<lambda>d.
        bindE (st32 (i_block new_inode 0) new_blockNum d) (\<lambda>d.
        bindE (add32 (i_blocks new_inode) 1 d) (\<lambda>d.
        bindE (make_dot_entry new_inodeNum new_blockNum d) (\<lambda>d.
        bindE (allocate_space_in_block 2 new_blockNum parent_inodeNum [DOT, DOT] EXT2_FT_DIR d) (\<lambda>(_, d).
        bindE (add16 (i_links_count parent_inode) 1 d) (\<lambda>d.
        link_into_parent parent_inode new_inodeNum filename d)))))))))))))"

definition mkdir :: "fs_env \<Rightarrow> cstring \<Rightarrow> command" where
  "mkdir E path d =
    (if \<not> is_absolute path then Inr (EINVAL, d)
     else
       bindE (copy_path E path) (\<lambda>buf.
       bindE (find_dir_entry buf d) (\<lambda>dest_file.
       if dest_file \<noteq> None then Inr (EEXIST, d)
       else
         bindE (find_parent_inode E path d) (\<lambda>parent_inodeNum.
         if parent_inodeNum = 0 then Inr (ENOENT, d)
         else
           bindE (find_file_name_by_path path) (\<lambda>filename.
           if EXT2_BLOCK_SIZE - 8 < length filename then Inr (ENAMETOOLONG, d)
           else make_directory E parent_inodeNum filename d)))))"

definition mkdir_main :: "fs_env \<Rightarrow> cstring list \<Rightarrow> disk option \<Rightarrow> (int \<times> disk option) res" where
  "mkdir_main E argv img =
    (if length argv \<noteq> 3 then Inr (EINVAL, img) else on_image (mkdir E (argv ! 2)) EINVAL img)"

section \<open>ext2_ls\<close>

text \<open>\<open>printf("%s\n", print_name)\<close> for the entry at \<open>dir\<close>.\<close>

definition print_name :: "nat \<Rightarrow> disk \<Rightarrow> cstring res" where
  "print_name dir d =
    bindE (ld8 (de_name_len dir) d) (\<lambda>l.
    bindE (load_bytes (unat l) (de_name dir) d) (\<lambda>nm. Inr (takeWhile (\<lambda>c. c \<noteq> 0) nm)))"

definition list_entry :: "bool \<Rightarrow> nat \<Rightarrow> disk \<Rightarrow> cstring list res" where
  "list_entry flag dir d =
    bindE (ld32 (de_inode dir) d) (\<lambda>i.
    bindE (if i = 0 then Inr False else if flag then Inr True else check_if_external_entry dir d) (\<lambda>show.
    if show then bindE (print_name dir d) (\<lambda>nm. Inr [nm]) else Inr []))"

fun list_block :: "nat \<Rightarrow> bool \<Rightarrow> nat \<Rightarrow> nat \<Rightarrow> disk \<Rightarrow> cstring list res" where
  "list_block 0 flag pos dir d = Inl Out_Of_Fuel"
| "list_block (Suc k) flag pos dir d =
    (if pos < EXT2_BLOCK_SIZE then
       bindE (list_entry flag dir d) (\<lambda>out.
       bindE (ld16 (de_rec_len dir) d) (\<lambda>r.
       bindE (list_block k flag (pos + unat r) (dir + unat r) d) (\<lambda>rest. Inr (out @ rest))))
     else Inr [])"

declare list_block.simps [simp del]

primrec list_blocks :: "bool \<Rightarrow> nat \<Rightarrow> nat list \<Rightarrow> disk \<Rightarrow> cstring list res" where
  "list_blocks flag inode [] d = Inr []"
| "list_blocks flag inode (i # is) d =
    bindE (ld32 (i_block inode i) d) (\<lambda>b.
    bindE (if b \<noteq> 0 then list_block (Suc EXT2_BLOCK_SIZE) flag 0 (block_ptr b) d else Inr []) (\<lambda>out.
    bindE (list_blocks flag inode is d) (\<lambda>rest. Inr (out @ rest))))"

definition ls :: "fs_env \<Rightarrow> bool \<Rightarrow> cstring \<Rightarrow> disk \<Rightarrow> (int \<times> cstring list) res" where
  "ls E flag path d =
    (let list_dir = (\<lambda>inode. bindE (list_blocks flag inode [0 ..< TOTAL_BLOCK_COUNT] d) (\<lambda>out. Inr (0, out))) in
     if length path = 1 then bindE (get_root_inode d) list_dir
     else
       bindE (copy_path E path) (\<lambda>buf.
       bindE (find_dir_entry buf d) (\<lambda>dest_file.
       case dest_file of None \<Rightarrow> Inr (ENOENT, [])
       | Some e \<Rightarrow>
           bindE (ld8 (de_file_type e) d) (\<lambda>ft.
           if ft = EXT2_FT_DIR then bindE (ld32 (de_inode e) d) (\<lambda>n. bindE (inode_ptr n d) list_dir)
           else bindE (print_name e d) (\<lambda>nm. Inr (0, [nm]))))))"

definition ls_main :: "fs_env \<Rightarrow> cstring list \<Rightarrow> disk option \<Rightarrow> (int \<times> cstring list) res" where
  "ls_main E argv img =
    (if length argv \<noteq> 3 \<and> length argv \<noteq> 4 then Inr (EINVAL, [])
     else if length argv = 4 \<and> argv ! 2 \<noteq> [45, 97] then Inr (EINVAL, [])
     else
       let flag = (length argv = 4); path = (if flag then argv ! 3 else argv ! 2) in
       if \<not> is_absolute path then Inr (EINVAL, [])
       else case img of None \<Rightarrow> Inr (EINVAL, []) | Some d \<Rightarrow> ls E flag path d)"

end
