(* ===== verification/Ext2_Add.thy ===== *)
theory Ext2_Add
  imports Ext2_Alloc Ext2_Mkdir
begin

text \<open>
  Adding an entry to a directory: \<open>add_to_blocks\<close> puts it into the first block with
  room, keeps all other entries, and changes bytes of the directory's blocks only.
  The entry is then found by \<open>locate_file_by_name\<close>.
\<close>

section \<open>A directory on its blocks\<close>

lemma block_ptr_unat: "EXT2_BLOCK_SIZE * unat b + EXT2_BLOCK_SIZE \<le> DISK_SIZE \<Longrightarrow> block_ptr b = EXT2_BLOCK_SIZE * unat b"
proof -
  assume "EXT2_BLOCK_SIZE * unat b + EXT2_BLOCK_SIZE \<le> DISK_SIZE"
  then have "unat (of_nat EXT2_BLOCK_SIZE :: u32) * unat b < 2 ^ 32" by (simp add: disk_size)
  then show ?thesis unfolding block_ptr_def
    using unat_mult_lem [of "of_nat EXT2_BLOCK_SIZE :: u32" b] by (simp add: EXT2_BLOCK_SIZE_def)
qed

abbreviation block_start :: "u32 \<Rightarrow> nat" where
  "block_start b \<equiv> EXT2_BLOCK_SIZE * unat b"

lemma block_start_apart:
  "b \<noteq> c \<Longrightarrow> block_start b + EXT2_BLOCK_SIZE \<le> block_start c \<or> block_start c + EXT2_BLOCK_SIZE \<le> block_start b"
proof -
  assume "b \<noteq> c"
  then have "unat b \<noteq> unat c" by (metis unsigned_word_eqI)
  then consider "unat b + 1 \<le> unat c" | "unat c + 1 \<le> unat b" by linarith
  then show ?thesis by cases (simp_all add: EXT2_BLOCK_SIZE_def)
qed

text \<open>The blocks of a directory, apart from each other and from its inode.\<close>

definition outside_blocks :: "u32 list \<Rightarrow> nat \<Rightarrow> bool" where
  "outside_blocks bs x \<longleftrightarrow> (\<forall>b \<in> set bs. x < block_start b \<or> block_start b + EXT2_BLOCK_SIZE \<le> x)"

definition on_blocks :: "disk \<Rightarrow> u32 list \<Rightarrow> nat list list \<Rightarrow> bool" where
  "on_blocks d bs ess \<longleftrightarrow> list_all2 (\<lambda>b es. dir_block d (block_start b) es) bs ess"

definition dir_sep :: "disk \<Rightarrow> nat \<Rightarrow> bool" where
  "dir_sep d inode \<longleftrightarrow> distinct (dir_blocks d inode) \<and>
     (\<forall>x. inode \<le> x \<and> x < inode + INODE_SIZE \<longrightarrow> outside_blocks (dir_blocks d inode) x)"

lemma dir_block_cong:
  assumes "dir_block d a es" and "\<And>x. a \<le> x \<Longrightarrow> x < a + EXT2_BLOCK_SIZE \<Longrightarrow> d' x = d x"
  shows "dir_block d' a es \<and> listing d' es = listing d es"
  using entries_cong [of d a es "a + EXT2_BLOCK_SIZE" d'] assms by (auto simp: dir_block_def)

lemma on_blocks_cong:
  assumes "on_blocks d bs ess" and "\<And>b x. b \<in> set bs \<Longrightarrow> block_start b \<le> x \<Longrightarrow> x < block_start b + EXT2_BLOCK_SIZE \<Longrightarrow> d' x = d x"
  shows "on_blocks d' bs ess \<and> listing d' (concat ess) = listing d (concat ess)"
  using assms
proof (induction bs arbitrary: ess)
  case (Cons b bs)
  then obtain es ess' where e: "ess = es # ess'" "dir_block d (block_start b) es" "on_blocks d bs ess'"
    by (auto simp: on_blocks_def list_all2_Cons1)
  have "on_blocks d' bs ess' \<and> listing d' (concat ess') = listing d (concat ess')"
    by (rule Cons.IH [OF e(3)]) (rule Cons.prems(2); simp)
  moreover have "dir_block d' (block_start b) es \<and> listing d' es = listing d es"
    by (rule dir_block_cong [OF e(2)]) (rule Cons.prems(2) [of b]; simp)
  ultimately show ?case using e(1) by (simp add: on_blocks_def)
qed (simp add: on_blocks_def)

lemma block_start_in: "dir_block d (block_start b) es \<Longrightarrow> block_ptr b = block_start b"
  by (rule block_ptr_unat) (simp add: dir_block_def)

section \<open>The loop\<close>

definition full :: "disk \<Rightarrow> nat \<Rightarrow> nat list \<Rightarrow> bool" where
  "full d len es \<longleftrightarrow> filter (unused d) es = [] \<and> \<not> room_test d (last es) len"

text \<open>\<open>d'\<close> has the entry \<open>x\<close> in addition, on the same blocks.\<close>

definition entered :: "cstring \<times> u32 \<times> u8 \<Rightarrow> u32 list \<Rightarrow> disk \<Rightarrow> nat list list \<Rightarrow> disk \<Rightarrow> nat list list \<Rightarrow> bool" where
  "entered x bs d ess d' ess' \<longleftrightarrow> on_blocks d' bs ess' \<and>
     (\<exists>l1 l2. listing d (concat ess) = l1 @ l2 \<and> listing d' (concat ess') = l1 @ x # l2) \<and>
     (\<forall>y. outside_blocks bs y \<longrightarrow> d' y = d y)"

lemma entered_Cons:
  assumes "entered x bs d ess d' ess'" and "dir_block d (block_start b) es" and "b \<notin> set bs"
  shows "entered x (b # bs) d (es # ess) d' (es # ess')"
proof -
  obtain l1 l2 where l: "listing d (concat ess) = l1 @ l2" "listing d' (concat ess') = l1 @ x # l2"
    and o: "on_blocks d' bs ess'" "\<And>y. outside_blocks bs y \<Longrightarrow> d' y = d y" using assms(1) by (auto simp: entered_def)
  have "dir_block d' (block_start b) es \<and> listing d' es = listing d es"
  proof (rule dir_block_cong [OF assms(2)])
    fix y assume y: "block_start b \<le> y" "y < block_start b + EXT2_BLOCK_SIZE"
    have "outside_blocks bs y"
      unfolding outside_blocks_def
    proof
      fix c assume "c \<in> set bs"
      then have "b \<noteq> c" using assms(3) by auto
      then show "y < block_start c \<or> block_start c + EXT2_BLOCK_SIZE \<le> y" using block_start_apart [of b c] y by linarith
    qed
    then show "d' y = d y" by (rule o(2))
  qed
  then show ?thesis
    unfolding entered_def
  proof (intro conjI allI impI)
    show "\<exists>k1 k2. listing d (concat (es # ess)) = k1 @ k2 \<and> listing d' (concat (es # ess')) = k1 @ x # k2"
      by (rule exI [of _ "listing d es @ l1"], rule exI [of _ l2]) (use l \<open>_ \<and> _\<close> in simp)
    show "d' y = d y" if "outside_blocks (b # bs) y" for y
      by (rule o(2)) (use that in \<open>simp add: outside_blocks_def\<close>)
  qed (use o(1) in \<open>simp add: on_blocks_def\<close>)
qed

lemma entered_first:
  assumes "dir_block d' (block_start b) es'" "listing d es = l1 @ l2" "listing d' es' = l1 @ x # l2"
    and "\<forall>y. y < block_start b \<or> block_start b + EXT2_BLOCK_SIZE \<le> y \<longrightarrow> d' y = d y"
    and "on_blocks d bs ess" "b \<notin> set bs"
  shows "entered x (b # bs) d (es # ess) d' (es' # ess)"
proof -
  have "on_blocks d' bs ess \<and> listing d' (concat ess) = listing d (concat ess)"
  proof (rule on_blocks_cong [OF assms(5)])
    fix c y assume c: "c \<in> set bs" and y: "block_start c \<le> y" "y < block_start c + EXT2_BLOCK_SIZE"
    have "b \<noteq> c" using c assms(6) by auto
    then show "d' y = d y" using block_start_apart [of b c] y assms(4) by auto
  qed
  then show ?thesis
    unfolding entered_def
  proof (intro conjI allI impI)
    show "\<exists>k1 k2. listing d (concat (es # ess)) = k1 @ k2 \<and> listing d' (concat (es' # ess)) = k1 @ x # k2"
      by (rule exI [of _ l1], rule exI [of _ "l2 @ listing d (concat ess)"]) (use assms \<open>_ \<and> _\<close> in simp)
    show "d' y = d y" if "outside_blocks (b # bs) y" for y
      using that assms(4) by (auto simp: outside_blocks_def)
  qed (use assms \<open>_ \<and> _\<close> in \<open>simp_all add: on_blocks_def\<close>)
qed

lemma try_blocks_run:
  assumes "\<forall>i \<in> set is. i_block inode i + 4 \<le> DISK_SIZE"
    and "on_blocks d (filter (\<lambda>b. b \<noteq> 0) (map (inode_block d inode) is)) ess"
    and "distinct (filter (\<lambda>b. b \<noteq> 0) (map (inode_block d inode) is))"
    and "length nm < 256" "ino \<noteq> 0" "\<forall>es \<in> set ess. roomy d es (length nm)"
  shows "try_blocks (\<lambda>b. allocate_space_in_block (of_nat (length nm)) b ino nm ft) inode is d = Inr (False, d) \<and>
      (\<forall>es \<in> set ess. full d (length nm) es) \<or>
    (\<exists>d' ess'. try_blocks (\<lambda>b. allocate_space_in_block (of_nat (length nm)) b ino nm ft) inode is d = Inr (True, d') \<and>
      entered (nm, ino, ft) (filter (\<lambda>b. b \<noteq> 0) (map (inode_block d inode) is)) d ess d' ess')"
  using assms
proof (induction "is" arbitrary: ess)
  case Nil
  then show ?case by (simp add: on_blocks_def)
next
  case (Cons i "is")
  let ?bs = "filter (\<lambda>b. b \<noteq> 0) (map (inode_block d inode) is)" and ?b = "inode_block d inode i"
  let ?added = "\<lambda>is. try_blocks (\<lambda>b. allocate_space_in_block (of_nat (length nm)) b ino nm ft) inode is d"
  have ld: "ld32 (i_block inode i) d = Inr ?b" using Cons.prems(1) by (simp add: inode_block_def)
  show ?case
  proof (cases "?b = 0")
    case True
    then show ?thesis using Cons ld by simp
  next
    case False
    then obtain es ess' where e: "ess = es # ess'" "dir_block d (block_start ?b) es" "on_blocks d ?bs ess'"
      using Cons.prems(2) by (auto simp: on_blocks_def list_all2_Cons1)
    have nb: "?b \<notin> set ?bs" "distinct ?bs" using Cons.prems(3) False by simp_all
    have bp: "block_ptr ?b = block_start ?b" by (rule block_start_in [OF e(2)])
    consider (no) "allocate_space_in_block (of_nat (length nm)) ?b ino nm ft d = Inr (False, d)" "full d (length nm) es"
      | (yes) d' es' l1 l2 where "allocate_space_in_block (of_nat (length nm)) ?b ino nm ft d = Inr (True, d')"
        "dir_block d' (block_start ?b) es'" "listing d es = l1 @ l2" "listing d' es' = l1 @ (nm, ino, ft) # l2"
        "\<forall>x. x < block_start ?b \<or> block_start ?b + EXT2_BLOCK_SIZE \<le> x \<longrightarrow> d' x = d x"
      using allocate_contract [of d ?b es nm ino ft] e(1,2) Cons.prems(4-6) unfolding bp full_def by auto
    then show ?thesis
    proof cases
      case yes
      have "?added (i # is) = Inr (True, d')" using ld False yes(1) by simp
      then show ?thesis
        using entered_first [OF yes(2-5) e(3) nb(1)] False e(1)
        by (intro disjI2 exI [of _ d'] exI [of _ "es' # ess'"]) simp
    next
      case no
      have t: "?added (i # is) = ?added is" using ld False no(1) by simp
      have "?added is = Inr (False, d) \<and> (\<forall>es \<in> set ess'. full d (length nm) es) \<or>
          (\<exists>d' ess2. ?added is = Inr (True, d') \<and> entered (nm, ino, ft) ?bs d ess' d' ess2)"
        by (rule Cons.IH [OF _ e(3) nb(2) Cons.prems(4,5)]) (use Cons.prems(1,6) e(1) in auto)
      then show ?thesis
      proof (elim disjE exE conjE)
        fix d' ess2 assume "?added is = Inr (True, d')" "entered (nm, ino, ft) ?bs d ess' d' ess2"
        then show ?thesis
          unfolding t using e(1) entered_Cons [OF _ e(2) nb(1)] False
          by (intro disjI2 exI [of _ d'] exI [of _ "es # ess2"]) simp
      qed (use t no(2) e(1) in simp)
    qed
  qed
qed

section \<open>The contract\<close>

lemma dir_ok_blocks: "dir_ok d inode ess \<longleftrightarrow> inode + INODE_SIZE \<le> DISK_SIZE \<and> on_blocks d (dir_blocks d inode) ess"
  by (simp add: dir_ok_def on_blocks_def)

lemma dir_blocks_cong:
  "(\<And>x. i_block inode 0 \<le> x \<Longrightarrow> x < i_block inode 15 \<Longrightarrow> d' x = d x) \<Longrightarrow> dir_blocks d' inode = dir_blocks d inode"
  unfolding dir_blocks_def inode_block_def
  by (intro arg_cong [where f = "filter _"] map_cong refl get_cong)
    (auto simp: i_block_def TOTAL_BLOCK_COUNT_def)

lemma dir_ok_cong:
  assumes "dir_ok d inode ess" and "\<And>x. i_block inode 0 \<le> x \<Longrightarrow> x < i_block inode 15 \<Longrightarrow> d' x = d x"
    and "\<And>b x. b \<in> set (dir_blocks d inode) \<Longrightarrow> block_start b \<le> x \<Longrightarrow> x < block_start b + EXT2_BLOCK_SIZE \<Longrightarrow> d' x = d x"
  shows "dir_ok d' inode ess \<and> listing d' (concat ess) = listing d (concat ess)"
  using on_blocks_cong [of d "dir_blocks d inode" ess d'] assms dir_blocks_cong [of inode d' d]
  unfolding dir_ok_blocks by simp

lemma add_to_blocks_run:
  assumes dir: "dir_ok d inode ess" "dir_sep d inode" and nm: "length nm < 256" "ino \<noteq> 0"
    and roomy: "\<forall>es \<in> set ess. roomy d es (length nm)"
  shows "add_to_blocks inode ino nm ft d = Inr (False, d) \<and> (\<forall>es \<in> set ess. full d (length nm) es) \<or>
    (\<exists>d' ess' l1 l2. add_to_blocks inode ino nm ft d = Inr (True, d') \<and> dir_ok d' inode ess' \<and>
      dir_blocks d' inode = dir_blocks d inode \<and>
      listing d (concat ess) = l1 @ l2 \<and> listing d' (concat ess') = l1 @ (nm, ino, ft) # l2 \<and>
      (\<forall>x. outside_blocks (dir_blocks d inode) x \<longrightarrow> d' x = d x))"
proof -
  have m: "inode + INODE_SIZE \<le> DISK_SIZE" and o: "on_blocks d (dir_blocks d inode) ess" using dir(1) by (auto simp: dir_ok_blocks)
  have i: "\<forall>i \<in> set [0 ..< TOTAL_BLOCK_COUNT]. i_block inode i + 4 \<le> DISK_SIZE"
    using m by (auto simp: i_block_def INODE_SIZE_def TOTAL_BLOCK_COUNT_def)
  have "distinct (dir_blocks d inode)" using dir(2) by (simp add: dir_sep_def)
  note T = try_blocks_run [OF i o [unfolded dir_blocks_def] this [unfolded dir_blocks_def] nm roomy, of ft,
      folded dir_blocks_def add_to_blocks_def]
  have keep: "dir_blocks d' inode = dir_blocks d inode" if "\<forall>y. outside_blocks (dir_blocks d inode) y \<longrightarrow> d' y = d y" for d'
    by (rule dir_blocks_cong) (use that dir(2) in \<open>simp add: dir_sep_def i_block_def INODE_SIZE_def\<close>)
  from T show ?thesis
  proof (elim disjE exE conjE)
    fix d' ess' assume a: "add_to_blocks inode ino nm ft d = Inr (True, d')"
      and e: "entered (nm, ino, ft) (dir_blocks d inode) d ess d' ess'"
    have f: "\<forall>y. outside_blocks (dir_blocks d inode) y \<longrightarrow> d' y = d y" using e by (simp add: entered_def)
    show ?thesis using a e f keep [OF f] m by (auto simp: entered_def dir_ok_blocks)
  qed simp
qed

section \<open>Looking the entry up\<close>

text \<open>A name that is listed once is found, with the inode and type listed.\<close>

lemma listing_find:
  assumes "listing d es = l1 @ (nm, ino, ft) # l2" and "nm \<notin> fst ` set (l1 @ l2)"
  shows "\<exists>e. find (names d nm) es = Some e \<and> entry_view d e = (nm, ino, ft)"
proof -
  have "(nm, ino, ft) \<in> set (listing d es)" using assms(1) by simp
  then obtain a where a: "a \<in> set es" "\<not> unused d a" "entry_view d a = (nm, ino, ft)" by (auto simp: listing_def)
  then have "names d nm a" by (simp add: names_def unused_def entry_view_def)
  then have "find (names d nm) es \<noteq> None" using a(1) by (auto simp: find_None_iff)
  then obtain e where e: "find (names d nm) es = Some e" by blast
  then have n: "e \<in> set es" "names d nm e" by (auto simp: find_Some_iff)
  then have "entry_view d e \<in> set (listing d es)" by (auto simp: listing_def names_def unused_def)
  moreover have "fst (entry_view d e) = nm" using n(2) by (simp add: names_def entry_view_def)
  ultimately have "entry_view d e = (nm, ino, ft)" using assms by force
  then show ?thesis using e by blast
qed

lemma listing_no_name: "find (names d nm) es = None \<longleftrightarrow> nm \<notin> fst ` set (listing d es)"
  by (force simp: find_None_iff listing_def names_def unused_def entry_view_def)

text \<open>Room for an entry depends on the bytes of the block only.\<close>

lemma room_cong:
  assumes "dir_block d a es" and "\<And>x. a \<le> x \<Longrightarrow> x < a + EXT2_BLOCK_SIZE \<Longrightarrow> d' x = d x"
  shows "roomy d' es len = roomy d es len" "full d' len es = full d len es"
proof -
  have e: "e_inode d' p = e_inode d p \<and> e_rec_len d' p = e_rec_len d p \<and> e_name_len d' p = e_name_len d p" if p: "p \<in> set es" for p
  proof -
    have c: "chain_to d a es (a + EXT2_BLOCK_SIZE)" using assms(1) by (simp add: dir_block_def)
    note i = chain_in [OF c p]
    have "8 + unat (e_name_len d p) \<le> e_rec_len d p"
      using i(3) entry_size_bounds(1) [of "e_name_len d p"] by (simp add: entry_fits_def)
    then show ?thesis using i(1,2) assms(2) by (intro conjI entry_cong; simp)
  qed
  have ne: "last es \<in> set es" using dir_block_nonempty [OF assms(1)] by simp
  show "roomy d' es len = roomy d es len"
    using e e [OF ne] by (auto simp: roomy_def unused_def room_test_def room_behind_def)
  show "full d' len es = full d len es"
    using e e [OF ne] by (auto simp: full_def unused_def room_test_def filter_empty_conv)
qed

lemma rooms_cong:
  assumes "on_blocks d bs ess" and "\<And>b x. b \<in> set bs \<Longrightarrow> block_start b \<le> x \<Longrightarrow> x < block_start b + EXT2_BLOCK_SIZE \<Longrightarrow> d' x = d x"
    and "es \<in> set ess"
  shows "roomy d' es len = roomy d es len" "full d' len es = full d len es"
proof -
  obtain b where b: "b \<in> set bs" "dir_block d (block_start b) es"
  proof -
    obtain i where i: "i < length ess" "es = ess ! i" using assms(3) by (auto simp: in_set_conv_nth)
    then have "i < length bs" "dir_block d (block_start (bs ! i)) es"
      using assms(1) by (auto simp: on_blocks_def list_all2_conv_all_nth)
    then show ?thesis using that nth_mem by blast
  qed
  show "roomy d' es len = roomy d es len" "full d' len es = full d len es"
    by (rule room_cong [OF b(2)]; use assms(2) b(1) in simp)+
qed

end
