(* ===== verification/Ext2_Bits.thy ===== *)
theory Ext2_Bits
  imports Ext2_General
begin

text \<open>
  The bitmaps of blocks and inodes as sets of marked numbers: \<open>update_bitmap\<close> marks
  or unmarks one number and keeps both free counts equal to the number of
  unmarked ones; the searches return the least number that is not marked.
\<close>

section \<open>Marked numbers\<close>

definition bitmap_addr :: "char \<Rightarrow> disk \<Rightarrow> nat" where
  "bitmap_addr ty d = block_ptr (get 4 (if ty = CHR ''b'' then bg_block_bitmap get_group_descriptor
     else bg_inode_bitmap get_group_descriptor) d)"

text \<open>Bit \<open>i\<close> of the bitmap stands for the number \<open>i + 1\<close>.\<close>

definition marked :: "char \<Rightarrow> disk \<Rightarrow> nat \<Rightarrow> bool" where
  "marked ty d i \<longleftrightarrow> bit (d (bitmap_addr ty d + i div 8)) (i mod 8)"

definition BITS :: nat where "BITS = 8 * EXT2_BLOCK_SIZE"

text \<open>The bitmap is a block behind the group descriptor.\<close>

definition bitmap_ok :: "char \<Rightarrow> disk \<Rightarrow> bool" where
  "bitmap_ok ty d \<longleftrightarrow> 3 * EXT2_BLOCK_SIZE \<le> bitmap_addr ty d \<and> bitmap_addr ty d + EXT2_BLOCK_SIZE \<le> DISK_SIZE"

definition sb_free :: "char \<Rightarrow> nat" where
  "sb_free ty = (if ty = CHR ''b'' then s_free_blocks_count get_super_block else s_free_inodes_count get_super_block)"

definition gd_free :: "char \<Rightarrow> nat" where
  "gd_free ty = (if ty = CHR ''b'' then bg_free_blocks_count get_group_descriptor
     else bg_free_inodes_count get_group_descriptor)"

lemma bit_word_1: "bit (1 :: 'a::len word) n \<longleftrightarrow> n = 0"
  by (auto simp: bit_1_iff)

lemma low_bit: "drop_bit k w AND 1 = (0 :: u8) \<longleftrightarrow> \<not> bit w k"
proof
  assume z: "drop_bit k w AND 1 = 0"
  have "bit (drop_bit k w AND 1) 0 \<longleftrightarrow> bit w k" by (simp add: bit_simps)
  then show "\<not> bit w k" unfolding z by simp
next
  assume "\<not> bit w k"
  then have "\<not> bit (drop_bit k w AND 1) n" for n by (cases n) (auto simp: bit_simps bit_word_1)
  then show "drop_bit k w AND 1 = 0" by (intro bit_word_eqI) simp
qed

lemma bit_set: "k < 8 \<Longrightarrow> bit (w OR push_bit k 1 :: u8) j \<longleftrightarrow> bit w j \<or> j = k"
  by (auto simp: bit_simps bit_word_1)

lemma bit_clear: "k < 8 \<Longrightarrow> j < 8 \<Longrightarrow> bit (w AND NOT (push_bit k 1) :: u8) j \<longleftrightarrow> bit w j \<and> j \<noteq> k"
  by (auto simp: bit_simps bit_word_1)

lemma bitmap_ptr_run: "bitmap_ptr ty d = Inr (bitmap_addr ty d)"
  by (simp add: bitmap_ptr_def bitmap_addr_def field_defs get_group_descriptor_def disk_size)

section \<open>The counts\<close>

lemma counts_below: "sb_free ty + 4 \<le> 2 * EXT2_BLOCK_SIZE" "2 * EXT2_BLOCK_SIZE \<le> gd_free ty"
  "gd_free ty + 2 \<le> 2 * EXT2_BLOCK_SIZE + 16" "2 * EXT2_BLOCK_SIZE + 12 \<le> gd_free ty"
  by (simp_all add: sb_free_def gd_free_def field_defs get_super_block_def get_group_descriptor_def EXT2_BLOCK_SIZE_def)

text \<open>The disk with the two counts changed by \<open>x\<close>.\<close>

definition recount :: "char \<Rightarrow> int \<Rightarrow> disk \<Rightarrow> disk" where
  "recount ty x d =
    (let d1 = put (sb_free ty) (store_le 4 (get 4 (sb_free ty) d + of_int x :: u32)) d in
     put (gd_free ty) (store_le 2 (get 2 (gd_free ty) d + of_int x :: u16)) d1)"

lemma add_free_counts_run: "add_free_counts ty x d = Inr (recount ty x d)"
proof -
  have b: "sb_free ty + 4 \<le> DISK_SIZE" "gd_free ty + 2 \<le> DISK_SIZE" "sb_free ty + 4 \<le> gd_free ty"
    using counts_below [of ty] by (simp_all add: disk_size)
  have "add_free_counts ty x d = bindE (add32 (sb_free ty) (of_int x) d) (add16 (gd_free ty) (of_int x))"
    by (simp add: add_free_counts_def sb_free_def gd_free_def)
  also have "\<dots> = Inr (recount ty x d)"
    using b by (simp add: add32_def add16_def recount_def Let_def get_put_other)
  finally show ?thesis .
qed

lemma recount_counts:
  "get 4 (sb_free ty) (recount ty x d) = (get 4 (sb_free ty) d + of_int x :: u32)"
  "get 2 (gd_free ty) (recount ty x d) = (get 2 (gd_free ty) d + of_int x :: u16)"
  using counts_below [of ty] by (simp_all add: recount_def Let_def get_put_other get_put_same)

lemma recount_other:
  assumes "a < sb_free ty \<or> sb_free ty + 4 \<le> a" and "a < gd_free ty \<or> gd_free ty + 2 \<le> a"
  shows "recount ty x d a = d a"
  using assms by (auto simp: recount_def Let_def put_outside)

section \<open>\<open>update_bitmap\<close>\<close>

text \<open>What \<open>update_bitmap\<close> does to the disk.\<close>

definition with_bit :: "char \<Rightarrow> nat \<Rightarrow> bool \<Rightarrow> disk \<Rightarrow> disk" where
  "with_bit ty i v d =
    (let d1 = (if marked ty d i = v then d else recount ty (if v then -1 else 1) d); a = bitmap_addr ty d + i div 8 in
     put a [if v then d a OR push_bit (i mod 8) 1 else d a AND NOT (push_bit (i mod 8) 1)] d1)"

lemma store_le_1: "store_le 1 (w :: u8) = [w]"
  by (simp add: numeral_eq_Suc)

lemma bitmap_byte:
  assumes "bitmap_ok ty d" and "i < BITS"
  shows "3 * EXT2_BLOCK_SIZE \<le> bitmap_addr ty d + i div 8" "bitmap_addr ty d + i div 8 + 1 \<le> DISK_SIZE"
proof -
  have "i div 8 < EXT2_BLOCK_SIZE" using assms(2) by (simp add: BITS_def less_mult_imp_div_less mult.commute)
  then show "3 * EXT2_BLOCK_SIZE \<le> bitmap_addr ty d + i div 8" "bitmap_addr ty d + i div 8 + 1 \<le> DISK_SIZE"
    using assms(1) by (simp_all add: bitmap_ok_def)
qed

lemma recount_high: "2 * EXT2_BLOCK_SIZE + 16 \<le> a \<Longrightarrow> recount ty x d a = d a"
  using counts_below [of ty] by (intro recount_other) auto

lemma update_bitmap_run:
  assumes ok: "bitmap_ok ty d" and n: "num \<noteq> 0" "unat num \<le> BITS"
  shows "update_bitmap ty num v d = Inr (with_bit ty (unat num - 1) v d)"
proof -
  let ?i = "unat num - 1" let ?a = "bitmap_addr ty d + ?i div 8" let ?k = "?i mod 8"
  have i: "unat (TO_INDEX num) = ?i" using n(1) by (simp add: TO_INDEX_def unat_minus_one)
  have "0 < unat num" using n(1) by (simp add: unat_gt_0)
  then have "?i < BITS" using n(2) by simp
  then have a: "3 * EXT2_BLOCK_SIZE \<le> ?a" "?a + 1 \<le> DISK_SIZE" by (rule bitmap_byte [OF ok])+
  have same: "recount ty x d ?a = d ?a" for x
    using a(1) by (intro recount_high) (simp add: EXT2_BLOCK_SIZE_def)
  have ld: "ld8 ?a d = Inr (d ?a)" "ld8 ?a (recount ty x d) = Inr (d ?a)" for x
    using a(2) get_1 [of ?a] same [of x] by (simp_all del: One_nat_def)
  have st: "st8 ?a w e = Inr (put ?a [w] e)" for w e
    using a(2) store_le_1 [of w] by (simp del: One_nat_def)
  show ?thesis
    using n(1) unfolding update_bitmap_def bitmap_ptr_run with_bit_def Let_def bindE_Inr i ld low_bit add_free_counts_run
    by (cases v; cases "marked ty d ?i") (simp_all add: marked_def ld st del: One_nat_def)
qed

lemma bitmap_addr_cong:
  "(\<And>a. 2 * EXT2_BLOCK_SIZE \<le> a \<Longrightarrow> a < 2 * EXT2_BLOCK_SIZE + 8 \<Longrightarrow> d' a = d a) \<Longrightarrow> bitmap_addr ty d' = bitmap_addr ty d"
  unfolding bitmap_addr_def
  by (intro arg_cong [where f = block_ptr] get_cong) (auto simp: field_defs get_group_descriptor_def)

lemma with_bit_other:
  assumes "bitmap_ok ty d" "i < BITS" "a \<noteq> bitmap_addr ty d + i div 8"
    and "a < sb_free ty \<or> sb_free ty + 4 \<le> a" and "a < gd_free ty \<or> gd_free ty + 2 \<le> a"
  shows "with_bit ty i v d a = d a"
  using assms(3) recount_other [OF assms(4,5)] by (simp add: with_bit_def Let_def put_single)

lemma with_bit_addr:
  assumes "bitmap_ok ty d" "i < BITS"
  shows "bitmap_addr ty' (with_bit ty i v d) = bitmap_addr ty' d"
proof (rule bitmap_addr_cong)
  fix a assume a: "2 * EXT2_BLOCK_SIZE \<le> a" "a < 2 * EXT2_BLOCK_SIZE + 8"
  show "with_bit ty i v d a = d a"
    using bitmap_byte [OF assms] a counts_below [of ty] by (intro with_bit_other [OF assms]) (auto simp: EXT2_BLOCK_SIZE_def)
qed

lemma with_bit_ok: "bitmap_ok ty d \<Longrightarrow> i < BITS \<Longrightarrow> bitmap_ok ty' (with_bit ty i v d) = bitmap_ok ty' d"
  by (simp add: bitmap_ok_def with_bit_addr)

lemma with_bit_marked:
  assumes ok: "bitmap_ok ty d" and i: "i < BITS" and j: "j < BITS"
  shows "marked ty (with_bit ty i v d) j \<longleftrightarrow> (if j = i then v else marked ty d j)"
proof -
  let ?a = "\<lambda>i. bitmap_addr ty d + i div 8"
  have at: "with_bit ty i v d (?a i) = (if v then d (?a i) OR push_bit (i mod 8) 1 else d (?a i) AND NOT (push_bit (i mod 8) 1))"
    by (simp add: with_bit_def Let_def put_single)
  have "with_bit ty i v d (?a j) = d (?a j)" if "j div 8 \<noteq> i div 8"
    using bitmap_byte [OF ok j] that counts_below [of ty] by (intro with_bit_other [OF ok i]) (auto simp: EXT2_BLOCK_SIZE_def)
  moreover have "j = i \<longleftrightarrow> j div 8 = i div 8 \<and> j mod 8 = i mod 8" by (metis div_mult_mod_eq)
  ultimately show ?thesis
    unfolding marked_def with_bit_addr [OF ok i] using at bit_set [of "i mod 8"] bit_clear [of "i mod 8" "j mod 8"]
    by (cases "j div 8 = i div 8") auto
qed

section \<open>Free counts\<close>

definition unmarked :: "char \<Rightarrow> nat \<Rightarrow> disk \<Rightarrow> nat set" where
  "unmarked ty n d = {i. i < n \<and> \<not> marked ty d i}"

text \<open>Both counts are the number of unmarked bits among the first \<open>n\<close>.\<close>

definition counts_ok :: "char \<Rightarrow> nat \<Rightarrow> disk \<Rightarrow> bool" where
  "counts_ok ty n d \<longleftrightarrow> bitmap_ok ty d \<and> n \<le> BITS \<and>
     unat (get 4 (sb_free ty) d :: u32) = card (unmarked ty n d) \<and>
     unat (get 2 (gd_free ty) d :: u16) = card (unmarked ty n d)"

lemma finite_unmarked [simp]: "finite (unmarked ty n d)"
  by (simp add: unmarked_def)

lemma card_unmarked: "card (unmarked ty n d) \<le> n"
  using card_mono [of "{..< n}" "unmarked ty n d"] by (auto simp: unmarked_def)

lemma with_bit_counts:
  assumes "bitmap_ok ty d" "i < BITS"
  shows "get 4 (sb_free ty) (with_bit ty i v d) =
      (get 4 (sb_free ty) d + (if marked ty d i = v then 0 else if v then -1 else 1) :: u32)"
    and "get 2 (gd_free ty) (with_bit ty i v d) =
      (get 2 (gd_free ty) d + (if marked ty d i = v then 0 else if v then -1 else 1) :: u16)"
  using bitmap_byte [OF assms] counts_below [of ty]
  by (simp_all add: with_bit_def Let_def get_put_other recount_counts EXT2_BLOCK_SIZE_def)

lemma unat_dec: "unat w = n \<Longrightarrow> 0 < n \<Longrightarrow> unat (w - 1) = n - 1" for w :: "'a::len word"
  by (metis less_numeral_extra(3) unat_0 unat_minus_one)

lemma unat_inc: "unat w = n \<Longrightarrow> Suc n < 2 ^ LENGTH('a) \<Longrightarrow> unat (w + 1) = Suc n" for w :: "'a::len word"
  by (metis Suc_eq_plus1 unat_1 unat_add_lem)

lemma with_bit_counts_ok:
  assumes ok: "counts_ok ty n d" and i: "i < n"
  shows "counts_ok ty n (with_bit ty i v d)"
proof -
  have o: "bitmap_ok ty d" "n \<le> BITS" "i < BITS" using ok i by (auto simp: counts_ok_def)
  let ?d = "with_bit ty i v d"
  have m: "unmarked ty n ?d = (if v then unmarked ty n d - {i} else insert i (unmarked ty n d))"
    using with_bit_marked [OF o(1,3)] o(2) i unfolding unmarked_def by (auto split: if_split_asm)
  have in_u: "i \<in> unmarked ty n d \<longleftrightarrow> \<not> marked ty d i" using i by (simp add: unmarked_def)
  have le: "card (unmarked ty n ?d) \<le> 8192" using card_unmarked [of ty n ?d] o(2) by (simp add: BITS_def EXT2_BLOCK_SIZE_def)
  have c: "unat (get 4 (sb_free ty) d :: u32) = card (unmarked ty n d)" "unat (get 2 (gd_free ty) d :: u16) = card (unmarked ty n d)"
    using ok by (simp_all add: counts_ok_def)
  show ?thesis
  proof (cases "marked ty d i = v")
    case True
    then have "unmarked ty n ?d = unmarked ty n d" using m in_u by auto
    then show ?thesis using ok with_bit_counts [OF o(1,3), of v] True with_bit_ok [OF o(1,3)] by (simp add: counts_ok_def)
  next
    case False
    show ?thesis
    proof (cases v)
      case True
      then have "i \<in> unmarked ty n d" "0 < card (unmarked ty n d)" using False in_u by (auto simp: card_gt_0_iff)
      then show ?thesis using True False with_bit_counts [OF o(1,3), of v] with_bit_ok [OF o(1,3)] m o
          unat_dec [OF c(1)] unat_dec [OF c(2)] by (simp add: counts_ok_def)
    next
      case v: False
      then have "i \<notin> unmarked ty n d" using False in_u by auto
      then have s: "card (unmarked ty n ?d) = Suc (card (unmarked ty n d))" using m v by simp
      then show ?thesis using v False with_bit_counts [OF o(1,3), of v] with_bit_ok [OF o(1,3)] o le
          unat_inc [OF c(1)] unat_inc [OF c(2)] by (simp add: counts_ok_def)
    qed
  qed
qed

section \<open>The searches\<close>

lemma scan_bits_run:
  assumes ok: "bitmap_ok ty d" and "k \<le> n" "n \<le> BITS"
  shows "scan_bits (bitmap_addr ty d) [k ..< n] d =
    Inr (if unmarked ty n d \<inter> {k ..} = {} then 0 else TO_NUMBER (Min (unmarked ty n d \<inter> {k ..})))"
  using assms(2,3)
proof (induction "n - k" arbitrary: k)
  case 0
  then show ?case by (auto simp: unmarked_def)
next
  case (Suc m)
  have k: "k < n" "k < BITS" using Suc.hyps(2) Suc.prems by auto
  let ?U = "\<lambda>k. unmarked ty n d \<inter> {k ..}"
  have ld: "ld8 (bitmap_addr ty d + k div 8) d = Inr (d (bitmap_addr ty d + k div 8))"
    using bitmap_byte(2) [OF ok k(2)] get_1 by (simp del: One_nat_def)
  show ?case
  proof (cases "marked ty d k")
    case True
    then have "?U k = ?U (Suc k)" by (auto simp: unmarked_def Suc_le_eq le_less)
    moreover have "scan_bits (bitmap_addr ty d) [Suc k ..< n] d =
        Inr (if ?U (Suc k) = {} then 0 else TO_NUMBER (Min (?U (Suc k))))"
      using Suc by simp
    ultimately show ?thesis
      using True k(1) ld by (simp add: upt_conv_Cons low_bit marked_def del: One_nat_def)
  next
    case False
    then have "k \<in> ?U k" using k by (simp add: unmarked_def)
    moreover from this have "Min (?U k) = k" by (intro Min_eqI) auto
    ultimately show ?thesis
      using False k(1) ld by (auto simp: upt_conv_Cons low_bit marked_def simp del: One_nat_def)
  qed
qed

definition block_count :: "disk \<Rightarrow> nat" where
  "block_count d = unat (get 4 (s_blocks_count get_super_block) d :: u32)"

definition inode_count :: "disk \<Rightarrow> nat" where
  "inode_count d = unat (get 4 (s_inodes_count get_super_block) d :: u32)"

lemma find_free_block_run:
  assumes "bitmap_ok CHR ''b'' d" and "block_count d \<le> BITS"
  shows "find_free_block d = Inr (if unmarked CHR ''b'' (block_count d) d = {} then 0
    else TO_NUMBER (Min (unmarked CHR ''b'' (block_count d) d)))"
  using scan_bits_run [OF assms(1) le0 assms(2)]
  by (simp add: find_free_block_def bitmap_ptr_run block_count_def field_defs get_super_block_def disk_size)

lemma find_free_inode_run:
  assumes "bitmap_ok CHR ''i'' d" and "EXT2_GOOD_OLD_FIRST_INO \<le> inode_count d" "inode_count d \<le> BITS"
  shows "find_free_inode d =
    Inr (if unmarked CHR ''i'' (inode_count d) d \<inter> {EXT2_GOOD_OLD_FIRST_INO ..} = {} then 0
      else TO_NUMBER (Min (unmarked CHR ''i'' (inode_count d) d \<inter> {EXT2_GOOD_OLD_FIRST_INO ..})))"
  using scan_bits_run [OF assms]
  by (simp add: find_free_inode_def bitmap_ptr_run inode_count_def field_defs get_super_block_def disk_size)

end
