(* ===== verification/Ext2_Layout.thy ===== *)
theory Ext2_Layout
  imports Ext2_Bits
begin

text \<open>
  A well-formed image: the bitmaps lie between the group descriptor and the table of
  inodes, the blocks that are not marked behind the table, and the free counts agree
  with the bitmaps.  Marking a block changes bytes below the table only; all of this
  depends on bytes below the table only.
\<close>

section \<open>Layout\<close>

definition table_addr :: "disk \<Rightarrow> nat" where
  "table_addr d = block_ptr (get 4 (bg_inode_table get_group_descriptor) d)"

definition table_end :: "disk \<Rightarrow> nat" where
  "table_end d = table_addr d + inode_count d * INODE_SIZE"

text \<open>The bits of the blocks and inodes that are not marked; block \<open>i + 1\<close> is at \<open>block_at i\<close>.\<close>

definition free_blocks :: "disk \<Rightarrow> nat set" where
  "free_blocks d = unmarked CHR ''b'' (block_count d) d"

definition free_inodes :: "disk \<Rightarrow> nat set" where
  "free_inodes d = unmarked CHR ''i'' (inode_count d) d \<inter> {EXT2_GOOD_OLD_FIRST_INO ..}"

definition block_at :: "nat \<Rightarrow> nat" where
  "block_at i = EXT2_BLOCK_SIZE * (i + 1)"

definition fs_ok :: "disk \<Rightarrow> bool" where
  "fs_ok d \<longleftrightarrow>
     counts_ok CHR ''b'' (block_count d) d \<and> counts_ok CHR ''i'' (inode_count d) d \<and>
     EXT2_GOOD_OLD_FIRST_INO \<le> inode_count d \<and>
     (bitmap_addr CHR ''b'' d + EXT2_BLOCK_SIZE \<le> bitmap_addr CHR ''i'' d \<or>
      bitmap_addr CHR ''i'' d + EXT2_BLOCK_SIZE \<le> bitmap_addr CHR ''b'' d) \<and>
     bitmap_addr CHR ''b'' d + EXT2_BLOCK_SIZE \<le> table_addr d \<and>
     bitmap_addr CHR ''i'' d + EXT2_BLOCK_SIZE \<le> table_addr d \<and>
     table_end d \<le> DISK_SIZE \<and>
     (\<forall>i \<in> free_blocks d. table_end d \<le> block_at i \<and> block_at i + EXT2_BLOCK_SIZE \<le> DISK_SIZE)"

lemma fs_okD:
  assumes "fs_ok d"
  shows "bitmap_ok CHR ''b'' d" "bitmap_ok CHR ''i'' d" "block_count d \<le> BITS" "inode_count d \<le> BITS"
    "EXT2_GOOD_OLD_FIRST_INO \<le> inode_count d" "4 * EXT2_BLOCK_SIZE \<le> table_addr d" "table_end d \<le> DISK_SIZE"
    "bitmap_addr CHR ''b'' d + EXT2_BLOCK_SIZE \<le> table_addr d" "bitmap_addr CHR ''i'' d + EXT2_BLOCK_SIZE \<le> table_addr d"
  using assms by (auto simp: fs_ok_def counts_ok_def bitmap_ok_def)

lemma fs_ok_free:
  assumes "fs_ok d" and "i \<in> free_blocks d"
  shows "table_end d \<le> block_at i" "block_at i + EXT2_BLOCK_SIZE \<le> DISK_SIZE"
  using assms by (auto simp: fs_ok_def)

lemma finite_free_blocks [simp]: "finite (free_blocks d)"
  by (simp add: free_blocks_def)

lemma block_ptr_number: "block_at i + EXT2_BLOCK_SIZE \<le> DISK_SIZE \<Longrightarrow> block_ptr (TO_NUMBER i) = block_at i"
proof -
  assume "block_at i + EXT2_BLOCK_SIZE \<le> DISK_SIZE"
  then have i: "1024 * (i + 1) < 2 ^ 32" by (simp add: block_at_def disk_size)
  have "of_nat EXT2_BLOCK_SIZE * TO_NUMBER i = (of_nat (1024 * (i + 1)) :: u32)"
    unfolding TO_NUMBER_def EXT2_BLOCK_SIZE_def by (simp only: of_nat_mult)
  then show ?thesis
    using i unfolding block_ptr_def block_at_def EXT2_BLOCK_SIZE_def by (simp only: unat_of_nat) simp
qed

lemma to_number_nonzero: "block_at i + EXT2_BLOCK_SIZE \<le> DISK_SIZE \<Longrightarrow> TO_NUMBER i \<noteq> 0"
  using block_ptr_number [of i] by (auto simp: block_ptr_def block_at_def EXT2_BLOCK_SIZE_def)

lemma unat_to_number: "i < BITS \<Longrightarrow> unat (TO_NUMBER i) = i + 1"
  unfolding TO_NUMBER_def by (simp only: unat_of_nat) (simp add: BITS_def EXT2_BLOCK_SIZE_def)

lemma block_at_apart: "i \<noteq> j \<Longrightarrow> block_at i + EXT2_BLOCK_SIZE \<le> block_at j \<or> block_at j + EXT2_BLOCK_SIZE \<le> block_at i"
  by (auto simp: block_at_def EXT2_BLOCK_SIZE_def)

section \<open>What the layout depends on\<close>

definition same_low :: "disk \<Rightarrow> disk \<Rightarrow> bool" where
  "same_low d d' \<longleftrightarrow> (\<forall>a. a < table_addr d \<longrightarrow> d' a = d a)"

lemma same_low_refl [simp]: "same_low d d"
  by (simp add: same_low_def)

lemma low_get:
  assumes "same_low d d'" and "a + n \<le> table_addr d"
  shows "get n a d' = get n a d"
  using assms by (intro get_cong) (auto simp: same_low_def)

lemma low_fields:
  assumes "fs_ok d" and "same_low d d'"
  shows "table_addr d' = table_addr d" "inode_count d' = inode_count d" "block_count d' = block_count d"
    "bitmap_addr ty d' = bitmap_addr ty d" "table_end d' = table_end d"
proof -
  have a: "4096 \<le> table_addr d" using fs_okD(6) [OF assms(1)] by (simp add: EXT2_BLOCK_SIZE_def)
  note g = low_get [OF assms(2)]
  show t: "table_addr d' = table_addr d"
    using a by (simp add: table_addr_def [of d'] g field_defs get_group_descriptor_def EXT2_BLOCK_SIZE_def)
      (simp add: table_addr_def field_defs get_group_descriptor_def EXT2_BLOCK_SIZE_def)
  show i: "inode_count d' = inode_count d" "block_count d' = block_count d"
    using a by (simp_all add: inode_count_def block_count_def g field_defs get_super_block_def EXT2_BLOCK_SIZE_def)
  show "bitmap_addr ty d' = bitmap_addr ty d"
    using a by (simp add: bitmap_addr_def g field_defs get_group_descriptor_def EXT2_BLOCK_SIZE_def)
  show "table_end d' = table_end d" using t i by (simp add: table_end_def)
qed

lemma low_marked:
  assumes "fs_ok d" and "same_low d d'" and "i < BITS" and "ty = CHR ''b'' \<or> ty = CHR ''i''"
  shows "marked ty d' i = marked ty d i"
proof -
  have b: "bitmap_ok ty d" "bitmap_addr ty d + EXT2_BLOCK_SIZE \<le> table_addr d" using fs_okD [OF assms(1)] assms(4) by auto
  have "i div 8 < EXT2_BLOCK_SIZE" using assms(3) by (simp add: BITS_def less_mult_imp_div_less mult.commute)
  then have "d' (bitmap_addr ty d + i div 8) = d (bitmap_addr ty d + i div 8)"
    using assms(2) b(2) by (simp add: same_low_def)
  then show ?thesis using low_fields(4) [OF assms(1,2)] by (simp add: marked_def)
qed

lemma low_unmarked:
  assumes "fs_ok d" and "same_low d d'" and "n \<le> BITS" and "ty = CHR ''b'' \<or> ty = CHR ''i''"
  shows "unmarked ty n d' = unmarked ty n d"
  using low_marked [OF assms(1,2) _ assms(4)] assms(3) by (auto simp: unmarked_def)

lemma low_fs:
  assumes ok: "fs_ok d" and low: "same_low d d'"
  shows "fs_ok d'" "free_blocks d' = free_blocks d" "free_inodes d' = free_inodes d"
proof -
  note f = low_fields [OF ok low] and u = low_unmarked [OF ok low]
  have a: "4096 \<le> table_addr d" using fs_okD(6) [OF ok] by (simp add: EXT2_BLOCK_SIZE_def)
  show fb: "free_blocks d' = free_blocks d" "free_inodes d' = free_inodes d"
    using u fs_okD(3,4) [OF ok] f by (simp_all add: free_blocks_def free_inodes_def)
  have c: "counts_ok ty n d' = counts_ok ty n d" if "n \<le> BITS" "ty = CHR ''b'' \<or> ty = CHR ''i''" for ty n
  proof -
    have "get 4 (sb_free ty) d' = (get 4 (sb_free ty) d :: u32)" "get 2 (gd_free ty) d' = (get 2 (gd_free ty) d :: u16)"
      using a counts_below [of ty] by (intro low_get [OF low]; simp add: EXT2_BLOCK_SIZE_def)+
    then show ?thesis using u [OF that] f by (simp add: counts_ok_def bitmap_ok_def)
  qed
  show "fs_ok d'"
    using ok c fs_okD(3,4) [OF ok] f fb by (simp add: fs_ok_def)
qed

text \<open>A store behind the bitmaps keeps everything below the table.\<close>

lemma same_low_put: "table_addr d \<le> a \<Longrightarrow> same_low e d \<Longrightarrow> table_addr e = table_addr d \<Longrightarrow> same_low e (put a bs d)"
  by (auto simp: same_low_def put_outside)

section \<open>Marking\<close>

text \<open>Marking or unmarking in one bitmap keeps the other one and everything behind.\<close>

lemma with_bit_above:
  assumes "bitmap_ok ty d" "i < BITS" and "bitmap_addr ty d + EXT2_BLOCK_SIZE \<le> a"
  shows "with_bit ty i v d a = d a"
proof (rule with_bit_other [OF assms(1,2)])
  have "i div 8 < EXT2_BLOCK_SIZE" using assms(2) by (simp add: BITS_def less_mult_imp_div_less mult.commute)
  then show "a \<noteq> bitmap_addr ty d + i div 8" using assms(3) by simp
  have "3 * EXT2_BLOCK_SIZE \<le> bitmap_addr ty d" using assms(1) by (simp add: bitmap_ok_def)
  then show "a < sb_free ty \<or> sb_free ty + 4 \<le> a" "a < gd_free ty \<or> gd_free ty + 2 \<le> a"
    using counts_below [of ty] assms(3) by (auto simp: EXT2_BLOCK_SIZE_def)
qed

lemma other_counts:
  assumes "ty \<noteq> ty'" "ty = CHR ''b'' \<or> ty = CHR ''i''" "ty' = CHR ''b'' \<or> ty' = CHR ''i''"
  shows "sb_free ty + 4 \<le> sb_free ty' \<or> sb_free ty' + 4 \<le> sb_free ty"
    "gd_free ty + 2 \<le> gd_free ty' \<or> gd_free ty' + 2 \<le> gd_free ty"
  using assms by (auto simp: sb_free_def gd_free_def field_defs)

lemma with_bit_fixed:
  assumes "bitmap_ok ty d" "i < BITS" and "a < 1024 + 12 \<or> 1024 + 20 \<le> a \<and> a < 2048 + 12"
  shows "with_bit ty i v d a = d a"
  using bitmap_byte [OF assms(1,2)] assms(3)
  by (intro with_bit_other [OF assms(1,2)])
    (auto simp: sb_free_def gd_free_def field_defs get_super_block_def get_group_descriptor_def EXT2_BLOCK_SIZE_def)

lemma with_bit_fields:
  assumes "bitmap_ok ty d" "i < BITS"
  shows "table_addr (with_bit ty i v d) = table_addr d" "inode_count (with_bit ty i v d) = inode_count d"
    "block_count (with_bit ty i v d) = block_count d" "table_end (with_bit ty i v d) = table_end d"
proof -
  have g: "get 4 a (with_bit ty i v d) = get 4 a d" if "a + 4 \<le> 1036 \<or> 1044 \<le> a \<and> a + 4 \<le> 2060" for a
    using that by (intro get_cong with_bit_fixed [OF assms]) auto
  show 1: "table_addr (with_bit ty i v d) = table_addr d" "inode_count (with_bit ty i v d) = inode_count d"
    "block_count (with_bit ty i v d) = block_count d"
    by (simp_all add: table_addr_def inode_count_def block_count_def field_defs get_super_block_def
        get_group_descriptor_def EXT2_BLOCK_SIZE_def g)
  show "table_end (with_bit ty i v d) = table_end d" by (simp add: table_end_def 1)
qed

text \<open>The other bitmap and its counts.\<close>

lemma with_bit_other_bitmap:
  assumes "bitmap_ok ty d" "bitmap_ok ty' d" "i < BITS" and ty: "ty \<noteq> ty'" "ty = CHR ''b'' \<or> ty = CHR ''i''" "ty' = CHR ''b'' \<or> ty' = CHR ''i''"
    and ap: "bitmap_addr ty d + EXT2_BLOCK_SIZE \<le> bitmap_addr ty' d \<or> bitmap_addr ty' d + EXT2_BLOCK_SIZE \<le> bitmap_addr ty d"
    and n: "n \<le> BITS"
  shows "unmarked ty' n (with_bit ty i v d) = unmarked ty' n d" "counts_ok ty' n (with_bit ty i v d) = counts_ok ty' n d"
proof -
  let ?d = "with_bit ty i v d"
  have div: "k div 8 < EXT2_BLOCK_SIZE" if "k < BITS" for k
    using that by (simp add: BITS_def less_mult_imp_div_less mult.commute)
  have lo: "3 * EXT2_BLOCK_SIZE \<le> bitmap_addr ty' d" "3 * EXT2_BLOCK_SIZE \<le> bitmap_addr ty d"
    using assms(1,2) by (simp_all add: bitmap_ok_def)
  have "?d (bitmap_addr ty' d + j div 8) = d (bitmap_addr ty' d + j div 8)" if "j < BITS" for j
  proof (rule with_bit_other [OF assms(1,3)])
    show "bitmap_addr ty' d + j div 8 \<noteq> bitmap_addr ty d + i div 8" using ap div [OF that] div [OF assms(3)] by linarith
    show "bitmap_addr ty' d + j div 8 < sb_free ty \<or> sb_free ty + 4 \<le> bitmap_addr ty' d + j div 8"
      "bitmap_addr ty' d + j div 8 < gd_free ty \<or> gd_free ty + 2 \<le> bitmap_addr ty' d + j div 8"
      using lo(1) counts_below [of ty] by (auto simp: EXT2_BLOCK_SIZE_def)
  qed
  then have m: "marked ty' ?d j = marked ty' d j" if "j < BITS" for j
    using that by (simp add: marked_def with_bit_addr [OF assms(1,3)])
  show u: "unmarked ty' n ?d = unmarked ty' n d" using m n by (auto simp: unmarked_def)
  have out: "?d a = d a"
    if "a < sb_free ty \<or> sb_free ty + 4 \<le> a" "a < gd_free ty \<or> gd_free ty + 2 \<le> a" "a < 3 * EXT2_BLOCK_SIZE" for a
    using that lo(2) by (intro with_bit_other [OF assms(1,3)]) auto
  have "get 4 (sb_free ty') ?d = (get 4 (sb_free ty') d :: u32)" "get 2 (gd_free ty') ?d = (get 2 (gd_free ty') d :: u16)"
    using other_counts [OF ty] counts_below [of ty] counts_below [of ty']
    by (intro get_cong out; simp add: EXT2_BLOCK_SIZE_def; linarith)+
  then show "counts_ok ty' n ?d = counts_ok ty' n d"
    using u with_bit_ok [OF assms(1,3)] by (simp add: counts_ok_def)
qed

section \<open>Taking a block or an inode\<close>

lemma with_bit_unmarked:
  assumes "bitmap_ok ty d" "i < n" "n \<le> BITS"
  shows "unmarked ty n (with_bit ty i True d) = unmarked ty n d - {i}"
  using with_bit_marked [OF assms(1), of i _ True] assms(2,3) unfolding unmarked_def by (auto split: if_split_asm)

lemma mark_block:
  assumes ok: "fs_ok d" and i: "i < block_count d"
  defines "d' \<equiv> with_bit CHR ''b'' i True d"
  shows "fs_ok d'" "free_blocks d' = free_blocks d - {i}" "free_inodes d' = free_inodes d"
    "\<And>a. table_addr d \<le> a \<Longrightarrow> d' a = d a"
proof -
  note o = fs_okD [OF ok]
  have iB: "i < BITS" using i o(3) by simp
  note f = with_bit_fields [OF o(1) iB, of True, folded d'_def] with_bit_addr [OF o(1) iB, of _ True, folded d'_def]
  have ap: "bitmap_addr CHR ''b'' d + EXT2_BLOCK_SIZE \<le> bitmap_addr CHR ''i'' d \<or>
    bitmap_addr CHR ''i'' d + EXT2_BLOCK_SIZE \<le> bitmap_addr CHR ''b'' d" using ok by (simp add: fs_ok_def)
  have ne: "CHR ''b'' \<noteq> CHR ''i''" by simp
  note other = with_bit_other_bitmap [OF o(1,2) iB ne _ _ ap o(4), of True, folded d'_def]
  show fb: "free_blocks d' = free_blocks d - {i}"
    using with_bit_unmarked [OF o(1) i o(3), folded d'_def] f by (simp add: free_blocks_def)
  show fi: "free_inodes d' = free_inodes d" using other f by (simp add: free_inodes_def)
  have cb: "counts_ok CHR ''b'' (block_count d) d'"
    unfolding d'_def by (rule with_bit_counts_ok [OF _ i]) (use ok in \<open>simp add: fs_ok_def\<close>)
  show "fs_ok d'"
    using ok cb other fb unfolding fs_ok_def f by simp
  show "d' a = d a" if "table_addr d \<le> a" for a
    unfolding d'_def by (rule with_bit_above [OF o(1) iB]) (use o(8) that in linarith)
qed

lemma mark_inode:
  assumes ok: "fs_ok d" and i: "i < inode_count d"
  defines "d' \<equiv> with_bit CHR ''i'' i True d"
  shows "fs_ok d'" "free_blocks d' = free_blocks d" "free_inodes d' = free_inodes d - {i}"
    "\<And>a. table_addr d \<le> a \<Longrightarrow> d' a = d a"
proof -
  note o = fs_okD [OF ok]
  have iB: "i < BITS" using i o(4) by simp
  note f = with_bit_fields [OF o(2) iB, of True, folded d'_def] with_bit_addr [OF o(2) iB, of _ True, folded d'_def]
  have ap: "bitmap_addr CHR ''i'' d + EXT2_BLOCK_SIZE \<le> bitmap_addr CHR ''b'' d \<or>
    bitmap_addr CHR ''b'' d + EXT2_BLOCK_SIZE \<le> bitmap_addr CHR ''i'' d" using ok by (auto simp: fs_ok_def)
  have ne: "CHR ''i'' \<noteq> CHR ''b''" by simp
  note other = with_bit_other_bitmap [OF o(2,1) iB ne _ _ ap o(3), of True, folded d'_def]
  show fb: "free_blocks d' = free_blocks d" using other f by (simp add: free_blocks_def)
  show fi: "free_inodes d' = free_inodes d - {i}"
    using with_bit_unmarked [OF o(2) i o(4), folded d'_def] f by (auto simp: free_inodes_def)
  have ci: "counts_ok CHR ''i'' (inode_count d) d'"
    unfolding d'_def by (rule with_bit_counts_ok [OF _ i]) (use ok in \<open>simp add: fs_ok_def\<close>)
  show "fs_ok d'"
    using ok ci other fb unfolding fs_ok_def f by simp
  show "d' a = d a" if "table_addr d \<le> a" for a
    unfolding d'_def by (rule with_bit_above [OF o(2) iB]) (use o(9) that in linarith)
qed

text \<open>
  \<open>find_free_block\<close> followed by \<open>update_bitmap\<close>: the block of the least bit that is not
  marked is no longer free, and nothing at or behind the table of inodes has changed.
\<close>

lemma take_block:
  assumes ok: "fs_ok d" and ne: "free_blocks d \<noteq> {}"
  shows "\<exists>i d'. find_free_block d = Inr (TO_NUMBER i) \<and> update_bitmap CHR ''b'' (TO_NUMBER i) True d = Inr d' \<and>
    i \<in> free_blocks d \<and> (\<forall>j \<in> free_blocks d. i \<le> j) \<and> fs_ok d' \<and> free_blocks d' = free_blocks d - {i} \<and>
    free_inodes d' = free_inodes d \<and> (\<forall>a \<ge> table_addr d. d' a = d a) \<and> table_addr d' = table_addr d"
proof -
  note o = fs_okD [OF ok]
  let ?i = "Min (free_blocks d)"
  have i: "?i \<in> free_blocks d" using ne by simp
  then have lt: "?i < block_count d" by (simp add: free_blocks_def unmarked_def)
  then have iB: "?i < BITS" using o(3) by simp
  have u: "update_bitmap CHR ''b'' (TO_NUMBER ?i) True d = Inr (with_bit CHR ''b'' ?i True d)"
    using update_bitmap_run [OF o(1), of "TO_NUMBER ?i" True] unat_to_number [OF iB] iB
      to_number_nonzero [OF fs_ok_free(2) [OF ok i]] by simp
  have f: "find_free_block d = Inr (TO_NUMBER ?i)"
    using find_free_block_run [OF o(1,3)] ne by (simp add: free_blocks_def)
  show ?thesis
    using f u i mark_block [OF ok lt] with_bit_fields(1) [OF o(1) iB, of True]
    by (intro exI [of _ ?i] exI [of _ "with_bit CHR ''b'' ?i True d"]) simp
qed

lemma take_inode:
  assumes ok: "fs_ok d" and ne: "free_inodes d \<noteq> {}"
  shows "\<exists>i d'. find_free_inode d = Inr (TO_NUMBER i) \<and> TO_NUMBER i \<noteq> 0 \<and> update_bitmap CHR ''i'' (TO_NUMBER i) True d = Inr d' \<and>
    i \<in> free_inodes d \<and> (\<forall>j \<in> free_inodes d. i \<le> j) \<and> fs_ok d' \<and> free_inodes d' = free_inodes d - {i} \<and>
    free_blocks d' = free_blocks d \<and> (\<forall>a \<ge> table_addr d. d' a = d a) \<and> table_addr d' = table_addr d"
proof -
  note o = fs_okD [OF ok]
  let ?i = "Min (free_inodes d)"
  have fin: "finite (free_inodes d)" by (simp add: free_inodes_def)
  have i: "?i \<in> free_inodes d" using ne fin by simp
  then have lt: "?i < inode_count d" by (simp add: free_inodes_def unmarked_def)
  then have iB: "?i < BITS" using o(4) by simp
  have nz: "TO_NUMBER ?i \<noteq> 0" using unat_to_number [OF iB] by auto
  have u: "update_bitmap CHR ''i'' (TO_NUMBER ?i) True d = Inr (with_bit CHR ''i'' ?i True d)"
    using update_bitmap_run [OF o(2) nz, of True] unat_to_number [OF iB] iB by simp
  have f: "find_free_inode d = Inr (TO_NUMBER ?i)"
    using find_free_inode_run [OF o(2,5,4)] ne by (simp add: free_inodes_def)
  show ?thesis
    using f u i fin nz mark_inode [OF ok lt] with_bit_fields(1) [OF o(2) iB, of True]
    by (intro exI [of _ ?i] exI [of _ "with_bit CHR ''i'' ?i True d"]) simp
qed

lemma no_free_block: "fs_ok d \<Longrightarrow> free_blocks d = {} \<Longrightarrow> find_free_block d = Inr 0"
  using find_free_block_run [OF fs_okD(1,3)] by (simp add: free_blocks_def)

lemma no_free_inode: "fs_ok d \<Longrightarrow> free_inodes d = {} \<Longrightarrow> find_free_inode d = Inr 0"
  using find_free_inode_run [OF fs_okD(2,5,4)] by (simp add: free_inodes_def)

text \<open>The free counts are the numbers of free blocks.\<close>

lemma free_count: "fs_ok d \<Longrightarrow> unat (get 2 (bg_free_blocks_count get_group_descriptor) d :: u16) = card (free_blocks d)"
  by (simp add: fs_ok_def counts_ok_def free_blocks_def gd_free_def)

end
