(* ===== verification/Ext2_Cp.thy ===== *)
theory Ext2_Cp
  imports Ext2_Mkdir
begin

text \<open>
  The command that copies a file of the host into the image (ext2_cp.c).  What
  \<open>lstat\<close> and \<open>fopen\<close> say of the host's file, and its bytes, are the record
  \<open>native_file\<close>.  Lines 91-99 are not reached: line 77 returns first.
\<close>

record native_file =
  lstat_ok :: bool
  regular :: bool
  st_size :: nat
  can_open :: bool
  content :: cstring

section \<open>The space needed (lines 315-363)\<close>

text \<open>\<open>n\<close> divided by \<open>m\<close>, plus 1 when the last argument says so.\<close>

definition div_plus :: "nat \<Rightarrow> nat \<Rightarrow> bool \<Rightarrow> nat" where
  "div_plus n m extra = n div m + (if extra then 1 else 0)"

definition div_up :: "nat \<Rightarrow> nat \<Rightarrow> nat" where
  "div_up n m = div_plus n m (n mod m \<noteq> 0)"

text \<open>
  The numbers of bytes below a level: direct, indirect, double and triple indirect.
  All values stay below \<open>2 ^ 32\<close> blocks and the products with \<open>pow\<close> are exact.
\<close>

definition DIRECT_BYTES :: nat where "DIRECT_BYTES = DIRECT_BLOCK_COUNT * EXT2_BLOCK_SIZE"
definition INDIRECT_BYTES :: nat where "INDIRECT_BYTES = NUM_OF_PTRS_IN_BLOCK * EXT2_BLOCK_SIZE"
definition DOUBLE_BYTES :: nat where "DOUBLE_BYTES = NUM_OF_PTRS_IN_BLOCK ^ 2 * EXT2_BLOCK_SIZE"
definition TRIPLE_BYTES :: nat where "TRIPLE_BYTES = NUM_OF_PTRS_IN_BLOCK ^ 3 * EXT2_BLOCK_SIZE"

text \<open>
  Line 342 divides one of its terms by the block size twice, and line 351 looks at the
  quotient where the remainder of \<open>ptr_blocks_needed\<close> was meant.
\<close>

definition blocks_needed :: "nat \<Rightarrow> nat option" where
  "blocks_needed n =
    (if n < DIRECT_BYTES then Some (div_up n EXT2_BLOCK_SIZE)
     else if n < DIRECT_BYTES + INDIRECT_BYTES then
       Some (DBLE_INDIRECT_BLOCK + div_up (n - DIRECT_BYTES) EXT2_BLOCK_SIZE)
     else if n < DIRECT_BYTES + INDIRECT_BYTES + DOUBLE_BYTES then
       (let end_blocks = div_up (n - DIRECT_BYTES - INDIRECT_BYTES) EXT2_BLOCK_SIZE in
        Some (TPLE_INDIRECT_BLOCK + NUM_OF_PTRS_IN_BLOCK + (div_up end_blocks NUM_OF_PTRS_IN_BLOCK + end_blocks)))
     else if n < DIRECT_BYTES + INDIRECT_BYTES + DOUBLE_BYTES + TRIPLE_BYTES then
       (let end_blocks = div_plus (n - DIRECT_BYTES - NUM_OF_PTRS_IN_BLOCK * EXT2_BLOCK_SIZE div EXT2_BLOCK_SIZE - DOUBLE_BYTES)
              EXT2_BLOCK_SIZE ((n - DIRECT_BYTES - INDIRECT_BYTES - DOUBLE_BYTES) mod EXT2_BLOCK_SIZE \<noteq> 0);
            ptr_blocks = div_up end_blocks NUM_OF_PTRS_IN_BLOCK;
            ptr_ptr = ptr_blocks div NUM_OF_PTRS_IN_BLOCK;
            ptr_ptr_blocks = ptr_ptr + (if ptr_ptr mod NUM_OF_PTRS_IN_BLOCK \<noteq> 0 then 1 else 0) in
        Some (TOTAL_BLOCK_COUNT + 2 * NUM_OF_PTRS_IN_BLOCK + NUM_OF_PTRS_IN_BLOCK ^ 2
          + (ptr_blocks + end_blocks + ptr_ptr_blocks)))
     else None)"

definition have_enough_blocks :: "nat \<Rightarrow> disk \<Rightarrow> bool res" where
  "have_enough_blocks n d =
    (case blocks_needed n of None \<Rightarrow> Inr False
     | Some k \<Rightarrow> bindE (ld16 (bg_free_blocks_count get_group_descriptor) d) (\<lambda>w. Inr (k \<le> unat w)))"

section \<open>Copying (lines 158-267, 365-368)\<close>

record copying =
  buffer :: cstring
  unread :: cstring
  image :: disk

text \<open>\<open>bytes_read = fread(buffer, 1, EXT2_BLOCK_SIZE, native_file)\<close>\<close>

definition fread :: "copying \<Rightarrow> copying" where
  "fread s = s\<lparr>buffer := take EXT2_BLOCK_SIZE (unread s), unread := drop EXT2_BLOCK_SIZE (unread s)\<rparr>"

definition on_disk :: "(disk \<Rightarrow> disk res) \<Rightarrow> copying \<Rightarrow> copying res" where
  "on_disk f s = bindE (f (image s)) (\<lambda>d. Inr (s\<lparr>image := d\<rparr>))"

definition copy_data_to_block :: "nat \<Rightarrow> copying \<Rightarrow> copying res" where
  "copy_data_to_block block_to_write s = on_disk (store_bytes block_to_write (buffer s)) s"

text \<open>A block is marked and stored by \<open>f\<close>, even when there was no free one.\<close>

definition grab :: "(u32 \<Rightarrow> (disk \<Rightarrow> disk res) list) \<Rightarrow> (nat \<Rightarrow> copying \<Rightarrow> copying res) \<Rightarrow> copying \<Rightarrow> copying res" where
  "grab f use s =
    bindE (find_free_block (image s)) (\<lambda>n.
    bindE (on_disk (\<lambda>d. bindE (update_bitmap CHR ''b'' n True d) (seqE (f n))) s) (use (block_ptr n)))"

primrec while_data :: "(nat \<Rightarrow> copying \<Rightarrow> copying res) \<Rightarrow> nat list \<Rightarrow> copying \<Rightarrow> copying res" where
  "while_data f [] s = Inr s"
| "while_data f (i # is) s = (if buffer s \<noteq> [] then bindE (f i s) (while_data f is) else Inr s)"

text \<open>
  The tree of a block at \<open>a\<close>: a block of data at level 0, a block of pointers above.
  After every pointer the next data are read, at the upper levels once more than the
  loop below has done already.
\<close>

primrec fill_tree :: "nat \<Rightarrow> nat \<Rightarrow> nat \<Rightarrow> copying \<Rightarrow> copying res" where
  "fill_tree inode 0 = copy_data_to_block"
| "fill_tree inode (Suc k) = (\<lambda>a. while_data (\<lambda>i s.
     bindE (grab (\<lambda>n. [add32 (i_blocks inode) 1, st32 (a + 4 * i) n]) (fill_tree inode k) s) (\<lambda>s. Inr (fread s)))
     [0 ..< NUM_OF_PTRS_IN_BLOCK])"

definition grab_for_inode :: "nat \<Rightarrow> nat \<Rightarrow> nat \<Rightarrow> copying \<Rightarrow> copying res" where
  "grab_for_inode inode i k = grab (\<lambda>n. [st32 (i_block inode i) n, add32 (i_blocks inode) 1]) (fill_tree inode k)"

definition fill_direct_blocks :: "nat \<Rightarrow> copying \<Rightarrow> copying res" where
  "fill_direct_blocks inode =
    while_data (\<lambda>i s. bindE (grab_for_inode inode i 0 s) (\<lambda>s. Inr (fread s))) [0 ..< DIRECT_BLOCK_COUNT]"

definition fill_rest :: "nat \<Rightarrow> nat \<Rightarrow> nat \<Rightarrow> copying \<Rightarrow> copying res" where
  "fill_rest inode i k s = (if buffer s \<noteq> [] then grab_for_inode inode i k s else Inr s)"

definition copy_content :: "nat \<Rightarrow> cstring \<Rightarrow> disk \<Rightarrow> disk res" where
  "copy_content inode bs d =
    bindE (seqE [fill_direct_blocks inode, fill_rest inode INDIRECT_BLOCK 1,
        fill_rest inode DBLE_INDIRECT_BLOCK 2, fill_rest inode TPLE_INDIRECT_BLOCK 3]
      (fread \<lparr>buffer = [], unread = bs, image = d\<rparr>)) (\<lambda>s. Inr (image s))"

section \<open>The destination (lines 56-137)\<close>

text \<open>
  The inode of the directory, the name and the entry that is replaced.  \<open>junk\<close> is what
  the array \<open>path\<close> of line 108 holds before anything was stored in it.
\<close>

type_synonym destination = "nat \<times> cstring \<times> nat option"

definition full_path :: "cstring \<Rightarrow> cstring \<Rightarrow> cstring \<Rightarrow> cstring res" where
  "full_path junk dest_path nm =
    (let p = junk @ dest_path @ [SLASH] @ nm in bindE (guardE Out_Of_Bounds (length p < PATH_MAX)) (\<lambda>_. Inr p))"

definition into_directory :: "cstring \<Rightarrow> nat \<Rightarrow> cstring \<Rightarrow> cstring \<Rightarrow> disk \<Rightarrow> (int + destination) res" where
  "into_directory junk dir_inode native_path dest_path d =
    bindE (find_file_name_by_path native_path) (\<lambda>nm.
    if EXT2_BLOCK_SIZE - 8 < length nm then Inr (Inl ENAMETOOLONG)
    else
      bindE (full_path junk dest_path nm) (\<lambda>path.
      bindE (find_dir_entry path d) (\<lambda>old. Inr (Inr (dir_inode, nm, old)))))"

definition find_destination :: "fs_env \<Rightarrow> cstring \<Rightarrow> cstring \<Rightarrow> cstring \<Rightarrow> disk \<Rightarrow> (int + destination) res" where
  "find_destination E junk native_path dest_path d =
    (if length dest_path = 1 then
       bindE (get_root_inode d) (\<lambda>root. into_directory [] root native_path dest_path d)
     else
       bindE (copy_path E dest_path) (\<lambda>buf.
       bindE (find_dir_entry buf d) (\<lambda>dest.
       case dest of None \<Rightarrow> Inr (Inl ENOENT)
       | Some e \<Rightarrow>
           bindE (ld32 (de_inode e) d) (\<lambda>n. bindE (inode_ptr n d) (\<lambda>inode.
           bindE (ld8 (de_file_type e) d) (\<lambda>ft.
           if ft = EXT2_FT_DIR then into_directory junk inode native_path dest_path d
           else
             bindE (find_parent_inode E dest_path d) (\<lambda>pn. bindE (inode_ptr pn d) (\<lambda>parent.
             bindE (find_file_name_by_path dest_path) (\<lambda>nm. Inr (Inr (parent, nm, Some e)))))))))))"

section \<open>The command\<close>

text \<open>Lines 139-152: the inode to copy into.\<close>

definition inode_for_copy :: "nat option \<Rightarrow> disk \<Rightarrow> (u32 \<times> disk) res" where
  "inode_for_copy old d =
    (case old of
       Some e \<Rightarrow>
         bindE (ld32 (de_inode e) d) (\<lambda>n. bindE (inode_ptr n d) (\<lambda>inode.
         bindE (free_all_blocks_of_inode inode d) (\<lambda>d. Inr (n, d))))
     | None \<Rightarrow>
         bindE (find_free_inode d) (\<lambda>n.
         if n = 0 then Inr (0, d) else bindE (update_bitmap CHR ''i'' n True d) (\<lambda>d. Inr (n, d))))"

text \<open>Lines 271-308: the entry of the new file; the block is filled in before a pointer for it is found.\<close>

definition enter_copy :: "nat \<Rightarrow> nat \<Rightarrow> u32 \<Rightarrow> cstring \<Rightarrow> command" where
  "enter_copy dir_inode inode ino nm d =
    bindE (add_to_blocks dir_inode ino nm EXT2_FT_REG_FILE d) (\<lambda>(found, d).
    if found then Inr (0, d)
    else
      bindE (find_free_block d) (\<lambda>b.
      if b = 0 then
        bindE (free_all_blocks_of_inode inode d) (\<lambda>d.
        bindE (update_bitmap CHR ''i'' ino False d) (\<lambda>d. Inr (ENOSPC, d)))
      else
        bindE (update_bitmap CHR ''b'' b True d) (\<lambda>d.
        let p = block_ptr b in
        bindE (seqE [st16 (de_rec_len p) (of_nat EXT2_BLOCK_SIZE), st8 (de_name_len p) (of_nat (length nm)),
          st32 (de_inode p) ino, st8 (de_file_type p) EXT2_FT_REG_FILE, store_bytes (de_name p) nm] d) (\<lambda>d.
        bindE (free_slot dir_inode [0 ..< TOTAL_BLOCK_COUNT] d) (\<lambda>slot.
        bindE (case slot of None \<Rightarrow> Inr d | Some i \<Rightarrow> add_block dir_inode i b [] d) (\<lambda>d. Inr (0, d)))))))"

definition copy_to :: "fs_env \<Rightarrow> native_file \<Rightarrow> destination \<Rightarrow> command" where
  "copy_to E nf dest d =
    (case dest of (dir_inode, nm, old) \<Rightarrow>
      bindE (inode_for_copy old d) (\<lambda>(ino, d).
      if old = None \<and> ino = 0 then Inr (ENOSPC, d)
      else
        bindE (inode_ptr ino d) (\<lambda>inode.
        bindE (init_inode E inode EXT2_S_IFREG (of_nat (st_size nf)) d) (\<lambda>d.
        bindE (copy_content inode (content nf) d) (\<lambda>d.
        if old = None then enter_copy dir_inode inode ino nm d else Inr (0, d))))))"

definition cp :: "fs_env \<Rightarrow> cstring \<Rightarrow> native_file \<Rightarrow> cstring \<Rightarrow> cstring \<Rightarrow> command" where
  "cp E junk nf native_path dest_path d =
    (if \<not> lstat_ok nf \<or> \<not> regular nf then Inr (EINVAL, d)
     else
       bindE (have_enough_blocks (st_size nf) d) (\<lambda>enough.
       if \<not> enough then Inr (ENOSPC, d)
       else if \<not> can_open nf then Inr (ENOENT, d)
       else if \<not> is_absolute dest_path then Inr (EINVAL, d)
       else
         bindE (find_destination E junk native_path dest_path d) (\<lambda>r.
         case r of Inl e \<Rightarrow> Inr (e, d) | Inr dest \<Rightarrow> copy_to E nf dest d)))"

definition cp_main ::
  "fs_env \<Rightarrow> cstring \<Rightarrow> native_file \<Rightarrow> cstring list \<Rightarrow> disk option \<Rightarrow> (int \<times> disk option) res" where
  "cp_main E junk nf argv img =
    (if length argv \<noteq> 4 then Inr (EINVAL, img)
     else on_image (cp E junk nf (argv ! 2) (argv ! 3)) EINVAL img)"

end
