(* ===== verification/Ext2_Copy.thy ===== *)
theory Ext2_Copy
  imports Ext2_Layout Ext2_Cp
begin

text \<open>
  Copying the data of a file into an image: on a well-formed image with enough free
  blocks, reading the file through its inode, direct and indirect blocks, gives the
  data back.
\<close>

section \<open>Reading a file\<close>

fun read_blocks :: "disk \<Rightarrow> nat \<Rightarrow> nat \<Rightarrow> nat \<Rightarrow> cstring" where
  "read_blocks d c 0 n = []"
| "read_blocks d c (Suc m) n =
    bytes (min n EXT2_BLOCK_SIZE) (block_ptr (get 4 c d)) d @ read_blocks d (c + 4) m (n - EXT2_BLOCK_SIZE)"

definition read_file :: "disk \<Rightarrow> nat \<Rightarrow> nat \<Rightarrow> cstring" where
  "read_file d inode n =
    read_blocks d (i_block inode 0) DIRECT_BLOCK_COUNT n @
    read_blocks d (block_ptr (get 4 (i_block inode INDIRECT_BLOCK) d)) NUM_OF_PTRS_IN_BLOCK (n - DIRECT_BYTES)"

section \<open>One step\<close>

text \<open>The state when \<open>data\<close> are still to be copied: the buffer holds their first block.\<close>

definition reading :: "cstring \<Rightarrow> disk \<Rightarrow> copying" where
  "reading data d = fread \<lparr>buffer = [], unread = data, image = d\<rparr>"

lemma reading_simps [simp]:
  "buffer (reading data d) = take EXT2_BLOCK_SIZE data" "image (reading data d) = d"
  "fread (reading data d) = reading (drop EXT2_BLOCK_SIZE data) d"
  "(reading data d)\<lparr>image := d'\<rparr> = reading data d'"
  by (simp_all add: reading_def fread_def)

lemma reading_empty [simp]: "buffer (reading data d) = [] \<longleftrightarrow> data = []"
  by (simp add: EXT2_BLOCK_SIZE_def)

definition apart :: "nat \<Rightarrow> nat \<Rightarrow> nat \<Rightarrow> nat \<Rightarrow> bool" where
  "apart a n b m \<longleftrightarrow> a + n \<le> b \<or> b + m \<le> a"

text \<open>The stores of a pointer into the cell \<open>c\<close> and of the count of blocks at \<open>ib\<close>.\<close>

definition writes :: "(u32 \<Rightarrow> (disk \<Rightarrow> disk res) list) \<Rightarrow> nat \<Rightarrow> nat \<Rightarrow> bool" where
  "writes F c ib \<longleftrightarrow> (\<forall>n e. \<exists>e'. seqE (F n) e = Inr e' \<and> get 4 c e' = n \<and>
     (\<forall>x. (x < c \<or> c + 4 \<le> x) \<longrightarrow> (x < ib \<or> ib + 4 \<le> x) \<longrightarrow> e' x = e x))"

lemma add32_run: "a + 4 \<le> DISK_SIZE \<Longrightarrow> add32 a w d = Inr (put a (store_le 4 (get 4 a d + w)) d)"
  by (simp add: add32_def)

lemma writes_after:
  assumes "c + 4 \<le> DISK_SIZE" "ib + 4 \<le> DISK_SIZE" "apart c 4 ib 4"
  shows "writes (\<lambda>n. [add32 ib 1, st32 c n]) c ib" "writes (\<lambda>n. [st32 c n, add32 ib 1]) c ib"
  using assms by (auto simp: writes_def apart_def add32_run get_put_same get_put_other put_outside)

text \<open>A cell outside the blocks that may be taken.\<close>

definition cell_ok :: "disk \<Rightarrow> nat \<Rightarrow> nat \<Rightarrow> bool" where
  "cell_ok d c n \<longleftrightarrow> table_addr d \<le> c \<and> c + n \<le> DISK_SIZE \<and> (\<forall>i \<in> free_blocks d. apart c n (block_at i) EXT2_BLOCK_SIZE)"

text \<open>
  \<open>d'\<close> is \<open>d\<close> with the blocks \<open>I\<close> taken; from the table of inodes on only \<open>A\<close> and
  those blocks have changed.
\<close>

definition taken :: "nat set \<Rightarrow> nat set \<Rightarrow> disk \<Rightarrow> disk \<Rightarrow> bool" where
  "taken A I d d' \<longleftrightarrow> I \<subseteq> free_blocks d \<and> fs_ok d' \<and> free_blocks d' = free_blocks d - I \<and>
     free_inodes d' = free_inodes d \<and> table_addr d' = table_addr d \<and>
     (\<forall>x \<ge> table_addr d. x \<notin> A \<longrightarrow> (\<forall>i \<in> I. x < block_at i \<or> block_at i + EXT2_BLOCK_SIZE \<le> x) \<longrightarrow> d' x = d x)"

lemma taken_trans: "taken A I d d' \<Longrightarrow> taken A J d' d'' \<Longrightarrow> taken A (I \<union> J) d d''"
  unfolding taken_def by auto

lemma taken_refl: "fs_ok d \<Longrightarrow> taken A {} d d"
  by (simp add: taken_def)

lemma taken_mono: "taken A I d d' \<Longrightarrow> A \<subseteq> B \<Longrightarrow> taken B I d d'"
  unfolding taken_def by blast

text \<open>Stores in \<open>A\<close> or in a block that was taken.\<close>

lemma taken_store:
  assumes t: "taken A I d e" and same: "\<And>x. x \<notin> A \<Longrightarrow> (\<And>i. i \<in> I \<Longrightarrow> x < block_at i \<or> block_at i + EXT2_BLOCK_SIZE \<le> x) \<Longrightarrow> e' x = e x"
    and A: "\<And>x. x \<in> A \<Longrightarrow> table_addr d \<le> x" and ok: "fs_ok d"
  shows "taken A I d e'"
proof -
  have T: "I \<subseteq> free_blocks d" "fs_ok e" "free_blocks e = free_blocks d - I" "free_inodes e = free_inodes d"
    "table_addr e = table_addr d" using t by (auto simp: taken_def)
  have "table_addr d \<le> block_at i" if "i \<in> I" for i
    using fs_ok_free(1) [OF ok] T(1) that by (force simp: table_end_def)
  note blk = this
  have "same_low e e'"
    unfolding same_low_def T(5)
  proof (intro allI impI)
    fix x assume x: "x < table_addr d"
    show "e' x = e x"
    proof (rule same)
      show "x \<notin> A" using A [of x] x by auto
      show "x < block_at i \<or> block_at i + EXT2_BLOCK_SIZE \<le> x" if "i \<in> I" for i using blk [OF that] x by simp
    qed
  qed
  from low_fs [OF T(2) this] low_fields(1) [OF T(2) this] show ?thesis
    using t T(5) same unfolding taken_def by auto
qed

lemma taken_cell: "cell_ok d c n \<Longrightarrow> taken A I d d' \<Longrightarrow> cell_ok d' c n"
  by (auto simp: cell_ok_def taken_def)

lemma free_apart:
  assumes "i \<in> free_blocks d" "cell_ok d c n"
  shows "x < c \<or> c + n \<le> x \<or> x < block_at i \<or> block_at i + EXT2_BLOCK_SIZE \<le> x"
  using assms by (force simp: cell_ok_def apart_def)

text \<open>The fields of an inode before the count of its blocks.\<close>

lemma taken_head:
  assumes "taken A I d d'" "cell_ok d N INODE_SIZE" "\<forall>y \<in> A. N + 28 \<le> y" "x < 28"
  shows "d' (N + x) = d (N + x)"
proof -
  have "N + x < block_at i \<or> block_at i + EXT2_BLOCK_SIZE \<le> N + x" if "i \<in> I" for i
    using free_apart [OF _ assms(2), of i "N + x"] assms(1,4) that by (auto simp: taken_def INODE_SIZE_def)
  moreover have "table_addr d \<le> N + x" using assms(2) by (simp add: cell_ok_def)
  moreover have "N + x \<notin> A" using assms(3,4) by force
  ultimately show ?thesis using assms(1) unfolding taken_def by blast
qed

lemma grab_run:
  assumes ok: "fs_ok d" and ne: "free_blocks d \<noteq> {}" and w: "writes F c ib" and c: "cell_ok d c 4" "cell_ok d ib 4"
  shows "\<exists>i d'. grab F f (reading data d) = f (block_at i) (reading data d') \<and> i \<in> free_blocks d \<and>
    taken ({c ..< c + 4} \<union> {ib ..< ib + 4}) {i} d d' \<and> get 4 c d' = TO_NUMBER i"
proof -
  obtain i d1 where t: "find_free_block d = Inr (TO_NUMBER i)" "update_bitmap CHR ''b'' (TO_NUMBER i) True d = Inr d1"
    "i \<in> free_blocks d" "fs_ok d1" "free_blocks d1 = free_blocks d - {i}" "free_inodes d1 = free_inodes d"
    "\<forall>a \<ge> table_addr d. d1 a = d a" "table_addr d1 = table_addr d" using take_block [OF ok ne] by blast
  obtain d2 where s: "seqE (F (TO_NUMBER i)) d1 = Inr d2" "get 4 c d2 = TO_NUMBER i"
    "\<forall>x. (x < c \<or> c + 4 \<le> x) \<longrightarrow> (x < ib \<or> ib + 4 \<le> x) \<longrightarrow> d2 x = d1 x"
    using w unfolding writes_def by metis
  let ?A = "{c ..< c + 4} \<union> {ib ..< ib + 4}"
  have "taken ?A {i} d d1" using t by (simp add: taken_def)
  then have "taken ?A {i} d d2"
    by (rule taken_store) (use s(3) c ok in \<open>auto simp: cell_ok_def\<close>)
  moreover have "grab F f (reading data d) = f (block_at i) (reading data d2)"
    using t(1,2) s(1) block_ptr_number [OF fs_ok_free(2) [OF ok t(3)]] by (simp add: grab_def on_disk_def)
  ultimately show ?thesis using t(3) s(2) by (intro exI [of _ i] exI [of _ d2]) simp
qed

text \<open>A step of a loop over data blocks.\<close>

lemma grab_data:
  assumes ok: "fs_ok d" and ne: "free_blocks d \<noteq> {}" and w: "writes F c ib" and c: "cell_ok d c 4" "cell_ok d ib 4"
  shows "\<exists>i d'. bindE (grab F copy_data_to_block (reading data d)) (\<lambda>s. Inr (fread s)) = Inr (reading (drop EXT2_BLOCK_SIZE data) d') \<and>
    i \<in> free_blocks d \<and> taken ({c ..< c + 4} \<union> {ib ..< ib + 4}) {i} d d' \<and> get 4 c d' = TO_NUMBER i \<and>
    bytes (length (take EXT2_BLOCK_SIZE data)) (block_at i) d' = take EXT2_BLOCK_SIZE data"
proof -
  let ?A = "{c ..< c + 4} \<union> {ib ..< ib + 4}" and ?bs = "take EXT2_BLOCK_SIZE data"
  obtain i d1 where g: "grab F copy_data_to_block (reading data d) = copy_data_to_block (block_at i) (reading data d1)"
    "i \<in> free_blocks d" "taken ?A {i} d d1" "get 4 c d1 = TO_NUMBER i" using grab_run [OF assms] by blast
  let ?d = "put (block_at i) ?bs d1"
  have len: "length ?bs \<le> EXT2_BLOCK_SIZE" by simp
  have fit: "block_at i + length ?bs \<le> DISK_SIZE" using fs_ok_free(2) [OF ok g(2)] len by linarith
  have "taken ?A {i} d ?d"
  proof (rule taken_store [OF g(3) _ _ ok])
    fix x assume "\<And>k. k \<in> {i} \<Longrightarrow> x < block_at k \<or> block_at k + EXT2_BLOCK_SIZE \<le> x"
    then show "?d x = d1 x" using len by (intro put_outside) force
  qed (use c in \<open>auto simp: cell_ok_def\<close>)
  moreover have "get 4 c ?d = TO_NUMBER i"
  proof -
    have "apart c 4 (block_at i) EXT2_BLOCK_SIZE" using c(1) g(2) by (simp add: cell_ok_def)
    then show ?thesis using g(4) len by (subst get_put_other) (auto simp: apart_def)
  qed
  moreover have "bytes (length ?bs) (block_at i) ?d = ?bs" by (rule bytes_put_same) simp
  moreover have "bindE (grab F copy_data_to_block (reading data d)) (\<lambda>s. Inr (fread s)) = Inr (reading (drop EXT2_BLOCK_SIZE data) ?d)"
    unfolding g(1) copy_data_to_block_def on_disk_def reading_simps store_bytes_in [OF fit] bindE_Inr by simp
  ultimately show ?thesis using g(2) by (intro exI [of _ i] exI [of _ ?d]) simp
qed

section \<open>A loop\<close>

lemma read_blocks_cong:
  assumes "\<And>x. c \<le> x \<Longrightarrow> x < c + 4 * m \<Longrightarrow> d' x = d x"
    and "\<And>j x. j < m \<Longrightarrow> 1024 * j < n \<Longrightarrow> block_ptr (get 4 (c + 4 * j) d) \<le> x \<Longrightarrow>
      x < block_ptr (get 4 (c + 4 * j) d) + EXT2_BLOCK_SIZE \<Longrightarrow> d' x = d x"
  shows "read_blocks d' c m n = read_blocks d c m n"
  using assms
proof (induction m arbitrary: c n)
  case (Suc m)
  have g: "get 4 c d' = (get 4 c d :: u32)" by (rule get_cong) (simp add: Suc.prems(1))
  have "bytes (min n EXT2_BLOCK_SIZE) (block_ptr (get 4 c d)) d' = bytes (min n EXT2_BLOCK_SIZE) (block_ptr (get 4 c d)) d"
    by (rule bytes_cong) (use Suc.prems(2) [of 0] in \<open>auto simp: EXT2_BLOCK_SIZE_def\<close>)
  moreover have "read_blocks d' (c + 4) m (n - EXT2_BLOCK_SIZE) = read_blocks d (c + 4) m (n - EXT2_BLOCK_SIZE)"
  proof (rule Suc.IH)
    show "d' x = d x" if "c + 4 \<le> x" "x < c + 4 + 4 * m" for x using Suc.prems(1) that by simp
    show "d' x = d x" if "j < m" "1024 * j < n - EXT2_BLOCK_SIZE" "block_ptr (get 4 (c + 4 + 4 * j) d) \<le> x"
      "x < block_ptr (get 4 (c + 4 + 4 * j) d) + EXT2_BLOCK_SIZE" for j x
      using Suc.prems(2) [of "Suc j" x] that by (simp add: EXT2_BLOCK_SIZE_def add.assoc)
  qed
  ultimately show ?case using g by simp
qed simp

text \<open>The pointers from \<open>c\<close> on to the blocks of \<open>n\<close> bytes are numbers of blocks in \<open>I\<close>.\<close>

definition points_into :: "disk \<Rightarrow> nat \<Rightarrow> nat \<Rightarrow> nat \<Rightarrow> nat set \<Rightarrow> bool" where
  "points_into d c m n I \<longleftrightarrow> (\<forall>j < m. 1024 * j < n \<longrightarrow> (\<exists>i \<in> I. get 4 (c + 4 * j) d = TO_NUMBER i))"

lemma points_into_Suc:
  assumes "get 4 c d = TO_NUMBER i" "i \<in> I" "points_into d (c + 4) m (n - 1024) I"
  shows "points_into d c (Suc m) n I"
  unfolding points_into_def
proof (intro allI impI)
  fix j assume j: "j < Suc m" "1024 * j < n"
  show "\<exists>i \<in> I. get 4 (c + 4 * j) d = TO_NUMBER i"
  proof (cases j)
    case 0
    then show ?thesis using assms by auto
  next
    case (Suc k)
    then show ?thesis using j assms(3) by (simp add: points_into_def add.assoc)
  qed
qed

lemma div_up_add: "div_up n 1024 = (n + 1023) div 1024"
proof -
  define q r where "q = n div 1024" and "r = n mod 1024"
  have n: "n = r + 1024 * q" and r: "r < 1024" by (simp_all add: q_def r_def)
  have "(n + 1023) div 1024 = q + (r + 1023) div 1024" unfolding n by simp
  also have "(r + 1023) div 1024 = (if r \<noteq> 0 then 1 else 0)"
    using r div_nat_eqI [of 1 1024 "r + 1023"] by auto
  finally show ?thesis by (simp add: div_up_def div_plus_def q_def r_def)
qed

lemma div_up_le: "div_up n 1024 \<le> k \<longleftrightarrow> n \<le> 1024 * k"
  unfolding div_up_add using div_less_iff_less_mult [of 1024 "n + 1023" "Suc k"] by (auto simp: less_Suc_eq_le)

lemma div_up_Suc: "0 < n \<Longrightarrow> div_up n 1024 = Suc (div_up (n - 1024) 1024)"
proof (cases "n < 1024")
  case True
  moreover assume "0 < n"
  ultimately show ?thesis unfolding div_up_add using div_nat_eqI [of 1 1024 "n + 1023"] by simp
next
  case False
  then obtain m where "n = m + 1024" by (metis add.commute le_Suc_ex not_less)
  then show ?thesis unfolding div_up_add by simp
qed

lemma cell_ok_sub: "cell_ok d c n \<Longrightarrow> c \<le> c' \<Longrightarrow> c' + n' \<le> c + n \<Longrightarrow> cell_ok d c' n'"
  by (force simp: cell_ok_def apart_def)

lemma fill_loop:
  assumes "fs_ok d" and "\<And>i. k \<le> i \<Longrightarrow> i < k + m \<Longrightarrow> writes (F i) (c0 + 4 * i) ib"
    and "cell_ok d (c0 + 4 * k) (4 * m)" "cell_ok d ib 4" and "apart (c0 + 4 * k) (4 * m) ib 4"
    and "min m (div_up (length data) 1024) \<le> card (free_blocks d)"
  defines "body \<equiv> \<lambda>i s. bindE (grab (F i) copy_data_to_block s) (\<lambda>s. Inr (fread s))"
  shows "\<exists>d' I. while_data body [k ..< k + m] (reading data d) = Inr (reading (drop (1024 * m) data) d') \<and>
    taken ({c0 + 4 * k ..< c0 + 4 * k + 4 * m} \<union> {ib ..< ib + 4}) I d d' \<and>
    card I = min m (div_up (length data) 1024) \<and> points_into d' (c0 + 4 * k) m (length data) I \<and>
    read_blocks d' (c0 + 4 * k) m (length data) = take (1024 * m) data"
  using assms(1-6)
proof (induction m arbitrary: k d data)
  case 0
  then show ?case by (intro exI [of _ d] exI [of _ "{}"]) (simp add: taken_refl points_into_def)
next
  case (Suc m)
  let ?c = "c0 + 4 * k"
  show ?case
  proof (cases "data = []")
    case True
    have e: "div_up 0 1024 = 0" by (simp add: div_up_def div_plus_def)
    have z: "read_blocks d c n 0 = []" for c n by (induction n arbitrary: c) (auto simp: bytes_def)
    show ?thesis
      using True Suc.prems(1) by (intro exI [of _ d] exI [of _ "{}"])
        (simp add: taken_refl points_into_def e z upt_conv_Cons bytes_def del: upt_Suc)
  next
    case False
    then have pos: "0 < length data" by simp
    have n1: "div_up (length data) 1024 = Suc (div_up (length (drop 1024 data)) 1024)" using div_up_Suc [OF pos] by simp
    then have ne: "free_blocks d \<noteq> {}" using Suc.prems(6) by auto
    have c4: "cell_ok d ?c 4" using cell_ok_sub [OF Suc.prems(3)] by simp
    have w: "writes (F k) ?c ib" using Suc.prems(2) by simp
    let ?A = "{?c ..< ?c + 4} \<union> {ib ..< ib + 4}"
    obtain i d1 where g: "body k (reading data d) = Inr (reading (drop 1024 data) d1)" "i \<in> free_blocks d"
      "taken ?A {i} d d1" "get 4 ?c d1 = TO_NUMBER i"
      "bytes (length (take 1024 data)) (block_at i) d1 = take 1024 data"
      using grab_data [OF Suc.prems(1) ne w c4 Suc.prems(4), of data] unfolding body_def EXT2_BLOCK_SIZE_def by blast
    have ok1: "fs_ok d1" "free_blocks d1 = free_blocks d - {i}" using g(3) by (auto simp: taken_def)
    have c': "c0 + 4 * Suc k = ?c + 4" by simp
    have rest: "cell_ok d (?c + 4) (4 * m)" using cell_ok_sub [OF Suc.prems(3)] by simp
    have card1: "card (free_blocks d1) = card (free_blocks d) - 1" using ok1(2) g(2) by simp
    have "\<exists>d' I. while_data body [Suc k ..< Suc k + m] (reading (drop 1024 data) d1) =
        Inr (reading (drop (1024 * m) (drop 1024 data)) d') \<and>
      taken ({c0 + 4 * Suc k ..< c0 + 4 * Suc k + 4 * m} \<union> {ib ..< ib + 4}) I d1 d' \<and>
      card I = min m (div_up (length (drop 1024 data)) 1024) \<and> points_into d' (c0 + 4 * Suc k) m (length (drop 1024 data)) I \<and>
      read_blocks d' (c0 + 4 * Suc k) m (length (drop 1024 data)) = take (1024 * m) (drop 1024 data)"
    proof (rule Suc.IH [OF ok1(1)])
      show "writes (F i) (c0 + 4 * i) ib" if "Suc k \<le> i" "i < Suc k + m" for i using Suc.prems(2) that by simp
      show "cell_ok d1 (c0 + 4 * Suc k) (4 * m)" unfolding c' by (rule taken_cell [OF rest g(3)])
      show "cell_ok d1 ib 4" by (rule taken_cell [OF Suc.prems(4) g(3)])
      show "apart (c0 + 4 * Suc k) (4 * m) ib 4" using Suc.prems(5) by (auto simp: apart_def)
      show "min m (div_up (length (drop 1024 data)) 1024) \<le> card (free_blocks d1)"
        using Suc.prems(6) n1 card1 by simp
    qed
    then obtain d2 I where r: "while_data body [Suc k ..< Suc k + m] (reading (drop 1024 data) d1) =
        Inr (reading (drop (1024 * m) (drop 1024 data)) d2)"
      "taken ({?c + 4 ..< ?c + 4 + 4 * m} \<union> {ib ..< ib + 4}) I d1 d2"
      "card I = min m (div_up (length (drop 1024 data)) 1024)" "points_into d2 (?c + 4) m (length (drop 1024 data)) I"
      "read_blocks d2 (?c + 4) m (length (drop 1024 data)) = take (1024 * m) (drop 1024 data)"
      unfolding c' by blast
    let ?B = "{?c ..< ?c + 4 * Suc m} \<union> {ib ..< ib + 4}"
    have I: "I \<subseteq> free_blocks d1" using r(2) by (simp add: taken_def)
    have iI: "i \<notin> I" using I ok1(2) by auto
    have t: "taken ?B (insert i I) d d2"
    proof -
      have "taken ?B {i} d d1" by (rule taken_mono [OF g(3)]) auto
      moreover have "taken ?B I d1 d2" by (rule taken_mono [OF r(2)]) auto
      ultimately show ?thesis using taken_trans [of ?B "{i}" d d1 I d2] by simp
    qed
    have same: "d2 x = d1 x" if "table_addr d \<le> x" "x < ?c + 4 \<or> ?c + 4 + 4 * m \<le> x" "x < ib \<or> ib + 4 \<le> x"
      "\<And>j. j \<in> I \<Longrightarrow> x < block_at j \<or> block_at j + EXT2_BLOCK_SIZE \<le> x" for x
      using r(2) that g(3) by (auto simp: taken_def)
    have p: "get 4 ?c d2 = TO_NUMBER i"
    proof -
      have "get 4 ?c d2 = (get 4 ?c d1 :: u32)"
      proof (rule get_cong)
        fix x :: nat assume x: "x < 4"
        show "d2 (?c + x) = d1 (?c + x)"
        proof (rule same)
          show "table_addr d \<le> ?c + x" using c4 by (simp add: cell_ok_def)
          show "?c + x < ib \<or> ib + 4 \<le> ?c + x" using Suc.prems(5) x by (auto simp: apart_def)
          show "?c + x < block_at j \<or> block_at j + EXT2_BLOCK_SIZE \<le> ?c + x" if "j \<in> I" for j
            using free_apart [of j d ?c 4 "?c + x"] c4 I ok1(2) that x by auto
        qed (use x in simp)
      qed
      then show ?thesis using g(4) by simp
    qed
    have bp: "block_ptr (TO_NUMBER i) = block_at i" by (rule block_ptr_number [OF fs_ok_free(2) [OF Suc.prems(1) g(2)]])
    have b: "bytes (length (take 1024 data)) (block_at i) d2 = take 1024 data"
    proof -
      have "bytes (length (take 1024 data)) (block_at i) d2 = bytes (length (take 1024 data)) (block_at i) d1"
      proof (rule bytes_cong)
        fix x :: nat assume "x < length (take 1024 data)"
        then have x: "x < EXT2_BLOCK_SIZE" by (simp add: EXT2_BLOCK_SIZE_def)
        show "d2 (block_at i + x) = d1 (block_at i + x)"
        proof (rule same)
          show "table_addr d \<le> block_at i + x" using fs_ok_free(1) [OF Suc.prems(1) g(2)] by (simp add: table_end_def)
          show "block_at i + x < ?c + 4 \<or> ?c + 4 + 4 * m \<le> block_at i + x"
            using free_apart [OF g(2) rest, of "block_at i + x"] x by simp
          show "block_at i + x < ib \<or> ib + 4 \<le> block_at i + x"
            using free_apart [OF g(2) Suc.prems(4), of "block_at i + x"] x by simp
          show "block_at i + x < block_at j \<or> block_at j + EXT2_BLOCK_SIZE \<le> block_at i + x" if "j \<in> I" for j
            using block_at_apart [of i j] iI that x by (cases "i = j") auto
        qed
      qed
      then show ?thesis using g(5) by simp
    qed
    have "while_data body [k ..< k + Suc m] (reading data d) = Inr (reading (drop (1024 * Suc m) data) d2)"
    proof -
      have "[k ..< k + Suc m] = k # [Suc k ..< Suc k + m]" by (simp add: upt_conv_Cons)
      moreover have "buffer (reading data d) \<noteq> []" using False by (simp add: EXT2_BLOCK_SIZE_def)
      ultimately show ?thesis using g(1) r(1) by (simp add: add.commute)
    qed
    moreover have "card (insert i I) = min (Suc m) (div_up (length data) 1024)"
      using iI finite_subset [OF I] r(3) n1 by simp
    moreover have "points_into d2 ?c (Suc m) (length data) (insert i I)"
    proof (rule points_into_Suc [OF p])
      show "points_into d2 (?c + 4) m (length data - 1024) (insert i I)" using r(4) by (auto simp: points_into_def)
    qed simp
    moreover have "read_blocks d2 ?c (Suc m) (length data) = take (1024 * Suc m) data"
    proof -
      have "min (length data) 1024 = length (take 1024 data)" by simp
      then have "read_blocks d2 ?c (Suc m) (length data) = take 1024 data @ take (1024 * m) (drop 1024 data)"
        using r(5) b bp p by (simp only: read_blocks.simps EXT2_BLOCK_SIZE_def length_drop)
      then show ?thesis by (simp add: take_add [symmetric])
    qed
    ultimately show ?thesis using t by blast
  qed
qed

section \<open>The file\<close>

text \<open>A block of pointers that was taken is filled in and counts as taken.\<close>

lemma taken_absorb:
  assumes "taken A {i} d d1" and "taken ({block_at i ..< block_at i + EXT2_BLOCK_SIZE} \<union> A) I d1 d2"
  shows "taken A (insert i I) d d2"
proof -
  have 1: "i \<in> free_blocks d" "free_blocks d1 = free_blocks d - {i}" "free_inodes d1 = free_inodes d" "table_addr d1 = table_addr d"
    "\<And>x. table_addr d \<le> x \<Longrightarrow> x \<notin> A \<Longrightarrow> x < block_at i \<or> block_at i + EXT2_BLOCK_SIZE \<le> x \<Longrightarrow> d1 x = d x"
    using assms(1) by (auto simp: taken_def)
  have 2: "I \<subseteq> free_blocks d1" "fs_ok d2" "free_blocks d2 = free_blocks d1 - I" "free_inodes d2 = free_inodes d1" "table_addr d2 = table_addr d1"
    "\<And>x. table_addr d1 \<le> x \<Longrightarrow> x \<notin> A \<Longrightarrow> x < block_at i \<or> block_at i + EXT2_BLOCK_SIZE \<le> x \<Longrightarrow>
      \<forall>j \<in> I. x < block_at j \<or> block_at j + EXT2_BLOCK_SIZE \<le> x \<Longrightarrow> d2 x = d1 x"
    using assms(2) by (auto simp: taken_def)
  show ?thesis
    unfolding taken_def
  proof (intro conjI allI impI)
    fix x assume "table_addr d \<le> x" "x \<notin> A" "\<forall>j \<in> insert i I. x < block_at j \<or> block_at j + EXT2_BLOCK_SIZE \<le> x"
    then show "d2 x = d x" using 1(4) 1(5) [of x] 2(6) [of x] by simp
  qed (use 1 2 in auto)
qed

lemma card_free: "fs_ok d \<Longrightarrow> card (free_blocks d) \<le> 127"
proof -
  assume ok: "fs_ok d"
  have "free_blocks d \<subseteq> {..< 127}" using fs_ok_free(2) [OF ok] by (force simp: block_at_def disk_size)
  then show ?thesis using card_mono [of "{..< 127}" "free_blocks d"] by simp
qed

lemma byte_counts:
  "DIRECT_BYTES = 12288" "INDIRECT_BYTES = 262144" "DOUBLE_BYTES = 67108864" "NUM_OF_PTRS_IN_BLOCK = 256"
  by (simp_all add: DIRECT_BYTES_def INDIRECT_BYTES_def DOUBLE_BYTES_def DIRECT_BLOCK_COUNT_def NUM_OF_PTRS_IN_BLOCK_def EXT2_BLOCK_SIZE_def)

lemma blocks_needed_small:
  assumes "blocks_needed n = Some k" and "k \<le> 127"
  shows "n < 12288 \<and> k = div_up n 1024 \<or> 12288 \<le> n \<and> n < 274432 \<and> k = 13 + div_up (n - 12288) 1024"
  using assms by (auto simp: blocks_needed_def byte_counts EXT2_BLOCK_SIZE_def DBLE_INDIRECT_BLOCK_def
      TPLE_INDIRECT_BLOCK_def TOTAL_BLOCK_COUNT_def Let_def split: if_splits)

lemma fill_rest_done: "fill_rest inode i k (reading [] d) = Inr (reading [] d)"
  by (simp add: fill_rest_def)

lemma read_blocks_none [simp]: "read_blocks d c m 0 = []"
  by (induction m arbitrary: c) (auto simp: bytes_def)

lemma i_block_cell: "i_block inode i = (inode + 40) + 4 * i"
  by (simp add: i_block_def)

text \<open>The direct blocks.\<close>

lemma fill_direct_run:
  assumes ok: "fs_ok d" and c: "cell_ok d inode INODE_SIZE" and n: "min 12 (div_up (length data) 1024) \<le> card (free_blocks d)"
  shows "\<exists>d' I. fill_direct_blocks inode (reading data d) = Inr (reading (drop 12288 data) d') \<and>
    taken {inode ..< inode + INODE_SIZE} I d d' \<and> card I = min 12 (div_up (length data) 1024) \<and>
    points_into d' (i_block inode 0) 12 (length data) I \<and>
    read_blocks d' (i_block inode 0) 12 (length data) = take 12288 data \<and> (\<forall>x < 28. d' (inode + x) = d (inode + x))"
proof -
  have c': "cell_ok d (inode + 40 + 4 * 0) (4 * 12)" "cell_ok d (i_blocks inode) 4"
    using c by (auto intro: cell_ok_sub simp: INODE_SIZE_def i_blocks_def)
  have w: "writes (\<lambda>n. [st32 (i_block inode i) n, add32 (i_blocks inode) 1]) (inode + 40 + 4 * i) (i_blocks inode)"
    if "i < 12" for i
    using that c unfolding i_block_cell
    by (intro writes_after) (auto simp: cell_ok_def apart_def i_blocks_def INODE_SIZE_def)
  have a: "apart (inode + 40 + 4 * 0) (4 * 12) (i_blocks inode) 4" by (simp add: apart_def i_blocks_def)
  obtain d' I where l: "while_data (\<lambda>i s. bindE (grab (\<lambda>n. [st32 (i_block inode i) n, add32 (i_blocks inode) 1])
      copy_data_to_block s) (\<lambda>s. Inr (fread s))) [0 ..< 0 + 12] (reading data d) = Inr (reading (drop (1024 * 12) data) d')"
    "taken ({inode + 40 + 4 * 0 ..< inode + 40 + 4 * 0 + 4 * 12} \<union> {i_blocks inode ..< i_blocks inode + 4}) I d d'"
    "card I = min 12 (div_up (length data) 1024)" "points_into d' (inode + 40 + 4 * 0) 12 (length data) I"
    "read_blocks d' (inode + 40 + 4 * 0) 12 (length data) = take (1024 * 12) data"
    using fill_loop [of d 0 12 "\<lambda>i n. [st32 (i_block inode i) n, add32 (i_blocks inode) 1]" "inode + 40" "i_blocks inode" data,
        OF ok _ c' a n] w by (auto simp del: mult_0_right)
  have "taken {inode ..< inode + INODE_SIZE} I d d'"
    by (rule taken_mono [OF l(2)]) (auto simp: INODE_SIZE_def i_blocks_def)
  moreover have "\<forall>x < 28. d' (inode + x) = d (inode + x)"
    by (intro allI impI taken_head [OF l(2) c]) (auto simp: i_blocks_def)
  ultimately show ?thesis
    using l by (intro exI [of _ d'] exI [of _ I])
      (simp add: fill_direct_blocks_def grab_for_inode_def DIRECT_BLOCK_COUNT_def i_block_cell)
qed

text \<open>The block of pointers and the blocks behind it.\<close>

lemma fill_indirect_run:
  assumes ok: "fs_ok d" and c: "cell_ok d inode INODE_SIZE" and ne: "data \<noteq> []"
    and n: "1 + min 256 (div_up (length data) 1024) \<le> card (free_blocks d)"
  shows "\<exists>d' i I. fill_rest inode INDIRECT_BLOCK 1 (reading data d) = Inr (reading (drop 262144 data) d') \<and>
    taken ({i_block inode 12 ..< i_block inode 12 + 4} \<union> {i_blocks inode ..< i_blocks inode + 4}) (insert i I) d d' \<and>
    get 4 (i_block inode 12) d' = TO_NUMBER i \<and> i \<in> free_blocks d \<and>
    card (insert i I) = 1 + min 256 (div_up (length data) 1024) \<and> points_into d' (block_at i) 256 (length data) I \<and>
    read_blocks d' (block_at i) 256 (length data) = take 262144 data"
proof -
  let ?s = "i_block inode 12" and ?ib = "i_blocks inode"
  let ?F = "\<lambda>n. [st32 ?s n, add32 ?ib 1]" and ?A = "{?s ..< ?s + 4} \<union> {?ib ..< ?ib + 4}"
  have cs: "cell_ok d ?s 4" "cell_ok d ?ib 4"
    using c by (auto intro: cell_ok_sub simp: INODE_SIZE_def i_blocks_def i_block_def)
  have w: "writes ?F ?s ?ib"
    using cs by (intro writes_after) (auto simp: cell_ok_def apart_def i_blocks_def i_block_def)
  have "free_blocks d \<noteq> {}" using n by auto
  from grab_run [OF ok this w cs, of "fill_tree inode 1" data]
  obtain i d1 where g: "grab ?F (fill_tree inode 1) (reading data d) = fill_tree inode 1 (block_at i) (reading data d1)"
    "i \<in> free_blocks d" "taken ?A {i} d d1" "get 4 ?s d1 = TO_NUMBER i" by blast
  have ok1: "fs_ok d1" "free_blocks d1 = free_blocks d - {i}" "table_addr d1 = table_addr d" using g(3) by (auto simp: taken_def)
  note f = fs_ok_free [OF ok g(2)]
  have ci: "cell_ok d1 (block_at i) EXT2_BLOCK_SIZE"
    unfolding cell_ok_def apart_def ok1
  proof (intro conjI ballI)
    show "table_addr d \<le> block_at i" using f(1) by (simp add: table_end_def)
    show "block_at i + EXT2_BLOCK_SIZE \<le> DISK_SIZE" by (rule f(2))
    show "block_at i + EXT2_BLOCK_SIZE \<le> block_at j \<or> block_at j + EXT2_BLOCK_SIZE \<le> block_at i" if "j \<in> free_blocks d - {i}" for j
      by (rule block_at_apart) (use that in auto)
  qed
  have cib: "cell_ok d1 ?ib 4" by (rule taken_cell [OF cs(2) g(3)])
  have ap: "?ib + 4 \<le> block_at i \<or> block_at i + EXT2_BLOCK_SIZE \<le> ?ib"
    using cs(2) g(2) by (auto simp: cell_ok_def apart_def)
  have wi: "writes (\<lambda>n. [add32 ?ib 1, st32 (block_at i + 4 * k) n]) (block_at i + 4 * k) ?ib" if "k < 256" for k
    using that ap ci cib by (intro writes_after) (auto simp: cell_ok_def apart_def EXT2_BLOCK_SIZE_def)
  have ci': "cell_ok d1 (block_at i + 4 * 0) (4 * 256)" using ci by (simp add: EXT2_BLOCK_SIZE_def)
  have ap': "apart (block_at i + 4 * 0) (4 * 256) ?ib 4" using ap by (auto simp: apart_def EXT2_BLOCK_SIZE_def)
  have "card (free_blocks d1) = card (free_blocks d) - 1" using ok1(2) g(2) by simp
  then have n': "min 256 (div_up (length data) 1024) \<le> card (free_blocks d1)" using n by simp
  obtain d2 I where l: "while_data (\<lambda>k s. bindE (grab (\<lambda>n. [add32 ?ib 1, st32 (block_at i + 4 * k) n])
      copy_data_to_block s) (\<lambda>s. Inr (fread s))) [0 ..< 0 + 256] (reading data d1) = Inr (reading (drop (1024 * 256) data) d2)"
    "taken ({block_at i + 4 * 0 ..< block_at i + 4 * 0 + 4 * 256} \<union> {?ib ..< ?ib + 4}) I d1 d2"
    "read_blocks d2 (block_at i + 4 * 0) 256 (length data) = take (1024 * 256) data"
    "points_into d2 (block_at i + 4 * 0) 256 (length data) I" "card I = min 256 (div_up (length data) 1024)"
    using fill_loop [of d1 0 256 "\<lambda>k n. [add32 ?ib 1, st32 (block_at i + 4 * k) n]" "block_at i" ?ib data,
        OF ok1(1) _ ci' cib ap' n'] wi by (auto simp del: mult_0_right)
  have "I \<subseteq> free_blocks d - {i}" using l(2) ok1(2) by (simp add: taken_def)
  then have cI: "card (insert i I) = 1 + min 256 (div_up (length data) 1024)"
    using l(5) finite_subset [OF _ finite_free_blocks [of d]] by (subst card_insert_disjoint) auto
  have t: "taken ?A (insert i I) d d2"
  proof (rule taken_absorb [OF g(3)])
    show "taken ({block_at i ..< block_at i + EXT2_BLOCK_SIZE} \<union> ?A) I d1 d2"
      by (rule taken_mono [OF l(2)]) (auto simp: EXT2_BLOCK_SIZE_def)
  qed
  have "get 4 ?s d2 = (get 4 ?s d1 :: u32)"
  proof (rule get_cong)
    fix x :: nat assume x: "x < 4"
    have c1: "cell_ok d1 ?s 4" by (rule taken_cell [OF cs(1) g(3)])
    have I: "I \<subseteq> free_blocks d1" using l(2) by (simp add: taken_def)
    have far: "?s + x < block_at j \<or> block_at j + EXT2_BLOCK_SIZE \<le> ?s + x" if "j \<in> free_blocks d" for j
      using cs(1) that x by (force simp: cell_ok_def apart_def)
    have "?s + x \<notin> {block_at i + 4 * 0 ..< block_at i + 4 * 0 + 4 * 256} \<union> {?ib ..< ?ib + 4}"
      using far [OF g(2)] x by (auto simp: EXT2_BLOCK_SIZE_def i_block_def i_blocks_def)
    moreover have "table_addr d1 \<le> ?s + x" using c1 by (simp add: cell_ok_def)
    moreover have "\<forall>j \<in> I. ?s + x < block_at j \<or> block_at j + EXT2_BLOCK_SIZE \<le> ?s + x" using far I ok1(2) by auto
    ultimately show "d2 (?s + x) = d1 (?s + x)" using l(2) unfolding taken_def by blast
  qed
  then show ?thesis
    using g l ne t cI by (intro exI [of _ d2] exI [of _ i] exI [of _ I])
      (simp add: fill_rest_def grab_for_inode_def INDIRECT_BLOCK_def byte_counts EXT2_BLOCK_SIZE_def)
qed

lemma INODE_cells: "{i_block inode 12 ..< i_block inode 12 + 4} \<union> {i_blocks inode ..< i_blocks inode + 4} \<subseteq> {inode ..< inode + INODE_SIZE}"
  by (auto simp: i_block_def i_blocks_def INODE_SIZE_def)

text \<open>Taking blocks keeps what was stored in other blocks that had been taken.\<close>

lemma direct_kept:
  assumes ok: "fs_ok d" and c: "cell_ok d inode INODE_SIZE"
    and t1: "taken {inode ..< inode + INODE_SIZE} I d d1" and p: "points_into d1 (i_block inode 0) 12 n I"
    and t2: "taken ({i_block inode 12 ..< i_block inode 12 + 4} \<union> {i_blocks inode ..< i_blocks inode + 4}) J d1 d2"
  shows "read_blocks d2 (i_block inode 0) 12 n = read_blocks d1 (i_block inode 0) 12 n"
    and "points_into d2 (i_block inode 0) 12 n I"
proof -
  have I: "I \<subseteq> free_blocks d" "free_blocks d1 = free_blocks d - I" "table_addr d1 = table_addr d" using t1 by (auto simp: taken_def)
  have J: "J \<subseteq> free_blocks d1" using t2 by (simp add: taken_def)
  have same: "d2 x = d1 x" if "table_addr d \<le> x" "x < i_block inode 12 \<or> i_block inode 12 + 4 \<le> x"
    "x < i_blocks inode \<or> i_blocks inode + 4 \<le> x" "\<And>j. j \<in> J \<Longrightarrow> x < block_at j \<or> block_at j + EXT2_BLOCK_SIZE \<le> x" for x
    using t2 that I(3) by (auto simp: taken_def)
  have cells: "d2 x = d1 x" if x: "i_block inode 0 \<le> x" "x < i_block inode 0 + 4 * 12" for x
  proof (rule same)
    show "table_addr d \<le> x" using c x by (simp add: cell_ok_def i_block_def)
    show "x < i_block inode 12 \<or> i_block inode 12 + 4 \<le> x" "x < i_blocks inode \<or> i_blocks inode + 4 \<le> x"
      using x by (auto simp: i_block_def i_blocks_def)
    show "x < block_at j \<or> block_at j + EXT2_BLOCK_SIZE \<le> x" if "j \<in> J" for j
    proof -
      have "j \<in> free_blocks d" using that J I(2) by auto
      then show ?thesis using free_apart [OF _ c, of j x] x by (auto simp: i_block_def INODE_SIZE_def)
    qed
  qed
  have blks: "d2 x = d1 x" if k: "k < 12" "1024 * k < n" and x: "block_ptr (get 4 (i_block inode 0 + 4 * k) d1) \<le> x"
    "x < block_ptr (get 4 (i_block inode 0 + 4 * k) d1) + EXT2_BLOCK_SIZE" for k x
  proof -
    obtain i where i: "i \<in> I" "get 4 (i_block inode 0 + 4 * k) d1 = TO_NUMBER i" using p k by (auto simp: points_into_def)
    have f: "i \<in> free_blocks d" using i(1) I(1) by auto
    have x': "block_at i \<le> x" "x < block_at i + EXT2_BLOCK_SIZE"
      using x unfolding i(2) block_ptr_number [OF fs_ok_free(2) [OF ok f]] by simp_all
    have out: "x < inode \<or> inode + INODE_SIZE \<le> x" using free_apart [OF f c, of x] x' by auto
    show ?thesis
    proof (rule same)
      show "table_addr d \<le> x" using fs_ok_free(1) [OF ok f] x' by (simp add: table_end_def)
      show "x < i_block inode 12 \<or> i_block inode 12 + 4 \<le> x" "x < i_blocks inode \<or> i_blocks inode + 4 \<le> x"
        using out by (auto simp: i_block_def i_blocks_def INODE_SIZE_def)
      show "x < block_at j \<or> block_at j + EXT2_BLOCK_SIZE \<le> x" if "j \<in> J" for j
        using block_at_apart [of i j] x' that J I(2) i(1) by (cases "i = j") auto
    qed
  qed
  show "read_blocks d2 (i_block inode 0) 12 n = read_blocks d1 (i_block inode 0) 12 n"
    by (rule read_blocks_cong) (rule cells, assumption+, rule blks, assumption+)
  have "get 4 (i_block inode 0 + 4 * k) d2 = (get 4 (i_block inode 0 + 4 * k) d1 :: u32)" if "k < 12" for k
    by (rule get_cong) (use that in \<open>intro cells; simp\<close>)
  then show "points_into d2 (i_block inode 0) 12 n I" using p by (simp add: points_into_def)
qed

text \<open>The data of a file of \<open>n\<close> bytes are in the blocks \<open>I\<close>.\<close>

definition file_on :: "disk \<Rightarrow> nat \<Rightarrow> nat \<Rightarrow> nat set \<Rightarrow> bool" where
  "file_on d inode n I \<longleftrightarrow> points_into d (i_block inode 0) 12 n I \<and>
     (12288 < n \<longrightarrow> (\<exists>i \<in> I. get 4 (i_block inode 12) d = TO_NUMBER i \<and> points_into d (block_at i) 256 (n - 12288) I))"

lemma read_kept:
  assumes "points_into d c m n I" and "\<forall>i \<in> I. block_at i + EXT2_BLOCK_SIZE \<le> DISK_SIZE"
    and "\<And>x. c \<le> x \<Longrightarrow> x < c + 4 * m \<Longrightarrow> d' x = d x"
    and "\<And>i x. i \<in> I \<Longrightarrow> block_at i \<le> x \<Longrightarrow> x < block_at i + EXT2_BLOCK_SIZE \<Longrightarrow> d' x = d x"
  shows "read_blocks d' c m n = read_blocks d c m n"
proof (rule read_blocks_cong)
  show "d' x = d x" if "c \<le> x" "x < c + 4 * m" for x by (rule assms(3) [OF that])
  show "d' x = d x" if k: "k < m" "1024 * k < n" and x: "block_ptr (get 4 (c + 4 * k) d) \<le> x"
    "x < block_ptr (get 4 (c + 4 * k) d) + EXT2_BLOCK_SIZE" for k x
  proof -
    obtain i where i: "i \<in> I" "get 4 (c + 4 * k) d = TO_NUMBER i" using assms(1) k by (auto simp: points_into_def)
    have "block_ptr (TO_NUMBER i) = block_at i" using assms(2) i(1) block_ptr_number by blast
    then show ?thesis using assms(4) [OF i(1)] x i(2) by simp
  qed
qed

lemma file_kept:
  assumes f: "file_on d inode n I" and I: "\<forall>i \<in> I. block_at i + EXT2_BLOCK_SIZE \<le> DISK_SIZE"
    and s: "\<And>x. inode \<le> x \<Longrightarrow> x < inode + INODE_SIZE \<Longrightarrow> d' x = d x"
    and b: "\<And>i x. i \<in> I \<Longrightarrow> block_at i \<le> x \<Longrightarrow> x < block_at i + EXT2_BLOCK_SIZE \<Longrightarrow> d' x = d x"
  shows "read_file d' inode n = read_file d inode n"
proof -
  have 1: "read_blocks d' (i_block inode 0) 12 n = read_blocks d (i_block inode 0) 12 n"
    by (rule read_kept [OF _ I _ b]) (use f s in \<open>auto simp: file_on_def i_block_def INODE_SIZE_def\<close>)
  show ?thesis
  proof (cases "12288 < n")
    case False
    then show ?thesis using 1 by (simp add: read_file_def DIRECT_BLOCK_COUNT_def byte_counts)
  next
    case True
    then obtain i where i: "i \<in> I" "get 4 (i_block inode 12) d = TO_NUMBER i" "points_into d (block_at i) 256 (n - 12288) I"
      using f by (auto simp: file_on_def)
    have bp: "block_ptr (TO_NUMBER i) = block_at i" using I i(1) block_ptr_number by blast
    have "get 4 (i_block inode 12) d' = (get 4 (i_block inode 12) d :: u32)"
      by (rule get_cong) (use s in \<open>simp add: i_block_def INODE_SIZE_def\<close>)
    moreover have "read_blocks d' (block_at i) 256 (n - 12288) = read_blocks d (block_at i) 256 (n - 12288)"
      by (rule read_kept [OF i(3) I _ b]) (use b i(1) in \<open>auto simp: EXT2_BLOCK_SIZE_def\<close>)
    ultimately show ?thesis
      using 1 i(2) bp by (simp add: read_file_def DIRECT_BLOCK_COUNT_def byte_counts INDIRECT_BLOCK_def)
  qed
qed

text \<open>
  If \<open>have_enough_blocks\<close> lets the file pass, its data can be read back through the
  inode; the blocks taken were free and not more than it has counted, and nothing else of
  the image has changed.
\<close>

lemma copy_content_run:
  assumes ok: "fs_ok d" and c: "cell_ok d inode INODE_SIZE" and e: "have_enough_blocks (length bs) d = Inr True"
  shows "\<exists>d' I. copy_content inode bs d = Inr d' \<and> taken {inode ..< inode + INODE_SIZE} I d d' \<and>
    file_on d' inode (length bs) I \<and> read_file d' inode (length bs) = bs \<and> (\<forall>k. blocks_needed (length bs) = Some k \<longrightarrow> card I \<le> k) \<and>
    (\<forall>x < 28. d' (inode + x) = d (inode + x))"
proof -
  have "bg_free_blocks_count get_group_descriptor + 2 \<le> DISK_SIZE" by (simp add: field_defs get_group_descriptor_def disk_size)
  then obtain k where k: "blocks_needed (length bs) = Some k" "k \<le> card (free_blocks d)"
    using e free_count [OF ok] by (auto simp: have_enough_blocks_def split: option.splits)
  have n: "length bs < 12288 \<and> k = div_up (length bs) 1024 \<or>
      12288 \<le> length bs \<and> length bs < 274432 \<and> k = 13 + div_up (length bs - 12288) 1024"
    using k card_free [OF ok] by (intro blocks_needed_small) auto
  have "min 12 (div_up (length bs) 1024) \<le> card (free_blocks d)" using n k(2) by auto
  then obtain d1 I where l: "fill_direct_blocks inode (reading bs d) = Inr (reading (drop 12288 bs) d1)"
    "taken {inode ..< inode + INODE_SIZE} I d d1" "card I = min 12 (div_up (length bs) 1024)"
    "points_into d1 (i_block inode 0) 12 (length bs) I" "read_blocks d1 (i_block inode 0) 12 (length bs) = take 12288 bs"
    "\<forall>x < 28. d1 (inode + x) = d (inode + x)"
    using fill_direct_run [OF ok c] by blast
  have run: "copy_content inode bs d = bindE (seqE [fill_rest inode INDIRECT_BLOCK 1, fill_rest inode DBLE_INDIRECT_BLOCK 2,
      fill_rest inode TPLE_INDIRECT_BLOCK 3] (reading (drop 12288 bs) d1)) (\<lambda>s. Inr (image s))"
    unfolding copy_content_def reading_def [symmetric] seqE.simps l(1) by simp
  show ?thesis
  proof (cases "length bs \<le> 12288")
    case True
    then have "card I \<le> k" using n l(3) by auto
    then show ?thesis
      using True l run k(1) by (intro exI [of _ d1] exI [of _ I])
        (simp add: fill_rest_done read_file_def DIRECT_BLOCK_COUNT_def byte_counts file_on_def)
  next
    case False
    let ?data = "drop 12288 bs"
    have I: "I \<subseteq> free_blocks d" "free_blocks d1 = free_blocks d - I" "fs_ok d1" using l(2) by (auto simp: taken_def)
    have "12 \<le> div_up (length bs) 1024" using False div_up_le [of "length bs" 11] by simp
    then have "card (free_blocks d1) = card (free_blocks d) - 12"
      using card_Diff_subset [OF finite_subset [OF I(1)] I(1)] I(2) l(3) by simp
    then have m: "1 + min 256 (div_up (length ?data) 1024) \<le> card (free_blocks d1)" using n k(2) False by auto
    have ne: "?data \<noteq> []" using False by simp
    obtain d2 i J where r: "fill_rest inode INDIRECT_BLOCK 1 (reading ?data d1) = Inr (reading (drop 262144 ?data) d2)"
      "taken ({i_block inode 12 ..< i_block inode 12 + 4} \<union> {i_blocks inode ..< i_blocks inode + 4}) (insert i J) d1 d2"
      "get 4 (i_block inode 12) d2 = TO_NUMBER i" "i \<in> free_blocks d1"
      "points_into d2 (block_at i) 256 (length ?data) J" "read_blocks d2 (block_at i) 256 (length ?data) = take 262144 ?data"
      "card (insert i J) = 1 + min 256 (div_up (length ?data) 1024)"
      using fill_indirect_run [OF I(3) taken_cell [OF c l(2)] ne m] by blast
    have fin: "drop 262144 ?data = []" "take 262144 ?data = ?data" using n False by auto
    have t: "taken {inode ..< inode + INODE_SIZE} (I \<union> insert i J) d d2"
      by (rule taken_trans [OF l(2) taken_mono [OF r(2) INODE_cells]])
    have "\<forall>x < 28. d2 (inode + x) = d1 (inode + x)"
      by (intro allI impI taken_head [OF r(2) taken_cell [OF c l(2)]]) (auto simp: i_blocks_def i_block_def)
    then have hd: "\<forall>x < 28. d2 (inode + x) = d (inode + x)" using l(6) by simp
    have bp: "block_ptr (TO_NUMBER i) = block_at i"
      using r(4) I(2) by (intro block_ptr_number [OF fs_ok_free(2) [OF ok]]) auto
    have "points_into d2 (i_block inode 0) 12 (length bs) (I \<union> insert i J)"
      "points_into d2 (block_at i) 256 (length bs - 12288) (I \<union> insert i J)"
      using direct_kept(2) [OF ok c l(2,4) r(2)] r(5) by (auto simp: points_into_def)
    then have fo: "file_on d2 inode (length bs) (I \<union> insert i J)" using r(3) by (auto simp: file_on_def)
    have "read_file d2 inode (length bs) = bs"
      using direct_kept(1) [OF ok c l(2,4) r(2)] l(5) r(3,6) fin(2)
      by (simp add: read_file_def DIRECT_BLOCK_COUNT_def byte_counts INDIRECT_BLOCK_def bp)
    moreover have "card (I \<union> insert i J) \<le> k" using card_Un_le [of I "insert i J"] r(7) l(3) n False by auto
    ultimately show ?thesis
      using run r(1) t fo fin(1) k(1) hd by (intro exI [of _ d2] exI [of _ "I \<union> insert i J"]) (simp add: fill_rest_done)
  qed
qed

end
