(* ===== verification/Ext2_Create.thy ===== *)
theory Ext2_Create
  imports Ext2_Add Ext2_Copy
begin

text \<open>
  The parts of a new name: an inode from the table, the block of a new directory with the
  entries \<open>.\<close> and \<open>..\<close>, and an entry in a directory with room for it.
\<close>

section \<open>A new inode\<close>

lemma init_inode_run:
  assumes m: "inode + INODE_SIZE \<le> DISK_SIZE"
  shows "\<exists>d'. init_inode E inode mode sz d = Inr d' \<and> get 2 (i_mode inode) d' = mode \<and>
    get 4 (i_size inode) d' = sz \<and> get 2 (i_links_count inode) d' = (1 :: u16) \<and> get 4 (i_blocks inode) d' = (0 :: u32) \<and>
    (\<forall>k < TOTAL_BLOCK_COUNT. inode_block d' inode k = 0) \<and>
    (\<forall>x. x < inode \<or> inode + INODE_SIZE \<le> x \<longrightarrow> d' x = d x)"
proof -
  define d1 where "d1 = put (inode + 112) (store_le 4 (0 :: u32)) (put (inode + 108) (store_le 4 (0 :: u32))
    (put (inode + 104) (store_le 4 (0 :: u32)) (put (inode + 100) (store_le 4 (0 :: u32)) (put (inode + 36) (store_le 4 (0 :: u32))
    (put (inode + 28) (store_le 4 (0 :: u32)) (put (inode + 26) (store_le 2 (1 :: u16)) (put (inode + 24) (store_le 2 (0 :: u16))
    (put (inode + 20) (store_le 4 (0 :: u32)) (put (inode + 12) (store_le 4 (now E)) (put (inode + 4) (store_le 4 sz)
    (put (inode + 2) (store_le 2 (0 :: u16)) (put inode (store_le 2 mode) d))))))))))))"
  define clear where "clear n = forE (\<lambda>i. st32 (i_block inode i) 0) [0 ..< n] d1" for n
  have run: "init_inode E inode mode sz d = clear TOTAL_BLOCK_COUNT"
    using m by (simp add: init_inode_def clear_def field_defs INODE_SIZE_def d1_def)
  have loop: "\<exists>d'. clear n = Inr d' \<and> (\<forall>k < n. inode_block d' inode k = 0) \<and>
      (\<forall>x. x < inode + 40 \<or> inode + 100 \<le> x \<longrightarrow> d' x = d1 x)" if "n \<le> 15" for n
    using that
  proof (induction n)
    case 0
    then show ?case by (simp add: clear_def)
  next
    case (Suc n)
    then obtain d' where d': "clear n = Inr d'" "\<forall>k < n. inode_block d' inode k = 0"
      "\<forall>x. x < inode + 40 \<or> inode + 100 \<le> x \<longrightarrow> d' x = d1 x" by auto
    have "clear (Suc n) = Inr (put (i_block inode n) (store_le 4 (0 :: u32)) d')"
      using d'(1) Suc.prems m unfolding clear_def forE_Suc by (simp add: i_block_def INODE_SIZE_def)
    then show ?case
      using d'(2,3) Suc.prems
      by (auto simp: less_Suc_eq inode_block_def i_block_def get_put_same get_put_other put_outside)
  qed
  obtain d' where d': "clear 15 = Inr d'" "\<forall>k < 15. inode_block d' inode k = 0"
    "\<forall>x. x < inode + 40 \<or> inode + 100 \<le> x \<longrightarrow> d' x = d1 x" using loop [of 15] by auto
  have g2: "get 2 (inode + a) d' = (get 2 (inode + a) d1 :: u16)" if "a + 2 \<le> 40" for a
    by (rule get_cong) (use that d'(3) in simp)
  have g4: "get 4 (inode + a) d' = (get 4 (inode + a) d1 :: u32)" if "a + 4 \<le> 40" for a
    by (rule get_cong) (use that d'(3) in simp)
  have f: "get 2 inode d' = mode" "get 4 (inode + 4) d' = sz" "get 2 (inode + 26) d' = (1 :: u16)"
    "get 4 (inode + 28) d' = (0 :: u32)"
    using g2 [of 0] g4 [of 4] g2 [of 26] g4 [of 28] by (simp_all add: d1_def get_put_same get_put_other)
  have o: "d' x = d x" if "x < inode \<or> inode + 128 \<le> x" for x
    using that d'(3) by (auto simp: d1_def put_outside)
  show ?thesis
    using run d'(1,2) f o by (intro exI [of _ d'])
      (simp add: TOTAL_BLOCK_COUNT_def INODE_SIZE_def i_mode_def i_size_def i_links_count_def i_blocks_def)
qed

section \<open>Inodes in the table\<close>

definition inode_at :: "disk \<Rightarrow> nat \<Rightarrow> nat" where
  "inode_at d i = table_addr d + i * INODE_SIZE"

lemma inode_ptr_at:
  assumes "fs_ok d" and "i < BITS"
  shows "inode_ptr (TO_NUMBER i) d = Inr (inode_at d i)"
proof -
  have t: "get_inode_table d = Inr (table_addr d)"
    by (simp add: get_inode_table_def table_addr_def field_defs get_group_descriptor_def disk_size)
  have "unat (TO_INDEX (TO_NUMBER i)) = i"
    using unat_dec [OF unat_to_number [OF assms(2)]] by (simp add: TO_INDEX_def)
  then show ?thesis by (simp add: inode_ptr_def t inode_at_def)
qed

lemma inode_cell:
  assumes "fs_ok d" and "i < inode_count d"
  shows "cell_ok d (inode_at d i) INODE_SIZE"
proof -
  have "inode_at d i + INODE_SIZE \<le> table_end d"
    using assms(2) mult_le_mono1 [of "i + 1" "inode_count d" INODE_SIZE] by (simp add: inode_at_def table_end_def)
  moreover have "table_addr d \<le> inode_at d i" by (simp add: inode_at_def)
  ultimately show ?thesis
    using fs_ok_free(1) [OF assms(1)] fs_okD(7) [OF assms(1)] by (force simp: cell_ok_def apart_def)
qed

lemma inode_at_apart: "i \<noteq> j \<Longrightarrow> inode_at d i + INODE_SIZE \<le> inode_at d j \<or> inode_at d j + INODE_SIZE \<le> inode_at d i"
proof -
  assume "i \<noteq> j"
  then consider "i + 1 \<le> j" | "j + 1 \<le> i" by linarith
  then show ?thesis by cases (simp_all add: inode_at_def INODE_SIZE_def)
qed

lemma free_inode_bound: "fs_ok d \<Longrightarrow> i \<in> free_inodes d \<Longrightarrow> i < inode_count d \<and> i < BITS"
  using fs_okD(4) by (fastforce simp: free_inodes_def unmarked_def)

section \<open>The block of a new directory\<close>

lemma dot_block:
  assumes B: "block_at j + EXT2_BLOCK_SIZE \<le> DISK_SIZE" and n: "ino \<noteq> 0" "parent \<noteq> 0"
  shows "\<exists>d1 d2. make_dot_entry ino (TO_NUMBER j) d = Inr d1 \<and>
    allocate_space_in_block 2 (TO_NUMBER j) parent [DOT, DOT] EXT2_FT_DIR d1 = Inr (True, d2) \<and>
    dir_block d2 (block_at j) [block_at j, block_at j + 12] \<and>
    listing d2 [block_at j, block_at j + 12] = [([DOT], ino, EXT2_FT_DIR), ([DOT, DOT], parent, EXT2_FT_DIR)] \<and>
    (\<forall>x. x < block_at j \<or> block_at j + EXT2_BLOCK_SIZE \<le> x \<longrightarrow> d2 x = d x)"
proof -
  let ?B = "block_at j"
  have bp: "block_ptr (TO_NUMBER j) = ?B" by (rule block_ptr_number [OF B])
  define d1 where "d1 = put (?B + 7) [EXT2_FT_DIR] (put (?B + 8) [DOT] (put (?B + 4) (store_le 2 (1024 :: u16))
    (put (?B + 6) [1 :: u8] (put ?B (store_le 4 ino) d))))"
  have s1: "store_le 1 w = [w]" for w :: u8 by (rule store_le_1)
  have run: "make_dot_entry ino (TO_NUMBER j) d = Inr d1"
    using B unfolding make_dot_entry_def Let_def bp
    by (simp add: field_defs EXT2_BLOCK_SIZE_def s1 [simplified] d1_def)
  have f: "e_inode d1 ?B = ino" "e_rec_len d1 ?B = 1024" "e_name_len d1 ?B = 1" "e_file_type d1 ?B = EXT2_FT_DIR"
  proof -
    show "e_inode d1 ?B = ino" "e_rec_len d1 ?B = 1024"
      by (simp_all add: e_inode_def e_rec_len_def field_defs d1_def get_put_same get_put_other)
    show "e_name_len d1 ?B = 1" "e_file_type d1 ?B = EXT2_FT_DIR"
      by (simp_all add: e_name_len_def e_file_type_def field_defs d1_def put_def)
  qed
  have nm: "e_name d1 ?B = [DOT]"
  proof -
    have "unat (e_name_len d1 ?B) = 1" using f by simp
    then show ?thesis by (simp add: e_name_def field_defs bytes_def) (simp add: d1_def put_def)
  qed
  have s12: "entry_size 1 = 12" "entry_size 2 = 12" by (simp_all add: entry_size_def round4_def)
  have blk: "dir_block d1 ?B [?B]"
    using B by (simp add: dir_block_def entry_fits_def f s12 EXT2_BLOCK_SIZE_def)
  have u: "\<not> unused d1 ?B" using f n by (simp add: unused_def)
  have two: "of_nat (length [DOT, DOT]) = (2 :: u8)" "length [DOT, DOT] < 256" by simp_all
  have room: "room_behind d1 ?B (length [DOT, DOT])" "room_test d1 ?B (length [DOT, DOT])"
    by (simp_all add: room_behind_def room_test_def f s12 round4_def)
  have blk0: "dir_block d1 ?B ([] @ [?B])" using blk by simp
  note S = split_last [OF blk0 u two(2) n(2) room, where ft = EXT2_FT_DIR, unfolded f s12 two(1)]
  let ?d2 = "split_disk ?B parent [DOT, DOT] EXT2_FT_DIR d1"
  have "allocate_space_in_block 2 (TO_NUMBER j) parent [DOT, DOT] EXT2_FT_DIR d1 = Inr (True, ?d2)"
    using allocate_cases [of d1 "TO_NUMBER j" "[?B]" "[DOT, DOT]" parent EXT2_FT_DIR] blk u S(1) two(1) by (simp add: bp)
  moreover have "d1 x = d x" if "x < ?B \<or> ?B + EXT2_BLOCK_SIZE \<le> x" for x
    using that by (auto simp: d1_def put_outside EXT2_BLOCK_SIZE_def)
  moreover have "listing d1 [?B] = [([DOT], ino, EXT2_FT_DIR)]"
    using u by (simp add: listing_Cons entry_view_def f nm)
  ultimately show ?thesis
    using run S(2,3,4) by (intro exI [of _ d1] exI [of _ ?d2]) simp
qed

section \<open>Making a directory\<close>

text \<open>A directory whose blocks are in use and not shared with other data.\<close>

definition used_dir :: "disk \<Rightarrow> nat \<Rightarrow> nat list list \<Rightarrow> bool" where
  "used_dir d inode ess \<longleftrightarrow> dir_ok d inode ess \<and> distinct (dir_blocks d inode) \<and>
     (\<forall>b \<in> set (dir_blocks d inode). table_end d \<le> block_start b \<and> (\<forall>i \<in> free_blocks d. block_start b \<noteq> block_at i))"

lemma inode_in_table:
  assumes "i < inode_count d"
  shows "table_addr d \<le> inode_at d i" "inode_at d i + INODE_SIZE \<le> table_end d"
  using assms mult_le_mono1 [of "i + 1" "inode_count d" INODE_SIZE] by (simp_all add: inode_at_def table_end_def)

lemma used_dir_sep:
  assumes "used_dir d (inode_at d k) ess" and "i < inode_count d"
  shows "inode_at d i \<le> x \<Longrightarrow> x < inode_at d i + INODE_SIZE \<Longrightarrow> outside_blocks (dir_blocks d (inode_at d k)) x"
  using assms(1) inode_in_table [OF assms(2)] by (force simp: used_dir_def outside_blocks_def)

lemma used_block_apart:
  assumes "used_dir d inode ess" and "b \<in> set (dir_blocks d inode)" and "i \<in> free_blocks d"
  shows "block_start b + EXT2_BLOCK_SIZE \<le> block_at i \<or> block_at i + EXT2_BLOCK_SIZE \<le> block_start b"
proof -
  have "block_start b \<noteq> block_at i" using assms by (simp add: used_dir_def)
  then have "unat b \<noteq> i + 1" by (auto simp: block_at_def)
  then consider "unat b + 1 \<le> i + 1" | "i + 2 \<le> unat b" by linarith
  then show ?thesis by cases (simp_all add: block_at_def EXT2_BLOCK_SIZE_def)
qed

lemma get_st:
  assumes "store n a w d = Inr d'"
  shows "b + m \<le> a \<or> a + n \<le> b \<Longrightarrow> get m b d' = get m b d" "LENGTH('a) \<le> 8 * n \<Longrightarrow> get n a d' = (w :: 'a::len word)"
    "x < a \<or> a + n \<le> x \<Longrightarrow> d' x = d x"
  using assms by (auto simp: store_def get_put_other get_put_same put_outside split: if_splits)

text \<open>The first block of a new inode.\<close>

lemma give_block:
  assumes ok: "fs_ok d" and ne: "free_blocks d \<noteq> {}" and c: "cell_ok d N INODE_SIZE" and z: "get 4 (i_blocks N) d = (0 :: u32)"
  shows "\<exists>j e1 e2 e3. find_free_block d = Inr (TO_NUMBER j) \<and> TO_NUMBER j \<noteq> 0 \<and> update_bitmap CHR ''b'' (TO_NUMBER j) True d = Inr e1 \<and>
    st32 (i_block N 0) (TO_NUMBER j) e1 = Inr e2 \<and> add32 (i_blocks N) 1 e2 = Inr e3 \<and> j \<in> free_blocks d \<and>
    taken {N ..< N + INODE_SIZE} {j} d e3 \<and> inode_block e3 N 0 = TO_NUMBER j \<and> get 4 (i_blocks N) e3 = (1 :: u32) \<and>
    (\<forall>k < TOTAL_BLOCK_COUNT. 0 < k \<longrightarrow> inode_block e3 N k = inode_block d N k) \<and>
    get 2 (i_mode N) e3 = (get 2 (i_mode N) d :: u16) \<and> get 2 (i_links_count N) e3 = (get 2 (i_links_count N) d :: u16)"
proof -
  obtain j e1 where t: "find_free_block d = Inr (TO_NUMBER j)" "update_bitmap CHR ''b'' (TO_NUMBER j) True d = Inr e1"
    "j \<in> free_blocks d" "fs_ok e1" "free_blocks e1 = free_blocks d - {j}" "free_inodes e1 = free_inodes d"
    "\<forall>a \<ge> table_addr d. e1 a = d a" "table_addr e1 = table_addr d" using take_block [OF ok ne] by blast
  have N: "table_addr d \<le> N" "N + 128 \<le> DISK_SIZE" using c by (auto simp: cell_ok_def INODE_SIZE_def)
  let ?e2 = "put (N + 40) (store_le 4 (TO_NUMBER j)) e1"
  let ?e3 = "put (N + 28) (store_le 4 (get 4 (N + 28) ?e2 + 1 :: u32)) ?e2"
  have run: "st32 (i_block N 0) (TO_NUMBER j) e1 = Inr ?e2" "add32 (i_blocks N) 1 ?e2 = Inr ?e3"
    using N by (simp_all add: i_block_def i_blocks_def add32_run)
  have g1: "get 4 (N + a) e1 = (get 4 (N + a) d :: u32)" "get 2 (N + a) e1 = (get 2 (N + a) d :: u16)" for a
    by (rule get_cong; use t(7) N in simp)+
  have "taken {N ..< N + INODE_SIZE} {j} d e1" using t by (simp add: taken_def)
  then have tk: "taken {N ..< N + INODE_SIZE} {j} d ?e3"
    by (rule taken_store) (use N ok in \<open>auto simp: put_outside INODE_SIZE_def\<close>)
  have b0: "inode_block ?e3 N 0 = TO_NUMBER j" by (simp add: inode_block_def i_block_def get_put_other get_put_same)
  have bk: "inode_block ?e3 N k = inode_block d N k" if "0 < k" for k
    using that g1(1) [of "40 + 4 * k"] by (simp add: inode_block_def i_block_def get_put_other add.assoc)
  have n1: "get 4 (i_blocks N) ?e3 = (1 :: u32)"
    using z g1(1) [of 28] by (simp add: i_blocks_def get_put_other get_put_same)
  have m: "get 2 (i_mode N) ?e3 = (get 2 (i_mode N) d :: u16)" "get 2 (i_links_count N) ?e3 = (get 2 (i_links_count N) d :: u16)"
    using g1(2) [of 0] g1(2) [of 26] by (simp_all add: i_mode_def i_links_count_def get_put_other)
  show ?thesis
    using t(1,2,3) run tk b0 bk n1 m to_number_nonzero [OF fs_ok_free(2) [OF ok t(3)]]
    by (intro exI [of _ j] exI [of _ e1] exI [of _ ?e2] exI [of _ ?e3]) simp
qed

lemma dir_blocks_single:
  assumes "inode_block d N 0 = b" "b \<noteq> 0" and "\<forall>k < TOTAL_BLOCK_COUNT. 0 < k \<longrightarrow> inode_block d N k = 0"
  shows "dir_blocks d N = [b]"
proof -
  have "[0 ..< TOTAL_BLOCK_COUNT] = 0 # [1 ..< TOTAL_BLOCK_COUNT]" by (simp add: TOTAL_BLOCK_COUNT_def upt_conv_Cons)
  moreover have "filter (\<lambda>b. b \<noteq> 0) (map (inode_block d N) [1 ..< TOTAL_BLOCK_COUNT]) = []"
    using assms(3) by (auto simp: filter_empty_conv)
  ultimately show ?thesis using assms(1,2) by (simp add: dir_blocks_def)
qed

text \<open>The inode and the block of a new directory, up to line 80.\<close>

lemma fresh_directory:
  assumes ok: "fs_ok d" and ne: "free_blocks d \<noteq> {}" and c: "cell_ok d N INODE_SIZE" and n: "ino \<noteq> 0" "parent \<noteq> 0"
  shows "\<exists>d1 d2 j d3 d4 d5 d6 d7. init_inode E N EXT2_S_IFDIR (of_nat EXT2_BLOCK_SIZE) d = Inr d1 \<and>
    st16 (i_links_count N) 2 d1 = Inr d2 \<and> find_free_block d2 = Inr (TO_NUMBER j) \<and> TO_NUMBER j \<noteq> 0 \<and>
    update_bitmap CHR ''b'' (TO_NUMBER j) True d2 = Inr d3 \<and> st32 (i_block N 0) (TO_NUMBER j) d3 = Inr d4 \<and>
    add32 (i_blocks N) 1 d4 = Inr d5 \<and> make_dot_entry ino (TO_NUMBER j) d5 = Inr d6 \<and>
    allocate_space_in_block 2 (TO_NUMBER j) parent [DOT, DOT] EXT2_FT_DIR d6 = Inr (True, d7) \<and>
    j \<in> free_blocks d \<and> taken {N ..< N + INODE_SIZE} {j} d d7 \<and>
    dir_ok d7 N [[block_at j, block_at j + 12]] \<and> dir_blocks d7 N = [TO_NUMBER j] \<and>
    listing d7 [block_at j, block_at j + 12] = [([DOT], ino, EXT2_FT_DIR), ([DOT, DOT], parent, EXT2_FT_DIR)] \<and>
    get 2 (i_mode N) d7 = EXT2_S_IFDIR \<and> get 2 (i_links_count N) d7 = (2 :: u16)"
proof -
  have N: "table_addr d \<le> N" "N + INODE_SIZE \<le> DISK_SIZE" using c by (auto simp: cell_ok_def)
  obtain d1 where d1: "init_inode E N EXT2_S_IFDIR (of_nat EXT2_BLOCK_SIZE) d = Inr d1" "get 2 (i_mode N) d1 = EXT2_S_IFDIR"
    "get 4 (i_blocks N) d1 = (0 :: u32)" "\<forall>k < TOTAL_BLOCK_COUNT. inode_block d1 N k = 0"
    "\<forall>x. x < N \<or> N + INODE_SIZE \<le> x \<longrightarrow> d1 x = d x" using init_inode_run [OF N(2)] by blast
  let ?d2 = "put (N + 26) (store_le 2 (2 :: u16)) d1"
  have s2: "st16 (i_links_count N) 2 d1 = Inr ?d2" using N by (simp add: i_links_count_def INODE_SIZE_def)
  note g2 = get_st [OF s2, unfolded i_links_count_def]
  have f2: "get 2 (i_mode N) ?d2 = EXT2_S_IFDIR" "get 4 (i_blocks N) ?d2 = (0 :: u32)" "get 2 (i_links_count N) ?d2 = (2 :: u16)"
    "\<forall>k < TOTAL_BLOCK_COUNT. inode_block ?d2 N k = 0"
    using d1(2-4) by (simp_all add: i_mode_def i_blocks_def i_links_count_def inode_block_def i_block_def get_put_other get_put_same)
  have t2: "taken {N ..< N + INODE_SIZE} {} d ?d2"
    by (rule taken_store [OF taken_refl [OF ok] _ _ ok]) (use d1(5) N in \<open>auto simp: put_outside INODE_SIZE_def\<close>)
  have ok2: "fs_ok ?d2" "free_blocks ?d2 = free_blocks d" using t2 by (auto simp: taken_def)
  obtain j d3 d4 d5 where b: "find_free_block ?d2 = Inr (TO_NUMBER j)" "TO_NUMBER j \<noteq> 0" "update_bitmap CHR ''b'' (TO_NUMBER j) True ?d2 = Inr d3"
    "st32 (i_block N 0) (TO_NUMBER j) d3 = Inr d4" "add32 (i_blocks N) 1 d4 = Inr d5" "j \<in> free_blocks d"
    "taken {N ..< N + INODE_SIZE} {j} ?d2 d5" "inode_block d5 N 0 = TO_NUMBER j"
    "\<forall>k < TOTAL_BLOCK_COUNT. 0 < k \<longrightarrow> inode_block d5 N k = inode_block ?d2 N k"
    "get 2 (i_mode N) d5 = EXT2_S_IFDIR" "get 2 (i_links_count N) d5 = (2 :: u16)"
    using give_block [OF ok2(1) _ taken_cell [OF c t2] f2(2)] ne ok2(2) f2(1,3) by metis
  note B = fs_ok_free [OF ok b(6)]
  obtain d6 d7 where e: "make_dot_entry ino (TO_NUMBER j) d5 = Inr d6"
    "allocate_space_in_block 2 (TO_NUMBER j) parent [DOT, DOT] EXT2_FT_DIR d6 = Inr (True, d7)"
    "dir_block d7 (block_at j) [block_at j, block_at j + 12]"
    "listing d7 [block_at j, block_at j + 12] = [([DOT], ino, EXT2_FT_DIR), ([DOT, DOT], parent, EXT2_FT_DIR)]"
    "\<forall>x. x < block_at j \<or> block_at j + EXT2_BLOCK_SIZE \<le> x \<longrightarrow> d7 x = d5 x" using dot_block [OF B(2) n] by blast
  have t5: "taken {N ..< N + INODE_SIZE} {j} d d5" using taken_trans [OF t2 b(7)] by simp
  then have t7: "taken {N ..< N + INODE_SIZE} {j} d d7"
    by (rule taken_store) (use e(5) N ok in auto)
  have out: "d7 x = d5 x" if "N \<le> x" "x < N + INODE_SIZE" for x
    using free_apart [OF b(6) c, of x] e(5) that by auto
  have g: "get 4 (N + a) d7 = (get 4 (N + a) d5 :: u32)" "get 2 (N + a) d7 = (get 2 (N + a) d5 :: u16)" if "a + 4 \<le> INODE_SIZE" for a
    by (rule get_cong; use out that in simp)+
  have ib: "inode_block d7 N k = inode_block d5 N k" if "k < TOTAL_BLOCK_COUNT" for k
    using g(1) [of "40 + 4 * k"] that by (simp add: inode_block_def i_block_def INODE_SIZE_def TOTAL_BLOCK_COUNT_def add.assoc)
  have db: "dir_blocks d7 N = [TO_NUMBER j]"
    by (rule dir_blocks_single) (use ib b(2,8,9) f2(4) in \<open>simp_all add: TOTAL_BLOCK_COUNT_def\<close>)
  have bs: "block_start (TO_NUMBER j) = block_at j"
    using free_inode_bound fs_okD(3) [OF ok] b(6) unat_to_number [of j]
    by (simp add: block_at_def free_blocks_def unmarked_def)
  have "dir_ok d7 N [[block_at j, block_at j + 12]]"
    using e(3) N(2) bs by (simp add: dir_ok_def db)
  moreover have "get 2 (i_mode N) d7 = EXT2_S_IFDIR" "get 2 (i_links_count N) d7 = (2 :: u16)"
    using g(2) [of 0] g(2) [of 26] b(10,11) by (simp_all add: i_mode_def i_links_count_def INODE_SIZE_def)
  ultimately show ?thesis using d1(1) s2 b(1-6) e(1,2,4) t7 db by blast
qed

text \<open>From the table of inodes on only \<open>A\<close> and the blocks \<open>J\<close> have changed.\<close>

definition unchanged :: "nat set \<Rightarrow> nat set \<Rightarrow> disk \<Rightarrow> disk \<Rightarrow> bool" where
  "unchanged A J d e \<longleftrightarrow> (\<forall>x \<ge> table_addr d. x \<notin> A \<longrightarrow>
     (\<forall>i \<in> J. x < block_at i \<or> block_at i + EXT2_BLOCK_SIZE \<le> x) \<longrightarrow> e x = d x)"

lemma taken_unchanged: "taken A J d e \<Longrightarrow> unchanged A J d e"
  unfolding taken_def unchanged_def by blast

lemma unchangedI:
  assumes "\<And>x. table_addr d \<le> x \<Longrightarrow> x \<notin> A \<Longrightarrow> (\<And>i. i \<in> J \<Longrightarrow> x < block_at i \<or> block_at i + EXT2_BLOCK_SIZE \<le> x) \<Longrightarrow> e x = d x"
  shows "unchanged A J d e"
  using assms unfolding unchanged_def by simp

text \<open>
  A directory in use is not touched when a free block or a free inode is taken; then a
  new entry can be added to it.
\<close>

lemma used_dir_kept:
  assumes ok: "fs_ok d" and u: "used_dir d P ess" and P: "P = inode_at d k" "k < inode_count d"
    and t: "J \<subseteq> free_blocks d" "unchanged A J d e" and A: "\<forall>x \<in> A. x < i_block P 0 \<or> i_block P 15 \<le> x" "\<forall>x \<in> A. x < table_end d"
  shows "dir_ok e P ess" "listing e (concat ess) = listing d (concat ess)" "dir_blocks e P = dir_blocks d P"
    "\<And>es. es \<in> set ess \<Longrightarrow> roomy e es len = roomy d es len \<and> full e len es = full d len es"
proof -
  have J: "J \<subseteq> free_blocks d" and same: "\<And>x. table_addr d \<le> x \<Longrightarrow> x \<notin> A \<Longrightarrow>
      (\<forall>i \<in> J. x < block_at i \<or> block_at i + EXT2_BLOCK_SIZE \<le> x) \<Longrightarrow> e x = d x" using t by (auto simp: unchanged_def)
  note I = inode_in_table [OF P(2), folded P(1)]
  have ib: "e x = d x" if "i_block P 0 \<le> x" "x < i_block P 15" for x
  proof (rule same)
    show "table_addr d \<le> x" using I(1) that by (simp add: i_block_def)
    show "x \<notin> A" using A(1) that by force
    show "\<forall>i \<in> J. x < block_at i \<or> block_at i + EXT2_BLOCK_SIZE \<le> x"
      using fs_ok_free(1) [OF ok] J I(2) that by (force simp: i_block_def INODE_SIZE_def)
  qed
  have bl: "e x = d x" if b: "b \<in> set (dir_blocks d P)" "block_start b \<le> x" "x < block_start b + EXT2_BLOCK_SIZE" for b x
  proof (rule same)
    have "table_end d \<le> x" using u b by (auto simp: used_dir_def)
    then show "table_addr d \<le> x" "x \<notin> A" using A(2) by (auto simp: table_end_def dest: leD)
    show "\<forall>i \<in> J. x < block_at i \<or> block_at i + EXT2_BLOCK_SIZE \<le> x"
      using used_block_apart [OF u b(1)] J b(2,3) by force
  qed
  have do: "dir_ok d P ess" using u by (simp add: used_dir_def)
  have "dir_ok e P ess \<and> listing e (concat ess) = listing d (concat ess)"
  proof (rule dir_ok_cong [OF do])
    show "e x = d x" if "i_block P 0 \<le> x" "x < i_block P 15" for x by (rule ib [OF that])
    show "e x = d x" if "b \<in> set (dir_blocks d P)" "block_start b \<le> x" "x < block_start b + EXT2_BLOCK_SIZE" for b x
      by (rule bl [OF that])
  qed
  then show "dir_ok e P ess" "listing e (concat ess) = listing d (concat ess)" by simp_all
  show "dir_blocks e P = dir_blocks d P" by (rule dir_blocks_cong) (rule ib)
  have ob: "on_blocks d (dir_blocks d P) ess" using do by (simp add: dir_ok_blocks)
  show "roomy e es len = roomy d es len \<and> full e len es = full d len es" if "es \<in> set ess" for es
    using rooms_cong [where d' = e, OF ob _ that] bl by simp
qed

text \<open>The entry in the parent directory.\<close>

lemma enter_into_dir:
  assumes ok: "fs_ok d" and u: "used_dir d P ess" and P: "P = inode_at d k" "k < inode_count d"
    and t: "J \<subseteq> free_blocks d" "unchanged A J d e" and A: "\<forall>x \<in> A. x < i_block P 0 \<or> i_block P 15 \<le> x" "\<forall>x \<in> A. x < table_end d"
    and e: "fs_ok e" "table_addr e = table_addr d"
    and nm: "length nm < 256" "ino \<noteq> 0" and room: "\<forall>es \<in> set ess. roomy d es (length nm)" "\<exists>es \<in> set ess. \<not> full d (length nm) es"
  shows "\<exists>d' ess' l1 l2. add_to_blocks P ino nm ft e = Inr (True, d') \<and> dir_ok d' P ess' \<and>
    listing d (concat ess) = l1 @ l2 \<and> listing d' (concat ess') = l1 @ (nm, ino, ft) # l2 \<and>
    (\<forall>x. outside_blocks (dir_blocks d P) x \<longrightarrow> d' x = e x) \<and>
    fs_ok d' \<and> free_blocks d' = free_blocks e \<and> free_inodes d' = free_inodes e \<and> table_addr d' = table_addr e"
proof -
  note K = used_dir_kept [OF ok u P t A]
  have sep: "dir_sep e P"
    using used_dir_sep [OF u [unfolded P(1)] P(2), folded P(1)] u unfolding dir_sep_def K(3) by (auto simp: used_dir_def)
  have r: "\<forall>es \<in> set ess. roomy e es (length nm)" using room(1) K(4) by blast
  have nf: "\<not> (\<forall>es \<in> set ess. full e (length nm) es)" using room(2) K(4) by blast
  obtain d' ess' l1 l2 where a: "add_to_blocks P ino nm ft e = Inr (True, d')" "dir_ok d' P ess'"
    "listing e (concat ess) = l1 @ l2" "listing d' (concat ess') = l1 @ (nm, ino, ft) # l2"
    "\<forall>x. outside_blocks (dir_blocks d P) x \<longrightarrow> d' x = e x"
    using add_to_blocks_run [OF K(1) sep nm r, of ft] nf unfolding K(3) by blast
  have low: "same_low e d'"
    unfolding same_low_def
  proof (intro allI impI)
    fix x assume "x < table_addr e"
    then have "outside_blocks (dir_blocks d P) x"
      using u e(2) by (force simp: outside_blocks_def used_dir_def table_end_def)
    then show "d' x = e x" using a(5) by simp
  qed
  then show ?thesis
    using a K(2) low_fs [OF e(1) low] low_fields(1) [OF e(1) low]
    by (intro exI [of _ d'] exI [of _ ess'] exI [of _ l1] exI [of _ l2]) simp
qed

definition new_name :: "disk \<Rightarrow> nat list list \<Rightarrow> disk \<Rightarrow> nat list list \<Rightarrow> cstring \<times> u32 \<times> u8 \<Rightarrow> bool" where
  "new_name d ess d' ess' x \<longleftrightarrow>
     (\<exists>l1 l2. listing d (concat ess) = l1 @ l2 \<and> listing d' (concat ess') = l1 @ x # l2)"

end
