(* ===== verification/Ext2_Grow.thy ===== *)
theory Ext2_Grow
  imports Ext2_Create
begin

text \<open>
  A directory whose blocks are all full gets a further block: a free block with the new
  entry only, and a pointer to it in the first place of the inode that is not used.
\<close>

section \<open>Full blocks\<close>

lemma allocate_full:
  assumes blk: "dir_block d (block_ptr bn) es" and len: "length nm < 256" and f: "full d (length nm) es"
  shows "allocate_space_in_block (of_nat (length nm)) bn ino nm ft d = Inr (False, d)"
proof -
  obtain xs p where es: "es = xs @ [p]" using dir_block_nonempty [OF blk] by (cases es rule: rev_cases) auto
  have p: "entry_fits d p" "p + e_rec_len d p \<le> DISK_SIZE" using blk es by (auto simp: dir_block_def entries_append)
  have l: "unat (of_nat (length nm) :: u8) = length nm" using len by (simp add: unat_of_nat)
  have "find (unused d) es = None" using f by (auto simp: full_def find_None_iff filter_empty_conv)
  then show ?thesis
    using f es entry_loads(1,3) [OF p] unfolding allocate_cases [OF blk len]
    by (simp add: full_def split_entry_def room_test_def l e_rec_len_def)
qed

lemma try_blocks_full:
  assumes "\<forall>i \<in> set is. i_block inode i + 4 \<le> DISK_SIZE"
    and "on_blocks d (filter (\<lambda>b. b \<noteq> 0) (map (inode_block d inode) is)) ess"
    and "length nm < 256" "\<forall>es \<in> set ess. full d (length nm) es"
  shows "try_blocks (\<lambda>b. allocate_space_in_block (of_nat (length nm)) b ino nm ft) inode is d = Inr (False, d)"
  using assms
proof (induction "is" arbitrary: ess)
  case (Cons i "is")
  have ld: "ld32 (i_block inode i) d = Inr (inode_block d inode i)" using Cons.prems(1) by (simp add: inode_block_def)
  show ?case
  proof (cases "inode_block d inode i = 0")
    case True
    then show ?thesis using Cons ld by simp
  next
    case False
    then obtain es ess' where e: "ess = es # ess'" "dir_block d (block_start (inode_block d inode i)) es"
      "on_blocks d (filter (\<lambda>b. b \<noteq> 0) (map (inode_block d inode) is)) ess'"
      using Cons.prems(2) by (auto simp: on_blocks_def list_all2_Cons1)
    have "allocate_space_in_block (of_nat (length nm)) (inode_block d inode i) ino nm ft d = Inr (False, d)"
      by (rule allocate_full) (use e(1,2) block_start_in [OF e(2)] Cons.prems(3,4) in auto)
    then show ?thesis using Cons.IH [OF _ e(3) Cons.prems(3)] Cons.prems(1,4) ld e(1) by simp
  qed
qed simp

lemma add_to_blocks_full:
  assumes "dir_ok d inode ess" and "length nm < 256" "\<forall>es \<in> set ess. full d (length nm) es"
  shows "add_to_blocks inode ino nm ft d = Inr (False, d)"
  unfolding add_to_blocks_def
  by (rule try_blocks_full [where ess = ess])
    (use assms in \<open>auto simp: dir_ok_blocks dir_blocks_def i_block_def INODE_SIZE_def TOTAL_BLOCK_COUNT_def\<close>)

section \<open>The place of the pointer\<close>

lemma free_slot_run:
  "\<forall>i \<in> set is. i_block inode i + 4 \<le> DISK_SIZE \<Longrightarrow> free_slot inode is d = Inr (find (\<lambda>i. inode_block d inode i = 0) is)"
  by (induction "is") (simp_all add: inode_block_def)

lemma slot_exists:
  assumes "length (dir_blocks d P) < TOTAL_BLOCK_COUNT"
  obtains i where "find (\<lambda>i. inode_block d P i = 0) [0 ..< TOTAL_BLOCK_COUNT] = Some i"
proof (cases "find (\<lambda>i. inode_block d P i = 0) [0 ..< TOTAL_BLOCK_COUNT]")
  case None
  then have "filter (\<lambda>b. b \<noteq> 0) (map (inode_block d P) [0 ..< TOTAL_BLOCK_COUNT]) = map (inode_block d P) [0 ..< TOTAL_BLOCK_COUNT]"
    by (auto simp: find_None_iff intro: filter_True)
  then have "length (dir_blocks d P) = TOTAL_BLOCK_COUNT" unfolding dir_blocks_def by simp
  then show ?thesis using assms by simp
qed

lemma grown_blocks:
  assumes "find (\<lambda>i. inode_block e P i = 0) [0 ..< TOTAL_BLOCK_COUNT] = Some i"
    and "inode_block f P i = b" "b \<noteq> 0" and "\<forall>k < TOTAL_BLOCK_COUNT. k \<noteq> i \<longrightarrow> inode_block f P k = inode_block e P k"
  obtains bs1 bs2 where "dir_blocks e P = bs1 @ bs2" "dir_blocks f P = bs1 @ b # bs2"
proof -
  have i: "i < TOTAL_BLOCK_COUNT" "inode_block e P i = 0" using assms(1) by (auto simp: find_Some_iff)
  have s: "[0 ..< TOTAL_BLOCK_COUNT] = [0 ..< i] @ i # [Suc i ..< TOTAL_BLOCK_COUNT]"
    using i(1) by (metis less_imp_add_positive upt_add_eq_append upt_conv_Cons zero_le)
  let ?bs = "\<lambda>d is. filter (\<lambda>b. b \<noteq> 0) (map (inode_block d P) is)"
  have same: "?bs f is = ?bs e is" if "\<forall>k \<in> set is. k < TOTAL_BLOCK_COUNT \<and> k \<noteq> i" for "is"
    using that assms(4) by (intro arg_cong [where f = "filter _"] map_cong) auto
  have "?bs f [0 ..< i] = ?bs e [0 ..< i]" "?bs f [Suc i ..< TOTAL_BLOCK_COUNT] = ?bs e [Suc i ..< TOTAL_BLOCK_COUNT]"
    by (rule same; use i(1) in simp)+
  then show ?thesis
    using i(2) assms(2,3) by (intro that [of "?bs e [0 ..< i]" "?bs e [Suc i ..< TOTAL_BLOCK_COUNT]"])
      (simp_all add: dir_blocks_def s)
qed

section \<open>The block of the new entry\<close>

lemma single_entry:
  assumes "a + EXT2_BLOCK_SIZE \<le> DISK_SIZE" and "length nm < 256" "ino \<noteq> 0"
    and "e_inode f a = ino" "e_rec_len f a = EXT2_BLOCK_SIZE" "e_name_len f a = of_nat (length nm)"
    and "bytes (length nm) (de_name a) f = nm" "e_file_type f a = ft"
  shows "dir_block f a [a]" "listing f [a] = [(nm, ino, ft)]"
proof -
  have l: "unat (e_name_len f a) = length nm" using assms(2,6) by (simp add: unat_of_nat take_bit_nat_eq_self)
  have "entry_size (e_name_len f a) \<le> EXT2_BLOCK_SIZE"
    using entry_size_bounds(2) [of "e_name_len f a"] l assms(2) by (simp add: EXT2_BLOCK_SIZE_def)
  then show "dir_block f a [a]" using assms(1,5) by (simp add: dir_block_def entry_fits_def)
  show "listing f [a] = [(nm, ino, ft)]"
    using assms(3,4,7,8) l by (simp add: listing_Cons unused_def entry_view_def e_name_def)
qed

section \<open>The directory with the block\<close>

lemma grown_dir:
  assumes dir: "dir_ok e P ess" "dir_sep e P" and j: "\<forall>b \<in> set (dir_blocks e P). table_addr e \<le> block_start b \<and> block_start b \<noteq> block_at j"
    and jB: "j < BITS" and f: "taken {P ..< P + INODE_SIZE} {j} e f"
    and slot: "find (\<lambda>i. inode_block e P i = 0) [0 ..< TOTAL_BLOCK_COUNT] = Some i"
    and ptr: "inode_block f P i = TO_NUMBER j" "\<forall>k < TOTAL_BLOCK_COUNT. k \<noteq> i \<longrightarrow> inode_block f P k = inode_block e P k"
    and x: "dir_block f (block_at j) [block_at j]" "listing f [block_at j] = [x]"
  shows "\<exists>ess'. dir_ok f P ess' \<and> new_name e ess f ess' x"
proof -
  have bs: "block_start (TO_NUMBER j) = block_at j" using unat_to_number [OF jB] by (simp add: block_at_def)
  have "TO_NUMBER j \<noteq> 0" using unat_to_number [OF jB] by auto
  then obtain bs1 bs2 where b: "dir_blocks e P = bs1 @ bs2" "dir_blocks f P = bs1 @ TO_NUMBER j # bs2"
    using grown_blocks [OF slot ptr(1) _ ptr(2)] by blast
  have o: "P + INODE_SIZE \<le> DISK_SIZE" "on_blocks e (bs1 @ bs2) ess" using dir(1) by (auto simp: dir_ok_blocks b)
  have same: "f y = e y" if c: "c \<in> set (bs1 @ bs2)" "block_start c \<le> y" "y < block_start c + EXT2_BLOCK_SIZE" for c y
  proof -
    have t: "table_addr e \<le> block_start c" "block_start c \<noteq> block_start (TO_NUMBER j)" using j c(1) bs by (auto simp: b)
    then have "c \<noteq> TO_NUMBER j" by auto
    then have "y < block_at j \<or> block_at j + EXT2_BLOCK_SIZE \<le> y" using block_start_apart [of c "TO_NUMBER j"] c(2,3) bs by auto
    moreover have "y \<notin> {P ..< P + INODE_SIZE}"
    proof
      assume "y \<in> {P ..< P + INODE_SIZE}"
      then have "outside_blocks (bs1 @ bs2) y" using dir(2) by (simp add: dir_sep_def b)
      then show False using c unfolding outside_blocks_def by (meson leD)
    qed
    ultimately show ?thesis using f t(1) c(2) by (auto simp: taken_def)
  qed
  have k: "on_blocks f (bs1 @ bs2) ess \<and> listing f (concat ess) = listing e (concat ess)"
    by (rule on_blocks_cong [OF o(2)]) (rule same)
  then obtain es1 es2 where s: "ess = es1 @ es2" "on_blocks f bs1 es1" "on_blocks f bs2 es2"
    by (auto simp: on_blocks_def list_all2_append1)
  have "on_blocks f (bs1 @ TO_NUMBER j # bs2) (es1 @ [block_at j] # es2)"
    using s(2,3) x(1) bs by (simp add: on_blocks_def list_all2_appendI)
  moreover have "new_name e ess f (es1 @ [block_at j] # es2) x"
    unfolding new_name_def
    by (rule exI [of _ "listing f (concat es1)"], rule exI [of _ "listing f (concat es2)"])
      (use k s(1) x(2) listing_append [of f "[block_at j]" "concat es2"] in simp)
  ultimately show ?thesis using o(1) unfolding dir_ok_blocks b by (intro exI [of _ "es1 @ [block_at j] # es2"]) simp
qed

text \<open>The number of blocks that a new entry needs: one if all blocks of the directory are full.\<close>

definition entry_blocks :: "disk \<Rightarrow> nat list list \<Rightarrow> cstring \<Rightarrow> nat" where
  "entry_blocks d ess nm = (if \<forall>es \<in> set ess. full d (length nm) es then 1 else 0)"

text \<open>
  The entry \<open>x\<close> is in the directory in addition, after the blocks \<open>K\<close> were taken for it.
  Apart from the inode of the directory, its blocks and \<open>K\<close> all is as it was.
\<close>

definition name_added :: "disk \<Rightarrow> nat \<Rightarrow> nat list list \<Rightarrow> cstring \<times> u32 \<times> u8 \<Rightarrow> disk \<Rightarrow> disk \<Rightarrow> nat set \<Rightarrow> bool" where
  "name_added d P ess x e d' K \<longleftrightarrow> (\<exists>ess'. dir_ok d' P ess' \<and> new_name d ess d' ess' x) \<and>
     fs_ok d' \<and> K \<subseteq> free_blocks e \<and> free_blocks d' = free_blocks e - K \<and> free_inodes d' = free_inodes e \<and> table_addr d' = table_addr e \<and>
     card K = entry_blocks d ess (fst x) \<and>
     (\<forall>y \<ge> table_addr d. y \<notin> {P ..< P + INODE_SIZE} \<longrightarrow> outside_blocks (dir_blocks d P) y \<longrightarrow>
        (\<forall>j \<in> K. y < block_at j \<or> block_at j + EXT2_BLOCK_SIZE \<le> y) \<longrightarrow> d' y = e y)"

definition grow_facts :: "disk \<Rightarrow> nat \<Rightarrow> nat list list \<Rightarrow> cstring \<times> u32 \<times> u8 \<Rightarrow> disk \<Rightarrow> nat \<Rightarrow> disk \<Rightarrow> nat \<Rightarrow> bool" where
  "grow_facts d P ess x e j e1 i \<longleftrightarrow> find_free_block e = Inr (TO_NUMBER j) \<and> TO_NUMBER j \<noteq> 0 \<and>
    update_bitmap CHR ''b'' (TO_NUMBER j) True e = Inr e1 \<and> block_ptr (TO_NUMBER j) = block_at j \<and>
    i < TOTAL_BLOCK_COUNT \<and> find (\<lambda>i. inode_block e1 P i = 0) [0 ..< TOTAL_BLOCK_COUNT] = Some i \<and>
    P + INODE_SIZE \<le> block_at j \<and> block_at j + EXT2_BLOCK_SIZE \<le> DISK_SIZE \<and>
    j \<in> free_blocks e \<and> (\<forall>y \<ge> table_addr d. e1 y = e y) \<and>
    (\<forall>f. (\<forall>y. y < block_at j \<or> block_at j + EXT2_BLOCK_SIZE \<le> y \<longrightarrow> y < i_blocks P \<or> i_blocks P + 4 \<le> y \<longrightarrow>
           y < i_block P i \<or> i_block P i + 4 \<le> y \<longrightarrow> f y = e1 y) \<longrightarrow>
       inode_block f P i = TO_NUMBER j \<longrightarrow> dir_block f (block_at j) [block_at j] \<longrightarrow> listing f [block_at j] = [x] \<longrightarrow>
       name_added d P ess x e f {j})"

text \<open>
  What is known once no block has taken the entry: the block and the place that are
  used for it, and that the stores into them complete the directory.
\<close>

lemma grow_start:
  assumes ok: "fs_ok d" and u: "used_dir d P ess" and P: "P = inode_at d k" "k < inode_count d"
    and t: "J \<subseteq> free_blocks d" "unchanged A J d e" and A: "\<forall>x \<in> A. x < i_block P 0 \<or> i_block P 15 \<le> x" "\<forall>x \<in> A. x < table_end d"
    and e: "fs_ok e" "table_addr e = table_addr d" "free_blocks e \<subseteq> free_blocks d"
    and nm: "length nm < 256"
    and fu: "\<forall>es \<in> set ess. full d (length nm) es" and more: "length ess < TOTAL_BLOCK_COUNT" "free_blocks e \<noteq> {}"
  shows "\<exists>j e1 i. add_to_blocks P ino nm ft e = Inr (False, e) \<and> grow_facts d P ess (nm, ino, ft) e j e1 i"
proof -
  note K = used_dir_kept [OF ok u P t A]
  have sep: "dir_sep e P"
    using used_dir_sep [OF u [unfolded P(1)] P(2), folded P(1)] u unfolding dir_sep_def K(3) by (auto simp: used_dir_def)
  have fu': "\<forall>es \<in> set ess. full e (length nm) es" using fu K(4) by blast
  have c: "cell_ok e P INODE_SIZE" using inode_cell [OF ok P(2)] P(1) e(2,3) by (auto simp: cell_ok_def)
  obtain j e1 where j: "find_free_block e = Inr (TO_NUMBER j)" "update_bitmap CHR ''b'' (TO_NUMBER j) True e = Inr e1"
    "j \<in> free_blocks e" "fs_ok e1" "free_blocks e1 = free_blocks e - {j}" "free_inodes e1 = free_inodes e"
    "\<forall>a \<ge> table_addr e. e1 a = e a" "table_addr e1 = table_addr e" using take_block [OF e(1) more(2)] by blast
  note B = fs_ok_free [OF e(1) j(3)]
  have jB: "j < BITS" using fs_okD(3) [OF e(1)] j(3) by (simp add: free_blocks_def unmarked_def)
  have "length (dir_blocks e P) = length ess" using K(1) by (auto simp: dir_ok_def dest: list_all2_lengthD)
  then obtain i where i: "find (\<lambda>i. inode_block e P i = 0) [0 ..< TOTAL_BLOCK_COUNT] = Some i"
    using slot_exists [of e P] more(1) by metis
  then have i15: "i < TOTAL_BLOCK_COUNT" by (auto simp: find_Some_iff)
  have apart: "\<forall>b \<in> set (dir_blocks e P). table_addr e \<le> block_start b \<and> block_start b \<noteq> block_at j"
    using u j(3) e(2,3) unfolding K(3) by (auto simp: used_dir_def table_end_def)
  have nn: "new_name e ess f ess' x \<Longrightarrow> new_name d ess f ess' x" for f ess' x by (simp add: new_name_def K(2))
  have same: "e1 x = e x" if "P \<le> x" for x using that c j(7) by (simp add: cell_ok_def)
  have tk: "taken {P ..< P + INODE_SIZE} {j} e e1" using j by (simp add: taken_def)
  have D: "P + INODE_SIZE \<le> block_at j" "block_at j + EXT2_BLOCK_SIZE \<le> DISK_SIZE"
    using inode_in_table(2) [OF P(2)] P(1) fs_ok_free(1) [OF ok subsetD [OF e(3) j(3)]] B(2) by auto
  have fin: "name_added d P ess (nm, ino, ft) e f {j}"
    if s: "\<And>y. y < block_at j \<or> block_at j + EXT2_BLOCK_SIZE \<le> y \<Longrightarrow> y < i_blocks P \<or> i_blocks P + 4 \<le> y \<Longrightarrow>
        y < i_block P i \<or> i_block P i + 4 \<le> y \<Longrightarrow> f y = e1 y"
      and x: "inode_block f P i = TO_NUMBER j" "dir_block f (block_at j) [block_at j]" "listing f [block_at j] = [(nm, ino, ft)]" for f
  proof -
    have tf: "taken {P ..< P + INODE_SIZE} {j} e f"
      by (rule taken_store [OF tk _ _ e(1)])
        (use s i15 c in \<open>auto simp: i_blocks_def i_block_def INODE_SIZE_def TOTAL_BLOCK_COUNT_def cell_ok_def\<close>)
    have "inode_block f P k = inode_block e P k" if k: "k < TOTAL_BLOCK_COUNT" "k \<noteq> i" for k
      unfolding inode_block_def
    proof (rule get_cong)
      fix z :: nat assume z: "z < 4"
      define y where "y = i_block P k + z"
      have y: "i_block P k \<le> y" "y < i_block P k + 4" using z by (simp_all add: y_def)
      have "y < i_block P i \<or> i_block P i + 4 \<le> y" using y k(2) by (cases "k < i") (auto simp: i_block_def)
      then have "f y = e1 y"
        using y k(1) D(1) by (intro s) (auto simp: i_block_def i_blocks_def INODE_SIZE_def TOTAL_BLOCK_COUNT_def)
      then show "f (i_block P k + z) = e (i_block P k + z)" using same [of y] y k(1)
        by (simp add: y_def i_block_def INODE_SIZE_def TOTAL_BLOCK_COUNT_def)
    qed
    then have "\<exists>ess'. dir_ok f P ess' \<and> new_name d ess f ess' (nm, ino, ft)"
      using grown_dir [OF K(1) sep apart jB tf i x(1) _ x(2,3)] nn by blast
    then show ?thesis using tf fu j(3) e(2) unfolding name_added_def taken_def entry_blocks_def by auto
  qed
  have "\<forall>f. (\<forall>y. y < block_at j \<or> block_at j + EXT2_BLOCK_SIZE \<le> y \<longrightarrow> y < i_blocks P \<or> i_blocks P + 4 \<le> y \<longrightarrow>
         y < i_block P i \<or> i_block P i + 4 \<le> y \<longrightarrow> f y = e1 y) \<longrightarrow>
       inode_block f P i = TO_NUMBER j \<longrightarrow> dir_block f (block_at j) [block_at j] \<longrightarrow> listing f [block_at j] = [(nm, ino, ft)] \<longrightarrow>
       name_added d P ess (nm, ino, ft) e f {j}"
    using fin by blast
  note F = this
  have ib: "inode_block e1 P = inode_block e P"
    unfolding inode_block_def by (intro ext get_cong) (use same in \<open>simp add: i_block_def\<close>)
  have "grow_facts d P ess (nm, ino, ft) e j e1 i"
    unfolding grow_facts_def ib
    by (intro conjI j(1,2) to_number_nonzero [OF B(2)] block_ptr_number [OF B(2)] i15 i D j(3) j(7) [unfolded e(2)] F)
  then show ?thesis using add_to_blocks_full [OF K(1) nm(1) fu'] by blast
qed

text \<open>The stores that remain, in the order of either command.\<close>

lemma grow_slot:
  assumes "grow_facts d P ess x e j e1 i" and "\<And>y. P \<le> y \<Longrightarrow> y < P + INODE_SIZE \<Longrightarrow> g y = e1 y"
  shows "free_slot P [0 ..< TOTAL_BLOCK_COUNT] g = Inr (Some i)"
proof -
  have G: "find (\<lambda>i. inode_block e1 P i = 0) [0 ..< TOTAL_BLOCK_COUNT] = Some i"
    "P + INODE_SIZE \<le> block_at j" "block_at j + EXT2_BLOCK_SIZE \<le> DISK_SIZE" using assms(1) by (auto simp: grow_facts_def)
  have "inode_block g P k = inode_block e1 P k" if "k < TOTAL_BLOCK_COUNT" for k
    unfolding inode_block_def by (rule get_cong) (use assms(2) that in \<open>simp add: i_block_def INODE_SIZE_def TOTAL_BLOCK_COUNT_def\<close>)
  then have "find (\<lambda>i. inode_block g P i = 0) [0 ..< TOTAL_BLOCK_COUNT] = Some i"
    unfolding G(1) [symmetric] by (intro find_cong) simp_all
  moreover have "\<forall>i \<in> set [0 ..< TOTAL_BLOCK_COUNT]. i_block P i + 4 \<le> DISK_SIZE"
    using G(2,3) by (auto simp: i_block_def INODE_SIZE_def TOTAL_BLOCK_COUNT_def)
  ultimately show ?thesis by (simp add: free_slot_run)
qed

lemma grow_done:
  assumes g: "grow_facts d P ess (nm, ino, ft) e j e1 i" and nm: "length nm < 256" "ino \<noteq> 0"
    and s: "\<And>y. y < block_at j \<or> block_at j + EXT2_BLOCK_SIZE \<le> y \<Longrightarrow> y < i_blocks P \<or> i_blocks P + 4 \<le> y \<Longrightarrow>
      y < i_block P i \<or> i_block P i + 4 \<le> y \<Longrightarrow> f y = e1 y"
    and x: "get 4 (i_block P i) f = TO_NUMBER j" "get 4 (block_at j) f = ino" "get 2 (block_at j + 4) f = (1024 :: u16)"
      "f (block_at j + 6) = of_nat (length nm)" "f (block_at j + 7) = ft" "bytes (length nm) (block_at j + 8) f = nm"
  shows "name_added d P ess (nm, ino, ft) e f {j}"
proof -
  have B: "block_at j + EXT2_BLOCK_SIZE \<le> DISK_SIZE" using g by (simp add: grow_facts_def)
  have f: "e_inode f (block_at j) = ino" "e_rec_len f (block_at j) = EXT2_BLOCK_SIZE"
    "e_name_len f (block_at j) = of_nat (length nm)" "bytes (length nm) (de_name (block_at j)) f = nm" "e_file_type f (block_at j) = ft"
    using x by (simp_all add: e_inode_def e_rec_len_def e_name_len_def e_file_type_def field_defs EXT2_BLOCK_SIZE_def)
  have "inode_block f P i = TO_NUMBER j" using x(1) by (simp add: inode_block_def)
  then show ?thesis using g s single_entry [OF B nm f] unfolding grow_facts_def by blast
qed

text \<open>There is room in a block, or all blocks are full and a pointer is not used.\<close>

definition can_enter :: "disk \<Rightarrow> nat list list \<Rightarrow> cstring \<Rightarrow> bool" where
  "can_enter d ess nm \<longleftrightarrow>
     (if entry_blocks d ess nm = 1 then length ess < TOTAL_BLOCK_COUNT
      else \<forall>es \<in> set ess. roomy d es (length nm))"

lemma added_in_place:
  assumes ok: "fs_ok d" and u: "used_dir d P ess" and P: "P = inode_at d k" "k < inode_count d"
    and t: "J \<subseteq> free_blocks d" "unchanged A J d e" and A: "\<forall>x \<in> A. x < i_block P 0 \<or> i_block P 15 \<le> x" "\<forall>x \<in> A. x < table_end d"
    and e: "fs_ok e" "table_addr e = table_addr d" "free_blocks e \<subseteq> free_blocks d" and nm: "length nm < 256" "ino \<noteq> 0"
    and room: "can_enter d ess nm" "\<not> (\<forall>es \<in> set ess. full d (length nm) es)"
  shows "\<exists>d'. add_to_blocks P ino nm ft e = Inr (True, d') \<and> name_added d P ess (nm, ino, ft) e d' {}"
proof -
  have r: "\<forall>es \<in> set ess. roomy d es (length nm)" "\<exists>es \<in> set ess. \<not> full d (length nm) es"
    using room by (auto simp: can_enter_def entry_blocks_def split: if_splits)
  show ?thesis
    using enter_into_dir [OF ok u P t A e(1,2) nm r, of ft] room(2) unfolding name_added_def new_name_def entry_blocks_def by auto
qed

lemma link_into_parent_run:
  assumes ok: "fs_ok d" and u: "used_dir d P ess" and P: "P = inode_at d k" "k < inode_count d"
    and t: "J \<subseteq> free_blocks d" "unchanged A J d e" and A: "\<forall>x \<in> A. x < i_block P 0 \<or> i_block P 15 \<le> x" "\<forall>x \<in> A. x < table_end d"
    and e: "fs_ok e" "table_addr e = table_addr d" "free_blocks e \<subseteq> free_blocks d" and nm: "length nm < 256" "ino \<noteq> 0"
    and room: "can_enter d ess nm" "entry_blocks d ess nm \<le> card (free_blocks e)"
  shows "\<exists>d' K. link_into_parent P ino nm e = Inr (0, d') \<and> name_added d P ess (nm, ino, EXT2_FT_DIR) e d' K"
proof (cases "\<forall>es \<in> set ess. full d (length nm) es")
  case False
  then show ?thesis
    using added_in_place [OF ok u P t A e nm room(1) False, of EXT2_FT_DIR] by (auto simp: link_into_parent_def)
next
  case True
  have more: "length ess < TOTAL_BLOCK_COUNT" "free_blocks e \<noteq> {}" using room True by (auto simp: can_enter_def entry_blocks_def)
  obtain j e1 i where add: "add_to_blocks P ino nm EXT2_FT_DIR e = Inr (False, e)"
    and g: "grow_facts d P ess (nm, ino, EXT2_FT_DIR) e j e1 i"
    using grow_start [OF ok u P t A e nm(1) True more, of ino EXT2_FT_DIR] by blast
  let ?B = "block_at j" and ?n = "TO_NUMBER j"
  define f where "f = put (?B + 7) [EXT2_FT_DIR] (put (?B + 8) nm (put (?B + 4) (store_le 2 (1024 :: u16))
    (put (?B + 6) [of_nat (length nm) :: u8] (put ?B (store_le 4 ino)
    (put (P + 28) (store_le 4 (get 4 (P + 28) (put (i_block P i) (store_le 4 ?n) e1) + 1 :: u32)) (put (i_block P i) (store_le 4 ?n) e1))))))"
  have i: "i < 15" "P + 128 \<le> ?B" "?B + 1024 \<le> DISK_SIZE"
    using g by (simp_all add: grow_facts_def TOTAL_BLOCK_COUNT_def INODE_SIZE_def EXT2_BLOCK_SIZE_def)
  have "name_added d P ess (nm, ino, EXT2_FT_DIR) e f {j}"
  proof (rule grow_done [OF g nm])
    show "f y = e1 y" if "y < ?B \<or> ?B + EXT2_BLOCK_SIZE \<le> y" "y < i_blocks P \<or> i_blocks P + 4 \<le> y"
      "y < i_block P i \<or> i_block P i + 4 \<le> y" for y
      using that nm(1) by (auto simp: f_def put_outside i_blocks_def EXT2_BLOCK_SIZE_def)
    show "get 4 (i_block P i) f = ?n" "get 4 ?B f = ino" "get 2 (?B + 4) f = (1024 :: u16)"
      using i nm(1) by (simp_all add: f_def get_put_other get_put_same i_block_def)
    show "f (?B + 6) = of_nat (length nm)" "f (?B + 7) = EXT2_FT_DIR" "bytes (length nm) (?B + 8) f = nm"
      using i nm(1) by (simp_all add: f_def put_single put_outside bytes_put_other bytes_put_same)
  qed
  moreover have "link_into_parent P ino nm e = Inr (0, f)"
    using add g grow_slot [OF g, of e1] i nm(1)
    by (simp add: link_into_parent_def grow_facts_def add_block_def Let_def field_defs i_blocks_def i_block_def add32_run
        EXT2_BLOCK_SIZE_def f_def)
  ultimately show ?thesis by blast
qed

lemma enter_copy_run:
  assumes ok: "fs_ok d" and u: "used_dir d P ess" and P: "P = inode_at d k" "k < inode_count d"
    and t: "J \<subseteq> free_blocks d" "unchanged A J d e" and A: "\<forall>x \<in> A. x < i_block P 0 \<or> i_block P 15 \<le> x" "\<forall>x \<in> A. x < table_end d"
    and e: "fs_ok e" "table_addr e = table_addr d" "free_blocks e \<subseteq> free_blocks d" and nm: "length nm < 256" "ino \<noteq> 0"
    and room: "can_enter d ess nm" "entry_blocks d ess nm \<le> card (free_blocks e)"
  shows "\<exists>d' K. enter_copy P inode ino nm e = Inr (0, d') \<and> name_added d P ess (nm, ino, EXT2_FT_REG_FILE) e d' K"
proof (cases "\<forall>es \<in> set ess. full d (length nm) es")
  case False
  then show ?thesis
    using added_in_place [OF ok u P t A e nm room(1) False, of EXT2_FT_REG_FILE] by (auto simp: enter_copy_def)
next
  case True
  have more: "length ess < TOTAL_BLOCK_COUNT" "free_blocks e \<noteq> {}" using room True by (auto simp: can_enter_def entry_blocks_def)
  obtain j e1 i where add: "add_to_blocks P ino nm EXT2_FT_REG_FILE e = Inr (False, e)"
    and g: "grow_facts d P ess (nm, ino, EXT2_FT_REG_FILE) e j e1 i"
    using grow_start [OF ok u P t A e nm(1) True more, of ino EXT2_FT_REG_FILE] by blast
  let ?B = "block_at j" and ?n = "TO_NUMBER j"
  define g1 where "g1 = put (?B + 8) nm (put (?B + 7) [EXT2_FT_REG_FILE] (put ?B (store_le 4 ino)
    (put (?B + 6) [of_nat (length nm) :: u8] (put (?B + 4) (store_le 2 (1024 :: u16)) e1))))"
  define f where "f = put (P + 28) (store_le 4 (get 4 (P + 28) (put (i_block P i) (store_le 4 ?n) g1) + 1 :: u32))
    (put (i_block P i) (store_le 4 ?n) g1)"
  have i: "i < 15" "P + 128 \<le> ?B" "?B + 1024 \<le> DISK_SIZE"
    using g by (simp_all add: grow_facts_def TOTAL_BLOCK_COUNT_def INODE_SIZE_def EXT2_BLOCK_SIZE_def)
  have "name_added d P ess (nm, ino, EXT2_FT_REG_FILE) e f {j}"
  proof (rule grow_done [OF g nm])
    show "f y = e1 y" if "y < ?B \<or> ?B + EXT2_BLOCK_SIZE \<le> y" "y < i_blocks P \<or> i_blocks P + 4 \<le> y"
      "y < i_block P i \<or> i_block P i + 4 \<le> y" for y
      using that nm(1) by (auto simp: f_def g1_def put_outside i_blocks_def EXT2_BLOCK_SIZE_def)
    show "get 4 (i_block P i) f = ?n" "get 4 ?B f = ino" "get 2 (?B + 4) f = (1024 :: u16)"
      using i nm(1) by (simp_all add: f_def g1_def get_put_other get_put_same i_block_def)
    show "f (?B + 6) = of_nat (length nm)" "f (?B + 7) = EXT2_FT_REG_FILE" "bytes (length nm) (?B + 8) f = nm"
      using i nm(1) by (simp_all add: f_def g1_def put_single put_outside i_block_def bytes_put_other bytes_put_same)
  qed
  moreover have "free_slot P [0 ..< TOTAL_BLOCK_COUNT] g1 = Inr (Some i)"
    by (rule grow_slot [OF g]) (use i nm(1) in \<open>simp add: g1_def put_outside INODE_SIZE_def\<close>)
  then have "enter_copy P inode ino nm e = Inr (0, f)"
    using add g i nm(1)
    by (simp add: enter_copy_def grow_facts_def add_block_def Let_def field_defs i_blocks_def i_block_def add32_run
        EXT2_BLOCK_SIZE_def f_def g1_def)
  ultimately show ?thesis by blast
qed


end
