(* ===== verification/Ext2_Make.thy ===== *)
theory Ext2_Make
  imports Ext2_Grow
begin

text \<open>
  What \<open>ext2_mkdir\<close> and \<open>ext2_cp\<close> do once the directory of the new name is found: the new
  directory and the copy of the file, with their entries.
\<close>

section \<open>Making a directory\<close>

lemma make_directory_run:
  assumes ok: "fs_ok d" and u: "used_dir d P ess" and P: "P = inode_at d k" "k < inode_count d" "k \<notin> free_inodes d"
    and fr: "free_inodes d \<noteq> {}" "1 + entry_blocks d ess nm \<le> card (free_blocks d)"
    and nm: "length nm < 256" and room: "can_enter d ess nm"
  shows "\<exists>d' i J ess' ns. make_directory E (TO_NUMBER k) nm d = Inr (0, d') \<and> i \<in> free_inodes d \<and> J \<subseteq> free_blocks d \<and>
    card J = 1 + entry_blocks d ess nm \<and>
    fs_ok d' \<and> free_inodes d' = free_inodes d - {i} \<and> free_blocks d' = free_blocks d - J \<and>
    dir_ok d' P ess' \<and> new_name d ess d' ess' (nm, TO_NUMBER i, EXT2_FT_DIR) \<and>
    dir_ok d' (inode_at d i) ns \<and>
    listing d' (concat ns) = [([DOT], TO_NUMBER i, EXT2_FT_DIR), ([DOT, DOT], TO_NUMBER k, EXT2_FT_DIR)] \<and>
    get 2 (i_mode (inode_at d i)) d' = EXT2_S_IFDIR \<and> get 2 (i_links_count (inode_at d i)) d' = (2 :: u16)"
proof -
  obtain i d1 where t: "find_free_inode d = Inr (TO_NUMBER i)" "TO_NUMBER i \<noteq> 0" "update_bitmap CHR ''i'' (TO_NUMBER i) True d = Inr d1"
    "i \<in> free_inodes d" "fs_ok d1" "free_inodes d1 = free_inodes d - {i}" "free_blocks d1 = free_blocks d"
    "\<forall>a \<ge> table_addr d. d1 a = d a" "table_addr d1 = table_addr d" using take_inode [OF ok fr(1)] by blast
  let ?N = "inode_at d i"
  have bounds: "i < inode_count d" "i < BITS" "k < BITS" "i \<noteq> k"
    using free_inode_bound [OF ok t(4)] P(2,3) fs_okD(4) [OF ok] t(4) by auto
  have N1: "?N = inode_at d1 i" "P = inode_at d1 k" by (simp_all add: inode_at_def t(9) P(1))
  have cN: "cell_ok d ?N INODE_SIZE" "cell_ok d P INODE_SIZE" using inode_cell [OF ok] bounds(1) P(1,2) by auto
  have c1: "cell_ok d1 ?N INODE_SIZE" using cN(1) t(7,9) by (simp add: cell_ok_def)
  have kn: "TO_NUMBER k \<noteq> 0" using unat_to_number [OF bounds(3)] by auto
  have "free_blocks d1 \<noteq> {}" using fr(2) t(7) by auto
  from fresh_directory [OF t(5) this c1 t(2) kn, of E]
  obtain e1 e2 j e3 e4 e5 e6 e7 where f: "init_inode E ?N EXT2_S_IFDIR (of_nat EXT2_BLOCK_SIZE) d1 = Inr e1"
    "st16 (i_links_count ?N) 2 e1 = Inr e2" "find_free_block e2 = Inr (TO_NUMBER j)" "TO_NUMBER j \<noteq> 0"
    "update_bitmap CHR ''b'' (TO_NUMBER j) True e2 = Inr e3" "st32 (i_block ?N 0) (TO_NUMBER j) e3 = Inr e4"
    "add32 (i_blocks ?N) 1 e4 = Inr e5" "make_dot_entry (TO_NUMBER i) (TO_NUMBER j) e5 = Inr e6"
    "allocate_space_in_block 2 (TO_NUMBER j) (TO_NUMBER k) [DOT, DOT] EXT2_FT_DIR e6 = Inr (True, e7)"
    "j \<in> free_blocks d1" "taken {?N ..< ?N + INODE_SIZE} {j} d1 e7" "dir_ok e7 ?N [[block_at j, block_at j + 12]]"
    "dir_blocks e7 ?N = [TO_NUMBER j]"
    "listing e7 [block_at j, block_at j + 12] = [([DOT], TO_NUMBER i, EXT2_FT_DIR), ([DOT, DOT], TO_NUMBER k, EXT2_FT_DIR)]"
    "get 2 (i_mode ?N) e7 = EXT2_S_IFDIR" "get 2 (i_links_count ?N) e7 = (2 :: u16)" by blast
  let ?L = "i_links_count P" and ?A = "{?N ..< ?N + INODE_SIZE}"
  obtain e8 where e8: "add16 ?L 1 e7 = Inr e8" "\<forall>x. x < ?L \<or> ?L + 2 \<le> x \<longrightarrow> e8 x = e7 x"
  proof -
    have "?L + 2 \<le> DISK_SIZE" using cN(2) by (simp add: cell_ok_def i_links_count_def INODE_SIZE_def)
    then show ?thesis using that by (simp add: add16_def put_outside)
  qed
  let ?B = "?A \<union> {?L ..< ?L + 2}"
  have T: "fs_ok e7" "free_blocks e7 = free_blocks d - {j}" "free_inodes e7 = free_inodes d - {i}" "table_addr e7 = table_addr d"
    using f(11) t(6,7,9) by (auto simp: taken_def)
  have jd: "j \<in> free_blocks d" "{j} \<subseteq> free_blocks d" using f(10) t(7) by auto
  have un: "unchanged ?B {j} d e8"
  proof (rule unchangedI)
    fix x assume x: "table_addr d \<le> x" "x \<notin> ?B" "\<And>i. i \<in> {j} \<Longrightarrow> x < block_at i \<or> block_at i + EXT2_BLOCK_SIZE \<le> x"
    have "e8 x = e7 x" using e8(2) x(2) by auto
    also have "\<dots> = d1 x" using taken_unchanged [OF f(11)] x t(9) unfolding unchanged_def by auto
    finally show "e8 x = d x" using t(8) x(1) by simp
  qed
  have I: "table_addr d \<le> ?N" "?N + INODE_SIZE \<le> table_end d" "table_addr d \<le> P" "P + INODE_SIZE \<le> table_end d"
    using inode_in_table [of _ d] bounds(1) P(1,2) by auto
  have NP: "?N + INODE_SIZE \<le> P \<or> P + INODE_SIZE \<le> ?N" using inode_at_apart [OF bounds(4), of d] P(1) by auto
  have low8: "same_low e7 e8"
    unfolding same_low_def using e8(2) T(4) I(3) by (auto simp: i_links_count_def)
  note F8 = low_fs [OF T(1) low8] low_fields(1) [OF T(1) low8]
  have A: "\<forall>x \<in> ?B. x < i_block P 0 \<or> i_block P 15 \<le> x" "\<forall>x \<in> ?B. x < table_end d"
    using NP I by (auto simp: i_block_def i_links_count_def INODE_SIZE_def)
  have e: "fs_ok e8" "table_addr e8 = table_addr d" using F8 T(4) by simp_all
  have fe: "free_blocks e8 = free_blocks d - {j}" "free_blocks e8 \<subseteq> free_blocks d" "entry_blocks d ess nm \<le> card (free_blocks e8)"
    using F8 T(2) fr(2) jd(1) by (auto simp: card_Diff_singleton)
  obtain d' K where r: "link_into_parent P (TO_NUMBER i) nm e8 = Inr (0, d')"
    "name_added d P ess (nm, TO_NUMBER i, EXT2_FT_DIR) e8 d' K"
    using link_into_parent_run [OF ok u P(1,2) jd(2) un A e fe(2) nm t(2) room fe(3)] by blast
  obtain ess' where n: "dir_ok d' P ess'" "new_name d ess d' ess' (nm, TO_NUMBER i, EXT2_FT_DIR)"
    using r(2) by (auto simp: name_added_def)
  have q: "fs_ok d'" "K \<subseteq> free_blocks d - {j}" "free_blocks d' = free_blocks d - {j} - K" "free_inodes d' = free_inodes d - {i}"
    "card K = entry_blocks d ess nm" using r(2) fe(1) F8 T by (auto simp: name_added_def)
  have keep: "d' y = e8 y" if "table_addr d \<le> y" "y < P \<or> P + INODE_SIZE \<le> y" "outside_blocks (dir_blocks d P) y"
    "\<And>b. b \<in> K \<Longrightarrow> y < block_at b \<or> block_at b + EXT2_BLOCK_SIZE \<le> y" for y
    using r(2) that unfolding name_added_def by auto
  have keepN: "d' x = e7 x" if "?N \<le> x" "x < ?N + INODE_SIZE" for x
  proof -
    have "d' x = e8 x"
    proof (rule keep)
      show "x < block_at b \<or> block_at b + EXT2_BLOCK_SIZE \<le> x" if "b \<in> K" for b
        using fs_ok_free(1) [OF ok, of b] that q(2) I(2) \<open>x < ?N + INODE_SIZE\<close> by force
    qed (use used_dir_sep [OF u [unfolded P(1)] bounds(1) that] P(1) NP I(1) that in auto)
    then show ?thesis using e8(2) NP that by (auto simp: i_links_count_def INODE_SIZE_def)
  qed
  have keepB: "d' x = e7 x" if x: "block_at j \<le> x" "x < block_at j + EXT2_BLOCK_SIZE" for x
  proof -
    have tx: "table_end d \<le> x" using fs_ok_free(1) [OF ok jd(1)] x(1) by simp
    have "d' x = e8 x"
    proof (rule keep)
      show "outside_blocks (dir_blocks d P) x" using used_block_apart [OF u _ jd(1)] x by (force simp: outside_blocks_def)
      show "x < block_at b \<or> block_at b + EXT2_BLOCK_SIZE \<le> x" if "b \<in> K" for b
        using block_at_apart [of b j] that q(2) x by force
    qed (use tx I in auto)
    also have "\<dots> = e7 x" using e8(2) tx I(4) by (auto simp: i_links_count_def INODE_SIZE_def)
    finally show ?thesis .
  qed
  have bs: "block_start (TO_NUMBER j) = block_at j"
    using fs_okD(3) [OF ok] jd(1) unat_to_number [of j] by (simp add: block_at_def free_blocks_def unmarked_def)
  have D: "dir_ok d' ?N [[block_at j, block_at j + 12]] \<and>
      listing d' (concat [[block_at j, block_at j + 12]]) = listing e7 (concat [[block_at j, block_at j + 12]])"
    by (rule dir_ok_cong [OF f(12)]) (use keepN keepB bs f(13) in \<open>auto simp: i_block_def INODE_SIZE_def\<close>)
  have m: "get 2 (?N + a) d' = (get 2 (?N + a) e7 :: u16)" if "a + 2 \<le> INODE_SIZE" for a
    by (rule get_cong) (use keepN that in simp)
  have run: "make_directory E (TO_NUMBER k) nm d = Inr (0, d')"
    using inode_ptr_at [OF ok bounds(3)] P(1) t(1-3) inode_ptr_at [OF t(5) bounds(2)] N1(1) f(1-9) e8(1) r(1)
    by (simp add: make_directory_def)
  have md: "get 2 (i_mode ?N) d' = EXT2_S_IFDIR" "get 2 (i_links_count ?N) d' = (2 :: u16)"
    using f(15,16) m [of 0] m [of 26] by (simp_all add: i_mode_def i_links_count_def INODE_SIZE_def)
  have J: "insert j K \<subseteq> free_blocks d" "card (insert j K) = 1 + entry_blocks d ess nm" "free_blocks d' = free_blocks d - insert j K"
    using jd(1) q(2,3,5) finite_subset [OF q(2)] by (auto simp: card_insert_if)
  have ls: "listing d' (concat [[block_at j, block_at j + 12]]) =
      [([DOT], TO_NUMBER i, EXT2_FT_DIR), ([DOT, DOT], TO_NUMBER k, EXT2_FT_DIR)]" using D f(14) by simp
  show ?thesis
    by (rule exI [of _ d'], rule exI [of _ i], rule exI [of _ "insert j K"], rule exI [of _ ess'],
        rule exI [of _ "[[block_at j, block_at j + 12]]"])
      (intro conjI run t(4) J(1,2) q(1,4) J(3) n conjunct1 [OF D] ls md)
qed

section \<open>Copying a file to a new name\<close>

text \<open>The head of the inode of a regular file with \<open>n\<close> bytes and one name.\<close>

definition file_head :: "disk \<Rightarrow> nat \<Rightarrow> nat \<Rightarrow> bool" where
  "file_head d N n \<longleftrightarrow> get 2 (i_mode N) d = EXT2_S_IFREG \<and> get 4 (i_size N) d = (of_nat n :: u32) \<and>
     get 2 (i_links_count N) d = (1 :: u16)"

lemma file_head_cong: "file_head d N n \<Longrightarrow> (\<And>x. x < 28 \<Longrightarrow> d' (N + x) = d (N + x)) \<Longrightarrow> file_head d' N n"
proof -
  assume h: "file_head d N n" and s: "\<And>x. x < 28 \<Longrightarrow> d' (N + x) = d (N + x)"
  have "get 2 (N + 0) d' = (get 2 (N + 0) d :: u16)" "get 2 (N + 26) d' = (get 2 (N + 26) d :: u16)" "get 4 (N + 4) d' = (get 4 (N + 4) d :: u32)"
    by (intro get_cong; use s in \<open>simp add: add.assoc\<close>)+
  then show ?thesis using h by (simp add: file_head_def i_mode_def i_size_def i_links_count_def)
qed

lemma enough_blocks:
  assumes "fs_ok d" "blocks_needed m = Some n"
  shows "have_enough_blocks m d = Inr (n \<le> card (free_blocks d))"
proof -
  have "bg_free_blocks_count get_group_descriptor + 2 \<le> DISK_SIZE" by (simp add: field_defs get_group_descriptor_def disk_size)
  then show ?thesis using free_count [OF assms(1)] assms(2) by (simp add: have_enough_blocks_def)
qed

lemma have_enough_blocks_cong:
  "fs_ok d \<Longrightarrow> fs_ok e \<Longrightarrow> free_blocks e = free_blocks d \<Longrightarrow> have_enough_blocks n e = have_enough_blocks n d"
proof -
  assume a: "fs_ok d" "fs_ok e" "free_blocks e = free_blocks d"
  have "bg_free_blocks_count get_group_descriptor + 2 \<le> DISK_SIZE" by (simp add: field_defs get_group_descriptor_def disk_size)
  then show ?thesis using free_count [OF a(1)] free_count [OF a(2)] a(3) by (simp add: have_enough_blocks_def split: option.split)
qed

text \<open>The inode of the copy with its data, before it has a name.\<close>

lemma copy_into_inode:
  assumes ok: "fs_ok d" and c: "cell_ok d N INODE_SIZE" and e: "have_enough_blocks (length bs) d = Inr True"
  shows "\<exists>e1 d' I. init_inode E N EXT2_S_IFREG (of_nat sz) d = Inr e1 \<and> copy_content N bs e1 = Inr d' \<and>
    taken {N ..< N + INODE_SIZE} I d d' \<and> file_on d' N (length bs) I \<and> read_file d' N (length bs) = bs \<and>
    (\<forall>k. blocks_needed (length bs) = Some k \<longrightarrow> card I \<le> k) \<and> file_head d' N sz"
proof -
  have N: "table_addr d \<le> N" "N + INODE_SIZE \<le> DISK_SIZE" using c by (auto simp: cell_ok_def)
  obtain e1 where e1: "init_inode E N EXT2_S_IFREG (of_nat sz) d = Inr e1" "\<forall>x. x < N \<or> N + INODE_SIZE \<le> x \<longrightarrow> e1 x = d x"
    "file_head e1 N sz" using init_inode_run [OF N(2), of E EXT2_S_IFREG "of_nat sz" d] unfolding file_head_def by blast
  have t: "taken {N ..< N + INODE_SIZE} {} d e1"
    by (rule taken_store [OF taken_refl [OF ok] _ _ ok]) (use e1(2) N in auto)
  then have k: "fs_ok e1" "free_blocks e1 = free_blocks d" by (auto simp: taken_def)
  have en: "have_enough_blocks (length bs) e1 = Inr True" using have_enough_blocks_cong [OF ok k] e by simp
  obtain d' I where r: "copy_content N bs e1 = Inr d'" "taken {N ..< N + INODE_SIZE} I e1 d'"
    "file_on d' N (length bs) I" "read_file d' N (length bs) = bs" "\<forall>k. blocks_needed (length bs) = Some k \<longrightarrow> card I \<le> k"
    "\<forall>x < 28. d' (N + x) = e1 (N + x)" using copy_content_run [OF k(1) taken_cell [OF c t] en] by blast
  have "taken {N ..< N + INODE_SIZE} I d d'" using taken_trans [OF t r(2)] by simp
  moreover have "file_head d' N sz" by (rule file_head_cong [OF e1(3)]) (use r(6) in simp)
  ultimately show ?thesis using e1(1) r(1,3-5) by blast
qed

lemma copy_to_run:
  assumes ok: "fs_ok d" and u: "used_dir d P ess" and P: "P = inode_at d k" "k < inode_count d" "k \<notin> free_inodes d"
    and fr: "free_inodes d \<noteq> {}"
    and sz: "blocks_needed (length (content nf)) = Some n" "n + entry_blocks d ess nm \<le> card (free_blocks d)"
    and nm: "length nm < 256" and room: "can_enter d ess nm"
  shows "\<exists>d' i I ess'. copy_to E nf (P, nm, None) d = Inr (0, d') \<and> i \<in> free_inodes d \<and> I \<subseteq> free_blocks d \<and>
    card I \<le> n + entry_blocks d ess nm \<and> fs_ok d' \<and> free_inodes d' = free_inodes d - {i} \<and> free_blocks d' = free_blocks d - I \<and>
    dir_ok d' P ess' \<and> new_name d ess d' ess' (nm, TO_NUMBER i, EXT2_FT_REG_FILE) \<and>
    read_file d' (inode_at d i) (length (content nf)) = content nf \<and> file_head d' (inode_at d i) (st_size nf)"
proof -
  obtain i d1 where t: "find_free_inode d = Inr (TO_NUMBER i)" "TO_NUMBER i \<noteq> 0" "update_bitmap CHR ''i'' (TO_NUMBER i) True d = Inr d1"
    "i \<in> free_inodes d" "fs_ok d1" "free_inodes d1 = free_inodes d - {i}" "free_blocks d1 = free_blocks d"
    "\<forall>a \<ge> table_addr d. d1 a = d a" "table_addr d1 = table_addr d" using take_inode [OF ok fr(1)] by blast
  let ?N = "inode_at d i" and ?n = "length (content nf)" and ?A = "{inode_at d i ..< inode_at d i + INODE_SIZE}"
  have bounds: "i < inode_count d" "i < BITS" "i \<noteq> k" using free_inode_bound [OF ok t(4)] P(3) t(4) by auto
  have N1: "?N = inode_at d1 i" by (simp add: inode_at_def t(9))
  have "cell_ok d ?N INODE_SIZE" using inode_cell [OF ok bounds(1)] .
  then have c1: "cell_ok d1 ?N INODE_SIZE" using t(7,9) by (simp add: cell_ok_def)
  obtain e1 e2 I where r: "init_inode E ?N EXT2_S_IFREG (of_nat (st_size nf)) d1 = Inr e1" "copy_content ?N (content nf) e1 = Inr e2"
    "taken ?A I d1 e2" "file_on e2 ?N ?n I" "read_file e2 ?N ?n = content nf" "card I \<le> n"
    "file_head e2 ?N (st_size nf)"
  proof -
    have "have_enough_blocks ?n d1 = Inr True" using enough_blocks [OF t(5) sz(1)] sz(2) t(7) by simp
    from copy_into_inode [OF t(5) c1 this, of E "st_size nf"] show ?thesis using that sz(1) by blast
  qed
  have T: "fs_ok e2" "free_blocks e2 = free_blocks d - I" "free_inodes e2 = free_inodes d - {i}" "table_addr e2 = table_addr d"
    "I \<subseteq> free_blocks d" using r(3) t(6,7,9) by (auto simp: taken_def)
  have un: "unchanged ?A I d e2"
  proof (rule unchangedI)
    fix x assume x: "table_addr d \<le> x" "x \<notin> ?A" "\<And>i. i \<in> I \<Longrightarrow> x < block_at i \<or> block_at i + EXT2_BLOCK_SIZE \<le> x"
    then have "e2 x = d1 x" using taken_unchanged [OF r(3)] t(9) unfolding unchanged_def by auto
    then show "e2 x = d x" using t(8) x(1) by simp
  qed
  note B = inode_in_table [OF bounds(1)]
  have NP: "?N + INODE_SIZE \<le> P \<or> P + INODE_SIZE \<le> ?N" using inode_at_apart [OF bounds(3), of d] P(1) by auto
  have A: "\<forall>x \<in> ?A. x < i_block P 0 \<or> i_block P 15 \<le> x" "\<forall>x \<in> ?A. x < table_end d"
    using NP B by (auto simp: i_block_def INODE_SIZE_def)
  have fe: "free_blocks e2 \<subseteq> free_blocks d" "entry_blocks d ess nm \<le> card (free_blocks e2)"
    using T(2,5) sz(2) r(6) card_Diff_subset [OF finite_subset [OF T(5)] T(5)] by auto
  obtain d' K where a: "enter_copy P ?N (TO_NUMBER i) nm e2 = Inr (0, d')"
    "name_added d P ess (nm, TO_NUMBER i, EXT2_FT_REG_FILE) e2 d' K"
    using enter_copy_run [OF ok u P(1,2) T(5) un A T(1,4) fe(1) nm t(2) room fe(2)] by blast
  obtain ess' where n: "dir_ok d' P ess'" "new_name d ess d' ess' (nm, TO_NUMBER i, EXT2_FT_REG_FILE)"
    using a(2) by (auto simp: name_added_def)
  have q: "fs_ok d'" "K \<subseteq> free_blocks d - I" "free_blocks d' = free_blocks d - I - K" "free_inodes d' = free_inodes d - {i}"
    "card K = entry_blocks d ess nm" using a(2) T by (auto simp: name_added_def)
  have keep: "d' y = e2 y" if "table_addr d \<le> y" "y < P \<or> P + INODE_SIZE \<le> y" "outside_blocks (dir_blocks d P) y"
    "\<And>b. b \<in> K \<Longrightarrow> y < block_at b \<or> block_at b + EXT2_BLOCK_SIZE \<le> y" for y
    using a(2) that unfolding name_added_def by auto
  have kN: "d' x = e2 x" if x: "?N \<le> x" "x < ?N + INODE_SIZE" for x
  proof (rule keep)
    show "x < block_at b \<or> block_at b + EXT2_BLOCK_SIZE \<le> x" if "b \<in> K" for b
      using fs_ok_free(1) [OF ok, of b] that q(2) B(2) x(2) by force
  qed (use used_dir_sep [OF u [unfolded P(1)] bounds(1) x] P(1) NP B(1) x in auto)
  have hd: "file_head d' ?N (st_size nf)" by (rule file_head_cong [OF r(7)]) (use kN in \<open>simp add: INODE_SIZE_def\<close>)
  have rd: "read_file d' ?N ?n = content nf"
  proof -
    have "read_file d' ?N ?n = read_file e2 ?N ?n"
    proof (rule file_kept [OF r(4)])
      show "\<forall>i \<in> I. block_at i + EXT2_BLOCK_SIZE \<le> DISK_SIZE" using fs_ok_free(2) [OF ok] T(5) by blast
      show "d' x = e2 x" if "?N \<le> x" "x < ?N + INODE_SIZE" for x by (rule kN [OF that])
      show "d' x = e2 x" if b: "b \<in> I" and x: "block_at b \<le> x" "x < block_at b + EXT2_BLOCK_SIZE" for b x
      proof (rule keep)
        have tx: "table_end d \<le> x" using fs_ok_free(1) [OF ok subsetD [OF T(5) b]] x(1) by simp
        show "table_addr d \<le> x" "x < P \<or> P + INODE_SIZE \<le> x" using tx inode_in_table [OF P(2)] P(1) by auto
        show "outside_blocks (dir_blocks d P) x"
          using used_block_apart [OF u _ subsetD [OF T(5) b]] x by (force simp: outside_blocks_def)
        show "x < block_at c \<or> block_at c + EXT2_BLOCK_SIZE \<le> x" if "c \<in> K" for c
          using block_at_apart [of c b] that q(2) b x by force
      qed
    qed
    then show ?thesis using r(5) by simp
  qed
  have run: "copy_to E nf (P, nm, None) d = Inr (0, d')"
    using t(1-3) inode_ptr_at [OF t(5) bounds(2)] N1 r(1,2) a(1) by (simp add: copy_to_def inode_for_copy_def)
  have I: "I \<union> K \<subseteq> free_blocks d" "card (I \<union> K) \<le> n + entry_blocks d ess nm" "free_blocks d' = free_blocks d - (I \<union> K)"
    using T(5) q(2,3,5) r(6) card_Un_le [of I K] by auto
  show ?thesis
    by (rule exI [of _ d'], rule exI [of _ i], rule exI [of _ "I \<union> K"], rule exI [of _ ess'])
      (intro conjI run t(4) I(1,2) q(1,4) I(3) n rd hd)
qed

end
