(* ===== verification/Ext2_Path.thy ===== *)
theory Ext2_Path
  imports Ext2_Dir
begin

text \<open>
  Paths: splitting off the last component, and the walk of \<open>find_dir_entry\<close> as a walk
  over the list of the path's components.
\<close>

section \<open>The last component\<close>

lemma slash_below_none: "(\<And>i. i < n \<Longrightarrow> path ! i \<noteq> SLASH) \<Longrightarrow> slash_below path n = -1"
  by (induction n) auto

lemma slash_below_at:
  assumes "k < n" "path ! k = SLASH" and "\<And>i. k < i \<Longrightarrow> i < n \<Longrightarrow> path ! i \<noteq> SLASH"
  shows "slash_below path n = int k"
  using assms
proof (induction n)
  case (Suc n)
  then show ?case by (cases "k = n") auto
qed simp

lemma nth_slash_free: "SLASH \<notin> set nm \<Longrightarrow> i < length nm \<Longrightarrow> nm ! i \<noteq> SLASH"
  by (metis nth_mem)

lemma slash_below_append:
  assumes "SLASH \<notin> set nm"
  shows "slash_below (p @ SLASH # nm @ q) (Suc (length p + length nm)) = int (length p)"
proof (rule slash_below_at)
  fix i assume i: "length p < i" "i < Suc (length p + length nm)"
  define j where "j = i - Suc (length p)"
  have j: "i = length p + Suc j" "j < length nm" using i by (simp_all add: j_def)
  then have "(p @ SLASH # nm @ q) ! i = nm ! j" unfolding j(1) nth_append_length_plus by (simp add: nth_append)
  then show "(p @ SLASH # nm @ q) ! i \<noteq> SLASH" using j(2) nth_slash_free [OF assms] by simp
qed simp_all

text \<open>With and without a slash at the end of the path.\<close>

lemma last_slash_run:
  assumes "SLASH \<notin> set nm" and "nm \<noteq> []"
  shows "last_slash_in_path (p @ SLASH # nm) = Inr (of_nat (length p))"
    and "last_slash_in_path (p @ SLASH # nm @ [SLASH]) = Inr (of_nat (length p))"
proof -
  have "last nm \<noteq> SLASH" using assms by (metis last_in_set)
  then show "last_slash_in_path (p @ SLASH # nm) = Inr (of_nat (length p))"
    using assms slash_below_append [OF assms(1), of p "[]"] by (simp add: last_slash_in_path_def)
  show "last_slash_in_path (p @ SLASH # nm @ [SLASH]) = Inr (of_nat (length p))"
    using slash_below_append [OF assms(1), of p "[SLASH]"] by (simp add: last_slash_in_path_def)
qed

lemma file_name_run:
  assumes "SLASH \<notin> set nm" "nm \<noteq> []" and "length p < 2 ^ 31"
  shows "find_file_name_by_path (p @ SLASH # nm) = Inr nm"
    and "find_file_name_by_path (p @ SLASH # nm @ [SLASH]) = Inr (nm @ [SLASH])"
proof -
  have "of_nat (length p) + 1 = (of_nat (length p + 1) :: u32)" by simp
  then have l: "unat (of_nat (length p) + 1 :: u32) = length p + 1"
    using assms(3) by (simp only: unat_of_nat) simp
  show "find_file_name_by_path (p @ SLASH # nm) = Inr nm"
    "find_file_name_by_path (p @ SLASH # nm @ [SLASH]) = Inr (nm @ [SLASH])"
    using assms l by (simp_all add: find_file_name_by_path_def last_slash_run)
qed

lemma parent_run:
  assumes "SLASH \<notin> set nm" "nm \<noteq> []" and "length p < 2 ^ 31" and "slack E"
  shows "find_parent_inode E (p @ SLASH # nm) d =
    (if p = [] then Inr ROOT_INODE_NUMBER
     else bindE (find_dir_entry p d) (\<lambda>r. case r of None \<Rightarrow> Inr 0 | Some e \<Rightarrow> ld32 (de_inode e) d))"
proof -
  have "unat (of_nat (length p) :: u32) = length p" using assms(3) by (simp add: unat_of_nat)
  then show ?thesis using assms by (simp add: find_parent_inode_def copy_path_def last_slash_run Let_def)
qed

section \<open>Components\<close>

function components :: "cstring \<Rightarrow> cstring list" where
  "components path = (case strtok_r path of (None, _) \<Rightarrow> [] | (Some t, rest) \<Rightarrow> t # components rest)"
  by pat_completeness auto
termination
  by (relation "measure length") (simp_all add: strtok_r_shorter [OF sym])

declare components.simps [simp del]

text \<open>The absolute path with the given components.\<close>

definition join_path :: "cstring list \<Rightarrow> cstring" where
  "join_path cs = concat (map (\<lambda>c. SLASH # c) cs)"

definition component :: "cstring \<Rightarrow> bool" where
  "component c \<longleftrightarrow> c \<noteq> [] \<and> SLASH \<notin> set c"

lemma strtok_r_slash: "strtok_r (SLASH # p) = strtok_r p"
  by (simp add: strtok_r_def)

lemma strtok_r_component:
  assumes "component c"
  shows "strtok_r (c @ SLASH # rest) = (Some c, rest)" "strtok_r c = (Some c, [])"
proof -
  obtain x xs where c: "c = x # xs" "x \<noteq> SLASH" "SLASH \<notin> set xs" using assms by (cases c) (auto simp: component_def)
  have t: "takeWhile (\<lambda>c. c \<noteq> SLASH) xs = xs" "dropWhile (\<lambda>c. c \<noteq> SLASH) xs = []"
    using c(3) by (auto intro: takeWhile_eq_all_conv [THEN iffD2] dropWhile_eq_Nil_conv [THEN iffD2])
  show "strtok_r c = (Some c, [])" using c(1,2) by (simp add: strtok_r_def t del: dropWhile_eq_Nil_conv)
  have "takeWhile (\<lambda>c. c \<noteq> SLASH) (xs @ SLASH # rest) = xs" "dropWhile (\<lambda>c. c \<noteq> SLASH) (xs @ SLASH # rest) = SLASH # rest"
    using c(3) by (metis (mono_tags, lifting) takeWhile_append2 takeWhile.simps(2) append_Nil2)
      (metis (mono_tags, lifting) c(3) dropWhile_append2 dropWhile.simps(2))
  then show "strtok_r (c @ SLASH # rest) = (Some c, rest)" using c by (simp add: strtok_r_def)
qed

lemma strtok_r_join:
  assumes "component c"
  shows "strtok_r (join_path (c # cs)) = (Some c, drop 1 (join_path cs))"
proof (cases cs)
  case Nil
  then show ?thesis using strtok_r_component(2) [OF assms] by (simp add: join_path_def strtok_r_slash)
next
  case (Cons x xs)
  then show ?thesis using strtok_r_component(1) [OF assms] by (simp add: join_path_def strtok_r_slash)
qed

lemma strtok_r_drop: "strtok_r (drop 1 (join_path cs)) = strtok_r (join_path cs)"
  by (cases cs) (simp_all add: join_path_def strtok_r_slash)

lemma components_drop: "components (drop 1 (join_path cs)) = components (join_path cs)"
  by (subst (1 2) components.simps) (simp only: strtok_r_drop)

lemma components_join: "\<forall>c \<in> set cs. component c \<Longrightarrow> components (join_path cs) = cs"
proof (induction cs)
  case Nil
  then show ?case by (subst components.simps) (simp add: join_path_def strtok_r_def)
next
  case (Cons c cs)
  then show ?case by (subst components.simps) (simp add: strtok_r_join components_drop del: One_nat_def)
qed

section \<open>The walk\<close>

text \<open>The same walk over a list of components; the first one is looked up in any case.\<close>

fun resolve :: "nat \<Rightarrow> cstring list \<Rightarrow> disk \<Rightarrow> nat option res" where
  "resolve inode [] d = bindE (locate_file_by_name inode None d) (\<lambda>_. Inr None)"
| "resolve inode (c # cs) d =
    bindE (locate_file_by_name inode (Some c) d) (\<lambda>r.
    case r of None \<Rightarrow> Inr None
    | Some e \<Rightarrow> bindE (ld32 (de_inode e) d) (\<lambda>n. bindE (inode_ptr n d) (\<lambda>i.
        if cs = [] then Inr (Some e) else resolve i cs d)))"

lemma walk_path_resolve:
  "walk_path inode path cur d = (if components path = [] then Inr (Some cur) else resolve inode (components path) d)"
proof (induction inode path cur d rule: walk_path.induct)
  case (1 inode path cur d)
  obtain t rest where s: "strtok_r path = (t, rest)" by (cases "strtok_r path")
  show ?case
  proof (cases t)
    case None
    then show ?thesis using s by (simp add: walk_path.simps [of inode path] components.simps [of path])
  next
    case (Some c)
    have c: "components path = c # components rest" using s Some by (subst components.simps) simp
    have "walk_path inode path cur d = resolve inode (c # components rest) d"
      unfolding walk_path.simps [of inode path] s Some resolve.simps prod.case option.case
    proof (rule bindE_cong [OF refl])
      fix r assume r: "locate_file_by_name inode (Some c) d = Inr r"
      show "(case r of None \<Rightarrow> Inr None
          | Some e \<Rightarrow> bindE (ld32 (de_inode e) d) (\<lambda>n. bindE (inode_ptr n d) (\<lambda>i. walk_path i rest e d))) =
        (case r of None \<Rightarrow> Inr None
          | Some e \<Rightarrow> bindE (ld32 (de_inode e) d) (\<lambda>n. bindE (inode_ptr n d) (\<lambda>i.
              if components rest = [] then Inr (Some e) else resolve i (components rest) d)))"
        using 1 [OF s [unfolded Some, symmetric] refl r] by (cases r) (auto intro!: bindE_cong)
    qed
    then show ?thesis using c by simp
  qed
qed

lemma entry_is_None: "entry_is None dir d \<noteq> Inr b"
  by (cases "ld8 (de_name_len dir) d") (simp_all add: entry_is_def)

lemma locate_in_block_None: "locate_in_block k None pos dir d \<noteq> Inr (Some e)"
  by (cases k; cases "entry_is None dir d") (auto simp: locate_in_block.simps entry_is_None)

lemma find_block_None: "find_block (\<lambda>b. locate_in_block k None 0 (g b)) inode is d \<noteq> Inr (Some e)"
proof (induction "is")
  case (Cons i "is")
  then show ?case
    by (cases "ld32 (i_block inode i) d")
      (auto simp: bindE_Inr_iff locate_in_block_None split: if_splits option.splits)
qed simp

text \<open>\<open>find_dir_entry\<close> depends on the components of its argument only.\<close>

lemma find_dir_entry_resolve:
  "find_dir_entry path d = bindE (get_root_inode d) (\<lambda>root. resolve root (components (drop 1 path)) d)"
proof -
  obtain t rest where s: "strtok_r (drop 1 path) = (t, rest)" by (cases "strtok_r (drop 1 path)")
  show ?thesis
  proof (cases t)
    case None
    have c: "components (drop 1 path) = []" using s None by (subst components.simps) simp
    have "find_block (\<lambda>b. locate_in_block (Suc EXT2_BLOCK_SIZE) None 0 (EXT2_BLOCK_SIZE * unat b)) root is d \<noteq> Inr (Some e)"
      for root "is" e by (rule find_block_None)
    then have "bindE (locate_file_by_name root None d) (\<lambda>r. case r of None \<Rightarrow> Inr None | Some e \<Rightarrow> f e) =
        bindE (locate_file_by_name root None d) (\<lambda>_. Inr None)" for root and f :: "nat \<Rightarrow> nat option res"
      unfolding locate_file_by_name_def by (intro bindE_cong) (auto split: option.split)
    then show ?thesis unfolding find_dir_entry_def s c None by simp
  next
    case (Some c)
    have c: "components (drop 1 path) = c # components rest" using s Some by (subst components.simps) simp
    show ?thesis unfolding find_dir_entry_def s c Some walk_path_resolve by simp
  qed
qed

text \<open>A path that leads through well-formed directories.\<close>

inductive leads_to :: "disk \<Rightarrow> nat \<Rightarrow> cstring list \<Rightarrow> nat \<Rightarrow> bool" for d where
  here: "\<lbrakk>dir_ok d inode ess; find (names d c) (concat ess) = Some e; e + 4 \<le> DISK_SIZE\<rbrakk> \<Longrightarrow> leads_to d inode [c] e"
| below: "\<lbrakk>dir_ok d inode ess; find (names d c) (concat ess) = Some e; e + 4 \<le> DISK_SIZE;
    inode_ptr (e_inode d e) d = Inr i; leads_to d i cs e'\<rbrakk> \<Longrightarrow> leads_to d inode (c # cs) e'"

inductive_cases leads_to_NilE: "leads_to d inode [] e"

lemma inode_ptr_run: "\<exists>i. inode_ptr n d = Inr i"
  by (simp add: inode_ptr_def get_inode_table_def field_defs get_group_descriptor_def disk_size)

lemma leads_to_resolve: "leads_to d inode cs e \<Longrightarrow> resolve inode cs d = Inr (Some e)"
proof (induction rule: leads_to.induct)
  case (here inode ess c e)
  obtain i where "inode_ptr (e_inode d e) d = Inr i" using inode_ptr_run by blast
  then show ?case using here by (simp add: locate_file_by_name_run e_inode_def de_inode_def)
next
  case (below inode ess c e i cs e')
  then have "cs \<noteq> []" using leads_to_NilE by blast
  then show ?case using below by (simp add: locate_file_by_name_run e_inode_def de_inode_def)
qed

lemma find_dir_entry_leads:
  assumes "get_root_inode d = Inr root" and "leads_to d root cs e" and "\<forall>c \<in> set cs. component c"
  shows "find_dir_entry (join_path cs) d = Inr (Some e)"
  using leads_to_resolve [OF assms(2)] assms(1,3)
  by (simp add: find_dir_entry_resolve components_drop components_join del: One_nat_def)

end
