(* ===== verification/Ext2_Rm.thy ===== *)
theory Ext2_Rm
  imports Ext2_Mkdir
begin

text \<open>
  The command that removes files and, with \<open>-r\<close>, directories (ext2_rm.c).  The
  recursion and the loop over the entries of a directory share their fuel: a path
  is shorter than \<open>PATH_MAX\<close>, which bounds the depth.
\<close>

section \<open>The parent's block\<close>

text \<open>The comparison of lines 19-24: set to 0 when a byte is the same.\<close>

definition same_name :: "nat \<Rightarrow> nat \<Rightarrow> disk \<Rightarrow> bool res" where
  "same_name dir file_entry d =
    bindE (ld8 (de_name_len dir) d) (\<lambda>l.
    bindE (load_bytes (unat l) (de_name dir) d) (\<lambda>a.
    bindE (load_bytes (unat l) (de_name file_entry) d) (\<lambda>b. Inr (list_all2 (\<noteq>) a b))))"

text \<open>The loop over the entries of a block, which only ends or does not.\<close>

fun pass_entries :: "nat \<Rightarrow> nat \<Rightarrow> nat \<Rightarrow> nat \<Rightarrow> disk \<Rightarrow> unit res" where
  "pass_entries 0 file_entry pos dir d = Inl Out_Of_Fuel"
| "pass_entries (Suc k) file_entry pos dir d =
    (if pos < EXT2_BLOCK_SIZE then
       bindE (ld8 (de_name_len dir) d) (\<lambda>l1. bindE (ld8 (de_name_len file_entry) d) (\<lambda>l2.
       bindE (if l1 = l2 then same_name dir file_entry d else Inr False) (\<lambda>stop.
       if stop then Inr ()
       else bindE (ld16 (de_rec_len dir) d) (\<lambda>r. pass_entries k file_entry (pos + unat r) (dir + unat r) d))))
     else Inr ())"

primrec locate_block_index :: "nat \<Rightarrow> nat \<Rightarrow> nat list \<Rightarrow> disk \<Rightarrow> int res" where
  "locate_block_index parent_inode file_entry [] d = Inr (-1)"
| "locate_block_index parent_inode file_entry (i # is) d =
    bindE (ld32 (i_block parent_inode i) d) (\<lambda>b.
    if b \<noteq> 0 then bindE (pass_entries (Suc EXT2_BLOCK_SIZE) file_entry 0 (block_ptr b) d) (\<lambda>_. Inr (int i))
    else locate_block_index parent_inode file_entry is d)"

definition locate_dir_entry_in_block :: "nat \<Rightarrow> nat \<Rightarrow> disk \<Rightarrow> int res" where
  "locate_dir_entry_in_block parent_inode file_entry =
    locate_block_index parent_inode file_entry [0 ..< TOTAL_BLOCK_COUNT]"

fun count_entries :: "nat \<Rightarrow> nat \<Rightarrow> nat \<Rightarrow> disk \<Rightarrow> nat res" where
  "count_entries 0 pos dir d = Inl Out_Of_Fuel"
| "count_entries (Suc k) pos dir d =
    (if pos < EXT2_BLOCK_SIZE then
       bindE (ld32 (de_inode dir) d) (\<lambda>i. bindE (ld16 (de_rec_len dir) d) (\<lambda>r.
       bindE (count_entries k (pos + unat r) (dir + unat r) d) (\<lambda>n. Inr (if i \<noteq> 0 then Suc n else n))))
     else Inr 0)"

declare pass_entries.simps [simp del] count_entries.simps [simp del]

definition update_parent_inode_block :: "nat \<Rightarrow> int \<Rightarrow> disk \<Rightarrow> disk res" where
  "update_parent_inode_block parent_inode index d =
    bindE (guardE Out_Of_Bounds (0 \<le> index)) (\<lambda>_.
    let p = i_block parent_inode (nat index) in
    bindE (ld32 p d) (\<lambda>b.
    bindE (count_entries (Suc EXT2_BLOCK_SIZE) 0 (block_ptr b) d) (\<lambda>count.
    if count = 1 then
      bindE (ld32 p d) (\<lambda>b. bindE (update_bitmap CHR ''b'' b False d)
        (seqE [st32 p 0, add32 (i_blocks parent_inode) (-1)]))
    else Inr d)))"

section \<open>Removing\<close>

text \<open>Lines 66-72 and 74-79.\<close>

definition release_file :: "fs_env \<Rightarrow> nat \<Rightarrow> nat \<Rightarrow> disk \<Rightarrow> disk res" where
  "release_file E inode dir_entry d =
    bindE (free_all_blocks_of_inode inode d) (\<lambda>d.
    bindE (ld32 (de_inode dir_entry) d) (\<lambda>n.
    bindE (update_bitmap CHR ''i'' n False d)
      (seqE [st32 (i_dtime inode) (now E), st32 (i_size inode) 0])))"

definition drop_entry :: "fs_env \<Rightarrow> nat \<Rightarrow> cstring \<Rightarrow> disk \<Rightarrow> disk res" where
  "drop_entry E dir_entry path d =
    bindE (find_parent_inode E path d) (\<lambda>pn. bindE (inode_ptr pn d) (\<lambda>parent_inode.
    bindE (locate_dir_entry_in_block parent_inode dir_entry d) (\<lambda>index.
    bindE (update_parent_inode_block parent_inode index d) (\<lambda>d.
    st32 (de_inode dir_entry) 0 d))))"

definition remove_file :: "fs_env \<Rightarrow> nat \<Rightarrow> cstring \<Rightarrow> disk \<Rightarrow> disk res" where
  "remove_file E dir_entry path d =
    bindE (ld32 (de_inode dir_entry) d) (\<lambda>n. bindE (inode_ptr n d) (\<lambda>inode.
    bindE (add16 (i_links_count inode) (-1) d) (\<lambda>d.
    bindE (ld16 (i_links_count inode) d) (\<lambda>links.
    bindE (if links = 0 then release_file E inode dir_entry d else Inr d) (drop_entry E dir_entry path)))))"

definition remove_empty_directory :: "fs_env \<Rightarrow> nat \<Rightarrow> cstring \<Rightarrow> disk \<Rightarrow> disk res" where
  "remove_empty_directory E empty_directory path d =
    bindE (find_parent_inode E path d) (\<lambda>pn. bindE (inode_ptr pn d) (\<lambda>parent_inode.
    bindE (locate_dir_entry_in_block parent_inode empty_directory d) (\<lambda>index.
    bindE (update_parent_inode_block parent_inode index d) (\<lambda>d.
    bindE (add16 (i_links_count parent_inode) (-1) d) (\<lambda>d.
    bindE (ld32 (de_inode empty_directory) d) (\<lambda>n.
    bindE (update_bitmap CHR ''i'' n False d) (\<lambda>d.
    bindE (ld32 (de_inode empty_directory) d) (\<lambda>n. bindE (inode_ptr n d) (\<lambda>inode.
    bindE (seqE [st32 (i_dtime inode) (now E), st32 (i_size inode) 0] d) (\<lambda>d.
    bindE (forE (\<lambda>i. free_block_at (i_block inode i)) [0 ..< TOTAL_BLOCK_COUNT] d) (\<lambda>d.
    st32 (de_inode empty_directory) 0 d)))))))))))"

text \<open>\<open>strcat(entry_path, dir->name)\<close>: the name runs to the next zero byte of the disk.\<close>

definition c_string_at :: "nat \<Rightarrow> disk \<Rightarrow> cstring res" where
  "c_string_at a d =
    (let s = takeWhile (\<lambda>c. c \<noteq> 0) (bytes (DISK_SIZE - a) a d) in
     bindE (guardE Out_Of_Bounds (a + length s < DISK_SIZE)) (\<lambda>_. Inr s))"

definition entry_path :: "cstring \<Rightarrow> nat \<Rightarrow> disk \<Rightarrow> cstring res" where
  "entry_path path dir d =
    bindE (c_string_at (de_name dir) d) (\<lambda>nm.
    bindE (guardE Out_Of_Bounds (length path + 1 + length nm < PATH_MAX)) (\<lambda>_. Inr (path @ [SLASH] @ nm)))"

text \<open>
  \<open>remove_entry\<close> is \<open>remove_directory_or_file_or_link\<close>, \<open>remove_within\<close> its loop over the
  entries of one block.
\<close>

fun remove_entry :: "nat \<Rightarrow> fs_env \<Rightarrow> nat \<Rightarrow> cstring \<Rightarrow> disk \<Rightarrow> disk res"
  and remove_within :: "nat \<Rightarrow> fs_env \<Rightarrow> cstring \<Rightarrow> nat \<Rightarrow> nat \<Rightarrow> disk \<Rightarrow> disk res" where
  "remove_entry 0 E dir_entry path d = Inl Out_Of_Fuel"
| "remove_entry (Suc k) E dir_entry path d =
    bindE (ld8 (de_file_type dir_entry) d) (\<lambda>ft.
    if ft = EXT2_FT_REG_FILE \<or> ft = EXT2_FT_SYMLINK then remove_file E dir_entry path d
    else
      bindE (ld32 (de_inode dir_entry) d) (\<lambda>n. bindE (inode_ptr n d) (\<lambda>inode.
      bindE (add16 (i_links_count inode) (-2) d) (\<lambda>d.
      bindE (forE (\<lambda>i d. bindE (ld32 (i_block inode i) d) (\<lambda>b.
          if b \<noteq> 0 then remove_within k E path 0 (block_ptr b) d else Inr d)) [0 ..< TOTAL_BLOCK_COUNT] d) (\<lambda>d.
      remove_empty_directory E dir_entry path d)))))"
| "remove_within 0 E path pos dir d = Inl Out_Of_Fuel"
| "remove_within (Suc k) E path pos dir d =
    (if pos < EXT2_BLOCK_SIZE then
       bindE (ld32 (de_inode dir) d) (\<lambda>n.
       bindE (if n \<noteq> 0 then check_if_external_entry dir d else Inr False) (\<lambda>external.
       bindE (if external then bindE (entry_path path dir d) (\<lambda>p. remove_entry k E dir p d) else Inr d) (\<lambda>d.
       bindE (ld16 (de_rec_len dir) d) (\<lambda>r. remove_within k E path (pos + unat r) (dir + unat r) d))))
     else Inr d)"

declare remove_entry.simps [simp del] remove_within.simps [simp del]

definition RM_FUEL :: nat where "RM_FUEL = PATH_MAX * DISK_SIZE"

definition rm :: "fs_env \<Rightarrow> bool \<Rightarrow> cstring \<Rightarrow> command" where
  "rm E flag path d =
    bindE (copy_path E path) (\<lambda>buf.
    bindE (find_dir_entry buf d) (\<lambda>dest_file.
    case dest_file of None \<Rightarrow> Inr (ENOENT, d)
    | Some e \<Rightarrow>
        bindE (ld8 (de_file_type e) d) (\<lambda>ft.
        if ft = EXT2_FT_DIR \<and> \<not> flag then Inr (EISDIR, d)
        else bindE (remove_entry RM_FUEL E e path d) (\<lambda>d. Inr (0, d)))))"

definition rm_main :: "fs_env \<Rightarrow> cstring list \<Rightarrow> disk option \<Rightarrow> (int \<times> disk option) res" where
  "rm_main E argv img =
    (if length argv \<noteq> 3 \<and> length argv \<noteq> 4 then Inr (EINVAL, img)
     else if length argv = 4 \<and> argv ! 2 \<noteq> [45, 114] then Inr (EINVAL, img)
     else
       let flag = (length argv = 4); path = (if flag then argv ! 3 else argv ! 2) in
       if \<not> is_absolute path then Inr (EINVAL, img)
       else if length path = 1 then Inr (EINVAL, img)
       else case img of None \<Rightarrow> Inl Exit_Failure | Some d \<Rightarrow> on_image (rm E flag path) EINVAL (Some d))"

end
