(* ===== verification/Ext2_Unlink.thy ===== *)
theory Ext2_Unlink
  imports Ext2_Make Ext2_Path Ext2_Rm
begin

text \<open>
  Removing a name: when other links to the file remain, \<open>ext2_rm\<close> takes the entry out
  of its directory and lowers the link count, and changes nothing else.
\<close>

section \<open>Paths through directories in use\<close>

text \<open>\<open>reaches d k cs e\<close>: from the directory with inode number \<open>k + 1\<close> the components lead to the entry \<open>e\<close>.\<close>

inductive reaches :: "disk \<Rightarrow> nat \<Rightarrow> cstring list \<Rightarrow> nat \<Rightarrow> bool" for d where
  here: "\<lbrakk>k < inode_count d; used_dir d (inode_at d k) ess; find (names d c) (concat ess) = Some e\<rbrakk> \<Longrightarrow> reaches d k [c] e"
| below: "\<lbrakk>k < inode_count d; used_dir d (inode_at d k) ess; find (names d c) (concat ess) = Some e;
    e_inode d e = TO_NUMBER k'; reaches d k' cs e'\<rbrakk> \<Longrightarrow> reaches d k (c # cs) e'"

lemma reaches_bound: "reaches d k cs e \<Longrightarrow> k < inode_count d"
  by (induction rule: reaches.induct) simp_all

lemma entry_in_dir:
  assumes "dir_ok d inode ess" and "a \<in> set (concat ess)"
  shows "\<exists>b \<in> set (dir_blocks d inode). block_start b \<le> a \<and> a + e_rec_len d a \<le> block_start b + EXT2_BLOCK_SIZE \<and>
    block_start b + EXT2_BLOCK_SIZE \<le> DISK_SIZE \<and> entry_fits d a"
proof -
  obtain es where es: "es \<in> set ess" "a \<in> set es" using assms(2) by auto
  then obtain i where i: "i < length ess" "es = ess ! i" by (auto simp: in_set_conv_nth)
  have o: "list_all2 (\<lambda>b es. dir_block d (block_start b) es) (dir_blocks d inode) ess" using assms(1) by (simp add: dir_ok_def)
  then have b: "i < length (dir_blocks d inode)" "dir_block d (block_start (dir_blocks d inode ! i)) es"
    using i by (auto simp: list_all2_conv_all_nth)
  have c: "chain_to d (block_start (dir_blocks d inode ! i)) es (block_start (dir_blocks d inode ! i) + EXT2_BLOCK_SIZE)"
    using b(2) by (simp add: dir_block_def)
  show ?thesis
    using b chain_in [OF c es(2)] by (intro bexI [of _ "dir_blocks d inode ! i"]) (auto simp: dir_block_def)
qed

lemma find_in_set: "find P xs = Some x \<Longrightarrow> x \<in> set xs \<and> P x"
  by (auto simp: find_Some_iff)

lemma entry_bound:
  assumes "dir_ok d inode ess" and "a \<in> set (concat ess)"
  shows "entry_fits d a" "a + e_rec_len d a \<le> DISK_SIZE" "a + 8 + unat (e_name_len d a) \<le> a + e_rec_len d a"
  using entry_in_dir [OF assms] entry_size_bounds(1) [of "e_name_len d a"] by (auto simp: entry_fits_def)

lemma reaches_leads: "reaches d k cs e \<Longrightarrow> fs_ok d \<Longrightarrow> leads_to d (inode_at d k) cs e"
proof (induction rule: reaches.induct)
  case (here k ess c e)
  have "dir_ok d (inode_at d k) ess" using here(2) by (simp add: used_dir_def)
  then show ?case
    using here(3) entry_bound(2,3) find_in_set [OF here(3)] by (intro leads_to.here) fastforce+
next
  case (below k ess c e k' cs e')
  have o: "dir_ok d (inode_at d k) ess" using below(2) by (simp add: used_dir_def)
  have "k' < BITS" using reaches_bound [OF below(5)] fs_okD(4) [OF below.prems] by simp
  then have "inode_ptr (e_inode d e) d = Inr (inode_at d k')" using below(4) inode_ptr_at [OF below.prems] by simp
  then show ?case
    using o below(3) entry_bound(2,3) [OF o] find_in_set [OF below(3)] below.IH [OF below.prems]
    by (intro leads_to.below) fastforce+
qed

text \<open>Bytes of inodes other than their pointers do not matter for the lookup.\<close>

definition inode_cells :: "disk \<Rightarrow> nat set \<Rightarrow> bool" where
  "inode_cells d A \<longleftrightarrow> (\<forall>x \<in> A. x < table_end d \<and> (\<forall>k < inode_count d. x < i_block (inode_at d k) 0 \<or> i_block (inode_at d k) 15 \<le> x))"

lemma names_cong:
  assumes "dir_ok d inode ess" and "a \<in> set (concat ess)"
    and "\<And>b x. b \<in> set (dir_blocks d inode) \<Longrightarrow> block_start b \<le> x \<Longrightarrow> x < block_start b + EXT2_BLOCK_SIZE \<Longrightarrow> d' x = d x"
  shows "names d' s a = names d s a" "e_inode d' a = e_inode d a"
proof -
  obtain b where b: "b \<in> set (dir_blocks d inode)" "block_start b \<le> a" "a + e_rec_len d a \<le> block_start b + EXT2_BLOCK_SIZE"
    using entry_in_dir [OF assms(1,2)] by blast
  note l = entry_bound(3) [OF assms(1,2)]
  have "d' x = d x" if "a \<le> x" "x < a + 8 + unat (e_name_len d a)" for x
    by (rule assms(3) [OF b(1)]) (use that b l in linarith)+
  then show "names d' s a = names d s a" "e_inode d' a = e_inode d a"
    using entry_cong [of a d d'] by (simp_all add: names_def)
qed

lemma find_same: "(\<And>x. x \<in> set xs \<Longrightarrow> P x = Q x) \<Longrightarrow> find P xs = find Q xs"
  by (induction xs) auto

lemma dir_cells:
  assumes ok: "fs_ok d" and u: "used_dir d (inode_at d k) ess" and k: "k < inode_count d" and un: "unchanged A {} d e" and A: "inode_cells d A"
  shows "dir_ok e (inode_at d k) ess" "dir_blocks e (inode_at d k) = dir_blocks d (inode_at d k)"
    "find (names e c) (concat ess) = find (names d c) (concat ess)" "\<And>a. a \<in> set (concat ess) \<Longrightarrow> e_inode e a = e_inode d a"
    "listing e (concat ess) = listing d (concat ess)"
    "\<And>b x. b \<in> set (dir_blocks d (inode_at d k)) \<Longrightarrow> block_start b \<le> x \<Longrightarrow> x < block_start b + EXT2_BLOCK_SIZE \<Longrightarrow> e x = d x"
proof -
  let ?P = "inode_at d k"
  have c: "\<forall>x \<in> A. x < i_block ?P 0 \<or> i_block ?P 15 \<le> x" "\<forall>x \<in> A. x < table_end d" using A k by (auto simp: inode_cells_def)
  show "dir_ok e ?P ess" "dir_blocks e ?P = dir_blocks d ?P" "listing e (concat ess) = listing d (concat ess)"
    using used_dir_kept(1-3) [OF ok u refl k _ un c] by simp_all
  have o: "dir_ok d ?P ess" using u by (simp add: used_dir_def)
  show same: "e x = d x" if b: "b \<in> set (dir_blocks d ?P)" "block_start b \<le> x" "x < block_start b + EXT2_BLOCK_SIZE" for b x
  proof -
    have "table_end d \<le> x" using u b by (auto simp: used_dir_def)
    then have "table_addr d \<le> x" "x \<notin> A" using c(2) by (auto simp: table_end_def dest: leD)
    then show ?thesis using un by (simp add: unchanged_def)
  qed
  show "find (names e c) (concat ess) = find (names d c) (concat ess)"
    by (rule find_same, rule names_cong(1) [OF o]) (use same in auto)
  show "e_inode e a = e_inode d a" if "a \<in> set (concat ess)" for a
    by (rule names_cong(2) [OF o that]) (use same in auto)
qed

lemma used_dir_cells:
  assumes ok: "fs_ok d" and u: "used_dir d (inode_at d k) ess" and k: "k < inode_count d" and un: "unchanged A {} d e" and A: "inode_cells d A"
    and e: "fs_ok e" "table_addr e = table_addr d" "inode_count e = inode_count d" "free_blocks e = free_blocks d"
  shows "used_dir e (inode_at d k) ess" "find (names e c) (concat ess) = find (names d c) (concat ess)"
    "\<And>a. a \<in> set (concat ess) \<Longrightarrow> e_inode e a = e_inode d a"
proof -
  have te: "table_end e = table_end d" using e(2,3) by (simp add: table_end_def)
  show "used_dir e (inode_at d k) ess" using dir_cells(1,2) [OF ok u k un A] u e(4) te by (simp add: used_dir_def)
qed (use dir_cells(3,4) [OF ok u k un A] in auto)

lemma reaches_kept:
  assumes "reaches d k cs x" and ok: "fs_ok d" and un: "unchanged A {} d e" and A: "inode_cells d A"
    and e: "fs_ok e" "table_addr e = table_addr d" "inode_count e = inode_count d" "free_blocks e = free_blocks d"
  shows "reaches e k cs x \<and> e_inode e x = e_inode d x"
  using assms(1)
proof (induction rule: reaches.induct)
  case (here k ess c a)
  note U = used_dir_cells [OF ok here(2,1) un A e]
  have "inode_at e k = inode_at d k" using e(2) by (simp add: inode_at_def)
  then show ?case
    using here U(1,2) U(3) [of a] find_in_set [OF here(3)] e(3) by (auto intro: reaches.here)
next
  case (below k ess c a k' cs a')
  note U = used_dir_cells [OF ok below(2,1) un A e]
  have "inode_at e k = inode_at d k" using e(2) by (simp add: inode_at_def)
  then show ?case
    using below U(1,2) U(3) [of a] find_in_set [OF below(3)] e(3) by (auto intro: reaches.below)
qed

text \<open>The path still leads to the same entry when blocks have been freed.\<close>

lemma reaches_still_leads:
  assumes "reaches d k cs x" and ok: "fs_ok d" and un: "unchanged A {} d e" and A: "inode_cells d A"
    and e: "fs_ok e" "table_addr e = table_addr d"
  shows "leads_to e (inode_at d k) cs x \<and> e_inode e x = e_inode d x \<and> x + 4 \<le> DISK_SIZE"
  using assms(1)
proof (induction rule: reaches.induct)
  case (here k ess c a)
  note U = dir_cells [OF ok here(2,1) un A]
  have "a + 4 \<le> DISK_SIZE" using entry_bound(2,3) [OF U(1)] find_in_set [OF here(3)] by fastforce
  then show ?case using here U(1,3) U(4) [of a] find_in_set [OF here(3)] by (auto intro: leads_to.here)
next
  case (below k ess c a k' cs a')
  note U = dir_cells [OF ok below(2,1) un A]
  have 4: "a + 4 \<le> DISK_SIZE" using entry_bound(2,3) [OF U(1)] find_in_set [OF below(3)] by fastforce
  have "k' < BITS" using reaches_bound [OF below(5)] fs_okD(4) [OF ok] by simp
  moreover have "inode_at e k' = inode_at d k'" using e(2) by (simp add: inode_at_def)
  ultimately have "inode_ptr (e_inode e a) e = Inr (inode_at d k')"
    using below(4) inode_ptr_at [OF e(1)] U(4) [of a] find_in_set [OF below(3)] by simp
  then show ?case using below U(1,3) 4 by (auto intro: leads_to.below)
qed

section \<open>Looking up a path and its parent\<close>

text \<open>The components \<open>cs\<close> lead from the root directory to the directory with inode number \<open>k + 1\<close>.\<close>

definition dir_path :: "disk \<Rightarrow> cstring list \<Rightarrow> nat \<Rightarrow> bool" where
  "dir_path d cs k \<longleftrightarrow> cs = [] \<and> k = 1 \<or> (\<exists>e. reaches d 1 cs e \<and> e_inode d e = TO_NUMBER k)"

lemma reaches_append:
  assumes "reaches d k cs e" and "e_inode d e = TO_NUMBER k'" and "reaches d k' cs' e'"
  shows "reaches d k (cs @ cs') e'"
  using assms
proof (induction rule: reaches.induct)
  case (here k ess c e)
  then show ?case by (auto intro: reaches.below)
next
  case (below k ess c e k2 cs e2)
  then show ?case by (auto intro: reaches.below)
qed

lemma reaches_entry: "reaches d k cs e \<Longrightarrow> e + 8 \<le> DISK_SIZE"
proof (induction rule: reaches.induct)
  case (here k ess c e)
  then have "dir_ok d (inode_at d k) ess" by (simp add: used_dir_def)
  then show ?case using entry_bound(2,3) find_in_set [OF here(3)] by fastforce
qed

lemma root_run: "fs_ok d \<Longrightarrow> get_root_inode d = Inr (inode_at d 1)"
  using inode_ptr_at [of d 1] by (simp add: get_root_inode_def ROOT_INODE_NUMBER_def TO_NUMBER_def BITS_def EXT2_BLOCK_SIZE_def)

lemma lookup_run:
  assumes "fs_ok d" "reaches d 1 cs e" "\<forall>c \<in> set cs. component c"
  shows "find_dir_entry (join_path cs) d = Inr (Some e)"
  by (rule find_dir_entry_leads [OF root_run [OF assms(1)] reaches_leads [OF assms(2,1)] assms(3)])

lemma join_path_snoc: "join_path (cs @ [c]) = join_path cs @ SLASH # c"
  by (simp add: join_path_def)

lemma join_path_Nil: "join_path cs = [] \<longleftrightarrow> cs = []"
  by (cases cs) (simp_all add: join_path_def)

lemma reaches_nonempty: "reaches d k cs e \<Longrightarrow> cs \<noteq> []"
  by (induction rule: reaches.induct) simp_all

lemma parent_found:
  assumes ok: "fs_ok d" and "slack E" and cs: "\<forall>c \<in> set cs. component c" "component nm" and l: "length (join_path cs) < 2 ^ 31"
    and p: "cs = [] \<Longrightarrow> k = 1" "cs \<noteq> [] \<Longrightarrow> \<exists>e. leads_to d (inode_at d 1) cs e \<and> e_inode d e = TO_NUMBER k \<and> e + 4 \<le> DISK_SIZE"
  shows "find_parent_inode E (join_path (cs @ [nm])) d = Inr (TO_NUMBER k)"
proof -
  have run: "find_parent_inode E (join_path cs @ SLASH # nm) d =
    (if join_path cs = [] then Inr ROOT_INODE_NUMBER
     else bindE (find_dir_entry (join_path cs) d) (\<lambda>r. case r of None \<Rightarrow> Inr 0 | Some e \<Rightarrow> ld32 (de_inode e) d))"
    by (rule parent_run) (use assms in \<open>auto simp: component_def\<close>)
  show ?thesis
  proof (cases "cs = []")
    case True
    then show ?thesis
      unfolding join_path_snoc run using p(1) by (simp add: join_path_Nil ROOT_INODE_NUMBER_def TO_NUMBER_def)
  next
    case False
    then obtain e where e: "leads_to d (inode_at d 1) cs e" "e_inode d e = TO_NUMBER k" "e + 4 \<le> DISK_SIZE" using p(2) by blast
    have "ld32 (de_inode e) d = Inr (e_inode d e)" using e(3) by (simp add: e_inode_def de_inode_def)
    then show ?thesis
      unfolding join_path_snoc run using False find_dir_entry_leads [OF root_run [OF ok] e(1) cs(1)] e(2) by (simp add: join_path_Nil)
  qed
qed

lemma parent_lookup:
  assumes ok: "fs_ok d" and "slack E" and cs: "\<forall>c \<in> set cs. component c" "component nm" and l: "length (join_path cs) < 2 ^ 31"
    and p: "dir_path d cs k"
  shows "find_parent_inode E (join_path (cs @ [nm])) d = Inr (TO_NUMBER k)"
proof (rule parent_found [OF assms(1-5)])
  show "k = 1" if "cs = []" using p that reaches_nonempty by (auto simp: dir_path_def)
  show "\<exists>e. leads_to d (inode_at d 1) cs e \<and> e_inode d e = TO_NUMBER k \<and> e + 4 \<le> DISK_SIZE" if c: "cs \<noteq> []"
  proof -
    obtain e where e: "reaches d 1 cs e" "e_inode d e = TO_NUMBER k" using p c by (auto simp: dir_path_def)
    then show ?thesis using reaches_leads [OF e(1) ok] reaches_entry [OF e(1)] by (intro exI [of _ e]) simp
  qed
qed

lemma entry_lookup:
  assumes ok: "fs_ok d" and cs: "\<forall>c \<in> set cs. component c" "component nm" and p: "dir_path d cs k"
    and u: "k < inode_count d" "used_dir d (inode_at d k) ess" "find (names d nm) (concat ess) = Some e"
  shows "find_dir_entry (join_path (cs @ [nm])) d = Inr (Some e)"
proof (rule lookup_run [OF ok])
  have h: "reaches d k [nm] e" by (rule reaches.here [OF u])
  show "reaches d 1 (cs @ [nm]) e" using p h reaches_append by (auto simp: dir_path_def)
qed (use cs in auto)

section \<open>The block of the entry\<close>

lemma pass_chain:
  assumes f: "entry_fits d fe" "fe + e_rec_len d fe \<le> DISK_SIZE"
  shows "chain_to d a es q \<Longrightarrow> q = b + EXT2_BLOCK_SIZE \<Longrightarrow> q \<le> DISK_SIZE \<Longrightarrow> b \<le> a \<Longrightarrow> length es < k \<Longrightarrow>
    pass_entries k fe (a - b) a d = Inr () \<and> count_entries k (a - b) a d = Inr (length (filter (\<lambda>x. \<not> unused d x) es))"
proof (induction es arbitrary: a k)
  case Nil
  then obtain k' where "k = Suc k'" by (cases k) auto
  then show ?case using Nil by (simp add: pass_entries.simps count_entries.simps)
next
  case (Cons e es)
  then obtain k' where k: "k = Suc k'" by (cases k) auto
  have e: "e = a" "entry_fits d a" and rest: "chain_to d (a + e_rec_len d a) es q" using Cons.prems(1) by auto
  have l: "8 \<le> e_rec_len d a" "a + e_rec_len d a \<le> q"
    using e entry_size_bounds(3) [of "e_name_len d a"] chain_mono [OF rest] by (auto simp: entry_fits_def)
  have lt: "a - b < EXT2_BLOCK_SIZE" using l Cons.prems by linarith
  have dl: "a + e_rec_len d a \<le> DISK_SIZE" using l Cons.prems by linarith
  have IH: "pass_entries k' fe (a + e_rec_len d a - b) (a + e_rec_len d a) d = Inr () \<and>
      count_entries k' (a + e_rec_len d a - b) (a + e_rec_len d a) d = Inr (length (filter (\<lambda>x. \<not> unused d x) es))"
    by (rule Cons.IH [OF rest]) (use Cons.prems l k in auto)
  have eq: "a + e_rec_len d a - b = a - b + e_rec_len d a" using Cons.prems by simp
  note L = entry_loads [OF e(2) dl] entry_loads [OF f]
  have r: "unat (get 2 (de_rec_len a) d :: u16) = e_rec_len d a" by (simp add: e_rec_len_def)
  have "\<exists>s. (if e_name_len d a = e_name_len d fe then same_name a fe d else Inr False) = Inr s"
    using L by (auto simp: same_name_def)
  then obtain s where s: "(if e_name_len d a = e_name_len d fe then same_name a fe d else Inr False) = Inr s" by blast
  have "pass_entries k fe (a - b) a d = Inr ()"
    using lt IH L(1,3,6) r eq unfolding k pass_entries.simps by (cases s) (simp_all add: s)
  moreover have "count_entries k (a - b) a d = Inr (length (filter (\<lambda>x. \<not> unused d x) (e # es)))"
    using lt IH L(2,3) r eq e(1) unfolding k count_entries.simps by (simp add: unused_def)
  ultimately show ?case by simp
qed

lemma pass_block:
  assumes "dir_block d b es" and "entry_fits d fe" "fe + e_rec_len d fe \<le> DISK_SIZE"
  shows "pass_entries (Suc EXT2_BLOCK_SIZE) fe 0 b d = Inr ()"
    "count_entries (Suc EXT2_BLOCK_SIZE) 0 b d = Inr (length (filter (\<lambda>x. \<not> unused d x) es))"
  using pass_chain [OF assms(2,3), of b es "b + EXT2_BLOCK_SIZE" b "Suc EXT2_BLOCK_SIZE"] assms(1) dir_block_length [OF assms(1)]
  by (simp_all add: dir_block_def EXT2_BLOCK_SIZE_def)

text \<open>The first block is found whichever the entry is; it is kept when two entries in it are in use.\<close>

lemma locate_first:
  assumes "\<forall>i \<in> set is. i_block P i + 4 \<le> DISK_SIZE"
    and "on_blocks d (filter (\<lambda>b. b \<noteq> 0) (map (inode_block d P) is)) (es # ess)"
    and "entry_fits d fe" "fe + e_rec_len d fe \<le> DISK_SIZE"
  shows "\<exists>i \<in> set is. locate_block_index P fe is d = Inr (int i) \<and> dir_block d (block_start (inode_block d P i)) es"
  using assms(1,2)
proof (induction "is")
  case (Cons i "is")
  have ld: "ld32 (i_block P i) d = Inr (inode_block d P i)" using Cons.prems(1) by (simp add: inode_block_def)
  show ?case
  proof (cases "inode_block d P i = 0")
    case True
    then show ?thesis using Cons ld by auto
  next
    case False
    then have b: "dir_block d (block_start (inode_block d P i)) es" using Cons.prems(2) by (simp add: on_blocks_def)
    then show ?thesis using False ld pass_block(1) [OF b assms(3,4)] block_start_in [OF b] by simp
  qed
qed (simp add: on_blocks_def)

lemma parent_block_kept:
  assumes o: "dir_ok d P (es # ess)" and f: "entry_fits d fe" "fe + e_rec_len d fe \<le> DISK_SIZE"
    and two: "2 \<le> length (filter (\<lambda>x. \<not> unused d x) es)"
  shows "bindE (locate_dir_entry_in_block P fe d) (\<lambda>i. update_parent_inode_block P i d) = Inr d"
proof -
  have m: "\<forall>i \<in> set [0 ..< TOTAL_BLOCK_COUNT]. i_block P i + 4 \<le> DISK_SIZE"
    using o by (auto simp: dir_ok_def i_block_def INODE_SIZE_def TOTAL_BLOCK_COUNT_def)
  obtain i where i: "i < TOTAL_BLOCK_COUNT" "locate_dir_entry_in_block P fe d = Inr (int i)"
    "dir_block d (block_start (inode_block d P i)) es"
  proof -
    have "on_blocks d (filter (\<lambda>b. b \<noteq> 0) (map (inode_block d P) [0 ..< TOTAL_BLOCK_COUNT])) (es # ess)"
      using o by (simp add: dir_ok_blocks dir_blocks_def)
    from locate_first [OF m this f] show ?thesis using that unfolding locate_dir_entry_in_block_def by auto
  qed
  have "ld32 (i_block P i) d = Inr (inode_block d P i)" using m i(1) by (simp add: inode_block_def)
  then show ?thesis
    using i(2) pass_block(2) [OF i(3) f] block_start_in [OF i(3)] two by (simp add: update_parent_inode_block_def Let_def)
qed

section \<open>Clearing an entry\<close>

lemma clear_in_block:
  assumes blk: "dir_block d b (xs @ a # ys)" and u: "\<not> unused d a"
  defines "d' \<equiv> put a (store_le 4 (0 :: u32)) d"
  shows "dir_block d' b (xs @ a # ys)" "listing d' (xs @ a # ys) = listing d xs @ listing d ys"
    "listing d (xs @ a # ys) = listing d xs @ entry_view d a # listing d ys"
    "\<And>x. x < a \<or> a + 4 \<le> x \<Longrightarrow> d' x = d x" "b \<le> a" "a + 8 \<le> b + EXT2_BLOCK_SIZE"
proof -
  have c: "chain_to d b xs a" "entry_fits d a" "chain_to d (a + e_rec_len d a) ys (b + EXT2_BLOCK_SIZE)"
    and dl: "b + EXT2_BLOCK_SIZE \<le> DISK_SIZE" using blk by (auto simp: dir_block_def entries_append)
  have sz: "8 \<le> e_rec_len d a" using c(2) entry_size_bounds(3) [of "e_name_len d a"] by (simp add: entry_fits_def)
  show out: "d' x = d x" if "x < a \<or> a + 4 \<le> x" for x using that by (simp add: d'_def put_outside)
  show "b \<le> a" "a + 8 \<le> b + EXT2_BLOCK_SIZE" using chain_mono [OF c(1)] chain_mono [OF c(3)] sz by linarith+
  have f: "e_inode d' a = 0" "e_rec_len d' a = e_rec_len d a" "e_name_len d' a = e_name_len d a"
  proof -
    show "e_inode d' a = 0" by (simp add: e_inode_def de_inode_def d'_def get_put_same)
    show "e_rec_len d' a = e_rec_len d a" by (simp add: e_rec_len_def de_rec_len_def d'_def get_put_other)
    show "e_name_len d' a = e_name_len d a" by (simp add: e_name_len_def de_name_len_def out)
  qed
  have x: "chain_to d' b xs a \<and> listing d' xs = listing d xs"
    by (rule entries_cong [OF c(1)]) (simp add: out)
  have y: "chain_to d' (a + e_rec_len d a) ys (b + EXT2_BLOCK_SIZE) \<and> listing d' ys = listing d ys"
    by (rule entries_cong [OF c(3)]) (use sz in \<open>simp add: out\<close>)
  show "dir_block d' b (xs @ a # ys)"
    using x y dl c(2) f by (auto simp: dir_block_def entries_append entry_fits_def)
  show "listing d' (xs @ a # ys) = listing d xs @ listing d ys"
    using x y f by (simp add: listing_Cons unused_def)
  show "listing d (xs @ a # ys) = listing d xs @ entry_view d a # listing d ys" using u by (simp add: listing_Cons)
qed

lemma clear_entry:
  assumes u: "dir_ok d P ess" "dir_sep d P" and a: "a \<in> set (concat ess)" "\<not> unused d a"
  defines "d' \<equiv> put a (store_le 4 (0 :: u32)) d"
  shows "\<exists>l1 l2. dir_ok d' P ess \<and> listing d (concat ess) = l1 @ entry_view d a # l2 \<and> listing d' (concat ess) = l1 @ l2"
proof -
  obtain es where es: "es \<in> set ess" "a \<in> set es" using a(1) by auto
  obtain ess1 ess2 where e1: "ess = ess1 @ es # ess2" using es(1) by (meson split_list)
  obtain xs ys where e2: "es = xs @ a # ys" using es(2) by (meson split_list)
  have o: "on_blocks d (dir_blocks d P) ess" and dist: "distinct (dir_blocks d P)" using u by (auto simp: dir_sep_def dir_ok_blocks)
  obtain bs1 b bs2 where b: "dir_blocks d P = bs1 @ b # bs2" "on_blocks d bs1 ess1" "dir_block d (block_start b) es" "on_blocks d bs2 ess2"
    using o unfolding e1 on_blocks_def list_all2_append2 list_all2_Cons2 by blast
  note C = clear_in_block [OF b(3) [unfolded e2] a(2), folded d'_def e2]
  have nb: "b \<notin> set bs1" "b \<notin> set bs2" using dist b(1) by auto
  have keep: "on_blocks d' bs es' \<and> listing d' (concat es') = listing d (concat es')"
    if "on_blocks d bs es'" "b \<notin> set bs" for bs es'
  proof (rule on_blocks_cong [OF that(1)])
    fix c x assume c: "c \<in> set bs" "block_start c \<le> x" "x < block_start c + EXT2_BLOCK_SIZE"
    have "c \<noteq> b" using c(1) that(2) by auto
    then show "d' x = d x" using block_start_apart [of c b] c C(4-6) by (intro C(4)) auto
  qed
  have "dir_blocks d' P = dir_blocks d P"
  proof (rule dir_blocks_cong)
    fix x assume x: "i_block P 0 \<le> x" "x < i_block P 15"
    have "outside_blocks (dir_blocks d P) x"
      using u(2) x by (simp add: dir_sep_def i_block_def INODE_SIZE_def)
    then have "x < block_start b \<or> block_start b + EXT2_BLOCK_SIZE \<le> x" using b(1) by (simp add: outside_blocks_def)
    then show "d' x = d x" using C(5,6) by (intro C(4)) auto
  qed
  then have "dir_ok d' P ess"
    using u keep [OF b(2) nb(1)] keep [OF b(4) nb(2)] C(1) b(1) e1
    by (simp add: dir_ok_blocks) (simp add: on_blocks_def list_all2_appendI)
  moreover have "listing d (concat ess) = (listing d (concat ess1) @ listing d xs) @ entry_view d a # (listing d ys @ listing d (concat ess2))"
    unfolding e1 concat_append concat.simps listing_append C(3) [folded e2] by simp
  moreover have "listing d' (concat ess) = (listing d (concat ess1) @ listing d xs) @ (listing d ys @ listing d (concat ess2))"
    unfolding e1 concat_append concat.simps listing_append C(2) [folded e2]
    using keep [OF b(2) nb(1)] keep [OF b(4) nb(2)] by simp
  ultimately show ?thesis by blast
qed

section \<open>Removing a link\<close>

lemma links_cells:
  assumes "i < inode_count d"
  shows "inode_cells d {i_links_count (inode_at d i) ..< i_links_count (inode_at d i) + 2}"
proof -
  have "x < i_block (inode_at d k) 0 \<or> i_block (inode_at d k) 15 \<le> x"
    if x: "i_links_count (inode_at d i) \<le> x" "x < i_links_count (inode_at d i) + 2" and k: "k < inode_count d" for x k
    using inode_at_apart [of i k d] x by (cases "i = k") (auto simp: i_block_def i_links_count_def INODE_SIZE_def)
  then show ?thesis
    using inode_in_table [OF assms] by (auto simp: inode_cells_def i_links_count_def INODE_SIZE_def)
qed

lemma change_links:
  fixes d :: disk and w :: u16
  assumes ok: "fs_ok d" and i: "i < inode_count d"
  defines "l \<equiv> i_links_count (inode_at d i)"
  defines "e \<equiv> put l (store_le 2 (get 2 l d + w)) d"
  shows "add16 l w d = Inr e" "get 2 l e = get 2 l d + w" "fs_ok e" "free_blocks e = free_blocks d" "free_inodes e = free_inodes d"
    "table_addr e = table_addr d" "inode_count e = inode_count d" "unchanged {l ..< l + 2} {} d e" "inode_cells d {l ..< l + 2}"
proof -
  have ls: "table_addr d \<le> l" "l + 2 \<le> DISK_SIZE"
    using inode_in_table [OF i] fs_okD(7) [OF ok] by (auto simp: l_def i_links_count_def INODE_SIZE_def)
  have low: "same_low d e" unfolding same_low_def using ls(1) by (auto simp: e_def put_outside)
  show "add16 l w d = Inr e" using ls(2) by (simp add: add16_def e_def)
  show "get 2 l e = get 2 l d + w" by (simp add: e_def get_put_same)
  show "fs_ok e" "free_blocks e = free_blocks d" "free_inodes e = free_inodes d"
    "table_addr e = table_addr d" "inode_count e = inode_count d"
    using low_fs [OF ok low] low_fields [OF ok low] by auto
  show "unchanged {l ..< l + 2} {} d e" by (rule unchangedI) (auto simp: e_def put_outside)
  show "inode_cells d {l ..< l + 2}" using links_cells [OF i] by (simp add: l_def)
qed

lemma drop_entry_run:
  assumes ok: "fs_ok d" and E: "slack E" and cs: "\<forall>c \<in> set cs. component c" "component nm" "length (join_path cs) < 2 ^ 31"
    and p: "dir_path d cs k" and P: "k < inode_count d" "used_dir d (inode_at d k) (es # ess)"
    and a: "a \<in> set (concat (es # ess))" "\<not> unused d a"
    and two: "2 \<le> length (filter (\<lambda>x. \<not> unused d x) es)"
    and un: "unchanged A {} d e" and cells: "inode_cells d A"
    and e: "fs_ok e" "table_addr e = table_addr d" "inode_count e = inode_count d"
  shows "\<exists>d'. drop_entry E a (join_path (cs @ [nm])) e = Inr d' \<and> fs_ok d' \<and>
    free_blocks d' = free_blocks e \<and> free_inodes d' = free_inodes e \<and> dir_ok d' (inode_at d k) (es # ess) \<and>
    (\<exists>l1 l2. listing d (concat (es # ess)) = l1 @ entry_view d a # l2 \<and> listing d' (concat (es # ess)) = l1 @ l2) \<and>
    (\<forall>x < table_end d. d' x = e x)"
proof -
  let ?P = "inode_at d k" and ?ess = "es # ess" and ?d' = "put a (store_le 4 (0 :: u32)) e"
  note U = dir_cells [OF ok P(2,1) un cells]
  have o: "dir_ok d ?P ?ess" using P(2) by (simp add: used_dir_def)
  have un_e: "unused e x = unused d x" if "x \<in> set (concat ?ess)" for x using U(4) [OF that] by (simp add: unused_def)
  have sep: "dir_sep e ?P"
    using used_dir_sep [OF P(2,1)] P(2) unfolding dir_sep_def U(2) by (auto simp: used_dir_def)
  obtain b where b: "b \<in> set (dir_blocks d ?P)" "block_start b \<le> a" "a + e_rec_len d a \<le> block_start b + EXT2_BLOCK_SIZE"
    using entry_in_dir [OF o a(1)] by blast
  have aT: "table_end d \<le> a" using b P(2) by (auto simp: used_dir_def)
  have ev: "entry_view e a = entry_view d a"
    unfolding entry_view_def using entry_cong [of a d e] U(6) [OF b(1)] b(2,3) entry_bound(3) [OF o a(1)] by simp
  have bE: "entry_fits e a" "a + e_rec_len e a \<le> DISK_SIZE" "a + 8 + unat (e_name_len e a) \<le> a + e_rec_len e a"
    using entry_bound [OF U(1) a(1)] by auto
  have "filter (\<lambda>x. \<not> unused e x) es = filter (\<lambda>x. \<not> unused d x) es" by (rule filter_cong) (use un_e in auto)
  then have two': "2 \<le> length (filter (\<lambda>x. \<not> unused e x) es)" using two by simp
  have at: "inode_at e j = inode_at d j" for j by (simp add: inode_at_def e)
  have "find_parent_inode E (join_path (cs @ [nm])) e = Inr (TO_NUMBER k)"
  proof (rule parent_found [OF e(1) E cs])
    show "k = 1" if "cs = []" using p that reaches_nonempty by (auto simp: dir_path_def)
    show "\<exists>x. leads_to e (inode_at e 1) cs x \<and> e_inode e x = TO_NUMBER k \<and> x + 4 \<le> DISK_SIZE" if "cs \<noteq> []"
      using that p reaches_still_leads [OF _ ok un cells e(1,2)] unfolding dir_path_def at by metis
  qed
  moreover have "k < BITS" using P(1) fs_okD(4) [OF ok] by simp
  then have "inode_ptr (TO_NUMBER k) e = Inr ?P" using inode_ptr_at [OF e(1)] at by simp
  moreover obtain ix where "locate_dir_entry_in_block ?P a e = Inr ix" "update_parent_inode_block ?P ix e = Inr e"
    using parent_block_kept [OF U(1) bE(1,2) two'] by (auto simp: bindE_Inr_iff)
  ultimately have run: "drop_entry E a (join_path (cs @ [nm])) e = Inr ?d'"
    using bE(2,3) by (simp add: drop_entry_def de_inode_def)
  have low: "same_low e ?d'" unfolding same_low_def e(2) using aT by (auto simp: put_outside table_end_def)
  have "\<exists>l1 l2. dir_ok ?d' ?P ?ess \<and> listing e (concat ?ess) = l1 @ entry_view e a # l2 \<and> listing ?d' (concat ?ess) = l1 @ l2"
    using clear_entry [OF U(1) sep a(1)] un_e [OF a(1)] a(2) by simp
  then show ?thesis
    using run low_fs [OF e(1) low] aT unfolding ev U(5) by (intro exI [of _ ?d']) (auto simp: put_outside)
qed

lemma remove_file_run:
  assumes ok: "fs_ok d" and E: "slack E" and cs: "\<forall>c \<in> set cs. component c" "component nm" "length (join_path cs) < 2 ^ 31"
    and p: "dir_path d cs k" and P: "k < inode_count d" "used_dir d (inode_at d k) (es # ess)"
    and a: "a \<in> set (concat (es # ess))" "\<not> unused d a" "e_inode d a = TO_NUMBER i" "i < inode_count d"
    and two: "2 \<le> length (filter (\<lambda>x. \<not> unused d x) es)"
    and L: "2 \<le> unat (get 2 (i_links_count (inode_at d i)) d :: u16)"
  shows "\<exists>d'. remove_file E a (join_path (cs @ [nm])) d = Inr d' \<and> fs_ok d' \<and>
    free_blocks d' = free_blocks d \<and> free_inodes d' = free_inodes d \<and> dir_ok d' (inode_at d k) (es # ess) \<and>
    get 2 (i_links_count (inode_at d i)) d' = (get 2 (i_links_count (inode_at d i)) d - 1 :: u16) \<and>
    (\<exists>l1 l2. listing d (concat (es # ess)) = l1 @ entry_view d a # l2 \<and> listing d' (concat (es # ess)) = l1 @ l2)"
proof -
  let ?l = "i_links_count (inode_at d i)"
  let ?L = "get 2 ?l d :: u16"
  define e where "e = put ?l (store_le 2 (?L + -1)) d"
  note C = change_links(1-8) [OF ok a(4), of "-1", folded e_def] change_links(9) [OF ok a(4)]
  obtain d' where D: "drop_entry E a (join_path (cs @ [nm])) e = Inr d'" "fs_ok d'" "free_blocks d' = free_blocks e"
    "free_inodes d' = free_inodes e" "dir_ok d' (inode_at d k) (es # ess)"
    "\<exists>l1 l2. listing d (concat (es # ess)) = l1 @ entry_view d a # l2 \<and> listing d' (concat (es # ess)) = l1 @ l2"
    "\<forall>x < table_end d. d' x = e x"
    using drop_entry_run [OF ok E cs p P a(1,2) two C(8,9,3,6,7)] by blast
  have ls: "?l + 2 \<le> table_end d" "?l + 2 \<le> DISK_SIZE"
    using inode_in_table [OF a(4)] fs_okD(7) [OF ok] by (auto simp: i_links_count_def INODE_SIZE_def)
  have aD: "a + 8 \<le> DISK_SIZE" using entry_bound(2,3) [OF _ a(1)] P(2) by (fastforce simp: used_dir_def)
  then have ldn: "ld32 (de_inode a) d = Inr (TO_NUMBER i)" using a(3) by (simp add: e_inode_def de_inode_def)
  have ip: "inode_ptr (TO_NUMBER i) d = Inr (inode_at d i)" using inode_ptr_at [OF ok] a(4) fs_okD(4) [OF ok] by simp
  have "unat (?L - 1) = unat ?L - 1" using L by (intro unat_minus_one) auto
  then have nz: "?L - 1 \<noteq> 0" using L by auto
  have "remove_file E a (join_path (cs @ [nm])) d = Inr d'"
    unfolding remove_file_def ldn bindE_Inr ip C(1) using ls(2) C(2) nz D(1) by simp
  moreover have "get 2 ?l d' = (get 2 ?l e :: u16)" by (rule get_cong) (use D(7) ls(1) in auto)
  ultimately show ?thesis using C(2,4,5) D(2-6) by (intro exI [of _ d']) simp
qed

end
