(* ===== verification/Ext2_Listing.thy ===== *)
theory Ext2_Listing
  imports Ext2_Add
begin

text \<open>
  What \<open>ext2_ls\<close> prints: the names of the entries in use, in the order of the blocks;
  without \<open>-a\<close> those named \<open>.\<close> and \<open>..\<close> are left out.  A name is printed up to its
  first zero byte.
\<close>

definition up_to_zero :: "u8 list \<Rightarrow> cstring" where
  "up_to_zero bs = takeWhile (\<lambda>c. c \<noteq> 0) bs"

definition dot_name :: "cstring \<Rightarrow> bool" where
  "dot_name nm \<longleftrightarrow> nm = [DOT] \<or> nm = [DOT, DOT]"

definition printed :: "bool \<Rightarrow> (cstring \<times> u32 \<times> u8) list \<Rightarrow> cstring list" where
  "printed flag l = filter (\<lambda>nm. flag \<or> \<not> dot_name nm) (map (\<lambda>(nm, _). up_to_zero nm) l)"

lemma printed_append [simp]: "printed flag (l @ l') = printed flag l @ printed flag l'"
  by (simp add: printed_def)

lemma list_entry_run:
  assumes "entry_fits d a" and "a + e_rec_len d a \<le> DISK_SIZE"
  shows "list_entry flag a d = Inr (printed flag (listing d [a]))"
  using entry_loads [OF assms]
  by (simp add: list_entry_def check_if_external_entry_def print_name_def printed_def listing_def unused_def
      entry_view_def up_to_zero_def dot_name_def Let_def)

lemma list_chain:
  assumes "chain_to d a es q" and "q = b + EXT2_BLOCK_SIZE" and "q \<le> DISK_SIZE" and "b \<le> a" and "length es < k"
  shows "list_block k flag (a - b) a d = Inr (printed flag (listing d es))"
  using assms
proof (induction es arbitrary: a k)
  case Nil
  then obtain k' where "k = Suc k'" by (cases k) auto
  then show ?case using Nil by (simp add: list_block.simps printed_def)
next
  case (Cons e es)
  then obtain k' where k: "k = Suc k'" by (cases k) auto
  have e: "e = a" "entry_fits d a" and rest: "chain_to d (a + e_rec_len d a) es q" using Cons.prems(1) by auto
  have l: "8 \<le> e_rec_len d a" "a + e_rec_len d a \<le> q"
    using e entry_size_bounds(3) [of "e_name_len d a"] chain_mono [OF rest] by (auto simp: entry_fits_def)
  have lt: "a - b < EXT2_BLOCK_SIZE" using l Cons.prems by linarith
  have dl: "a + e_rec_len d a \<le> DISK_SIZE" using l Cons.prems by linarith
  have IH: "list_block k' flag (a + e_rec_len d a - b) (a + e_rec_len d a) d = Inr (printed flag (listing d es))"
    by (rule Cons.IH [OF rest]) (use Cons.prems l k in auto)
  have "a + e_rec_len d a - b = a - b + e_rec_len d a" using Cons.prems by simp
  moreover have "listing d (a # es) = listing d [a] @ listing d es" by (simp add: listing_def)
  ultimately show ?case
    using lt IH entry_loads(3) [OF e(2) dl] list_entry_run [OF e(2) dl, of flag] e(1) k
    by (simp add: list_block.simps e_rec_len_def [symmetric])
qed

lemma list_block_run:
  assumes "dir_block d b es"
  shows "list_block (Suc EXT2_BLOCK_SIZE) flag 0 b d = Inr (printed flag (listing d es))"
  using list_chain [of d b es "b + EXT2_BLOCK_SIZE" b "Suc EXT2_BLOCK_SIZE" flag] assms dir_block_length [OF assms]
  by (simp add: dir_block_def EXT2_BLOCK_SIZE_def)

lemma list_blocks_run:
  assumes "\<forall>i \<in> set is. i_block inode i + 4 \<le> DISK_SIZE"
    and "on_blocks d (filter (\<lambda>b. b \<noteq> 0) (map (inode_block d inode) is)) ess"
  shows "list_blocks flag inode is d = Inr (printed flag (listing d (concat ess)))"
  using assms
proof (induction "is" arbitrary: ess)
  case Nil
  then show ?case by (simp add: on_blocks_def printed_def)
next
  case (Cons i "is")
  have ld: "ld32 (i_block inode i) d = Inr (inode_block d inode i)"
    using Cons.prems(1) by (simp add: inode_block_def)
  show ?case
  proof (cases "inode_block d inode i = 0")
    case True
    then show ?thesis using Cons ld by simp
  next
    case False
    then obtain es ess' where e: "ess = es # ess'" "dir_block d (block_start (inode_block d inode i)) es"
      "on_blocks d (filter (\<lambda>b. b \<noteq> 0) (map (inode_block d inode) is)) ess'"
      using Cons.prems(2) by (auto simp: on_blocks_def list_all2_Cons1)
    have "list_blocks flag inode is d = Inr (printed flag (listing d (concat ess')))"
      by (rule Cons.IH [OF _ e(3)]) (use Cons.prems(1) in simp)
    then show ?thesis
      using False ld list_block_run [OF e(2), of flag] block_start_in [OF e(2)] e(1) by simp
  qed
qed

lemma list_dir_run:
  assumes "dir_ok d inode ess"
  shows "list_blocks flag inode [0 ..< TOTAL_BLOCK_COUNT] d = Inr (printed flag (listing d (concat ess)))"
  by (rule list_blocks_run)
    (use assms in \<open>auto simp: dir_ok_blocks dir_blocks_def i_block_def INODE_SIZE_def TOTAL_BLOCK_COUNT_def\<close>)

end
