(* ===== verification/Ext2_Ln.thy ===== *)
theory Ext2_Ln
  imports Ext2_Mkdir
begin

text \<open>
  The command that makes hard and symbolic links (ext2_ln.c).  The array \<open>buf\<close> has
  room for the source path and is used for the two destination paths as well.
  \<open>fuel\<close> bounds the chain of symbolic links that \<open>read_symbolic_link\<close> follows.
\<close>

definition EXIT_FAILURE :: int where "EXIT_FAILURE = 1"

text \<open>\<open>strcpy(buf, path)\<close> for an array of \<open>cap\<close> bytes.\<close>

definition copy_into :: "fs_env \<Rightarrow> nat \<Rightarrow> cstring \<Rightarrow> cstring res" where
  "copy_into E cap path =
    bindE (guardE Out_Of_Bounds (length path < cap \<or> (length path = cap \<and> slack E))) (\<lambda>_. Inr path)"

lemma copy_into_fits: "length path < cap \<Longrightarrow> copy_into E cap path = Inr path"
  by (simp add: copy_into_def)

lemma copy_into_same: "copy_into E (length path) path = copy_path E path"
  by (simp add: copy_into_def copy_path_def)

text \<open>Lines 65-67.\<close>

definition dir_part :: "cstring \<Rightarrow> cstring res" where
  "dir_part dest =
    bindE (last_slash_in_path dest) (\<lambda>i.
    bindE (guardE Out_Of_Bounds (unat (i + 1) < length dest)) (\<lambda>_. Inr (take (unat (i + 1)) dest)))"

section \<open>Hard links (lines 118-180)\<close>

text \<open>The new entry is stored without its \<open>name_len\<close>.\<close>

definition link_in_new_block :: "nat \<Rightarrow> nat \<Rightarrow> nat \<Rightarrow> cstring \<Rightarrow> disk \<Rightarrow> (bool \<times> disk) res" where
  "link_in_new_block file file_inode dir_inode filename d =
    bindE (find_free_block d) (\<lambda>n.
    bindE (update_bitmap CHR ''b'' n True d) (\<lambda>d.
    if n = 0 then bindE (add16 (i_links_count file_inode) (-1) d) (\<lambda>d. Inr (False, d))
    else
      bindE (free_slot dir_inode [0 ..< TOTAL_BLOCK_COUNT] d) (\<lambda>slot.
      case slot of None \<Rightarrow> Inr (False, d)
      | Some i \<Rightarrow>
          let p = block_ptr n in
          bindE (add_block dir_inode i n
            [\<lambda>d. bindE (ld32 (de_inode file) d) (\<lambda>x. st32 (de_inode p) x d),
             st16 (de_rec_len p) (of_nat EXT2_BLOCK_SIZE), store_bytes (de_name p) filename,
             \<lambda>d. bindE (ld8 (de_file_type file) d) (\<lambda>x. st8 (de_file_type p) x d)] d) (\<lambda>d. Inr (True, d)))))"

definition directory_inode :: "nat option \<Rightarrow> disk \<Rightarrow> nat res" where
  "directory_inode dir d =
    (case dir of None \<Rightarrow> get_root_inode d
     | Some e \<Rightarrow> bindE (ld32 (de_inode e) d) (\<lambda>n. inode_ptr n d))"

definition link_target :: "nat \<Rightarrow> fs_env \<Rightarrow> nat \<Rightarrow> cstring \<Rightarrow> disk \<Rightarrow> nat option res" where
  "link_target fuel E file_inode file_path d =
    bindE (ld16 (i_mode file_inode) d) (\<lambda>mode.
    if mode = EXT2_S_IFLNK then read_symbolic_link fuel E file_path d else Inr (Some file_inode))"

definition hard_link :: "nat \<Rightarrow> fs_env \<Rightarrow> nat \<Rightarrow> nat option \<Rightarrow> cstring \<Rightarrow> cstring \<Rightarrow> command" where
  "hard_link fuel E file dir file_path filename d =
    bindE (ld32 (de_inode file) d) (\<lambda>n. bindE (inode_ptr n d) (\<lambda>file_inode.
    bindE (link_target fuel E file_inode file_path d) (\<lambda>target.
    case target of None \<Rightarrow> Inr (ENOENT, d)
    | Some file_inode \<Rightarrow>
        bindE (directory_inode dir d) (\<lambda>dir_inode.
        bindE (add16 (i_links_count file_inode) 1 d) (\<lambda>d.
        bindE (try_blocks (\<lambda>b d. bindE (ld32 (de_inode file) d) (\<lambda>n.
            allocate_space_in_block (of_nat (length filename)) b n filename EXT2_FT_REG_FILE d))
          dir_inode [0 ..< TOTAL_BLOCK_COUNT] d) (\<lambda>(found, d).
        bindE (if found then Inr (True, d) else link_in_new_block file file_inode dir_inode filename d) (\<lambda>(found, d).
        Inr (if found then 0 else ENOSPC, d))))))))"

section \<open>Symbolic links (lines 182-264)\<close>

text \<open>
  Line 185 scales the index by the size of an inode before it is added to a pointer
  to inodes.
\<close>

definition scaled_inode :: "nat option \<Rightarrow> disk \<Rightarrow> nat res" where
  "scaled_inode dir d =
    (case dir of None \<Rightarrow> get_root_inode d
     | Some e \<Rightarrow> bindE (get_inode_table d) (\<lambda>t. bindE (ld32 (de_inode e) d) (\<lambda>n.
         Inr (t + unat (TO_INDEX n) * INODE_SIZE * INODE_SIZE))))"

definition symlink_in_new_block :: "nat \<Rightarrow> nat \<Rightarrow> u32 \<Rightarrow> u32 \<Rightarrow> cstring \<Rightarrow> disk \<Rightarrow> (bool \<times> disk) res" where
  "symlink_in_new_block file dir_inode link_inode_num link_block_num filename d =
    bindE (find_free_block d) (\<lambda>n.
    if n = 0 then
      bindE (update_bitmap CHR ''b'' link_block_num False d) (\<lambda>d.
      bindE (update_bitmap CHR ''i'' link_inode_num False d) (\<lambda>d. Inr (False, d)))
    else
      bindE (update_bitmap CHR ''b'' n True d) (\<lambda>d.
      bindE (free_slot dir_inode [0 ..< TOTAL_BLOCK_COUNT] d) (\<lambda>slot.
      case slot of None \<Rightarrow> Inr (False, d)
      | Some i \<Rightarrow>
          let p = block_ptr n in
          bindE (add_block dir_inode i n
            [st8 (de_name_len p) (of_nat (length filename)), st32 (de_inode p) link_inode_num,
             st16 (de_rec_len p) (of_nat EXT2_BLOCK_SIZE), store_bytes (de_name p) filename,
             \<lambda>d. bindE (ld8 (de_file_type file) d) (\<lambda>x. st8 (de_file_type p) x d)] d) (\<lambda>d. Inr (True, d)))))"

definition symbolic_link :: "fs_env \<Rightarrow> nat \<Rightarrow> nat option \<Rightarrow> cstring \<Rightarrow> cstring \<Rightarrow> command" where
  "symbolic_link E file dir file_path filename d =
    bindE (scaled_inode dir d) (\<lambda>dir_inode.
    bindE (find_free_inode d) (\<lambda>link_inode_num.
    if link_inode_num = 0 then Inr (ENOSPC, d)
    else
      bindE (update_bitmap CHR ''i'' link_inode_num True d) (\<lambda>d.
      bindE (inode_ptr link_inode_num d) (\<lambda>link_inode.
      bindE (init_inode E link_inode EXT2_S_IFLNK (of_nat (length file_path)) d) (\<lambda>d.
      bindE (find_free_block d) (\<lambda>link_block_num.
      if link_block_num = 0 then bindE (update_bitmap CHR ''i'' link_inode_num False d) (\<lambda>d. Inr (ENOSPC, d))
      else
        bindE (update_bitmap CHR ''b'' link_block_num True d) (\<lambda>d.
        if EXT2_BLOCK_SIZE < length file_path then Inr (ENOSPC, d)
        else
          bindE (seqE [store_bytes (block_ptr link_block_num) file_path, st32 (i_block link_inode 0) link_block_num,
            add32 (i_blocks link_inode) 1] d) (\<lambda>d.
          bindE (add_to_blocks dir_inode link_inode_num filename EXT2_FT_SYMLINK d) (\<lambda>(found, d).
          bindE (if found then Inr (True, d)
                 else symlink_in_new_block file dir_inode link_inode_num link_block_num filename d) (\<lambda>(found, d).
          Inr (if found then 0 else ENOSPC, d)))))))))))"

section \<open>The command\<close>

text \<open>Lines 54-118; \<open>dir\<close> is \<open>None\<close> for the root directory.\<close>

definition ln :: "nat \<Rightarrow> fs_env \<Rightarrow> bool \<Rightarrow> cstring \<Rightarrow> cstring \<Rightarrow> command" where
  "ln fuel E symbolic file_path dest_path d =
    bindE (copy_path E file_path) (\<lambda>buf.
    bindE (find_dir_entry buf d) (\<lambda>source.
    case source of None \<Rightarrow> Inr (ENOENT, d)
    | Some file \<Rightarrow>
        bindE (dir_part dest_path) (\<lambda>dir_path.
        bindE (if length dir_path = 1 then Inr None
               else bindE (copy_into E (length file_path) dir_path) (\<lambda>buf. find_dir_entry buf d)) (\<lambda>dir.
        if length dir_path \<noteq> 1 \<and> dir = None then Inr (ENOENT, d)
        else
          bindE (ld8 (de_file_type file) d) (\<lambda>ft.
          if ft = EXT2_FT_DIR then Inr (EISDIR, d)
          else
            bindE (case dir of None \<Rightarrow> Inr EXT2_FT_DIR | Some e \<Rightarrow> ld8 (de_file_type e) d) (\<lambda>ft.
            if ft \<noteq> EXT2_FT_DIR then Inr (EISDIR, d)
            else
              bindE (copy_into E (length file_path) dest_path) (\<lambda>buf.
              bindE (find_dir_entry buf d) (\<lambda>taken.
              if taken \<noteq> None then Inr (EEXIST, d)
              else
                bindE (find_file_name_by_path dest_path) (\<lambda>filename.
                if EXT2_BLOCK_SIZE - 8 < length filename then Inr (ENAMETOOLONG, d)
                else if symbolic then symbolic_link E file dir file_path filename d
                else hard_link fuel E file dir file_path filename d)))))))))"

definition ln_main :: "nat \<Rightarrow> fs_env \<Rightarrow> cstring list \<Rightarrow> disk option \<Rightarrow> (int \<times> disk option) res" where
  "ln_main fuel E argv img =
    (if length argv \<noteq> 4 \<and> length argv \<noteq> 5 then Inr (EINVAL, img)
     else if length argv = 5 \<and> argv ! 2 \<noteq> [45, 115] then Inr (EINVAL, img)
     else
       let symbolic = (length argv = 5);
           file_path = (if symbolic then argv ! 3 else argv ! 2); dest_path = (if symbolic then argv ! 4 else argv ! 3) in
       if \<not> is_absolute file_path \<or> \<not> is_absolute dest_path then Inr (EINVAL, img)
       else if length dest_path = 1 then Inr (EISDIR, img)
       else on_image (ln fuel E symbolic file_path dest_path) EXIT_FAILURE img)"

end
