(* ===== verification/Ext2_Faults.thy ===== *)
theory Ext2_Faults
  imports Ext2_Add Ext2_Ln Ext2_Rm
begin

text \<open>
  Behaviour on inputs the code does not foresee: an entry of length 0, an unused entry
  that is too short for the new name, a symbolic link outside the root directory, a
  directory that is full.
\<close>

section \<open>Entries of length 0\<close>

text \<open>The loop over the entries does not move on.\<close>

lemma locate_stuck:
  assumes "dir + 8 + unat (e_name_len d dir) \<le> DISK_SIZE" and "e_rec_len d dir = 0" and "\<not> names d s dir" and "pos < EXT2_BLOCK_SIZE"
  shows "locate_in_block k (Some s) pos dir d = Inl Out_Of_Fuel"
proof (induction k)
  case 0
  show ?case by (simp add: locate_in_block.simps)
next
  case (Suc k)
  have l: "ld8 (de_name_len dir) d = Inr (e_name_len d dir)" "ld32 (de_inode dir) d = Inr (e_inode d dir)"
    "ld16 (de_rec_len dir) d = Inr (get 2 (de_rec_len dir) d)"
    "load_bytes (unat (e_name_len d dir)) (de_name dir) d = Inr (e_name d dir)"
    using assms(1) get_1 [of "de_name_len dir" d]
    by (simp_all add: e_name_len_def e_inode_def e_name_def field_defs del: One_nat_def)
  have "entry_is (Some s) dir d = Inr False"
    using l assms(3) by (auto simp: entry_is_def names_def)
  moreover have "unat (get 2 (de_rec_len dir) d :: u16) = 0" using assms(2) by (simp add: e_rec_len_def)
  ultimately show ?case using l(3) assms(4) Suc by (simp add: locate_in_block.simps)
qed

section \<open>Reuse of a short entry\<close>

lemma reuse_overruns:
  assumes blk: "dir_block d (block_ptr bn) (xs @ a # ys)" and first: "\<forall>x \<in> set xs. \<not> unused d x" "unused d a"
    and len: "length nm < 256" and small: "e_rec_len d a < entry_size (of_nat (length nm))"
    and fit: "a + 8 + length nm \<le> DISK_SIZE"
  shows "\<exists>d'. allocate_space_in_block (of_nat (length nm)) bn ino nm ft d = Inr (True, d') \<and> e_name d' a = nm \<and> \<not> entry_fits d' a"
proof -
  have "find (unused d) xs = None" using first(1) by (simp add: find_None_iff)
  then have f: "find (unused d) (xs @ a # ys) = Some a" using first(2) by (simp add: find_append)
  have "allocate_space_in_block (of_nat (length nm)) bn ino nm ft d = Inr (True, new_entry a ino nm ft d)"
    unfolding allocate_cases [OF blk len] f using fill_entry_run [OF fit len] by simp
  then show ?thesis
    using small new_entry_fields [OF len, of a ino ft d] by (simp add: entry_fits_def)
qed

section \<open>Symbolic links outside the root directory\<close>

text \<open>The address of the directory's inode is past the end of the image.\<close>

lemma try_blocks_past_end:
  assumes "DISK_SIZE \<le> inode" and "is \<noteq> []"
  shows "try_blocks f inode is d = Inl Out_Of_Bounds"
  using assms by (cases "is") (simp_all add: load_def i_block_def)

section \<open>The first block of a directory (rm)\<close>

text \<open>The search for the block of an entry gives the first block in use.\<close>

lemma locate_block_first:
  assumes "locate_block_index parent e is d = Inr i" and "\<exists>k \<in> set is. inode_block d parent k \<noteq> 0"
    and "\<forall>k \<in> set is. i_block parent k + 4 \<le> DISK_SIZE"
  shows "\<exists>xs k ys. is = xs @ k # ys \<and> (\<forall>x \<in> set xs. inode_block d parent x = 0) \<and> inode_block d parent k \<noteq> 0 \<and> i = int k"
  using assms
proof (induction "is")
  case (Cons k "is")
  have ld: "ld32 (i_block parent k) d = Inr (inode_block d parent k)"
    using Cons.prems(3) by (simp add: inode_block_def)
  show ?case
  proof (cases "inode_block d parent k = 0")
    case True
    then obtain xs j ys where "is = xs @ j # ys" "\<forall>x \<in> set xs. inode_block d parent x = 0" "inode_block d parent j \<noteq> 0" "i = int j"
      using Cons ld by auto
    then show ?thesis using True by (intro exI [of _ "k # xs"] exI [of _ j] exI [of _ ys]) simp
  next
    case False
    then have "i = int k" using Cons.prems(1) ld by (auto simp: bindE_Inr_iff)
    then show ?thesis using False by (intro exI [of _ "[]"] exI [of _ k] exI [of _ "is"]) simp
  qed
qed simp

end
