(* ===== verification/Ext2_Commands.thy ===== *)
theory Ext2_Commands
  imports Ext2_Unlink Ext2_Listing Ext2_Faults
begin

text \<open>
  The commands as a whole, from their path arguments: what \<open>ext2_mkdir\<close>, \<open>ext2_cp\<close> and
  \<open>ext2_rm\<close> do on a well-formed image, and which results leave it as it was.
\<close>

section \<open>A path that does not exist\<close>

lemma find_missing: "nm \<notin> fst ` set (listing d es) \<Longrightarrow> find (names d nm) es = None"
  using listing_no_name by blast

lemma missing_here:
  assumes "used_dir d inode ess" "find (names d nm) (concat ess) = None"
  shows "resolve inode [nm] d = Inr None"
  using assms locate_file_by_name_run [of d inode ess nm] by (simp add: used_dir_def)

lemma reaches_resolve_missing:
  assumes "reaches d k cs e" and ok: "fs_ok d" and "e_inode d e = TO_NUMBER k'" and k': "k' < inode_count d"
    and u: "used_dir d (inode_at d k') ess" "find (names d nm) (concat ess) = None"
  shows "resolve (inode_at d k) (cs @ [nm]) d = Inr None"
  using assms(1,3)
proof (induction rule: reaches.induct)
  have kB: "k' < BITS" using k' fs_okD(4) [OF ok] by simp
  have last: "resolve (inode_at d k') [nm] d = Inr None"
    by (rule missing_here [OF u])
  have step: "locate_file_by_name (inode_at d k) (Some c) d = Inr (Some a)" "ld32 (de_inode a) d = Inr (e_inode d a)"
    if "k < inode_count d" "used_dir d (inode_at d k) ess" "find (names d c) (concat ess) = Some a" for k ess c a
  proof -
    have o: "dir_ok d (inode_at d k) ess" using that(2) by (simp add: used_dir_def)
    then show "locate_file_by_name (inode_at d k) (Some c) d = Inr (Some a)" using that(3) locate_file_by_name_run [of d "inode_at d k" ess c] by simp
    have "a + 8 \<le> DISK_SIZE" using entry_bound(2,3) [OF o] find_in_set [OF that(3)] by fastforce
    then show "ld32 (de_inode a) d = Inr (e_inode d a)" by (simp add: e_inode_def de_inode_def)
  qed
  {
    case (here k ess c e)
    then show ?case using step [OF here(1-3)] inode_ptr_at [OF ok kB] last by simp
  next
    case (below k ess c e k2 cs e')
    have "k2 < BITS" using reaches_bound [OF below(5)] fs_okD(4) [OF ok] by simp
    then show ?case using step [OF below(1-3)] inode_ptr_at [OF ok] below(4) below.IH [OF below.prems] by simp
  }
qed

lemma lookup_missing:
  assumes ok: "fs_ok d" and cs: "\<forall>c \<in> set cs. component c" "component nm" and p: "dir_path d cs k" and k: "k < inode_count d"
    and u: "used_dir d (inode_at d k) ess" "nm \<notin> fst ` set (listing d (concat ess))"
    and path: "drop 1 path = join_path (cs @ [nm]) \<or> path = join_path (cs @ [nm])"
  shows "find_dir_entry path d = Inr None"
proof -
  note n = find_missing [OF u(2)]
  have c: "components (drop 1 path) = cs @ [nm]"
    using path cs components_join [of "cs @ [nm]"] components_drop [of "cs @ [nm]"] by auto
  have "resolve (inode_at d 1) (cs @ [nm]) d = Inr None"
  proof (cases "cs = []")
    case True
    then have "k = 1" using p reaches_nonempty by (auto simp: dir_path_def)
    then show ?thesis using True missing_here [OF u(1) n] by simp
  next
    case False
    then obtain e where "reaches d 1 cs e" "e_inode d e = TO_NUMBER k" using p by (auto simp: dir_path_def)
    then show ?thesis using reaches_resolve_missing [OF _ ok _ k u(1) n] by simp
  qed
  then show ?thesis using root_run [OF ok] c by (simp add: find_dir_entry_resolve)
qed

section \<open>The new name\<close>

lemma new_name_found:
  assumes "dir_ok d' P ess'" "new_name d ess d' ess' (nm, ino, ft)" and "nm \<notin> fst ` set (listing d (concat ess))"
  shows "\<exists>e. locate_file_by_name P (Some nm) d' = Inr (Some e) \<and> e_inode d' e = ino \<and> e_file_type d' e = ft"
proof -
  obtain l1 l2 where l: "listing d (concat ess) = l1 @ l2" "listing d' (concat ess') = l1 @ (nm, ino, ft) # l2"
    using assms(2) by (auto simp: new_name_def)
  obtain e where "find (names d' nm) (concat ess') = Some e" "entry_view d' e = (nm, ino, ft)"
    using listing_find [OF l(2)] assms(3) l(1) by auto
  then show ?thesis using locate_file_by_name_run [OF assms(1), of nm] by (auto simp: entry_view_def)
qed

text \<open>
  What a command that adds a name needs of the directory with inode number \<open>k + 1\<close>, apart
  from the free blocks.
\<close>

definition takes_name :: "disk \<Rightarrow> nat \<Rightarrow> nat list list \<Rightarrow> cstring \<Rightarrow> bool" where
  "takes_name d k ess nm \<longleftrightarrow> k < inode_count d \<and> k \<notin> free_inodes d \<and> used_dir d (inode_at d k) ess \<and>
     can_enter d ess nm \<and> nm \<notin> fst ` set (listing d (concat ess)) \<and> free_inodes d \<noteq> {} \<and> component nm \<and> length nm < 256"

section \<open>mkdir\<close>

lemma component_absolute: "is_absolute (join_path (cs @ [nm]))"
  by (cases cs) (simp_all add: is_absolute_def join_path_def)

lemma name_of_path:
  "component nm \<Longrightarrow> length (join_path cs) < 2 ^ 31 \<Longrightarrow> find_file_name_by_path (join_path (cs @ [nm])) = Inr nm"
  unfolding join_path_snoc by (rule file_name_run(1)) (auto simp: component_def)

lemma mkdir_run:
  assumes ok: "fs_ok d" and E: "slack E" and cs: "\<forall>c \<in> set cs. component c" "length (join_path cs) < 2 ^ 31"
    and p: "dir_path d cs k" and t: "takes_name d k ess nm"
    and fb: "1 + entry_blocks d ess nm \<le> card (free_blocks d)"
  shows "\<exists>d' i J ess' ns. mkdir E (join_path (cs @ [nm])) d = Inr (0, d') \<and> i \<in> free_inodes d \<and> J \<subseteq> free_blocks d \<and>
    card J = 1 + entry_blocks d ess nm \<and>
    fs_ok d' \<and> free_inodes d' = free_inodes d - {i} \<and> free_blocks d' = free_blocks d - J \<and>
    dir_ok d' (inode_at d k) ess' \<and> new_name d ess d' ess' (nm, TO_NUMBER i, EXT2_FT_DIR) \<and>
    dir_ok d' (inode_at d i) ns \<and>
    listing d' (concat ns) = [([DOT], TO_NUMBER i, EXT2_FT_DIR), ([DOT, DOT], TO_NUMBER k, EXT2_FT_DIR)] \<and>
    get 2 (i_mode (inode_at d i)) d' = EXT2_S_IFDIR \<and> get 2 (i_links_count (inode_at d i)) d' = (2 :: u16)"
proof -
  have T: "k < inode_count d" "k \<notin> free_inodes d" "used_dir d (inode_at d k) ess" "can_enter d ess nm"
    "nm \<notin> fst ` set (listing d (concat ess))" "free_inodes d \<noteq> {}" "component nm" "length nm < 256" using t by (auto simp: takes_name_def)
  have kn: "TO_NUMBER k \<noteq> 0" using unat_to_number [of k] T(1) fs_okD(4) [OF ok] by auto
  have "mkdir E (join_path (cs @ [nm])) d = make_directory E (TO_NUMBER k) nm d"
    using component_absolute [of cs nm] E kn T(8) lookup_missing [OF ok cs(1) T(7) p T(1,3,5), of "join_path (cs @ [nm])"]
      parent_lookup [OF ok E cs(1) T(7) cs(2) p] name_of_path [OF T(7) cs(2)]
    by (simp add: mkdir_def copy_path_def EXT2_BLOCK_SIZE_def)
  then show ?thesis using make_directory_run [OF ok T(3) refl T(1,2,6) fb T(8,4), of E] by simp
qed

text \<open>The results of \<open>ext2_mkdir\<close>; the checks before line 51 leave the image as it was.\<close>

lemma make_directory_results:
  "make_directory E n nm d = Inr (r, d') \<Longrightarrow> r = 0 \<or> r = ENOSPC \<or> r = ENOENT"
  by (auto simp: make_directory_def link_into_parent_def bindE_Inr_iff Let_def split: if_splits prod.splits option.splits)

lemma mkdir_results:
  assumes "mkdir E path d = Inr (r, d')"
  shows "r \<in> {0, EINVAL, EEXIST, ENOENT, ENAMETOOLONG, ENOSPC}" "r \<in> {EINVAL, EEXIST, ENAMETOOLONG} \<Longrightarrow> d' = d"
    "find_dir_entry path d = Inr (Some e) \<Longrightarrow> is_absolute path \<Longrightarrow> r = EEXIST"
  using assms make_directory_results
  by (fastforce simp: mkdir_def copy_path_def bindE_Inr_iff EINVAL_def EEXIST_def ENOENT_def ENAMETOOLONG_def ENOSPC_def split: if_splits)+

lemma mkdir_codes:
  assumes "mkdir E path d = Inr (r, d')"
  shows "\<not> is_absolute path \<longleftrightarrow> r = EINVAL" "is_absolute path \<Longrightarrow> find_dir_entry path d \<noteq> Inr None \<longleftrightarrow> r = EEXIST"
proof -
  have f: "\<exists>x. find_dir_entry path d = Inr x" if "is_absolute path"
    using assms that by (auto simp: mkdir_def copy_path_def bindE_Inr_iff)
  show "\<not> is_absolute path \<longleftrightarrow> r = EINVAL" "is_absolute path \<Longrightarrow> find_dir_entry path d \<noteq> Inr None \<longleftrightarrow> r = EEXIST"
    using assms make_directory_results f
    by (fastforce simp: mkdir_def copy_path_def bindE_Inr_iff EINVAL_def EEXIST_def ENOENT_def ENAMETOOLONG_def ENOSPC_def split: if_splits)+
qed

section \<open>cp\<close>

text \<open>
  The destination is the root directory or, when the array \<open>path\<close> happens to be empty,
  any directory.
\<close>

definition into_dir :: "disk \<Rightarrow> cstring \<Rightarrow> cstring \<Rightarrow> cstring list \<Rightarrow> nat \<Rightarrow> bool" where
  "into_dir d junk dest_path cs k \<longleftrightarrow>
     dest_path = [SLASH] \<and> cs = [] \<and> k = 1 \<or>
     junk = [] \<and> dest_path = join_path cs \<and> (\<exists>e. reaches d 1 cs e \<and> e_inode d e = TO_NUMBER k \<and> e_file_type d e = EXT2_FT_DIR)"

lemma join_path_length: "reaches d k cs e \<Longrightarrow> \<forall>c \<in> set cs. component c \<Longrightarrow> 2 \<le> length (join_path cs)"
  by (cases cs) (auto dest: reaches_nonempty simp: join_path_def component_def Suc_le_eq)

lemma find_destination_run:
  assumes ok: "fs_ok d" and E: "slack E" and cs: "\<forall>c \<in> set cs. component c" "length dest_path + length nm < 1000"
    and p: "into_dir d junk dest_path cs k" and t: "takes_name d k ess nm" and n: "find_file_name_by_path native_path = Inr nm"
  shows "find_destination E junk native_path dest_path d = Inr (Inr (inode_at d k, nm, None))" "is_absolute dest_path"
proof -
  have T: "k < inode_count d" "used_dir d (inode_at d k) ess" "nm \<notin> fst ` set (listing d (concat ess))" "component nm"
    using t by (auto simp: takes_name_def)
  have dp: "dir_path d cs k" using p by (auto simp: into_dir_def dir_path_def)
  note miss = lookup_missing [OF ok cs(1) T(4) dp T(1,2,3)]
  have into: "into_directory j a native_path dest_path d = Inr (Inr (a, nm, None))" if "j = []" for j a
  proof -
    have "find_dir_entry (dest_path @ SLASH # nm) d = Inr None"
      by (rule miss) (use p in \<open>auto simp: into_dir_def join_path_def\<close>)
    then show ?thesis
      using that n cs(2) by (simp add: into_directory_def full_path_def EXT2_BLOCK_SIZE_def PATH_MAX_def)
  qed
  have kB: "k < BITS" using T(1) fs_okD(4) [OF ok] by simp
  consider (root) "dest_path = [SLASH]" "k = 1"
    | (dir) e where "junk = []" "dest_path = join_path cs" "reaches d 1 cs e" "e_inode d e = TO_NUMBER k" "e_file_type d e = EXT2_FT_DIR"
    using p by (auto simp: into_dir_def)
  then have "find_destination E junk native_path dest_path d = Inr (Inr (inode_at d k, nm, None)) \<and> is_absolute dest_path"
  proof cases
    case root
    then show ?thesis using into [OF refl] root_run [OF ok] by (simp add: find_destination_def is_absolute_def)
  next
    case dir
    note l = join_path_length [OF dir(3) cs(1)]
    have e8: "e + 8 \<le> DISK_SIZE" by (rule reaches_entry [OF dir(3)])
    have ld: "ld32 (de_inode e) d = Inr (TO_NUMBER k)" "ld8 (de_file_type e) d = Inr EXT2_FT_DIR"
      using e8 dir(4,5) get_1 [of "de_file_type e" d]
      by (simp_all add: e_inode_def de_inode_def e_file_type_def de_file_type_def del: One_nat_def)
    have "is_absolute dest_path" using reaches_nonempty [OF dir(3)] dir(2) by (cases cs) (simp_all add: is_absolute_def join_path_def)
    then show ?thesis
      using l dir(1,2) E lookup_run [OF ok dir(3) cs(1)] ld inode_ptr_at [OF ok kB] into [OF dir(1)]
      by (simp add: find_destination_def copy_path_def)
  qed
  then show "find_destination E junk native_path dest_path d = Inr (Inr (inode_at d k, nm, None))" "is_absolute dest_path" by simp_all
qed

lemma cp_run:
  assumes ok: "fs_ok d" and E: "slack E" and cs: "\<forall>c \<in> set cs. component c" "length dest_path + length nm < 1000"
    and p: "into_dir d junk dest_path cs k" and t: "takes_name d k ess nm" and np: "find_file_name_by_path native_path = Inr nm"
    and f: "lstat_ok nf" "regular nf" "can_open nf" "st_size nf = length (content nf)"
    and sz: "blocks_needed (st_size nf) = Some n" "n + entry_blocks d ess nm \<le> card (free_blocks d)"
  shows "\<exists>d' i I ess'. cp E junk nf native_path dest_path d = Inr (0, d') \<and> i \<in> free_inodes d \<and> I \<subseteq> free_blocks d \<and>
    card I \<le> n + entry_blocks d ess nm \<and> fs_ok d' \<and> free_inodes d' = free_inodes d - {i} \<and> free_blocks d' = free_blocks d - I \<and>
    dir_ok d' (inode_at d k) ess' \<and> new_name d ess d' ess' (nm, TO_NUMBER i, EXT2_FT_REG_FILE) \<and>
    read_file d' (inode_at d i) (length (content nf)) = content nf \<and> file_head d' (inode_at d i) (st_size nf)"
proof -
  have T: "k < inode_count d" "k \<notin> free_inodes d" "used_dir d (inode_at d k) ess" "can_enter d ess nm"
    "free_inodes d \<noteq> {}" "length nm < 256" using t by (auto simp: takes_name_def)
  have "cp E junk nf native_path dest_path d = copy_to E nf (inode_at d k, nm, None) d"
    using f sz enough_blocks [OF ok sz(1)] find_destination_run [OF ok E cs p t np] by (simp add: cp_def)
  then show ?thesis
    using copy_to_run [OF ok T(3) refl T(1,2,5) sz(1) [unfolded f(4)] sz(2) T(6,4), of E] by simp
qed

section \<open>rm\<close>

lemma rm_removes_file:
  assumes ok: "fs_ok d" and E: "slack E" and cs: "\<forall>c \<in> set cs. component c" "component nm"
    and p: "dir_path d cs k" and P: "k < inode_count d" "used_dir d (inode_at d k) ess"
    and a: "find (names d nm) (concat ess) = Some a" "e_file_type d a \<in> {EXT2_FT_REG_FILE, EXT2_FT_SYMLINK}"
  shows "rm E flag (join_path (cs @ [nm])) d = bindE (remove_file E a (join_path (cs @ [nm])) d) (\<lambda>d. Inr (0, d))"
    "a \<in> set (concat ess)" "\<not> unused d a" "a + 8 \<le> DISK_SIZE"
proof -
  show n: "a \<in> set (concat ess)" "\<not> unused d a" using find_in_set [OF a(1)] by (auto simp: names_def unused_def)
  have o: "dir_ok d (inode_at d k) ess" using P(2) by (simp add: used_dir_def)
  show a8: "a + 8 \<le> DISK_SIZE" using entry_bound(2,3) [OF o n(1)] by linarith
  have ft: "ld8 (de_file_type a) d = Inr (e_file_type d a)"
    using a8 get_1 [of "de_file_type a" d] by (simp add: e_file_type_def de_file_type_def del: One_nat_def)
  have nd: "e_file_type d a \<noteq> EXT2_FT_DIR" using a(2) by (auto simp: EXT2_FT_REG_FILE_def EXT2_FT_SYMLINK_def EXT2_FT_DIR_def)
  obtain F where F: "RM_FUEL = Suc F" by (cases RM_FUEL) (simp_all add: RM_FUEL_def PATH_MAX_def disk_size)
  show "rm E flag (join_path (cs @ [nm])) d = bindE (remove_file E a (join_path (cs @ [nm])) d) (\<lambda>d. Inr (0, d))"
    using E entry_lookup [OF ok cs p P a(1)] ft nd a(2)
    by (auto simp: rm_def copy_path_def F remove_entry.simps)
qed

lemma rm_run:
  assumes ok: "fs_ok d" and E: "slack E" and cs: "\<forall>c \<in> set cs. component c" "component nm" "length (join_path cs) < 2 ^ 31"
    and p: "dir_path d cs k" and P: "k < inode_count d" "used_dir d (inode_at d k) (es # ess)"
    and a: "find (names d nm) (concat (es # ess)) = Some a" "e_file_type d a \<in> {EXT2_FT_REG_FILE, EXT2_FT_SYMLINK}"
    and i: "e_inode d a = TO_NUMBER i" "i < inode_count d"
    and two: "2 \<le> length (filter (\<lambda>x. \<not> unused d x) es)"
    and L: "2 \<le> unat (get 2 (i_links_count (inode_at d i)) d :: u16)"
  shows "\<exists>d'. rm E flag (join_path (cs @ [nm])) d = Inr (0, d') \<and> fs_ok d' \<and>
    free_blocks d' = free_blocks d \<and> free_inodes d' = free_inodes d \<and> dir_ok d' (inode_at d k) (es # ess) \<and>
    get 2 (i_links_count (inode_at d i)) d' = (get 2 (i_links_count (inode_at d i)) d - 1 :: u16) \<and>
    (\<exists>l1 l2. listing d (concat (es # ess)) = l1 @ entry_view d a # l2 \<and> listing d' (concat (es # ess)) = l1 @ l2)"
proof -
  note R = rm_removes_file(1) [OF ok E cs(1,2) p P a, of flag] rm_removes_file(2,3) [OF ok E cs(1,2) p P a]
  obtain d' where "remove_file E a (join_path (cs @ [nm])) d = Inr d'" "fs_ok d'"
    "free_blocks d' = free_blocks d" "free_inodes d' = free_inodes d" "dir_ok d' (inode_at d k) (es # ess)"
    "get 2 (i_links_count (inode_at d i)) d' = (get 2 (i_links_count (inode_at d i)) d - 1 :: u16)"
    "\<exists>l1 l2. listing d (concat (es # ess)) = l1 @ entry_view d a # l2 \<and> listing d' (concat (es # ess)) = l1 @ l2"
    using remove_file_run [OF ok E cs p P R(2,3) i two L] by blast
  then show ?thesis using R(1) by (intro exI [of _ d']) simp
qed

section \<open>ls\<close>

lemma ls_run:
  assumes ok: "fs_ok d" and E: "slack E" and cs: "\<forall>c \<in> set cs. component c" and p: "into_dir d [] path cs k"
    and u: "k < inode_count d" "used_dir d (inode_at d k) ess"
  shows "ls E flag path d = Inr (0, printed flag (listing d (concat ess)))"
proof -
  have l: "list_blocks flag (inode_at d k) [0 ..< TOTAL_BLOCK_COUNT] d = Inr (printed flag (listing d (concat ess)))"
    by (rule list_dir_run) (use u(2) in \<open>simp add: used_dir_def\<close>)
  have kB: "k < BITS" using u(1) fs_okD(4) [OF ok] by simp
  consider (root) "path = [SLASH]" "k = 1"
    | (dir) e where "path = join_path cs" "reaches d 1 cs e" "e_inode d e = TO_NUMBER k" "e_file_type d e = EXT2_FT_DIR"
    using p by (auto simp: into_dir_def)
  then show ?thesis
  proof cases
    case root
    then show ?thesis using l root_run [OF ok] by (simp add: ls_def)
  next
    case dir
    have e8: "e + 8 \<le> DISK_SIZE" by (rule reaches_entry [OF dir(2)])
    have "ld32 (de_inode e) d = Inr (TO_NUMBER k)" "ld8 (de_file_type e) d = Inr EXT2_FT_DIR"
      using e8 dir(3,4) get_1 [of "de_file_type e" d]
      by (simp_all add: e_inode_def de_inode_def e_file_type_def de_file_type_def del: One_nat_def)
    then show ?thesis
      using join_path_length [OF dir(2) cs] dir(1) E lookup_run [OF ok dir(2) cs] inode_ptr_at [OF ok kB] l
      by (simp add: ls_def copy_path_def)
  qed
qed

end
