(* ===== verification/Ext2_Link.thy ===== *)
theory Ext2_Link
  imports Ext2_Commands
begin

text \<open>
  Making a hard link: \<open>ext2_ln\<close> enters the inode of the source file under the new name,
  raises its link count, and changes nothing else.
\<close>

section \<open>The blocks of the directory\<close>

text \<open>A block that is full is left as it is, so \<open>file->inode\<close> is the same for every block.\<close>

lemma split_failed: "split_entry prev len n nm ft d = Inr (False, d') \<Longrightarrow> d' = d"
  by (auto simp: split_entry_def bindE_Inr_iff Let_def split: if_splits)

lemma allocate_failed:
  assumes "allocate_space_in_block len b n nm ft d = Inr (False, d')"
  shows "d' = d"
proof -
  obtain r x where "ld16 (de_rec_len (block_ptr b)) d = Inr r" "reusable (block_ptr b) d = Inr x"
    using assms by (auto simp: allocate_space_in_block_def bindE_Inr_iff Let_def)
  then obtain y where y: "(case y of Inl dir \<Rightarrow> bindE (fill_entry dir len n nm ft d) (\<lambda>d. Inr (True, d))
      | Inr last_dir \<Rightarrow> split_entry last_dir len n nm ft d) = Inr (False, d')"
    using assms by (cases x) (auto simp: allocate_space_in_block_def bindE_Inr_iff Let_def)
  show ?thesis using y split_failed by (cases y) (auto simp: bindE_Inr_iff)
qed

lemma try_blocks_cong:
  assumes "\<And>b. f b d = g b d" "\<And>b d'. g b d = Inr (False, d') \<Longrightarrow> d' = d"
  shows "try_blocks f P is d = try_blocks g P is d"
proof (induction "is")
  case (Cons i "is")
  show ?case
    unfolding try_blocks.simps assms(1)
  proof (intro bindE_cong refl if_cong)
    fix b r assume r: "g b d = Inr r"
    show "(case r of (ok, d1) \<Rightarrow> if ok then Inr (True, d1) else try_blocks f P is d1) =
      (case r of (ok, d1) \<Rightarrow> if ok then Inr (True, d1) else try_blocks g P is d1)"
      using Cons assms(2) [of b] r by (cases r) auto
  qed (rule Cons)
qed simp

lemma link_blocks:
  assumes "ld32 (de_inode file) d = Inr n"
  shows "try_blocks (\<lambda>b d. bindE (ld32 (de_inode file) d) (\<lambda>n. allocate_space_in_block (of_nat (length nm)) b n nm ft d)) P
    [0 ..< TOTAL_BLOCK_COUNT] d = add_to_blocks P n nm ft d"
  unfolding add_to_blocks_def by (rule try_blocks_cong) (simp_all add: assms allocate_failed)

section \<open>Paths\<close>

lemma components_slash: "\<forall>c \<in> set cs. component c \<Longrightarrow> components (join_path cs @ [SLASH]) = cs"
proof (induction cs)
  case Nil
  then show ?case by (subst components.simps) (simp add: join_path_def strtok_r_def)
next
  case (Cons c cs)
  obtain rest where rest: "join_path cs @ [SLASH] = SLASH # rest" by (cases cs) (auto simp: join_path_def)
  have "components rest = components (join_path cs @ [SLASH])"
    unfolding rest by (subst (1 2) components.simps) (simp only: strtok_r_slash)
  moreover have "strtok_r (join_path (c # cs) @ [SLASH]) = (Some c, rest)"
    using strtok_r_component(1) [of c rest] Cons.prems rest by (simp add: join_path_def strtok_r_slash)
  ultimately show ?case using Cons by (subst components.simps) simp
qed

lemma lookup_slash:
  assumes "fs_ok d" "reaches d 1 cs e" "\<forall>c \<in> set cs. component c"
  shows "find_dir_entry (join_path cs @ [SLASH]) d = Inr (Some e)"
proof -
  obtain c cs' where c: "cs = c # cs'" using reaches_nonempty [OF assms(2)] by (cases cs) auto
  have "components (drop 1 (join_path cs @ [SLASH])) = cs"
    using components_slash [OF assms(3)] unfolding c
    by (subst (asm) components.simps, subst components.simps) (simp add: join_path_def strtok_r_slash)
  then show ?thesis
    using root_run [OF assms(1)] leads_to_resolve [OF reaches_leads [OF assms(2,1)]] by (simp add: find_dir_entry_resolve)
qed

lemma dir_part_run:
  assumes "component nm" "length (join_path cs) < 2 ^ 31"
  shows "dir_part (join_path (cs @ [nm])) = Inr (join_path cs @ [SLASH])"
proof -
  have "of_nat (length (join_path cs)) + 1 = (of_nat (length (join_path cs) + 1) :: u32)" by simp
  then have "unat (of_nat (length (join_path cs)) + 1 :: u32) = length (join_path cs) + 1"
    using assms(2) by (simp only: unat_of_nat) simp
  then show ?thesis
    using assms last_slash_run(1) [of nm "join_path cs"] by (simp add: dir_part_def join_path_snoc component_def)
qed

section \<open>The command\<close>

text \<open>A directory that can take a new entry without a new block.\<close>

definition has_room :: "disk \<Rightarrow> nat \<Rightarrow> nat list list \<Rightarrow> cstring \<Rightarrow> bool" where
  "has_room d k ess nm \<longleftrightarrow> k < inode_count d \<and> used_dir d (inode_at d k) ess \<and>
     (\<forall>es \<in> set ess. roomy d es (length nm)) \<and> (\<exists>es \<in> set ess. \<not> full d (length nm) es) \<and>
     nm \<notin> fst ` set (listing d (concat ess)) \<and> component nm \<and> length nm < 256"

lemma takes_name_room: "takes_name d k ess nm \<Longrightarrow> entry_blocks d ess nm = 0 \<Longrightarrow> has_room d k ess nm"
  by (auto simp: takes_name_def has_room_def can_enter_def entry_blocks_def split: if_splits)

text \<open>The components lead to an entry of type directory, or there are none.\<close>

definition to_directory :: "disk \<Rightarrow> cstring list \<Rightarrow> nat \<Rightarrow> nat option \<Rightarrow> bool" where
  "to_directory d cs k dir \<longleftrightarrow> cs = [] \<and> k = 1 \<and> dir = None \<or>
     (\<exists>e. dir = Some e \<and> reaches d 1 cs e \<and> e_inode d e = TO_NUMBER k \<and> e_file_type d e = EXT2_FT_DIR)"

lemma directory_inode_run:
  assumes ok: "fs_ok d" and "to_directory d cs k dir" "k < inode_count d"
  shows "directory_inode dir d = Inr (inode_at d k)"
proof -
  have k: "k < BITS" using assms(3) fs_okD(4) [OF ok] by simp
  have "ld32 (de_inode e) d = Inr (e_inode d e)" if "reaches d 1 cs e" for e
    using reaches_entry [OF that] by (simp add: e_inode_def de_inode_def)
  then show ?thesis
    using assms(2) root_run [OF ok] inode_ptr_at [OF ok k] by (auto simp: to_directory_def directory_inode_def simp del: One_nat_def)
qed

lemma hard_link_run:
  assumes ok: "fs_ok d" and src: "reaches d 1 src a" "e_inode d a = TO_NUMBER i" "i < inode_count d"
    and mode: "get 2 (i_mode (inode_at d i)) d \<noteq> EXT2_S_IFLNK"
    and dir: "to_directory d cs k dir" and r: "has_room d k ess nm"
  shows "\<exists>d' ess'. hard_link fuel E a dir file_path nm d = Inr (0, d') \<and> fs_ok d' \<and>
    free_blocks d' = free_blocks d \<and> free_inodes d' = free_inodes d \<and>
    dir_ok d' (inode_at d k) ess' \<and> new_name d ess d' ess' (nm, TO_NUMBER i, EXT2_FT_REG_FILE) \<and>
    get 2 (i_links_count (inode_at d i)) d' = (get 2 (i_links_count (inode_at d i)) d + 1 :: u16)"
proof -
  let ?P = "inode_at d k" and ?l = "i_links_count (inode_at d i)"
  define e where "e = put ?l (store_le 2 (get 2 ?l d + 1 :: u16)) d"
  note C = change_links(1-8) [OF ok src(3), of 1, folded e_def] change_links(9) [OF ok src(3)]
  have R: "k < inode_count d" "used_dir d ?P ess" "\<forall>es \<in> set ess. roomy d es (length nm)"
    "\<exists>es \<in> set ess. \<not> full d (length nm) es" "length nm < 256" using r by (auto simp: has_room_def)
  have iB: "i < BITS" "TO_NUMBER i \<noteq> 0" using src(3) fs_okD(4) [OF ok] unat_to_number [of i] by auto
  have cells: "\<forall>x \<in> {?l ..< ?l + 2}. x < i_block ?P 0 \<or> i_block ?P 15 \<le> x" "\<forall>x \<in> {?l ..< ?l + 2}. x < table_end d"
    using C(9) R(1) by (auto simp: inode_cells_def)
  obtain d' ess' l1 l2 where a: "add_to_blocks ?P (TO_NUMBER i) nm EXT2_FT_REG_FILE e = Inr (True, d')" "dir_ok d' ?P ess'"
    "listing d (concat ess) = l1 @ l2" "listing d' (concat ess') = l1 @ (nm, TO_NUMBER i, EXT2_FT_REG_FILE) # l2"
    "\<forall>x. outside_blocks (dir_blocks d ?P) x \<longrightarrow> d' x = e x" "fs_ok d'" "free_blocks d' = free_blocks e" "free_inodes d' = free_inodes e"
    using enter_into_dir [OF ok R(2) refl R(1) _ C(8) cells C(3,6) R(5) iB(2) R(3,4), of EXT2_FT_REG_FILE] by auto
  have aD: "a + 8 \<le> DISK_SIZE" by (rule reaches_entry [OF src(1)])
  have ld: "ld32 (de_inode a) d = Inr (TO_NUMBER i)" "ld32 (de_inode a) e = Inr (TO_NUMBER i)"
    using aD src(2) reaches_kept [OF src(1) ok C(8,9,3,6,7,4)] by (simp_all add: e_inode_def de_inode_def)
  have m: "link_target fuel E (inode_at d i) file_path d = Inr (Some (inode_at d i))"
    using mode inode_in_table(2) [OF src(3)] fs_okD(7) [OF ok] by (simp add: link_target_def i_mode_def INODE_SIZE_def)
  have "hard_link fuel E a dir file_path nm d = Inr (0, d')"
    using ld(1) inode_ptr_at [OF ok iB(1)] m directory_inode_run [OF ok dir R(1)] C(1) link_blocks [OF ld(2)] a(1)
    by (simp add: hard_link_def)
  moreover have "get 2 ?l d' = (get 2 ?l e :: u16)"
    by (rule get_cong) (use a(5) used_dir_sep [OF R(2) src(3)] in \<open>auto simp: i_links_count_def INODE_SIZE_def\<close>)
  ultimately show ?thesis
    using a C(2,4,5) unfolding new_name_def by (intro exI [of _ d'] exI [of _ ess']) auto
qed

text \<open>Up to the call of \<open>hard_link\<close> or \<open>symbolic_link\<close>, for a file and a name that is new in its directory.\<close>

lemma ln_command:
  assumes ok: "fs_ok d" and E: "slack E"
    and src: "\<forall>c \<in> set src. component c" "reaches d 1 src a" "e_file_type d a \<noteq> EXT2_FT_DIR"
    and cs: "\<forall>c \<in> set cs. component c" "length (join_path cs) < 2 ^ 31" "length (join_path (cs @ [nm])) \<le> length (join_path src)"
    and dir: "to_directory d cs k dir"
    and R: "k < inode_count d" "used_dir d (inode_at d k) ess" "nm \<notin> fst ` set (listing d (concat ess))" "component nm" "length nm < 256"
  shows "ln fuel E symbolic (join_path src) (join_path (cs @ [nm])) d =
    (if symbolic then symbolic_link E a dir (join_path src) nm d else hard_link fuel E a dir (join_path src) nm d)"
proof -
  have ft: "ld8 (de_file_type x) d = Inr (e_file_type d x)" if "reaches d 1 c x" for c x
    using reaches_entry [OF that] get_1 [of "de_file_type x" d]
    by (simp add: e_file_type_def de_file_type_def del: One_nat_def)
  have p: "dir_path d cs k" using dir by (auto simp: to_directory_def dir_path_def)
  have miss: "find_dir_entry (join_path (cs @ [nm])) d = Inr None"
    by (rule lookup_missing [OF ok cs(1) R(4) p R(1,2,3)]) simp
  have buf: "copy_into E (length (join_path src)) (join_path (cs @ [nm])) = Inr (join_path (cs @ [nm]))"
    "copy_into E (length (join_path src)) (join_path cs @ [SLASH]) = Inr (join_path cs @ [SLASH])"
  proof -
    have l: "length (join_path cs) + 1 < length (join_path (cs @ [nm]))" using R(4) by (simp add: join_path_snoc component_def)
    then have "length (join_path cs @ [SLASH]) < length (join_path src)" using cs(3) by simp
    then show "copy_into E (length (join_path src)) (join_path cs @ [SLASH]) = Inr (join_path cs @ [SLASH])"
      by (rule copy_into_fits)
    show "copy_into E (length (join_path src)) (join_path (cs @ [nm])) = Inr (join_path (cs @ [nm]))"
      using cs(3) E by (auto simp: copy_into_def le_less)
  qed
  have root: "length (join_path cs @ [SLASH]) = 1 \<longleftrightarrow> dir = None"
    using dir reaches_nonempty by (cases cs) (auto simp: to_directory_def join_path_def)
  have look: "dir = Some x \<Longrightarrow> find_dir_entry (join_path cs @ [SLASH]) d = Inr (Some x) \<and> ld8 (de_file_type x) d = Inr EXT2_FT_DIR" for x
    using dir lookup_slash [OF ok _ cs(1)] ft by (auto simp: to_directory_def)
  show ?thesis
    using E lookup_run [OF ok src(2,1)] dir_part_run [OF R(4) cs(2)] root look ft [OF src(2)] src(3) buf miss
      name_of_path [OF R(4) cs(2)] R(5)
    by (cases dir) (simp_all add: ln_def copy_path_def EXT2_BLOCK_SIZE_def)
qed

lemma ln_run:
  assumes ok: "fs_ok d" and E: "slack E"
    and src: "\<forall>c \<in> set src. component c" "reaches d 1 src a" "e_inode d a = TO_NUMBER i" "i < inode_count d" "e_file_type d a \<noteq> EXT2_FT_DIR"
    and mode: "get 2 (i_mode (inode_at d i)) d \<noteq> EXT2_S_IFLNK"
    and cs: "\<forall>c \<in> set cs. component c" "length (join_path cs) < 2 ^ 31" "length (join_path (cs @ [nm])) \<le> length (join_path src)"
    and dir: "to_directory d cs k dir" and r: "has_room d k ess nm"
  shows "\<exists>d' ess'. ln fuel E False (join_path src) (join_path (cs @ [nm])) d = Inr (0, d') \<and> fs_ok d' \<and>
    free_blocks d' = free_blocks d \<and> free_inodes d' = free_inodes d \<and>
    dir_ok d' (inode_at d k) ess' \<and> new_name d ess d' ess' (nm, TO_NUMBER i, EXT2_FT_REG_FILE) \<and>
    get 2 (i_links_count (inode_at d i)) d' = (get 2 (i_links_count (inode_at d i)) d + 1 :: u16)"
proof -
  have R: "k < inode_count d" "used_dir d (inode_at d k) ess" "nm \<notin> fst ` set (listing d (concat ess))" "component nm" "length nm < 256"
    using r by (auto simp: has_room_def)
  show ?thesis
    using hard_link_run [OF ok src(2-4) mode dir r, of fuel E] ln_command [OF ok E src(1,2,5) cs dir R, of fuel False] by simp
qed

end
