(* ===== verification/Ext2_Free.thy ===== *)
theory Ext2_Free
  imports Ext2_Link
begin

text \<open>
  Freeing blocks: \<open>free_all_blocks_of_inode\<close> marks the blocks of a file free, those named by
  its direct pointers and through its single and double indirect blocks, and nothing
  else; \<open>ext2_rm\<close> of the last name of a file frees the blocks and the inode.
\<close>

section \<open>Unmarking\<close>

lemma with_bit_cleared:
  assumes "bitmap_ok ty d" "i < n" "n \<le> BITS"
  shows "unmarked ty n (with_bit ty i False d) = insert i (unmarked ty n d)"
  using with_bit_marked [OF assms(1), of i _ False] assms(2,3) unfolding unmarked_def by (auto split: if_split_asm)

text \<open>A block number that may be freed: one behind the table of inodes, or 0.\<close>

definition freeable :: "disk \<Rightarrow> u32 \<Rightarrow> bool" where
  "freeable d b \<longleftrightarrow> b = 0 \<or> unat b \<le> block_count d \<and> table_end d \<le> block_start b \<and> block_start b + EXT2_BLOCK_SIZE \<le> DISK_SIZE"

text \<open>The bits of the block numbers \<open>B\<close>.\<close>

definition bits_of :: "u32 set \<Rightarrow> nat set" where
  "bits_of B = (\<lambda>b. unat b - 1) ` (B - {0})"

lemma bits_of_simps [simp]: "bits_of {} = {}" "bits_of (A \<union> B) = bits_of A \<union> bits_of B" "bits_of (insert 0 B) = bits_of B"
  by (auto simp: bits_of_def)

text \<open>The disk after the blocks \<open>B\<close> have been freed.\<close>

definition released :: "u32 set \<Rightarrow> disk \<Rightarrow> disk \<Rightarrow> bool" where
  "released B d e \<longleftrightarrow> fs_ok e \<and> free_blocks e = free_blocks d \<union> bits_of B \<and> free_inodes e = free_inodes d \<and>
     (\<forall>a. a < EXT2_BLOCK_SIZE \<or> table_addr d \<le> a \<longrightarrow> e a = d a) \<and> table_addr e = table_addr d \<and>
     inode_count e = inode_count d \<and> block_count e = block_count d"

lemma released_refl: "fs_ok d \<Longrightarrow> released {} d d"
  by (simp add: released_def)

lemma released_trans: "released A d e \<Longrightarrow> released B e e' \<Longrightarrow> released (A \<union> B) d e'"
  by (auto simp: released_def)

lemma released_freeable: "released A d e \<Longrightarrow> freeable e b = freeable d b"
  by (simp add: released_def freeable_def table_end_def)

lemma released_get: "released A d e \<Longrightarrow> a + n \<le> EXT2_BLOCK_SIZE \<or> table_addr d \<le> a \<Longrightarrow> get n a e = get n a d"
  by (rule get_cong) (auto simp: released_def)

lemma release_block:
  assumes ok: "fs_ok d" and f: "freeable d b"
  shows "\<exists>e. update_bitmap CHR ''b'' b False d = Inr e \<and> released {b} d e"
proof (cases "b = 0")
  case True
  then show ?thesis using released_refl [OF ok] by (simp add: update_bitmap_def released_def)
next
  case False
  then have pos: "0 < unat b" by (simp add: unat_gt_0)
  let ?i = "unat b - 1" and ?d = "with_bit CHR ''b'' (unat b - 1) False d"
  note o = fs_okD [OF ok]
  have i: "?i < block_count d" "table_end d \<le> block_at ?i" "block_at ?i + EXT2_BLOCK_SIZE \<le> DISK_SIZE"
    using f False pos by (auto simp: freeable_def block_at_def)
  have iB: "?i < BITS" using i(1) o(3) by simp
  note F = with_bit_fields [OF o(1) iB, of False] with_bit_addr [OF o(1) iB, of _ False]
  have ap: "bitmap_addr CHR ''b'' d + EXT2_BLOCK_SIZE \<le> bitmap_addr CHR ''i'' d \<or>
    bitmap_addr CHR ''i'' d + EXT2_BLOCK_SIZE \<le> bitmap_addr CHR ''b'' d" using ok by (simp add: fs_ok_def)
  have ne: "CHR ''b'' \<noteq> CHR ''i''" by simp
  note other = with_bit_other_bitmap [OF o(1,2) iB ne _ _ ap o(4), of False]
  have fb: "free_blocks ?d = insert ?i (free_blocks d)"
    using with_bit_cleared [OF o(1) i(1) o(3)] F by (simp add: free_blocks_def)
  have fi: "free_inodes ?d = free_inodes d" using other F by (simp add: free_inodes_def)
  have cb: "counts_ok CHR ''b'' (block_count d) ?d"
    by (rule with_bit_counts_ok [OF _ i(1)]) (use ok in \<open>simp add: fs_ok_def\<close>)
  have fs: "fs_ok ?d" using ok cb other fb i(2,3) unfolding fs_ok_def F by simp
  have lo: "?d a = d a" if "a < EXT2_BLOCK_SIZE \<or> table_addr d \<le> a" for a
    using that with_bit_fixed [OF o(1) iB, of a] with_bit_above [OF o(1) iB, of a] o(8) by (auto simp: EXT2_BLOCK_SIZE_def)
  have u: "update_bitmap CHR ''b'' b False d = Inr ?d"
    using update_bitmap_run [OF o(1) False, of False] iB pos by simp
  show ?thesis using u fs fb fi lo F False by (auto simp: released_def bits_of_def)
qed

section \<open>Loops over pointers\<close>

lemma release_loop:
  assumes "\<And>i e B. i \<in> set is \<Longrightarrow> released B d e \<Longrightarrow> \<exists>e'. f i e = Inr e' \<and> released (G i) e e'" and "released B d e"
  shows "\<exists>e'. forE f is e = Inr e' \<and> released (\<Union> (G ` set is)) e e'"
  using assms
proof (induction "is" arbitrary: B e)
  case Nil
  then show ?case using released_refl [of e] by (auto simp: released_def)
next
  case (Cons i "is")
  obtain e1 where 1: "f i e = Inr e1" "released (G i) e e1" using Cons.prems(1) [OF _ Cons.prems(2)] by auto
  note r = released_trans [OF Cons.prems(2) 1(2)]
  obtain e2 where "forE f is e1 = Inr e2" "released (\<Union> (G ` set is)) e1 e2"
    using Cons.IH [OF _ r] Cons.prems(1) by auto
  then show ?case using 1 released_trans [OF 1(2)] by auto
qed

text \<open>A pointer outside the bitmaps: it is not changed while blocks are freed.\<close>

definition fixed_ptr :: "disk \<Rightarrow> nat \<Rightarrow> bool" where
  "fixed_ptr d p \<longleftrightarrow> (p + 4 \<le> EXT2_BLOCK_SIZE \<or> table_addr d \<le> p) \<and> p + 4 \<le> DISK_SIZE"

lemma fixed_ptr_kept:
  assumes "fixed_ptr d p" "released A d e"
  shows "ld32 p e = Inr (get 4 p d)" "get 4 p e = (get 4 p d :: u32)"
  using assms released_get [OF assms(2), of p 4] by (auto simp: fixed_ptr_def)

lemma free_block_at_run:
  assumes "fixed_ptr d p" "freeable d (get 4 p d)" "released A d e"
  shows "\<exists>e'. free_block_at p e = Inr e' \<and> released {get 4 p d} e e'"
  using release_block [of e "get 4 p d"] fixed_ptr_kept [OF assms(1,3)] assms(2,3) released_freeable [OF assms(3)]
  by (auto simp: free_block_at_def released_def)

text \<open>The pointers in a block.\<close>

definition pointers :: "disk \<Rightarrow> nat \<Rightarrow> u32 set" where
  "pointers d p = (\<lambda>i. get 4 (p + 4 * i) d) ` {..< NUM_OF_PTRS_IN_BLOCK}"

text \<open>The block of a number that may be freed; for 0 it is the first block of the image.\<close>

lemma fixed_block:
  assumes ok: "fs_ok d" and "freeable d b"
  shows "i < NUM_OF_PTRS_IN_BLOCK \<Longrightarrow> fixed_ptr d (block_ptr b + 4 * i)"
proof -
  assume "i < NUM_OF_PTRS_IN_BLOCK"
  then have i: "4 * i + 4 \<le> EXT2_BLOCK_SIZE" by (simp add: NUM_OF_PTRS_IN_BLOCK_def EXT2_BLOCK_SIZE_def)
  show ?thesis
  proof (cases "b = 0")
    case True
    then show ?thesis using i by (simp add: fixed_ptr_def block_ptr_def disk_size EXT2_BLOCK_SIZE_def)
  next
    case False
    then show ?thesis
      using i assms(2) block_ptr_unat [of b] by (auto simp: freeable_def fixed_ptr_def table_end_def)
  qed
qed

lemma free_direct_run:
  assumes ok: "fs_ok d" and b: "freeable d b" and f: "\<forall>x \<in> pointers d (block_ptr b). freeable d x" and r: "released A d e"
  shows "\<exists>e'. free_direct (block_ptr b) e = Inr e' \<and> released (pointers d (block_ptr b)) e e'"
proof -
  have "\<exists>e'. free_block_at (block_ptr b + 4 * i) e = Inr e' \<and> released {get 4 (block_ptr b + 4 * i) d} e e'"
    if "i \<in> set [0 ..< NUM_OF_PTRS_IN_BLOCK]" "released B d e" for i e B
    using that f by (intro free_block_at_run [OF fixed_block [OF ok b] _ that(2)]) (auto simp: pointers_def)
  from release_loop [of "[0 ..< NUM_OF_PTRS_IN_BLOCK]" d "\<lambda>i. free_block_at (block_ptr b + 4 * i)", OF this r]
  show ?thesis unfolding free_direct_def pointers_def by (auto simp: UNION_singleton_eq_range lessThan_atLeast0)
qed

section \<open>The blocks of a file\<close>

text \<open>Blocks and pointer blocks behind a double indirect block.\<close>

definition second_level :: "disk \<Rightarrow> u32 \<Rightarrow> u32 set" where
  "second_level d b = (\<Union>x \<in> pointers d (block_ptr b) - {0}. insert x (pointers d (block_ptr x)))"

text \<open>The block numbers of a file without a triple indirect block, and 0.\<close>

definition file_numbers :: "disk \<Rightarrow> nat \<Rightarrow> u32 set" where
  "file_numbers d inode =
    (\<lambda>i. get 4 (i_block inode i) d) ` {..< DIRECT_BLOCK_COUNT} \<union>
    (let b = get 4 (i_block inode INDIRECT_BLOCK) d in if b = 0 then {} else insert b (pointers d (block_ptr b))) \<union>
    (let b = get 4 (i_block inode DBLE_INDIRECT_BLOCK) d in if b = 0 then {} else insert b (second_level d b))"

lemma file_numbers_in:
  "i < DIRECT_BLOCK_COUNT \<Longrightarrow> get 4 (i_block inode i) d \<in> file_numbers d inode"
  "get 4 (i_block inode INDIRECT_BLOCK) d = b \<Longrightarrow> b \<noteq> 0 \<Longrightarrow> insert b (pointers d (block_ptr b)) \<subseteq> file_numbers d inode"
  "get 4 (i_block inode DBLE_INDIRECT_BLOCK) d = b \<Longrightarrow> b \<noteq> 0 \<Longrightarrow> insert b (second_level d b) \<subseteq> file_numbers d inode"
  by (auto simp: file_numbers_def)

text \<open>The loops follow pointers that are 0 to the first block of the image, which is empty.\<close>

definition boot_empty :: "disk \<Rightarrow> bool" where
  "boot_empty d \<longleftrightarrow> (\<forall>p < EXT2_BLOCK_SIZE. d p = 0)"

lemma released_bits: "released A d e \<Longrightarrow> bits_of A = bits_of B \<Longrightarrow> released B d e"
  by (simp add: released_def)

lemma boot_pointers:
  assumes "boot_empty d"
  shows "pointers d (block_ptr 0) = {0}"
proof -
  have "get 4 (block_ptr 0 + 4 * i) d = (0 :: u32)" if "i < NUM_OF_PTRS_IN_BLOCK" for i
  proof -
    have "get 4 (block_ptr 0 + 4 * i) d = (get 4 (block_ptr 0 + 4 * i) (\<lambda>_. 0) :: u32)"
      using that assms by (intro get_cong) (simp add: boot_empty_def block_ptr_def NUM_OF_PTRS_IN_BLOCK_def)
    also have "\<dots> = 0" by (simp add: get_def numeral_eq_Suc)
    finally show ?thesis .
  qed
  then have "pointers d (block_ptr 0) = (\<lambda>_. 0) ` {..< NUM_OF_PTRS_IN_BLOCK}" unfolding pointers_def by (intro image_cong) auto
  moreover have "{..< NUM_OF_PTRS_IN_BLOCK} \<noteq> {}" by (simp add: NUM_OF_PTRS_IN_BLOCK_def EXT2_BLOCK_SIZE_def lessThan_empty_iff)
  ultimately show ?thesis by (simp only: image_constant_conv if_False)
qed

lemma free_indirect_run:
  assumes ok: "fs_ok d" and b: "freeable d b" and f: "\<forall>x \<in> second_level d b. freeable d x" and boot: "boot_empty d"
    and r: "released A d e"
  shows "\<exists>e'. free_indirect (block_ptr b) e = Inr e' \<and> released (second_level d b) e e'"
proof -
  define ptr where "ptr i = (get 4 (block_ptr b + 4 * i) d :: u32)" for i
  let ?G = "\<lambda>i. pointers d (block_ptr (ptr i)) \<union> {ptr i}"
  let ?f = "\<lambda>i d. bindE (ld32 (block_ptr b + 4 * i) d) (\<lambda>c. bindE (free_direct (block_ptr c) d) (free_block_at (block_ptr b + 4 * i)))"
  have 0: "freeable d 0" by (simp add: freeable_def)
  have step: "\<exists>e'. ?f i e = Inr e' \<and> released (?G i) e e'" if i: "i \<in> set [0 ..< NUM_OF_PTRS_IN_BLOCK]" and e: "released B d e" for i e B
  proof -
    have x: "fixed_ptr d (block_ptr b + 4 * i)" using i by (intro fixed_block [OF ok b]) simp
    have p: "ptr i \<in> pointers d (block_ptr b)" using i by (simp add: pointers_def ptr_def)
    have c: "freeable d (ptr i)" "\<forall>x \<in> pointers d (block_ptr (ptr i)). freeable d x"
      using p f boot_pointers [OF boot] 0 by (cases "ptr i = 0"; force simp: second_level_def)+
    obtain e1 where e1: "free_direct (block_ptr (ptr i)) e = Inr e1" "released (pointers d (block_ptr (ptr i))) e e1"
      using free_direct_run [OF ok c e] by blast
    note r1 = released_trans [OF e e1(2)]
    obtain e2 where e2: "free_block_at (block_ptr b + 4 * i) e1 = Inr e2" "released {ptr i} e1 e2"
      using free_block_at_run [OF x _ r1] c(1) by (auto simp: ptr_def)
    have "ld32 (block_ptr b + 4 * i) e = Inr (ptr i)" using fixed_ptr_kept(1) [OF x e] by (simp add: ptr_def)
    then show ?thesis
      using e1(1) e2(1) released_trans [OF e1(2) e2(2)] by (intro exI [of _ e2]) simp
  qed
  have "\<exists>e'. forE ?f [0 ..< NUM_OF_PTRS_IN_BLOCK] e = Inr e' \<and> released (\<Union> (?G ` set [0 ..< NUM_OF_PTRS_IN_BLOCK])) e e'"
    by (rule release_loop [OF _ r]) (rule step)
  then obtain e' where e': "free_indirect (block_ptr b) e = Inr e'" "released (\<Union> (?G ` set [0 ..< NUM_OF_PTRS_IN_BLOCK])) e e'"
    unfolding free_indirect_def by blast
  have "bits_of (\<Union> (?G ` set [0 ..< NUM_OF_PTRS_IN_BLOCK])) = bits_of (second_level d b)"
  proof -
    have "\<Union> (?G ` set [0 ..< NUM_OF_PTRS_IN_BLOCK]) = (\<Union>x \<in> pointers d (block_ptr b). insert x (pointers d (block_ptr x)))"
      by (auto simp: pointers_def [of d "block_ptr b"] ptr_def)
    moreover have "bits_of (\<Union>x \<in> pointers d (block_ptr b). insert x (pointers d (block_ptr x))) = bits_of (second_level d b)"
      using boot_pointers [OF boot] by (force simp: bits_of_def second_level_def)
    ultimately show ?thesis by simp
  qed
  then show ?thesis using e' released_bits by blast
qed

lemma free_tree_run:
  assumes p: "fixed_ptr d p" "freeable d (get 4 p d)" and r: "released A d e"
    and f: "\<And>e A. get 4 p d \<noteq> (0 :: u32) \<Longrightarrow> released A d e \<Longrightarrow> \<exists>e'. f (block_ptr (get 4 p d)) e = Inr e' \<and> released B e e'"
  shows "\<exists>e'. free_tree f p e = Inr e' \<and> released (let b = get 4 p d in if b = 0 then {} else insert b B) e e'"
proof (cases "get 4 p d = (0 :: u32)")
  case True
  then show ?thesis using fixed_ptr_kept [OF p(1) r] r released_refl [of e] by (simp add: free_tree_def released_def)
next
  case False
  obtain e1 where e1: "f (block_ptr (get 4 p d)) e = Inr e1" "released B e e1" using f [OF False r] by blast
  obtain e2 where e2: "free_block_at p e1 = Inr e2" "released {get 4 p d} e1 e2"
    using free_block_at_run [OF p released_trans [OF r e1(2)]] by blast
  have "released (insert (get 4 p d) B) e e2" using released_trans [OF e1(2) e2(2)] by simp
  then show ?thesis
    using fixed_ptr_kept(1) [OF p(1) r] False e1(1) e2(1) by (simp add: free_tree_def)
qed

lemma free_all_run:
  assumes ok: "fs_ok d" and i: "i < inode_count d" and f: "\<forall>b \<in> file_numbers d (inode_at d i). freeable d b"
    and boot: "get 4 (i_block (inode_at d i) DBLE_INDIRECT_BLOCK) d \<noteq> (0 :: u32) \<Longrightarrow> boot_empty d"
    and triple: "get 4 (i_block (inode_at d i) TPLE_INDIRECT_BLOCK) d = (0 :: u32)"
  shows "\<exists>e. free_all_blocks_of_inode (inode_at d i) d = Inr e \<and> released (file_numbers d (inode_at d i)) d e"
proof -
  let ?p = "i_block (inode_at d i)"
  let ?I = "get 4 (?p INDIRECT_BLOCK) d :: u32" and ?D = "get 4 (?p DBLE_INDIRECT_BLOCK) d :: u32"
  let ?A = "(\<lambda>i. get 4 (?p i) d) ` {..< DIRECT_BLOCK_COUNT} :: u32 set"
  have x: "fixed_ptr d (?p j)" if "j < 15" for j
    using inode_in_table [OF i] fs_okD(7) [OF ok] that by (auto simp: fixed_ptr_def i_block_def INODE_SIZE_def)
  have x': "fixed_ptr d (?p INDIRECT_BLOCK)" "fixed_ptr d (?p DBLE_INDIRECT_BLOCK)" "fixed_ptr d (?p TPLE_INDIRECT_BLOCK)"
    by (simp_all add: x INDIRECT_BLOCK_def DBLE_INDIRECT_BLOCK_def TPLE_INDIRECT_BLOCK_def)
  have 0: "freeable d 0" by (simp add: freeable_def)
  have fI: "freeable d ?I" "\<forall>x \<in> pointers d (block_ptr ?I). freeable d x" if "?I \<noteq> 0"
    using file_numbers_in(2) [OF refl that] f by blast+
  have fD: "freeable d ?D" "\<forall>x \<in> second_level d ?D. freeable d x" if "?D \<noteq> 0"
    using file_numbers_in(3) [OF refl that] f by blast+
  have fID: "freeable d ?I" "freeable d ?D" using fI(1) fD(1) 0 by (cases "?I = 0"; cases "?D = 0"; simp)+
  have "\<exists>e'. forE (\<lambda>i. free_block_at (?p i)) [0 ..< DIRECT_BLOCK_COUNT] d = Inr e' \<and>
      released (\<Union> ((\<lambda>i. {get 4 (?p i) d}) ` set [0 ..< DIRECT_BLOCK_COUNT])) d e'"
  proof (rule release_loop [OF _ released_refl [OF ok]])
    show "\<exists>e'. free_block_at (?p j) e = Inr e' \<and> released {get 4 (?p j) d} e e'"
      if "j \<in> set [0 ..< DIRECT_BLOCK_COUNT]" "released B d e" for j e B
      using that by (intro free_block_at_run [OF x]) (auto simp: DIRECT_BLOCK_COUNT_def intro!: bspec [OF f] file_numbers_in)
  qed
  then obtain e1 where e1: "forE (\<lambda>i. free_block_at (?p i)) [0 ..< DIRECT_BLOCK_COUNT] d = Inr e1" "released ?A d e1"
    by (auto simp: UNION_singleton_eq_range lessThan_atLeast0)
  let ?B = "let b = ?I in if b = 0 then {} else insert b (pointers d (block_ptr ?I))"
  obtain e2 where e2: "free_tree free_direct (?p INDIRECT_BLOCK) e1 = Inr e2" "released ?B e1 e2"
    using free_tree_run [OF x'(1) fID(1) e1(2), of free_direct "pointers d (block_ptr ?I)"] free_direct_run [OF ok fI] by blast
  note r2 = released_trans [OF e1(2) e2(2)]
  let ?C = "let b = ?D in if b = 0 then {} else insert b (second_level d ?D)"
  obtain e3 where e3: "free_tree free_indirect (?p DBLE_INDIRECT_BLOCK) e2 = Inr e3" "released ?C e2 e3"
    using free_tree_run [OF x'(2) fID(2) r2, of free_indirect "second_level d ?D"] free_indirect_run [OF ok fD boot] by blast
  note r3 = released_trans [OF r2 e3(2)]
  have e4: "free_tree free_triple (?p TPLE_INDIRECT_BLOCK) e3 = Inr e3"
    using fixed_ptr_kept [OF x'(3) r3] triple by (simp add: free_tree_def)
  have "file_numbers d (inode_at d i) = ?A \<union> ?B \<union> ?C" by (simp add: file_numbers_def Let_def)
  then show ?thesis using e1(1) e2(1) e3(1) e4 r3 by (simp add: free_all_blocks_of_inode_def)
qed

section \<open>Removing the last name of a file\<close>

text \<open>Every block of the file may be freed, and it has no triple indirect block.\<close>

definition whole_file :: "disk \<Rightarrow> nat \<Rightarrow> bool" where
  "whole_file d inode \<longleftrightarrow> (\<forall>b \<in> file_numbers d inode. freeable d b) \<and>
     (get 4 (i_block inode DBLE_INDIRECT_BLOCK) d \<noteq> (0 :: u32) \<longrightarrow> boot_empty d) \<and>
     get 4 (i_block inode TPLE_INDIRECT_BLOCK) d = (0 :: u32)"

text \<open>The link count is not among its blocks.\<close>

lemma pointers_kept:
  assumes "fs_ok d" "freeable d b" and "\<And>x. x < table_addr d \<or> table_end d \<le> x \<Longrightarrow> e x = d x"
  shows "pointers e (block_ptr b) = pointers d (block_ptr b)"
  unfolding pointers_def
proof (rule image_cong [OF refl], rule get_cong, rule assms(3))
  fix i j assume i: "i \<in> {..< NUM_OF_PTRS_IN_BLOCK}" and j: "j < (4 :: nat)"
  have 4: "4 * i + 4 \<le> EXT2_BLOCK_SIZE" using i by (simp add: NUM_OF_PTRS_IN_BLOCK_def EXT2_BLOCK_SIZE_def)
  show "block_ptr b + 4 * i + j < table_addr d \<or> table_end d \<le> block_ptr b + 4 * i + j"
  proof (cases "b = 0")
    case True
    then show ?thesis using j 4 fs_okD(6) [OF assms(1)] by (simp add: block_ptr_def EXT2_BLOCK_SIZE_def)
  next
    case False
    then show ?thesis using j assms(2) block_ptr_unat [of b] by (auto simp: freeable_def)
  qed
qed

lemma file_numbers_cong:
  assumes p: "\<And>x. i_block inode 0 \<le> x \<Longrightarrow> x < i_block inode 15 \<Longrightarrow> e x = d x"
    and K: "\<And>b. b \<in> file_numbers d inode \<Longrightarrow> b \<noteq> 0 \<Longrightarrow> pointers e (block_ptr b) = pointers d (block_ptr b)"
  shows "file_numbers e inode = file_numbers d inode"
proof -
  have g: "get 4 (i_block inode i) e = (get 4 (i_block inode i) d :: u32)" if "i < 15" for i
    using that by (intro get_cong p) (auto simp: i_block_def)
  have g': "get 4 (i_block inode INDIRECT_BLOCK) e = (get 4 (i_block inode INDIRECT_BLOCK) d :: u32)"
    "get 4 (i_block inode DBLE_INDIRECT_BLOCK) e = (get 4 (i_block inode DBLE_INDIRECT_BLOCK) d :: u32)"
    by (simp_all add: g INDIRECT_BLOCK_def DBLE_INDIRECT_BLOCK_def)
  have I: "pointers e (block_ptr b) = pointers d (block_ptr b)" if "get 4 (i_block inode INDIRECT_BLOCK) d = b" "b \<noteq> 0" for b
    using K file_numbers_in(2) [OF that] that(2) by blast
  have D: "second_level e b = second_level d b" if "get 4 (i_block inode DBLE_INDIRECT_BLOCK) d = b" "b \<noteq> 0" for b
  proof -
    note in_f = file_numbers_in(3) [OF that]
    have "pointers e (block_ptr b) = pointers d (block_ptr b)" using K in_f that(2) by blast
    moreover have "pointers e (block_ptr x) = pointers d (block_ptr x)" if "x \<in> pointers d (block_ptr b)" "x \<noteq> 0" for x
      using K [of x] in_f that by (auto simp: second_level_def)
    ultimately show ?thesis unfolding second_level_def by (intro SUP_cong) auto
  qed
  have A: "(\<lambda>i. get 4 (i_block inode i) e) ` {..< DIRECT_BLOCK_COUNT} = (\<lambda>i. get 4 (i_block inode i) d :: u32) ` {..< DIRECT_BLOCK_COUNT}"
    by (intro image_cong refl g) (simp add: DIRECT_BLOCK_COUNT_def)
  show ?thesis unfolding file_numbers_def g' A Let_def using I [OF refl] D [OF refl] by (simp del: Un_insert_left Un_insert_right)
qed

lemma file_numbers_kept:
  assumes ok: "fs_ok d" and w: "whole_file d inode" and e: "\<And>x. x < table_addr d \<or> table_end d \<le> x \<Longrightarrow> e x = d x"
    and p: "\<And>x. i_block inode 0 \<le> x \<Longrightarrow> x < i_block inode 15 \<Longrightarrow> e x = d x"
  shows "file_numbers e inode = file_numbers d inode"
proof (rule file_numbers_cong [OF p])
  show "pointers e (block_ptr b) = pointers d (block_ptr b)" if "b \<in> file_numbers d inode" for b
    by (rule pointers_kept [OF ok _ e]) (use w that in \<open>simp_all add: whole_file_def\<close>)
qed

lemma release_inode:
  assumes ok: "fs_ok d" and i: "i < inode_count d" "EXT2_GOOD_OLD_FIRST_INO \<le> i"
  shows "\<exists>e. update_bitmap CHR ''i'' (TO_NUMBER i) False d = Inr e \<and> fs_ok e \<and> free_inodes e = insert i (free_inodes d) \<and>
    free_blocks e = free_blocks d \<and> (\<forall>a. a < EXT2_BLOCK_SIZE \<or> table_addr d \<le> a \<longrightarrow> e a = d a) \<and>
    table_addr e = table_addr d \<and> inode_count e = inode_count d \<and> block_count e = block_count d"
proof -
  let ?d = "with_bit CHR ''i'' i False d"
  note o = fs_okD [OF ok]
  have iB: "i < BITS" "TO_NUMBER i \<noteq> 0" using i(1) o(4) unat_to_number [of i] by auto
  note F = with_bit_fields [OF o(2) iB(1), of False] with_bit_addr [OF o(2) iB(1), of _ False]
  have ap: "bitmap_addr CHR ''i'' d + EXT2_BLOCK_SIZE \<le> bitmap_addr CHR ''b'' d \<or>
    bitmap_addr CHR ''b'' d + EXT2_BLOCK_SIZE \<le> bitmap_addr CHR ''i'' d" using ok by (auto simp: fs_ok_def)
  have ne: "CHR ''i'' \<noteq> CHR ''b''" by simp
  note other = with_bit_other_bitmap [OF o(2,1) iB(1) ne _ _ ap o(3), of False]
  have fb: "free_blocks ?d = free_blocks d" using other F by (simp add: free_blocks_def)
  have fi: "free_inodes ?d = insert i (free_inodes d)"
    using with_bit_cleared [OF o(2) i(1) o(4)] F i(2) by (auto simp: free_inodes_def)
  have ci: "counts_ok CHR ''i'' (inode_count d) ?d"
    by (rule with_bit_counts_ok [OF _ i(1)]) (use ok in \<open>simp add: fs_ok_def\<close>)
  have fs: "fs_ok ?d" using ok ci other fb unfolding fs_ok_def F by simp
  have lo: "?d a = d a" if "a < EXT2_BLOCK_SIZE \<or> table_addr d \<le> a" for a
    using that with_bit_fixed [OF o(2) iB(1), of a] with_bit_above [OF o(2) iB(1), of a] o(9) by (auto simp: EXT2_BLOCK_SIZE_def)
  have "update_bitmap CHR ''i'' (TO_NUMBER i) False d = Inr ?d"
    using update_bitmap_run [OF o(2) iB(2), of False] unat_to_number [OF iB(1)] iB(1) by simp
  then show ?thesis using fs fb fi lo F by simp
qed

text \<open>The bytes of an inode before its pointers.\<close>

lemma head_cells:
  assumes "i < inode_count d"
  shows "inode_cells d {inode_at d i ..< i_block (inode_at d i) 0}"
proof -
  have "x < i_block (inode_at d k) 0 \<or> i_block (inode_at d k) 15 \<le> x"
    if x: "inode_at d i \<le> x" "x < i_block (inode_at d i) 0" and k: "k < inode_count d" for x k
    using inode_at_apart [of i k d] x by (cases "i = k") (auto simp: i_block_def INODE_SIZE_def)
  then show ?thesis
    using inode_in_table [OF assms] by (auto simp: inode_cells_def i_block_def INODE_SIZE_def)
qed

lemma release_file_run:
  assumes ok: "fs_ok d" and i: "i < inode_count d" "EXT2_GOOD_OLD_FIRST_INO \<le> i" and w: "whole_file d (inode_at d i)"
    and a: "ld32 (de_inode a) d = Inr (TO_NUMBER i)" "table_end d \<le> de_inode a"
  shows "\<exists>e. release_file E (inode_at d i) a d = Inr e \<and> fs_ok e \<and> table_addr e = table_addr d \<and> inode_count e = inode_count d \<and>
    free_blocks e = free_blocks d \<union> bits_of (file_numbers d (inode_at d i)) \<and> free_inodes e = insert i (free_inodes d) \<and>
    (\<forall>x \<ge> table_addr d. (x < i_size (inode_at d i) \<or> i_links_count (inode_at d i) \<le> x) \<longrightarrow> e x = d x)"
proof -
  let ?P = "inode_at d i"
  obtain e2 where e2: "free_all_blocks_of_inode ?P d = Inr e2" "released (file_numbers d ?P) d e2"
    using free_all_run [OF ok i(1)] w unfolding whole_file_def by blast
  then have R: "fs_ok e2" "table_addr e2 = table_addr d" "inode_count e2 = inode_count d" "\<forall>x \<ge> table_addr d. e2 x = d x"
    "free_blocks e2 = free_blocks d \<union> bits_of (file_numbers d ?P)" "free_inodes e2 = free_inodes d"
    by (simp_all add: released_def)
  have aT: "table_addr d \<le> de_inode a" using a(2) by (simp add: table_end_def)
  have a2: "ld32 (de_inode a) e2 = Inr (TO_NUMBER i)"
  proof -
    have "get 4 (de_inode a) e2 = (get 4 (de_inode a) d :: u32)" using released_get [OF e2(2)] aT by blast
    then show ?thesis using a(1) by (simp add: load_def split: if_splits)
  qed
  obtain e3 where e3: "update_bitmap CHR ''i'' (TO_NUMBER i) False e2 = Inr e3" "fs_ok e3" "free_inodes e3 = insert i (free_inodes d)"
    "free_blocks e3 = free_blocks e2" "\<forall>x \<ge> table_addr d. e3 x = d x" "table_addr e3 = table_addr d" "inode_count e3 = inode_count d"
    using release_inode [OF R(1), of i] i R by auto
  have I: "table_addr d \<le> ?P" "?P + INODE_SIZE \<le> DISK_SIZE"
    using inode_in_table [OF i(1)] fs_okD(7) [OF ok] by simp_all
  let ?e = "put (i_size ?P) (store_le 4 (0 :: u32)) (put (i_dtime ?P) (store_le 4 (now E)) e3)"
  have s: "seqE [st32 (i_dtime ?P) (now E), st32 (i_size ?P) 0] e3 = Inr ?e"
    using I(2) by (simp add: store_def i_dtime_def i_size_def INODE_SIZE_def)
  have low: "same_low e3 ?e" unfolding same_low_def e3(6) using I(1) by (simp add: put_outside i_dtime_def i_size_def)
  note F = low_fs [OF e3(2) low] low_fields [OF e3(2) low]
  show ?thesis
    using e2(1) a2 e3(1,3-7) s F R(5) I
    by (intro exI [of _ ?e]) (auto simp: release_file_def put_outside i_dtime_def i_size_def i_links_count_def)
qed

lemma remove_last_run:
  assumes ok: "fs_ok d" and E: "slack E" and cs: "\<forall>c \<in> set cs. component c" "component nm" "length (join_path cs) < 2 ^ 31"
    and p: "dir_path d cs k" and P: "k < inode_count d" "used_dir d (inode_at d k) (es # ess)"
    and a: "a \<in> set (concat (es # ess))" "\<not> unused d a" "e_inode d a = TO_NUMBER i" "i < inode_count d"
    and two: "2 \<le> length (filter (\<lambda>x. \<not> unused d x) es)"
    and L: "get 2 (i_links_count (inode_at d i)) d = (1 :: u16)"
    and w: "EXT2_GOOD_OLD_FIRST_INO \<le> i" "whole_file d (inode_at d i)"
  shows "\<exists>d'. remove_file E a (join_path (cs @ [nm])) d = Inr d' \<and> fs_ok d' \<and>
    free_blocks d' = free_blocks d \<union> bits_of (file_numbers d (inode_at d i)) \<and> free_inodes d' = insert i (free_inodes d) \<and>
    dir_ok d' (inode_at d k) (es # ess) \<and>
    (\<exists>l1 l2. listing d (concat (es # ess)) = l1 @ entry_view d a # l2 \<and> listing d' (concat (es # ess)) = l1 @ l2)"
proof -
  let ?P = "inode_at d i"
  let ?l = "i_links_count ?P" and ?A = "{?P ..< i_block ?P 0}"
  define e1 where "e1 = put ?l (store_le 2 (get 2 ?l d + -1 :: u16)) d"
  note C = change_links(1-8) [OF ok a(4), of "-1", folded e1_def]
  have at: "inode_at e1 i = ?P" by (simp add: inode_at_def C)
  have ls: "table_addr d \<le> ?l" "?l + 2 \<le> table_end d" "?l + 2 \<le> DISK_SIZE"
    using inode_in_table [OF a(4)] fs_okD(7) [OF ok] by (auto simp: i_links_count_def INODE_SIZE_def)
  have te: "table_end e1 = table_end d" by (simp add: table_end_def C)
  have out: "e1 x = d x" if "x < ?l \<or> ?l + 2 \<le> x" for x using that by (simp add: e1_def put_outside)
  have fn: "file_numbers e1 ?P = file_numbers d ?P"
    by (rule file_numbers_kept [OF ok w(2)]) (use ls in \<open>auto intro!: out simp: i_block_def i_links_count_def\<close>)
  have w1: "whole_file e1 (inode_at e1 i)"
  proof -
    have fr: "freeable e1 b = freeable d b" for b
      using low_fields(3) [OF ok, of e1] out ls(1) by (simp add: freeable_def te same_low_def)
    have g: "get 4 (i_block ?P j) e1 = (get 4 (i_block ?P j) d :: u32)" for j
      by (intro get_cong out) (simp add: i_block_def i_links_count_def)
    have "boot_empty e1 = boot_empty d"
    proof -
      have "e1 x = d x" if "x < EXT2_BLOCK_SIZE" for x
        using that fs_okD(6) [OF ok] ls(1) by (intro out) (simp add: EXT2_BLOCK_SIZE_def)
      then show ?thesis by (simp add: boot_empty_def)
    qed
    then show ?thesis using w(2) unfolding whole_file_def at fn g fr by blast
  qed
  have o: "dir_ok d (inode_at d k) (es # ess)" using P(2) by (simp add: used_dir_def)
  obtain b where b: "b \<in> set (dir_blocks d (inode_at d k))" "block_start b \<le> a" using entry_in_dir [OF o a(1)] by blast
  have aT: "table_end d \<le> a" using b P(2) by (auto simp: used_dir_def)
  have aD: "a + 8 \<le> DISK_SIZE" using entry_bound(2,3) [OF o a(1)] by linarith
  have ldn: "ld32 (de_inode a) d = Inr (TO_NUMBER i)" using aD a(3) by (simp add: e_inode_def de_inode_def)
  have ldn1: "ld32 (de_inode a) e1 = Inr (TO_NUMBER i)"
  proof -
    have "get 4 a e1 = (get 4 a d :: u32)" by (intro get_cong out) (use aT ls(2) in simp)
    then show ?thesis using aD a(3) by (simp add: e_inode_def de_inode_def)
  qed
  obtain e where e: "release_file E ?P a e1 = Inr e" "fs_ok e" "table_addr e = table_addr d" "inode_count e = inode_count d"
    "free_blocks e = free_blocks d \<union> bits_of (file_numbers d ?P)" "free_inodes e = insert i (free_inodes d)"
    "\<forall>x \<ge> table_addr d. (x < i_size ?P \<or> ?l \<le> x) \<longrightarrow> e x = e1 x"
    using release_file_run [OF C(3), of i a E] w(1) w1 a(4) ldn1 aT te unfolding at fn C(4-7) by (auto simp: de_inode_def)
  have un: "unchanged ?A {} d e"
    by (rule unchangedI) (use e(7) out in \<open>auto simp: i_size_def i_links_count_def i_block_def\<close>)
  obtain d' where D: "drop_entry E a (join_path (cs @ [nm])) e = Inr d'" "fs_ok d'" "free_blocks d' = free_blocks e"
    "free_inodes d' = free_inodes e" "dir_ok d' (inode_at d k) (es # ess)"
    "\<exists>l1 l2. listing d (concat (es # ess)) = l1 @ entry_view d a # l2 \<and> listing d' (concat (es # ess)) = l1 @ l2"
    using drop_entry_run [OF ok E cs p P a(1,2) two un head_cells [OF a(4)] e(2-4)] by blast
  have ip: "inode_ptr (TO_NUMBER i) d = Inr ?P" using inode_ptr_at [OF ok] a(4) fs_okD(4) [OF ok] by simp
  have "remove_file E a (join_path (cs @ [nm])) d = Inr d'"
    unfolding remove_file_def ldn bindE_Inr ip C(1) using ls(3) C(2) L e(1) D(1) by simp
  then show ?thesis using D(2-6) e(5,6) by (intro exI [of _ d']) simp
qed

lemma rm_last_run:
  assumes ok: "fs_ok d" and E: "slack E" and cs: "\<forall>c \<in> set cs. component c" "component nm" "length (join_path cs) < 2 ^ 31"
    and p: "dir_path d cs k" and P: "k < inode_count d" "used_dir d (inode_at d k) (es # ess)"
    and a: "find (names d nm) (concat (es # ess)) = Some a" "e_file_type d a \<in> {EXT2_FT_REG_FILE, EXT2_FT_SYMLINK}"
    and i: "e_inode d a = TO_NUMBER i" "i < inode_count d"
    and two: "2 \<le> length (filter (\<lambda>x. \<not> unused d x) es)"
    and L: "get 2 (i_links_count (inode_at d i)) d = (1 :: u16)"
    and w: "EXT2_GOOD_OLD_FIRST_INO \<le> i" "whole_file d (inode_at d i)"
  shows "\<exists>d'. rm E flag (join_path (cs @ [nm])) d = Inr (0, d') \<and> fs_ok d' \<and>
    free_blocks d' = free_blocks d \<union> bits_of (file_numbers d (inode_at d i)) \<and> free_inodes d' = insert i (free_inodes d) \<and>
    dir_ok d' (inode_at d k) (es # ess) \<and>
    (\<exists>l1 l2. listing d (concat (es # ess)) = l1 @ entry_view d a # l2 \<and> listing d' (concat (es # ess)) = l1 @ l2)"
proof -
  note R = rm_removes_file(1) [OF ok E cs(1,2) p P a, of flag] rm_removes_file(2,3) [OF ok E cs(1,2) p P a]
  obtain d' where "remove_file E a (join_path (cs @ [nm])) d = Inr d'" "fs_ok d'"
    "free_blocks d' = free_blocks d \<union> bits_of (file_numbers d (inode_at d i))" "free_inodes d' = insert i (free_inodes d)"
    "dir_ok d' (inode_at d k) (es # ess)"
    "\<exists>l1 l2. listing d (concat (es # ess)) = l1 @ entry_view d a # l2 \<and> listing d' (concat (es # ess)) = l1 @ l2"
    using remove_last_run [OF ok E cs p P R(2,3) i two L w] by blast
  then show ?thesis using R(1) by (intro exI [of _ d']) simp
qed

end
