(* ===== verification/Ext2_Reduce.thy ===== *)
theory Ext2_Reduce
  imports Ext2_Free
begin

text \<open>
  Removing a directory with everything in it.  While \<open>ext2_rm -r\<close> runs, the image differs
  from the one it started with in the bitmaps and counts, in the heads of inodes and in the
  entries cleared so far; in all else, and so for every lookup of a path, it is the same.
\<close>

section \<open>The image while entries are removed\<close>

text \<open>
  \<open>reduced I X B J d e\<close>: since \<open>d\<close> the blocks \<open>B\<close> and the inodes \<open>J\<close> have been freed, the entries
  at \<open>X\<close> cleared, and at most the heads of the inodes \<open>I\<close> changed.
\<close>

definition in_head :: "disk \<Rightarrow> nat \<Rightarrow> nat \<Rightarrow> bool" where
  "in_head d i x \<longleftrightarrow> inode_at d i \<le> x \<and> x < i_block (inode_at d i) 0"

definition off_entries :: "nat set \<Rightarrow> nat \<Rightarrow> bool" where
  "off_entries X x \<longleftrightarrow> (\<forall>y \<in> X. x < y \<or> y + 4 \<le> x)"

definition reduced :: "nat set \<Rightarrow> nat set \<Rightarrow> u32 set \<Rightarrow> nat set \<Rightarrow> disk \<Rightarrow> disk \<Rightarrow> bool" where
  "reduced I X B J d e \<longleftrightarrow> fs_ok e \<and> table_addr e = table_addr d \<and> inode_count e = inode_count d \<and>
     block_count e = block_count d \<and>
     free_blocks e = free_blocks d \<union> bits_of B \<and> free_inodes e = free_inodes d \<union> J \<and>
     (\<forall>x. x < EXT2_BLOCK_SIZE \<or> table_addr d \<le> x \<longrightarrow> (\<forall>i \<in> I. \<not> in_head d i x) \<longrightarrow> off_entries X x \<longrightarrow> e x = d x) \<and>
     (\<forall>y \<in> X. get 4 y e = (0 :: u32) \<and> table_end d \<le> y) \<and> (\<forall>i \<in> I. i < inode_count d)"

lemma reduced_refl: "fs_ok d \<Longrightarrow> reduced {} {} {} {} d d"
  by (simp add: reduced_def)

lemma reduced_fs: "reduced I X B J d e \<Longrightarrow> fs_ok e"
  by (simp add: reduced_def)

lemma reduced_layout:
  assumes "reduced I X B J d e"
  shows "table_addr e = table_addr d" "inode_count e = inode_count d" "block_count e = block_count d"
    "table_end e = table_end d" "inode_at e i = inode_at d i" "freeable e b = freeable d b"
  using assms by (simp_all add: reduced_def table_end_def inode_at_def freeable_def)

lemma reduced_byte:
  assumes "reduced I X B J d e" and "x < EXT2_BLOCK_SIZE \<or> table_addr d \<le> x" and "\<And>i. i \<in> I \<Longrightarrow> \<not> in_head d i x"
    and "off_entries X x"
  shows "e x = d x"
  using assms unfolding reduced_def by blast

lemma reduced_cleared: "reduced I X B J d e \<Longrightarrow> y \<in> X \<Longrightarrow> get 4 y e = (0 :: u32) \<and> table_addr d \<le> y"
  by (auto simp: reduced_def table_end_def)

lemma head_range: "i < inode_count d \<Longrightarrow> in_head d i x \<Longrightarrow> table_addr d \<le> x \<and> x < table_end d"
  using inode_in_table [of i d] by (auto simp: in_head_def i_block_def INODE_SIZE_def)

text \<open>Behind the table of inodes only the cleared entries differ.\<close>

lemma reduced_behind:
  assumes "reduced I X B J d e" and "table_end d \<le> x" and "off_entries X x"
  shows "e x = d x"
proof (rule reduced_byte [OF assms(1)])
  show "\<not> in_head d i x" if "i \<in> I" for i
  proof -
    have "i < inode_count d" using assms(1) that by (simp add: reduced_def)
    then show ?thesis using head_range assms(2) by (meson leD)
  qed
qed (use assms in \<open>auto simp: table_end_def\<close>)

text \<open>The pointers of an inode are never changed, nor the head of one that is not in \<open>I\<close>.\<close>

lemma head_other:
  assumes "inode_at d k \<le> x" "x < inode_at d k + INODE_SIZE" and "in_head d i x"
  shows "i = k"
  using inode_at_apart [of i k d] assms by (auto simp: in_head_def i_block_def INODE_SIZE_def)

lemma off_table:
  assumes "reduced I X B J d e" and "x < table_end d"
  shows "off_entries X x"
  using assms unfolding reduced_def off_entries_def by (meson less_le_trans)

lemma reduced_pointers:
  assumes "reduced I X B J d e" and "k < inode_count d" and "i_block (inode_at d k) 0 \<le> x" "x < i_block (inode_at d k) 15"
  shows "e x = d x"
proof (rule reduced_byte [OF assms(1)])
  note t = inode_in_table [OF assms(2)]
  show "x < EXT2_BLOCK_SIZE \<or> table_addr d \<le> x" using t assms(3) by (simp add: i_block_def)
  show "off_entries X x"
    by (rule off_table [OF assms(1)]) (use t assms(4) in \<open>simp add: i_block_def INODE_SIZE_def\<close>)
  show "\<not> in_head d i x" for i
  proof
    assume h: "in_head d i x"
    have "inode_at d k \<le> x" "x < inode_at d k + INODE_SIZE"
      using assms(3,4) by (simp_all add: i_block_def INODE_SIZE_def)
    then have "i = k" by (rule head_other) (rule h)
    then show False using h assms(3) by (simp add: in_head_def)
  qed
qed

lemma reduced_head:
  assumes "reduced I X B J d e" and "k < inode_count d" "k \<notin> I" and "inode_at d k \<le> x" "x < inode_at d k + INODE_SIZE"
  shows "e x = d x"
proof (rule reduced_byte [OF assms(1)])
  note t = inode_in_table [OF assms(2)]
  show "x < EXT2_BLOCK_SIZE \<or> table_addr d \<le> x" using t assms(4) by simp
  show "off_entries X x" by (rule off_table [OF assms(1)]) (use t assms(5) in simp)
  show "\<not> in_head d i x" if "i \<in> I" for i using head_other [OF assms(4,5), of i] that assms(3) by auto
qed

section \<open>Steps\<close>

text \<open>A change of the head of an inode.\<close>

lemma reduced_head_step:
  assumes r: "reduced I X B J d e" and i: "i < inode_count d" and e': "\<And>x. \<not> in_head d i x \<Longrightarrow> e' x = e x"
  shows "reduced (insert i I) X B J d e'"
proof -
  note L = reduced_layout [OF r]
  have h: "table_addr d \<le> x \<and> x < table_end d" if "in_head d i x" for x by (rule head_range [OF i that])
  have low: "same_low e e'" unfolding same_low_def L(1) using e' h leD by metis
  note F = low_fs [OF reduced_fs [OF r] low] low_fields [OF reduced_fs [OF r] low]
  have x: "get 4 y e' = (get 4 y e :: u32)" if "y \<in> X" for y
  proof (rule get_cong)
    have "table_end d \<le> y" using r that by (simp add: reduced_def)
    then show "e' (y + j) = e (y + j)" for j using h by (intro e') (meson leD le_add1 order_trans)
  qed
  show ?thesis using r e' i x F L unfolding reduced_def by simp
qed

lemma reduced_release_block:
  assumes r: "reduced I X B J d e" and f: "freeable d b"
  shows "\<exists>e'. update_bitmap CHR ''b'' b False e = Inr e' \<and> reduced I X (insert b B) J d e'"
proof -
  obtain e' where e': "update_bitmap CHR ''b'' b False e = Inr e'" "released {b} e e'"
    using release_block [OF reduced_fs [OF r], of b] f reduced_layout(6) [OF r] by auto
  note L = reduced_layout [OF r]
  have "get 4 y e' = (get 4 y e :: u32)" if "y \<in> X" for y
    by (rule released_get [OF e'(2)]) (use reduced_cleared [OF r that] L(1) in simp)
  moreover have "bits_of (insert b B) = bits_of B \<union> bits_of {b}" using bits_of_simps(2) [of "{b}" B] by auto
  ultimately have "reduced I X (insert b B) J d e'" using r e'(2) L unfolding reduced_def released_def by auto
  then show ?thesis using e'(1) by blast
qed

lemma reduced_clear:
  assumes r: "reduced I X B J d e" and y: "table_end d \<le> y" "\<forall>z \<in> X. z + 4 \<le> y \<or> y + 4 \<le> z"
  shows "reduced I (insert y X) B J d (put y (store_le 4 (0 :: u32)) e)"
proof -
  let ?e = "put y (store_le 4 (0 :: u32)) e"
  note L = reduced_layout [OF r]
  have low: "same_low e ?e" unfolding same_low_def L(1) using y by (auto simp: put_outside table_end_def)
  note F = low_fs [OF reduced_fs [OF r] low] low_fields [OF reduced_fs [OF r] low]
  have "get 4 z ?e = (0 :: u32)" if "z \<in> X" for z
  proof -
    have "get 4 z ?e = (get 4 z e :: u32)" by (rule get_put_other) (use y(2) that in auto)
    then show ?thesis using r that by (simp add: reduced_def)
  qed
  then show ?thesis using r F L y unfolding reduced_def off_entries_def by (auto simp: get_put_same put_outside)
qed

lemma reduced_release_inode:
  assumes r: "reduced I X B J d e" and i: "i < inode_count d" "EXT2_GOOD_OLD_FIRST_INO \<le> i"
  shows "\<exists>e'. update_bitmap CHR ''i'' (TO_NUMBER i) False e = Inr e' \<and> reduced I X B (insert i J) d e'"
proof -
  note L = reduced_layout [OF r]
  obtain e' where e': "update_bitmap CHR ''i'' (TO_NUMBER i) False e = Inr e'" "fs_ok e'" "free_inodes e' = insert i (free_inodes e)"
    "free_blocks e' = free_blocks e" "\<forall>a. a < EXT2_BLOCK_SIZE \<or> table_addr e \<le> a \<longrightarrow> e' a = e a" "table_addr e' = table_addr e"
    "inode_count e' = inode_count e" "block_count e' = block_count e"
    using release_inode [OF reduced_fs [OF r], of i] i L(2) by auto
  have "get 4 y e' = (get 4 y e :: u32)" if "y \<in> X" for y
    by (rule get_cong) (use e'(5) reduced_cleared [OF r that] L(1) in simp)
  then have "reduced I X B (insert i J) d e'" using r e'(2-8) L unfolding reduced_def by simp
  then show ?thesis using e'(1) by blast
qed

section \<open>Directories while entries are removed\<close>

text \<open>
  The entries to be cleared lie outside the blocks of the directory, or are entries of it.
\<close>

definition dir_safe :: "disk \<Rightarrow> nat set \<Rightarrow> nat \<Rightarrow> nat list list \<Rightarrow> bool" where
  "dir_safe d X k ess \<longleftrightarrow> k < inode_count d \<and> dir_ok d (inode_at d k) ess \<and> distinct (dir_blocks d (inode_at d k)) \<and>
     (\<forall>b \<in> set (dir_blocks d (inode_at d k)). table_end d \<le> block_start b \<and>
        (\<forall>y \<in> X. y \<in> set (concat ess) \<or> y + 4 \<le> block_start b \<or> block_start b + EXT2_BLOCK_SIZE \<le> y))"

lemma dir_safe_mono: "dir_safe d X k ess \<Longrightarrow> Y \<subseteq> X \<Longrightarrow> dir_safe d Y k ess"
  by (auto simp: dir_safe_def)

text \<open>Two entries of a directory do not overlap.\<close>

lemma chain_apart:
  assumes "chain_to d p es q" and "y \<in> set es" "z \<in> set es" "y < z"
  shows "y + e_rec_len d y \<le> z"
proof -
  obtain xs ys where e: "es = xs @ y # ys" using assms(2) by (meson split_list)
  then obtain r where r: "chain_to d p xs r" "chain_to d r (y # ys) q" using assms(1) by (auto simp: entries_append)
  then have y: "r = y" "chain_to d (y + e_rec_len d y) ys q" by auto
  have "z \<in> set ys"
  proof (rule ccontr)
    assume "z \<notin> set ys"
    then have "z \<in> set xs" using assms(3,4) e by auto
    then show False using chain_in(2) [OF r(1)] y(1) assms(4) by fastforce
  qed
  then show ?thesis using chain_in(1) [OF y(2)] by simp
qed

lemma entries_apart:
  assumes o: "dir_ok d P ess" "distinct (dir_blocks d P)" and y: "y \<in> set (concat ess)" "z \<in> set (concat ess)" "y \<noteq> z"
  shows "y + e_rec_len d y \<le> z \<or> z + e_rec_len d z \<le> y"
proof -
  let ?bs = "dir_blocks d P"
  have on: "list_all2 (\<lambda>b es. dir_block d (block_start b) es) ?bs ess" using o(1) by (simp add: dir_ok_def)
  obtain i j where i: "i < length ess" "y \<in> set (ess ! i)" and j: "j < length ess" "z \<in> set (ess ! j)"
  proof -
    obtain es es' where "es \<in> set ess" "y \<in> set es" "es' \<in> set ess" "z \<in> set es'" using y(1,2) by auto
    then show ?thesis using that by (metis in_set_conv_nth)
  qed
  have c: "chain_to d (block_start (?bs ! n)) (ess ! n) (block_start (?bs ! n) + EXT2_BLOCK_SIZE)" if "n < length ess" for n
    using on that by (simp add: list_all2_conv_all_nth dir_block_def)
  show ?thesis
  proof (cases "i = j")
    case True
    then show ?thesis using chain_apart [OF c [OF i(1)]] i(2) j(2) y(3) by (meson linorder_neqE_nat)
  next
    case False
    have "length ?bs = length ess" using on by (simp add: list_all2_lengthD)
    then have "?bs ! i \<noteq> ?bs ! j" using o(2) i(1) j(1) False by (simp add: nth_eq_iff_index_eq)
    then show ?thesis
      using block_start_apart chain_in(1,2) [OF c [OF i(1)] i(2)] chain_in(1,2) [OF c [OF j(1)] j(2)]
      by (meson order_trans)
  qed
qed

lemma entry_bytes:
  assumes s: "dir_safe d X k ess" and z: "z \<in> set (concat ess)" and x: "z \<le> x" "x < z + e_rec_len d z" "z \<notin> X \<or> z + 4 \<le> x"
  shows "off_entries X x" "table_end d \<le> x"
proof -
  have o: "dir_ok d (inode_at d k) ess" "distinct (dir_blocks d (inode_at d k))" using s by (simp_all add: dir_safe_def)
  obtain b where b: "b \<in> set (dir_blocks d (inode_at d k))" "block_start b \<le> z" "z + e_rec_len d z \<le> block_start b + EXT2_BLOCK_SIZE"
    using entry_in_dir [OF o(1) z] by blast
  show "table_end d \<le> x" using s b x(1) by (fastforce simp: dir_safe_def)
  have "x < y \<or> y + 4 \<le> x" if y: "y \<in> X" for y
  proof (cases "y \<in> set (concat ess)")
    case True
    show ?thesis
    proof (cases "y = z")
      case False
      have "8 \<le> e_rec_len d y"
        using entry_bound(1) [OF o(1) True] entry_size_bounds(3) [of "e_name_len d y"] by (simp add: entry_fits_def)
      then show ?thesis using entries_apart [OF o True z False] x(1,2) by linarith
    qed (use x y in auto)
  next
    case False
    then have "y + 4 \<le> block_start b \<or> block_start b + EXT2_BLOCK_SIZE \<le> y" using s b(1) y by (auto simp: dir_safe_def)
    then show ?thesis using b x by linarith
  qed
  then show "off_entries X x" by (simp add: off_entries_def)
qed

text \<open>The entries of the directory under the reduced image.\<close>

lemma reduced_entry:
  assumes r: "reduced I X B J d e" and s: "dir_safe d XX k ess" and X: "X \<subseteq> XX" and z: "z \<in> set (concat ess)"
  shows "e_rec_len e z = e_rec_len d z" "e_name_len e z = e_name_len d z" "e_name e z = e_name d z" "e_file_type e z = e_file_type d z"
    "e_inode e z = (if z \<in> X then 0 else e_inode d z)"
proof -
  note s' = dir_safe_mono [OF s X]
  have b: "e x = d x" if "z \<le> x" "x < z + e_rec_len d z" "z \<notin> X \<or> z + 4 \<le> x" for x
    by (rule reduced_behind [OF r]) (use entry_bytes [OF s' z that] in auto)
  have f: "8 + unat (e_name_len d z) \<le> e_rec_len d z"
    using s' entry_bound(3) [OF _ z] by (auto simp: dir_safe_def)
  show n: "e_name_len e z = e_name_len d z" using f by (simp add: e_name_len_def de_name_len_def b)
  show "e_file_type e z = e_file_type d z" using f by (simp add: e_file_type_def de_file_type_def b)
  have "get 2 (de_rec_len z) e = (get 2 (de_rec_len z) d :: u16)"
    by (rule get_cong) (use f in \<open>auto intro!: b simp: de_rec_len_def\<close>)
  then show "e_rec_len e z = e_rec_len d z" by (simp add: e_rec_len_def)
  show "e_name e z = e_name d z"
    unfolding e_name_def n bytes_def by (rule map_cong [OF refl]) (use f in \<open>auto intro!: b simp: de_name_def\<close>)
  show "e_inode e z = (if z \<in> X then 0 else e_inode d z)"
  proof (cases "z \<in> X")
    case True
    then show ?thesis using reduced_cleared [OF r] by (simp add: e_inode_def de_inode_def)
  next
    case False
    have "get 4 z e = (get 4 z d :: u32)" by (rule get_cong) (use f False in \<open>auto intro!: b\<close>)
    then show ?thesis using False by (simp add: e_inode_def de_inode_def)
  qed
qed

lemma chain_same:
  "chain_to d p es q \<Longrightarrow> (\<And>z. z \<in> set es \<Longrightarrow> e_rec_len e z = e_rec_len d z \<and> e_name_len e z = e_name_len d z) \<Longrightarrow> chain_to e p es q"
  by (induction es arbitrary: p) (auto simp: entry_fits_def)

lemma reduced_dir:
  assumes r: "reduced I X B J d e" and s: "dir_safe d XX k ess" and X: "X \<subseteq> XX"
  shows "dir_ok e (inode_at d k) ess" "dir_blocks e (inode_at d k) = dir_blocks d (inode_at d k)"
proof -
  have o: "dir_ok d (inode_at d k) ess" and k: "k < inode_count d" using s by (simp_all add: dir_safe_def)
  show b: "dir_blocks e (inode_at d k) = dir_blocks d (inode_at d k)"
    by (rule dir_blocks_cong) (rule reduced_pointers [OF r k])
  have "dir_block e p es" if "dir_block d p es" "es \<in> set ess" for p es
    using that reduced_entry(1,2) [OF r s X] unfolding dir_block_def by (auto intro: chain_same)
  then show "dir_ok e (inode_at d k) ess"
    using o unfolding dir_ok_def b list_all2_conv_all_nth by auto
qed

text \<open>A name that is not cleared is found as before.\<close>

lemma find_weaker: "find P xs = Some a \<Longrightarrow> Q a \<Longrightarrow> (\<And>x. x \<in> set xs \<Longrightarrow> Q x \<Longrightarrow> P x) \<Longrightarrow> find Q xs = Some a"
  by (induction xs) (auto split: if_splits)

lemma reduced_find:
  assumes r: "reduced I X B J d e" and s: "dir_safe d XX k ess" and X: "X \<subseteq> XX"
    and f: "find (names d c) (concat ess) = Some a" "a \<notin> X"
  shows "find (names e c) (concat ess) = Some a" "e_inode e a = e_inode d a" "a + 8 \<le> DISK_SIZE"
proof -
  note E = reduced_entry [OF r s X] and a = find_in_set [OF f(1)]
  show "find (names e c) (concat ess) = Some a"
    by (rule find_weaker [OF f(1)]) (use E a f(2) in \<open>auto simp: names_def split: if_splits\<close>)
  show "e_inode e a = e_inode d a" using E(5) a f(2) by simp
  show "a + 8 \<le> DISK_SIZE" using s a entry_bound(2,3) [of d "inode_at d k" ess a] by (auto simp: dir_safe_def)
qed

section \<open>Paths while entries are removed\<close>

text \<open>From directory \<open>k\<close> the components lead through the entries \<open>as\<close> to the directory \<open>k'\<close>.\<close>

inductive trail :: "disk \<Rightarrow> nat set \<Rightarrow> nat \<Rightarrow> cstring list \<Rightarrow> nat list \<Rightarrow> nat \<Rightarrow> bool" for d XX where
  start: "trail d XX k [] [] k"
| step: "\<lbrakk>dir_safe d XX k ess; find (names d c) (concat ess) = Some a; e_inode d a = TO_NUMBER k1; k1 < inode_count d;
    trail d XX k1 cs as k2\<rbrakk> \<Longrightarrow> trail d XX k (c # cs) (a # as) k2"

inductive_cases trail_NilE: "trail d XX k [] as k2"

lemma trail_snoc:
  assumes "trail d XX k cs as k1" and "dir_safe d XX k1 ess" "find (names d c) (concat ess) = Some a"
    "e_inode d a = TO_NUMBER k2" "k2 < inode_count d"
  shows "trail d XX k (cs @ [c]) (as @ [a]) k2"
  using assms by (induction rule: trail.induct) (auto intro: trail.intros)

lemma trail_last:
  assumes t: "trail d XX k cs as k2" and r: "reduced I X B J d e" and X: "X \<subseteq> XX"
  shows "set as \<inter> X = {} \<Longrightarrow> cs \<noteq> [] \<Longrightarrow>
    as \<noteq> [] \<and> leads_to e (inode_at d k) cs (last as) \<and> e_inode e (last as) = TO_NUMBER k2 \<and> last as + 4 \<le> DISK_SIZE"
  using t
proof (induction rule: trail.induct)
  case (step k ess c a k1 cs as k2)
  note F = reduced_find [OF r step.hyps(1) X step.hyps(2)] and D = reduced_dir(1) [OF r step.hyps(1) X]
  have a: "a \<notin> X" using step.prems by auto
  then have e1: "e_inode e a = TO_NUMBER k1" and 4: "a + 4 \<le> DISK_SIZE" using F(2,3) step.hyps(3) by simp_all
  show ?case
  proof (cases "cs = []")
    case True
    then have "k1 = k2" "as = []" using step.hyps(5) trail_NilE by blast+
    then show ?thesis using True leads_to.here [OF D F(1) [OF a] 4] e1 4 by simp
  next
    case False
    then have I: "as \<noteq> []" "leads_to e (inode_at d k1) cs (last as)" "e_inode e (last as) = TO_NUMBER k2" "last as + 4 \<le> DISK_SIZE"
      using step.IH step.prems by auto
    have "k1 < BITS" using step.hyps(4) fs_okD(4) [OF reduced_fs [OF r]] reduced_layout(2) [OF r] by simp
    then have "inode_ptr (e_inode e a) e = Inr (inode_at d k1)"
      using inode_ptr_at [OF reduced_fs [OF r]] e1 reduced_layout(5) [OF r] by simp
    then show ?thesis using leads_to.below [OF D F(1) [OF a] 4 _ I(2)] I by simp
  qed
qed simp

lemma trail_parent:
  assumes t: "trail d XX 1 cs as k" and r: "reduced I X B J d e" and X: "X \<subseteq> XX" "set as \<inter> X = {}"
    and E: "slack E" and cs: "\<forall>c \<in> set cs. component c" "component nm" "length (join_path cs) < 2 ^ 31"
  shows "find_parent_inode E (join_path (cs @ [nm])) e = Inr (TO_NUMBER k)"
proof (rule parent_found [OF reduced_fs [OF r] E cs])
  show "k = 1" if "cs = []" using t that trail_NilE by blast
  show "\<exists>x. leads_to e (inode_at e 1) cs x \<and> e_inode e x = TO_NUMBER k \<and> x + 4 \<le> DISK_SIZE" if "cs \<noteq> []"
    using trail_last [OF t r X(1,2) that] reduced_layout(5) [OF r] by (intro exI [of _ "last as"]) simp
qed

end
