(* ===== verification/Ext2_Tree.thy ===== *)
theory Ext2_Tree
  imports Ext2_Reduce
begin

text \<open>
  \<open>ext2_rm -r\<close>: the entries below a directory as a tree, and the run of the recursion over
  it, which clears every entry and frees the inodes and blocks of everything removed.
\<close>

section \<open>One entry\<close>

text \<open>A directory whose first block keeps two entries in use: no block of it is given up.\<close>

definition dir_ready :: "disk \<Rightarrow> nat set \<Rightarrow> nat \<Rightarrow> nat list list \<Rightarrow> bool" where
  "dir_ready d XX k ess \<longleftrightarrow> dir_safe d XX k ess \<and> ess \<noteq> [] \<and> 2 \<le> length (filter (\<lambda>z. \<not> unused d z \<and> z \<notin> XX) (hd ess))"

lemma filter_mono: "(\<And>x. x \<in> set xs \<Longrightarrow> P x \<Longrightarrow> Q x) \<Longrightarrow> length (filter P xs) \<le> length (filter Q xs)"
  by (induction xs) auto

lemma reduced_parent_block:
  assumes r: "reduced I X B J d e" and s: "dir_ready d XX k ess" and X: "X \<subseteq> XX" and a: "a \<in> set (concat ess)"
  shows "\<exists>ix. locate_dir_entry_in_block (inode_at d k) a e = Inr ix \<and> update_parent_inode_block (inode_at d k) ix e = Inr e"
proof -
  have s': "dir_safe d XX k ess" using s by (simp add: dir_ready_def)
  obtain es ess' where ess: "ess = es # ess'" using s by (cases ess) (auto simp: dir_ready_def)
  note D = reduced_dir(1) [OF r s' X] and en = reduced_entry [OF r s' X]
  have "2 \<le> length (filter (\<lambda>z. \<not> unused d z \<and> z \<notin> XX) es)" using s ess by (simp add: dir_ready_def)
  also have "\<dots> \<le> length (filter (\<lambda>z. \<not> unused e z) es)"
    by (rule filter_mono) (use en(5) X ess in \<open>auto simp: unused_def\<close>)
  finally have "bindE (locate_dir_entry_in_block (inode_at d k) a e) (\<lambda>i. update_parent_inode_block (inode_at d k) i e) = Inr e"
    by (rule parent_block_kept [OF D [unfolded ess] entry_bound(1,2) [OF D a]])
  then show ?thesis by (auto simp: bindE_Inr_iff)
qed

lemma entry_away:
  assumes s: "dir_safe d XX k ess" and X: "X \<subseteq> XX" and a: "a \<in> set (concat ess)" "a \<notin> X"
  shows "table_end d \<le> a" "\<forall>z \<in> X. z + 4 \<le> a \<or> a + 4 \<le> z" "a + 8 \<le> DISK_SIZE"
proof -
  have o: "dir_ok d (inode_at d k) ess" using s by (simp add: dir_safe_def)
  have l: "8 \<le> e_rec_len d a" using entry_bound(3) [OF o a(1)] by simp
  note b = entry_bytes [OF dir_safe_mono [OF s X] a(1)]
  show "table_end d \<le> a" using b(2) [of a] l a(2) by simp
  show "a + 8 \<le> DISK_SIZE" using entry_bound(2) [OF o a(1)] l by linarith
  have "z + 4 \<le> a \<or> a + 4 \<le> z" if z: "z \<in> X" for z
  proof -
    have "\<forall>x \<in> {a, a + 3}. x < z \<or> z + 4 \<le> x" using b(1) [of a] b(1) [of "a + 3"] l a(2) z by (auto simp: off_entries_def)
    moreover have "\<forall>x \<in> {a + 1, a + 2}. x < z \<or> z + 4 \<le> x" using b(1) [of "a + 1"] b(1) [of "a + 2"] l a(2) z by (auto simp: off_entries_def)
    ultimately show ?thesis by auto
  qed
  then show "\<forall>z \<in> X. z + 4 \<le> a \<or> a + 4 \<le> z" by blast
qed

lemma reduced_clear_entry:
  assumes r: "reduced I X B J d e" and s: "dir_safe d XX k ess" and X: "X \<subseteq> XX" and a: "a \<in> set (concat ess)" "a \<notin> X"
  shows "\<exists>e'. st32 (de_inode a) 0 e = Inr e' \<and> reduced I (insert a X) B J d e'"
  using reduced_clear [OF r entry_away(1,2) [OF s X a]] entry_away(3) [OF s X a] by (simp add: store_def de_inode_def)

text \<open>Reading the inode number of an entry, and the inode behind it.\<close>

lemma reduced_number:
  assumes r: "reduced I X B J d e" and s: "dir_safe d XX k ess" and X: "X \<subseteq> XX" and a: "a \<in> set (concat ess)" "a \<notin> X"
    and i: "e_inode d a = TO_NUMBER i"
  shows "ld32 (de_inode a) e = Inr (TO_NUMBER i)"
  using reduced_entry(5) [OF r s X a(1)] entry_away(3) [OF s X a] a(2) i by (simp add: e_inode_def de_inode_def load_def)

lemma reduced_inode_ptr:
  assumes r: "reduced I X B J d e" and i: "i < inode_count d"
  shows "inode_ptr (TO_NUMBER i) e = Inr (inode_at d i)"
proof -
  have "i < BITS" using i fs_okD(4) [OF reduced_fs [OF r]] reduced_layout(2) [OF r] by simp
  then show ?thesis using inode_ptr_at [OF reduced_fs [OF r]] reduced_layout(5) [OF r] by simp
qed

text \<open>The place of an entry: its directory, the path of that directory, its name.\<close>

definition placed :: "disk \<Rightarrow> nat set \<Rightarrow> fs_env \<Rightarrow> nat \<Rightarrow> cstring list \<Rightarrow> nat list \<Rightarrow> nat list list \<Rightarrow> nat \<Rightarrow> cstring \<Rightarrow> bool" where
  "placed d XX E k cs as ess a nm \<longleftrightarrow> trail d XX 1 cs as k \<and> dir_ready d XX k ess \<and> a \<in> set (concat ess) \<and> slack E \<and>
     (\<forall>c \<in> set cs. component c) \<and> component nm \<and> length (join_path cs) < 2 ^ 31"

lemma drop_entry_reduced:
  assumes p: "placed d XX E k cs as ess a nm" and r: "reduced I X B J d e" and X: "X \<subseteq> XX" "set as \<inter> X = {}" "a \<notin> X"
  shows "\<exists>e'. drop_entry E a (join_path (cs @ [nm])) e = Inr e' \<and> reduced I (insert a X) B J d e'"
proof -
  have t: "trail d XX 1 cs as k" and s: "dir_ready d XX k ess" and a: "a \<in> set (concat ess)" and E: "slack E"
    and cs: "\<forall>c \<in> set cs. component c" "component nm" "length (join_path cs) < 2 ^ 31"
    using p by (simp_all add: placed_def)
  have s': "dir_safe d XX k ess" and k: "k < inode_count d" using s by (simp_all add: dir_ready_def dir_safe_def)
  note 1 = trail_parent [OF t r X(1,2) E cs] reduced_inode_ptr [OF r k]
  obtain ix where 2: "locate_dir_entry_in_block (inode_at d k) a e = Inr ix" "update_parent_inode_block (inode_at d k) ix e = Inr e"
    using reduced_parent_block [OF r s X(1) a] by blast
  obtain e' where "st32 (de_inode a) 0 e = Inr e'" "reduced I (insert a X) B J d e'"
    using reduced_clear_entry [OF r s' X(1) a X(3)] by blast
  then show ?thesis using 1 2 by (simp add: drop_entry_def)
qed

section \<open>One file\<close>

lemma reduced_add_links:
  assumes r: "reduced I X B J d e" and i: "i < inode_count d"
  shows "\<exists>e'. add16 (i_links_count (inode_at d i)) w e = Inr e' \<and> reduced (insert i I) X B J d e' \<and>
    get 2 (i_links_count (inode_at d i)) e' = get 2 (i_links_count (inode_at d i)) e + w"
proof -
  let ?l = "i_links_count (inode_at d i)"
  let ?e = "put ?l (store_le 2 (get 2 ?l e + w)) e"
  have "?l + 2 \<le> DISK_SIZE"
    using inode_in_table [OF i] fs_okD(7) [OF reduced_fs [OF r]] reduced_layout(4) [OF r] by (simp add: i_links_count_def INODE_SIZE_def)
  moreover have "reduced (insert i I) X B J d ?e"
    by (rule reduced_head_step [OF r i]) (auto simp: in_head_def i_links_count_def i_block_def put_outside)
  ultimately show ?thesis by (intro exI [of _ ?e]) (simp add: add16_def get_put_same)
qed

lemma reduced_end_times:
  assumes r: "reduced I X B J d e" and i: "i < inode_count d"
  shows "\<exists>e'. seqE [st32 (i_dtime (inode_at d i)) t, st32 (i_size (inode_at d i)) 0] e = Inr e' \<and> reduced (insert i I) X B J d e'"
proof -
  let ?P = "inode_at d i"
  let ?e = "put (i_size ?P) (store_le 4 (0 :: u32)) (put (i_dtime ?P) (store_le 4 t) e)"
  have "?P + INODE_SIZE \<le> DISK_SIZE"
    using inode_in_table [OF i] fs_okD(7) [OF reduced_fs [OF r]] reduced_layout(4) [OF r] by simp
  then have "seqE [st32 (i_dtime ?P) t, st32 (i_size ?P) 0] e = Inr ?e"
    by (simp add: store_def i_dtime_def i_size_def INODE_SIZE_def)
  moreover have "reduced (insert i I) X B J d ?e"
    by (rule reduced_head_step [OF r i]) (auto simp: in_head_def i_size_def i_dtime_def i_block_def put_outside)
  ultimately show ?thesis by blast
qed

text \<open>No entry to be cleared lies in a block of the file.\<close>

definition file_apart :: "disk \<Rightarrow> nat set \<Rightarrow> nat \<Rightarrow> bool" where
  "file_apart d XX inode \<longleftrightarrow>
    (\<forall>b \<in> file_numbers d inode. b \<noteq> 0 \<longrightarrow> (\<forall>y \<in> XX. y + 4 \<le> block_start b \<or> block_start b + EXT2_BLOCK_SIZE \<le> y))"

lemma reduced_file:
  assumes r: "reduced I X B J d e" and i: "i < inode_count d" and w: "whole_file d (inode_at d i)"
    and X: "X \<subseteq> XX" "file_apart d XX (inode_at d i)"
  shows "file_numbers e (inode_at d i) = file_numbers d (inode_at d i)" "whole_file e (inode_at d i)"
proof -
  let ?P = "inode_at d i"
  note ptr = reduced_pointers [OF r i]
  show fn: "file_numbers e ?P = file_numbers d ?P"
  proof (rule file_numbers_cong [OF ptr])
    fix b assume b: "b \<in> file_numbers d ?P" "b \<noteq> 0"
    have t: "table_end d \<le> block_start b" using w b by (auto simp: whole_file_def freeable_def)
    have "e x = d x" if "block_start b \<le> x" "x < block_start b + EXT2_BLOCK_SIZE" for x
    proof (rule reduced_behind [OF r])
      show "off_entries X x" using X b that unfolding off_entries_def file_apart_def by fastforce
    qed (use t that in simp)
    moreover have "block_ptr b = block_start b"
      using w b block_ptr_unat [of b] by (auto simp: whole_file_def freeable_def)
    ultimately show "pointers e (block_ptr b) = pointers d (block_ptr b)"
      unfolding pointers_def by (intro image_cong refl get_cong) (auto simp: NUM_OF_PTRS_IN_BLOCK_def EXT2_BLOCK_SIZE_def)
  qed
  have g: "get 4 (i_block ?P j) e = (get 4 (i_block ?P j) d :: u32)" if "j < 15" for j
    by (intro get_cong ptr) (use that in \<open>auto simp: i_block_def\<close>)
  have boot: "boot_empty e" if "boot_empty d"
    unfolding boot_empty_def
  proof (intro allI impI)
    fix x assume x: "x < EXT2_BLOCK_SIZE"
    have t: "EXT2_BLOCK_SIZE \<le> table_addr d"
      using fs_okD(6) [OF reduced_fs [OF r]] reduced_layout(1) [OF r] by (simp add: EXT2_BLOCK_SIZE_def)
    have "e x = d x"
    proof (rule reduced_byte [OF r])
      show "off_entries X x" by (rule off_table [OF r]) (use x t in \<open>simp add: table_end_def\<close>)
      show "\<not> in_head d j x" if "j \<in> I" for j
      proof -
        have "j < inode_count d" using r that by (simp add: reduced_def)
        then show ?thesis using head_range x t by (meson leD less_le_trans)
      qed
    qed (use x in simp)
    then show "e x = 0" using that x by (simp add: boot_empty_def)
  qed
  show "whole_file e ?P"
    using w g [of DBLE_INDIRECT_BLOCK] g [of TPLE_INDIRECT_BLOCK] boot reduced_layout(6) [OF r] unfolding whole_file_def fn
    by (simp add: DBLE_INDIRECT_BLOCK_def TPLE_INDIRECT_BLOCK_def)
qed

lemma reduced_released:
  assumes r: "reduced I X B J d e" and f: "released N e e'"
  shows "reduced I X (B \<union> N) J d e'"
proof -
  note L = reduced_layout [OF r]
  have "get 4 y e' = (get 4 y e :: u32)" if "y \<in> X" for y
    by (rule released_get [OF f]) (use reduced_cleared [OF r that] L(1) in simp)
  then show ?thesis using r f L unfolding reduced_def released_def by auto
qed

text \<open>A file is removed with its last name; otherwise its link count is lowered.\<close>

definition last_link :: "disk \<Rightarrow> nat \<Rightarrow> bool" where
  "last_link d i \<longleftrightarrow> get 2 (i_links_count (inode_at d i)) d = (1 :: u16)"

definition file_ready :: "disk \<Rightarrow> nat set \<Rightarrow> nat \<Rightarrow> bool" where
  "file_ready d XX i \<longleftrightarrow> i < inode_count d \<and> get 2 (i_links_count (inode_at d i)) d \<noteq> (0 :: u16) \<and>
    (last_link d i \<longrightarrow> EXT2_GOOD_OLD_FIRST_INO \<le> i \<and> whole_file d (inode_at d i) \<and> file_apart d XX (inode_at d i))"

definition file_blocks :: "disk \<Rightarrow> nat \<Rightarrow> u32 set" where
  "file_blocks d i = (if last_link d i then file_numbers d (inode_at d i) else {})"

lemma release_file_reduced:
  assumes r: "reduced I X B J d e" and f: "file_ready d XX i" "last_link d i" and X: "X \<subseteq> XX"
    and s: "dir_safe d XX k ess" "a \<in> set (concat ess)" "a \<notin> X" "e_inode d a = TO_NUMBER i"
  shows "\<exists>e'. release_file E (inode_at d i) a e = Inr e' \<and>
    reduced (insert i I) X (B \<union> file_numbers d (inode_at d i)) (insert i J) d e'"
proof -
  let ?P = "inode_at d i" and ?N = "file_numbers d (inode_at d i)"
  have i: "i < inode_count d" "EXT2_GOOD_OLD_FIRST_INO \<le> i" "whole_file d ?P" "file_apart d XX ?P"
    using f by (auto simp: file_ready_def)
  note F = reduced_file [OF r i(1,3) X i(4)]
  have "\<exists>e1. free_all_blocks_of_inode ?P e = Inr e1 \<and> released ?N e e1"
    using free_all_run [OF reduced_fs [OF r], of i] i(1) F(2) reduced_layout(2,5) [OF r] F(1) by (auto simp: whole_file_def)
  then obtain e1 where e1: "free_all_blocks_of_inode ?P e = Inr e1" "reduced I X (B \<union> ?N) J d e1"
    using reduced_released [OF r] by blast
  note n = reduced_number [OF e1(2) s(1) X s(2-4)]
  obtain e2 where e2: "update_bitmap CHR ''i'' (TO_NUMBER i) False e1 = Inr e2" "reduced I X (B \<union> ?N) (insert i J) d e2"
    using reduced_release_inode [OF e1(2) i(1,2)] by blast
  obtain e3 where "seqE [st32 (i_dtime ?P) (now E), st32 (i_size ?P) 0] e2 = Inr e3" "reduced (insert i I) X (B \<union> ?N) (insert i J) d e3"
    using reduced_end_times [OF e2(2) i(1)] by blast
  then show ?thesis unfolding release_file_def e1(1) bindE_Inr n e2(1) by blast
qed

lemma remove_file_reduced:
  assumes p: "placed d XX E k cs as ess a nm" and f: "file_ready d XX i" "e_inode d a = TO_NUMBER i" "i \<notin> I"
    and r: "reduced I X B J d e" and X: "X \<subseteq> XX" "set as \<inter> X = {}" "a \<notin> X"
  shows "\<exists>e'. remove_file E a (join_path (cs @ [nm])) e = Inr e' \<and>
    reduced (insert i I) (insert a X) (B \<union> file_blocks d i) (if last_link d i then insert i J else J) d e'"
proof -
  let ?P = "inode_at d i"
  let ?l = "i_links_count ?P"
  have s: "dir_safe d XX k ess" and a: "a \<in> set (concat ess)" using p by (simp_all add: placed_def dir_ready_def)
  have i: "i < inode_count d" using f(1) by (simp add: file_ready_def)
  note n = reduced_number [OF r s X(1) a X(3) f(2)] reduced_inode_ptr [OF r i]
  obtain e1 where e1: "add16 ?l (-1) e = Inr e1" "reduced (insert i I) X B J d e1" "get 2 ?l e1 = get 2 ?l e + (-1 :: u16)"
    using reduced_add_links [OF r i] by blast
  have "get 2 ?l e = (get 2 ?l d :: u16)"
    by (rule get_cong, rule reduced_head [OF r i f(3)]) (auto simp: i_links_count_def INODE_SIZE_def)
  then have z: "get 2 ?l e1 = (0 :: u16) \<longleftrightarrow> last_link d i" using e1(3) by (simp add: last_link_def)
  have ld: "ld16 ?l e1 = Inr (get 2 ?l e1)"
    using inode_in_table [OF i] fs_okD(7) [OF reduced_fs [OF r]] reduced_layout(4) [OF r]
    by (simp add: load_def i_links_count_def INODE_SIZE_def)
  let ?B = "B \<union> file_blocks d i" and ?J = "if last_link d i then insert i J else J"
  have "\<exists>e2. (if get 2 ?l e1 = (0 :: u16) then release_file E ?P a e1 else Inr e1) = Inr e2 \<and> reduced (insert i I) X ?B ?J d e2"
    using e1(2) release_file_reduced [OF e1(2) f(1) _ X(1) s a X(3) f(2), of E]
    unfolding z file_blocks_def by (simp add: insert_absorb)
  then obtain e2 where e2: "(if get 2 ?l e1 = (0 :: u16) then release_file E ?P a e1 else Inr e1) = Inr e2" "reduced (insert i I) X ?B ?J d e2"
    by blast
  obtain e3 where "drop_entry E a (join_path (cs @ [nm])) e2 = Inr e3" "reduced (insert i I) (insert a X) ?B ?J d e3"
    using drop_entry_reduced [OF p e2(2) X] by blast
  then show ?thesis unfolding remove_file_def n bindE_Inr e1(1) ld e2(1) by blast
qed

section \<open>An emptied directory\<close>

text \<open>The block numbers of a directory, and 0.\<close>

definition dir_numbers :: "disk \<Rightarrow> nat \<Rightarrow> u32 set" where
  "dir_numbers d inode = inode_block d inode ` {..< TOTAL_BLOCK_COUNT}"

lemma free_pointers_reduced:
  assumes r: "reduced I X B J d e" and i: "i < inode_count d" and f: "\<forall>b \<in> dir_numbers d (inode_at d i). freeable d b"
  shows "\<exists>e'. forE (\<lambda>j. free_block_at (i_block (inode_at d i) j)) [0 ..< TOTAL_BLOCK_COUNT] e = Inr e' \<and>
    reduced I X (B \<union> dir_numbers d (inode_at d i)) J d e'"
proof -
  let ?P = "inode_at d i"
  have "\<exists>e'. forE (\<lambda>j. free_block_at (i_block ?P j)) [0 ..< TOTAL_BLOCK_COUNT] e = Inr e' \<and>
      reduced I X (B \<union> inode_block d ?P ` {..< TOTAL_BLOCK_COUNT}) J d e'"
  proof (rule forE_invariant)
    fix j e assume j: "j < TOTAL_BLOCK_COUNT" and e: "reduced I X (B \<union> inode_block d ?P ` {..< j}) J d e"
    have t: "i_block ?P j + 4 \<le> DISK_SIZE"
      using inode_in_table [OF i] fs_okD(7) [OF reduced_fs [OF r]] reduced_layout(4) [OF r] j
      by (simp add: i_block_def INODE_SIZE_def TOTAL_BLOCK_COUNT_def)
    have "get 4 (i_block ?P j) e = (get 4 (i_block ?P j) d :: u32)"
      by (rule get_cong, rule reduced_pointers [OF e i]) (use j in \<open>auto simp: i_block_def TOTAL_BLOCK_COUNT_def\<close>)
    then have ld: "ld32 (i_block ?P j) e = Inr (inode_block d ?P j)" using t by (simp add: load_def inode_block_def)
    have "freeable d (inode_block d ?P j)" using f j by (simp add: dir_numbers_def)
    from reduced_release_block [OF e this]
    show "\<exists>e'. free_block_at (i_block ?P j) e = Inr e' \<and> reduced I X (B \<union> inode_block d ?P ` {..< Suc j}) J d e'"
      using ld by (simp add: free_block_at_def lessThan_Suc)
  qed (use r in simp)
  then show ?thesis by (simp add: dir_numbers_def)
qed

lemma remove_empty_directory_reduced:
  assumes p: "placed d XX E k cs as ess a nm" and f: "e_inode d a = TO_NUMBER i" "i < inode_count d" "EXT2_GOOD_OLD_FIRST_INO \<le> i"
      "\<forall>b \<in> dir_numbers d (inode_at d i). freeable d b"
    and r: "reduced I X B J d e" and X: "X \<subseteq> XX" "set as \<inter> X = {}" "a \<notin> X"
  shows "\<exists>e'. remove_empty_directory E a (join_path (cs @ [nm])) e = Inr e' \<and>
    reduced (insert i (insert k I)) (insert a X) (B \<union> dir_numbers d (inode_at d i)) (insert i J) d e'"
proof -
  let ?P = "inode_at d i" and ?K = "inode_at d k"
  have t: "trail d XX 1 cs as k" and s': "dir_ready d XX k ess" and a: "a \<in> set (concat ess)" and E: "slack E"
    and cs: "\<forall>c \<in> set cs. component c" "component nm" "length (join_path cs) < 2 ^ 31"
    using p by (simp_all add: placed_def)
  have s: "dir_safe d XX k ess" and k: "k < inode_count d" using s' by (simp_all add: dir_ready_def dir_safe_def)
  note 0 = trail_parent [OF t r X(1,2) E cs] reduced_inode_ptr [OF r k]
  obtain ix where ix: "locate_dir_entry_in_block ?K a e = Inr ix" "update_parent_inode_block ?K ix e = Inr e"
    using reduced_parent_block [OF r s' X(1) a] by blast
  obtain e1 where e1: "add16 (i_links_count ?K) (-1) e = Inr e1" "reduced (insert k I) X B J d e1"
    using reduced_add_links [OF r k] by blast
  obtain e2 where e2: "update_bitmap CHR ''i'' (TO_NUMBER i) False e1 = Inr e2" "reduced (insert k I) X B (insert i J) d e2"
    using reduced_release_inode [OF e1(2) f(2,3)] by blast
  note n = reduced_number [OF e1(2) s X(1) a X(3) f(1)] reduced_number [OF e2(2) s X(1) a X(3) f(1)] reduced_inode_ptr [OF e2(2) f(2)]
  obtain e3 where e3: "seqE [st32 (i_dtime ?P) (now E), st32 (i_size ?P) 0] e2 = Inr e3" "reduced (insert i (insert k I)) X B (insert i J) d e3"
    using reduced_end_times [OF e2(2) f(2)] by blast
  obtain e4 where e4: "forE (\<lambda>j. free_block_at (i_block ?P j)) [0 ..< TOTAL_BLOCK_COUNT] e3 = Inr e4"
    "reduced (insert i (insert k I)) X (B \<union> dir_numbers d ?P) (insert i J) d e4"
    using free_pointers_reduced [OF e3(2) f(2,4)] by blast
  obtain e5 where "st32 (de_inode a) 0 e4 = Inr e5" "reduced (insert i (insert k I)) (insert a X) (B \<union> dir_numbers d ?P) (insert i J) d e5"
    using reduced_clear_entry [OF e4(2) s X(1) a X(3)] by blast
  then show ?thesis unfolding remove_empty_directory_def 0 bindE_Inr ix e1(1) n(1) e2(1) n(2,3) e3(1) e4(1) by blast
qed

end
