(* ===== verification/Ext2_Prune.thy ===== *)
theory Ext2_Prune
  imports Ext2_Tree Ext2_Listing
begin

text \<open>
  The run of \<open>ext2_rm -r\<close>: the entries below a directory as a tree of nodes, what is asked
  of the image for each of them, and the induction over the tree.
\<close>

section \<open>Trees of entries\<close>

text \<open>A node has the address of its entry and the index of its inode, a directory also its entries block by block.\<close>

datatype node = Leaf (n_entry: nat) (n_inode: nat) | Branch (n_entry: nat) (n_inode: nat) "nat list list" "node list"

primrec n_entries :: "node \<Rightarrow> nat list" where
  "n_entries (Leaf a i) = [a]"
| "n_entries (Branch a i ess ns) = a # concat (map n_entries ns)"

primrec n_inodes :: "node \<Rightarrow> nat list" where
  "n_inodes (Leaf a i) = [i]"
| "n_inodes (Branch a i ess ns) = i # concat (map n_inodes ns)"

text \<open>The blocks and inodes that become free when the node is removed.\<close>

primrec n_blocks :: "disk \<Rightarrow> node \<Rightarrow> u32 set" where
  "n_blocks d (Leaf a i) = file_blocks d i"
| "n_blocks d (Branch a i ess ns) = dir_numbers d (inode_at d i) \<union> \<Union> (set (map (n_blocks d) ns))"

primrec n_freed :: "disk \<Rightarrow> node \<Rightarrow> nat set" where
  "n_freed d (Leaf a i) = (if last_link d i then {i} else {})"
| "n_freed d (Branch a i ess ns) = insert i (\<Union> (set (map (n_freed d) ns)))"

text \<open>An entry that \<open>check_if_external_entry\<close> accepts.\<close>

definition external :: "disk \<Rightarrow> nat \<Rightarrow> bool" where
  "external d z \<longleftrightarrow> \<not> unused d z \<and> \<not> dot_name (up_to_zero (e_name d z))"

text \<open>\<open>strcat\<close> reads the name of an entry to the next zero byte: one follows inside the entry.\<close>

definition terminated :: "disk \<Rightarrow> nat \<Rightarrow> bool" where
  "terminated d a \<longleftrightarrow> 0 \<notin> set (e_name d a) \<and> 8 + unat (e_name_len d a) < e_rec_len d a \<and> d (de_name a + unat (e_name_len d a)) = 0"

definition name_ready :: "disk \<Rightarrow> nat list list \<Rightarrow> nat \<Rightarrow> bool" where
  "name_ready d ess a \<longleftrightarrow> component (e_name d a) \<and> terminated d a \<and> find (names d (e_name d a)) (concat ess) = Some a"

fun tree_ready :: "disk \<Rightarrow> nat set \<Rightarrow> nat \<Rightarrow> node \<Rightarrow> bool" where
  "tree_ready d XX l (Leaf a i) \<longleftrightarrow> e_file_type d a \<in> {EXT2_FT_REG_FILE, EXT2_FT_SYMLINK} \<and> e_inode d a = TO_NUMBER i \<and> file_ready d XX i"
| "tree_ready d XX l (Branch a i ess ns) \<longleftrightarrow> e_file_type d a \<notin> {EXT2_FT_REG_FILE, EXT2_FT_SYMLINK} \<and> e_inode d a = TO_NUMBER i \<and>
    EXT2_GOOD_OLD_FIRST_INO \<le> i \<and> dir_ready d XX i ess \<and> (\<forall>b \<in> dir_numbers d (inode_at d i). freeable d b) \<and>
    filter (external d) (concat ess) = map n_entry ns \<and>
    (\<forall>c \<in> set ns. name_ready d ess (n_entry c) \<and> l + 1 + length (e_name d (n_entry c)) < PATH_MAX \<and>
      tree_ready d XX (l + 1 + length (e_name d (n_entry c))) c)"

lemma n_entry_in: "n_entry n \<in> set (n_entries n)"
  by (cases n) simp_all

section \<open>The path of an entry\<close>

lemma c_string_run:
  assumes "0 \<notin> set (bytes n a d)" "d (a + n) = 0" "a + n < DISK_SIZE"
  shows "c_string_at a d = Inr (bytes n a d)"
proof -
  have "DISK_SIZE - a = n + (DISK_SIZE - a - n)" using assms(3) by simp
  then have "bytes (DISK_SIZE - a) a d = bytes n a d @ map (\<lambda>i. d (a + i)) [n ..< DISK_SIZE - a]"
    unfolding bytes_def by (metis le_add1 le_iff_add map_append upt_add_eq_append zero_le)
  moreover have "[n ..< DISK_SIZE - a] = n # [Suc n ..< DISK_SIZE - a]" using assms(3) by (intro upt_conv_Cons) simp
  ultimately have "bytes (DISK_SIZE - a) a d = bytes n a d @ 0 # map (\<lambda>i. d (a + i)) [Suc n ..< DISK_SIZE - a]"
    using assms(2) by simp
  moreover have "length (bytes n a d) = n" by (simp add: bytes_def)
  moreover have "takeWhile (\<lambda>c. c \<noteq> 0) (bytes n a d @ 0 # r) = bytes n a d" for r
    using assms(1) by (subst takeWhile_append2) auto
  ultimately show ?thesis using assms(3) by (simp add: c_string_at_def)
qed

lemma entry_path_reduced:
  assumes r: "reduced I X B J d e" and s: "dir_safe d XX k ess" and X: "X \<subseteq> XX" and a: "a \<in> set (concat ess)" and t: "terminated d a"
    and l: "length (join_path cs) + 1 + length (e_name d a) < PATH_MAX"
  shows "entry_path (join_path cs) a e = Inr (join_path (cs @ [e_name d a]))"
proof -
  note en = reduced_entry [OF r s X a]
  let ?n = "unat (e_name_len d a)"
  have f: "8 + ?n < e_rec_len d a" "d (de_name a + ?n) = 0" "0 \<notin> set (e_name d a)" using t by (simp_all add: terminated_def)
  have o: "a + e_rec_len d a \<le> DISK_SIZE" using s a entry_bound(2) [of d "inode_at d k" ess a] by (simp add: dir_safe_def)
  have "e (de_name a + ?n) = d (de_name a + ?n)"
    by (rule reduced_behind [OF r]) (rule entry_bytes [OF dir_safe_mono [OF s X] a], use f(1) in \<open>simp_all add: de_name_def\<close>)+
  then have z: "e (de_name a + ?n) = 0" using f(2) by simp
  have b: "bytes ?n (de_name a) e = e_name d a" using en(2,3) by (simp add: e_name_def)
  have "c_string_at (de_name a) e = Inr (bytes ?n (de_name a) e)"
    by (rule c_string_run) (use b z f o in \<open>simp_all add: de_name_def\<close>)
  then show ?thesis using l by (simp add: entry_path_def b join_path_snoc)
qed

lemma external_run:
  assumes f: "entry_fits d a" "a + e_rec_len d a \<le> DISK_SIZE" and p: "pos < EXT2_BLOCK_SIZE"
  shows "remove_within (Suc k) E path pos a d =
    bindE (if external d a then bindE (entry_path path a d) (\<lambda>q. remove_entry k E a q d) else Inr d)
      (\<lambda>d. bindE (ld16 (de_rec_len a) d) (\<lambda>r. remove_within k E path (pos + unat r) (a + unat r) d))"
proof -
  have "check_if_external_entry a d = Inr (\<not> dot_name (up_to_zero (e_name d a)))"
    using entry_loads [OF f] by (simp add: check_if_external_entry_def dot_name_def up_to_zero_def Let_def)
  then show ?thesis using entry_loads(2) [OF f] p by (simp add: remove_within.simps external_def unused_def)
qed

section \<open>The loops over a directory\<close>

text \<open>The nodes \<open>ns\<close> have been removed from an image reduced by \<open>I X B J\<close>.\<close>

definition pruned :: "nat set \<Rightarrow> nat set \<Rightarrow> u32 set \<Rightarrow> nat set \<Rightarrow> disk \<Rightarrow> node list \<Rightarrow> disk \<Rightarrow> bool" where
  "pruned I X B J d ns e \<longleftrightarrow> reduced (I \<union> set (concat (map n_inodes ns))) (X \<union> set (concat (map n_entries ns)))
     (B \<union> \<Union> (set (map (n_blocks d) ns))) (J \<union> \<Union> (set (map (n_freed d) ns))) d e"

text \<open>Every child can be removed, with fuel \<open>F\<close>, once those before it are gone.\<close>

definition children_go :: "disk \<Rightarrow> fs_env \<Rightarrow> cstring \<Rightarrow> nat set \<Rightarrow> nat set \<Rightarrow> u32 set \<Rightarrow> nat set \<Rightarrow> nat \<Rightarrow> node list \<Rightarrow> bool" where
  "children_go d E path I X B J F ns \<longleftrightarrow> (\<forall>ds c ds' e k. ns = ds @ c # ds' \<longrightarrow> pruned I X B J d ds e \<longrightarrow> F \<le> k \<longrightarrow>
     (\<exists>e'. bindE (entry_path path (n_entry c) e) (\<lambda>p. remove_entry k E (n_entry c) p e) = Inr e' \<and> pruned I X B J d (ds @ [c]) e'))"

definition walk_ready :: "disk \<Rightarrow> nat set \<Rightarrow> nat \<Rightarrow> nat list list \<Rightarrow> nat set \<Rightarrow> node list \<Rightarrow> bool" where
  "walk_ready d XX i ess X ns \<longleftrightarrow> dir_safe d XX i ess \<and> X \<union> set (concat (map n_entries ns)) \<subseteq> XX \<and>
     X \<inter> set (concat (map n_entries ns)) = {} \<and> distinct (concat (map n_entries ns))"

lemma walk_fresh:
  assumes "walk_ready d XX i ess X (ds @ c # ds')"
  shows "n_entry c \<notin> X \<union> set (concat (map n_entries ds))"
  using assms n_entry_in [of c] by (auto simp: walk_ready_def)

lemma pruned_external:
  assumes w: "walk_ready d XX i ess X (ds @ ns @ ds')" and r: "pruned I X B J d ds e" and z: "z \<in> set (concat ess)"
    and x: "external d z \<longrightarrow> (\<exists>c ns'. ns = c # ns' \<and> z = n_entry c)"
  shows "external e z = external d z" "entry_fits e z" "z + e_rec_len e z \<le> DISK_SIZE" "e_rec_len e z = e_rec_len d z"
proof -
  let ?X = "X \<union> set (concat (map n_entries ds))"
  have s: "dir_safe d XX i ess" and X: "?X \<subseteq> XX" using w by (auto simp: walk_ready_def)
  note en = reduced_entry [OF r [unfolded pruned_def] s X z]
  show "entry_fits e z" "z + e_rec_len e z \<le> DISK_SIZE"
    by (rule entry_bound(1,2) [OF reduced_dir(1) [OF r [unfolded pruned_def] s X] z])+
  show "e_rec_len e z = e_rec_len d z" by (rule en(1))
  have "z \<notin> ?X" if "external d z" using x that w walk_fresh by (metis append_Cons)
  then show "external e z = external d z" using en(3,5) by (auto simp: external_def unused_def)
qed

lemma remove_within_chain:
  assumes go: "children_go d E path I X B J F all" and w: "walk_ready d XX i ess X all"
  shows "\<lbrakk>chain_to d p es q; q = b + EXT2_BLOCK_SIZE; b \<le> p; set es \<subseteq> set (concat ess); all = ds @ ns @ ds';
    filter (external d) es = map n_entry ns; pruned I X B J d ds e; length es + F < fuel\<rbrakk> \<Longrightarrow>
    \<exists>e'. remove_within fuel E path (p - b) p e = Inr e' \<and> pruned I X B J d (ds @ ns) e'"
proof (induction es arbitrary: p e ds ns fuel)
  case Nil
  then obtain k where "fuel = Suc k" by (cases fuel) auto
  then show ?case using Nil by (simp add: remove_within.simps)
next
  case (Cons z es)
  obtain k where k: "fuel = Suc k" "length (z # es) + F \<le> k" using Cons.prems(8) by (cases fuel) auto
  have z: "z = p" "entry_fits d p" and rest: "chain_to d (p + e_rec_len d p) es q" using Cons.prems(1) by auto
  have l: "8 \<le> e_rec_len d p" "p + e_rec_len d p \<le> q"
    using z entry_size_bounds(3) [of "e_name_len d p"] chain_mono [OF rest] by (auto simp: entry_fits_def)
  have lt: "p - b < EXT2_BLOCK_SIZE" using l Cons.prems(2,3) by linarith
  have eq: "p + e_rec_len d p - b = p - b + e_rec_len d p" using Cons.prems(3) by simp
  have zin: "p \<in> set (concat ess)" using Cons.prems(4) z(1) by auto
  have first: "external d p \<longrightarrow> (\<exists>c ns'. ns = c # ns' \<and> p = n_entry c)"
    using Cons.prems(6) z(1) by (cases ns) auto
  note P = pruned_external [OF w [unfolded Cons.prems(5)] Cons.prems(7) zin first]
  have ls: "remove_within fuel E path (p - b) p e =
      bindE (if external d p then bindE (entry_path path p e) (\<lambda>q. remove_entry k E p q e) else Inr e)
        (\<lambda>d. bindE (ld16 (de_rec_len p) d) (\<lambda>r. remove_within k E path (p - b + unat r) (p + unat r) d))"
    unfolding k(1) external_run [OF P(2,3) lt] P(1) ..
  have next_: "\<exists>e'. bindE (ld16 (de_rec_len p) e1) (\<lambda>r. remove_within k E path (p - b + unat r) (p + unat r) e1) = Inr e' \<and>
      pruned I X B J d (ds1 @ ns1) e'"
    if e1: "pruned I X B J d ds1 e1" "all = ds1 @ ns1 @ ds'" "filter (external d) es = map n_entry ns1" for e1 ds1 ns1
  proof -
    have s: "dir_safe d XX i ess" and X: "X \<union> set (concat (map n_entries ds1)) \<subseteq> XX" using w e1(2) by (auto simp: walk_ready_def)
    note r1 = e1(1) [unfolded pruned_def]
    note B1 = entry_bound(1,2) [OF reduced_dir(1) [OF r1 s X] zin]
    have "unat (get 2 (de_rec_len p) e1 :: u16) = e_rec_len d p"
      using reduced_entry(1) [OF r1 s X zin] by (simp add: e_rec_len_def)
    moreover have "\<exists>e'. remove_within k E path (p + e_rec_len d p - b) (p + e_rec_len d p) e1 = Inr e' \<and> pruned I X B J d (ds1 @ ns1) e'"
      by (rule Cons.IH [OF rest Cons.prems(2) _ _ e1(2,3,1)]) (use Cons.prems(3,4) k(2) in auto)
    ultimately show ?thesis using entry_loads(3) [OF B1] eq by simp
  qed
  show ?case
  proof (cases "external d p")
    case False
    then have "filter (external d) es = map n_entry ns" using Cons.prems(6) z(1) by simp
    then show ?thesis unfolding ls using False next_ [OF Cons.prems(7,5)] by simp
  next
    case True
    obtain c ns' where c: "ns = c # ns'" "p = n_entry c" using first True by blast
    have all: "all = ds @ c # ns' @ ds'" using Cons.prems(5) c(1) by simp
    obtain e1 where e1: "bindE (entry_path path p e) (\<lambda>q. remove_entry k E p q e) = Inr e1" "pruned I X B J d (ds @ [c]) e1"
      using go all Cons.prems(7) k(2) unfolding children_go_def c(2) by (metis add_leD2)
    have "filter (external d) es = map n_entry ns'" using Cons.prems(6) z(1) True c(1) by simp
    then show ?thesis unfolding ls using True e1(1) next_ [OF e1(2), of ns'] all c(1) by simp
  qed
qed

lemma remove_blocks:
  assumes go: "children_go d E path I X B J F all" and w: "walk_ready d XX i ess X all" and f: "129 + F \<le> k"
  shows "\<lbrakk>\<forall>j \<in> set js. j < TOTAL_BLOCK_COUNT; on_blocks d (filter (\<lambda>b. b \<noteq> 0) (map (inode_block d (inode_at d i)) js)) ess';
    set (concat ess') \<subseteq> set (concat ess); all = ds @ ns @ ds'; filter (external d) (concat ess') = map n_entry ns; pruned I X B J d ds e\<rbrakk> \<Longrightarrow>
    \<exists>e'. forE (\<lambda>j x. bindE (ld32 (i_block (inode_at d i) j) x) (\<lambda>b.
        if b \<noteq> 0 then remove_within k E path 0 (block_ptr b) x else Inr x)) js e = Inr e' \<and> pruned I X B J d (ds @ ns) e'"
proof (induction js arbitrary: ess' ns ds e)
  case Nil
  then show ?case by (simp add: on_blocks_def)
next
  case (Cons j js)
  let ?P = "inode_at d i"
  have i: "i < inode_count d" using w by (simp add: walk_ready_def dir_safe_def)
  note r = Cons.prems(6) [unfolded pruned_def]
  have t: "i_block ?P j + 4 \<le> DISK_SIZE"
    using inode_in_table [OF i] fs_okD(7) [OF reduced_fs [OF r]] reduced_layout(4) [OF r] Cons.prems(1)
    by (simp add: i_block_def INODE_SIZE_def TOTAL_BLOCK_COUNT_def)
  have "get 4 (i_block ?P j) e = (get 4 (i_block ?P j) d :: u32)"
    by (rule get_cong, rule reduced_pointers [OF r i]) (use Cons.prems(1) in \<open>auto simp: i_block_def TOTAL_BLOCK_COUNT_def\<close>)
  then have ld: "ld32 (i_block ?P j) e = Inr (inode_block d ?P j)" using t by (simp add: load_def inode_block_def)
  show ?case
  proof (cases "inode_block d ?P j = 0")
    case True
    then show ?thesis using Cons.IH [OF _ _ Cons.prems(3-6)] Cons.prems(1,2) ld by simp
  next
    case False
    then obtain es ess2 where e: "ess' = es # ess2" "dir_block d (block_start (inode_block d ?P j)) es"
      "on_blocks d (filter (\<lambda>b. b \<noteq> 0) (map (inode_block d ?P) js)) ess2"
      using Cons.prems(2) by (auto simp: on_blocks_def list_all2_Cons1)
    obtain n1 n2 where n: "ns = n1 @ n2" "filter (external d) es = map n_entry n1" "filter (external d) (concat ess2) = map n_entry n2"
      using Cons.prems(5) e(1) by (auto simp: append_eq_map_conv)
    have c: "chain_to d (block_start (inode_block d ?P j)) es (block_start (inode_block d ?P j) + EXT2_BLOCK_SIZE)"
      using e(2) by (simp add: dir_block_def)
    have all: "all = ds @ n1 @ (n2 @ ds')" "all = (ds @ n1) @ n2 @ ds'" using Cons.prems(4) n(1) by simp_all
    have "\<exists>e'. remove_within k E path (block_start (inode_block d ?P j) - block_start (inode_block d ?P j))
        (block_start (inode_block d ?P j)) e = Inr e' \<and> pruned I X B J d (ds @ n1) e'"
      by (rule remove_within_chain [OF go w c refl le_refl _ all(1) n(2) Cons.prems(6)])
        (use Cons.prems(3) e(1) dir_block_length [OF e(2)] f in auto)
    then obtain e1 where e1: "remove_within k E path 0 (block_ptr (inode_block d ?P j)) e = Inr e1" "pruned I X B J d (ds @ n1) e1"
      using block_start_in [OF e(2)] by auto
    show ?thesis using Cons.IH [OF _ e(3) _ all(2) n(3) e1(2)] Cons.prems(1,3) e(1) ld e1(1) False n(1) by simp
  qed
qed

section \<open>The recursion\<close>

lemma reduced_more_heads: "reduced I X B J d e \<Longrightarrow> k < inode_count d \<Longrightarrow> reduced (insert k I) X B J d e"
  by (rule reduced_head_step) auto

text \<open>The first loads of \<open>remove_directory_or_file_or_link\<close>.\<close>

lemma entry_kind:
  assumes r: "reduced I X B J d e" and s: "dir_safe d XX k ess" and X: "X \<subseteq> XX" and a: "a \<in> set (concat ess)"
  shows "ld8 (de_file_type a) e = Inr (e_file_type d a)"
  using entry_loads(5) [OF entry_bound(1,2) [OF reduced_dir(1) [OF r s X] a]] reduced_entry(4) [OF r s X a] by simp

text \<open>What is asked of the run so far.\<close>

definition fresh :: "nat set \<Rightarrow> nat set \<Rightarrow> nat set \<Rightarrow> nat list \<Rightarrow> node \<Rightarrow> bool" where
  "fresh XX I X as n \<longleftrightarrow> X \<union> set (n_entries n) \<subseteq> XX \<and> (X \<union> set as) \<inter> set (n_entries n) = {} \<and> set as \<inter> X = {} \<and>
     distinct (n_entries n) \<and> distinct (n_inodes n) \<and> I \<inter> set (n_inodes n) = {}"

lemma fresh_child:
  assumes f: "fresh XX I X as (Branch a i ess (ds @ c # ds'))"
  shows "fresh XX (insert i I \<union> set (concat (map n_inodes ds))) (X \<union> set (concat (map n_entries ds))) (as @ [a]) c"
  using f unfolding fresh_def by (auto 0 3)

lemma fresh_walk:
  assumes "fresh XX I X as (Branch a i ess ns)" and "dir_ready d XX i ess"
  shows "walk_ready d XX i ess X ns"
  using assms unfolding fresh_def walk_ready_def dir_ready_def by auto

theorem remove_tree:
  "\<lbrakk>placed d XX E k cs as pess (n_entry n) nm; find (names d nm) (concat pess) = Some (n_entry n);
    length (join_path (cs @ [nm])) < PATH_MAX; tree_ready d XX (length (join_path (cs @ [nm]))) n;
    fresh XX I X as n; reduced I X B J d e; 131 * (PATH_MAX - length (join_path (cs @ [nm]))) + 131 \<le> fuel\<rbrakk> \<Longrightarrow>
    \<exists>e'. remove_entry fuel E (n_entry n) (join_path (cs @ [nm])) e = Inr e' \<and>
      reduced (insert k (I \<union> set (n_inodes n))) (X \<union> set (n_entries n)) (B \<union> n_blocks d n) (J \<union> n_freed d n) d e'"
proof (induction n arbitrary: k cs as pess nm I X B J e fuel)
  case (Leaf a i)
  note p = Leaf.prems(1) [simplified] and r = Leaf.prems(6)
  obtain m where m: "fuel = Suc m" using Leaf.prems(7) by (cases fuel) auto
  have s: "dir_safe d XX k pess" and a: "a \<in> set (concat pess)" and k: "k < inode_count d"
    using p by (simp_all add: placed_def dir_ready_def dir_safe_def)
  have X: "X \<subseteq> XX" "set as \<inter> X = {}" "a \<notin> X" "i \<notin> I" using Leaf.prems(5) by (auto simp: fresh_def)
  have f: "e_file_type d a = EXT2_FT_REG_FILE \<or> e_file_type d a = EXT2_FT_SYMLINK" "e_inode d a = TO_NUMBER i" "file_ready d XX i"
    using Leaf.prems(4) by auto
  obtain e' where e': "remove_file E a (join_path (cs @ [nm])) e = Inr e'"
    "reduced (insert i I) (insert a X) (B \<union> file_blocks d i) (if last_link d i then insert i J else J) d e'"
    using remove_file_reduced [OF p f(3,2) X(4) r X(1-3)] by blast
  have "remove_entry fuel E a (join_path (cs @ [nm])) e = Inr e'"
    unfolding m using entry_kind [OF r s X(1) a] f(1) e'(1) by (auto simp: remove_entry.simps)
  then show ?case using reduced_more_heads [OF e'(2) k] by (cases "last_link d i") (auto simp: insert_commute)
next
  case (Branch a i ess ns)
  let ?path = "join_path (cs @ [nm])" and ?P = "inode_at d i"
  let ?l = "length ?path" and ?F = "131 * (PATH_MAX - length (join_path (cs @ [nm])))"
  note p = Branch.prems(1) [simplified] and r = Branch.prems(6)
  obtain m where m: "fuel = Suc m" "129 + ?F \<le> m" using Branch.prems(7) by (cases fuel) auto
  have t: "trail d XX 1 cs as k" and s': "dir_ready d XX k pess" and a: "a \<in> set (concat pess)" and E: "slack E"
    and cs: "\<forall>c \<in> set cs. component c" "component nm" "length (join_path cs) < 2 ^ 31"
    using p by (simp_all add: placed_def)
  have s: "dir_safe d XX k pess" and k: "k < inode_count d" using s' by (simp_all add: dir_ready_def dir_safe_def)
  have X: "X \<subseteq> XX" "set as \<inter> X = {}" "a \<notin> X" using Branch.prems(5) by (auto simp: fresh_def)
  have f: "e_file_type d a \<noteq> EXT2_FT_REG_FILE \<and> e_file_type d a \<noteq> EXT2_FT_SYMLINK" "e_inode d a = TO_NUMBER i"
    "EXT2_GOOD_OLD_FIRST_INO \<le> i" "dir_ready d XX i ess" "\<forall>b \<in> dir_numbers d ?P. freeable d b"
    "filter (external d) (concat ess) = map n_entry ns"
    and sub: "\<And>c. c \<in> set ns \<Longrightarrow> name_ready d ess (n_entry c) \<and> ?l + 1 + length (e_name d (n_entry c)) < PATH_MAX \<and>
      tree_ready d XX (?l + 1 + length (e_name d (n_entry c))) c"
    using Branch.prems(4) by auto
  have si: "dir_safe d XX i ess" and i: "i < inode_count d" using f(4) by (simp_all add: dir_ready_def dir_safe_def)
  have t': "trail d XX 1 (cs @ [nm]) (as @ [a]) i"
    by (rule trail_snoc [OF t s _ f(2) i]) (use Branch.prems(2) in simp)
  have cs': "\<forall>c \<in> set (cs @ [nm]). component c" "?l < 2 ^ 31" using cs Branch.prems(3) by (auto simp: PATH_MAX_def)
  obtain e1 where e1: "add16 (i_links_count ?P) (-2) e = Inr e1" "reduced (insert i I) X B J d e1"
    using reduced_add_links [OF r i] by blast
  have go: "children_go d E ?path (insert i I) X B J ?F ns"
    unfolding children_go_def
  proof (intro allI impI)
    fix ds c ds' x j
    assume c: "ns = ds @ c # ds'" and x: "pruned (insert i I) X B J d ds x" and j: "?F \<le> j"
    let ?nm = "e_name d (n_entry c)"
    have C: "name_ready d ess (n_entry c)" "?l + 1 + length ?nm < PATH_MAX" "tree_ready d XX (?l + 1 + length ?nm) c"
      using sub c by auto
    have l: "length (join_path ((cs @ [nm]) @ [?nm])) = ?l + 1 + length ?nm" by (simp only: join_path_snoc [of "cs @ [nm]"]) simp
    have ci: "n_entry c \<in> set (concat ess)" using C(1) find_in_set by (fastforce simp: name_ready_def)
    have pc: "placed d XX E i (cs @ [nm]) (as @ [a]) ess (n_entry c) ?nm"
      using t' f(4) ci E cs' C(1) by (simp add: placed_def name_ready_def)
    have fr: "fresh XX (insert i I \<union> set (concat (map n_inodes ds))) (X \<union> set (concat (map n_entries ds))) (as @ [a]) c"
      using fresh_child Branch.prems(5) c by blast
    then have X': "X \<union> set (concat (map n_entries ds)) \<subseteq> XX" by (auto simp: fresh_def)
    note rx = x [unfolded pruned_def]
    have path: "entry_path ?path (n_entry c) x = Inr (join_path ((cs @ [nm]) @ [?nm]))"
      by (rule entry_path_reduced [OF rx si X' ci]) (use C(1,2) in \<open>auto simp: name_ready_def\<close>)
    have "131 * (PATH_MAX - length (join_path ((cs @ [nm]) @ [?nm]))) + 131 \<le> j"
      using j C(2) unfolding l by linarith
    then obtain x' where x': "remove_entry j E (n_entry c) (join_path ((cs @ [nm]) @ [?nm])) x = Inr x'"
      "reduced (insert i (insert i I \<union> set (concat (map n_inodes ds)) \<union> set (n_inodes c))) (X \<union> set (concat (map n_entries ds)) \<union> set (n_entries c))
        (B \<union> \<Union> (set (map (n_blocks d) ds)) \<union> n_blocks d c) (J \<union> \<Union> (set (map (n_freed d) ds)) \<union> n_freed d c) d x'"
      using Branch.IH [OF _ pc _ _ _ fr rx] C c unfolding l by (auto simp: name_ready_def)
    have "pruned (insert i I) X B J d (ds @ [c]) x'"
      using x'(2) unfolding pruned_def by (simp add: Un_ac)
    then show "\<exists>e'. bindE (entry_path ?path (n_entry c) x) (\<lambda>p. remove_entry j E (n_entry c) p x) = Inr e' \<and>
        pruned (insert i I) X B J d (ds @ [c]) e'"
      using path x'(1) by simp
  qed
  have on: "on_blocks d (filter (\<lambda>b. b \<noteq> 0) (map (inode_block d ?P) [0 ..< TOTAL_BLOCK_COUNT])) ess"
    using si by (simp add: dir_safe_def dir_ok_blocks dir_blocks_def)
  obtain e2 where e2: "forE (\<lambda>j x. bindE (ld32 (i_block ?P j) x) (\<lambda>b.
      if b \<noteq> 0 then remove_within m E ?path 0 (block_ptr b) x else Inr x)) [0 ..< TOTAL_BLOCK_COUNT] e1 = Inr e2"
    "pruned (insert i I) X B J d ns e2"
    using remove_blocks [OF go fresh_walk [OF Branch.prems(5) f(4)] m(2) _ on subset_refl, of "[]" ns "[]" e1] f(6) e1(2)
    by (auto simp: pruned_def)
  note r2 = e2(2) [unfolded pruned_def]
  have X2: "X \<union> set (concat (map n_entries ns)) \<subseteq> XX" "set as \<inter> (X \<union> set (concat (map n_entries ns))) = {}"
    "a \<notin> X \<union> set (concat (map n_entries ns))"
    using Branch.prems(5) by (auto simp: fresh_def)
  obtain e3 where e3: "remove_empty_directory E a ?path e2 = Inr e3"
    "reduced (insert i (insert k (insert i I \<union> set (concat (map n_inodes ns))))) (insert a (X \<union> set (concat (map n_entries ns))))
      (B \<union> \<Union> (set (map (n_blocks d) ns)) \<union> dir_numbers d ?P) (insert i (J \<union> \<Union> (set (map (n_freed d) ns)))) d e3"
    using remove_empty_directory_reduced [OF p f(2) i f(3,5) r2 X2] by blast
  note n = reduced_number [OF r s X(1) a X(3) f(2)] reduced_inode_ptr [OF r i]
  have "remove_entry fuel E a ?path e = Inr e3"
    unfolding m(1) remove_entry.simps entry_kind [OF r s X(1) a] bindE_Inr n e1(1) e2(1) e3(1) using f(1) by simp
  moreover have "reduced (insert k (I \<union> set (n_inodes (Branch a i ess ns)))) (X \<union> set (n_entries (Branch a i ess ns)))
      (B \<union> n_blocks d (Branch a i ess ns)) (J \<union> n_freed d (Branch a i ess ns)) d e3"
    using e3(2) by (simp add: Un_ac insert_commute)
  ultimately show ?case by auto
qed

section \<open>The command\<close>

text \<open>
  \<open>removable d E cs as k pess nm n\<close>: below the directory \<open>k\<close> with the path \<open>cs\<close> the name \<open>nm\<close>
  leads to the tree \<open>n\<close>, all of which can be removed: no entry of it is met twice or on the
  path, no inode of it has two names in it, and the first block of every directory keeps two
  entries in use.
\<close>

definition removable :: "disk \<Rightarrow> fs_env \<Rightarrow> cstring list \<Rightarrow> nat list \<Rightarrow> nat \<Rightarrow> nat list list \<Rightarrow> cstring \<Rightarrow> node \<Rightarrow> bool" where
  "removable d E cs as k pess nm n \<longleftrightarrow>
    placed d (set (n_entries n)) E k cs as pess (n_entry n) nm \<and> find (names d nm) (concat pess) = Some (n_entry n) \<and>
    length (join_path (cs @ [nm])) < PATH_MAX \<and> tree_ready d (set (n_entries n)) (length (join_path (cs @ [nm]))) n \<and>
    set as \<inter> set (n_entries n) = {} \<and> distinct (n_entries n) \<and> distinct (n_inodes n)"

lemma tree_ready_inode: "tree_ready d XX l n \<Longrightarrow> e_inode d (n_entry n) = TO_NUMBER (n_inode n) \<and> n_inode n < inode_count d"
  by (cases n) (auto simp: file_ready_def dir_ready_def dir_safe_def)

lemma reduced_listing:
  assumes r: "reduced I X B J d e" and s: "dir_safe d XX k ess" and X: "X \<subseteq> XX"
  shows "listing e (concat ess) = listing d (filter (\<lambda>z. z \<notin> X) (concat ess))"
proof -
  note en = reduced_entry [OF r s X]
  have "map (entry_view e) (filter (\<lambda>z. \<not> unused e z) es) = map (entry_view d) (filter (\<lambda>z. \<not> unused d z) (filter (\<lambda>z. z \<notin> X) es))"
    if "set es \<subseteq> set (concat ess)" for es
    using that by (induction es) (use en in \<open>auto simp: unused_def entry_view_def\<close>)
  then show ?thesis unfolding listing_def by blast
qed

lemma rm_tree_run:
  assumes ok: "fs_ok d" and p: "removable d E cs as k pess nm n"
  defines "XX \<equiv> set (n_entries n)"
  shows "\<exists>d'. rm E True (join_path (cs @ [nm])) d = Inr (0, d') \<and>
    reduced (insert k (set (n_inodes n))) XX (n_blocks d n) (n_freed d n) d d' \<and>
    dir_ok d' (inode_at d k) pess \<and> listing d' (concat pess) = listing d (filter (\<lambda>z. z \<notin> XX) (concat pess))"
proof -
  let ?path = "join_path (cs @ [nm])" and ?a = "n_entry n"
  note R = p [unfolded removable_def, folded XX_def]
  have P: "placed d XX E k cs as pess ?a nm" and f: "find (names d nm) (concat pess) = Some ?a" and l: "length ?path < PATH_MAX"
    and t: "tree_ready d XX (length ?path) n" and fr: "fresh XX {} {} as n"
    using R by (auto simp: fresh_def XX_def)
  have tr: "trail d XX 1 cs as k" and s: "dir_safe d XX k pess" and cs: "\<forall>c \<in> set cs. component c" "component nm" and E: "slack E"
    using P by (auto simp: placed_def dir_ready_def)
  note N = tree_ready_inode [OF t]
  have "trail d XX 1 (cs @ [nm]) (as @ [?a]) (n_inode n)" by (rule trail_snoc [OF tr s f]) (use N in simp_all)
  from trail_last [OF this reduced_refl [OF ok]] have ld: "leads_to d (inode_at d 1) (cs @ [nm]) ?a" by simp
  have fd: "find_dir_entry ?path d = Inr (Some ?a)"
    by (rule find_dir_entry_leads [OF root_run [OF ok] ld]) (use cs in auto)
  have a: "?a \<in> set (concat pess)" using find_in_set [OF f] by simp
  have ft: "ld8 (de_file_type ?a) d = Inr (e_file_type d ?a)" by (rule entry_kind [OF reduced_refl [OF ok] s _ a]) simp
  have "131 * (PATH_MAX - length ?path) + 131 \<le> RM_FUEL" by (simp add: RM_FUEL_def PATH_MAX_def disk_size)
  from remove_tree [OF P f l t fr reduced_refl [OF ok] this]
  obtain d' where d': "remove_entry RM_FUEL E ?a ?path d = Inr d'"
    "reduced (insert k (set (n_inodes n))) XX (n_blocks d n) (n_freed d n) d d'"
    by (auto simp: XX_def)
  have "rm E True ?path d = Inr (0, d')" using fd ft d'(1) E by (simp add: rm_def copy_path_def)
  then show ?thesis using d'(2) reduced_dir(1) [OF d'(2) s] reduced_listing [OF d'(2) s] by auto
qed

end
