(* ===== verification/Ext2_Replace.thy ===== *)
theory Ext2_Replace
  imports Ext2_Free
begin

text \<open>
  \<open>ext2_cp\<close> onto a file that exists: the blocks of the old file are freed, its inode is
  initialised again, also its link count, and gets the new data; the entry stays.
\<close>

section \<open>The blocks of a directory and of a file\<close>

lemma used_dir_released:
  assumes u: "used_dir d P ess" and P: "table_addr d \<le> P" and r: "released B d e" and B: "set (dir_blocks d P) \<inter> B = {}"
  shows "used_dir e P ess" "listing e (concat ess) = listing d (concat ess)"
proof -
  have R: "\<And>x. table_addr d \<le> x \<Longrightarrow> e x = d x" "free_blocks e = free_blocks d \<union> bits_of B" "table_end e = table_end d"
    using r by (auto simp: released_def table_end_def)
  have U: "dir_ok d P ess" "distinct (dir_blocks d P)" "\<And>b. b \<in> set (dir_blocks d P) \<Longrightarrow> table_end d \<le> block_start b"
    "\<And>b i. b \<in> set (dir_blocks d P) \<Longrightarrow> i \<in> free_blocks d \<Longrightarrow> block_start b \<noteq> block_at i"
    using u by (auto simp: used_dir_def)
  have db: "dir_blocks e P = dir_blocks d P" by (rule dir_blocks_cong) (use R(1) P in \<open>simp add: i_block_def\<close>)
  have D: "dir_ok e P ess \<and> listing e (concat ess) = listing d (concat ess)"
  proof (rule dir_ok_cong [OF U(1)])
    show "e x = d x" if "b \<in> set (dir_blocks d P)" "block_start b \<le> x" for b x
      using U(3) [OF that(1)] that(2) by (intro R(1)) (simp add: table_end_def)
  qed (use R(1) P in \<open>simp add: i_block_def\<close>)
  have "block_start b \<noteq> block_at i" if b: "b \<in> set (dir_blocks d P)" and i: "i \<in> bits_of B" for b i
  proof
    assume eq: "block_start b = block_at i"
    obtain c where c: "c \<in> B" "c \<noteq> 0" "i = unat c - 1" using i by (auto simp: bits_of_def)
    have "0 < unat c" using c(2) by (simp add: unat_gt_0)
    then have "block_at i = block_start c" using c(3) by (simp add: block_at_def)
    then have "unat b = unat c" using eq by (simp add: EXT2_BLOCK_SIZE_def)
    then have "b = c" by (rule unsigned_word_eqI)
    then show False using b c(1) B by auto
  qed
  then show "used_dir e P ess" using U D R(2,3) by (auto simp: used_dir_def db)
  show "listing e (concat ess) = listing d (concat ess)" using D by simp
qed

section \<open>The file\<close>

lemma replace_run:
  assumes ok: "fs_ok d" and i: "i < inode_count d" and w: "whole_file d (inode_at d i)" and a: "ld32 (de_inode a) d = Inr (TO_NUMBER i)"
    and sz: "blocks_needed (length (content nf)) = Some n" "n \<le> card (free_blocks d)"
    and P: "k < inode_count d" "k \<noteq> i" "used_dir d (inode_at d k) ess"
    and sep: "set (dir_blocks d (inode_at d k)) \<inter> file_numbers d (inode_at d i) = {}"
  shows "\<exists>d' I. copy_to E nf (P', nm, Some a) d = Inr (0, d') \<and>
    I \<subseteq> free_blocks d \<union> bits_of (file_numbers d (inode_at d i)) \<and> card I \<le> n \<and> fs_ok d' \<and> free_inodes d' = free_inodes d \<and>
    free_blocks d' = free_blocks d \<union> bits_of (file_numbers d (inode_at d i)) - I \<and>
    read_file d' (inode_at d i) (length (content nf)) = content nf \<and> file_head d' (inode_at d i) (st_size nf) \<and>
    dir_ok d' (inode_at d k) ess \<and> listing d' (concat ess) = listing d (concat ess)"
proof -
  let ?N = "inode_at d i" and ?B = "file_numbers d (inode_at d i)" and ?A = "{inode_at d i ..< inode_at d i + INODE_SIZE}"
  obtain e where e: "free_all_blocks_of_inode ?N d = Inr e" "released ?B d e"
    using free_all_run [OF ok i] w unfolding whole_file_def by blast
  then have R: "fs_ok e" "table_addr e = table_addr d" "inode_count e = inode_count d"
    "free_blocks e = free_blocks d \<union> bits_of ?B" "free_inodes e = free_inodes d" by (simp_all add: released_def)
  have at: "inode_at e j = inode_at d j" for j by (simp add: inode_at_def R(2))
  have c: "cell_ok e ?N INODE_SIZE" using inode_cell [OF R(1), of i] i R(3) at by simp
  have iB: "i < BITS" using i fs_okD(4) [OF ok] by simp
  have "card (free_blocks d) \<le> card (free_blocks e)" by (rule card_mono [OF finite_free_blocks]) (use R(4) in simp)
  then have en: "have_enough_blocks (length (content nf)) e = Inr True" using enough_blocks [OF R(1) sz(1)] sz(2) by simp
  obtain e1 d' I where r: "init_inode E ?N EXT2_S_IFREG (of_nat (st_size nf)) e = Inr e1" "copy_content ?N (content nf) e1 = Inr d'"
    "taken ?A I e d'" "read_file d' ?N (length (content nf)) = content nf" "card I \<le> n" "file_head d' ?N (st_size nf)"
    using copy_into_inode [OF R(1) c en, of E "st_size nf"] sz(1) by blast
  have T: "fs_ok d'" "free_blocks d' = free_blocks e - I" "free_inodes d' = free_inodes e" "I \<subseteq> free_blocks e" using r(3) by (auto simp: taken_def)
  note Pt = inode_in_table [OF P(1)] and Nt = inode_in_table [OF i]
  have u: "used_dir e (inode_at d k) ess" "listing e (concat ess) = listing d (concat ess)"
    using used_dir_released [OF P(3) Pt(1) e(2) sep] by simp_all
  have NP: "?N + INODE_SIZE \<le> inode_at d k \<or> inode_at d k + INODE_SIZE \<le> ?N" using inode_at_apart [of i k d] P(2) by auto
  have A: "\<forall>x \<in> ?A. x < i_block (inode_at d k) 0 \<or> i_block (inode_at d k) 15 \<le> x" "\<forall>x \<in> ?A. x < table_end e"
    using NP Nt R(2,3) by (auto simp: i_block_def INODE_SIZE_def table_end_def)
  have k: "inode_at d k = inode_at e k" "k < inode_count e" using at P(1) R(3) by simp_all
  note D = used_dir_kept(1,2) [OF R(1) u(1) k T(4) taken_unchanged [OF r(3)] A]
  have "copy_to E nf (P', nm, Some a) d = Inr (0, d')"
    using a inode_ptr_at [OF ok iB] inode_ptr_at [OF R(1) iB] at e(1) r(1,2) by (simp add: copy_to_def inode_for_copy_def)
  then show ?thesis
    using T R(4,5) r(4,5,6) D u(2) by (intro exI [of _ d'] exI [of _ I]) simp
qed

section \<open>The command\<close>

lemma cp_replace_run:
  assumes ok: "fs_ok d" and E: "slack E" and cs: "\<forall>c \<in> set cs. component c" "component nm" "length (join_path cs) < 2 ^ 31"
    and p: "dir_path d cs k" and P: "k < inode_count d" "used_dir d (inode_at d k) ess"
    and a: "find (names d nm) (concat ess) = Some a" "e_file_type d a \<noteq> EXT2_FT_DIR" "e_inode d a = TO_NUMBER i" "i < inode_count d" "i \<noteq> k"
    and w: "whole_file d (inode_at d i)" "set (dir_blocks d (inode_at d k)) \<inter> file_numbers d (inode_at d i) = {}"
    and f: "lstat_ok nf" "regular nf" "can_open nf" "st_size nf = length (content nf)"
    and sz: "blocks_needed (st_size nf) = Some n" "n \<le> card (free_blocks d)"
  shows "\<exists>d' I. cp E junk nf native_path (join_path (cs @ [nm])) d = Inr (0, d') \<and>
    I \<subseteq> free_blocks d \<union> bits_of (file_numbers d (inode_at d i)) \<and> card I \<le> n \<and> fs_ok d' \<and> free_inodes d' = free_inodes d \<and>
    free_blocks d' = free_blocks d \<union> bits_of (file_numbers d (inode_at d i)) - I \<and>
    read_file d' (inode_at d i) (length (content nf)) = content nf \<and> file_head d' (inode_at d i) (st_size nf) \<and>
    dir_ok d' (inode_at d k) ess \<and> listing d' (concat ess) = listing d (concat ess)"
proof -
  have o: "dir_ok d (inode_at d k) ess" using P(2) by (simp add: used_dir_def)
  have n: "a \<in> set (concat ess)" using find_in_set [OF a(1)] by simp
  have a8: "a + 8 \<le> DISK_SIZE" using entry_bound(2,3) [OF o n] by linarith
  have ld: "ld32 (de_inode a) d = Inr (TO_NUMBER i)" "ld8 (de_file_type a) d = Inr (e_file_type d a)"
    using a8 a(3) get_1 [of "de_file_type a" d]
    by (simp_all add: e_inode_def de_inode_def e_file_type_def de_file_type_def del: One_nat_def)
  have B: "i < BITS" "k < BITS" using a(4) P(1) fs_okD(4) [OF ok] by simp_all
  have l: "length (join_path (cs @ [nm])) \<noteq> 1" using cs(2) by (simp add: join_path_snoc component_def)
  have "find_destination E junk native_path (join_path (cs @ [nm])) d = Inr (Inr (inode_at d k, nm, Some a))"
    using l E entry_lookup [OF ok cs(1,2) p P a(1)] ld inode_ptr_at [OF ok B(1)] inode_ptr_at [OF ok B(2)] a(2)
      parent_lookup [OF ok E cs p] name_of_path [OF cs(2,3)] by (simp add: find_destination_def copy_path_def)
  then have "cp E junk nf native_path (join_path (cs @ [nm])) d = copy_to E nf (inode_at d k, nm, Some a) d"
    using f sz enough_blocks [OF ok sz(1)] component_absolute [of cs nm] by (simp add: cp_def)
  then show ?thesis
    using replace_run [OF ok a(4) w(1) ld(1) sz(1) [unfolded f(4)] sz(2) P(1) a(5) [symmetric] P(2) w(2)] by simp
qed

end
