(* ===== verification/Ext2_Symlink.thy ===== *)
theory Ext2_Symlink
  imports Ext2_Link
begin

text \<open>
  Making a symbolic link in the root directory: the link has an inode and a block with the
  path, the directory an entry for it, and \<open>read_symbolic_link\<close> leads from the link to the
  inode of the file.
\<close>

section \<open>Lookup in a directory with a new entry\<close>

lemma find_listing: "map_option (entry_view d) (find (names d nm) es) = find (\<lambda>v. fst v = nm) (listing d es)"
  by (induction es) (auto simp: listing_Cons names_def unused_def entry_view_def)

lemma find_insert: "\<not> Q x \<Longrightarrow> find Q (l1 @ x # l2) = find Q (l1 @ l2)"
  by (induction l1) auto

lemma other_name_found:
  assumes "new_name d ess d' ess' (nm, ino, ft)" and "c \<noteq> nm" and "find (names d c) (concat ess) = Some a"
  shows "\<exists>b. find (names d' c) (concat ess') = Some b \<and> entry_view d' b = entry_view d a"
proof -
  obtain l1 l2 where l: "listing d (concat ess) = l1 @ l2" "listing d' (concat ess') = l1 @ (nm, ino, ft) # l2"
    using assms(1) by (auto simp: new_name_def)
  have "find (\<lambda>v. fst v = c) (listing d' (concat ess')) = find (\<lambda>v. fst v = c) (listing d (concat ess))"
    unfolding l by (rule find_insert) (use assms(2) in simp)
  then have "map_option (entry_view d') (find (names d' c) (concat ess')) = Some (entry_view d a)"
    using assms(3) by (simp add: find_listing [symmetric])
  then show ?thesis by (auto simp: map_option_eq_Some)
qed

section \<open>The entry\<close>

text \<open>In a new block the entry gets the type of the source file.\<close>

lemma enter_symlink_run:
  assumes ok: "fs_ok d" and u: "used_dir d P ess" and P: "P = inode_at d k" "k < inode_count d"
    and t: "J \<subseteq> free_blocks d" "unchanged A J d e" and A: "\<forall>x \<in> A. x < i_block P 0 \<or> i_block P 15 \<le> x" "\<forall>x \<in> A. x < table_end d"
    and e: "fs_ok e" "table_addr e = table_addr d" "free_blocks e \<subseteq> free_blocks d" and nm: "length nm < 256" "ino \<noteq> 0"
    and room: "can_enter d ess nm" "entry_blocks d ess nm \<le> card (free_blocks e)"
    and a: "table_end d \<le> a" "a + 8 \<le> DISK_SIZE" "\<forall>j \<in> free_blocks d. a + 7 < block_at j \<or> block_at j + EXT2_BLOCK_SIZE \<le> a + 7"
      "e (de_file_type a) = ft"
  shows "\<exists>d' K. bindE (add_to_blocks P ino nm EXT2_FT_SYMLINK e) (\<lambda>(found, d).
      bindE (if found then Inr (True, d) else symlink_in_new_block a P ino lb nm d) (\<lambda>(found, d).
      Inr (if found then 0 else ENOSPC, d))) = Inr (0, d') \<and>
    name_added d P ess (nm, ino, if entry_blocks d ess nm = 0 then EXT2_FT_SYMLINK else ft) e d' K"
proof (cases "\<forall>es \<in> set ess. full d (length nm) es")
  case False
  then show ?thesis
    using added_in_place [OF ok u P t A e nm room(1) False, of EXT2_FT_SYMLINK] by (auto simp: entry_blocks_def)
next
  case True
  have more: "length ess < TOTAL_BLOCK_COUNT" "free_blocks e \<noteq> {}" using room True by (auto simp: can_enter_def entry_blocks_def)
  obtain j e1 i where add: "add_to_blocks P ino nm EXT2_FT_SYMLINK e = Inr (False, e)"
    and g: "grow_facts d P ess (nm, ino, ft) e j e1 i"
    using grow_start [OF ok u P t A e nm(1) True more] add_to_blocks_full [OF used_dir_kept(1) [OF ok u P t A] nm(1)]
      used_dir_kept(4) [OF ok u P t A] True by metis
  let ?B = "block_at j" and ?n = "TO_NUMBER j"
  define g1 where "g1 = put (?B + 8) nm (put (?B + 4) (store_le 2 (1024 :: u16)) (put ?B (store_le 4 ino)
    (put (?B + 6) [of_nat (length nm) :: u8]
    (put (P + 28) (store_le 4 (get 4 (P + 28) (put (i_block P i) (store_le 4 ?n) e1) + 1 :: u32)) (put (i_block P i) (store_le 4 ?n) e1)))))"
  define f where "f = put (?B + 7) [ft] g1"
  have i: "i < 15" "P + 128 \<le> ?B" "?B + 1024 \<le> DISK_SIZE"
    using g by (simp_all add: grow_facts_def TOTAL_BLOCK_COUNT_def INODE_SIZE_def EXT2_BLOCK_SIZE_def)
  have "name_added d P ess (nm, ino, ft) e f {j}"
  proof (rule grow_done [OF g nm])
    show "f y = e1 y" if "y < ?B \<or> ?B + EXT2_BLOCK_SIZE \<le> y" "y < i_blocks P \<or> i_blocks P + 4 \<le> y"
      "y < i_block P i \<or> i_block P i + 4 \<le> y" for y
      using that nm(1) by (auto simp: f_def g1_def put_outside i_blocks_def EXT2_BLOCK_SIZE_def)
    show "get 4 (i_block P i) f = ?n" "get 4 ?B f = ino" "get 2 (?B + 4) f = (1024 :: u16)"
      using i nm(1) by (simp_all add: f_def g1_def get_put_other get_put_same i_block_def)
    show "f (?B + 6) = of_nat (length nm)" "f (?B + 7) = ft" "bytes (length nm) (?B + 8) f = nm"
      using i nm(1) by (simp_all add: f_def g1_def put_single put_outside bytes_put_other bytes_put_same)
  qed
  moreover have "entry_blocks d ess nm \<noteq> 0" using True by (simp add: entry_blocks_def)
  moreover have "ld8 (de_file_type a) g1 = Inr ft"
  proof -
    have "P + 128 \<le> table_end d" using inode_in_table(2) [OF P(2)] P(1) by (simp add: INODE_SIZE_def)
    moreover have "j \<in> free_blocks d" using g e(3) by (auto simp: grow_facts_def)
    then have "a + 7 < ?B \<or> ?B + 1024 \<le> a + 7" using a(3) by (simp add: EXT2_BLOCK_SIZE_def)
    ultimately have "g1 (a + 7) = e1 (a + 7)" using i(1) a(1) nm(1) by (auto simp: g1_def put_outside i_block_def)
    also have "\<dots> = e (a + 7)" using g a(1) by (simp add: grow_facts_def table_end_def)
    finally show ?thesis using a(2,4) get_1 [of "de_file_type a" g1] by (simp add: de_file_type_def del: One_nat_def)
  qed
  then have "symlink_in_new_block a P ino lb nm e = Inr (True, f)"
    using g grow_slot [OF g, of e1] i nm(1)
    by (simp add: symlink_in_new_block_def grow_facts_def add_block_def Let_def field_defs i_blocks_def i_block_def add32_run
        EXT2_BLOCK_SIZE_def f_def g1_def store_le_1 del: One_nat_def)
  ultimately show ?thesis using add by auto
qed

section \<open>The link\<close>

text \<open>The inode at \<open>N\<close> is a symbolic link with the given path.\<close>

definition links_to :: "disk \<Rightarrow> nat \<Rightarrow> cstring \<Rightarrow> bool" where
  "links_to d N path \<longleftrightarrow> get 2 (i_mode N) d = EXT2_S_IFLNK \<and> get 4 (i_size N) d = (of_nat (length path) :: u32) \<and>
     (\<exists>j. j < BITS \<and> block_at j + EXT2_BLOCK_SIZE \<le> DISK_SIZE \<and> get 4 (i_block N 0) d = TO_NUMBER j \<and>
       bytes (length path) (block_at j) d = path)"

text \<open>The inode and the block of a new link, lines 197-224.\<close>

lemma fresh_link:
  assumes ok: "fs_ok d" and ne: "free_blocks d \<noteq> {}" and c: "cell_ok d N INODE_SIZE" and l: "length path \<le> EXT2_BLOCK_SIZE"
  shows "\<exists>d1 j d2 d3. init_inode E N EXT2_S_IFLNK (of_nat (length path)) d = Inr d1 \<and> find_free_block d1 = Inr (TO_NUMBER j) \<and>
    TO_NUMBER j \<noteq> 0 \<and> update_bitmap CHR ''b'' (TO_NUMBER j) True d1 = Inr d2 \<and>
    seqE [store_bytes (block_ptr (TO_NUMBER j)) path, st32 (i_block N 0) (TO_NUMBER j), add32 (i_blocks N) 1] d2 = Inr d3 \<and>
    j \<in> free_blocks d \<and> taken {N ..< N + INODE_SIZE} {j} d d3 \<and> get 2 (i_mode N) d3 = EXT2_S_IFLNK \<and>
    get 4 (i_size N) d3 = (of_nat (length path) :: u32) \<and> get 4 (i_block N 0) d3 = TO_NUMBER j \<and>
    bytes (length path) (block_at j) d3 = path"
proof -
  have N: "table_addr d \<le> N" "N + INODE_SIZE \<le> DISK_SIZE" using c by (auto simp: cell_ok_def)
  obtain d1 where d1: "init_inode E N EXT2_S_IFLNK (of_nat (length path)) d = Inr d1" "get 2 (i_mode N) d1 = EXT2_S_IFLNK"
    "get 4 (i_size N) d1 = (of_nat (length path) :: u32)" "\<forall>x. x < N \<or> N + INODE_SIZE \<le> x \<longrightarrow> d1 x = d x"
    using init_inode_run [OF N(2)] by blast
  have t1: "taken {N ..< N + INODE_SIZE} {} d d1"
    by (rule taken_store [OF taken_refl [OF ok] _ _ ok]) (use d1(4) N in auto)
  then have ok1: "fs_ok d1" "free_blocks d1 = free_blocks d" "table_addr d1 = table_addr d" by (auto simp: taken_def)
  obtain j d2 where j: "find_free_block d1 = Inr (TO_NUMBER j)" "update_bitmap CHR ''b'' (TO_NUMBER j) True d1 = Inr d2"
    "j \<in> free_blocks d1" "fs_ok d2" "free_blocks d2 = free_blocks d1 - {j}" "free_inodes d2 = free_inodes d1"
    "\<forall>a \<ge> table_addr d1. d2 a = d1 a" "table_addr d2 = table_addr d1" using take_block [OF ok1(1)] ne ok1(2) by metis
  have jd: "j \<in> free_blocks d" using j(3) ok1(2) by simp
  note B = fs_ok_free(2) [OF ok jd]
  have bp: "block_ptr (TO_NUMBER j) = block_at j" by (rule block_ptr_number [OF B])
  have ap: "N + 128 \<le> block_at j \<or> block_at j + EXT2_BLOCK_SIZE \<le> N" using c jd by (auto simp: cell_ok_def apart_def INODE_SIZE_def)
  let ?e1 = "put (block_at j) path d2"
  let ?e2 = "put (N + 40) (store_le 4 (TO_NUMBER j)) ?e1"
  let ?e3 = "put (N + 28) (store_le 4 (get 4 (N + 28) ?e2 + 1 :: u32)) ?e2"
  have run: "seqE [store_bytes (block_ptr (TO_NUMBER j)) path, st32 (i_block N 0) (TO_NUMBER j), add32 (i_blocks N) 1] d2 = Inr ?e3"
    using B N(2) l by (simp add: bp i_block_def i_blocks_def add32_run INODE_SIZE_def)
  have "taken {N ..< N + INODE_SIZE} {j} d1 d2" using j by (simp add: taken_def)
  then have "taken {N ..< N + INODE_SIZE} {j} d d2" using taken_trans [OF t1] by force
  then have tk: "taken {N ..< N + INODE_SIZE} {j} d ?e3"
    by (rule taken_store) (use N ok l in \<open>auto simp: put_outside INODE_SIZE_def\<close>)
  have "get 2 (N + 0) d2 = (get 2 (N + 0) d1 :: u16)" "get 4 (N + 4) d2 = (get 4 (N + 4) d1 :: u32)"
    by (rule get_cong; use j(7) ok1(3) N in simp)+
  then have m: "get 2 (i_mode N) ?e3 = EXT2_S_IFLNK" "get 4 (i_size N) ?e3 = (of_nat (length path) :: u32)"
    using ap d1(2,3) l by (auto simp: i_mode_def i_size_def get_put_other)
  have b: "get 4 (i_block N 0) ?e3 = TO_NUMBER j" "bytes (length path) (block_at j) ?e3 = path"
    using ap l by (auto simp: i_block_def get_put_other get_put_same bytes_put_other bytes_put_same)
  show ?thesis
    using d1(1) j(1,2) to_number_nonzero [OF B] run jd tk m b
    by (intro exI [of _ d1] exI [of _ j] exI [of _ d2] exI [of _ ?e3]) simp
qed

lemma symbolic_link_run:
  assumes ok: "fs_ok d" and r: "1 < inode_count d" and u: "used_dir d (inode_at d 1) ess"
    and fr: "free_inodes d \<noteq> {}" "1 + entry_blocks d ess nm \<le> card (free_blocks d)"
    and nm: "length nm < 256" and room: "can_enter d ess nm" and a: "a \<in> set (concat ess)" and l: "length path \<le> EXT2_BLOCK_SIZE"
  shows "\<exists>d' i J ess'. symbolic_link E a None path nm d = Inr (0, d') \<and> i \<in> free_inodes d \<and> J \<subseteq> free_blocks d \<and>
    card J = 1 + entry_blocks d ess nm \<and> fs_ok d' \<and> free_inodes d' = free_inodes d - {i} \<and> free_blocks d' = free_blocks d - J \<and>
    table_addr d' = table_addr d \<and> dir_ok d' (inode_at d 1) ess' \<and>
    new_name d ess d' ess' (nm, TO_NUMBER i, if entry_blocks d ess nm = 0 then EXT2_FT_SYMLINK else e_file_type d a) \<and>
    links_to d' (inode_at d i) path \<and>
    (\<forall>m < inode_count d. m \<noteq> 1 \<longrightarrow> m \<noteq> i \<longrightarrow> (\<forall>x. inode_at d m \<le> x \<and> x < inode_at d m + INODE_SIZE \<longrightarrow> d' x = d x))"
proof -
  obtain i d1 where t: "find_free_inode d = Inr (TO_NUMBER i)" "TO_NUMBER i \<noteq> 0" "update_bitmap CHR ''i'' (TO_NUMBER i) True d = Inr d1"
    "i \<in> free_inodes d" "fs_ok d1" "free_inodes d1 = free_inodes d - {i}" "free_blocks d1 = free_blocks d"
    "\<forall>a \<ge> table_addr d. d1 a = d a" "table_addr d1 = table_addr d" using take_inode [OF ok fr(1)] by blast
  let ?N = "inode_at d i" and ?P = "inode_at d 1" and ?A = "{inode_at d i ..< inode_at d i + INODE_SIZE}"
  have i1: "i \<noteq> 1" using t(4) by (auto simp: free_inodes_def EXT2_GOOD_OLD_FIRST_INO_def)
  have bounds: "i < inode_count d" using free_inode_bound [OF ok t(4)] by simp
  have iB: "i < BITS" using bounds fs_okD(4) [OF ok] by simp
  have N1: "?N = inode_at d1 i" by (simp add: inode_at_def t(9))
  have "cell_ok d ?N INODE_SIZE" using inode_cell [OF ok] bounds by simp
  then have c1: "cell_ok d1 ?N INODE_SIZE" using t(7,9) by (simp add: cell_ok_def)
  have "free_blocks d1 \<noteq> {}" using fr(2) t(7) by auto
  from fresh_link [OF t(5) this c1 l, of E]
  obtain e1 j e2 e3 where f: "init_inode E ?N EXT2_S_IFLNK (of_nat (length path)) d1 = Inr e1" "find_free_block e1 = Inr (TO_NUMBER j)"
    "TO_NUMBER j \<noteq> 0" "update_bitmap CHR ''b'' (TO_NUMBER j) True e1 = Inr e2"
    "seqE [store_bytes (block_ptr (TO_NUMBER j)) path, st32 (i_block ?N 0) (TO_NUMBER j), add32 (i_blocks ?N) 1] e2 = Inr e3"
    "j \<in> free_blocks d1" "taken ?A {j} d1 e3" "get 2 (i_mode ?N) e3 = EXT2_S_IFLNK" "get 4 (i_size ?N) e3 = (of_nat (length path) :: u32)"
    "get 4 (i_block ?N 0) e3 = TO_NUMBER j" "bytes (length path) (block_at j) e3 = path" by blast
  have T: "fs_ok e3" "free_blocks e3 = free_blocks d - {j}" "free_inodes e3 = free_inodes d - {i}" "table_addr e3 = table_addr d"
    using f(7) t(6,7,9) by (auto simp: taken_def)
  have jd: "j \<in> free_blocks d" "{j} \<subseteq> free_blocks d" using f(6) t(7) by auto
  have un: "unchanged ?A {j} d e3"
  proof (rule unchangedI)
    fix x assume x: "table_addr d \<le> x" "x \<notin> ?A" "\<And>i. i \<in> {j} \<Longrightarrow> x < block_at i \<or> block_at i + EXT2_BLOCK_SIZE \<le> x"
    then have "e3 x = d1 x" using taken_unchanged [OF f(7)] t(9) unfolding unchanged_def by auto
    then show "e3 x = d x" using t(8) x(1) by simp
  qed
  note I = inode_in_table [OF bounds] inode_in_table [OF r]
  have NP: "?N + INODE_SIZE \<le> ?P \<or> ?P + INODE_SIZE \<le> ?N" by (rule inode_at_apart [OF i1])
  have A: "\<forall>x \<in> ?A. x < i_block ?P 0 \<or> i_block ?P 15 \<le> x" "\<forall>x \<in> ?A. x < table_end d"
    using NP I by (auto simp: i_block_def INODE_SIZE_def)
  have fe: "free_blocks e3 \<subseteq> free_blocks d" "entry_blocks d ess nm \<le> card (free_blocks e3)"
    using T(2) fr(2) jd(1) by (auto simp: card_Diff_singleton)
  have o: "dir_ok d ?P ess" using u by (simp add: used_dir_def)
  obtain b where b: "b \<in> set (dir_blocks d ?P)" "block_start b \<le> a" "a + e_rec_len d a \<le> block_start b + EXT2_BLOCK_SIZE"
    "entry_fits d a" using entry_in_dir [OF o a] by blast
  have a8: "a + 8 \<le> block_start b + EXT2_BLOCK_SIZE" "a + 8 \<le> DISK_SIZE"
    using b(3,4) entry_bound(2,3) [OF o a] by (auto simp: entry_fits_def)
  have aT: "table_end d \<le> a" using u b(1,2) by (auto simp: used_dir_def)
  have aj: "\<forall>j \<in> free_blocks d. a + 7 < block_at j \<or> block_at j + EXT2_BLOCK_SIZE \<le> a + 7"
    using used_block_apart [OF u b(1)] b(2) a8(1) by force
  have af: "e3 (de_file_type a) = e_file_type d a"
  proof -
    have "table_addr d \<le> a + 7" "a + 7 \<notin> ?A" using I(2) aT by (auto simp: table_end_def)
    then have "e3 (a + 7) = d (a + 7)" using un bspec [OF aj jd(1)] by (auto simp: unchanged_def)
    then show ?thesis by (simp add: e_file_type_def de_file_type_def)
  qed
  obtain d' K where s: "bindE (add_to_blocks ?P (TO_NUMBER i) nm EXT2_FT_SYMLINK e3) (\<lambda>(found, d).
      bindE (if found then Inr (True, d) else symlink_in_new_block a ?P (TO_NUMBER i) (TO_NUMBER j) nm d) (\<lambda>(found, d).
      Inr (if found then 0 else ENOSPC, d))) = Inr (0, d')"
    "name_added d ?P ess (nm, TO_NUMBER i, if entry_blocks d ess nm = 0 then EXT2_FT_SYMLINK else e_file_type d a) e3 d' K"
    using enter_symlink_run [OF ok u refl r jd(2) un A T(1,4) fe(1) nm t(2) room fe(2) aT a8(2) aj af] by blast
  then obtain ess' where n: "dir_ok d' ?P ess'"
    "new_name d ess d' ess' (nm, TO_NUMBER i, if entry_blocks d ess nm = 0 then EXT2_FT_SYMLINK else e_file_type d a)"
    by (auto simp: name_added_def)
  have q: "fs_ok d'" "K \<subseteq> free_blocks d - {j}" "free_blocks d' = free_blocks d - {j} - K" "free_inodes d' = free_inodes d - {i}"
    "card K = entry_blocks d ess nm" "table_addr d' = table_addr d" using s(2) T by (auto simp: name_added_def)
  have keep: "d' y = e3 y" if "table_addr d \<le> y" "y < ?P \<or> ?P + INODE_SIZE \<le> y" "outside_blocks (dir_blocks d ?P) y"
    "\<And>b. b \<in> K \<Longrightarrow> y < block_at b \<or> block_at b + EXT2_BLOCK_SIZE \<le> y" for y
    using s(2) that unfolding name_added_def by auto
  have keepI: "d' x = e3 x" if m: "m < inode_count d" "m \<noteq> 1" and x: "inode_at d m \<le> x" "x < inode_at d m + INODE_SIZE" for m x
  proof (rule keep)
    show "table_addr d \<le> x" using inode_in_table(1) [OF m(1)] x(1) by simp
    show "x < ?P \<or> ?P + INODE_SIZE \<le> x" using inode_at_apart [OF m(2), of d] x by auto
    show "outside_blocks (dir_blocks d ?P) x" by (rule used_dir_sep [OF u m(1) x])
    show "x < block_at b \<or> block_at b + EXT2_BLOCK_SIZE \<le> x" if "b \<in> K" for b
      using fs_ok_free(1) [OF ok, of b] that q(2) inode_in_table(2) [OF m(1)] x(2) by force
  qed
  have link: "links_to d' ?N path"
  proof -
    have N: "d' x = e3 x" if "?N \<le> x" "x < ?N + INODE_SIZE" for x by (rule keepI [OF bounds i1 that])
    have "get 2 (?N + 0) d' = (get 2 (?N + 0) e3 :: u16)" "get 4 (?N + 4) d' = (get 4 (?N + 4) e3 :: u32)"
      "get 4 (?N + 40) d' = (get 4 (?N + 40) e3 :: u32)"
      by (intro get_cong N; simp add: INODE_SIZE_def)+
    moreover have "bytes (length path) (block_at j) d' = bytes (length path) (block_at j) e3"
    proof (intro bytes_cong keep)
      fix x assume "x < length path"
      then have x: "block_at j \<le> block_at j + x" "block_at j + x < block_at j + EXT2_BLOCK_SIZE" using l by simp_all
      have "table_end d \<le> block_at j + x" using fs_ok_free(1) [OF ok jd(1)] by simp
      then show "table_addr d \<le> block_at j + x" "block_at j + x < ?P \<or> ?P + INODE_SIZE \<le> block_at j + x" using I by auto
      show "outside_blocks (dir_blocks d ?P) (block_at j + x)"
        using used_block_apart [OF u _ jd(1)] x by (force simp: outside_blocks_def)
      show "block_at j + x < block_at b \<or> block_at b + EXT2_BLOCK_SIZE \<le> block_at j + x" if "b \<in> K" for b
        using block_at_apart [of b j] that q(2) x by force
    qed
    moreover have "j < BITS" using fs_okD(3) [OF ok] jd(1) by (simp add: free_blocks_def unmarked_def)
    ultimately show ?thesis
      using f(8-11) fs_ok_free(2) [OF ok jd(1)] unfolding links_to_def i_mode_def i_size_def i_block_def by auto
  qed
  have other: "d' x = d x" if m: "m < inode_count d" "m \<noteq> 1" "m \<noteq> i" and x: "inode_at d m \<le> x" "x < inode_at d m + INODE_SIZE" for m x
  proof -
    note M = inode_in_table [OF m(1)]
    have "e3 x = d x"
      using un inode_at_apart [OF m(3), of d] M x fs_ok_free(1) [OF ok jd(1)] by (auto simp: unchanged_def)
    then show ?thesis using keepI [OF m(1,2) x] by simp
  qed
  have J: "insert j K \<subseteq> free_blocks d" "card (insert j K) = 1 + entry_blocks d ess nm" "free_blocks d' = free_blocks d - insert j K"
    using jd(1) q(2,3,5) finite_subset [OF q(2)] by (auto simp: card_insert_if)
  have run: "symbolic_link E a None path nm d = Inr (0, d')"
    using root_run [OF ok] t(1-3) inode_ptr_at [OF t(5) iB] N1 f(1-5) s(1) l
    by (simp add: symbolic_link_def scaled_inode_def split_def del: One_nat_def)
  have others: "\<forall>m < inode_count d. m \<noteq> 1 \<longrightarrow> m \<noteq> i \<longrightarrow> (\<forall>x. inode_at d m \<le> x \<and> x < inode_at d m + INODE_SIZE \<longrightarrow> d' x = d x)"
    using other by blast
  show ?thesis
    by (rule exI [of _ d'], rule exI [of _ i], rule exI [of _ "insert j K"], rule exI [of _ ess'])
      (intro conjI run t(4) J(1,2) q(1,4) J(3) q(6) n link others)
qed

section \<open>Following the link\<close>

lemma read_step:
  assumes "slack E" "find_dir_entry path d = Inr (Some e)" "e + 8 \<le> DISK_SIZE" "e_inode d e = TO_NUMBER i"
    and ok: "fs_ok d" "i < BITS" "inode_at d i + INODE_SIZE \<le> DISK_SIZE"
  shows "get 2 (i_mode (inode_at d i)) d \<noteq> EXT2_S_IFLNK \<Longrightarrow> read_symbolic_link (Suc k) E path d = Inr (Some (inode_at d i))"
    and "links_to d (inode_at d i) target \<Longrightarrow> 0 \<notin> set target \<Longrightarrow> length target < PATH_MAX \<Longrightarrow>
      read_symbolic_link (Suc k) E path d = read_symbolic_link k E target d"
proof -
  let ?N = "inode_at d i"
  have n: "copy_path E path = Inr path" "ld32 (de_inode e) d = Inr (TO_NUMBER i)" "inode_ptr (TO_NUMBER i) d = Inr ?N"
    "ld16 (i_mode ?N) d = Inr (get 2 (i_mode ?N) d)"
    using assms inode_ptr_at [OF ok(1,2)] by (simp_all add: copy_path_def e_inode_def de_inode_def i_mode_def INODE_SIZE_def)
  show "get 2 (i_mode ?N) d \<noteq> EXT2_S_IFLNK \<Longrightarrow> read_symbolic_link (Suc k) E path d = Inr (Some ?N)"
    using n assms(2) by simp
  assume l: "links_to d ?N target" "0 \<notin> set target" "length target < PATH_MAX"
  then obtain j where j: "get 2 (i_mode ?N) d = EXT2_S_IFLNK" "get 4 (i_size ?N) d = (of_nat (length target) :: u32)"
    "block_at j + EXT2_BLOCK_SIZE \<le> DISK_SIZE" "get 4 (i_block ?N 0) d = TO_NUMBER j" "bytes (length target) (block_at j) d = target"
    by (auto simp: links_to_def)
  have "unat (of_nat (length target) :: u32) = length target"
    using l(3) by (simp add: PATH_MAX_def unat_of_nat take_bit_nat_eq_self)
  moreover have "ld32 (i_block ?N 0) d = Inr (TO_NUMBER j)" "ld32 (i_size ?N) d = Inr (of_nat (length target))"
    using j(2,4) ok(3) by (simp_all add: i_block_def i_size_def INODE_SIZE_def)
  moreover have "load_bytes (length target) (block_at j) d = Inr target" using j(3,5) l(3) by (simp add: load_bytes_def PATH_MAX_def EXT2_BLOCK_SIZE_def)
  moreover have "takeWhile (\<lambda>c. c \<noteq> 0) target = target" using l(2) by (auto simp: takeWhile_eq_all_conv)
  ultimately show "read_symbolic_link (Suc k) E path d = read_symbolic_link k E target d"
    using n assms(2) j(1) block_ptr_number [OF j(3)] l(3) by (simp del: takeWhile_eq_all_conv)
qed

text \<open>The command for two names in the root directory.\<close>

lemma ln_symbolic_run:
  assumes ok: "fs_ok d" and E: "slack E" and c: "component c" "0 \<notin> set c" "length c + 1 < PATH_MAX"
    and t: "takes_name d 1 ess nm" "length nm \<le> length c"
    and a: "find (names d c) (concat ess) = Some a" "e_inode d a = TO_NUMBER m" "m < inode_count d" "m \<noteq> 1" "m \<notin> free_inodes d"
      "e_file_type d a \<noteq> EXT2_FT_DIR" "get 2 (i_mode (inode_at d m)) d \<noteq> EXT2_S_IFLNK"
    and fb: "1 + entry_blocks d ess nm \<le> card (free_blocks d)"
  shows "\<exists>d' i J ess'. ln fuel E True (join_path [c]) (join_path [nm]) d = Inr (0, d') \<and> i \<in> free_inodes d \<and>
    J \<subseteq> free_blocks d \<and> card J = 1 + entry_blocks d ess nm \<and> fs_ok d' \<and> free_inodes d' = free_inodes d - {i} \<and>
    free_blocks d' = free_blocks d - J \<and> dir_ok d' (inode_at d 1) ess' \<and>
    new_name d ess d' ess' (nm, TO_NUMBER i, if entry_blocks d ess nm = 0 then EXT2_FT_SYMLINK else e_file_type d a) \<and>
    links_to d' (inode_at d i) (join_path [c]) \<and>
    read_symbolic_link (Suc (Suc k)) E (join_path [nm]) d' = Inr (Some (inode_at d m))"
proof -
  have R: "1 < inode_count d" "used_dir d (inode_at d 1) ess" "can_enter d ess nm" "nm \<notin> fst ` set (listing d (concat ess))"
    "free_inodes d \<noteq> {}" "component nm" "length nm < 256" using t by (auto simp: takes_name_def)
  have n: "a \<in> set (concat ess)" "names d c a" using find_in_set [OF a(1)] by simp_all
  have o: "dir_ok d (inode_at d 1) ess" using R(2) by (simp add: used_dir_def)
  have ne: "c \<noteq> nm" using R(4) a(1) listing_no_name [of d nm "concat ess"] by auto
  have len: "length (join_path [c]) = Suc (length c)" "length (join_path [nm]) = Suc (length nm)" by (simp_all add: join_path_def)
  have l: "length (join_path [c]) \<le> EXT2_BLOCK_SIZE" using c(3) len by (simp add: PATH_MAX_def EXT2_BLOCK_SIZE_def)
  obtain d' i J ess' where s: "symbolic_link E a None (join_path [c]) nm d = Inr (0, d')" "i \<in> free_inodes d" "J \<subseteq> free_blocks d"
    "card J = 1 + entry_blocks d ess nm" "fs_ok d'" "free_inodes d' = free_inodes d - {i}" "free_blocks d' = free_blocks d - J"
    "table_addr d' = table_addr d" "dir_ok d' (inode_at d 1) ess'"
    "new_name d ess d' ess' (nm, TO_NUMBER i, if entry_blocks d ess nm = 0 then EXT2_FT_SYMLINK else e_file_type d a)"
    "links_to d' (inode_at d i) (join_path [c])"
    "\<forall>m < inode_count d. m \<noteq> 1 \<longrightarrow> m \<noteq> i \<longrightarrow> (\<forall>x. inode_at d m \<le> x \<and> x < inode_at d m + INODE_SIZE \<longrightarrow> d' x = d x)"
    using symbolic_link_run [OF ok R(1,2,5) fb R(7,3) n(1) l, of E] by (elim exE conjE) (rule that)
  have dp: "dir_path d [] 1" by (simp add: dir_path_def)
  have found: "find_dir_entry (join_path [c]) d = Inr (Some a)"
    using entry_lookup [OF ok _ c(1) dp R(1,2) a(1)] by simp
  have a8: "a + 8 \<le> DISK_SIZE" using entry_bound(2,3) [OF o n(1)] by linarith
  have ft: "ld8 (de_file_type a) d = Inr (e_file_type d a)"
    using a8 get_1 [of "de_file_type a" d] by (simp add: e_file_type_def de_file_type_def del: One_nat_def)
  have part: "dir_part (join_path [nm]) = Inr [SLASH]" using dir_part_run [OF R(6), of "[]"] by (simp add: join_path_def)
  have buf: "copy_into E (length (join_path [c])) (join_path [nm]) = Inr (join_path [nm])"
    using t(2) E len by (auto simp: copy_into_def le_less)
  have miss: "find_dir_entry (join_path [nm]) d = Inr None"
    using lookup_missing [OF ok _ R(6) dp R(1,2,4), of "join_path [nm]"] by simp
  have name: "find_file_name_by_path (join_path [nm]) = Inr nm"
    using name_of_path [OF R(6), of "[]"] by (simp add: join_path_def)
  have run: "ln fuel E True (join_path [c]) (join_path [nm]) d = Inr (0, d')"
    using E found part ft a(6) buf miss name R(7) s(1) by (simp add: ln_def copy_path_def EXT2_BLOCK_SIZE_def)
  have at: "inode_at d' k = inode_at d k" for k by (simp add: inode_at_def s(8))
  have B: "i < inode_count d" "i < BITS" "m < BITS" "i \<noteq> 1"
    using free_inode_bound [OF ok s(2)] a(3) fs_okD(4) [OF ok] s(2) by (auto simp: free_inodes_def EXT2_GOOD_OLD_FIRST_INO_def)
  have D: "inode_at d i + INODE_SIZE \<le> DISK_SIZE" "inode_at d m + INODE_SIZE \<le> DISK_SIZE"
    using inode_in_table(2) [OF B(1)] inode_in_table(2) [OF a(3)] fs_okD(7) [OF ok] by simp_all
  have look: "find_dir_entry (join_path [w]) d' = Inr (Some b) \<and> b + 8 \<le> DISK_SIZE"
    if w: "component w" "find (names d' w) (concat ess') = Some b" for w b
  proof -
    have b8: "b + 8 \<le> DISK_SIZE" using entry_bound(2,3) [OF s(9)] find_in_set [OF w(2)] by fastforce
    then have "leads_to d' (inode_at d' 1) [w] b" using s(9) w(2) at by (intro leads_to.here) auto
    then show ?thesis using find_dir_entry_leads [OF root_run [OF s(5)]] w(1) b8 by simp
  qed
  obtain x where x: "find (names d' nm) (concat ess') = Some x" "e_inode d' x = TO_NUMBER i"
  proof -
    obtain l1 l2 where l: "listing d (concat ess) = l1 @ l2"
      "listing d' (concat ess') = l1 @ (nm, TO_NUMBER i, if entry_blocks d ess nm = 0 then EXT2_FT_SYMLINK else e_file_type d a) # l2"
      using s(10) by (auto simp: new_name_def)
    show ?thesis using listing_find [OF l(2)] R(4) l(1) that by (auto simp: entry_view_def)
  qed
  obtain b where b: "find (names d' c) (concat ess') = Some b" "e_inode d' b = TO_NUMBER m"
    using other_name_found [OF s(10) ne a(1)] a(2) by (auto simp: entry_view_def)
  have mode: "get 2 (i_mode (inode_at d' m)) d' \<noteq> EXT2_S_IFLNK"
  proof -
    have "get 2 (inode_at d m + 0) d' = (get 2 (inode_at d m + 0) d :: u16)"
      by (rule get_cong) (use s(2,12) a(3,4,5) in \<open>auto simp: INODE_SIZE_def\<close>)
    then show ?thesis using a(7) by (simp add: at i_mode_def)
  qed
  have "0 \<notin> set (join_path [c])" using c(2) by (simp add: join_path_def SLASH_def)
  then have "read_symbolic_link (Suc (Suc k)) E (join_path [nm]) d' = Inr (Some (inode_at d m))"
    using read_step(2) [OF E conjunct1 [OF look [OF R(6) x(1)]] conjunct2 [OF look [OF R(6) x(1)]] x(2) s(5) B(2)]
      read_step(1) [OF E conjunct1 [OF look [OF c(1) b(1)]] conjunct2 [OF look [OF c(1) b(1)]] b(2) s(5) B(3)]
      mode D at s(11) c(3) len(1) by simp
  then show ?thesis using run s(2-7,9-11) by blast
qed

section \<open>In a directory other than the root\<close>

text \<open>
  The index of the directory's inode is scaled by the size of an inode before the pointer
  arithmetic scales it again: for an inode number of 9 or more the address is past the image, and
  the search for a place in the directory reads there, unless the command gives up before.
\<close>

lemma scaled_past_end:
  assumes "fs_ok d" and e: "ld32 (de_inode e) d = Inr (TO_NUMBER k)" and k: "8 \<le> k" "k < BITS"
  shows "\<exists>t. scaled_inode (Some e) d = Inr t \<and> DISK_SIZE \<le> t"
proof -
  have t: "get_inode_table d = Inr (table_addr d)"
    by (simp add: get_inode_table_def table_addr_def field_defs get_group_descriptor_def disk_size)
  have "unat (TO_INDEX (TO_NUMBER k)) = k" using unat_dec [OF unat_to_number [OF k(2)]] by (simp add: TO_INDEX_def)
  then have "scaled_inode (Some e) d = Inr (table_addr d + k * INODE_SIZE * INODE_SIZE)" by (simp add: scaled_inode_def t e)
  moreover have "DISK_SIZE \<le> k * INODE_SIZE * INODE_SIZE" using k(1) by (simp add: disk_size INODE_SIZE_def)
  ultimately show ?thesis by auto
qed

lemma symbolic_link_outside:
  assumes ok: "fs_ok d" and e: "ld32 (de_inode e) d = Inr (TO_NUMBER k)" "8 \<le> k" "k < BITS"
  shows "if free_inodes d = {} then symbolic_link E a (Some e) path nm d = Inr (ENOSPC, d)
    else if free_blocks d = {} \<or> EXT2_BLOCK_SIZE < length path then \<exists>d'. symbolic_link E a (Some e) path nm d = Inr (ENOSPC, d')
    else symbolic_link E a (Some e) path nm d = Inl Out_Of_Bounds"
proof (cases "free_inodes d = {}")
  case True
  then show ?thesis using scaled_past_end [OF ok e] no_free_inode [OF ok] by (auto simp: symbolic_link_def)
next
  case False
  obtain q where q: "scaled_inode (Some e) d = Inr q" "DISK_SIZE \<le> q" using scaled_past_end [OF ok e] by blast
  obtain i d1 where t: "find_free_inode d = Inr (TO_NUMBER i)" "TO_NUMBER i \<noteq> 0" "update_bitmap CHR ''i'' (TO_NUMBER i) True d = Inr d1"
    "i \<in> free_inodes d" "fs_ok d1" "free_blocks d1 = free_blocks d" "table_addr d1 = table_addr d" using take_inode [OF ok False] by blast
  let ?N = "inode_at d1 i"
  have i: "i < inode_count d" "i < BITS" using free_inode_bound [OF ok t(4)] fs_okD(4) [OF ok] by simp_all
  have "cell_ok d (inode_at d i) INODE_SIZE" using inode_cell [OF ok i(1)] .
  then have c1: "cell_ok d1 ?N INODE_SIZE" using t(6,7) by (simp add: cell_ok_def inode_at_def)
  then have N: "table_addr d1 \<le> ?N" "?N + INODE_SIZE \<le> DISK_SIZE" by (auto simp: cell_ok_def)
  note ip = inode_ptr_at [OF t(5) i(2)]
  have past: "add_to_blocks q ino nm ft x = Inl Out_Of_Bounds" for ino ft x
    unfolding add_to_blocks_def by (rule try_blocks_past_end [OF q(2)]) (simp add: TOTAL_BLOCK_COUNT_def)
  obtain e1 where e1: "init_inode E ?N EXT2_S_IFLNK (of_nat (length path)) d1 = Inr e1" "\<forall>x. x < ?N \<or> ?N + INODE_SIZE \<le> x \<longrightarrow> e1 x = d1 x"
    using init_inode_run [OF N(2)] by blast
  have "taken {?N ..< ?N + INODE_SIZE} {} d1 e1"
    by (rule taken_store [OF taken_refl [OF t(5)] _ _ t(5)]) (use e1(2) N in auto)
  then have k1: "fs_ok e1" "free_blocks e1 = free_blocks d" using t(6) by (auto simp: taken_def)
  show ?thesis
  proof (cases "free_blocks d = {}")
    case True
    have "update_bitmap CHR ''i'' (TO_NUMBER i) False e1 = Inr (with_bit CHR ''i'' (unat (TO_NUMBER i) - 1) False e1)"
      by (rule update_bitmap_run [OF fs_okD(2) [OF k1(1)] t(2)]) (use unat_to_number [OF i(2)] i(2) in simp)
    then show ?thesis using False True q(1) t(1-3) ip e1(1) no_free_block [OF k1(1)] k1(2) by (simp add: symbolic_link_def)
  next
    case some: False
    show ?thesis
    proof (cases "EXT2_BLOCK_SIZE < length path")
      case True
      obtain j d2 where "find_free_block e1 = Inr (TO_NUMBER j)" "update_bitmap CHR ''b'' (TO_NUMBER j) True e1 = Inr d2" "j \<in> free_blocks e1"
        using take_block [OF k1(1)] some k1(2) by metis
      moreover from this have "TO_NUMBER j \<noteq> 0" using to_number_nonzero [OF fs_ok_free(2) [OF k1(1)]] by blast
      ultimately show ?thesis using False True q(1) t(1-3) ip e1(1) by (simp add: symbolic_link_def)
    next
      case short: False
      then have "length path \<le> EXT2_BLOCK_SIZE" by simp
      from fresh_link [OF t(5) _ c1 this, of E] some t(6) obtain e1 j e2 e3
        where "init_inode E ?N EXT2_S_IFLNK (of_nat (length path)) d1 = Inr e1" "find_free_block e1 = Inr (TO_NUMBER j)"
          "TO_NUMBER j \<noteq> 0" "update_bitmap CHR ''b'' (TO_NUMBER j) True e1 = Inr e2"
          "seqE [store_bytes (block_ptr (TO_NUMBER j)) path, st32 (i_block ?N 0) (TO_NUMBER j), add32 (i_blocks ?N) 1] e2 = Inr e3"
        by auto
      then show ?thesis using False some short q(1) t(1-3) ip past by (simp add: symbolic_link_def)
    qed
  qed
qed

lemma ln_symbolic_outside:
  assumes ok: "fs_ok d" and E: "slack E"
    and src: "\<forall>c \<in> set src. component c" "reaches d 1 src a" "e_file_type d a \<noteq> EXT2_FT_DIR"
    and cs: "\<forall>c \<in> set cs. component c" "length (join_path cs) < 2 ^ 31" "length (join_path (cs @ [nm])) \<le> length (join_path src)"
    and dir: "to_directory d cs k (Some e)" "8 \<le> k"
    and R: "k < inode_count d" "used_dir d (inode_at d k) ess" "nm \<notin> fst ` set (listing d (concat ess))" "component nm" "length nm < 256"
  shows "if free_inodes d = {} then ln fuel E True (join_path src) (join_path (cs @ [nm])) d = Inr (ENOSPC, d)
    else if free_blocks d = {} \<or> EXT2_BLOCK_SIZE < length (join_path src)
      then \<exists>d'. ln fuel E True (join_path src) (join_path (cs @ [nm])) d = Inr (ENOSPC, d')
    else ln fuel E True (join_path src) (join_path (cs @ [nm])) d = Inl Out_Of_Bounds"
proof -
  have r: "reaches d 1 cs e" "e_inode d e = TO_NUMBER k" using dir(1) by (auto simp: to_directory_def)
  have "ld32 (de_inode e) d = Inr (TO_NUMBER k)" using reaches_entry [OF r(1)] r(2) by (simp add: e_inode_def de_inode_def)
  moreover have "k < BITS" using R(1) fs_okD(4) [OF ok] by simp
  moreover have "ln fuel E True (join_path src) (join_path (cs @ [nm])) d = symbolic_link E a (Some e) (join_path src) nm d"
    using ln_command [OF ok E src cs dir(1) R, of fuel True] by simp
  ultimately show ?thesis using symbolic_link_outside [OF ok _ dir(2), of e E a "join_path src" nm] by simp
qed

end
