(* ===== verification/Ext2_Image.thy ===== *)
theory Ext2_Image
  imports Ext2_Listing C_Text
begin

text \<open>
  readimage.c: the dump of an image, as the text it prints.  The condition on the
  member \<open>inode\<close> of \<open>struct ext2_inode\<close>, which ext2.h does not declare, is a
  parameter (\<open>has_inode\<close>).  The image is the mapping of \<open>DISK_SIZE\<close> bytes; block
  numbers held in an \<open>int\<close> give a pointer before the mapping when they are negative.
\<close>

definition bg_used_dirs_count :: "nat \<Rightarrow> nat" where "bg_used_dirs_count gd = gd + 16"

section \<open>Super block, group descriptor and bitmaps\<close>

text \<open>Lines 29-42.\<close>

definition image_header :: "disk \<Rightarrow> string res" where
  "image_header d =
    (let sb = get_super_block; gd = get_group_descriptor in
     bindE (ld32 (s_inodes_count sb) d) (\<lambda>ni.
     bindE (ld32 (s_blocks_count sb) d) (\<lambda>nb.
     bindE (ld32 (bg_block_bitmap gd) d) (\<lambda>bb.
     bindE (ld32 (bg_inode_bitmap gd) d) (\<lambda>ib.
     bindE (ld32 (bg_inode_table gd) d) (\<lambda>it.
     bindE (ld16 (bg_free_blocks_count gd) d) (\<lambda>fb.
     bindE (ld16 (bg_free_inodes_count gd) d) (\<lambda>fi.
     bindE (ld16 (bg_used_dirs_count gd) d) (\<lambda>ud.
     Inr (''Inodes: '' @ show_d ni @ nl @ ''Blocks: '' @ show_d nb @ nl @ ''Block group:'' @ nl @
       ''    block bitmap: '' @ show_d bb @ nl @ ''    inode bitmap: '' @ show_d ib @ nl @
       ''    inode table: '' @ show_d it @ nl @ ''    free blocks: '' @ show_u fb @ nl @
       ''    free inodes: '' @ show_u fi @ nl @ ''    used_dirs: '' @ show_u ud))))))))))"

text \<open>\<open>disk + EXT2_BLOCK_SIZE * n\<close> for an \<open>int n\<close>.\<close>

definition int_block_ptr :: "u32 \<Rightarrow> nat res" where
  "int_block_ptr n =
    (let a = int EXT2_BLOCK_SIZE * sint n in
     if 0 \<le> a \<and> a < 2 ^ 31 then Inr (nat a) else Inl Out_Of_Bounds)"

text \<open>The bits of one byte, least significant first, and the loops of lines 58-65 and 80-88.\<close>

definition byte_bits :: "u8 \<Rightarrow> string" where
  "byte_bits w = concat (map (\<lambda>k. show_u (drop_bit k w AND 1)) [0 ..< 8])"

definition print_bits :: "nat \<Rightarrow> u32 \<Rightarrow> disk \<Rightarrow> string res" where
  "print_bits p num d =
    forE (\<lambda>i out. bindE (ld8 (p + i) d) (\<lambda>w. Inr (out @ byte_bits w @ '' '')))
      [0 ..< unat (scast num :: u64) div 8] ''''"

definition print_block_bitmap :: "disk \<Rightarrow> string res" where
  "print_block_bitmap d =
    bindE (ld32 (bg_block_bitmap get_group_descriptor) d) (\<lambda>bit_pos.
    bindE (ld32 (s_blocks_count get_super_block) d) (\<lambda>num_bit.
    bindE (int_block_ptr bit_pos) (\<lambda>p.
    bindE (print_bits p num_bit d) (\<lambda>t. Inr (nl @ ''Block bitmap: '' @ t)))))"

definition print_inode_bitmap :: "disk \<Rightarrow> string res" where
  "print_inode_bitmap d =
    bindE (ld32 (bg_inode_bitmap get_group_descriptor) d) (\<lambda>bit_pos.
    bindE (ld32 (s_inodes_count get_super_block) d) (\<lambda>num_bit.
    bindE (int_block_ptr bit_pos) (\<lambda>p.
    bindE (print_bits p num_bit d) (\<lambda>t. Inr (nl @ ''Inode bitmap: '' @ t @ nl @ nl)))))"

section \<open>Inodes\<close>

definition mode_char :: "u16 \<Rightarrow> char" where
  "mode_char mode =
    (if mode AND EXT2_S_IFREG \<noteq> 0 \<and> drop_bit 13 mode AND 1 = 0 then CHR ''f''
     else if mode AND EXT2_S_IFDIR \<noteq> 0 then CHR ''d''
     else if mode AND EXT2_S_IFLNK \<noteq> 0 then CHR ''l'' else CHR 0x00)"

text \<open>Lines 127-131: the last pointer in use.\<close>

definition last_pointer :: "nat \<Rightarrow> disk \<Rightarrow> nat option res" where
  "last_pointer p d = forE (\<lambda>k m. bindE (ld32 (i_block p k) d) (\<lambda>b. Inr (if b \<noteq> 0 then Some k else m))) [0 ..< 15] None"

text \<open>Lines 145-151: the pointers in the indirect block.\<close>

definition print_indirect :: "u32 \<Rightarrow> disk \<Rightarrow> string res" where
  "print_indirect b d =
    bindE (forE (\<lambda>h out. bindE (ld32 (block_ptr b + 4 * h) d) (\<lambda>x.
      Inr (if x \<noteq> 0 then out @ show_u x @ '' '' else out))) [0 ..< EXT2_BLOCK_SIZE div 4] '''') (\<lambda>t.
    Inr (nl @ ''Second level blocks: '' @ t))"

definition print_pointer :: "nat \<Rightarrow> nat option \<Rightarrow> nat \<Rightarrow> string \<Rightarrow> disk \<Rightarrow> string res" where
  "print_pointer p no_white_space k out d =
    bindE (ld32 (i_block p k) d) (\<lambda>b.
    if b = 0 then Inr out
    else
      let out = out @ show_u b @ (if no_white_space = Some k then '''' else '' '') in
      if k = 12 then bindE (print_indirect b d) (\<lambda>t. Inr (out @ t)) else Inr out)"

text \<open>An inode of interest (lines 104, 175): the root or one that is not reserved.\<close>

definition shown_index :: "nat \<Rightarrow> bool" where
  "shown_index i \<longleftrightarrow> i = 1 \<or> EXT2_GOOD_OLD_FIRST_INO \<le> i"

definition print_inode :: "(nat \<Rightarrow> disk \<Rightarrow> bool) \<Rightarrow> nat \<Rightarrow> nat \<Rightarrow> string \<Rightarrow> disk \<Rightarrow> string res" where
  "print_inode has_inode table i out d =
    (let p = table + i * INODE_SIZE in
     bindE (ld32 (i_size p) d) (\<lambda>size.
     if size \<noteq> 0 \<and> shown_index i \<and> has_inode p d then
       bindE (ld16 (i_mode p) d) (\<lambda>mode.
       bindE (ld16 (i_links_count p) d) (\<lambda>links.
       bindE (ld32 (i_blocks p) d) (\<lambda>blocks.
       bindE (last_pointer p d) (\<lambda>no_white_space.
       bindE (forE (\<lambda>k t. print_pointer p no_white_space k t d) [0 ..< 15] '''') (\<lambda>t.
       Inr (out @ ''['' @ show_nat (i + 1) @ ''] type: '' @ [mode_char mode] @ '' size: '' @ show_u size @
         '' links: '' @ show_u links @ '' blocks: '' @ show_u blocks @ nl @
         ''['' @ show_nat (i + 1) @ ''] Blocks:  '' @ t @ nl))))))
     else Inr out))"

section \<open>Directory blocks\<close>

definition type_char :: "u8 \<Rightarrow> char" where
  "type_char ft = (if ft = EXT2_FT_REG_FILE then CHR ''f'' else if ft = EXT2_FT_DIR then CHR ''d''
     else if ft = EXT2_FT_SYMLINK then CHR ''l'' else CHR 0x00)"

definition text_of :: "u8 list \<Rightarrow> string" where
  "text_of bs = map (\<lambda>b. char_of (unat b)) (up_to_zero bs)"

text \<open>One round of the loop of lines 208-238, with the position after it.\<close>

definition print_entry :: "nat \<Rightarrow> nat \<Rightarrow> disk \<Rightarrow> (string \<times> nat) res" where
  "print_entry pos dir d =
    bindE (ld8 (de_file_type dir) d) (\<lambda>ft.
    bindE (ld32 (de_inode dir) d) (\<lambda>ino.
    bindE (ld16 (de_rec_len dir) d) (\<lambda>rec_len.
    bindE (ld8 (de_name_len dir) d) (\<lambda>name_len.
    bindE (load_bytes (unat name_len) (de_name dir) d) (\<lambda>print_name.
    let pos = pos + unat rec_len in
    Inr (''Inode: '' @ show_u ino @ '' rec_len: '' @ show_u rec_len @ '' name_len: '' @ show_u name_len @
      '' type= '' @ [type_char ft] @ '' name='' @ text_of print_name @ nl @
      ''curr_pos: '' @ show_nat pos @ nl, unat rec_len))))))"

fun print_dir_block :: "nat \<Rightarrow> nat \<Rightarrow> nat \<Rightarrow> disk \<Rightarrow> string res" where
  "print_dir_block 0 pos dir d = Inl Out_Of_Fuel"
| "print_dir_block (Suc fuel) pos dir d =
    (if pos < EXT2_BLOCK_SIZE then
       bindE (print_entry pos dir d) (\<lambda>(t, n).
       bindE (print_dir_block fuel (pos + n) (dir + n) d) (\<lambda>rest. Inr (t @ rest)))
     else Inr '''')"

declare print_dir_block.simps [simp del]

definition print_dir_pointer :: "nat \<Rightarrow> nat \<Rightarrow> nat \<Rightarrow> string \<Rightarrow> disk \<Rightarrow> string res" where
  "print_dir_pointer i p k out d =
    bindE (ld32 (i_block p k) d) (\<lambda>b.
    if b = 0 then Inr out
    else
      bindE (int_block_ptr b) (\<lambda>dir.
      bindE (print_dir_block (Suc EXT2_BLOCK_SIZE) 0 dir d) (\<lambda>t.
      Inr (out @ ''   DIR BLOCK NUM: '' @ show_d b @ '' (for inode '' @ show_nat (i + 1) @ '')'' @ nl @ t))))"

definition print_directory :: "nat \<Rightarrow> nat \<Rightarrow> nat \<Rightarrow> string \<Rightarrow> disk \<Rightarrow> string res" where
  "print_directory table inode_bit_map i out d =
    (if shown_index i then
       bindE (ld8 (inode_bit_map + i div 8) d) (\<lambda>w.
       if drop_bit (i mod 8) w AND 1 = 0 then Inr out
       else
         bindE (ld16 (i_mode (table + i * INODE_SIZE)) d) (\<lambda>mode.
         if mode AND EXT2_S_IFDIR = 0 then Inr out
         else forE (\<lambda>k t. print_dir_pointer i (table + i * INODE_SIZE) k t d) [0 ..< 12] out))
     else Inr out)"

section \<open>main\<close>

definition print_inodes :: "(nat \<Rightarrow> disk \<Rightarrow> bool) \<Rightarrow> disk \<Rightarrow> string res" where
  "print_inodes has_inode d =
    bindE (get_inode_table d) (\<lambda>table.
    bindE (ld32 (s_inodes_count get_super_block) d) (\<lambda>count.
    forE (\<lambda>i t. print_inode has_inode table i t d) [0 ..< unat count] (''Inodes:'' @ nl)))"

definition print_directories :: "disk \<Rightarrow> string res" where
  "print_directories d =
    bindE (get_inode_table d) (\<lambda>table.
    bindE (ld32 (bg_inode_bitmap get_group_descriptor) d) (\<lambda>inode_bit_pos.
    bindE (ld32 (s_inodes_count get_super_block) d) (\<lambda>count.
    bindE (int_block_ptr inode_bit_pos) (\<lambda>m.
    forE (\<lambda>i t. print_directory table m i t d) [0 ..< unat count] (nl @ ''Directory Blocks:'' @ nl)))))"

definition readimage :: "(nat \<Rightarrow> disk \<Rightarrow> bool) \<Rightarrow> disk \<Rightarrow> string res" where
  "readimage has_inode d =
    bindE (image_header d) (\<lambda>t1.
    bindE (print_block_bitmap d) (\<lambda>t2.
    bindE (print_inode_bitmap d) (\<lambda>t3.
    bindE (print_inodes has_inode d) (\<lambda>t4.
    bindE (print_directories d) (\<lambda>t5.
    Inr (t1 @ t2 @ t3 @ t4 @ t5))))))"

text \<open>\<open>img\<close> is the mapping of the file named on the command line, \<open>None\<close> when it fails.\<close>

definition readimage_main :: "(nat \<Rightarrow> disk \<Rightarrow> bool) \<Rightarrow> cstring list \<Rightarrow> disk option \<Rightarrow> string res" where
  "readimage_main has_inode argv img =
    bindE (guardE Exit_Failure (length argv = 2)) (\<lambda>_.
    case img of None \<Rightarrow> Inl Exit_Failure | Some d \<Rightarrow> readimage has_inode d)"

end
