(* ===== verification/Ext2_Dump.thy ===== *)
theory Ext2_Dump
  imports Ext2_Image Ext2_Make
begin

text \<open>
  What \<open>readimage\<close> prints on a well-formed image: the header, the bitmaps bit by bit,
  the inodes in use with their block numbers, and every entry of every directory block that a direct pointer of an allocated directory
  inode names.  It reads nothing outside the image and its loops end.
\<close>

section \<open>Loops that append\<close>

lemma forE_returns:
  assumes "\<And>i out. i < n \<Longrightarrow> \<exists>out'. f i out = Inr out'"
  shows "\<exists>t'. forE f [0 ..< n] t = Inr t'"
  using forE_invariant [of n "\<lambda>_ _. True" f t] assms by blast

section \<open>The bitmaps\<close>

definition bit_text :: "char \<Rightarrow> disk \<Rightarrow> nat \<Rightarrow> string" where
  "bit_text ty d n = concat (map (\<lambda>i.
     map (\<lambda>k. if marked ty d (8 * i + k) then CHR ''1'' else CHR ''0'') [0 ..< 8] @ '' '') [0 ..< n div 8])"

lemma one_bit: "(w :: u8) AND 1 = (if bit w 0 then 1 else 0)"
proof (cases "bit w 0")
  case True
  have "w AND 1 = 1" by (rule bit_word_eqI) (use True in \<open>auto simp: bit_simps bit_word_1\<close>)
  then show ?thesis using True by simp
qed (use low_bit [of 0 w] in simp)

lemma byte_bits_text:
  "byte_bits w = map (\<lambda>k. if bit w k then CHR ''1'' else CHR ''0'') [0 ..< 8]"
proof -
  have "show_u (drop_bit k w AND 1) = [if bit w k then CHR ''1'' else CHR ''0'']" for k
    unfolding one_bit by (simp add: bit_simps show_u_def show_digit digit_chars digit_chars(2) [unfolded One_nat_def])
  then show ?thesis by (simp add: byte_bits_def)
qed

lemma int_block_ptr_plain:
  "unat b < EXT2_NUM_BLOCKS \<Longrightarrow> int_block_ptr b = Inr (EXT2_BLOCK_SIZE * unat b)"
proof -
  assume b: "unat b < EXT2_NUM_BLOCKS"
  then have "sint b = int (unat b)" by (intro sint_small) (simp add: EXT2_NUM_BLOCKS_def)
  then have a: "int EXT2_BLOCK_SIZE * sint b = int (EXT2_BLOCK_SIZE * unat b)" by simp
  have "EXT2_BLOCK_SIZE * unat b < 2 ^ 31" using b by (simp add: EXT2_BLOCK_SIZE_def EXT2_NUM_BLOCKS_def)
  then have "int (EXT2_BLOCK_SIZE * unat b) < 2 ^ 31" by (metis of_nat_less_iff of_nat_numeral of_nat_power)
  then show ?thesis unfolding int_block_ptr_def a Let_def nat_int by simp
qed

lemma block_ptr_plain: "unat b < EXT2_NUM_BLOCKS \<Longrightarrow> block_ptr b = EXT2_BLOCK_SIZE * unat b"
  by (simp add: block_ptr_def EXT2_BLOCK_SIZE_def EXT2_NUM_BLOCKS_def unat_word_ariths)

text \<open>The bitmap blocks are blocks of the image by their number, not only after the product wraps.\<close>

definition bitmaps_plain :: "disk \<Rightarrow> bool" where
  "bitmaps_plain d \<longleftrightarrow>
     unat (get 4 (bg_block_bitmap get_group_descriptor) d :: u32) < EXT2_NUM_BLOCKS \<and>
     unat (get 4 (bg_inode_bitmap get_group_descriptor) d :: u32) < EXT2_NUM_BLOCKS"

lemma print_bits_run:
  assumes ok: "bitmap_ok ty d" and n: "unat num \<le> BITS"
  shows "print_bits (bitmap_addr ty d) num d = Inr (bit_text ty d (unat num))"
proof -
  have small: "unat num < 2 ^ 31" using n by (simp add: BITS_def EXT2_BLOCK_SIZE_def)
  have "sint num = int (unat num)" by (rule sint_small [OF small])
  then have e: "(scast num :: u64) = of_nat (unat num)" unfolding scast_eq by (simp only: of_int_of_nat_eq)
  have c: "unat (scast num :: u64) = unat num" unfolding e unat_of_nat using small by (intro mod_less) simp
  have ld: "ld8 (bitmap_addr ty d + i) d = Inr (d (bitmap_addr ty d + i))" if i: "i < unat num div 8" for i
  proof -
    have "i < EXT2_BLOCK_SIZE" using i n unfolding BITS_def EXT2_BLOCK_SIZE_def by presburger
    then show ?thesis using ok get_1 [of "bitmap_addr ty d + i" d] by (simp add: bitmap_ok_def del: One_nat_def)
  qed
  show ?thesis unfolding print_bits_def c
    by (subst forE_concat [where g = "\<lambda>i. byte_bits (d (bitmap_addr ty d + i)) @ '' ''"])
      (auto simp: ld bit_text_def byte_bits_text marked_def intro!: arg_cong [where f = concat] simp del: One_nat_def)
qed

section \<open>Directory blocks\<close>

definition entry_text :: "disk \<Rightarrow> nat \<Rightarrow> nat \<Rightarrow> string" where
  "entry_text d b a = ''Inode: '' @ show_u (e_inode d a) @ '' rec_len: '' @ show_nat (e_rec_len d a) @
     '' name_len: '' @ show_u (e_name_len d a) @ '' type= '' @ [type_char (e_file_type d a)] @
     '' name='' @ text_of (e_name d a) @ nl @ ''curr_pos: '' @ show_nat (a + e_rec_len d a - b) @ nl"

lemma print_entry_run:
  assumes "entry_fits d a" and "a + e_rec_len d a \<le> DISK_SIZE" and "b \<le> a"
  shows "print_entry (a - b) a d = Inr (entry_text d b a, e_rec_len d a)"
  using entry_loads [OF assms(1,2)] assms(3)
  by (simp add: print_entry_def entry_text_def show_u_def e_rec_len_def [symmetric])

lemma print_dir_chain:
  assumes "chain_to d a es q" and "q = b + EXT2_BLOCK_SIZE" and "q \<le> DISK_SIZE" and "b \<le> a" and "length es < k"
  shows "print_dir_block k (a - b) a d = Inr (concat (map (entry_text d b) es))"
  using assms
proof (induction es arbitrary: a k)
  case Nil
  then obtain k' where "k = Suc k'" by (cases k) auto
  then show ?case using Nil by (simp add: print_dir_block.simps)
next
  case (Cons e es)
  then obtain k' where k: "k = Suc k'" by (cases k) auto
  have e: "e = a" "entry_fits d a" and rest: "chain_to d (a + e_rec_len d a) es q" using Cons.prems(1) by auto
  have l: "8 \<le> e_rec_len d a" "a + e_rec_len d a \<le> q"
    using e entry_size_bounds(3) [of "e_name_len d a"] chain_mono [OF rest] by (auto simp: entry_fits_def)
  have lt: "a - b < EXT2_BLOCK_SIZE" using l Cons.prems by linarith
  have dl: "a + e_rec_len d a \<le> DISK_SIZE" using l Cons.prems by linarith
  have IH: "print_dir_block k' (a + e_rec_len d a - b) (a + e_rec_len d a) d = Inr (concat (map (entry_text d b) es))"
    by (rule Cons.IH [OF rest]) (use Cons.prems l k in auto)
  have "a + e_rec_len d a - b = a - b + e_rec_len d a" using Cons.prems by simp
  then show ?case
    using lt IH print_entry_run [OF e(2) dl, of b] Cons.prems(4) e(1) k by (simp add: print_dir_block.simps)
qed

lemma print_dir_block_run:
  assumes "dir_block d b es"
  shows "print_dir_block (Suc EXT2_BLOCK_SIZE) 0 b d = Inr (concat (map (entry_text d b) es))"
  using print_dir_chain [of d b es "b + EXT2_BLOCK_SIZE" b "Suc EXT2_BLOCK_SIZE"] assms dir_block_length [OF assms]
  by (simp add: dir_block_def EXT2_BLOCK_SIZE_def)

text \<open>\<open>E b\<close> are the entries of block \<open>b\<close>.\<close>

definition pointer_text :: "disk \<Rightarrow> (u32 \<Rightarrow> nat list) \<Rightarrow> nat \<Rightarrow> u32 \<Rightarrow> string" where
  "pointer_text d E i b = (if b = 0 then '''' else
     ''   DIR BLOCK NUM: '' @ show_d b @ '' (for inode '' @ show_nat (i + 1) @ '')'' @ nl @
     concat (map (entry_text d (block_start b)) (E b)))"

definition is_dir :: "disk \<Rightarrow> nat \<Rightarrow> bool" where
  "is_dir d p \<longleftrightarrow> get 2 (i_mode p) d AND EXT2_S_IFDIR \<noteq> 0"

text \<open>The directories the dump looks at: shown, allocated, of directory mode.\<close>

definition dumped :: "disk \<Rightarrow> nat \<Rightarrow> bool" where
  "dumped d i \<longleftrightarrow> shown_index i \<and> marked CHR ''i'' d i \<and> is_dir d (inode_at d i)"

definition directory_text :: "disk \<Rightarrow> (u32 \<Rightarrow> nat list) \<Rightarrow> nat \<Rightarrow> string" where
  "directory_text d E i = (if dumped d i
     then concat (map (\<lambda>k. pointer_text d E i (inode_block d (inode_at d i) k)) [0 ..< 12]) else '''')"

definition dirs_ok :: "disk \<Rightarrow> (u32 \<Rightarrow> nat list) \<Rightarrow> bool" where
  "dirs_ok d E \<longleftrightarrow> (\<forall>i < inode_count d. dumped d i \<longrightarrow>
     (\<forall>k < 12. let b = inode_block d (inode_at d i) k in b \<noteq> 0 \<longrightarrow> dir_block d (block_start b) (E b)))"

lemma inode_at_in:
  assumes "fs_ok d" and "i < inode_count d"
  shows "inode_at d i + INODE_SIZE \<le> DISK_SIZE"
proof -
  have "Suc i * INODE_SIZE \<le> inode_count d * INODE_SIZE" using assms(2) by (intro mult_le_mono1) simp
  then show ?thesis using fs_okD(7) [OF assms(1)] by (simp add: inode_at_def table_end_def)
qed

lemma dir_block_plain: "dir_block d (block_start b) es \<Longrightarrow> unat b < EXT2_NUM_BLOCKS"
  by (simp add: dir_block_def DISK_SIZE_def EXT2_NUM_BLOCKS_def EXT2_BLOCK_SIZE_def)

lemma print_dir_pointer_run:
  assumes "p + INODE_SIZE \<le> DISK_SIZE" and "k < 12"
    and "inode_block d p k \<noteq> 0 \<longrightarrow> dir_block d (block_start (inode_block d p k)) (E (inode_block d p k))"
  shows "print_dir_pointer i p k out d = Inr (out @ pointer_text d E i (inode_block d p k))"
proof -
  have ld: "ld32 (i_block p k) d = Inr (inode_block d p k)"
    using assms(1,2) by (simp add: inode_block_def i_block_def INODE_SIZE_def)
  show ?thesis
  proof (cases "inode_block d p k = 0")
    case False
    note db = assms(3) [rule_format, OF False]
    show ?thesis using False ld print_dir_block_run [OF db] int_block_ptr_plain [OF dir_block_plain [OF db]]
      by (simp add: print_dir_pointer_def pointer_text_def)
  qed (simp add: print_dir_pointer_def pointer_text_def ld)
qed

lemma print_directory_run:
  assumes ok: "fs_ok d" and i: "i < inode_count d" and dirs: "dirs_ok d E"
  shows "print_directory (table_addr d) (bitmap_addr CHR ''i'' d) i out d = Inr (out @ directory_text d E i)"
proof -
  note p = inode_at_in [OF ok i]
  have "i < EXT2_BLOCK_SIZE * 8" using i fs_okD(4) [OF ok] by (simp add: BITS_def)
  then have "i div 8 < EXT2_BLOCK_SIZE" by (rule less_mult_imp_div_less)
  then have b: "ld8 (bitmap_addr CHR ''i'' d + i div 8) d = Inr (d (bitmap_addr CHR ''i'' d + i div 8))"
    using fs_okD(2) [OF ok] get_1 [of "bitmap_addr CHR ''i'' d + i div 8" d]
    by (simp add: bitmap_ok_def BITS_def del: One_nat_def)
  have m: "ld16 (i_mode (inode_at d i)) d = Inr (get 2 (i_mode (inode_at d i)) d)"
    using p by (simp add: i_mode_def INODE_SIZE_def)
  have loop: "forE (\<lambda>k t. print_dir_pointer i (inode_at d i) k t d) [0 ..< 12] out =
      Inr (out @ concat (map (\<lambda>k. pointer_text d E i (inode_block d (inode_at d i) k)) [0 ..< 12]))"
    if "dumped d i"
    by (rule forE_concat, rule print_dir_pointer_run [OF p]) (use dirs i that in \<open>auto simp: dirs_ok_def Let_def\<close>)
  show ?thesis using b m loop
    by (auto simp: print_directory_def directory_text_def dumped_def is_dir_def marked_def low_bit inode_at_def)
qed

section \<open>The whole dump\<close>

definition directories_text :: "disk \<Rightarrow> (u32 \<Rightarrow> nat list) \<Rightarrow> string" where
  "directories_text d E = nl @ ''Directory Blocks:'' @ nl @ concat (map (directory_text d E) [0 ..< inode_count d])"

definition bitmaps_text :: "disk \<Rightarrow> string" where
  "bitmaps_text d = nl @ ''Block bitmap: '' @ bit_text CHR ''b'' d (block_count d) @
     nl @ ''Inode bitmap: '' @ bit_text CHR ''i'' d (inode_count d) @ nl @ nl"

text \<open>The indirect blocks of the inodes that are printed are blocks of the image.\<close>

definition indirect_ok :: "disk \<Rightarrow> bool" where
  "indirect_ok d \<longleftrightarrow> (\<forall>i < inode_count d. block_ptr (inode_block d (inode_at d i) 12) + EXT2_BLOCK_SIZE \<le> DISK_SIZE)"

lemma header_loads:
  "ld32 (s_inodes_count get_super_block) d = Inr (get 4 (s_inodes_count get_super_block) d)"
  "ld32 (s_blocks_count get_super_block) d = Inr (get 4 (s_blocks_count get_super_block) d)"
  "ld32 (bg_block_bitmap get_group_descriptor) d = Inr (get 4 (bg_block_bitmap get_group_descriptor) d)"
  "ld32 (bg_inode_bitmap get_group_descriptor) d = Inr (get 4 (bg_inode_bitmap get_group_descriptor) d)"
  "ld32 (bg_inode_table get_group_descriptor) d = Inr (get 4 (bg_inode_table get_group_descriptor) d)"
  "ld16 (bg_free_blocks_count get_group_descriptor) d = Inr (get 2 (bg_free_blocks_count get_group_descriptor) d)"
  "ld16 (bg_free_inodes_count get_group_descriptor) d = Inr (get 2 (bg_free_inodes_count get_group_descriptor) d)"
  "ld16 (bg_used_dirs_count get_group_descriptor) d = Inr (get 2 (bg_used_dirs_count get_group_descriptor) d)"
  by (simp_all add: field_defs bg_used_dirs_count_def get_super_block_def get_group_descriptor_def disk_size)

lemma bitmap_pointers:
  assumes "bitmaps_plain d"
  shows "int_block_ptr (get 4 (bg_block_bitmap get_group_descriptor) d) = Inr (bitmap_addr CHR ''b'' d)"
    "int_block_ptr (get 4 (bg_inode_bitmap get_group_descriptor) d) = Inr (bitmap_addr CHR ''i'' d)"
  using assms by (simp_all add: bitmaps_plain_def int_block_ptr_plain bitmap_addr_def block_ptr_plain)

lemma print_bitmaps_run:
  assumes ok: "fs_ok d" and plain: "bitmaps_plain d"
  shows "bindE (print_block_bitmap d) (\<lambda>a. bindE (print_inode_bitmap d) (\<lambda>b. Inr (a @ b))) = Inr (bitmaps_text d)"
  using print_bits_run [OF fs_okD(1) [OF ok]] print_bits_run [OF fs_okD(2) [OF ok]] fs_okD(3,4) [OF ok]
  by (simp add: print_block_bitmap_def print_inode_bitmap_def header_loads bitmap_pointers [OF plain]
      bitmaps_text_def block_count_def inode_count_def)

text \<open>The header: the counts of the well-formed image as numbers, the block numbers as they are.\<close>

definition header_text :: "disk \<Rightarrow> string" where
  "header_text d =
    ''Inodes: '' @ show_nat (inode_count d) @ nl @ ''Blocks: '' @ show_nat (block_count d) @ nl @ ''Block group:'' @ nl @
    ''    block bitmap: '' @ show_nat (unat (get 4 (bg_block_bitmap get_group_descriptor) d :: u32)) @ nl @
    ''    inode bitmap: '' @ show_nat (unat (get 4 (bg_inode_bitmap get_group_descriptor) d :: u32)) @ nl @
    ''    inode table: '' @ show_d (get 4 (bg_inode_table get_group_descriptor) d :: u32) @ nl @
    ''    free blocks: '' @ show_nat (card (unmarked CHR ''b'' (block_count d) d)) @ nl @
    ''    free inodes: '' @ show_nat (card (unmarked CHR ''i'' (inode_count d) d)) @ nl @
    ''    used_dirs: '' @ show_nat (unat (get 2 (bg_used_dirs_count get_group_descriptor) d :: u16))"

lemma show_d_small: "unat (w :: u32) < 2 ^ 31 \<Longrightarrow> show_d w = show_nat (unat w)"
  using sint_small [of w] by (simp add: show_d_def show_int_def)

lemma image_header_run:
  assumes ok: "fs_ok d" and plain: "bitmaps_plain d"
  shows "image_header d = Inr (header_text d)"
proof -
  have n: "unat (get 4 (s_inodes_count get_super_block) d :: u32) < 2 ^ 31"
    "unat (get 4 (s_blocks_count get_super_block) d :: u32) < 2 ^ 31"
    using fs_okD(3,4) [OF ok] by (simp_all add: inode_count_def block_count_def BITS_def EXT2_BLOCK_SIZE_def)
  have b: "unat (get 4 (bg_block_bitmap get_group_descriptor) d :: u32) < 2 ^ 31"
    "unat (get 4 (bg_inode_bitmap get_group_descriptor) d :: u32) < 2 ^ 31"
    using plain by (simp_all add: bitmaps_plain_def EXT2_NUM_BLOCKS_def)
  have c: "unat (get 2 (bg_free_blocks_count get_group_descriptor) d :: u16) = card (unmarked CHR ''b'' (block_count d) d)"
    "unat (get 2 (bg_free_inodes_count get_group_descriptor) d :: u16) = card (unmarked CHR ''i'' (inode_count d) d)"
    using ok by (simp_all add: fs_ok_def counts_ok_def gd_free_def)
  show ?thesis
    by (simp add: image_header_def header_loads header_text_def n [THEN show_d_small] b [THEN show_d_small] show_u_def c
        inode_count_def block_count_def)
qed

section \<open>Inodes\<close>

text \<open>The letter of a type of file: by the first four bits of the mode for the three types there are.\<close>

definition type_letter :: "u16 \<Rightarrow> char" where
  "type_letter mode =
    (let ty = drop_bit 12 mode in
     if ty = 8 then CHR ''f'' else if ty = 4 then CHR ''d'' else if ty = 10 then CHR ''l'' else mode_char mode)"

lemma mode_type_bits: "bit (mode :: u16) (12 + k) = bit (drop_bit 12 mode) k"
  by (simp add: bit_simps)

lemma mode_char_letter: "mode_char mode = type_letter mode"
proof -
  have reg: "mode AND EXT2_S_IFREG \<noteq> 0 \<longleftrightarrow> bit mode 15" and dr: "mode AND EXT2_S_IFDIR \<noteq> 0 \<longleftrightarrow> bit mode 14"
    using and_exp_eq_0_iff_not_bit [of mode 15] and_exp_eq_0_iff_not_bit [of mode 14]
    by (simp_all add: EXT2_S_IFREG_def EXT2_S_IFDIR_def)
  have b13: "drop_bit 13 mode AND 1 = 0 \<longleftrightarrow> \<not> bit mode 13"
    using and_exp_eq_0_iff_not_bit [of "drop_bit 13 mode" 0] by (simp add: bit_drop_bit_eq)
  have lnk: "mode AND EXT2_S_IFLNK \<noteq> 0" if "bit mode 15"
  proof -
    have "bit (mode AND EXT2_S_IFLNK) 15" using that by (simp add: EXT2_S_IFLNK_def bit_simps)
    then show ?thesis by auto
  qed
  have "bit mode 13 = bit (drop_bit 12 mode) 1" "bit mode 14 = bit (drop_bit 12 mode) 2" "bit mode 15 = bit (drop_bit 12 mode) 3"
    using mode_type_bits [of mode 1] mode_type_bits [of mode 2] mode_type_bits [of mode 3] by simp_all
  then show ?thesis using lnk
    by (auto simp: mode_char_def type_letter_def Let_def reg dr b13 bit_numeral_rec)
qed

text \<open>The pointers in use, the entries of an indirect block, and what is printed of them.\<close>

definition used_pointers :: "disk \<Rightarrow> nat \<Rightarrow> nat list" where
  "used_pointers d p = filter (\<lambda>k. inode_block d p k \<noteq> 0) [0 ..< 15]"

definition indirect_entries :: "disk \<Rightarrow> u32 \<Rightarrow> u32 list" where
  "indirect_entries d b = filter (\<lambda>x. x \<noteq> 0) (map (\<lambda>h. get 4 (block_ptr b + 4 * h) d) [0 ..< 256])"

definition pointer_line :: "disk \<Rightarrow> nat \<Rightarrow> nat \<Rightarrow> string" where
  "pointer_line d p k =
    show_nat (unat (inode_block d p k)) @ (if k = last (used_pointers d p) then '''' else '' '') @
    (if k = 12 then nl @ ''Second level blocks: '' @
       concat (map (\<lambda>x. show_nat (unat x) @ '' '') (indirect_entries d (inode_block d p 12))) else '''')"

definition inode_text :: "disk \<Rightarrow> nat \<Rightarrow> string" where
  "inode_text d i = (let p = inode_at d i in
     ''['' @ show_nat (i + 1) @ ''] type: '' @ [type_letter (get 2 (i_mode p) d)] @
     '' size: '' @ show_nat (unat (get 4 (i_size p) d :: u32)) @
     '' links: '' @ show_nat (unat (get 2 (i_links_count p) d :: u16)) @
     '' blocks: '' @ show_nat (unat (get 4 (i_blocks p) d :: u32)) @ nl @
     ''['' @ show_nat (i + 1) @ ''] Blocks:  '' @ concat (map (pointer_line d p) (used_pointers d p)) @ nl)"

text \<open>The inodes that are printed: the root and those not reserved, of a size that is not 0.\<close>

definition shown_inode :: "(nat \<Rightarrow> disk \<Rightarrow> bool) \<Rightarrow> disk \<Rightarrow> nat \<Rightarrow> bool" where
  "shown_inode h d i \<longleftrightarrow> shown_index i \<and> get 4 (i_size (inode_at d i)) d \<noteq> (0 :: u32) \<and> h (inode_at d i) d"

definition inodes_text :: "(nat \<Rightarrow> disk \<Rightarrow> bool) \<Rightarrow> disk \<Rightarrow> string" where
  "inodes_text h d = ''Inodes:'' @ nl @ concat (map (inode_text d) (filter (shown_inode h d) [0 ..< inode_count d]))"

lemma concat_filter: "concat (map (\<lambda>k. if P k then f k else []) ks) = concat (map f (filter P ks))"
  by (induction ks) simp_all

lemma last_pointer_run:
  assumes "\<And>k. k < 15 \<Longrightarrow> ld32 (i_block p k) d = Inr (inode_block d p k)"
  shows "last_pointer p d = Inr (if used_pointers d p = [] then None else Some (last (used_pointers d p)))"
proof -
  have "forE (\<lambda>k m. bindE (ld32 (i_block p k) d) (\<lambda>b. Inr (if b \<noteq> 0 then Some k else m))) ks m =
      Inr (if filter (\<lambda>k. inode_block d p k \<noteq> 0) ks = [] then m else Some (last (filter (\<lambda>k. inode_block d p k \<noteq> 0) ks)))"
    if "set ks \<subseteq> {..< 15}" for ks m
    using that by (induction ks arbitrary: m) (auto simp: assms)
  moreover have "set [0 ..< 15] \<subseteq> {..< 15 :: nat}" by auto
  ultimately show ?thesis unfolding last_pointer_def used_pointers_def by simp
qed

lemma print_indirect_run:
  assumes "block_ptr b + EXT2_BLOCK_SIZE \<le> DISK_SIZE"
  shows "print_indirect b d = Inr (nl @ ''Second level blocks: '' @ concat (map (\<lambda>x. show_nat (unat x) @ '' '') (indirect_entries d b)))"
proof -
  let ?g = "\<lambda>h. get 4 (block_ptr b + 4 * h) d :: u32"
  have "forE (\<lambda>h out. bindE (ld32 (block_ptr b + 4 * h) d) (\<lambda>x. Inr (if x \<noteq> 0 then out @ show_u x @ '' '' else out)))
      [0 ..< 256] [] = Inr ([] @ concat (map (\<lambda>h. if ?g h \<noteq> 0 then show_u (?g h) @ '' '' else []) [0 ..< 256]))"
    by (rule forE_concat) (use assms in \<open>simp add: EXT2_BLOCK_SIZE_def\<close>)
  then show ?thesis
    by (simp add: print_indirect_def EXT2_BLOCK_SIZE_def concat_filter indirect_entries_def filter_map o_def show_u_def
        del: upt_Suc upt_rec_numeral)
qed

lemma print_inode_run:
  assumes ok: "fs_ok d" and ind: "indirect_ok d" and i: "i < inode_count d"
  shows "print_inode h (table_addr d) i out d = Inr (out @ (if shown_inode h d i then inode_text d i else ''''))"
proof -
  let ?p = "inode_at d i"
  note p = inode_at_in [OF ok i]
  have ld: "ld32 (i_size ?p) d = Inr (get 4 (i_size ?p) d)" "ld16 (i_mode ?p) d = Inr (get 2 (i_mode ?p) d)"
    "ld16 (i_links_count ?p) d = Inr (get 2 (i_links_count ?p) d)" "ld32 (i_blocks ?p) d = Inr (get 4 (i_blocks ?p) d)"
    using p by (simp_all add: i_size_def i_mode_def i_links_count_def i_blocks_def INODE_SIZE_def)
  have lb: "ld32 (i_block ?p k) d = Inr (inode_block d ?p k)" if "k < 15" for k
    using p that by (simp add: inode_block_def i_block_def INODE_SIZE_def)
  have blk: "block_ptr (inode_block d ?p 12) + EXT2_BLOCK_SIZE \<le> DISK_SIZE" using ind i by (simp add: indirect_ok_def)
  note lp = last_pointer_run [OF lb]
  let ?m = "if used_pointers d ?p = [] then None else Some (last (used_pointers d ?p))"
  have one: "print_pointer ?p ?m k out d = Inr (out @ (if inode_block d ?p k \<noteq> 0 then pointer_line d ?p k else []))"
    if k: "k < 15" for k out
  proof -
    have "used_pointers d ?p \<noteq> []" if "inode_block d ?p k \<noteq> 0"
      using k that by (auto simp: used_pointers_def filter_empty_conv)
    then show ?thesis using lb [OF k] print_indirect_run [OF blk]
      by (auto simp: print_pointer_def pointer_line_def show_u_def Let_def)
  qed
  have "forE (\<lambda>k t. print_pointer ?p ?m k t d) [0 ..< 15] [] =
      Inr ([] @ concat (map (\<lambda>k. if inode_block d ?p k \<noteq> 0 then pointer_line d ?p k else []) [0 ..< 15]))"
    by (rule forE_concat) (rule one)
  then have "forE (\<lambda>k t. print_pointer ?p ?m k t d) [0 ..< 15] [] = Inr (concat (map (pointer_line d ?p) (used_pointers d ?p)))"
    unfolding concat_filter used_pointers_def [symmetric] by simp
  then show ?thesis using ld lp
    by (simp add: print_inode_def Let_def inode_at_def [symmetric] shown_inode_def inode_text_def mode_char_letter show_u_def
        del: upt_rec_numeral)
qed

lemma get_inode_table_run: "get_inode_table d = Inr (table_addr d)"
  by (simp add: get_inode_table_def header_loads table_addr_def)

lemma print_inodes_run:
  assumes ok: "fs_ok d" and ind: "indirect_ok d"
  shows "print_inodes h d = Inr (inodes_text h d)"
proof -
  have "forE (\<lambda>i t. print_inode h (table_addr d) i t d) [0 ..< inode_count d] (''Inodes:'' @ nl) =
      Inr ((''Inodes:'' @ nl) @ concat (map (\<lambda>i. if shown_inode h d i then inode_text d i else '''') [0 ..< inode_count d]))"
    by (rule forE_concat) (rule print_inode_run [OF ok ind])
  then show ?thesis
    by (simp add: print_inodes_def get_inode_table_run header_loads inode_count_def inodes_text_def concat_filter)
qed

lemma print_directories_run:
  assumes ok: "fs_ok d" and plain: "bitmaps_plain d" and dirs: "dirs_ok d E"
  shows "print_directories d = Inr (directories_text d E)"
proof -
  have "forE (\<lambda>i t. print_directory (table_addr d) (bitmap_addr CHR ''i'' d) i t d) [0 ..< inode_count d] t =
      Inr (t @ concat (map (directory_text d E) [0 ..< inode_count d]))" for t
    by (rule forE_concat) (rule print_directory_run [OF ok _ dirs])
  then show ?thesis
    by (simp add: print_directories_def get_inode_table_run header_loads bitmap_pointers [OF plain]
        directories_text_def inode_count_def)
qed

lemma readimage_run:
  assumes ok: "fs_ok d" and plain: "bitmaps_plain d" and dirs: "dirs_ok d E" and ind: "indirect_ok d"
  shows "readimage h d = Inr (header_text d @ bitmaps_text d @ inodes_text h d @ directories_text d E)"
proof -
  obtain a b where "print_block_bitmap d = Inr a" "print_inode_bitmap d = Inr b" "bitmaps_text d = a @ b"
    using print_bitmaps_run [OF ok plain] by (auto simp: bindE_Inr_iff)
  then show ?thesis using image_header_run [OF ok plain] print_inodes_run [OF ok ind] print_directories_run [OF ok plain dirs]
    by (simp add: readimage_def)
qed

text \<open>Every entry of a directory that is looked at is in the text.\<close>

lemma entry_dumped:
  assumes "i < inode_count d" and "dumped d i" and "k < 12" and "inode_block d (inode_at d i) k = b" and "b \<noteq> 0"
    and "a \<in> set (E b)"
  shows "\<exists>pre post. directories_text d E = pre @ entry_text d (block_start b) a @ post"
proof -
  obtain p1 q1 where 1: "concat (map (entry_text d (block_start b)) (E b)) = p1 @ entry_text d (block_start b) a @ q1"
    using concat_in [OF assms(6)] by blast
  have "k \<in> set [0 ..< 12]" using assms(3) by simp
  from concat_in [OF this, of "\<lambda>k. pointer_text d E i (inode_block d (inode_at d i) k)"]
  obtain p2 q2 where 2: "directory_text d E i = p2 @ pointer_text d E i b @ q2"
    using assms(2,4) by (auto simp: directory_text_def)
  have "i \<in> set [0 ..< inode_count d]" using assms(1) by simp
  from concat_in [OF this, of "directory_text d E"]
  obtain p3 q3 where 3: "concat (map (directory_text d E) [0 ..< inode_count d]) = p3 @ directory_text d E i @ q3"
    by blast
  obtain h where h: "pointer_text d E i b = h @ concat (map (entry_text d (block_start b)) (E b))"
    using assms(5) by (simp add: pointer_text_def)
  have "directories_text d E = (nl @ ''Directory Blocks:'' @ nl @ p3 @ p2 @ h @ p1) @ entry_text d (block_start b) a @ (q1 @ q2 @ q3)"
    by (simp only: directories_text_def 3 2 h 1 append_assoc)
  then show ?thesis by blast
qed

end
