(* ===== verification/Ext2_Samples.thy ===== *)
theory Ext2_Samples
  imports Ext2_Replace Ext2_Symlink Ext2_Dump
begin

text \<open>
  A small image: 14 inodes, 10 blocks, a root directory in block 7 with the entries
  \<open>.\<close>, \<open>..\<close>, \<open>f\<close> and \<open>g\<close>, the last two for the file with inode 12; blocks 9 and 10
  and inodes 13 and 14 are free.
\<close>

definition sample_bytes :: "(nat \<times> u8) list" where
  "sample_bytes =
    [(1024, 14), (1028, 10), (1036, 2), (1040, 2),
     (2048, 3), (2052, 4), (2056, 5), (2060, 2), (2062, 2),
     (3072, 255), (4096, 255), (4097, 15),
     (5249, 65), (5288, 7), (6554, 2), (6568, 8),
     (7168, 2), (7172, 12), (7174, 1), (7175, 2), (7176, 46),
     (7180, 2), (7184, 12), (7186, 2), (7187, 2), (7188, 46), (7189, 46),
     (7192, 12), (7196, 12), (7198, 1), (7199, 1), (7200, 102),
     (7204, 12), (7208, 220), (7209, 3), (7210, 1), (7211, 1), (7212, 103)]"

definition sample :: disk where
  "sample a = (case map_of sample_bytes a of None \<Rightarrow> 0 | Some w \<Rightarrow> w)"

lemma get_2: "get 2 a d = load_le [d a, d (a + 1)]"
  by (simp add: get_def numeral_eq_Suc)

lemma get_4: "get 4 a d = load_le [d a, d (a + 1), d (a + 2), d (a + 3)]"
  by (simp add: get_def numeral_eq_Suc)

lemmas sample_at = sample_def sample_bytes_def

lemma sample_layout:
  "block_count sample = 10" "inode_count sample = 14" "table_addr sample = 5120"
  "bitmap_addr CHR ''b'' sample = 3072" "bitmap_addr CHR ''i'' sample = 4096"
  by (simp_all add: block_count_def inode_count_def table_addr_def bitmap_addr_def get_4 sample_at
      field_defs get_super_block_def get_group_descriptor_def block_ptr_def EXT2_BLOCK_SIZE_def)

lemma sample_marked:
  "i < 16 \<Longrightarrow> marked CHR ''b'' sample i \<longleftrightarrow> i < 8"
  "i < 16 \<Longrightarrow> marked CHR ''i'' sample i \<longleftrightarrow> i < 12"
proof -
  have "\<forall>i \<in> set [0 ..< 16]. marked CHR ''b'' sample i = (i < 8)" "\<forall>i \<in> set [0 ..< 16]. marked CHR ''i'' sample i = (i < 12)"
    by (simp_all add: upt_conv_Cons marked_def sample_layout sample_at del: set_upt)
  moreover assume "i < 16"
  ultimately show "marked CHR ''b'' sample i \<longleftrightarrow> i < 8" "marked CHR ''i'' sample i \<longleftrightarrow> i < 12" by simp_all
qed

lemma sample_unmarked: "unmarked CHR ''b'' 10 sample = {8, 9}" "unmarked CHR ''i'' 14 sample = {12, 13}"
  using sample_marked by (auto simp: unmarked_def)

lemma sample_free: "free_blocks sample = {8, 9}" "free_inodes sample = {12, 13}"
  by (auto simp: free_blocks_def free_inodes_def sample_layout sample_unmarked EXT2_GOOD_OLD_FIRST_INO_def)

lemma sample_counts:
  "(get 4 (sb_free CHR ''b'') sample :: u32) = 2" "(get 2 (gd_free CHR ''b'') sample :: u16) = 2"
  "(get 4 (sb_free CHR ''i'') sample :: u32) = 2" "(get 2 (gd_free CHR ''i'') sample :: u16) = 2"
  by (simp_all add: sb_free_def gd_free_def field_defs get_super_block_def get_group_descriptor_def EXT2_BLOCK_SIZE_def
      get_4 get_2 sample_at)

lemma sample_ok: "fs_ok sample"
  by (simp add: fs_ok_def counts_ok_def bitmap_ok_def sample_layout sample_free sample_unmarked sample_counts table_end_def
      BITS_def disk_size INODE_SIZE_def block_at_def EXT2_GOOD_OLD_FIRST_INO_def)

text \<open>The root directory.\<close>

abbreviation sample_root :: nat where "sample_root \<equiv> 5248"
abbreviation sample_entries :: "nat list" where "sample_entries \<equiv> [7168, 7180, 7192, 7204]"

lemma sample_root_at: "inode_at sample 1 = sample_root" "inode_at sample 11 = 6528" "inode_at sample (Suc 0) = sample_root"
  by (simp_all add: inode_at_def sample_layout INODE_SIZE_def)

lemma sample_zero: "5288 < a \<Longrightarrow> a < 6554 \<Longrightarrow> sample a = 0"
  by (simp add: sample_at)

lemma sample_dir_blocks: "dir_blocks sample sample_root = [7]"
proof (rule dir_blocks_single)
  show "inode_block sample sample_root 0 = 7" by (simp add: inode_block_def i_block_def get_4 sample_at)
  show "\<forall>k < TOTAL_BLOCK_COUNT. 0 < k \<longrightarrow> inode_block sample sample_root k = 0"
    by (simp add: inode_block_def i_block_def get_4 sample_zero TOTAL_BLOCK_COUNT_def)
qed simp

lemma sample_entry_fields:
  "e_inode sample 7168 = 2" "e_rec_len sample 7168 = 12" "e_name_len sample 7168 = 1" "e_name sample 7168 = [46]" "e_file_type sample 7168 = 2"
  "e_inode sample 7180 = 2" "e_rec_len sample 7180 = 12" "e_name_len sample 7180 = 2" "e_name sample 7180 = [46, 46]" "e_file_type sample 7180 = 2"
  "e_inode sample 7192 = 12" "e_rec_len sample 7192 = 12" "e_name_len sample 7192 = 1" "e_name sample 7192 = [102]" "e_file_type sample 7192 = 1"
  "e_inode sample 7204 = 12" "e_rec_len sample 7204 = 988" "e_name_len sample 7204 = 1" "e_name sample 7204 = [103]" "e_file_type sample 7204 = 1"
  by (simp_all add: e_inode_def e_rec_len_def e_name_len_def e_name_def e_file_type_def field_defs get_4 get_2 bytes_def
      sample_at upt_conv_Cons)

lemma sample_sizes: "entry_size 1 = 12" "entry_size 2 = 12"
  by (simp_all add: entry_size_def round4_def)

lemma sample_block: "dir_block sample 7168 sample_entries"
  by (simp add: dir_block_def entry_fits_def sample_entry_fields sample_sizes EXT2_BLOCK_SIZE_def disk_size)

lemma sample_used: "used_dir sample sample_root [sample_entries]"
  using sample_block
  by (simp add: used_dir_def dir_ok_def sample_dir_blocks sample_free block_at_def table_end_def sample_layout INODE_SIZE_def
      disk_size)

lemma sample_listing:
  "listing sample sample_entries = [([46], 2, 2), ([46, 46], 2, 2), ([102], 12, 1), ([103], 12, 1)]"
  by (simp add: listing_def unused_def entry_view_def sample_entry_fields)

lemma sample_find: "find (names sample [103]) sample_entries = Some 7204" "find (names sample [120]) sample_entries = None"
  by (simp_all add: names_def sample_entry_fields)

lemma sample_room: "roomy sample sample_entries 1" "\<not> full sample 1 sample_entries"
  by (simp_all add: roomy_def full_def unused_def room_test_def room_behind_def sample_entry_fields sample_sizes round4_def)

lemma sample_entry_blocks: "entry_blocks sample [sample_entries] [120] = 0"
  using sample_room by (simp add: entry_blocks_def)

lemma sample_takes: "takes_name sample 1 [sample_entries] [120]"
  using sample_used sample_listing sample_room sample_entry_blocks
  by (simp add: takes_name_def can_enter_def sample_layout sample_free sample_root_at component_def SLASH_def)

text \<open>The same directory with an entry of 248 bytes more, which leaves no room for another.\<close>

definition crowded :: disk where
  "crowded = sample(7209 := 2, 7936 := 12, 7941 := 1, 7942 := 248, 7943 := 1)"

abbreviation crowded_entries :: "nat list" where "crowded_entries \<equiv> [7168, 7180, 7192, 7204, 7936]"

lemma crowded_low: "same_low sample crowded"
  by (simp add: same_low_def crowded_def sample_layout)

lemmas crowded_fs = low_fs [OF sample_ok crowded_low] low_fields [OF sample_ok crowded_low]

lemma crowded_root_at: "inode_at crowded 1 = sample_root" "inode_at crowded (Suc 0) = sample_root"
  by (simp_all add: inode_at_def crowded_fs sample_layout INODE_SIZE_def)

lemma crowded_dir_blocks: "dir_blocks crowded sample_root = [7]"
  unfolding sample_dir_blocks [symmetric] by (rule dir_blocks_cong) (simp add: crowded_def i_block_def)

lemma crowded_entry_fields:
  "e_inode crowded 7168 = 2" "e_rec_len crowded 7168 = 12" "e_name_len crowded 7168 = 1" "e_name crowded 7168 = [46]"
  "e_inode crowded 7180 = 2" "e_rec_len crowded 7180 = 12" "e_name_len crowded 7180 = 2" "e_name crowded 7180 = [46, 46]"
  "e_inode crowded 7192 = 12" "e_rec_len crowded 7192 = 12" "e_name_len crowded 7192 = 1" "e_name crowded 7192 = [102]"
  "e_inode crowded 7204 = 12" "e_rec_len crowded 7204 = 732" "e_name_len crowded 7204 = 1" "e_name crowded 7204 = [103]"
  "e_inode crowded 7936 = 12" "e_rec_len crowded 7936 = 256" "e_name_len crowded 7936 = 248"
  by (simp_all add: e_inode_def e_rec_len_def e_name_len_def e_name_def field_defs get_4 get_2 bytes_def
      crowded_def sample_at upt_conv_Cons)

lemma crowded_long_name: "e_name crowded 7936 \<noteq> [120]"
proof
  assume "e_name crowded 7936 = [120]"
  from arg_cong [OF this, of length] show False by (simp add: crowded_entry_fields)
qed

lemma crowded_used: "used_dir crowded sample_root [crowded_entries]"
proof -
  have "entry_size 248 = 256" by (simp add: entry_size_def round4_def)
  then have "dir_block crowded 7168 crowded_entries"
    by (simp add: dir_block_def entry_fits_def crowded_entry_fields sample_sizes EXT2_BLOCK_SIZE_def disk_size)
  then show ?thesis
    by (simp add: used_dir_def dir_ok_def crowded_dir_blocks crowded_fs sample_free block_at_def table_end_def sample_layout
        INODE_SIZE_def disk_size)
qed

lemma crowded_takes: "takes_name crowded 1 [crowded_entries] [120]" "entry_blocks crowded [crowded_entries] [120] = 1"
proof -
  have "full crowded 1 crowded_entries"
    by (simp add: full_def unused_def room_test_def crowded_entry_fields entry_size_def round4_def)
  then show b: "entry_blocks crowded [crowded_entries] [120] = 1" by (simp add: entry_blocks_def)
  have "[120] \<notin> fst ` set (listing crowded crowded_entries)"
    using crowded_long_name by (simp add: listing_def unused_def entry_view_def crowded_entry_fields)
  then show "takes_name crowded 1 [crowded_entries] [120]"
    using crowded_used b
    by (simp add: takes_name_def can_enter_def crowded_fs sample_layout sample_free crowded_root_at component_def SLASH_def
        TOTAL_BLOCK_COUNT_def)
qed

lemma sample_links: "get 2 (i_links_count 6528) sample = (2 :: u16)"
  by (simp add: i_links_count_def get_2 sample_at)

lemma sample_to_number: "(12 :: u32) = TO_NUMBER 11"
  by (simp add: TO_NUMBER_def)

lemma sample_enough: "blocks_needed 3 = Some 1"
  by (simp add: blocks_needed_def byte_counts div_up_def div_plus_def EXT2_BLOCK_SIZE_def)

text \<open>The entries of the blocks of directories, for the dump of the image.\<close>

definition sample_dirs :: "u32 \<Rightarrow> nat list" where
  "sample_dirs b = (if b = 7 then sample_entries else [])"

lemma sample_pointers: "k < 15 \<Longrightarrow> inode_block sample sample_root k = (if k = 0 then 7 else 0)"
  by (cases "k = 0") (simp_all add: inode_block_def i_block_def get_4 sample_zero, simp_all add: sample_at)

lemma sample_dumped: "dumped sample 1" "i < 14 \<Longrightarrow> dumped sample i \<Longrightarrow> i = 1"
proof -
  show "dumped sample 1"
    using sample_marked(2) [of 1] by (simp add: dumped_def shown_index_def sample_root_at is_dir_def i_mode_def get_2 sample_at EXT2_S_IFDIR_def)
  assume "i < 14" "dumped sample i"
  then have "i = 1 \<or> i = 11" "is_dir sample (inode_at sample i)"
    using sample_marked(2) [of i] by (auto simp: dumped_def shown_index_def EXT2_GOOD_OLD_FIRST_INO_def)
  then show "i = 1"
    by (auto simp: is_dir_def sample_root_at i_mode_def get_2 sample_at EXT2_S_IFDIR_def)
qed

lemma sample_dirs_ok: "dirs_ok sample sample_dirs"
  unfolding dirs_ok_def sample_layout
proof (intro allI impI)
  fix i k :: nat assume "i < 14" "dumped sample i" "k < 12"
  then have "i = 1" "k < 15" using sample_dumped by auto
  then show "let b = inode_block sample (inode_at sample i) k in b \<noteq> 0 \<longrightarrow> dir_block sample (block_start b) (sample_dirs b)"
    using sample_block by (simp add: sample_root_at sample_pointers sample_dirs_def EXT2_BLOCK_SIZE_def)
qed

lemma sample_bitmaps_plain: "bitmaps_plain sample"
  by (simp add: bitmaps_plain_def field_defs get_group_descriptor_def EXT2_BLOCK_SIZE_def EXT2_NUM_BLOCKS_def get_4 sample_at)

lemma sample_indirect_ok: "indirect_ok sample"
  unfolding indirect_ok_def
proof (intro allI impI)
  fix i assume i: "i < inode_count sample"
  have "\<forall>i \<in> set [0 ..< 14]. inode_block sample (inode_at sample i) 12 = 0"
    by (simp add: upt_conv_Cons inode_block_def inode_at_def i_block_def INODE_SIZE_def sample_layout get_4 sample_at del: set_upt)
  then have "inode_block sample (inode_at sample i) 12 = 0" using i by (simp add: sample_layout)
  then show "block_ptr (inode_block sample (inode_at sample i) 12) + EXT2_BLOCK_SIZE \<le> DISK_SIZE"
    by (simp add: block_ptr_def disk_size)
qed

text \<open>The file with inode 12 has one block.\<close>

lemma one_block_file:
  assumes "\<And>j. j < 15 \<Longrightarrow> get 4 (i_block N j) d = (if j = 0 then 8 else 0 :: u32)"
  shows "file_numbers d N = {0, 8}" "freeable d 8 \<Longrightarrow> whole_file d N"
proof -
  have "(\<lambda>i. get 4 (i_block N i) d) ` {..< DIRECT_BLOCK_COUNT} = (\<lambda>i. if i = 0 then 8 else 0 :: u32) ` {..< (12 :: nat)}"
    by (intro image_cong) (simp_all add: DIRECT_BLOCK_COUNT_def assms)
  also have "\<dots> = {0, 8}" by (simp add: lessThan_nat_numeral lessThan_Suc insert_commute)
  finally show f: "file_numbers d N = {0, 8}"
    by (simp add: file_numbers_def assms INDIRECT_BLOCK_def DBLE_INDIRECT_BLOCK_def)
  show "freeable d 8 \<Longrightarrow> whole_file d N"
    by (simp add: whole_file_def f assms DBLE_INDIRECT_BLOCK_def TPLE_INDIRECT_BLOCK_def freeable_def [of _ 0])
qed

lemma sample_file_pointers: "j < 15 \<Longrightarrow> get 4 (i_block 6528 j) sample = (if j = 0 then 8 else 0 :: u32)"
proof -
  have "sample a = 0" if "6568 < a" "a < 7168" for a using that by (simp add: sample_at)
  note z = this
  show "j < 15 \<Longrightarrow> get 4 (i_block 6528 j) sample = (if j = 0 then 8 else 0 :: u32)"
    by (cases "j = 0") (simp_all add: i_block_def get_4 z, simp_all add: sample_at)
qed

lemma sample_file: "file_numbers sample 6528 = {0, 8}" "whole_file sample 6528"
  using one_block_file [OF sample_file_pointers]
  by (simp_all add: freeable_def sample_layout table_end_def INODE_SIZE_def EXT2_BLOCK_SIZE_def disk_size)

text \<open>The same image with 1 as the link count of the file.\<close>

definition sample_one :: disk where
  "sample_one = put (i_links_count (inode_at sample 11)) (store_le 2 (get 2 (i_links_count (inode_at sample 11)) sample + -1 :: u16)) sample"

lemma sample_one_inode: "11 < inode_count sample"
  by (simp add: sample_layout)

lemmas sample_one_change = change_links(2-8) [OF sample_ok sample_one_inode, of "-1", folded sample_one_def]
  change_links(9) [OF sample_ok sample_one_inode]

lemma sample_one_at: "a < 6554 \<or> 6556 \<le> a \<Longrightarrow> sample_one a = sample a"
  by (simp add: sample_one_def put_outside sample_root_at i_links_count_def)

lemma sample_one_inode_at: "inode_at sample_one i = inode_at sample i"
  by (simp add: inode_at_def sample_one_change)

lemma sample_one_dir:
  "used_dir sample_one sample_root [sample_entries]" "find (names sample_one [103]) sample_entries = Some 7204"
  "a \<in> set sample_entries \<Longrightarrow> e_inode sample_one a = e_inode sample a"
  using used_dir_cells [OF sample_ok _ _ sample_one_change(7,8,2,5,6,3), of 1 "[sample_entries]"] sample_used sample_find
  by (simp_all add: sample_root_at sample_layout)

lemma sample_one_pointers: "j < 15 \<Longrightarrow> get 4 (i_block 6528 j) sample_one = (if j = 0 then 8 else 0 :: u32)"
proof -
  assume "j < 15"
  have "get 4 (i_block 6528 j) sample_one = (get 4 (i_block 6528 j) sample :: u32)"
    by (intro get_cong sample_one_at) (simp add: i_block_def)
  then show ?thesis using sample_file_pointers [OF \<open>j < 15\<close>] by simp
qed

lemma sample_one_file: "file_numbers sample_one 6528 = {0, 8}" "whole_file sample_one 6528"
proof -
  have "block_count sample_one = 10" "table_end sample_one = 6912"
    using low_fields(3) [OF sample_ok, of sample_one] sample_one_at
    by (simp_all add: same_low_def table_end_def sample_one_change sample_layout INODE_SIZE_def)
  then have "freeable sample_one 8" by (simp add: freeable_def EXT2_BLOCK_SIZE_def disk_size)
  then show "file_numbers sample_one 6528 = {0, 8}" "whole_file sample_one 6528"
    using one_block_file [OF sample_one_pointers] by simp_all
qed

end
