(* ===== verification/Ext2_Tree_Sample.thy ===== *)
theory Ext2_Tree_Sample
  imports Ext2_Prune Ext2_Samples
begin

text \<open>
  A small image with a directory below the root: 14 inodes, 10 blocks; the root directory in
  block 7 holds \<open>d\<close>, inode 12, whose block 8 holds the file \<open>x\<close>, inode 13 with block 9.
\<close>

definition tree_bytes :: "(nat \<times> u8) list" where
  "tree_bytes =
    [(1024, 14), (1028, 10), (1036, 1), (1040, 1),
     (2048, 3), (2052, 4), (2056, 5), (2060, 1), (2062, 1),
     (3072, 255), (3073, 1), (4096, 255), (4097, 31),
     (5249, 65), (5288, 7), (6529, 65), (6554, 2), (6568, 8), (6657, 129), (6682, 1), (6696, 9),
     (7168, 2), (7172, 12), (7174, 1), (7175, 2), (7176, 46),
     (7180, 2), (7184, 12), (7186, 2), (7187, 2), (7188, 46), (7189, 46),
     (7192, 12), (7196, 232), (7197, 3), (7198, 1), (7199, 2), (7200, 100),
     (8192, 12), (8196, 12), (8198, 1), (8199, 2), (8200, 46),
     (8204, 2), (8208, 12), (8210, 2), (8211, 2), (8212, 46), (8213, 46),
     (8216, 13), (8220, 232), (8221, 3), (8222, 1), (8223, 1), (8224, 120)]"

definition tree_sample :: disk where
  "tree_sample a = (case map_of tree_bytes a of None \<Rightarrow> 0 | Some w \<Rightarrow> w)"

lemmas tree_at = tree_sample_def tree_bytes_def

lemma tree_layout:
  "block_count tree_sample = 10" "inode_count tree_sample = 14" "table_addr tree_sample = 5120" "table_end tree_sample = 6912"
  "bitmap_addr CHR ''b'' tree_sample = 3072" "bitmap_addr CHR ''i'' tree_sample = 4096"
proof -
  show c: "block_count tree_sample = 10" "inode_count tree_sample = 14" "table_addr tree_sample = 5120"
    "bitmap_addr CHR ''b'' tree_sample = 3072" "bitmap_addr CHR ''i'' tree_sample = 4096"
    by (simp_all add: block_count_def inode_count_def table_addr_def bitmap_addr_def get_4 tree_at
        field_defs get_super_block_def get_group_descriptor_def block_ptr_def EXT2_BLOCK_SIZE_def)
  show "table_end tree_sample = 6912" by (simp add: table_end_def c INODE_SIZE_def)
qed

lemma tree_inode_at: "inode_at tree_sample i = 5120 + i * 128"
  by (simp add: inode_at_def tree_layout INODE_SIZE_def)

lemma tree_marked:
  "i < 16 \<Longrightarrow> marked CHR ''b'' tree_sample i \<longleftrightarrow> i < 9"
  "i < 16 \<Longrightarrow> marked CHR ''i'' tree_sample i \<longleftrightarrow> i < 13"
proof -
  have "\<forall>i \<in> set [0 ..< 16]. marked CHR ''b'' tree_sample i = (i < 9)" "\<forall>i \<in> set [0 ..< 16]. marked CHR ''i'' tree_sample i = (i < 13)"
    by (simp_all add: upt_conv_Cons marked_def tree_layout tree_at del: set_upt)
  moreover assume "i < 16"
  ultimately show "marked CHR ''b'' tree_sample i \<longleftrightarrow> i < 9" "marked CHR ''i'' tree_sample i \<longleftrightarrow> i < 13" by simp_all
qed

lemma tree_unmarked: "unmarked CHR ''b'' 10 tree_sample = {9}" "unmarked CHR ''i'' 14 tree_sample = {13}"
  using tree_marked by (auto simp: unmarked_def)

lemma tree_free: "free_blocks tree_sample = {9}" "free_inodes tree_sample = {13}"
  by (auto simp: free_blocks_def free_inodes_def tree_layout tree_unmarked EXT2_GOOD_OLD_FIRST_INO_def)

lemma tree_counts:
  "(get 4 (sb_free CHR ''b'') tree_sample :: u32) = 1" "(get 2 (gd_free CHR ''b'') tree_sample :: u16) = 1"
  "(get 4 (sb_free CHR ''i'') tree_sample :: u32) = 1" "(get 2 (gd_free CHR ''i'') tree_sample :: u16) = 1"
  by (simp_all add: sb_free_def gd_free_def field_defs get_super_block_def get_group_descriptor_def EXT2_BLOCK_SIZE_def
      get_4 get_2 tree_at)

lemma tree_ok: "fs_ok tree_sample"
  by (simp add: fs_ok_def counts_ok_def bitmap_ok_def tree_layout tree_free tree_unmarked tree_counts
      BITS_def disk_size INODE_SIZE_def block_at_def EXT2_GOOD_OLD_FIRST_INO_def)

abbreviation tree_root :: "nat list" where "tree_root \<equiv> [7168, 7180, 7192]"
abbreviation tree_below :: "nat list" where "tree_below \<equiv> [8192, 8204, 8216]"

text \<open>The directory \<open>/d\<close> with the file in it.\<close>

definition tree_node :: node where
  "tree_node = Branch 7192 11 [tree_below] [Leaf 8216 12]"

lemma tree_fields:
  "e_inode tree_sample 7168 = 2" "e_rec_len tree_sample 7168 = 12" "e_name_len tree_sample 7168 = 1" "e_name tree_sample 7168 = [46]"
  "e_inode tree_sample 7180 = 2" "e_rec_len tree_sample 7180 = 12" "e_name_len tree_sample 7180 = 2" "e_name tree_sample 7180 = [46, 46]"
  "e_inode tree_sample 7192 = 12" "e_rec_len tree_sample 7192 = 1000" "e_name_len tree_sample 7192 = 1" "e_name tree_sample 7192 = [100]"
  "e_inode tree_sample 8192 = 12" "e_rec_len tree_sample 8192 = 12" "e_name_len tree_sample 8192 = 1" "e_name tree_sample 8192 = [46]"
  "e_inode tree_sample 8204 = 2" "e_rec_len tree_sample 8204 = 12" "e_name_len tree_sample 8204 = 2" "e_name tree_sample 8204 = [46, 46]"
  "e_inode tree_sample 8216 = 13" "e_rec_len tree_sample 8216 = 1000" "e_name_len tree_sample 8216 = 1" "e_name tree_sample 8216 = [120]"
  "e_file_type tree_sample 7192 = 2" "e_file_type tree_sample 8216 = 1"
  by (simp_all add: e_inode_def e_rec_len_def e_name_len_def e_name_def e_file_type_def field_defs get_4 get_2 bytes_def
      tree_at upt_conv_Cons)

lemma tree_dir_block: "dir_block tree_sample 7168 tree_root" "dir_block tree_sample 8192 tree_below"
  by (simp_all add: dir_block_def entry_fits_def tree_fields sample_sizes EXT2_BLOCK_SIZE_def disk_size)

text \<open>The pointers of the three inodes.\<close>

lemma tree_zero: "5288 < a \<Longrightarrow> a < 6529 \<Longrightarrow> tree_sample a = 0" "6568 < a \<Longrightarrow> a < 6657 \<Longrightarrow> tree_sample a = 0"
  "6696 < a \<Longrightarrow> a < 7168 \<Longrightarrow> tree_sample a = 0"
  by (simp_all add: tree_at)

lemma tree_pointers:
  "j < 15 \<Longrightarrow> get 4 (i_block 5248 j) tree_sample = (if j = 0 then 7 else 0 :: u32)"
  "j < 15 \<Longrightarrow> get 4 (i_block 6528 j) tree_sample = (if j = 0 then 8 else 0 :: u32)"
  "j < 15 \<Longrightarrow> get 4 (i_block 6656 j) tree_sample = (if j = 0 then 9 else 0 :: u32)"
proof -
  show "j < 15 \<Longrightarrow> get 4 (i_block 5248 j) tree_sample = (if j = 0 then 7 else 0 :: u32)"
    "j < 15 \<Longrightarrow> get 4 (i_block 6528 j) tree_sample = (if j = 0 then 8 else 0 :: u32)"
    "j < 15 \<Longrightarrow> get 4 (i_block 6656 j) tree_sample = (if j = 0 then 9 else 0 :: u32)"
    by (cases "j = 0"; simp add: i_block_def get_4 tree_zero; simp add: tree_at)+
qed

lemma tree_blocks: "dir_blocks tree_sample 5248 = [7]" "dir_blocks tree_sample 6528 = [8]"
  by (rule dir_blocks_single; simp add: inode_block_def tree_pointers TOTAL_BLOCK_COUNT_def)+

lemma tree_removed: "set (n_entries tree_node) = {7192, 8216}"
  by (auto simp: tree_node_def)

lemma tree_dirs: "dir_ready tree_sample {7192, 8216} 1 [tree_root]" "dir_ready tree_sample {7192, 8216} 11 [tree_below]"
  using tree_dir_block
  by (simp_all add: dir_ready_def dir_safe_def dir_ok_def tree_blocks tree_layout tree_inode_at tree_fields unused_def
      EXT2_BLOCK_SIZE_def INODE_SIZE_def disk_size)

lemma tree_numbers: "dir_numbers tree_sample 6528 = {0, 8}" "file_numbers tree_sample 6656 = {0, 9}"
proof -
  have "inode_block tree_sample 6528 ` {..< TOTAL_BLOCK_COUNT} = (\<lambda>j. if j = 0 then 8 else 0 :: u32) ` {..< (15 :: nat)}"
    by (intro image_cong) (simp_all add: TOTAL_BLOCK_COUNT_def inode_block_def tree_pointers)
  also have "\<dots> = {0, 8}" by (simp add: lessThan_nat_numeral lessThan_Suc insert_commute)
  finally show "dir_numbers tree_sample 6528 = {0, 8}" by (simp add: dir_numbers_def)
  have "(\<lambda>i. get 4 (i_block 6656 i) tree_sample) ` {..< DIRECT_BLOCK_COUNT} = (\<lambda>i. if i = 0 then 9 else 0 :: u32) ` {..< (12 :: nat)}"
    by (intro image_cong) (simp_all add: DIRECT_BLOCK_COUNT_def tree_pointers)
  also have "\<dots> = {0, 9}" by (simp add: lessThan_nat_numeral lessThan_Suc insert_commute)
  finally show "file_numbers tree_sample 6656 = {0, 9}"
    by (simp add: file_numbers_def tree_pointers INDIRECT_BLOCK_def DBLE_INDIRECT_BLOCK_def)
qed

lemma tree_freeable: "b \<in> {0, 8, 9} \<Longrightarrow> freeable tree_sample b"
  by (auto simp: freeable_def tree_layout EXT2_BLOCK_SIZE_def disk_size)

lemma tree_last: "last_link tree_sample 12"
  by (simp add: last_link_def tree_inode_at i_links_count_def get_2 tree_at)

lemma tree_file: "file_ready tree_sample {7192, 8216} 12"
proof -
  have "whole_file tree_sample 6656" "file_apart tree_sample {7192, 8216} 6656"
    by (simp_all add: whole_file_def file_apart_def tree_numbers tree_freeable tree_pointers DBLE_INDIRECT_BLOCK_def
        TPLE_INDIRECT_BLOCK_def EXT2_BLOCK_SIZE_def)
  moreover have "get 2 (i_links_count 6656) tree_sample = (1 :: u16)"
    using tree_last by (simp add: last_link_def tree_inode_at)
  ultimately show ?thesis by (simp add: file_ready_def tree_inode_at tree_layout EXT2_GOOD_OLD_FIRST_INO_def)
qed

lemma tree_names: "name_ready tree_sample [tree_below] 8216"
  by (simp add: name_ready_def terminated_def component_def SLASH_def names_def tree_fields de_name_def)
    (simp add: tree_at)

lemma tree_numbers_of: "TO_NUMBER 11 = 12" "TO_NUMBER 12 = 13"
  by (simp_all add: TO_NUMBER_def)

lemma tree_external: "filter (external tree_sample) tree_below = [8216]"
  by (simp add: external_def unused_def tree_fields dot_name_def up_to_zero_def DOT_def)

lemma tree_removable: "slack E \<Longrightarrow> removable tree_sample E [] [] 1 [tree_root] [100] tree_node"
proof -
  assume "slack E"
  then have "placed tree_sample {7192, 8216} E 1 [] [] [tree_root] 7192 [100]"
    using tree_dirs(1) by (simp add: placed_def trail.start component_def SLASH_def join_path_def)
  moreover have "tree_ready tree_sample {7192, 8216} 2 tree_node"
    using tree_dirs(2) tree_file tree_names tree_external
    by (simp add: tree_node_def tree_fields tree_numbers_of tree_inode_at tree_numbers tree_freeable PATH_MAX_def
        EXT2_FT_REG_FILE_def EXT2_FT_SYMLINK_def EXT2_GOOD_OLD_FIRST_INO_def)
  moreover have "find (names tree_sample [100]) tree_root = Some 7192" by (simp add: names_def tree_fields)
  ultimately show ?thesis
    by (simp add: removable_def tree_removed join_path_def PATH_MAX_def) (simp add: tree_node_def)
qed

text \<open>The image as one the commands walk through.\<close>

lemma tree_used: "used_dir tree_sample 5248 [tree_root]" "used_dir tree_sample 6528 [tree_below]"
  using tree_dir_block
  by (simp_all add: used_dir_def dir_ok_def tree_blocks tree_layout tree_free block_at_def EXT2_BLOCK_SIZE_def INODE_SIZE_def disk_size)

lemma tree_reaches: "reaches tree_sample 1 [[100]] 7192" "reaches tree_sample 1 [[100], [120]] 8216"
proof -
  have d: "1 < inode_count tree_sample" "used_dir tree_sample (inode_at tree_sample 1) [tree_root]"
    "find (names tree_sample [100]) (concat [tree_root]) = Some 7192" "e_inode tree_sample 7192 = TO_NUMBER 11"
    using tree_used(1) by (simp_all add: tree_layout tree_inode_at names_def tree_fields tree_numbers_of)
  then show "reaches tree_sample 1 [[100]] 7192" by (intro reaches.here)
  have x: "11 < inode_count tree_sample" "used_dir tree_sample (inode_at tree_sample 11) [tree_below]"
    "find (names tree_sample [120]) (concat [tree_below]) = Some 8216"
    using tree_used(2) by (simp_all add: tree_layout tree_inode_at names_def tree_fields)
  show "reaches tree_sample 1 [[100], [120]] 8216" by (rule reaches.below [OF d reaches.here [OF x]])
qed

lemma tree_to_directory: "to_directory tree_sample [[100]] 11 (Some 7192)"
  using tree_reaches(1) by (simp add: to_directory_def tree_fields tree_numbers_of EXT2_FT_DIR_def)

end
