(* ===== verification/Ext2_Props.thy ===== *)
theory Ext2_Props
  imports Ext2_Tree_Sample
begin

text \<open>The properties of the file system tools, each with a witness on the sample image.\<close>

text \<open>C6: Copying a file into a directory of a well-formed image succeeds when there are a free
  inode, room for the name and enough free blocks: those that \<open>blocks_needed\<close> counts for the
  file and, when all blocks of the directory are full, one more. A free inode and no more
  free blocks than these are taken, the directory lists the new name in addition to the
  old ones, the bytes read back through the inode are those of the file, and the inode has the
  mode of a regular file, the size of the file and one link.\<close>

theorem cp_creates_copy:
  assumes "fs_ok d" "slack E" and "\<forall>c \<in> set cs. component c" "length dest_path + length nm < 1000"
    and "into_dir d junk dest_path cs k" and "takes_name d k ess nm" and "find_file_name_by_path native_path = Inr nm"
    and "lstat_ok nf" "regular nf" "can_open nf" "st_size nf = length (content nf)"
    and "blocks_needed (st_size nf) = Some n" "n + entry_blocks d ess nm \<le> card (free_blocks d)"
  shows "\<exists>d' i I ess'. cp E junk nf native_path dest_path d = Inr (0, d') \<and> i \<in> free_inodes d \<and> I \<subseteq> free_blocks d \<and>
    card I \<le> n + entry_blocks d ess nm \<and>
    fs_ok d' \<and> free_inodes d' = free_inodes d - {i} \<and> free_blocks d' = free_blocks d - I \<and>
    dir_ok d' (inode_at d k) ess' \<and> new_name d ess d' ess' (nm, TO_NUMBER i, EXT2_FT_REG_FILE) \<and>
    read_file d' (inode_at d i) (length (content nf)) = content nf \<and> file_head d' (inode_at d i) (st_size nf)"
  by (rule cp_run [OF assms])

abbreviation sample_env :: fs_env where
  "sample_env \<equiv> \<lparr>now = 1000, slack = True\<rparr>"

abbreviation sample_file :: native_file where
  "sample_file \<equiv> \<lparr>lstat_ok = True, regular = True, st_size = 3, can_open = True, content = [1, 2, 3]\<rparr>"

theorem cp_creates_copy_witness:
  "\<exists>d' i I ess'. cp sample_env [9] sample_file [47, 120] [47] crowded = Inr (0, d') \<and> i \<in> free_inodes crowded \<and>
    I \<subseteq> free_blocks crowded \<and> card I \<le> 2 \<and> fs_ok d' \<and> free_inodes d' = free_inodes crowded - {i} \<and>
    free_blocks d' = free_blocks crowded - I \<and> dir_ok d' (inode_at crowded 1) ess' \<and>
    new_name crowded [crowded_entries] d' ess' ([120], TO_NUMBER i, EXT2_FT_REG_FILE) \<and>
    read_file d' (inode_at crowded i) 3 = [1, 2, 3] \<and> file_head d' (inode_at crowded i) 3"
proof -
  have "into_dir crowded [9] [47] [] 1" by (simp add: into_dir_def SLASH_def)
  moreover have "find_file_name_by_path [47, 120] = Inr [120]"
    using file_name_run(1) [of "[120]" "[]"] by (simp add: SLASH_def)
  ultimately show ?thesis
    using cp_creates_copy [OF crowded_fs(1), where E = sample_env and cs = "[]" and dest_path = "[47]" and nm = "[120]"
        and junk = "[9]" and k = 1 and ess = "[crowded_entries]" and native_path = "[47, 120]" and nf = sample_file and n = 1]
      crowded_takes sample_enough by (simp add: numeral_2_eq_2 numeral_3_eq_3 crowded_fs sample_free)
qed

text \<open>C7: Making a directory under a path whose parent exists and can take the name succeeds when
  there are a free inode and a free block, or two when all blocks of the parent are full. That
  many blocks are taken, the parent lists the new name in addition to the old ones, and the
  new directory has the entries \<open>.\<close> and \<open>..\<close> for itself and its parent, the mode of a
  directory and a link count of 2.\<close>

theorem mkdir_creates_directory:
  assumes "fs_ok d" "slack E" and "\<forall>c \<in> set cs. component c" "length (join_path cs) < 2 ^ 31"
    and "dir_path d cs k" "takes_name d k ess nm" "1 + entry_blocks d ess nm \<le> card (free_blocks d)"
  shows "\<exists>d' i J ess' ns. mkdir E (join_path (cs @ [nm])) d = Inr (0, d') \<and> i \<in> free_inodes d \<and> J \<subseteq> free_blocks d \<and>
    card J = 1 + entry_blocks d ess nm \<and>
    fs_ok d' \<and> free_inodes d' = free_inodes d - {i} \<and> free_blocks d' = free_blocks d - J \<and>
    dir_ok d' (inode_at d k) ess' \<and> new_name d ess d' ess' (nm, TO_NUMBER i, EXT2_FT_DIR) \<and>
    dir_ok d' (inode_at d i) ns \<and>
    listing d' (concat ns) = [([DOT], TO_NUMBER i, EXT2_FT_DIR), ([DOT, DOT], TO_NUMBER k, EXT2_FT_DIR)] \<and>
    get 2 (i_mode (inode_at d i)) d' = EXT2_S_IFDIR \<and> get 2 (i_links_count (inode_at d i)) d' = (2 :: u16)"
  by (rule mkdir_run [OF assms])

theorem mkdir_creates_directory_witness:
  "\<exists>d' i J ess' ns. mkdir sample_env [47, 120] crowded = Inr (0, d') \<and> i \<in> free_inodes crowded \<and>
    J \<subseteq> free_blocks crowded \<and> card J = 2 \<and>
    fs_ok d' \<and> free_inodes d' = free_inodes crowded - {i} \<and> free_blocks d' = free_blocks crowded - J \<and>
    dir_ok d' (inode_at crowded 1) ess' \<and> new_name crowded [crowded_entries] d' ess' ([120], TO_NUMBER i, EXT2_FT_DIR) \<and>
    dir_ok d' (inode_at crowded i) ns \<and>
    listing d' (concat ns) = [([DOT], TO_NUMBER i, EXT2_FT_DIR), ([DOT, DOT], TO_NUMBER 1, EXT2_FT_DIR)] \<and>
    get 2 (i_mode (inode_at crowded i)) d' = EXT2_S_IFDIR \<and> get 2 (i_links_count (inode_at crowded i)) d' = (2 :: u16)"
proof -
  have p: "dir_path crowded [] 1" "1 + entry_blocks crowded [crowded_entries] [120] \<le> card (free_blocks crowded)"
    "join_path ([] @ [[120]]) = [47, 120]" "card J = 1 + entry_blocks crowded [crowded_entries] [120] \<longleftrightarrow> card J = 2" for J :: "nat set"
    by (simp_all add: dir_path_def join_path_def SLASH_def crowded_takes crowded_fs sample_free numeral_2_eq_2)
  show ?thesis
    using mkdir_creates_directory [OF crowded_fs(1), of sample_env "[]" 1 "[crowded_entries]" "[120]", OF _ _ _ p(1) crowded_takes(1) p(2)]
    unfolding p(3,4) by (simp add: join_path_def)
qed

text \<open>C24: Removing a name of a file that has other links, with or without \<open>-r\<close>, takes exactly that
  entry out of its directory and lowers the link count by one; the inode and the blocks stay.
  The first block of the directory has two entries in use, as \<open>.\<close> and \<open>..\<close> are.\<close>

theorem rm_unlinks:
  assumes "fs_ok d" "slack E" and "\<forall>c \<in> set cs. component c" "component nm" "length (join_path cs) < 2 ^ 31"
    and "dir_path d cs k" and "k < inode_count d" "used_dir d (inode_at d k) (es # ess)"
    and "find (names d nm) (concat (es # ess)) = Some a" "e_file_type d a \<in> {EXT2_FT_REG_FILE, EXT2_FT_SYMLINK}"
    and "e_inode d a = TO_NUMBER i" "i < inode_count d"
    and "2 \<le> length (filter (\<lambda>x. \<not> unused d x) es)"
    and "2 \<le> unat (get 2 (i_links_count (inode_at d i)) d :: u16)"
  shows "\<exists>d'. rm E flag (join_path (cs @ [nm])) d = Inr (0, d') \<and> fs_ok d' \<and>
    free_blocks d' = free_blocks d \<and> free_inodes d' = free_inodes d \<and> dir_ok d' (inode_at d k) (es # ess) \<and>
    get 2 (i_links_count (inode_at d i)) d' = (get 2 (i_links_count (inode_at d i)) d - 1 :: u16) \<and>
    (\<exists>l1 l2. listing d (concat (es # ess)) = l1 @ entry_view d a # l2 \<and> listing d' (concat (es # ess)) = l1 @ l2)"
  by (rule rm_run [OF assms])

theorem rm_unlinks_witness:
  "\<exists>d'. rm sample_env False [47, 103] sample = Inr (0, d') \<and> get 2 (i_links_count 6528) d' = (1 :: u16) \<and>
    (\<exists>l1 l2. listing sample sample_entries = l1 @ ([103], 12, 1) # l2 \<and> listing d' sample_entries = l1 @ l2)"
proof -
  have "length (filter (\<lambda>x. \<not> unused sample x) sample_entries) = 4" by (simp add: unused_def sample_entry_fields)
  then show ?thesis
    using rm_unlinks [OF sample_ok, where E = sample_env and cs = "[]" and k = 1 and es = sample_entries and ess = "[]"
        and nm = "[103]" and a = 7204 and i = 11 and flag = False] sample_used sample_find sample_links
    by (auto simp: dir_path_def join_path_def component_def SLASH_def sample_layout sample_root_at sample_entry_fields
        sample_to_number EXT2_FT_REG_FILE_def entry_view_def)
qed



text \<open>C28: \<open>ext2_ln -s\<close> for a file and a new name in the root directory, not longer than the name of
  the file. A free inode and a free block, or two when all blocks of the directory are full, are
  taken; the new inode is a symbolic link whose block has the path; the directory lists the new
  name in addition; and \<open>read_symbolic_link\<close> follows the new name to the inode of the file. The
  type of the new entry is that of a link only if it did not need a new block: there it is the
  type of the file.\<close>

theorem ln_symbolic_leads_to_file:
  assumes "fs_ok d" "slack E" and "component c" "0 \<notin> set c" "length c + 1 < PATH_MAX"
    and "takes_name d 1 ess nm" "length nm \<le> length c"
    and "find (names d c) (concat ess) = Some a" "e_inode d a = TO_NUMBER m" "m < inode_count d" "m \<noteq> 1" "m \<notin> free_inodes d"
    "e_file_type d a \<noteq> EXT2_FT_DIR" "get 2 (i_mode (inode_at d m)) d \<noteq> EXT2_S_IFLNK"
    and "1 + entry_blocks d ess nm \<le> card (free_blocks d)"
  shows "\<exists>d' i J ess'. ln fuel E True (join_path [c]) (join_path [nm]) d = Inr (0, d') \<and> i \<in> free_inodes d \<and>
    J \<subseteq> free_blocks d \<and> card J = 1 + entry_blocks d ess nm \<and> fs_ok d' \<and> free_inodes d' = free_inodes d - {i} \<and>
    free_blocks d' = free_blocks d - J \<and> dir_ok d' (inode_at d 1) ess' \<and>
    new_name d ess d' ess' (nm, TO_NUMBER i, if entry_blocks d ess nm = 0 then EXT2_FT_SYMLINK else e_file_type d a) \<and>
    links_to d' (inode_at d i) (join_path [c]) \<and>
    read_symbolic_link (Suc (Suc k)) E (join_path [nm]) d' = Inr (Some (inode_at d m))"
  by (rule ln_symbolic_run [OF assms])

theorem ln_symbolic_leads_to_file_witness:
  "\<exists>d' i J ess'. ln 0 sample_env True [47, 102] [47, 120] crowded = Inr (0, d') \<and> card J = 2 \<and>
    free_blocks d' = free_blocks crowded - J \<and> new_name crowded [crowded_entries] d' ess' ([120], TO_NUMBER i, EXT2_FT_REG_FILE) \<and>
    read_symbolic_link 2 sample_env [47, 120] d' = Inr (Some 6528)"
proof -
  have p: "component [102]" "0 \<notin> set [102 :: u8]" "length [102 :: u8] + 1 < PATH_MAX" "length [120 :: u8] \<le> length [102 :: u8]"
    by (simp_all add: component_def SLASH_def PATH_MAX_def)
  have a: "find (names crowded [102]) (concat [crowded_entries]) = Some 7192" "e_inode crowded 7192 = TO_NUMBER 11"
    "11 < inode_count crowded" "(11 :: nat) \<noteq> 1" "11 \<notin> free_inodes crowded"
    using sample_to_number by (simp_all add: names_def crowded_entry_fields crowded_fs sample_layout sample_free)
  have t: "e_file_type crowded 7192 = EXT2_FT_REG_FILE" "EXT2_FT_REG_FILE \<noteq> EXT2_FT_DIR"
    by (simp_all add: e_file_type_def de_file_type_def crowded_def sample_at EXT2_FT_REG_FILE_def EXT2_FT_DIR_def)
  have i: "inode_at crowded 11 = 6528" by (simp add: inode_at_def crowded_fs sample_layout INODE_SIZE_def)
  have m: "get 2 (i_mode (inode_at crowded 11)) crowded \<noteq> EXT2_S_IFLNK"
    unfolding i by (simp add: i_mode_def get_2 crowded_def sample_at EXT2_S_IFLNK_def)
  have f: "1 + entry_blocks crowded [crowded_entries] [120] \<le> card (free_blocks crowded)"
    by (simp add: crowded_takes crowded_fs sample_free)
  have j: "join_path [[102]] = [47, 102]" "join_path [[120]] = [47, 120]" by (simp_all add: join_path_def SLASH_def)
  have td: "e_file_type crowded 7192 \<noteq> EXT2_FT_DIR" using t by simp
  obtain d' i J ess' where "ln 0 sample_env True [47, 102] [47, 120] crowded = Inr (0, d')"
    "card J = 1 + entry_blocks crowded [crowded_entries] [120]" "free_blocks d' = free_blocks crowded - J"
    "new_name crowded [crowded_entries] d' ess' ([120], TO_NUMBER i,
      if entry_blocks crowded [crowded_entries] [120] = 0 then EXT2_FT_SYMLINK else e_file_type crowded 7192)"
    "read_symbolic_link (Suc (Suc 0)) sample_env [47, 120] d' = Inr (Some (inode_at crowded 11))"
    using ln_symbolic_leads_to_file [OF crowded_fs(1) _ p(1-3) crowded_takes(1) p(4) a td m f, of sample_env 0 0, unfolded j] by auto
  then show ?thesis
    using t(1) i by (intro exI [of _ d'] exI [of _ i] exI [of _ J] exI [of _ ess']) (simp add: crowded_takes numeral_2_eq_2)
qed

text \<open>C26: Removing the last name of a file takes its entry out of the directory and frees its inode
  and exactly its blocks: those of the direct pointers, of the single and the double indirect
  block, and these blocks themselves. The file has no triple indirect block, where the code
  follows wrong pointers; the first block of the image, which the loops read for a pointer that
  is 0, is empty.\<close>

theorem rm_frees_file:
  assumes "fs_ok d" "slack E" and "\<forall>c \<in> set cs. component c" "component nm" "length (join_path cs) < 2 ^ 31"
    and "dir_path d cs k" and "k < inode_count d" "used_dir d (inode_at d k) (es # ess)"
    and "find (names d nm) (concat (es # ess)) = Some a" "e_file_type d a \<in> {EXT2_FT_REG_FILE, EXT2_FT_SYMLINK}"
    and "e_inode d a = TO_NUMBER i" "i < inode_count d"
    and "2 \<le> length (filter (\<lambda>x. \<not> unused d x) es)"
    and "get 2 (i_links_count (inode_at d i)) d = (1 :: u16)"
    and "EXT2_GOOD_OLD_FIRST_INO \<le> i" "whole_file d (inode_at d i)"
  shows "\<exists>d'. rm E flag (join_path (cs @ [nm])) d = Inr (0, d') \<and> fs_ok d' \<and>
    free_blocks d' = free_blocks d \<union> bits_of (file_numbers d (inode_at d i)) \<and> free_inodes d' = insert i (free_inodes d) \<and>
    dir_ok d' (inode_at d k) (es # ess) \<and>
    (\<exists>l1 l2. listing d (concat (es # ess)) = l1 @ entry_view d a # l2 \<and> listing d' (concat (es # ess)) = l1 @ l2)"
  by (rule rm_last_run [OF assms])

theorem rm_frees_file_witness:
  "\<exists>d'. rm sample_env False [47, 103] sample_one = Inr (0, d') \<and> free_blocks d' = {7, 8, 9} \<and> free_inodes d' = {11, 12, 13}"
proof -
  have "length (filter (\<lambda>x. \<not> unused sample_one x) sample_entries) = 4"
    using sample_one_dir(3) by (simp add: unused_def sample_entry_fields)
  moreover have "e_file_type sample_one 7204 = 1" "e_inode sample_one 7204 = TO_NUMBER 11"
    using sample_one_dir(3) [of 7204] sample_one_at [of 7211] sample_entry_fields(20)
    by (simp_all add: e_file_type_def de_file_type_def sample_entry_fields sample_to_number)
  moreover have "get 2 (i_links_count 6528) sample_one = (1 :: u16)"
    using sample_one_change(1) sample_links by (simp add: sample_root_at)
  moreover have "bits_of {0, 8} = {7}" by (auto simp: bits_of_def)
  ultimately show ?thesis
    using rm_frees_file [OF sample_one_change(2), where E = sample_env and cs = "[]" and k = 1 and es = sample_entries and ess = "[]"
        and nm = "[103]" and a = 7204 and i = 11 and flag = False] sample_one_dir sample_one_file
    by (auto simp: dir_path_def join_path_def component_def SLASH_def sample_layout sample_root_at sample_one_inode_at
        sample_one_change(3-6) sample_free sample_one_file EXT2_FT_REG_FILE_def EXT2_GOOD_OLD_FIRST_INO_def)
qed

text \<open>C8: Copying onto a file that exists succeeds when the free blocks suffice for the new data,
  those of the old file not counted. The blocks of the old file are freed and no more than
  \<open>blocks_needed\<close> are taken, all other blocks and all inodes stay as they were, the directory lists
  what it listed, and the inode of the entry has the new data and one link, whatever its link
  count was before.\<close>

theorem cp_replaces_file:
  assumes "fs_ok d" "slack E" and "\<forall>c \<in> set cs. component c" "component nm" "length (join_path cs) < 2 ^ 31"
    and "dir_path d cs k" and "k < inode_count d" "used_dir d (inode_at d k) ess"
    and "find (names d nm) (concat ess) = Some a" "e_file_type d a \<noteq> EXT2_FT_DIR" "e_inode d a = TO_NUMBER i" "i < inode_count d" "i \<noteq> k"
    and "whole_file d (inode_at d i)" "set (dir_blocks d (inode_at d k)) \<inter> file_numbers d (inode_at d i) = {}"
    and "lstat_ok nf" "regular nf" "can_open nf" "st_size nf = length (content nf)"
    and "blocks_needed (st_size nf) = Some n" "n \<le> card (free_blocks d)"
  shows "\<exists>d' I. cp E junk nf native_path (join_path (cs @ [nm])) d = Inr (0, d') \<and>
    I \<subseteq> free_blocks d \<union> bits_of (file_numbers d (inode_at d i)) \<and> card I \<le> n \<and> fs_ok d' \<and> free_inodes d' = free_inodes d \<and>
    free_blocks d' = free_blocks d \<union> bits_of (file_numbers d (inode_at d i)) - I \<and>
    read_file d' (inode_at d i) (length (content nf)) = content nf \<and> file_head d' (inode_at d i) (st_size nf) \<and>
    dir_ok d' (inode_at d k) ess \<and> listing d' (concat ess) = listing d (concat ess)"
  by (rule cp_replace_run [OF assms])

theorem cp_replaces_file_witness:
  "\<exists>d' I. cp sample_env [9] sample_file [47, 120] [47, 103] sample = Inr (0, d') \<and> free_blocks d' = {7, 8, 9} - I \<and> card I \<le> 1 \<and>
    read_file d' 6528 3 = [1, 2, 3] \<and> get 2 (i_links_count 6528) sample = (2 :: u16) \<and> get 2 (i_links_count 6528) d' = (1 :: u16)"
proof -
  have p: "dir_path sample [] 1" "component [103]" "join_path ([] @ [[103]]) = [47, 103]" "bits_of {8} = {7}"
    by (auto simp: dir_path_def join_path_def component_def SLASH_def bits_of_def)
  have q: "used_dir sample (inode_at sample 1) [sample_entries]" "find (names sample [103]) (concat [sample_entries]) = Some 7204"
    "e_file_type sample 7204 \<noteq> EXT2_FT_DIR" "e_inode sample 7204 = TO_NUMBER 11"
    using sample_used sample_find by (simp_all add: sample_root_at sample_entry_fields sample_to_number EXT2_FT_DIR_def)
  have w: "whole_file sample (inode_at sample 11)" "set (dir_blocks sample (inode_at sample 1)) \<inter> file_numbers sample (inode_at sample 11) = {}"
    using sample_file by (simp_all add: sample_root_at sample_dir_blocks)
  obtain d' I where "cp sample_env [9] sample_file [47, 120] [47, 103] sample = Inr (0, d')" "card I \<le> 1"
    "free_blocks d' = free_blocks sample \<union> {7} - I" "read_file d' 6528 3 = [1, 2, 3]" "file_head d' 6528 3"
    using cp_replaces_file [OF sample_ok _ _ p(2) _ p(1) _ q _ _ w, of sample_env sample_file 1 "[9]" "[47, 120]", unfolded p(3)] sample_enough
    by (auto simp: sample_root_at sample_layout sample_file sample_free p(4) join_path_def numeral_3_eq_3 insert_commute)
  then show ?thesis using sample_links by (intro exI [of _ d'] exI [of _ I]) (auto simp: sample_free file_head_def)
qed

text \<open>C9: \<open>ext2_rm -r\<close> removes a directory with everything below it, when the tree satisfies
  \<open>removable\<close>.  Every name in the tree is followed by a zero byte inside its own entry: the
  format does not ask for one, but \<open>remove_entry\<close> appends names to its path with \<open>strcat\<close>
  (ext2_rm.c:128), which without the byte reads on into the next bytes.  No entry is met twice
  and no inode has two names in the tree.  A name is that of the entry a lookup finds.  All paths
  are shorter than \<open>PATH_MAX\<close>.  The first block of each directory keeps two entries in use, as
  \<open>.\<close> and \<open>..\<close> are.  The directories and the files that lose their last name have no reserved
  inode number and no triple indirect block, and their blocks lie behind the table of inodes,
  those of the files apart from the entries removed.  Then every entry of the tree is cleared, the inodes of its directories
  and of the files whose last name was in it become free, and so do exactly their blocks; the
  directory above lists all its other entries as before, and no other byte behind the table of
  inodes changes. The recursion has fuel for every path shorter than \<open>PATH_MAX\<close>.\<close>

theorem rm_removes_tree:
  assumes "fs_ok d" and "removable d E cs as k pess nm n"
  shows "\<exists>d'. rm E True (join_path (cs @ [nm])) d = Inr (0, d') \<and> fs_ok d' \<and>
    free_blocks d' = free_blocks d \<union> bits_of (n_blocks d n) \<and> free_inodes d' = free_inodes d \<union> n_freed d n \<and>
    (\<forall>z \<in> set (n_entries n). get 4 z d' = (0 :: u32)) \<and> dir_ok d' (inode_at d k) pess \<and>
    listing d' (concat pess) = listing d (filter (\<lambda>z. z \<notin> set (n_entries n)) (concat pess)) \<and>
    (\<forall>x \<ge> table_end d. off_entries (set (n_entries n)) x \<longrightarrow> d' x = d x)"
proof -
  obtain d' where d': "rm E True (join_path (cs @ [nm])) d = Inr (0, d')"
    "reduced (insert k (set (n_inodes n))) (set (n_entries n)) (n_blocks d n) (n_freed d n) d d'"
    "dir_ok d' (inode_at d k) pess" "listing d' (concat pess) = listing d (filter (\<lambda>z. z \<notin> set (n_entries n)) (concat pess))"
    using rm_tree_run [OF assms] by blast
  have "\<forall>x \<ge> table_end d. off_entries (set (n_entries n)) x \<longrightarrow> d' x = d x" using reduced_behind [OF d'(2)] by blast
  then show ?thesis using d' by (intro exI [of _ d']) (simp add: reduced_def)
qed

theorem rm_removes_tree_witness:
  "\<exists>d'. rm sample_env True [47, 100] tree_sample = Inr (0, d') \<and> free_blocks d' = {7, 8, 9} \<and> free_inodes d' = {11, 12, 13} \<and>
    listing d' tree_root = [([46], 2, 2), ([46, 46], 2, 2)]"
proof -
  have "bits_of (n_blocks tree_sample tree_node) = {7, 8}"
    using tree_last by (simp add: tree_node_def file_blocks_def tree_inode_at tree_numbers bits_of_def insert_Diff_if insert_commute)
  moreover have "n_freed tree_sample tree_node = {11, 12}" using tree_last by (auto simp: tree_node_def)
  moreover have "listing tree_sample [7168, 7180] = [([46], 2, 2), ([46, 46], 2, 2)]"
  proof -
    have "e_file_type tree_sample 7168 = 2" "e_file_type tree_sample 7180 = 2"
      by (simp_all add: e_file_type_def de_file_type_def tree_at)
    then show ?thesis by (simp add: listing_def unused_def entry_view_def tree_fields)
  qed
  ultimately show ?thesis
    using rm_removes_tree [OF tree_ok tree_removable [of sample_env]]
    by (auto simp: join_path_def SLASH_def tree_removed tree_free)
qed

text \<open>C10: \<open>add_to_blocks\<close>, the loop over \<open>allocate_space_in_block\<close> of all commands, either puts the
  new entry into the directory, keeping every entry in use and its order and changing bytes of
  the directory's blocks only, or finds every block full and changes nothing. The hypothesis
  \<open>roomy\<close> excludes the two cases in which the code overruns an entry.\<close>

theorem add_to_directory:
  assumes "dir_ok d inode ess" "dir_sep d inode" and "length nm < 256" "ino \<noteq> 0"
    and "\<forall>es \<in> set ess. roomy d es (length nm)"
  shows "add_to_blocks inode ino nm ft d = Inr (False, d) \<and> (\<forall>es \<in> set ess. full d (length nm) es) \<or>
    (\<exists>d' ess' l1 l2. add_to_blocks inode ino nm ft d = Inr (True, d') \<and> dir_ok d' inode ess' \<and>
      dir_blocks d' inode = dir_blocks d inode \<and>
      listing d (concat ess) = l1 @ l2 \<and> listing d' (concat ess') = l1 @ (nm, ino, ft) # l2 \<and>
      (\<forall>x. outside_blocks (dir_blocks d inode) x \<longrightarrow> d' x = d x))"
  by (rule add_to_blocks_run [OF assms])

theorem add_to_directory_witness:
  "\<exists>d' ess' l1 l2. add_to_blocks sample_root 13 [120] 1 sample = Inr (True, d') \<and> dir_ok d' sample_root ess' \<and>
    l1 @ l2 = [([46], 2, 2), ([46, 46], 2, 2), ([102], 12, 1), ([103], 12, 1)] \<and>
    listing d' (concat ess') = l1 @ ([120], 13, 1) # l2"
proof -
  have "dir_ok sample sample_root [sample_entries]" using sample_used by (simp add: used_dir_def)
  moreover have "dir_sep sample sample_root"
    by (auto simp: dir_sep_def sample_dir_blocks outside_blocks_def INODE_SIZE_def EXT2_BLOCK_SIZE_def)
  ultimately obtain d' ess' l1 l2 where "add_to_blocks sample_root 13 [120] 1 sample = Inr (True, d')" "dir_ok d' sample_root ess'"
    "listing sample sample_entries = l1 @ l2" "listing d' (concat ess') = l1 @ ([120], 13, 1) # l2"
    using add_to_directory [of sample sample_root "[sample_entries]" "[120]" 13 1] sample_room by auto
  then show ?thesis
    using sample_listing by (intro exI [of _ d'] exI [of _ ess'] exI [of _ l1] exI [of _ l2]) simp
qed

text \<open>C11: \<open>update_bitmap\<close> sets or clears the bit of the given number and no other bit, whatever it was,
  and keeps both free counts, in the super block and in the group descriptor, equal to the number
  of clear bits.\<close>

theorem update_bitmap_contract:
  assumes "counts_ok ty n d" and "i < n"
  shows "\<exists>d'. update_bitmap ty (TO_NUMBER i) v d = Inr d' \<and> counts_ok ty n d' \<and>
    (\<forall>j < BITS. marked ty d' j \<longleftrightarrow> (if j = i then v else marked ty d j))"
proof -
  have o: "bitmap_ok ty d" "n \<le> BITS" "i < BITS" using assms by (auto simp: counts_ok_def)
  have n: "unat (TO_NUMBER i) = i + 1" by (rule unat_to_number [OF o(3)])
  then have "TO_NUMBER i \<noteq> 0" by auto
  then have "update_bitmap ty (TO_NUMBER i) v d = Inr (with_bit ty i v d)"
    using update_bitmap_run [OF o(1), of "TO_NUMBER i" v] n o(3) by simp
  then show ?thesis using with_bit_counts_ok [OF assms] with_bit_marked [OF o(1,3)] by auto
qed

theorem update_bitmap_contract_witness:
  "\<exists>d'. update_bitmap CHR ''b'' 10 True sample = Inr d' \<and> counts_ok CHR ''b'' 10 d' \<and> marked CHR ''b'' d' 9 \<and>
    \<not> marked CHR ''b'' d' 8"
proof -
  have c: "counts_ok CHR ''b'' 10 sample" using sample_ok by (simp add: fs_ok_def sample_layout)
  have n: "TO_NUMBER 9 = 10" by (simp add: TO_NUMBER_def)
  obtain d' where "update_bitmap CHR ''b'' (TO_NUMBER 9) True sample = Inr d'" "counts_ok CHR ''b'' 10 d'"
    "\<forall>j < BITS. marked CHR ''b'' d' j \<longleftrightarrow> (if j = 9 then True else marked CHR ''b'' sample j)"
    using update_bitmap_contract [OF c, of 9 True] by auto
  then show ?thesis using n sample_marked(1) [of 8] by (auto simp: BITS_def EXT2_BLOCK_SIZE_def)
qed

text \<open>Searching for a free block and marking it takes the least number that is not marked; the
  image stays well-formed, no other block or inode changes its state, and no byte from the table of
  inodes on changes. When nothing is free the search says 0. The same holds for inodes.\<close>

theorem allocation_takes_least_free:
  assumes "fs_ok d"
  shows "(if free_blocks d = {} then find_free_block d = Inr 0
    else \<exists>i d'. find_free_block d = Inr (TO_NUMBER i) \<and> update_bitmap CHR ''b'' (TO_NUMBER i) True d = Inr d' \<and>
      i \<in> free_blocks d \<and> (\<forall>j \<in> free_blocks d. i \<le> j) \<and> fs_ok d' \<and> free_blocks d' = free_blocks d - {i} \<and>
      free_inodes d' = free_inodes d \<and> (\<forall>a \<ge> table_addr d. d' a = d a)) \<and>
    (if free_inodes d = {} then find_free_inode d = Inr 0
    else \<exists>i d'. find_free_inode d = Inr (TO_NUMBER i) \<and> update_bitmap CHR ''i'' (TO_NUMBER i) True d = Inr d' \<and>
      i \<in> free_inodes d \<and> (\<forall>j \<in> free_inodes d. i \<le> j) \<and> fs_ok d' \<and> free_inodes d' = free_inodes d - {i} \<and>
      free_blocks d' = free_blocks d \<and> (\<forall>a \<ge> table_addr d. d' a = d a))"
proof (rule conjI)
  show "if free_blocks d = {} then find_free_block d = Inr 0
    else \<exists>i d'. find_free_block d = Inr (TO_NUMBER i) \<and> update_bitmap CHR ''b'' (TO_NUMBER i) True d = Inr d' \<and>
      i \<in> free_blocks d \<and> (\<forall>j \<in> free_blocks d. i \<le> j) \<and> fs_ok d' \<and> free_blocks d' = free_blocks d - {i} \<and>
      free_inodes d' = free_inodes d \<and> (\<forall>a \<ge> table_addr d. d' a = d a)"
  proof (cases "free_blocks d = {}")
    case False
    then show ?thesis unfolding if_not_P [OF False] using take_block [OF assms False] by blast
  qed (simp add: no_free_block [OF assms])
  show "if free_inodes d = {} then find_free_inode d = Inr 0
    else \<exists>i d'. find_free_inode d = Inr (TO_NUMBER i) \<and> update_bitmap CHR ''i'' (TO_NUMBER i) True d = Inr d' \<and>
      i \<in> free_inodes d \<and> (\<forall>j \<in> free_inodes d. i \<le> j) \<and> fs_ok d' \<and> free_inodes d' = free_inodes d - {i} \<and>
      free_blocks d' = free_blocks d \<and> (\<forall>a \<ge> table_addr d. d' a = d a)"
  proof (cases "free_inodes d = {}")
    case False
    then show ?thesis unfolding if_not_P [OF False] using take_inode [OF assms False] by blast
  qed (simp add: no_free_inode [OF assms])
qed

theorem allocation_takes_least_free_witness:
  "find_free_block sample = Inr 9 \<and> find_free_inode sample = Inr 13"
proof -
  have b: "\<forall>j \<in> {8, 9}. i \<le> j \<Longrightarrow> i \<in> {8, 9} \<Longrightarrow> i = 8" and c: "\<forall>j \<in> {12, 13}. i \<le> j \<Longrightarrow> i \<in> {12, 13} \<Longrightarrow> i = 12" for i :: nat by auto
  show ?thesis
    using allocation_takes_least_free [OF sample_ok] b c unfolding sample_free by (auto simp: TO_NUMBER_def)
qed

text \<open>C29: \<open>find_dir_entry\<close> follows the components of a path through the directories: it returns the entry
  they lead to, and the null pointer when the last one is not in the directory the others lead to.\<close>

theorem find_dir_entry_walk:
  assumes "fs_ok d" and "\<forall>c \<in> set cs. component c"
  shows "(reaches d 1 cs e \<longrightarrow> find_dir_entry (join_path cs) d = Inr (Some e)) \<and>
    (component nm \<and> dir_path d cs k \<and> k < inode_count d \<and> used_dir d (inode_at d k) ess \<and>
      nm \<notin> fst ` set (listing d (concat ess)) \<longrightarrow> find_dir_entry (join_path (cs @ [nm])) d = Inr None)"
  using lookup_run [OF assms(1) _ assms(2)] lookup_missing [OF assms] by blast

theorem find_dir_entry_walk_witness:
  "find_dir_entry [47, 46, 46, 47, 103] sample = Inr (Some 7204) \<and> find_dir_entry [47, 120] sample = Inr None"
proof -
  have n: "(2 :: u32) = TO_NUMBER 1" by (simp add: TO_NUMBER_def)
  have u: "1 < inode_count sample" "used_dir sample (inode_at sample 1) [sample_entries]"
    using sample_used by (simp_all add: sample_layout sample_root_at)
  have dd: "find (names sample [46, 46]) (concat [sample_entries]) = Some 7180" by (simp add: names_def sample_entry_fields)
  have g: "find (names sample [103]) (concat [sample_entries]) = Some 7204" using sample_find by simp
  have "reaches sample 1 [[46, 46], [103]] 7204"
    by (rule reaches.below [OF u dd _ reaches.here [OF u g]]) (simp add: sample_entry_fields n)
  moreover have "\<forall>c \<in> set [[46, 46], [103]]. component c" "component [120]" by (simp_all add: component_def SLASH_def)
  ultimately show ?thesis
    using find_dir_entry_walk [OF sample_ok, of "[[46, 46], [103]]" 7204]
      find_dir_entry_walk [OF sample_ok, of "[]" 0 "[120]" 1 "[sample_entries]"] u sample_listing
    by (auto simp: join_path_def SLASH_def dir_path_def)
qed

text \<open>C30: \<open>ext2_ls\<close> prints the names of the entries in use of the directory, in order; without \<open>-a\<close> those
  named \<open>.\<close> and \<open>..\<close> are left out.\<close>

theorem ls_lists_directory:
  assumes "fs_ok d" "slack E" and "\<forall>c \<in> set cs. component c" and "into_dir d [] path cs k"
    and "k < inode_count d" "used_dir d (inode_at d k) ess"
  shows "ls E flag path d = Inr (0, printed flag (listing d (concat ess)))"
  by (rule ls_run [OF assms])

theorem ls_lists_directory_witness:
  "ls sample_env False [47] sample = Inr (0, [[102], [103]]) \<and>
   ls sample_env True [47, 46, 46] sample = Inr (0, [[46], [46, 46], [102], [103]])"
proof -
  have n: "(2 :: u32) = TO_NUMBER 1" by (simp add: TO_NUMBER_def)
  have u: "1 < inode_count sample" "used_dir sample (inode_at sample 1) [sample_entries]"
    using sample_used by (simp_all add: sample_layout sample_root_at)
  have dd: "find (names sample [46, 46]) (concat [sample_entries]) = Some 7180" by (simp add: names_def sample_entry_fields)
  have "reaches sample 1 [[46, 46]] 7180" by (rule reaches.here [OF u dd])
  then have "into_dir sample [] [47, 46, 46] [[46, 46]] 1"
    by (auto simp: into_dir_def join_path_def SLASH_def sample_entry_fields n EXT2_FT_DIR_def intro!: exI [of _ 7180])
  moreover have "into_dir sample [] [47] [] 1" by (simp add: into_dir_def SLASH_def)
  moreover have "\<forall>c \<in> set [[46, 46]]. component c" by (simp add: component_def SLASH_def)
  moreover have "printed False (listing sample sample_entries) = [[102], [103]]"
    "printed True (listing sample sample_entries) = [[46], [46, 46], [102], [103]]"
    unfolding sample_listing by (simp_all add: printed_def up_to_zero_def dot_name_def DOT_def)
  ultimately show ?thesis
    using ls_lists_directory [OF sample_ok, of sample_env "[]" "[47]" 1 "[sample_entries]" False]
      ls_lists_directory [OF sample_ok, of sample_env "[[46, 46]]" "[47, 46, 46]" 1 "[sample_entries]" True] u by simp
qed

text \<open>C31: The results of \<open>ext2_mkdir\<close> are its six error codes; a path that exists gives \<open>EEXIST\<close>, a
  relative one \<open>EINVAL\<close>, and the checks before the first change leave the image as it was.\<close>

theorem mkdir_rejects:
  assumes "mkdir E path d = Inr (r, d')"
  shows "r \<in> {0, EINVAL, EEXIST, ENOENT, ENAMETOOLONG, ENOSPC} \<and>
    (r \<in> {EINVAL, EEXIST, ENAMETOOLONG} \<longrightarrow> d' = d) \<and> (\<not> is_absolute path \<longleftrightarrow> r = EINVAL) \<and>
    (is_absolute path \<longrightarrow> (find_dir_entry path d \<noteq> Inr None \<longleftrightarrow> r = EEXIST))"
  using mkdir_results [OF assms] mkdir_codes [OF assms] by blast

theorem mkdir_rejects_witness:
  "mkdir sample_env [120] sample = Inr (EINVAL, sample) \<and> \<not> is_absolute [120]"
proof -
  have "mkdir sample_env [120] sample = Inr (EINVAL, sample)" by (simp add: mkdir_def is_absolute_def SLASH_def)
  then show ?thesis using mkdir_rejects by blast
qed

text \<open>An entry of length 0 stops the search of a directory block for ever: whatever the number of
  rounds, the loop has not ended, unless the entry is the one looked for.\<close>

theorem empty_entry_never_ends:
  assumes "dir + 8 + unat (e_name_len d dir) \<le> DISK_SIZE" and "e_rec_len d dir = 0" and "\<not> names d s dir"
    and "pos < EXT2_BLOCK_SIZE"
  shows "\<forall>k. locate_in_block k (Some s) pos dir d = Inl Out_Of_Fuel"
  using locate_stuck [OF assms] by blast

theorem empty_entry_never_ends_witness:
  "locate_in_block 1000000 (Some [102]) 0 8192 sample = Inl Out_Of_Fuel"
proof -
  have "e_name_len sample 8192 = 0" "e_rec_len sample 8192 = 0" "e_inode sample 8192 = 0"
    by (simp_all add: e_name_len_def e_rec_len_def e_inode_def field_defs get_2 get_4 sample_at)
  then show ?thesis
    using empty_entry_never_ends [of 8192 sample "[102]" 0] by (simp add: names_def disk_size)
qed

text \<open>C33: \<open>allocate_space_in_block\<close> reuses the first unused entry although the new name does not fit into
  it, and says that it succeeded: the name then runs over the entry that follows.\<close>

theorem reused_entry_overruns:
  assumes "dir_block d (block_ptr bn) (xs @ a # ys)" and "\<forall>x \<in> set xs. \<not> unused d x" "unused d a"
    and "length nm < 256" and "e_rec_len d a < entry_size (of_nat (length nm))" and "a + 8 + length nm \<le> DISK_SIZE"
  shows "\<exists>d'. allocate_space_in_block (of_nat (length nm)) bn ino nm ft d = Inr (True, d') \<and>
    e_name d' a = nm \<and> \<not> entry_fits d' a"
  by (rule reuse_overruns [OF assms])

theorem reused_entry_overruns_witness:
  "\<exists>d'. allocate_space_in_block 100 7 13 (replicate 100 120) 1 (put 7192 (store_le 4 (0 :: u32)) sample) = Inr (True, d') \<and>
    e_name d' 7192 = replicate 100 120 \<and> \<not> entry_fits d' 7192"
proof -
  let ?d = "put 7192 (store_le 4 (0 :: u32)) sample"
  have e: "sample_entries = [7168, 7180] @ 7192 # [7204]" by simp
  have blk: "dir_block ?d 7168 ([7168, 7180] @ 7192 # [7204])"
    by (rule clear_in_block(1) [OF sample_block [unfolded e]]) (simp add: unused_def sample_entry_fields)
  have f: "e_inode ?d 7168 = 2" "e_inode ?d 7180 = 2" "e_inode ?d 7192 = 0" "e_rec_len ?d 7192 = 12"
    using sample_entry_fields
    by (simp_all add: e_inode_def e_rec_len_def de_inode_def de_rec_len_def get_put_other get_put_same)
  have b: "block_ptr 7 = 7168" by (simp add: block_ptr_def EXT2_BLOCK_SIZE_def)
  have s: "entry_size 100 = 108" by (simp add: entry_size_def round4_def)
  show ?thesis
    using reused_entry_overruns [of ?d 7 "[7168, 7180]" 7192 "[7204]" "replicate 100 120" 13 1] blk f b s
    by (simp add: unused_def disk_size)
qed



text \<open>C25: \<open>readimage\<close> on a well-formed image prints exactly this: the header with the counts of
  inodes and blocks, the numbers of the bitmap blocks and of the first block of the table, and
  the numbers of free blocks, free inodes and directories; the two bitmaps bit by bit; for the root
  and each inode that is not reserved, whose size is not 0 (and for which the comparison with the
  undeclared member holds, the parameter \<open>h\<close>), its number, type, size, links and sectors, then the
  block numbers it holds, and after that of the indirect block those the indirect block holds; and
  for each directory that is allocated, the entries of the blocks its direct pointers name, so
  that every such entry has its line.\<close>

theorem readimage_dumps:
  assumes "fs_ok d" and "bitmaps_plain d" and "dirs_ok d E" and "indirect_ok d"
  shows "readimage h d = Inr (header_text d @ bitmaps_text d @ inodes_text h d @ directories_text d E) \<and>
    (\<forall>i k b a. i < inode_count d \<longrightarrow> dumped d i \<longrightarrow> k < 12 \<longrightarrow> inode_block d (inode_at d i) k = b \<longrightarrow> b \<noteq> 0 \<longrightarrow>
       a \<in> set (E b) \<longrightarrow> (\<exists>pre post. directories_text d E = pre @ entry_text d (block_start b) a @ post))"
  using readimage_run [OF assms, of h] entry_dumped [of _ d _ _ _ E] by blast

theorem readimage_dumps_witness:
  "readimage (\<lambda>_ _. True) sample =
      Inr (header_text sample @ bitmaps_text sample @ inodes_text (\<lambda>_ _. True) sample @ directories_text sample sample_dirs) \<and>
    (\<exists>pre post. directories_text sample sample_dirs = pre @ entry_text sample 7168 7204 @ post)"
proof -
  note r = readimage_dumps [OF sample_ok sample_bitmaps_plain sample_dirs_ok sample_indirect_ok, of "\<lambda>_ _. True"]
  have b: "inode_block sample (inode_at sample 1) 0 = 7" using sample_pointers [of 0] by (simp add: sample_root_at)
  have s: "block_start 7 = 7168" by (simp add: EXT2_BLOCK_SIZE_def)
  have "\<exists>pre post. directories_text sample sample_dirs = pre @ entry_text sample (block_start 7) 7204 @ post"
    using conjunct2 [OF r, rule_format, of 1 0 7 7204] sample_dumped(1) b by (simp add: sample_layout sample_dirs_def)
  then show ?thesis unfolding s using r by blast
qed

end
