(* ===== verification/Spec2Isabelle.thy ===== *)
theory Spec2Isabelle
  imports Mem_Props Int_Props Trace_Props Ext2_Props
begin

text \<open>
  Verification library of the programs in this repository: a simulator of virtual memory
  with the programs whose traces it reads, a Linux kernel module that intercepts system calls,
  and commands that work on an image of an EXT2 file system.

  Conventions. A C struct is a record, an unsigned integer is a word of its width, a signed
  one an \<open>int\<close>. An operation takes the state and returns \<open>fault + result\<close>: a fault is an
  \<open>exit(1)\<close>, a failed assertion, an access out of bounds, through a null pointer or to freed
  memory, or a lock taken twice (\<open>C_Prelude\<close>). Loops are structural recursion or recursion
  with a measure; the loops over pointers and the clock hand run on fuel, and the theorems
  about them show that the fuel given suffices.

  Memory management simulator (src/Memory_Management_Simulator).
  \<^item> \<open>Mem_Bitmap\<close>, \<open>Mem_Swap\<close> (swap.c): the slot bitmap with the contract \<open>slot_allocator\<close>, the
    swap file as a list of bytes.
  \<^item> \<open>Mem_State\<close>, \<open>Mem_PageTable\<close> (pagetable.h, pagetable.c): the globals as the record \<open>sim\<close>,
    page table entries in a store by address, \<open>allocate_frame\<close>, \<open>find_physpage\<close>.
  \<^item> \<open>Mem_Inv\<close>, \<open>Mem_Evict\<close>, \<open>Mem_Replace\<close>, \<open>Mem_Access\<close>, \<open>Mem_Fault\<close>: the invariant of the page
    tables, frames and swap slots, the contract \<open>replacement\<close> of the replacement algorithms, and
    \<open>find_physpage\<close> proved once for all algorithms that satisfy it.
  \<^item> \<open>Mem_Fifo\<close> (fifo.c, rand.c), \<open>Mem_Clock\<close> (clock.c), \<open>Mem_Lru\<close> (lru.c): the algorithms, their
    behaviour, and the interpretations of the contract.
  \<^item> \<open>Mem_Opt\<close>, \<open>Mem_Belady\<close> (opt.c): the optimal algorithm; inserting into its list of pages
    sorted by next use, and taking the first. \<open>Mem_Scan\<close>: what \<open>opt_init\<close> records of the trace, and the
    first reference of a run.
  \<^item> \<open>Mem_Paging\<close>, \<open>Mem_Opt_Step\<close>, \<open>Mem_Opt_Run\<close>: demand paging on sets of pages, where evicting the page
    used latest never costs a miss more than any other choice; \<open>opt_ref\<close> and \<open>opt_evict\<close> keep the list
    sorted through a run, so that a run with opt, where blocks that were freed can still be read, is demand
    paging by this rule. \<open>opt_ref\<close> takes the address from its own place of the trace and not from its
    argument; its interpretation of \<open>replacement\<close> therefore follows it on the calls in which the two
    are the same page, and all calls of a run are such.
  \<^item> \<open>Mem_Sim\<close>, \<open>Mem_Replay\<close>, \<open>Mem_Main\<close> (sim.c): one access against an abstract memory of
    versions, the reading of the trace, the whole run. \<open>Mem_Supply\<close>: the supply of memory and swap
    slots with which no run ends in \<open>exit(1)\<close>.
  \<^item> \<open>Mem_Order\<close>, \<open>Mem_Cache\<close>: lru and fifo as queues of frames (the contract \<open>queue_replacement\<close>, which
    extends \<open>replacement\<close>); a run has the misses of the same queue of pages, and with lru more memory
    never misses more.
  \<^item> \<open>C_Text\<close>, \<open>Mem_Print\<close>: the conversions of \<open>printf\<close> and \<open>strtoul\<close>, the dumps of pagetable.c, the options and
    the output of the program as a whole.
  \<^item> \<open>Mem_Samples\<close>, \<open>Mem_Props\<close>: concrete states and the properties.
  Files and library calls: \<open>os_env\<close> says which calls of \<open>posix_memalign\<close> and \<open>malloc\<close> succeed and
  how long the swap file may grow; \<open>config\<close> holds the parsed options and the input. The options
  come as the list of results of \<open>getopt\<close>.

  System call interceptor (src/System_Call_Interceptor/interceptor.c).
  \<^item> \<open>Int_Model\<close>: the tables, locks and lists, and \<open>my_syscall\<close> as critical sections in sequence.
  \<^item> \<open>Int_Module\<close>: the interceptor, the exit hook, dispatch of a call, module entry and exit.
  \<^item> \<open>Int_Inv\<close>, \<open>Int_Spec\<close>: the invariant, the abstract view (which calls are intercepted, and the
    pids watched for each) and the proof that \<open>my_syscall\<close> implements its specification.
  \<^item> \<open>Int_Run\<close>, \<open>Int_Calls\<close>, \<open>Int_Race\<close>: module entry and sequences of requests; what processes
    see; module exit, the request past the table, and two requests at once.
  \<^item> \<open>Int_Threads\<close>, \<open>Int_Sched\<close>, \<open>Int_Serial\<close>: requests that run at the same time. A step of the machine
    is one critical section of one request (\<open>thread_step\<close>); any request may take the next step
    (\<open>tick\<close>; \<open>schedule\<close> records which one does, so that the steps of each request can be counted). A request
    to intercept the number \<open>NR_syscalls\<close> is let through and accesses the table past its end: it is the one
    way in which a section faults. The sections of one request in a row are \<open>my_syscall\<close>. Accesses within a section
    are not interleaved with those of another; sections under different locks share only the flag
    \<open>monitored\<close> of an entry, which is read and written as a whole.
  \<^item> \<open>Int_Props\<close>: the properties.

  Programs that produce traces (src/Memory_Management_Simulator/traceprogs).
  \<^item> \<open>Trace_Matmul\<close>, \<open>Trace_Blocked\<close>, \<open>Trace_Simple\<close>, \<open>Trace_Props\<close> (matmul.c, blocked.c, simpleloop.c,
    overflow.c): the matrix programs over any addition and multiplication, so that their results
    are equal whatever the rounding, and the loops over arrays. \<open>Trace_Main\<close>, \<open>Trace_Output\<close>: the
    programs from their arguments to their output. What they find outside is the record \<open>trace_env\<close>:
    the marker file, \<open>malloc\<close>, the random values, printing of \<open>double\<close>, the elapsed time; \<open>layout\<close> says
    where the variables of overflow.c lie. Its loop gets 7 rounds and needs 6.

  File system commands (src/EXT2_File_System).
  \<^item> \<open>Ext2_Disk\<close> (ext2.h): the image as bytes by address, a structure as the address of its first
    byte, checked loads and stores. \<open>Ext2_General\<close> (ext2general.c): the library, every function.
  \<^item> \<open>Ext2_Mkdir\<close> (ext2_mkdir.c, ext2_ls.c), \<open>Ext2_Rm\<close> (ext2_rm.c), \<open>Ext2_Ln\<close> (ext2_ln.c), \<open>Ext2_Cp\<close>
    (ext2_cp.c): the commands; the result is the exit code and the image, for ls the lines printed.
  \<^item> \<open>Ext2_Bits\<close>, \<open>Ext2_Layout\<close>: the bitmaps as sets of marked numbers, the free counts; \<open>fs_ok\<close>, an
    image with bitmaps, table of inodes and free blocks in this order, and taking what is free.
  \<^item> \<open>Ext2_Dir\<close>, \<open>Ext2_Alloc\<close>, \<open>Ext2_Add\<close>, \<open>Ext2_Listing\<close>: the entries of a directory block as a list;
    lookup is a search of the list, a new entry an insertion, and ls prints it.
  \<^item> \<open>Ext2_Path\<close>: paths as lists of components, the walk from the root directory.
  \<^item> \<open>Ext2_Copy\<close>, \<open>Ext2_Create\<close>, \<open>Ext2_Grow\<close>, \<open>Ext2_Make\<close>: copying a file and reading it back; new
    inodes, the entry in a directory with room and in one whose blocks are all full; the new
    directory and the copy. \<open>Ext2_Unlink\<close>, \<open>Ext2_Commands\<close>: removing a link, the commands from
    their paths on.
  \<^item> \<open>Ext2_Link\<close>, \<open>Ext2_Symlink\<close>, \<open>Ext2_Free\<close>, \<open>Ext2_Replace\<close>: making a hard link, and a symbolic link
    that leads back to its file; freeing the blocks of a file, direct and through pointer
    blocks, and removing its last name; cp onto an existing file.
  \<^item> \<open>Ext2_Reduce\<close>, \<open>Ext2_Tree\<close>, \<open>Ext2_Prune\<close>: rm -r. \<open>reduced\<close> relates the image to the one the run started
    with: what has been freed, which entries are cleared, which heads of inodes changed. Paths lead
    where they led; one entry of each kind is removed; the induction over the tree of entries.
  \<^item> \<open>Ext2_Image\<close>, \<open>Ext2_Dump\<close> (readimage.c): the dump of an image as the text printed, and what it is
    on a well-formed image.
  \<^item> \<open>Ext2_Faults\<close>: inputs and images the code does not foresee. \<open>Ext2_Samples\<close>,
    \<open>Ext2_Tree_Sample\<close>, \<open>Ext2_Props\<close>: small images and the properties.
  Fuel: a directory block has at most 128 entries of 8 bytes or more, and the loops over entries get
  1025 rounds or more; only an entry of length 0 exhausts them. The recursion of rm gets
  \<open>PATH_MAX * DISK_SIZE\<close> rounds, enough for every tree whose paths are shorter than \<open>PATH_MAX\<close>, and the chain of symbolic links that ln follows the fuel given.
  \<open>slack\<close> says whether the byte behind a local array may be written, which every command does that
  copies its path.

  Not modelled: the script fastslim.py, which filters the output of valgrind; messages on stderr. The member \<open>inode\<close> of \<open>struct ext2_inode\<close> that readimage.c tests and ext2.h does not
  declare is a parameter. Modelled, but without a theorem about the whole command: a hard
  link when the directory needs a new block, which is then stored without its \<open>name_len\<close>.
\<close>

end
